(* ===== verification/Dominion_Prelude.thy ===== *)
theory Dominion_Prelude
  imports
    Main
    "HOL-Library.Word"
    "HOL-Library.List_Lexorder"
    "HOL-Library.Product_Lexorder"
begin

text \<open>
  Shared vocabulary of the DominionOS development.  It fixes how the Rust types of
  \<^verbatim>\<open>dominion-core\<close> are read in HOL (machine integers as words, byte buffers as lists of
  8-bit words, \<^verbatim>\<open>Result\<close> as a sum, \<^verbatim>\<open>str\<close> as its UTF-8 bytes) and collects the generic
  facts on words, byte order, slices and UTF-8 that the component theories share.

  Indices and lengths of in-memory buffers (\<^verbatim>\<open>usize\<close>) are natural numbers: a Rust slice
  is never longer than \<open>2 ^ 63 - 1\<close> bytes, so index sums over existing buffers do not wrap.
  Wherever a \<^verbatim>\<open>u32\<close> or \<^verbatim>\<open>u64\<close> value comes from outside, or is stored, it is kept at its width.
\<close>

unbundle bit_operations_syntax

named_theorems codec_simps \<open>rewriting rules of the byte codecs\<close>
named_theorems inv_intros \<open>preservation of component invariants\<close>

subsection \<open>Machine types and results\<close>

type_synonym u8 = "8 word"
type_synonym u32 = "32 word"
type_synonym u64 = "64 word"
type_synonym bytes = "u8 list"

text \<open>A Rust \<^verbatim>\<open>str\<close>/\<^verbatim>\<open>String\<close> is its UTF-8 byte sequence; its ordering is bytewise.\<close>

type_synonym rstring = "u8 list"

abbreviation Ok :: "'a \<Rightarrow> 'e + 'a" where "Ok \<equiv> Inr"
abbreviation Err :: "'e \<Rightarrow> 'e + 'a" where "Err \<equiv> Inl"

text \<open>The \<^verbatim>\<open>?\<close> operator: an error returns at once.\<close>

definition rbind :: "'e + 'a \<Rightarrow> ('a \<Rightarrow> 'e + 'b) \<Rightarrow> 'e + 'b" where
  "rbind m f = (case m of Inl e \<Rightarrow> Inl e | Inr x \<Rightarrow> f x)"

lemma rbind_simps [simp]:
  "rbind (Inl e) f = Inl e"
  "rbind (Inr x) f = f x"
  by (simp_all add: rbind_def)

lemma rbind_Ok_iff: "rbind m f = Inr y \<longleftrightarrow> (\<exists>x. m = Inr x \<and> f x = Inr y)"
  by (cases m) auto

text \<open>\<^verbatim>\<open>Option::ok_or\<close> and \<^verbatim>\<open>Result::ok\<close>.\<close>

definition ok_or :: "'a option \<Rightarrow> 'e \<Rightarrow> 'e + 'a" where
  "ok_or m e = (case m of None \<Rightarrow> Inl e | Some x \<Rightarrow> Inr x)"

definition result_ok :: "'e + 'a \<Rightarrow> 'a option" where
  "result_ok m = (case m of Inl _ \<Rightarrow> None | Inr x \<Rightarrow> Some x)"

lemma ok_or_simps [simp]: "ok_or None e = Inl e" "ok_or (Some x) e = Inr x"
  by (simp_all add: ok_or_def)

lemma result_ok_simps [simp]: "result_ok (Inl e) = None" "result_ok (Inr x) = Some x"
  by (simp_all add: result_ok_def)

subsection \<open>Checked and saturating arithmetic\<close>

definition checked_add :: "'a::len word \<Rightarrow> 'a word \<Rightarrow> 'a word option" where
  "checked_add a b = (if unat a + unat b < 2 ^ LENGTH('a) then Some (a + b) else None)"

definition saturating_add :: "'a::len word \<Rightarrow> 'a word \<Rightarrow> 'a word" where
  "saturating_add a b = (if unat a + unat b < 2 ^ LENGTH('a) then a + b else - 1)"

definition saturating_sub :: "'a::len word \<Rightarrow> 'a word \<Rightarrow> 'a word" where
  "saturating_sub a b = (if b \<le> a then a - b else 0)"

definition saturating_mul :: "'a::len word \<Rightarrow> 'a word \<Rightarrow> 'a word" where
  "saturating_mul a b = (if unat a * unat b < 2 ^ LENGTH('a) then a * b else - 1)"

lemma saturating_mul_code [code]:
  "saturating_mul a b = (if uint a * uint b < 2 ^ LENGTH('a) then a * b else - 1)" for a b :: "'a::len word"
proof -
  have "unat a * unat b < 2 ^ LENGTH('a) \<longleftrightarrow> int (unat a * unat b) < int (2 ^ LENGTH('a))"
    by (simp only: of_nat_less_iff)
  then show ?thesis by (simp add: saturating_mul_def)
qed

text \<open>The overflow tests on the wrapped sum, for evaluation.\<close>

lemma no_overflow_iff: "unat a + unat b < 2 ^ LENGTH('a) \<longleftrightarrow> a \<le> a + b" for a b :: "'a::len word"
  by (metis linorder_not_le no_olen_add_nat)

lemma checked_add_code [code]: "checked_add a b = (let c = a + b in if a \<le> c then Some c else None)"
  by (simp add: checked_add_def no_overflow_iff Let_def)

lemma saturating_add_code [code]: "saturating_add a b = (let c = a + b in if a \<le> c then c else - 1)"
  by (simp add: saturating_add_def no_overflow_iff Let_def)

lemma checked_add_Some_iff:
  "checked_add a b = Some c \<longleftrightarrow> unat c = unat a + unat b"
  for a b c :: "'a::len word"
proof
  assume "checked_add a b = Some c"
  then show "unat c = unat a + unat b"
    by (auto simp: checked_add_def unat_word_ariths split: if_splits)
next
  assume *: "unat c = unat a + unat b"
  moreover have "unat c < 2 ^ LENGTH('a)"
    by (rule unsigned_less)
  ultimately have "unat a + unat b < 2 ^ LENGTH('a)"
    by simp
  moreover from this * have "c = a + b"
    by (simp add: word_unat_eq_iff unat_word_ariths)
  ultimately show "checked_add a b = Some c"
    by (simp add: checked_add_def)
qed

lemma checked_add_None_iff:
  "checked_add a b = None \<longleftrightarrow> 2 ^ LENGTH('a) \<le> unat a + unat b"
  for a b :: "'a::len word"
  by (auto simp: checked_add_def)

lemma unat_saturating_add:
  "unat (saturating_add a b) = min (unat a + unat b) (2 ^ LENGTH('a) - 1)"
  for a b :: "'a::len word"
  by (auto simp: saturating_add_def unat_word_ariths unsigned_minus_1_eq_mask mask_eq_exp_minus_1)

lemma unat_saturating_sub: "unat (saturating_sub a b) = unat a - unat b"
  for a b :: "'a::len word"
  by (auto simp: saturating_sub_def unat_sub word_le_nat_alt)

lemma unat_saturating_mul:
  "unat (saturating_mul a b) = min (unat a * unat b) (2 ^ LENGTH('a) - 1)"
  for a b :: "'a::len word"
  by (auto simp: saturating_mul_def unat_word_ariths unsigned_minus_1_eq_mask mask_eq_exp_minus_1)

text \<open>Subset of bit masks, as \<^verbatim>\<open>(a & b) == a\<close>.\<close>

lemma and_eq_left_trans:
  fixes a b c :: "'a::len word"
  assumes "a AND b = a" and "b AND c = b"
  shows "a AND c = a"
  using assms by (metis and.assoc)

subsection \<open>Byte order\<close>

primrec le_bytes :: "nat \<Rightarrow> 'a::len word \<Rightarrow> bytes" where
  "le_bytes 0 w = []"
| "le_bytes (Suc n) w = ucast w # le_bytes n (drop_bit 8 w)"

primrec of_le_bytes :: "bytes \<Rightarrow> 'a::len word" where
  "of_le_bytes [] = 0"
| "of_le_bytes (b # bs) = ucast b OR push_bit 8 (of_le_bytes bs)"

abbreviation to_le_u32 :: "u32 \<Rightarrow> bytes" where "to_le_u32 \<equiv> le_bytes 4"
abbreviation to_le_u64 :: "u64 \<Rightarrow> bytes" where "to_le_u64 \<equiv> le_bytes 8"

definition be_bytes :: "nat \<Rightarrow> 'a::len word \<Rightarrow> bytes" where
  "be_bytes n w = rev (le_bytes n w)"

definition of_be_bytes :: "bytes \<Rightarrow> 'a::len word" where
  "of_be_bytes bs = of_le_bytes (rev bs)"

lemma length_le_bytes [simp]: "length (le_bytes n w) = n"
  by (induction n arbitrary: w) auto

lemma length_be_bytes [simp]: "length (be_bytes n w) = n"
  by (simp add: be_bytes_def)

lemma of_le_bytes_le_bytes: "of_le_bytes (le_bytes n w) = take_bit (8 * n) w"
proof (induction n arbitrary: w)
  case 0
  then show ?case by simp
next
  case (Suc n)
  show ?case
    by (rule bit_word_eqI) (auto simp: Suc bit_simps)
qed

lemma of_le_bytes_u32 [codec_simps, simp]: "of_le_bytes (to_le_u32 w) = w"
  by (simp add: of_le_bytes_le_bytes take_bit_word_eq_self)

lemma of_le_bytes_u64 [codec_simps, simp]: "of_le_bytes (to_le_u64 w) = w"
  by (simp add: of_le_bytes_le_bytes take_bit_word_eq_self)

lemma le_bytes_take_bit: "8 * n \<le> k \<Longrightarrow> le_bytes n (take_bit k w) = le_bytes n w"
proof (induction n arbitrary: k w)
  case 0
  then show ?case by simp
next
  case (Suc n)
  have "(ucast (take_bit k w) :: u8) = ucast w"
    using Suc.prems by (intro bit_word_eqI) (auto simp: bit_simps)
  moreover have "le_bytes n (drop_bit 8 (take_bit k w)) = le_bytes n (drop_bit 8 w)"
    using Suc.IH [of "k - 8" "drop_bit 8 w"] Suc.prems by (simp add: drop_bit_take_bit)
  ultimately show ?case by simp
qed

lemma le_bytes_of_le_bytes:
  "length bs = n \<Longrightarrow> 8 * n \<le> LENGTH('a) \<Longrightarrow> le_bytes n (of_le_bytes bs :: 'a::len word) = bs"
proof (induction bs arbitrary: n)
  case Nil
  then show ?case by simp
next
  case (Cons b bs)
  then obtain m where n: "n = Suc m" by (cases n) auto
  let ?x = "of_le_bytes bs :: 'a word"
  have 1: "(ucast (ucast b OR push_bit 8 ?x :: 'a word) :: u8) = b"
    using Cons.prems n by (intro bit_word_eqI) (auto simp: bit_simps)
  have "drop_bit 8 (ucast b OR push_bit 8 ?x) = take_bit (LENGTH('a) - 8) ?x"
    by (rule bit_word_eqI) (auto simp: bit_simps dest: bit_imp_le_length)
  then have 2: "le_bytes m (drop_bit 8 (ucast b OR push_bit 8 ?x)) = bs"
    using Cons n by (simp add: le_bytes_take_bit)
  show ?case using n 1 2 by simp
qed

lemma le_bytes_u64_inject [simp]: "to_le_u64 a = to_le_u64 b \<longleftrightarrow> a = b"
  by (metis of_le_bytes_u64)

lemma le_bytes_u32_inject [simp]: "to_le_u32 a = to_le_u32 b \<longleftrightarrow> a = b"
  by (metis of_le_bytes_u32)

lemma le_bytes_eq_Nil_iff [simp]: "le_bytes n w = [] \<longleftrightarrow> n = 0"
  by (cases n) auto

text \<open>Lengths written as \<^verbatim>\<open>len as u32\<close> or \<^verbatim>\<open>len as u64\<close>: truncation to the width.\<close>

abbreviation len_u32 :: "'b list \<Rightarrow> u32" where "len_u32 xs \<equiv> word_of_nat (length xs)"
abbreviation len_u64 :: "'b list \<Rightarrow> u64" where "len_u64 xs \<equiv> word_of_nat (length xs)"

lemma unat_len_u32 [codec_simps]: "length xs < 2 ^ 32 \<Longrightarrow> unat (len_u32 xs) = length xs"
  by (simp add: unat_of_nat)

lemma unat_len_u64 [codec_simps]: "length xs < 2 ^ 64 \<Longrightarrow> unat (len_u64 xs) = length xs"
  by (simp add: unat_of_nat)

subsection \<open>Slices\<close>

text \<open>\<^verbatim>\<open>buf[a..a + n]\<close> and \<^verbatim>\<open>buf[a..a + src.len()].copy_from_slice(src)\<close>, in range.\<close>

definition slice :: "nat \<Rightarrow> nat \<Rightarrow> 'a list \<Rightarrow> 'a list" where
  "slice a n xs = take n (drop a xs)"

definition blit :: "nat \<Rightarrow> 'a list \<Rightarrow> 'a list \<Rightarrow> 'a list" where
  "blit a src xs = take a xs @ src @ drop (a + length src) xs"

lemma length_slice [simp]: "length (slice a n xs) = min n (length xs - a)"
  by (simp add: slice_def)

lemma length_blit [simp]: "a + length src \<le> length xs \<Longrightarrow> length (blit a src xs) = length xs"
  by (simp add: blit_def)

lemma slice_blit_same: "a + length src \<le> length xs \<Longrightarrow> slice a (length src) (blit a src xs) = src"
  by (simp add: slice_def blit_def)

lemma nth_blit:
  "a + length src \<le> length xs \<Longrightarrow> i < length xs \<Longrightarrow>
   blit a src xs ! i = (if a \<le> i \<and> i < a + length src then src ! (i - a) else xs ! i)"
  by (auto simp: blit_def nth_append)

lemma nth_slice: "a + n \<le> length xs \<Longrightarrow> i < n \<Longrightarrow> slice a n xs ! i = xs ! (a + i)"
  by (simp add: slice_def)

lemma slice_blit_disjoint:
  assumes "a + length src \<le> length xs" and "b + n \<le> length xs"
    and "b + n \<le> a \<or> a + length src \<le> b"
  shows "slice b n (blit a src xs) = slice b n xs"
  using assms by (intro nth_equalityI) (auto simp: nth_slice nth_blit)

lemma blit_append_at: "length pre = a \<Longrightarrow> length mid = length src \<Longrightarrow> blit a src (pre @ mid @ post) = pre @ src @ post"
  by (simp add: blit_def)

lemma slice_append_left: "a + n \<le> length xs \<Longrightarrow> slice a n (xs @ ys) = slice a n xs"
  by (simp add: slice_def)

lemma slice_append_right: "length xs \<le> a \<Longrightarrow> slice a n (xs @ ys) = slice (a - length xs) n ys"
  by (simp add: slice_def)

lemma slice_take: "a + n \<le> k \<Longrightarrow> slice a n (take k xs) = slice a n xs"
  by (simp add: slice_def drop_take min_def)

lemma slice_0_take: "slice 0 n xs = take n xs"
  by (simp add: slice_def)

subsection \<open>Strings\<close>

text \<open>Byte-string literals \<^verbatim>\<open>b"..."\<close>.\<close>

definition ascii :: "string \<Rightarrow> bytes" where
  "ascii s = map of_char s"

lemma length_ascii [simp]: "length (ascii s) = length s"
  by (simp add: ascii_def)

text \<open>
  \<^verbatim>\<open>core::str::from_utf8\<close>: the well-formed byte sequences of the Unicode standard (no
  overlong forms, no surrogates, nothing above U+10FFFF).
\<close>

definition utf8_cont :: "u8 \<Rightarrow> bool" where
  "utf8_cont b \<longleftrightarrow> 0x80 \<le> b \<and> b \<le> 0xBF"

fun valid_utf8 :: "bytes \<Rightarrow> bool" where
  "valid_utf8 [] = True"
| "valid_utf8 (b # bs) =
    (if b < 0x80 then valid_utf8 bs
     else if 0xC2 \<le> b \<and> b \<le> 0xDF then
       (case bs of c # r \<Rightarrow> utf8_cont c \<and> valid_utf8 r | _ \<Rightarrow> False)
     else if 0xE0 \<le> b \<and> b \<le> 0xEF then
       (case bs of c # d # r \<Rightarrow>
          (if b = 0xE0 then 0xA0 \<le> c \<and> c \<le> 0xBF
           else if b = 0xED then 0x80 \<le> c \<and> c \<le> 0x9F else utf8_cont c)
          \<and> utf8_cont d \<and> valid_utf8 r | _ \<Rightarrow> False)
     else if 0xF0 \<le> b \<and> b \<le> 0xF4 then
       (case bs of c # d # e # r \<Rightarrow>
          (if b = 0xF0 then 0x90 \<le> c \<and> c \<le> 0xBF
           else if b = 0xF4 then 0x80 \<le> c \<and> c \<le> 0x8F else utf8_cont c)
          \<and> utf8_cont d \<and> utf8_cont e \<and> valid_utf8 r | _ \<Rightarrow> False)
     else False)"

lemma valid_utf8_ascii: "\<forall>b \<in> set bs. b < 0x80 \<Longrightarrow> valid_utf8 bs"
  by (induction bs) auto

definition from_utf8 :: "bytes \<Rightarrow> rstring option" where
  "from_utf8 bs = (if valid_utf8 bs then Some bs else None)"

lemma from_utf8_valid [simp]: "valid_utf8 bs \<Longrightarrow> from_utf8 bs = Some bs"
  by (simp add: from_utf8_def)

lemma from_utf8_SomeD: "from_utf8 bs = Some s \<Longrightarrow> s = bs \<and> valid_utf8 bs"
  by (simp add: from_utf8_def split: if_splits)

subsection \<open>Lists\<close>

text \<open>\<^verbatim>\<open>str::split\<close> on one byte.\<close>

fun str_split :: "u8 \<Rightarrow> bytes \<Rightarrow> bytes list" where
  "str_split sep [] = [[]]"
| "str_split sep (x # xs) =
    (if x = sep then [] # str_split sep xs
     else case str_split sep xs of [] \<Rightarrow> [[x]] | seg # segs \<Rightarrow> (x # seg) # segs)"

lemma foldl_invariant:
  assumes "P s" and "\<And>s x. P s \<Longrightarrow> x \<in> set xs \<Longrightarrow> P (f s x)"
  shows "P (foldl f s xs)"
  using assms by (induction xs arbitrary: s) auto

lemma distinct_key_filter:
  "distinct (map f xs) \<Longrightarrow> length (filter (\<lambda>x. k = f x) xs) \<le> 1"
proof (induction xs)
  case (Cons x xs)
  then show ?case
    by (cases "k = f x") (auto simp: filter_empty_conv)
qed simp

text \<open>\<^verbatim>\<open>iter().find(p)\<close> and \<^verbatim>\<open>iter().position(p)\<close>.\<close>

fun position :: "('a \<Rightarrow> bool) \<Rightarrow> 'a list \<Rightarrow> nat option" where
  "position p [] = None"
| "position p (x # xs) = (if p x then Some 0 else map_option Suc (position p xs))"

lemma position_Some_iff:
  "position p xs = Some i \<longleftrightarrow> i < length xs \<and> p (xs ! i) \<and> (\<forall>j < i. \<not> p (xs ! j))"
proof (induction xs arbitrary: i)
  case Nil
  then show ?case by simp
next
  case (Cons x xs)
  then show ?case by (cases i) (auto simp: less_Suc_eq_0_disj)
qed

lemma position_None_iff: "position p xs = None \<longleftrightarrow> (\<forall>x \<in> set xs. \<not> p x)"
  by (induction xs) auto

lemma find_Some_position: "List.find p xs = map_option ((!) xs) (position p xs)"
  by (induction xs) (auto simp: option.map_comp comp_def)

text \<open>Collision freedom is only ever assumed of the two inputs that are compared.\<close>

lemma inj_on_pairD: "inj_on f {a, b} \<Longrightarrow> f a = f b \<Longrightarrow> a = b"
  by (rule inj_onD [of f "{a, b}"]) simp_all

lemma inj_on_pairI: "f a \<noteq> f b \<Longrightarrow> inj_on f {a, b}"
  by (auto simp: inj_on_def)

lemma inj_on_tripleI: "f a \<noteq> f b \<Longrightarrow> f a \<noteq> f c \<Longrightarrow> f b \<noteq> f c \<Longrightarrow> inj_on f {a, b, c}"
  by (auto simp: inj_on_def)

end
