(* ===== verification/Content_Hash.thy ===== *)
theory Content_Hash
  imports Dominion_Prelude
begin

text \<open>
  The content-addressing layer, \<^verbatim>\<open>dominion-core/src/hash.rs\<close>: SHA-256 and its wrapper
  \<^verbatim>\<open>Hash256\<close>, and the SHA-512/384 pair used for certificate chains.  Words are kept at their
  width, so every \<^verbatim>\<open>wrapping_add\<close> is word addition.  The block-at-a-time code, which never
  copies full blocks and builds only the padded tail, is shown to absorb the message padded as
  a whole.
\<close>

type_synonym hash256 = bytes

subsection \<open>Blocks\<close>

text \<open>\<^verbatim>\<open>slice::chunks_exact\<close> and its \<^verbatim>\<open>remainder\<close>.\<close>

function chunks_exact :: "nat \<Rightarrow> 'a list \<Rightarrow> 'a list list" where
  "chunks_exact n xs =
    (if n = 0 \<or> length xs < n then [] else take n xs # chunks_exact n (drop n xs))"
  by pat_completeness auto
termination
  by (relation "measure (\<lambda>(n, xs). length xs)") auto

declare chunks_exact.simps [simp del]

definition chunks_remainder :: "nat \<Rightarrow> 'a list \<Rightarrow> 'a list" where
  "chunks_remainder n xs = drop (length xs - length xs mod n) xs"

lemma chunks_exact_short: "length xs < n \<Longrightarrow> chunks_exact n xs = []"
  by (simp add: chunks_exact.simps)

lemma chunks_exact_append:
  "n > 0 \<Longrightarrow> length xs = n \<Longrightarrow> chunks_exact n (xs @ ys) = xs # chunks_exact n ys"
  by (subst chunks_exact.simps) simp

lemma length_chunks_remainder: "length (chunks_remainder n xs) = length xs mod n"
  by (simp add: chunks_remainder_def)

lemma length_chunks_remainder_less: "0 < n \<Longrightarrow> length (chunks_remainder n xs) < n"
  by (simp add: length_chunks_remainder)

lemma chunks_exact_elem: "b \<in> set (chunks_exact n xs) \<Longrightarrow> length b = n"
proof (induction n xs rule: chunks_exact.induct)
  case (1 n xs)
  then show ?case
    by (subst (asm) (2) chunks_exact.simps) (auto split: if_splits)
qed

lemma chunks_remainder_drop:
  assumes "0 < n" and "n \<le> length xs"
  shows "chunks_remainder n (drop n xs) = chunks_remainder n xs"
proof -
  have "length xs mod n \<le> length xs - n"
    using assms by (metis le_mod_geq mod_less_eq_dividend)
  then have "n + (length xs - n - (length xs - n) mod n) = length xs - length xs mod n"
    using assms by (simp add: le_mod_geq [symmetric])
  then show ?thesis
    by (simp add: chunks_remainder_def add.commute)
qed

text \<open>Appending to a list only touches its remainder: the full blocks come first.\<close>

lemma chunks_exact_remainder_append:
  assumes "0 < n"
  shows "chunks_exact n (xs @ ys) = chunks_exact n xs @ chunks_exact n (chunks_remainder n xs @ ys)"
  using assms
proof (induction n xs rule: chunks_exact.induct)
  case (1 n xs)
  show ?case
  proof (cases "length xs < n")
    case True
    then show ?thesis
      by (simp add: chunks_exact_short chunks_remainder_def)
  next
    case False
    then have split: "xs = take n xs @ drop n xs" and len: "length (take n xs) = n"
      by simp_all
    have "chunks_exact n (xs @ ys) = chunks_exact n (take n xs @ (drop n xs @ ys))"
      by (simp only: append_assoc [symmetric] split [symmetric])
    also have "\<dots> = take n xs # chunks_exact n (drop n xs @ ys)"
      by (rule chunks_exact_append [OF "1.prems" len])
    also have "chunks_exact n (drop n xs @ ys) =
        chunks_exact n (drop n xs) @ chunks_exact n (chunks_remainder n xs @ ys)"
      using "1.IH" "1.prems" False by (simp add: chunks_remainder_drop)
    also have "take n xs # (chunks_exact n (drop n xs) @ chunks_exact n (chunks_remainder n xs @ ys))
        = chunks_exact n xs @ chunks_exact n (chunks_remainder n xs @ ys)"
      using False "1.prems" by (subst (3) chunks_exact.simps) simp
    finally show ?thesis .
  qed
qed

subsection \<open>SHA-256\<close>

definition K :: "u32 list" where
  "K = 0x428a2f98 # 0x71374491 # 0xb5c0fbcf # 0xe9b5dba5 # 0x3956c25b # 0x59f111f1 # 0x923f82a4 # 0xab1c5ed5 #
     0xd807aa98 # 0x12835b01 # 0x243185be # 0x550c7dc3 # 0x72be5d74 # 0x80deb1fe # 0x9bdc06a7 # 0xc19bf174 #
     0xe49b69c1 # 0xefbe4786 # 0x0fc19dc6 # 0x240ca1cc # 0x2de92c6f # 0x4a7484aa # 0x5cb0a9dc # 0x76f988da #
     0x983e5152 # 0xa831c66d # 0xb00327c8 # 0xbf597fc7 # 0xc6e00bf3 # 0xd5a79147 # 0x06ca6351 # 0x14292967 #
     0x27b70a85 # 0x2e1b2138 # 0x4d2c6dfc # 0x53380d13 # 0x650a7354 # 0x766a0abb # 0x81c2c92e # 0x92722c85 #
     0xa2bfe8a1 # 0xa81a664b # 0xc24b8b70 # 0xc76c51a3 # 0xd192e819 # 0xd6990624 # 0xf40e3585 # 0x106aa070 #
     0x19a4c116 # 0x1e376c08 # 0x2748774c # 0x34b0bcb5 # 0x391c0cb3 # 0x4ed8aa4a # 0x5b9cca4f # 0x682e6ff3 #
     0x748f82ee # 0x78a5636f # 0x84c87814 # 0x8cc70208 # 0x90befffa # 0xa4506ceb # 0xbef9a3f7 # 0xc67178f2 # []"

definition H_INIT :: "u32 list" where
  "H_INIT = [0x6a09e667, 0xbb67ae85, 0x3c6ef372, 0xa54ff53a, 0x510e527f, 0x9b05688c, 0x1f83d9ab, 0x5be0cd19]"

text \<open>One step of the message schedule (\<^verbatim>\<open>t\<close> from 16 on), and the schedule of a block.\<close>

definition schedule_step :: "u32 list \<Rightarrow> nat \<Rightarrow> u32 list" where
  "schedule_step w t =
    (let s0 = word_rotr 7 (w ! (t - 15)) XOR word_rotr 18 (w ! (t - 15)) XOR drop_bit 3 (w ! (t - 15));
         s1 = word_rotr 17 (w ! (t - 2)) XOR word_rotr 19 (w ! (t - 2)) XOR drop_bit 10 (w ! (t - 2))
     in w[t := w ! (t - 16) + s0 + w ! (t - 7) + s1])"

definition schedule :: "bytes \<Rightarrow> u32 list" where
  "schedule block =
    foldl schedule_step
      (map (\<lambda>t. of_be_bytes (slice (t * 4) 4 block)) [0..<16] @ replicate 48 0) [16..<64]"

type_synonym 'w regs = "'w \<times> 'w \<times> 'w \<times> 'w \<times> 'w \<times> 'w \<times> 'w \<times> 'w"

definition round_step :: "u32 list \<Rightarrow> u32 regs \<Rightarrow> nat \<Rightarrow> u32 regs" where
  "round_step w r t =
    (case r of (a, b, c, d, e, f, g, hh) \<Rightarrow>
      let s1 = word_rotr 6 e XOR word_rotr 11 e XOR word_rotr 25 e;
          ch = (e AND f) XOR (NOT e AND g);
          temp1 = hh + s1 + ch + K ! t + w ! t;
          s0 = word_rotr 2 a XOR word_rotr 13 a XOR word_rotr 22 a;
          maj = (a AND b) XOR (a AND c) XOR (b AND c);
          temp2 = s0 + maj
      in (temp1 + temp2, a, b, c, d + temp1, e, f, g))"

definition compress :: "u32 list \<Rightarrow> bytes \<Rightarrow> u32 list" where
  "compress h block =
    (let w = schedule block
     in case foldl (round_step w)
               (h ! 0, h ! 1, h ! 2, h ! 3, h ! 4, h ! 5, h ! 6, h ! 7) [0..<64] of
          (a, b, c, d, e, f, g, hh) \<Rightarrow>
            [h ! 0 + a, h ! 1 + b, h ! 2 + c, h ! 3 + d, h ! 4 + e, h ! 5 + f, h ! 6 + g, h ! 7 + hh])"

definition sha256 :: "bytes \<Rightarrow> bytes" where
  "sha256 data =
    (let h = foldl compress H_INIT (chunks_exact 64 data);
         rem = chunks_remainder 64 data;
         bit_len = len_u64 data * 8;
         tail = blit (length rem) [0x80] (blit 0 rem (replicate 128 0));
         h' = (if length rem < 56
               then compress h (slice 0 64 (blit 56 (be_bytes 8 bit_len) tail))
               else let tail' = blit 120 (be_bytes 8 bit_len) tail
                    in compress (compress h (slice 0 64 tail')) (slice 64 64 tail'))
     in concat (map (be_bytes 4) h'))"

subsection \<open>The wrapper \<^verbatim>\<open>Hash256\<close>\<close>

definition hash_of :: "bytes \<Rightarrow> hash256" where
  "hash_of bs = sha256 bs"

definition hash_ZERO :: hash256 where
  "hash_ZERO = replicate 32 0"

definition combine :: "hash256 \<Rightarrow> hash256 \<Rightarrow> hash256" where
  "combine a b = hash_of (a @ b)"

definition nibble :: "u8 \<Rightarrow> u8" where
  "nibble v = (if v \<le> 9 then 0x30 + v else 0x61 + (v - 10))"

definition to_hex :: "hash256 \<Rightarrow> rstring" where
  "to_hex h = concat (map (\<lambda>b. [nibble (drop_bit 4 b), nibble (b AND 0x0f)]) h)"

definition hash_short :: "hash256 \<Rightarrow> rstring" where
  "hash_short h = take 8 (to_hex h)"

subsection \<open>SHA-512 and SHA-384\<close>

definition K512 :: "u64 list" where
  "K512 = 0x428a2f98d728ae22 # 0x7137449123ef65cd # 0xb5c0fbcfec4d3b2f # 0xe9b5dba58189dbbc #
     0x3956c25bf348b538 # 0x59f111f1b605d019 # 0x923f82a4af194f9b # 0xab1c5ed5da6d8118 #
     0xd807aa98a3030242 # 0x12835b0145706fbe # 0x243185be4ee4b28c # 0x550c7dc3d5ffb4e2 #
     0x72be5d74f27b896f # 0x80deb1fe3b1696b1 # 0x9bdc06a725c71235 # 0xc19bf174cf692694 #
     0xe49b69c19ef14ad2 # 0xefbe4786384f25e3 # 0x0fc19dc68b8cd5b5 # 0x240ca1cc77ac9c65 #
     0x2de92c6f592b0275 # 0x4a7484aa6ea6e483 # 0x5cb0a9dcbd41fbd4 # 0x76f988da831153b5 #
     0x983e5152ee66dfab # 0xa831c66d2db43210 # 0xb00327c898fb213f # 0xbf597fc7beef0ee4 #
     0xc6e00bf33da88fc2 # 0xd5a79147930aa725 # 0x06ca6351e003826f # 0x142929670a0e6e70 #
     0x27b70a8546d22ffc # 0x2e1b21385c26c926 # 0x4d2c6dfc5ac42aed # 0x53380d139d95b3df #
     0x650a73548baf63de # 0x766a0abb3c77b2a8 # 0x81c2c92e47edaee6 # 0x92722c851482353b #
     0xa2bfe8a14cf10364 # 0xa81a664bbc423001 # 0xc24b8b70d0f89791 # 0xc76c51a30654be30 #
     0xd192e819d6ef5218 # 0xd69906245565a910 # 0xf40e35855771202a # 0x106aa07032bbd1b8 #
     0x19a4c116b8d2d0c8 # 0x1e376c085141ab53 # 0x2748774cdf8eeb99 # 0x34b0bcb5e19b48a8 #
     0x391c0cb3c5c95a63 # 0x4ed8aa4ae3418acb # 0x5b9cca4f7763e373 # 0x682e6ff3d6b2b8a3 #
     0x748f82ee5defb2fc # 0x78a5636f43172f60 # 0x84c87814a1f0ab72 # 0x8cc702081a6439ec #
     0x90befffa23631e28 # 0xa4506cebde82bde9 # 0xbef9a3f7b2c67915 # 0xc67178f2e372532b #
     0xca273eceea26619c # 0xd186b8c721c0c207 # 0xeada7dd6cde0eb1e # 0xf57d4f7fee6ed178 #
     0x06f067aa72176fba # 0x0a637dc5a2c898a6 # 0x113f9804bef90dae # 0x1b710b35131c471b #
     0x28db77f523047d84 # 0x32caab7b40c72493 # 0x3c9ebe0a15c9bebc # 0x431d67c49c100d4c #
     0x4cc5d4becb3e42b6 # 0x597f299cfc657e2a # 0x5fcb6fab3ad6faec # 0x6c44198c4a475817 # []"

definition schedule512_step :: "u64 list \<Rightarrow> nat \<Rightarrow> u64 list" where
  "schedule512_step w t =
    (let s0 = word_rotr 1 (w ! (t - 15)) XOR word_rotr 8 (w ! (t - 15)) XOR drop_bit 7 (w ! (t - 15));
         s1 = word_rotr 19 (w ! (t - 2)) XOR word_rotr 61 (w ! (t - 2)) XOR drop_bit 6 (w ! (t - 2))
     in w[t := w ! (t - 16) + s0 + w ! (t - 7) + s1])"

text \<open>The block is read word by word: \<^verbatim>\<open>word = (word << 8) | byte\<close>.\<close>

definition schedule512 :: "bytes \<Rightarrow> u64 list" where
  "schedule512 block =
    foldl schedule512_step
      (map (\<lambda>t. foldl (\<lambda>word b. push_bit 8 word OR ucast b) 0 (slice (t * 8) 8 block)) [0..<16]
       @ replicate 64 0) [16..<80]"

definition round512_step :: "u64 list \<Rightarrow> u64 regs \<Rightarrow> nat \<Rightarrow> u64 regs" where
  "round512_step w r t =
    (case r of (a, b, c, d, e, f, g, hh) \<Rightarrow>
      let s1 = word_rotr 14 e XOR word_rotr 18 e XOR word_rotr 41 e;
          ch = (e AND f) XOR (NOT e AND g);
          temp1 = hh + s1 + ch + K512 ! t + w ! t;
          s0 = word_rotr 28 a XOR word_rotr 34 a XOR word_rotr 39 a;
          maj = (a AND b) XOR (a AND c) XOR (b AND c);
          temp2 = s0 + maj
      in (temp1 + temp2, a, b, c, d + temp1, e, f, g))"

definition compress512 :: "u64 list \<Rightarrow> bytes \<Rightarrow> u64 list" where
  "compress512 h block =
    (let w = schedule512 block
     in case foldl (round512_step w)
               (h ! 0, h ! 1, h ! 2, h ! 3, h ! 4, h ! 5, h ! 6, h ! 7) [0..<80] of
          (a, b, c, d, e, f, g, hh) \<Rightarrow>
            [h ! 0 + a, h ! 1 + b, h ! 2 + c, h ! 3 + d, h ! 4 + e, h ! 5 + f, h ! 6 + g, h ! 7 + hh])"

definition sha512_core :: "bytes \<Rightarrow> u64 list \<Rightarrow> u64 list" where
  "sha512_core data init =
    (let h = foldl compress512 init (chunks_exact 128 data);
         rem = chunks_remainder 128 data;
         bit_len = (word_of_nat (length data) :: 128 word) * 8;
         lo = (ucast bit_len :: u64);
         hi = (ucast (drop_bit 64 bit_len) :: u64);
         tail = blit (length rem) [0x80] (blit 0 rem (replicate 256 0))
     in if length rem < 112
        then compress512 h (slice 0 128 (blit 112 (be_bytes 8 hi) (blit 120 (be_bytes 8 lo) tail)))
        else let tail' = blit 240 (be_bytes 8 hi) (blit 248 (be_bytes 8 lo) tail)
             in compress512 (compress512 h (slice 0 128 tail')) (slice 128 128 tail'))"

definition INIT512 :: "u64 list" where
  "INIT512 = [0x6a09e667f3bcc908, 0xbb67ae8584caa73b, 0x3c6ef372fe94f82b, 0xa54ff53a5f1d36f1,
     0x510e527fade682d1, 0x9b05688c2b3e6c1f, 0x1f83d9abfb41bd6b, 0x5be0cd19137e2179]"

definition INIT384 :: "u64 list" where
  "INIT384 = [0xcbbb9d5dc1059ed8, 0x629a292a367cd507, 0x9159015a3070dd17, 0x152fecd8f70e5939,
     0x67332667ffc00b31, 0x8eb44a8768581511, 0xdb0c2e0d64f98fa7, 0x47b5481dbefa4fa4]"

definition sha512 :: "bytes \<Rightarrow> bytes" where
  "sha512 data = concat (map (be_bytes 8) (sha512_core data INIT512))"

definition sha384 :: "bytes \<Rightarrow> bytes" where
  "sha384 data = concat (map (be_bytes 8) (take 6 (sha512_core data INIT384)))"

subsection \<open>Output widths\<close>

lemma length_compress [simp]: "length (compress h b) = 8"
  by (simp add: compress_def Let_def split: prod.splits)

lemma length_compress512 [simp]: "length (compress512 h b) = 8"
  by (simp add: compress512_def Let_def split: prod.splits)

lemma length_concat_be_bytes: "length (concat (map (be_bytes n) ws)) = n * length ws"
  by (induction ws) auto

lemma length_sha256 [simp]: "length (sha256 data) = 32"
  by (simp add: sha256_def Let_def length_concat_be_bytes)

lemma length_hash_of [simp]: "length (hash_of bs) = 32"
  by (simp add: hash_of_def)

lemma length_combine [simp]: "length (combine a b) = 32"
  by (simp add: combine_def)

lemma length_hash_ZERO [simp]: "length hash_ZERO = 32"
  by (simp add: hash_ZERO_def)

lemma length_sha512_core [simp]: "length (sha512_core data init) = 8"
  by (simp add: sha512_core_def Let_def)

lemma length_sha512 [simp]: "length (sha512 data) = 64"
  by (simp add: sha512_def length_concat_be_bytes)

lemma length_sha384 [simp]: "length (sha384 data) = 48"
  by (simp add: sha384_def length_concat_be_bytes)

subsection \<open>Padding the whole message first\<close>

text \<open>
  The standard pads the whole message first (\<open>blk\<close>-byte blocks, an \<open>lf\<close>-byte length field)
  and then absorbs every block.
\<close>

definition padded_message :: "nat \<Rightarrow> bytes \<Rightarrow> bytes \<Rightarrow> bytes" where
  "padded_message blk lenfield msg =
    msg @ [0x80] @ replicate ((2 * blk - 1 - length lenfield - length msg mod blk) mod blk) 0 @ lenfield"

definition padded_sha256 :: "bytes \<Rightarrow> bytes" where
  "padded_sha256 msg =
    concat (map (be_bytes 4)
      (foldl compress H_INIT (chunks_exact 64 (padded_message 64 (be_bytes 8 (len_u64 msg * 8)) msg))))"

text \<open>The padded tail buffer, one block or two, written out.\<close>

lemma tail_buffer_one:
  fixes rem lf :: bytes
  assumes "length rem + 1 + length lf \<le> blk"
  shows "slice 0 blk (blit (blk - length lf) lf (blit (length rem) [0x80] (blit 0 rem (replicate (2 * blk) 0))))
    = rem @ [0x80] @ replicate (blk - 1 - length lf - length rem) 0 @ lf"
proof -
  define k where "k = blk - 1 - length lf - length rem"
  then have "blk = length rem + Suc k + length lf"
    using assms by simp
  then show ?thesis
    by (simp add: slice_def blit_def k_def [symmetric] min_def del: replicate_Suc)
qed

lemma tail_buffer_two:
  fixes rem lf :: bytes
  assumes "length rem < blk" and "blk < length rem + 1 + length lf" and "length lf \<le> blk"
  shows "blit (2 * blk - length lf) lf (blit (length rem) [0x80] (blit 0 rem (replicate (2 * blk) 0)))
    = rem @ [0x80] @ replicate (2 * blk - 1 - length lf - length rem) 0 @ lf"
proof -
  define k where "k = 2 * blk - 1 - length lf - length rem"
  then have "2 * blk = length rem + Suc k + length lf"
    using assms by simp
  then show ?thesis
    by (simp add: slice_def blit_def k_def [symmetric] min_def)
qed

lemma chunks_exact_two:
  assumes "length xs = 2 * n" and "0 < n"
  shows "chunks_exact n xs = [slice 0 n xs, slice n n xs]"
  using assms by (simp add: chunks_exact.simps slice_def)

lemma chunks_exact_one: "length xs = n \<Longrightarrow> 0 < n \<Longrightarrow> chunks_exact n xs = [xs]"
  by (simp add: chunks_exact.simps)

text \<open>
  Absorbing the full blocks and then the tail buffer is absorbing the padded message, for any
  compression function; both digests use it.
\<close>

lemma absorb_padded:
  fixes f :: "'h \<Rightarrow> bytes \<Rightarrow> 'h" and msg lf :: bytes
  assumes blk: "0 < blk" and lf: "length lf < blk"
  defines "rem \<equiv> chunks_remainder blk msg"
  defines "tail \<equiv> blit (length rem) [0x80] (blit 0 rem (replicate (2 * blk) 0))"
  shows "foldl f h (chunks_exact blk (padded_message blk lf msg)) =
    (let h1 = foldl f h (chunks_exact blk msg) in
     if length rem < blk - length lf
     then f h1 (slice 0 blk (blit (blk - length lf) lf tail))
     else let t = blit (2 * blk - length lf) lf tail
          in f (f h1 (slice 0 blk t)) (slice blk blk t))"
proof -
  let ?pad = "[0x80] @ replicate ((2 * blk - 1 - length lf - length rem) mod blk) 0 @ lf"
  have rem_less: "length rem < blk" and rem_len: "length rem = length msg mod blk"
    using blk by (simp_all add: rem_def length_chunks_remainder)
  have split: "chunks_exact blk (padded_message blk lf msg) =
      chunks_exact blk msg @ chunks_exact blk (rem @ ?pad)"
    unfolding padded_message_def rem_def
    by (subst chunks_exact_remainder_append [OF blk]) (simp add: length_chunks_remainder)
  show ?thesis
  proof (cases "length rem < blk - length lf")
    case True
    have m: "(2 * blk - 1 - length lf - length rem) mod blk = blk - 1 - length lf - length rem"
      using True lf by (simp add: mod_if)
    have "rem @ ?pad = slice 0 blk (blit (blk - length lf) lf tail)"
      unfolding tail_def m using True by (subst tail_buffer_one) simp_all
    moreover have "length (rem @ ?pad) = blk"
      unfolding m using True by simp
    ultimately show ?thesis
      using True blk by (simp add: split chunks_exact_one)
  next
    case False
    have m: "(2 * blk - 1 - length lf - length rem) mod blk = 2 * blk - 1 - length lf - length rem"
      using False lf rem_less by simp
    have eq: "rem @ ?pad = blit (2 * blk - length lf) lf tail"
      unfolding tail_def m using False lf rem_less by (subst tail_buffer_two) simp_all
    have "length (rem @ ?pad) = 2 * blk"
      unfolding m using False lf rem_less by simp
    then show ?thesis
      using False blk by (simp add: split chunks_exact_two eq [symmetric] Let_def)
  qed
qed

lemma blit_blit_adjacent:
  assumes "a + length x + length y \<le> length t"
  shows "blit a x (blit (a + length x) y t) = blit a (x @ y) t"
  using assms by (intro nth_equalityI) (auto simp: nth_blit nth_append)

lemma le_bytes_add: "le_bytes (m + n) w = le_bytes m w @ le_bytes n (drop_bit (8 * m) w)"
proof (induction m arbitrary: w)
  case 0
  then show ?case by simp
next
  case (Suc m)
  have "drop_bit (8 * m) (drop_bit 8 w) = drop_bit (8 * Suc m) w"
    by (simp add: drop_bit_drop_bit add.commute)
  then show ?case using Suc by simp
qed

lemma le_bytes_ucast:
  "8 * m \<le> LENGTH('b) \<Longrightarrow> le_bytes m (ucast w :: 'b::len word) = le_bytes m w"
  for w :: "'a::len word"
proof (induction m arbitrary: w)
  case 0
  then show ?case by simp
next
  case (Suc m)
  have 1: "(ucast (ucast w :: 'b word) :: u8) = ucast w"
    using Suc.prems by (intro bit_word_eqI) (auto simp: bit_simps)
  have "drop_bit 8 (ucast w :: 'b word) = take_bit (LENGTH('b) - 8) (ucast (drop_bit 8 w))"
    using Suc.prems by (intro bit_word_eqI) (auto simp: bit_simps)
  then have 2: "le_bytes m (drop_bit 8 (ucast w :: 'b word)) = le_bytes m (drop_bit 8 w)"
    using Suc by (simp add: le_bytes_take_bit)
  show ?case by (simp add: 1 2)
qed

lemma be_bytes_u128:
  "be_bytes 16 w = be_bytes 8 (ucast (drop_bit 64 w) :: u64) @ be_bytes 8 (ucast w :: u64)"
  for w :: "128 word"
  using le_bytes_add [of 8 8 w] by (simp add: be_bytes_def le_bytes_ucast)

definition padded_sha512_core :: "bytes \<Rightarrow> u64 list \<Rightarrow> u64 list" where
  "padded_sha512_core msg init =
    foldl compress512 init
      (chunks_exact 128 (padded_message 128 (be_bytes 16 ((word_of_nat (length msg) :: 128 word) * 8)) msg))"

lemma sha512_core_eq_padded: "sha512_core msg init = padded_sha512_core msg init"
proof -
  let ?w = "(word_of_nat (length msg) :: 128 word) * 8"
  let ?rem = "chunks_remainder 128 msg"
  let ?tail = "blit (length ?rem) [0x80] (blit 0 ?rem (replicate 256 0))"
  have len: "length ?tail = 256"
    using length_chunks_remainder_less [of 128 msg] by simp
  have "blit a (be_bytes 8 (ucast (drop_bit 64 ?w) :: u64)) (blit (a + 8) (be_bytes 8 (ucast ?w :: u64)) ?tail)
      = blit a (be_bytes 16 ?w) ?tail" if "a + 16 \<le> 256" for a
    using that blit_blit_adjacent [of a "be_bytes 8 (ucast (drop_bit 64 ?w) :: u64)"
        "be_bytes 8 (ucast ?w :: u64)" ?tail] len by (simp add: be_bytes_u128)
  from this [of 112] this [of 240] show ?thesis
    using absorb_padded [of 128 "be_bytes 16 ?w" compress512 init msg]
    by (simp add: sha512_core_def padded_sha512_core_def Let_def)
qed

lemma sha256_eq_padded: "sha256 msg = padded_sha256 msg"
  using absorb_padded [of 64 "be_bytes 8 (len_u64 msg * 8)" compress H_INIT msg]
  by (simp add: sha256_def padded_sha256_def Let_def)

subsection \<open>Hexadecimal rendering\<close>

definition unnibble :: "u8 \<Rightarrow> u8" where
  "unnibble c = (if c \<le> 0x39 then c - 0x30 else c - 0x61 + 10)"

fun of_hex :: "rstring \<Rightarrow> bytes" where
  "of_hex (a # b # r) = (push_bit 4 (unnibble a) OR unnibble b) # of_hex r"
| "of_hex _ = []"

lemma unnibble_nibble:
  assumes "v < 16"
  shows "unnibble (nibble v) = v"
proof (cases "v \<le> 9")
  case True
  then have "unat (0x30 + v) = 48 + unat v"
    by (simp add: unat_word_ariths word_le_nat_alt)
  with True show ?thesis
    by (simp add: nibble_def unnibble_def word_le_nat_alt)
next
  case False
  then have "unat (v - 10) = unat v - 10"
    by (simp add: unat_sub word_le_nat_alt)
  with False assms have "unat (0x61 + (v - 10)) = 87 + unat v"
    by (simp add: unat_word_ariths word_le_nat_alt word_less_nat_alt)
  with False show ?thesis
    by (simp add: nibble_def unnibble_def word_le_nat_alt)
qed

lemma byte_of_nibbles: "push_bit 4 (drop_bit 4 b) OR (b AND 0x0f) = b" for b :: u8
proof -
  have "b AND 0x0f = take_bit 4 b"
    by (simp add: take_bit_eq_mask mask_eq_exp_minus_1)
  moreover have "push_bit 4 (drop_bit 4 b) OR take_bit 4 b = b"
    by (rule bit_word_eqI) (auto simp: bit_simps simp del: drop_bit_numeral_minus_bit1)
  ultimately show ?thesis by simp
qed

lemma high_nibble_less: "drop_bit 4 b < 16" for b :: u8
proof -
  have "unat (drop_bit 4 b) = drop_bit 4 (unat b)"
    by (rule unat_drop_bit_eq)
  also have "\<dots> = unat b div 16"
    by (simp add: drop_bit_eq_div)
  finally have "unat (drop_bit 4 b) = unat b div 16" .
  moreover have "unat b < 256" using unsigned_less [of b, where ?'a = nat] by simp
  ultimately show ?thesis by (simp add: word_less_nat_alt)
qed

lemma low_nibble_less: "b AND 0x0f < 16" for b :: u8
  by (rule le_less_trans [OF word_and_le1]) simp

lemma of_hex_to_hex: "of_hex (to_hex h) = h"
  by (induction h)
    (simp_all add: to_hex_def unnibble_nibble high_nibble_less low_nibble_less byte_of_nibbles)

lemma length_to_hex: "length (to_hex h) = 2 * length h"
  by (induction h) (simp_all add: to_hex_def)

lemma nibble_ascii: "v < 16 \<Longrightarrow> nibble v \<in> {0x30..0x39} \<union> {0x61..0x66}"
proof (cases "v \<le> 9")
  case True
  then show ?thesis
    by (simp add: nibble_def word_le_nat_alt unat_word_ariths)
next
  case False
  moreover assume "v < 16"
  moreover have "unat (v - 10) = unat v - 10"
    using False by (simp add: unat_sub word_le_nat_alt)
  ultimately show ?thesis
    by (simp add: nibble_def word_le_nat_alt word_less_nat_alt unat_word_ariths)
qed

subsection \<open>Properties\<close>

text \<open>
  The hexadecimal form of a hash has two lower-case digits per byte and can be read back:
  \<^verbatim>\<open>to_hex\<close> loses nothing.
\<close>

theorem hex_round_trip:
  "of_hex (to_hex h) = h \<and> length (to_hex h) = 2 * length h \<and>
   set (to_hex h) \<subseteq> {0x30..0x39} \<union> {0x61..0x66}"
  using nibble_ascii [OF high_nibble_less] nibble_ascii [OF low_nibble_less]
  by (auto simp: of_hex_to_hex length_to_hex) (auto simp: to_hex_def)

end
