(* ===== verification/Byte_Cursor.thy ===== *)
theory Byte_Cursor
  imports Content_Hash
begin

text \<open>
  The byte cursor and writer of \<^verbatim>\<open>dominion-core/src/bytes.rs\<close>, which every on-disk and
  on-wire format of the storage stack is parsed with.  A read returns the value and the moved
  cursor, or fails without moving.  The second half is a small calculus of decoding facts:
  \<open>decodes p bs v\<close> says that \<open>p\<close> reads exactly the bytes \<open>bs\<close> as \<open>v\<close> wherever they
  stand in a buffer; the round-trip proofs of the object, manifest and replica formats are
  compositions of such facts.
\<close>

subsection \<open>The read cursor\<close>

record cursor =
  cur_buf :: bytes
  cur_pos :: nat

definition cursor_new :: "bytes \<Rightarrow> cursor" where
  "cursor_new b = \<lparr>cur_buf = b, cur_pos = 0\<rparr>"

text \<open>
  An overflow of \<^verbatim>\<open>pos.checked_add(n)\<close> is a special case of running past the end of the
  buffer, so the single range test covers both \<^verbatim>\<open>?\<close> exits.
\<close>

definition cur_take :: "nat \<Rightarrow> cursor \<Rightarrow> (bytes \<times> cursor) option" where
  "cur_take n c =
    (if cur_pos c + n \<le> length (cur_buf c)
     then Some (slice (cur_pos c) n (cur_buf c), c\<lparr>cur_pos := cur_pos c + n\<rparr>)
     else None)"

definition take_or :: "nat \<Rightarrow> 'e \<Rightarrow> cursor \<Rightarrow> 'e + (bytes \<times> cursor)" where
  "take_or n err c = ok_or (cur_take n c) err"

definition read_u8 :: "cursor \<Rightarrow> (u8 \<times> cursor) option" where
  "read_u8 c = map_option (\<lambda>(s, c'). (s ! 0, c')) (cur_take 1 c)"

definition read_u8_or :: "'e \<Rightarrow> cursor \<Rightarrow> 'e + (u8 \<times> cursor)" where
  "read_u8_or err c = map_sum id (\<lambda>(s, c'). (s ! 0, c')) (take_or 1 err c)"

definition read_u32_le :: "cursor \<Rightarrow> (u32 \<times> cursor) option" where
  "read_u32_le c = map_option (\<lambda>(s, c'). (of_le_bytes s, c')) (cur_take 4 c)"

definition read_u32_le_or :: "'e \<Rightarrow> cursor \<Rightarrow> 'e + (u32 \<times> cursor)" where
  "read_u32_le_or err c = map_sum id (\<lambda>(s, c'). (of_le_bytes s, c')) (take_or 4 err c)"

definition read_u64_le :: "cursor \<Rightarrow> (u64 \<times> cursor) option" where
  "read_u64_le c = map_option (\<lambda>(s, c'). (of_le_bytes s, c')) (cur_take 8 c)"

definition read_u64_le_or :: "'e \<Rightarrow> cursor \<Rightarrow> 'e + (u64 \<times> cursor)" where
  "read_u64_le_or err c = map_sum id (\<lambda>(s, c'). (of_le_bytes s, c')) (take_or 8 err c)"

definition read_hash :: "cursor \<Rightarrow> (hash256 \<times> cursor) option" where
  "read_hash c = cur_take 32 c"

definition read_hash_or :: "'e \<Rightarrow> cursor \<Rightarrow> 'e + (hash256 \<times> cursor)" where
  "read_hash_or err c = take_or 32 err c"

definition cur_remaining :: "cursor \<Rightarrow> nat" where
  "cur_remaining c = length (cur_buf c) - cur_pos c"

subsection \<open>The writer\<close>

definition writer_new :: bytes where "writer_new = []"

definition write_u8 :: "u8 \<Rightarrow> bytes \<Rightarrow> bytes" where "write_u8 v w = w @ [v]"

definition write_u32_le :: "u32 \<Rightarrow> bytes \<Rightarrow> bytes" where "write_u32_le v w = w @ to_le_u32 v"

definition write_u64_le :: "u64 \<Rightarrow> bytes \<Rightarrow> bytes" where "write_u64_le v w = w @ to_le_u64 v"

definition write_bytes :: "bytes \<Rightarrow> bytes \<Rightarrow> bytes" where "write_bytes b w = w @ b"

definition writer_finish :: "bytes \<Rightarrow> bytes" where "writer_finish w = w"

subsection \<open>Sequencing readers\<close>

text \<open>Readers that return \<^verbatim>\<open>Result\<close> and readers that return \<^verbatim>\<open>Option\<close>, chained by \<^verbatim>\<open>?\<close>.\<close>

type_synonym ('e, 'a) rparser = "cursor \<Rightarrow> 'e + ('a \<times> cursor)"
type_synonym 'a oparser = "cursor \<Rightarrow> ('a \<times> cursor) option"

definition rp_bind :: "('e, 'a) rparser \<Rightarrow> ('a \<Rightarrow> ('e, 'b) rparser) \<Rightarrow> ('e, 'b) rparser" where
  "rp_bind p f c = rbind (p c) (\<lambda>(x, c'). f x c')"

definition rp_return :: "'a \<Rightarrow> ('e, 'a) rparser" where
  "rp_return x c = Ok (x, c)"

definition rp_fail :: "'e \<Rightarrow> ('e, 'a) rparser" where
  "rp_fail e c = Err e"

text \<open>\<^verbatim>\<open>x.ok_or(e)?\<close> on a value that is not read from the cursor.\<close>

definition rp_option :: "'a option \<Rightarrow> 'e \<Rightarrow> ('e, 'a) rparser" where
  "rp_option m e = (case m of None \<Rightarrow> rp_fail e | Some x \<Rightarrow> rp_return x)"

primrec rp_repeat :: "nat \<Rightarrow> ('e, 'a) rparser \<Rightarrow> ('e, 'a list) rparser" where
  "rp_repeat 0 p = rp_return []"
| "rp_repeat (Suc n) p = rp_bind p (\<lambda>x. rp_bind (rp_repeat n p) (\<lambda>xs. rp_return (x # xs)))"

definition op_bind :: "'a oparser \<Rightarrow> ('a \<Rightarrow> 'b oparser) \<Rightarrow> 'b oparser" where
  "op_bind p f c = (case p c of None \<Rightarrow> None | Some (x, c') \<Rightarrow> f x c')"

definition op_return :: "'a \<Rightarrow> 'a oparser" where
  "op_return x c = Some (x, c)"

definition op_option :: "'a option \<Rightarrow> 'a oparser" where
  "op_option m c = map_option (\<lambda>x. (x, c)) m"

primrec op_repeat :: "nat \<Rightarrow> 'a oparser \<Rightarrow> 'a list oparser" where
  "op_repeat 0 p = op_return []"
| "op_repeat (Suc n) p = op_bind p (\<lambda>x. op_bind (op_repeat n p) (\<lambda>xs. op_return (x # xs)))"

lemma rp_bind_return [simp]: "rp_bind (rp_return x) f = f x"
  by (simp add: fun_eq_iff rp_bind_def rp_return_def)

lemma op_bind_return [simp]: "op_bind (op_return x) f = f x"
  by (simp add: fun_eq_iff op_bind_def op_return_def)

lemma rp_option_Some [simp]: "rp_option (Some x) e = rp_return x"
  by (simp add: rp_option_def)

lemma op_option_Some [simp]: "op_option (Some x) = op_return x"
  by (simp add: fun_eq_iff op_option_def op_return_def)

subsection \<open>Decoding facts\<close>

definition cur_at :: "cursor \<Rightarrow> bytes \<Rightarrow> bool" where
  "cur_at c bs \<longleftrightarrow> cur_pos c \<le> length (cur_buf c) \<and> drop (cur_pos c) (cur_buf c) = bs"

definition cur_adv :: "nat \<Rightarrow> cursor \<Rightarrow> cursor" where
  "cur_adv n c = c\<lparr>cur_pos := cur_pos c + n\<rparr>"

lemma cur_adv_0 [simp]: "cur_adv 0 c = c"
  by (simp add: cur_adv_def)

lemma cur_adv_adv [simp]: "cur_adv n (cur_adv m c) = cur_adv (m + n) c"
  by (simp add: cur_adv_def add.assoc)

lemma cur_at_new [simp]: "cur_at (cursor_new bs) bs"
  by (simp add: cur_at_def cursor_new_def)

lemma cur_at_adv: "cur_at c (bs @ r) \<Longrightarrow> cur_at (cur_adv (length bs) c) r"
proof -
  assume a: "cur_at c (bs @ r)"
  then have d: "drop (cur_pos c) (cur_buf c) = bs @ r" and le: "cur_pos c \<le> length (cur_buf c)"
    by (simp_all add: cur_at_def)
  have "length (bs @ r) = length (cur_buf c) - cur_pos c"
    using d by (metis length_drop)
  with le have "cur_pos c + length bs \<le> length (cur_buf c)" by simp
  moreover have "drop (cur_pos c + length bs) (cur_buf c) = r"
    using d by (metis add.commute append_eq_conv_conj drop_drop)
  ultimately show ?thesis by (simp add: cur_at_def cur_adv_def)
qed

lemma cur_take_at: "cur_at c (bs @ r) \<Longrightarrow> cur_take (length bs) c = Some (bs, cur_adv (length bs) c)"
proof -
  assume a: "cur_at c (bs @ r)"
  then have "cur_at (cur_adv (length bs) c) r" by (rule cur_at_adv)
  with a show ?thesis
    by (auto simp: cur_take_def cur_at_def cur_adv_def slice_def)
qed

definition decodes :: "('e, 'a) rparser \<Rightarrow> bytes \<Rightarrow> 'a \<Rightarrow> bool" where
  "decodes p bs v \<longleftrightarrow> (\<forall>c r. cur_at c (bs @ r) \<longrightarrow> p c = Ok (v, cur_adv (length bs) c))"

definition odecodes :: "'a oparser \<Rightarrow> bytes \<Rightarrow> 'a \<Rightarrow> bool" where
  "odecodes p bs v \<longleftrightarrow> (\<forall>c r. cur_at c (bs @ r) \<longrightarrow> p c = Some (v, cur_adv (length bs) c))"

lemma decodesD: "decodes p bs v \<Longrightarrow> p (cursor_new (bs @ r)) = Ok (v, cur_adv (length bs) (cursor_new (bs @ r)))"
  by (simp add: decodes_def) (metis cur_at_new)

lemma odecodesD: "odecodes p bs v \<Longrightarrow> p (cursor_new (bs @ r)) = Some (v, cur_adv (length bs) (cursor_new (bs @ r)))"
  by (simp add: odecodes_def) (metis cur_at_new)

lemma decodes_return: "decodes (rp_return v) [] v"
  by (simp add: decodes_def rp_return_def)

lemma decodes_bind:
  assumes "decodes p bs v" and "decodes (f v) bs' w"
  shows "decodes (rp_bind p f) (bs @ bs') w"
  unfolding decodes_def
proof (intro allI impI)
  fix c r
  assume at: "cur_at c ((bs @ bs') @ r)"
  then have "p c = Ok (v, cur_adv (length bs) c)"
    using assms(1) by (auto simp: decodes_def)
  moreover have "f v (cur_adv (length bs) c) = Ok (w, cur_adv (length bs') (cur_adv (length bs) c))"
    using assms(2) at cur_at_adv [of c bs "bs' @ r"] by (auto simp: decodes_def)
  ultimately show "rp_bind p f c = Ok (w, cur_adv (length (bs @ bs')) c)"
    by (simp add: rp_bind_def)
qed

lemma decodes_map:
  assumes "decodes p bs v" and "f v = rp_return w"
  shows "decodes (rp_bind p f) bs w"
  using decodes_bind [OF assms(1), of f "[]" w] assms(2) by (simp add: decodes_return)

lemma odecodes_return: "odecodes (op_return v) [] v"
  by (simp add: odecodes_def op_return_def)

lemma odecodes_bind:
  assumes "odecodes p bs v" and "odecodes (f v) bs' w"
  shows "odecodes (op_bind p f) (bs @ bs') w"
  unfolding odecodes_def
proof (intro allI impI)
  fix c r
  assume at: "cur_at c ((bs @ bs') @ r)"
  then have "p c = Some (v, cur_adv (length bs) c)"
    using assms(1) by (auto simp: odecodes_def)
  moreover have "f v (cur_adv (length bs) c) = Some (w, cur_adv (length bs') (cur_adv (length bs) c))"
    using assms(2) at cur_at_adv [of c bs "bs' @ r"] by (auto simp: odecodes_def)
  ultimately show "op_bind p f c = Some (w, cur_adv (length (bs @ bs')) c)"
    by (simp add: op_bind_def)
qed

lemma odecodes_map:
  assumes "odecodes p bs v" and "f v = op_return w"
  shows "odecodes (op_bind p f) bs w"
  using odecodes_bind [OF assms(1), of f "[]" w] assms(2) by (simp add: odecodes_return)

lemma decodes_repeat:
  assumes "\<And>x. x \<in> set xs \<Longrightarrow> decodes p (enc x) (g x)" and "length xs = n"
  shows "decodes (rp_repeat n p) (concat (map enc xs)) (map g xs)"
  using assms
proof (induction xs arbitrary: n)
  case Nil
  then show ?case by (simp add: decodes_return)
next
  case (Cons x xs)
  then obtain m where n: "n = Suc m" "length xs = m" by (cases n) auto
  have hd: "decodes p (enc x) (g x)" and tl: "decodes (rp_repeat m p) (concat (map enc xs)) (map g xs)"
    using Cons n(2) by simp_all
  show ?case
    unfolding n(1) by (auto intro!: decodes_bind [OF hd] decodes_map [OF tl])
qed

lemma odecodes_repeat:
  assumes "\<And>x. x \<in> set xs \<Longrightarrow> odecodes p (enc x) (g x)" and "length xs = n"
  shows "odecodes (op_repeat n p) (concat (map enc xs)) (map g xs)"
  using assms
proof (induction xs arbitrary: n)
  case Nil
  then show ?case by (simp add: odecodes_return)
next
  case (Cons x xs)
  then obtain m where n: "n = Suc m" "length xs = m" by (cases n) auto
  have hd: "odecodes p (enc x) (g x)" and tl: "odecodes (op_repeat m p) (concat (map enc xs)) (map g xs)"
    using Cons n(2) by simp_all
  show ?case
    unfolding n(1) by (auto intro!: odecodes_bind [OF hd] odecodes_map [OF tl])
qed

lemma decodes_take: "length bs = n \<Longrightarrow> decodes (take_or n e) bs bs"
  by (auto simp: decodes_def take_or_def cur_take_at)

lemma odecodes_take: "length bs = n \<Longrightarrow> odecodes (cur_take n) bs bs"
  by (auto simp: odecodes_def cur_take_at)

lemma decodes_u8: "decodes (read_u8_or e) [b] b"
  using decodes_take [of "[b]" 1 e] by (auto simp: decodes_def read_u8_or_def)

lemma odecodes_u8: "odecodes read_u8 [b] b"
  using odecodes_take [of "[b]" 1] by (auto simp: odecodes_def read_u8_def)

lemma decodes_u32: "decodes (read_u32_le_or e) (to_le_u32 w) w"
  using decodes_take [of "to_le_u32 w" 4 e] by (auto simp: decodes_def read_u32_le_or_def)

lemma odecodes_u32: "odecodes read_u32_le (to_le_u32 w) w"
  using odecodes_take [of "to_le_u32 w" 4] by (auto simp: odecodes_def read_u32_le_def)

lemma decodes_u64: "decodes (read_u64_le_or e) (to_le_u64 w) w"
  using decodes_take [of "to_le_u64 w" 8 e] by (auto simp: decodes_def read_u64_le_or_def)

lemma odecodes_u64: "odecodes read_u64_le (to_le_u64 w) w"
  using odecodes_take [of "to_le_u64 w" 8] by (auto simp: odecodes_def read_u64_le_def)

lemma decodes_hash: "length h = 32 \<Longrightarrow> decodes (read_hash_or e) h h"
  by (simp add: read_hash_or_def [abs_def] decodes_take)

lemma odecodes_hash: "length h = 32 \<Longrightarrow> odecodes read_hash h h"
  by (simp add: read_hash_def [abs_def] odecodes_take)

lemma decodes_option: "m = Some v \<Longrightarrow> decodes (rp_option m e) [] v"
  by (simp add: rp_option_def decodes_return)

lemma odecodes_option: "m = Some v \<Longrightarrow> odecodes (op_option m) [] v"
  by (simp add: odecodes_return)

text \<open>Every read is in bounds: the cursor never passes the end and never moves back.\<close>

lemma cur_take_bounds:
  "cur_take n c = Some (s, c') \<Longrightarrow>
    length s = n \<and> cur_pos c' = cur_pos c + n \<and> cur_pos c' \<le> length (cur_buf c) \<and> cur_buf c' = cur_buf c"
  by (auto simp: cur_take_def split: if_splits)

end
