(* ===== verification/Lamport_Signature.thy ===== *)
theory Lamport_Signature
  imports Content_Hash Byte_Cursor
begin

text \<open>
  The cryptographic abstraction layer, \<^verbatim>\<open>dominion-core/src/crypto.rs\<close>: the trait \<^verbatim>\<open>SignatureScheme\<close>
  as a record of operations with its contract as a locale, the Lamport one-time signature over the
  content hash, the hybrid of two schemes, and the registry of schemes.  Shown: signatures of the
  Lamport scheme and of the hybrid verify, and a signature that verifies for another digest
  exhibits a preimage that signing did not reveal.
\<close>

section \<open>The trait and the Lamport scheme\<close>

record signature_scheme =
  ss_id :: rstring
  ss_keygen :: "bytes \<Rightarrow> bytes \<times> bytes"
  ss_sign :: "bytes \<Rightarrow> bytes \<Rightarrow> bytes"
  ss_verify :: "bytes \<Rightarrow> bytes \<Rightarrow> bytes \<Rightarrow> bool"

record lamport_sig =
  ls_domain :: rstring
  ls_id :: rstring

definition lamport_new :: "rstring \<Rightarrow> rstring \<Rightarrow> lamport_sig" where
  "lamport_new i d = \<lparr>ls_domain = d, ls_id = i\<rparr>"

definition secret_value :: "lamport_sig \<Rightarrow> bytes \<Rightarrow> nat \<Rightarrow> u8 \<Rightarrow> bytes" where
  "secret_value l seed index b =
    hash_of (seed @ ls_domain l @ ascii ''sk'' @ le_bytes 2 (word_of_nat index :: 16 word) @ [b])"

definition msg_bit :: "bytes \<Rightarrow> nat \<Rightarrow> u8" where
  "msg_bit h i = drop_bit (i mod 8) (h ! (i div 8)) AND 1"

definition lamport_keygen :: "lamport_sig \<Rightarrow> bytes \<Rightarrow> bytes \<times> bytes" where
  "lamport_keygen l seed =
    (seed, concat (map (\<lambda>i. concat (map (\<lambda>bit. hash_of (secret_value l seed i bit)) [0, 1])) [0..<256]))"

definition lamport_sign :: "lamport_sig \<Rightarrow> bytes \<Rightarrow> bytes \<Rightarrow> bytes" where
  "lamport_sign l secret msg =
    (let h = hash_of msg
     in concat (map (\<lambda>i. secret_value l secret i (msg_bit h i)) [0..<256]))"

definition lamport_verify :: "bytes \<Rightarrow> bytes \<Rightarrow> bytes \<Rightarrow> bool" where
  "lamport_verify public msg sig =
    (if length public \<noteq> 256 * 2 * 32 \<or> length sig \<noteq> 256 * 32 then False
     else let h = hash_of msg
          in list_all (\<lambda>i. let bit = unat (msg_bit h i);
                               revealed = slice (i * 32) 32 sig;
                               computed = hash_of revealed;
                               expected = slice ((i * 2 + bit) * 32) 32 public
                           in computed = expected) [0..<256])"

definition lamport_scheme :: "lamport_sig \<Rightarrow> signature_scheme" where
  "lamport_scheme l =
    \<lparr>ss_id = ls_id l, ss_keygen = lamport_keygen l, ss_sign = lamport_sign l, ss_verify = lamport_verify\<rparr>"

section \<open>The hybrid scheme\<close>

record hybrid =
  hy_classical :: signature_scheme
  hy_post_quantum :: signature_scheme

definition put_chunk :: "bytes \<Rightarrow> bytes \<Rightarrow> bytes" where
  "put_chunk out chunk = out @ to_le_u32 (len_u32 chunk) @ chunk"

text \<open>The position is threaded; a failure leaves it behind the length, which no caller reads.\<close>

definition take_chunk :: "bytes \<Rightarrow> nat \<Rightarrow> bytes option \<times> nat" where
  "take_chunk data pos =
    (if pos + 4 > length data then (None, pos)
     else let len = unat (of_le_bytes (slice pos 4 data) :: u32); pos = pos + 4
          in if pos + len > length data then (None, pos)
             else (Some (slice pos len data), pos + len))"

definition unwrap_or_default :: "bytes option \<Rightarrow> bytes" where
  "unwrap_or_default m = (case m of Some x \<Rightarrow> x | None \<Rightarrow> [])"

definition hy_keygen :: "hybrid \<Rightarrow> bytes \<Rightarrow> bytes \<times> bytes" where
  "hy_keygen h seed =
    (let cseed = seed @ ascii '':classical'';
         qseed = seed @ ascii '':pq'';
         (csk, cpk) = ss_keygen (hy_classical h) cseed;
         (qsk, qpk) = ss_keygen (hy_post_quantum h) qseed;
         secret = put_chunk (put_chunk [] csk) qsk;
         public = put_chunk (put_chunk [] cpk) qpk
     in (secret, public))"

definition hy_sign :: "hybrid \<Rightarrow> bytes \<Rightarrow> bytes \<Rightarrow> bytes" where
  "hy_sign h secret msg =
    (let (csk, pos) = take_chunk secret 0;
         (qsk, pos) = take_chunk secret pos
     in put_chunk (put_chunk [] (ss_sign (hy_classical h) (unwrap_or_default csk) msg))
          (ss_sign (hy_post_quantum h) (unwrap_or_default qsk) msg))"

definition hy_verify :: "hybrid \<Rightarrow> bytes \<Rightarrow> bytes \<Rightarrow> bytes \<Rightarrow> bool" where
  "hy_verify h public msg sig =
    (case take_chunk public 0 of (None, _) \<Rightarrow> False | (Some cpk, pp) \<Rightarrow>
     case take_chunk public pp of (None, _) \<Rightarrow> False | (Some qpk, _) \<Rightarrow>
     case take_chunk sig 0 of (None, _) \<Rightarrow> False | (Some csig, sp) \<Rightarrow>
     case take_chunk sig sp of (None, _) \<Rightarrow> False | (Some qsig, _) \<Rightarrow>
       ss_verify (hy_classical h) cpk msg csig \<and> ss_verify (hy_post_quantum h) qpk msg qsig)"

section \<open>The registry\<close>

type_synonym crypto_layer = "signature_scheme list"

definition cl_new :: crypto_layer where
  "cl_new = []"

definition cl_register :: "signature_scheme \<Rightarrow> crypto_layer \<Rightarrow> crypto_layer" where
  "cl_register s c = c @ [s]"

definition cl_with_defaults :: crypto_layer where
  "cl_with_defaults =
    cl_register (lamport_scheme (lamport_new (ascii ''lamport-pq'') (ascii ''post-quantum'')))
      (cl_register (lamport_scheme (lamport_new (ascii ''lamport-classical'') (ascii ''classical''))) cl_new)"

definition cl_by_id :: "rstring \<Rightarrow> crypto_layer \<Rightarrow> signature_scheme option" where
  "cl_by_id i c = List.find (\<lambda>s. ss_id s = i) c"

definition cl_keygen :: "rstring \<Rightarrow> bytes \<Rightarrow> crypto_layer \<Rightarrow> (bytes \<times> bytes) option" where
  "cl_keygen i seed c = map_option (\<lambda>s. ss_keygen s seed) (cl_by_id i c)"

definition cl_sign :: "rstring \<Rightarrow> bytes \<Rightarrow> bytes \<Rightarrow> crypto_layer \<Rightarrow> bytes option" where
  "cl_sign i secret msg c = map_option (\<lambda>s. ss_sign s secret msg) (cl_by_id i c)"

definition cl_verify :: "rstring \<Rightarrow> bytes \<Rightarrow> bytes \<Rightarrow> bytes \<Rightarrow> crypto_layer \<Rightarrow> bool" where
  "cl_verify i public msg sig c = (case cl_by_id i c of Some s \<Rightarrow> ss_verify s public msg sig | None \<Rightarrow> False)"

definition cl_algorithms :: "crypto_layer \<Rightarrow> rstring list" where
  "cl_algorithms c = map ss_id c"

section \<open>Lamport signatures verify\<close>

text \<open>Reading fixed-size pieces of a concatenation.\<close>

lemma length_concat_uniform:
  "(\<And>i. i < k \<Longrightarrow> length (f i) = n) \<Longrightarrow> length (concat (map f [0..<k])) = k * n"
  by (induction k) simp_all

lemma slice_concat_uniform:
  assumes "\<And>i. i < k \<Longrightarrow> length (f i) = n" and "i < k"
  shows "slice (i * n) n (concat (map f [0..<k])) = f i"
  using assms
proof (induction k)
  case 0
  then show ?case by simp
next
  case (Suc k)
  then have len: "length (concat (map f [0..<k])) = k * n" by (intro length_concat_uniform) simp
  show ?case
  proof (cases "i = k")
    case True
    then show ?thesis using len Suc.prems(1) [of k] by (simp add: slice_def)
  next
    case False
    then have "i < k" using Suc.prems(2) by simp
    then have "i * n + n \<le> k * n" using mult_le_mono1 [of "Suc i" k n] by simp
    then show ?thesis using len Suc \<open>i < k\<close> by (simp add: slice_append_left)
  qed
qed

lemma slice_slice: "a + n \<le> m \<Longrightarrow> slice a n (slice b m xs) = slice (b + a) n xs"
  by (simp add: slice_def take_drop min_def add.commute)

lemma msg_bit_cases: "msg_bit h i = 0 \<or> msg_bit h i = 1"
  unfolding msg_bit_def and_one_eq by (metis mod2_eq_if)

lemma length_secret_value [simp]: "length (secret_value l seed i b) = 32"
  by (simp add: secret_value_def)

lemma length_lamport_public [simp]: "length (snd (lamport_keygen l seed)) = 256 * 2 * 32"
  by (simp add: lamport_keygen_def length_concat_uniform [where n = 64] del: upt_Suc)

lemma length_lamport_sign [simp]: "length (lamport_sign l sk msg) = 256 * 32"
  by (simp add: lamport_sign_def Let_def length_concat_uniform [where n = 32])

lemma lamport_public_piece:
  assumes "i < 256" and "b = 0 \<or> b = 1"
  shows "slice ((i * 2 + unat b) * 32) 32 (snd (lamport_keygen l seed)) = hash_of (secret_value l seed i b)"
proof -
  let ?f = "\<lambda>i. concat (map (\<lambda>bit. hash_of (secret_value l seed i bit)) [0, 1])"
  have "slice (unat b * 32) 32 (slice (i * 64) 64 (concat (map ?f [0..<256]))) = hash_of (secret_value l seed i b)"
    using assms by (subst slice_concat_uniform) (auto simp: slice_def)
  moreover have "unat b * 32 + 32 \<le> 64" using assms(2) by auto
  ultimately show ?thesis by (simp add: slice_slice lamport_keygen_def algebra_simps)
qed

lemma lamport_signature_piece:
  "i < 256 \<Longrightarrow> slice (i * 32) 32 (lamport_sign l sk msg) = secret_value l sk i (msg_bit (hash_of msg) i)"
  unfolding lamport_sign_def Let_def by (rule slice_concat_uniform) simp_all

lemma lamport_verifyD:
  assumes "lamport_verify pk msg sig" and "i < 256"
  shows "hash_of (slice (i * 32) 32 sig) = slice ((i * 2 + unat (msg_bit (hash_of msg) i)) * 32) 32 pk"
  using assms by (auto simp: lamport_verify_def Let_def list_all_iff split: if_splits)

lemma fst_lamport_keygen [simp]: "fst (lamport_keygen l seed) = seed"
  by (simp add: lamport_keygen_def)

lemma lamport_sign_verify: "lamport_verify (snd (lamport_keygen l seed)) msg (lamport_sign l seed msg)"
  unfolding lamport_verify_def Let_def list_all_iff
  by (auto simp: lamport_signature_piece lamport_public_piece msg_bit_cases simp del: mult_Suc distrib_right_numeral)

section \<open>The contract of a scheme\<close>

locale correct_scheme =
  fixes S :: signature_scheme
  assumes sign_verify: "ss_keygen S seed = (sk, pk) \<Longrightarrow> ss_verify S pk msg (ss_sign S sk msg)"
    and key_lengths: "ss_keygen S seed = (sk, pk) \<Longrightarrow> length seed < 2 ^ 32 \<Longrightarrow> length sk < 2 ^ 32 \<and> length pk < 2 ^ 32"
    and sign_length: "length (ss_sign S sk msg) < 2 ^ 32"
begin

text \<open>A scheme that the registry finds under its id is usable through the registry.\<close>

lemma registered_round_trip:
  assumes "cl_by_id i c = Some S"
  shows "\<exists>sk pk sig. cl_keygen i seed c = Some (sk, pk) \<and> cl_sign i sk msg c = Some sig \<and> cl_verify i pk msg sig c"
  using assms sign_verify
  by (cases "ss_keygen S seed") (auto simp: cl_keygen_def cl_sign_def cl_verify_def)

end

lemma lamport_keygen_iff: "lamport_keygen l seed = (sk, pk) \<longleftrightarrow> sk = seed \<and> pk = snd (lamport_keygen l seed)"
  by (metis fst_lamport_keygen prod.collapse prod.inject)

interpretation lamport: correct_scheme "lamport_scheme l" for l
proof
  show "ss_verify (lamport_scheme l) pk msg (ss_sign (lamport_scheme l) sk msg)"
    if "ss_keygen (lamport_scheme l) seed = (sk, pk)" for seed sk pk msg
    using that lamport_keygen_iff [of l seed sk pk] by (simp add: lamport_scheme_def lamport_sign_verify)
  show "length sk < 2 ^ 32 \<and> length pk < 2 ^ 32"
    if "ss_keygen (lamport_scheme l) seed = (sk, pk)" and "length seed < 2 ^ 32" for seed sk pk
    using that lamport_keygen_iff [of l seed sk pk] by (simp add: lamport_scheme_def)
  show "length (ss_sign (lamport_scheme l) sk msg) < 2 ^ 32" for sk msg
    by (simp add: lamport_scheme_def)
qed

lemma take_chunk_put:
  assumes "length x < 2 ^ 32" and "length pre = p"
  shows "take_chunk (pre @ to_le_u32 (len_u32 x) @ x @ post) p = (Some x, p + 4 + length x)"
proof -
  have "slice p 4 (pre @ to_le_u32 (len_u32 x) @ x @ post) = to_le_u32 (len_u32 x)"
    using assms(2) by (simp add: slice_def)
  then show ?thesis
    using assms by (simp add: take_chunk_def Let_def unat_len_u32) (simp add: slice_def)
qed

lemma take_two_chunks:
  assumes "length x < 2 ^ 32" and "length y < 2 ^ 32"
  shows "take_chunk (put_chunk (put_chunk [] x) y) 0 = (Some x, 4 + length x)"
    and "take_chunk (put_chunk (put_chunk [] x) y) (4 + length x) = (Some y, 8 + length x + length y)"
  using take_chunk_put [OF assms(1), of "[]" 0 "to_le_u32 (len_u32 y) @ y"]
    take_chunk_put [OF assms(2), of "to_le_u32 (len_u32 x) @ x" "4 + length x" "[]"]
  by (simp_all add: put_chunk_def)

locale scheme_pair = classical: correct_scheme C + pq: correct_scheme Q for C Q
begin

lemma hybrid_sign_verify:
  assumes "hy_keygen \<lparr>hy_classical = C, hy_post_quantum = Q\<rparr> seed = (sk, pk)" and "length seed + 10 < 2 ^ 32"
  shows "hy_verify \<lparr>hy_classical = C, hy_post_quantum = Q\<rparr> pk msg
    (hy_sign \<lparr>hy_classical = C, hy_post_quantum = Q\<rparr> sk msg)"
proof -
  obtain csk cpk where c: "ss_keygen C (seed @ ascii '':classical'') = (csk, cpk)" by fastforce
  obtain qsk qpk where q: "ss_keygen Q (seed @ ascii '':pq'') = (qsk, qpk)" by fastforce
  note lens = classical.key_lengths [OF c] pq.key_lengths [OF q]
  have "length csk < 2 ^ 32" "length cpk < 2 ^ 32" "length qsk < 2 ^ 32" "length qpk < 2 ^ 32"
    using lens assms(2) by simp_all
  moreover have "sk = put_chunk (put_chunk [] csk) qsk" "pk = put_chunk (put_chunk [] cpk) qpk"
    using assms(1) c q by (auto simp: hy_keygen_def)
  ultimately show ?thesis
    using classical.sign_verify [OF c] pq.sign_verify [OF q]
      take_two_chunks [OF classical.sign_length [of csk msg] pq.sign_length [of qsk msg]]
    by (simp add: hy_verify_def hy_sign_def take_two_chunks unwrap_or_default_def)
qed

end

interpretation lamports: scheme_pair "lamport_scheme l" "lamport_scheme l'" for l l' ..

section \<open>Properties\<close>

text \<open>The digests of two messages differ at some bit.\<close>

lemma msg_bit_eq_bit: "msg_bit h i = of_bool (bit (h ! (i div 8)) (i mod 8))"
  by (simp add: msg_bit_def and_one_eq bit_iff_odd_drop_bit mod2_eq_if)

lemma digest_bit_differs:
  assumes "length h = 32" and "length h' = 32" and "h \<noteq> h'"
  obtains i where "i < 256" and "msg_bit h i \<noteq> msg_bit h' i"
proof -
  obtain j where j: "j < 32" "h ! j \<noteq> h' ! j" using assms nth_equalityI by metis
  then obtain k where "k < 8" "bit (h ! j) k \<noteq> bit (h' ! j) k"
    using bit_word_eqI [of "h ! j" "h' ! j"] by auto
  then have "msg_bit h (8 * j + k) \<noteq> msg_bit h' (8 * j + k)" and "8 * j + k < 256"
    using j by (auto simp: msg_bit_eq_bit)
  then show ?thesis by (rule that [rotated])
qed

text \<open>
  One-time signatures are as hard to forge as the hash is to invert: a signature that verifies
  under a Lamport key for a message with another digest than the one that was signed contains, at
  some position, a preimage of a published hash whose secret value signing did not reveal.
\<close>
lemma lamport_forgery:
  assumes "lamport_verify (snd (lamport_keygen l seed)) msg' sig'" and "hash_of msg' \<noteq> hash_of msg"
  shows "\<exists>i < 256. \<exists>b \<in> {0, 1}.
    slice (i * 32) 32 (lamport_sign l seed msg) = secret_value l seed i (1 - b) \<and>
    hash_of (slice (i * 32) 32 sig') = hash_of (secret_value l seed i b)"
proof -
  obtain i where i: "i < 256" "msg_bit (hash_of msg') i \<noteq> msg_bit (hash_of msg) i"
    using digest_bit_differs [of "hash_of msg'" "hash_of msg"] assms(2) by auto
  let ?b = "msg_bit (hash_of msg') i"
  have "msg_bit (hash_of msg) i = 1 - ?b"
    using i(2) msg_bit_cases [of "hash_of msg'" i] msg_bit_cases [of "hash_of msg" i] by auto
  moreover have "hash_of (slice (i * 32) 32 sig') = hash_of (secret_value l seed i ?b)"
    using lamport_verifyD [OF assms(1) i(1)] lamport_public_piece [OF i(1) msg_bit_cases] by simp
  ultimately show ?thesis
    using i(1) msg_bit_cases [of "hash_of msg'" i] by (intro exI [of _ i] conjI bexI [of _ ?b]) (auto simp: lamport_signature_piece)
qed

lemma hy_keygen_lamports:
  fixes l l' :: lamport_sig
  assumes "length seed + 10 < 2 ^ 32"
  defines "pk \<equiv> snd (hy_keygen \<lparr>hy_classical = lamport_scheme l, hy_post_quantum = lamport_scheme l'\<rparr> seed)"
  shows "take_chunk pk 0 = (Some (snd (lamport_keygen l (seed @ ascii '':classical''))), 16388)"
    and "take_chunk pk 16388 = (Some (snd (lamport_keygen l' (seed @ ascii '':pq''))), 32776)"
proof -
  let ?x = "snd (lamport_keygen l (seed @ ascii '':classical''))" and ?y = "snd (lamport_keygen l' (seed @ ascii '':pq''))"
  have "pk = put_chunk (put_chunk [] ?x) ?y"
    unfolding pk_def by (simp add: hy_keygen_def lamport_scheme_def split: prod.split)
  moreover have "length ?x = 16384" "length ?y = 16384" by simp_all
  ultimately show "take_chunk pk 0 = (Some ?x, 16388)" "take_chunk pk 16388 = (Some ?y, 32776)"
    using take_two_chunks [of ?x ?y] by simp_all
qed

text \<open>
  The hybrid of two Lamport schemes: what it signs verifies, and it accepts a signature exactly
  when its first chunk verifies under the classical key and its second under the post-quantum key.
\<close>
theorem hybrid_needs_both:
  fixes l l' :: lamport_sig
  defines "H \<equiv> \<lparr>hy_classical = lamport_scheme l, hy_post_quantum = lamport_scheme l'\<rparr>"
  assumes "length seed + 10 < 2 ^ 32"
  shows "case hy_keygen H seed of (sk, pk) \<Rightarrow>
    hy_verify H pk msg (hy_sign H sk msg) \<and>
    (hy_verify H pk msg' sig' \<longleftrightarrow> (\<exists>csig qsig p q.
       take_chunk sig' 0 = (Some csig, p) \<and> take_chunk sig' p = (Some qsig, q) \<and>
       lamport_verify (snd (lamport_keygen l (seed @ ascii '':classical''))) msg' csig \<and>
       lamport_verify (snd (lamport_keygen l' (seed @ ascii '':pq''))) msg' qsig))"
proof -
  obtain sk pk where k: "hy_keygen H seed = (sk, pk)" by fastforce
  note chunks = hy_keygen_lamports [OF assms(2), of l l', folded H_def, unfolded k snd_conv]
  have "hy_verify H pk msg (hy_sign H sk msg)"
    using lamports.hybrid_sign_verify [of l l' seed sk pk] k assms(2) unfolding H_def by simp
  moreover have "hy_verify H pk msg' sig' \<longleftrightarrow> (\<exists>csig qsig p q.
      take_chunk sig' 0 = (Some csig, p) \<and> take_chunk sig' p = (Some qsig, q) \<and>
      lamport_verify (snd (lamport_keygen l (seed @ ascii '':classical''))) msg' csig \<and>
      lamport_verify (snd (lamport_keygen l' (seed @ ascii '':pq''))) msg' qsig)"
    unfolding hy_verify_def chunks(1) prod.case option.case chunks(2)
    by (cases "take_chunk sig' 0", cases "take_chunk sig' (snd (take_chunk sig' 0))")
      (auto simp: H_def lamport_scheme_def split: option.split)
  ultimately show ?thesis using k by simp
qed

theorem hybrid_needs_both_witness:
  "case hy_keygen \<lparr>hy_classical = lamport_scheme (lamport_new [1] [2]), hy_post_quantum = lamport_scheme (lamport_new [3] [4])\<rparr> [] of (sk, pk) \<Rightarrow>
    hy_verify \<lparr>hy_classical = lamport_scheme (lamport_new [1] [2]), hy_post_quantum = lamport_scheme (lamport_new [3] [4])\<rparr> pk [7]
      (hy_sign \<lparr>hy_classical = lamport_scheme (lamport_new [1] [2]), hy_post_quantum = lamport_scheme (lamport_new [3] [4])\<rparr> sk [7])"
  using hybrid_needs_both [of "[]" "lamport_new [1] [2]" "lamport_new [3] [4]" "[7]" "[]" "[]"]
  unfolding case_prod_beta by (simp del: hybrid.simps)

end
