(* ===== verification/Capability.thy ===== *)
theory Capability
  imports Content_Hash
begin

text \<open>
  The capability algebra, \<^verbatim>\<open>dominion-core/src/capability.rs\<close>: rights masks, bounded tokens
  with a validity tag and a provenance hash, and the operations mint, derive, restrict, check
  and tamper with every error branch.  The lemmas characterise \<^verbatim>\<open>check\<close> and \<^verbatim>\<open>derive\<close> as
  interval and bit-set inclusions over the unbounded naturals, and show that no chain of
  derivations amplifies authority.
\<close>

subsection \<open>Rights\<close>

type_synonym rights = u32

definition rights_NONE :: rights where "rights_NONE = 0"
definition rights_READ :: rights where "rights_READ = push_bit 0 1"
definition rights_WRITE :: rights where "rights_WRITE = push_bit 1 1"
definition rights_EXECUTE :: rights where "rights_EXECUTE = push_bit 2 1"
definition rights_GRANT :: rights where "rights_GRANT = push_bit 3 1"
definition rights_SEAL :: rights where "rights_SEAL = push_bit 4 1"
definition rights_ALL :: rights where "rights_ALL = 0b11111"

definition rights_from_bits :: "u32 \<Rightarrow> rights" where
  "rights_from_bits b = b AND rights_ALL"

definition rights_contains :: "rights \<Rightarrow> rights \<Rightarrow> bool" where
  "rights_contains self other \<longleftrightarrow> self AND other = other"

definition rights_union :: "rights \<Rightarrow> rights \<Rightarrow> rights" where
  "rights_union self other = self OR other"

definition rights_intersect :: "rights \<Rightarrow> rights \<Rightarrow> rights" where
  "rights_intersect self other = self AND other"

definition rights_subset_of :: "rights \<Rightarrow> rights \<Rightarrow> bool" where
  "rights_subset_of self other \<longleftrightarrow> self AND other = self"

lemma rights_contains_iff_subset: "rights_contains a b \<longleftrightarrow> rights_subset_of b a"
  by (simp add: rights_contains_def rights_subset_of_def and.commute)

lemma rights_subset_refl [simp]: "rights_subset_of a a"
  by (simp add: rights_subset_of_def)

lemma rights_subset_trans: "rights_subset_of a b \<Longrightarrow> rights_subset_of b c \<Longrightarrow> rights_subset_of a c"
  by (auto simp: rights_subset_of_def intro: and_eq_left_trans)

lemma rights_subset_antisym: "rights_subset_of a b \<Longrightarrow> rights_subset_of b a \<Longrightarrow> a = b"
  by (metis rights_subset_of_def and.commute)

lemma rights_intersect_subset:
  "rights_subset_of (rights_intersect a b) a" "rights_subset_of (rights_intersect a b) b"
  by (simp_all add: rights_subset_of_def rights_intersect_def ac_simps)

lemma rights_intersect_greatest:
  "rights_subset_of c a \<Longrightarrow> rights_subset_of c b \<Longrightarrow> rights_subset_of c (rights_intersect a b)"
  by (simp add: rights_subset_of_def rights_intersect_def and.assoc [symmetric])

subsection \<open>Tokens and faults\<close>

datatype cap_error =
    MonotonicityViolation
  | BoundsEscalation
  | TagInvalid
  | InsufficientRights
  | OutOfBounds
  | Unauthorized

record capability =
  cap_base :: u64
  cap_len :: u64
  cap_rights :: rights
  cap_provenance :: hash256
  cap_tag :: bool

definition cap_mint :: "u64 \<Rightarrow> u64 \<Rightarrow> rights \<Rightarrow> capability" where
  "cap_mint b l r =
    (let seed = to_le_u64 b @ to_le_u64 l @ to_le_u32 r @ ascii ''ROOT''
     in \<lparr>cap_base = b, cap_len = l, cap_rights = r, cap_provenance = hash_of seed, cap_tag = True\<rparr>)"

definition cap_is_empty :: "capability \<Rightarrow> bool" where
  "cap_is_empty c \<longleftrightarrow> cap_len c = 0"

definition cap_is_valid :: "capability \<Rightarrow> bool" where
  "cap_is_valid c \<longleftrightarrow> cap_tag c"

definition cap_derive :: "capability \<Rightarrow> u64 \<Rightarrow> u64 \<Rightarrow> rights \<Rightarrow> cap_error + capability" where
  "cap_derive c new_base new_len new_rights =
    (if \<not> cap_tag c then Err TagInvalid
     else if \<not> rights_subset_of new_rights (cap_rights c) then Err MonotonicityViolation
     else rbind (ok_or (checked_add (cap_base c) (cap_len c)) BoundsEscalation) (\<lambda>parent_end.
       rbind (ok_or (checked_add new_base new_len) BoundsEscalation) (\<lambda>child_end.
         if new_base < cap_base c \<or> child_end > parent_end then Err BoundsEscalation
         else
           let seed = to_le_u64 new_base @ to_le_u64 new_len @ to_le_u32 new_rights;
               child_prov = combine (cap_provenance c) (hash_of seed)
           in Ok \<lparr>cap_base = new_base, cap_len = new_len, cap_rights = new_rights,
                   cap_provenance = child_prov, cap_tag = True\<rparr>)))"

definition cap_restrict :: "capability \<Rightarrow> rights \<Rightarrow> cap_error + capability" where
  "cap_restrict c r = cap_derive c (cap_base c) (cap_len c) r"

definition cap_check :: "capability \<Rightarrow> u64 \<Rightarrow> u64 \<Rightarrow> rights \<Rightarrow> cap_error + unit" where
  "cap_check c addr span needed =
    (if \<not> cap_tag c then Err TagInvalid
     else if \<not> rights_contains (cap_rights c) needed then Err InsufficientRights
     else rbind (ok_or (checked_add (cap_base c) (cap_len c)) OutOfBounds) (\<lambda>end.
       rbind (ok_or (checked_add addr span) OutOfBounds) (\<lambda>access_end.
         if addr < cap_base c \<or> access_end > end then Err OutOfBounds else Ok ())))"

definition cap_tamper :: "capability \<Rightarrow> capability" where
  "cap_tamper c = c\<lparr>cap_tag := False\<rparr>"

subsection \<open>Characterisations over the naturals\<close>

text \<open>The extent of a token, when its end does not overflow the address space.\<close>

definition within :: "u64 \<Rightarrow> u64 \<Rightarrow> u64 \<Rightarrow> u64 \<Rightarrow> bool" where
  "within b l pb pl \<longleftrightarrow>
    unat pb + unat pl < 2 ^ 64 \<and> unat pb \<le> unat b \<and> unat b + unat l \<le> unat pb + unat pl"

lemma within_refl: "within b l b l \<longleftrightarrow> unat b + unat l < 2 ^ 64"
  by (simp add: within_def)

lemma within_trans: "within a l b m \<Longrightarrow> within b m c n \<Longrightarrow> within a l c n"
  by (auto simp: within_def)

lemma checked_bounds_iff:
  "rbind (ok_or (checked_add pb pl) e) (\<lambda>pe. rbind (ok_or (checked_add b l) e) (\<lambda>ce.
     if b < pb \<or> ce > pe then Err e else Ok x)) = (if within b l pb pl then Ok x else Err e)"
  for pb pl b l :: u64
  by (auto simp: within_def checked_add_def word_less_nat_alt word_le_nat_alt unat_word_ariths not_less)

lemma cap_check_eq:
  "cap_check c addr span needed =
    (if \<not> cap_tag c then Err TagInvalid
     else if \<not> rights_subset_of needed (cap_rights c) then Err InsufficientRights
     else if within addr span (cap_base c) (cap_len c) then Ok () else Err OutOfBounds)"
  by (simp add: cap_check_def rights_contains_iff_subset checked_bounds_iff)

lemma cap_check_Ok_iff:
  "cap_check c addr span needed = Ok () \<longleftrightarrow>
    cap_tag c \<and> rights_subset_of needed (cap_rights c) \<and> within addr span (cap_base c) (cap_len c)"
  by (simp add: cap_check_eq)

definition derived_provenance :: "capability \<Rightarrow> u64 \<Rightarrow> u64 \<Rightarrow> rights \<Rightarrow> hash256" where
  "derived_provenance c b l r =
    combine (cap_provenance c) (hash_of (to_le_u64 b @ to_le_u64 l @ to_le_u32 r))"

lemma cap_derive_eq:
  "cap_derive c b l r =
    (if \<not> cap_tag c then Err TagInvalid
     else if \<not> rights_subset_of r (cap_rights c) then Err MonotonicityViolation
     else if within b l (cap_base c) (cap_len c)
       then Ok \<lparr>cap_base = b, cap_len = l, cap_rights = r,
                 cap_provenance = derived_provenance c b l r, cap_tag = True\<rparr>
       else Err BoundsEscalation)"
  unfolding cap_derive_def Let_def derived_provenance_def [symmetric]
  by (simp add: checked_bounds_iff)

lemma cap_derive_OkD:
  assumes "cap_derive c b l r = Ok c'"
  shows "cap_tag c" "cap_tag c'" "cap_base c' = b" "cap_len c' = l" "cap_rights c' = r"
    "rights_subset_of r (cap_rights c)" "within b l (cap_base c) (cap_len c)"
    "cap_provenance c' = derived_provenance c b l r"
  using assms by (auto simp: cap_derive_eq split: if_splits)

subsection \<open>The derivation tree\<close>

text \<open>
  Everything a holder can produce from a token: copies, derivations, restrictions and tampered
  tokens, in any number of steps.
\<close>

inductive obtains_cap :: "capability \<Rightarrow> capability \<Rightarrow> bool" where
  self: "obtains_cap root root"
| derive: "obtains_cap root c \<Longrightarrow> cap_derive c b l r = Ok c' \<Longrightarrow> obtains_cap root c'"
| restrict: "obtains_cap root c \<Longrightarrow> cap_restrict c r = Ok c' \<Longrightarrow> obtains_cap root c'"
| tamper: "obtains_cap root c \<Longrightarrow> obtains_cap root (cap_tamper c)"

text \<open>The order on authority: a live token below another has fewer rights and a smaller extent.\<close>

definition cap_le :: "capability \<Rightarrow> capability \<Rightarrow> bool" where
  "cap_le c d \<longleftrightarrow>
    (cap_tag c \<longrightarrow> cap_tag d \<and> rights_subset_of (cap_rights c) (cap_rights d) \<and>
      (c = d \<or> within (cap_base c) (cap_len c) (cap_base d) (cap_len d)))"

lemma cap_le_refl [simp]: "cap_le c c"
  by (simp add: cap_le_def)

lemma cap_le_trans: "cap_le a b \<Longrightarrow> cap_le b c \<Longrightarrow> cap_le a c"
  by (auto simp: cap_le_def intro: rights_subset_trans within_trans)

lemma cap_le_derive: "cap_derive c b l r = Ok c' \<Longrightarrow> cap_le c' c"
  by (auto simp: cap_le_def dest: cap_derive_OkD)

lemma cap_le_tamper: "cap_le (cap_tamper c) c"
  by (simp add: cap_le_def cap_tamper_def)

lemma obtains_cap_le: "obtains_cap root c \<Longrightarrow> cap_le c root"
proof (induction rule: obtains_cap.induct)
  case (derive root c b l r c')
  then show ?case by (blast intro: cap_le_derive cap_le_trans)
next
  case (restrict root c r c')
  then show ?case unfolding cap_restrict_def by (blast intro: cap_le_derive cap_le_trans)
next
  case (tamper root c)
  then show ?case by (blast intro: cap_le_tamper cap_le_trans)
qed simp

lemma cap_check_mono: "cap_le c d \<Longrightarrow> cap_check c a s n = Ok () \<Longrightarrow> cap_check d a s n = Ok ()"
  by (auto simp: cap_check_Ok_iff cap_le_def intro: rights_subset_trans within_trans)

subsection \<open>Provenance\<close>

text \<open>
  A fingerprint pins down the whole step that made it, as long as the hash inputs at hand do
  not collide.  Collision freedom is only ever assumed of the finitely many inputs involved.
\<close>

definition derive_seed :: "u64 \<Rightarrow> u64 \<Rightarrow> rights \<Rightarrow> bytes" where
  "derive_seed b l r = to_le_u64 b @ to_le_u64 l @ to_le_u32 r"

lemma derive_seed_inject [simp]: "derive_seed b l r = derive_seed b' l' r' \<longleftrightarrow> b = b' \<and> l = l' \<and> r = r'"
  by (simp add: derive_seed_def)

lemma combine_inject:
  assumes "inj_on hash_of {a @ b, a' @ b'}" and "length a = length a'"
  shows "combine a b = combine a' b' \<longleftrightarrow> a = a' \<and> b = b'"
  using assms by (auto simp: combine_def)

lemma derived_provenance_inject:
  assumes "inj_on hash_of {derive_seed b l r, derive_seed b' l' r'}"
    and "inj_on hash_of {cap_provenance c @ hash_of (derive_seed b l r),
                         cap_provenance c' @ hash_of (derive_seed b' l' r')}"
    and "length (cap_provenance c) = length (cap_provenance c')"
  shows "derived_provenance c b l r = derived_provenance c' b' l' r' \<longleftrightarrow>
    cap_provenance c = cap_provenance c' \<and> b = b' \<and> l = l' \<and> r = r'"
  using assms(1) unfolding derived_provenance_def derive_seed_def [symmetric]
  by (subst combine_inject [OF assms(2,3)]) (auto simp: inj_on_def)

lemma length_cap_provenance_mint [simp]: "length (cap_provenance (cap_mint b l r)) = 32"
  by (simp add: cap_mint_def)

lemma length_derived_provenance [simp]: "length (derived_provenance c b l r) = 32"
  by (simp add: derived_provenance_def)

subsection \<open>Properties\<close>

lemma rights_subset_bits: "rights_subset_of r s \<longleftrightarrow> {i. bit r i} \<subseteq> {i. bit s i}"
proof
  assume "rights_subset_of r s"
  then show "{i. bit r i} \<subseteq> {i. bit s i}"
    unfolding rights_subset_of_def by (metis (no_types) bit_and_iff mem_Collect_eq subsetI)
next
  assume "{i. bit r i} \<subseteq> {i. bit s i}"
  then show "rights_subset_of r s"
    unfolding rights_subset_of_def by (intro bit_word_eqI) (auto simp: bit_and_iff)
qed

text \<open>
  \<^verbatim>\<open>Capability::check\<close> decides access exactly: a cleared tag, a missing right bit and an
  access that leaves the token's interval (or whose end, or the token's end, overflows 64 bits)
  are refused in this order with their own error, and every other access is allowed.
\<close>

theorem capability_check_exact:
  "cap_check c addr span needed =
    (if \<not> cap_tag c then Err TagInvalid
     else if \<not> {i. bit needed i} \<subseteq> {i. bit (cap_rights c) i} then Err InsufficientRights
     else if unat (cap_base c) + unat (cap_len c) < 2 ^ 64 \<and> unat (cap_base c) \<le> unat addr \<and>
             unat addr + unat span \<le> unat (cap_base c) + unat (cap_len c) then Ok ()
     else Err OutOfBounds)"
  unfolding cap_check_eq rights_subset_bits within_def ..

text \<open>
  \<^verbatim>\<open>Capability::derive\<close> on every branch: it succeeds only on a live token, for a subset of
  its right bits and an interval inside its own (no 64-bit overflow), and then mints exactly
  the requested token, its provenance chained to the parent's.
\<close>

theorem capability_derive_exact:
  "cap_derive c b l r =
    (if \<not> cap_tag c then Err TagInvalid
     else if \<not> {i. bit r i} \<subseteq> {i. bit (cap_rights c) i} then Err MonotonicityViolation
     else if unat (cap_base c) + unat (cap_len c) < 2 ^ 64 \<and> unat (cap_base c) \<le> unat b \<and>
             unat b + unat l \<le> unat (cap_base c) + unat (cap_len c)
     then Ok \<lparr>cap_base = b, cap_len = l, cap_rights = r,
               cap_provenance = combine (cap_provenance c) (hash_of (to_le_u64 b @ to_le_u64 l @ to_le_u32 r)),
               cap_tag = True\<rparr>
     else Err BoundsEscalation)"
  unfolding cap_derive_eq rights_subset_bits within_def derived_provenance_def ..

text \<open>
  C1: No amplification.  Whatever a holder makes of a token by deriving, restricting and
  tampering, in any number of steps, every access the result is allowed was already allowed to
  the token it started from.
\<close>

theorem no_amplification:
  assumes "obtains_cap root c" and "cap_check c addr span needed = Ok ()"
  shows "cap_check root addr span needed = Ok ()"
  using obtains_cap_le [OF assms(1)] assms(2) by (rule cap_check_mono)

theorem no_amplification_witness:
  "cap_check (cap_mint 0x1000 0x1000 (rights_READ OR rights_WRITE)) 0x1200 0x80 rights_READ = Ok ()"
proof (rule no_amplification)
  let ?c = "\<lparr>cap_base = 0x1200, cap_len = 0x100, cap_rights = rights_READ,
    cap_provenance = derived_provenance (cap_mint 0x1000 0x1000 (rights_READ OR rights_WRITE)) 0x1200 0x100 rights_READ, cap_tag = True\<rparr>"
  have "cap_derive (cap_mint 0x1000 0x1000 (rights_READ OR rights_WRITE)) 0x1200 0x100 rights_READ = Ok ?c"
    by (simp add: cap_derive_eq cap_mint_def within_def rights_subset_of_def rights_READ_def rights_WRITE_def)
  then show "obtains_cap (cap_mint 0x1000 0x1000 (rights_READ OR rights_WRITE)) ?c"
    by (rule obtains_cap.derive [OF obtains_cap.self])
  show "cap_check ?c 0x1200 0x80 rights_READ = Ok ()"
    by (simp add: cap_check_eq within_def rights_subset_of_def rights_READ_def rights_WRITE_def)
qed

text \<open>
  Tampering is final.  Nothing that can be made from a tampered token is ever accepted by
  \<^verbatim>\<open>check\<close>, \<^verbatim>\<open>derive\<close> or \<^verbatim>\<open>restrict\<close> again.
\<close>

theorem tampering_is_final:
  assumes "obtains_cap (cap_tamper root) c"
  shows "cap_check c addr span needed = Err TagInvalid \<and> cap_derive c b l r = Err TagInvalid \<and>
    cap_restrict c r = Err TagInvalid"
  using obtains_cap_le [OF assms]
  by (simp add: cap_le_def cap_tamper_def cap_check_eq cap_derive_eq cap_restrict_def)

theorem tampering_is_final_witness:
  "cap_check (cap_tamper (cap_tamper (cap_mint 0 0x1000 (rights_READ OR rights_WRITE)))) 0 8 rights_READ = Err TagInvalid"
  using tampering_is_final [OF obtains_cap.tamper [OF obtains_cap.self]] by blast

end
