(* ===== verification/Merkle_Signer.thy ===== *)
theory Merkle_Signer
  imports Lamport_Signature Capability
begin

text \<open>
  Many one-time keys under one Merkle root: the validator signer of \<^verbatim>\<open>dominion-core/src/bft.rs\<close> and
  the token authority of \<^verbatim>\<open>dominion-core/src/tokensig.rs\<close>.  Shown: authentication paths lead to the
  root, what is signed verifies, no one-time key is used twice, and an accepted
  signature was made with one of the keys under the root.  Indices (\<^verbatim>\<open>usize\<close>) are natural numbers.
\<close>

section \<open>The Merkle tree\<close>

definition merkle_node :: "hash256 \<Rightarrow> hash256 \<Rightarrow> hash256" where
  "merkle_node a b = hash_of (a @ b)"

text \<open>One round of \<^verbatim>\<open>for pair in level.chunks(2)\<close>: a lone last node is paired with itself.\<close>

fun next_level :: "hash256 list \<Rightarrow> hash256 list" where
  "next_level [] = []"
| "next_level [a] = [merkle_node a a]"
| "next_level (a # b # level) = merkle_node a b # next_level level"

lemma length_next_level [simp]: "length (next_level level) = (length level + 1) div 2"
  by (induction level rule: next_level.induct) simp_all

function merkle_loop :: "hash256 list \<Rightarrow> hash256 list" where
  "merkle_loop level = (if length level > 1 then merkle_loop (next_level level) else level)"
  by pat_completeness auto
termination
  by (relation "measure length") auto

declare merkle_loop.simps [simp del]

definition merkle_root :: "hash256 list \<Rightarrow> hash256" where
  "merkle_root leaves = (case merkle_loop leaves of [] \<Rightarrow> hash_ZERO | h # _ \<Rightarrow> h)"

function auth_path_loop :: "hash256 list \<Rightarrow> nat \<Rightarrow> hash256 list" where
  "auth_path_loop level index =
    (if length level > 1
     then let sib = index XOR 1
          in (if sib < length level then level ! sib else level ! index)
               # auth_path_loop (next_level level) (index div 2)
     else [])"
  by pat_completeness auto
termination
  by (relation "measure (length \<circ> fst)") auto

declare auth_path_loop.simps [simp del]

text \<open>The loop of the verifiers: hash up the path.\<close>

fun path_root :: "hash256 \<Rightarrow> nat \<Rightarrow> hash256 list \<Rightarrow> hash256" where
  "path_root acc index [] = acc"
| "path_root acc index (s # path) =
    path_root (if index AND 1 = 0 then merkle_node acc s else merkle_node s acc) (index div 2) path"

section \<open>The validator's signer\<close>

record ots_sig =
  os_index :: nat
  os_sig :: bytes
  os_pub :: bytes
  os_path :: "hash256 list"

record signer =
  sg_lamport :: lamport_sig
  sg_master :: bytes
  sg_leaves :: "hash256 list"
  sg_root :: hash256
  sg_next_slot :: nat

definition bft_lamport :: lamport_sig where
  "bft_lamport = lamport_new (ascii ''lamport-bft'') (ascii ''bft-pq'')"

definition ots_seed :: "bytes \<Rightarrow> nat \<Rightarrow> bytes" where
  "ots_seed master index = master @ ascii '':bft-ots:'' @ to_le_u64 (word_of_nat index)"

text \<open>\<^verbatim>\<open>1usize << height\<close>: the amount of a shift is taken modulo the width, as in a release build.\<close>

definition signer_new :: "bytes \<Rightarrow> nat \<Rightarrow> signer" where
  "signer_new master_seed height =
    (let n = 2 ^ (height mod 64);
         leaves = map (\<lambda>i. case lamport_keygen bft_lamport (ots_seed master_seed i) of (_, pk) \<Rightarrow> hash_of pk) [0..<n]
     in \<lparr>sg_lamport = bft_lamport, sg_master = master_seed, sg_leaves = leaves,
         sg_root = merkle_root leaves, sg_next_slot = 0\<rparr>)"

definition public_key :: "signer \<Rightarrow> hash256" where
  "public_key g = sg_root g"

definition sg_capacity :: "signer \<Rightarrow> nat" where
  "sg_capacity g = length (sg_leaves g)"

definition can_sign :: "signer \<Rightarrow> bool" where
  "can_sign g \<longleftrightarrow> sg_next_slot g < length (sg_leaves g)"

definition is_exhausted :: "signer \<Rightarrow> bool" where
  "is_exhausted g \<longleftrightarrow> \<not> can_sign g"

definition auth_path :: "signer \<Rightarrow> nat \<Rightarrow> hash256 list" where
  "auth_path g index = auth_path_loop (sg_leaves g) index"

definition sg_sign :: "signer \<Rightarrow> bytes \<Rightarrow> nat \<Rightarrow> ots_sig option" where
  "sg_sign g msg index =
    (if index \<ge> length (sg_leaves g) then None
     else let (sk, pk) = lamport_keygen (sg_lamport g) (ots_seed (sg_master g) index);
              sig = lamport_sign (sg_lamport g) sk msg
          in Some \<lparr>os_index = index, os_sig = sig, os_pub = pk, os_path = auth_path g index\<rparr>)"

definition sign_next :: "bytes \<Rightarrow> signer \<Rightarrow> ots_sig option \<times> signer" where
  "sign_next msg g =
    (if is_exhausted g then (None, g)
     else let slot = sg_next_slot g;
              g' = g\<lparr>sg_next_slot := sg_next_slot g + 1\<rparr>;
              (sk, pk) = lamport_keygen (sg_lamport g') (ots_seed (sg_master g') slot);
              sig = lamport_sign (sg_lamport g') sk msg
          in (Some \<lparr>os_index = slot, os_sig = sig, os_pub = pk, os_path = auth_path g' slot\<rparr>, g'))"

definition verify_sig :: "hash256 \<Rightarrow> bytes \<Rightarrow> ots_sig \<Rightarrow> bool" where
  "verify_sig root msg sig =
    (if \<not> lamport_verify (os_pub sig) msg (os_sig sig) then False
     else path_root (hash_of (os_pub sig)) (os_index sig) (os_path sig) = root)"

section \<open>The token authority\<close>

text \<open>
  \<^verbatim>\<open>tokensig.rs\<close> has its own copy of the tree, which indexes \<^verbatim>\<open>pair[1]\<close> and \<^verbatim>\<open>level[sib]\<close> without a
  test: \<open>None\<close> is the panic on a level of odd length.
\<close>

definition canonical :: "capability \<Rightarrow> bytes" where
  "canonical c =
    to_le_u64 (cap_base c) @ to_le_u64 (cap_len c) @ le_bytes 4 (cap_rights c) @
    cap_provenance c @ [of_bool (cap_tag c)]"

record token_authority =
  ta_lamport :: lamport_sig
  ta_master_seed :: bytes
  ta_leaves :: "hash256 list"
  ta_root :: hash256

record signed_token =
  tok_cap :: capability
  tok_index :: nat
  tok_ots_sig :: bytes
  tok_ots_pub :: bytes
  tok_auth_path :: "hash256 list"

definition token_lamport :: lamport_sig where
  "token_lamport = lamport_new (ascii ''lamport-token'') (ascii ''token-pq'')"

definition tk_ots_seed :: "bytes \<Rightarrow> nat \<Rightarrow> bytes" where
  "tk_ots_seed master index = master @ ascii '':ots:'' @ to_le_u64 (word_of_nat index)"

fun tk_next_level :: "hash256 list \<Rightarrow> hash256 list option" where
  "tk_next_level [] = Some []"
| "tk_next_level [a] = None"
| "tk_next_level (a # b # level) = map_option ((#) (merkle_node a b)) (tk_next_level level)"

lemma tk_next_level_eq: "tk_next_level level = (if even (length level) then Some (next_level level) else None)"
  by (induction level rule: tk_next_level.induct) auto

function tk_merkle_root :: "hash256 list \<Rightarrow> hash256 option" where
  "tk_merkle_root level =
    (if length level > 1
     then case tk_next_level level of None \<Rightarrow> None | Some next_lv \<Rightarrow> tk_merkle_root next_lv
     else case level of [] \<Rightarrow> None | h # _ \<Rightarrow> Some h)"
  by pat_completeness auto
termination
  by (relation "measure length") (auto simp: tk_next_level_eq split: if_splits)

function tk_auth_path :: "hash256 list \<Rightarrow> nat \<Rightarrow> hash256 list option" where
  "tk_auth_path level index =
    (if length level > 1
     then if index XOR 1 < length level
          then case tk_next_level level of None \<Rightarrow> None
               | Some next_lv \<Rightarrow> map_option ((#) (level ! (index XOR 1))) (tk_auth_path next_lv (index div 2))
          else None
     else Some [])"
  by pat_completeness auto
termination
  by (relation "measure (length \<circ> fst)") (auto simp: tk_next_level_eq split: if_splits)

declare tk_merkle_root.simps [simp del] tk_auth_path.simps [simp del]

definition ta_new :: "bytes \<Rightarrow> nat \<Rightarrow> token_authority option" where
  "ta_new master_seed height =
    (let n = 2 ^ (height mod 64);
         leaves = map (\<lambda>i. case lamport_keygen token_lamport (tk_ots_seed master_seed i) of (_, pk) \<Rightarrow> hash_of pk) [0..<n]
     in map_option (\<lambda>root. \<lparr>ta_lamport = token_lamport, ta_master_seed = master_seed, ta_leaves = leaves, ta_root = root\<rparr>)
          (tk_merkle_root leaves))"

definition ta_sign :: "token_authority \<Rightarrow> capability \<Rightarrow> nat \<Rightarrow> signed_token option option" where
  "ta_sign a c index =
    (if index \<ge> length (ta_leaves a) then Some None
     else let seed = tk_ots_seed (ta_master_seed a) index;
              (sk, pk) = lamport_keygen (ta_lamport a) seed;
              msg = canonical c;
              ots = lamport_sign (ta_lamport a) sk msg
          in map_option (\<lambda>path. Some \<lparr>tok_cap = c, tok_index = index, tok_ots_sig = ots, tok_ots_pub = pk,
                                       tok_auth_path = path\<rparr>)
               (tk_auth_path (ta_leaves a) index))"

definition token_verify :: "hash256 \<Rightarrow> signed_token \<Rightarrow> bool" where
  "token_verify root t =
    (let msg = canonical (tok_cap t)
     in if \<not> lamport_verify (tok_ots_pub t) msg (tok_ots_sig t) then False
        else path_root (hash_of (tok_ots_pub t)) (tok_index t) (tok_auth_path t) = root)"

section \<open>Paths lead to the root\<close>

lemma length_merkle_node [simp]: "length (merkle_node a b) = 32"
  by (simp add: merkle_node_def)

lemma nth_next_level:
  "j < (length level + 1) div 2 \<Longrightarrow> next_level level ! j =
    merkle_node (level ! (2 * j)) (if 2 * j + 1 < length level then level ! (2 * j + 1) else level ! (2 * j))"
proof (induction level arbitrary: j rule: next_level.induct)
  case (3 a b level)
  then show ?case by (cases j) auto
qed auto

lemma path_step:
  assumes "i < length level" and s: "s = (if i XOR 1 < length level then level ! (i XOR 1) else level ! i)"
  shows "(if i AND 1 = 0 then merkle_node (level ! i) s else merkle_node s (level ! i)) = next_level level ! (i div 2)"
proof (cases "even i")
  case True
  then have "i XOR 1 = i + 1" "2 * (i div 2) = i" using xor_one_eq [of i] by simp_all
  then show ?thesis using assms True by (subst nth_next_level) (auto simp: and_one_eq)
next
  case False
  then have "i XOR 1 = i - 1" "2 * (i div 2) = i - 1" "2 * (i div 2) + 1 = i" "0 < i"
    using xor_one_eq [of i] by (auto elim: oddE)
  then show ?thesis using assms False by (subst nth_next_level) (auto simp: and_one_eq odd_iff_mod_2_eq_one)
qed

lemma path_root_auth_path:
  "i < length level \<Longrightarrow> path_root (level ! i) i (auth_path_loop level i) = hd (merkle_loop level)"
proof (induction level i rule: auth_path_loop.induct)
  case (1 level i)
  show ?case
  proof (cases "length level > 1")
    case True
    then have "i div 2 < length (next_level level)" using 1(2) by simp
    then have "path_root (next_level level ! (i div 2)) (i div 2) (auth_path_loop (next_level level) (i div 2)) =
        hd (merkle_loop (next_level level))"
      by (rule 1(1) [OF True refl])
    then show ?thesis
      using True by (subst auth_path_loop.simps, subst merkle_loop.simps)
        (simp only: Let_def path_root.simps path_step [OF 1(2) refl] if_True)
  next
    case False
    then show ?thesis using 1(2)
      by (subst auth_path_loop.simps, subst merkle_loop.simps) (cases level; simp)
  qed
qed

lemma merkle_root_hd: "leaves \<noteq> [] \<Longrightarrow> merkle_root leaves = hd (merkle_loop leaves)"
proof -
  have "level \<noteq> [] \<Longrightarrow> merkle_loop level \<noteq> []" for level
  proof (induction level rule: merkle_loop.induct)
    case (1 level)
    moreover have "next_level level \<noteq> []" using 1(2) by (cases level rule: next_level.cases) auto
    ultimately show ?case by (subst merkle_loop.simps) auto
  qed
  then show "leaves \<noteq> [] \<Longrightarrow> ?thesis" by (simp add: merkle_root_def split: list.split)
qed

section \<open>Signing\<close>

lemma signer_new_simps [simp]:
  "sg_lamport (signer_new m h) = bft_lamport" "sg_master (signer_new m h) = m"
  "sg_next_slot (signer_new m h) = 0" "length (sg_leaves (signer_new m h)) = 2 ^ (h mod 64)"
  by (simp_all add: signer_new_def Let_def)

text \<open>What every signer that was built by \<^verbatim>\<open>new\<close> and used by \<^verbatim>\<open>sign_next\<close> satisfies.\<close>

definition signer_inv :: "signer \<Rightarrow> bool" where
  "signer_inv g \<longleftrightarrow>
    sg_lamport g = bft_lamport \<and> sg_leaves g \<noteq> [] \<and> sg_root g = merkle_root (sg_leaves g) \<and>
    (\<forall>i < length (sg_leaves g).
       sg_leaves g ! i = hash_of (snd (lamport_keygen bft_lamport (ots_seed (sg_master g) i))))"

lemma signer_inv_new [inv_intros]: "signer_inv (signer_new m h)"
  by (simp add: signer_inv_def) (simp add: signer_new_def Let_def case_prod_beta)

lemma sign_next_keeps [inv_intros]: "signer_inv g \<Longrightarrow> signer_inv (snd (sign_next msg g))"
  by (simp add: signer_inv_def sign_next_def Let_def case_prod_beta)

lemma sg_sign_verifies:
  assumes "signer_inv g" and "sg_sign g msg i = Some sig"
  shows "verify_sig (public_key g) msg sig"
proof -
  let ?pk = "snd (lamport_keygen bft_lamport (ots_seed (sg_master g) i))"
  have i: "i < length (sg_leaves g)" and
    sig: "sig = \<lparr>os_index = i, os_sig = lamport_sign bft_lamport (ots_seed (sg_master g) i) msg, os_pub = ?pk,
      os_path = auth_path_loop (sg_leaves g) i\<rparr>"
    using assms by (auto simp: sg_sign_def signer_inv_def auth_path_def case_prod_beta Let_def split: if_splits)
  have "hash_of ?pk = sg_leaves g ! i" using assms(1) i by (simp add: signer_inv_def)
  then have "path_root (hash_of ?pk) i (auth_path_loop (sg_leaves g) i) = public_key g"
    using assms(1) path_root_auth_path [OF i] by (simp add: signer_inv_def public_key_def merkle_root_hd)
  then show ?thesis using sig by (simp add: verify_sig_def lamport_sign_verify)
qed

lemma sign_next_eq:
  "sign_next msg g =
    (if sg_next_slot g < sg_capacity g then (sg_sign g msg (sg_next_slot g), g\<lparr>sg_next_slot := Suc (sg_next_slot g)\<rparr>)
     else (None, g))"
  by (auto simp: sign_next_def sg_sign_def is_exhausted_def can_sign_def sg_capacity_def auth_path_def Let_def case_prod_beta)

section \<open>Accepted keys are under the root\<close>

text \<open>The inputs that the nodes above a level were hashed from, and those of a verifier.\<close>

function tree_inputs :: "hash256 list \<Rightarrow> bytes set" where
  "tree_inputs level =
    (if length level > 1
     then {level ! (2 * j) @ (if 2 * j + 1 < length level then level ! (2 * j + 1) else level ! (2 * j)) | j.
             j < (length level + 1) div 2} \<union> tree_inputs (next_level level)
     else {})"
  by pat_completeness auto
termination
  by (relation "measure length") auto

declare tree_inputs.simps [simp del]

fun path_inputs :: "hash256 \<Rightarrow> nat \<Rightarrow> hash256 list \<Rightarrow> bytes set" where
  "path_inputs acc index [] = {}"
| "path_inputs acc index (s # path) =
    (if index AND 1 = 0 then insert (acc @ s) (path_inputs (merkle_node acc s) (index div 2) path)
     else insert (s @ acc) (path_inputs (merkle_node s acc) (index div 2) path))"

lemma set_next_level: "h \<in> set (next_level level) \<Longrightarrow> length level > 1 \<Longrightarrow>
  \<exists>a \<in> set level. \<exists>b \<in> set level. h = hash_of (a @ b) \<and> a @ b \<in> tree_inputs level"
proof -
  assume "h \<in> set (next_level level)" and len: "length level > 1"
  then obtain j where j: "j < (length level + 1) div 2" "h = next_level level ! j"
    by (auto simp: in_set_conv_nth)
  let ?b = "if 2 * j + 1 < length level then level ! (2 * j + 1) else level ! (2 * j)"
  have "level ! (2 * j) @ ?b \<in> tree_inputs level"
    using j(1) len by (subst tree_inputs.simps) auto
  moreover have "2 * j < length level" using j(1) by simp
  then have "level ! (2 * j) \<in> set level" "?b \<in> set level" by simp_all
  ultimately show ?thesis using j nth_next_level [OF j(1)] unfolding merkle_node_def by blast
qed

lemma tree_inputs_step: "tree_inputs (next_level level) \<subseteq> tree_inputs level" if "length level > 1"
  using that by (subst (2) tree_inputs.simps) auto

lemma tree_inputs_length: "(\<forall>h \<in> set level. length h = 32) \<Longrightarrow> x \<in> tree_inputs level \<Longrightarrow> length x = 64"
proof (induction level rule: tree_inputs.induct)
  case (1 level)
  have len: "length level > 1" using 1(3) by (subst (asm) tree_inputs.simps) (simp split: if_splits)
  have nxt: "\<forall>h \<in> set (next_level level). length h = 32"
    using set_next_level [OF _ len] by fastforce
  have "x \<in> tree_inputs (next_level level) \<or>
      (\<exists>j. j < (length level + 1) div 2 \<and>
         x = level ! (2 * j) @ (if 2 * j + 1 < length level then level ! (2 * j + 1) else level ! (2 * j)))"
    using 1(3) len by (subst (asm) tree_inputs.simps) auto
  then show ?case using 1(1) [OF len nxt] 1(2) by auto
qed

text \<open>The value that the verifier holds after some steps, and the input it was hashed from.\<close>

lemma path_root_snoc:
  assumes "k < length path"
  shows "\<exists>x y. path_root acc index (take (Suc k) path) = hash_of (x @ y) \<and> x @ y \<in> path_inputs acc index path \<and>
    (x = path_root acc index (take k path) \<and> y = path ! k \<or> x = path ! k \<and> y = path_root acc index (take k path))"
  using assms
proof (induction path arbitrary: acc index k)
  case (Cons s path)
  show ?case
  proof (cases k)
    case 0
    then show ?thesis by (cases "index AND 1 = 0") (auto simp: merkle_node_def)
  next
    case (Suc j)
    then have j: "j < length path" using Cons.prems by simp
    show ?thesis
    proof (cases "index AND 1 = 0")
      case True
      then show ?thesis using Cons.IH [OF j, of "merkle_node acc s" "index div 2"] Suc by auto
    next
      case False
      then show ?thesis using Cons.IH [OF j, of "merkle_node s acc" "index div 2"] Suc by auto
    qed
  qed
qed simp

lemma length_path_root: "length acc = 32 \<Longrightarrow> length (path_root acc index path) = 32"
  by (induction path arbitrary: acc index) simp_all

lemma path_meets_level:
  assumes "path_root acc index path = hd (merkle_loop level)" and "level \<noteq> []"
    and "length acc = 32" and "\<forall>h \<in> set level \<union> set path. length h = 32"
    and "inj_on hash_of (tree_inputs level \<union> path_inputs acc index path)"
  shows "acc \<in> hash_of ` tree_inputs level \<or> (\<exists>k \<le> length path. path_root acc index (take k path) \<in> set level)"
  using assms
proof (induction level rule: merkle_loop.induct)
  case (1 level)
  show ?case
  proof (cases "length level > 1")
    case False
    then show ?thesis using 1(2,3)
      by (intro disjI2 exI [of _ "length path"]) (subst (asm) merkle_loop.simps, simp)
  next
    case True
    have root: "path_root acc index path = hd (merkle_loop (next_level level))"
      using 1(2) True by (subst (asm) merkle_loop.simps) simp
    have ne: "next_level level \<noteq> []" using True by (cases level rule: next_level.cases) auto
    have lens: "\<forall>h \<in> set (next_level level) \<union> set path. length h = 32"
      using 1(5) set_next_level [OF _ True] by fastforce
    have inj: "inj_on hash_of (tree_inputs (next_level level) \<union> path_inputs acc index path)"
      using 1(6) tree_inputs_step [OF True] by (elim inj_on_subset) blast
    consider "acc \<in> hash_of ` tree_inputs (next_level level)"
      | k where "k \<le> length path" "path_root acc index (take k path) \<in> set (next_level level)"
      using 1(1) [OF True root ne 1(4) lens inj] by blast
    then show ?thesis
    proof cases
      case 1
      then show ?thesis using tree_inputs_step [OF True] by blast
    next
      case (2 k)
      then obtain a b where ab: "a \<in> set level" "b \<in> set level" "a @ b \<in> tree_inputs level"
          "path_root acc index (take k path) = hash_of (a @ b)"
        using set_next_level [OF _ True] by blast
      show ?thesis
      proof (cases k)
        case 0
        then show ?thesis using ab by auto
      next
        case (Suc j)
        then obtain x y where xy: "path_root acc index (take k path) = hash_of (x @ y)" "x @ y \<in> path_inputs acc index path"
            "x = path_root acc index (take j path) \<and> y = path ! j \<or> x = path ! j \<and> y = path_root acc index (take j path)"
          using path_root_snoc [of j path acc index] 2(1) by auto
        have "x @ y = a @ b" using 1(6) ab xy by (auto dest: inj_onD)
        moreover have "length x = 32" "length a = 32"
          using xy(3) ab(1) 1(4,5) Suc 2(1) by (auto simp: length_path_root)
        ultimately have "path_root acc index (take j path) \<in> set level" using xy(3) ab by auto
        then show ?thesis using Suc 2(1) by (intro disjI2 exI [of _ j]) simp
      qed
    qed
  qed
qed

text \<open>
  A key that the path leads from is one of the keys under the root: an internal node is hashed
  from 64 bytes, a leaf from a public key of 16384.
\<close>

lemma accepted_key_issued:
  assumes "path_root (hash_of pub) index path = merkle_root (map (\<lambda>i. hash_of (pk i)) [0..<n])"
    and "0 < n" and "length pub = 16384" and "\<And>i. i < n \<Longrightarrow> length (pk i) = 16384" and "\<forall>h \<in> set path. length h = 32"
    and "inj_on hash_of (tree_inputs (map (\<lambda>i. hash_of (pk i)) [0..<n]) \<union> path_inputs (hash_of pub) index path
           \<union> insert pub (pk ` {..<n}))"
  shows "\<exists>i < n. pub = pk i"
proof -
  let ?leaves = "map (\<lambda>i. hash_of (pk i)) [0..<n]"
  note inj = inj_onD [OF assms(6)]
  have lens: "\<forall>h \<in> set ?leaves \<union> set path. length h = 32" using assms(5) by auto
  have "inj_on hash_of (tree_inputs ?leaves \<union> path_inputs (hash_of pub) index path)"
    using assms(6) by (rule inj_on_subset) blast
  moreover have "path_root (hash_of pub) index path = hd (merkle_loop ?leaves)" and "?leaves \<noteq> []"
    using assms(1,2) by (simp_all add: merkle_root_hd)
  ultimately have "hash_of pub \<in> hash_of ` tree_inputs ?leaves \<or>
      (\<exists>k \<le> length path. path_root (hash_of pub) index (take k path) \<in> set ?leaves)"
    using path_meets_level [OF _ _ length_hash_of lens] by blast
  then consider x where "x \<in> tree_inputs ?leaves" "hash_of pub = hash_of x"
    | k where "k \<le> length path" "path_root (hash_of pub) index (take k path) \<in> set ?leaves"
    by blast
  then show ?thesis
  proof cases
    case (1 x)
    then have "pub = x" by (intro inj [OF 1(2)]) blast+
    then show ?thesis using tree_inputs_length [of ?leaves x] 1(1) lens assms(3) by simp
  next
    case (2 k)
    then obtain i where i: "i < n" "path_root (hash_of pub) index (take k path) = hash_of (pk i)" by auto
    show ?thesis
    proof (cases k)
      case 0
      then have eq: "hash_of pub = hash_of (pk i)" using i(2) by simp
      have "pub = pk i" using i(1) by (intro inj [OF eq]) blast+
      then show ?thesis using i(1) by blast
    next
      case (Suc j)
      then obtain x y where xy: "hash_of (pk i) = hash_of (x @ y)" "x @ y \<in> path_inputs (hash_of pub) index path"
          "x = path_root (hash_of pub) index (take j path) \<and> y = path ! j \<or>
           x = path ! j \<and> y = path_root (hash_of pub) index (take j path)"
        using path_root_snoc [of j path "hash_of pub" index] 2(1) i(2) by auto
      have "pk i = x @ y" using xy(2) i(1) by (intro inj [OF xy(1)]) blast+
      moreover have "length x = 32" "length y = 32"
        using xy(3) assms(5) Suc 2(1) by (auto simp: length_path_root)
      ultimately show ?thesis using assms(4) [OF i(1)] by simp
    qed
  qed
qed

section \<open>Properties of the validator's signer\<close>

text \<open>A sequence of calls of \<^verbatim>\<open>sign_next\<close>.\<close>

primrec sign_run :: "signer \<Rightarrow> bytes list \<Rightarrow> ots_sig option list" where
  "sign_run g [] = []"
| "sign_run g (m # ms) = (case sign_next m g of (s, g') \<Rightarrow> s # sign_run g' ms)"

lemma sg_sign_Some: "i < sg_capacity g \<Longrightarrow> \<exists>sig. sg_sign g msg i = Some sig \<and> os_index sig = i"
  by (simp add: sg_sign_def sg_capacity_def case_prod_beta Let_def)

lemma sg_sign_slot [simp]: "sg_sign (g\<lparr>sg_next_slot := k\<rparr>) msg i = sg_sign g msg i"
  by (simp add: sg_sign_def auth_path_def)

lemma nth_sign_run:
  "k < length ms \<Longrightarrow> sign_run g ms ! k =
    (if sg_next_slot g + k < sg_capacity g then sg_sign g (ms ! k) (sg_next_slot g + k) else None)"
proof (induction ms arbitrary: g k)
  case (Cons m ms)
  show ?case
  proof (cases k)
    case 0
    then show ?thesis by (simp add: sign_next_eq)
  next
    case (Suc j)
    then show ?thesis using Cons.IH [of j] Cons.prems by (simp add: sign_next_eq sg_capacity_def)
  qed
qed simp

text \<open>
  A signer with \<open>2 ^ (h mod 64)\<close> one-time keys answers the first \<open>2 ^ (h mod 64)\<close> calls of \<^verbatim>\<open>sign_next\<close> with
  signatures that verify under its public key, each with a key of its own, and refuses
  every later call.
\<close>
theorem one_time_keys_used_once:
  assumes "k < length msgs"
  shows "if k < 2 ^ (h mod 64)
    then \<exists>sig. sign_run (signer_new master h) msgs ! k = Some sig \<and> os_index sig = k \<and>
      verify_sig (public_key (signer_new master h)) (msgs ! k) sig
    else sign_run (signer_new master h) msgs ! k = None"
  using assms sg_sign_Some [of k "signer_new master h" "msgs ! k"] sg_sign_verifies [OF signer_inv_new]
  by (auto simp: nth_sign_run sg_capacity_def)

theorem one_time_keys_used_once_witness:
  "(\<exists>sig. sign_run (signer_new [7] 0) [[1], [2]] ! 0 = Some sig \<and> os_index sig = 0 \<and>
      verify_sig (public_key (signer_new [7] 0)) [1] sig) \<and>
   sign_run (signer_new [7] 0) [[1], [2]] ! 1 = None"
  using one_time_keys_used_once [of 0 "[[1], [2]]" 0 "[7]"] one_time_keys_used_once [of 1 "[[1], [2]]" 0 "[7]"] by simp

lemma sg_leaves_new:
  "sg_leaves (signer_new m h) = map (\<lambda>i. hash_of (snd (lamport_keygen bft_lamport (ots_seed m i)))) [0..<2 ^ (h mod 64)]"
  by (simp add: signer_new_def Let_def case_prod_beta)

lemma public_key_new: "public_key (signer_new m h) = merkle_root (sg_leaves (signer_new m h))"
  by (simp add: public_key_def signer_new_def Let_def)

lemma lamport_verify_length: "lamport_verify pk msg sig \<Longrightarrow> length pk = 16384"
  by (simp add: lamport_verify_def split: if_splits)

text \<open>
  C22: A signature that is accepted under a validator's public key was made with one of its
  one-time keys, and if its message has another digest than the message that key has signed, it
  exhibits a preimage of a published hash that signing did not reveal (no collision among the
  inputs of the tree, of the presented path and the keys).
\<close>
theorem validator_signature_unforgeable:
  assumes "verify_sig (public_key (signer_new master h)) msg sig"
    and "\<forall>p \<in> set (os_path sig). length p = 32"
    and "inj_on hash_of (tree_inputs (sg_leaves (signer_new master h))
           \<union> path_inputs (hash_of (os_pub sig)) (os_index sig) (os_path sig)
           \<union> insert (os_pub sig) ((\<lambda>i. snd (lamport_keygen bft_lamport (ots_seed master i))) ` {..<2 ^ (h mod 64)}))"
  shows "\<exists>i < 2 ^ (h mod 64). os_pub sig = snd (lamport_keygen bft_lamport (ots_seed master i)) \<and>
    (\<forall>signed. hash_of msg \<noteq> hash_of signed \<longrightarrow> (\<exists>j < 256. \<exists>b \<in> {0, 1}.
       slice (j * 32) 32 (lamport_sign bft_lamport (ots_seed master i) signed)
         = secret_value bft_lamport (ots_seed master i) j (1 - b) \<and>
       hash_of (slice (j * 32) 32 (os_sig sig)) = hash_of (secret_value bft_lamport (ots_seed master i) j b)))"
proof -
  have v: "lamport_verify (os_pub sig) msg (os_sig sig)"
    and root: "path_root (hash_of (os_pub sig)) (os_index sig) (os_path sig) = merkle_root (sg_leaves (signer_new master h))"
    using assms(1) by (auto simp: verify_sig_def public_key_new split: if_splits)
  have "\<exists>i < 2 ^ (h mod 64). os_pub sig = snd (lamport_keygen bft_lamport (ots_seed master i))"
    by (rule accepted_key_issued [OF root [unfolded sg_leaves_new] _ lamport_verify_length [OF v] _ assms(2)
          assms(3) [unfolded sg_leaves_new]]) simp_all
  then show ?thesis using lamport_forgery v by metis
qed

theorem validator_signature_unforgeable_witness:
  "\<exists>sig. sg_sign (signer_new [7] 0) [1] 0 = Some sig \<and>
    (\<exists>i < 2 ^ 0. os_pub sig = snd (lamport_keygen bft_lamport (ots_seed [7] i)))"
proof -
  obtain sig where sig: "sg_sign (signer_new [7] 0) [1] 0 = Some sig"
    using sg_sign_Some [of 0 "signer_new [7] 0" "[1]"] by (auto simp: sg_capacity_def)
  then have path: "os_path sig = []" and pub: "os_pub sig = snd (lamport_keygen bft_lamport (ots_seed [7] 0))"
    by (auto simp: sg_sign_def auth_path_def auth_path_loop.simps case_prod_beta Let_def)
  have "verify_sig (public_key (signer_new [7] 0)) [1] sig"
    by (rule sg_sign_verifies [OF signer_inv_new sig])
  from validator_signature_unforgeable [OF this] sig show ?thesis
    using path pub by (auto simp: tree_inputs.simps)
qed

section \<open>Properties of the token authority\<close>

lemma even_pow2: "length level = 2 ^ h \<Longrightarrow> length level > 1 \<Longrightarrow>
  even (length level) \<and> length (next_level level) = 2 ^ (h - 1)"
  by (cases h) simp_all

lemma tk_merkle_root_pow: "length level = 2 ^ h \<Longrightarrow> tk_merkle_root level = Some (merkle_root level)"
proof (induction level arbitrary: h rule: merkle_loop.induct)
  case (1 level)
  show ?case
  proof (cases "length level > 1")
    case True
    then have "tk_merkle_root (next_level level) = Some (merkle_root (next_level level))"
      using 1(1) [OF True] even_pow2 [OF 1(2) True] by blast
    then show ?thesis using True even_pow2 [OF 1(2) True]
      by (subst tk_merkle_root.simps) (simp add: tk_next_level_eq merkle_root_def merkle_loop.simps [of level])
  next
    case False
    then obtain x where "level = [x]" using 1(2) by (cases level) auto
    then show ?thesis by (simp add: tk_merkle_root.simps merkle_root_def merkle_loop.simps)
  qed
qed

lemma tk_auth_path_pow:
  "length level = 2 ^ h \<Longrightarrow> i < 2 ^ h \<Longrightarrow> tk_auth_path level i = Some (auth_path_loop level i)"
proof (induction level i arbitrary: h rule: auth_path_loop.induct)
  case (1 level i)
  show ?case
  proof (cases "length level > 1")
    case True
    note pow = even_pow2 [OF 1(2) True]
    have "even i \<Longrightarrow> i + 1 \<noteq> length level" using pow by (metis even_plus_one_iff)
    then have "i XOR 1 < length level"
      using 1(2,3) xor_one_eq [of i] by (cases "even i") simp_all
    moreover have "tk_auth_path (next_level level) (i div 2) = Some (auth_path_loop (next_level level) (i div 2))"
      using 1(1) [OF True refl, of "h - 1"] pow 1(2,3) True by (cases h) auto
    ultimately show ?thesis using True pow
      by (subst tk_auth_path.simps, subst auth_path_loop.simps) (simp only: tk_next_level_eq Let_def if_True option.case option.map)
  next
    case False
    then show ?thesis by (subst tk_auth_path.simps, subst auth_path_loop.simps) simp
  qed
qed

definition token_leaves :: "bytes \<Rightarrow> nat \<Rightarrow> hash256 list" where
  "token_leaves m h = map (\<lambda>i. hash_of (snd (lamport_keygen token_lamport (tk_ots_seed m i)))) [0..<2 ^ (h mod 64)]"

lemma ta_new_eq:
  "ta_new m h = Some \<lparr>ta_lamport = token_lamport, ta_master_seed = m, ta_leaves = token_leaves m h,
    ta_root = merkle_root (token_leaves m h)\<rparr>"
proof -
  have "length (token_leaves m h) = 2 ^ (h mod 64)" by (simp add: token_leaves_def)
  then show ?thesis
    by (simp add: ta_new_def tk_merkle_root_pow token_leaves_def Let_def case_prod_beta)
qed

text \<open>
  A token authority with \<open>2 ^ (h mod 64)\<close> keys is built without a panic, signs any capability with any
  of its keys into a token that verifies under its public key, and refuses an index past its
  capacity.
\<close>
theorem token_sign_verify:
  "\<exists>a. ta_new master h = Some a \<and>
    (if i < 2 ^ (h mod 64)
     then \<exists>t. ta_sign a c i = Some (Some t) \<and> tok_cap t = c \<and> tok_index t = i \<and> token_verify (ta_root a) t
     else ta_sign a c i = Some None)"
proof (cases "i < 2 ^ (h mod 64)")
  case True
  let ?L = "token_leaves master h" and ?pk = "snd (lamport_keygen token_lamport (tk_ots_seed master i))"
  have len: "length ?L = 2 ^ (h mod 64)" by (simp add: token_leaves_def)
  then have i: "i < length ?L" using True by simp
  then have "hash_of ?pk = ?L ! i" by (simp add: token_leaves_def)
  moreover have "merkle_root ?L = hd (merkle_loop ?L)" using i by (intro merkle_root_hd) auto
  ultimately have "path_root (hash_of ?pk) i (auth_path_loop ?L i) = merkle_root ?L"
    using path_root_auth_path [OF i] by simp
  then show ?thesis
    using True len tk_auth_path_pow [OF len True]
    by (auto simp: ta_new_eq ta_sign_def token_verify_def case_prod_beta Let_def lamport_sign_verify)
next
  case False
  then show ?thesis by (simp add: ta_new_eq ta_sign_def token_leaves_def)
qed

lemma canonical_inject:
  "length (cap_provenance c) = 32 \<Longrightarrow> length (cap_provenance c') = 32 \<Longrightarrow> canonical c = canonical c' \<longleftrightarrow> c = c'"
  for c c' :: capability
  by (cases c; cases c') (auto simp: canonical_def)

text \<open>
  A token that is accepted under an authority's public key was made with one of its keys, and
  if it carries another capability than the one that key has signed, it exhibits a preimage of a
  published hash that signing did not reveal (no collision among the inputs of the tree, of the
  presented path, the keys and the two encoded capabilities).
\<close>
theorem token_unforgeable:
  assumes "ta_new master h = Some a" and "token_verify (ta_root a) t"
    and "\<forall>p \<in> set (tok_auth_path t). length p = 32"
    and "length (cap_provenance (tok_cap t)) = 32" and "length (cap_provenance granted) = 32" and "tok_cap t \<noteq> granted"
    and "inj_on hash_of (tree_inputs (ta_leaves a)
           \<union> path_inputs (hash_of (tok_ots_pub t)) (tok_index t) (tok_auth_path t)
           \<union> insert (tok_ots_pub t) ((\<lambda>i. snd (lamport_keygen token_lamport (tk_ots_seed master i))) ` {..<2 ^ (h mod 64)}))"
    and "inj_on hash_of {canonical (tok_cap t), canonical granted}"
  shows "\<exists>i < 2 ^ (h mod 64). tok_ots_pub t = snd (lamport_keygen token_lamport (tk_ots_seed master i)) \<and>
    (\<exists>j < 256. \<exists>b \<in> {0, 1}.
       slice (j * 32) 32 (lamport_sign token_lamport (tk_ots_seed master i) (canonical granted))
         = secret_value token_lamport (tk_ots_seed master i) j (1 - b) \<and>
       hash_of (slice (j * 32) 32 (tok_ots_sig t)) = hash_of (secret_value token_lamport (tk_ots_seed master i) j b))"
proof -
  have a: "ta_leaves a = token_leaves master h" "ta_root a = merkle_root (token_leaves master h)"
    using assms(1) by (auto simp: ta_new_eq)
  have v: "lamport_verify (tok_ots_pub t) (canonical (tok_cap t)) (tok_ots_sig t)"
    and root: "path_root (hash_of (tok_ots_pub t)) (tok_index t) (tok_auth_path t) = merkle_root (token_leaves master h)"
    using assms(2) a by (auto simp: token_verify_def Let_def split: if_splits)
  have inj: "inj_on hash_of (tree_inputs (token_leaves master h)
           \<union> path_inputs (hash_of (tok_ots_pub t)) (tok_index t) (tok_auth_path t)
           \<union> insert (tok_ots_pub t) ((\<lambda>i. snd (lamport_keygen token_lamport (tk_ots_seed master i))) ` {..<2 ^ (h mod 64)}))"
    using assms(7) unfolding a .
  have "\<exists>i < 2 ^ (h mod 64). tok_ots_pub t = snd (lamport_keygen token_lamport (tk_ots_seed master i))"
    by (rule accepted_key_issued [OF root [unfolded token_leaves_def] _ lamport_verify_length [OF v] _ assms(3)
          inj [unfolded token_leaves_def]]) simp_all
  moreover have "hash_of (canonical (tok_cap t)) \<noteq> hash_of (canonical granted)"
    using inj_on_pairD [OF assms(8)] canonical_inject [OF assms(4,5)] assms(6) by blast
  ultimately show ?thesis using lamport_forgery v by metis
qed

end
