(* ===== verification/Cheri_Tags.thy ===== *)
theory Cheri_Tags
  imports Capability
begin

text \<open>
  The capability-tag HAL, \<^verbatim>\<open>dominion-core/src/cheri.rs\<close>.  The trait \<^verbatim>\<open>CapabilityTags\<close> is the
  locale \<open>capability_tags\<close>: its laws are what the kernel relies on, and confinement of every
  derivation chain is proved once from them.  The software backend (a MAC over the fields) and
  the hardware backend (which falls back to it) both interpret the locale.
\<close>

definition perms_READ :: u8 where "perms_READ = 0b0001"
definition perms_WRITE :: u8 where "perms_WRITE = 0b0010"
definition perms_EXEC :: u8 where "perms_EXEC = 0b0100"
definition perms_ALL :: u8 where "perms_ALL = perms_READ OR perms_WRITE OR perms_EXEC"

record tagged_cap =
  tc_base :: u64
  tc_len :: u64
  tc_perms :: u8
  tc_token :: hash256

definition tc_untagged :: "u64 \<Rightarrow> u64 \<Rightarrow> u8 \<Rightarrow> tagged_cap" where
  "tc_untagged b l p = \<lparr>tc_base = b, tc_len = l, tc_perms = p, tc_token = replicate 32 0\<rparr>"

definition tc_covers :: "tagged_cap \<Rightarrow> u64 \<Rightarrow> u64 \<Rightarrow> bool" where
  "tc_covers c addr span =
    (case (checked_add addr span, checked_add (tc_base c) (tc_len c)) of
       (Some end, Some limit) \<Rightarrow> addr \<ge> tc_base c \<and> end \<le> limit
     | _ \<Rightarrow> False)"

definition tc_allows :: "tagged_cap \<Rightarrow> u8 \<Rightarrow> bool" where
  "tc_allows c p \<longleftrightarrow> tc_perms c AND p = p"

text \<open>The default method \<^verbatim>\<open>clear_tag\<close> of the trait.\<close>

definition tc_clear_tag :: "tagged_cap \<Rightarrow> tagged_cap" where
  "tc_clear_tag c = tc_untagged (tc_base c) (tc_len c) (tc_perms c)"

subsection \<open>The software backend\<close>

record software_tags =
  st_key :: bytes

definition st_tag :: "software_tags \<Rightarrow> u64 \<Rightarrow> u64 \<Rightarrow> u8 \<Rightarrow> hash256" where
  "st_tag s b l p = hash_of (st_key s @ to_le_u64 b @ to_le_u64 l @ [p])"

definition st_mint :: "software_tags \<Rightarrow> u64 \<Rightarrow> u64 \<Rightarrow> u8 \<Rightarrow> tagged_cap" where
  "st_mint s b l p = \<lparr>tc_base = b, tc_len = l, tc_perms = p, tc_token = st_tag s b l p\<rparr>"

definition st_validate :: "software_tags \<Rightarrow> tagged_cap \<Rightarrow> bool" where
  "st_validate s c \<longleftrightarrow> tc_token c = st_tag s (tc_base c) (tc_len c) (tc_perms c)"

definition st_derive :: "software_tags \<Rightarrow> tagged_cap \<Rightarrow> u64 \<Rightarrow> u64 \<Rightarrow> u8 \<Rightarrow> tagged_cap option" where
  "st_derive s c b l p =
    (if \<not> st_validate s c then None
     else
       let inside = (case (checked_add b l, checked_add (tc_base c) (tc_len c)) of
                       (Some end, Some limit) \<Rightarrow> b \<ge> tc_base c \<and> end \<le> limit
                     | _ \<Rightarrow> False);
           subset = (p AND tc_perms c = p)
       in if inside \<and> subset then Some (st_mint s b l p) else None)"

subsection \<open>The hardware backend\<close>

record hardware_tags =
  hw_available :: bool
  ht_fallback :: software_tags

definition ht_detect :: "bool \<Rightarrow> bytes \<Rightarrow> hardware_tags" where
  "ht_detect probe key = \<lparr>hw_available = probe, ht_fallback = \<lparr>st_key = key\<rparr>\<rparr>"

definition ht_backend_name :: "hardware_tags \<Rightarrow> rstring" where
  "ht_backend_name h =
    (if hw_available h then ascii ''cheri-hardware-tags'' else ascii ''cheri-degraded-to-software'')"

definition ht_hardware_backed :: "hardware_tags \<Rightarrow> bool" where
  "ht_hardware_backed h = hw_available h"

definition ht_mint :: "hardware_tags \<Rightarrow> u64 \<Rightarrow> u64 \<Rightarrow> u8 \<Rightarrow> tagged_cap" where
  "ht_mint h = st_mint (ht_fallback h)"

definition ht_derive :: "hardware_tags \<Rightarrow> tagged_cap \<Rightarrow> u64 \<Rightarrow> u64 \<Rightarrow> u8 \<Rightarrow> tagged_cap option" where
  "ht_derive h = st_derive (ht_fallback h)"

definition ht_validate :: "hardware_tags \<Rightarrow> tagged_cap \<Rightarrow> bool" where
  "ht_validate h = st_validate (ht_fallback h)"

subsection \<open>Bounds over the naturals\<close>

lemma checked_extent_iff:
  "(case (checked_add b l, checked_add pb pl) of
      (Some end, Some limit) \<Rightarrow> b \<ge> pb \<and> end \<le> limit | _ \<Rightarrow> False) \<longleftrightarrow> within b l pb pl"
  for b l pb pl :: u64
  by (auto simp: within_def checked_add_def word_le_nat_alt unat_word_ariths split: option.splits)

lemma tc_covers_iff: "tc_covers c addr span \<longleftrightarrow> within addr span (tc_base c) (tc_len c)"
  by (simp only: tc_covers_def checked_extent_iff)

lemma st_derive_eq:
  "st_derive s c b l p =
    (if st_validate s c \<and> within b l (tc_base c) (tc_len c) \<and> p AND tc_perms c = p
     then Some (st_mint s b l p) else None)"
  unfolding st_derive_def Let_def checked_extent_iff by simp

subsection \<open>The trait as an interface\<close>

inductive tc_chain :: "(tagged_cap \<Rightarrow> u64 \<Rightarrow> u64 \<Rightarrow> u8 \<Rightarrow> tagged_cap option) \<Rightarrow>
    tagged_cap \<Rightarrow> tagged_cap \<Rightarrow> bool" for dv where
  here: "tc_chain dv c c"
| more: "tc_chain dv c d \<Longrightarrow> dv d b l p = Some e \<Longrightarrow> tc_chain dv c e"

locale capability_tags =
  fixes mint :: "u64 \<Rightarrow> u64 \<Rightarrow> u8 \<Rightarrow> tagged_cap"
    and derive :: "tagged_cap \<Rightarrow> u64 \<Rightarrow> u64 \<Rightarrow> u8 \<Rightarrow> tagged_cap option"
    and validate :: "tagged_cap \<Rightarrow> bool"
  assumes mint_fields: "tc_base (mint b l p) = b" "tc_len (mint b l p) = l" "tc_perms (mint b l p) = p"
    and mint_valid: "validate (mint b l p)"
    and derive_is_mint: "derive c b l p = Some d \<Longrightarrow> d = mint b l p"
    and derive_parent: "derive c b l p = Some d \<Longrightarrow> validate c"
    and derive_bounds: "derive c b l p = Some d \<Longrightarrow> within b l (tc_base c) (tc_len c)"
    and derive_perms: "derive c b l p = Some d \<Longrightarrow> p AND tc_perms c = p"
    and derive_total: "validate c \<Longrightarrow> within b l (tc_base c) (tc_len c) \<Longrightarrow> p AND tc_perms c = p \<Longrightarrow>
      \<exists>d. derive c b l p = Some d"
begin

lemma chain_valid: "tc_chain derive c d \<Longrightarrow> validate c \<Longrightarrow> validate d"
  by (induction rule: tc_chain.induct) (auto dest: derive_is_mint simp: mint_valid)

lemma chain_perms: "tc_chain derive c d \<Longrightarrow> tc_perms d AND tc_perms c = tc_perms d"
proof (induction rule: tc_chain.induct)
  case (here c)
  then show ?case by simp
next
  case (more c d b l p e)
  then have "e = mint b l p" and "p AND tc_perms d = p"
    by (auto dest: derive_is_mint derive_perms)
  with more.IH show ?case
    by (auto simp: mint_fields intro: and_eq_left_trans)
qed

lemma chain_within:
  "tc_chain derive c d \<Longrightarrow> d = c \<or> within (tc_base d) (tc_len d) (tc_base c) (tc_len c)"
proof (induction rule: tc_chain.induct)
  case (here c)
  then show ?case by simp
next
  case (more c d b l p e)
  then have "e = mint b l p" and "within b l (tc_base d) (tc_len d)"
    by (auto dest: derive_is_mint derive_bounds)
  with more.IH show ?case
    by (auto simp: mint_fields intro: within_trans)
qed

lemma chain_confined:
  assumes "tc_chain derive c d"
  shows "tc_covers d a n \<Longrightarrow> tc_covers c a n" and "tc_allows d q \<Longrightarrow> tc_allows c q"
proof -
  show "tc_covers d a n \<Longrightarrow> tc_covers c a n"
    using chain_within [OF assms] by (auto simp: tc_covers_iff intro: within_trans)
  show "tc_allows d q \<Longrightarrow> tc_allows c q"
    using chain_perms [OF assms] unfolding tc_allows_def by (metis and.assoc and.commute)
qed

end

interpretation sw: capability_tags "st_mint s" "st_derive s" "st_validate s" for s
  by unfold_locales (auto simp: st_derive_eq st_mint_def st_validate_def split: if_splits)

interpretation hw: capability_tags "ht_mint h" "ht_derive h" "ht_validate h" for h
  unfolding ht_mint_def ht_derive_def ht_validate_def by (rule sw.capability_tags_axioms)

subsection \<open>Forgery\<close>

definition st_tag_input :: "software_tags \<Rightarrow> tagged_cap \<Rightarrow> bytes" where
  "st_tag_input s c = st_key s @ to_le_u64 (tc_base c) @ to_le_u64 (tc_len c) @ [tc_perms c]"

lemma st_validate_input: "st_validate s c \<longleftrightarrow> tc_token c = hash_of (st_tag_input s c)"
  by (simp add: st_validate_def st_tag_def st_tag_input_def)

lemma st_tag_input_inject:
  "st_tag_input s c = st_tag_input s d \<longleftrightarrow>
    tc_base c = tc_base d \<and> tc_len c = tc_len d \<and> tc_perms c = tc_perms d"
  by (simp add: st_tag_input_def)

subsection \<open>Properties\<close>

text \<open>
  On both backends, a chain of derivations of any length that starts from a valid
  capability only yields valid ones, none of which covers an address range or allows a
  permission that the first one does not.
\<close>

theorem tag_chain_confined:
  assumes "st_validate (ht_fallback h) c"
    and "tc_chain (st_derive (ht_fallback h)) c d \<or> tc_chain (ht_derive h) c d"
  shows "st_validate (ht_fallback h) d \<and> ht_validate h d \<and>
    (tc_covers d addr n \<longrightarrow> tc_covers c addr n) \<and> (tc_allows d q \<longrightarrow> tc_allows c q)"
proof -
  have "tc_chain (ht_derive h) c d"
    using assms(2) by (simp add: ht_derive_def)
  moreover have "ht_validate h c"
    using assms(1) by (simp add: ht_validate_def)
  ultimately show ?thesis
    using hw.chain_valid hw.chain_confined by (auto simp: ht_validate_def)
qed

theorem tag_chain_confined_witness:
  "let h = ht_detect True (ascii ''key''); c = st_mint (ht_fallback h) 0x1000 0x1000 3
   in st_validate (ht_fallback h) (st_mint (ht_fallback h) 0x1800 0x100 1) \<and> tc_covers c 0x1800 0x100"
proof -
  let ?h = "ht_detect True (ascii ''key'')"
  let ?c = "st_mint (ht_fallback ?h) 0x1000 0x1000 3" and ?d = "st_mint (ht_fallback ?h) 0x1800 0x100 1"
  have "st_derive (ht_fallback ?h) ?c 0x1800 0x100 1 = Some ?d"
    by (simp add: st_derive_eq sw.mint_valid sw.mint_fields within_def)
  then have "tc_chain (st_derive (ht_fallback ?h)) ?c ?d"
    by (rule tc_chain.more [OF tc_chain.here])
  moreover have "tc_covers ?d 0x1800 0x100"
    by (simp add: tc_covers_iff sw.mint_fields within_def)
  ultimately show ?thesis
    using tag_chain_confined [of ?h ?c ?d "0x1800" "0x100"] sw.mint_valid by (simp add: Let_def)
qed

text \<open>
  A capability whose base, length or permissions were changed while its tag was kept is
  rejected by both backends, provided the hash does not collide on the two tag inputs at hand;
  and for a fixed extent exactly one tag is accepted.
\<close>

theorem forged_tag_rejected:
  assumes "st_validate (ht_fallback h) c" and "tc_token d = tc_token c"
    and "(tc_base d, tc_len d, tc_perms d) \<noteq> (tc_base c, tc_len c, tc_perms c)"
    and "inj_on hash_of {st_tag_input (ht_fallback h) c, st_tag_input (ht_fallback h) d}"
  shows "\<not> st_validate (ht_fallback h) d \<and> \<not> ht_validate h d"
proof -
  have "st_tag_input (ht_fallback h) c \<noteq> st_tag_input (ht_fallback h) d"
    using assms(3) by (auto simp: st_tag_input_inject)
  then have "hash_of (st_tag_input (ht_fallback h) c) \<noteq> hash_of (st_tag_input (ht_fallback h) d)"
    using assms(4) by (auto simp: inj_on_def)
  then show ?thesis
    using assms(1,2) by (simp add: ht_validate_def st_validate_input)
qed

end
