(* ===== verification/Ordered_Map.thy ===== *)
theory Ordered_Map
  imports Dominion_Prelude
begin

text \<open>
  \<^verbatim>\<open>alloc::collections::BTreeMap\<close> as the code uses it: a strictly key-sorted association
  list.  Iteration order matters to the encoders, so the entries are kept as the list that
  \<^verbatim>\<open>iter()\<close> yields.  The locale states the map laws and the facts that clients derive
  from them once; the association lists interpret it.
\<close>

type_synonym ('k, 'v) btree = "('k \<times> 'v) list"

definition bt_wf :: "('k::linorder, 'v) btree \<Rightarrow> bool" where
  "bt_wf m \<longleftrightarrow> sorted_wrt (<) (map fst m)"

fun bt_insert :: "'k::linorder \<Rightarrow> 'v \<Rightarrow> ('k, 'v) btree \<Rightarrow> ('k, 'v) btree" where
  "bt_insert k v [] = [(k, v)]"
| "bt_insert k v ((k', v') # m) =
    (if k < k' then (k, v) # (k', v') # m
     else if k = k' then (k, v) # m
     else (k', v') # bt_insert k v m)"

definition bt_get :: "('k, 'v) btree \<Rightarrow> 'k \<Rightarrow> 'v option" where
  "bt_get m k = map_of m k"

definition bt_contains :: "('k, 'v) btree \<Rightarrow> 'k \<Rightarrow> bool" where
  "bt_contains m k \<longleftrightarrow> bt_get m k \<noteq> None"

definition bt_remove :: "'k \<Rightarrow> ('k, 'v) btree \<Rightarrow> ('k, 'v) btree" where
  "bt_remove k m = filter (\<lambda>(k', _). k' \<noteq> k) m"

text \<open>\<^verbatim>\<open>entry(k).or_insert(v)\<close>: an existing entry stays.\<close>

definition bt_or_insert :: "'k::linorder \<Rightarrow> 'v \<Rightarrow> ('k, 'v) btree \<Rightarrow> ('k, 'v) btree" where
  "bt_or_insert k v m = (if bt_contains m k then m else bt_insert k v m)"

lemma bt_wf_Nil [simp, inv_intros]: "bt_wf []"
  by (simp add: bt_wf_def)

lemma bt_wf_Cons: "bt_wf ((k, v) # m) \<longleftrightarrow> bt_wf m \<and> (\<forall>k' \<in> fst ` set m. k < k')"
  by (auto simp: bt_wf_def)

lemma bt_get_Nil [simp]: "bt_get [] k = None"
  by (simp add: bt_get_def)

lemma fst_set_bt_insert: "fst ` set (bt_insert k v m) = insert k (fst ` set m)"
  by (induction k v m rule: bt_insert.induct) (simp_all add: insert_commute)

lemma set_bt_insert_subset: "set (bt_insert k v m) \<subseteq> insert (k, v) (set m)"
  by (induction k v m rule: bt_insert.induct) auto

lemma bt_wf_insert [inv_intros]: "bt_wf m \<Longrightarrow> bt_wf (bt_insert k v m)"
proof (induction m)
  case Nil
  then show ?case by (simp add: bt_wf_def)
next
  case (Cons a m)
  then show ?case
    by (cases a) (auto simp: bt_wf_Cons fst_set_bt_insert intro: less_trans)
qed

lemma bt_get_insert [simp]: "bt_get (bt_insert k v m) = (bt_get m)(k \<mapsto> v)"
  by (induction m) (auto simp: bt_get_def fun_eq_iff)

lemma bt_wf_remove [inv_intros]: "bt_wf m \<Longrightarrow> bt_wf (bt_remove k m)"
  by (induction m) (auto simp: bt_wf_Cons bt_remove_def)

lemma bt_get_remove [simp]: "bt_get (bt_remove k m) = (bt_get m)(k := None)"
  by (induction m) (auto simp: bt_get_def bt_remove_def fun_eq_iff)

lemma bt_wf_or_insert [inv_intros]: "bt_wf m \<Longrightarrow> bt_wf (bt_or_insert k v m)"
  by (simp add: bt_or_insert_def bt_wf_insert)

lemma bt_get_or_insert:
  "bt_get (bt_or_insert k v m) k' = (if k' = k \<and> bt_get m k = None then Some v else bt_get m k')"
  by (auto simp: bt_or_insert_def bt_contains_def)

lemma bt_wf_distinct: "bt_wf m \<Longrightarrow> distinct (map fst m)"
  by (simp add: bt_wf_def strict_sorted_iff)

lemma bt_get_iff_mem: "bt_wf m \<Longrightarrow> bt_get m k = Some v \<longleftrightarrow> (k, v) \<in> set m"
  by (simp add: bt_get_def bt_wf_distinct map_of_eq_Some_iff)

lemma bt_get_SomeD: "bt_get m k = Some v \<Longrightarrow> (k, v) \<in> set m"
  by (simp add: bt_get_def map_of_SomeD)

lemma bt_contains_iff: "bt_contains m k \<longleftrightarrow> k \<in> fst ` set m"
  by (simp add: bt_contains_def bt_get_def map_of_eq_None_iff)

text \<open>A sorted association list is determined by its lookups.\<close>

lemma bt_ext:
  assumes "bt_wf m" and "bt_wf m'" and "bt_get m = bt_get m'"
  shows "m = m'"
proof -
  have keys: "set (map fst m) = set (map fst m')"
    using arg_cong [OF assms(3), of dom] by (simp add: bt_get_def [abs_def] dom_map_of_conv_image_fst)
  have "map fst m = map fst m'"
    using assms(1,2) keys unfolding bt_wf_def
    by (meson sorted_distinct_set_unique strict_sorted_iff)
  moreover have "(k, v) \<in> set m \<longleftrightarrow> (k, v) \<in> set m'" for k v
    using assms by (metis bt_get_iff_mem)
  then have "set m = set m'" by auto
  ultimately show ?thesis
    using bt_wf_distinct [OF assms(1)] by (auto intro: map_inj_on simp: distinct_map)
qed

text \<open>Inserting keys in ascending order appends: re-reading a serialised map rebuilds it.\<close>

lemma bt_insert_append:
  assumes "\<forall>k' \<in> fst ` set m. k' < k"
  shows "bt_insert k v m = m @ [(k, v)]"
  using assms by (induction m) auto

lemma bt_wf_append: "bt_wf (m @ m') \<longleftrightarrow>
    bt_wf m \<and> bt_wf m' \<and> (\<forall>k \<in> fst ` set m. \<forall>k' \<in> fst ` set m'. k < k')"
  by (auto simp: bt_wf_def sorted_wrt_append)

lemma foldl_bt_insert_append:
  assumes "bt_wf (m @ m')"
  shows "foldl (\<lambda>acc (k, v). bt_insert k v acc) m m' = m @ m'"
  using assms
proof (induction m' arbitrary: m)
  case Nil
  then show ?case by simp
next
  case (Cons p m')
  obtain k v where p: "p = (k, v)" by (cases p)
  from Cons.prems have "bt_insert k v m = m @ [(k, v)]"
    by (intro bt_insert_append) (auto simp: p bt_wf_append)
  with Cons.IH [of "m @ [(k, v)]"] Cons.prems p show ?case by simp
qed

subsection \<open>The map interface\<close>

locale ordered_map =
  fixes empty :: "'m"
    and lookup :: "'m \<Rightarrow> 'k::linorder \<Rightarrow> 'v option"
    and update :: "'k \<Rightarrow> 'v \<Rightarrow> 'm \<Rightarrow> 'm"
    and delete :: "'k \<Rightarrow> 'm \<Rightarrow> 'm"
    and inv :: "'m \<Rightarrow> bool"
  assumes lookup_empty: "lookup empty k = None"
    and lookup_update: "inv m \<Longrightarrow> lookup (update k v m) = (lookup m)(k \<mapsto> v)"
    and lookup_delete: "inv m \<Longrightarrow> lookup (delete k m) = (lookup m)(k := None)"
    and inv_empty: "inv empty"
    and inv_update: "inv m \<Longrightarrow> inv (update k v m)"
    and inv_delete: "inv m \<Longrightarrow> inv (delete k m)"
begin

lemma inv_foldl_update: "inv m \<Longrightarrow> inv (foldl (\<lambda>acc (k, v). update k v acc) m kvs)"
  by (induction kvs arbitrary: m) (auto intro: inv_update)

lemma lookup_foldl_update_fresh:
  "inv m \<Longrightarrow> k \<notin> fst ` set kvs \<Longrightarrow>
   lookup (foldl (\<lambda>acc (k, v). update k v acc) m kvs) k = lookup m k"
  by (induction kvs arbitrary: m) (auto simp: lookup_update inv_update)

lemma lookup_foldl_update:
  "inv m \<Longrightarrow> distinct (map fst kvs) \<Longrightarrow> (k, v) \<in> set kvs \<Longrightarrow>
   lookup (foldl (\<lambda>acc (k, v). update k v acc) m kvs) k = Some v"
proof (induction kvs arbitrary: m)
  case Nil
  then show ?case by simp
next
  case (Cons p kvs)
  obtain k' v' where p: "p = (k', v')" by (cases p)
  show ?case
  proof (cases "(k, v) \<in> set kvs")
    case True
    then show ?thesis using Cons by (simp add: p inv_update)
  next
    case False
    then have "k' = k" "v' = v" using Cons.prems p by auto
    then show ?thesis
      using Cons.prems lookup_foldl_update_fresh [of "update k v m" k kvs]
      by (simp add: p inv_update lookup_update)
  qed
qed

lemma update_lookup_same: "inv m \<Longrightarrow> lookup m k = Some v \<Longrightarrow> lookup (update k v m) = lookup m"
  by (simp add: lookup_update fun_upd_idem)

lemma delete_update: "inv m \<Longrightarrow> lookup (delete k (update k v m)) = (lookup m)(k := None)"
  by (simp add: lookup_update lookup_delete inv_update)

end

interpretation btm: ordered_map "[]" bt_get bt_insert bt_remove bt_wf
  by unfold_locales (simp_all add: inv_intros)

end
