(* ===== verification/Content_Store.thy ===== *)
theory Content_Store
  imports Content_Hash Ordered_Map
begin

text \<open>
  The generic content-addressed store, \<^verbatim>\<open>dominion-core/src/content_store.rs\<close>.  The trait
  \<^verbatim>\<open>ContentAddressed\<close> is the parameter \<open>cid\<close>, the content id of a value; the locale
  \<open>content_store\<close> states what the store promises and proves what its clients use.
\<close>

type_synonym 'v content_entries = "(hash256, 'v) btree"

definition cs_new :: "'v content_entries" where
  "cs_new = []"

definition cs_publish :: "('v \<Rightarrow> hash256) \<Rightarrow> 'v \<Rightarrow> 'v content_entries \<Rightarrow> hash256 \<times> 'v content_entries" where
  "cs_publish cid content m = (let i = cid content in (i, bt_or_insert i content m))"

definition cs_fetch :: "'v content_entries \<Rightarrow> hash256 \<Rightarrow> 'v option" where
  "cs_fetch m i = bt_get m i"

definition cs_contains :: "'v content_entries \<Rightarrow> hash256 \<Rightarrow> bool" where
  "cs_contains m i = bt_contains m i"

definition cs_remove :: "hash256 \<Rightarrow> 'v content_entries \<Rightarrow> 'v option \<times> 'v content_entries" where
  "cs_remove i m = (bt_get m i, bt_remove i m)"

definition cs_len :: "'v content_entries \<Rightarrow> nat" where
  "cs_len m = length m"

definition cs_is_empty :: "'v content_entries \<Rightarrow> bool" where
  "cs_is_empty m \<longleftrightarrow> m = []"

definition cs_iter :: "'v content_entries \<Rightarrow> (hash256 \<times> 'v) list" where
  "cs_iter m = m"

text \<open>Self-consistency: entries are filed under their own content id.\<close>

definition cs_inv :: "('v \<Rightarrow> hash256) \<Rightarrow> 'v content_entries \<Rightarrow> bool" where
  "cs_inv cid m \<longleftrightarrow> bt_wf m \<and> (\<forall>(k, v) \<in> set m. k = cid v)"

subsection \<open>The store as an interface\<close>

locale content_store =
  fixes cid :: "'v \<Rightarrow> hash256"
    and publish :: "'v \<Rightarrow> 's \<Rightarrow> hash256 \<times> 's"
    and fetch :: "'s \<Rightarrow> hash256 \<Rightarrow> 'v option"
    and remove :: "hash256 \<Rightarrow> 's \<Rightarrow> 'v option \<times> 's"
    and inv :: "'s \<Rightarrow> bool"
  assumes publish_id: "fst (publish v s) = cid v"
    and fetch_publish: "inv s \<Longrightarrow> fetch (snd (publish v s)) i =
      (if i = cid v \<and> fetch s i = None then Some v else fetch s i)"
    and fetch_keyed: "inv s \<Longrightarrow> fetch s i = Some v \<Longrightarrow> cid v = i"
    and fetch_remove: "inv s \<Longrightarrow> fetch (snd (remove i s)) j = (if j = i then None else fetch s j)"
    and inv_publish: "inv s \<Longrightarrow> inv (snd (publish v s))"
    and inv_remove: "inv s \<Longrightarrow> inv (snd (remove i s))"
begin

lemma published_fetchable:
  assumes "inv s"
  shows "\<exists>w. fetch (snd (publish v s)) (fst (publish v s)) = Some w \<and> cid w = cid v"
  using assms fetch_keyed [of s "cid v"]
  by (cases "fetch s (cid v)") (auto simp: publish_id fetch_publish)

lemma publish_keeps:
  assumes "inv s" and "fetch s i = Some w"
  shows "fetch (snd (publish v s)) i = Some w"
  using assms by (simp add: fetch_publish)

lemma publish_exact:
  assumes "inv s" and "\<And>w. fetch s (cid v) = Some w \<Longrightarrow> w = v"
  shows "fetch (snd (publish v s)) (cid v) = Some v"
  using assms by (cases "fetch s (cid v)") (auto simp: fetch_publish)

lemma publish_twice:
  assumes "inv s"
  shows "fetch (snd (publish v (snd (publish v s)))) = fetch (snd (publish v s))"
  using assms published_fetchable [OF assms, of v]
  by (auto simp: fun_eq_iff fetch_publish inv_publish publish_id split: if_splits)

lemma inv_publish_all: "inv s \<Longrightarrow> inv (foldl (\<lambda>s v. snd (publish v s)) s vs)"
  by (induction vs arbitrary: s) (auto intro: inv_publish)

lemma publish_all_keeps:
  "inv s \<Longrightarrow> fetch s i = Some w \<Longrightarrow> fetch (foldl (\<lambda>s v. snd (publish v s)) s vs) i = Some w"
  by (induction vs arbitrary: s) (auto intro: inv_publish publish_keeps)

end

lemma cs_inv_or_insert:
  "cs_inv cid m \<Longrightarrow> cs_inv cid (bt_or_insert (cid v) v m)"
proof -
  assume inv: "cs_inv cid m"
  have "set (bt_insert (cid v) v m) \<subseteq> insert (cid v, v) (set m)"
    by (rule set_bt_insert_subset)
  with inv show ?thesis
    by (auto simp: cs_inv_def bt_wf_or_insert bt_or_insert_def bt_wf_insert)
qed

interpretation cs: content_store cid "cs_publish cid" cs_fetch cs_remove "cs_inv cid" for cid
proof unfold_locales
  show "cs_inv cid s \<Longrightarrow> cs_inv cid (snd (cs_publish cid v s))" for s v
    by (simp add: cs_publish_def Let_def cs_inv_or_insert)
  show "cs_inv cid s \<Longrightarrow> cs_fetch s i = Some v \<Longrightarrow> cid v = i" for s i v
    by (auto simp: cs_inv_def cs_fetch_def dest: bt_get_SomeD)
  show "cs_inv cid s \<Longrightarrow> cs_inv cid (snd (cs_remove i s))" for s i
    by (auto simp: cs_inv_def cs_remove_def bt_wf_remove) (auto simp: bt_remove_def)
qed (auto simp: cs_publish_def cs_fetch_def cs_remove_def Let_def bt_get_or_insert)

text \<open>Publishing the entries of a store in iteration order rebuilds it.\<close>

lemma publish_sorted_rebuilds:
  assumes "cs_inv cid (m @ m')"
  shows "foldl (\<lambda>s (k, v). snd (cs_publish cid v s)) m m' = m @ m'"
  using assms
proof (induction m' arbitrary: m)
  case Nil
  then show ?case by simp
next
  case (Cons p m')
  obtain k v where p: "p = (k, v)" by (cases p)
  have k: "k = cid v" and fresh: "\<forall>k' \<in> fst ` set m. k' < k"
    using Cons.prems p by (auto simp: cs_inv_def bt_wf_append)
  then have "snd (cs_publish cid v m) = m @ [(k, v)]"
    by (auto simp: cs_publish_def Let_def bt_or_insert_def bt_contains_iff bt_insert_append)
  with Cons.IH [of "m @ [(k, v)]"] Cons.prems p show ?case by simp
qed

subsection \<open>Properties\<close>

text \<open>
  The generic content store behind the object graph: publishing returns the content id,
  the value is then found under it (or one that was published before with the same id), every
  other entry is untouched, publishing again changes nothing that can be fetched, and every
  entry is always stored under its own id.
\<close>

theorem content_store_publish:
  assumes "cs_inv cid s"
  shows "fst (cs_publish cid v s) = cid v \<and> cs_inv cid (snd (cs_publish cid v s)) \<and>
    (\<forall>i. cs_fetch (snd (cs_publish cid v s)) i =
      (if i = cid v \<and> cs_fetch s i = None then Some v else cs_fetch s i)) \<and>
    (\<exists>w. cs_fetch (snd (cs_publish cid v s)) (cid v) = Some w \<and> cid w = cid v) \<and>
    cs_fetch (snd (cs_publish cid v (snd (cs_publish cid v s)))) = cs_fetch (snd (cs_publish cid v s))"
  using cs.publish_id cs.fetch_publish [OF assms] cs.published_fetchable [OF assms]
    cs.publish_twice [OF assms] cs.inv_publish [OF assms] by metis

theorem content_store_publish_witness:
  "\<exists>w. cs_fetch (snd (cs_publish hash_of (ascii ''b'') (snd (cs_publish hash_of (ascii ''a'') cs_new))))
     (hash_of (ascii ''b'')) = Some w \<and> hash_of w = hash_of (ascii ''b'')"
proof -
  have "cs_inv hash_of (cs_new :: bytes content_entries)"
    by (simp add: cs_inv_def cs_new_def)
  then show ?thesis
    using content_store_publish [OF cs.inv_publish, of hash_of cs_new "ascii ''b''" "ascii ''a''"] by blast
qed

end
