(* ===== verification/Object_Graph.thy ===== *)
theory Object_Graph
  imports Byte_Cursor Content_Store
begin

text \<open>
  The semantic object graph, \<^verbatim>\<open>dominion-core/src/object.rs\<close>: typed field values, objects
  with their canonical encoding and content id, the graph (store, live head, commit history)
  with its operations, and both byte formats (the canonical object encoding \<^verbatim>\<open>obj1\<close> and the
  graph image \<^verbatim>\<open>AEGRPH01\<close>) with their parsers.

  A \<^verbatim>\<open>f64\<close> is its bit pattern: the code only tests for NaN and zero and copies the bits.  An
  \<^verbatim>\<open>i64\<close> is the 64-bit word with the same bits.  Error values are the code's message strings.
\<close>

type_synonym object_id = hash256
type_synonym err = string

datatype datum =
    DInt u64
  | DFloat u64
  | DBool bool
  | DText rstring
  | DRef object_id
  | DBytes bytes

record object =
  obj_kind :: rstring
  obj_fields :: "(rstring \<times> datum) list"

record commit =
  com_root :: hash256
  com_parent :: hash256
  com_live :: "object_id list"
  com_message :: rstring

record object_graph =
  og_store :: "object content_entries"
  og_head :: "object_id list"
  og_history :: "commit list"

subsection \<open>Canonical encoding\<close>

definition f64_is_nan :: "u64 \<Rightarrow> bool" where
  "f64_is_nan b \<longleftrightarrow>
    b AND 0x7ff0000000000000 = 0x7ff0000000000000 \<and> b AND 0x000fffffffffffff \<noteq> 0"

definition f64_is_zero :: "u64 \<Rightarrow> bool" where
  "f64_is_zero b \<longleftrightarrow> b AND 0x7fffffffffffffff = 0"

definition f64_canon :: "u64 \<Rightarrow> u64" where
  "f64_canon b = (if f64_is_nan b then 0x7ff8000000000000 else if f64_is_zero b then 0 else b)"

fun datum_encode :: "datum \<Rightarrow> bytes" where
  "datum_encode (DInt v) = [0x69] @ to_le_u64 v"
| "datum_encode (DFloat v) = [0x66] @ to_le_u64 (f64_canon v)"
| "datum_encode (DBool v) = [0x62] @ [if v then 1 else 0]"
| "datum_encode (DText s) = [0x74] @ to_le_u64 (len_u64 s) @ s"
| "datum_encode (DRef i) = [0x72] @ i"
| "datum_encode (DBytes b) = [0x79] @ to_le_u64 (len_u64 b) @ b"

definition object_new :: "rstring \<Rightarrow> object" where
  "object_new kind = \<lparr>obj_kind = kind, obj_fields = []\<rparr>"

fun set_field :: "rstring \<Rightarrow> datum \<Rightarrow> (rstring \<times> datum) list \<Rightarrow> (rstring \<times> datum) list" where
  "set_field name v [] = [(name, v)]"
| "set_field name v ((k, w) # fs) = (if k = name then (k, v) # fs else (k, w) # set_field name v fs)"

definition object_set :: "rstring \<Rightarrow> datum \<Rightarrow> object \<Rightarrow> object" where
  "object_set name v obj = obj\<lparr>obj_fields := set_field name v (obj_fields obj)\<rparr>"

definition object_get :: "object \<Rightarrow> rstring \<Rightarrow> datum option" where
  "object_get obj name = map_option snd (List.find (\<lambda>(k, _). k = name) (obj_fields obj))"

definition field_encode :: "rstring \<times> datum \<Rightarrow> bytes" where
  "field_encode f = to_le_u64 (len_u64 (fst f)) @ fst f @ datum_encode (snd f)"

definition object_encode :: "object \<Rightarrow> bytes" where
  "object_encode obj =
    (let sorted = sort_key fst (obj_fields obj)
     in ascii ''obj1'' @ to_le_u64 (len_u64 (obj_kind obj)) @ obj_kind obj
        @ to_le_u64 (len_u64 sorted) @ concat (map field_encode sorted))"

definition object_id :: "object \<Rightarrow> object_id" where
  "object_id obj = hash_of (object_encode obj)"

subsection \<open>The graph\<close>

definition og_new :: object_graph where
  "og_new = \<lparr>og_store = cs_new, og_head = [], og_history = []\<rparr>"

definition og_put :: "object \<Rightarrow> object_graph \<Rightarrow> object_id \<times> object_graph" where
  "og_put obj g =
    (case cs_publish object_id obj (og_store g) of (i, st) \<Rightarrow>
      (i, g\<lparr>og_store := st, og_head := (if i \<in> set (og_head g) then og_head g else og_head g @ [i])\<rparr>))"

definition og_get :: "object_graph \<Rightarrow> object_id \<Rightarrow> object option" where
  "og_get g i = cs_fetch (og_store g) i"

definition og_contains :: "object_graph \<Rightarrow> object_id \<Rightarrow> bool" where
  "og_contains g i = cs_contains (og_store g) i"

definition og_stored_count :: "object_graph \<Rightarrow> nat" where
  "og_stored_count g = cs_len (og_store g)"

definition og_live_count :: "object_graph \<Rightarrow> nat" where
  "og_live_count g = length (og_head g)"

definition og_root_hash :: "object_graph \<Rightarrow> hash256" where
  "og_root_hash g = foldl combine hash_ZERO (sort (og_head g))"

definition og_commit :: "rstring \<Rightarrow> object_graph \<Rightarrow> hash256 \<times> object_graph" where
  "og_commit message g =
    (let parent = (if og_history g = [] then hash_ZERO else com_root (last (og_history g)));
         root = combine (og_root_hash g) parent
     in (root, g\<lparr>og_history := og_history g @
          [\<lparr>com_root = root, com_parent = parent, com_live = og_head g, com_message = message\<rparr>]\<rparr>))"

definition og_rollback :: "hash256 \<Rightarrow> object_graph \<Rightarrow> err + object_graph" where
  "og_rollback root g =
    (case List.find (\<lambda>c. com_root c = root) (og_history g) of
       None \<Rightarrow> Err ''no such commit root''
     | Some c \<Rightarrow> Ok (g\<lparr>og_head := com_live c\<rparr>))"

definition og_query_kind :: "object_graph \<Rightarrow> rstring \<Rightarrow> (object_id \<times> object) list" where
  "og_query_kind g kind =
    filter (\<lambda>(_, obj). obj_kind obj = kind)
      (List.map_filter (\<lambda>i. map_option (\<lambda>obj. (i, obj)) (cs_fetch (og_store g) i)) (og_head g))"

definition og_stored_objects :: "object_graph \<Rightarrow> (object_id \<times> object) list" where
  "og_stored_objects g = cs_iter (og_store g)"

definition og_restore :: "object list \<Rightarrow> object_id list \<Rightarrow> commit list \<Rightarrow> object_graph" where
  "og_restore objects head history =
    \<lparr>og_store = foldl (\<lambda>st obj. snd (cs_publish object_id obj st)) cs_new objects,
     og_head = head, og_history = history\<rparr>"

subsection \<open>Graph image: writer\<close>

definition GRAPH_MAGIC :: bytes where
  "GRAPH_MAGIC = ascii ''AEGRPH01''"

definition field_encode_full :: "rstring \<times> datum \<Rightarrow> bytes" where
  "field_encode_full f = to_le_u32 (len_u32 (fst f)) @ fst f @ datum_encode (snd f)"

definition encode_object_full :: "object \<Rightarrow> bytes" where
  "encode_object_full obj =
    to_le_u32 (len_u32 (obj_kind obj)) @ obj_kind obj
    @ to_le_u32 (len_u32 (obj_fields obj)) @ concat (map field_encode_full (obj_fields obj))"

definition encode_commit :: "commit \<Rightarrow> bytes" where
  "encode_commit c =
    com_root c @ com_parent c @ to_le_u32 (len_u32 (com_live c)) @ concat (com_live c)
    @ to_le_u32 (len_u32 (com_message c)) @ com_message c"

definition og_serialize :: "object_graph \<Rightarrow> bytes" where
  "og_serialize g =
    GRAPH_MAGIC
    @ to_le_u32 (len_u32 (og_store g)) @ concat (map (\<lambda>(_, obj). encode_object_full obj) (cs_iter (og_store g)))
    @ to_le_u32 (len_u32 (og_head g)) @ concat (og_head g)
    @ to_le_u32 (len_u32 (og_history g)) @ concat (map encode_commit (og_history g))"

subsection \<open>Parsers\<close>

definition EOG :: err where "EOG = ''unexpected end of graph data''"

definition cur_string :: "(err, rstring) rparser" where
  "cur_string =
    rp_bind (read_u32_le_or EOG) (\<lambda>len.
    rp_bind (take_or (unat len) EOG) (\<lambda>b.
    rp_option (from_utf8 b) ''invalid utf-8 in graph data''))"

definition cur_datum :: "(err, datum) rparser" where
  "cur_datum =
    rp_bind (read_u8_or EOG) (\<lambda>tag.
      if tag = 0x69 then rp_bind (take_or 8 EOG) (\<lambda>b. rp_return (DInt (of_le_bytes b)))
      else if tag = 0x66 then rp_bind (take_or 8 EOG) (\<lambda>b. rp_return (DFloat (of_le_bytes b)))
      else if tag = 0x62 then rp_bind (read_u8_or EOG) (\<lambda>b. rp_return (DBool (b \<noteq> 0)))
      else if tag = 0x74 then
        rp_bind (read_u64_le_or EOG) (\<lambda>len.
        rp_bind (take_or (unat len) EOG) (\<lambda>b.
        rp_bind (rp_option (from_utf8 b) ''invalid utf-8 in text datum'') (\<lambda>s. rp_return (DText s))))
      else if tag = 0x72 then rp_bind (read_hash_or EOG) (\<lambda>h. rp_return (DRef h))
      else if tag = 0x79 then
        rp_bind (read_u64_le_or EOG) (\<lambda>len.
        rp_bind (take_or (unat len) EOG) (\<lambda>b. rp_return (DBytes b)))
      else rp_fail ''unknown datum tag'')"

text \<open>One \<^verbatim>\<open>(key, value)\<close> pair, as the two field loops read it.\<close>

definition cur_field32 :: "(err, rstring \<times> datum) rparser" where
  "cur_field32 =
    rp_bind (read_u32_le_or EOG) (\<lambda>key_len.
    rp_bind (take_or (unat key_len) EOG) (\<lambda>kb.
    rp_bind (rp_option (from_utf8 kb) ''invalid utf-8 in field key'') (\<lambda>key.
    rp_bind cur_datum (\<lambda>value. rp_return (key, value)))))"

definition cur_field64 :: "(err, rstring \<times> datum) rparser" where
  "cur_field64 =
    rp_bind (read_u64_le_or EOG) (\<lambda>key_len.
    rp_bind (take_or (unat key_len) EOG) (\<lambda>kb.
    rp_bind (rp_option (from_utf8 kb) ''invalid utf-8 in field key'') (\<lambda>key.
    rp_bind cur_datum (\<lambda>value. rp_return (key, value)))))"

definition cur_object_record :: "(err, object) rparser" where
  "cur_object_record =
    rp_bind cur_string (\<lambda>kind.
    rp_bind (read_u32_le_or EOG) (\<lambda>field_count.
    rp_bind (rp_repeat (unat field_count) cur_field32) (\<lambda>fields.
    rp_return ((object_new kind)\<lparr>obj_fields := fields\<rparr>))))"

definition cur_object :: "(err, object) rparser" where
  "cur_object =
    rp_bind (take_or 4 EOG) (\<lambda>m.
     if m \<noteq> ascii ''obj1'' then rp_fail ''bad object magic''
     else
       rp_bind (read_u64_le_or EOG) (\<lambda>kind_len.
       rp_bind (take_or (unat kind_len) EOG) (\<lambda>kb.
       rp_bind (rp_option (from_utf8 kb) ''invalid utf-8 in object kind'') (\<lambda>kind.
       rp_bind (read_u64_le_or EOG) (\<lambda>field_count.
       rp_bind (rp_repeat (unat field_count) cur_field64) (\<lambda>fields.
       rp_return ((object_new kind)\<lparr>obj_fields := fields\<rparr>)))))))"

definition object_decode :: "bytes \<Rightarrow> err + object" where
  "object_decode bs = map_sum id fst (cur_object (cursor_new bs))"

definition cur_commit :: "(err, commit) rparser" where
  "cur_commit =
    rp_bind (read_hash_or EOG) (\<lambda>root.
    rp_bind (read_hash_or EOG) (\<lambda>parent.
    rp_bind (read_u32_le_or EOG) (\<lambda>live_len.
    rp_bind (rp_repeat (unat live_len) (read_hash_or EOG)) (\<lambda>live.
    rp_bind cur_string (\<lambda>message.
    rp_return \<lparr>com_root = root, com_parent = parent, com_live = live, com_message = message\<rparr>)))))"

definition cur_graph :: "(err, object_graph) rparser" where
  "cur_graph =
    rp_bind (take_or 8 EOG) (\<lambda>m.
     if m \<noteq> GRAPH_MAGIC then rp_fail ''bad graph magic''
     else
       rp_bind (read_u32_le_or EOG) (\<lambda>obj_count.
       rp_bind (rp_repeat (unat obj_count) cur_object_record) (\<lambda>objs.
       rp_bind (read_u32_le_or EOG) (\<lambda>head_len.
       rp_bind (rp_repeat (unat head_len) (read_hash_or EOG)) (\<lambda>head.
       rp_bind (read_u32_le_or EOG) (\<lambda>hist_len.
       rp_bind (rp_repeat (unat hist_len) cur_commit) (\<lambda>history.
       rp_return
         \<lparr>og_store = foldl (\<lambda>st obj. snd (cs_publish object_id obj st)) cs_new objs,
          og_head = head, og_history = history\<rparr>)))))))"

definition og_deserialize :: "bytes \<Rightarrow> err + object_graph" where
  "og_deserialize bs = map_sum id fst (cur_graph (cursor_new bs))"

end
