(* ===== verification/Object_Codec.thy ===== *)
theory Object_Codec
  imports Object_Graph "HOL-Library.Multiset"
begin

text \<open>
  Round trips of the two object formats of \<^verbatim>\<open>object.rs\<close>.  The well-formedness predicates
  spell out what the Rust types guarantee of a value in memory (UTF-8 strings, 32-byte hashes,
  lengths within the width the format stores); under them, parsing what was written returns
  the written value with floats and field order made canonical.
\<close>

subsection \<open>Well-formed values and canonical forms\<close>

fun datum_wf :: "datum \<Rightarrow> bool" where
  "datum_wf (DText s) \<longleftrightarrow> valid_utf8 s \<and> length s < 2 ^ 64"
| "datum_wf (DRef i) \<longleftrightarrow> length i = 32"
| "datum_wf (DBytes b) \<longleftrightarrow> length b < 2 ^ 64"
| "datum_wf _ \<longleftrightarrow> True"

text \<open>\<open>n\<close> bounds the lengths: \<open>2 ^ 64\<close> in memory, \<open>2 ^ 32\<close> for the graph image.\<close>

definition object_wf :: "nat \<Rightarrow> object \<Rightarrow> bool" where
  "object_wf n obj \<longleftrightarrow>
    valid_utf8 (obj_kind obj) \<and> length (obj_kind obj) < n \<and> length (obj_fields obj) < n \<and>
    (\<forall>(k, d) \<in> set (obj_fields obj). valid_utf8 k \<and> length k < n \<and> datum_wf d)"

lemma object_wf_mono: "object_wf n obj \<Longrightarrow> n \<le> m \<Longrightarrow> object_wf m obj"
  by (fastforce simp: object_wf_def)

definition commit_wf :: "commit \<Rightarrow> bool" where
  "commit_wf c \<longleftrightarrow>
    length (com_root c) = 32 \<and> length (com_parent c) = 32 \<and> (\<forall>i \<in> set (com_live c). length i = 32) \<and>
    length (com_live c) < 2 ^ 32 \<and> valid_utf8 (com_message c) \<and> length (com_message c) < 2 ^ 32"

definition graph_wf :: "object_graph \<Rightarrow> bool" where
  "graph_wf g \<longleftrightarrow>
    cs_inv object_id (og_store g) \<and> length (og_store g) < 2 ^ 32 \<and>
    (\<forall>(_, obj) \<in> set (og_store g). object_wf (2 ^ 32) obj) \<and>
    length (og_head g) < 2 ^ 32 \<and> (\<forall>i \<in> set (og_head g). length i = 32) \<and>
    length (og_history g) < 2 ^ 32 \<and> (\<forall>c \<in> set (og_history g). commit_wf c)"

fun datum_canon :: "datum \<Rightarrow> datum" where
  "datum_canon (DFloat b) = DFloat (f64_canon b)"
| "datum_canon d = d"

definition object_fcanon :: "object \<Rightarrow> object" where
  "object_fcanon obj = obj\<lparr>obj_fields := map (\<lambda>(k, d). (k, datum_canon d)) (obj_fields obj)\<rparr>"

definition object_canon :: "object \<Rightarrow> object" where
  "object_canon obj =
    obj\<lparr>obj_fields := map (\<lambda>(k, d). (k, datum_canon d)) (sort_key fst (obj_fields obj))\<rparr>"

lemma f64_canon_idem [simp]: "f64_canon (f64_canon b) = f64_canon b"
  by (simp add: f64_canon_def f64_is_nan_def f64_is_zero_def)

lemma datum_encode_canon [simp]: "datum_encode (datum_canon d) = datum_encode d"
  by (cases d) auto

subsection \<open>Reading back a datum\<close>

lemma decodes_datum:
  assumes "datum_wf d"
  shows "decodes cur_datum (datum_encode d) (datum_canon d)"
proof (cases d)
  case (DInt v)
  show ?thesis
    unfolding DInt datum_encode.simps cur_datum_def
    by (rule decodes_bind [OF decodes_u8]) (auto intro: decodes_map [OF decodes_take])
next
  case (DFloat v)
  show ?thesis
    unfolding DFloat datum_encode.simps cur_datum_def
    by (rule decodes_bind [OF decodes_u8]) (auto intro: decodes_map [OF decodes_take])
next
  case (DBool v)
  show ?thesis
    unfolding DBool datum_encode.simps cur_datum_def
    by (rule decodes_bind [OF decodes_u8]) (auto intro: decodes_map [OF decodes_u8])
next
  case (DText s)
  have s: "valid_utf8 s" "unat (len_u64 s) = length s"
    using assms DText by (simp_all add: unat_len_u64)
  have "decodes (rp_bind (rp_option (from_utf8 s) ''invalid utf-8 in text datum'') (\<lambda>s. rp_return (DText s)))
      [] (DText s)"
    using s by (intro decodes_map [OF decodes_option]) simp_all
  then have "decodes (rp_bind (take_or (unat (len_u64 s)) EOG) (\<lambda>b.
      rp_bind (rp_option (from_utf8 b) ''invalid utf-8 in text datum'') (\<lambda>s. rp_return (DText s))))
      (s @ []) (DText s)"
    using s by (intro decodes_bind [OF decodes_take]) simp_all
  then show ?thesis
    unfolding DText datum_encode.simps cur_datum_def datum_canon.simps
    by (intro decodes_bind [OF decodes_u8]) (simp, intro decodes_bind [OF decodes_u64], simp)
next
  case (DRef i)
  then show ?thesis
    using assms unfolding DRef datum_encode.simps cur_datum_def
    by (intro decodes_bind [OF decodes_u8]) (auto intro: decodes_map [OF decodes_hash])
next
  case (DBytes b)
  have len: "unat (len_u64 b) = length b"
    using assms DBytes by (simp add: unat_len_u64)
  have "decodes (rp_bind (take_or (unat (len_u64 b)) EOG) (\<lambda>b. rp_return (DBytes b))) b (DBytes b)"
    using len by (intro decodes_map [OF decodes_take]) simp_all
  then show ?thesis
    unfolding DBytes datum_encode.simps cur_datum_def datum_canon.simps
    by (intro decodes_bind [OF decodes_u8]) (simp, intro decodes_bind [OF decodes_u64], simp)
qed

text \<open>A length-prefixed UTF-8 string followed by what \<open>f\<close> reads.\<close>

lemma decodes_str_u64:
  assumes "valid_utf8 s" "length s < 2 ^ 64" "decodes (f s) bs v"
  shows "decodes (rp_bind (read_u64_le_or E) (\<lambda>len. rp_bind (take_or (unat len) E) (\<lambda>b.
      rp_bind (rp_option (from_utf8 b) E') f))) (to_le_u64 (len_u64 s) @ s @ bs) v"
proof (rule decodes_bind [OF decodes_u64], rule decodes_bind [OF decodes_take])
  show "length s = unat (len_u64 s)" using assms(2) by (simp add: unat_len_u64)
  show "decodes (rp_bind (rp_option (from_utf8 s) E') f) bs v"
    using assms(1,3) by simp
qed

lemma decodes_str_u32:
  assumes "valid_utf8 s" "length s < 2 ^ 32" "decodes (f s) bs v"
  shows "decodes (rp_bind (read_u32_le_or E) (\<lambda>len. rp_bind (take_or (unat len) E) (\<lambda>b.
      rp_bind (rp_option (from_utf8 b) E') f))) (to_le_u32 (len_u32 s) @ s @ bs) v"
proof (rule decodes_bind [OF decodes_u32], rule decodes_bind [OF decodes_take])
  show "length s = unat (len_u32 s)" using assms(2) by (simp add: unat_len_u32)
  show "decodes (rp_bind (rp_option (from_utf8 s) E') f) bs v"
    using assms(1,3) by simp
qed

lemma decodes_cur_string:
  assumes "valid_utf8 s" "length s < 2 ^ 32"
  shows "decodes cur_string (to_le_u32 (len_u32 s) @ s) s"
proof -
  have "decodes (rp_bind (take_or (unat (len_u32 s)) EOG) (\<lambda>b.
      rp_option (from_utf8 b) ''invalid utf-8 in graph data'')) (s @ []) s"
    using assms by (intro decodes_bind [OF decodes_take] decodes_option) (simp_all add: unat_len_u32)
  then show ?thesis
    unfolding cur_string_def by (intro decodes_bind [OF decodes_u32]) simp
qed

subsection \<open>The canonical object encoding\<close>

lemma decodes_field64:
  assumes "valid_utf8 k" "length k < 2 ^ 64" "datum_wf d"
  shows "decodes cur_field64 (field_encode (k, d)) (k, datum_canon d)"
  unfolding field_encode_def cur_field64_def fst_conv snd_conv
  by (rule decodes_str_u64 [OF assms(1,2)]) (rule decodes_map [OF decodes_datum [OF assms(3)] refl])

lemma decodes_field32:
  assumes "valid_utf8 k" "length k < 2 ^ 32" "datum_wf d"
  shows "decodes cur_field32 (field_encode_full (k, d)) (k, datum_canon d)"
  unfolding field_encode_full_def cur_field32_def fst_conv snd_conv
  by (rule decodes_str_u32 [OF assms(1,2)]) (rule decodes_map [OF decodes_datum [OF assms(3)] refl])

lemma decodes_object:
  assumes "object_wf (2 ^ 64) obj"
  shows "decodes cur_object (object_encode obj) (object_canon obj)"
proof -
  let ?fs = "sort_key fst (obj_fields obj)"
  have wf: "valid_utf8 (obj_kind obj)" "length (obj_kind obj) < 2 ^ 64" "length ?fs < 2 ^ 64"
    and fs: "\<And>k d. (k, d) \<in> set ?fs \<Longrightarrow> valid_utf8 k \<and> length k < 2 ^ 64 \<and> datum_wf d"
    using assms by (auto simp: object_wf_def)
  have rep: "decodes (rp_repeat (unat (len_u64 ?fs)) cur_field64)
      (concat (map field_encode ?fs)) (map (\<lambda>(k, d). (k, datum_canon d)) ?fs)"
    using fs wf(3) by (intro decodes_repeat) (auto simp: unat_len_u64 intro!: decodes_field64)
  show ?thesis
    unfolding cur_object_def object_encode_def Let_def
  proof (rule decodes_bind [OF decodes_take], simp, simp only: simp_thms if_False, rule decodes_str_u64 [OF wf(1,2)],
      rule decodes_bind [OF decodes_u64])
    show "decodes (rp_bind (rp_repeat (unat (len_u64 ?fs)) cur_field64)
        (\<lambda>fields. rp_return ((object_new (obj_kind obj))\<lparr>obj_fields := fields\<rparr>)))
        (concat (map field_encode ?fs)) (object_canon obj)"
      by (rule decodes_map [OF rep]) (cases obj, simp add: object_canon_def object_new_def)
  qed
qed

lemma object_decode_encode_append:
  assumes "object_wf (2 ^ 64) obj"
  shows "object_decode (object_encode obj @ rest) = Ok (object_canon obj)"
  using decodesD [OF decodes_object [OF assms]] by (simp add: object_decode_def)

lemma object_decode_encode:
  "object_wf (2 ^ 64) obj \<Longrightarrow> object_decode (object_encode obj) = Ok (object_canon obj)"
  using object_decode_encode_append [of obj "[]"] by simp

lemma object_encode_canon [simp]: "object_encode (object_canon obj) = object_encode obj"
proof -
  have "sort_key fst (map (\<lambda>(k, d). (k, datum_canon d)) (sort_key fst fs))
      = map (\<lambda>(k, d). (k, datum_canon d)) (sort_key fst fs)" for fs :: "(rstring \<times> datum) list"
    by (rule sort_key_id_if_sorted) (simp add: comp_def case_prod_beta)
  moreover have "map field_encode (map (\<lambda>(k, d). (k, datum_canon d)) fs) = map field_encode fs" for fs
    by (simp add: field_encode_def case_prod_beta)
  ultimately show ?thesis
    by (simp add: object_encode_def object_canon_def Let_def del: map_map)
qed

lemma object_wf_canon: "object_wf n obj \<Longrightarrow> object_wf n (object_canon obj)"
proof -
  have "datum_wf d \<Longrightarrow> datum_wf (datum_canon d)" for d by (cases d) auto
  then show "object_wf n obj \<Longrightarrow> ?thesis"
    by (fastforce simp: object_wf_def object_canon_def)
qed

text \<open>Two objects share an encoding exactly when they are canonically equal.\<close>

lemma object_encode_inject:
  assumes "object_wf (2 ^ 64) a" "object_wf (2 ^ 64) b"
  shows "object_encode a = object_encode b \<longleftrightarrow> object_canon a = object_canon b"
  using object_decode_encode [OF assms(1)] object_decode_encode [OF assms(2)]
  by (metis object_encode_canon sum.inject(2))

text \<open>Insertion order of distinct fields does not matter.\<close>

lemma mset_eq_short: "mset xs = mset ys \<Longrightarrow> length ys \<le> 1 \<Longrightarrow> xs = ys"
  by (cases ys) (auto simp: mset_single_iff)

lemma object_encode_perm:
  assumes "mset (obj_fields a) = mset (obj_fields b)" and "distinct (map fst (obj_fields a))"
    and "obj_kind a = obj_kind b"
  shows "object_encode a = object_encode b"
proof -
  have "sort_key fst (obj_fields a) = sort_key fst (obj_fields b)"
  proof (rule properties_for_sort_key)
    show "mset (sort_key fst (obj_fields b)) = mset (obj_fields a)" using assms(1) by simp
    show "sorted (map fst (sort_key fst (obj_fields b)))" by simp
    show "filter (\<lambda>x. fst k = fst x) (sort_key fst (obj_fields b)) = filter (\<lambda>x. fst k = fst x) (obj_fields a)"
      if "k \<in> set (sort_key fst (obj_fields b))" for k
    proof -
      have "mset (filter (\<lambda>x. fst k = fst x) (sort_key fst (obj_fields b)))
          = mset (filter (\<lambda>x. fst k = fst x) (obj_fields a))"
        using assms(1) by (simp add: mset_filter)
      moreover have "length (filter (\<lambda>x. fst k = fst x) (obj_fields a)) \<le> 1"
        using assms(2) by (rule distinct_key_filter)
      ultimately show ?thesis by (rule mset_eq_short)
    qed
  qed
  then show ?thesis using assms(3) by (simp add: object_encode_def)
qed

subsection \<open>The graph image\<close>

lemma insort_key_map:
  "(\<And>x. f (g x) = f x) \<Longrightarrow> insort_key f (g x) (map g xs) = map g (insort_key f x xs)"
  by (induction xs) auto

lemma sort_key_map: "(\<And>x. f (g x) = f x) \<Longrightarrow> sort_key f (map g xs) = map g (sort_key f xs)"
  by (induction xs) (simp_all add: insort_key_map)

lemma object_id_fcanon [simp]: "object_id (object_fcanon obj) = object_id obj"
proof -
  have "sort_key fst (map (\<lambda>(k, d). (k, datum_canon d)) fs)
      = map (\<lambda>(k, d). (k, datum_canon d)) (sort_key fst fs)" for fs :: "(rstring \<times> datum) list"
    by (rule sort_key_map) (simp add: case_prod_beta)
  moreover have "map field_encode (map (\<lambda>(k, d). (k, datum_canon d)) fs) = map field_encode fs" for fs
    by (simp add: field_encode_def case_prod_beta)
  ultimately show ?thesis
    by (simp add: object_id_def object_encode_def object_fcanon_def Let_def del: map_map)
qed

lemma decodes_object_record:
  assumes "object_wf (2 ^ 32) obj"
  shows "decodes cur_object_record (encode_object_full obj) (object_fcanon obj)"
proof -
  let ?fs = "obj_fields obj"
  have wf: "valid_utf8 (obj_kind obj)" "length (obj_kind obj) < 2 ^ 32" "length ?fs < 2 ^ 32"
    and fs: "\<And>k d. (k, d) \<in> set ?fs \<Longrightarrow> valid_utf8 k \<and> length k < 2 ^ 32 \<and> datum_wf d"
    using assms by (auto simp: object_wf_def)
  have rep: "decodes (rp_repeat (unat (len_u32 ?fs)) cur_field32)
      (concat (map field_encode_full ?fs)) (map (\<lambda>(k, d). (k, datum_canon d)) ?fs)"
    using fs wf(3) by (intro decodes_repeat) (auto simp: unat_len_u32 intro!: decodes_field32)
  have "decodes cur_object_record
      ((to_le_u32 (len_u32 (obj_kind obj)) @ obj_kind obj) @ to_le_u32 (len_u32 ?fs)
        @ concat (map field_encode_full ?fs)) (object_fcanon obj)"
    unfolding cur_object_record_def
  proof (rule decodes_bind [OF decodes_cur_string [OF wf(1,2)]], rule decodes_bind [OF decodes_u32])
    show "decodes (rp_bind (rp_repeat (unat (len_u32 ?fs)) cur_field32)
        (\<lambda>fields. rp_return ((object_new (obj_kind obj))\<lparr>obj_fields := fields\<rparr>)))
        (concat (map field_encode_full ?fs)) (object_fcanon obj)"
      by (rule decodes_map [OF rep]) (cases obj, simp add: object_fcanon_def object_new_def)
  qed
  then show ?thesis by (simp add: encode_object_full_def)
qed

lemma decodes_hashes:
  assumes "\<forall>i \<in> set is. length i = 32" "length is < 2 ^ 32"
  shows "decodes (rp_repeat (unat (len_u32 is)) (read_hash_or e)) (concat is) is"
  using decodes_repeat [of "is" "read_hash_or e" id id] assms
  by (simp add: decodes_hash unat_len_u32)

lemma decodes_commit:
  assumes "commit_wf c"
  shows "decodes cur_commit (encode_commit c) c"
  unfolding cur_commit_def encode_commit_def
proof (rule decodes_bind [OF decodes_hash], use assms in \<open>simp add: commit_wf_def\<close>,
    rule decodes_bind [OF decodes_hash], use assms in \<open>simp add: commit_wf_def\<close>,
    rule decodes_bind [OF decodes_u32], rule decodes_bind [OF decodes_hashes])
  show "decodes (rp_bind cur_string (\<lambda>message. rp_return
      \<lparr>com_root = com_root c, com_parent = com_parent c, com_live = com_live c, com_message = message\<rparr>))
      (to_le_u32 (len_u32 (com_message c)) @ com_message c) c"
    using assms by (intro decodes_map [OF decodes_cur_string]) (cases c; simp add: commit_wf_def)+
qed (use assms in \<open>auto simp: commit_wf_def\<close>)

text \<open>What a graph looks like after a trip through the image: floats canonical, all else equal.\<close>

definition graph_fcanon :: "object_graph \<Rightarrow> object_graph" where
  "graph_fcanon g = g\<lparr>og_store := map (\<lambda>(k, obj). (k, object_fcanon obj)) (og_store g)\<rparr>"

lemma publish_fcanon_rebuilds:
  assumes "cs_inv object_id m"
  shows "foldl (\<lambda>st obj. snd (cs_publish object_id obj st)) cs_new (map (\<lambda>(_, obj). object_fcanon obj) m)
    = map (\<lambda>(k, obj). (k, object_fcanon obj)) m"
proof -
  let ?m = "map (\<lambda>(k, obj). (k, object_fcanon obj)) m"
  have "cs_inv object_id ?m"
    using assms by (auto simp: cs_inv_def bt_wf_def comp_def case_prod_beta)
  then have "foldl (\<lambda>s (k, v). snd (cs_publish object_id v s)) [] ?m = ?m"
    using publish_sorted_rebuilds [of object_id "[]" ?m] by simp
  then show ?thesis
    by (simp add: cs_new_def foldl_map case_prod_beta)
qed

lemma decodes_graph:
  assumes "graph_wf g"
  shows "decodes cur_graph (og_serialize g) (graph_fcanon g)"
  unfolding cur_graph_def og_serialize_def cs_iter_def
proof (rule decodes_bind [OF decodes_take], simp add: GRAPH_MAGIC_def, simp only: simp_thms if_False,
    rule decodes_bind [OF decodes_u32], rule decodes_bind)
  show "decodes (rp_repeat (unat (len_u32 (og_store g))) cur_object_record)
      (concat (map (\<lambda>(_, obj). encode_object_full obj) (og_store g)))
      (map (\<lambda>(_, obj). object_fcanon obj) (og_store g))"
    using assms
    by (intro decodes_repeat) (auto simp: graph_wf_def unat_len_u32 intro!: decodes_object_record)
  show "decodes (rp_bind (read_u32_le_or EOG) (\<lambda>head_len.
      rp_bind (rp_repeat (unat head_len) (read_hash_or EOG)) (\<lambda>head.
      rp_bind (read_u32_le_or EOG) (\<lambda>hist_len.
      rp_bind (rp_repeat (unat hist_len) cur_commit) (\<lambda>history.
      rp_return \<lparr>og_store = foldl (\<lambda>st obj. snd (cs_publish object_id obj st)) cs_new
          (map (\<lambda>(_, obj). object_fcanon obj) (og_store g)), og_head = head, og_history = history\<rparr>)))))
      (to_le_u32 (len_u32 (og_head g)) @ concat (og_head g)
       @ to_le_u32 (len_u32 (og_history g)) @ concat (map encode_commit (og_history g)))
      (graph_fcanon g)"
  proof (rule decodes_bind [OF decodes_u32], rule decodes_bind [OF decodes_hashes])
    have rep: "decodes (rp_repeat (unat (len_u32 (og_history g))) cur_commit)
        (concat (map encode_commit (og_history g))) (map id (og_history g))"
      using assms by (intro decodes_repeat) (auto simp: graph_wf_def unat_len_u32 decodes_commit)
    show "decodes (rp_bind (read_u32_le_or EOG) (\<lambda>hist_len.
        rp_bind (rp_repeat (unat hist_len) cur_commit) (\<lambda>history.
        rp_return \<lparr>og_store = foldl (\<lambda>st obj. snd (cs_publish object_id obj st)) cs_new
          (map (\<lambda>(_, obj). object_fcanon obj) (og_store g)), og_head = og_head g, og_history = history\<rparr>)))
        (to_le_u32 (len_u32 (og_history g)) @ concat (map encode_commit (og_history g))) (graph_fcanon g)"
      using assms
      by (intro decodes_bind [OF decodes_u32] decodes_map [OF rep])
        (cases g, simp add: graph_fcanon_def publish_fcanon_rebuilds graph_wf_def)
  qed (use assms in \<open>auto simp: graph_wf_def\<close>)
qed

lemma og_deserialize_serialize_append:
  "graph_wf g \<Longrightarrow> og_deserialize (og_serialize g @ rest) = Ok (graph_fcanon g)"
  using decodesD [OF decodes_graph] by (simp add: og_deserialize_def)

lemma og_deserialize_serialize:
  "graph_wf g \<Longrightarrow> og_deserialize (og_serialize g) = Ok (graph_fcanon g)"
  using og_deserialize_serialize_append [of g "[]"] by simp

subsection \<open>Properties\<close>

text \<open>Concrete data for the witnesses: an object with fields out of order, and a committed graph.\<close>

definition demo_object :: object where
  "demo_object =
    object_set (ascii ''title'') (DText (ascii ''hello''))
      (object_set (ascii ''size'') (DInt 42) (object_new (ascii ''note'')))"

definition demo_graph :: object_graph where
  "demo_graph = snd (og_commit (ascii ''first'') (snd (og_put demo_object og_new)))"

lemma demo_object_eq:
  "demo_object = \<lparr>obj_kind = ascii ''note'',
    obj_fields = [(ascii ''size'', DInt 42), (ascii ''title'', DText (ascii ''hello''))]\<rparr>"
  by code_simp

lemma demo_object_wf: "object_wf (2 ^ 32) demo_object"
proof -
  have "valid_utf8 (ascii ''note'')" "valid_utf8 (ascii ''size'')" "valid_utf8 (ascii ''title'')"
    "valid_utf8 (ascii ''hello'')"
    by code_simp+
  then show ?thesis by (simp add: demo_object_eq object_wf_def)
qed

lemma demo_graph_eq:
  "demo_graph = \<lparr>og_store = [(object_id demo_object, demo_object)], og_head = [object_id demo_object],
     og_history = [\<lparr>com_root = combine (combine hash_ZERO (object_id demo_object)) hash_ZERO,
       com_parent = hash_ZERO, com_live = [object_id demo_object], com_message = ascii ''first''\<rparr>]\<rparr>"
  by (simp add: demo_graph_def og_commit_def og_root_hash_def og_put_def og_new_def cs_publish_def
      cs_new_def bt_or_insert_def bt_contains_def Let_def)

lemma demo_graph_wf: "graph_wf demo_graph"
proof -
  have "valid_utf8 (ascii ''first'')" by code_simp
  then show ?thesis
    using demo_object_wf
    by (simp add: graph_wf_def demo_graph_eq cs_inv_def bt_wf_def commit_wf_def object_id_def)
qed

text \<open>
  C5: An object that was encoded is decoded to itself, up to the order of its fields (sorted
  by name) and the bit pattern of its floats, whatever bytes follow it.
\<close>

theorem object_round_trip:
  assumes "object_wf (2 ^ 64) obj"
  shows "object_decode (object_encode obj @ rest) = Ok (object_canon obj)"
  using assms by (rule object_decode_encode_append)

theorem object_round_trip_witness:
  "object_decode (object_encode demo_object @ [7]) = Ok demo_object"
proof -
  have "ascii ''size'' \<le> ascii ''title''"
    by code_simp
  then have "object_canon demo_object = demo_object"
    by (simp add: demo_object_eq object_canon_def)
  moreover have "object_wf (2 ^ 64) demo_object"
    by (rule object_wf_mono [OF demo_object_wf]) (rule power_increasing; simp)
  ultimately show ?thesis
    using object_round_trip [of demo_object "[7]"] by (simp only:)
qed

text \<open>
  Identity is content.  Two objects get the same id exactly when they have the same kind and the same canonical fields, provided the
  hash does not collide on their two encodings.
\<close>

theorem object_identity:
  assumes "object_wf (2 ^ 64) a" "object_wf (2 ^ 64) b"
    and "inj_on hash_of {object_encode a, object_encode b}"
  shows "object_id a = object_id b \<longleftrightarrow> object_canon a = object_canon b"
proof -
  have "object_id a = object_id b \<longleftrightarrow> object_encode a = object_encode b"
    unfolding object_id_def by (rule inj_on_eq_iff [OF assms(3)]) simp_all
  then show ?thesis
    unfolding object_encode_inject [OF assms(1,2)] .
qed

text \<open>
  The order in which distinct fields were set never shows: two objects of one kind whose
  field lists are permutations of each other have the same encoding and the same id.
\<close>

theorem object_field_order_irrelevant:
  assumes "obj_kind a = obj_kind b" "distinct (map fst (obj_fields a))"
    and "mset (obj_fields a) = mset (obj_fields b)"
  shows "object_encode a = object_encode b \<and> object_id a = object_id b"
  using object_encode_perm [OF assms(3,2,1)] by (simp add: object_id_def)

theorem object_field_order_irrelevant_witness:
  "object_id demo_object = object_id
    (object_set (ascii ''size'') (DInt 42) (object_set (ascii ''title'') (DText (ascii ''hello''))
      (object_new (ascii ''note''))))"
proof -
  let ?b = "object_set (ascii ''size'') (DInt 42) (object_set (ascii ''title'') (DText (ascii ''hello''))
    (object_new (ascii ''note'')))"
  have b: "?b = \<lparr>obj_kind = ascii ''note'',
    obj_fields = [(ascii ''title'', DText (ascii ''hello'')), (ascii ''size'', DInt 42)]\<rparr>"
    by code_simp
  have "distinct (map fst (obj_fields demo_object))"
    unfolding demo_object_eq by code_simp
  then show ?thesis
    using object_field_order_irrelevant [of demo_object ?b] by (simp add: demo_object_eq b)
qed

text \<open>
  A graph image is read back as the graph it was written from (floats canonical): the
  store with every object under its own id, the head, and the whole commit history.
\<close>

theorem graph_image_round_trip:
  assumes "graph_wf g"
  shows "og_deserialize (og_serialize g @ rest) = Ok (graph_fcanon g)"
  using assms by (rule og_deserialize_serialize_append)

theorem graph_image_round_trip_witness:
  "og_deserialize (og_serialize demo_graph @ [0]) = Ok demo_graph"
proof -
  have "graph_fcanon demo_graph = demo_graph"
    by (simp add: demo_graph_eq graph_fcanon_def object_fcanon_def demo_object_eq)
  then show ?thesis
    using graph_image_round_trip [OF demo_graph_wf, of "[0]"] by simp
qed

end
