(* ===== verification/Graph_Versioning.thy ===== *)
theory Graph_Versioning
  imports Object_Graph "HOL-Library.Multiset"
begin

text \<open>
  Versioning of the object graph: the invariant kept by every operation of \<^verbatim>\<open>ObjectGraph\<close>,
  immutability of stored objects, lossless rollback to any committed root, and what the Merkle
  root says about the live set.
\<close>

subsection \<open>The graph invariant\<close>

definition og_inv :: "object_graph \<Rightarrow> bool" where
  "og_inv g \<longleftrightarrow>
    cs_inv object_id (og_store g) \<and> distinct (og_head g) \<and>
    (\<forall>i \<in> set (og_head g). og_contains g i) \<and>
    (\<forall>c \<in> set (og_history g). distinct (com_live c) \<and> (\<forall>i \<in> set (com_live c). og_contains g i))"

text \<open>The state-changing operations, as a script that can be run.\<close>

datatype graph_op = OpPut object | OpCommit rstring | OpRollback hash256

fun og_step :: "object_graph \<Rightarrow> graph_op \<Rightarrow> object_graph" where
  "og_step g (OpPut obj) = snd (og_put obj g)"
| "og_step g (OpCommit msg) = snd (og_commit msg g)"
| "og_step g (OpRollback root) = (case og_rollback root g of Inl _ \<Rightarrow> g | Inr g' \<Rightarrow> g')"

definition og_run :: "object_graph \<Rightarrow> graph_op list \<Rightarrow> object_graph" where
  "og_run = foldl og_step"

lemma og_put_eq:
  "og_put obj g = (object_id obj,
    g\<lparr>og_store := bt_or_insert (object_id obj) obj (og_store g),
      og_head := (if object_id obj \<in> set (og_head g) then og_head g else og_head g @ [object_id obj])\<rparr>)"
  by (simp add: og_put_def cs_publish_def Let_def)

lemma og_get_put:
  "og_get (snd (og_put obj g)) i =
    (if i = object_id obj \<and> og_get g i = None then Some obj else og_get g i)"
  by (auto simp: og_put_eq og_get_def cs_fetch_def bt_get_or_insert)

lemma og_contains_iff_get: "og_contains g i \<longleftrightarrow> og_get g i \<noteq> None"
  by (simp add: og_contains_def og_get_def cs_contains_def cs_fetch_def bt_contains_def)

lemma og_get_store_cong: "og_store g = og_store g' \<Longrightarrow> og_get g = og_get g'"
  by (simp add: fun_eq_iff og_get_def)

lemma og_contains_put: "og_contains (snd (og_put obj g)) i \<longleftrightarrow> i = object_id obj \<or> og_contains g i"
  by (auto simp: og_contains_iff_get og_get_put)

lemma og_store_commit [simp]: "og_store (snd (og_commit msg g)) = og_store g"
  and og_head_commit [simp]: "og_head (snd (og_commit msg g)) = og_head g"
  by (simp_all add: og_commit_def Let_def)

lemma og_rollback_OkD:
  "og_rollback root g = Ok g' \<Longrightarrow>
    \<exists>c \<in> set (og_history g). com_root c = root \<and> g' = g\<lparr>og_head := com_live c\<rparr>"
  by (fastforce simp: og_rollback_def find_Some_iff split: option.splits intro: nth_mem)

lemma og_inv_new [inv_intros]: "og_inv og_new"
  by (simp add: og_inv_def og_new_def cs_new_def cs_inv_def)

lemma og_inv_put [inv_intros]:
  assumes "og_inv g"
  shows "og_inv (snd (og_put obj g))"
proof -
  have "cs_inv object_id (og_store (snd (og_put obj g)))"
    using assms by (simp add: og_inv_def og_put_eq cs_inv_or_insert)
  then show ?thesis
    using assms unfolding og_inv_def og_contains_put by (auto simp: og_put_eq)
qed

lemma og_inv_commit [inv_intros]: "og_inv g \<Longrightarrow> og_inv (snd (og_commit msg g))"
  by (auto simp: og_inv_def og_commit_def Let_def og_contains_def)

lemma og_inv_rollback [inv_intros]:
  assumes "og_inv g" and "og_rollback root g = Ok g'"
  shows "og_inv g'"
  using assms og_rollback_OkD [OF assms(2)] by (auto simp: og_inv_def og_contains_def)

lemma og_inv_step [inv_intros]: "og_inv g \<Longrightarrow> og_inv (og_step g a)"
  by (cases a) (auto simp: inv_intros split: sum.splits)

lemma og_inv_run [inv_intros]: "og_inv g \<Longrightarrow> og_inv (og_run g ops)"
  unfolding og_run_def by (induction ops arbitrary: g) (auto simp: inv_intros)

subsection \<open>Immutability and history\<close>

lemma og_get_step_mono:
  assumes "og_get g i = Some obj"
  shows "og_get (og_step g a) i = Some obj"
proof (cases a)
  case (OpPut x)
  with assms show ?thesis by (simp add: og_get_put)
next
  case (OpCommit msg)
  with assms show ?thesis by (simp add: og_get_def)
next
  case (OpRollback root)
  with assms show ?thesis
    by (auto simp: og_get_def dest!: og_rollback_OkD split: sum.splits)
qed

lemma og_get_run_mono: "og_get g i = Some obj \<Longrightarrow> og_get (og_run g ops) i = Some obj"
  unfolding og_run_def by (induction ops arbitrary: g) (auto intro: og_get_step_mono)

lemma og_history_step: "\<exists>h. og_history (og_step g a) = og_history g @ h"
proof (cases a)
  case (OpPut obj)
  then show ?thesis by (simp add: og_put_eq)
next
  case (OpCommit msg)
  then show ?thesis by (simp add: og_commit_def Let_def)
next
  case (OpRollback root)
  then show ?thesis by (auto dest!: og_rollback_OkD split: sum.splits)
qed

lemma og_history_run: "\<exists>h. og_history (og_run g ops) = og_history g @ h"
  unfolding og_run_def
proof (induction ops arbitrary: g)
  case (Cons a ops)
  obtain h where "og_history (og_step g a) = og_history g @ h"
    using og_history_step by blast
  moreover obtain h' where "og_history (foldl og_step (og_step g a) ops) = og_history (og_step g a) @ h'"
    using Cons by blast
  ultimately show ?case by simp
qed simp

lemma find_append_found: "List.find p xs = Some x \<Longrightarrow> List.find p (xs @ ys) = Some x"
  by (induction xs) (auto split: if_splits)

lemma find_snoc_first:
  "\<forall>y \<in> set xs. \<not> p y \<Longrightarrow> p x \<Longrightarrow> List.find p (xs @ x # ys) = Some x"
  by (induction xs) auto

text \<open>A committed root stays reachable whatever runs afterwards.\<close>

lemma rollback_after_run:
  assumes fresh: "\<forall>c \<in> set (og_history g). com_root c \<noteq> fst (og_commit msg g)"
  shows "og_rollback (fst (og_commit msg g)) (og_run (snd (og_commit msg g)) ops)
    = Ok ((og_run (snd (og_commit msg g)) ops)\<lparr>og_head := og_head g\<rparr>)"
proof -
  let ?g1 = "snd (og_commit msg g)" and ?root = "fst (og_commit msg g)"
  obtain h where h: "og_history (og_run ?g1 ops) = og_history ?g1 @ h"
    using og_history_run by blast
  obtain c where c: "og_history ?g1 = og_history g @ [c]" "com_root c = ?root" "com_live c = og_head g"
    by (simp add: og_commit_def Let_def)
  have "List.find (\<lambda>c. com_root c = ?root) (og_history (og_run ?g1 ops)) = Some c"
    unfolding h c(1) using fresh c(2) by (simp add: find_snoc_first)
  then show ?thesis by (simp add: og_rollback_def c(3))
qed

subsection \<open>The Merkle root\<close>

lemma sort_eq_if_set_eq:
  fixes xs ys :: "'a::linorder list"
  shows "distinct xs \<Longrightarrow> distinct ys \<Longrightarrow> set xs = set ys \<Longrightarrow> sort xs = sort ys"
  by (metis distinct_sort set_sort sorted_distinct_set_unique sorted_sort)

text \<open>The hash inputs of a chain \<open>acc = acc.combine(x)\<close>.\<close>

fun combine_inputs :: "hash256 \<Rightarrow> hash256 list \<Rightarrow> bytes set" where
  "combine_inputs acc [] = {}"
| "combine_inputs acc (x # xs) = insert (acc @ x) (combine_inputs (combine acc x) xs)"

lemma combine_chain_inject:
  assumes "inj_on hash_of (combine_inputs a xs \<union> combine_inputs b ys)"
    and "length xs = length ys" and "length a = length b"
    and "foldl combine a xs = foldl combine b ys"
  shows "a = b \<and> xs = ys"
  using assms
proof (induction xs arbitrary: a b ys)
  case Nil
  then show ?case by simp
next
  case (Cons x xs)
  then obtain y ys' where ys: "ys = y # ys'" and len: "length xs = length ys'"
    by (cases ys) auto
  have "combine a x = combine b y \<and> xs = ys'"
  proof (rule Cons.IH [OF _ len])
    show "inj_on hash_of (combine_inputs (combine a x) xs \<union> combine_inputs (combine b y) ys')"
      by (rule inj_on_subset [OF Cons.prems(1)]) (auto simp: ys)
    show "foldl combine (combine a x) xs = foldl combine (combine b y) ys'"
      using Cons.prems(4) ys by simp
  qed simp
  moreover from this have "a @ x = b @ y"
    using inj_onD [OF Cons.prems(1), of "a @ x" "b @ y"] by (auto simp: combine_def ys)
  ultimately show ?case using Cons.prems(3) ys by auto
qed

subsection \<open>Fields\<close>

lemma object_get_set:
  "object_get (object_set name v obj) k = (if k = name then Some v else object_get obj k)"
proof -
  have "map_option snd (List.find (\<lambda>(k', _). k' = k) (set_field name v fs)) =
      (if k = name then Some v else map_option snd (List.find (\<lambda>(k', _). k' = k) fs))" for fs
    by (induction name v fs rule: set_field.induct) auto
  then show ?thesis by (simp add: object_get_def object_set_def)
qed

lemma distinct_set_field: "distinct (map fst fs) \<Longrightarrow> distinct (map fst (set_field name v fs))"
proof -
  have "fst ` set (set_field name v fs) = insert name (fst ` set fs)" for fs
    by (induction name v fs rule: set_field.induct) auto
  then show "distinct (map fst fs) \<Longrightarrow> ?thesis"
    by (induction name v fs rule: set_field.induct) auto
qed

subsection \<open>Properties\<close>

text \<open>
  C6: The graph invariant (every stored object sits under the hash of its own encoding, the
  head and every commit list distinct ids, all of them stored) holds of the empty graph and
  after every sequence of puts, commits and rollbacks; and no step ever changes or drops an
  object that is stored.
\<close>

theorem graph_invariant_and_immutability:
  assumes "og_inv g"
  shows "og_inv og_new \<and> og_inv (og_run g ops) \<and>
    (\<forall>i obj. og_get g i = Some obj \<longrightarrow> object_id obj = i \<and> og_get (og_run g ops) i = Some obj)"
proof -
  have "og_get g i = Some obj \<Longrightarrow> object_id obj = i" for i obj
    using assms cs.fetch_keyed [of object_id "og_store g" i obj] by (simp add: og_inv_def og_get_def)
  then show ?thesis
    using assms og_inv_new og_inv_run og_get_run_mono by blast
qed

theorem graph_invariant_and_immutability_witness:
  "og_inv (og_run (og_run og_new [OpPut (object_new (ascii ''a''))]) [OpCommit [], OpRollback hash_ZERO])"
  using graph_invariant_and_immutability [OF og_inv_run [OF og_inv_new]] by blast

text \<open>
  Time travel.  Whatever is put, committed or rolled back after a commit, rolling back to
  the root it returned succeeds and restores exactly the live set of that commit, with every
  object of it still stored and the history intact, provided no earlier commit had that root.
\<close>

theorem rollback_restores_commit:
  assumes "og_inv g"
    and "\<forall>c \<in> set (og_history g). com_root c \<noteq> fst (og_commit msg g)"
  shows "\<exists>g'. og_rollback (fst (og_commit msg g)) (og_run (snd (og_commit msg g)) ops) = Ok g' \<and>
    og_head g' = og_head g \<and> og_history g' = og_history (og_run (snd (og_commit msg g)) ops) \<and>
    og_root_hash g' = og_root_hash g \<and>
    (\<forall>i \<in> set (og_head g). og_get g' i = og_get g i \<and> og_get g i \<noteq> None)"
proof -
  let ?g1 = "snd (og_commit msg g)"
  let ?g' = "(og_run ?g1 ops)\<lparr>og_head := og_head g\<rparr>"
  have get: "og_get ?g' = og_get (og_run ?g1 ops)" "og_get ?g1 = og_get g"
    by (rule og_get_store_cong; simp)+
  have "og_get ?g' i = og_get g i \<and> og_get g i \<noteq> None" if i: "i \<in> set (og_head g)" for i
  proof -
    obtain obj where "og_get g i = Some obj"
      using i assms(1) unfolding og_inv_def og_contains_iff_get by blast
    then show ?thesis
      using og_get_run_mono [of ?g1 i obj ops] by (simp add: get)
  qed
  then show ?thesis
    using rollback_after_run [OF assms(2), of ops] by (simp add: og_root_hash_def)
qed

theorem rollback_restores_commit_witness:
  "let g = snd (og_put (object_new (ascii ''a'')) og_new); b = object_new (ascii ''b'') in
   \<exists>g'. og_rollback (fst (og_commit [] g)) (og_run (snd (og_commit [] g)) [OpPut b, OpCommit []]) = Ok g' \<and>
     og_head g' = [object_id (object_new (ascii ''a''))]"
proof -
  let ?g = "snd (og_put (object_new (ascii ''a'')) og_new)"
  have "og_inv ?g" by (intro inv_intros)
  moreover have "og_history ?g = []" "og_head ?g = [object_id (object_new (ascii ''a''))]"
    by (simp_all add: og_put_eq og_new_def)
  ultimately show ?thesis
    using rollback_restores_commit [of ?g "[]" "[OpPut (object_new (ascii ''b'')), OpCommit []]"]
    unfolding Let_def by auto
qed

text \<open>
  The Merkle root stands for the live set: it does not depend on the order of the head,
  and two heads of the same size have the same root only if they are the same set, provided
  the hash does not collide on the inputs of the two chains.
\<close>

theorem merkle_root_binds_live_set:
  assumes "distinct (og_head g)" "distinct (og_head h)" "length (og_head g) = length (og_head h)"
    and "inj_on hash_of (combine_inputs hash_ZERO (sort (og_head g)) \<union> combine_inputs hash_ZERO (sort (og_head h)))"
  shows "og_root_hash g = og_root_hash h \<longleftrightarrow> set (og_head g) = set (og_head h)"
proof
  assume "og_root_hash g = og_root_hash h"
  then have "sort (og_head g) = sort (og_head h)"
    using combine_chain_inject [OF assms(4)] assms(3) by (simp add: og_root_hash_def)
  then show "set (og_head g) = set (og_head h)" by (metis set_sort)
next
  assume "set (og_head g) = set (og_head h)"
  then show "og_root_hash g = og_root_hash h"
    using sort_eq_if_set_eq [OF assms(1,2)] by (simp add: og_root_hash_def)
qed

end
