(* ===== verification/Block_Persist.thy ===== *)
theory Block_Persist
  imports Object_Codec
begin

text \<open>
  Block devices and image persistence: \<^verbatim>\<open>dominion-core/src/persist.rs\<close> and the
  fault-injecting device of \<^verbatim>\<open>dominion-core/src/props.rs\<close>.

  The trait \<^verbatim>\<open>BlockDevice\<close> is a record of operations over a device state; every operation
  takes the state and returns a result together with the state it left behind, on errors too,
  so a half-done run of writes is visible.  Two locales give the contract: on an
  \<open>atomic_device\<close> a block write either happens or fails without effect (power loss), on a
  \<open>block_device\<close> it happens.  \<^verbatim>\<open>RamDisk\<close> interprets the second, \<^verbatim>\<open>FaultyDevice\<close> over a
  \<^verbatim>\<open>RamDisk\<close> the first.
\<close>

subsection \<open>Device effects\<close>

text \<open>A fallible operation on a device; \<open>io_bind\<close> is the \<^verbatim>\<open>?\<close> operator.\<close>

type_synonym ('d, 'e, 'a) io = "'d \<Rightarrow> ('e + 'a) \<times> 'd"

definition io_return :: "'a \<Rightarrow> ('d, 'e, 'a) io" where
  "io_return x d = (Ok x, d)"

definition io_fail :: "'e \<Rightarrow> ('d, 'e, 'a) io" where
  "io_fail e d = (Err e, d)"

definition io_bind :: "('d, 'e, 'a) io \<Rightarrow> ('a \<Rightarrow> ('d, 'e, 'b) io) \<Rightarrow> ('d, 'e, 'b) io" where
  "io_bind m f d = (case m d of (Inl e, d') \<Rightarrow> (Inl e, d') | (Inr x, d') \<Rightarrow> f x d')"

definition io_map_err :: "('e \<Rightarrow> 'f) \<Rightarrow> ('d, 'e, 'a) io \<Rightarrow> ('d, 'f, 'a) io" where
  "io_map_err h m d = (case m d of (Inl e, d') \<Rightarrow> (Inl (h e), d') | (Inr x, d') \<Rightarrow> (Inr x, d'))"

primrec io_mapM :: "('x \<Rightarrow> ('d, 'e, 'a) io) \<Rightarrow> 'x list \<Rightarrow> ('d, 'e, 'a list) io" where
  "io_mapM f [] = io_return []"
| "io_mapM f (x # xs) = io_bind (f x) (\<lambda>y. io_bind (io_mapM f xs) (\<lambda>ys. io_return (y # ys)))"

lemma io_bind_Ok: "m d = (Ok x, d') \<Longrightarrow> io_bind m f d = f x d'"
  by (simp add: io_bind_def)

lemma io_bind_Err: "m d = (Err e, d') \<Longrightarrow> io_bind m f d = (Err e, d')"
  by (simp add: io_bind_def)

lemma io_map_err_Ok: "m d = (Ok x, d') \<Longrightarrow> io_map_err h m d = (Ok x, d')"
  by (simp add: io_map_err_def)

lemma io_map_err_Err: "m d = (Err e, d') \<Longrightarrow> io_map_err h m d = (Err (h e), d')"
  by (simp add: io_map_err_def)

subsection \<open>The trait\<close>

abbreviation BLOCK_SIZE :: nat where "BLOCK_SIZE \<equiv> 512"

datatype block_error = BlkOutOfRange | BlkBadLength | BlkDeviceFault | BlkFull

record 'd block_ops =
  bd_block_count :: "'d \<Rightarrow> u64"
  bd_read_block :: "u64 \<Rightarrow> nat \<Rightarrow> ('d, block_error, bytes) io"
  bd_write_block :: "u64 \<Rightarrow> bytes \<Rightarrow> ('d, block_error, unit) io"

text \<open>
  \<^verbatim>\<open>read_block(lba, buf)\<close> is given the length of the buffer to fill.  The two default
  methods walk a run one block at a time and stop at the first error.
\<close>

definition bd_read_blocks :: "'d block_ops \<Rightarrow> u64 \<Rightarrow> nat \<Rightarrow> ('d, block_error, bytes) io" where
  "bd_read_blocks ops start_lba buf_len =
    (if buf_len mod BLOCK_SIZE \<noteq> 0 then io_fail BlkBadLength
     else io_bind (io_mapM (\<lambda>i. bd_read_block ops (start_lba + word_of_nat i) BLOCK_SIZE)
                     [0..<buf_len div BLOCK_SIZE]) (\<lambda>chunks. io_return (concat chunks)))"

definition bd_write_blocks :: "'d block_ops \<Rightarrow> u64 \<Rightarrow> bytes \<Rightarrow> ('d, block_error, unit) io" where
  "bd_write_blocks ops start_lba buf =
    (if length buf mod BLOCK_SIZE \<noteq> 0 then io_fail BlkBadLength
     else io_bind (io_mapM (\<lambda>(i, chunk). bd_write_block ops (start_lba + word_of_nat i) chunk)
                     (enumerate 0 (chunks_exact BLOCK_SIZE buf))) (\<lambda>_. io_return ()))"

subsection \<open>RamDisk and FaultyDevice\<close>

record ram_disk =
  rd_blocks :: "bytes list"

definition rd_new :: "nat \<Rightarrow> ram_disk" where
  "rd_new n = \<lparr>rd_blocks = replicate n (replicate BLOCK_SIZE 0)\<rparr>"

definition rd_read_block :: "u64 \<Rightarrow> nat \<Rightarrow> (ram_disk, block_error, bytes) io" where
  "rd_read_block lba buf_len d =
    (if buf_len \<noteq> BLOCK_SIZE then (Err BlkBadLength, d)
     else if unat lba < length (rd_blocks d) then (Ok (rd_blocks d ! unat lba), d)
     else (Err BlkOutOfRange, d))"

definition rd_write_block :: "u64 \<Rightarrow> bytes \<Rightarrow> (ram_disk, block_error, unit) io" where
  "rd_write_block lba buf d =
    (if length buf \<noteq> BLOCK_SIZE then (Err BlkBadLength, d)
     else if unat lba < length (rd_blocks d) then (Ok (), d\<lparr>rd_blocks := (rd_blocks d)[unat lba := buf]\<rparr>)
     else (Err BlkOutOfRange, d))"

definition ram_ops :: "ram_disk block_ops" where
  "ram_ops = \<lparr>bd_block_count = (\<lambda>d. word_of_nat (length (rd_blocks d))),
              bd_read_block = rd_read_block, bd_write_block = rd_write_block\<rparr>"

record 'd faulty_device =
  fd_inner :: 'd
  fd_fail_after :: u64
  fd_writes :: u64

definition fd_new :: "'d \<Rightarrow> u64 \<Rightarrow> 'd faulty_device" where
  "fd_new inner fail_after = \<lparr>fd_inner = inner, fd_fail_after = fail_after, fd_writes = 0\<rparr>"

definition fd_read_block :: "'d block_ops \<Rightarrow> u64 \<Rightarrow> nat \<Rightarrow> ('d faulty_device, block_error, bytes) io" where
  "fd_read_block ops i n d =
    (case bd_read_block ops i n (fd_inner d) of (r, inner) \<Rightarrow> (r, d\<lparr>fd_inner := inner\<rparr>))"

definition fd_write_block :: "'d block_ops \<Rightarrow> u64 \<Rightarrow> bytes \<Rightarrow> ('d faulty_device, block_error, unit) io" where
  "fd_write_block ops i buf d =
    (if fd_writes d \<ge> fd_fail_after d then (Err BlkOutOfRange, d)
     else case bd_write_block ops i buf (fd_inner d) of
       (r, inner) \<Rightarrow> (r, d\<lparr>fd_writes := fd_writes d + 1, fd_inner := inner\<rparr>))"

definition faulty_ops :: "'d block_ops \<Rightarrow> 'd faulty_device block_ops" where
  "faulty_ops ops = \<lparr>bd_block_count = (\<lambda>d. bd_block_count ops (fd_inner d)),
                     bd_read_block = fd_read_block ops, bd_write_block = fd_write_block ops\<rparr>"

subsection \<open>Persistence\<close>

definition SUPER_MAGIC :: bytes where
  "SUPER_MAGIC = ascii ''AEPERS01''"

text \<open>\<^verbatim>\<open>usize::div_ceil(BLOCK_SIZE)\<close>.\<close>

definition blocks_for :: "nat \<Rightarrow> nat" where
  "blocks_for n = (n + 511) div BLOCK_SIZE"

definition write_image :: "'d block_ops \<Rightarrow> u64 \<Rightarrow> bytes \<Rightarrow> bytes \<Rightarrow> ('d, block_error, unit) io" where
  "write_image ops start_lba magic payload d =
    (let blocks_needed = (1 + word_of_nat (blocks_for (length payload)) :: u64)
     in if start_lba + blocks_needed > bd_block_count ops d then (Err BlkFull, d)
        else
          let image = replicate (unat blocks_needed * BLOCK_SIZE) 0;
              image = blit 0 magic image;
              image = blit 8 (to_le_u64 (len_u64 payload)) image;
              image = blit BLOCK_SIZE payload image
          in bd_write_blocks ops start_lba image d)"

definition read_image :: "'d block_ops \<Rightarrow> u64 \<Rightarrow> bytes \<Rightarrow> ('d, block_error, bytes option) io" where
  "read_image ops start_lba magic =
    io_bind (bd_read_block ops start_lba BLOCK_SIZE) (\<lambda>sb.
      if slice 0 8 sb \<noteq> magic then io_return None
      else (\<lambda>d.
        let len = unat (of_le_bytes (slice 8 8 sb) :: u64);
            nblocks = blocks_for len;
            fits = (case Option.bind (checked_add (word_of_nat nblocks :: u64) 1) (checked_add start_lba) of
                      None \<Rightarrow> False | Some end \<Rightarrow> end \<le> bd_block_count ops d);
            buf_len = (if nblocks * BLOCK_SIZE < 2 ^ 64 then Some (nblocks * BLOCK_SIZE) else None)
        in case (fits, buf_len) of
             (True, Some n) \<Rightarrow>
               io_bind (if nblocks > 0 then bd_read_blocks ops (start_lba + 1) n else io_return (replicate n 0))
                 (\<lambda>payload. io_return (Some (take len payload))) d
           | _ \<Rightarrow> (Ok None, d)))"

definition save_blob :: "'d block_ops \<Rightarrow> u64 \<Rightarrow> bytes \<Rightarrow> bytes \<Rightarrow> ('d, block_error, unit) io" where
  "save_blob ops start_lba magic payload = write_image ops start_lba magic payload"

definition load_blob :: "'d block_ops \<Rightarrow> u64 \<Rightarrow> bytes \<Rightarrow> ('d, block_error, bytes option) io" where
  "load_blob ops start_lba magic = read_image ops start_lba magic"

definition persist_save :: "'d block_ops \<Rightarrow> object_graph \<Rightarrow> ('d, block_error, unit) io" where
  "persist_save ops graph = write_image ops 0 SUPER_MAGIC (og_serialize graph)"

definition persist_load :: "'d block_ops \<Rightarrow> ('d, block_error, object_graph option) io" where
  "persist_load ops =
    io_bind (read_image ops 0 SUPER_MAGIC) (\<lambda>r.
      case r of Some payload \<Rightarrow> io_return (result_ok (og_deserialize payload))
              | None \<Rightarrow> io_return None)"

definition is_formatted :: "'d block_ops \<Rightarrow> ('d, block_error, bool) io" where
  "is_formatted ops =
    io_bind (bd_read_block ops 0 BLOCK_SIZE) (\<lambda>sb. io_return (slice 0 8 sb = SUPER_MAGIC))"

end
