(* ===== verification/Block_Device.thy ===== *)
theory Block_Device
  imports Block_Persist
begin

text \<open>
  The contract of the trait \<^verbatim>\<open>BlockDevice\<close> and what \<^verbatim>\<open>Persistence\<close> makes of it: runs of
  blocks are read and written as one buffer, an image that was saved is loaded back byte for
  byte, and images at disjoint places do not disturb each other.
\<close>

subsection \<open>Block runs\<close>

lemma concat_chunks_exact: "n dvd length xs \<Longrightarrow> 0 < n \<Longrightarrow> concat (chunks_exact n xs) = xs"
proof (induction n xs rule: chunks_exact.induct)
  case (1 n xs)
  show ?case
  proof (cases "length xs < n")
    case True
    with "1.prems" have "xs = []" by (auto dest: dvd_imp_le)
    then show ?thesis by (simp add: chunks_exact_short "1.prems")
  next
    case False
    with 1 have "concat (chunks_exact n (drop n xs)) = drop n xs"
      by (simp add: dvd_diff_nat)
    with False "1.prems" show ?thesis by (subst chunks_exact.simps) simp
  qed
qed

lemma length_chunks_exact: "0 < n \<Longrightarrow> length (chunks_exact n xs) = length xs div n"
proof (induction n xs rule: chunks_exact.induct)
  case (1 n xs)
  then show ?case
    by (subst chunks_exact.simps) (auto simp: le_div_geq)
qed

lemma blit_0_Cons: "a < length xs \<Longrightarrow> blit a (y # ys) xs = blit (Suc a) ys (xs[a := y])"
  by (simp add: blit_def upd_conv_take_nth_drop add.commute)

lemma blit_Nil [simp]: "blit a [] xs = xs"
  by (simp add: blit_def)

subsection \<open>The interface\<close>

locale atomic_device =
  fixes ops :: "'d block_ops"
    and inv :: "'d \<Rightarrow> bool"
    and contents :: "'d \<Rightarrow> bytes list"
  assumes count: "inv d \<Longrightarrow> bd_block_count ops d = word_of_nat (length (contents d))"
    and bounded: "inv d \<Longrightarrow> length (contents d) < 2 ^ 64"
    and block_len: "inv d \<Longrightarrow> b \<in> set (contents d) \<Longrightarrow> length b = BLOCK_SIZE"
    and read_law: "inv d \<Longrightarrow> unat lba < length (contents d) \<Longrightarrow>
      \<exists>d'. bd_read_block ops lba BLOCK_SIZE d = (Ok (contents d ! unat lba), d') \<and>
           inv d' \<and> contents d' = contents d"
    and write_law: "inv d \<Longrightarrow> unat lba < length (contents d) \<Longrightarrow> length b = BLOCK_SIZE \<Longrightarrow>
      \<exists>r d'. bd_write_block ops lba b d = (r, d') \<and> inv d' \<and>
             contents d' = (case r of Inl _ \<Rightarrow> contents d | Inr _ \<Rightarrow> (contents d)[unat lba := b])"
begin

lemma unat_count: "inv d \<Longrightarrow> unat (bd_block_count ops d) = length (contents d)"
  using bounded [of d] by (simp add: count unat_of_nat)

lemma unat_lba:
  fixes lba :: u64
  assumes "inv d" and "unat lba + k \<le> length (contents d)"
  shows "unat (lba + word_of_nat k) = unat lba + k"
proof -
  have "unat lba + k < 2 ^ 64"
    using assms bounded [of d] by simp
  then show ?thesis
    by (simp add: unat_word_ariths unat_of_nat)
qed

lemma read_run:
  "inv d \<Longrightarrow> unat start + k + n \<le> length (contents d) \<Longrightarrow>
    \<exists>d'. io_mapM (\<lambda>i. bd_read_block ops (start + word_of_nat i) BLOCK_SIZE) [k..<k + n] d
           = (Ok (slice (unat start + k) n (contents d)), d') \<and> inv d' \<and> contents d' = contents d"
proof (induction n arbitrary: k d)
  case 0
  then show ?case by (simp add: io_return_def slice_def)
next
  case (Suc n)
  have lba: "unat (start + word_of_nat k) = unat start + k"
    by (rule unat_lba [OF Suc.prems(1)]) (use Suc.prems in linarith)
  obtain d1 where d1: "bd_read_block ops (start + word_of_nat k) BLOCK_SIZE d
      = (Ok (contents d ! (unat start + k)), d1)" "inv d1" "contents d1 = contents d"
    using read_law [of d "start + word_of_nat k"] Suc.prems lba by auto
  obtain d2 where d2: "io_mapM (\<lambda>i. bd_read_block ops (start + word_of_nat i) BLOCK_SIZE) [Suc k..<Suc k + n] d1
      = (Ok (slice (unat start + Suc k) n (contents d1)), d2)" "inv d2" "contents d2 = contents d1"
    using Suc.IH [of d1 "Suc k"] d1 Suc.prems by auto
  have "slice (unat start + k) (Suc n) (contents d)
      = contents d ! (unat start + k) # slice (unat start + Suc k) n (contents d)"
    using Suc.prems by (simp add: slice_def take_Suc_conv_app_nth Cons_nth_drop_Suc [symmetric])
  moreover have "[k..<k + Suc n] = k # [Suc k..<Suc k + n]"
    by (simp add: upt_conv_Cons)
  ultimately show ?case
    using d1 d2 by (simp add: io_bind_def io_return_def del: upt_Suc)
qed

lemma read_blocks:
  assumes "inv d" "unat start + n \<le> length (contents d)"
  shows "\<exists>d'. bd_read_blocks ops start (n * BLOCK_SIZE) d = (Ok (concat (slice (unat start) n (contents d))), d')
    \<and> inv d' \<and> contents d' = contents d"
  using read_run [of d start 0 n] assms
  by (auto simp: bd_read_blocks_def io_bind_def io_return_def)

end

locale block_device = atomic_device +
  assumes write_ok: "inv d \<Longrightarrow> unat lba < length (contents d) \<Longrightarrow> length b = BLOCK_SIZE \<Longrightarrow>
      \<exists>d'. bd_write_block ops lba b d = (Ok (), d')"
begin

lemma write_block_ok:
  assumes "inv d" "unat lba < length (contents d)" "length b = BLOCK_SIZE"
  shows "\<exists>d'. bd_write_block ops lba b d = (Ok (), d') \<and> inv d' \<and> contents d' = (contents d)[unat lba := b]"
  using write_law [OF assms] write_ok [OF assms] by auto

lemma write_run:
  "inv d \<Longrightarrow> unat start + k + length cs \<le> length (contents d) \<Longrightarrow> \<forall>c \<in> set cs. length c = BLOCK_SIZE \<Longrightarrow>
    \<exists>d' us. io_mapM (\<lambda>(i, chunk). bd_write_block ops (start + word_of_nat i) chunk) (enumerate k cs) d
           = (Ok us, d') \<and> inv d' \<and> contents d' = blit (unat start + k) cs (contents d)"
proof (induction cs arbitrary: k d)
  case Nil
  then show ?case by (simp add: io_return_def)
next
  case (Cons c cs)
  have lba: "unat (start + word_of_nat k) = unat start + k"
    by (rule unat_lba [OF Cons.prems(1)]) (use Cons.prems in simp)
  obtain d1 where d1: "bd_write_block ops (start + word_of_nat k) c d = (Ok (), d1)" "inv d1"
      "contents d1 = (contents d)[unat start + k := c]"
    using write_block_ok [of d "start + word_of_nat k" c] Cons.prems lba by auto
  obtain d2 us where d2: "io_mapM (\<lambda>(i, chunk). bd_write_block ops (start + word_of_nat i) chunk)
        (enumerate (Suc k) cs) d1 = (Ok us, d2)" "inv d2"
      "contents d2 = blit (unat start + Suc k) cs (contents d1)"
    using Cons.IH [of d1 "Suc k"] d1 Cons.prems by auto
  show ?case
    using d1 d2 Cons.prems by (auto simp: io_bind_def io_return_def blit_0_Cons)
qed

lemma write_blocks:
  assumes "inv d" "length buf = n * BLOCK_SIZE" "unat start + n \<le> length (contents d)"
  shows "\<exists>d'. bd_write_blocks ops start buf d = (Ok (), d') \<and> inv d' \<and>
    contents d' = blit (unat start) (chunks_exact BLOCK_SIZE buf) (contents d)"
proof -
  have "length (chunks_exact BLOCK_SIZE buf) = n"
    using assms(2) by (simp add: length_chunks_exact)
  moreover have "\<forall>c \<in> set (chunks_exact BLOCK_SIZE buf). length c = BLOCK_SIZE"
    using chunks_exact_elem by blast
  ultimately show ?thesis
    using write_run [of d start 0 "chunks_exact BLOCK_SIZE buf"] assms
    by (auto simp: bd_write_blocks_def io_bind_def io_return_def)
qed

end

subsection \<open>Images\<close>

text \<open>An image stands at a place of the disk: its superblock and payload run are there.\<close>

definition image_at :: "bytes list \<Rightarrow> nat \<Rightarrow> bytes \<Rightarrow> bytes \<Rightarrow> bool" where
  "image_at blocks start magic payload \<longleftrightarrow>
    start + 1 + blocks_for (length payload) \<le> length blocks \<and> length payload < 2 ^ 63 \<and>
    slice 0 8 (blocks ! start) = magic \<and>
    slice 8 8 (blocks ! start) = to_le_u64 (len_u64 payload) \<and>
    take (length payload) (concat (slice (Suc start) (blocks_for (length payload)) blocks)) = payload"

lemma image_at_frame:
  assumes "image_at blocks start magic payload" "length blocks' = length blocks"
    and "\<And>i. start \<le> i \<Longrightarrow> i < start + 1 + blocks_for (length payload) \<Longrightarrow> blocks' ! i = blocks ! i"
  shows "image_at blocks' start magic payload"
proof -
  have "slice (Suc start) (blocks_for (length payload)) blocks' = slice (Suc start) (blocks_for (length payload)) blocks"
    using assms by (intro nth_equalityI) (auto simp: image_at_def nth_slice)
  moreover have "blocks' ! start = blocks ! start" using assms(3) [of start] by simp
  ultimately show ?thesis using assms(1,2) by (simp add: image_at_def)
qed

lemma blocks_for_bounds: "length p \<le> blocks_for (length p) * BLOCK_SIZE" "blocks_for n \<le> n"
proof -
  have "(length p + 511) mod 512 < 512" by simp
  then show "length p \<le> blocks_for (length p) * BLOCK_SIZE"
    using div_mult_mod_eq [of "length p + 511" 512] unfolding blocks_for_def by linarith
  show "blocks_for n \<le> n"
    using div_times_less_eq_dividend [of "n + 511" 512] unfolding blocks_for_def by linarith
qed

definition image_bytes :: "bytes \<Rightarrow> bytes \<Rightarrow> bytes" where
  "image_bytes magic payload =
    blit BLOCK_SIZE payload (blit 8 (to_le_u64 (len_u64 payload)) (blit 0 magic
      (replicate ((1 + blocks_for (length payload)) * BLOCK_SIZE) 0)))"

lemma length_image_bytes:
  "length magic = 8 \<Longrightarrow> length (image_bytes magic payload) = (1 + blocks_for (length payload)) * BLOCK_SIZE"
  using blocks_for_bounds(1) [of payload] by (simp add: image_bytes_def)

lemma image_bytes_fields:
  assumes "length magic = 8"
  shows "slice 0 8 (image_bytes magic payload) = magic"
    "slice 8 8 (image_bytes magic payload) = to_le_u64 (len_u64 payload)"
    "slice BLOCK_SIZE (length payload) (image_bytes magic payload) = payload"
proof -
  let ?z = "replicate ((1 + blocks_for (length payload)) * BLOCK_SIZE) (0::u8)"
  let ?m = "blit 0 magic ?z" and ?l = "to_le_u64 (len_u64 payload)"
  have len: "length ?z = 512 + blocks_for (length payload) * 512" "length ?m = length ?z"
    "length (blit 8 ?l ?m) = length ?z"
    using assms by simp_all
  note b = blocks_for_bounds(1) [of payload]
  show "slice 0 8 (image_bytes magic payload) = magic"
    unfolding image_bytes_def using assms b len slice_blit_same [of 0 magic ?z]
    by (simp add: slice_blit_disjoint)
  show "slice 8 8 (image_bytes magic payload) = ?l"
    unfolding image_bytes_def using b len slice_blit_same [of 8 ?l ?m]
    by (simp add: slice_blit_disjoint)
  show "slice BLOCK_SIZE (length payload) (image_bytes magic payload) = payload"
    unfolding image_bytes_def using b len by (intro slice_blit_same) simp
qed

lemma image_at_blit:
  assumes "length magic = 8" "length payload < 2 ^ 63"
    and "start + 1 + blocks_for (length payload) \<le> length blocks"
  shows "image_at (blit start (chunks_exact BLOCK_SIZE (image_bytes magic payload)) blocks) start magic payload"
proof -
  let ?img = "image_bytes magic payload" and ?B = "blocks_for (length payload)"
  let ?cs = "chunks_exact BLOCK_SIZE ?img"
  have img: "length ?img = (1 + ?B) * BLOCK_SIZE"
    using assms(1) by (rule length_image_bytes)
  then have cs: "length ?cs = 1 + ?B" "concat ?cs = ?img"
    by (simp_all add: length_chunks_exact concat_chunks_exact)
  have split: "?cs = take BLOCK_SIZE ?img # chunks_exact BLOCK_SIZE (drop BLOCK_SIZE ?img)"
    using img by (subst chunks_exact.simps) simp
  then have "blit start ?cs blocks ! start = take BLOCK_SIZE ?img"
    using assms(3) cs by (simp add: nth_blit)
  moreover have "slice (Suc start) ?B (blit start ?cs blocks) = chunks_exact BLOCK_SIZE (drop BLOCK_SIZE ?img)"
  proof (rule nth_equalityI)
    show "length (slice (Suc start) ?B (blit start ?cs blocks)) = length (chunks_exact BLOCK_SIZE (drop BLOCK_SIZE ?img))"
      using assms(3) cs img by (simp add: length_chunks_exact)
    fix i assume "i < length (slice (Suc start) ?B (blit start ?cs blocks))"
    then have "i < ?B" by simp
    then show "slice (Suc start) ?B (blit start ?cs blocks) ! i = chunks_exact BLOCK_SIZE (drop BLOCK_SIZE ?img) ! i"
      using assms(3) cs by (simp add: nth_slice nth_blit split)
  qed
  moreover have "concat (chunks_exact BLOCK_SIZE (drop BLOCK_SIZE ?img)) = drop BLOCK_SIZE ?img"
    using img by (intro concat_chunks_exact) simp_all
  moreover have "take (length payload) (drop BLOCK_SIZE ?img) = payload"
    using image_bytes_fields(3) [OF assms(1), of payload] by (simp only: slice_def)
  ultimately show ?thesis
    using assms cs image_bytes_fields(1,2) [OF assms(1), of payload]
    by (simp add: image_at_def slice_take)
qed

context block_device
begin

lemma save_blob_ok:
  assumes "inv d" "length magic = 8" "length payload < 2 ^ 63"
    and fits: "unat start + 1 + blocks_for (length payload) \<le> length (contents d)"
  shows "\<exists>d'. save_blob ops start magic payload d = (Ok (), d') \<and> inv d' \<and>
    contents d' = blit (unat start) (chunks_exact BLOCK_SIZE (image_bytes magic payload)) (contents d)"
proof -
  let ?n = "1 + word_of_nat (blocks_for (length payload)) :: u64"
  have lt: "unat start + 1 + blocks_for (length payload) < 2 ^ 64"
    using fits bounded [OF assms(1)] by simp
  have n: "unat ?n = 1 + blocks_for (length payload)"
    using lt by (simp add: unat_word_ariths unat_of_nat)
  then have "unat (start + ?n) = unat start + (1 + blocks_for (length payload))"
    using lt by (subst unat_word_ariths) simp
  then have "\<not> start + ?n > bd_block_count ops d"
    using fits unat_count [OF assms(1)] by (simp add: word_less_nat_alt)
  then have "save_blob ops start magic payload d = bd_write_blocks ops start (image_bytes magic payload) d"
    by (simp only: save_blob_def write_image_def Let_def n image_bytes_def if_False)
  then show ?thesis
    using write_blocks [OF assms(1) length_image_bytes [OF assms(2)], of start payload] fits by auto
qed

end

context atomic_device
begin

lemma load_blob_image:
  assumes "inv d" "image_at (contents d) (unat start) magic payload"
  shows "\<exists>d'. load_blob ops start magic d = (Ok (Some payload), d') \<and> inv d' \<and> contents d' = contents d"
proof -
  let ?B = "blocks_for (length payload)"
  from assms(2) have fits: "unat start + 1 + ?B \<le> length (contents d)" and small: "length payload < 2 ^ 63"
    and m: "slice 0 8 (contents d ! unat start) = magic"
    and l: "slice 8 8 (contents d ! unat start) = to_le_u64 (len_u64 payload)"
    and p: "take (length payload) (concat (slice (Suc (unat start)) ?B (contents d))) = payload"
    by (auto simp: image_at_def)
  obtain d1 where d1: "bd_read_block ops start BLOCK_SIZE d = (Ok (contents d ! unat start), d1)"
      "inv d1" "contents d1 = contents d"
    using read_law [OF assms(1), of start] fits by auto
  have len: "unat (of_le_bytes (slice 8 8 (contents d ! unat start)) :: u64) = length payload"
    using small by (simp add: l unat_of_nat)
  have B_small: "?B * BLOCK_SIZE < 2 ^ 64"
    unfolding blocks_for_def
    by (rule le_less_trans [OF div_times_less_eq_dividend]) (use small in simp)
  have lt: "unat start + 1 + ?B < 2 ^ 64"
    using fits bounded [OF assms(1)] by simp
  have c1: "checked_add (word_of_nat ?B :: u64) 1 = Some (word_of_nat (1 + ?B))"
    using lt by (subst checked_add_Some_iff) (simp add: unat_word_ariths unat_of_nat)
  have c2: "checked_add start (word_of_nat (1 + ?B)) = Some (start + word_of_nat (1 + ?B))"
    using lt by (simp add: checked_add_def unat_word_ariths unat_of_nat)
  have "unat (start + word_of_nat (1 + ?B)) = unat start + (1 + ?B)"
    using fits by (intro unat_lba [OF assms(1)]) simp
  then have fit: "start + word_of_nat (1 + ?B) \<le> bd_block_count ops d1"
    using fits unat_count [OF d1(2)] d1(3) by (simp add: word_le_nat_alt)
  have s1: "unat (start + 1) = Suc (unat start)"
    using unat_lba [OF assms(1), of start 1] fits by simp
  show ?thesis
  proof (cases "?B = 0")
    case True
    then have "payload = []" using blocks_for_bounds(1) [of payload] by simp
    with True d1 m len c1 c2 fit show ?thesis
      by (simp add: load_blob_def read_image_def io_bind_def io_return_def Let_def)
  next
    case False
    obtain d2 where d2: "bd_read_blocks ops (start + 1) (?B * BLOCK_SIZE) d1
        = (Ok (concat (slice (Suc (unat start)) ?B (contents d1))), d2)" "inv d2" "contents d2 = contents d1"
      using read_blocks [OF d1(2), of "start + 1" ?B] fits d1(3) s1 by auto
    with False d1 m len c1 c2 fit p B_small show ?thesis
      by (simp add: load_blob_def read_image_def io_bind_def io_return_def Let_def)
  qed
qed

end

subsection \<open>The two devices\<close>

definition rd_inv :: "ram_disk \<Rightarrow> bool" where
  "rd_inv d \<longleftrightarrow> length (rd_blocks d) < 2 ^ 64 \<and> (\<forall>b \<in> set (rd_blocks d). length b = BLOCK_SIZE)"

lemma rd_inv_new: "n < 2 ^ 64 \<Longrightarrow> rd_inv (rd_new n)"
  by (simp add: rd_inv_def rd_new_def)

interpretation ram: block_device ram_ops rd_inv rd_blocks
proof unfold_locales
  fix d and lba :: u64 and b :: bytes
  assume "rd_inv d" "unat lba < length (rd_blocks d)" "length b = BLOCK_SIZE"
  then show "\<exists>r d'. bd_write_block ram_ops lba b d = (r, d') \<and> rd_inv d' \<and>
      rd_blocks d' = (case r of Inl _ \<Rightarrow> rd_blocks d | Inr _ \<Rightarrow> (rd_blocks d)[unat lba := b])"
    by (auto simp: ram_ops_def rd_write_block_def rd_inv_def dest: set_update_subset_insert [THEN subsetD])
qed (auto simp: ram_ops_def rd_read_block_def rd_write_block_def rd_inv_def)

interpretation faulty: atomic_device "faulty_ops ram_ops" "\<lambda>d. rd_inv (fd_inner d)" "\<lambda>d. rd_blocks (fd_inner d)"
proof unfold_locales
  fix d :: "ram_disk faulty_device" and lba :: u64 and b :: bytes
  assume a: "rd_inv (fd_inner d)" "unat lba < length (rd_blocks (fd_inner d))" "length b = BLOCK_SIZE"
  show "\<exists>r d'. bd_write_block (faulty_ops ram_ops) lba b d = (r, d') \<and> rd_inv (fd_inner d') \<and>
      rd_blocks (fd_inner d') =
        (case r of Inl _ \<Rightarrow> rd_blocks (fd_inner d) | Inr _ \<Rightarrow> (rd_blocks (fd_inner d))[unat lba := b])"
    using a ram.write_block_ok [OF a] by (auto simp: faulty_ops_def fd_write_block_def)
next
  show "rd_inv (fd_inner d) \<Longrightarrow> length (rd_blocks (fd_inner d)) < 2 ^ 64" for d :: "ram_disk faulty_device"
    by (rule ram.bounded)
qed (auto simp: faulty_ops_def fd_read_block_def ram.count ram.block_len
      dest: ram.read_law split: prod.splits)

subsection \<open>Properties\<close>

text \<open>
  On \<^verbatim>\<open>RamDisk\<close>, a payload saved with \<^verbatim>\<open>save_blob\<close> is loaded back byte for byte, and
  saving it leaves an image that lies in other blocks loadable.
\<close>

theorem blob_save_load:
  assumes "rd_inv d" "length magic = 8" "length payload < 2 ^ 63"
    and "unat start + 1 + blocks_for (length payload) \<le> length (rd_blocks d)"
    and "image_at (rd_blocks d) (unat start2) magic2 payload2"
    and "unat start2 + 1 + blocks_for (length payload2) \<le> unat start \<or>
         unat start + 1 + blocks_for (length payload) \<le> unat start2"
  shows "\<exists>d'. save_blob ram_ops start magic payload d = (Ok (), d') \<and> rd_inv d' \<and>
    fst (load_blob ram_ops start magic d') = Ok (Some payload) \<and>
    fst (load_blob ram_ops start2 magic2 d') = Ok (Some payload2)"
proof -
  let ?cs = "chunks_exact BLOCK_SIZE (image_bytes magic payload)"
  obtain d' where d': "save_blob ram_ops start magic payload d = (Ok (), d')" "rd_inv d'"
      "rd_blocks d' = blit (unat start) ?cs (rd_blocks d)"
    using ram.save_blob_ok [OF assms(1-4)] by blast
  have cs: "length ?cs = 1 + blocks_for (length payload)"
    by (simp add: length_chunks_exact length_image_bytes [OF assms(2)])
  have "image_at (rd_blocks d') (unat start) magic payload"
    unfolding d'(3) using assms(2-4) by (rule image_at_blit)
  moreover have "image_at (rd_blocks d') (unat start2) magic2 payload2"
  proof (rule image_at_frame [OF assms(5)])
    show "length (rd_blocks d') = length (rd_blocks d)"
      using assms(4) by (simp add: d'(3) cs)
    show "rd_blocks d' ! i = rd_blocks d ! i"
      if "unat start2 \<le> i" "i < unat start2 + 1 + blocks_for (length payload2)" for i
      using that assms(4,5,6) by (auto simp: d'(3) nth_blit cs image_at_def)
  qed
  ultimately show ?thesis
    using d'(1,2) ram.load_blob_image [OF d'(2)] by (metis fst_conv)
qed

theorem blob_save_load_witness:
  "\<exists>d d'. save_blob ram_ops 0 (ascii ''AAAAAAAA'') [1, 2, 3] (rd_new 8) = (Ok (), d) \<and>
    save_blob ram_ops 4 (ascii ''BBBBBBBB'') [4, 5] d = (Ok (), d') \<and>
    fst (load_blob ram_ops 4 (ascii ''BBBBBBBB'') d') = Ok (Some [4, 5]) \<and>
    fst (load_blob ram_ops 0 (ascii ''AAAAAAAA'') d') = Ok (Some [1, 2, 3])"
proof -
  let ?A = "ascii ''AAAAAAAA''" and ?a = "[1, 2, 3] :: bytes"
  have n: "blocks_for (Suc (Suc (Suc 0))) = 1" "blocks_for (Suc (Suc 0)) = 1"
    by (simp_all add: blocks_for_def)
  have disk: "rd_inv (rd_new 8)" "length (rd_blocks (rd_new 8)) = 8"
    by (simp_all add: rd_inv_new) (simp add: rd_new_def)
  obtain d where d: "save_blob ram_ops 0 ?A ?a (rd_new 8) = (Ok (), d)" "rd_inv d"
      "rd_blocks d = blit (unat (0 :: u64)) (chunks_exact BLOCK_SIZE (image_bytes ?A ?a)) (rd_blocks (rd_new 8))"
    using ram.save_blob_ok [OF disk(1), of ?A ?a 0] disk(2) n by auto
  have "image_at (rd_blocks d) (unat (0 :: u64)) ?A ?a"
    unfolding d(3) by (rule image_at_blit) (simp_all add: disk(2) n)
  moreover have "length (rd_blocks d) = 8"
    using disk(2) by (simp add: d(3) length_chunks_exact length_image_bytes n)
  ultimately show ?thesis
    using blob_save_load [OF d(2), of "ascii ''BBBBBBBB''" "[4, 5]" 4 0 ?A ?a] d(1) n by auto
qed

end
