(* ===== verification/Root_Journal.thy ===== *)
theory Root_Journal
  imports Block_Device
begin

text \<open>
  The crash-consistent root journal, \<^verbatim>\<open>dominion-core/src/journal.rs\<close>: signed commit records
  in a double-buffered superblock that is read and written as one block.  The commit protocol
  (fill the inactive slot, then flip the active pointer) is proved against the device contract:
  it returns the new root on a device that works, and leaves the old or the new root, never
  anything else, when power is lost between any two block writes.
\<close>

definition JOURNAL_MAGIC :: bytes where
  "JOURNAL_MAGIC = ascii ''AEJRNL01''"

definition SUPERBLOCK :: u64 where
  "SUPERBLOCK = 0"

record commit_record =
  cr_root :: hash256
  cr_generation :: u64
  cr_signature :: hash256

definition sign_root :: "hash256 \<Rightarrow> u64 \<Rightarrow> bytes \<Rightarrow> hash256" where
  "sign_root root generation key =
    hash_of (ascii ''root:'' @ key @ to_le_u64 generation @ root)"

definition cr_sign :: "hash256 \<Rightarrow> u64 \<Rightarrow> bytes \<Rightarrow> commit_record" where
  "cr_sign root generation key =
    \<lparr>cr_root = root, cr_generation = generation, cr_signature = sign_root root generation key\<rparr>"

definition cr_verify :: "commit_record \<Rightarrow> bytes \<Rightarrow> bool" where
  "cr_verify r key \<longleftrightarrow> cr_signature r = sign_root (cr_root r) (cr_generation r) key"

datatype journal_error = JBlock block_error | JNotFormatted | JRollback

text \<open>\<^verbatim>\<open>slots\<close> is the array of two slots.\<close>

record superblock =
  sb_active :: nat
  sb_slots :: "commit_record option list"

definition sb_active_record :: "superblock \<Rightarrow> commit_record option" where
  "sb_active_record sb = sb_slots sb ! sb_active sb"

subsection \<open>The superblock format\<close>

definition sb_put_slot :: "bytes \<Rightarrow> nat \<times> commit_record option \<Rightarrow> bytes" where
  "sb_put_slot buf islot =
    (case islot of (i, slot) \<Rightarrow>
      let off = 16 + i * 80 in
      case slot of None \<Rightarrow> buf
      | Some rec \<Rightarrow>
          let buf = blit off [1] buf;
              buf = blit (off + 1) (to_le_u64 (cr_generation rec)) buf;
              buf = blit (off + 9) (cr_root rec) buf
          in blit (off + 41) (cr_signature rec) buf)"

definition sb_bytes :: "superblock \<Rightarrow> bytes" where
  "sb_bytes sb =
    (let buf = replicate BLOCK_SIZE 0;
         buf = blit 0 JOURNAL_MAGIC buf;
         buf = blit 8 [word_of_nat (sb_active sb)] buf;
         buf = foldl sb_put_slot buf (enumerate 0 (sb_slots sb));
         csum = hash_of (slice 0 (16 + 2 * 80) buf)
     in blit (16 + 2 * 80) csum buf)"

definition sb_get_slot :: "bytes \<Rightarrow> nat \<Rightarrow> commit_record option" where
  "sb_get_slot buf i =
    (let off = 16 + i * 80 in
     if buf ! off = 1
     then Some \<lparr>cr_root = slice (off + 9) 32 buf,
                cr_generation = of_le_bytes (slice (off + 1) 8 buf),
                cr_signature = slice (off + 41) 32 buf\<rparr>
     else None)"

definition sb_parse :: "bytes \<Rightarrow> journal_error + superblock" where
  "sb_parse buf =
    (if slice 0 8 buf \<noteq> JOURNAL_MAGIC then Err JNotFormatted
     else
       let data_end = 16 + 2 * 80;
           expected_csum = hash_of (slice 0 data_end buf);
           stored_csum = slice data_end 32 buf
       in if expected_csum \<noteq> stored_csum then Err JNotFormatted
          else Ok \<lparr>sb_active = unat (buf ! 8) mod 2, sb_slots = map (sb_get_slot buf) [0, 1]\<rparr>)"

definition sb_write :: "'d block_ops \<Rightarrow> superblock \<Rightarrow> ('d, block_error, unit) io" where
  "sb_write ops sb = bd_write_block ops SUPERBLOCK (sb_bytes sb)"

definition sb_read :: "'d block_ops \<Rightarrow> ('d, journal_error, superblock) io" where
  "sb_read ops =
    io_bind (io_map_err JBlock (bd_read_block ops SUPERBLOCK BLOCK_SIZE)) (\<lambda>buf.
      (\<lambda>d. (sb_parse buf, d)))"

subsection \<open>Journal operations\<close>

definition journal_format :: "'d block_ops \<Rightarrow> bytes \<Rightarrow> ('d, block_error, unit) io" where
  "journal_format ops key = sb_write ops \<lparr>sb_active = 0, sb_slots = [None, None]\<rparr>"

definition journal_commit :: "'d block_ops \<Rightarrow> hash256 \<Rightarrow> bytes \<Rightarrow> ('d, journal_error, u64) io" where
  "journal_commit ops root key =
    io_bind (sb_read ops) (\<lambda>sb.
      let current_gen = (case sb_active_record sb of None \<Rightarrow> 0 | Some r \<Rightarrow> cr_generation r);
          next_gen = current_gen + 1;
          inactive = 1 - sb_active sb;
          sb1 = sb\<lparr>sb_slots := (sb_slots sb)[inactive := Some (cr_sign root next_gen key)]\<rparr>;
          sb2 = sb1\<lparr>sb_active := inactive\<rparr>
      in io_bind (io_map_err JBlock (sb_write ops sb1)) (\<lambda>_.
         io_bind (io_map_err JBlock (sb_write ops sb2)) (\<lambda>_.
         io_return next_gen)))"

definition journal_load :: "'d block_ops \<Rightarrow> bytes \<Rightarrow> ('d, journal_error, commit_record option) io" where
  "journal_load ops key =
    io_bind (sb_read ops) (\<lambda>sb.
      case sb_active_record sb of
        None \<Rightarrow> io_return None
      | Some r \<Rightarrow> if \<not> cr_verify r key then io_fail JRollback else io_return (Some r))"

definition journal_load_after ::
    "'d block_ops \<Rightarrow> bytes \<Rightarrow> u64 \<Rightarrow> ('d, journal_error, commit_record option) io" where
  "journal_load_after ops key last_trusted_gen =
    io_bind (journal_load ops key) (\<lambda>m.
      case m of
        None \<Rightarrow> io_return None
      | Some r \<Rightarrow> if cr_generation r \<le> last_trusted_gen then io_fail JRollback else io_return (Some r))"

subsection \<open>Reading back a superblock\<close>

definition record_wf :: "commit_record \<Rightarrow> bool" where
  "record_wf r \<longleftrightarrow> length (cr_root r) = 32 \<and> length (cr_signature r) = 32"

definition sb_wf :: "superblock \<Rightarrow> bool" where
  "sb_wf sb \<longleftrightarrow> sb_active sb < 2 \<and> length (sb_slots sb) = 2 \<and>
    (\<forall>r. Some r \<in> set (sb_slots sb) \<longrightarrow> record_wf r)"

lemma length_sign_root [simp]: "length (sign_root r g k) = 32"
  by (simp add: sign_root_def)

lemma record_wf_sign [simp]: "record_wf (cr_sign r g k) \<longleftrightarrow> length r = 32"
  by (simp add: record_wf_def cr_sign_def)

lemma cr_verify_sign [simp]: "cr_verify (cr_sign r g k) k"
  by (simp add: cr_verify_def cr_sign_def)

text \<open>The bytes of the superblock before the checksum, slot by slot.\<close>

definition slot_bytes :: "commit_record option \<Rightarrow> bytes" where
  "slot_bytes slot =
    (case slot of None \<Rightarrow> replicate 80 0
     | Some r \<Rightarrow> [1] @ to_le_u64 (cr_generation r) @ cr_root r @ cr_signature r @ replicate 7 0)"

lemma length_slot_bytes: "(\<forall>r. slot = Some r \<longrightarrow> record_wf r) \<Longrightarrow> length (slot_bytes slot) = 80"
  by (auto simp: slot_bytes_def record_wf_def split: option.splits)

lemma sb_put_slot_zeros:
  assumes "length pre = 16 + i * 80" and "\<forall>r. slot = Some r \<longrightarrow> record_wf r"
  shows "sb_put_slot (pre @ replicate 80 0 @ post) (i, slot) = pre @ slot_bytes slot @ post"
proof (cases slot)
  case None
  then show ?thesis by (simp add: sb_put_slot_def slot_bytes_def)
next
  case (Some r)
  let ?g = "to_le_u64 (cr_generation r)"
  have len: "length (cr_root r) = 32" "length (cr_signature r) = 32"
    using assms(2) Some by (auto simp: record_wf_def)
  have z: "replicate 80 0 = [0] @ replicate 8 0 @ replicate 32 0 @ replicate 32 0 @ (replicate 7 0 :: bytes)"
    by (simp add: replicate_add [symmetric] flip: replicate_Suc)
  have 1: "blit (16 + i * 80) [1] (pre @ [0] @ X) = pre @ [1] @ X" for X :: bytes
    using assms(1) by (rule blit_append_at) simp
  have 2: "blit (16 + i * 80 + 1) ?g ((pre @ [1]) @ replicate 8 0 @ X) = (pre @ [1]) @ ?g @ X" for X
    using assms(1) by (intro blit_append_at) simp_all
  have 3: "blit (16 + i * 80 + 9) (cr_root r) ((pre @ [1] @ ?g) @ replicate 32 0 @ X)
      = (pre @ [1] @ ?g) @ cr_root r @ X" for X
    using assms(1) len by (intro blit_append_at) simp_all
  have 4: "blit (16 + i * 80 + 41) (cr_signature r) ((pre @ [1] @ ?g @ cr_root r) @ replicate 32 0 @ X)
      = (pre @ [1] @ ?g @ cr_root r) @ cr_signature r @ X" for X
    using assms(1) len by (intro blit_append_at) simp_all
  show ?thesis
    using 1 2 3 4 unfolding sb_put_slot_def Some slot_bytes_def z Let_def
    by (simp only: append_assoc prod.case option.case)
qed

definition sb_body :: "superblock \<Rightarrow> bytes" where
  "sb_body sb =
    JOURNAL_MAGIC @ [word_of_nat (sb_active sb)] @ replicate 7 0
    @ slot_bytes (sb_slots sb ! 0) @ slot_bytes (sb_slots sb ! 1)"

lemma sb_wf_slots:
  assumes "sb_wf sb"
  obtains s0 s1 where "sb_slots sb = [s0, s1]" "\<forall>r. s0 = Some r \<longrightarrow> record_wf r" "\<forall>r. s1 = Some r \<longrightarrow> record_wf r"
proof -
  have "length (sb_slots sb) = Suc (Suc 0)" using assms by (simp add: sb_wf_def)
  then obtain s0 s1 where "sb_slots sb = [s0, s1]" by (auto simp: length_Suc_conv)
  then show ?thesis using assms that [of s0 s1] by (auto simp: sb_wf_def)
qed

lemma length_JOURNAL_MAGIC [simp]: "length JOURNAL_MAGIC = 8"
  by (simp add: JOURNAL_MAGIC_def)

lemma length_sb_body: "sb_wf sb \<Longrightarrow> length (sb_body sb) = 176"
  by (erule sb_wf_slots) (simp add: sb_body_def length_slot_bytes)

lemma sb_bytes_eq:
  assumes "sb_wf sb"
  shows "sb_bytes sb = sb_body sb @ hash_of (sb_body sb) @ replicate 304 0"
proof -
  obtain s0 s1 where s: "sb_slots sb = [s0, s1]" "\<forall>r. s0 = Some r \<longrightarrow> record_wf r" "\<forall>r. s1 = Some r \<longrightarrow> record_wf r"
    using assms by (rule sb_wf_slots)
  let ?a = "word_of_nat (sb_active sb) :: u8"
  have z: "replicate 512 0 = replicate 8 0 @ [0] @ replicate 7 0 @ replicate 80 0 @ replicate 80 0
      @ replicate 32 0 @ (replicate 304 0 :: bytes)"
    by (simp add: replicate_add [symmetric] flip: replicate_Suc)
  have 1: "blit 0 JOURNAL_MAGIC ([] @ replicate 8 0 @ X) = [] @ JOURNAL_MAGIC @ X" for X
    by (rule blit_append_at) simp_all
  have 2: "blit 8 [?a] (JOURNAL_MAGIC @ [0] @ X) = JOURNAL_MAGIC @ [?a] @ X" for X
    by (rule blit_append_at) simp_all
  have 3: "sb_put_slot ((JOURNAL_MAGIC @ [?a] @ replicate 7 0) @ replicate 80 0 @ X) (0, s0)
      = (JOURNAL_MAGIC @ [?a] @ replicate 7 0) @ slot_bytes s0 @ X" for X
    using s(2) by (intro sb_put_slot_zeros) simp_all
  have 4: "sb_put_slot ((JOURNAL_MAGIC @ [?a] @ replicate 7 0 @ slot_bytes s0) @ replicate 80 0 @ X) (1, s1)
      = (JOURNAL_MAGIC @ [?a] @ replicate 7 0 @ slot_bytes s0) @ slot_bytes s1 @ X" for X
    using s by (intro sb_put_slot_zeros) (simp_all add: length_slot_bytes)
  have body: "sb_body sb = JOURNAL_MAGIC @ [?a] @ replicate 7 0 @ slot_bytes s0 @ slot_bytes s1"
    by (simp add: sb_body_def s)
  have "foldl sb_put_slot (blit 8 [?a] (blit 0 JOURNAL_MAGIC (replicate 512 0))) (enumerate 0 (sb_slots sb))
      = sb_body sb @ replicate 32 0 @ replicate 304 0"
    using 1 2 3 4 unfolding z s body
    by (simp only: append_assoc append_Nil enumerate_simps foldl.simps One_nat_def [symmetric])
  moreover have "slice 0 176 (sb_body sb @ X) = sb_body sb" for X
    using length_sb_body [OF assms] by (simp add: slice_def)
  moreover have "blit 176 (hash_of (sb_body sb)) (sb_body sb @ replicate 32 0 @ replicate 304 0)
      = sb_body sb @ hash_of (sb_body sb) @ replicate 304 0"
    using length_sb_body [OF assms] by (intro blit_append_at) simp_all
  ultimately show ?thesis
    by (simp add: sb_bytes_def Let_def)
qed

lemma length_sb_bytes: "sb_wf sb \<Longrightarrow> length (sb_bytes sb) = BLOCK_SIZE"
  by (simp add: sb_bytes_eq length_sb_body)

lemma sb_get_slot_bytes:
  assumes "length pre = 16 + i * 80" and "\<forall>r. slot = Some r \<longrightarrow> record_wf r"
  shows "sb_get_slot (pre @ slot_bytes slot @ post) i = slot"
proof (cases slot)
  case None
  then show ?thesis using assms(1) by (simp add: sb_get_slot_def slot_bytes_def nth_append)
next
  case (Some r)
  let ?g = "to_le_u64 (cr_generation r)"
  have len: "length (cr_root r) = 32" "length (cr_signature r) = 32"
    using assms(2) Some by (auto simp: record_wf_def)
  have "slice (16 + i * 80 + 1) 8 ((pre @ [1]) @ ?g @ X) = ?g" for X
    using assms(1) by (simp add: slice_def)
  moreover have "slice (16 + i * 80 + 9) 32 ((pre @ [1] @ ?g) @ cr_root r @ X) = cr_root r" for X
    using assms(1) len by (simp add: slice_def)
  moreover have "slice (16 + i * 80 + 41) 32 ((pre @ [1] @ ?g @ cr_root r) @ cr_signature r @ X) = cr_signature r" for X
    using assms(1) len by (simp add: slice_def)
  moreover have "(pre @ [1] @ X) ! (16 + i * 80) = 1" for X
    using assms(1) by (simp add: nth_append)
  ultimately show ?thesis
    unfolding sb_get_slot_def Some slot_bytes_def Let_def
    by (cases r) (simp del: append_Cons add: append_assoc)
qed

lemma sb_parse_bytes:
  assumes "sb_wf sb"
  shows "sb_parse (sb_bytes sb) = Ok sb"
proof -
  obtain s0 s1 where s: "sb_slots sb = [s0, s1]" "\<forall>r. s0 = Some r \<longrightarrow> record_wf r" "\<forall>r. s1 = Some r \<longrightarrow> record_wf r"
    using assms by (rule sb_wf_slots)
  let ?a = "word_of_nat (sb_active sb) :: u8" and ?rest = "hash_of (sb_body sb) @ replicate 304 0"
  let ?p0 = "JOURNAL_MAGIC @ [?a] @ replicate 7 0"
  have body: "sb_body sb = ?p0 @ slot_bytes s0 @ slot_bytes s1"
    by (simp add: sb_body_def s)
  have len: "length (sb_body sb) = 176" using assms by (rule length_sb_body)
  have "slice 0 8 (sb_bytes sb) = JOURNAL_MAGIC"
    by (simp add: sb_bytes_eq [OF assms] body slice_def)
  moreover have "slice 0 176 (sb_bytes sb) = sb_body sb" "slice 176 32 (sb_bytes sb) = hash_of (sb_body sb)"
    using len by (simp_all add: sb_bytes_eq [OF assms] slice_def)
  moreover have "unat (sb_bytes sb ! 8) mod 2 = sb_active sb"
    using assms by (auto simp: sb_bytes_eq [OF assms] body nth_append sb_wf_def less_2_cases_iff)
  moreover have "sb_get_slot (sb_bytes sb) 0 = s0"
    using sb_get_slot_bytes [of ?p0 0 s0 "slot_bytes s1 @ ?rest"] s(2)
    by (simp add: sb_bytes_eq [OF assms] body)
  moreover have "sb_get_slot (sb_bytes sb) (Suc 0) = s1"
    using sb_get_slot_bytes [of "?p0 @ slot_bytes s0" 1 s1 ?rest] s(2,3)
    by (simp add: sb_bytes_eq [OF assms] body length_slot_bytes)
  ultimately have "sb_parse (sb_bytes sb) = Ok \<lparr>sb_active = sb_active sb, sb_slots = [s0, s1]\<rparr>"
    by (simp add: sb_parse_def Let_def)
  then show ?thesis using s(1) by simp
qed

lemma sb_parse_wf:
  assumes "sb_parse buf = Ok sb" "length buf = BLOCK_SIZE"
  shows "sb_wf sb"
  using assms by (auto simp: sb_parse_def sb_wf_def Let_def sb_get_slot_def record_wf_def split: if_splits)

subsection \<open>The commit protocol over any device\<close>

text \<open>
  What the journal promises: the disk holds one current record (or none yet), a commit that
  succeeds replaces it by the signed new root, and a commit that fails leaves it alone.
\<close>

definition journal_view :: "bytes list \<Rightarrow> journal_error + commit_record option" where
  "journal_view blocks = rbind (sb_parse (blocks ! 0)) (\<lambda>sb. Ok (sb_active_record sb))"

definition next_generation :: "commit_record option \<Rightarrow> u64" where
  "next_generation m = (case m of None \<Rightarrow> 0 | Some r \<Rightarrow> cr_generation r) + 1"

definition verified_view :: "bytes \<Rightarrow> bytes list \<Rightarrow> journal_error + commit_record option" where
  "verified_view key blocks =
    rbind (journal_view blocks) (\<lambda>m.
      case m of None \<Rightarrow> Ok None | Some r \<Rightarrow> if cr_verify r key then Ok (Some r) else Err JRollback)"

lemma sb_wf_set_slot:
  assumes "sb_wf sb" "length root = 32" "a < 2"
  shows "sb_wf \<lparr>sb_active = a, sb_slots = (sb_slots sb)[i := Some (cr_sign root g key)]\<rparr>"
  using assms by (auto simp: sb_wf_def dest: set_update_subset_insert [THEN subsetD])

lemma active_record_set_other:
  assumes "sb_wf sb"
  shows "sb_active_record (sb\<lparr>sb_slots := (sb_slots sb)[1 - sb_active sb := x]\<rparr>) = sb_active_record sb"
    and "sb_active_record \<lparr>sb_active = 1 - sb_active sb, sb_slots = (sb_slots sb)[1 - sb_active sb := x]\<rparr> = x"
proof -
  have "sb_active sb \<noteq> 1 - sb_active sb" "1 - sb_active sb < length (sb_slots sb)"
    using assms by (auto simp: sb_wf_def less_2_cases_iff)
  then show "sb_active_record (sb\<lparr>sb_slots := (sb_slots sb)[1 - sb_active sb := x]\<rparr>) = sb_active_record sb"
    "sb_active_record \<lparr>sb_active = 1 - sb_active sb, sb_slots = (sb_slots sb)[1 - sb_active sb := x]\<rparr> = x"
    by (simp_all add: sb_active_record_def)
qed

lemma journal_view_write:
  assumes "sb_wf sb" "blocks \<noteq> []"
  shows "journal_view (blocks[0 := sb_bytes sb]) = Ok (sb_active_record sb)"
  using assms by (simp add: journal_view_def sb_parse_bytes)

context atomic_device
begin

lemma sb_read_eq:
  assumes "inv d" "contents d \<noteq> []"
  shows "\<exists>d'. sb_read ops d = (sb_parse (contents d ! 0), d') \<and> inv d' \<and> contents d' = contents d"
  using read_law [OF assms(1), of SUPERBLOCK] assms(2)
  by (auto simp: sb_read_def SUPERBLOCK_def io_bind_def io_map_err_def)

lemma sb_write_law:
  assumes "inv d" "contents d \<noteq> []" "sb_wf sb"
  shows "\<exists>r d'. sb_write ops sb d = (r, d') \<and> inv d' \<and>
    contents d' = (case r of Inl _ \<Rightarrow> contents d | Inr _ \<Rightarrow> (contents d)[0 := sb_bytes sb])"
  using write_law [OF assms(1) _ length_sb_bytes [OF assms(3)], of 0] assms(2)
  by (simp add: sb_write_def SUPERBLOCK_def cong: sum.case_cong)

lemma load_eq_view:
  assumes "inv d" "contents d \<noteq> []"
  shows "\<exists>d'. journal_load ops key d = (verified_view key (contents d), d') \<and> inv d' \<and> contents d' = contents d"
  using sb_read_eq [OF assms]
  by (auto simp: journal_load_def verified_view_def journal_view_def io_bind_def io_return_def io_fail_def rbind_def
      split: sum.splits option.splits)

lemma commit_steps:
  assumes d: "inv d" "contents d \<noteq> []" and root: "length root = 32"
    and view: "journal_view (contents d) = Ok m"
  obtains sb1 sb2 d1 where "sb_wf sb1" "sb_wf sb2" "sb_active_record sb1 = m"
    "sb_active_record sb2 = Some (cr_sign root (next_generation m) key)" "inv d1" "contents d1 = contents d"
    "snd (sb_read ops d) = d1"
    "journal_commit ops root key d =
      io_bind (io_map_err JBlock (sb_write ops sb1)) (\<lambda>_. io_bind (io_map_err JBlock (sb_write ops sb2))
        (\<lambda>_. io_return (next_generation m))) d1"
proof -
  obtain sb where sb: "sb_parse (contents d ! 0) = Ok sb" and m: "m = sb_active_record sb"
    using view by (auto simp: journal_view_def rbind_def split: sum.splits)
  have wf: "sb_wf sb"
    using sb block_len [OF d(1), of "contents d ! 0"] d(2) by (intro sb_parse_wf) auto
  define rec where "rec = Some (cr_sign root (next_generation m) key)"
  define i where "i = 1 - sb_active sb"
  define sb1 where "sb1 = sb\<lparr>sb_slots := (sb_slots sb)[i := rec]\<rparr>"
  define sb2 where "sb2 = sb1\<lparr>sb_active := i\<rparr>"
  have eqs: "sb1 = \<lparr>sb_active = sb_active sb, sb_slots = (sb_slots sb)[i := rec]\<rparr>"
    "sb2 = \<lparr>sb_active = i, sb_slots = (sb_slots sb)[i := rec]\<rparr>"
    by (simp_all add: sb1_def sb2_def)
  have "sb_wf sb1" "sb_wf sb2"
    unfolding eqs rec_def using wf by (intro sb_wf_set_slot [OF wf root]; simp add: i_def sb_wf_def)+
  moreover have "sb_active_record sb1 = m" "sb_active_record sb2 = rec"
    using active_record_set_other [OF wf, of rec] unfolding sb1_def eqs(2) i_def m by simp_all
  moreover obtain d1 where d1: "sb_read ops d = (Ok sb, d1)" "inv d1" "contents d1 = contents d"
    using sb_read_eq [OF d] sb by auto
  moreover have "journal_commit ops root key d =
      io_bind (io_map_err JBlock (sb_write ops sb1)) (\<lambda>_. io_bind (io_map_err JBlock (sb_write ops sb2))
        (\<lambda>_. io_return (next_generation m))) d1"
    using d1(1) unfolding journal_commit_def Let_def sb1_def sb2_def i_def rec_def next_generation_def m
    by (simp add: io_bind_def)
  ultimately show ?thesis
    using that [of sb1 sb2 d1] by (simp add: rec_def d1(1))
qed

lemma commit_atomic:
  assumes d: "inv d" "contents d \<noteq> []" and root: "length root = 32"
    and view: "journal_view (contents d) = Ok m"
  shows "\<exists>r d'. journal_commit ops root key d = (r, d') \<and> inv d' \<and>
    length (contents d') = length (contents d) \<and> (\<forall>i > 0. contents d' ! i = contents d ! i) \<and>
    (r = Ok (next_generation m) \<and> journal_view (contents d') = Ok (Some (cr_sign root (next_generation m) key)) \<or>
     (\<exists>e. r = Err (JBlock e)) \<and> journal_view (contents d') = Ok m)"
proof -
  obtain sb1 sb2 d1 where s: "sb_wf sb1" "sb_wf sb2" "sb_active_record sb1 = m"
    "sb_active_record sb2 = Some (cr_sign root (next_generation m) key)" "inv d1" "contents d1 = contents d"
    "snd (sb_read ops d) = d1"
    and run: "journal_commit ops root key d =
      io_bind (io_map_err JBlock (sb_write ops sb1)) (\<lambda>_. io_bind (io_map_err JBlock (sb_write ops sb2))
        (\<lambda>_. io_return (next_generation m))) d1"
    using commit_steps [OF assms] .
  obtain r2 d2 where d2: "sb_write ops sb1 d1 = (r2, d2)" "inv d2"
      "contents d2 = (case r2 of Inl _ \<Rightarrow> contents d | Inr _ \<Rightarrow> (contents d)[0 := sb_bytes sb1])"
    using sb_write_law [OF s(5) _ s(1)] s(6) d(2) by (auto cong: sum.case_cong)
  then have ne: "contents d2 \<noteq> []" using d(2) by (auto split: sum.splits)
  obtain r3 d3 where d3: "sb_write ops sb2 d2 = (r3, d3)" "inv d3"
      "contents d3 = (case r3 of Inl _ \<Rightarrow> contents d2 | Inr _ \<Rightarrow> (contents d2)[0 := sb_bytes sb2])"
    using sb_write_law [OF d2(2) ne s(2)] by auto
  note v = journal_view_write [OF s(1) d(2)] journal_view_write [OF s(2) ne]
  show ?thesis
  proof (cases r2)
    case (Inl e)
    then show ?thesis using run d2 view by (auto simp: io_bind_def io_map_err_def)
  next
    case (Inr u)
    then show ?thesis
      using run d2 d3 v s by (cases r3) (auto simp: io_bind_def io_map_err_def io_return_def)
  qed
qed

end

context block_device
begin

lemma sb_write_ok:
  assumes "inv d" "contents d \<noteq> []" "sb_wf sb"
  shows "\<exists>d'. sb_write ops sb d = (Ok (), d') \<and> inv d' \<and> contents d' = (contents d)[0 := sb_bytes sb]"
  using write_block_ok [OF assms(1) _ length_sb_bytes [OF assms(3)], of SUPERBLOCK] assms(2)
  by (auto simp: sb_write_def SUPERBLOCK_def)

lemma format_ok:
  assumes "inv d" "contents d \<noteq> []"
  shows "\<exists>d'. journal_format ops key d = (Ok (), d') \<and> inv d' \<and> contents d' \<noteq> [] \<and>
    journal_view (contents d') = Ok None"
proof -
  let ?sb = "\<lparr>sb_active = 0, sb_slots = [None, None]\<rparr>"
  have wf: "sb_wf ?sb" by (simp add: sb_wf_def)
  show ?thesis
    using sb_write_ok [OF assms wf] journal_view_write [OF wf assms(2)] assms(2)
    by (auto simp: journal_format_def sb_active_record_def)
qed

lemma commit_ok:
  assumes d: "inv d" "contents d \<noteq> []" and root: "length root = 32"
    and view: "journal_view (contents d) = Ok m"
  shows "\<exists>d'. journal_commit ops root key d = (Ok (next_generation m), d') \<and> inv d' \<and> contents d' \<noteq> [] \<and>
    journal_view (contents d') = Ok (Some (cr_sign root (next_generation m) key))"
proof -
  obtain sb1 sb2 d1 where s: "sb_wf sb1" "sb_wf sb2" "sb_active_record sb1 = m"
    "sb_active_record sb2 = Some (cr_sign root (next_generation m) key)" "inv d1" "contents d1 = contents d"
    "snd (sb_read ops d) = d1"
    and run: "journal_commit ops root key d =
      io_bind (io_map_err JBlock (sb_write ops sb1)) (\<lambda>_. io_bind (io_map_err JBlock (sb_write ops sb2))
        (\<lambda>_. io_return (next_generation m))) d1"
    using commit_steps [OF assms] .
  obtain d2 where d2: "sb_write ops sb1 d1 = (Ok (), d2)" "inv d2" "contents d2 \<noteq> []"
    using sb_write_ok [OF s(5) _ s(1)] s(6) d(2) by auto
  obtain d3 where d3: "sb_write ops sb2 d2 = (Ok (), d3)"
    using sb_write_ok [OF d2(2,3) s(2)] by auto
  have "journal_commit ops root key d = (Ok (next_generation m), d3)"
    using run d2 d3 by (simp add: io_bind_def io_map_err_def io_return_def)
  then show ?thesis using commit_atomic [OF assms, of key] d(2) by auto
qed

end

subsection \<open>The journal on RamDisk and under power loss\<close>

text \<open>
  A history of commit attempts, each made through a \<^verbatim>\<open>FaultyDevice\<close> that loses power after
  the given number of block writes, with the disk taken back (\<^verbatim>\<open>into_inner\<close>) in between.
\<close>

definition commit_attempt :: "bytes \<Rightarrow> ram_disk \<Rightarrow> hash256 \<times> u64 \<Rightarrow> ram_disk" where
  "commit_attempt key disk = (\<lambda>(root, budget).
    fd_inner (snd (journal_commit (faulty_ops ram_ops) root key (fd_new disk budget))))"

text \<open>The attempt lands when the power holds for its two superblock writes.\<close>

fun landed :: "(hash256 \<times> u64) list \<Rightarrow> hash256 list" where
  "landed [] = []"
| "landed ((root, budget) # as) = (if 2 \<le> budget then [root] else []) @ landed as"

definition journal_spec :: "bytes \<Rightarrow> hash256 list \<Rightarrow> commit_record option" where
  "journal_spec key roots =
    (if roots = [] then None else Some (cr_sign (last roots) (word_of_nat (length roots)) key))"

lemma next_generation_spec: "next_generation (journal_spec key roots) = word_of_nat (Suc (length roots))"
  by (simp add: next_generation_def journal_spec_def cr_sign_def)

lemma faulty_write:
  assumes "rd_inv (fd_inner d)" "rd_blocks (fd_inner d) \<noteq> []" "sb_wf sb"
  shows "sb_write (faulty_ops ram_ops) sb d =
    (if fd_writes d \<ge> fd_fail_after d then (Err BlkOutOfRange, d)
     else (Ok (), d\<lparr>fd_writes := fd_writes d + 1,
                    fd_inner := \<lparr>rd_blocks = (rd_blocks (fd_inner d))[0 := sb_bytes sb]\<rparr>\<rparr>))"
  using assms length_sb_bytes [OF assms(3)]
  by (simp add: sb_write_def SUPERBLOCK_def faulty_ops_def fd_write_block_def ram_ops_def rd_write_block_def)

lemma faulty_read_keeps: "rd_inv (fd_inner d) \<Longrightarrow> snd (sb_read (faulty_ops ram_ops) d) = d"
  by (simp add: sb_read_def SUPERBLOCK_def faulty_ops_def fd_read_block_def ram_ops_def rd_read_block_def
      io_bind_def io_map_err_def)

lemma commit_attempt_view:
  assumes "rd_inv disk" "rd_blocks disk \<noteq> []" "length root = 32" "journal_view (rd_blocks disk) = Ok m"
  shows "rd_inv (commit_attempt key disk (root, budget))" "rd_blocks (commit_attempt key disk (root, budget)) \<noteq> []"
    "journal_view (rd_blocks (commit_attempt key disk (root, budget))) =
      Ok (if 2 \<le> budget then Some (cr_sign root (next_generation m) key) else m)"
proof -
  let ?d = "fd_new disk budget"
  have d: "rd_inv (fd_inner ?d)" "rd_blocks (fd_inner ?d) \<noteq> []" "journal_view (rd_blocks (fd_inner ?d)) = Ok m"
    using assms by (simp_all add: fd_new_def)
  obtain r d' where c: "journal_commit (faulty_ops ram_ops) root key ?d = (r, d')" "rd_inv (fd_inner d')"
      "length (rd_blocks (fd_inner d')) = length (rd_blocks disk)"
      "r = Ok (next_generation m) \<and> journal_view (rd_blocks (fd_inner d')) = Ok (Some (cr_sign root (next_generation m) key)) \<or>
       (\<exists>e. r = Err (JBlock e)) \<and> journal_view (rd_blocks (fd_inner d')) = Ok m"
    using faulty.commit_atomic [OF d(1,2) assms(3) d(3), of key] by (auto simp: fd_new_def)
  obtain sb1 sb2 d1 where s: "sb_wf sb1" "sb_wf sb2" "snd (sb_read (faulty_ops ram_ops) ?d) = d1"
    and run: "journal_commit (faulty_ops ram_ops) root key ?d =
      io_bind (io_map_err JBlock (sb_write (faulty_ops ram_ops) sb1)) (\<lambda>_.
        io_bind (io_map_err JBlock (sb_write (faulty_ops ram_ops) sb2)) (\<lambda>_. io_return (next_generation m))) d1"
    using faulty.commit_steps [OF d(1,2) assms(3) d(3), of key] by metis
  have d1: "d1 = ?d" using s(3) faulty_read_keeps d(1) by simp
  define d2 where "d2 = ?d\<lparr>fd_writes := 1, fd_inner := \<lparr>rd_blocks = (rd_blocks disk)[0 := sb_bytes sb1]\<rparr>\<rparr>"
  have d2_inv: "rd_inv (fd_inner d2)" "rd_blocks (fd_inner d2) \<noteq> []"
    using assms(1,2) length_sb_bytes [OF s(1)]
    by (auto simp: d2_def rd_inv_def dest: set_update_subset_insert [THEN subsetD])
  have w1: "sb_write (faulty_ops ram_ops) sb1 ?d = (if budget = 0 then (Err BlkOutOfRange, ?d) else (Ok (), d2))"
    using faulty_write [OF d(1,2) s(1)] by (simp add: d2_def fd_new_def)
  have w2: "fst (sb_write (faulty_ops ram_ops) sb2 d2) = (if budget \<le> 1 then Err BlkOutOfRange else Ok ())"
    using faulty_write [OF d2_inv s(2)] by (simp add: d2_def fd_new_def)
  have split: "2 \<le> budget \<longleftrightarrow> budget \<noteq> 0 \<and> \<not> budget \<le> 1" for budget :: u64
    by (auto simp: word_le_nat_alt unat_eq_0 [symmetric] simp del: unat_eq_0)
  have "isl r \<longleftrightarrow> \<not> 2 \<le> budget"
    using c(1) run w1 w2 unfolding d1 split
    by (auto simp: io_bind_def io_map_err_def io_return_def split: if_splits prod.splits sum.splits)
  with c assms(2) show "rd_inv (commit_attempt key disk (root, budget))" "rd_blocks (commit_attempt key disk (root, budget)) \<noteq> []"
    "journal_view (rd_blocks (commit_attempt key disk (root, budget))) =
      Ok (if 2 \<le> budget then Some (cr_sign root (next_generation m) key) else m)"
    by (auto simp: commit_attempt_def)
qed

lemma commit_history_view:
  assumes "rd_inv disk" "rd_blocks disk \<noteq> []" "journal_view (rd_blocks disk) = Ok (journal_spec key roots)"
    and "\<forall>(root, budget) \<in> set as. length root = 32"
  shows "rd_inv (foldl (commit_attempt key) disk as) \<and> rd_blocks (foldl (commit_attempt key) disk as) \<noteq> [] \<and>
    journal_view (rd_blocks (foldl (commit_attempt key) disk as)) = Ok (journal_spec key (roots @ landed as))"
  using assms
proof (induction as arbitrary: disk roots)
  case Nil
  then show ?case by simp
next
  case (Cons a as)
  obtain root budget where a: "a = (root, budget)" by (cases a)
  have root: "length root = 32" using Cons.prems(4) a by auto
  let ?roots = "roots @ (if 2 \<le> budget then [root] else [])"
  have "Some (cr_sign root (word_of_nat (Suc (length roots))) key) = journal_spec key (roots @ [root])"
    by (simp add: journal_spec_def)
  then have "journal_view (rd_blocks (commit_attempt key disk a)) = Ok (journal_spec key ?roots)"
    using commit_attempt_view(3) [OF Cons.prems(1,2) root Cons.prems(3), of key budget]
    by (simp add: a next_generation_spec)
  then show ?case
    using Cons.IH [of "commit_attempt key disk a" ?roots] Cons.prems(4)
      commit_attempt_view(1,2) [OF Cons.prems(1,2) root Cons.prems(3), of key budget]
    by (simp add: a)
qed

lemma verified_view_spec:
  "journal_view blocks = Ok (journal_spec key roots) \<Longrightarrow> verified_view key blocks = Ok (journal_spec key roots)"
  by (simp add: verified_view_def rbind_def journal_spec_def)

lemma sign_input_inject:
  assumes "ascii ''root:'' @ key @ to_le_u64 g @ r = ascii ''root:'' @ key' @ to_le_u64 g' @ r'"
    and "length r = length r'"
  shows "key = key' \<and> g = g' \<and> r = r'"
proof -
  have "(key @ to_le_u64 g) @ r = (key' @ to_le_u64 g') @ r'"
    using assms(1) by simp
  with assms(2) have "key @ to_le_u64 g = key' @ to_le_u64 g' \<and> r = r'"
    by (metis append_eq_append_conv)
  moreover from this have "key = key'" "to_le_u64 g = to_le_u64 g'"
    by simp_all
  ultimately show ?thesis by (metis of_le_bytes_u64)
qed

subsection \<open>Properties\<close>

lemma format_ram:
  assumes "rd_inv d" "rd_blocks d \<noteq> []"
  obtains d' where "journal_format ram_ops key d = (Ok (), d')" "rd_inv d'" "rd_blocks d' \<noteq> []"
    "journal_view (rd_blocks d') = Ok (journal_spec key [])"
  using ram.format_ok [OF assms, of key] by (auto simp: journal_spec_def)

text \<open>
  C3: Crash consistency.  Format a disk and attempt any number of commits, each through a
  device that loses power after an arbitrary number of block writes.  Afterwards the journal
  loads without error and returns exactly the last root whose two superblock writes both
  landed, signed, with the number of landed commits as its generation: never a torn state,
  never an older root.
\<close>

theorem journal_survives_power_loss:
  assumes "rd_inv d" "rd_blocks d \<noteq> []" "\<forall>(root, budget) \<in> set attempts. length root = 32"
  shows "\<exists>d'. journal_format ram_ops key d = (Ok (), d') \<and>
    fst (journal_load ram_ops key (foldl (commit_attempt key) d' attempts)) =
      Ok (if landed attempts = [] then None
          else Some (cr_sign (last (landed attempts)) (word_of_nat (length (landed attempts))) key))"
proof -
  obtain d' where d': "journal_format ram_ops key d = (Ok (), d')" "rd_inv d'" "rd_blocks d' \<noteq> []"
      "journal_view (rd_blocks d') = Ok (journal_spec key [])"
    using assms(1,2) by (rule format_ram)
  let ?e = "foldl (commit_attempt key) d' attempts"
  have e: "rd_inv ?e" "rd_blocks ?e \<noteq> []" "journal_view (rd_blocks ?e) = Ok (journal_spec key (landed attempts))"
    using commit_history_view [OF d'(2-4) assms(3)] by simp_all
  have "fst (journal_load ram_ops key ?e) = Ok (journal_spec key (landed attempts))"
    using ram.load_eq_view [OF e(1,2), of key] verified_view_spec [OF e(3)] by auto
  then show ?thesis
    using d'(1) unfolding journal_spec_def by blast
qed

theorem journal_survives_power_loss_witness:
  "\<exists>d'. journal_format ram_ops [9] (rd_new 4) = (Ok (), d') \<and>
    fst (journal_load ram_ops [9] (foldl (commit_attempt [9]) d'
      [(replicate 32 1, 2), (replicate 32 2, 1), (replicate 32 3, 5), (replicate 32 4, 0)])) =
      Ok (Some (cr_sign (replicate 32 3) 2 [9]))"
proof -
  let ?as = "[(replicate 32 1, 2), (replicate 32 2, 1), (replicate 32 3, 5), (replicate 32 4, 0)] :: (hash256 \<times> u64) list"
  have "\<not> (2 :: u64) \<le> 1"
    by (simp add: word_le_nat_alt)
  then have "landed ?as = [replicate 32 1, replicate 32 3]"
    by simp
  moreover have "rd_inv (rd_new 4)" "rd_blocks (rd_new 4) \<noteq> []"
    by (simp_all add: rd_inv_new) (simp add: rd_new_def)
  ultimately show ?thesis
    using journal_survives_power_loss [of "rd_new 4" ?as "[9]"] by simp
qed

text \<open>
  Anti-rollback and authenticity of loading, on any disk contents: \<^verbatim>\<open>load_after\<close> returns
  a record only if it is the active record of a superblock with the right magic and checksum,
  carries a valid signature under the key, and is strictly newer than the trusted generation;
  every other state is reported as an error (or as no commit yet), and nothing is written.
\<close>

theorem journal_load_after_exact:
  assumes "rd_inv d" "rd_blocks d \<noteq> []"
  shows "journal_load_after ram_ops key trusted d =
    (case sb_parse (rd_blocks d ! 0) of
       Inl e \<Rightarrow> Err e
     | Inr sb \<Rightarrow> (case sb_active_record sb of
         None \<Rightarrow> Ok None
       | Some r \<Rightarrow> if cr_signature r = sign_root (cr_root r) (cr_generation r) key \<and> trusted < cr_generation r
                   then Ok (Some r) else Err JRollback), d)"
proof -
  have "bd_read_block ram_ops SUPERBLOCK BLOCK_SIZE d = (Ok (rd_blocks d ! 0), d)"
    using assms(2) by (simp add: ram_ops_def rd_read_block_def SUPERBLOCK_def)
  then have "sb_read ram_ops d = (sb_parse (rd_blocks d ! 0), d)"
    by (simp add: sb_read_def io_bind_def io_map_err_def)
  then show ?thesis
    by (auto simp: journal_load_after_def journal_load_def io_bind_def io_return_def io_fail_def cr_verify_def
        split: sum.splits option.splits)
qed

theorem journal_load_after_exact_witness:
  "\<exists>d. fst (journal_load_after ram_ops [9] 0 d) = Ok (Some (cr_sign (replicate 32 1) 1 [9])) \<and>
    fst (journal_load_after ram_ops [9] 1 d) = Err JRollback"
proof -
  have "rd_inv (rd_new 4)" "rd_blocks (rd_new 4) \<noteq> []"
    by (simp_all add: rd_inv_new) (simp add: rd_new_def)
  then obtain d1 where d1: "rd_inv d1" "rd_blocks d1 \<noteq> []" "journal_view (rd_blocks d1) = Ok None"
    using ram.format_ok by blast
  obtain d where d: "rd_inv d" "rd_blocks d \<noteq> []"
      "journal_view (rd_blocks d) = Ok (Some (cr_sign (replicate 32 1) 1 [9]))"
    using ram.commit_ok [OF d1(1,2) _ d1(3), of "replicate 32 1" "[9]"]
    by (auto simp: next_generation_def)
  then obtain sb where "sb_parse (rd_blocks d ! 0) = Ok sb"
      "sb_active_record sb = Some (cr_sign (replicate 32 1) 1 [9])"
    by (auto simp: journal_view_def rbind_def split: sum.splits)
  then show ?thesis
    using journal_load_after_exact [OF d(1,2), of "[9]"] by (auto simp: cr_sign_def intro!: exI [of _ d])
qed

text \<open>
  A record signed under one key is accepted under a second key only if it is the same
  key; and a signature is not valid for a different root or generation, provided the hash does
  not collide on the two signing inputs.
\<close>

theorem root_signature_binding:
  assumes "length (cr_root r) = length root"
    and "inj_on hash_of {ascii ''root:'' @ key @ to_le_u64 g @ root,
                         ascii ''root:'' @ key' @ to_le_u64 (cr_generation r) @ cr_root r}"
    and "cr_signature r = cr_signature (cr_sign root g key)"
  shows "cr_verify r key' \<longleftrightarrow> key' = key \<and> cr_generation r = g \<and> cr_root r = root"
proof
  let ?a = "ascii ''root:'' @ key @ to_le_u64 g @ root"
  let ?b = "ascii ''root:'' @ key' @ to_le_u64 (cr_generation r) @ cr_root r"
  assume "cr_verify r key'"
  with assms(3) have eq: "hash_of ?a = hash_of ?b"
    by (simp add: cr_verify_def cr_sign_def sign_root_def)
  have "?a = ?b"
    by (rule inj_on_pairD [where f = hash_of, OF assms(2) eq])
  then show "key' = key \<and> cr_generation r = g \<and> cr_root r = root"
    using sign_input_inject [OF _ assms(1) [symmetric]] by blast
next
  assume "key' = key \<and> cr_generation r = g \<and> cr_root r = root"
  then show "cr_verify r key'"
    using assms(3) by (simp add: cr_verify_def cr_sign_def)
qed

end
