(* ===== verification/Hash_Chain.thy ===== *)
theory Hash_Chain
  imports Content_Hash
begin

text \<open>
  Hash-chained ledgers: each entry is stored with the hash of the previous link and its own
  bytes.  The firewall's provenance ledger and the airlock's transfer ledger are two of them;
  what an intact chain guarantees is proved once here.
\<close>

fun chain_intact :: "('e \<Rightarrow> bytes) \<Rightarrow> hash256 \<Rightarrow> ('e \<times> hash256) list \<Rightarrow> bool" where
  "chain_intact body prev [] = True"
| "chain_intact body prev ((e, h) # xs) \<longleftrightarrow> hash_of (prev @ body e) = h \<and> chain_intact body h xs"

fun chain_head :: "hash256 \<Rightarrow> ('e \<times> hash256) list \<Rightarrow> hash256" where
  "chain_head prev [] = prev"
| "chain_head prev ((e, h) # xs) = chain_head h xs"

text \<open>The inputs that the hashes of a chain were computed on.\<close>

fun chain_inputs :: "('e \<Rightarrow> bytes) \<Rightarrow> hash256 \<Rightarrow> ('e \<times> hash256) list \<Rightarrow> bytes set" where
  "chain_inputs body prev [] = {}"
| "chain_inputs body prev ((e, h) # xs) = insert (prev @ body e) (chain_inputs body h xs)"

lemma chain_head_append [simp]: "chain_head prev (xs @ [(e, h)]) = h"
  by (induction prev xs rule: chain_head.induct) simp_all

lemma chain_head_last: "xs \<noteq> [] \<Longrightarrow> chain_head prev xs = snd (last xs)"
  by (induction prev xs rule: chain_head.induct) auto

lemma chain_intact_append:
  "chain_intact body prev (xs @ [(e, h)]) \<longleftrightarrow>
    chain_intact body prev xs \<and> h = hash_of (chain_head prev xs @ body e)"
  by (induction body prev xs rule: chain_intact.induct) auto

lemma chain_head_intact_length:
  "chain_intact body prev xs \<Longrightarrow> length prev = 32 \<Longrightarrow> length (chain_head prev xs) = 32"
  by (induction body prev xs rule: chain_intact.induct) auto

lemma chain_inputs_append [simp]:
  "chain_inputs body prev (xs @ [(e, h)]) = insert (chain_head prev xs @ body e) (chain_inputs body prev xs)"
  by (induction body prev xs rule: chain_inputs.induct) auto

lemma finite_chain_inputs [simp]: "finite (chain_inputs body prev xs)"
  by (induction body prev xs rule: chain_inputs.induct) auto

locale hash_ledger =
  fixes body :: "'e \<Rightarrow> bytes" and A :: "'e set" and genesis :: bytes
  assumes body_inject: "inj_on body A" and genesis_short: "length genesis < 32"
begin

text \<open>A ledger that keeps its chain stays intact when an entry is appended with its link.\<close>

lemma chain_extend:
  "chain_intact body (hash_of genesis) xs \<Longrightarrow>
   chain_intact body (hash_of genesis) (xs @ [(e, hash_of (chain_head (hash_of genesis) xs @ body e))])"
  by (simp add: chain_intact_append)

lemma genesis_not_link:
  assumes "chain_intact body (hash_of genesis) xs"
    and "hash_of genesis = hash_of (chain_head (hash_of genesis) xs @ body e)"
    and "inj_on hash_of S" "genesis \<in> S" "chain_head (hash_of genesis) xs @ body e \<in> S"
  shows False
proof -
  have "genesis = chain_head (hash_of genesis) xs @ body e"
    by (rule inj_onD [OF assms(3,2,4,5)])
  then have "length genesis = 32 + length (body e)"
    using chain_head_intact_length [OF assms(1)] by (metis length_append length_hash_of)
  then show False using genesis_short by simp
qed

text \<open>The last link determines the whole ledger.\<close>

lemma ledger_determined:
  assumes "chain_intact body (hash_of genesis) xs" "chain_intact body (hash_of genesis) ys"
    and "fst ` set xs \<subseteq> A" "fst ` set ys \<subseteq> A"
    and "inj_on hash_of (insert genesis (chain_inputs body (hash_of genesis) xs \<union>
                                         chain_inputs body (hash_of genesis) ys))"
    and "chain_head (hash_of genesis) xs = chain_head (hash_of genesis) ys"
  shows "xs = ys"
  using assms
proof (induction xs arbitrary: ys rule: rev_induct)
  case Nil
  show ?case
  proof (cases ys rule: rev_cases)
    case (snoc ys' y)
    obtain e h where "y = (e, h)" by (cases y)
    with Nil snoc have "chain_intact body (hash_of genesis) ys'"
      "hash_of genesis = hash_of (chain_head (hash_of genesis) ys' @ body e)"
      by (simp_all add: chain_intact_append)
    then have False
      by (rule genesis_not_link [OF _ _ Nil.prems(5)]) (simp_all add: snoc \<open>y = _\<close>)
    then show ?thesis ..
  qed simp
next
  case (snoc x xs)
  obtain e h where x: "x = (e, h)" by (cases x)
  show ?case
  proof (cases ys rule: rev_cases)
    case Nil
    with snoc.prems(1,6) x have "chain_intact body (hash_of genesis) xs"
      "hash_of genesis = hash_of (chain_head (hash_of genesis) xs @ body e)"
      by (simp_all add: chain_intact_append)
    then have False
      by (rule genesis_not_link [OF _ _ snoc.prems(5)]) (simp_all add: x)
    then show ?thesis ..
  next
    case ys: (snoc ys' y)
    obtain e' h' where y: "y = (e', h')" by (cases y)
    let ?head = "chain_head (hash_of genesis)"
    have intact: "chain_intact body (hash_of genesis) xs" "chain_intact body (hash_of genesis) ys'"
      using snoc.prems(1,2) by (simp_all add: chain_intact_append x y ys)
    have h: "h = h'" using snoc.prems(6) by (simp add: x y ys)
    then have "hash_of (?head xs @ body e) = hash_of (?head ys' @ body e')"
      using snoc.prems(1,2) by (simp add: chain_intact_append x y ys)
    then have "?head xs @ body e = ?head ys' @ body e'"
      by (rule inj_onD [OF snoc.prems(5)]) (simp_all add: x y ys)
    moreover have "length (?head xs) = length (?head ys')"
      using intact by (simp add: chain_head_intact_length)
    ultimately have eq: "?head xs = ?head ys'" "body e = body e'" by simp_all
    have "e = e'"
      using inj_onD [OF body_inject eq(2)] snoc.prems(3,4) by (simp add: x y ys)
    moreover have "xs = ys'"
      by (rule snoc.IH [OF intact _ _ _ eq(1)])
        (use snoc.prems(3-5) in \<open>auto simp: x y ys elim!: inj_on_subset\<close>)
    ultimately show ?thesis by (simp add: x y ys h)
  qed
qed

end

end
