(* ===== verification/Capability_Firewall.thy ===== *)
theory Capability_Firewall
  imports Ordered_Map Hash_Chain
begin

text \<open>
  The capability firewall, \<^verbatim>\<open>dominion-core/src/firewall.rs\<close>: the authority graph with domain
  segmentation, breadth-first reachability, recursive revocation, quarantine, quotas, the
  diffusion metrics and the hash-chained provenance ledger.  A \<^verbatim>\<open>BTreeSet\<close> is a set: only
  membership and size are used.
\<close>

type_synonym node_id = u64

datatype fw_domain =
    System | Personal | Financial | Medical | Infrastructure | Development | AiAgent | ExternalNetwork

datatype fw_error = NoSuchNode | CrossDomainDenied | RateLimited

record firewall =
  fw_domain :: "(node_id, fw_domain) btree"
  fw_edges :: "(node_id \<times> node_id) list"
  fw_revoked :: "node_id set"
  fw_quarantined :: "node_id set"
  fw_allow_cross :: "(fw_domain \<times> fw_domain) set"
  fw_quota :: "(node_id, u32) btree"

definition fw_new :: firewall where
  "fw_new = \<lparr>fw_domain = [], fw_edges = [], fw_revoked = {}, fw_quarantined = {}, fw_allow_cross = {},
             fw_quota = []\<rparr>"

definition fw_register :: "node_id \<Rightarrow> fw_domain \<Rightarrow> firewall \<Rightarrow> firewall" where
  "fw_register n d f = f\<lparr>fw_domain := bt_insert n d (fw_domain f)\<rparr>"

definition domain_of :: "firewall \<Rightarrow> node_id \<Rightarrow> fw_domain option" where
  "domain_of f n = bt_get (fw_domain f) n"

definition authorize_cross :: "fw_domain \<Rightarrow> fw_domain \<Rightarrow> firewall \<Rightarrow> firewall" where
  "authorize_cross from to f = f\<lparr>fw_allow_cross := insert (from, to) (fw_allow_cross f)\<rparr>"

definition fw_delegate :: "node_id \<Rightarrow> node_id \<Rightarrow> firewall \<Rightarrow> (fw_error + unit) \<times> firewall" where
  "fw_delegate from to f =
    (case domain_of f from of
       None \<Rightarrow> (Err NoSuchNode, f)
     | Some df \<Rightarrow>
        (case domain_of f to of
           None \<Rightarrow> (Err NoSuchNode, f)
         | Some dt \<Rightarrow>
             if df \<noteq> dt \<and> (df, dt) \<notin> fw_allow_cross f then (Err CrossDomainDenied, f)
             else (Ok (), f\<lparr>fw_edges := fw_edges f @ [(from, to)]\<rparr>)))"

definition traversable :: "firewall \<Rightarrow> node_id \<Rightarrow> bool" where
  "traversable f n \<longleftrightarrow> n \<notin> fw_revoked f \<and> n \<notin> fw_quarantined f"

text \<open>The domain rule as it is re-checked at traversal time.\<close>

definition domain_legal :: "firewall \<Rightarrow> node_id \<Rightarrow> node_id \<Rightarrow> bool" where
  "domain_legal f a b =
    (case (domain_of f a, domain_of f b) of
       (Some da, Some db) \<Rightarrow> \<not> (da \<noteq> db \<and> (da, db) \<notin> fw_allow_cross f)
     | _ \<Rightarrow> True)"

subsection \<open>The breadth-first loops\<close>

text \<open>
  One pass over the edges for the node \<open>n\<close> that was popped: unseen targets that pass the
  test are marked and enqueued.  The two searches of the source differ in the test only.
\<close>

definition bfs_edge :: "(node_id \<Rightarrow> node_id \<Rightarrow> bool) \<Rightarrow> node_id \<Rightarrow> node_id set \<times> node_id list \<Rightarrow>
    node_id \<times> node_id \<Rightarrow> node_id set \<times> node_id list" where
  "bfs_edge ok n st e =
    (case st of (seen, queue) \<Rightarrow> case e of (a, b) \<Rightarrow>
      if a \<noteq> n \<or> b \<in> seen \<or> \<not> ok a b then (seen, queue)
      else (insert b seen, queue @ [b]))"

lemma bfs_edge_simp:
  "bfs_edge ok n (seen, queue) (a, b) =
    (if a \<noteq> n \<or> b \<in> seen \<or> \<not> ok a b then (seen, queue) else (insert b seen, queue @ [b]))"
  by (simp add: bfs_edge_def)

definition bfs_scan :: "(node_id \<Rightarrow> node_id \<Rightarrow> bool) \<Rightarrow> (node_id \<times> node_id) list \<Rightarrow> node_id \<Rightarrow>
    node_id set \<times> node_id list \<Rightarrow> node_id set \<times> node_id list" where
  "bfs_scan ok edges n st = foldl (bfs_edge ok n) st edges"

definition unseen :: "(node_id \<times> node_id) list \<Rightarrow> node_id set \<Rightarrow> node_id set" where
  "unseen edges seen = snd ` set edges - seen"

lemma bfs_edge_measure:
  assumes "e \<in> set edges"
  shows "card (unseen edges (fst (bfs_edge ok n st e))) + length (snd (bfs_edge ok n st e)) =
    card (unseen edges (fst st)) + length (snd st)"
proof -
  obtain seen queue a b where s: "st = (seen, queue)" "e = (a, b)" by (cases st; cases e)
  have "card (unseen edges (insert b seen)) + 1 = card (unseen edges seen)" if "b \<notin> seen"
  proof -
    have "b \<in> unseen edges seen" using that assms s by (force simp: unseen_def)
    moreover have "unseen edges (insert b seen) = unseen edges seen - {b}" by (auto simp: unseen_def)
    moreover have "finite (unseen edges seen)" by (simp add: unseen_def)
    ultimately show ?thesis by (metis Suc_eq_plus1 card.remove)
  qed
  then show ?thesis by (auto simp: bfs_edge_def s)
qed

lemma bfs_scan_measure:
  "card (unseen edges (fst (bfs_scan ok edges n st))) + length (snd (bfs_scan ok edges n st)) =
    card (unseen edges (fst st)) + length (snd st)"
proof -
  have "set es \<subseteq> set edges \<Longrightarrow>
      card (unseen edges (fst (foldl (bfs_edge ok n) st es))) + length (snd (foldl (bfs_edge ok n) st es)) =
      card (unseen edges (fst st)) + length (snd st)" for es
    by (induction es arbitrary: st) (simp_all add: bfs_edge_measure)
  then show ?thesis by (simp add: bfs_scan_def)
qed

function bfs_loop :: "(node_id \<Rightarrow> node_id \<Rightarrow> bool) \<Rightarrow> (node_id \<times> node_id) list \<Rightarrow>
    node_id set \<Rightarrow> node_id list \<Rightarrow> node_id set" where
  "bfs_loop ok edges seen [] = seen"
| "bfs_loop ok edges seen (n # queue) =
    (case bfs_scan ok edges n (seen, queue) of (seen', queue') \<Rightarrow> bfs_loop ok edges seen' queue')"
  by pat_completeness auto

termination
proof (relation "measure (\<lambda>(ok, edges, seen, queue). card (unseen edges seen) + length queue)")
  fix ok edges seen n queue seen' queue'
  assume "(seen', queue') = bfs_scan ok edges n (seen, queue)"
  then have "fst (bfs_scan ok edges n (seen, queue)) = seen'" "snd (bfs_scan ok edges n (seen, queue)) = queue'"
    by (metis fst_conv, metis snd_conv)
  then show "((ok, edges, seen', queue'), ok, edges, seen, n # queue)
      \<in> measure (\<lambda>(ok, edges, seen, queue). card (unseen edges seen) + length queue)"
    using bfs_scan_measure [of edges ok n "(seen, queue)"] by simp
qed simp

definition bfs_start :: "firewall \<Rightarrow> node_id \<Rightarrow> node_id set \<times> node_id list" where
  "bfs_start f from = (if traversable f from then ({from}, [from]) else ({}, []))"

definition bfs_reachable :: "firewall \<Rightarrow> node_id \<Rightarrow> node_id set" where
  "bfs_reachable f from =
    (case bfs_start f from of (seen, queue) \<Rightarrow>
      bfs_loop (\<lambda>a b. traversable f b \<and> domain_legal f a b) (fw_edges f) seen queue)"

definition reachable :: "firewall \<Rightarrow> node_id \<Rightarrow> node_id \<Rightarrow> bool" where
  "reachable f from to \<longleftrightarrow>
    (if \<not> traversable f from \<or> \<not> traversable f to then False else to \<in> bfs_reachable f from)"

definition diffusion :: "firewall \<Rightarrow> node_id \<Rightarrow> nat" where
  "diffusion f from =
    (case bfs_start f from of (seen, queue) \<Rightarrow>
      card (bfs_loop (\<lambda>a b. traversable f b) (fw_edges f) seen queue) - 1)"

definition domains_reached :: "firewall \<Rightarrow> node_id \<Rightarrow> nat" where
  "domains_reached f from = card (Option.these (domain_of f ` bfs_reachable f from))"

definition detect_escalation :: "firewall \<Rightarrow> nat \<Rightarrow> nat \<Rightarrow> node_id list" where
  "detect_escalation f max_diffusion max_domains =
    sort (filter (\<lambda>n. diffusion f n > max_diffusion \<or> domains_reached f n > max_domains)
      (filter (traversable f) (map fst (fw_domain f))))"

subsection \<open>Revocation, quarantine and quotas\<close>

definition derived_from :: "(node_id \<times> node_id) list \<Rightarrow> node_id set \<Rightarrow> node_id \<Rightarrow> node_id list" where
  "derived_from edges revoked n = map snd (filter (\<lambda>(a, b). a = n \<and> b \<notin> revoked) edges)"

lemma set_derived_from: "set (derived_from edges revoked n) = {b. (n, b) \<in> set edges \<and> b \<notin> revoked}"
  by (force simp: derived_from_def)

abbreviation pending :: "(node_id \<times> node_id) list \<Rightarrow> node_id set \<Rightarrow> node_id list \<Rightarrow> node_id set" where
  "pending edges revoked queue \<equiv> (set queue \<union> snd ` set edges) - revoked"

lemma revoke_step_measure:
  assumes "n \<notin> revoked"
  shows "card (pending edges (insert n revoked) (queue @ derived_from edges (insert n revoked) n))
    < card (pending edges revoked (n # queue))"
  using assms by (intro psubset_card_mono) (force simp: set_derived_from)+

lemma revoke_skip_measure:
  "n \<in> revoked \<Longrightarrow> pending edges revoked (n # queue) = pending edges revoked queue"
  by auto

function revoke_loop :: "(node_id \<times> node_id) list \<Rightarrow> node_id set \<Rightarrow> node_id list \<Rightarrow> node_id set" where
  "revoke_loop edges revoked [] = revoked"
| "revoke_loop edges revoked (n # queue) =
    (if n \<in> revoked then revoke_loop edges revoked queue
     else revoke_loop edges (insert n revoked) (queue @ derived_from edges (insert n revoked) n))"
  by pat_completeness auto

termination
  by (relation "measures [\<lambda>(edges, revoked, queue). card (pending edges revoked queue),
        \<lambda>(edges, revoked, queue). length queue]")
    (simp_all only: wf_measures in_measures prod.case revoke_skip_measure revoke_step_measure list.size
      simp_thms lessI add_Suc_right add_0_right)

definition fw_revoke :: "node_id \<Rightarrow> firewall \<Rightarrow> firewall" where
  "fw_revoke n f = f\<lparr>fw_revoked := revoke_loop (fw_edges f) (fw_revoked f) [n]\<rparr>"

definition fw_is_revoked :: "firewall \<Rightarrow> node_id \<Rightarrow> bool" where
  "fw_is_revoked f n \<longleftrightarrow> n \<in> fw_revoked f"

definition fw_quarantine :: "node_id \<Rightarrow> firewall \<Rightarrow> firewall" where
  "fw_quarantine n f = f\<lparr>fw_quarantined := insert n (fw_quarantined f)\<rparr>"

definition fw_set_quota :: "node_id \<Rightarrow> u32 \<Rightarrow> firewall \<Rightarrow> firewall" where
  "fw_set_quota n ops f = f\<lparr>fw_quota := bt_insert n ops (fw_quota f)\<rparr>"

definition fw_consume :: "node_id \<Rightarrow> firewall \<Rightarrow> (fw_error + unit) \<times> firewall" where
  "fw_consume n f =
    (case bt_get (fw_quota f) n of
       Some q \<Rightarrow> if q > 0 then (Ok (), f\<lparr>fw_quota := bt_insert n (q - 1) (fw_quota f)\<rparr>)
                 else (Err RateLimited, f)
     | None \<Rightarrow> (Ok (), f))"

subsection \<open>What the searches compute\<close>

definition edge_rel :: "(node_id \<Rightarrow> node_id \<Rightarrow> bool) \<Rightarrow> (node_id \<times> node_id) list \<Rightarrow> (node_id \<times> node_id) set" where
  "edge_rel ok edges = {(a, b). (a, b) \<in> set edges \<and> ok a b}"

lemma bfs_scan_result:
  "fst (bfs_scan ok edges n (seen, queue)) = seen \<union> edge_rel ok edges `` {n} \<and>
   (\<exists>new. snd (bfs_scan ok edges n (seen, queue)) = queue @ new \<and>
          set new = edge_rel ok edges `` {n} - seen)"
proof -
  have "\<exists>new. foldl (bfs_edge ok n) (seen, queue) es = (seen \<union> edge_rel ok es `` {n}, queue @ new) \<and>
      set new = edge_rel ok es `` {n} - seen" for es
  proof (induction es rule: rev_induct)
    case Nil
    then show ?case by (simp add: edge_rel_def)
  next
    case (snoc e es)
    then obtain new where IH: "foldl (bfs_edge ok n) (seen, queue) es = (seen \<union> edge_rel ok es `` {n}, queue @ new)"
      "set new = edge_rel ok es `` {n} - seen" by blast
    obtain a b where e: "e = (a, b)" by (cases e)
    show ?case
    proof (cases "a \<noteq> n \<or> b \<in> seen \<union> edge_rel ok es `` {n} \<or> \<not> ok a b")
      case True
      then have "edge_rel ok (es @ [e]) `` {n} \<union> seen = edge_rel ok es `` {n} \<union> seen"
        by (auto simp: edge_rel_def e)
      then show ?thesis using IH True
        by (intro exI [of _ new]) (auto simp: bfs_edge_simp e)
    next
      case False
      then have "edge_rel ok (es @ [e]) `` {n} = insert b (edge_rel ok es `` {n})"
        by (auto simp: edge_rel_def e)
      then show ?thesis using IH False
        by (intro exI [of _ "new @ [b]"]) (auto simp: bfs_edge_simp e)
    qed
  qed
  from this [of edges] show ?thesis unfolding bfs_scan_def by force
qed

text \<open>The loop invariant: every edge out of a node that left the queue stays inside \<open>seen\<close>.\<close>

lemma bfs_loop_closure:
  assumes "set queue \<subseteq> seen" and "edge_rel ok edges `` (seen - set queue) \<subseteq> seen"
  shows "bfs_loop ok edges seen queue = (edge_rel ok edges)\<^sup>* `` seen"
  using assms
proof (induction ok edges seen queue rule: bfs_loop.induct)
  case (1 ok edges seen)
  then show ?case by (simp add: Image_closed_trancl)
next
  case (2 ok edges seen n queue)
  let ?R = "edge_rel ok edges"
  obtain new where scan: "bfs_scan ok edges n (seen, queue) = (seen \<union> ?R `` {n}, queue @ new)"
    and new: "set new = ?R `` {n} - seen"
    using bfs_scan_result [of ok edges n seen queue] by (metis prod.collapse)
  have "bfs_loop ok edges (seen \<union> ?R `` {n}) (queue @ new) = ?R\<^sup>* `` (seen \<union> ?R `` {n})"
    using 2(2,3) new by (intro 2(1) [OF scan [symmetric]]) auto
  also have "\<dots> = ?R\<^sup>* `` seen"
    using 2(2) by (auto intro: converse_rtrancl_into_rtrancl)
  finally show ?case by (simp add: scan)
qed

definition live_rel :: "firewall \<Rightarrow> (node_id \<times> node_id) set" where
  "live_rel f = {(a, b). (a, b) \<in> set (fw_edges f) \<and> traversable f b \<and> domain_legal f a b}"

lemma bfs_reachable_eq:
  "bfs_reachable f from = (if traversable f from then (live_rel f)\<^sup>* `` {from} else {})"
  by (simp add: bfs_reachable_def bfs_start_def bfs_loop_closure edge_rel_def live_rel_def
      del: bfs_loop.simps(2))

lemma rtrancl_traversable:
  "(from, to) \<in> (live_rel f)\<^sup>* \<Longrightarrow> traversable f from \<Longrightarrow> traversable f to"
  by (induction rule: rtrancl_induct) (auto simp: live_rel_def)

lemma reachable_iff: "reachable f from to \<longleftrightarrow> traversable f from \<and> (from, to) \<in> (live_rel f)\<^sup>*"
  by (auto simp: reachable_def bfs_reachable_eq dest: rtrancl_traversable)

subsection \<open>What a revocation removes\<close>

definition revocable_rel :: "(node_id \<times> node_id) list \<Rightarrow> node_id set \<Rightarrow> (node_id \<times> node_id) set" where
  "revocable_rel edges revoked = {(a, b). (a, b) \<in> set edges \<and> b \<notin> revoked}"

lemma revocable_closed:
  assumes "revocable_rel edges r0 `` (X - r0) \<subseteq> X" and "n \<in> X" and "n \<notin> r0"
  shows "(revocable_rel edges r0)\<^sup>* `` {n} \<subseteq> X"
proof -
  have "m \<in> X - r0" if "(n, m) \<in> (revocable_rel edges r0)\<^sup>*" for m
    using that by (induction rule: rtrancl_induct) (use assms in \<open>auto simp: revocable_rel_def\<close>)
  then show ?thesis by blast
qed

lemma revoke_loop_closure:
  assumes "r0 \<subseteq> revoked" and "revocable_rel edges r0 `` (revoked - r0) \<subseteq> revoked \<union> set queue"
  shows "revoke_loop edges revoked queue =
    revoked \<union> (revocable_rel edges r0)\<^sup>* `` (set queue - r0)"
  using assms
proof (induction edges revoked queue rule: revoke_loop.induct)
  case (1 edges revoked)
  then show ?case by simp
next
  case (2 edges revoked n queue)
  let ?D = "revocable_rel edges r0"
  show ?case
  proof (cases "n \<in> revoked")
    case True
    have "revoke_loop edges revoked queue = revoked \<union> ?D\<^sup>* `` (set queue - r0)"
      using 2(3,4) True by (intro 2(1)) auto
    moreover have "?D\<^sup>* `` {n} \<subseteq> revoked \<union> ?D\<^sup>* `` (set queue - r0)" if "n \<notin> r0"
      by (rule revocable_closed [OF _ _ that])
        (use 2(4) True in \<open>auto intro: rtrancl_into_rtrancl simp: revocable_rel_def\<close>)
    ultimately show ?thesis using True by auto
  next
    case False
    let ?q = "queue @ derived_from edges (insert n revoked) n"
    let ?X = "insert n revoked \<union> ?D\<^sup>* `` (set ?q - r0)"
    have ndr: "?D `` {n} \<subseteq> insert n revoked \<union> set ?q"
      by (auto simp: revocable_rel_def set_derived_from)
    have loop: "revoke_loop edges (insert n revoked) ?q = ?X"
      using 2(3,4) False ndr by (intro 2(2)) auto
    have "?D `` (?X - r0) \<subseteq> ?X"
      using 2(4) ndr by (auto intro: rtrancl_into_rtrancl) (auto simp: revocable_rel_def)
    then have "?D\<^sup>* `` {n} \<subseteq> ?X"
      using 2(3) False by (intro revocable_closed) auto
    moreover have "?D\<^sup>* `` (set (derived_from edges (insert n revoked) n) - r0) \<subseteq> ?D\<^sup>* `` {n}"
      using 2(3) by (auto simp: set_derived_from revocable_rel_def intro: converse_rtrancl_into_rtrancl)
    moreover have "n \<notin> r0" using False 2(3) by auto
    ultimately show ?thesis using False loop by auto
  qed
qed

lemma fw_revoke_revoked:
  "fw_revoked (fw_revoke n f) =
    fw_revoked f \<union> (revocable_rel (fw_edges f) (fw_revoked f))\<^sup>* `` ({n} - fw_revoked f)"
  using revoke_loop_closure [of "fw_revoked f" "fw_revoked f" "fw_edges f" "[n]"]
  by (simp add: fw_revoke_def del: revoke_loop.simps)

lemma fw_revoke_downwards:
  assumes "set (fw_edges f) `` fw_revoked f \<subseteq> fw_revoked f" and "(n, m) \<in> (set (fw_edges f))\<^sup>*"
  shows "m \<in> fw_revoked (fw_revoke n f)"
  using assms(2)
proof (induction rule: rtrancl_induct)
  case base
  show ?case by (auto simp: fw_revoke_revoked)
next
  case (step m k)
  then show ?case using assms(1)
    by (cases "k \<in> fw_revoked f") (auto simp: fw_revoke_revoked revocable_rel_def intro: rtrancl_into_rtrancl)
qed

subsection \<open>Histories\<close>

text \<open>Every call that changes a firewall; the queries leave it as it is.\<close>

datatype fw_op =
    Register node_id fw_domain
  | AuthorizeCross fw_domain fw_domain
  | Delegate node_id node_id
  | Revoke node_id
  | Quarantine node_id
  | SetQuota node_id u32
  | Consume node_id

fun fw_exec :: "firewall \<Rightarrow> fw_op \<Rightarrow> firewall" where
  "fw_exec f (Register n d) = fw_register n d f"
| "fw_exec f (AuthorizeCross d e) = authorize_cross d e f"
| "fw_exec f (Delegate a b) = snd (fw_delegate a b f)"
| "fw_exec f (Revoke n) = fw_revoke n f"
| "fw_exec f (Quarantine n) = fw_quarantine n f"
| "fw_exec f (SetQuota n k) = fw_set_quota n k f"
| "fw_exec f (Consume n) = snd (fw_consume n f)"

lemmas fw_op_defs = fw_register_def authorize_cross_def fw_delegate_def fw_revoke_def
  fw_quarantine_def fw_set_quota_def fw_consume_def domain_of_def

definition edges_registered :: "firewall \<Rightarrow> bool" where
  "edges_registered f \<longleftrightarrow>
    (\<forall>(a, b) \<in> set (fw_edges f). domain_of f a \<noteq> None \<and> domain_of f b \<noteq> None)"

lemma edges_registered_new: "edges_registered fw_new"
  by (simp add: edges_registered_def fw_new_def)

lemma edges_registered_exec: "edges_registered f \<Longrightarrow> edges_registered (fw_exec f op)"
  by (cases op) (auto simp: edges_registered_def fw_op_defs split: option.splits if_splits)

lemma edges_registered_run: "edges_registered f \<Longrightarrow> edges_registered (foldl fw_exec f ops)"
  by (rule foldl_invariant) (auto intro: edges_registered_exec)

lemma revoked_exec: "fw_revoked f \<subseteq> fw_revoked (fw_exec f op)"
  by (cases op) (auto simp: fw_revoke_revoked fw_register_def authorize_cross_def fw_delegate_def
      fw_quarantine_def fw_set_quota_def fw_consume_def split: option.splits)

lemma revoked_run: "fw_revoked f \<subseteq> fw_revoked (foldl fw_exec f ops)"
  by (induction ops arbitrary: f) (use revoked_exec in \<open>auto, blast\<close>)

lemma quarantined_exec: "fw_quarantined f \<subseteq> fw_quarantined (fw_exec f op)"
  by (cases op) (auto simp: fw_op_defs split: option.splits)

lemma quarantined_run: "fw_quarantined f \<subseteq> fw_quarantined (foldl fw_exec f ops)"
  by (induction ops arbitrary: f) (use quarantined_exec in \<open>auto, blast\<close>)

lemma live_step_domains:
  assumes "edges_registered f" and "(a, b) \<in> live_rel f"
  obtains da db where "domain_of f a = Some da" "domain_of f b = Some db"
    "(da, db) \<in> (fw_allow_cross f)\<^sup>="
  using assms by (fastforce simp: live_rel_def edges_registered_def domain_legal_def)

lemma live_path_domains:
  assumes "edges_registered f" and "(a, b) \<in> (live_rel f)\<^sup>*" and "domain_of f a = Some da"
  shows "\<exists>db. domain_of f b = Some db \<and> (da, db) \<in> (fw_allow_cross f)\<^sup>*"
  using assms(2)
proof (induction rule: rtrancl_induct)
  case base
  then show ?case using assms(3) by auto
next
  case (step b c)
  obtain db dc where "domain_of f b = Some db" "domain_of f c = Some dc" "(db, dc) \<in> (fw_allow_cross f)\<^sup>="
    using live_step_domains [OF assms(1) step(2)] .
  then show ?case using step.IH by (auto intro: rtrancl_into_rtrancl)
qed

text \<open>The outcomes of the calls \<^verbatim>\<open>consume(n)\<close> of a history, in order.\<close>

fun consume_results :: "node_id \<Rightarrow> firewall \<Rightarrow> fw_op list \<Rightarrow> (fw_error + unit) list" where
  "consume_results n f [] = []"
| "consume_results n f (op # ops) =
    (if op = Consume n then [fst (fw_consume n f)] else []) @ consume_results n (fw_exec f op) ops"

fun sets_quota :: "node_id \<Rightarrow> fw_op \<Rightarrow> bool" where
  "sets_quota n (SetQuota m k) \<longleftrightarrow> m = n"
| "sets_quota n _ \<longleftrightarrow> False"

lemma quota_unaffected:
  "\<not> sets_quota n op \<Longrightarrow> op \<noteq> Consume n \<Longrightarrow> bt_get (fw_quota (fw_exec f op)) n = bt_get (fw_quota f) n"
  by (cases op) (auto simp: fw_op_defs split: option.splits)

lemma consume_results_quota:
  assumes "bt_get (fw_quota f) n = Some q" and "\<forall>op \<in> set ops. \<not> sets_quota n op"
  shows "consume_results n f ops =
    (let uses = count_list ops (Consume n)
     in replicate (min uses (unat q)) (Ok ()) @ replicate (uses - unat q) (Err RateLimited))"
  using assms
proof (induction ops arbitrary: f q)
  case Nil
  then show ?case by simp
next
  case (Cons op ops)
  show ?case
  proof (cases "op = Consume n")
    case False
    then have "bt_get (fw_quota (fw_exec f op)) n = Some q"
      using Cons.prems by (simp add: quota_unaffected)
    then show ?thesis using Cons False by simp
  next
    case use: True
    show ?thesis
    proof (cases "q = 0")
      case True
      then show ?thesis using Cons use by (simp add: fw_consume_def Let_def)
    next
      case False
      then obtain k where k: "unat q = Suc k" by (metis not0_implies_Suc unat_eq_zero)
      then have "unat (q - 1) = k" using False by (simp add: unat_minus_one)
      moreover have "bt_get (fw_quota (fw_exec f op)) n = Some (q - 1)"
        using Cons.prems False use by (simp add: fw_consume_def word_neq_0_conv)
      ultimately show ?thesis
        using Cons.IH [of "fw_exec f op" "q - 1"] Cons.prems False use k
        by (simp add: fw_consume_def word_neq_0_conv Let_def)
    qed
  qed
qed

subsection \<open>The provenance ledger\<close>

datatype authority_event = Delegated node_id node_id | Revoked node_id | Quarantined node_id

fun tag_bytes :: "authority_event \<Rightarrow> bytes" where
  "tag_bytes (Delegated a b) = blit 9 (to_le_u64 b) (blit 1 (to_le_u64 a) (blit 0 [1] (replicate 17 0)))"
| "tag_bytes (Revoked a) = blit 1 (to_le_u64 a) (blit 0 [2] (replicate 17 0))"
| "tag_bytes (Quarantined a) = blit 1 (to_le_u64 a) (blit 0 [3] (replicate 17 0))"

type_synonym provenance_ledger = "(authority_event \<times> hash256) list"

definition fw_genesis :: bytes where
  "fw_genesis = ascii ''fw-prov-genesis''"

definition pl_new :: provenance_ledger where
  "pl_new = []"

definition pl_record :: "authority_event \<Rightarrow> provenance_ledger \<Rightarrow> provenance_ledger" where
  "pl_record event entries =
    (let prev = (if entries = [] then hash_of fw_genesis else snd (last entries));
         input = prev @ tag_bytes event;
         chain = hash_of input
     in entries @ [(event, chain)])"

definition pl_events :: "provenance_ledger \<Rightarrow> authority_event list" where
  "pl_events entries = map fst entries"

definition pl_len :: "provenance_ledger \<Rightarrow> nat" where
  "pl_len entries = length entries"

definition pl_is_empty :: "provenance_ledger \<Rightarrow> bool" where
  "pl_is_empty entries \<longleftrightarrow> entries = []"

fun pl_intact_from :: "hash256 \<Rightarrow> provenance_ledger \<Rightarrow> bool" where
  "pl_intact_from prev [] = True"
| "pl_intact_from prev ((event, chain) # entries) =
    (let input = prev @ tag_bytes event
     in if hash_of input \<noteq> chain then False else pl_intact_from chain entries)"

definition pl_intact :: "provenance_ledger \<Rightarrow> bool" where
  "pl_intact entries = pl_intact_from (hash_of fw_genesis) entries"

lemma tag_bytes_eq:
  "tag_bytes (Delegated a b) = 1 # to_le_u64 a @ to_le_u64 b"
  "tag_bytes (Revoked a) = 2 # to_le_u64 a @ replicate 8 0"
  "tag_bytes (Quarantined a) = 3 # to_le_u64 a @ replicate 8 0"
  by (simp_all add: blit_def drop_Cons' take_Cons' numeral_eq_Suc del: le_bytes.simps)

lemma tag_bytes_length [simp]: "length (tag_bytes e) = 17"
  by (cases e) (simp_all add: tag_bytes_eq del: tag_bytes.simps)

lemma inj_tag_bytes: "inj_on tag_bytes UNIV"
proof (rule inj_onI)
  fix e e'
  assume "tag_bytes e = tag_bytes e'"
  then show "e = e'"
    by (cases e; cases e') (simp_all add: tag_bytes_eq del: tag_bytes.simps)
qed

interpretation prov: hash_ledger tag_bytes UNIV fw_genesis
  by unfold_locales (rule inj_tag_bytes, simp add: fw_genesis_def)

lemma pl_intact_eq: "pl_intact entries = chain_intact tag_bytes (hash_of fw_genesis) entries"
proof -
  have "pl_intact_from prev entries = chain_intact tag_bytes prev entries" for prev
    by (induction tag_bytes prev entries rule: chain_intact.induct) (auto simp: Let_def)
  then show ?thesis by (simp add: pl_intact_def)
qed

lemma pl_record_eq:
  "pl_record e entries =
    entries @ [(e, hash_of (chain_head (hash_of fw_genesis) entries @ tag_bytes e))]"
  by (simp add: pl_record_def Let_def chain_head_last)

lemma pl_intact_record: "pl_intact entries \<Longrightarrow> pl_intact (pl_record e entries)"
  unfolding pl_intact_eq pl_record_eq by (rule prov.chain_extend)

subsection \<open>Properties\<close>

text \<open>
  The search is exact: \<^verbatim>\<open>reachable\<close> (which terminates on every graph) answers true just when
  the source is neither revoked nor quarantined and a path of delegations leads to the target, each
  step of which enters a node that is neither revoked nor quarantined and stays in its domain or
  follows an authorised flow; \<^verbatim>\<open>diffusion\<close> counts the same closure without the domain rule.
\<close>

theorem firewall_reachability_exact:
  "(reachable f from to \<longleftrightarrow> traversable f from \<and>
     (from, to) \<in> {(a, b). (a, b) \<in> set (fw_edges f) \<and> traversable f b \<and> domain_legal f a b}\<^sup>*) \<and>
   diffusion f from = (if traversable f from
     then card ({(a, b). (a, b) \<in> set (fw_edges f) \<and> traversable f b}\<^sup>* `` {from}) - 1 else 0)"
  unfolding reachable_iff live_rel_def
  by (simp add: diffusion_def bfs_start_def bfs_loop_closure edge_rel_def del: bfs_loop.simps(2))

text \<open>
  Segmentation.  In a firewall built by any sequence of calls, authority reaches a node only
  if its domain can be reached from the source's domain through authorised cross-domain flows.
\<close>

theorem firewall_segmentation:
  assumes "f = foldl fw_exec fw_new ops"
    and "reachable f from to" and "domain_of f from = Some df"
  shows "\<exists>dt. domain_of f to = Some dt \<and> (df, dt) \<in> (fw_allow_cross f)\<^sup>*"
proof -
  have "edges_registered f" unfolding assms(1) by (intro edges_registered_run edges_registered_new)
  then show ?thesis using assms(2,3) live_path_domains by (auto simp: reachable_iff)
qed

theorem firewall_segmentation_witness:
  "let f = foldl fw_exec fw_new
       [Register 1 AiAgent, Register 2 Personal, Register 3 Financial, AuthorizeCross AiAgent Personal,
        AuthorizeCross Personal Financial, Delegate 1 2, Delegate 2 3]
   in reachable f 1 3 \<and> (AiAgent, Financial) \<in> (fw_allow_cross f)\<^sup>*"
proof -
  let ?ops = "[Register 1 AiAgent, Register 2 Personal, Register 3 Financial, AuthorizeCross AiAgent Personal,
        AuthorizeCross Personal Financial, Delegate 1 2, Delegate 2 3]"
  let ?f = "foldl fw_exec fw_new ?ops"
  have "reachable ?f 1 3 \<and> domain_of ?f 1 = Some AiAgent \<and> domain_of ?f 3 = Some Financial"
    by code_simp
  then show ?thesis using firewall_segmentation [OF refl, of ?ops 1 3 AiAgent] by (simp only: Let_def) auto
qed

text \<open>
  C12: What \<^verbatim>\<open>revoke\<close> removes, exactly, and that it stays removed.  If the node is not yet revoked, the call
  (which terminates on cyclic graphs) adds the node and the nodes that delegations lead to from it through nodes not
  revoked before: the walk stops at a node that is already revoked.  If the node is already revoked, the call
  adds nothing.  So everything reachable through the edges of the node is revoked afterwards provided no
  delegation leads from a node revoked before to one that is not.  And no later sequence of calls makes a revoked
  node reachable or lets it reach anything.
\<close>

theorem revocation_recursive_and_permanent:
  "fw_revoked (fw_revoke n f) = fw_revoked f \<union>
      (if n \<in> fw_revoked f then {}
       else {m. (n, m) \<in> {(a, b). (a, b) \<in> set (fw_edges f) \<and> b \<notin> fw_revoked f}\<^sup>*}) \<and>
    ((\<forall>(a, b) \<in> set (fw_edges f). a \<in> fw_revoked f \<longrightarrow> b \<in> fw_revoked f) \<longrightarrow>
      {m. (n, m) \<in> (set (fw_edges f))\<^sup>*} \<subseteq> fw_revoked (fw_revoke n f)) \<and>
    (\<forall>m \<in> fw_revoked (fw_revoke n f). \<forall>ops other.
      \<not> reachable (foldl fw_exec (fw_revoke n f) ops) m other \<and>
      \<not> reachable (foldl fw_exec (fw_revoke n f) ops) other m)"
proof (intro conjI impI ballI allI subsetI)
  show "fw_revoked (fw_revoke n f) = fw_revoked f \<union>
      (if n \<in> fw_revoked f then {}
       else {m. (n, m) \<in> {(a, b). (a, b) \<in> set (fw_edges f) \<and> b \<notin> fw_revoked f}\<^sup>*})"
    by (auto simp: fw_revoke_revoked revocable_rel_def)
  show "m \<in> fw_revoked (fw_revoke n f)"
    if "\<forall>(a, b) \<in> set (fw_edges f). a \<in> fw_revoked f \<longrightarrow> b \<in> fw_revoked f" "m \<in> {m. (n, m) \<in> (set (fw_edges f))\<^sup>*}" for m
    using that by (intro fw_revoke_downwards) auto
qed (use revoked_run [of "fw_revoke n f"] in \<open>auto simp: reachable_def traversable_def\<close>)

theorem revocation_recursive_and_permanent_witness:
  "let f = foldl fw_exec fw_new
       [Register 1 Personal, Register 2 Personal, Register 3 Personal, Delegate 1 2, Delegate 2 3, Delegate 3 2]
   in reachable f 1 3 \<and> {m. (2, m) \<in> (set (fw_edges f))\<^sup>*} \<subseteq> fw_revoked (fw_revoke 2 f) \<and>
      \<not> reachable (foldl fw_exec (fw_revoke 2 f) [Delegate 1 3, Register 3 System]) 1 3"
proof -
  let ?f = "foldl fw_exec fw_new
       [Register 1 Personal, Register 2 Personal, Register 3 Personal, Delegate 1 2, Delegate 2 3, Delegate 3 2]"
  have ok: "reachable ?f 1 3 \<and> 3 \<in> fw_revoked (fw_revoke 2 ?f) \<and>
      (\<forall>(a, b) \<in> set (fw_edges ?f). a \<in> fw_revoked ?f \<longrightarrow> b \<in> fw_revoked ?f)"
    by code_simp
  then show ?thesis
    using revocation_recursive_and_permanent [of 2 ?f] unfolding Let_def by blast
qed

text \<open>
  The condition is needed.  A delegation made from a node after its revocation is not followed by a second call, so
  the node it leads to keeps the authority that other nodes gave it.
\<close>

theorem revoke_misses_later_delegation:
  "let f = foldl fw_exec fw_new [Register 1 Personal, Register 2 Personal, Register 3 Personal, Delegate 1 2,
         Revoke 2, Delegate 2 3, Revoke 1, Revoke 2]
   in set (fw_edges f) = {(1, 2), (2, 3)} \<and> fw_revoked f = {1, 2} \<and> reachable f 3 3"
  by code_simp

text \<open>
  Rate limiting.  After \<^verbatim>\<open>set_quota(n, k)\<close> the first k calls of \<^verbatim>\<open>consume(n)\<close> succeed and
  every further one is refused, whatever other calls come in between.
\<close>

theorem quota_exact:
  assumes "\<forall>op \<in> set ops. \<not> sets_quota n op"
  shows "consume_results n (fw_set_quota n k f) ops =
    (let uses = count_list ops (Consume n)
     in replicate (min uses (unat k)) (Ok ()) @ replicate (uses - unat k) (Err RateLimited))"
  by (rule consume_results_quota) (simp_all add: fw_set_quota_def assms)

theorem quota_exact_witness:
  "consume_results 3 (fw_set_quota 3 2 fw_new) [Consume 3, Revoke 3, Consume 4, Consume 3, SetQuota 4 9, Consume 3] =
    [Ok (), Ok (), Err RateLimited]"
proof -
  have "replicate (min 3 2) x = [x, x]" "replicate (3 - 2) y = [y]" for x y :: "fw_error + unit"
    by (simp_all add: numeral_eq_Suc)
  then show ?thesis by (subst quota_exact) simp_all
qed

text \<open>
  The provenance ledger is append-only and tamper-evident: \<^verbatim>\<open>record\<close> keeps it intact and
  adds the event at the end, and two different intact ledgers never have the same last link,
  unless two of the hash inputs of the two ledgers collide.
\<close>

theorem provenance_tamper_evident:
  assumes "pl_intact l" and "pl_intact l'" and "l \<noteq> l'"
    and "inj_on hash_of (insert fw_genesis (chain_inputs tag_bytes (hash_of fw_genesis) l \<union>
                                            chain_inputs tag_bytes (hash_of fw_genesis) l'))"
  shows "pl_intact (pl_record e l) \<and> pl_events (pl_record e l) = pl_events l @ [e] \<and>
    chain_head (hash_of fw_genesis) l \<noteq> chain_head (hash_of fw_genesis) l'"
proof (intro conjI notI)
  show "pl_intact (pl_record e l)" by (rule pl_intact_record [OF assms(1)])
  show "pl_events (pl_record e l) = pl_events l @ [e]" by (simp add: pl_events_def pl_record_eq)
  assume "chain_head (hash_of fw_genesis) l = chain_head (hash_of fw_genesis) l'"
  then have "l = l'"
    using assms(1,2) by (intro prov.ledger_determined [OF _ _ _ _ assms(4)]) (simp_all add: pl_intact_eq)
  then show False using assms(3) by contradiction
qed

end
