(* ===== verification/Airlock.thy ===== *)
theory Airlock
  imports Capability Capability_Firewall "HOL-Library.Sublist"
begin

text \<open>
  The capability airlock, \<^verbatim>\<open>dominion-core/src/airlock.rs\<close>: directional transfer policies, the
  sanitising transfer on every error branch, emergency containment and the hash-chained transfer
  ledger.  The lemmas bound what a crossing can issue, show that containment blocks every crossing
  until it is lifted, and that the ledger stays intact and is determined by its last link.
\<close>

subsection \<open>Policies, records and the airlock\<close>

datatype airlock_error = NoPolicy | InsufficientApprovals | InvalidCapability | Contained

record transfer_record =
  tr_seq :: u64
  tr_from :: fw_domain
  tr_to :: fw_domain
  tr_granted_rights :: u32
  tr_expires_at :: "u64 option"
  tr_provenance :: hash256
  tr_chain :: hash256

record transfer_policy =
  tp_from :: fw_domain
  tp_to :: fw_domain
  tp_max_rights :: rights
  tp_ttl :: "u64 option"
  tp_approvals_required :: u32

record issued_capability =
  ic_capability :: capability
  ic_expires_at :: "u64 option"

definition ic_is_expired :: "issued_capability \<Rightarrow> u64 \<Rightarrow> bool" where
  "ic_is_expired ic now = (case ic_expires_at ic of Some t \<Rightarrow> now \<ge> t | None \<Rightarrow> False)"

record airlock =
  al_policies :: "transfer_policy list"
  al_ledger :: "transfer_record list"
  al_contained :: "fw_domain set"

definition al_new :: airlock where
  "al_new = \<lparr>al_policies = [], al_ledger = [], al_contained = {}\<rparr>"

definition al_add_policy :: "transfer_policy \<Rightarrow> airlock \<Rightarrow> airlock" where
  "al_add_policy p a = a\<lparr>al_policies := al_policies a @ [p]\<rparr>"

definition al_policy :: "airlock \<Rightarrow> fw_domain \<Rightarrow> fw_domain \<Rightarrow> transfer_policy option" where
  "al_policy a from to = List.find (\<lambda>p. tp_from p = from \<and> tp_to p = to) (al_policies a)"

definition al_is_contained :: "airlock \<Rightarrow> fw_domain \<Rightarrow> bool" where
  "al_is_contained a d \<longleftrightarrow> d \<in> al_contained a"

definition al_genesis :: bytes where
  "al_genesis = ascii ''airlock-genesis''"

text \<open>The discriminant that \<^verbatim>\<open>domain as u8\<close> yields.\<close>

fun domain_u8 :: "fw_domain \<Rightarrow> u8" where
  "domain_u8 System = 0"
| "domain_u8 Personal = 1"
| "domain_u8 Financial = 2"
| "domain_u8 Medical = 3"
| "domain_u8 Infrastructure = 4"
| "domain_u8 Development = 5"
| "domain_u8 AiAgent = 6"
| "domain_u8 ExternalNetwork = 7"

definition al_append_record ::
    "fw_domain \<Rightarrow> fw_domain \<Rightarrow> rights \<Rightarrow> u64 option \<Rightarrow> hash256 \<Rightarrow> airlock \<Rightarrow> airlock" where
  "al_append_record from to granted expires_at provenance a =
    (let seq = len_u64 (al_ledger a);
         prev = (if al_ledger a = [] then hash_of al_genesis else tr_chain (last (al_ledger a)));
         input = prev @ to_le_u64 seq @ [domain_u8 from, domain_u8 to] @ to_le_u32 granted @ provenance @
                 (case expires_at of Some t \<Rightarrow> 1 # to_le_u64 t | None \<Rightarrow> [0]);
         chain = hash_of input
     in a\<lparr>al_ledger := al_ledger a @
           [\<lparr>tr_seq = seq, tr_from = from, tr_to = to, tr_granted_rights = granted,
             tr_expires_at = expires_at, tr_provenance = provenance, tr_chain = chain\<rparr>]\<rparr>)"

definition al_contain :: "fw_domain \<Rightarrow> airlock \<Rightarrow> airlock" where
  "al_contain d a =
    al_append_record d d rights_NONE None (hash_of (ascii ''containment''))
      (a\<lparr>al_contained := insert d (al_contained a)\<rparr>)"

definition al_release :: "fw_domain \<Rightarrow> airlock \<Rightarrow> airlock" where
  "al_release d a = a\<lparr>al_contained := al_contained a - {d}\<rparr>"

definition al_forensic_snapshot :: "airlock \<Rightarrow> hash256" where
  "al_forensic_snapshot a =
    (if al_ledger a = [] then hash_of al_genesis else tr_chain (last (al_ledger a)))"

definition al_transfer :: "airlock \<Rightarrow> capability \<Rightarrow> fw_domain \<Rightarrow> fw_domain \<Rightarrow> u32 \<Rightarrow> u64 \<Rightarrow>
    airlock_error + issued_capability" where
  "al_transfer a c from to approvals now =
    (if \<not> cap_is_valid c then Err InvalidCapability
     else rbind (ok_or (al_policy a from to) NoPolicy) (\<lambda>policy.
       if approvals < tp_approvals_required policy then Err InsufficientApprovals
       else
         let granted = rights_intersect (cap_rights c) (tp_max_rights policy)
         in case cap_restrict c granted of
              Inl _ \<Rightarrow> Err InvalidCapability
            | Inr reduced \<Rightarrow>
                Ok \<lparr>ic_capability = reduced,
                    ic_expires_at = map_option (saturating_add now) (tp_ttl policy)\<rparr>))"

definition al_transfer_logged :: "capability \<Rightarrow> fw_domain \<Rightarrow> fw_domain \<Rightarrow> u32 \<Rightarrow> u64 \<Rightarrow> airlock \<Rightarrow>
    (airlock_error + issued_capability) \<times> airlock" where
  "al_transfer_logged c from to approvals now a =
    (if from \<in> al_contained a \<or> to \<in> al_contained a then (Err Contained, a)
     else case al_transfer a c from to approvals now of
            Inl e \<Rightarrow> (Err e, a)
          | Inr issued \<Rightarrow>
             (Ok issued,
              al_append_record from to (cap_rights (ic_capability issued)) (ic_expires_at issued)
                (cap_provenance (ic_capability issued)) a))"

fun al_intact_from :: "hash256 \<Rightarrow> transfer_record list \<Rightarrow> bool" where
  "al_intact_from prev [] = True"
| "al_intact_from prev (r # rs) =
    (let input = prev @ to_le_u64 (tr_seq r) @ [domain_u8 (tr_from r), domain_u8 (tr_to r)] @
                 to_le_u32 (tr_granted_rights r) @ tr_provenance r @
                 (case tr_expires_at r of Some t \<Rightarrow> 1 # to_le_u64 t | None \<Rightarrow> [0])
     in if hash_of input \<noteq> tr_chain r then False else al_intact_from (tr_chain r) rs)"

definition al_ledger_intact :: "airlock \<Rightarrow> bool" where
  "al_ledger_intact a = al_intact_from (hash_of al_genesis) (al_ledger a)"

subsection \<open>The ledger as a hash chain\<close>

text \<open>A record without its link, and the bytes of it that are hashed.\<close>

definition unlinked :: "transfer_record \<Rightarrow> transfer_record" where
  "unlinked r = r\<lparr>tr_chain := []\<rparr>"

definition record_body :: "transfer_record \<Rightarrow> bytes" where
  "record_body r = to_le_u64 (tr_seq r) @ [domain_u8 (tr_from r), domain_u8 (tr_to r)] @
    to_le_u32 (tr_granted_rights r) @ tr_provenance r @
    (case tr_expires_at r of Some t \<Rightarrow> 1 # to_le_u64 t | None \<Rightarrow> [0])"

abbreviation linked :: "transfer_record \<Rightarrow> transfer_record \<times> hash256" where
  "linked r \<equiv> (unlinked r, tr_chain r)"

text \<open>The records as the ledger writes them: a 32-byte provenance, and the link kept apart.\<close>

definition chain_records :: "transfer_record set" where
  "chain_records = {r. length (tr_provenance r) = 32 \<and> tr_chain r = []}"

lemma domain_u8_inject [simp]: "domain_u8 d = domain_u8 e \<longleftrightarrow> d = e"
  by (cases d; cases e) simp_all

lemma record_body_unlinked [simp]: "record_body (unlinked r) = record_body r"
  by (simp add: record_body_def unlinked_def)

lemma inj_record_body: "inj_on record_body chain_records"
  by (rule inj_onI) (auto simp: record_body_def chain_records_def split: option.splits)

interpretation crossing: hash_ledger record_body chain_records al_genesis
  by unfold_locales (rule inj_record_body, simp add: al_genesis_def)

lemma al_ledger_intact_eq:
  "al_ledger_intact a = chain_intact record_body (hash_of al_genesis) (map linked (al_ledger a))"
proof -
  have "al_intact_from prev rs = chain_intact record_body prev (map linked rs)" for prev rs
    by (induction prev rs rule: al_intact_from.induct)
      (simp_all only: al_intact_from.simps chain_intact.simps list.map Let_def record_body_def [symmetric]
        record_body_unlinked, simp)
  then show ?thesis by (simp add: al_ledger_intact_def)
qed

lemma al_snapshot_eq:
  "al_forensic_snapshot a = chain_head (hash_of al_genesis) (map linked (al_ledger a))"
  by (simp add: al_forensic_snapshot_def chain_head_last last_map)

lemma al_append_record_eq:
  "al_append_record from to granted expires provenance a =
    (let r = \<lparr>tr_seq = len_u64 (al_ledger a), tr_from = from, tr_to = to, tr_granted_rights = granted,
              tr_expires_at = expires, tr_provenance = provenance, tr_chain = []\<rparr>
     in a\<lparr>al_ledger := al_ledger a @ [r\<lparr>tr_chain := hash_of (al_forensic_snapshot a @ record_body r)\<rparr>]\<rparr>)"
  by (simp add: al_append_record_def Let_def al_forensic_snapshot_def record_body_def)

lemma append_record_intact:
  "al_ledger_intact a \<Longrightarrow> al_ledger_intact (al_append_record from to granted expires provenance a)"
  unfolding al_ledger_intact_eq al_append_record_eq al_snapshot_eq
  by (simp add: Let_def unlinked_def crossing.chain_extend)

subsection \<open>What a crossing issues\<close>

lemma cap_restrict_intersect:
  "cap_restrict c (rights_intersect (cap_rights c) m) =
    (if \<not> cap_tag c then Err TagInvalid
     else if unat (cap_base c) + unat (cap_len c) < 2 ^ 64
     then Ok (c\<lparr>cap_rights := rights_intersect (cap_rights c) m,
               cap_provenance := derived_provenance c (cap_base c) (cap_len c) (rights_intersect (cap_rights c) m)\<rparr>)
     else Err BoundsEscalation)"
  by (simp add: cap_restrict_def cap_derive_eq rights_intersect_subset within_refl)

lemma al_transfer_eq:
  "al_transfer a c from to approvals now =
    (case al_policy a from to of
       None \<Rightarrow> Err (if cap_tag c then NoPolicy else InvalidCapability)
     | Some p \<Rightarrow>
         if \<not> cap_tag c then Err InvalidCapability
         else if approvals < tp_approvals_required p then Err InsufficientApprovals
         else if unat (cap_base c) + unat (cap_len c) < 2 ^ 64
         then Ok \<lparr>ic_capability = c\<lparr>cap_rights := rights_intersect (cap_rights c) (tp_max_rights p),
                    cap_provenance := derived_provenance c (cap_base c) (cap_len c)
                      (rights_intersect (cap_rights c) (tp_max_rights p))\<rparr>,
                  ic_expires_at = map_option (saturating_add now) (tp_ttl p)\<rparr>
         else Err InvalidCapability)"
  by (simp add: al_transfer_def cap_is_valid_def Let_def cap_restrict_intersect split: option.split)

lemma al_transfer_OkE:
  assumes "al_transfer a c from to approvals now = Ok issued"
  obtains p where "al_policy a from to = Some p" "tp_approvals_required p \<le> approvals"
    "cap_restrict c (rights_intersect (cap_rights c) (tp_max_rights p)) = Ok (ic_capability issued)"
    "ic_expires_at issued = map_option (saturating_add now) (tp_ttl p)"
  using assms by (auto simp: al_transfer_def rbind_Ok_iff Let_def ok_or_def not_less
      split: if_splits option.splits sum.splits)

lemma cap_restrict_OkD:
  assumes "cap_restrict c r = Ok c'"
  shows "cap_rights c' = r" "cap_base c' = cap_base c" "cap_len c' = cap_len c"
    "length (cap_provenance c') = 32"
  using assms by (auto simp: cap_restrict_def dest: cap_derive_OkD)

lemma is_expired_ttl:
  assumes "ic_expires_at ic = map_option (saturating_add now) (Some ttl)"
    and "unat now + unat ttl < 2 ^ 64"
  shows "ic_is_expired ic later \<longleftrightarrow> unat now + unat ttl \<le> unat later"
  using assms by (simp add: ic_is_expired_def saturating_add_def word_le_nat_alt unat_word_ariths)

subsection \<open>Histories\<close>

datatype al_op =
    AddPolicy transfer_policy
  | Contain fw_domain
  | Release fw_domain
  | TransferLogged capability fw_domain fw_domain u32 u64

fun al_exec :: "airlock \<Rightarrow> al_op \<Rightarrow> airlock" where
  "al_exec a (AddPolicy p) = al_add_policy p a"
| "al_exec a (Contain d) = al_contain d a"
| "al_exec a (Release d) = al_release d a"
| "al_exec a (TransferLogged c from to approvals now) = snd (al_transfer_logged c from to approvals now a)"

lemma append_record_frame [simp]:
  "al_contained (al_append_record from to granted expires provenance a) = al_contained a"
  "al_policies (al_append_record from to granted expires provenance a) = al_policies a"
  by (simp_all add: al_append_record_eq Let_def)

lemma contained_exec: "d \<in> al_contained a \<Longrightarrow> op \<noteq> Release d \<Longrightarrow> d \<in> al_contained (al_exec a op)"
  by (cases op) (auto simp: al_add_policy_def al_contain_def al_release_def al_transfer_logged_def
      split: sum.splits)

lemma contained_run:
  assumes "d \<in> al_contained a" and "Release d \<notin> set ops"
  shows "d \<in> al_contained (foldl al_exec a ops)"
  using assms
proof (induction ops arbitrary: a)
  case (Cons op ops)
  then have "d \<in> al_contained (al_exec a op)" by (intro contained_exec) auto
  then show ?case using Cons.IH Cons.prems(2) by (simp del: al_exec.simps)
qed simp

definition ledger_wf :: "airlock \<Rightarrow> bool" where
  "ledger_wf a \<longleftrightarrow> al_ledger_intact a \<and> (\<forall>r \<in> set (al_ledger a). length (tr_provenance r) = 32)"

lemma ledger_wf_new: "ledger_wf al_new"
  by (simp add: ledger_wf_def al_new_def al_ledger_intact_def)

lemma ledger_wf_append:
  "ledger_wf a \<Longrightarrow> length provenance = 32 \<Longrightarrow>
   ledger_wf (al_append_record from to granted expires provenance a)"
  by (simp add: ledger_wf_def append_record_intact) (auto simp: al_append_record_eq Let_def)

lemma ledger_wf_same_ledger: "ledger_wf a \<Longrightarrow> al_ledger b = al_ledger a \<Longrightarrow> ledger_wf b"
  by (simp add: ledger_wf_def al_ledger_intact_def)

lemma ledger_wf_exec:
  assumes "ledger_wf a"
  shows "ledger_wf (al_exec a op)"
proof (cases op)
  case (AddPolicy p)
  then show ?thesis by (auto simp: al_add_policy_def intro: ledger_wf_same_ledger [OF assms])
next
  case (Contain d)
  have "ledger_wf (a\<lparr>al_contained := insert d (al_contained a)\<rparr>)"
    by (rule ledger_wf_same_ledger [OF assms]) simp
  then show ?thesis by (simp add: Contain al_contain_def ledger_wf_append)
next
  case (Release d)
  then show ?thesis by (auto simp: al_release_def intro: ledger_wf_same_ledger [OF assms])
next
  case (TransferLogged c d e k now)
  then show ?thesis using assms
    by (auto simp: al_transfer_logged_def intro!: ledger_wf_append elim!: al_transfer_OkE
        dest: cap_restrict_OkD(4) split: sum.splits)
qed

lemma ledger_wf_run: "ledger_wf (foldl al_exec al_new ops)"
  by (rule foldl_invariant) (auto intro: ledger_wf_new ledger_wf_exec)

lemma ledger_append_only_exec: "\<exists>rs. al_ledger (al_exec a op) = al_ledger a @ rs"
  by (cases op) (auto simp: al_add_policy_def al_contain_def al_release_def al_transfer_logged_def
      al_append_record_eq Let_def split: sum.splits)

lemma ledger_append_only: "\<exists>rs. al_ledger (foldl al_exec a ops) = al_ledger a @ rs"
proof (induction ops arbitrary: a)
  case (Cons op ops)
  then show ?case using ledger_append_only_exec [of a op] by (metis append.assoc foldl_Cons)
qed simp

lemma linked_chain_records:
  "ledger_wf a \<Longrightarrow> fst ` set (map linked (al_ledger a)) \<subseteq> chain_records"
  by (auto simp: ledger_wf_def chain_records_def unlinked_def)

lemma inj_linked: "inj linked"
proof (rule injI)
  fix x y
  assume "linked x = linked y"
  then show "x = y" by (cases x; cases y) (simp add: unlinked_def)
qed

text \<open>The hash inputs of a ledger, its genesis string included.\<close>

definition al_hash_inputs :: "airlock \<Rightarrow> bytes set" where
  "al_hash_inputs a =
    insert al_genesis (chain_inputs record_body (hash_of al_genesis) (map linked (al_ledger a)))"

lemma snapshot_determines_ledger:
  assumes "ledger_wf a" and "ledger_wf b" and "inj_on hash_of (al_hash_inputs a \<union> al_hash_inputs b)"
    and "al_forensic_snapshot a = al_forensic_snapshot b"
  shows "al_ledger a = al_ledger b"
proof -
  have "map linked (al_ledger a) = map linked (al_ledger b)"
  proof (rule crossing.ledger_determined [OF _ _ linked_chain_records linked_chain_records])
    show "inj_on hash_of (insert al_genesis
        (chain_inputs record_body (hash_of al_genesis) (map linked (al_ledger a)) \<union>
         chain_inputs record_body (hash_of al_genesis) (map linked (al_ledger b))))"
      by (rule inj_on_subset [OF assms(3)]) (auto simp: al_hash_inputs_def)
  qed (use assms in \<open>simp_all add: ledger_wf_def al_ledger_intact_eq al_snapshot_eq\<close>)
  then show ?thesis using inj_linked by (simp add: inj_map_eq_map)
qed

subsection \<open>Properties\<close>

text \<open>
  C13: A crossing never amplifies.  What \<^verbatim>\<open>transfer\<close> issues was made from the source token by
  restriction under the first policy for this direction, with enough approvals: every access it is
  allowed was allowed to the source and needs only rights of the policy's mask, and it expires
  exactly when the policy's lifetime has passed.
\<close>

theorem airlock_sanitizes:
  assumes "al_transfer a c from to approvals now = Ok issued"
  shows "\<exists>p. al_policy a from to = Some p \<and> unat (tp_approvals_required p) \<le> unat approvals \<and>
    (\<forall>addr span needed. cap_check (ic_capability issued) addr span needed = Ok () \<longrightarrow>
       cap_check c addr span needed = Ok () \<and>
       {i. bit needed i} \<subseteq> {i. bit (tp_max_rights p) i}) \<and>
    (\<forall>ttl later. tp_ttl p = Some ttl \<longrightarrow> unat now + unat ttl < 2 ^ 64 \<longrightarrow>
       (ic_is_expired issued later \<longleftrightarrow> unat now + unat ttl \<le> unat later))"
proof -
  obtain p where p: "al_policy a from to = Some p" "tp_approvals_required p \<le> approvals"
    and r: "cap_restrict c (rights_intersect (cap_rights c) (tp_max_rights p)) = Ok (ic_capability issued)"
    and e: "ic_expires_at issued = map_option (saturating_add now) (tp_ttl p)"
    using al_transfer_OkE [OF assms] .
  have "cap_check c addr span needed = Ok () \<and> {i. bit needed i} \<subseteq> {i. bit (tp_max_rights p) i}"
    if "cap_check (ic_capability issued) addr span needed = Ok ()" for addr span needed
    using that cap_check_mono [OF obtains_cap_le [OF obtains_cap.restrict [OF obtains_cap.self r]]]
      cap_restrict_OkD(1) [OF r] rights_subset_trans rights_intersect_subset(2)
    by (auto simp: cap_check_Ok_iff simp flip: rights_subset_bits)
  moreover have "ic_is_expired issued later \<longleftrightarrow> unat now + unat ttl \<le> unat later"
    if "tp_ttl p = Some ttl" "unat now + unat ttl < 2 ^ 64" for ttl later
    using that e by (intro is_expired_ttl) simp_all
  ultimately show ?thesis using p by (auto simp: word_le_nat_alt)
qed

definition demo_airlock :: airlock where
  "demo_airlock = al_add_policy \<lparr>tp_from = Financial, tp_to = AiAgent, tp_max_rights = rights_READ,
    tp_ttl = Some 10, tp_approvals_required = 2\<rparr> al_new"

theorem airlock_sanitizes_witness:
  "\<exists>issued. al_transfer demo_airlock (cap_mint 0x1000 0x1000 (rights_READ OR rights_WRITE)) Financial AiAgent 2 100
      = Ok issued \<and> ic_is_expired issued 110 \<and> \<not> ic_is_expired issued 109 \<and>
      cap_check (ic_capability issued) 0x1000 8 rights_WRITE \<noteq> Ok ()"
proof -
  let ?c = "cap_mint 0x1000 0x1000 (rights_READ OR rights_WRITE)"
  have pol: "al_policy demo_airlock Financial AiAgent = Some \<lparr>tp_from = Financial, tp_to = AiAgent,
      tp_max_rights = rights_READ, tp_ttl = Some 10, tp_approvals_required = 2\<rparr>"
    by (simp add: al_policy_def demo_airlock_def al_add_policy_def al_new_def)
  obtain issued where i: "al_transfer demo_airlock ?c Financial AiAgent 2 100 = Ok issued"
    by (simp add: al_transfer_eq pol cap_mint_def)
  moreover have "ic_is_expired issued 110 \<and> \<not> ic_is_expired issued 109"
    using airlock_sanitizes [OF i] pol by simp
  moreover have "cap_check (ic_capability issued) 0x1000 8 rights_WRITE \<noteq> Ok ()"
  proof
    assume "cap_check (ic_capability issued) 0x1000 8 rights_WRITE = Ok ()"
    then have "{i. bit rights_WRITE i} \<subseteq> {i. bit rights_READ i}"
      using airlock_sanitizes [OF i] pol by auto
    then have "rights_subset_of rights_WRITE rights_READ" by (simp only: rights_subset_bits)
    then show False by (simp add: rights_subset_of_def rights_WRITE_def rights_READ_def)
  qed
  ultimately show ?thesis by blast
qed

text \<open>
  Containment.  From the call of \<^verbatim>\<open>contain(d)\<close> on, through any calls other than
  \<^verbatim>\<open>release(d)\<close>, every audited crossing from or into d is refused and leaves the airlock as it was.
\<close>

theorem containment_blocks_crossings:
  assumes "a' = foldl al_exec (al_contain d a) ops" and "Release d \<notin> set ops" and "from = d \<or> to = d"
  shows "al_is_contained a' d \<and> al_transfer_logged c from to approvals now a' = (Err Contained, a')"
proof -
  have "d \<in> al_contained a'"
    unfolding assms(1) by (rule contained_run [OF _ assms(2)]) (simp add: al_contain_def)
  then show ?thesis using assms(3) by (auto simp: al_transfer_logged_def al_is_contained_def)
qed

theorem containment_blocks_crossings_witness:
  "fst (al_transfer_logged (cap_mint 0x1000 0x1000 rights_READ) Financial AiAgent 2 1
      (foldl al_exec (al_contain AiAgent demo_airlock) [Contain Medical, Release Medical])) = Err Contained"
  using containment_blocks_crossings [OF refl, of AiAgent "[Contain Medical, Release Medical]" Financial AiAgent] by simp

text \<open>
  The transfer ledger.  Every sequence of calls on a new airlock keeps the ledger intact and
  only appends to it, and two airlocks with different ledgers have different forensic snapshots,
  unless two of the hash inputs of the two ledgers collide.
\<close>

theorem transfer_ledger_tamper_evident:
  assumes "a = foldl al_exec al_new ops" and "b = foldl al_exec al_new ops'"
    and "inj_on hash_of (al_hash_inputs a \<union> al_hash_inputs b)" and "al_ledger a \<noteq> al_ledger b"
  shows "al_ledger_intact a \<and> prefix (al_ledger a) (al_ledger (foldl al_exec a later_ops)) \<and>
    al_forensic_snapshot a \<noteq> al_forensic_snapshot b"
proof -
  have "ledger_wf a" "ledger_wf b" unfolding assms(1,2) by (rule ledger_wf_run)+
  moreover have "prefix (al_ledger a) (al_ledger (foldl al_exec a later_ops))"
    using ledger_append_only [of a later_ops] unfolding prefix_def .
  ultimately show ?thesis
    using snapshot_determines_ledger [OF _ _ assms(3)] assms(4) ledger_wf_def by blast
qed

end
