(* ===== verification/Path_Namespace.thy ===== *)
theory Path_Namespace
  imports Capability Graph_Versioning
begin

text \<open>
  The path namespace over the object graph, \<^verbatim>\<open>dominion-core/src/vfs.rs\<close>, with the verbatim blobs of
  \<^verbatim>\<open>dominion-core/src/codec.rs\<close> that its byte files are.  A directory is an ordered map from names
  to nodes, a file the id of an object.  A \<^verbatim>\<open>&mut\<close> into the tree becomes a function that is applied at
  that place.  The namespace is shown to implement a map from paths to entries, and a snapshot in
  the graph is shown to restore the tree it was made from.
\<close>

subsection \<open>State\<close>

datatype vfs_error =
    VNotFound | VNotADirectory | VIsADirectory | VNotEmpty | VInvalidPath | VDanglingAlias | VCapability cap_error

definition DIR_KIND :: rstring where "DIR_KIND = ascii ''Dir''"
definition BLOB_KIND :: rstring where "BLOB_KIND = ascii ''Blob''"

datatype vnode = VDir "(rstring \<times> vnode) list" | VFile object_id

type_synonym dir_map = "(rstring, vnode) btree"

record vfs =
  vfs_root :: vnode

definition vfs_new :: vfs where
  "vfs_new = \<lparr>vfs_root = VDir []\<rparr>"

subsection \<open>Paths\<close>

definition components :: "rstring \<Rightarrow> rstring list" where
  "components path =
    foldl (\<lambda>out seg. if seg = [] \<or> seg = ascii ''.'' then out
                     else if seg = ascii ''..'' then butlast out
                     else out @ [seg]) [] (str_split 0x2F path)"

text \<open>
  Go to the directory \<open>comps\<close>, creating what is missing on the way, and apply \<open>f\<close> to its map.
\<close>

fun ensure_dir :: "rstring list \<Rightarrow> (dir_map \<Rightarrow> 'a \<times> dir_map) \<Rightarrow> dir_map \<Rightarrow> (vfs_error + 'a) \<times> dir_map" where
  "ensure_dir [] f m = (case f m of (x, m') \<Rightarrow> (Ok x, m'))"
| "ensure_dir (c # cs) f m =
    (let m = bt_or_insert c (VDir []) m in
     case the (bt_get m c) of
       VDir sub \<Rightarrow> (case ensure_dir cs f sub of (r, sub') \<Rightarrow> (r, bt_insert c (VDir sub') m))
     | VFile _ \<Rightarrow> (Err VNotADirectory, m))"

text \<open>The root is always a directory.\<close>

definition root_map :: "vfs \<Rightarrow> dir_map" where
  "root_map v = (case vfs_root v of VDir m \<Rightarrow> m | VFile _ \<Rightarrow> [])"

definition ensure_dir_mut ::
    "rstring list \<Rightarrow> (dir_map \<Rightarrow> 'a \<times> dir_map) \<Rightarrow> vfs \<Rightarrow> (vfs_error + 'a) \<times> vfs" where
  "ensure_dir_mut comps f v =
    (case ensure_dir comps f (root_map v) of (r, m) \<Rightarrow> (r, v\<lparr>vfs_root := VDir m\<rparr>))"

fun node_at :: "vnode \<Rightarrow> rstring list \<Rightarrow> vnode option" where
  "node_at n [] = Some n"
| "node_at (VDir m) (c # cs) = Option.bind (bt_get m c) (\<lambda>n. node_at n cs)"
| "node_at (VFile _) (c # cs) = None"

definition force_mkdir :: "rstring \<Rightarrow> vfs \<Rightarrow> vfs" where
  "force_mkdir path v = snd (ensure_dir_mut (components path) (\<lambda>m. ((), m)) v)"

definition vfs_with_fhs :: vfs where
  "vfs_with_fhs =
    foldl (\<lambda>v d. force_mkdir d v) vfs_new
      (map ascii [''/etc'', ''/usr/lib'', ''/usr/bin'', ''/tmp'', ''/home'', ''/var''])"

subsection \<open>Operations\<close>

definition vfs_require :: "capability \<Rightarrow> rights \<Rightarrow> vfs_error + unit" where
  "vfs_require cap needed =
    (if \<not> cap_is_valid cap then Err (VCapability TagInvalid)
     else if \<not> rights_contains (cap_rights cap) needed then Err (VCapability InsufficientRights)
     else Ok ())"

definition mkdir_p :: "rstring \<Rightarrow> capability \<Rightarrow> vfs \<Rightarrow> (vfs_error + unit) \<times> vfs" where
  "mkdir_p path cap v =
    (case vfs_require cap rights_WRITE of
       Inl e \<Rightarrow> (Err e, v)
     | Inr _ \<Rightarrow> ensure_dir_mut (components path) (\<lambda>m. ((), m)) v)"

text \<open>
  \<open>write_object\<close> stores the object only after the directory check: the place of the graph update
  inside the map function is that of \<^verbatim>\<open>graph.put\<close> in the source.
\<close>

definition write_entry ::
    "object_graph \<Rightarrow> rstring \<Rightarrow> object \<Rightarrow> dir_map \<Rightarrow> ((vfs_error + object_id) \<times> object_graph) \<times> dir_map" where
  "write_entry g name obj m =
    (case bt_get m name of
       Some (VDir _) \<Rightarrow> ((Err VIsADirectory, g), m)
     | _ \<Rightarrow> (case og_put obj g of (i, g') \<Rightarrow> ((Ok i, g'), bt_insert name (VFile i) m)))"

definition write_object ::
    "object_graph \<Rightarrow> rstring \<Rightarrow> object \<Rightarrow> capability \<Rightarrow> vfs \<Rightarrow> (vfs_error + object_id) \<times> object_graph \<times> vfs" where
  "write_object g path obj cap v =
    (case vfs_require cap rights_WRITE of
       Inl e \<Rightarrow> (Err e, g, v)
     | Inr _ \<Rightarrow>
        let comps = components path in
        if comps = [] then (Err VInvalidPath, g, v)
        else
          case ensure_dir_mut (butlast comps) (write_entry g (last comps) obj) v of
            (Inl e, v') \<Rightarrow> (Err e, g, v')
          | (Inr (r, g'), v') \<Rightarrow> (r, g', v'))"

definition blob_to_object :: "rstring \<Rightarrow> bytes \<Rightarrow> object" where
  "blob_to_object media_type bs =
    object_set (ascii ''data'') (DBytes bs)
      (object_set (ascii ''media_type'') (DText media_type) (object_new BLOB_KIND))"

definition blob_bytes_of :: "object \<Rightarrow> bytes option" where
  "blob_bytes_of obj = (case object_get obj (ascii ''data'') of Some (DBytes b) \<Rightarrow> Some b | _ \<Rightarrow> None)"

definition vfs_write_bytes ::
    "object_graph \<Rightarrow> rstring \<Rightarrow> rstring \<Rightarrow> bytes \<Rightarrow> capability \<Rightarrow> vfs
      \<Rightarrow> (vfs_error + object_id) \<times> object_graph \<times> vfs" where
  "vfs_write_bytes g path media_type bs cap v = write_object g path (blob_to_object media_type bs) cap v"

definition vfs_resolve :: "vfs \<Rightarrow> rstring \<Rightarrow> object_id option" where
  "vfs_resolve v path = (case node_at (vfs_root v) (components path) of Some (VFile i) \<Rightarrow> Some i | _ \<Rightarrow> None)"

definition read_object :: "vfs \<Rightarrow> object_graph \<Rightarrow> rstring \<Rightarrow> capability \<Rightarrow> vfs_error + object" where
  "read_object v g path cap =
    rbind (vfs_require cap rights_READ) (\<lambda>_.
      case node_at (vfs_root v) (components path) of
        Some (VFile i) \<Rightarrow> ok_or (og_get g i) VDanglingAlias
      | Some (VDir _) \<Rightarrow> Err VIsADirectory
      | None \<Rightarrow> Err VNotFound)"

definition vfs_read_bytes :: "vfs \<Rightarrow> object_graph \<Rightarrow> rstring \<Rightarrow> capability \<Rightarrow> vfs_error + bytes" where
  "vfs_read_bytes v g path cap =
    rbind (read_object v g path cap) (\<lambda>obj. ok_or (blob_bytes_of obj) VNotADirectory)"

definition vfs_exists :: "vfs \<Rightarrow> rstring \<Rightarrow> bool" where
  "vfs_exists v path \<longleftrightarrow> node_at (vfs_root v) (components path) \<noteq> None"

definition vfs_is_dir :: "vfs \<Rightarrow> rstring \<Rightarrow> bool" where
  "vfs_is_dir v path = (case node_at (vfs_root v) (components path) of Some (VDir _) \<Rightarrow> True | _ \<Rightarrow> False)"

definition vfs_is_file :: "vfs \<Rightarrow> rstring \<Rightarrow> bool" where
  "vfs_is_file v path = (case node_at (vfs_root v) (components path) of Some (VFile _) \<Rightarrow> True | _ \<Rightarrow> False)"

definition vfs_list :: "vfs \<Rightarrow> rstring \<Rightarrow> vfs_error + rstring list" where
  "vfs_list v path =
    (case node_at (vfs_root v) (components path) of
       Some (VDir m) \<Rightarrow> Ok (map fst m)
     | Some (VFile _) \<Rightarrow> Err VNotADirectory
     | None \<Rightarrow> Err VNotFound)"

definition remove_entry :: "rstring \<Rightarrow> dir_map \<Rightarrow> (vfs_error + unit) \<times> dir_map" where
  "remove_entry name m =
    (case bt_get m name of
       None \<Rightarrow> (Err VNotFound, m)
     | Some (VDir sub) \<Rightarrow> if sub \<noteq> [] then (Err VNotEmpty, m) else (Ok (), bt_remove name m)
     | Some (VFile _) \<Rightarrow> (Ok (), bt_remove name m))"

definition vfs_remove :: "rstring \<Rightarrow> capability \<Rightarrow> vfs \<Rightarrow> (vfs_error + unit) \<times> vfs" where
  "vfs_remove path cap v =
    (case vfs_require cap rights_WRITE of
       Inl e \<Rightarrow> (Err e, v)
     | Inr _ \<Rightarrow>
        let comps = components path in
        if comps = [] then (Err VInvalidPath, v)
        else
          case ensure_dir_mut (butlast comps) (remove_entry (last comps)) v of
            (Inl e, v') \<Rightarrow> (Err e, v')
          | (Inr r, v') \<Rightarrow> (r, v'))"

subsection \<open>Snapshots\<close>

fun snapshot_node :: "vnode \<Rightarrow> object_graph \<Rightarrow> object_id \<times> object_graph"
  and snapshot_entries :: "(rstring \<times> vnode) list \<Rightarrow> object \<Rightarrow> object_graph \<Rightarrow> object \<times> object_graph" where
  "snapshot_node (VFile i) g = (i, g)"
| "snapshot_node (VDir m) g =
    (case snapshot_entries m (object_new DIR_KIND) g of (obj, g') \<Rightarrow> og_put obj g')"
| "snapshot_entries [] obj g = (obj, g)"
| "snapshot_entries ((name, child) # m) obj g =
    (case snapshot_node child g of (cid, g') \<Rightarrow> snapshot_entries m (object_set name (DRef cid) obj) g')"

definition snapshot_namespace :: "vfs \<Rightarrow> object_graph \<Rightarrow> object_id \<times> object_graph" where
  "snapshot_namespace v g = snapshot_node (vfs_root v) g"

definition vfs_commit :: "object_graph \<Rightarrow> rstring \<Rightarrow> capability \<Rightarrow> vfs \<Rightarrow> (vfs_error + hash256) \<times> object_graph" where
  "vfs_commit g message cap v =
    (case vfs_require cap rights_WRITE of
       Inl e \<Rightarrow> (Err e, g)
     | Inr _ \<Rightarrow> (case og_commit message (snd (snapshot_namespace v g)) of (h, g') \<Rightarrow> (Ok h, g')))"

text \<open>
  \<^verbatim>\<open>load_node\<close> follows references through the graph without a bound of its own; \<open>fuel\<close> is the depth
  to which it is followed, and the outer \<open>None\<close> means that it did not suffice.
\<close>

fun load_fields :: "(object_id \<Rightarrow> vnode option option) \<Rightarrow> (rstring \<times> datum) list \<Rightarrow> dir_map \<Rightarrow> dir_map option" where
  "load_fields ld [] m = Some m"
| "load_fields ld ((name, DRef cid) # fs) m =
    Option.bind (ld cid) (\<lambda>r. load_fields ld fs (case r of Some child \<Rightarrow> bt_insert name child m | None \<Rightarrow> m))"
| "load_fields ld (f # fs) m = load_fields ld fs m"

primrec load_node :: "nat \<Rightarrow> object_graph \<Rightarrow> object_id \<Rightarrow> vnode option option" where
  "load_node 0 g i = None"
| "load_node (Suc fuel) g i =
    (case og_get g i of
       None \<Rightarrow> Some None
     | Some obj \<Rightarrow>
        if obj_kind obj = DIR_KIND
        then map_option (\<lambda>m. Some (VDir m)) (load_fields (load_node fuel g) (obj_fields obj) [])
        else Some (Some (VFile i)))"

definition from_namespace :: "nat \<Rightarrow> object_graph \<Rightarrow> object_id \<Rightarrow> vfs option option" where
  "from_namespace fuel g root =
    map_option (\<lambda>r. case r of Some (VDir m) \<Rightarrow> Some \<lparr>vfs_root = VDir m\<rparr> | _ \<Rightarrow> None) (load_node fuel g root)"

subsection \<open>The namespace as a map from paths\<close>

datatype vfs_entry = EDir | EFile object_id

primrec entry_of :: "vnode \<Rightarrow> vfs_entry" where
  "entry_of (VDir m) = EDir"
| "entry_of (VFile i) = EFile i"

definition entry :: "vnode \<Rightarrow> rstring list \<Rightarrow> vfs_entry option" where
  "entry n cs = map_option entry_of (node_at n cs)"

definition fs_of :: "vfs \<Rightarrow> rstring list \<Rightarrow> vfs_entry option" where
  "fs_of v = entry (vfs_root v)"

text \<open>A file stands on the way: no directory can be there.\<close>

definition blocked :: "(rstring list \<Rightarrow> vfs_entry option) \<Rightarrow> rstring list \<Rightarrow> bool" where
  "blocked fs cs \<longleftrightarrow> (\<exists>k \<le> length cs. \<exists>i. fs (take k cs) = Some (EFile i))"

definition with_dirs :: "rstring list \<Rightarrow> (rstring list \<Rightarrow> vfs_entry option) \<Rightarrow> rstring list \<Rightarrow> vfs_entry option" where
  "with_dirs cs fs q = (if \<exists>r. cs = q @ r then Some EDir else fs q)"

lemma entry_Nil [simp]: "entry n [] = Some (entry_of n)"
  by (simp add: entry_def)

lemma entry_VDir_Cons: "entry (VDir m) (c # cs) = Option.bind (bt_get m c) (\<lambda>n. entry n cs)"
  by (cases "bt_get m c") (simp_all add: entry_def)

lemma entry_VFile_Cons [simp]: "entry (VFile i) (c # cs) = None"
  by (simp add: entry_def)

lemma entry_EFile: "entry n cs = Some (EFile i) \<longleftrightarrow> node_at n cs = Some (VFile i)"
proof (cases "node_at n cs")
  case (Some x)
  then show ?thesis by (cases x) (simp_all add: entry_def)
qed (simp add: entry_def)

lemma entry_EDir: "entry n cs = Some EDir \<longleftrightarrow> (\<exists>m. node_at n cs = Some (VDir m))"
proof (cases "node_at n cs")
  case (Some x)
  then show ?thesis by (cases x) (simp_all add: entry_def)
qed (simp add: entry_def)

lemma blocked_Cons:
  "blocked (entry (VDir m)) (c # cs) \<longleftrightarrow>
    (case bt_get m c of None \<Rightarrow> False | Some n \<Rightarrow> blocked (entry n) cs)"
proof -
  have "blocked (entry (VDir m)) (c # cs) \<longleftrightarrow>
      (\<exists>k \<le> length cs. \<exists>i. entry (VDir m) (c # take k cs) = Some (EFile i))" (is "_ = ?rhs")
  proof
    assume "blocked (entry (VDir m)) (c # cs)"
    then obtain k i where "k \<le> Suc (length cs)" "entry (VDir m) (take k (c # cs)) = Some (EFile i)"
      by (auto simp: blocked_def)
    then show ?rhs by (cases k) auto
  next
    assume ?rhs
    then obtain k i where "k \<le> length cs" "entry (VDir m) (take (Suc k) (c # cs)) = Some (EFile i)" by auto
    then show "blocked (entry (VDir m)) (c # cs)" unfolding blocked_def by (intro exI [of _ "Suc k"]) auto
  qed
  then show ?thesis by (auto simp: entry_VDir_Cons blocked_def split: option.splits)
qed

text \<open>The directory that \<open>ensure_dir\<close> hands to its function.\<close>

definition dir_at :: "dir_map \<Rightarrow> rstring list \<Rightarrow> dir_map" where
  "dir_at m cs = (case node_at (VDir m) cs of Some (VDir sub) \<Rightarrow> sub | _ \<Rightarrow> [])"

lemma dir_at_simps [simp]:
  "dir_at m [] = m"
  "bt_get m c = Some (VDir sub) \<Longrightarrow> dir_at m (c # cs) = dir_at sub cs"
  "bt_get m c = None \<Longrightarrow> dir_at m (c # cs) = []"
  by (simp_all add: dir_at_def)

lemma dir_at_empty [simp]: "dir_at [] cs = []"
  by (cases cs) (simp_all add: dir_at_def)

lemma entry_empty [simp]: "entry (VDir []) q = (if q = [] then Some EDir else None)"
  by (cases q) (simp_all add: entry_VDir_Cons)

lemma not_blocked_empty [simp]: "\<not> blocked (entry (VDir [])) cs"
  by (auto simp: blocked_def split: if_splits)

lemma blocked_file [simp]: "blocked (entry (VFile i)) cs"
  unfolding blocked_def by (intro exI [of _ 0]) simp

lemma ensure_dir_blocked:
  "blocked (entry (VDir m)) cs \<Longrightarrow>
    fst (ensure_dir cs f m) = Err VNotADirectory \<and> entry (VDir (snd (ensure_dir cs f m))) = entry (VDir m)"
proof (induction cs arbitrary: m)
  case Nil
  then show ?case by (auto simp: blocked_def)
next
  case (Cons c cs)
  then obtain n where n: "bt_get m c = Some n" "blocked (entry n) cs"
    by (auto simp: blocked_Cons split: option.splits)
  then have ins: "bt_or_insert c (VDir []) m = m" by (simp add: bt_or_insert_def bt_contains_def)
  show ?case
  proof (cases n)
    case (VFile i)
    then show ?thesis using n ins by simp
  next
    case (VDir sub)
    then have IH: "fst (ensure_dir cs f sub) = Err VNotADirectory"
      "entry (VDir (snd (ensure_dir cs f sub))) = entry (VDir sub)"
      using Cons.IH [of sub] n(2) by simp_all
    have "entry (VDir (bt_insert c (VDir (snd (ensure_dir cs f sub))) m)) q = entry (VDir m) q" for q
      using IH(2) n(1) VDir by (cases q) (auto simp: entry_VDir_Cons)
    then show ?thesis
      using IH(1) n(1) ins VDir by (cases "ensure_dir cs f sub") (simp add: fun_eq_iff)
  qed
qed

text \<open>What is left of a path below another one.\<close>

fun below :: "rstring list \<Rightarrow> rstring list \<Rightarrow> rstring list option" where
  "below [] q = Some q"
| "below (c # cs) (d # q) = (if c = d then below cs q else None)"
| "below (c # cs) [] = None"

lemma below_Some_iff: "below cs q = Some r \<longleftrightarrow> q = cs @ r"
  by (induction cs q rule: below.induct) auto

lemma below_append [simp]: "below cs cs = Some []" "below cs (cs @ r) = Some r"
  by (simp_all add: below_Some_iff)

lemma with_dirs_simps:
  "with_dirs cs fs [] = Some EDir"
  "with_dirs [] fs (d # q) = fs (d # q)"
  "with_dirs (c # cs) fs (d # q) = (if c = d then with_dirs cs (\<lambda>q. fs (c # q)) q else fs (d # q))"
  by (auto simp: with_dirs_def)

lemma ensure_dir_ok:
  "\<not> blocked (entry (VDir m)) cs \<Longrightarrow> f (dir_at m cs) = (x, sub') \<Longrightarrow>
    fst (ensure_dir cs f m) = Ok x \<and>
    entry (VDir (snd (ensure_dir cs f m))) q =
      (case below cs q of Some r \<Rightarrow> entry (VDir sub') r | None \<Rightarrow> with_dirs cs (entry (VDir m)) q)"
proof (induction cs arbitrary: m q)
  case Nil
  then show ?case by simp
next
  case (Cons c cs)
  define sub where "sub = (case bt_get m c of Some (VDir sub) \<Rightarrow> sub | _ \<Rightarrow> [])"
  define m1 where "m1 = bt_or_insert c (VDir []) m"
  have sub: "\<not> blocked (entry (VDir sub)) cs" "f (dir_at sub cs) = (x, sub')" "bt_get m1 c = Some (VDir sub)"
    "\<And>d. d \<noteq> c \<Longrightarrow> bt_get m1 d = bt_get m d"
    "\<And>q. with_dirs cs (entry (VDir sub)) q = with_dirs cs (\<lambda>q. entry (VDir m) (c # q)) q"
    using Cons.prems
    by (auto simp: sub_def m1_def blocked_Cons bt_get_or_insert entry_VDir_Cons with_dirs_def
        split: option.splits vnode.splits)
  note IH = Cons.IH [OF sub(1,2)]
  have "entry (VDir (bt_insert c (VDir (snd (ensure_dir cs f sub))) m1)) q =
      (case below (c # cs) q of Some r \<Rightarrow> entry (VDir sub') r | None \<Rightarrow> with_dirs (c # cs) (entry (VDir m)) q)"
    using IH sub(3-5) by (cases q) (auto simp: entry_VDir_Cons with_dirs_simps split: option.split)
  then show ?case
    using IH sub(3) by (cases "ensure_dir cs f sub") (simp add: m1_def [symmetric] Let_def)
qed

subsection \<open>The operations on the map\<close>

definition vfs_wf :: "vfs \<Rightarrow> bool" where
  "vfs_wf v \<longleftrightarrow> (\<exists>m. vfs_root v = VDir m)"

lemma ensure_dir_mut_blocked:
  assumes "vfs_wf v" and "blocked (fs_of v) cs"
  shows "fst (ensure_dir_mut cs f v) = Err VNotADirectory \<and> fs_of (snd (ensure_dir_mut cs f v)) = fs_of v \<and>
    vfs_wf (snd (ensure_dir_mut cs f v))"
proof -
  obtain m where m: "vfs_root v = VDir m" using assms(1) by (auto simp: vfs_wf_def)
  then show ?thesis
    using ensure_dir_blocked [of m cs f] assms(2)
    by (cases "ensure_dir cs f m") (simp add: ensure_dir_mut_def root_map_def fs_of_def vfs_wf_def)
qed

lemma ensure_dir_mut_ok:
  assumes "vfs_wf v" and "\<not> blocked (fs_of v) cs" and "f (dir_at (root_map v) cs) = (x, sub')"
  shows "fst (ensure_dir_mut cs f v) = Ok x \<and> vfs_wf (snd (ensure_dir_mut cs f v)) \<and>
    fs_of (snd (ensure_dir_mut cs f v)) q =
      (case below cs q of Some r \<Rightarrow> entry (VDir sub') r | None \<Rightarrow> with_dirs cs (fs_of v) q)"
proof -
  obtain m where m: "vfs_root v = VDir m" using assms(1) by (auto simp: vfs_wf_def)
  then have fs: "fs_of v = entry (VDir m)" by (simp add: fs_of_def)
  show ?thesis
    using ensure_dir_ok [of m cs f x sub' q] assms(2,3) m unfolding fs
    by (cases "ensure_dir cs f m") (simp add: ensure_dir_mut_def root_map_def fs_of_def vfs_wf_def)
qed

text \<open>The entry of a name in the directory that was reached.\<close>

lemma node_at_append: "node_at n (cs @ ds) = Option.bind (node_at n cs) (\<lambda>n. node_at n ds)"
proof (induction n cs rule: node_at.induct)
  case (2 m c cs)
  then show ?case by (cases "bt_get m c") auto
qed auto

lemma bt_get_dir_at:
  assumes "vfs_wf v" and "\<not> blocked (fs_of v) cs"
  shows "bt_get (dir_at (root_map v) cs) c = node_at (vfs_root v) (cs @ [c])"
proof -
  obtain m where m: "vfs_root v = VDir m" using assms(1) by (auto simp: vfs_wf_def)
  have "entry (VDir m) cs \<noteq> Some (EFile i)" for i
    using assms(2) m unfolding blocked_def fs_of_def by (metis order_refl take_all)
  then have "node_at (VDir m) cs \<noteq> Some (VFile i)" for i by (simp add: entry_EFile)
  then show ?thesis
    using m by (auto simp: root_map_def dir_at_def node_at_append split: option.splits vnode.splits)
qed

lemma entry_dir_at:
  assumes "vfs_wf v" and "\<not> blocked (fs_of v) cs" and "r \<noteq> []"
  shows "entry (VDir (dir_at (root_map v) cs)) r = fs_of v (cs @ r)"
proof -
  obtain d r' where r: "r = d # r'" using assms(3) by (cases r) auto
  have "node_at (vfs_root v) (cs @ d # r') = Option.bind (node_at (vfs_root v) (cs @ [d])) (\<lambda>n. node_at n r')"
    using node_at_append [of "vfs_root v" "cs @ [d]" r'] by simp
  then show ?thesis
    using bt_get_dir_at [OF assms(1,2), of d]
    by (cases "node_at (vfs_root v) (cs @ [d])") (simp_all add: r entry_VDir_Cons fs_of_def entry_def)
qed

text \<open>The specification of the three mutations on the map from paths to entries.\<close>

definition spec_mkdir :: "rstring list \<Rightarrow> (rstring list \<Rightarrow> vfs_entry option) \<Rightarrow> rstring list \<Rightarrow> vfs_entry option" where
  "spec_mkdir cs fs = (\<lambda>q. if \<exists>r. cs = q @ r then Some EDir else fs q)"

lemma with_dirs_eq: "with_dirs cs fs = spec_mkdir cs fs"
  by (simp add: fun_eq_iff with_dirs_def spec_mkdir_def)

lemma below_with_dirs:
  assumes "vfs_wf v" and "\<not> blocked (fs_of v) cs"
  shows "(case below cs q of Some r \<Rightarrow> entry (VDir (dir_at (root_map v) cs)) r | None \<Rightarrow> with_dirs cs (fs_of v) q)
    = spec_mkdir cs (fs_of v) q"
proof (cases "below cs q")
  case None
  then show ?thesis by (simp add: with_dirs_eq)
next
  case (Some r)
  then have "q = cs @ r" by (simp add: below_Some_iff)
  then show ?thesis using Some entry_dir_at [OF assms, of r] by (cases "r = []") (auto simp: spec_mkdir_def)
qed

lemma fs_of_parent:
  assumes "vfs_wf v" and "fs_of v (cs @ r) \<noteq> None" and "r \<noteq> []"
  shows "fs_of v cs = Some EDir"
proof -
  obtain n where n: "node_at (vfs_root v) cs = Some n" "node_at n r \<noteq> None"
    using assms(2) by (auto simp: fs_of_def entry_def node_at_append split: option.splits bind_splits)
  then show ?thesis using assms(3) by (cases n; cases r) (auto simp: fs_of_def entry_def)
qed

lemma spec_mkdir_parents:
  assumes "vfs_wf v" and "fs_of v (cs @ r) \<noteq> None" and "r \<noteq> []"
  shows "spec_mkdir cs (fs_of v) = fs_of v"
proof
  fix q
  show "spec_mkdir cs (fs_of v) q = fs_of v q"
  proof (cases "\<exists>ra. cs = q @ ra")
    case True
    then obtain ra where "cs = q @ ra" by blast
    then show ?thesis using fs_of_parent [OF assms(1), of q "ra @ r"] assms(2,3) by (simp add: spec_mkdir_def)
  qed (simp add: spec_mkdir_def)
qed

text \<open>A file or an absent entry has nothing below it.\<close>

lemma fs_of_below_file:
  assumes "fs_of v cs \<noteq> Some EDir" and "vfs_wf v" and "r \<noteq> []"
  shows "fs_of v (cs @ r) = None"
  using fs_of_parent [OF assms(2), of cs r] assms(1,3) by blast

definition spec_mkdir_p :: "rstring list \<Rightarrow> (rstring list \<Rightarrow> vfs_entry option) \<Rightarrow>
    (vfs_error + unit) \<times> (rstring list \<Rightarrow> vfs_entry option)" where
  "spec_mkdir_p cs fs = (if blocked fs cs then (Err VNotADirectory, fs) else (Ok (), spec_mkdir cs fs))"

definition spec_write_p :: "rstring list \<Rightarrow> object_id \<Rightarrow> (rstring list \<Rightarrow> vfs_entry option) \<Rightarrow>
    (vfs_error + object_id) \<times> (rstring list \<Rightarrow> vfs_entry option)" where
  "spec_write_p cs i fs =
    (if cs = [] then (Err VInvalidPath, fs)
     else if blocked fs (butlast cs) then (Err VNotADirectory, fs)
     else if fs cs = Some EDir then (Err VIsADirectory, fs)
     else (Ok i, (spec_mkdir (butlast cs) fs)(cs \<mapsto> EFile i)))"

definition spec_remove_p :: "rstring list \<Rightarrow> (rstring list \<Rightarrow> vfs_entry option) \<Rightarrow>
    (vfs_error + unit) \<times> (rstring list \<Rightarrow> vfs_entry option)" where
  "spec_remove_p cs fs =
    (if cs = [] then (Err VInvalidPath, fs)
     else if blocked fs (butlast cs) then (Err VNotADirectory, fs)
     else if fs cs = None then (Err VNotFound, spec_mkdir (butlast cs) fs)
     else if \<exists>c. fs (cs @ [c]) \<noteq> None then (Err VNotEmpty, fs)
     else (Ok (), fs(cs := None)))"

lemma mkdir_step:
  assumes "vfs_wf v"
  shows "vfs_wf (snd (ensure_dir_mut cs (\<lambda>m. ((), m)) v)) \<and>
    (fst (ensure_dir_mut cs (\<lambda>m. ((), m)) v), fs_of (snd (ensure_dir_mut cs (\<lambda>m. ((), m)) v))) =
      spec_mkdir_p cs (fs_of v)"
proof (cases "blocked (fs_of v) cs")
  case True
  then show ?thesis using ensure_dir_mut_blocked [OF assms True, of "\<lambda>m. ((), m)"] by (simp add: spec_mkdir_p_def)
next
  case False
  then show ?thesis
    using ensure_dir_mut_ok [OF assms False, of "\<lambda>m. ((), m)" "()" "dir_at (root_map v) cs"]
      below_with_dirs [OF assms False]
    by (simp add: fun_eq_iff spec_mkdir_p_def)
qed

text \<open>An update of one name in the directory that was reached.\<close>

lemma update_name:
  assumes "vfs_wf v" and "\<not> blocked (fs_of v) cs" and "\<And>r. r \<noteq> [] \<Longrightarrow> fs_of v (cs @ [c] @ r) = None"
    and "\<And>d. bt_get sub' d = (if d = c then n else bt_get (dir_at (root_map v) cs) d)"
    and "\<And>r. r \<noteq> [] \<Longrightarrow> Option.bind n (\<lambda>n. entry n r) = None"
  shows "(case below cs q of Some r \<Rightarrow> entry (VDir sub') r | None \<Rightarrow> with_dirs cs (fs_of v) q) =
    ((spec_mkdir cs (fs_of v))(cs @ [c] := map_option entry_of n)) q"
proof (cases "below cs q")
  case None
  then have "q \<noteq> cs @ [c]" using below_Some_iff [of cs q "[c]"] by auto
  then show ?thesis using None by (simp add: with_dirs_eq)
next
  case (Some r)
  then have q: "q = cs @ r" by (simp add: below_Some_iff)
  have same: "entry (VDir sub') (d # r') = fs_of v (cs @ d # r')" if "d \<noteq> c" for d r'
    using entry_dir_at [OF assms(1,2), of "d # r'"] that by (simp add: entry_VDir_Cons assms(4))
  show ?thesis
  proof (cases r)
    case Nil
    then show ?thesis by (simp add: q Some spec_mkdir_def)
  next
    case (Cons d r')
    show ?thesis
    proof (cases "d = c")
      case True
      then show ?thesis
        using assms(3) [of r'] assms(5) [of r'] Cons Some
        by (cases "r' = []"; cases n) (auto simp: q entry_VDir_Cons assms(4) spec_mkdir_def)
    next
      case False
      then show ?thesis using same [OF False, of r'] Cons Some by (simp add: q spec_mkdir_def)
    qed
  qed
qed

lemma vfs_write_step:
  assumes wf: "vfs_wf v" and put: "og_put obj g = (i, g')"
  shows "case ensure_dir_mut cs (write_entry g c obj) v of (r, v') \<Rightarrow>
    vfs_wf v' \<and> ((case r of Inl e \<Rightarrow> Err e | Inr (r, _) \<Rightarrow> r), fs_of v') = spec_write_p (cs @ [c]) i (fs_of v)"
proof (cases "blocked (fs_of v) cs")
  case True
  then show ?thesis
    using ensure_dir_mut_blocked [OF wf True, of "write_entry g c obj"]
    by (cases "ensure_dir_mut cs (write_entry g c obj) v") (simp add: spec_write_p_def)
next
  case False
  note get = bt_get_dir_at [OF wf False, of c]
  show ?thesis
  proof (cases "fs_of v (cs @ [c]) = Some EDir")
    case True
    then obtain sub where "node_at (vfs_root v) (cs @ [c]) = Some (VDir sub)" by (auto simp: fs_of_def entry_EDir)
    then have "write_entry g c obj (dir_at (root_map v) cs) = ((Err VIsADirectory, g), dir_at (root_map v) cs)"
      using get by (simp add: write_entry_def)
    from ensure_dir_mut_ok [OF wf False, where f = "write_entry g c obj", OF this] show ?thesis
      using below_with_dirs [OF wf False] spec_mkdir_parents [OF wf, of cs "[c]"] True False
      by (cases "ensure_dir_mut cs (write_entry g c obj) v") (auto simp: spec_write_p_def fun_eq_iff)
  next
    case no_dir: False
    then have "write_entry g c obj (dir_at (root_map v) cs) =
        ((Ok i, g'), bt_insert c (VFile i) (dir_at (root_map v) cs))"
      using get put by (auto simp: write_entry_def fs_of_def entry_EDir split: option.splits vnode.splits)
    note ok = ensure_dir_mut_ok [OF wf False, where f = "write_entry g c obj", OF this]
    have "(case below cs q of Some r \<Rightarrow> entry (VDir (bt_insert c (VFile i) (dir_at (root_map v) cs))) r
        | None \<Rightarrow> with_dirs cs (fs_of v) q) = ((spec_mkdir cs (fs_of v))(cs @ [c] := Some (EFile i))) q" for q
    proof -
      have "Option.bind (Some (VFile i)) (\<lambda>n. entry n r) = None" if "r \<noteq> []" for r
        using that by (cases r) simp_all
      then show ?thesis
        using fs_of_below_file [OF no_dir wf] by (subst update_name [OF wf False, where n = "Some (VFile i)"]) simp_all
    qed
    then show ?thesis
      using ok no_dir False
      by (cases "ensure_dir_mut cs (write_entry g c obj) v") (auto simp: spec_write_p_def fun_eq_iff)
  qed
qed

lemma remove_step:
  assumes wf: "vfs_wf v"
  shows "case ensure_dir_mut cs (remove_entry c) v of (r, v') \<Rightarrow>
    vfs_wf v' \<and> ((case r of Inl e \<Rightarrow> Err e | Inr r \<Rightarrow> r), fs_of v') = spec_remove_p (cs @ [c]) (fs_of v)"
proof (cases "blocked (fs_of v) cs")
  case True
  then show ?thesis
    using ensure_dir_mut_blocked [OF wf True, of "remove_entry c"]
    by (cases "ensure_dir_mut cs (remove_entry c) v") (simp add: spec_remove_p_def)
next
  case False
  note get = bt_get_dir_at [OF wf False, of c]
  let ?sub = "dir_at (root_map v) cs"
  consider (absent) "node_at (vfs_root v) (cs @ [c]) = None"
    | (full) sub where "node_at (vfs_root v) (cs @ [c]) = Some (VDir sub)" "sub \<noteq> []"
    | (gone) "node_at (vfs_root v) (cs @ [c]) = Some (VDir []) \<or> (\<exists>i. node_at (vfs_root v) (cs @ [c]) = Some (VFile i))"
    by (metis vnode.exhaust option.exhaust)
  then show ?thesis
  proof cases
    case absent
    then have "remove_entry c ?sub = (Err VNotFound, ?sub)" using get by (simp add: remove_entry_def)
    from ensure_dir_mut_ok [OF wf False, where f = "remove_entry c", OF this] show ?thesis
      using below_with_dirs [OF wf False] False absent
      by (cases "ensure_dir_mut cs (remove_entry c) v")
        (auto simp: spec_remove_p_def fun_eq_iff fs_of_def entry_def)
  next
    case full
    then have here: "remove_entry c ?sub = (Err VNotEmpty, ?sub)" using get by (simp add: remove_entry_def)
    obtain d n sub' where "sub = (d, n) # sub'" using full(2) by (cases sub) auto
    then have "node_at (vfs_root v) ((cs @ [c]) @ [d]) = Some n"
      using full(1) unfolding node_at_append [of _ "cs @ [c]"] by (simp add: bt_get_def)
    then have "fs_of v ((cs @ [c]) @ [d]) \<noteq> None" by (simp add: fs_of_def entry_def)
    then have "\<exists>d. fs_of v ((cs @ [c]) @ [d]) \<noteq> None" by blast
    moreover have some: "fs_of v (cs @ [c]) \<noteq> None" using full(1) by (simp add: fs_of_def entry_def)
    ultimately show ?thesis
      using ensure_dir_mut_ok [OF wf False, where f = "remove_entry c", OF here] below_with_dirs [OF wf False]
        spec_mkdir_parents [OF wf some] False
      by (cases "ensure_dir_mut cs (remove_entry c) v") (auto simp: spec_remove_p_def fun_eq_iff)
  next
    case gone
    then have here: "remove_entry c ?sub = (Ok (), bt_remove c ?sub)" using get by (auto simp: remove_entry_def)
    have some: "fs_of v (cs @ [c]) \<noteq> None" using gone by (auto simp: fs_of_def entry_def)
    have none: "fs_of v ((cs @ [c]) @ r) = None" if "r \<noteq> []" for r
    proof -
      have "node_at (vfs_root v) ((cs @ [c]) @ r) = None"
        using gone that unfolding node_at_append [of _ "cs @ [c]"] by (cases r) auto
      then show ?thesis by (simp add: fs_of_def entry_def)
    qed
    have upd: "(case below cs q of Some r \<Rightarrow> entry (VDir (bt_remove c ?sub)) r | None \<Rightarrow> with_dirs cs (fs_of v) q)
        = ((spec_mkdir cs (fs_of v))(cs @ [c] := None)) q" for q
      using none by (subst update_name [OF wf False, where n = None]) simp_all
    show ?thesis
      using ensure_dir_mut_ok [OF wf False, where f = "remove_entry c", OF here] upd none [of "[_]"] some False spec_mkdir_parents [OF wf some]
      by (cases "ensure_dir_mut cs (remove_entry c) v") (auto simp: spec_remove_p_def fun_eq_iff)
  qed
qed

subsection \<open>Restoring a snapshot\<close>

fun vnode_wf :: "vnode \<Rightarrow> bool" where
  "vnode_wf (VDir m) \<longleftrightarrow> bt_wf m \<and> (\<forall>(c, n) \<in> set m. vnode_wf n)"
| "vnode_wf (VFile i) \<longleftrightarrow> True"

fun vnode_height :: "vnode \<Rightarrow> nat" where
  "vnode_height (VFile i) = 1"
| "vnode_height (VDir m) = Suc (foldr (\<lambda>(c, n) h. max (vnode_height n) h) m 0)"

text \<open>Every file of a tree aliases a stored object that is not itself a directory object.\<close>

fun files_ok :: "object_graph \<Rightarrow> vnode \<Rightarrow> bool" where
  "files_ok g (VFile i) \<longleftrightarrow> (\<exists>obj. og_get g i = Some obj \<and> obj_kind obj \<noteq> DIR_KIND)"
| "files_ok g (VDir m) \<longleftrightarrow> (\<forall>(c, n) \<in> set m. files_ok g n)"

text \<open>The content id of a tree and of the directory object of a map.\<close>

fun node_id :: "vnode \<Rightarrow> object_id" and dir_fields :: "(rstring \<times> vnode) list \<Rightarrow> (rstring \<times> datum) list" where
  "node_id (VFile i) = i"
| "node_id (VDir m) = object_id \<lparr>obj_kind = DIR_KIND, obj_fields = dir_fields m\<rparr>"
| "dir_fields [] = []"
| "dir_fields ((name, child) # m) = (name, DRef (node_id child)) # dir_fields m"

abbreviation dir_object :: "(rstring \<times> vnode) list \<Rightarrow> object" where
  "dir_object m \<equiv> \<lparr>obj_kind = DIR_KIND, obj_fields = dir_fields m\<rparr>"

text \<open>The directory objects of a tree, and that the graph holds them under their ids.\<close>

fun dir_objects :: "vnode \<Rightarrow> object list" and entry_objects :: "(rstring \<times> vnode) list \<Rightarrow> object list" where
  "dir_objects (VFile i) = []"
| "dir_objects (VDir m) = entry_objects m @ [dir_object m]"
| "entry_objects [] = []"
| "entry_objects ((name, child) # m) = dir_objects child @ entry_objects m"

lemma map_fst_dir_fields [simp]: "map fst (dir_fields m) = map fst m"
  by (induction m) auto

lemma set_field_fresh: "name \<notin> fst ` set fs \<Longrightarrow> set_field name v fs = fs @ [(name, v)]"
  by (induction fs) auto

lemma og_get_put_all:
  "og_get (foldl (\<lambda>g obj. snd (og_put obj g)) g objs) i =
    (case og_get g i of Some obj \<Rightarrow> Some obj | None \<Rightarrow> List.find (\<lambda>obj. object_id obj = i) objs)"
  by (induction objs arbitrary: g) (auto simp: og_get_put split: option.splits)

lemma snapshot_eq:
  "vnode_wf n \<Longrightarrow> snapshot_node n g = (node_id n, foldl (\<lambda>g obj. snd (og_put obj g)) g (dir_objects n))"
  "bt_wf m \<Longrightarrow> \<forall>(c, n) \<in> set m. vnode_wf n \<Longrightarrow> obj_kind obj = DIR_KIND \<Longrightarrow>
    fst ` set m \<inter> fst ` set (obj_fields obj) = {} \<Longrightarrow>
    snapshot_entries m obj g =
      (obj\<lparr>obj_fields := obj_fields obj @ dir_fields m\<rparr>, foldl (\<lambda>g obj. snd (og_put obj g)) g (entry_objects m))"
proof (induction n g and m obj g rule: snapshot_node_snapshot_entries.induct)
  case (2 m g)
  then show ?case by (simp add: object_new_def og_put_eq)
next
  case (4 name child m obj g)
  then show ?case
    by (auto simp: bt_wf_Cons object_set_def set_field_fresh)
qed auto

lemma og_get_snapshot:
  assumes "cs_inv object_id (og_store g)" and "inj_on object_id (snd ` set (og_store g) \<union> set objs)"
    and "obj \<in> set objs"
  shows "og_get (foldl (\<lambda>g obj. snd (og_put obj g)) g objs) (object_id obj) = Some obj"
proof (cases "og_get g (object_id obj)")
  case (Some x)
  then have "(object_id obj, x) \<in> set (og_store g)" by (auto simp: og_get_def cs_fetch_def dest: bt_get_SomeD)
  then have "object_id x = object_id obj" "x \<in> snd ` set (og_store g)" using assms(1) by (auto simp: cs_inv_def) force
  then have "x = obj" using assms(2,3) by (auto dest: inj_onD)
  then show ?thesis using Some by (simp add: og_get_put_all)
next
  case None
  obtain y where y: "List.find (\<lambda>o'. object_id o' = object_id obj) objs = Some y"
    using assms(3) by (cases "List.find (\<lambda>o'. object_id o' = object_id obj) objs") (auto simp: find_None_iff)
  then have "object_id y = object_id obj" "y \<in> set objs" by (auto simp: find_Some_iff in_set_conv_nth)
  then have "y = obj" using assms(2,3) by (auto dest: inj_onD)
  then show ?thesis using None y by (simp add: og_get_put_all)
qed

lemma load_fields_children:
  assumes "\<And>name child. (name, child) \<in> set m \<Longrightarrow> ld (node_id child) = Some (Some child)"
  shows "load_fields ld (dir_fields m) acc = Some (foldl (\<lambda>acc (k, v). bt_insert k v acc) acc m)"
  using assms
proof (induction m arbitrary: acc)
  case (Cons x m)
  obtain name child where x: "x = (name, child)" by (cases x)
  then have "ld (node_id child) = Some (Some child)" using Cons.prems [of name child] by simp
  moreover have "load_fields ld (dir_fields m) a = Some (foldl (\<lambda>acc (k, v). bt_insert k v acc) a m)" for a
    using Cons.prems by (intro Cons.IH) auto
  ultimately show ?case by (simp add: x)
qed simp

lemma entry_objects_child:
  "(name, child) \<in> set m \<Longrightarrow> set (dir_objects child) \<subseteq> set (entry_objects m)"
  by (induction m) auto

lemma child_height: "(name, child) \<in> set m \<Longrightarrow> vnode_height child < vnode_height (VDir m)"
  by (induction m) (auto simp: less_Suc_eq_le)

lemma load_snapshot:
  assumes "vnode_wf n" and "files_ok g n" and "\<And>obj. obj \<in> set (dir_objects n) \<Longrightarrow> og_get g (object_id obj) = Some obj"
    and "vnode_height n \<le> fuel"
  shows "load_node fuel g (node_id n) = Some (Some n)"
  using assms
proof (induction n arbitrary: fuel)
  case (VFile i)
  then show ?case by (cases fuel) auto
next
  case (VDir m)
  obtain k where k: "fuel = Suc k" using VDir.prems(4) by (cases fuel) auto
  have "load_node k g (node_id child) = Some (Some child)" if mem: "(name, child) \<in> set m" for name child
  proof (rule VDir.IH [OF mem])
    show "child \<in> Basic_BNFs.snds (name, child)" by simp
    show "vnode_wf child" "files_ok g child" using VDir.prems(1,2) mem by auto
    show "og_get g (object_id obj) = Some obj" if "obj \<in> set (dir_objects child)" for obj
      using VDir.prems(3) entry_objects_child [OF mem] that by auto
    show "vnode_height child \<le> k" using child_height [OF mem] VDir.prems(4) k by simp
  qed
  then have "load_fields (load_node k g) (dir_fields m) [] = Some (foldl (\<lambda>acc (k, v). bt_insert k v acc) [] m)"
    by (rule load_fields_children)
  moreover have "foldl (\<lambda>acc (k, v). bt_insert k v acc) [] m = m"
    using foldl_bt_insert_append [of "[]" m] VDir.prems(1) by simp
  moreover have "og_get g (node_id (VDir m)) = Some (dir_object m)" using VDir.prems(3) by simp
  ultimately show ?case by (simp add: k)
qed

lemma files_ok_mono:
  "files_ok g n \<Longrightarrow> (\<And>i obj. og_get g i = Some obj \<Longrightarrow> og_get g' i = Some obj) \<Longrightarrow> files_ok g' n"
  by (induction g n rule: files_ok.induct) fastforce+

subsection \<open>Properties\<close>

text \<open>The mutations of the namespace, with the graph they store objects in.\<close>

datatype vfs_op = OpMkdir rstring capability | OpWrite rstring object capability | OpRemove rstring capability

fun vfs_exec :: "object_graph \<times> vfs \<Rightarrow> vfs_op \<Rightarrow> (vfs_error + object_id option) \<times> object_graph \<times> vfs" where
  "vfs_exec (g, v) (OpMkdir path cap) = (case mkdir_p path cap v of (r, v') \<Rightarrow> (map_sum id (\<lambda>_. None) r, g, v'))"
| "vfs_exec (g, v) (OpWrite path obj cap) =
    (case write_object g path obj cap v of (r, g', v') \<Rightarrow> (map_sum id Some r, g', v'))"
| "vfs_exec (g, v) (OpRemove path cap) = (case vfs_remove path cap v of (r, v') \<Rightarrow> (map_sum id (\<lambda>_. None) r, g, v'))"

fun spec_exec :: "(rstring list \<Rightarrow> vfs_entry option) \<Rightarrow> vfs_op \<Rightarrow>
    (vfs_error + object_id option) \<times> (rstring list \<Rightarrow> vfs_entry option)" where
  "spec_exec fs (OpMkdir path cap) =
    (case vfs_require cap rights_WRITE of Inl e \<Rightarrow> (Err e, fs)
     | Inr _ \<Rightarrow> map_prod (map_sum id (\<lambda>_. None)) id (spec_mkdir_p (components path) fs))"
| "spec_exec fs (OpWrite path obj cap) =
    (case vfs_require cap rights_WRITE of Inl e \<Rightarrow> (Err e, fs)
     | Inr _ \<Rightarrow> map_prod (map_sum id Some) id (spec_write_p (components path) (object_id obj) fs))"
| "spec_exec fs (OpRemove path cap) =
    (case vfs_require cap rights_WRITE of Inl e \<Rightarrow> (Err e, fs)
     | Inr _ \<Rightarrow> map_prod (map_sum id (\<lambda>_. None)) id (spec_remove_p (components path) fs))"

lemma vfs_exec_refines:
  assumes "vfs_wf v"
  shows "case vfs_exec (g, v) oper of (r, g', v') \<Rightarrow> vfs_wf v' \<and> (r, fs_of v') = spec_exec (fs_of v) oper"
proof (cases oper)
  case (OpMkdir path cap)
  then show ?thesis
    using mkdir_step [OF assms, of "components path"] assms
    by (cases "ensure_dir_mut (components path) (\<lambda>m. ((), m)) v")
      (auto simp: mkdir_p_def split: sum.splits dest: sym)
next
  case (OpWrite path obj cap)
  show ?thesis
  proof (cases "components path = []")
    case True
    then show ?thesis using OpWrite assms by (auto simp: write_object_def spec_write_p_def split: sum.splits)
  next
    case False
    obtain g' where put: "og_put obj g = (object_id obj, g')" by (simp add: og_put_eq)
    have cs: "butlast (components path) @ [last (components path)] = components path" using False by simp
    show ?thesis
      using vfs_write_step [OF assms put, of "butlast (components path)" "last (components path)"] assms False OpWrite
      unfolding cs by (auto simp: write_object_def split: sum.splits prod.splits dest: sym)
  qed
next
  case (OpRemove path cap)
  show ?thesis
  proof (cases "components path = []")
    case True
    then show ?thesis using OpRemove assms by (auto simp: vfs_remove_def spec_remove_p_def split: sum.splits)
  next
    case False
    have cs: "butlast (components path) @ [last (components path)] = components path" using False by simp
    show ?thesis
      using remove_step [OF assms, of "butlast (components path)" "last (components path)"] assms False OpRemove
      unfolding cs by (auto simp: vfs_remove_def split: sum.splits prod.splits dest: sym)
  qed
qed

fun vfs_run :: "object_graph \<times> vfs \<Rightarrow> vfs_op list \<Rightarrow> (vfs_error + object_id option) list \<times> object_graph \<times> vfs" where
  "vfs_run s [] = ([], s)"
| "vfs_run s (oper # ops) =
    (case vfs_exec s oper of (r, s') \<Rightarrow> (case vfs_run s' ops of (rs, s'') \<Rightarrow> (r # rs, s'')))"

fun spec_run :: "(rstring list \<Rightarrow> vfs_entry option) \<Rightarrow> vfs_op list \<Rightarrow>
    (vfs_error + object_id option) list \<times> (rstring list \<Rightarrow> vfs_entry option)" where
  "spec_run fs [] = ([], fs)"
| "spec_run fs (oper # ops) =
    (case spec_exec fs oper of (r, fs') \<Rightarrow> (case spec_run fs' ops of (rs, fs'') \<Rightarrow> (r # rs, fs'')))"

lemma vfs_run_refines:
  "vfs_wf v \<Longrightarrow> case vfs_run (g, v) ops of (rs, g', v') \<Rightarrow> (rs, fs_of v') = spec_run (fs_of v) ops"
proof (induction ops arbitrary: g v)
  case (Cons oper ops)
  obtain r g1 v1 where e: "vfs_exec (g, v) oper = (r, g1, v1)" by (cases "vfs_exec (g, v) oper")
  then have v1: "vfs_wf v1" "spec_exec (fs_of v) oper = (r, fs_of v1)"
    using vfs_exec_refines [OF Cons.prems, where g = g and oper = oper] by auto
  obtain rs g2 v2 where "vfs_run (g1, v1) ops = (rs, g2, v2)" by (cases "vfs_run (g1, v1) ops")
  then show ?case using Cons.IH [OF v1(1), where g = g1] e v1(2) by (auto dest: sym)
qed simp

text \<open>
  C17: The namespace is a map from paths to entries.  Any sequence of \<^verbatim>\<open>mkdir_p\<close>, \<^verbatim>\<open>write_object\<close> and
  \<^verbatim>\<open>remove\<close> calls on a fresh namespace returns exactly the results, errors included, and reaches
  exactly the entries of the specification: a write re-points one path to the id of the object and
  makes its parents directories, a remove drops one file or empty directory, a file on the way blocks,
  and a missing capability changes nothing.
\<close>

theorem vfs_refines_path_map:
  "case vfs_run (g, vfs_new) ops of (rs, g', v') \<Rightarrow>
     (rs, fs_of v') = spec_run (\<lambda>q. if q = [] then Some EDir else None) ops"
proof -
  have "fs_of vfs_new = (\<lambda>q. if q = [] then Some EDir else None)" by (simp add: fun_eq_iff fs_of_def vfs_new_def)
  moreover have "vfs_wf vfs_new" by (simp add: vfs_wf_def vfs_new_def)
  ultimately show ?thesis using vfs_run_refines [where v = vfs_new and g = g and ops = ops] by simp
qed

text \<open>
  Bytes written at a path are read back from it, provided the id of the new blob is not already
  taken by another object.
\<close>

theorem vfs_bytes_round_trip:
  assumes "vfs_wf v" and "vfs_write_bytes g path mt bs cap v = (Ok i, g', v')" and "vfs_require cap' rights_READ = Ok ()"
    and "\<And>obj. og_get g i = Some obj \<Longrightarrow> obj = blob_to_object mt bs"
  shows "vfs_read_bytes v' g' path cap' = Ok bs"
proof -
  let ?obj = "blob_to_object mt bs" and ?cs = "components path"
  obtain g1 where put: "og_put ?obj g = (object_id ?obj, g1)" by (simp add: og_put_eq)
  have ne: "?cs \<noteq> []" and cap: "vfs_require cap rights_WRITE = Ok ()"
    using assms(2) by (auto simp: vfs_write_bytes_def write_object_def Let_def split: sum.splits if_splits)
  then have cs: "butlast ?cs @ [last ?cs] = ?cs" by simp
  obtain r v1 where e: "ensure_dir_mut (butlast ?cs) (write_entry g (last ?cs) ?obj) v = (r, v1)" by fastforce
  then have r: "r = Ok (Ok i, g')" "v1 = v'"
    using assms(2) ne cap by (auto simp: vfs_write_bytes_def write_object_def Let_def split: sum.splits)
  have step: "(Ok i, fs_of v') = spec_write_p ?cs (object_id ?obj) (fs_of v)"
    using vfs_write_step [OF assms(1) put, of "butlast ?cs" "last ?cs"] unfolding cs e r by simp
  then have "i = object_id ?obj" "fs_of v' ?cs = Some (EFile i)" by (auto simp: spec_write_p_def split: if_splits)
  then have "node_at (vfs_root v') ?cs = Some (VFile i)" by (simp add: fs_of_def entry_EFile)
  moreover have "og_get g' i = Some ?obj"
  proof -
    have free: "\<not> blocked (fs_of v) (butlast ?cs)"
      using ensure_dir_mut_blocked [OF assms(1), of "butlast ?cs" "write_entry g (last ?cs) ?obj"] e r by auto
    obtain x sub where w: "write_entry g (last ?cs) ?obj (dir_at (root_map v) (butlast ?cs)) = (x, sub)" by fastforce
    have "x = (Ok i, g')"
      using ensure_dir_mut_ok [OF assms(1) free, where f = "write_entry g (last ?cs) ?obj", OF w] e r by simp
    then have "g' = g1" using w put by (auto simp: write_entry_def split: option.splits vnode.splits)
    then show ?thesis using put og_get_put [of ?obj g i] assms(4) \<open>i = object_id ?obj\<close> by (cases "og_get g i") auto
  qed
  moreover have "blob_bytes_of ?obj = Some bs"
    by (simp add: blob_bytes_of_def blob_to_object_def object_set_def object_get_def object_new_def ascii_def)
  ultimately show ?thesis using assms(3) by (simp add: vfs_read_bytes_def read_object_def)
qed

text \<open>
  C18: A snapshot restores the namespace.  After the tree has been materialised into the graph,
  \<^verbatim>\<open>from_namespace\<close> on the returned id rebuilds the same tree, with any fuel of at least its height,
  provided ids do not collide on the stored and the new directory objects and every file aliases a
  stored object that is not of the directory kind.
\<close>

theorem snapshot_restores_namespace:
  assumes "vfs_wf v" and "vnode_wf (vfs_root v)" and "files_ok g (vfs_root v)" and "cs_inv object_id (og_store g)"
    and "inj_on object_id (snd ` set (og_store g) \<union> set (dir_objects (vfs_root v)))"
    and "vnode_height (vfs_root v) \<le> fuel"
  shows "case snapshot_namespace v g of (root, g') \<Rightarrow> from_namespace fuel g' root = Some (Some v)"
proof -
  let ?g = "foldl (\<lambda>g obj. snd (og_put obj g)) g (dir_objects (vfs_root v))"
  have "files_ok ?g (vfs_root v)" using assms(3) by (rule files_ok_mono) (simp add: og_get_put_all)
  then have "load_node fuel ?g (node_id (vfs_root v)) = Some (Some (vfs_root v))"
    using assms(2,6) by (intro load_snapshot og_get_snapshot [OF assms(4,5)])
  moreover obtain m where "vfs_root v = VDir m" using assms(1) by (auto simp: vfs_wf_def)
  ultimately show ?thesis
    unfolding snapshot_namespace_def snapshot_eq(1) [OF assms(2)] by (cases v) (simp add: from_namespace_def)
qed

end
