(* ===== verification/Hash_Witnesses.thy ===== *)
theory Hash_Witnesses
  imports Merkle_Signer Cheri_Tags Object_Codec Graph_Versioning Root_Journal Airlock Path_Namespace
begin

text \<open>
  Evaluations of the hash in the kernel: the published SHA-256 test vector, and concrete
  instances of the properties whose hypotheses say that two given inputs do not collide.
\<close>

subsection \<open>Digests\<close>

lemma digest_tag_1: "hash_of (ascii ''k'' @ to_le_u64 0x1000 @ to_le_u64 0x100 @ [1]) =
   [0x2d, 0xeb, 0xf1, 0x0b, 0x3a, 0xab, 0xfd, 0x0a, 0x1b, 0x22, 0x5c, 0x84, 0x49, 0x2b, 0x89, 0xd9,
   0x76, 0x4f, 0xfc, 0x50, 0x87, 0x8a, 0x25, 0x07, 0x7b, 0xa8, 0xaa, 0xe4, 0x90, 0xa4, 0x70, 0x8d]"
  by code_simp

lemma digest_tag_2: "hash_of (ascii ''k'' @ to_le_u64 0x1000 @ to_le_u64 0x200 @ [1]) =
   [0x12, 0x30, 0xdd, 0xc3, 0xed, 0xae, 0x40, 0xb5, 0x8e, 0x41, 0xb5, 0x67, 0xa5, 0xf5, 0xdb, 0xe0,
   0x85, 0x93, 0x61, 0x01, 0x5e, 0xfa, 0x26, 0x7b, 0x81, 0xdd, 0x5e, 0x9a, 0x56, 0x9c, 0x88, 0xd5]"
  by code_simp

lemma digest_root_1: "hash_of (ascii ''root:'' @ ascii ''k'' @ to_le_u64 1 @ replicate 32 0) =
   [0x80, 0x63, 0xdf, 0x95, 0x13, 0xf7, 0x8b, 0x48, 0x06, 0x58, 0x31, 0xf8, 0x29, 0x8c, 0x79, 0x6b,
   0x8a, 0xef, 0xc2, 0x20, 0x19, 0x3d, 0x2f, 0x6e, 0xb5, 0x6b, 0xc4, 0xb1, 0x50, 0x84, 0xcb, 0x55]"
  by code_simp

lemma digest_root_2: "hash_of (ascii ''root:'' @ ascii ''x'' @ to_le_u64 1 @ replicate 32 0) =
   [0xe9, 0x7d, 0x0e, 0x7e, 0xb5, 0x0b, 0x47, 0x23, 0xd1, 0x1c, 0xa4, 0x19, 0x57, 0x72, 0x64, 0x20,
   0x99, 0x98, 0xa6, 0x93, 0x4f, 0x04, 0xbe, 0xf4, 0x50, 0xbc, 0x72, 0x27, 0xbd, 0xbd, 0x8a, 0xc8]"
  by code_simp

lemma digest_token_1: "hash_of (canonical \<lparr>cap_base = 0x1000, cap_len = 0x100, cap_rights = 1,
     cap_provenance = replicate 32 0, cap_tag = True\<rparr>) =
   [0x2f, 0xf8, 0x84, 0x24, 0x03, 0xf6, 0x74, 0xa6, 0x07, 0x44, 0x1f, 0x7d, 0x28, 0xb6, 0x1d, 0xfb,
   0xc8, 0x90, 0x92, 0xd5, 0x5e, 0xe2, 0xf6, 0x70, 0xd0, 0xf4, 0xc2, 0x0d, 0xbe, 0x63, 0x89, 0x1d]"
  by code_simp

lemma digest_token_2: "hash_of (canonical \<lparr>cap_base = 0x1000, cap_len = 0x100, cap_rights = 3,
     cap_provenance = replicate 32 0, cap_tag = True\<rparr>) =
   [0xc2, 0x97, 0xe5, 0x28, 0x93, 0x39, 0xdc, 0xa0, 0x2f, 0x22, 0x30, 0xd6, 0xe5, 0xe4, 0xc1, 0xa4,
   0x06, 0x54, 0xc4, 0xcc, 0x29, 0xcc, 0x44, 0x49, 0xc4, 0xd7, 0xe3, 0x85, 0x4b, 0xf1, 0xbe, 0xe7]"
  by code_simp

text \<open>The empty directory, and a directory with the empty directory under the name \<open>a\<close>.\<close>

lemma encode_dir_empty: "object_encode \<lparr>obj_kind = DIR_KIND, obj_fields = []\<rparr> =
   [0x6f, 0x62, 0x6a, 0x31, 0x03, 0x00, 0x00, 0x00, 0x00, 0x00, 0x00, 0x00, 0x44, 0x69, 0x72, 0x00,
   0x00, 0x00, 0x00, 0x00, 0x00, 0x00, 0x00]"
  by code_simp

lemma digest_dir_empty: "hash_of
   [0x6f, 0x62, 0x6a, 0x31, 0x03, 0x00, 0x00, 0x00, 0x00, 0x00, 0x00, 0x00, 0x44, 0x69, 0x72, 0x00,
   0x00, 0x00, 0x00, 0x00, 0x00, 0x00, 0x00] =
   [0x53, 0xa1, 0xc8, 0x4f, 0xcc, 0xe7, 0xf9, 0xb5, 0xa6, 0x55, 0x4f, 0x75, 0x29, 0xde, 0x5e, 0x6c,
   0x8e, 0x0f, 0x6e, 0xd6, 0x0e, 0xb8, 0x61, 0x1c, 0xcc, 0x35, 0x44, 0x0b, 0x54, 0x23, 0x79, 0xf8]"
  by code_simp

lemma encode_dir_nested: "object_encode \<lparr>obj_kind = DIR_KIND, obj_fields = [(ascii ''a'', DRef
   [0x53, 0xa1, 0xc8, 0x4f, 0xcc, 0xe7, 0xf9, 0xb5, 0xa6, 0x55, 0x4f, 0x75, 0x29, 0xde, 0x5e, 0x6c,
   0x8e, 0x0f, 0x6e, 0xd6, 0x0e, 0xb8, 0x61, 0x1c, 0xcc, 0x35, 0x44, 0x0b, 0x54, 0x23, 0x79, 0xf8])]\<rparr> =
   [0x6f, 0x62, 0x6a, 0x31, 0x03, 0x00, 0x00, 0x00, 0x00, 0x00, 0x00, 0x00, 0x44, 0x69, 0x72, 0x01,
   0x00, 0x00, 0x00, 0x00, 0x00, 0x00, 0x00, 0x01, 0x00, 0x00, 0x00, 0x00, 0x00, 0x00, 0x00, 0x61,
   0x72, 0x53, 0xa1, 0xc8, 0x4f, 0xcc, 0xe7, 0xf9, 0xb5, 0xa6, 0x55, 0x4f, 0x75, 0x29, 0xde, 0x5e,
   0x6c, 0x8e, 0x0f, 0x6e, 0xd6, 0x0e, 0xb8, 0x61, 0x1c, 0xcc, 0x35, 0x44, 0x0b, 0x54, 0x23, 0x79,
   0xf8]"
  by code_simp

lemma hash_two_blocks:
  assumes "chunks_exact 64 (padded_message 64 (be_bytes 8 (len_u64 msg * 8)) msg) = [b1, b2]"
    and "compress H_INIT b1 = h1" and "compress h1 b2 = h2"
  shows "hash_of msg = concat (map (be_bytes 4) h2)"
  by (simp add: hash_of_def sha256_eq_padded padded_sha256_def assms)

lemma compress_dir_nested_1: "compress H_INIT
   [0x6f, 0x62, 0x6a, 0x31, 0x03, 0x00, 0x00, 0x00, 0x00, 0x00, 0x00, 0x00, 0x44, 0x69, 0x72, 0x01,
   0x00, 0x00, 0x00, 0x00, 0x00, 0x00, 0x00, 0x01, 0x00, 0x00, 0x00, 0x00, 0x00, 0x00, 0x00, 0x61,
   0x72, 0x53, 0xa1, 0xc8, 0x4f, 0xcc, 0xe7, 0xf9, 0xb5, 0xa6, 0x55, 0x4f, 0x75, 0x29, 0xde, 0x5e,
   0x6c, 0x8e, 0x0f, 0x6e, 0xd6, 0x0e, 0xb8, 0x61, 0x1c, 0xcc, 0x35, 0x44, 0x0b, 0x54, 0x23, 0x79] =
   [0x73e946fb, 0x3d21f9cd, 0x96b26852, 0x0076fc0a, 0x2bc03ae6, 0x0c7bbc6f, 0xebc5b0d4, 0xc9e70b02]"
  by code_simp

lemma compress_dir_nested_2: "compress
   [0x73e946fb, 0x3d21f9cd, 0x96b26852, 0x0076fc0a, 0x2bc03ae6, 0x0c7bbc6f, 0xebc5b0d4, 0xc9e70b02]
   [0xf8, 0x80, 0x00, 0x00, 0x00, 0x00, 0x00, 0x00, 0x00, 0x00, 0x00, 0x00, 0x00, 0x00, 0x00, 0x00,
   0x00, 0x00, 0x00, 0x00, 0x00, 0x00, 0x00, 0x00, 0x00, 0x00, 0x00, 0x00, 0x00, 0x00, 0x00, 0x00,
   0x00, 0x00, 0x00, 0x00, 0x00, 0x00, 0x00, 0x00, 0x00, 0x00, 0x00, 0x00, 0x00, 0x00, 0x00, 0x00,
   0x00, 0x00, 0x00, 0x00, 0x00, 0x00, 0x00, 0x00, 0x00, 0x00, 0x00, 0x00, 0x00, 0x00, 0x02, 0x08] =
   [0xd03ac25d, 0xd90ea002, 0xb7737f6a, 0xb8e2fd9b, 0xde043bce, 0xd171c58d, 0xc0e08805, 0x05833c1c]"
  by code_simp

lemma digest_dir_nested: "hash_of
   [0x6f, 0x62, 0x6a, 0x31, 0x03, 0x00, 0x00, 0x00, 0x00, 0x00, 0x00, 0x00, 0x44, 0x69, 0x72, 0x01,
   0x00, 0x00, 0x00, 0x00, 0x00, 0x00, 0x00, 0x01, 0x00, 0x00, 0x00, 0x00, 0x00, 0x00, 0x00, 0x61,
   0x72, 0x53, 0xa1, 0xc8, 0x4f, 0xcc, 0xe7, 0xf9, 0xb5, 0xa6, 0x55, 0x4f, 0x75, 0x29, 0xde, 0x5e,
   0x6c, 0x8e, 0x0f, 0x6e, 0xd6, 0x0e, 0xb8, 0x61, 0x1c, 0xcc, 0x35, 0x44, 0x0b, 0x54, 0x23, 0x79,
   0xf8] = concat (map (be_bytes 4)
   ([0xd03ac25d, 0xd90ea002, 0xb7737f6a, 0xb8e2fd9b, 0xde043bce, 0xd171c58d, 0xc0e08805, 0x05833c1c] :: u32 list))"
  by (rule hash_two_blocks [OF _ compress_dir_nested_1 compress_dir_nested_2]) code_simp

lemma digest_al_genesis: "hash_of al_genesis =
   [0x89, 0xf1, 0xe6, 0x7e, 0x6e, 0xaf, 0x51, 0x24, 0x51, 0x41, 0x1d, 0xef, 0x1f, 0x7e, 0xf6, 0xaa,
   0x52, 0x90, 0x80, 0xc4, 0xc7, 0x5c, 0xe4, 0x95, 0xa5, 0x51, 0x17, 0xcc, 0xd1, 0x2c, 0xd2, 0x38]"
  by code_simp

lemma digest_containment: "hash_of (ascii ''containment'') =
   [0x47, 0xac, 0xb2, 0xc4, 0x2e, 0xd1, 0x61, 0xa9, 0x86, 0x88, 0xc0, 0xae, 0xc2, 0xe6, 0xe7, 0xc5,
   0x64, 0x67, 0x36, 0x97, 0xc9, 0xf0, 0xea, 0xfb, 0xc0, 0x09, 0x2a, 0x1e, 0xe0, 0x00, 0x3f, 0xa0]"
  by code_simp

lemma digest_al_contained:
  "hash_of ([0x89, 0xf1, 0xe6, 0x7e, 0x6e, 0xaf, 0x51, 0x24, 0x51, 0x41, 0x1d, 0xef, 0x1f, 0x7e, 0xf6, 0xaa,
   0x52, 0x90, 0x80, 0xc4, 0xc7, 0x5c, 0xe4, 0x95, 0xa5, 0x51, 0x17, 0xcc, 0xd1, 0x2c, 0xd2, 0x38] @
    to_le_u64 0 @ [6, 6] @ to_le_u32 0 @
   [0x47, 0xac, 0xb2, 0xc4, 0x2e, 0xd1, 0x61, 0xa9, 0x86, 0x88, 0xc0, 0xae, 0xc2, 0xe6, 0xe7, 0xc5,
   0x64, 0x67, 0x36, 0x97, 0xc9, 0xf0, 0xea, 0xfb, 0xc0, 0x09, 0x2a, 0x1e, 0xe0, 0x00, 0x3f, 0xa0] @ [0]) =
   [0xb5, 0xf4, 0x21, 0x87, 0x43, 0xae, 0xd9, 0xdf, 0x5c, 0xef, 0xbf, 0x7c, 0xf7, 0xfe, 0x21, 0xee,
   0xcb, 0xe9, 0x88, 0x44, 0xda, 0x48, 0xae, 0x8b, 0x72, 0xbd, 0xa7, 0xc8, 0xb4, 0x69, 0xa0, 0x27]"
  by code_simp

subsection \<open>Properties\<close>

text \<open>
  The published test vector: the SHA-256 digest of the three bytes of \<open>abc\<close>.
\<close>

theorem sha256_test_vector:
  "sha256 (ascii ''abc'') =
   [0xba, 0x78, 0x16, 0xbf, 0x8f, 0x01, 0xcf, 0xea, 0x41, 0x41, 0x40, 0xde, 0x5d, 0xae, 0x22, 0x23,
   0xb0, 0x03, 0x61, 0xa3, 0x96, 0x17, 0x7a, 0x9c, 0xb4, 0x10, 0xff, 0x61, 0xf2, 0x00, 0x15, 0xad]"
  by code_simp

theorem forged_tag_rejected_witness:
  "let h = ht_detect True (ascii ''k''); c = ht_mint h 0x1000 0x100 1
   in ht_validate h c \<and> \<not> ht_validate h (c\<lparr>tc_len := 0x200\<rparr>)"
proof -
  let ?h = "ht_detect True (ascii ''k'')"
  let ?c = "st_mint (ht_fallback ?h) 0x1000 0x100 1"
  let ?d = "?c\<lparr>tc_len := 0x200\<rparr>"
  have inputs: "st_tag_input (ht_fallback ?h) ?c = ascii ''k'' @ to_le_u64 0x1000 @ to_le_u64 0x100 @ [1]"
    "st_tag_input (ht_fallback ?h) ?d = ascii ''k'' @ to_le_u64 0x1000 @ to_le_u64 0x200 @ [1]"
    by (simp_all only: st_tag_input_def ht_detect_def st_mint_def hardware_tags.simps software_tags.simps
        tagged_cap.simps tagged_cap.update_convs Let_def)
  have "inj_on hash_of {st_tag_input (ht_fallback ?h) ?c, st_tag_input (ht_fallback ?h) ?d}"
    unfolding inputs by (rule inj_on_pairI, unfold digest_tag_1 digest_tag_2) simp
  moreover have "tc_len ?c = 0x100"
    by (simp add: st_mint_def)
  ultimately show ?thesis
    using forged_tag_rejected [of ?h ?c ?d] sw.mint_valid [of "ht_fallback ?h" "0x1000" "0x100" 1]
    by (simp add: Let_def ht_mint_def ht_validate_def)
qed

theorem object_identity_witness:
  "object_id demo_object = object_id (object_canon demo_object) \<longleftrightarrow>
   object_canon demo_object = object_canon (object_canon demo_object)"
proof (rule object_identity)
  show "object_wf (2 ^ 64) demo_object"
    by (rule object_wf_mono [OF demo_object_wf]) (rule power_increasing; simp)
  then show "object_wf (2 ^ 64) (object_canon demo_object)"
    by (rule object_wf_canon)
  show "inj_on hash_of {object_encode demo_object, object_encode (object_canon demo_object)}"
    by simp
qed

theorem merkle_root_binds_live_set_witness:
  "let a = object_new (ascii ''a''); g = snd (og_put a og_new); h = snd (og_put a g)
   in og_root_hash g = og_root_hash h \<longleftrightarrow> set (og_head g) = set (og_head h)"
  unfolding Let_def
  by (rule merkle_root_binds_live_set) (simp_all add: og_put_eq og_new_def)

theorem root_signature_binding_witness:
  "\<not> cr_verify (cr_sign (replicate 32 0) 1 (ascii ''k'')) (ascii ''x'')"
proof -
  let ?r = "cr_sign (replicate 32 0) 1 (ascii ''k'')"
  let ?a = "ascii ''root:'' @ ascii ''k'' @ to_le_u64 1 @ replicate 32 0"
  let ?b = "ascii ''root:'' @ ascii ''x'' @ to_le_u64 1 @ replicate 32 0"
  have "inj_on hash_of {?a, ?b}"
    by (rule inj_on_pairI, unfold digest_root_1 digest_root_2) simp
  then have "cr_verify ?r (ascii ''x'') \<longleftrightarrow>
      ascii ''x'' = ascii ''k'' \<and> cr_generation ?r = 1 \<and> cr_root ?r = replicate 32 0"
    by (intro root_signature_binding) (simp_all add: cr_sign_def)
  moreover have "ascii ''x'' \<noteq> ascii ''k''"
    by code_simp
  ultimately show ?thesis by simp
qed

theorem snapshot_restores_namespace_witness:
  "case snapshot_namespace \<lparr>vfs_root = VDir [(ascii ''a'', VDir [])]\<rparr> og_new of (root, g) \<Rightarrow>
     from_namespace 2 g root = Some (Some \<lparr>vfs_root = VDir [(ascii ''a'', VDir [])]\<rparr>)"
proof (rule snapshot_restores_namespace)
  let ?v = "\<lparr>vfs_root = VDir [(ascii ''a'', VDir [])]\<rparr>"
  have "object_id (dir_object []) \<noteq> object_id (dir_object [(ascii ''a'', VDir [])])"
    by (simp only: object_id_def dir_fields.simps node_id.simps encode_dir_empty digest_dir_empty
        encode_dir_nested digest_dir_nested) code_simp
  then show "inj_on object_id (snd ` set (og_store og_new) \<union> set (dir_objects (vfs_root ?v)))"
    by (simp add: og_new_def cs_new_def)
qed (simp_all add: vfs_wf_def bt_wf_def og_new_def cs_new_def cs_inv_def)

theorem transfer_ledger_tamper_evident_witness:
  "al_forensic_snapshot (foldl al_exec al_new [Contain AiAgent]) \<noteq> al_forensic_snapshot (foldl al_exec al_new []) \<and>
   al_ledger_intact (foldl al_exec al_new [Contain AiAgent])"
proof -
  let ?a = "foldl al_exec al_new [Contain AiAgent]" and ?b = "foldl al_exec al_new []"
  let ?link = "hash_of al_genesis @ to_le_u64 0 @ [6, 6] @ to_le_u32 0 @ hash_of (ascii ''containment'') @ [0]"
  have led: "al_ledger ?b = []" "al_ledger ?a =
      [\<lparr>tr_seq = 0, tr_from = AiAgent, tr_to = AiAgent, tr_granted_rights = 0, tr_expires_at = None,
        tr_provenance = hash_of (ascii ''containment''), tr_chain = hash_of ?link\<rparr>]"
    by (simp_all add: al_contain_def al_append_record_def Let_def al_new_def rights_NONE_def del: le_bytes.simps)
  have "al_hash_inputs ?a \<union> al_hash_inputs ?b = {al_genesis, ?link}"
    by (auto simp only: al_hash_inputs_def led list.map chain_inputs.simps record_body_unlinked)
      (simp_all add: record_body_def del: le_bytes.simps)
  moreover have "inj_on hash_of {al_genesis, ?link}"
    by (rule inj_on_pairI, unfold digest_al_genesis digest_containment digest_al_contained) simp
  ultimately have "inj_on hash_of (al_hash_inputs ?a \<union> al_hash_inputs ?b)" by (simp only:)
  moreover have "al_ledger ?a \<noteq> al_ledger ?b" by (simp only: led list.distinct not_False_eq_True)
  ultimately show ?thesis
    using transfer_ledger_tamper_evident [OF refl refl, of "[Contain AiAgent]" "[]"] by blast
qed

subsection \<open>Tokens\<close>

theorem token_unforgeable_witness:
  "\<exists>a t. ta_new [7] 0 = Some a \<and> token_verify (ta_root a) t \<and>
    tok_cap t \<noteq> \<lparr>cap_base = 0x1000, cap_len = 0x100, cap_rights = 3, cap_provenance = replicate 32 0, cap_tag = True\<rparr> \<and>
    (\<exists>i < 2 ^ 0. tok_ots_pub t = snd (lamport_keygen token_lamport (tk_ots_seed [7] i)))"
proof -
  let ?c1 = "\<lparr>cap_base = 0x1000, cap_len = 0x100, cap_rights = 1, cap_provenance = replicate 32 0, cap_tag = True\<rparr>"
  let ?c2 = "\<lparr>cap_base = 0x1000, cap_len = 0x100, cap_rights = 3, cap_provenance = replicate 32 0, cap_tag = True\<rparr>"
  let ?pk = "snd (lamport_keygen token_lamport (tk_ots_seed [7] 0))"
  define a where "a = \<lparr>ta_lamport = token_lamport, ta_master_seed = [7], ta_leaves = [hash_of ?pk], ta_root = hash_of ?pk\<rparr>"
  define t where "t = \<lparr>tok_cap = ?c1, tok_index = 0, tok_ots_sig = lamport_sign token_lamport (tk_ots_seed [7] 0) (canonical ?c1),
    tok_ots_pub = ?pk, tok_auth_path = []\<rparr>"
  have new: "ta_new [7] 0 = Some a"
    by (simp add: ta_new_eq token_leaves_def a_def merkle_root_def merkle_loop.simps)
  have ok: "token_verify (ta_root a) t" by (simp add: token_verify_def a_def t_def lamport_sign_verify)
  have "inj_on hash_of {canonical (tok_cap t), canonical ?c2}"
    by (rule inj_on_pairI) (simp add: t_def digest_token_1 digest_token_2)
  then have "\<exists>i < 2 ^ 0. tok_ots_pub t = snd (lamport_keygen token_lamport (tk_ots_seed [7] i))"
    using token_unforgeable [OF new ok, of ?c2] by (simp add: t_def a_def tree_inputs.simps)
  then show ?thesis using new ok by (intro exI [of _ a] exI [of _ t]) (simp add: t_def)
qed

end
