(* ===== verification/Graph_Persistence.thy ===== *)
theory Graph_Persistence
  imports Object_Codec Block_Device
begin

text \<open>
  \<^verbatim>\<open>Persistence::save\<close> and \<^verbatim>\<open>Persistence::load\<close> end to end: the image codec of the object graph
  over the block-device contract.
\<close>

text \<open>
  Persistence end to end on \<^verbatim>\<open>RamDisk\<close>: a well-formed object graph that fits on the disk
  is saved without error and loaded back equal (floats canonical), and the disk then counts as
  formatted.
\<close>

theorem persisted_graph_survives:
  assumes "rd_inv d" "graph_wf g" "length (og_serialize g) < 2 ^ 63"
    and "1 + blocks_for (length (og_serialize g)) \<le> length (rd_blocks d)"
  shows "\<exists>d'. persist_save ram_ops g d = (Ok (), d') \<and> rd_inv d' \<and>
    fst (persist_load ram_ops d') = Ok (Some (graph_fcanon g)) \<and>
    fst (is_formatted ram_ops d') = Ok True"
proof -
  have m: "length SUPER_MAGIC = 8" by (simp add: SUPER_MAGIC_def)
  let ?p = "og_serialize g"
  obtain d' where d': "save_blob ram_ops 0 SUPER_MAGIC ?p d = (Ok (), d')" "rd_inv d'"
      "rd_blocks d' = blit (unat (0 :: u64)) (chunks_exact BLOCK_SIZE (image_bytes SUPER_MAGIC ?p)) (rd_blocks d)"
    using ram.save_blob_ok [OF assms(1) m assms(3), of 0] assms(4) by auto
  have img: "image_at (rd_blocks d') (unat (0 :: u64)) SUPER_MAGIC ?p"
    unfolding d'(3) using m assms(3,4) by (intro image_at_blit) simp_all
  obtain d2 where "load_blob ram_ops 0 SUPER_MAGIC d' = (Ok (Some ?p), d2)"
    using ram.load_blob_image [OF d'(2) img] by blast
  then have "fst (persist_load ram_ops d') = Ok (Some (graph_fcanon g))"
    by (simp add: persist_load_def load_blob_def io_bind_def io_return_def result_ok_def
        og_deserialize_serialize [OF assms(2)])
  moreover have "fst (is_formatted ram_ops d') = Ok True"
  proof -
    have "rd_blocks d' \<noteq> []" "slice 0 8 (rd_blocks d' ! 0) = SUPER_MAGIC"
      using img by (auto simp: image_at_def)
    then show ?thesis
      using ram.read_law [OF d'(2), of 0] by (auto simp: is_formatted_def io_bind_def io_return_def)
  qed
  ultimately show ?thesis
    using d'(1,2) by (simp add: persist_save_def save_blob_def)
qed

theorem persisted_graph_survives_witness:
  "\<exists>d'. persist_save ram_ops demo_graph (rd_new 8) = (Ok (), d') \<and>
    fst (persist_load ram_ops d') = Ok (Some demo_graph)"
proof -
  have len: "length (og_serialize demo_graph) = 213"
    by (simp add: og_serialize_def demo_graph_eq cs_iter_def encode_object_full_def field_encode_full_def
        demo_object_eq encode_commit_def GRAPH_MAGIC_def object_id_def)
  have "graph_fcanon demo_graph = demo_graph"
    by (simp add: demo_graph_eq graph_fcanon_def object_fcanon_def demo_object_eq)
  moreover have "rd_inv (rd_new 8)" "length (rd_blocks (rd_new 8)) = 8"
    by (simp_all add: rd_inv_new) (simp add: rd_new_def)
  ultimately show ?thesis
    using persisted_graph_survives [OF _ demo_graph_wf, of "rd_new 8"]
    by (auto simp: len blocks_for_def)
qed

end
