(* ===== verification/Machine_State.thy ===== *)
theory Machine_State
  imports Content_Hash Ordered_Map
begin

text \<open>
  The deterministic state machine, \<^verbatim>\<open>dominion-core/src/state.rs\<close>: a sorted key/value store
  driven by a log of actions, the seeded \<^verbatim>\<open>xorshift64*\<close> generator as its only randomness,
  replay from genesis and rewinding.  An \<^verbatim>\<open>i64\<close> is its 64-bit pattern: \<^verbatim>\<open>wrapping_add\<close>,
  \<^verbatim>\<open>to_le_bytes\<close> and the casts of the source only use that.
\<close>

type_synonym i64 = "64 word"

datatype action =
    ASet rstring i64
  | AAdd rstring i64
  | ADel rstring
  | ARand rstring

record machine =
  m_state :: "(rstring, i64) btree"
  m_log :: "action list"
  m_rng :: u64
  m_seed :: u64

definition machine_new :: "u64 \<Rightarrow> machine" where
  "machine_new s = \<lparr>m_state = [], m_log = [], m_rng = s, m_seed = s\<rparr>"

definition machine_step_count :: "machine \<Rightarrow> nat" where
  "machine_step_count m = length (m_log m)"

definition machine_get :: "machine \<Rightarrow> rstring \<Rightarrow> i64 option" where
  "machine_get m k = bt_get (m_state m) k"

text \<open>The three shifts of the generator, and the scrambled output.\<close>

definition xorshift :: "u64 \<Rightarrow> u64" where
  "xorshift x =
    (let x = x XOR drop_bit 12 x;
         x = x XOR push_bit 25 x
     in x XOR drop_bit 27 x)"

definition rng_output :: "u64 \<Rightarrow> u64" where
  "rng_output x = x * 0x2545f4914f6cdd1d"

fun transition :: "(rstring, i64) btree \<times> u64 \<Rightarrow> action \<Rightarrow> (rstring, i64) btree \<times> u64" where
  "transition (state, rng) (ASet k v) = (bt_insert k v state, rng)"
| "transition (state, rng) (AAdd k d) =
    (let state = bt_or_insert k 0 state
     in (case bt_get state k of
           Some e \<Rightarrow> (bt_insert k (e + d) state, rng)
         | None \<Rightarrow> (state, rng)))"
| "transition (state, rng) (ADel k) = (bt_remove k state, rng)"
| "transition (state, rng) (ARand k) =
    (let x = xorshift rng
     in (bt_insert k (drop_bit 1 (rng_output x)) state, x))"

definition machine_apply :: "machine \<Rightarrow> action \<Rightarrow> machine" where
  "machine_apply m a =
    (case transition (m_state m, m_rng m) a of
       (state, rng) \<Rightarrow> m\<lparr>m_state := state, m_rng := rng, m_log := m_log m @ [a]\<rparr>)"

definition machine_apply_all :: "machine \<Rightarrow> action list \<Rightarrow> machine" where
  "machine_apply_all m as = foldl machine_apply m as"

definition state_entry :: "rstring \<times> i64 \<Rightarrow> bytes" where
  "state_entry kv = (case kv of (k, v) \<Rightarrow> to_le_u64 (len_u64 k) @ k @ to_le_u64 v)"

definition state_bytes :: "machine \<Rightarrow> bytes" where
  "state_bytes m =
    ascii ''mstate1'' @ to_le_u64 (len_u64 (m_log m)) @ concat (map state_entry (m_state m))"

definition state_hash :: "machine \<Rightarrow> hash256" where
  "state_hash m = hash_of (state_bytes m)"

definition replay :: "u64 \<Rightarrow> action list \<Rightarrow> machine" where
  "replay s as = machine_apply_all (machine_new s) as"

definition rewound_to :: "machine \<Rightarrow> nat \<Rightarrow> string + machine" where
  "rewound_to m step =
    (if step > length (m_log m) then Err ''cannot rewind past the recorded history''
     else Ok (replay (m_seed m) (take step (m_log m))))"

subsection \<open>Replay\<close>

lemma machine_apply_log [simp]: "m_log (machine_apply m a) = m_log m @ [a]"
  and machine_apply_seed [simp]: "m_seed (machine_apply m a) = m_seed m"
  by (simp_all add: machine_apply_def split: prod.splits)

lemma machine_apply_state: "m_state (machine_apply m a) = fst (transition (m_state m, m_rng m) a)"
  by (simp add: machine_apply_def case_prod_beta)

lemma machine_apply_all_append:
  "machine_apply_all m (as @ bs) = machine_apply_all (machine_apply_all m as) bs"
  by (simp add: machine_apply_all_def)

lemma machine_apply_all_log: "m_log (machine_apply_all m as) = m_log m @ as"
  and machine_apply_all_seed: "m_seed (machine_apply_all m as) = m_seed m"
  unfolding machine_apply_all_def by (induction as arbitrary: m) simp_all

text \<open>A machine is genuine when its state is what its log makes of its seed.\<close>

definition machine_inv :: "machine \<Rightarrow> bool" where
  "machine_inv m \<longleftrightarrow> replay (m_seed m) (m_log m) = m"

lemma machine_inv_new [inv_intros]: "machine_inv (machine_new s)"
  by (simp add: machine_inv_def replay_def machine_apply_all_def machine_new_def)

lemma machine_inv_apply_all [inv_intros]: "machine_inv m \<Longrightarrow> machine_inv (machine_apply_all m as)"
  unfolding machine_inv_def replay_def
  by (simp add: machine_apply_all_log machine_apply_all_seed machine_apply_all_append)

lemma bt_wf_transition: "bt_wf (fst s) \<Longrightarrow> bt_wf (fst (transition s a))"
  by (cases s; cases a) (auto simp: Let_def inv_intros split: option.splits)

lemma bt_wf_machine: "bt_wf (m_state m) \<Longrightarrow> bt_wf (m_state (machine_apply_all m as))"
  unfolding machine_apply_all_def
proof (induction as arbitrary: m)
  case (Cons a as)
  have "bt_wf (m_state (machine_apply m a))"
    using bt_wf_transition [of "(m_state m, m_rng m)" a] Cons.prems by (simp add: machine_apply_state)
  then show ?case using Cons.IH by simp
qed simp

subsection \<open>The generator\<close>

lemma bit_beyond: "64 \<le> n \<Longrightarrow> \<not> bit (x :: u64) n"
  using bit_imp_le_length [of x n] by auto

lemma drop_bit_fixpoint_zero:
  fixes x :: u64
  assumes "x = drop_bit n x" "0 < n"
  shows "x = 0"
proof -
  have "bit x i \<longleftrightarrow> bit x (i + n * k)" for i k
  proof (induction k)
    case (Suc k)
    have "bit x (i + n * k) \<longleftrightarrow> bit (drop_bit n x) (i + n * k)" using assms(1) by simp
    then show ?case using Suc.IH by (simp add: bit_drop_bit_eq ac_simps)
  qed simp
  from this [of _ 64] have "\<not> bit x i" for i
    using assms(2) by (simp add: bit_beyond trans_le_add2)
  then show ?thesis by (intro bit_word_eqI) simp
qed

lemma push_bit_fixpoint_zero:
  fixes x :: u64
  assumes "x = push_bit n x" "0 < n"
  shows "x = 0"
proof -
  have "\<not> bit x i" for i
  proof (induction i rule: less_induct)
    case (less i)
    have "bit x i \<longleftrightarrow> bit (push_bit n x) i" using assms(1) by simp
    then show ?case
      using less [of "i - n"] assms(2) by (auto simp: bit_push_bit_iff)
  qed
  then show ?thesis by (intro bit_word_eqI) simp
qed

lemma xorshift_zero_iff: "xorshift x = 0 \<longleftrightarrow> x = 0"
proof
  assume z: "xorshift x = 0"
  define y where "y = x XOR drop_bit 12 x"
  define w where "w = y XOR push_bit 25 y"
  have xor0: "a XOR b = 0 \<Longrightarrow> a = b" for a b :: u64
    by (metis xor.assoc xor_self_eq xor.right_neutral xor.left_neutral)
  have "w = drop_bit 27 w"
    using z by - (rule xor0, simp add: xorshift_def Let_def y_def w_def)
  then have "w = 0" by (rule drop_bit_fixpoint_zero) simp
  then have "y = push_bit 25 y" unfolding w_def by (rule xor0)
  then have "y = 0" by (rule push_bit_fixpoint_zero) simp
  then have "x = drop_bit 12 x" unfolding y_def by (rule xor0)
  then show "x = 0" by (rule drop_bit_fixpoint_zero) simp
qed (simp add: xorshift_def)

lemma machine_apply_rng: "m_rng (machine_apply m a) = 0 \<longleftrightarrow> m_rng m = 0"
  by (cases a) (auto simp: machine_apply_def Let_def xorshift_zero_iff split: prod.splits option.splits)

lemma machine_apply_all_rng: "m_rng (machine_apply_all m as) = 0 \<longleftrightarrow> m_rng m = 0"
  unfolding machine_apply_all_def by (induction as arbitrary: m) (simp_all add: machine_apply_rng)

subsection \<open>The state encoding\<close>

lemma state_entry_append_inject:
  assumes "state_entry (k, v) @ r = state_entry (k', v') @ r'"
    and "length k < 2 ^ 64" "length k' < 2 ^ 64"
  shows "k = k' \<and> v = v' \<and> r = r'"
proof -
  have eq: "to_le_u64 (len_u64 k) @ k @ to_le_u64 v @ r = to_le_u64 (len_u64 k') @ k' @ to_le_u64 v' @ r'"
    using assms(1) by (simp add: state_entry_def)
  then have "to_le_u64 (len_u64 k) = to_le_u64 (len_u64 k')" by simp
  then have "len_u64 k = len_u64 k'" by simp
  then have "length k = length k'"
    using assms(2,3) by (metis unat_len_u64)
  with eq show ?thesis by simp
qed

lemma state_entries_inject:
  assumes "concat (map state_entry xs) = concat (map state_entry ys)"
    and "\<forall>(k, _) \<in> set xs. length k < 2 ^ 64" "\<forall>(k, _) \<in> set ys. length k < 2 ^ 64"
  shows "xs = ys"
  using assms
proof (induction xs arbitrary: ys)
  case Nil
  then show ?case by (cases ys) (auto simp: state_entry_def split: prod.splits)
next
  case (Cons x xs)
  obtain k v where x: "x = (k, v)" by (cases x)
  obtain k' v' ys' where ys: "ys = (k', v') # ys'"
    using Cons.prems(1) x by (cases ys) (auto simp: state_entry_def)
  have "k = k' \<and> v = v' \<and> concat (map state_entry xs) = concat (map state_entry ys')"
    using Cons.prems x ys by (intro state_entry_append_inject) auto
  then show ?case using Cons.IH [of ys'] Cons.prems x ys by auto
qed

subsection \<open>Properties\<close>

text \<open>
  Reproducibility and rewinding.  A machine driven by any actions from any seed can be
  rewound to each of its steps, which yields exactly the machine it was at that step;
  re-applying the rest of its log leads back to it; and only a step beyond its history is
  refused.
\<close>

theorem rewind_and_resume:
  "rewound_to (replay s as) k =
    (if k > length as then Err ''cannot rewind past the recorded history''
     else Ok (replay s (take k as))) \<and>
   machine_apply_all (replay s (take k as)) (drop k as) = replay s as \<and>
   machine_inv (replay s as)"
proof -
  have "m_log (replay s as) = as" "m_seed (replay s as) = s"
    by (simp_all add: replay_def machine_apply_all_log machine_apply_all_seed machine_new_def)
  moreover have "machine_apply_all (replay s (take k as)) (drop k as) = replay s as"
    unfolding replay_def machine_apply_all_append [symmetric] by simp
  moreover have "machine_inv (replay s as)"
    unfolding replay_def by (intro inv_intros)
  ultimately show ?thesis by (simp add: rewound_to_def)
qed

text \<open>
  The state hash names the observable state: two machines (with fewer than \<open>2 ^ 64\<close> steps
  and keys of fewer than \<open>2 ^ 64\<close> bytes) have the same hash exactly when their step counts and
  their key/value stores agree, provided the hash does not collide on the two encodings.
\<close>

theorem state_hash_names_state:
  assumes "length (m_log m) < 2 ^ 64" "length (m_log n) < 2 ^ 64"
    and "\<forall>(k, _) \<in> set (m_state m). length k < 2 ^ 64" "\<forall>(k, _) \<in> set (m_state n). length k < 2 ^ 64"
    and "inj_on hash_of {state_bytes m, state_bytes n}"
  shows "state_hash m = state_hash n \<longleftrightarrow>
    machine_step_count m = machine_step_count n \<and> m_state m = m_state n"
proof
  assume "state_hash m = state_hash n"
  then have "state_bytes m = state_bytes n"
    unfolding state_hash_def by (rule inj_on_pairD [where f = hash_of, OF assms(5)])
  then have l: "to_le_u64 (len_u64 (m_log m)) = to_le_u64 (len_u64 (m_log n))"
    and c: "concat (map state_entry (m_state m)) = concat (map state_entry (m_state n))"
    by (simp_all add: state_bytes_def)
  from l have "length (m_log m) = length (m_log n)"
    using assms(1,2) by (metis le_bytes_u64_inject unat_len_u64)
  then show "machine_step_count m = machine_step_count n \<and> m_state m = m_state n"
    using state_entries_inject [OF c assms(3,4)] by (simp add: machine_step_count_def)
qed (simp add: state_hash_def state_bytes_def machine_step_count_def)

theorem state_hash_names_state_witness:
  "let m = replay 1 [ASet (ascii ''a'') 5]; n = replay 2 [AAdd (ascii ''a'') 5] in state_hash m = state_hash n"
proof -
  let ?m = "replay 1 [ASet (ascii ''a'') 5]" and ?n = "replay 2 [AAdd (ascii ''a'') 5]"
  have eqs: "m_state ?m = [(ascii ''a'', 5)]" "m_state ?n = [(ascii ''a'', 5)]"
    "length (m_log ?m) = 1" "length (m_log ?n) = 1"
    by (simp_all add: replay_def machine_apply_all_def machine_apply_def machine_new_def
        bt_or_insert_def bt_contains_def bt_get_def)
  then have "state_bytes ?m = state_bytes ?n"
    by (simp add: state_bytes_def)
  then have "inj_on hash_of {state_bytes ?m, state_bytes ?n}" by simp
  then show ?thesis
    using state_hash_names_state [of ?m ?n] unfolding Let_def by (simp add: eqs machine_step_count_def)
qed

text \<open>
  Each action does what it says, on every key: \<^verbatim>\<open>Set\<close> stores, \<^verbatim>\<open>Add\<close> adds with
  64-bit wrap-around to the value or to 0, \<^verbatim>\<open>Del\<close> removes, \<^verbatim>\<open>Rand\<close> stores a value below
  \<open>2 ^ 63\<close> that depends on the generator alone; other keys keep their value.  The generator
  state is zero only if the seed was.
\<close>

theorem transition_effects:
  assumes "bt_wf (m_state m)"
  shows "machine_get (machine_apply m (ASet k v)) = (machine_get m)(k \<mapsto> v) \<and>
    machine_get (machine_apply m (AAdd k d)) =
      (machine_get m)(k \<mapsto> (case machine_get m k of None \<Rightarrow> 0 | Some e \<Rightarrow> e) + d) \<and>
    machine_get (machine_apply m (ADel k)) = (machine_get m)(k := None) \<and>
    (\<exists>v. unat v < 2 ^ 63 \<and> v = drop_bit 1 (rng_output (xorshift (m_rng m))) \<and>
      machine_get (machine_apply m (ARand k)) = (machine_get m)(k \<mapsto> v)) \<and>
    bt_wf (m_state (machine_apply m a)) \<and> (m_rng (machine_apply_all m as) = 0 \<longleftrightarrow> m_rng m = 0)"
proof -
  have "unat (drop_bit 1 w) < 2 ^ 63" for w :: u64
    using unsigned_less [of w, where ?'a = nat] unfolding drop_bit_eq_div by (simp add: unat_div)
  moreover have "bt_wf (m_state (machine_apply m a))"
    using bt_wf_machine [OF assms, of "[a]"] by (simp add: machine_apply_all_def)
  ultimately show ?thesis
    by (auto simp: machine_get_def machine_apply_def fun_eq_iff Let_def bt_get_or_insert machine_apply_all_rng
        split: prod.splits option.splits)
qed

theorem transition_effects_witness:
  "machine_get (machine_apply (machine_new 7) (AAdd (ascii ''n'') 5)) (ascii ''n'') = Some 5"
  using transition_effects [of "machine_new 7" "ascii ''n''" 0 5]
  by (simp add: machine_new_def machine_get_def)

end
