(* ===== verification/Domain_Scheduler.thy ===== *)
theory Domain_Scheduler
  imports Capability
begin

text \<open>
  Domains, isolation and cooperative scheduling, \<^verbatim>\<open>dominion-core/src/sched.rs\<close>: the domain
  table, the round-robin run queue, channels and message passing.  The lemmas show the
  scheduler invariant over all sequences of calls, that a finished domain never runs again,
  that the rotation is fair, that inboxes are FIFO queues fed through open channels only, and
  that a domain's access decisions depend on its own capability alone.
\<close>

type_synonym domain_id = u64

datatype domain_state = Ready | Running | Finished

datatype sched_report = Yield | Done

record message =
  msg_from :: domain_id
  msg_payload :: hash256

datatype ipc_error = NoSuchDomain | NoChannel

record dmn =
  dom_id :: domain_id
  dom_name :: rstring
  dom_capability :: capability
  dom_state :: domain_state
  dom_inbox :: "message list"
  dom_steps_run :: u32

record scheduler =
  sch_domains :: "dmn list"
  sch_run_queue :: "domain_id list"
  sch_channels :: "(domain_id \<times> domain_id) list"
  sch_next_id :: u64
  sch_trace :: "domain_id list"

definition sched_new :: scheduler where
  "sched_new = \<lparr>sch_domains = [], sch_run_queue = [], sch_channels = [], sch_next_id = 1, sch_trace = []\<rparr>"

definition sched_index :: "scheduler \<Rightarrow> domain_id \<Rightarrow> nat option" where
  "sched_index s i = position (\<lambda>d. dom_id d = i) (sch_domains s)"

text \<open>\<^verbatim>\<open>self.domains[i]\<close> updated in place.\<close>

definition upd_domain :: "nat \<Rightarrow> (dmn \<Rightarrow> dmn) \<Rightarrow> scheduler \<Rightarrow> scheduler" where
  "upd_domain i f s = s\<lparr>sch_domains := (sch_domains s)[i := f (sch_domains s ! i)]\<rparr>"

definition sched_spawn :: "rstring \<Rightarrow> capability \<Rightarrow> scheduler \<Rightarrow> domain_id \<times> scheduler" where
  "sched_spawn name c s =
    (let i = sch_next_id s
     in (i, s\<lparr>sch_next_id := sch_next_id s + 1,
              sch_domains := sch_domains s @
                [\<lparr>dom_id = i, dom_name = name, dom_capability = c, dom_state = Ready,
                  dom_inbox = [], dom_steps_run = 0\<rparr>],
              sch_run_queue := sch_run_queue s @ [i]\<rparr>))"

definition sched_domain_count :: "scheduler \<Rightarrow> nat" where
  "sched_domain_count s = length (sch_domains s)"

definition sched_live_count :: "scheduler \<Rightarrow> nat" where
  "sched_live_count s = length (filter (\<lambda>d. dom_state d \<noteq> Finished) (sch_domains s))"

definition sched_state :: "scheduler \<Rightarrow> domain_id \<Rightarrow> domain_state option" where
  "sched_state s i = map_option (\<lambda>k. dom_state (sch_domains s ! k)) (sched_index s i)"

definition sched_name :: "scheduler \<Rightarrow> domain_id \<Rightarrow> rstring option" where
  "sched_name s i = map_option (\<lambda>k. dom_name (sch_domains s ! k)) (sched_index s i)"

definition sched_steps_run :: "scheduler \<Rightarrow> domain_id \<Rightarrow> u32" where
  "sched_steps_run s i =
    (case sched_index s i of None \<Rightarrow> 0 | Some k \<Rightarrow> dom_steps_run (sch_domains s ! k))"

definition sched_next :: "scheduler \<Rightarrow> domain_id option \<times> scheduler" where
  "sched_next s =
    (case sch_run_queue s of
       [] \<Rightarrow> (None, s)
     | i # q \<Rightarrow>
         let s = s\<lparr>sch_run_queue := q\<rparr>
         in (Some i,
             case sched_index s i of
               None \<Rightarrow> s
             | Some k \<Rightarrow>
                 let s = upd_domain k (\<lambda>d. d\<lparr>dom_state := Running, dom_steps_run := dom_steps_run d + 1\<rparr>) s
                 in s\<lparr>sch_trace := sch_trace s @ [i]\<rparr>))"

definition sched_charge :: "domain_id \<Rightarrow> u32 \<Rightarrow> scheduler \<Rightarrow> scheduler" where
  "sched_charge i n s =
    (case sched_index s i of
       None \<Rightarrow> s
     | Some k \<Rightarrow>
         if dom_state (sch_domains s ! k) \<noteq> Finished
         then upd_domain k (\<lambda>d. d\<lparr>dom_steps_run := saturating_add (dom_steps_run d) n\<rparr>) s
         else s)"

definition sched_yield_back :: "domain_id \<Rightarrow> scheduler \<Rightarrow> scheduler" where
  "sched_yield_back i s =
    (case sched_index s i of
       None \<Rightarrow> s
     | Some k \<Rightarrow>
         if dom_state (sch_domains s ! k) \<noteq> Finished
         then let s = upd_domain k (\<lambda>d. d\<lparr>dom_state := Ready\<rparr>) s
              in s\<lparr>sch_run_queue := sch_run_queue s @ [i]\<rparr>
         else s)"

definition sched_finish :: "domain_id \<Rightarrow> scheduler \<Rightarrow> scheduler" where
  "sched_finish i s =
    (case sched_index s i of
       None \<Rightarrow> s
     | Some k \<Rightarrow>
         let s = upd_domain k (\<lambda>d. d\<lparr>dom_state := Finished\<rparr>) s
         in s\<lparr>sch_run_queue := filter (\<lambda>q. q \<noteq> i) (sch_run_queue s)\<rparr>)"

definition sched_has_runnable :: "scheduler \<Rightarrow> bool" where
  "sched_has_runnable s \<longleftrightarrow> sch_run_queue s \<noteq> []"

definition sched_check_access ::
    "scheduler \<Rightarrow> domain_id \<Rightarrow> u64 \<Rightarrow> u64 \<Rightarrow> rights \<Rightarrow> cap_error + unit" where
  "sched_check_access s i addr span r =
    rbind (ok_or (sched_index s i) TagInvalid) (\<lambda>k. cap_check (dom_capability (sch_domains s ! k)) addr span r)"

definition channel_exists :: "scheduler \<Rightarrow> domain_id \<Rightarrow> domain_id \<Rightarrow> bool" where
  "channel_exists s a b \<longleftrightarrow> list_ex (\<lambda>(x, y). x = a \<and> y = b \<or> x = b \<and> y = a) (sch_channels s)"

definition open_channel :: "domain_id \<Rightarrow> domain_id \<Rightarrow> scheduler \<Rightarrow> (ipc_error + unit) \<times> scheduler" where
  "open_channel a b s =
    (if sched_index s a = None \<or> sched_index s b = None then (Err NoSuchDomain, s)
     else if \<not> channel_exists s a b then (Ok (), s\<lparr>sch_channels := sch_channels s @ [(a, b)]\<rparr>)
     else (Ok (), s))"

definition sched_send ::
    "domain_id \<Rightarrow> domain_id \<Rightarrow> hash256 \<Rightarrow> scheduler \<Rightarrow> (ipc_error + unit) \<times> scheduler" where
  "sched_send from to payload s =
    (if sched_index s from = None then (Err NoSuchDomain, s)
     else case sched_index s to of
       None \<Rightarrow> (Err NoSuchDomain, s)
     | Some k \<Rightarrow>
         if \<not> channel_exists s from to then (Err NoChannel, s)
         else (Ok (), upd_domain k (\<lambda>d. d\<lparr>dom_inbox := dom_inbox d @ [\<lparr>msg_from = from, msg_payload = payload\<rparr>]\<rparr>) s))"

definition sched_recv :: "domain_id \<Rightarrow> scheduler \<Rightarrow> message option \<times> scheduler" where
  "sched_recv i s =
    (case sched_index s i of
       None \<Rightarrow> (None, s)
     | Some k \<Rightarrow>
         (case dom_inbox (sch_domains s ! k) of
            [] \<Rightarrow> (None, s)
          | m # ms \<Rightarrow> (Some m, upd_domain k (\<lambda>d. d\<lparr>dom_inbox := ms\<rparr>) s)))"

definition sched_inbox_len :: "scheduler \<Rightarrow> domain_id \<Rightarrow> nat" where
  "sched_inbox_len s i =
    (case sched_index s i of None \<Rightarrow> 0 | Some k \<Rightarrow> length (dom_inbox (sch_domains s ! k)))"

record domain_info =
  di_id :: domain_id
  di_name :: rstring
  di_state :: domain_state
  di_steps :: u32
  di_inbox :: nat
  di_base :: u64
  di_len :: u64

definition sched_snapshot :: "scheduler \<Rightarrow> domain_info list" where
  "sched_snapshot s =
    map (\<lambda>d. \<lparr>di_id = dom_id d, di_name = dom_name d, di_state = dom_state d, di_steps = dom_steps_run d,
              di_inbox = length (dom_inbox d), di_base = cap_base (dom_capability d),
              di_len = cap_len (dom_capability d)\<rparr>) (sch_domains s)"

definition sched_kill :: "domain_id \<Rightarrow> scheduler \<Rightarrow> bool \<times> scheduler" where
  "sched_kill i s =
    (case sched_index s i of
       Some k \<Rightarrow>
         let s = upd_domain k (\<lambda>d. d\<lparr>dom_state := Finished\<rparr>) s
         in (True, s\<lparr>sch_run_queue := filter (\<lambda>q. q \<noteq> i) (sch_run_queue s)\<rparr>)
     | None \<Rightarrow> (False, s))"

subsection \<open>Calls as a script\<close>

datatype sched_call =
    CallSpawn rstring capability
  | CallNext
  | CallCharge domain_id u32
  | CallYield domain_id
  | CallFinish domain_id
  | CallOpen domain_id domain_id
  | CallSend domain_id domain_id hash256
  | CallRecv domain_id
  | CallKill domain_id

fun sched_step :: "scheduler \<Rightarrow> sched_call \<Rightarrow> scheduler" where
  "sched_step s (CallSpawn name c) = snd (sched_spawn name c s)"
| "sched_step s CallNext = snd (sched_next s)"
| "sched_step s (CallCharge i n) = sched_charge i n s"
| "sched_step s (CallYield i) = sched_yield_back i s"
| "sched_step s (CallFinish i) = sched_finish i s"
| "sched_step s (CallOpen a b) = snd (open_channel a b s)"
| "sched_step s (CallSend a b p) = snd (sched_send a b p s)"
| "sched_step s (CallRecv i) = snd (sched_recv i s)"
| "sched_step s (CallKill i) = snd (sched_kill i s)"

definition sched_run :: "scheduler \<Rightarrow> sched_call list \<Rightarrow> scheduler" where
  "sched_run = foldl sched_step"

subsection \<open>Looking a domain up\<close>

definition dom_of :: "scheduler \<Rightarrow> domain_id \<Rightarrow> dmn option" where
  "dom_of s i = List.find (\<lambda>d. dom_id d = i) (sch_domains s)"

lemma find_list_update:
  assumes "position (\<lambda>d. key d = k) xs = Some n" "key (f (xs ! n)) = k"
  shows "List.find (\<lambda>d. key d = k') (xs[n := f (xs ! n)]) =
    (if k' = k then Some (f (xs ! n)) else List.find (\<lambda>d. key d = k') xs)"
  using assms
proof (induction xs arbitrary: n)
  case (Cons x xs)
  then show ?case by (cases n) (auto split: if_splits)
qed simp

lemma sched_index_dom_of:
  "sched_index s i = None \<longleftrightarrow> dom_of s i = None"
  "sched_index s i = Some k \<Longrightarrow> dom_of s i = Some (sch_domains s ! k)"
  by (simp_all add: sched_index_def dom_of_def find_Some_position)

lemma dom_of_upd:
  assumes "sched_index s i = Some k" "\<And>d. dom_id (f d) = dom_id d"
  shows "dom_of (upd_domain k f s) j = (if j = i then Some (f (sch_domains s ! k)) else dom_of s j)"
proof -
  have "dom_id (sch_domains s ! k) = i"
    using assms(1) by (auto simp: sched_index_def position_Some_iff)
  then show ?thesis
    using find_list_update [of dom_id i "sch_domains s" k f j] assms
    by (simp add: sched_index_def dom_of_def upd_domain_def)
qed

lemma dom_of_id: "dom_of s i = Some d \<Longrightarrow> dom_id d = i"
  by (auto simp: dom_of_def find_Some_iff)

lemma dom_of_fields [simp]:
  "dom_of (s\<lparr>sch_run_queue := q\<rparr>) = dom_of s"
  "dom_of (s\<lparr>sch_trace := t\<rparr>) = dom_of s"
  "dom_of (s\<lparr>sch_channels := cs\<rparr>) = dom_of s"
  by (simp_all add: dom_of_def fun_eq_iff)

lemma upd_domain_fields [simp]:
  "sch_run_queue (upd_domain k f s) = sch_run_queue s"
  "sch_channels (upd_domain k f s) = sch_channels s"
  "sch_next_id (upd_domain k f s) = sch_next_id s"
  "sch_trace (upd_domain k f s) = sch_trace s"
  by (simp_all add: upd_domain_def)

lemma sched_index_fields [simp]:
  "sched_index (s\<lparr>sch_run_queue := q\<rparr>) = sched_index s"
  by (simp add: sched_index_def fun_eq_iff)

lemma dom_of_spawn:
  "dom_of (snd (sched_spawn name c s)) j =
    (case dom_of s j of
       Some d \<Rightarrow> Some d
     | None \<Rightarrow> if j = sch_next_id s
               then Some \<lparr>dom_id = j, dom_name = name, dom_capability = c, dom_state = Ready,
                          dom_inbox = [], dom_steps_run = 0\<rparr>
               else None)"
proof -
  have "List.find p (xs @ [x]) = (case List.find p xs of Some y \<Rightarrow> Some y | None \<Rightarrow> if p x then Some x else None)"
    for p and x :: dmn and xs
    by (induction xs) auto
  then show ?thesis by (auto simp: sched_spawn_def dom_of_def Let_def split: option.splits)
qed

lemma dom_of_index:
  "dom_of s i = map_option ((!) (sch_domains s)) (sched_index s i)"
  by (simp add: dom_of_def sched_index_def find_Some_position)

lemma dom_of_updated:
  assumes "sched_index s i = Some k" "\<And>d. dom_id (f d) = dom_id d"
  shows "dom_of (upd_domain k f s) = (dom_of s)(i := map_option f (dom_of s i))"
  using dom_of_upd [OF assms] sched_index_dom_of(2) [OF assms(1)] by (auto simp: fun_eq_iff)

lemma lookup_cases:
  obtains (none) "sched_index s i = None" "dom_of s i = None"
  | (some) k where "sched_index s i = Some k" "dom_of s i = Some (sch_domains s ! k)"
  using sched_index_dom_of [of s i] by (cases "sched_index s i") auto

text \<open>Each call in terms of the lookup.\<close>

lemma next_effect:
  assumes "sch_run_queue s = i # q" "dom_of s i \<noteq> None"
  shows "fst (sched_next s) = Some i" "sch_run_queue (snd (sched_next s)) = q"
    "sch_trace (snd (sched_next s)) = sch_trace s @ [i]"
    "sch_channels (snd (sched_next s)) = sch_channels s" "sch_next_id (snd (sched_next s)) = sch_next_id s"
    "dom_of (snd (sched_next s)) = (dom_of s)(i :=
       map_option (\<lambda>d. d\<lparr>dom_state := Running, dom_steps_run := dom_steps_run d + 1\<rparr>) (dom_of s i))"
proof -
  obtain k where k: "sched_index s i = Some k"
    using assms(2) by (cases rule: lookup_cases [of s i]) auto
  then have "sched_index (s\<lparr>sch_run_queue := q\<rparr>) i = Some k" by simp
  from dom_of_updated [OF this] show "fst (sched_next s) = Some i" "sch_run_queue (snd (sched_next s)) = q"
    "sch_trace (snd (sched_next s)) = sch_trace s @ [i]"
    "sch_channels (snd (sched_next s)) = sch_channels s" "sch_next_id (snd (sched_next s)) = sch_next_id s"
    "dom_of (snd (sched_next s)) = (dom_of s)(i :=
       map_option (\<lambda>d. d\<lparr>dom_state := Running, dom_steps_run := dom_steps_run d + 1\<rparr>) (dom_of s i))"
    using assms(1) k by (simp_all add: sched_next_def Let_def)
qed

lemma charge_effect:
  "(dom_of (sched_charge i n s) = (dom_of s)(i := map_option (\<lambda>d. if dom_state d = Finished then d
     else d\<lparr>dom_steps_run := saturating_add (dom_steps_run d) n\<rparr>) (dom_of s i))) \<and>
   (sch_run_queue (sched_charge i n s) = sch_run_queue s) \<and>
   (sch_channels (sched_charge i n s) = sch_channels s) \<and>
   (sch_next_id (sched_charge i n s) = sch_next_id s) \<and>
   (sch_trace (sched_charge i n s) = sch_trace s)"
  by (cases rule: lookup_cases [of s i]) (auto simp: sched_charge_def Let_def dom_of_updated)

lemma yield_effect:
  "(dom_of (sched_yield_back i s) = (dom_of s)(i := map_option (\<lambda>d. if dom_state d = Finished then d
     else d\<lparr>dom_state := Ready\<rparr>) (dom_of s i))) \<and>
   (sch_run_queue (sched_yield_back i s) = sch_run_queue s @
     (case dom_of s i of None \<Rightarrow> [] | Some d \<Rightarrow> if dom_state d = Finished then [] else [i])) \<and>
   (sch_channels (sched_yield_back i s) = sch_channels s) \<and>
   (sch_next_id (sched_yield_back i s) = sch_next_id s) \<and>
   (sch_trace (sched_yield_back i s) = sch_trace s)"
  by (cases rule: lookup_cases [of s i]) (auto simp: sched_yield_back_def Let_def dom_of_updated)

lemma finish_effect:
  "(dom_of (sched_finish i s) = (dom_of s)(i := map_option (\<lambda>d. d\<lparr>dom_state := Finished\<rparr>) (dom_of s i))) \<and>
   (sch_run_queue (sched_finish i s) =
     (if dom_of s i = None then sch_run_queue s else filter (\<lambda>q. q \<noteq> i) (sch_run_queue s))) \<and>
   (sch_channels (sched_finish i s) = sch_channels s) \<and>
   (sch_next_id (sched_finish i s) = sch_next_id s) \<and>
   (sch_trace (sched_finish i s) = sch_trace s)"
  by (cases rule: lookup_cases [of s i]) (auto simp: sched_finish_def Let_def dom_of_updated)

lemma kill_eq_finish: "snd (sched_kill i s) = sched_finish i s" "fst (sched_kill i s) \<longleftrightarrow> dom_of s i \<noteq> None"
  by (auto simp: sched_kill_def sched_finish_def Let_def dom_of_index split: option.splits)

lemma open_effect:
  "dom_of (snd (open_channel a b s)) = dom_of s"
  "sch_run_queue (snd (open_channel a b s)) = sch_run_queue s"
  "sch_channels (snd (open_channel a b s)) = sch_channels s @
     (if dom_of s a = None \<or> dom_of s b = None \<or> channel_exists s a b then [] else [(a, b)])"
  "sch_next_id (snd (open_channel a b s)) = sch_next_id s" "sch_trace (snd (open_channel a b s)) = sch_trace s"
  by (simp_all add: open_channel_def sched_index_dom_of(1))

lemma send_effect:
  "(fst (sched_send a b p s) =
     (if dom_of s a = None \<or> dom_of s b = None then Err NoSuchDomain
      else if channel_exists s a b then Ok () else Err NoChannel)) \<and>
   (dom_of (snd (sched_send a b p s)) =
     (if dom_of s a = None \<or> dom_of s b = None \<or> \<not> channel_exists s a b then dom_of s
      else (dom_of s)(b := map_option
        (\<lambda>d. d\<lparr>dom_inbox := dom_inbox d @ [\<lparr>msg_from = a, msg_payload = p\<rparr>]\<rparr>) (dom_of s b)))) \<and>
   (sch_run_queue (snd (sched_send a b p s)) = sch_run_queue s) \<and>
   (sch_channels (snd (sched_send a b p s)) = sch_channels s) \<and>
   (sch_next_id (snd (sched_send a b p s)) = sch_next_id s) \<and>
   (sch_trace (snd (sched_send a b p s)) = sch_trace s)"
  by (cases rule: lookup_cases [of s a]; cases rule: lookup_cases [of s b])
    (auto simp: sched_send_def dom_of_updated)

lemma recv_effect:
  "(fst (sched_recv i s) = (case dom_of s i of None \<Rightarrow> None
     | Some d \<Rightarrow> (case dom_inbox d of [] \<Rightarrow> None | m # ms \<Rightarrow> Some m))) \<and>
   (dom_of (snd (sched_recv i s)) = (dom_of s)(i := map_option (\<lambda>d. d\<lparr>dom_inbox := tl (dom_inbox d)\<rparr>) (dom_of s i))) \<and>
   (sch_run_queue (snd (sched_recv i s)) = sch_run_queue s) \<and>
   (sch_channels (snd (sched_recv i s)) = sch_channels s) \<and>
   (sch_next_id (snd (sched_recv i s)) = sch_next_id s) \<and>
   (sch_trace (snd (sched_recv i s)) = sch_trace s)"
  by (cases rule: lookup_cases [of s i]) (auto simp: sched_recv_def Let_def dom_of_updated split: list.splits)

lemma dom_of_None_iff: "dom_of s i = None \<longleftrightarrow> i \<notin> dom_id ` set (sch_domains s)"
  by (auto simp: dom_of_def find_None_iff)

lemma ids_upd [simp]:
  "(\<And>d. dom_id (f d) = dom_id d) \<Longrightarrow> map dom_id (sch_domains (upd_domain k f s)) = map dom_id (sch_domains s)"
  by (cases "k < length (sch_domains s)"; rule nth_equalityI) (auto simp: upd_domain_def nth_list_update)

lemma ids_step:
  "map dom_id (sch_domains (sched_step s c)) =
    map dom_id (sch_domains s) @ (case c of CallSpawn _ _ \<Rightarrow> [sch_next_id s] | _ \<Rightarrow> [])"
proof (cases c)
  case (CallSpawn n cap)
  then show ?thesis by (simp add: sched_spawn_def Let_def)
qed (simp_all add: sched_next_def sched_charge_def sched_yield_back_def sched_finish_def open_channel_def
    sched_send_def sched_recv_def sched_kill_def Let_def split: list.split option.split)

subsection \<open>The invariant\<close>

text \<open>
  Ids are distinct and below the next one; only unfinished domains are queued; channels join
  domains that exist; and every message in an inbox came over an open channel.
\<close>

definition sched_inv :: "scheduler \<Rightarrow> bool" where
  "sched_inv s \<longleftrightarrow>
    distinct (map dom_id (sch_domains s)) \<and>
    (\<forall>i. dom_of s i \<noteq> None \<longrightarrow> unat i < unat (sch_next_id s)) \<and>
    (\<forall>i \<in> set (sch_run_queue s). \<exists>d. dom_of s i = Some d \<and> dom_state d \<noteq> Finished) \<and>
    (\<forall>(a, b) \<in> set (sch_channels s). dom_of s a \<noteq> None \<and> dom_of s b \<noteq> None) \<and>
    (\<forall>i d m. dom_of s i = Some d \<longrightarrow> m \<in> set (dom_inbox d) \<longrightarrow> channel_exists s (msg_from m) i)"

lemma sched_invI:
  assumes "distinct (map dom_id (sch_domains s))"
    and "\<And>i. dom_of s i \<noteq> None \<Longrightarrow> unat i < unat (sch_next_id s)"
    and "\<And>i. i \<in> set (sch_run_queue s) \<Longrightarrow> \<exists>d. dom_of s i = Some d \<and> dom_state d \<noteq> Finished"
    and "\<And>a b. (a, b) \<in> set (sch_channels s) \<Longrightarrow> dom_of s a \<noteq> None \<and> dom_of s b \<noteq> None"
    and "\<And>i d m. dom_of s i = Some d \<Longrightarrow> m \<in> set (dom_inbox d) \<Longrightarrow> channel_exists s (msg_from m) i"
  shows "sched_inv s"
  using assms unfolding sched_inv_def by blast

lemma sched_invD:
  assumes "sched_inv s"
  shows "distinct (map dom_id (sch_domains s))"
    and "dom_of s i \<noteq> None \<Longrightarrow> unat i < unat (sch_next_id s)"
    and "i \<in> set (sch_run_queue s) \<Longrightarrow> \<exists>d. dom_of s i = Some d \<and> dom_state d \<noteq> Finished"
    and "(a, b) \<in> set (sch_channels s) \<Longrightarrow> dom_of s a \<noteq> None \<and> dom_of s b \<noteq> None"
    and "dom_of s i = Some d \<Longrightarrow> m \<in> set (dom_inbox d) \<Longrightarrow> channel_exists s (msg_from m) i"
  using assms unfolding sched_inv_def by blast+

lemma sched_inv_new [inv_intros]: "sched_inv sched_new"
  by (simp add: sched_inv_def sched_new_def dom_of_def)

lemma channel_exists_mono:
  "sch_channels s' = sch_channels s @ cs \<Longrightarrow> channel_exists s a b \<Longrightarrow> channel_exists s' a b"
  by (auto simp: channel_exists_def)

lemma channel_exists_cong: "sch_channels s' = sch_channels s \<Longrightarrow> channel_exists s' = channel_exists s"
  by (simp add: channel_exists_def fun_eq_iff)

text \<open>What a call other than spawn may do to a domain that exists.\<close>

definition dom_evolves :: "scheduler \<Rightarrow> scheduler \<Rightarrow> domain_id \<Rightarrow> bool" where
  "dom_evolves s s' i \<longleftrightarrow>
    (\<forall>d. dom_of s i = Some d \<longrightarrow> (\<exists>d'. dom_of s' i = Some d' \<and> dom_capability d' = dom_capability d \<and>
      dom_name d' = dom_name d \<and> (dom_state d = Finished \<longrightarrow> dom_state d' = Finished)))"

lemma dom_evolves_refl [simp]: "dom_evolves s s i"
  by (simp add: dom_evolves_def)

lemma dom_evolves_trans: "dom_evolves s t i \<Longrightarrow> dom_evolves t u i \<Longrightarrow> dom_evolves s u i"
  by (fastforce simp: dom_evolves_def)

lemma next_empty: "sch_run_queue s = [] \<Longrightarrow> sched_next s = (None, s)"
  by (simp add: sched_next_def)

lemma next_cases:
  assumes "sched_inv s"
  obtains (idle) "sch_run_queue s = []" "sched_next s = (None, s)"
  | (dispatch) i q d where "sch_run_queue s = i # q" "dom_of s i = Some d" "dom_state d \<noteq> Finished"
proof (cases "sch_run_queue s")
  case Nil
  then show ?thesis using idle next_empty by simp
next
  case (Cons i q)
  then obtain d where "dom_of s i = Some d" "dom_state d \<noteq> Finished"
    using assms unfolding sched_inv_def by auto
  with Cons show ?thesis by (rule dispatch)
qed

lemma dom_evolves_step:
  assumes "sched_inv s"
  shows "dom_evolves s (sched_step s c) i"
proof (cases c)
  case CallNext
  then show ?thesis
    by (cases rule: next_cases [OF assms]) (auto simp: dom_evolves_def next_effect)
next
  case (CallSpawn n cap)
  then show ?thesis by (simp add: dom_evolves_def dom_of_spawn)
qed (auto simp: dom_evolves_def charge_effect yield_effect finish_effect open_effect send_effect recv_effect
    kill_eq_finish)

lemma sched_inv_spawn:
  assumes "sched_inv s" "unat (sch_next_id s) + 1 < 2 ^ 64"
  shows "sched_inv (snd (sched_spawn n c s))"
proof -
  let ?s = "snd (sched_spawn n c s)"
  have next_id: "unat (sch_next_id s + 1) = unat (sch_next_id s) + 1"
    using assms(2) by (simp add: unat_word_ariths)
  have fields: "sch_next_id ?s = sch_next_id s + 1" "sch_run_queue ?s = sch_run_queue s @ [sch_next_id s]"
    "sch_channels ?s = sch_channels s" "map dom_id (sch_domains ?s) = map dom_id (sch_domains s) @ [sch_next_id s]"
    by (simp_all add: sched_spawn_def Let_def)
  have fresh: "dom_of s (sch_next_id s) = None"
    using assms(1) by (auto simp: sched_inv_def)
  have old: "dom_of ?s i = dom_of s i" if "dom_of s i \<noteq> None" for i
    using that by (auto simp: dom_of_spawn)
  show ?thesis
  proof (rule sched_invI)
    show "distinct (map dom_id (sch_domains ?s))"
      using sched_invD(1) [OF assms(1)] fresh by (simp add: fields dom_of_None_iff)
    show "unat i < unat (sch_next_id ?s)" if "dom_of ?s i \<noteq> None" for i
      using that sched_invD(2) [OF assms(1), of i]
      by (auto simp: dom_of_spawn fields next_id split: option.splits if_splits)
    show "\<exists>d. dom_of ?s i = Some d \<and> dom_state d \<noteq> Finished" if "i \<in> set (sch_run_queue ?s)" for i
      using that sched_invD(3) [OF assms(1), of i] fresh by (auto simp: fields dom_of_spawn)
    show "dom_of ?s a \<noteq> None \<and> dom_of ?s b \<noteq> None" if "(a, b) \<in> set (sch_channels ?s)" for a b
      using that sched_invD(4) [OF assms(1), of a b] old by (simp add: fields)
    show "channel_exists ?s (msg_from m) i" if "dom_of ?s i = Some d" "m \<in> set (dom_inbox d)" for i d m
      using that sched_invD(5) [OF assms(1), of i d m]
      by (auto simp: channel_exists_cong [OF fields(3)] dom_of_spawn split: option.splits if_splits)
  qed
qed

lemma sched_inv_frame:
  assumes inv: "sched_inv s" and ids: "map dom_id (sch_domains s') = map dom_id (sch_domains s)"
    and nx: "sch_next_id s' = sch_next_id s"
    and queue: "\<And>i. i \<in> set (sch_run_queue s') \<Longrightarrow> \<exists>d. dom_of s' i = Some d \<and> dom_state d \<noteq> Finished"
    and ch: "\<And>a b. (a, b) \<in> set (sch_channels s') \<Longrightarrow> (a, b) \<in> set (sch_channels s) \<or> dom_of s a \<noteq> None \<and> dom_of s b \<noteq> None"
    and inbox: "\<And>i d m. dom_of s' i = Some d \<Longrightarrow> m \<in> set (dom_inbox d) \<Longrightarrow> channel_exists s' (msg_from m) i"
  shows "sched_inv s'"
proof -
  have ex: "dom_of s' i \<noteq> None \<longleftrightarrow> dom_of s i \<noteq> None" for i
  proof -
    have "dom_id ` set (sch_domains s') = dom_id ` set (sch_domains s)"
      using ids by (metis list.set_map)
    then show ?thesis by (simp add: dom_of_None_iff)
  qed
  show ?thesis
  proof (rule sched_invI)
    show "distinct (map dom_id (sch_domains s'))" using sched_invD(1) [OF inv] ids by simp
    show "unat i < unat (sch_next_id s')" if "dom_of s' i \<noteq> None" for i
      using that sched_invD(2) [OF inv, of i] unfolding ex nx by blast
    show "dom_of s' a \<noteq> None \<and> dom_of s' b \<noteq> None" if "(a, b) \<in> set (sch_channels s')" for a b
      using ch [OF that] sched_invD(4) [OF inv, of a b] unfolding ex by blast
  qed (fact queue, fact inbox)
qed

lemmas sched_effects = charge_effect yield_effect finish_effect open_effect send_effect recv_effect kill_eq_finish

lemma channels_step:
  assumes "sched_inv s"
  shows "\<exists>cs. sch_channels (sched_step s c) = sch_channels s @ cs \<and>
    (\<forall>(a, b) \<in> set cs. dom_of s a \<noteq> None \<and> dom_of s b \<noteq> None)"
proof (cases c)
  case CallNext
  then show ?thesis by (cases rule: next_cases [OF assms]) (auto simp: next_effect)
next
  case (CallSpawn n cap)
  then show ?thesis by (simp add: sched_spawn_def Let_def)
qed (auto simp: sched_effects)

lemma inbox_step:
  assumes "sched_inv s" "dom_of (sched_step s c) i = Some d" "m \<in> set (dom_inbox d)"
  shows "(\<exists>d0. dom_of s i = Some d0 \<and> m \<in> set (dom_inbox d0)) \<or> channel_exists s (msg_from m) i"
proof (cases c)
  case CallNext
  then show ?thesis
    using assms by (cases rule: next_cases [OF assms(1)]) (auto simp: next_effect split: if_splits)
next
  case (CallSpawn n cap)
  then show ?thesis using assms(2,3) by (auto simp: dom_of_spawn split: option.splits if_splits)
next
  case (CallRecv j)
  have "x \<in> set (tl xs) \<Longrightarrow> x \<in> set xs" for x :: message and xs by (cases xs) simp_all
  with CallRecv show ?thesis
    using assms(2,3) by (auto simp: sched_effects split: if_splits)
qed (use assms(2,3) in \<open>auto simp: sched_effects split: if_splits\<close>)

lemma queue_step:
  assumes "sched_inv s" "\<not> (\<exists>n cap. c = CallSpawn n cap)" "i \<in> set (sch_run_queue (sched_step s c))"
  shows "\<exists>d. dom_of (sched_step s c) i = Some d \<and> dom_state d \<noteq> Finished"
proof (cases c)
  case CallNext
  then show ?thesis
    using assms sched_invD(3) [OF assms(1), of i]
    by (cases rule: next_cases [OF assms(1)]) (auto simp: next_effect)
next
  case (CallYield j)
  then show ?thesis
    using assms sched_invD(3) [OF assms(1), of i] by (cases "dom_of s j") (auto simp: sched_effects split: if_splits)
qed (use assms sched_invD(3) [OF assms(1), of i] in
  \<open>auto simp: sched_effects split: if_splits option.splits\<close>)

lemma sched_inv_step_other:
  assumes inv: "sched_inv s" and other: "\<not> (\<exists>n cap. c = CallSpawn n cap)"
  shows "sched_inv (sched_step s c)"
proof -
  obtain cs where cs: "sch_channels (sched_step s c) = sch_channels s @ cs"
      "\<forall>(a, b) \<in> set cs. dom_of s a \<noteq> None \<and> dom_of s b \<noteq> None"
    using channels_step [OF inv] by blast
  show ?thesis
  proof (rule sched_inv_frame [OF inv])
    show "map dom_id (sch_domains (sched_step s c)) = map dom_id (sch_domains s)"
      using other by (cases c) (simp_all add: ids_step del: sched_step.simps)
    show "sch_next_id (sched_step s c) = sch_next_id s"
      using other by (cases c; cases rule: next_cases [OF inv]) (auto simp: next_effect sched_effects)
    show "(a, b) \<in> set (sch_channels s) \<or> dom_of s a \<noteq> None \<and> dom_of s b \<noteq> None"
      if "(a, b) \<in> set (sch_channels (sched_step s c))" for a b
      using that cs by auto
    show "channel_exists (sched_step s c) (msg_from m) i"
      if "dom_of (sched_step s c) i = Some d" "m \<in> set (dom_inbox d)" for i d m
      using inbox_step [OF inv that] sched_invD(5) [OF inv, of i _ m] channel_exists_mono [OF cs(1)] by blast
  qed (rule queue_step [OF inv other])
qed

lemma sched_inv_step:
  assumes "sched_inv s" and "unat (sch_next_id s) + 1 < 2 ^ 64"
  shows "sched_inv (sched_step s c)"
proof (cases "\<exists>n cap. c = CallSpawn n cap")
  case True
  then show ?thesis using sched_inv_spawn [OF assms] by auto
next
  case False
  then show ?thesis by (rule sched_inv_step_other [OF assms(1)])
qed

lemma next_id_step:
  "unat (sch_next_id s) + 1 < 2 ^ 64 \<Longrightarrow> sched_inv s \<Longrightarrow> unat (sch_next_id (sched_step s c)) \<le> unat (sch_next_id s) + 1"
proof (cases c)
  case (CallSpawn n cap)
  assume "unat (sch_next_id s) + 1 < 2 ^ 64"
  then show ?thesis by (simp add: CallSpawn sched_spawn_def Let_def unat_word_ariths)
next
  case CallNext
  assume "sched_inv s"
  then show ?thesis by (cases rule: next_cases) (simp_all add: CallNext next_effect)
qed (simp_all add: sched_effects)

lemma sched_inv_run:
  "sched_inv s \<Longrightarrow> unat (sch_next_id s) + length calls < 2 ^ 64 \<Longrightarrow> sched_inv (sched_run s calls)"
  unfolding sched_run_def
proof (induction calls arbitrary: s)
  case (Cons c calls)
  have room: "unat (sch_next_id s) + 1 < 2 ^ 64" using Cons.prems(2) by simp
  then have "unat (sch_next_id (sched_step s c)) + length calls < 2 ^ 64"
    using next_id_step [OF room Cons.prems(1), of c] Cons.prems(2) by simp
  then show ?case using Cons.IH [OF sched_inv_step [OF Cons.prems(1) room]] by simp
qed simp

subsection \<open>Termination of domains, rotation and inboxes\<close>

lemma dom_evolves_run:
  "sched_inv s \<Longrightarrow> unat (sch_next_id s) + length calls < 2 ^ 64 \<Longrightarrow> dom_evolves s (sched_run s calls) i"
proof (induction calls rule: rev_induct)
  case (snoc c calls)
  have "sched_inv (sched_run s calls)" "dom_evolves s (sched_run s calls) i"
    using sched_inv_run snoc by simp_all
  then show ?case
    using dom_evolves_step [of "sched_run s calls" c i] by (auto simp: sched_run_def intro: dom_evolves_trans)
qed (simp add: sched_run_def)

lemma trace_step_finished:
  assumes "sched_inv s" "dom_of s i = Some d" "dom_state d = Finished"
  shows "filter (\<lambda>j. j = i) (sch_trace (sched_step s c)) = filter (\<lambda>j. j = i) (sch_trace s)"
proof (cases c)
  case CallNext
  then show ?thesis using assms(2,3) by (cases rule: next_cases [OF assms(1)]) (auto simp: next_effect)
next
  case (CallSpawn n cap)
  then show ?thesis by (simp add: sched_spawn_def Let_def)
qed (simp_all add: sched_effects)

definition sched_round :: "scheduler \<Rightarrow> scheduler" where
  "sched_round s = (case sched_next s of (None, s') \<Rightarrow> s' | (Some i, s') \<Rightarrow> sched_yield_back i s')"

lemma sched_round_effect:
  assumes "sched_inv s" "sch_run_queue s \<noteq> []"
  shows "sched_inv (sched_round s)" "sch_run_queue (sched_round s) = rotate1 (sch_run_queue s)"
    "sch_trace (sched_round s) = sch_trace s @ [hd (sch_run_queue s)]"
proof -
  obtain i q d where q: "sch_run_queue s = i # q" "dom_of s i = Some d" "dom_state d \<noteq> Finished"
    using assms(2) by (cases rule: next_cases [OF assms(1)]) auto
  let ?s = "snd (sched_next s)"
  have e: "sched_next s = (Some i, ?s)"
    using next_effect(1) [OF q(1)] q(2) by (metis option.distinct(1) prod.collapse)
  then have round: "sched_round s = sched_yield_back i ?s"
    by (simp add: sched_round_def) (metis (no_types, lifting) case_prod_conv option.simps(5))
  have "sched_inv (sched_step (sched_step s CallNext) (CallYield i))"
    using assms(1) by (intro sched_inv_step_other) auto
  then show "sched_inv (sched_round s)" by (simp add: round)
  show "sch_run_queue (sched_round s) = rotate1 (sch_run_queue s)"
    "sch_trace (sched_round s) = sch_trace s @ [hd (sch_run_queue s)]"
    using q by (simp_all add: round yield_effect next_effect)
qed

lemma sched_rounds_effect:
  assumes "sched_inv s" "sch_run_queue s \<noteq> []"
  shows "sched_inv ((sched_round ^^ k) s) \<and> sch_run_queue ((sched_round ^^ k) s) = rotate k (sch_run_queue s) \<and>
    sch_trace ((sched_round ^^ k) s) =
      sch_trace s @ map (\<lambda>j. sch_run_queue s ! (j mod length (sch_run_queue s))) [0..<k]"
proof (induction k)
  case (Suc k)
  then show ?case
    using sched_round_effect [of "(sched_round ^^ k) s"] assms(2)
    by (simp add: rotate_is_Nil_conv rotate1_rotate_swap rotate_Suc hd_rotate_conv_nth)
qed (use assms in simp)

definition inbox_of :: "scheduler \<Rightarrow> domain_id \<Rightarrow> message list" where
  "inbox_of s i = (case dom_of s i of None \<Rightarrow> [] | Some d \<Rightarrow> dom_inbox d)"

text \<open>The messages that one call, and a script of calls, delivers to a domain and hands to it.\<close>

definition call_sends :: "domain_id \<Rightarrow> scheduler \<Rightarrow> sched_call \<Rightarrow> message list" where
  "call_sends i s c =
    (case c of CallSend a b p \<Rightarrow>
       if b = i \<and> fst (sched_send a b p s) = Ok () then [\<lparr>msg_from = a, msg_payload = p\<rparr>] else []
     | _ \<Rightarrow> [])"

definition call_receives :: "domain_id \<Rightarrow> scheduler \<Rightarrow> sched_call \<Rightarrow> message list" where
  "call_receives i s c =
    (case c of CallRecv j \<Rightarrow> if j = i then (case fst (sched_recv j s) of None \<Rightarrow> [] | Some m \<Rightarrow> [m]) else []
     | _ \<Rightarrow> [])"

fun sent_to :: "domain_id \<Rightarrow> scheduler \<Rightarrow> sched_call list \<Rightarrow> message list" where
  "sent_to i s [] = []"
| "sent_to i s (c # cs) = call_sends i s c @ sent_to i (sched_step s c) cs"

fun received_by :: "domain_id \<Rightarrow> scheduler \<Rightarrow> sched_call list \<Rightarrow> message list" where
  "received_by i s [] = []"
| "received_by i s (c # cs) = call_receives i s c @ received_by i (sched_step s c) cs"

lemma inbox_fifo_step:
  assumes "sched_inv s"
  shows "inbox_of s i @ call_sends i s c = call_receives i s c @ inbox_of (sched_step s c) i"
proof (cases c)
  case CallNext
  then show ?thesis
    by (cases rule: next_cases [OF assms])
      (auto simp: next_effect inbox_of_def call_sends_def call_receives_def)
next
  case (CallSpawn n cap)
  then show ?thesis
    by (auto simp: inbox_of_def dom_of_spawn call_sends_def call_receives_def split: option.splits)
next
  case (CallRecv j)
  then show ?thesis
    by (cases "dom_of s i")
      (auto simp: inbox_of_def recv_effect call_sends_def call_receives_def split: list.splits)
qed (cases "dom_of s i";
  auto simp: sched_effects inbox_of_def call_sends_def call_receives_def)+

lemma inbox_fifo:
  "sched_inv s \<Longrightarrow> unat (sch_next_id s) + length cs < 2 ^ 64 \<Longrightarrow>
    inbox_of s i @ sent_to i s cs = received_by i s cs @ inbox_of (sched_run s cs) i"
proof (induction cs arbitrary: s)
  case (Cons c cs)
  have room: "unat (sch_next_id s) + 1 < 2 ^ 64" using Cons.prems(2) by simp
  have "unat (sch_next_id (sched_step s c)) + length cs < 2 ^ 64"
    using next_id_step [OF room Cons.prems(1), of c] Cons.prems(2) by simp
  then have "inbox_of (sched_step s c) i @ sent_to i (sched_step s c) cs =
      received_by i (sched_step s c) cs @ inbox_of (sched_run (sched_step s c) cs) i"
    using Cons.IH [OF sched_inv_step [OF Cons.prems(1) room]] by simp
  then show ?case
    using inbox_fifo_step [OF Cons.prems(1), of i c]
    by (simp add: sched_run_def) (metis append.assoc)
qed (simp add: sched_run_def)

subsection \<open>Properties\<close>

text \<open>A small system for the witnesses: two domains with a channel and messages in flight.\<close>

definition demo_cap :: capability where
  "demo_cap = \<lparr>cap_base = 0x1000, cap_len = 0x100, cap_rights = 3, cap_provenance = [], cap_tag = True\<rparr>"

definition demo_calls :: "sched_call list" where
  "demo_calls = [CallSpawn (ascii ''a'') demo_cap, CallSpawn (ascii ''b'') demo_cap, CallOpen 1 2,
     CallSend 1 2 [7], CallSend 1 2 [8]]"

definition demo_sched :: scheduler where
  "demo_sched = sched_run sched_new demo_calls"

lemma demo_sched_facts:
  "sch_run_queue demo_sched = [1, 2]" "sch_trace demo_sched = []" "sch_next_id demo_sched = 3"
  "map_option dom_state (dom_of demo_sched 1) = Some Ready" "dom_of demo_sched 3 = None"
  "inbox_of demo_sched 2 = [\<lparr>msg_from = 1, msg_payload = [7]\<rparr>, \<lparr>msg_from = 1, msg_payload = [8]\<rparr>]"
  by code_simp+

lemma demo_sched_inv: "sched_inv demo_sched"
  unfolding demo_sched_def by (rule sched_inv_run [OF sched_inv_new]) (simp add: sched_new_def demo_calls_def)

text \<open>
  C9: Termination is permanent.  Once a domain was finished or killed, no sequence of
  scheduler calls (fewer than \<open>2 ^ 64\<close> ids in all) brings it back: it stays finished, is never
  in the run queue, is never dispatched again, and keeps its capability; and the scheduler
  invariant holds throughout.
\<close>

theorem finished_domain_never_runs:
  assumes "sched_inv s" "unat (sch_next_id s) + length calls < 2 ^ 64" "dom_of s i \<noteq> None"
    and "s' = sched_finish i s \<or> s' = snd (sched_kill i s)"
  shows "sched_inv (sched_run s' calls) \<and> sched_state (sched_run s' calls) i = Some Finished \<and>
    i \<notin> set (sch_run_queue (sched_run s' calls)) \<and>
    filter (\<lambda>j. j = i) (sch_trace (sched_run s' calls)) = filter (\<lambda>j. j = i) (sch_trace s)"
proof -
  have s': "s' = sched_step s (CallFinish i)" using assms(4) kill_eq_finish(1) by auto
  have inv: "sched_inv s'" unfolding s' by (rule sched_inv_step_other [OF assms(1)]) simp
  obtain d where d: "dom_of s' i = Some d" "dom_state d = Finished"
    using assms(3) by (auto simp: s' finish_effect)
  have trace0: "sch_trace s' = sch_trace s" "sch_next_id s' = sch_next_id s" by (simp_all add: s' finish_effect)
  have run: "sched_inv (sched_run s' cs) \<and> (\<exists>d'. dom_of (sched_run s' cs) i = Some d' \<and> dom_state d' = Finished) \<and>
      filter (\<lambda>j. j = i) (sch_trace (sched_run s' cs)) = filter (\<lambda>j. j = i) (sch_trace s)"
    if "length cs \<le> length calls" for cs
    using that
  proof (induction cs rule: rev_induct)
    case Nil
    then show ?case using inv d trace0 by (simp add: sched_run_def)
  next
    case (snoc c cs)
    then have ih: "sched_inv (sched_run s' cs)" "filter (\<lambda>j. j = i) (sch_trace (sched_run s' cs)) = filter (\<lambda>j. j = i) (sch_trace s)"
      and fin: "\<exists>d'. dom_of (sched_run s' cs) i = Some d' \<and> dom_state d' = Finished"
      by simp_all
    have "sched_inv (sched_run s' (cs @ [c]))" "dom_evolves s' (sched_run s' (cs @ [c])) i"
      using snoc.prems assms(2) inv by (auto intro!: sched_inv_run dom_evolves_run simp: trace0)
    then show ?case
      using d fin trace_step_finished [OF ih(1), of i _ c] ih(2) by (auto simp: dom_evolves_def sched_run_def)
  qed
  then obtain d' where fin: "sched_inv (sched_run s' calls)" "dom_of (sched_run s' calls) i = Some d'" "dom_state d' = Finished"
    "filter (\<lambda>j. j = i) (sch_trace (sched_run s' calls)) = filter (\<lambda>j. j = i) (sch_trace s)"
    by blast
  then have "sched_state (sched_run s' calls) i = Some Finished"
    by (cases rule: lookup_cases [of "sched_run s' calls" i]) (auto simp: sched_state_def)
  then show ?thesis using fin sched_invD(3) [OF fin(1), of i] by auto
qed

theorem finished_domain_never_runs_witness:
  "1 \<notin> set (sch_run_queue (sched_run (snd (sched_kill 1 demo_sched)) [CallYield 1, CallNext, CallYield 2]))"
  using finished_domain_never_runs [OF demo_sched_inv, of "[CallYield 1, CallNext, CallYield 2]" 1
      "snd (sched_kill 1 demo_sched)"] demo_sched_facts by auto

text \<open>
  Round robin is fair.  While every dispatched domain yields, the dispatches of \<open>k\<close> steps
  walk through the run queue in order, again and again; after one full turn every queued
  domain has run as often as it is queued, and the queue is back in its original order.
\<close>

theorem round_robin_fair:
  assumes "sched_inv s" "sch_run_queue s \<noteq> []"
  shows "sch_trace ((sched_round ^^ k) s) =
      sch_trace s @ map (\<lambda>j. sch_run_queue s ! (j mod length (sch_run_queue s))) [0..<k] \<and>
    sch_run_queue ((sched_round ^^ k) s) = rotate k (sch_run_queue s) \<and>
    sch_trace ((sched_round ^^ length (sch_run_queue s)) s) = sch_trace s @ sch_run_queue s"
proof -
  have "map (\<lambda>j. q ! (j mod length q)) [0..<length q] = q" for q :: "domain_id list"
    by (rule nth_equalityI) simp_all
  then show ?thesis using sched_rounds_effect [OF assms] by simp
qed

theorem round_robin_fair_witness: "sch_trace ((sched_round ^^ 3) demo_sched) = [1, 2, 1]"
  using round_robin_fair [OF demo_sched_inv, of 3] by (simp add: demo_sched_facts upt_rec)

text \<open>
  Message passing.  A send succeeds exactly when both domains exist and a channel between
  them is open; over any sequence of calls the messages a domain has received, followed by
  those still in its inbox, are the messages it had plus those successfully sent to it, in
  order, none lost, invented or duplicated; and every message in an inbox came over an open
  channel.
\<close>

theorem message_passing_fifo:
  assumes "sched_inv s" "unat (sch_next_id s) + length calls < 2 ^ 64"
  shows "fst (sched_send a b p s) =
      (if dom_of s a = None \<or> dom_of s b = None then Err NoSuchDomain
       else if channel_exists s a b then Ok () else Err NoChannel) \<and>
    inbox_of s i @ sent_to i s calls = received_by i s calls @ inbox_of (sched_run s calls) i \<and>
    (\<forall>m \<in> set (inbox_of (sched_run s calls) i). channel_exists (sched_run s calls) (msg_from m) i)"
proof -
  have "channel_exists (sched_run s calls) (msg_from m) i" if "m \<in> set (inbox_of (sched_run s calls) i)" for m
    using that sched_invD(5) [OF sched_inv_run [OF assms], of i _ m]
    by (cases "dom_of (sched_run s calls) i") (simp_all add: inbox_of_def)
  then show ?thesis
    using inbox_fifo [OF assms] by (simp add: send_effect)
qed

theorem message_passing_fifo_witness:
  "received_by 2 demo_sched [CallRecv 2] @ inbox_of (sched_run demo_sched [CallRecv 2]) 2 =
    [\<lparr>msg_from = 1, msg_payload = [7]\<rparr>, \<lparr>msg_from = 1, msg_payload = [8]\<rparr>]"
  using message_passing_fifo [OF demo_sched_inv, of "[CallRecv 2]" 1 2 "[]" 2] demo_sched_facts
  by (simp add: call_sends_def)

text \<open>
  Isolation.  What a domain may access is decided by the capability it was spawned with
  and by nothing else: no sequence of calls changes the answer, and the answer for an id that
  was never spawned is a tag fault.
\<close>

theorem domain_isolation:
  assumes "sched_inv s" "unat (sch_next_id s) + length calls < 2 ^ 64"
  shows "sched_check_access s i addr span r =
      (case dom_of s i of None \<Rightarrow> Err TagInvalid | Some d \<Rightarrow> cap_check (dom_capability d) addr span r) \<and>
    (dom_of s i \<noteq> None \<longrightarrow>
      sched_check_access (sched_run s calls) i addr span r = sched_check_access s i addr span r) \<and>
    (let (j, t) = sched_spawn name c s in
      dom_of s j = None \<and> sched_check_access t j addr span r = cap_check c addr span r)"
proof -
  have eq: "sched_check_access t j addr span r =
      (case dom_of t j of None \<Rightarrow> Err TagInvalid | Some d \<Rightarrow> cap_check (dom_capability d) addr span r)" for t j
    by (cases rule: lookup_cases [of t j]) (simp_all add: sched_check_access_def)
  have "dom_of s (sch_next_id s) = None"
    using sched_invD(2) [OF assms(1), of "sch_next_id s"] by blast
  moreover have "fst (sched_spawn name c s) = sch_next_id s" by (simp add: sched_spawn_def Let_def)
  ultimately show ?thesis
    using dom_evolves_run [OF assms, of i] unfolding eq
    by (auto simp: dom_evolves_def case_prod_beta dom_of_spawn)
qed

theorem domain_isolation_witness:
  "sched_check_access (sched_run demo_sched [CallNext, CallKill 2]) 1 0x1010 8 1 =
    sched_check_access demo_sched 1 0x1010 8 1"
  using domain_isolation [OF demo_sched_inv, of "[CallNext, CallKill 2]" 1 "0x1010" 8 1] demo_sched_facts
  by auto

end
