(* ===== verification/Hybrid_Clock.thy ===== *)
theory Hybrid_Clock
  imports Dominion_Prelude
begin

text \<open>
  Hybrid logical clocks, \<^verbatim>\<open>dominion-core/src/hlc.rs\<close>: local and receive events on
  (wall, logical) timestamps with a 32-bit counter that may be exhausted, and the causality
  theorem over whole executions of a network of clocks.
\<close>

datatype hlc_error = CounterExhausted

record timestamp =
  ts_wall :: u64
  ts_logical :: u32

text \<open>The derived \<^verbatim>\<open>Ord\<close>: lexicographic on the fields.\<close>

definition ts_less :: "timestamp \<Rightarrow> timestamp \<Rightarrow> bool" where
  "ts_less a b \<longleftrightarrow> ts_wall a < ts_wall b \<or> ts_wall a = ts_wall b \<and> ts_logical a < ts_logical b"

record hlc =
  hlc_last :: timestamp

definition hlc_new :: hlc where
  "hlc_new = \<lparr>hlc_last = \<lparr>ts_wall = 0, ts_logical = 0\<rparr>\<rparr>"

definition hlc_now :: "hlc \<Rightarrow> timestamp" where
  "hlc_now c = hlc_last c"

text \<open>An error leaves the clock as it was.\<close>

definition hlc_local :: "u64 \<Rightarrow> hlc \<Rightarrow> (hlc_error + timestamp) \<times> hlc" where
  "hlc_local pt c =
    (let prev = hlc_last c;
         wall = max (ts_wall prev) pt
     in case (if wall = ts_wall prev then ok_or (checked_add (ts_logical prev) 1) CounterExhausted else Ok 0) of
          Inl e \<Rightarrow> (Err e, c)
        | Inr logical \<Rightarrow>
            (let t = \<lparr>ts_wall = wall, ts_logical = logical\<rparr> in (Ok t, c\<lparr>hlc_last := t\<rparr>)))"

definition hlc_receive :: "u64 \<Rightarrow> timestamp \<Rightarrow> hlc \<Rightarrow> (hlc_error + timestamp) \<times> hlc" where
  "hlc_receive pt msg c =
    (let prev = hlc_last c;
         wall = max (max (ts_wall prev) (ts_wall msg)) pt
     in case (if wall = ts_wall prev \<and> wall = ts_wall msg
              then ok_or (checked_add (max (ts_logical prev) (ts_logical msg)) 1) CounterExhausted
              else if wall = ts_wall prev then ok_or (checked_add (ts_logical prev) 1) CounterExhausted
              else if wall = ts_wall msg then ok_or (checked_add (ts_logical msg) 1) CounterExhausted
              else Ok 0) of
          Inl e \<Rightarrow> (Err e, c)
        | Inr logical \<Rightarrow>
            (let t = \<lparr>ts_wall = wall, ts_logical = logical\<rparr> in (Ok t, c\<lparr>hlc_last := t\<rparr>)))"

subsection \<open>The order\<close>

lemma ts_less_irrefl: "\<not> ts_less a a"
  by (simp add: ts_less_def)

lemma ts_less_trans: "ts_less a b \<Longrightarrow> ts_less b c \<Longrightarrow> ts_less a c"
  by (auto simp: ts_less_def)

lemma ts_less_linear: "ts_less a b \<or> a = b \<or> ts_less b a"
  by (cases a; cases b) (auto simp: ts_less_def)

subsection \<open>Single events\<close>

lemma checked_inc: "checked_add l 1 = (if l = 0xffffffff then None else Some (l + 1))" for l :: u32
proof -
  have "unat l < 2 ^ 32" using unsigned_less [of l, where ?'a = nat] by simp
  moreover have "l = 0xffffffff \<longleftrightarrow> unat l = 2 ^ 32 - 1" by (simp add: word_unat_eq_iff)
  ultimately show ?thesis by (auto simp: checked_add_def)
qed

lemma inc_greater: "l \<noteq> 0xffffffff \<Longrightarrow> l < l + 1" for l :: u32
proof -
  assume "l \<noteq> 0xffffffff"
  then have "unat l \<noteq> 2 ^ 32 - 1" by (simp add: word_unat_eq_iff)
  then have "unat l + 1 < 2 ^ 32" using unsigned_less [of l, where ?'a = nat] by simp
  then show ?thesis by (simp add: word_less_nat_alt unat_word_ariths)
qed

text \<open>Both events as one: the counter of the timestamps that share the new wall time goes up by one.\<close>

definition ts_exhausted :: "u64 \<Rightarrow> timestamp \<Rightarrow> bool" where
  "ts_exhausted wall t \<longleftrightarrow> ts_wall t = wall \<and> ts_logical t = 0xffffffff"

lemma max_top_iff: "max a b = 0xffffffff \<longleftrightarrow> a = 0xffffffff \<or> b = 0xffffffff" for a b :: u32
proof -
  have "x \<le> 0xffffffff" for x :: u32
    using unsigned_less [of x, where ?'a = nat] by (simp add: word_le_nat_alt)
  then show ?thesis by (auto simp: max_def dest: antisym)
qed

lemma max_less_inc: "max a b \<noteq> 0xffffffff \<Longrightarrow> a < max a b + 1 \<and> b < max a b + 1" for a b :: u32
  using inc_greater [of "max a b"] by (meson max.cobounded1 max.cobounded2 order_le_less_trans)

lemma hlc_local_cases:
  obtains (ok) t where "hlc_local pt c = (Ok t, c\<lparr>hlc_last := t\<rparr>)" "ts_less (hlc_last c) t"
      "ts_wall t = max (ts_wall (hlc_last c)) pt" "\<not> ts_exhausted (ts_wall t) (hlc_last c)"
  | (exhausted) "hlc_local pt c = (Err CounterExhausted, c)"
      "ts_exhausted (max (ts_wall (hlc_last c)) pt) (hlc_last c)"
proof -
  let ?w = "max (ts_wall (hlc_last c)) pt"
  show ?thesis
  proof (cases "ts_exhausted ?w (hlc_last c)")
    case True
    then show ?thesis
      using exhausted by (simp add: hlc_local_def ts_exhausted_def checked_inc Let_def)
  next
    case False
    have "ts_wall (hlc_last c) \<noteq> ?w \<Longrightarrow> ts_wall (hlc_last c) < ?w"
      by (simp add: max_def split: if_splits)
    with False show ?thesis
      using ok [of "\<lparr>ts_wall = ?w, ts_logical = (if ?w = ts_wall (hlc_last c) then ts_logical (hlc_last c) + 1 else 0)\<rparr>"]
      by (auto simp: hlc_local_def ts_exhausted_def checked_inc Let_def ts_less_def inc_greater)
  qed
qed

lemma hlc_receive_cases:
  obtains (ok) t where "hlc_receive pt msg c = (Ok t, c\<lparr>hlc_last := t\<rparr>)" "ts_less (hlc_last c) t" "ts_less msg t"
      "ts_wall t = max (max (ts_wall (hlc_last c)) (ts_wall msg)) pt"
      "\<not> ts_exhausted (ts_wall t) (hlc_last c)" "\<not> ts_exhausted (ts_wall t) msg"
  | (exhausted) "hlc_receive pt msg c = (Err CounterExhausted, c)"
      "ts_exhausted (max (max (ts_wall (hlc_last c)) (ts_wall msg)) pt) (hlc_last c) \<or>
       ts_exhausted (max (max (ts_wall (hlc_last c)) (ts_wall msg)) pt) msg"
proof -
  let ?p = "hlc_last c"
  let ?w = "max (max (ts_wall ?p) (ts_wall msg)) pt"
  let ?l = "if ?w = ts_wall ?p \<and> ?w = ts_wall msg then max (ts_logical ?p) (ts_logical msg) + 1
    else if ?w = ts_wall ?p then ts_logical ?p + 1 else if ?w = ts_wall msg then ts_logical msg + 1 else 0"
  show ?thesis
  proof (cases "ts_exhausted ?w ?p \<or> ts_exhausted ?w msg")
    case True
    then show ?thesis
      by (intro exhausted) (auto simp: hlc_receive_def ts_exhausted_def checked_inc max_top_iff Let_def)
  next
    case False
    have w: "ts_wall ?p \<noteq> ?w \<Longrightarrow> ts_wall ?p < ?w" "ts_wall msg \<noteq> ?w \<Longrightarrow> ts_wall msg < ?w"
      by (auto simp: max_def split: if_splits)
    have less: "ts_less ?p \<lparr>ts_wall = ?w, ts_logical = ?l\<rparr>" "ts_less msg \<lparr>ts_wall = ?w, ts_logical = ?l\<rparr>"
      using False w max_less_inc [of "ts_logical ?p" "ts_logical msg"]
      by (auto simp: ts_less_def ts_exhausted_def max_top_iff inc_greater)
    have "hlc_receive pt msg c = (Ok \<lparr>ts_wall = ?w, ts_logical = ?l\<rparr>, c\<lparr>hlc_last := \<lparr>ts_wall = ?w, ts_logical = ?l\<rparr>\<rparr>)"
      using False by (auto simp: hlc_receive_def ts_exhausted_def checked_inc max_top_iff Let_def)
    then show ?thesis using ok less False by auto
  qed
qed

subsection \<open>Executions of a network of clocks\<close>

text \<open>
  An event is a local one at a node, or the receipt at a node of a message that carries the
  stamp of an earlier event, given by its index.  A run fails when a message is received
  before it was sent or a counter is exhausted.
\<close>

datatype hlc_event = EvLocal nat u64 | EvRecv nat u64 nat

primrec ev_node :: "hlc_event \<Rightarrow> nat" where
  "ev_node (EvLocal n pt) = n"
| "ev_node (EvRecv n pt k) = n"

type_synonym net = "(nat \<Rightarrow> hlc) \<times> timestamp list"

definition net_issue :: "net \<Rightarrow> nat \<Rightarrow> (hlc_error + timestamp) \<times> hlc \<Rightarrow> net option" where
  "net_issue s n r =
    (case r of (Inl e, c) \<Rightarrow> None | (Inr t, c) \<Rightarrow> Some ((fst s)(n := c), snd s @ [t]))"

primrec net_step :: "net \<Rightarrow> hlc_event \<Rightarrow> net option" where
  "net_step s (EvLocal n pt) = net_issue s n (hlc_local pt (fst s n))"
| "net_step s (EvRecv n pt k) =
    (if k < length (snd s) then net_issue s n (hlc_receive pt (snd s ! k) (fst s n)) else None)"

definition net_run :: "hlc_event list \<Rightarrow> net option" where
  "net_run evs = foldl (\<lambda>s e. Option.bind s (\<lambda>s. net_step s e)) (Some (\<lambda>_. hlc_new, [])) evs"

text \<open>Happens-before: program order on a node, send before receipt, and their closure.\<close>

inductive happens_before :: "hlc_event list \<Rightarrow> nat \<Rightarrow> nat \<Rightarrow> bool" for evs where
  program: "i < j \<Longrightarrow> j < length evs \<Longrightarrow> ev_node (evs ! i) = ev_node (evs ! j) \<Longrightarrow> happens_before evs i j"
| message: "j < length evs \<Longrightarrow> evs ! j = EvRecv n pt i \<Longrightarrow> happens_before evs i j"
| trans: "happens_before evs i j \<Longrightarrow> happens_before evs j k \<Longrightarrow> happens_before evs i k"

lemma net_step_SomeD:
  assumes "net_step s e = Some s'"
  shows "\<exists>t. snd s' = snd s @ [t] \<and> hlc_last (fst s' (ev_node e)) = t \<and>
    (\<forall>m. m \<noteq> ev_node e \<longrightarrow> fst s' m = fst s m) \<and> ts_less (hlc_last (fst s (ev_node e))) t \<and>
    (\<forall>n pt k. e = EvRecv n pt k \<longrightarrow> k < length (snd s) \<and> ts_less (snd s ! k) t)"
proof (cases e)
  case (EvLocal n pt)
  with assms show ?thesis
    by (cases rule: hlc_local_cases [of pt "fst s n"]) (auto simp: net_issue_def)
next
  case (EvRecv n pt k)
  with assms show ?thesis
    by (cases rule: hlc_receive_cases [of pt "snd s ! k" "fst s n"])
      (auto simp: net_issue_def split: if_splits)
qed

lemma net_run_snoc: "net_run (evs @ [e]) = Option.bind (net_run evs) (\<lambda>s. net_step s e)"
  by (simp add: net_run_def)

lemma net_run_inv:
  assumes "net_run evs = Some s"
  shows "length (snd s) = length evs \<and>
    (\<forall>i < length evs. snd s ! i = hlc_last (fst s (ev_node (evs ! i))) \<or>
      ts_less (snd s ! i) (hlc_last (fst s (ev_node (evs ! i))))) \<and>
    (\<forall>j < length evs. \<forall>i < j. ev_node (evs ! i) = ev_node (evs ! j) \<longrightarrow> ts_less (snd s ! i) (snd s ! j)) \<and>
    (\<forall>j < length evs. \<forall>n pt i. evs ! j = EvRecv n pt i \<longrightarrow> i < j \<and> ts_less (snd s ! i) (snd s ! j))"
  using assms
proof (induction evs arbitrary: s rule: rev_induct)
  case Nil
  then show ?case by (auto simp: net_run_def)
next
  case (snoc e evs)
  obtain s0 where s0: "net_run evs = Some s0" "net_step s0 e = Some s"
    using snoc.prems by (auto simp: net_run_snoc bind_eq_Some_conv)
  obtain t where t: "snd s = snd s0 @ [t]" "hlc_last (fst s (ev_node e)) = t"
      "\<forall>m. m \<noteq> ev_node e \<longrightarrow> fst s m = fst s0 m" "ts_less (hlc_last (fst s0 (ev_node e))) t"
      "\<forall>n pt k. e = EvRecv n pt k \<longrightarrow> k < length (snd s0) \<and> ts_less (snd s0 ! k) t"
    using net_step_SomeD [OF s0(2)] by blast
  note ih = snoc.IH [OF s0(1)]
  have len: "length (snd s0) = length evs" using ih by simp
  have below: "ts_less (snd s0 ! i) t" if "i < length evs" "ev_node (evs ! i) = ev_node e" for i
  proof -
    have "snd s0 ! i = hlc_last (fst s0 (ev_node e)) \<or> ts_less (snd s0 ! i) (hlc_last (fst s0 (ev_node e)))"
      using conjunct1 [OF conjunct2 [OF ih]] that by auto
    then show ?thesis using t(4) by (auto intro: ts_less_trans)
  qed
  show ?case
  proof (intro conjI)
    show "length (snd s) = length (evs @ [e])" by (simp add: t(1) len)
    show "\<forall>i < length (evs @ [e]). snd s ! i = hlc_last (fst s (ev_node ((evs @ [e]) ! i))) \<or>
        ts_less (snd s ! i) (hlc_last (fst s (ev_node ((evs @ [e]) ! i))))"
    proof (intro allI impI)
      fix i assume "i < length (evs @ [e])"
      then show "snd s ! i = hlc_last (fst s (ev_node ((evs @ [e]) ! i))) \<or>
          ts_less (snd s ! i) (hlc_last (fst s (ev_node ((evs @ [e]) ! i))))"
        using ih t below [of i] len
        by (cases "i = length evs"; cases "ev_node ((evs @ [e]) ! i) = ev_node e") (auto simp: nth_append)
    qed
    show "\<forall>j < length (evs @ [e]). \<forall>i < j. ev_node ((evs @ [e]) ! i) = ev_node ((evs @ [e]) ! j) \<longrightarrow>
        ts_less (snd s ! i) (snd s ! j)"
      using ih t(1) below len by (auto simp: nth_append less_Suc_eq)
    show "\<forall>j < length (evs @ [e]). \<forall>n pt i. (evs @ [e]) ! j = EvRecv n pt i \<longrightarrow>
        i < j \<and> ts_less (snd s ! i) (snd s ! j)"
      using ih t(1,5) len by (fastforce simp: nth_append less_Suc_eq)
  qed
qed

subsection \<open>Properties\<close>

text \<open>
  A clock never goes back and never stalls: a local event and a receipt yield a stamp
  strictly above the clock's last one (and above the message's), whose wall time is the
  largest of those given; they fail exactly when a counter at that wall time is at its
  maximum, and a failure leaves the clock unchanged.
\<close>

theorem clock_strictly_monotone:
  "(case hlc_local pt c of
     (Inl e, c') \<Rightarrow> c' = c \<and> ts_exhausted (max (ts_wall (hlc_now c)) pt) (hlc_now c)
   | (Inr t, c') \<Rightarrow> hlc_now c' = t \<and> ts_less (hlc_now c) t \<and> ts_wall t = max (ts_wall (hlc_now c)) pt \<and>
       \<not> ts_exhausted (ts_wall t) (hlc_now c)) \<and>
   (case hlc_receive pt msg c of
     (Inl e, c') \<Rightarrow> c' = c \<and>
       (ts_exhausted (max (max (ts_wall (hlc_now c)) (ts_wall msg)) pt) (hlc_now c) \<or>
        ts_exhausted (max (max (ts_wall (hlc_now c)) (ts_wall msg)) pt) msg)
   | (Inr t, c') \<Rightarrow> hlc_now c' = t \<and> ts_less (hlc_now c) t \<and> ts_less msg t \<and>
       ts_wall t = max (max (ts_wall (hlc_now c)) (ts_wall msg)) pt)"
  unfolding hlc_now_def
  by (cases rule: hlc_local_cases [of pt c]; cases rule: hlc_receive_cases [of pt msg c]) simp_all

text \<open>
  C8: Causality across a network of any number of clocks: in every execution of local events
  and message receipts that does not exhaust a counter, an event that happens before another
  (by program order, by message, or by any chain of the two) has the smaller timestamp.
\<close>

theorem clock_causality:
  assumes "net_run evs = Some s" and "happens_before evs i j"
  shows "ts_less (snd s ! i) (snd s ! j)"
  using assms(2)
proof (induction rule: happens_before.induct)
  case (program i j)
  then show ?case using net_run_inv [OF assms(1)] by blast
next
  case (message j n pt i)
  then show ?case using net_run_inv [OF assms(1)] by blast
next
  case (trans i j k)
  then show ?case by (blast intro: ts_less_trans)
qed

theorem clock_causality_witness:
  "let evs = [EvLocal 0 100, EvRecv 1 5 0, EvLocal 1 7, EvRecv 2 1 2] in
   case net_run evs of None \<Rightarrow> False | Some s \<Rightarrow> ts_less (snd s ! 0) (snd s ! 3)"
proof -
  let ?evs = "[EvLocal 0 100, EvRecv 1 5 0, EvLocal 1 7, EvRecv 2 1 2]"
  have "net_run ?evs \<noteq> None"
    by (simp add: net_run_def net_issue_def hlc_local_def hlc_receive_def hlc_new_def checked_inc max_def Let_def)
  then obtain s where s: "net_run ?evs = Some s" by blast
  have "happens_before ?evs 0 1" by (rule happens_before.message [of _ _ 1 5]) simp_all
  moreover have "happens_before ?evs 1 2" by (rule happens_before.program) simp_all
  moreover have "happens_before ?evs 2 3" by (rule happens_before.message [of _ _ 2 1]) simp_all
  ultimately have "happens_before ?evs 0 3" by (blast intro: happens_before.trans)
  then show ?thesis using clock_causality [OF s] s by simp
qed

end
