(* ===== verification/Fenced_Replica.thy ===== *)
theory Fenced_Replica
  imports Hybrid_Clock Ordered_Map Byte_Cursor "HOL-Library.Option_ord"
begin

text \<open>
  Causally fenced replicas, \<^verbatim>\<open>dominion-core/src/consistency.rs\<close>: last-writer-wins cells with
  a fence below which no write is accepted again, rollback and quarantine, the gossip format
  and the merge.  The lemmas show that merging is a join (so replicas converge in any order of
  gossip) and that a fenced write can never come back, whatever is merged or written later.
  Counter increments are 32-bit and wrap, as in a release build.
\<close>

record cell =
  c_stamp :: timestamp
  c_vhash :: hash256
  c_value :: bytes
  c_fence :: timestamp
  c_tombstoned :: bool

datatype fence_error = BelowFence | Pinned | NoHistory

record replica =
  fr_cells :: "(rstring, cell) btree"
  fr_pinned :: "rstring set"

definition ts_default :: timestamp where
  "ts_default = \<lparr>ts_wall = 0, ts_logical = 0\<rparr>"

definition ts_max :: "timestamp \<Rightarrow> timestamp \<Rightarrow> timestamp" where
  "ts_max a b = (if ts_less a b then b else a)"

definition fr_new :: replica where
  "fr_new = \<lparr>fr_cells = [], fr_pinned = {}\<rparr>"

definition fr_pin :: "rstring \<Rightarrow> replica \<Rightarrow> replica" where
  "fr_pin key r = r\<lparr>fr_pinned := insert key (fr_pinned r)\<rparr>"

definition fr_is_pinned :: "replica \<Rightarrow> rstring \<Rightarrow> bool" where
  "fr_is_pinned r key \<longleftrightarrow> key \<in> fr_pinned r"

definition fr_fence_of :: "replica \<Rightarrow> rstring \<Rightarrow> timestamp" where
  "fr_fence_of r key = (case bt_get (fr_cells r) key of None \<Rightarrow> ts_default | Some c \<Rightarrow> c_fence c)"

definition fr_write :: "rstring \<Rightarrow> timestamp \<Rightarrow> hash256 \<Rightarrow> bytes \<Rightarrow> timestamp \<Rightarrow> replica \<Rightarrow> replica" where
  "fr_write key stamp vhash v fence r =
    r\<lparr>fr_cells := bt_insert key \<lparr>c_stamp = stamp, c_vhash = vhash, c_value = v, c_fence = fence,
                                 c_tombstoned = False\<rparr> (fr_cells r)\<rparr>"

definition fr_put :: "rstring \<Rightarrow> bytes \<Rightarrow> timestamp \<Rightarrow> replica \<Rightarrow> (fence_error + unit) \<times> replica" where
  "fr_put key v stamp r =
    (let h = hash_of v;
         fence = fr_fence_of r key
     in if \<not> ts_less fence stamp then (Err BelowFence, r)
        else (Ok (), fr_write key stamp h v fence r))"

definition fr_get :: "replica \<Rightarrow> rstring \<Rightarrow> bytes option" where
  "fr_get r key =
    (case bt_get (fr_cells r) key of
       None \<Rightarrow> None
     | Some c \<Rightarrow> if \<not> c_tombstoned c then Some (c_value c) else None)"

definition rollback_key :: "rstring \<Rightarrow> bytes \<Rightarrow> u64 \<Rightarrow> replica \<Rightarrow> (fence_error + unit) \<times> replica" where
  "rollback_key key good now r =
    (if key \<in> fr_pinned r then (Err Pinned, r)
     else case bt_get (fr_cells r) key of
       None \<Rightarrow> (Err NoHistory, r)
     | Some c \<Rightarrow>
         let new_fence = ts_max (c_stamp c) (c_fence c);
             restored = \<lparr>ts_wall = max (ts_wall new_fence) now, ts_logical = ts_logical new_fence + 1\<rparr>;
             h = hash_of good
         in (Ok (), fr_write key restored h good new_fence r))"

definition quarantine_key :: "rstring \<Rightarrow> u64 \<Rightarrow> replica \<Rightarrow> (fence_error + unit) \<times> replica" where
  "quarantine_key key now r =
    (if key \<in> fr_pinned r then (Err Pinned, r)
     else case bt_get (fr_cells r) key of
       None \<Rightarrow> (Err NoHistory, r)
     | Some c \<Rightarrow>
         let new_fence = \<lparr>ts_wall = max (max (ts_wall (c_stamp c)) (ts_wall (c_fence c))) now,
                          ts_logical = ts_logical (c_stamp c) + 1\<rparr>;
             c = c\<lparr>c_fence := new_fence, c_tombstoned := True, c_value := [],
                   c_vhash := hash_ZERO, c_stamp := new_fence\<rparr>
         in (Ok (), r\<lparr>fr_cells := bt_insert key c (fr_cells r)\<rparr>))"

subsection \<open>Merging\<close>

type_synonym candidate = "timestamp \<times> hash256 \<times> bytes"

text \<open>The closure \<^verbatim>\<open>consider\<close>: keep the dominating write above the fence.\<close>

definition fr_consider :: "timestamp \<Rightarrow> cell \<Rightarrow> candidate option \<Rightarrow> candidate option" where
  "fr_consider fence c best =
    (if c_tombstoned c \<or> \<not> ts_less fence (c_stamp c) then best
     else case best of
       None \<Rightarrow> Some (c_stamp c, c_vhash c, c_value c)
     | Some (s, h, v) \<Rightarrow>
         if ts_less s (c_stamp c) \<or> s = c_stamp c \<and> h < c_vhash c
         then Some (c_stamp c, c_vhash c, c_value c) else best)"

definition merge_cell :: "bool \<Rightarrow> cell option \<Rightarrow> cell \<Rightarrow> cell" where
  "merge_cell pinned local inc =
    (let local_fence = (case local of None \<Rightarrow> ts_default | Some c \<Rightarrow> c_fence c);
         fence = (if pinned then local_fence else ts_max local_fence (c_fence inc));
         best = (case local of None \<Rightarrow> None | Some c \<Rightarrow> fr_consider fence c None);
         best = fr_consider fence inc best
     in case best of
          Some (s, h, v) \<Rightarrow> \<lparr>c_stamp = s, c_vhash = h, c_value = v, c_fence = fence, c_tombstoned = False\<rparr>
        | None \<Rightarrow> \<lparr>c_stamp = fence, c_vhash = hash_ZERO, c_value = [], c_fence = fence, c_tombstoned = True\<rparr>)"

definition merge_one :: "rstring \<Rightarrow> cell \<Rightarrow> replica \<Rightarrow> replica" where
  "merge_one key inc r =
    r\<lparr>fr_cells := bt_insert key (merge_cell (key \<in> fr_pinned r) (bt_get (fr_cells r) key) inc) (fr_cells r)\<rparr>"

subsection \<open>The gossip format\<close>

definition put_ts :: "timestamp \<Rightarrow> bytes" where
  "put_ts t = to_le_u64 (ts_wall t) @ to_le_u32 (ts_logical t)"

definition cell_encode :: "rstring \<times> cell \<Rightarrow> bytes" where
  "cell_encode kc =
    (case kc of (k, c) \<Rightarrow>
      to_le_u32 (len_u32 k) @ k @ put_ts (c_stamp c) @ put_ts (c_fence c)
      @ [if c_tombstoned c then 1 else 0] @ c_vhash c @ to_le_u32 (len_u32 (c_value c)) @ c_value c)"

definition fr_encode :: "replica \<Rightarrow> bytes" where
  "fr_encode r = to_le_u32 (len_u32 (fr_cells r)) @ concat (map cell_encode (fr_cells r))"

text \<open>The private cursor of this module.\<close>

definition fc_bytes :: "nat \<Rightarrow> cursor \<Rightarrow> (bytes \<times> cursor) option" where
  "fc_bytes n c =
    (if cur_pos c + n > length (cur_buf c) then None
     else Some (slice (cur_pos c) n (cur_buf c), c\<lparr>cur_pos := cur_pos c + n\<rparr>))"

definition fc_u8 :: "cursor \<Rightarrow> (u8 \<times> cursor) option" where
  "fc_u8 c =
    (if cur_pos c < length (cur_buf c) then Some (cur_buf c ! cur_pos c, c\<lparr>cur_pos := cur_pos c + 1\<rparr>)
     else None)"

definition fc_u32 :: "cursor \<Rightarrow> (u32 \<times> cursor) option" where
  "fc_u32 = op_bind (fc_bytes 4) (\<lambda>s. op_return (of_le_bytes s))"

definition get_ts :: "cursor \<Rightarrow> (timestamp \<times> cursor) option" where
  "get_ts =
    op_bind (fc_bytes 8) (\<lambda>w. op_bind (fc_bytes 4) (\<lambda>l.
      op_return \<lparr>ts_wall = of_le_bytes w, ts_logical = of_le_bytes l\<rparr>))"

definition cell_decode :: "cursor \<Rightarrow> ((rstring \<times> cell) \<times> cursor) option" where
  "cell_decode =
    op_bind fc_u32 (\<lambda>klen.
    op_bind (fc_bytes (unat klen)) (\<lambda>s.
    op_bind (op_option (from_utf8 s)) (\<lambda>key.
    op_bind get_ts (\<lambda>stamp.
    op_bind get_ts (\<lambda>fence_in.
    op_bind fc_u8 (\<lambda>tomb.
    op_bind (fc_bytes 32) (\<lambda>vhash.
    op_bind fc_u32 (\<lambda>vlen.
    op_bind (fc_bytes (unat vlen)) (\<lambda>v.
      op_return (key, \<lparr>c_stamp = stamp, c_vhash = vhash, c_value = v, c_fence = fence_in,
                       c_tombstoned = (tomb \<noteq> 0)\<rparr>))))))))))"

text \<open>A malformed record stops the loop; the records before it stay merged.\<close>

primrec merge_loop :: "nat \<Rightarrow> cursor \<Rightarrow> replica \<Rightarrow> bool \<times> replica" where
  "merge_loop 0 c r = (True, r)"
| "merge_loop (Suc n) c r =
    (case cell_decode c of
       None \<Rightarrow> (False, r)
     | Some ((key, inc), c') \<Rightarrow> merge_loop n c' (merge_one key inc r))"

definition merge_encoded :: "bytes \<Rightarrow> replica \<Rightarrow> bool \<times> replica" where
  "merge_encoded bs r =
    (case fc_u32 (cursor_new bs) of
       None \<Rightarrow> (False, r)
     | Some (n, c) \<Rightarrow> merge_loop (unat n) c r)"

definition fr_state_hash :: "replica \<Rightarrow> hash256" where
  "fr_state_hash r = hash_of (fr_encode r)"

definition fr_holds_value :: "replica \<Rightarrow> bytes \<Rightarrow> bool" where
  "fr_holds_value r v \<longleftrightarrow> list_ex (\<lambda>(_, c). \<not> c_tombstoned c \<and> c_vhash c = hash_of v) (fr_cells r)"

subsection \<open>The order on stamps\<close>

definition ts_key :: "timestamp \<Rightarrow> u64 \<times> u32" where
  "ts_key t = (ts_wall t, ts_logical t)"

lemma ts_key_inject [simp]: "ts_key a = ts_key b \<longleftrightarrow> a = b"
  by (cases a; cases b) (simp add: ts_key_def)

lemma ts_less_key: "ts_less a b \<longleftrightarrow> ts_key a < ts_key b"
  by (auto simp: ts_less_def ts_key_def)

lemma ts_key_max: "ts_key (ts_max a b) = max (ts_key a) (ts_key b)"
  by (auto simp: ts_max_def ts_less_key max_def)

lemma ts_key_default [simp]: "\<not> ts_key t < ts_key ts_default"
  by (auto simp: ts_key_def ts_default_def)

subsection \<open>Convergence, from the laws of a join\<close>

text \<open>
  A state-based replicated type whose merge is commutative, associative and idempotent on the
  states that occur: the outcome of gossip depends on the set of states merged, not on order,
  duplication or grouping.
\<close>

locale gossip_join =
  fixes A :: "'s set" and join :: "'s \<Rightarrow> 's \<Rightarrow> 's"
  assumes closed: "a \<in> A \<Longrightarrow> b \<in> A \<Longrightarrow> join a b \<in> A"
    and comm: "a \<in> A \<Longrightarrow> b \<in> A \<Longrightarrow> join a b = join b a"
    and assoc: "a \<in> A \<Longrightarrow> b \<in> A \<Longrightarrow> c \<in> A \<Longrightarrow> join (join a b) c = join a (join b c)"
    and idem: "a \<in> A \<Longrightarrow> join a a = a"
begin

definition gle :: "'s \<Rightarrow> 's \<Rightarrow> bool" where
  "gle a b \<longleftrightarrow> join a b = b"

lemma gle_trans: "a \<in> A \<Longrightarrow> b \<in> A \<Longrightarrow> c \<in> A \<Longrightarrow> gle a b \<Longrightarrow> gle b c \<Longrightarrow> gle a c"
  unfolding gle_def by (metis assoc)

lemma gle_antisym: "a \<in> A \<Longrightarrow> b \<in> A \<Longrightarrow> gle a b \<Longrightarrow> gle b a \<Longrightarrow> a = b"
  unfolding gle_def by (metis comm)

lemma gle_join: "a \<in> A \<Longrightarrow> b \<in> A \<Longrightarrow> gle a (join a b)" "a \<in> A \<Longrightarrow> b \<in> A \<Longrightarrow> gle b (join a b)"
  unfolding gle_def by (metis assoc idem) (metis assoc comm idem)

lemma join_least: "a \<in> A \<Longrightarrow> b \<in> A \<Longrightarrow> c \<in> A \<Longrightarrow> gle a c \<Longrightarrow> gle b c \<Longrightarrow> gle (join a b) c"
  unfolding gle_def by (metis assoc)

lemma foldl_closed: "a \<in> A \<Longrightarrow> set bs \<subseteq> A \<Longrightarrow> foldl join a bs \<in> A"
  by (induction bs arbitrary: a) (simp_all add: closed)

lemma foldl_upper:
  "a \<in> A \<Longrightarrow> set bs \<subseteq> A \<Longrightarrow> x \<in> insert a (set bs) \<Longrightarrow> gle x (foldl join a bs)"
proof (induction bs arbitrary: a x)
  case Nil
  then show ?case by (simp add: gle_def idem)
next
  case (Cons b bs)
  have ab: "join a b \<in> A" and fold: "foldl join (join a b) bs \<in> A"
    using Cons.prems by (simp_all add: closed foldl_closed)
  have top: "gle (join a b) (foldl join (join a b) bs)"
    using Cons.IH [OF ab, of "join a b"] Cons.prems by auto
  show ?case
  proof (cases "x \<in> set bs")
    case True
    then show ?thesis using Cons.IH [OF ab, of x] Cons.prems by simp
  next
    case False
    then have "x = a \<or> x = b" using Cons.prems by auto
    then have "gle x (join a b)" using gle_join [of a b] Cons.prems by auto
    moreover have "x \<in> A" using Cons.prems by auto
    ultimately show ?thesis using gle_trans [OF _ ab fold _ top] by simp
  qed
qed

lemma foldl_least:
  "a \<in> A \<Longrightarrow> set bs \<subseteq> A \<Longrightarrow> c \<in> A \<Longrightarrow> (\<And>x. x \<in> insert a (set bs) \<Longrightarrow> gle x c) \<Longrightarrow> gle (foldl join a bs) c"
proof (induction bs arbitrary: a)
  case (Cons b bs)
  have "gle (join a b) c" using Cons.prems by (intro join_least) simp_all
  moreover have "join a b \<in> A" "set bs \<subseteq> A" using Cons.prems by (simp_all add: closed)
  ultimately have "gle (foldl join (join a b) bs) c"
    using Cons.prems(3,4) by (intro Cons.IH) auto
  then show ?case by simp
qed simp

lemma gossip_converges:
  assumes "a \<in> A" "set xs \<subseteq> A" "b \<in> A" "set ys \<subseteq> A" "insert a (set xs) = insert b (set ys)"
  shows "foldl join a xs = foldl join b ys"
proof (rule gle_antisym)
  show "foldl join a xs \<in> A" "foldl join b ys \<in> A"
    using assms by (simp_all add: foldl_closed)
  show "gle (foldl join a xs) (foldl join b ys)"
    using assms by (intro foldl_least foldl_closed) (auto intro!: foldl_upper)
  show "gle (foldl join b ys) (foldl join a xs)"
    using assms by (intro foldl_least foldl_closed) (auto intro!: foldl_upper)
qed

end

subsection \<open>The merge of a cell is a join\<close>

text \<open>
  A cell as its fence and the rank of its live write.  A write counts only above the fence.
\<close>

type_synonym rank = "(u64 \<times> u32) \<times> hash256"

definition above :: "u64 \<times> u32 \<Rightarrow> rank option \<Rightarrow> rank option" where
  "above f w = (case w of None \<Rightarrow> None | Some k \<Rightarrow> if f < fst k then Some k else None)"

definition join_view :: "(u64 \<times> u32) \<times> rank option \<Rightarrow> (u64 \<times> u32) \<times> rank option \<Rightarrow> (u64 \<times> u32) \<times> rank option" where
  "join_view a b =
    (let f = max (fst a) (fst b) in (f, max (above f (snd a)) (above f (snd b))))"

lemma rank_less: "(x, h) < (y, h') \<longleftrightarrow> x < y \<or> x = y \<and> h < h'" for x y :: "u64 \<times> u32" and h h' :: hash256
  by (simp add: order_le_less) blast

lemma rank_le_fst: "k \<le> k' \<Longrightarrow> fst k \<le> fst k'" for k k' :: rank
  by (cases k; cases k') (simp add: rank_less order_le_less, blast)

lemma above_mono: "mono (above f)"
proof (rule monoI)
  fix v w :: "rank option"
  assume le: "v \<le> w"
  show "above f v \<le> above f w"
  proof (cases "above f v")
    case (Some k)
    then have v: "v = Some k" "f < fst k" by (auto simp: above_def split: option.splits if_splits)
    then obtain k' where w: "w = Some k'" "k \<le> k'" using le by (cases w) auto
    have "f < fst k'" using v(2) rank_le_fst [OF w(2)] by (rule less_le_trans)
    with v w show ?thesis by (simp add: above_def)
  qed simp
qed

lemma above_max: "above f (max v w) = max (above f v) (above f w)"
  using max_of_mono [OF above_mono, of f v w] by simp

lemma above_above: "above f (above g w) = above (max f g) w"
  by (cases w) (auto simp: above_def)

lemma join_view_comm: "join_view a b = join_view b a"
  by (simp add: join_view_def Let_def max.commute)

lemma join_view_assoc: "join_view (join_view a b) c = join_view a (join_view b c)"
  by (simp add: join_view_def Let_def above_max above_above max.assoc max.commute max.left_commute)

definition cell_rank :: "cell \<Rightarrow> rank" where
  "cell_rank c = (ts_key (c_stamp c), c_vhash c)"

definition cell_view :: "cell \<Rightarrow> (u64 \<times> u32) \<times> rank option" where
  "cell_view c = (ts_key (c_fence c), if c_tombstoned c then None else Some (cell_rank c))"

text \<open>Well-formed cells: a live write is above the fence, a tombstone is empty at the fence.\<close>

definition cell_wf :: "cell \<Rightarrow> bool" where
  "cell_wf c \<longleftrightarrow>
    (if c_tombstoned c then c_stamp c = c_fence c \<and> c_vhash c = hash_ZERO \<and> c_value c = []
     else ts_less (c_fence c) (c_stamp c))"

text \<open>The cells whose live value is the one a fixed dictionary gives for its hash.\<close>

definition known_cells :: "(hash256 \<Rightarrow> bytes) \<Rightarrow> cell set" where
  "known_cells dict = {c. cell_wf c \<and> (\<not> c_tombstoned c \<longrightarrow> c_value c = dict (c_vhash c))}"

lemma cell_view_inject:
  "a \<in> known_cells dict \<Longrightarrow> b \<in> known_cells dict \<Longrightarrow> cell_view a = cell_view b \<Longrightarrow> a = b"
  by (cases a; cases b) (auto simp: known_cells_def cell_view_def cell_wf_def cell_rank_def split: if_splits)

definition join_cells :: "cell \<Rightarrow> cell \<Rightarrow> cell" where
  "join_cells a b = merge_cell False (Some a) b"

lemma above_wf: "cell_wf c \<Longrightarrow> above (ts_key (c_fence c)) (snd (cell_view c)) = snd (cell_view c)"
  by (auto simp: above_def cell_view_def cell_wf_def cell_rank_def ts_less_key split: if_splits)

lemma consider_eq:
  "fr_consider fence c best =
    (if above (ts_key fence) (snd (cell_view c)) = None then best
     else case best of
       None \<Rightarrow> Some (c_stamp c, c_vhash c, c_value c)
     | Some (s, h, v) \<Rightarrow> if (ts_key s, h) < cell_rank c then Some (c_stamp c, c_vhash c, c_value c) else best)"
  by (auto simp: fr_consider_def above_def cell_view_def cell_rank_def ts_less_key rank_less
      simp del: less_prod_simp split: option.splits)

lemma above_view_cases:
  obtains (none) "above f (snd (cell_view c)) = None"
  | (live) "above f (snd (cell_view c)) = Some (cell_rank c)" "\<not> c_tombstoned c" "f < ts_key (c_stamp c)"
  by (cases "above f (snd (cell_view c)) = None") (auto simp: above_def cell_view_def cell_rank_def split: if_splits)

lemma merge_cell_two:
  fixes a b :: cell
  defines "f \<equiv> ts_max (c_fence a) (c_fence b)"
  defines "wa \<equiv> above (ts_key f) (snd (cell_view a))" and "wb \<equiv> above (ts_key f) (snd (cell_view b))"
  shows "merge_cell False (Some a) b =
    (if wa = None \<and> wb = None
     then \<lparr>c_stamp = f, c_vhash = hash_ZERO, c_value = [], c_fence = f, c_tombstoned = True\<rparr>
     else if wa < wb then b\<lparr>c_fence := f\<rparr> else a\<lparr>c_fence := f\<rparr>)"
proof -
  have fields: "\<lparr>c_stamp = c_stamp c, c_vhash = c_vhash c, c_value = c_value c, c_fence = f, c_tombstoned = False\<rparr>
      = c\<lparr>c_fence := f\<rparr>" if "\<not> c_tombstoned c" for c :: cell
    using that by simp
  show ?thesis
  proof (cases rule: above_view_cases [of "ts_key f" a])
    case none
    then show ?thesis
      by (cases rule: above_view_cases [of "ts_key f" b])
        (simp_all add: merge_cell_def Let_def consider_eq f_def wa_def wb_def fields)
  next
    case live
    note a = this
    show ?thesis
    proof (cases rule: above_view_cases [of "ts_key f" b])
      case none
      with a show ?thesis
        by (simp add: merge_cell_def Let_def consider_eq f_def wa_def wb_def fields)
    next
      case live
      with a show ?thesis
        by (simp add: merge_cell_def Let_def consider_eq f_def wa_def wb_def fields cell_rank_def del: less_prod_simp)
    qed
  qed
qed

lemma cell_view_fence: "cell_view (c\<lparr>c_fence := f\<rparr>) = (ts_key f, snd (cell_view c))"
  by (simp add: cell_view_def cell_rank_def)

lemma join_cells_view: "cell_view (join_cells a b) = join_view (cell_view a) (cell_view b)"
proof -
  let ?f = "ts_max (c_fence a) (c_fence b)"
  let ?wa = "above (ts_key ?f) (snd (cell_view a))" and ?wb = "above (ts_key ?f) (snd (cell_view b))"
  have f: "ts_key ?f = max (fst (cell_view a)) (fst (cell_view b))"
    by (simp add: ts_key_max cell_view_def)
  have keep: "above g w \<noteq> None \<Longrightarrow> above g w = w" for g w
    by (auto simp: above_def split: option.splits if_splits)
  have jv: "join_view (cell_view a) (cell_view b) = (ts_key ?f, max ?wa ?wb)"
    by (simp add: join_view_def Let_def f)
  consider (none) "?wa = None" "?wb = None" | (right) "?wa < ?wb" | (left) "?wb \<le> ?wa" "?wa \<noteq> None \<or> ?wb \<noteq> None"
    by fastforce
  then show ?thesis
  proof cases
    case none
    then show ?thesis
      unfolding jv join_cells_def merge_cell_two by (simp add: cell_view_def)
  next
    case right
    then have b: "?wb \<noteq> None" by (cases ?wa; cases ?wb) auto
    then have "join_cells a b = b\<lparr>c_fence := ?f\<rparr>"
      using right unfolding join_cells_def merge_cell_two by (simp only: simp_thms if_True if_False)
    moreover have "max ?wa ?wb = snd (cell_view b)"
      using right keep [OF b] by (simp only: max.absorb2 order.strict_implies_order)
    ultimately show ?thesis
      unfolding jv by (simp only: cell_view_fence)
  next
    case left
    then have a: "?wa \<noteq> None" by (cases ?wa; cases ?wb) auto
    have "\<not> ?wa < ?wb" using left(1) by (simp add: not_less)
    then have "join_cells a b = a\<lparr>c_fence := ?f\<rparr>"
      using a unfolding join_cells_def merge_cell_two by (simp only: simp_thms if_True if_False)
    moreover have "max ?wa ?wb = snd (cell_view a)"
      using left(1) keep [OF a] by (simp only: max.absorb1)
    ultimately show ?thesis
      unfolding jv by (simp only: cell_view_fence)
  qed
qed

text \<open>Whatever comes in, a merged cell is well-formed and its fence has not gone down.\<close>

lemma consider_result:
  "fr_consider fence c best = Some (s, h, v) \<Longrightarrow>
    best = Some (s, h, v) \<or> \<not> c_tombstoned c \<and> ts_less fence s \<and> s = c_stamp c \<and> h = c_vhash c \<and> v = c_value c"
  by (auto simp: fr_consider_def split: if_splits option.splits)

lemma merge_cell_result:
  "cell_wf (merge_cell p l inc) \<and>
   (\<not> ts_less (c_fence (merge_cell p l inc)) (case l of None \<Rightarrow> ts_default | Some c \<Rightarrow> c_fence c)) \<and>
   (\<not> c_tombstoned (merge_cell p l inc) \<longrightarrow>
     (\<exists>c \<in> insert inc (set_option l). \<not> c_tombstoned c \<and> c_stamp (merge_cell p l inc) = c_stamp c \<and>
        c_vhash (merge_cell p l inc) = c_vhash c \<and> c_value (merge_cell p l inc) = c_value c))"
proof -
  define lf where "lf = (case l of None \<Rightarrow> ts_default | Some c \<Rightarrow> c_fence c)"
  define f where "f = (if p then lf else ts_max lf (c_fence inc))"
  define b0 where "b0 = (case l of None \<Rightarrow> None | Some c \<Rightarrow> fr_consider f c None)"
  have mono: "\<not> ts_less f lf"
    by (auto simp: f_def ts_max_def ts_less_irrefl dest: ts_less_trans)
  have live: "ts_less f s \<and> (\<exists>c \<in> insert inc (set_option l). \<not> c_tombstoned c \<and> s = c_stamp c \<and> h = c_vhash c \<and> v = c_value c)"
    if "fr_consider f inc b0 = Some (s, h, v)" for s h v
    using consider_result [OF that]
  proof (elim disjE)
    assume "b0 = Some (s, h, v)"
    then obtain c where "l = Some c" "fr_consider f c None = Some (s, h, v)"
      by (cases l) (simp_all add: b0_def)
    then show ?thesis using consider_result [of f c None s h v] by auto
  qed auto
  have "merge_cell p l inc = (case fr_consider f inc b0 of
      Some (s, h, v) \<Rightarrow> \<lparr>c_stamp = s, c_vhash = h, c_value = v, c_fence = f, c_tombstoned = False\<rparr>
    | None \<Rightarrow> \<lparr>c_stamp = f, c_vhash = hash_ZERO, c_value = [], c_fence = f, c_tombstoned = True\<rparr>)"
    unfolding merge_cell_def Let_def b0_def f_def lf_def ..
  then show ?thesis
    using mono live unfolding lf_def [symmetric]
    by (cases "fr_consider f inc b0") (simp_all add: cell_wf_def split: prod.splits)
qed

lemma join_cells_known:
  "a \<in> known_cells dict \<Longrightarrow> b \<in> known_cells dict \<Longrightarrow> join_cells a b \<in> known_cells dict"
  using merge_cell_result [of False "Some a" b] by (auto simp: known_cells_def join_cells_def)

interpretation cells: gossip_join "known_cells dict" join_cells for dict
proof unfold_locales
  fix a b c :: cell
  assume "a \<in> known_cells dict" "b \<in> known_cells dict"
  then show "join_cells a b = join_cells b a"
    by (intro cell_view_inject [OF join_cells_known join_cells_known]) (simp_all add: join_cells_view join_view_comm)
next
  fix a b c :: cell
  assume "a \<in> known_cells dict" "b \<in> known_cells dict" "c \<in> known_cells dict"
  then show "join_cells (join_cells a b) c = join_cells a (join_cells b c)"
    by (intro cell_view_inject [of _ dict] join_cells_known) (simp_all add: join_cells_view join_view_assoc)
next
  fix a assume a: "a \<in> known_cells dict"
  then have "above (fst (cell_view a)) (snd (cell_view a)) = snd (cell_view a)"
    using above_wf [of a] by (simp add: known_cells_def cell_view_def)
  then have "join_view (cell_view a) (cell_view a) = cell_view a"
    by (simp add: join_view_def)
  with a show "join_cells a a = a"
    by (intro cell_view_inject [of _ dict] join_cells_known) (simp_all add: join_cells_view)
qed (rule join_cells_known)

subsection \<open>Gossip between replicas\<close>

definition join_opt :: "cell option \<Rightarrow> cell option \<Rightarrow> cell option" where
  "join_opt a b = (case (a, b) of (None, x) \<Rightarrow> x | (x, None) \<Rightarrow> x | (Some x, Some y) \<Rightarrow> Some (join_cells x y))"

lemma join_opt_simps [simp]:
  "join_opt None x = x" "join_opt x None = x" "join_opt (Some a) (Some b) = Some (join_cells a b)"
  by (simp_all add: join_opt_def split: option.splits)

definition known_opt :: "(hash256 \<Rightarrow> bytes) \<Rightarrow> cell option set" where
  "known_opt dict = insert None (Some ` known_cells dict)"

interpretation opts: gossip_join "known_opt dict" join_opt for dict
proof unfold_locales
  fix a b :: "cell option"
  assume "a \<in> known_opt dict" "b \<in> known_opt dict"
  then show "join_opt a b = join_opt b a"
    using cells.comm [of _ dict] by (auto simp: known_opt_def)
qed (auto simp: known_opt_def cells.closed [of _ dict] cells.assoc [of _ dict] cells.idem [of _ dict])

lemma merge_into_absent: "cell_wf c \<Longrightarrow> merge_cell False None c = c"
proof -
  assume wf: "cell_wf c"
  have f: "ts_max ts_default (c_fence c) = c_fence c"
    using ts_less_linear [of ts_default "c_fence c"] by (auto simp: ts_max_def ts_less_key)
  show ?thesis
    using wf by (cases "c_tombstoned c") (simp_all add: merge_cell_def f fr_consider_def cell_wf_def Let_def)
qed

text \<open>
  A pinned key keeps its own fence.  Merging into it is the same join, with the incoming cell cut at that fence first.
\<close>

definition refence :: "timestamp \<Rightarrow> cell \<Rightarrow> cell" where
  "refence f c =
    (if \<not> c_tombstoned c \<and> ts_less f (c_stamp c) then c\<lparr>c_fence := f\<rparr>
     else \<lparr>c_stamp = f, c_vhash = hash_ZERO, c_value = [], c_fence = f, c_tombstoned = True\<rparr>)"

lemma refence_fence [simp]: "c_fence (refence f c) = f"
  by (simp add: refence_def)

lemma refence_known: "c \<in> known_cells dict \<Longrightarrow> refence f c \<in> known_cells dict"
  by (auto simp: refence_def known_cells_def cell_wf_def)

lemma refence_self: "cell_wf c \<Longrightarrow> refence (c_fence c) c = c"
  by (cases c) (auto simp: refence_def cell_wf_def split: if_splits)

lemma merge_pinned_absent: "merge_cell True None c = refence ts_default c"
  by (cases c) (simp add: merge_cell_def refence_def fr_consider_def Let_def)

lemma merge_pinned_present: "merge_cell True (Some a) b = join_cells a (refence (c_fence a) b)"
  by (auto simp: join_cells_def merge_cell_def refence_def fr_consider_def ts_max_def ts_less_irrefl Let_def split: option.splits)

lemma join_pinned_fence: "c_fence a = f \<Longrightarrow> c_fence (join_cells a (refence f b)) = f"
  by (simp add: join_cells_def merge_cell_def Let_def ts_max_def ts_less_irrefl split: option.splits prod.splits)

text \<open>What a replica merges of an incoming cell: all of it, or the part above its own fence.\<close>

definition admitted :: "replica \<Rightarrow> rstring \<Rightarrow> cell \<Rightarrow> cell" where
  "admitted r k c = (if k \<in> fr_pinned r then refence (fr_fence_of r k) c else c)"

lemma merge_one_lookup:
  "cell_wf c \<Longrightarrow> bt_get (fr_cells (merge_one k c r)) =
    (bt_get (fr_cells r))(k := join_opt (bt_get (fr_cells r) k) (Some (admitted r k c)))"
  by (cases "bt_get (fr_cells r) k")
    (auto simp: merge_one_def admitted_def merge_into_absent join_cells_def [symmetric] merge_pinned_absent merge_pinned_present
      fr_fence_of_def)

lemma merge_one_pinned_fence:
  "k \<in> fr_pinned r \<Longrightarrow> fr_fence_of (merge_one j c r) k = fr_fence_of r k"
  by (cases "bt_get (fr_cells r) j")
    (auto simp: fr_fence_of_def merge_one_def merge_pinned_absent merge_pinned_present join_pinned_fence)

text \<open>Merging the cells of another replica one after the other.\<close>

definition merge_cells :: "replica \<Rightarrow> (rstring \<times> cell) list \<Rightarrow> replica" where
  "merge_cells r kcs = foldl (\<lambda>r (k, c). merge_one k c r) r kcs"

lemma merge_one_pinned [simp]: "fr_pinned (merge_one k c r) = fr_pinned r"
  by (simp add: merge_one_def)

lemma merge_cells_pinned [simp]: "fr_pinned (merge_cells r kcs) = fr_pinned r"
  unfolding merge_cells_def by (induction kcs arbitrary: r) (auto simp: case_prod_beta)

lemma merge_cells_pinned_fence:
  "k \<in> fr_pinned r \<Longrightarrow> fr_fence_of (merge_cells r kcs) k = fr_fence_of r k"
  unfolding merge_cells_def by (induction kcs arbitrary: r) (auto simp: case_prod_beta merge_one_pinned_fence)

lemma admitted_merge_one [simp]: "admitted (merge_one j c r) k = admitted r k"
  by (simp add: fun_eq_iff admitted_def merge_one_pinned_fence)

lemma merge_cells_lookup:
  assumes "distinct (map fst kcs)" "\<forall>(k, c) \<in> set kcs. cell_wf c"
  shows "bt_get (fr_cells (merge_cells r kcs)) k = join_opt (bt_get (fr_cells r) k) (map_option (admitted r k) (map_of kcs k))"
  using assms
proof (induction kcs arbitrary: r)
  case Nil
  then show ?case by (simp add: merge_cells_def)
next
  case (Cons kc kcs)
  obtain k' c where kc: "kc = (k', c)" by (cases kc)
  let ?r = "merge_one k' c r"
  have "bt_get (fr_cells (merge_cells r (kc # kcs))) k = bt_get (fr_cells (merge_cells ?r kcs)) k"
    by (simp add: merge_cells_def kc)
  also have "\<dots> = join_opt (bt_get (fr_cells ?r) k) (map_option (admitted r k) (map_of kcs k))"
    using Cons by (simp add: kc)
  also have "bt_get (fr_cells ?r) = (bt_get (fr_cells r))(k' := join_opt (bt_get (fr_cells r) k') (Some (admitted r k' c)))"
    using Cons.prems(2) by (simp add: merge_one_lookup kc)
  finally show ?case
    using Cons.prems(1) kc by (auto simp: map_of_eq_None_iff [THEN iffD2])
qed

text \<open>The format: a replica that fits its 32-bit length fields is read back cell by cell.\<close>

definition cell_fits :: "rstring \<times> cell \<Rightarrow> bool" where
  "cell_fits kc \<longleftrightarrow>
    valid_utf8 (fst kc) \<and> length (fst kc) < 2 ^ 32 \<and> length (c_vhash (snd kc)) = 32 \<and> length (c_value (snd kc)) < 2 ^ 32"

lemma fc_bytes_eq: "fc_bytes = cur_take"
  by (simp add: fun_eq_iff fc_bytes_def cur_take_def not_less)

lemma fc_u8_eq: "fc_u8 = read_u8"
  by (auto simp: fun_eq_iff fc_u8_def read_u8_def cur_take_def nth_slice)

lemma fc_u32_eq: "fc_u32 = read_u32_le"
  by (auto simp: fun_eq_iff fc_u32_def fc_bytes_eq op_bind_def op_return_def read_u32_le_def
      map_option_case split: option.splits)

lemma odecodes_ts: "odecodes get_ts (put_ts t) t"
  unfolding get_ts_def put_ts_def fc_bytes_eq
  by (rule odecodes_bind [OF odecodes_take], simp, rule odecodes_map [OF odecodes_take], simp) (cases t, simp)

lemma odecodes_cell:
  assumes "cell_fits (k, c)"
  shows "odecodes cell_decode (cell_encode (k, c)) (k, c)"
proof -
  have len: "length k < 2 ^ 32" "length (c_value c) < 2 ^ 32" "valid_utf8 k" "length (c_vhash c) = 32"
    using assms by (simp_all add: cell_fits_def)
  show ?thesis
    unfolding cell_decode_def cell_encode_def prod.case fc_bytes_eq fc_u8_eq fc_u32_eq
    apply (rule odecodes_bind [OF odecodes_u32])
    apply (rule odecodes_bind [OF odecodes_take])
     apply (simp add: unat_len_u32 [OF len(1)])
    apply (simp only: from_utf8_valid [OF len(3)] op_option_Some op_bind_return)
    apply (rule odecodes_bind [OF odecodes_ts])
    apply (rule odecodes_bind [OF odecodes_ts])
    apply (rule odecodes_bind [OF odecodes_u8])
    apply (rule odecodes_bind [OF odecodes_take])
     apply (simp add: len(4))
    apply (rule odecodes_bind [OF odecodes_u32])
    apply (rule odecodes_map [OF odecodes_take])
     apply (simp add: unat_len_u32 [OF len(2)])
    apply (cases c; simp)
    done
qed

lemma merge_loop_encoded:
  assumes "\<forall>kc \<in> set kcs. cell_fits kc" "cur_at c (concat (map cell_encode kcs) @ rest)"
  shows "merge_loop (length kcs) c r = (True, merge_cells r kcs)"
  using assms
proof (induction kcs arbitrary: c r)
  case Nil
  then show ?case by (simp add: merge_cells_def)
next
  case (Cons kc kcs)
  obtain k d where kc: "kc = (k, d)" by (cases kc)
  have at: "cur_at c (cell_encode kc @ (concat (map cell_encode kcs) @ rest))" using Cons.prems(2) by simp
  have "odecodes cell_decode (cell_encode kc) kc" using Cons.prems(1) by (simp add: kc odecodes_cell)
  with at have "cell_decode c = Some (kc, cur_adv (length (cell_encode kc)) c)" by (auto simp: odecodes_def)
  then show ?case
    using Cons.IH [OF _ cur_at_adv [OF at]] Cons.prems(1) by (simp add: kc merge_cells_def)
qed

lemma merge_encoded_encode:
  assumes "\<forall>kc \<in> set (fr_cells s). cell_fits kc" "length (fr_cells s) < 2 ^ 32"
  shows "merge_encoded (fr_encode s) r = (True, merge_cells r (fr_cells s))"
proof -
  let ?b = "fr_encode s"
  have at: "cur_at (cursor_new ?b) (to_le_u32 (len_u32 (fr_cells s)) @ (concat (map cell_encode (fr_cells s)) @ []))"
    by (simp add: fr_encode_def)
  have "fc_u32 (cursor_new ?b) = Some (len_u32 (fr_cells s), cur_adv 4 (cursor_new ?b))"
    using odecodes_u32 at by (auto simp: odecodes_def fc_u32_eq)
  moreover have "cur_at (cur_adv 4 (cursor_new ?b)) (concat (map cell_encode (fr_cells s)) @ [])"
    using cur_at_adv [OF at] by simp
  ultimately show ?thesis
    using merge_loop_encoded [OF assms(1), of _ "[]" r] assms(2) by (simp add: merge_encoded_def unat_len_u32)
qed

subsection \<open>Fences only rise\<close>

definition key_wf :: "rstring \<Rightarrow> replica \<Rightarrow> bool" where
  "key_wf k r \<longleftrightarrow> (\<forall>c. bt_get (fr_cells r) k = Some c \<longrightarrow> cell_wf c)"

datatype fr_op =
    FPut rstring bytes timestamp
  | FRollback rstring bytes u64
  | FQuarantine rstring u64
  | FMerge bytes
  | FPin rstring

fun fr_step :: "replica \<Rightarrow> fr_op \<Rightarrow> replica" where
  "fr_step r (FPut k v t) = snd (fr_put k v t r)"
| "fr_step r (FRollback k v now) = snd (rollback_key k v now r)"
| "fr_step r (FQuarantine k now) = snd (quarantine_key k now r)"
| "fr_step r (FMerge bs) = snd (merge_encoded bs r)"
| "fr_step r (FPin k) = fr_pin k r"

definition fr_run :: "replica \<Rightarrow> fr_op list \<Rightarrow> replica" where
  "fr_run = foldl fr_step"

text \<open>
  A rollback or quarantine adds one to the 32-bit counter of the stamp it replaces.  At its maximum the counter wraps
  to zero, which is harmless only if the wall clock has moved on.
\<close>

definition counter_ok :: "replica \<Rightarrow> rstring \<Rightarrow> u64 \<Rightarrow> bool" where
  "counter_ok r k now = (case bt_get (fr_cells r) k of None \<Rightarrow> True
     | Some c \<Rightarrow> ts_logical (c_stamp c) = 0xffffffff \<longrightarrow> ts_wall (c_stamp c) < now)"

text \<open>The condition along a history, for the rollbacks and quarantines of one key.\<close>

fun counters_ok :: "rstring \<Rightarrow> replica \<Rightarrow> fr_op list \<Rightarrow> bool" where
  "counters_ok k r [] = True"
| "counters_ok k r (a # as) \<longleftrightarrow>
    (case a of FRollback j _ now \<Rightarrow> j = k \<longrightarrow> counter_ok r k now | FQuarantine j now \<Rightarrow> j = k \<longrightarrow> counter_ok r k now | _ \<Rightarrow> True) \<and>
    counters_ok k (fr_step r a) as"

lemma counters_ok_append: "counters_ok k r (xs @ ys) \<longleftrightarrow> counters_ok k r xs \<and> counters_ok k (fr_run r xs) ys"
  by (induction xs arbitrary: r) (simp_all add: fr_run_def)

definition fence_grows :: "rstring \<Rightarrow> replica \<Rightarrow> replica \<Rightarrow> bool" where
  "fence_grows k r r' \<longleftrightarrow> ts_key (fr_fence_of r k) \<le> ts_key (fr_fence_of r' k)"

lemma fence_grows_refl [simp]: "fence_grows k r r"
  by (simp add: fence_grows_def)

lemma fence_grows_trans: "fence_grows k a b \<Longrightarrow> fence_grows k b c \<Longrightarrow> fence_grows k a c"
  unfolding fence_grows_def by (rule order_trans)

text \<open>Replacing one cell; for the key in question by a well-formed one whose fence is no lower.\<close>

lemma set_cell_safe:
  assumes "key_wf k r" "j = k \<Longrightarrow> cell_wf c \<and> ts_key (fr_fence_of r k) \<le> ts_key (c_fence c)"
  shows "key_wf k (r\<lparr>fr_cells := bt_insert j c (fr_cells r)\<rparr>) \<and> fence_grows k r (r\<lparr>fr_cells := bt_insert j c (fr_cells r)\<rparr>)"
  using assms by (auto simp: key_wf_def fence_grows_def fr_fence_of_def)

lemma merge_one_safe:
  assumes "key_wf k r"
  shows "key_wf k (merge_one j c r) \<and> fence_grows k r (merge_one j c r)"
  unfolding merge_one_def
  using merge_cell_result [of "j \<in> fr_pinned r" "bt_get (fr_cells r) j" c]
  by (intro set_cell_safe [OF assms]) (auto simp: ts_less_key not_less fr_fence_of_def)

lemma merge_loop_safe: "key_wf k r \<Longrightarrow> key_wf k (snd (merge_loop n c r)) \<and> fence_grows k r (snd (merge_loop n c r))"
proof (induction n arbitrary: c r)
  case (Suc n)
  show ?case
  proof (cases "cell_decode c")
    case (Some p)
    obtain j inc c' where p: "p = ((j, inc), c')" by (cases p) auto
    have "key_wf k (merge_one j inc r)" "fence_grows k r (merge_one j inc r)"
      using merge_one_safe [OF Suc.prems] by simp_all
    then show ?thesis
      using Suc.IH [of "merge_one j inc r" c'] by (auto simp: Some p intro: fence_grows_trans)
  qed (simp add: Suc.prems)
qed simp

lemma stamp_above_fence: "cell_wf c \<Longrightarrow> ts_key (c_fence c) \<le> ts_key (c_stamp c)"
  by (auto simp: cell_wf_def ts_less_key split: if_splits)

lemma raised_stamp:
  fixes w :: u64 and l :: u32
  assumes "l = 0xffffffff \<longrightarrow> w < now"
  shows "(w, l) < (max w now, l + 1)"
proof (cases "l = 0xffffffff")
  case False
  then show ?thesis using inc_greater [OF False] by (auto simp: max_def)
qed (use assms in auto)

lemma rollback_effect:
  assumes "cell_wf c" "bt_get (fr_cells r) k = Some c" "counter_ok r k now" "k \<notin> fr_pinned r"
  shows "\<exists>c'. rollback_key k good now r = (Ok (), r\<lparr>fr_cells := bt_insert k c' (fr_cells r)\<rparr>) \<and> cell_wf c' \<and>
    \<not> c_tombstoned c' \<and> c_value c' = good \<and> ts_key (c_stamp c) \<le> ts_key (c_fence c')"
proof -
  have m: "ts_max (c_stamp c) (c_fence c) = c_stamp c"
    using stamp_above_fence [OF assms(1)] by (auto simp: ts_max_def ts_less_key)
  have "ts_logical (c_stamp c) = 0xffffffff \<longrightarrow> ts_wall (c_stamp c) < now" using assms(2,3) by (simp add: counter_ok_def)
  note up = raised_stamp [OF this]
  let ?c' = "\<lparr>c_stamp = \<lparr>ts_wall = max (ts_wall (c_stamp c)) now, ts_logical = ts_logical (c_stamp c) + 1\<rparr>,
    c_vhash = hash_of good, c_value = good, c_fence = c_stamp c, c_tombstoned = False\<rparr>"
  have "rollback_key k good now r = (Ok (), r\<lparr>fr_cells := bt_insert k ?c' (fr_cells r)\<rparr>)"
    using assms(2,4) by (simp add: rollback_key_def fr_write_def m Let_def)
  moreover have "cell_wf ?c'"
    using up by (simp add: cell_wf_def ts_less_key ts_key_def del: less_prod_simp)
  ultimately show ?thesis by (intro exI [of _ ?c']) simp
qed

lemma quarantine_effect:
  assumes "bt_get (fr_cells r) k = Some c" "counter_ok r k now" "k \<notin> fr_pinned r"
  shows "\<exists>c'. quarantine_key k now r = (Ok (), r\<lparr>fr_cells := bt_insert k c' (fr_cells r)\<rparr>) \<and> cell_wf c' \<and>
    c_tombstoned c' \<and> ts_key (c_stamp c) \<le> ts_key (c_fence c')"
proof -
  have "ts_logical (c_stamp c) = 0xffffffff \<longrightarrow> ts_wall (c_stamp c) < max (ts_wall (c_fence c)) now"
    using assms(1,2) by (simp add: counter_ok_def less_max_iff_disj)
  note up = raised_stamp [OF this]
  let ?f = "\<lparr>ts_wall = max (max (ts_wall (c_stamp c)) (ts_wall (c_fence c))) now,
    ts_logical = ts_logical (c_stamp c) + 1\<rparr>"
  let ?c' = "c\<lparr>c_fence := ?f, c_tombstoned := True, c_value := [], c_vhash := hash_ZERO, c_stamp := ?f\<rparr>"
  have "quarantine_key k now r = (Ok (), r\<lparr>fr_cells := bt_insert k ?c' (fr_cells r)\<rparr>)"
    using assms(1,3) by (simp add: quarantine_key_def Let_def)
  moreover have "ts_key (c_stamp c) < ts_key ?f"
    using up by (simp add: ts_key_def max.assoc del: less_prod_simp)
  ultimately show ?thesis by (intro exI [of _ ?c']) (simp add: cell_wf_def)
qed

text \<open>Operations on another key, on a pinned one or on an absent one leave the cell of this key alone.\<close>

lemma rollback_elsewhere:
  "j \<noteq> k \<or> j \<in> fr_pinned r \<or> bt_get (fr_cells r) j = None \<Longrightarrow>
    bt_get (fr_cells (snd (rollback_key j v now r))) k = bt_get (fr_cells r) k"
  by (auto simp: rollback_key_def fr_write_def Let_def split: option.splits)

lemma quarantine_elsewhere:
  "j \<noteq> k \<or> j \<in> fr_pinned r \<or> bt_get (fr_cells r) j = None \<Longrightarrow>
    bt_get (fr_cells (snd (quarantine_key j now r))) k = bt_get (fr_cells r) k"
  by (auto simp: quarantine_key_def Let_def split: option.splits)

lemma same_cell_safe:
  "key_wf k r \<Longrightarrow> bt_get (fr_cells r') k = bt_get (fr_cells r) k \<Longrightarrow> key_wf k r' \<and> fence_grows k r r'"
  by (simp add: key_wf_def fence_grows_def fr_fence_of_def)

lemma raised_cell_safe:
  assumes "key_wf k r" "bt_get (fr_cells r) k = Some c" "cell_wf c'" "ts_key (c_stamp c) \<le> ts_key (c_fence c')"
  shows "key_wf k (r\<lparr>fr_cells := bt_insert k c' (fr_cells r)\<rparr>) \<and> fence_grows k r (r\<lparr>fr_cells := bt_insert k c' (fr_cells r)\<rparr>)"
  using assms stamp_above_fence [of c] by (intro set_cell_safe) (auto simp: key_wf_def fr_fence_of_def)

lemma fr_step_safe:
  assumes inv: "key_wf k r" and ok: "counters_ok k r [a]"
  shows "key_wf k (fr_step r a) \<and> fence_grows k r (fr_step r a)"
proof (cases a)
  case (FPut j v t)
  then show ?thesis
    using inv set_cell_safe [OF inv, of j "\<lparr>c_stamp = t, c_vhash = hash_of v, c_value = v,
        c_fence = fr_fence_of r j, c_tombstoned = False\<rparr>"]
    by (cases "ts_less (fr_fence_of r j) t") (auto simp: fr_put_def fr_write_def Let_def cell_wf_def)
next
  case (FRollback j v now)
  show ?thesis
  proof (cases "j \<noteq> k \<or> j \<in> fr_pinned r \<or> bt_get (fr_cells r) j = None")
    case True
    then show ?thesis using same_cell_safe [OF inv rollback_elsewhere] FRollback by simp
  next
    case False
    then obtain c where c: "bt_get (fr_cells r) k = Some c" "k \<notin> fr_pinned r" "j = k" by auto
    then show ?thesis
      using rollback_effect [OF _ c(1), of now v] raised_cell_safe [OF inv c(1)] inv ok FRollback by (fastforce simp: key_wf_def)
  qed
next
  case (FQuarantine j now)
  show ?thesis
  proof (cases "j \<noteq> k \<or> j \<in> fr_pinned r \<or> bt_get (fr_cells r) j = None")
    case True
    then show ?thesis using same_cell_safe [OF inv quarantine_elsewhere] FQuarantine by simp
  next
    case False
    then obtain c where c: "bt_get (fr_cells r) k = Some c" "k \<notin> fr_pinned r" "j = k" by auto
    then show ?thesis
      using quarantine_effect [OF c(1), of now] raised_cell_safe [OF inv c(1)] ok FQuarantine by fastforce
  qed
next
  case (FMerge bs)
  then show ?thesis using inv merge_loop_safe by (auto simp: merge_encoded_def split: option.splits)
next
  case (FPin j)
  then show ?thesis using inv by (simp add: fr_pin_def key_wf_def fence_grows_def fr_fence_of_def)
qed

lemma fr_run_safe:
  "key_wf k r \<Longrightarrow> counters_ok k r as \<Longrightarrow> key_wf k (fr_run r as) \<and> fence_grows k r (fr_run r as)"
  unfolding fr_run_def
proof (induction as arbitrary: r)
  case (Cons a as)
  have "key_wf k (fr_step r a) \<and> fence_grows k r (fr_step r a)"
    using Cons.prems by (intro fr_step_safe) simp_all
  then show ?case using Cons by (auto intro: fence_grows_trans)
qed simp

lemma key_wf_new [simp]: "key_wf k fr_new"
  by (simp add: key_wf_def fr_new_def bt_get_def)

subsection \<open>Properties\<close>

definition gossip_ok :: "(hash256 \<Rightarrow> bytes) \<Rightarrow> replica \<Rightarrow> bool" where
  "gossip_ok dict s \<longleftrightarrow> bt_wf (fr_cells s) \<and> length (fr_cells s) < 2 ^ 32 \<and>
    (\<forall>kc \<in> set (fr_cells s). cell_fits kc \<and> snd kc \<in> known_cells dict)"

definition gossip :: "replica \<Rightarrow> replica \<Rightarrow> replica" where
  "gossip r s = snd (merge_encoded (fr_encode s) r)"

lemma gossip_eq: "gossip_ok dict s \<Longrightarrow> gossip r s = merge_cells r (fr_cells s)"
  using merge_encoded_encode [of s r] by (simp add: gossip_ok_def gossip_def)

lemma bt_wf_merge_cells: "bt_wf (fr_cells r) \<Longrightarrow> bt_wf (fr_cells (merge_cells r kcs))"
  unfolding merge_cells_def
  by (induction kcs arbitrary: r) (auto simp: case_prod_beta merge_one_def bt_wf_insert)

lemma gossip_known: "gossip_ok dict s \<Longrightarrow> bt_get (fr_cells s) k \<in> known_opt dict"
  by (cases "bt_get (fr_cells s) k") (auto simp: gossip_ok_def known_opt_def dest!: bt_get_SomeD)

lemma gossip_all_lookup:
  assumes "\<forall>s \<in> set gs. gossip_ok dict s"
  shows "bt_get (fr_cells (foldl gossip r gs)) k =
    foldl join_opt (bt_get (fr_cells r) k) (map (\<lambda>s. map_option (admitted r k) (bt_get (fr_cells s) k)) gs)"
  using assms
proof (induction gs arbitrary: r)
  case (Cons s gs)
  have s: "gossip_ok dict s" using Cons.prems by simp
  have "bt_get (fr_cells (gossip r s)) k = join_opt (bt_get (fr_cells r) k) (map_option (admitted r k) (bt_get (fr_cells s) k))"
    unfolding gossip_eq [OF s] bt_get_def [of "fr_cells s"]
    using s by (intro merge_cells_lookup) (auto simp: gossip_ok_def bt_wf_distinct known_cells_def)
  moreover have "admitted (gossip r s) k = admitted r k"
    by (simp add: gossip_eq [OF s] fun_eq_iff admitted_def merge_cells_pinned_fence)
  ultimately show ?case using Cons by simp
qed simp

lemma admitted_known: "x \<in> known_opt dict \<Longrightarrow> map_option (admitted r k) x \<in> known_opt dict"
  by (auto simp: known_opt_def admitted_def refence_known)

lemma admitted_own: "gossip_ok dict r \<Longrightarrow> map_option (admitted r k) (bt_get (fr_cells r) k) = bt_get (fr_cells r) k"
  using gossip_known [of dict r k]
  by (auto simp: known_opt_def admitted_def known_cells_def fr_fence_of_def refence_self)

lemma bt_wf_gossip_all:
  "bt_wf (fr_cells r) \<Longrightarrow> \<forall>s \<in> set gs. gossip_ok dict s \<Longrightarrow> bt_wf (fr_cells (foldl gossip r gs))"
proof (induction gs arbitrary: r)
  case (Cons s gs)
  then have "bt_wf (fr_cells (gossip r s))"
    using gossip_eq [of dict s r] by (simp add: bt_wf_merge_cells)
  then show ?case using Cons by simp
qed simp

text \<open>Both replicas treat incoming cells of a key alike: neither pins it, or both do at the same fence.\<close>

definition same_pin :: "replica \<Rightarrow> replica \<Rightarrow> rstring \<Rightarrow> bool" where
  "same_pin r r' k \<longleftrightarrow> (k \<in> fr_pinned r \<longleftrightarrow> k \<in> fr_pinned r') \<and> (k \<in> fr_pinned r \<longrightarrow> fr_fence_of r k = fr_fence_of r' k)"

lemma converge_at:
  assumes "gossip_ok dict r" "gossip_ok dict r'" "\<forall>s \<in> set gs. gossip_ok dict s" "\<forall>s \<in> set gs'. gossip_ok dict s"
    and "insert (fr_cells r) (fr_cells ` set gs) = insert (fr_cells r') (fr_cells ` set gs')" and "same_pin r r' k"
  shows "bt_get (fr_cells (foldl gossip r gs)) k = bt_get (fr_cells (foldl gossip r' gs')) k"
proof -
  let ?get = "\<lambda>s. map_option (admitted r k) (bt_get (fr_cells s) k)"
  have adm: "admitted r' k = admitted r k" using assms(6) by (auto simp: admitted_def fun_eq_iff same_pin_def)
  have own: "bt_get (fr_cells r) k = ?get r" "bt_get (fr_cells r') k = ?get r'"
    using admitted_own [OF assms(1), of k] admitted_own [OF assms(2), of k] adm by simp_all
  have known: "gossip_ok dict s \<Longrightarrow> ?get s \<in> known_opt dict" for s by (simp add: admitted_known gossip_known)
  have "insert (?get r) (?get ` set gs) = insert (?get r') (?get ` set gs')"
    using arg_cong [OF assms(5), of "(`) (\<lambda>m. map_option (admitted r k) (bt_get m k))"] by (simp add: image_image)
  then have "foldl join_opt (?get r) (map ?get gs) = foldl join_opt (?get r') (map ?get gs')"
    using assms(1-4) known by (intro opts.gossip_converges [of _ dict]) auto
  then show ?thesis
    using gossip_all_lookup [OF assms(3), of r k] gossip_all_lookup [OF assms(4), of r' k] adm own by simp
qed

text \<open>
  C10: Convergence.  Take two replicas such that one's own state together with the states gossiped to it are the same
  set of states as the other's own state together with those gossiped to the other, in whatever order, grouping
  or repetition the encoded states arrive.  Then they hold the same cell (stamp, value, fence, tombstone) for every key that neither of
  them pins, and for every key that both pin with the same fence of their own; if this covers all
  keys, all their cells and their state hashes are equal.  Assumed of the states: they fit the 32-bit length
  fields of the format, a live write lies above its fence and a tombstone is empty at its fence (as all operations
  leave them unless a rollback wraps a counter), and one dictionary gives the value of each value hash (equal hashes mean equal values).
\<close>

theorem replicas_converge:
  assumes "gossip_ok dict r" "gossip_ok dict r'"
    and "\<forall>s \<in> set gs. gossip_ok dict s" "\<forall>s \<in> set gs'. gossip_ok dict s"
    and "insert (fr_cells r) (fr_cells ` set gs) = insert (fr_cells r') (fr_cells ` set gs')"
  shows "(\<forall>k. k \<notin> fr_pinned r \<and> k \<notin> fr_pinned r' \<or>
        k \<in> fr_pinned r \<and> k \<in> fr_pinned r' \<and> fr_fence_of r k = fr_fence_of r' k \<longrightarrow>
      bt_get (fr_cells (foldl gossip r gs)) k = bt_get (fr_cells (foldl gossip r' gs')) k) \<and>
    (fr_pinned r = fr_pinned r' \<and> (\<forall>k \<in> fr_pinned r. fr_fence_of r k = fr_fence_of r' k) \<longrightarrow>
      fr_cells (foldl gossip r gs) = fr_cells (foldl gossip r' gs') \<and>
      fr_state_hash (foldl gossip r gs) = fr_state_hash (foldl gossip r' gs'))"
proof (intro conjI allI impI)
  fix k
  assume "k \<notin> fr_pinned r \<and> k \<notin> fr_pinned r' \<or> k \<in> fr_pinned r \<and> k \<in> fr_pinned r' \<and> fr_fence_of r k = fr_fence_of r' k"
  then show "bt_get (fr_cells (foldl gossip r gs)) k = bt_get (fr_cells (foldl gossip r' gs')) k"
    by (intro converge_at [OF assms]) (auto simp: same_pin_def)
next
  assume "fr_pinned r = fr_pinned r' \<and> (\<forall>k \<in> fr_pinned r. fr_fence_of r k = fr_fence_of r' k)"
  then have "same_pin r r' k" for k by (simp add: same_pin_def)
  moreover have "bt_wf (fr_cells (foldl gossip r gs))" "bt_wf (fr_cells (foldl gossip r' gs'))"
    using assms bt_wf_gossip_all by (auto simp: gossip_ok_def)
  ultimately show cells: "fr_cells (foldl gossip r gs) = fr_cells (foldl gossip r' gs')"
    by (intro bt_ext ext converge_at [OF assms]) auto
  then show "fr_state_hash (foldl gossip r gs) = fr_state_hash (foldl gossip r' gs')" by (simp add: fr_state_hash_def fr_encode_def)
qed

theorem replicas_converge_witness:
  "let t = \<lparr>ts_wall = 1, ts_logical = 0\<rparr>; a = ascii ''a''; b = ascii ''b'';
       r = fr_pin a (snd (fr_put a [1] t fr_new)); s = fr_pin a (snd (fr_put b [1] t fr_new))
   in fr_cells (foldl gossip r [s, s]) = fr_cells (foldl gossip s [r])"
proof -
  let ?t = "\<lparr>ts_wall = 1, ts_logical = 0\<rparr>"
  let ?p = "\<lambda>k. fr_pin (ascii ''a'') (snd (fr_put k [1] ?t fr_new))"
  let ?r = "?p (ascii ''a'')" and ?s = "?p (ascii ''b'')"
  have u: "valid_utf8 (ascii ''a'')" "valid_utf8 (ascii ''b'')" by code_simp+
  have ok: "gossip_ok (\<lambda>_. [1]) (?p k)" if "valid_utf8 k" "length k = 1" for k
    using that
    by (simp add: gossip_ok_def fr_pin_def fr_put_def fr_write_def fr_new_def fr_fence_of_def ts_default_def ts_less_def
        cell_fits_def known_cells_def cell_wf_def bt_wf_def)
  have pin: "fr_pinned (?p k) = {ascii ''a''}" "fr_fence_of (?p k) (ascii ''a'') = ts_default" for k
    by (simp_all add: fr_pin_def fr_put_def fr_write_def fr_new_def fr_fence_of_def ts_default_def ts_less_def bt_get_def Let_def)
  show ?thesis
    using replicas_converge [of "\<lambda>_. [1]" ?r ?s "[?s, ?s]" "[?r]"] ok [OF u(1)] ok [OF u(2)] pin
    unfolding Let_def by (simp add: insert_commute)
qed

text \<open>
  The condition on pins is needed: a key that only one of two replicas pins stays live there and is dropped by the
  other, although each has merged the state of the other.
\<close>

theorem one_sided_pin_diverges:
  "let t = \<lparr>ts_wall = 5, ts_logical = 0\<rparr>; k = ascii ''k''; w = snd (fr_put k [6] t fr_new);
       r = fr_pin k w; q = snd (quarantine_key k 7 w); c = the (bt_get (fr_cells q) k); d = the (bt_get (fr_cells r) k)
   in fr_get (merge_one k c r) k = Some [6] \<and> fr_get (merge_one k d q) k = None"
proof -
  let ?t = "\<lparr>ts_wall = 5, ts_logical = 0\<rparr>" and ?f = "\<lparr>ts_wall = 7, ts_logical = 1\<rparr>" and ?k = "ascii ''k''"
  let ?d = "\<lparr>c_stamp = ?t, c_vhash = hash_of [6], c_value = [6], c_fence = ts_default, c_tombstoned = False\<rparr>"
  let ?c = "\<lparr>c_stamp = ?f, c_vhash = hash_ZERO, c_value = [], c_fence = ?f, c_tombstoned = True\<rparr>"
  let ?w = "\<lparr>fr_cells = [(?k, ?d)], fr_pinned = {}\<rparr>" and ?q = "\<lparr>fr_cells = [(?k, ?c)], fr_pinned = {}\<rparr>"
  have w: "snd (fr_put ?k [6] ?t fr_new) = ?w"
    by (simp add: fr_put_def fr_write_def fr_new_def fr_fence_of_def ts_default_def ts_less_def)
  have q: "snd (quarantine_key ?k 7 ?w) = ?q"
    by (simp add: quarantine_key_def bt_get_def ts_default_def max_def Let_def)
  have "fr_get (merge_one ?k ?c (fr_pin ?k ?w)) ?k = Some [6]"
    by (simp add: fr_pin_def merge_one_def merge_cell_def bt_get_def fr_consider_def fr_get_def Let_def)
      (simp add: ts_less_def ts_default_def)
  moreover have "fr_get (merge_one ?k ?d ?q) ?k = None"
    by (simp add: merge_one_def merge_cell_def bt_get_def fr_consider_def fr_get_def Let_def)
      (simp add: ts_less_def ts_max_def ts_default_def)
  ultimately show ?thesis unfolding Let_def w q by (simp add: fr_pin_def bt_get_def)
qed

text \<open>
  C11: No resurrection.  Take any history of a replica: local writes, rollbacks, quarantines, pins and merges of
  arbitrary bytes, from the empty replica on.  Rolling a key back or quarantining it (a key that is
  present and not pinned) restores the good value, or leaves the key empty, and from then on no further calls can make the bad
  write, or any write with a stamp not above it, the live value of that key again; a local write at such a
  stamp is refused.  The condition, on the rollbacks and quarantines of this key throughout the history: if the
  counter of the stamp being replaced is \<^verbatim>\<open>u32::MAX\<close>, where adding one wraps to zero, then the time
  passed to the call is later than the wall time of that stamp.
\<close>

theorem rollback_never_resurrects:
  assumes "r = fr_run fr_new before" "counters_ok k fr_new (before @ a # as)"
    and "bt_get (fr_cells r) k = Some bad" "k \<notin> fr_pinned r"
    and "a = FRollback k good now \<or> a = FQuarantine k now"
  shows "fr_get (fr_step r a) k = (if a = FQuarantine k now then None else Some good) \<and>
    (\<forall>c. bt_get (fr_cells (fr_run (fr_step r a) as)) k = Some c \<longrightarrow> \<not> c_tombstoned c \<longrightarrow>
      ts_less (c_stamp bad) (c_stamp c)) \<and>
    (\<forall>t. \<not> ts_less (c_stamp bad) t \<longrightarrow>
      fst (fr_put k v t (fr_run (fr_step r a) as)) = Err BelowFence)"
proof -
  have ok: "counters_ok k r [a]" "counters_ok k (fr_step r a) as" "counter_ok r k now" and wf: "key_wf k r"
    using assms(1,2,5) fr_run_safe [of k fr_new before] by (auto simp: counters_ok_append)
  then have bad: "cell_wf bad" using assms(3) by (simp add: key_wf_def)
  obtain c' where c': "fr_step r a = r\<lparr>fr_cells := bt_insert k c' (fr_cells r)\<rparr>"
      "ts_key (c_stamp bad) \<le> ts_key (c_fence c')"
      "fr_get (fr_step r a) k = (if a = FQuarantine k now then None else Some good)"
    using assms(5) rollback_effect [OF bad assms(3) ok(3) assms(4), of good] quarantine_effect [OF assms(3) ok(3) assms(4)]
    by (auto simp: fr_get_def)
  define r' where "r' = fr_run (fr_step r a) as"
  have run: "key_wf k r'" "fence_grows k (fr_step r a) r'"
    unfolding r'_def using fr_run_safe [OF conjunct1 [OF fr_step_safe [OF wf ok(1)]] ok(2)] by simp_all
  have "ts_key (c_fence c') = ts_key (fr_fence_of (fr_step r a) k)"
    by (simp add: c'(1) fr_fence_of_def)
  also have "\<dots> \<le> ts_key (fr_fence_of r' k)" using run(2) by (simp add: fence_grows_def)
  finally have fence: "ts_key (c_stamp bad) \<le> ts_key (fr_fence_of r' k)"
    using c'(2) by (rule order_trans [rotated])
  have "ts_less (c_stamp bad) (c_stamp c)" if "bt_get (fr_cells r') k = Some c" "\<not> c_tombstoned c" for c
  proof -
    have "ts_key (c_fence c) < ts_key (c_stamp c)" "fr_fence_of r' k = c_fence c"
      using run(1) that by (auto simp: key_wf_def cell_wf_def fr_fence_of_def ts_less_key [symmetric] split: if_splits)
    then show ?thesis using fence by (simp add: ts_less_key)
  qed
  moreover have "fst (fr_put k v t r') = Err BelowFence" if "\<not> ts_less (c_stamp bad) t" for t
    using that fence by (auto simp: fr_put_def Let_def ts_less_key)
  ultimately show ?thesis using c'(3) unfolding r'_def by blast
qed

theorem rollback_never_resurrects_witness:
  "let t = \<lparr>ts_wall = 5, ts_logical = 0\<rparr>; k = ascii ''k''; r = fr_run fr_new [FPut k [6] t];
       r' = fr_run (fr_step r (FRollback k [1] 7)) [FMerge (fr_encode r), FPin k]
   in fst (fr_put k [6] t r') = Err BelowFence"
proof -
  let ?t = "\<lparr>ts_wall = 5, ts_logical = 0\<rparr>" and ?k = "ascii ''k''"
  let ?c = "\<lparr>c_stamp = ?t, c_vhash = hash_of [6], c_value = [6], c_fence = ts_default, c_tombstoned = False\<rparr>"
  let ?r = "fr_run fr_new [FPut ?k [6] ?t]"
  have r: "?r = \<lparr>fr_cells = [(?k, ?c)], fr_pinned = {}\<rparr>"
    by (simp add: fr_run_def fr_put_def fr_write_def fr_new_def fr_fence_of_def ts_default_def ts_less_def)
  have "bt_get (fr_cells ?r) ?k = Some ?c" "counter_ok ?r ?k 7" "?k \<notin> fr_pinned ?r"
    by (auto simp: r bt_get_def counter_ok_def)
  moreover from this(2) have "counters_ok ?k fr_new ([FPut ?k [6] ?t] @ FRollback ?k [1] 7 # [FMerge (fr_encode ?r), FPin ?k])"
    by (simp add: fr_run_def)
  ultimately show ?thesis
    using rollback_never_resurrects [OF refl, of ?k "[FPut ?k [6] ?t]" "FRollback ?k [1] 7" "[FMerge (fr_encode ?r), FPin ?k]" ?c "[1]" 7 "[6]"]
    unfolding Let_def by (simp add: ts_less_irrefl)
qed

text \<open>
  The condition is needed: quarantining a write whose counter is at its maximum, at a time not after its own, sets
  a fence below the write, and the same write is accepted again.
\<close>

theorem wrapped_quarantine_resurrects:
  "let t = \<lparr>ts_wall = 5, ts_logical = 0xffffffff\<rparr>; k = ascii ''k''; r = fr_run fr_new [FPut k [6] t];
       q = fr_step r (FQuarantine k 5)
   in fr_get q k = None \<and> fr_fence_of q k = \<lparr>ts_wall = 5, ts_logical = 0\<rparr> \<and> fr_get (fr_step q (FPut k [6] t)) k = Some [6]"
proof -
  let ?t = "\<lparr>ts_wall = 5, ts_logical = 0xffffffff\<rparr>" and ?f = "\<lparr>ts_wall = 5, ts_logical = 0\<rparr>" and ?k = "ascii ''k''"
  let ?c = "\<lparr>c_stamp = ?t, c_vhash = hash_of [6], c_value = [6], c_fence = ts_default, c_tombstoned = False\<rparr>"
  let ?q = "\<lparr>fr_cells = [(?k, \<lparr>c_stamp = ?f, c_vhash = hash_ZERO, c_value = [], c_fence = ?f, c_tombstoned = True\<rparr>)], fr_pinned = {}\<rparr>"
  have r: "fr_run fr_new [FPut ?k [6] ?t] = \<lparr>fr_cells = [(?k, ?c)], fr_pinned = {}\<rparr>"
    by (simp add: fr_run_def fr_put_def fr_write_def fr_new_def fr_fence_of_def ts_default_def ts_less_def)
  have q: "fr_step (fr_run fr_new [FPut ?k [6] ?t]) (FQuarantine ?k 5) = ?q"
    by (simp add: r quarantine_key_def bt_get_def ts_default_def max_def Let_def)
  show ?thesis unfolding Let_def q
    by (simp add: fr_get_def fr_fence_of_def bt_get_def fr_put_def fr_write_def ts_less_def)
qed

end
