(* ===== verification/Recovery_Supervisor.thy ===== *)
theory Recovery_Supervisor
  imports Ordered_Map Content_Hash
begin

text \<open>
  The recovery supervisor, \<^verbatim>\<open>dominion-core/src/supervisor.rs\<close>: exponential backoff, a circuit
  breaker per component and the fleet-wide storm guard, with the decision log.  The lemmas relate
  the pruned sliding windows to the whole decision log, and bound the number of restarts that can
  ever fall into one window.
\<close>

subsection \<open>Policy, decisions and state\<close>

record recovery_policy =
  rp_max_failures :: u32
  rp_window :: u64
  rp_base_backoff :: u64
  rp_max_backoff :: u64
  rp_cooldown :: u64
  rp_global_budget :: u32

definition rp_standard :: recovery_policy where
  "rp_standard = \<lparr>rp_max_failures = 3, rp_window = 100, rp_base_backoff = 8, rp_max_backoff = 1000,
    rp_cooldown = 500, rp_global_budget = 16\<rparr>"

datatype recovery_decision =
    Restart u64
  | Quarantine_until u64
  | Cooling u64
  | GlobalStorm

datatype breaker_state = Closed | Open u64 | HalfOpen

record log_entry =
  le_component :: u64
  le_at :: u64
  le_decision :: recovery_decision

record supervised =
  sc_failures :: "u64 list"
  sc_consecutive :: u32
  sc_state :: breaker_state

definition sc_new :: supervised where
  "sc_new = \<lparr>sc_failures = [], sc_consecutive = 0, sc_state = Closed\<rparr>"

record supervisor =
  sv_policy :: recovery_policy
  sv_components :: "(u64, supervised) btree"
  sv_global :: "u64 list"
  sv_log :: "log_entry list"

definition sv_new :: "recovery_policy \<Rightarrow> supervisor" where
  "sv_new p = \<lparr>sv_policy = p, sv_components = [], sv_global = [], sv_log = []\<rparr>"

subsection \<open>Operations\<close>

definition in_window :: "u64 \<Rightarrow> u64 \<Rightarrow> u64 \<Rightarrow> bool" where
  "in_window window now t \<longleftrightarrow> saturating_sub now t < window"

text \<open>The entry that \<^verbatim>\<open>entry(component).or_insert_with(Component::new)\<close> yields.\<close>

definition component_of :: "supervisor \<Rightarrow> u64 \<Rightarrow> supervised" where
  "component_of s c = (case bt_get (sv_components s) c of Some cmp \<Rightarrow> cmp | None \<Rightarrow> sc_new)"

definition backoff_after :: "recovery_policy \<Rightarrow> u32 \<Rightarrow> u64" where
  "backoff_after p consecutive =
    (let shift = min (consecutive - 1) 20;
         backoff = saturating_mul (rp_base_backoff p) (push_bit (unat shift) 1)
     in min backoff (rp_max_backoff p))"

definition on_failure :: "u64 \<Rightarrow> u64 \<Rightarrow> supervisor \<Rightarrow> recovery_decision \<times> supervisor" where
  "on_failure c now s =
    (let window = rp_window (sv_policy s);
         cmp = component_of s c;
         put = (\<lambda>cmp s. s\<lparr>sv_components := bt_insert c cmp (sv_components s)\<rparr>);
         log = (\<lambda>d s. s\<lparr>sv_log := sv_log s @ [\<lparr>le_component = c, le_at = now, le_decision = d\<rparr>]\<rparr>)
     in case sc_state cmp of
       Open until \<Rightarrow>
         if now < until then (Cooling until, log (Cooling until) (put cmp s))
         else
           let failures = filter (in_window window now) (sc_failures cmp) @ [now];
               consecutive = saturating_add (sc_consecutive cmp) 1;
               until' = saturating_add now (rp_cooldown (sv_policy s));
               cmp' = \<lparr>sc_failures = failures, sc_consecutive = consecutive, sc_state = Open until'\<rparr>
           in (Quarantine_until until', log (Quarantine_until until') (put cmp' s))
     | state \<Rightarrow>
         let failures = filter (in_window window now) (sc_failures cmp) @ [now];
             consecutive = saturating_add (sc_consecutive cmp) 1;
             count = len_u32 failures
         in if state = HalfOpen \<or> count > rp_max_failures (sv_policy s)
            then
              let until' = saturating_add now (rp_cooldown (sv_policy s));
                  cmp' = \<lparr>sc_failures = failures, sc_consecutive = consecutive, sc_state = Open until'\<rparr>
              in (Quarantine_until until', log (Quarantine_until until') (put cmp' s))
            else
              let cmp' = \<lparr>sc_failures = failures, sc_consecutive = consecutive, sc_state = state\<rparr>;
                  global = filter (in_window window now) (sv_global s)
              in if len_u32 global \<ge> rp_global_budget (sv_policy s)
                 then (GlobalStorm, log GlobalStorm (put cmp' (s\<lparr>sv_global := global\<rparr>)))
                 else
                   let d = Restart (backoff_after (sv_policy s) consecutive)
                   in (d, log d (put cmp' (s\<lparr>sv_global := global @ [now]\<rparr>))))"

definition on_success :: "u64 \<Rightarrow> supervisor \<Rightarrow> supervisor" where
  "on_success c s =
    (case bt_get (sv_components s) c of
       Some cmp \<Rightarrow> s\<lparr>sv_components := bt_insert c
         (cmp\<lparr>sc_consecutive := 0, sc_failures := [], sc_state := Closed\<rparr>) (sv_components s)\<rparr>
     | None \<Rightarrow> s)"

definition sv_is_quarantined :: "supervisor \<Rightarrow> u64 \<Rightarrow> u64 \<Rightarrow> bool" where
  "sv_is_quarantined s c now =
    (case map_option sc_state (bt_get (sv_components s) c) of
       Some (Open until) \<Rightarrow> now < until
     | _ \<Rightarrow> False)"

definition sv_state :: "supervisor \<Rightarrow> u64 \<Rightarrow> breaker_state" where
  "sv_state s c = (case map_option sc_state (bt_get (sv_components s) c) of Some st \<Rightarrow> st | None \<Rightarrow> Closed)"

definition sv_decisions :: "supervisor \<Rightarrow> log_entry list" where
  "sv_decisions s = sv_log s"

fun decision_tag :: "recovery_decision \<Rightarrow> u8" where
  "decision_tag (Restart _) = 1"
| "decision_tag (Quarantine_until _) = 2"
| "decision_tag (Cooling _) = 3"
| "decision_tag GlobalStorm = 4"

fun decision_payload :: "recovery_decision \<Rightarrow> u64" where
  "decision_payload (Restart after) = after"
| "decision_payload (Quarantine_until until) = until"
| "decision_payload (Cooling until) = until"
| "decision_payload GlobalStorm = 0"

definition log_digest :: "supervisor \<Rightarrow> hash256" where
  "log_digest s = hash_of (concat (map (\<lambda>e. to_le_u64 (le_component e) @ to_le_u64 (le_at e) @
      [decision_tag (le_decision e)] @ to_le_u64 (decision_payload (le_decision e))) (sv_log s)))"

subsection \<open>The two outcomes of a failure\<close>

text \<open>
  What \<^verbatim>\<open>on_failure\<close> does to the state: it logs one entry, rewrites one component, and touches the
  global window only on the restart path.
\<close>

lemma in_window_iff: "in_window w now t \<longleftrightarrow> unat now - unat t < unat w"
  by (simp add: in_window_def word_less_nat_alt unat_saturating_sub)

lemma on_failure_log:
  "sv_log (snd (on_failure c now s)) =
    sv_log s @ [\<lparr>le_component = c, le_at = now, le_decision = fst (on_failure c now s)\<rparr>]"
  by (simp add: on_failure_def Let_def split: breaker_state.split)

lemma on_failure_policy [simp]: "sv_policy (snd (on_failure c now s)) = sv_policy s"
  by (simp add: on_failure_def Let_def split: breaker_state.split)

lemma on_failure_other:
  "c' \<noteq> c \<Longrightarrow> component_of (snd (on_failure c now s)) c' = component_of s c'"
  by (simp add: on_failure_def Let_def component_of_def split: breaker_state.split)

lemma on_success_frame [simp]:
  "sv_policy (on_success c s) = sv_policy s" "sv_global (on_success c s) = sv_global s"
  "sv_log (on_success c s) = sv_log s"
  by (simp_all add: on_success_def split: option.split)

lemma on_success_other: "c' \<noteq> c \<Longrightarrow> component_of (on_success c s) c' = component_of s c'"
  by (simp add: on_success_def component_of_def split: option.split)

lemma on_failure_open:
  assumes "sc_state (component_of s c) = Open until"
  shows "\<exists>until'. sc_state (component_of (snd (on_failure c now s)) c) = Open until' \<and>
      (fst (on_failure c now s) = Quarantine_until until' \<or> fst (on_failure c now s) = Cooling until')"
  using assms by (auto simp: on_failure_def Let_def component_of_def)

lemma on_failure_not_restart:
  assumes "\<forall>d. fst (on_failure c now s) \<noteq> Restart d"
  shows "sv_global (snd (on_failure c now s)) = sv_global s \<or>
    sv_global (snd (on_failure c now s)) = filter (in_window (rp_window (sv_policy s)) now) (sv_global s)"
  using assms by (auto simp: on_failure_def Let_def split: breaker_state.splits if_splits)

lemma on_failure_restart:
  assumes "fst (on_failure c now s) = Restart d"
  shows "sv_global (snd (on_failure c now s)) =
      filter (in_window (rp_window (sv_policy s)) now) (sv_global s) @ [now]"
    and "len_u32 (filter (in_window (rp_window (sv_policy s)) now) (sv_global s)) < rp_global_budget (sv_policy s)"
    and "sc_failures (component_of (snd (on_failure c now s)) c) =
      filter (in_window (rp_window (sv_policy s)) now) (sc_failures (component_of s c)) @ [now]"
    and "len_u32 (filter (in_window (rp_window (sv_policy s)) now) (sc_failures (component_of s c)) @ [now])
      \<le> rp_max_failures (sv_policy s)"
    and "sc_state (component_of (snd (on_failure c now s)) c) = sc_state (component_of s c)"
    and "sc_state (component_of s c) = Closed"
    and "d = backoff_after (sv_policy s) (saturating_add (sc_consecutive (component_of s c)) 1)"
  using assms
  by (auto simp: on_failure_def Let_def component_of_def not_le split: breaker_state.splits if_splits)

lemma on_failure_failures:
  "sc_failures (component_of (snd (on_failure c now s)) c) = sc_failures (component_of s c) \<or>
   sc_failures (component_of (snd (on_failure c now s)) c) =
     filter (in_window (rp_window (sv_policy s)) now) (sc_failures (component_of s c)) @ [now]"
  by (auto simp: on_failure_def Let_def component_of_def split: breaker_state.splits)

lemma on_failure_closed:
  assumes "sc_state (component_of (snd (on_failure c now s)) c) = Closed"
  shows "sc_state (component_of s c) = Closed \<and>
    len_u32 (sc_failures (component_of (snd (on_failure c now s)) c)) \<le> rp_max_failures (sv_policy s)"
  using assms by (auto simp: on_failure_def Let_def component_of_def not_less split: breaker_state.splits if_splits)

subsection \<open>Histories and sliding windows\<close>

datatype sv_op = Failure u64 u64 | Success u64

fun sv_exec :: "supervisor \<Rightarrow> sv_op \<Rightarrow> supervisor" where
  "sv_exec s (Failure c t) = snd (on_failure c t s)"
| "sv_exec s (Success c) = on_success c s"

fun op_times :: "sv_op list \<Rightarrow> u64 list" where
  "op_times [] = []"
| "op_times (Failure c t # ops) = t # op_times ops"
| "op_times (Success c # ops) = op_times ops"

fun is_Restart :: "recovery_decision \<Rightarrow> bool" where
  "is_Restart (Restart d) = True"
| "is_Restart _ = False"

definition restart_times :: "log_entry list \<Rightarrow> u64 list" where
  "restart_times log = map le_at (filter (\<lambda>e. is_Restart (le_decision e)) log)"

lemma restart_times_append [simp]: "restart_times (xs @ ys) = restart_times xs @ restart_times ys"
  by (simp add: restart_times_def)

lemma is_Restart_iff: "is_Restart d \<longleftrightarrow> (\<exists>t. d = Restart t)"
  by (cases d) auto

lemma in_window_mono: "in_window w later t \<Longrightarrow> now \<le> later \<Longrightarrow> in_window w now t"
  by (simp add: in_window_iff word_le_nat_alt)

lemma window_refilter:
  "now \<le> later \<Longrightarrow> filter (in_window w later) (filter (in_window w now) ts) = filter (in_window w later) ts"
  by (auto intro!: filter_cong dest: in_window_mono)

lemma window_conj:
  "now \<le> later \<Longrightarrow> filter (\<lambda>t. in_window w now t \<and> in_window w later t) ts = filter (in_window w later) ts"
  by (auto intro!: filter_cong dest: in_window_mono)

lemma in_window_abs: "(\<lambda>t. unat now - unat t < unat w) = in_window w now"
  by (simp add: fun_eq_iff in_window_iff)

lemma sorted_snoc_le: "sorted (xs @ [t]) \<Longrightarrow> x \<in> set xs \<Longrightarrow> x \<le> t" for t :: "'a::linorder"
  by (auto simp: sorted_append)

lemma policy_run [simp]: "sv_policy (foldl sv_exec s ops) = sv_policy s"
proof (induction ops arbitrary: s)
  case (Cons op ops)
  then show ?case by (cases op) simp_all
qed simp

lemma op_times_append [simp]: "op_times (xs @ ys) = op_times xs @ op_times ys"
  by (induction xs rule: op_times.induct) simp_all

text \<open>The global window always agrees with the restarts in the decision log.\<close>

definition storm_inv :: "supervisor \<Rightarrow> u64 list \<Rightarrow> bool" where
  "storm_inv s ts \<longleftrightarrow>
    length (sv_global s) \<le> unat (rp_global_budget (sv_policy s)) \<and>
    (\<forall>now. (\<forall>t \<in> set ts. t \<le> now) \<longrightarrow>
      filter (in_window (rp_window (sv_policy s)) now) (sv_global s) =
      filter (in_window (rp_window (sv_policy s)) now) (restart_times (sv_log s)))"

lemma storm_inv_failure:
  assumes inv: "storm_inv s ts" and sorted: "\<forall>t \<in> set ts. t \<le> now"
  shows "storm_inv (snd (on_failure c now s)) (ts @ [now])"
proof (cases "is_Restart (fst (on_failure c now s))")
  case True
  then obtain d where d: "fst (on_failure c now s) = Restart d" by (auto simp: is_Restart_iff)
  let ?g = "filter (in_window (rp_window (sv_policy s)) now) (sv_global s)"
  have "length ?g \<le> unat (rp_global_budget (sv_policy s))"
    using inv by (auto simp: storm_inv_def intro: le_trans [OF length_filter_le])
  moreover have "unat (rp_global_budget (sv_policy s)) < 2 ^ 32"
    using unsigned_less [of "rp_global_budget (sv_policy s)"] by simp
  ultimately have "length ?g < unat (rp_global_budget (sv_policy s))"
    using on_failure_restart(2) [OF d] by (simp add: word_less_nat_alt unat_of_nat)
  moreover have "restart_times (sv_log (snd (on_failure c now s))) = restart_times (sv_log s) @ [now]"
    using True by (simp add: on_failure_log restart_times_def)
  ultimately show ?thesis
    using inv by (simp add: storm_inv_def on_failure_restart(1) [OF d] window_conj)
next
  case False
  then have no: "\<forall>d. fst (on_failure c now s) \<noteq> Restart d" by (auto simp: is_Restart_iff)
  have "length (sv_global (snd (on_failure c now s))) \<le> length (sv_global s)"
    using on_failure_not_restart [OF no] by auto
  moreover have "restart_times (sv_log (snd (on_failure c now s))) = restart_times (sv_log s)"
    using False by (simp add: on_failure_log restart_times_def)
  moreover have "filter (in_window w later) (sv_global (snd (on_failure c now s))) =
      filter (in_window w later) (sv_global s)" if "now \<le> later" "w = rp_window (sv_policy s)" for later w
    using on_failure_not_restart [OF no] that by (auto simp: window_conj)
  ultimately show ?thesis using inv by (auto simp: storm_inv_def)
qed

lemma storm_inv_success: "storm_inv s ts \<Longrightarrow> storm_inv (on_success c s) ts"
  by (simp add: storm_inv_def)

lemma storm_inv_run: "sorted (op_times ops) \<Longrightarrow> storm_inv (foldl sv_exec (sv_new p) ops) (op_times ops)"
proof (induction ops rule: rev_induct)
  case Nil
  then show ?case by (simp add: storm_inv_def sv_new_def restart_times_def)
next
  case (snoc op ops)
  then have "storm_inv (foldl sv_exec (sv_new p) ops) (op_times ops)" by (simp add: sorted_append)
  then show ?case using snoc.prems
    by (cases op) (simp_all add: storm_inv_failure storm_inv_success sorted_snoc_le)
qed

text \<open>A closed breaker holds no more failures than the policy allows.\<close>

definition breaker_inv :: "supervisor \<Rightarrow> bool" where
  "breaker_inv s \<longleftrightarrow> (\<forall>c. sc_state (component_of s c) = Closed \<longrightarrow>
    length (sc_failures (component_of s c)) \<le> unat (rp_max_failures (sv_policy s)))"

lemma closed_failures_bound:
  assumes "breaker_inv s" and "unat (rp_max_failures (sv_policy s)) < 2 ^ 32 - 1"
    and "sc_state (component_of (snd (on_failure c now s)) c) = Closed"
  shows "length (sc_failures (component_of (snd (on_failure c now s)) c)) \<le> unat (rp_max_failures (sv_policy s))"
proof -
  let ?f = "sc_failures (component_of (snd (on_failure c now s)) c)"
  have "length (sc_failures (component_of s c)) \<le> unat (rp_max_failures (sv_policy s))"
    using assms(1) on_failure_closed [OF assms(3)] by (simp add: breaker_inv_def)
  then have "length ?f \<le> Suc (unat (rp_max_failures (sv_policy s)))"
    using on_failure_failures [of c now s] by (auto intro: le_trans [OF length_filter_le])
  then have "unat (len_u32 ?f) = length ?f" using assms(2) by (intro unat_len_u32) simp
  then show ?thesis using on_failure_closed [OF assms(3)] by (simp add: word_le_nat_alt)
qed

lemma breaker_inv_exec:
  assumes "breaker_inv s" and "unat (rp_max_failures (sv_policy s)) < 2 ^ 32 - 1"
  shows "breaker_inv (sv_exec s op)"
proof (cases op)
  case (Failure c now)
  show ?thesis unfolding breaker_inv_def
  proof (intro allI impI)
    fix c'
    assume "sc_state (component_of (sv_exec s op) c') = Closed"
    then show "length (sc_failures (component_of (sv_exec s op) c'))
        \<le> unat (rp_max_failures (sv_policy (sv_exec s op)))"
      using assms closed_failures_bound [OF assms]
      by (cases "c' = c") (simp_all add: Failure on_failure_other breaker_inv_def)
  qed
next
  case (Success c)
  then show ?thesis using assms(1)
    by (auto simp: breaker_inv_def on_success_def component_of_def split: option.splits)
qed

lemma breaker_inv_run:
  assumes "unat (rp_max_failures p) < 2 ^ 32 - 1"
  shows "breaker_inv (foldl sv_exec (sv_new p) ops)"
proof (induction ops rule: rev_induct)
  case Nil
  then show ?case by (simp add: breaker_inv_def sv_new_def component_of_def sc_new_def)
next
  case (snoc op ops)
  have "sv_policy (foldl sv_exec (sv_new p) ops) = p" by (simp add: sv_new_def)
  then show ?case using breaker_inv_exec [OF snoc.IH] assms by simp
qed

text \<open>
  From a point of the history on, and as long as a component reports no success, its restarts in
  a window are bounded by its recorded failures in this window and by the policy.
\<close>

definition restarts_of :: "u64 \<Rightarrow> log_entry list \<Rightarrow> u64 list" where
  "restarts_of c log = restart_times (filter (\<lambda>e. le_component e = c) log)"

definition window_inv :: "u64 \<Rightarrow> nat \<Rightarrow> supervisor \<Rightarrow> u64 list \<Rightarrow> bool" where
  "window_inv c k s ts \<longleftrightarrow> k \<le> length (sv_log s) \<and>
    (\<forall>now. (\<forall>t \<in> set ts. t \<le> now) \<longrightarrow>
      (let count = length (filter (in_window (rp_window (sv_policy s)) now) (restarts_of c (drop k (sv_log s))))
       in count \<le> length (filter (in_window (rp_window (sv_policy s)) now) (sc_failures (component_of s c))) \<and>
          count \<le> unat (rp_max_failures (sv_policy s))))"

lemma restarts_of_failure:
  assumes "k \<le> length (sv_log s)"
  shows "restarts_of c (drop k (sv_log (snd (on_failure c' now s)))) =
    restarts_of c (drop k (sv_log s)) @
    (if c' = c \<and> is_Restart (fst (on_failure c' now s)) then [now] else [])"
  using assms by (simp add: on_failure_log restarts_of_def restart_times_def)

lemma window_inv_failure:
  assumes inv: "window_inv c k s ts" and sorted: "\<forall>t \<in> set ts. t \<le> now"
    and brk: "breaker_inv s" and max: "unat (rp_max_failures (sv_policy s)) < 2 ^ 32 - 1"
  shows "window_inv c k (snd (on_failure c' now s)) (ts @ [now])"
proof -
  let ?s' = "snd (on_failure c' now s)" and ?w = "rp_window (sv_policy s)"
  let ?R = "restarts_of c (drop k (sv_log s))"
  have k: "k \<le> length (sv_log s)" using inv by (simp add: window_inv_def)
  have old: "length (filter (in_window ?w later) ?R) \<le> length (filter (in_window ?w later) (sc_failures (component_of s c)))"
    "length (filter (in_window ?w later) ?R) \<le> unat (rp_max_failures (sv_policy s))"
    if "\<forall>t \<in> set (ts @ [now]). t \<le> later" for later
    using inv that by (auto simp: window_inv_def Let_def)
  have new: "length (filter (in_window ?w later) (restarts_of c (drop k (sv_log ?s'))))
      \<le> length (filter (in_window ?w later) (sc_failures (component_of ?s' c)))"
    if "\<forall>t \<in> set (ts @ [now]). t \<le> later" for later
  proof (cases "c' = c \<and> is_Restart (fst (on_failure c' now s))")
    case True
    then obtain d where "fst (on_failure c now s) = Restart d" by (auto simp: is_Restart_iff)
    then show ?thesis using True that old(1) [OF that]
      by (simp add: restarts_of_failure [OF k] on_failure_restart(3) window_conj)
  next
    case False
    then show ?thesis using that old(1) [OF that] on_failure_failures [of c now s]
      by (cases "c' = c") (auto simp: restarts_of_failure [OF k] window_conj on_failure_other)
  qed
  have bound: "length (filter (in_window ?w later) (restarts_of c (drop k (sv_log ?s'))))
      \<le> unat (rp_max_failures (sv_policy s))"
    if "\<forall>t \<in> set (ts @ [now]). t \<le> later" for later
  proof (cases "c' = c \<and> is_Restart (fst (on_failure c' now s))")
    case True
    then obtain d where d: "fst (on_failure c now s) = Restart d" by (auto simp: is_Restart_iff)
    have "length (sc_failures (component_of ?s' c)) \<le> unat (rp_max_failures (sv_policy s))"
      using closed_failures_bound [OF brk max] on_failure_restart(5,6) [OF d] True by simp
    then show ?thesis using new [OF that] length_filter_le le_trans by blast
  next
    case False
    then show ?thesis using old(2) [OF that] by (auto simp: restarts_of_failure [OF k])
  qed
  show ?thesis using k new bound by (simp add: window_inv_def Let_def on_failure_log)
qed

lemma window_inv_run:
  assumes "unat (rp_max_failures p) < 2 ^ 32 - 1" and "Success c \<notin> set ops"
    and "s0 = foldl sv_exec (sv_new p) before" and "sorted (op_times ops)"
  shows "window_inv c (length (sv_log s0)) (foldl sv_exec s0 ops) (op_times ops)"
  using assms(2,4)
proof (induction ops rule: rev_induct)
  case Nil
  then show ?case by (simp add: window_inv_def restarts_of_def restart_times_def)
next
  case (snoc op ops)
  let ?s = "foldl sv_exec s0 ops"
  have IH: "window_inv c (length (sv_log s0)) ?s (op_times ops)"
    using snoc by (simp add: sorted_append)
  have pol: "sv_policy ?s = p" unfolding assms(3) policy_run by (simp add: sv_new_def)
  have "breaker_inv ?s"
    using breaker_inv_run [OF assms(1), of "before @ ops"] by (simp add: assms(3))
  then show ?case
  proof (cases op)
    case (Failure c' now)
    then show ?thesis using window_inv_failure [OF IH _ \<open>breaker_inv ?s\<close>] snoc.prems assms(1) pol
      by (simp add: sorted_snoc_le)
  next
    case (Success c')
    then have "c \<noteq> c'" using snoc.prems by auto
    then show ?thesis using IH by (simp add: Success window_inv_def on_success_other)
  qed
qed

lemma open_until_success:
  assumes "sc_state (component_of s c) = Open u" and "Success c \<notin> set ops"
  shows "\<exists>u. sc_state (component_of (foldl sv_exec s ops) c) = Open u"
  using assms
proof (induction ops arbitrary: s u)
  case (Cons op ops)
  have "\<exists>u. sc_state (component_of (sv_exec s op) c) = Open u"
  proof (cases op)
    case (Failure c' now)
    then show ?thesis using on_failure_open [OF Cons.prems(1)] Cons.prems(1)
      by (cases "c' = c") (auto simp: on_failure_other)
  next
    case (Success c')
    then show ?thesis using Cons.prems by (auto simp: on_success_other)
  qed
  then show ?case using Cons.IH Cons.prems(2) by auto
qed auto

subsection \<open>Properties\<close>

text \<open>
  C14: The storm guard.  However failures of all components arrive, as long as their times do not
  run backwards, the whole system never permits more restarts within one sliding window than the
  global budget.
\<close>

theorem storm_guard:
  assumes "sorted (op_times ops)" and "\<forall>t \<in> set (op_times ops). t \<le> now"
  shows "length (filter (\<lambda>t. unat now - unat t < unat (rp_window p))
      (restart_times (sv_decisions (foldl sv_exec (sv_new p) ops)))) \<le> unat (rp_global_budget p)"
proof -
  let ?s = "foldl sv_exec (sv_new p) ops"
  have "sv_policy ?s = p" by (simp add: sv_new_def)
  then have "filter (in_window (rp_window p) now) (sv_global ?s) =
      filter (in_window (rp_window p) now) (restart_times (sv_log ?s))"
    "length (sv_global ?s) \<le> unat (rp_global_budget p)"
    using storm_inv_run [OF assms(1), of p] assms(2) by (auto simp: storm_inv_def)
  then show ?thesis
    unfolding in_window_abs sv_decisions_def by (metis length_filter_le le_trans)
qed

theorem storm_guard_witness:
  "let s = foldl sv_exec (sv_new (rp_standard\<lparr>rp_global_budget := 2\<rparr>)) [Failure 1 0, Failure 2 1, Failure 3 2, Success 1]
   in length (filter (\<lambda>t. unat (2 :: u64) - unat t < unat (100 :: u64)) (restart_times (sv_decisions s))) \<le> 2"
  using storm_guard [of "[Failure 1 0, Failure 2 1, Failure 3 2, Success 1]" 2 "rp_standard\<lparr>rp_global_budget := 2\<rparr>"]
  by (simp add: rp_standard_def del: foldl_Cons)

text \<open>
  The circuit breaker.  Between two successes of a component, no sliding window contains more
  restarts of it than the policy's \<^verbatim>\<open>max_failures\<close>.
\<close>

theorem breaker_bounds_restarts:
  assumes "unat (rp_max_failures p) < 2 ^ 32 - 1" and "Success c \<notin> set ops"
    and "sorted (op_times ops)" and "\<forall>t \<in> set (op_times ops). t \<le> now"
    and "s0 = foldl sv_exec (sv_new p) before"
  shows "length (filter (\<lambda>t. unat now - unat t < unat (rp_window p))
      (restarts_of c (drop (length (sv_decisions s0)) (sv_decisions (foldl sv_exec s0 ops)))))
    \<le> unat (rp_max_failures p)"
proof -
  have "sv_policy (foldl sv_exec s0 ops) = p" unfolding assms(5) policy_run by (simp add: sv_new_def)
  then show ?thesis
    using window_inv_run [OF assms(1,2,5,3)] assms(4)
    unfolding in_window_abs sv_decisions_def by (simp add: window_inv_def Let_def)
qed

theorem breaker_bounds_restarts_witness:
  "let s0 = foldl sv_exec (sv_new rp_standard) [Failure 7 0, Success 7];
       s = foldl sv_exec s0 [Failure 7 1, Failure 7 2, Failure 7 3, Failure 7 4]
   in length (filter (\<lambda>t. unat (4 :: u64) - unat t < unat (100 :: u64))
        (restarts_of 7 (drop (length (sv_decisions s0)) (sv_decisions s)))) \<le> 3"
  using breaker_bounds_restarts [of rp_standard 7 "[Failure 7 1, Failure 7 2, Failure 7 3, Failure 7 4]" 4
      "foldl sv_exec (sv_new rp_standard) [Failure 7 0, Success 7]" "[Failure 7 0, Success 7]"]
  unfolding Let_def by (simp add: rp_standard_def del: foldl_Cons)

text \<open>
  A tripped breaker stays tripped: after a quarantine decision, every failure of the component
  is answered with quarantine or cooling, never with a restart, until it reports a success.
\<close>

theorem quarantine_until_success:
  assumes "fst (on_failure c t s) = Quarantine_until u" and "Success c \<notin> set ops"
  shows "\<exists>u'. fst (on_failure c now (foldl sv_exec (snd (on_failure c t s)) ops)) = Quarantine_until u' \<or>
    fst (on_failure c now (foldl sv_exec (snd (on_failure c t s)) ops)) = Cooling u'"
proof -
  have "\<exists>u. sc_state (component_of (snd (on_failure c t s)) c) = Open u"
    using assms(1) by (auto simp: on_failure_def Let_def component_of_def split: breaker_state.splits if_splits)
  then obtain u where "sc_state (component_of (foldl sv_exec (snd (on_failure c t s)) ops) c) = Open u"
    using open_until_success [OF _ assms(2)] by blast
  from on_failure_open [OF this] show ?thesis by blast
qed

theorem quarantine_until_success_witness:
  "let s = foldl sv_exec (sv_new rp_standard) [Failure 1 0, Failure 1 1, Failure 1 2];
       d = fst (on_failure 1 9000 (foldl sv_exec (snd (on_failure 1 3 s)) [Failure 2 4, Success 2]))
   in \<exists>u. d = Quarantine_until u \<or> d = Cooling u"
proof -
  let ?s = "foldl sv_exec (sv_new rp_standard) [Failure 1 0, Failure 1 1, Failure 1 2]"
  have "fst (on_failure 1 3 ?s) = Quarantine_until 503" by code_simp
  then show ?thesis
    using quarantine_until_success [of 1 3 ?s 503 "[Failure 2 4, Success 2]" 9000] unfolding Let_def by simp
qed

text \<open>
  The backoff of a permitted restart doubles with every consecutive failure, up to 2 to the
  power of 20 and to the policy's ceiling, and never wraps around.
\<close>

theorem restart_backoff_exact:
  assumes "fst (on_failure c now s) = Restart d"
  shows "unat d = min (min (unat (rp_base_backoff (sv_policy s)) *
      2 ^ min (min (unat (sc_consecutive (component_of s c))) (2 ^ 32 - 2)) 20) (2 ^ 64 - 1))
    (unat (rp_max_backoff (sv_policy s)))"
proof -
  let ?n = "saturating_add (sc_consecutive (component_of s c)) 1"
  have n: "unat ?n = min (unat (sc_consecutive (component_of s c)) + 1) (2 ^ 32 - 1)"
    by (simp add: unat_saturating_add)
  have "unat (?n - 1) = unat ?n - 1"
    using n by (intro unat_minus_one) auto
  then have "unat (min (?n - 1) 20) = min (min (unat (sc_consecutive (component_of s c))) (2 ^ 32 - 2)) 20"
    using n by (simp add: min_def word_le_nat_alt)
  moreover have "unat (push_bit k (1 :: u64)) = 2 ^ k" if "k \<le> 20" for k
  proof -
    have "(2 :: nat) ^ k < 2 ^ 64" using that by (intro power_strict_increasing) auto
    moreover have "push_bit k (1 :: u64) = word_of_nat (2 ^ k)" by (simp add: push_bit_eq_mult)
    ultimately show ?thesis by (simp only: unat_of_nat) (simp add: take_bit_nat_eq_self)
  qed
  moreover have "unat (min a b) = min (unat a) (unat b)" for a b :: u64
    by (simp add: min_def word_le_nat_alt)
  ultimately show ?thesis
    unfolding on_failure_restart(7) [OF assms] by (simp add: backoff_after_def Let_def unat_saturating_mul)
qed

theorem restart_backoff_exact_witness:
  "fst (on_failure 1 2 (foldl sv_exec (sv_new rp_standard) [Failure 1 0, Failure 1 1])) = Restart 32 \<and> unat (32 :: u64) = min (min (8 * 2 ^ 2) (2 ^ 64 - 1)) 1000"
proof -
  let ?s = "foldl sv_exec (sv_new rp_standard) [Failure 1 0, Failure 1 1]"
  have "fst (on_failure 1 2 ?s) = Restart 32" "sc_consecutive (component_of ?s 1) = 2"
    by code_simp+
  then show ?thesis using restart_backoff_exact [of 1 2 ?s 32] by (simp add: sv_new_def rp_standard_def)
qed

end
