(* ===== verification/Hardened_Allocator.thy ===== *)
theory Hardened_Allocator
  imports Ordered_Map Content_Hash
begin

text \<open>
  The hardened allocator, \<^verbatim>\<open>dominion-core/src/hardalloc.rs\<close>: size classes in seed-randomised bands,
  guard canaries, out-of-line metadata, zeroing and the use-after-free trap.  \<^verbatim>\<open>usize\<close> sizes that a
  caller passes are 64-bit words; positions in the arena, which is never longer than
  \<^verbatim>\<open>isize::MAX\<close>, are naturals.  \<^verbatim>\<open>size_class\<close> is the source's unbounded loop, so an operation
  that calls it returns an option: \<open>None\<close> is a call that never returns.  The lemmas show that the
  byte arena implements a heap of separate zero-initialised buffers.
\<close>

subsection \<open>State\<close>

definition POISON :: u8 where "POISON = 0xA5"
definition CANARY :: u8 where "CANARY = 0x5A"
definition GUARD :: nat where "GUARD = 8"

datatype alloc_fault = UseAfterFree | BadHandle | AllocOutOfBounds | CanaryCorrupted | OutOfMemory

record handle =
  h_id :: u64
  h_generation :: u32

record alloc_meta =
  m_offset :: nat
  m_size :: u64
  m_generation :: u32
  m_live :: bool

record hardened_allocator =
  ha_arena :: bytes
  ha_meta :: "(u64, alloc_meta) btree"
  ha_class_cursor :: "(u64, nat) btree"
  ha_class_base :: "(u64, nat) btree"
  ha_next_id :: u64
  ha_generation :: "(u64, u32) btree"
  ha_seed :: u64
  ha_band :: nat

definition ha_new :: "nat \<Rightarrow> u64 \<Rightarrow> hardened_allocator" where
  "ha_new arena_bytes seed =
    \<lparr>ha_arena = replicate arena_bytes POISON, ha_meta = [], ha_class_cursor = [], ha_class_base = [],
     ha_next_id = 1, ha_generation = [], ha_seed = seed, ha_band = max (arena_bytes div 8) 64\<rparr>"

subsection \<open>Operations\<close>

text \<open>\<^verbatim>\<open>while c < sz { c <<= 1 }\<close>, with the wrap-around of the shift.\<close>

partial_function (option) size_class_loop :: "u64 \<Rightarrow> u64 \<Rightarrow> u64 option" where
  "size_class_loop sz c = (if c < sz then size_class_loop sz (push_bit 1 c) else Some c)"

definition size_class :: "u64 \<Rightarrow> u64 option" where
  "size_class sz = size_class_loop sz 16"

text \<open>The linear probe: \<open>left\<close> is \<^verbatim>\<open>slots - guard\<close>.\<close>

primrec probe :: "nat list \<Rightarrow> nat \<Rightarrow> nat \<Rightarrow> nat \<Rightarrow> nat \<Rightarrow> nat option" where
  "probe taken band slots 0 base = (if base \<in> set taken then None else Some base)"
| "probe taken band slots (Suc left) base =
    (if base \<in> set taken then probe taken band slots left ((base + band) mod (slots * band)) else Some base)"

definition ha_slots :: "hardened_allocator \<Rightarrow> nat" where
  "ha_slots a = max (length (ha_arena a) div ha_band a) 1"

definition base_of :: "u64 \<Rightarrow> hardened_allocator \<Rightarrow> (alloc_fault + nat) \<times> hardened_allocator" where
  "base_of cls a =
    (case bt_get (ha_class_base a) cls of
       Some b \<Rightarrow> (Ok b, a)
     | None \<Rightarrow>
        let h = hash_of (to_le_u64 (ha_seed a) @ to_le_u64 cls);
            slots = ha_slots a;
            pick = unat (of_le_bytes (take 8 h) :: u64) mod slots;
            base = pick * ha_band a;
            taken = map snd (ha_class_base a)
        in case probe taken (ha_band a) slots slots base of
             None \<Rightarrow> (Err OutOfMemory, a)
           | Some base \<Rightarrow> (Ok base, a\<lparr>ha_class_base := bt_insert cls base (ha_class_base a)\<rparr>))"

definition lay_out :: "nat \<Rightarrow> nat \<Rightarrow> bytes \<Rightarrow> bytes" where
  "lay_out start cls arena =
    (let arena = blit start (replicate GUARD CANARY) arena;
         user = start + GUARD;
         arena = blit user (replicate cls 0) arena
     in blit (user + cls) (replicate GUARD CANARY) arena)"

definition ha_alloc :: "u64 \<Rightarrow> hardened_allocator \<Rightarrow> ((alloc_fault + handle) \<times> hardened_allocator) option" where
  "ha_alloc sz a =
    map_option (\<lambda>cls.
      case base_of cls a of
        (Inl e, a) \<Rightarrow> (Err e, a)
      | (Inr base, a) \<Rightarrow>
         let stride = unat cls + 2 * GUARD;
             used = (case bt_get (ha_class_cursor a) cls of Some u \<Rightarrow> u | None \<Rightarrow> 0);
             start = base + used
         in if start + stride > length (ha_arena a) \<or> used + stride > ha_band a then (Err OutOfMemory, a)
            else
              let user = start + GUARD;
                  i = ha_next_id a;
                  gens = bt_or_insert i 0 (ha_generation a);
                  g = the (bt_get gens i);
                  m = \<lparr>m_offset = user, m_size = sz, m_generation = g, m_live = True\<rparr>
              in (Ok \<lparr>h_id = i, h_generation = g\<rparr>,
                  a\<lparr>ha_arena := lay_out start (unat cls) (ha_arena a),
                    ha_class_cursor := bt_insert cls (used + stride) (ha_class_cursor a),
                    ha_next_id := i + 1,
                    ha_generation := gens,
                    ha_meta := bt_insert i m (ha_meta a)\<rparr>))
      (size_class sz)"

definition ha_resolve :: "hardened_allocator \<Rightarrow> handle \<Rightarrow> alloc_fault + alloc_meta" where
  "ha_resolve a h =
    rbind (ok_or (bt_get (ha_meta a) (h_id h)) BadHandle) (\<lambda>m.
      if \<not> m_live m \<or> m_generation m \<noteq> h_generation h then Err UseAfterFree else Ok m)"

text \<open>\<^verbatim>\<open>offset.checked_add(len).map_or(true, |e| e > sz)\<close>.\<close>

definition out_of_range :: "u64 \<Rightarrow> u64 \<Rightarrow> u64 \<Rightarrow> bool" where
  "out_of_range offset len sz = (case checked_add offset len of None \<Rightarrow> True | Some e \<Rightarrow> e > sz)"

definition check_canaries :: "hardened_allocator \<Rightarrow> handle \<Rightarrow> (alloc_fault + unit) option" where
  "check_canaries a h =
    (case ha_resolve a h of
       Inl e \<Rightarrow> Some (Err e)
     | Inr m \<Rightarrow> map_option (\<lambda>cls.
         let pre = m_offset m - GUARD;
             post = m_offset m + unat cls;
             pre_ok = list_all (\<lambda>b. b = CANARY) (slice pre GUARD (ha_arena a));
             post_ok = list_all (\<lambda>b. b = CANARY) (slice post GUARD (ha_arena a))
         in if pre_ok \<and> post_ok then Ok () else Err CanaryCorrupted) (size_class (m_size m)))"

definition ha_write :: "handle \<Rightarrow> u64 \<Rightarrow> bytes \<Rightarrow> hardened_allocator \<Rightarrow>
    ((alloc_fault + unit) \<times> hardened_allocator) option" where
  "ha_write h offset data a =
    (case ha_resolve a h of
       Inl e \<Rightarrow> Some (Err e, a)
     | Inr m \<Rightarrow>
        if out_of_range offset (len_u64 data) (m_size m) then Some (Err AllocOutOfBounds, a)
        else map_option (\<lambda>r. case r of
               Inl e \<Rightarrow> (Err e, a)
             | Inr _ \<Rightarrow> (Ok (), a\<lparr>ha_arena := blit (m_offset m + unat offset) data (ha_arena a)\<rparr>))
             (check_canaries a h))"

definition ha_read :: "hardened_allocator \<Rightarrow> handle \<Rightarrow> u64 \<Rightarrow> u64 \<Rightarrow> alloc_fault + bytes" where
  "ha_read a h offset len =
    rbind (ha_resolve a h) (\<lambda>m.
      if out_of_range offset len (m_size m) then Err AllocOutOfBounds
      else Ok (slice (m_offset m + unat offset) (unat len) (ha_arena a)))"

definition ha_free :: "handle \<Rightarrow> hardened_allocator \<Rightarrow> ((alloc_fault + unit) \<times> hardened_allocator) option" where
  "ha_free h a =
    (case ha_resolve a h of
       Inl e \<Rightarrow> Some (Err e, a)
     | Inr m \<Rightarrow> map_option (\<lambda>cls.
         (Ok (),
          a\<lparr>ha_arena := blit (m_offset m) (replicate (unat cls) 0) (ha_arena a),
            ha_meta := bt_insert (h_id h) (m\<lparr>m_live := False\<rparr>) (ha_meta a),
            ha_generation := bt_insert (h_id h)
              ((case bt_get (ha_generation a) (h_id h) of Some g \<Rightarrow> g | None \<Rightarrow> 0) + 1) (ha_generation a)\<rparr>))
         (size_class (m_size m)))"

definition freed_region_is_wiped :: "hardened_allocator \<Rightarrow> nat \<Rightarrow> u64 \<Rightarrow> bool option" where
  "freed_region_is_wiped a offset sz =
    map_option (\<lambda>cls. list_all (\<lambda>b. b = 0) (slice offset (unat cls) (ha_arena a))) (size_class sz)"

definition class_base_for :: "u64 \<Rightarrow> hardened_allocator \<Rightarrow> ((alloc_fault + nat) \<times> hardened_allocator) option" where
  "class_base_for sz a = map_option (\<lambda>cls. base_of cls a) (size_class sz)"

subsection \<open>The size classes\<close>

lemma unat_power_two: "k < 64 \<Longrightarrow> unat (2 ^ k :: u64) = 2 ^ k"
proof -
  assume "k < 64"
  then have "(2 :: nat) ^ k < 2 ^ 64" by (intro power_strict_increasing) auto
  moreover have "(2 ^ k :: u64) = word_of_nat (2 ^ k)" by simp
  ultimately show ?thesis by (simp only: unat_of_nat) (simp add: take_bit_nat_eq_self)
qed

lemma shift_power: "push_bit 1 (2 ^ k :: u64) = 2 ^ Suc k"
  by (simp add: push_bit_eq_mult)

lemma size_class_loop_stop: "sz \<le> c \<Longrightarrow> size_class_loop sz c = Some c"
  by (subst size_class_loop.simps) (simp only: not_less [symmetric] if_False)

lemma size_class_loop_step: "2 ^ k < sz \<Longrightarrow> size_class_loop sz (2 ^ k) = size_class_loop sz (2 ^ Suc k)"
  by (subst size_class_loop.simps) (simp only: shift_power if_True)

lemma size_class_loop_power:
  assumes "unat sz \<le> 2 ^ 63" and "k \<le> 63"
  shows "\<exists>n. k \<le> n \<and> n \<le> 63 \<and> size_class_loop sz (2 ^ k) = Some (2 ^ n) \<and> unat sz \<le> 2 ^ n \<and>
    (n = k \<or> 2 ^ (n - 1) < unat sz)"
  using assms(2)
proof (induction "63 - k" arbitrary: k)
  case 0
  then have "k = 63" by simp
  then have "sz \<le> 2 ^ k" using assms(1) by (simp add: word_le_nat_alt unat_power_two)
  then show ?case using assms(1) \<open>k = 63\<close> by (intro exI [of _ 63]) (simp add: size_class_loop_stop)
next
  case (Suc j)
  show ?case
  proof (cases "sz \<le> 2 ^ k")
    case True
    have "unat sz \<le> 2 ^ k" using True Suc.hyps(2) by (simp add: word_le_nat_alt unat_power_two)
    then show ?thesis using Suc.prems size_class_loop_stop [OF True] by blast
  next
    case False
    then have big: "2 ^ k < sz" by simp
    have "j = 63 - Suc k" "Suc k \<le> 63" using Suc.hyps(2) by simp_all
    from Suc.hyps(1) [OF this] obtain n where "Suc k \<le> n" "n \<le> 63"
      "size_class_loop sz (2 ^ Suc k) = Some (2 ^ n)" "unat sz \<le> 2 ^ n" "n = Suc k \<or> 2 ^ (n - 1) < unat sz"
      by blast
    moreover have "2 ^ k < unat sz" using big Suc.hyps(2) by (simp add: word_less_nat_alt unat_power_two)
    ultimately show ?thesis using big
      by (intro exI [of _ n]) (auto simp: size_class_loop_step simp del: power_Suc)
  qed
qed

lemma size_class_Some:
  assumes "unat sz \<le> 2 ^ 63"
  obtains n where "size_class sz = Some (2 ^ n)" "4 \<le> n" "n \<le> 63" "unat sz \<le> 2 ^ n"
    "n = 4 \<or> 2 ^ (n - 1) < unat sz"
  using size_class_loop_power [OF assms, of 4] by (auto simp: size_class_def)

text \<open>Beyond the largest power of two the loop never ends: the shift runs into zero.\<close>

lemma unat_power_le: "unat (2 ^ k :: u64) \<le> 2 ^ 63"
proof (cases "k < 64")
  case True
  then have "(2 :: nat) ^ k \<le> 2 ^ 63" by (intro power_increasing) auto
  then show ?thesis using True by (simp add: unat_power_two)
next
  case False
  then have "(2 ^ k :: u64) = 0" by (simp add: exp_eq_zero_iff)
  then show ?thesis by (simp only: unsigned_0)
qed

lemma size_class_loop_diverges:
  "size_class_loop sz c = Some v \<Longrightarrow> 2 ^ 63 < unat sz \<Longrightarrow> c \<noteq> 2 ^ k"
proof (rule size_class_loop.raw_induct [where P = "\<lambda>sz c v. 2 ^ 63 < unat sz \<longrightarrow> (\<forall>k. c \<noteq> 2 ^ k)",
      THEN mp, THEN spec])
  fix loop :: "u64 \<Rightarrow> u64 \<Rightarrow> u64 option" and sz c v
  assume IH: "\<And>sz c v. loop sz c = Some v \<Longrightarrow> 2 ^ 63 < unat sz \<longrightarrow> (\<forall>k. c \<noteq> 2 ^ k)"
    and body: "(if c < sz then loop sz (push_bit 1 c) else Some c) = Some v"
  show "2 ^ 63 < unat sz \<longrightarrow> (\<forall>k. c \<noteq> 2 ^ k)"
  proof (intro impI allI notI)
    fix k
    assume sz: "2 ^ 63 < unat sz" and c: "c = 2 ^ k"
    have "c < sz" unfolding c word_less_nat_alt by (rule le_less_trans [OF unat_power_le sz])
    then have "loop sz (2 ^ Suc k) = Some v" using body c shift_power [of k] by (simp add: mult.commute)
    then show False using IH sz by blast
  qed
qed

lemma size_class_None:
  assumes "2 ^ 63 < unat sz"
  shows "size_class sz = None"
proof (cases "size_class sz")
  case (Some v)
  then show ?thesis using size_class_loop_diverges [OF _ assms, of 16 v 4] by (simp add: size_class_def)
qed simp

subsection \<open>Layout\<close>

definition cls_of :: "alloc_meta \<Rightarrow> nat" where
  "cls_of m = unat (the (size_class (m_size m)))"

text \<open>Where an allocation stands, guards included, and the separation of two of them.\<close>

definition placed :: "hardened_allocator \<Rightarrow> alloc_meta \<Rightarrow> bool" where
  "placed a m \<longleftrightarrow> (\<exists>cls b u. size_class (m_size m) = Some cls \<and> bt_get (ha_class_base a) cls = Some b \<and>
    bt_get (ha_class_cursor a) cls = Some u \<and> b + GUARD \<le> m_offset m \<and>
    m_offset m + unat cls + GUARD \<le> b + u)"

definition apart :: "alloc_meta \<Rightarrow> alloc_meta \<Rightarrow> bool" where
  "apart m m' \<longleftrightarrow> m_offset m + cls_of m + GUARD + GUARD \<le> m_offset m' \<or>
    m_offset m' + cls_of m' + GUARD + GUARD \<le> m_offset m"

definition guarded :: "bytes \<Rightarrow> alloc_meta \<Rightarrow> bool" where
  "guarded arena m \<longleftrightarrow>
    slice (m_offset m - GUARD) GUARD arena = replicate GUARD CANARY \<and>
    slice (m_offset m + cls_of m) GUARD arena = replicate GUARD CANARY"

definition bands_inv :: "hardened_allocator \<Rightarrow> bool" where
  "bands_inv a \<longleftrightarrow> 0 < ha_band a \<and>
    (\<forall>cls b. bt_get (ha_class_base a) cls = Some b \<longrightarrow> (\<exists>k < ha_slots a. b = k * ha_band a)) \<and>
    (\<forall>cls cls' b. bt_get (ha_class_base a) cls = Some b \<longrightarrow> bt_get (ha_class_base a) cls' = Some b \<longrightarrow> cls = cls') \<and>
    (\<forall>cls u. bt_get (ha_class_cursor a) cls = Some u \<longrightarrow> u \<le> ha_band a \<and>
      (\<exists>b. bt_get (ha_class_base a) cls = Some b \<and> b + u \<le> length (ha_arena a)))"

definition ha_inv :: "hardened_allocator \<Rightarrow> bool" where
  "ha_inv a \<longleftrightarrow> bands_inv a \<and>
    (\<forall>i m. bt_get (ha_meta a) i = Some m \<longrightarrow>
       unat i < unat (ha_next_id a) \<and> placed a m \<and> (m_live m \<longrightarrow> guarded (ha_arena a) m)) \<and>
    (\<forall>i i' m m'. bt_get (ha_meta a) i = Some m \<longrightarrow> bt_get (ha_meta a) i' = Some m' \<longrightarrow> i \<noteq> i' \<longrightarrow> apart m m')"

lemma size_class_bounds:
  assumes "size_class sz = Some cls"
  shows "unat sz \<le> unat cls" "16 \<le> unat cls"
proof -
  have "unat sz \<le> 2 ^ 63" using assms size_class_None [of sz] by (cases "2 ^ 63 < unat sz") auto
  then obtain n where n: "size_class sz = Some (2 ^ n)" "4 \<le> n" "n \<le> 63" "unat sz \<le> 2 ^ n"
    by (rule size_class_Some)
  then have "unat cls = 2 ^ n" using assms by (simp add: unat_power_two)
  moreover have "(2 :: nat) ^ 4 \<le> 2 ^ n" using n(2) by (intro power_increasing) auto
  ultimately show "unat sz \<le> unat cls" "16 \<le> unat cls" using n(4) by simp_all
qed

lemma probe_free_slot:
  assumes "probe taken band slots left base = Some b" and "k < slots" and "base = k * band"
  shows "b \<notin> set taken \<and> (\<exists>k < slots. b = k * band)"
  using assms
proof (induction left arbitrary: base k)
  case 0
  then show ?case by (auto split: if_splits)
next
  case (Suc left)
  show ?case
  proof (cases "base \<in> set taken")
    case True
    have "base + band = Suc k * band" using Suc.prems(3) by simp
    then have "(base + band) mod (slots * band) = (Suc k mod slots) * band"
      by (simp only: mult_mod_left)
    moreover have "Suc k mod slots < slots" using Suc.prems(2) by simp
    ultimately show ?thesis using Suc.IH [of "(base + band) mod (slots * band)"] Suc.prems(1) True by auto
  next
    case False
    then show ?thesis using Suc.prems by auto
  qed
qed

lemma ha_slots_pos: "0 < ha_slots a"
  by (simp add: ha_slots_def)

lemma base_of_cases:
  assumes "bands_inv a" and "base_of cls a = (r, a')"
  shows "(\<exists>e. r = Err e \<and> a' = a) \<or>
    (\<exists>b. r = Ok b \<and> bt_get (ha_class_base a') cls = Some b \<and> bands_inv a' \<and>
      (\<exists>bases. a' = a\<lparr>ha_class_base := bases\<rparr> \<and>
        (\<forall>c b. bt_get (ha_class_base a) c = Some b \<longrightarrow> bt_get bases c = Some b)))"
proof (cases "bt_get (ha_class_base a) cls")
  case (Some b)
  then show ?thesis using assms by (intro disjI2 exI [of _ b]) (auto simp: base_of_def intro!: exI [of _ "ha_class_base a"])
next
  case None
  define pick where "pick = unat (of_le_bytes (take 8 (hash_of (to_le_u64 (ha_seed a) @ to_le_u64 cls))) :: u64) mod ha_slots a"
  let ?p = "probe (map snd (ha_class_base a)) (ha_band a) (ha_slots a) (ha_slots a) (pick * ha_band a)"
  show ?thesis
  proof (cases ?p)
    case None
    then show ?thesis using assms(2) \<open>bt_get _ cls = None\<close> by (auto simp: base_of_def Let_def pick_def [symmetric])
  next
    case (Some b)
    have "pick < ha_slots a" using ha_slots_pos by (simp add: pick_def)
    then have b: "b \<notin> set (map snd (ha_class_base a))" "\<exists>k < ha_slots a. b = k * ha_band a"
      using probe_free_slot [OF Some] by auto
    have "b \<noteq> b'" if "bt_get (ha_class_base a) c = Some b'" for c b'
      using b(1) bt_get_SomeD [OF that] by force
    moreover have eq: "r = Ok b" "a' = a\<lparr>ha_class_base := bt_insert cls b (ha_class_base a)\<rparr>"
      using assms(2) None Some by (simp_all add: base_of_def Let_def pick_def [symmetric])
    ultimately have "bands_inv a'"
      using assms(1) b(2) None by (fastforce simp: bands_inv_def ha_slots_def)
    moreover have "\<forall>c b'. bt_get (ha_class_base a) c = Some b' \<longrightarrow> bt_get (bt_insert cls b (ha_class_base a)) c = Some b'"
      using None by auto
    ultimately show ?thesis using eq by (intro disjI2 exI [of _ b] conjI) auto
  qed
qed

subsection \<open>The heap it implements\<close>

text \<open>What a holder of handles can see: the buffer of each handle that resolves.\<close>

definition heap :: "hardened_allocator \<Rightarrow> handle \<Rightarrow> bytes option" where
  "heap a h = (case ha_resolve a h of
     Inl _ \<Rightarrow> None
   | Inr m \<Rightarrow> Some (slice (m_offset m) (unat (m_size m)) (ha_arena a)))"

lemma ha_resolve_Ok_iff:
  "ha_resolve a h = Ok m \<longleftrightarrow> bt_get (ha_meta a) (h_id h) = Some m \<and> m_live m \<and> m_generation m = h_generation h"
  by (auto simp: ha_resolve_def ok_or_def split: option.splits)

lemma out_of_range_iff: "out_of_range off len sz \<longleftrightarrow> unat sz < unat off + unat len"
proof (cases "checked_add off len")
  case None
  then have "2 ^ 64 \<le> unat off + unat len" by (simp add: checked_add_None_iff)
  moreover have "unat sz < 2 ^ 64" using unsigned_less [of sz] by simp
  ultimately show ?thesis using None by (simp add: out_of_range_def)
next
  case (Some e)
  then have "unat e = unat off + unat len" by (simp add: checked_add_Some_iff)
  then show ?thesis using Some by (simp add: out_of_range_def word_less_nat_alt)
qed

lemma placedE:
  assumes "placed a m" and "bands_inv a"
  obtains "GUARD \<le> m_offset m" "m_offset m + cls_of m + GUARD \<le> length (ha_arena a)"
    "unat (m_size m) \<le> cls_of m" "size_class (m_size m) \<noteq> None"
proof -
  obtain cls b u where p: "size_class (m_size m) = Some cls" "bt_get (ha_class_base a) cls = Some b"
    "bt_get (ha_class_cursor a) cls = Some u" "b + GUARD \<le> m_offset m" "m_offset m + unat cls + GUARD \<le> b + u"
    using assms(1) by (auto simp: placed_def)
  moreover have "b + u \<le> length (ha_arena a)"
    using assms(2) p(2,3) by (force simp: bands_inv_def)
  ultimately show ?thesis using that size_class_bounds(1) [OF p(1)] by (simp add: cls_of_def)
qed

lemma guarded_frame:
  assumes "guarded arena m" and "GUARD \<le> m_offset m" and "m_offset m + cls_of m + GUARD \<le> length arena"
    and "p + length src \<le> length arena"
    and "p + length src + GUARD \<le> m_offset m \<or> m_offset m \<le> p \<and> p + length src \<le> m_offset m + cls_of m \<or>
         m_offset m + cls_of m + GUARD \<le> p"
  shows "guarded (blit p src arena) m"
  using assms unfolding guarded_def
  by (subst (1 2) slice_blit_disjoint) (auto simp: GUARD_def)

text \<open>Overwriting part of one allocation leaves the others and all guards alone.\<close>

lemma poke_inv:
  assumes inv: "ha_inv a" and m: "bt_get (ha_meta a) i = Some m"
    and pos: "m_offset m \<le> p" "p + length src \<le> m_offset m + cls_of m"
    and same: "m_offset m' = m_offset m" "m_size m' = m_size m" "m_live m' \<longrightarrow> m_live m"
    and a': "ha_arena a' = blit p src (ha_arena a)" "bt_get (ha_meta a') = (bt_get (ha_meta a))(i \<mapsto> m')"
      "ha_class_base a' = ha_class_base a" "ha_class_cursor a' = ha_class_cursor a" "ha_next_id a' = ha_next_id a"
      "ha_band a' = ha_band a"
  shows "ha_inv a'"
    and "h_id h \<noteq> i \<Longrightarrow> heap a' h = heap a h"
proof -
  have bands: "bands_inv a" and pm: "placed a m" using inv m by (auto simp: ha_inv_def)
  have len: "m_offset m + cls_of m + GUARD \<le> length (ha_arena a)" by (rule placedE [OF pm bands])
  then have inside: "p + length src \<le> length (ha_arena a)" using pos by simp
  have alen: "length (ha_arena a') = length (ha_arena a)" using inside by (simp add: a')
  have cls: "cls_of m' = cls_of m" by (simp add: cls_of_def same)
  have bands': "bands_inv a'" using bands alen by (simp add: bands_inv_def ha_slots_def a')
  have meta': "\<exists>n. bt_get (ha_meta a) j = Some n \<and> m_offset n' = m_offset n \<and> m_size n' = m_size n \<and>
      (m_live n' \<longrightarrow> m_live n)" if "bt_get (ha_meta a') j = Some n'" for j n'
    using that m same by (cases "j = i") (auto simp: a')
  have sep: "p + length src + GUARD + GUARD \<le> m_offset n \<or> m_offset n + cls_of n + GUARD + GUARD \<le> p"
    if "bt_get (ha_meta a) j = Some n" "j \<noteq> i" for j n
  proof -
    have "apart m n" using inv m that by (auto simp: ha_inv_def)
    then show ?thesis using pos by (auto simp: apart_def)
  qed
  have guard': "guarded (ha_arena a') n'" if j: "bt_get (ha_meta a') j = Some n'" "m_live n'" for j n'
  proof -
    obtain n where n: "bt_get (ha_meta a) j = Some n" "m_offset n' = m_offset n" "m_size n' = m_size n" "m_live n"
      using meta' [OF j(1)] j(2) by auto
    have "guarded (ha_arena a) n" "placed a n" using inv n by (auto simp: ha_inv_def)
    then have "guarded (blit p src (ha_arena a)) n"
      using sep [OF n(1)] pos m n(1) by (intro guarded_frame inside; elim placedE [OF _ bands]) fastforce+
    then show ?thesis using n by (simp add: guarded_def cls_of_def a')
  qed
  show "ha_inv a'" unfolding ha_inv_def
  proof (intro conjI allI impI bands')
    fix j n'
    assume n': "bt_get (ha_meta a') j = Some n'"
    from meta' [OF this] obtain n where n: "bt_get (ha_meta a) j = Some n" "m_offset n' = m_offset n" "m_size n' = m_size n"
      by auto
    have "unat j < unat (ha_next_id a)" "placed a n" using inv n(1) by (auto simp: ha_inv_def)
    then show "unat j < unat (ha_next_id a')" "placed a' n'"
      by (auto simp: a' placed_def n(2,3))
    show "guarded (ha_arena a') n'" if "m_live n'" by (rule guard' [OF n' that])
  next
    fix j k n' l'
    assume jk: "bt_get (ha_meta a') j = Some n'" "bt_get (ha_meta a') k = Some l'" "j \<noteq> k"
    obtain n l where n: "bt_get (ha_meta a) j = Some n" "m_offset n' = m_offset n" "m_size n' = m_size n"
      and l: "bt_get (ha_meta a) k = Some l" "m_offset l' = m_offset l" "m_size l' = m_size l"
      using meta' [OF jk(1)] meta' [OF jk(2)] by auto
    have "apart n l" using inv n(1) l(1) jk(3) by (auto simp: ha_inv_def)
    then show "apart n' l'" by (simp add: apart_def cls_of_def n(2,3) l(2,3))
  qed
  show "heap a' h = heap a h" if "h_id h \<noteq> i"
  proof (cases "ha_resolve a h")
    case (Inl e)
    then show ?thesis using that by (simp add: heap_def ha_resolve_def a')
  next
    case (Inr n)
    then have n: "bt_get (ha_meta a) (h_id h) = Some n" by (simp add: ha_resolve_Ok_iff)
    then have "placed a n" using inv by (auto simp: ha_inv_def)
    then have "m_offset n + unat (m_size n) \<le> length (ha_arena a)" "unat (m_size n) \<le> cls_of n"
      by (auto elim!: placedE [OF _ bands])
    then have "slice (m_offset n) (unat (m_size n)) (blit p src (ha_arena a)) =
        slice (m_offset n) (unat (m_size n)) (ha_arena a)"
      using sep [OF n that] inside by (intro slice_blit_disjoint) auto
    moreover have "ha_resolve a' h = Ok n" using Inr that by (simp add: ha_resolve_Ok_iff a')
    ultimately show ?thesis using Inr by (simp add: heap_def a')
  qed
qed

lemma check_canaries_ok:
  assumes "ha_inv a" and "ha_resolve a h = Ok m"
  shows "check_canaries a h = Some (Ok ())"
proof -
  have m: "bt_get (ha_meta a) (h_id h) = Some m" "m_live m" using assms(2) by (auto simp: ha_resolve_Ok_iff)
  then have "guarded (ha_arena a) m" "placed a m" "bands_inv a" using assms(1) by (auto simp: ha_inv_def)
  then show ?thesis using assms(2)
    by (auto simp: check_canaries_def guarded_def cls_of_def list_all_iff elim!: placedE)
qed

lemma heap_SomeE:
  assumes "ha_inv a" and "heap a h = Some buf"
  obtains m where "ha_resolve a h = Ok m" "bt_get (ha_meta a) (h_id h) = Some m" "m_live m"
    "m_generation m = h_generation h" "buf = slice (m_offset m) (unat (m_size m)) (ha_arena a)"
    "length buf = unat (m_size m)" "unat (m_size m) \<le> cls_of m"
    "m_offset m + cls_of m \<le> length (ha_arena a)" "size_class (m_size m) \<noteq> None"
proof -
  obtain m where r: "ha_resolve a h = Ok m" and b: "buf = slice (m_offset m) (unat (m_size m)) (ha_arena a)"
    using assms(2) by (auto simp: heap_def split: sum.splits)
  then have m: "bt_get (ha_meta a) (h_id h) = Some m" "m_live m" "m_generation m = h_generation h"
    by (auto simp: ha_resolve_Ok_iff)
  then have "placed a m" "bands_inv a" using assms(1) by (auto simp: ha_inv_def)
  then obtain "GUARD \<le> m_offset m" "m_offset m + cls_of m + GUARD \<le> length (ha_arena a)"
    "unat (m_size m) \<le> cls_of m" "size_class (m_size m) \<noteq> None" by (rule placedE)
  then show ?thesis using that [OF r m b] b by simp
qed

lemma slice_blit_inside:
  assumes "off + length src \<le> n" and "p + n \<le> length xs"
  shows "slice p n (blit (p + off) src xs) = blit off src (slice p n xs)"
proof (rule nth_equalityI)
  show "length (slice p n (blit (p + off) src xs)) = length (blit off src (slice p n xs))"
    using assms by simp
  show "slice p n (blit (p + off) src xs) ! i = blit off src (slice p n xs) ! i"
    if "i < length (slice p n (blit (p + off) src xs))" for i
    using that assms by (auto simp: nth_slice nth_blit)
qed

lemma write_step:
  assumes inv: "ha_inv a" and data: "length data < 2 ^ 64"
  shows "case heap a h of
      None \<Rightarrow> \<exists>e. ha_write h off data a = Some (Err e, a) \<and> e \<in> {BadHandle, UseAfterFree}
    | Some buf \<Rightarrow> if unat off + length data \<le> length buf
        then \<exists>a'. ha_write h off data a = Some (Ok (), a') \<and> ha_inv a' \<and> ha_next_id a' = ha_next_id a \<and>
          heap a' = (heap a)(h \<mapsto> blit (unat off) data buf)
        else ha_write h off data a = Some (Err AllocOutOfBounds, a)"
proof (cases "heap a h")
  case None
  then show ?thesis
    by (auto simp: heap_def ha_write_def ha_resolve_def rbind_def ok_or_def split: sum.splits option.splits if_splits)
next
  case (Some buf)
  obtain m where m: "ha_resolve a h = Ok m" "bt_get (ha_meta a) (h_id h) = Some m" "m_live m"
    "m_generation m = h_generation h" "buf = slice (m_offset m) (unat (m_size m)) (ha_arena a)"
    "length buf = unat (m_size m)" "unat (m_size m) \<le> cls_of m" "m_offset m + cls_of m \<le> length (ha_arena a)"
    by (rule heap_SomeE [OF inv Some])
  define a' where "a' = a\<lparr>ha_arena := blit (m_offset m + unat off) data (ha_arena a)\<rparr>"
  show ?thesis
  proof (cases "unat off + length data \<le> length buf")
    case True
    have "ha_write h off data a = Some (Ok (), a')"
      using m(1,6) True data by (simp add: ha_write_def out_of_range_iff unat_len_u64 check_canaries_ok [OF inv m(1)] a'_def)
    moreover have "ha_inv a'"
      by (rule poke_inv(1) [OF inv m(2), of "m_offset m + unat off" data m])
        (use True m in \<open>auto simp: a'_def fun_eq_iff\<close>)
    moreover have "heap a' h' = heap a h'" if "h_id h' \<noteq> h_id h" for h'
      by (rule poke_inv(2) [OF inv m(2), of "m_offset m + unat off" data m])
        (use True m that in \<open>auto simp: a'_def fun_eq_iff\<close>)
    moreover have "heap a' h = Some (blit (unat off) data buf)"
      using m True by (simp add: heap_def ha_resolve_def a'_def slice_blit_inside)
    moreover have "heap a' h' = heap a h'" if "h_id h' = h_id h" "h' \<noteq> h" for h'
    proof -
      have "h_generation h' \<noteq> h_generation h" using that by (cases h; cases h') auto
      then show ?thesis using that m by (simp add: heap_def ha_resolve_def a'_def)
    qed
    ultimately show ?thesis using True Some by (auto simp: a'_def fun_eq_iff)
  next
    case False
    then show ?thesis using m(1,6) data Some by (simp add: ha_write_def out_of_range_iff unat_len_u64)
  qed
qed

lemma free_step:
  assumes inv: "ha_inv a"
  shows "case heap a h of
      None \<Rightarrow> \<exists>e. ha_free h a = Some (Err e, a) \<and> e \<in> {BadHandle, UseAfterFree}
    | Some buf \<Rightarrow> \<exists>a' m. ha_free h a = Some (Ok (), a') \<and> ha_inv a' \<and> ha_next_id a' = ha_next_id a \<and>
        heap a' = (heap a)(h := None) \<and> ha_resolve a h = Ok m \<and>
        freed_region_is_wiped a' (m_offset m) (m_size m) = Some True \<and>
        bt_get (ha_meta a') (h_id h) = Some (m\<lparr>m_live := False\<rparr>)"
proof (cases "heap a h")
  case None
  then show ?thesis
    by (auto simp: heap_def ha_free_def ha_resolve_def rbind_def ok_or_def split: sum.splits option.splits if_splits)
next
  case (Some buf)
  obtain m where m: "ha_resolve a h = Ok m" "bt_get (ha_meta a) (h_id h) = Some m" "m_live m"
    "m_generation m = h_generation h" "m_offset m + cls_of m \<le> length (ha_arena a)" "size_class (m_size m) \<noteq> None"
    by (rule heap_SomeE [OF inv Some])
  obtain cls where cls: "size_class (m_size m) = Some cls" using m(6) by auto
  then have c: "cls_of m = unat cls" by (simp add: cls_of_def)
  obtain a' where a': "ha_free h a = Some (Ok (), a')" "ha_arena a' = blit (m_offset m) (replicate (unat cls) 0) (ha_arena a)"
    "ha_meta a' = bt_insert (h_id h) (m\<lparr>m_live := False\<rparr>) (ha_meta a)" "ha_class_base a' = ha_class_base a"
    "ha_class_cursor a' = ha_class_cursor a" "ha_next_id a' = ha_next_id a" "ha_band a' = ha_band a"
    using m(1) cls by (simp add: ha_free_def)
  have "ha_inv a'"
    by (rule poke_inv(1) [OF inv m(2), of "m_offset m" "replicate (unat cls) 0" "m\<lparr>m_live := False\<rparr>"])
      (simp_all add: a' c)
  moreover have "heap a' h' = heap a h'" if "h_id h' \<noteq> h_id h" for h'
    by (rule poke_inv(2) [OF inv m(2), of "m_offset m" "replicate (unat cls) 0" "m\<lparr>m_live := False\<rparr>"])
      (simp_all add: a' c that)
  moreover have "heap a' h' = None \<and> (h' \<noteq> h \<longrightarrow> heap a h' = None)" if "h_id h' = h_id h" for h'
  proof -
    have "h' \<noteq> h \<Longrightarrow> h_generation h' \<noteq> h_generation h" using that by (cases h; cases h') auto
    then show ?thesis using that m(2,4) by (cases "h' = h") (simp_all add: heap_def ha_resolve_def a'(3))
  qed
  moreover have "freed_region_is_wiped a' (m_offset m) (m_size m) = Some True"
  proof -
    have "slice (m_offset m) (length (replicate (unat cls) (0 :: u8))) (blit (m_offset m) (replicate (unat cls) 0) (ha_arena a))
        = replicate (unat cls) 0"
      by (rule slice_blit_same) (use m(5) c in simp)
    then show ?thesis by (simp add: freed_region_is_wiped_def cls a'(2) list_all_iff)
  qed
  moreover have "heap a' x = ((heap a)(h := None)) x" for x
    using calculation(2,3) [of x] by (cases "h_id x = h_id h") auto
  then have "heap a' = (heap a)(h := None)" by (rule ext)
  ultimately show ?thesis using Some a'(1,3,6) m(1) by auto
qed

lemma lay_out_eq:
  assumes "start + cls + 2 * GUARD \<le> length arena"
  shows "lay_out start cls arena =
    blit start (replicate GUARD CANARY @ replicate cls 0 @ replicate GUARD CANARY) arena"
  using assms by (simp add: lay_out_def Let_def blit_def add_ac)

lemma lay_out_slices:
  assumes "start + cls + 2 * GUARD \<le> length arena"
  shows "slice start GUARD (lay_out start cls arena) = replicate GUARD CANARY"
    "slice (start + GUARD) cls (lay_out start cls arena) = replicate cls 0"
    "slice (start + GUARD + cls) GUARD (lay_out start cls arena) = replicate GUARD CANARY"
  using assms by (simp_all add: lay_out_eq blit_def slice_def)

lemma bands_disjoint:
  fixes k k' band :: nat
  assumes "k * band \<noteq> k' * band"
  shows "k * band + band \<le> k' * band \<or> k' * band + band \<le> k * band"
proof (cases "k < k'")
  case True
  then have "Suc k * band \<le> k' * band" by (intro mult_le_mono1) simp
  then show ?thesis by simp
next
  case False
  then have "Suc k' * band \<le> k * band" using assms by (intro mult_le_mono1) (metis linorder_neqE_nat Suc_leI)
  then show ?thesis by simp
qed

text \<open>The stretch of the arena that a successful allocation takes is new.\<close>

lemma fresh_region:
  assumes inv: "ha_inv a" and bands: "bands_inv a" and m: "bt_get (ha_meta a) i = Some m"
    and base: "bt_get (ha_class_base a) cls = Some b"
    and used: "used = (case bt_get (ha_class_cursor a) cls of Some u \<Rightarrow> u | None \<Rightarrow> 0)"
    and fits: "used + stride \<le> ha_band a"
  shows "m_offset m + cls_of m + GUARD \<le> b + used \<or> b + used + stride + GUARD \<le> m_offset m"
proof -
  have "placed a m" using inv m by (auto simp: ha_inv_def)
  then obtain cls' b' u' where p: "size_class (m_size m) = Some cls'" "bt_get (ha_class_base a) cls' = Some b'"
    "bt_get (ha_class_cursor a) cls' = Some u'" "b' + GUARD \<le> m_offset m" "m_offset m + unat cls' + GUARD \<le> b' + u'"
    by (auto simp: placed_def)
  have u': "u' \<le> ha_band a" using bands p(3) by (auto simp: bands_inv_def)
  show ?thesis
  proof (cases "cls' = cls")
    case True
    then show ?thesis using p base used by (simp add: cls_of_def)
  next
    case False
    obtain k k' where k: "b = k * ha_band a" "b' = k' * ha_band a"
      using bands base p(2) by (fastforce simp: bands_inv_def)
    have "b \<noteq> b'" using bands base p(2) False by (auto simp: bands_inv_def)
    then have "b + ha_band a \<le> b' \<or> b' + ha_band a \<le> b" using bands_disjoint k by simp
    then show ?thesis using p(1,4,5) u' fits by (auto simp: cls_of_def)
  qed
qed

lemma ha_inv_class_base:
  assumes "ha_inv a" and "bands_inv (a\<lparr>ha_class_base := bases\<rparr>)"
    and "\<forall>c b. bt_get (ha_class_base a) c = Some b \<longrightarrow> bt_get bases c = Some b"
  shows "ha_inv (a\<lparr>ha_class_base := bases\<rparr>)" "heap (a\<lparr>ha_class_base := bases\<rparr>) = heap a"
proof -
  have "placed (a\<lparr>ha_class_base := bases\<rparr>) m" if "placed a m" for m
    using that assms(3) by (fastforce simp: placed_def)
  then show "ha_inv (a\<lparr>ha_class_base := bases\<rparr>)" using assms(1,2) by (simp add: ha_inv_def)
  show "heap (a\<lparr>ha_class_base := bases\<rparr>) = heap a"
    by (simp add: fun_eq_iff heap_def ha_resolve_def split: sum.split)
qed

lemma alloc_place:
  assumes inv: "ha_inv a" and cls: "size_class sz = Some cls"
    and base: "bt_get (ha_class_base a) cls = Some b"
    and used: "used = (case bt_get (ha_class_cursor a) cls of Some u \<Rightarrow> u | None \<Rightarrow> 0)"
    and fits: "b + used + (unat cls + 2 * GUARD) \<le> length (ha_arena a)" "used + (unat cls + 2 * GUARD) \<le> ha_band a"
    and ids: "unat (ha_next_id a) < 2 ^ 64 - 1"
    and m: "m = \<lparr>m_offset = b + used + GUARD, m_size = sz, m_generation = g, m_live = True\<rparr>"
    and a': "ha_arena a' = lay_out (b + used) (unat cls) (ha_arena a)"
      "ha_class_cursor a' = bt_insert cls (used + (unat cls + 2 * GUARD)) (ha_class_cursor a)"
      "ha_next_id a' = ha_next_id a + 1" "ha_meta a' = bt_insert (ha_next_id a) m (ha_meta a)"
      "ha_class_base a' = ha_class_base a" "ha_band a' = ha_band a"
    and h: "h = \<lparr>h_id = ha_next_id a, h_generation = g\<rparr>"
  shows "ha_inv a' \<and> heap a h = None \<and> heap a' = (heap a)(h \<mapsto> replicate (unat sz) 0)"
proof -
  let ?i = "ha_next_id a" and ?new = "replicate GUARD CANARY @ replicate (unat cls) 0 @ replicate GUARD CANARY"
  have bands: "bands_inv a" using inv by (simp add: ha_inv_def)
  have fit: "b + used + unat cls + 2 * GUARD \<le> length (ha_arena a)" using fits(1) by simp
  have arena: "ha_arena a' = blit (b + used) ?new (ha_arena a)" using fit by (simp add: a'(1) lay_out_eq)
  have fresh: "bt_get (ha_meta a) ?i = None"
  proof (cases "bt_get (ha_meta a) ?i")
    case (Some n)
    then have "unat ?i < unat ?i" using inv by (auto simp: ha_inv_def)
    then show ?thesis by simp
  qed
  have next_id: "unat (?i + 1) = unat ?i + 1"
    using ids by (simp add: unat_word_ariths)
  have alen: "length (ha_arena a') = length (ha_arena a)" using fit by (simp add: arena)
  have "ha_slots a' = ha_slots a" by (simp add: ha_slots_def alen a'(6))
  then have bands': "bands_inv a'" using bands base fits unfolding bands_inv_def
    by (simp add: a'(2,5,6) alen)
  have region: "m_offset n + cls_of n + GUARD \<le> b + used \<or> b + used + (unat cls + 2 * GUARD) + GUARD \<le> m_offset n"
    if "bt_get (ha_meta a) j = Some n" for j n
    by (rule fresh_region [OF inv bands that base used fits(2)])
  have cm: "cls_of m = unat cls" by (simp add: cls_of_def m cls)
  have new: "placed a' m" "guarded (ha_arena a') m"
    using cls base lay_out_slices [OF fit]
    by (auto simp: placed_def m a' guarded_def cls_of_def add_ac)
  have old: "unat j < unat ?i \<and> placed a' n \<and> (m_live n \<longrightarrow> guarded (ha_arena a') n)"
    if "bt_get (ha_meta a) j = Some n" for j n
  proof -
    have n: "unat j < unat ?i" "placed a n" "m_live n \<longrightarrow> guarded (ha_arena a) n" using inv that by (auto simp: ha_inv_def)
    have "placed a' n" using n(2) base used by (auto simp: placed_def a' split: option.splits)
    moreover obtain "GUARD \<le> m_offset n" "m_offset n + cls_of n + GUARD \<le> length (ha_arena a)"
      by (rule placedE [OF n(2) bands])
    then have "guarded (ha_arena a') n" if "m_live n"
      unfolding arena using n(3) that region [OF \<open>bt_get (ha_meta a) j = Some n\<close>] fit
      by (intro guarded_frame) auto
    ultimately show ?thesis using n(1) by blast
  qed
  have apart: "apart m n \<and> apart n m" if "bt_get (ha_meta a) j = Some n" for j n
    using region [OF that] by (auto simp: apart_def cm) (auto simp: m)
  have "ha_inv a'" unfolding ha_inv_def
  proof (intro conjI allI impI bands')
    fix j n
    assume j: "bt_get (ha_meta a') j = Some n"
    show "unat j < unat (ha_next_id a')" "placed a' n"
      using j old new by (auto simp: a'(3,4) next_id split: if_splits dest: less_SucI)
    show "guarded (ha_arena a') n" if "m_live n" using j that old new by (auto simp: a'(4) split: if_splits)
  next
    fix j k n l
    assume "bt_get (ha_meta a') j = Some n" "bt_get (ha_meta a') k = Some l" "j \<noteq> k"
    then show "apart n l" using apart inv by (auto simp: a'(4) ha_inv_def split: if_splits)
  qed
  moreover have "heap a h = None" using fresh by (simp add: heap_def ha_resolve_def h)
  moreover have "heap a' x = ((heap a)(h \<mapsto> replicate (unat sz) 0)) x" for x
  proof (cases "h_id x = ?i")
    case True
    have "slice (b + used + GUARD) (unat sz) (ha_arena a') = replicate (unat sz) 0"
    proof -
      have "slice 0 (unat sz) (slice (b + used + GUARD) (unat cls) (ha_arena a')) = replicate (unat sz) 0"
        unfolding a'(1) lay_out_slices [OF fit] using size_class_bounds(1) [OF cls] by (simp add: slice_def min_def)
      then show ?thesis using size_class_bounds(1) [OF cls] by (simp add: slice_def min_def)
    qed
    then show ?thesis using True fresh
      by (cases x) (auto simp: heap_def ha_resolve_def a'(4) m h)
  next
    case False
    then have "x \<noteq> h" by (auto simp: h)
    moreover have "heap a' x = heap a x"
    proof (cases "ha_resolve a x")
      case (Inl e)
      then show ?thesis using False by (simp add: heap_def ha_resolve_def a'(4))
    next
      case (Inr n)
      then have n: "bt_get (ha_meta a) (h_id x) = Some n" by (simp add: ha_resolve_Ok_iff)
      then have pn: "placed a n" using inv by (auto simp: ha_inv_def)
      obtain "m_offset n + cls_of n + GUARD \<le> length (ha_arena a)" "unat (m_size n) \<le> cls_of n"
        by (rule placedE [OF pn bands])
      then have "slice (m_offset n) (unat (m_size n)) (ha_arena a') = slice (m_offset n) (unat (m_size n)) (ha_arena a)"
        unfolding arena using region [OF n] fit by (intro slice_blit_disjoint) auto
      moreover have "ha_resolve a' x = Ok n" using Inr False by (simp add: ha_resolve_Ok_iff a'(4))
      ultimately show ?thesis using Inr by (simp add: heap_def)
    qed
    ultimately show ?thesis by simp
  qed
  ultimately show ?thesis by blast
qed

lemma alloc_step:
  assumes inv: "ha_inv a" and ids: "unat (ha_next_id a) < 2 ^ 64 - 1" and run: "ha_alloc sz a = Some (r, a')"
  shows "ha_inv a' \<and> unat (ha_next_id a') \<le> unat (ha_next_id a) + 1 \<and>
    (case r of Inl e \<Rightarrow> e = OutOfMemory \<and> heap a' = heap a
     | Inr h \<Rightarrow> heap a h = None \<and> heap a' = (heap a)(h \<mapsto> replicate (unat sz) 0)) \<and>
    (\<forall>i m. bt_get (ha_meta a) i = Some m \<longrightarrow> bt_get (ha_meta a') i = Some m)"
proof -
  obtain cls where cls: "size_class sz = Some cls" using run by (auto simp: ha_alloc_def)
  obtain q a1 where b: "base_of cls a = (q, a1)" by (cases "base_of cls a")
  have bands: "bands_inv a" using inv by (simp add: ha_inv_def)
  show ?thesis
  proof (cases q)
    case (Inl e)
    moreover have "a1 = a" using base_of_cases [OF bands b] Inl by auto
    moreover have "e = OutOfMemory"
      using b Inl by (auto simp: base_of_def Let_def split: option.splits)
    ultimately show ?thesis using run cls b inv by (auto simp: ha_alloc_def)
  next
    case (Inr base)
    obtain bases where a1: "a1 = a\<lparr>ha_class_base := bases\<rparr>" "bands_inv a1" "bt_get bases cls = Some base"
      "\<forall>c b. bt_get (ha_class_base a) c = Some b \<longrightarrow> bt_get bases c = Some b"
      using base_of_cases [OF bands b] Inr by auto
    have inv1: "ha_inv a1" and heap1: "heap a1 = heap a"
      using ha_inv_class_base [OF inv] a1 by auto
    let ?used = "case bt_get (ha_class_cursor a1) cls of Some u \<Rightarrow> u | None \<Rightarrow> 0"
    show ?thesis
    proof (cases "base + ?used + (unat cls + 2 * GUARD) > length (ha_arena a1) \<or> ?used + (unat cls + 2 * GUARD) > ha_band a1")
      case True
      then have "r = Err OutOfMemory" "a' = a1" using run cls b Inr by (auto simp: ha_alloc_def Let_def)
      then show ?thesis using inv1 heap1 a1(1) by simp
    next
      case False
      define g where "g = the (bt_get (bt_or_insert (ha_next_id a1) 0 (ha_generation a1)) (ha_next_id a1))"
      define m where "m = \<lparr>m_offset = base + ?used + GUARD, m_size = sz, m_generation = g, m_live = True\<rparr>"
      have r: "r = Ok \<lparr>h_id = ha_next_id a1, h_generation = g\<rparr>"
        and a': "ha_arena a' = lay_out (base + ?used) (unat cls) (ha_arena a1)"
          "ha_class_cursor a' = bt_insert cls (?used + (unat cls + 2 * GUARD)) (ha_class_cursor a1)"
          "ha_next_id a' = ha_next_id a1 + 1" "ha_meta a' = bt_insert (ha_next_id a1) m (ha_meta a1)"
          "ha_class_base a' = ha_class_base a1" "ha_band a' = ha_band a1"
        using run cls b Inr False by (auto simp: ha_alloc_def Let_def g_def m_def)
      have "ha_inv a' \<and> heap a1 \<lparr>h_id = ha_next_id a1, h_generation = g\<rparr> = None \<and>
          heap a' = (heap a1)(\<lparr>h_id = ha_next_id a1, h_generation = g\<rparr> \<mapsto> replicate (unat sz) 0)"
        by (rule alloc_place [OF inv1 cls _ refl _ _ _ m_def a' refl]) (use a1 False ids in auto)
      moreover have "unat (ha_next_id a1 + 1) \<le> unat (ha_next_id a) + 1"
        by (simp add: a1(1) unat_word_ariths)
      moreover have "i \<noteq> ha_next_id a" if "bt_get (ha_meta a) i = Some n" for i n
        using inv that by (auto simp: ha_inv_def)
      ultimately show ?thesis using r heap1 by (auto simp: a'(3,4) a1(1))
    qed
  qed
qed

subsection \<open>Histories\<close>

datatype ha_op =
    OpAlloc u64
  | OpWrite handle u64 bytes
  | OpFree handle
  | OpClassBase u64

text \<open>One call; \<open>None\<close> when it does not return.  A byte slice is shorter than the address space.\<close>

fun ha_exec :: "hardened_allocator \<Rightarrow> ha_op \<Rightarrow> hardened_allocator option" where
  "ha_exec a (OpAlloc sz) = map_option snd (ha_alloc sz a)"
| "ha_exec a (OpWrite h off data) = (if length data < 2 ^ 64 then map_option snd (ha_write h off data a) else Some a)"
| "ha_exec a (OpFree h) = map_option snd (ha_free h a)"
| "ha_exec a (OpClassBase sz) = map_option snd (class_base_for sz a)"

fun ha_run :: "hardened_allocator \<Rightarrow> ha_op list \<Rightarrow> hardened_allocator option" where
  "ha_run a [] = Some a"
| "ha_run a (op # ops) = Option.bind (ha_exec a op) (\<lambda>a. ha_run a ops)"

lemma class_base_step:
  assumes "ha_inv a" and "class_base_for sz a = Some (r, a')"
  shows "ha_inv a' \<and> heap a' = heap a \<and> ha_next_id a' = ha_next_id a \<and> ha_meta a' = ha_meta a"
proof -
  have "bands_inv a" using assms(1) by (simp add: ha_inv_def)
  moreover obtain cls where "base_of cls a = (r, a')" using assms(2) by (auto simp: class_base_for_def)
  ultimately consider (same) "a' = a" |
    (ext) bases where "a' = a\<lparr>ha_class_base := bases\<rparr>" "bands_inv a'"
      "\<forall>c b. bt_get (ha_class_base a) c = Some b \<longrightarrow> bt_get bases c = Some b"
    using base_of_cases by blast
  then show ?thesis
    by cases (use assms(1) ha_inv_class_base [OF assms(1)] in auto)
qed

text \<open>A freed allocation stays in the table, dead.\<close>

definition dead :: "hardened_allocator \<Rightarrow> handle \<Rightarrow> bool" where
  "dead a h \<longleftrightarrow> (\<exists>m. bt_get (ha_meta a) (h_id h) = Some m \<and> \<not> m_live m)"

lemma dead_resolve: "dead a h \<Longrightarrow> ha_resolve a h = Err UseAfterFree"
  by (auto simp: dead_def ha_resolve_def)

lemma exec_inv:
  assumes inv: "ha_inv a" and ids: "unat (ha_next_id a) < 2 ^ 64 - 1" and run: "ha_exec a op = Some a'"
  shows "ha_inv a' \<and> unat (ha_next_id a') \<le> unat (ha_next_id a) + 1 \<and> (dead a h \<longrightarrow> dead a' h)"
proof (cases op)
  case (OpAlloc sz)
  then obtain r where r: "ha_alloc sz a = Some (r, a')" using run by auto
  then show ?thesis using alloc_step [OF inv ids r] by (auto simp: dead_def)
next
  case (OpWrite h' off data)
  then have "a' = a \<or> (\<exists>r. length data < 2 ^ 64 \<and> ha_write h' off data a = Some (r, a'))"
    using run by (auto split: if_splits)
  then show ?thesis
  proof
    assume "\<exists>r. length data < 2 ^ 64 \<and> ha_write h' off data a = Some (r, a')"
    then obtain r where r: "length data < 2 ^ 64" "ha_write h' off data a = Some (r, a')" by blast
    have "ha_inv a' \<and> ha_next_id a' = ha_next_id a"
      using write_step [OF inv r(1), of h' off] r(2) inv by (auto split: option.splits if_splits)
    moreover have "ha_meta a' = ha_meta a"
      using r(2) check_canaries_ok [OF inv] by (auto simp: ha_write_def split: sum.splits if_splits)
    ultimately show ?thesis by (simp add: dead_def)
  qed (use inv in simp)
next
  case (OpFree h')
  then obtain r where r: "ha_free h' a = Some (r, a')" using run by auto
  have "ha_inv a' \<and> ha_next_id a' = ha_next_id a"
    using free_step [OF inv, of h'] r inv by (auto split: option.splits)
  moreover have "dead a h \<longrightarrow> dead a' h"
    using r by (auto simp: ha_free_def dead_def split: sum.splits)
  ultimately show ?thesis by simp
next
  case (OpClassBase sz)
  then obtain r where "class_base_for sz a = Some (r, a')" using run by auto
  then show ?thesis using class_base_step [OF inv] by (auto simp: dead_def)
qed

lemma ha_inv_new: "ha_inv (ha_new n seed)"
  by (simp add: ha_inv_def ha_new_def bands_inv_def)

lemma run_inv:
  assumes "ha_inv a" and "unat (ha_next_id a) + length ops \<le> 2 ^ 64 - 1" and "ha_run a ops = Some a'"
  shows "ha_inv a' \<and> unat (ha_next_id a') \<le> unat (ha_next_id a) + length ops \<and> (dead a h \<longrightarrow> dead a' h)"
  using assms
proof (induction ops arbitrary: a)
  case (Cons op ops)
  obtain b where b: "ha_exec a op = Some b" "ha_run b ops = Some a'"
    using Cons.prems(3) by (auto simp: bind_eq_Some_conv)
  have "ha_inv b \<and> unat (ha_next_id b) \<le> unat (ha_next_id a) + 1 \<and> (dead a h \<longrightarrow> dead b h)"
    using Cons.prems by (intro exec_inv [OF _ _ b(1)]) auto
  then show ?case using Cons.IH [OF _ _ b(2)] Cons.prems(2) by auto
qed auto

lemma run_new:
  assumes "ha_run (ha_new n seed) ops = Some a" and "length ops < 2 ^ 64 - 1"
  shows "ha_inv a \<and> unat (ha_next_id a) \<le> 1 + length ops"
proof -
  have "unat (ha_next_id (ha_new n seed)) = 1" by (simp add: ha_new_def)
  then show ?thesis using run_inv [OF ha_inv_new _ assms(1)] assms(2) by (simp add: Suc_le_eq)
qed

subsection \<open>Properties\<close>

text \<open>
  \<^verbatim>\<open>size_class\<close> terminates exactly for sizes up to 2 to the power of 63, and then yields the
  least power of two that is at least 16 and at least the size; for larger sizes the shift loop of
  the source never ends.
\<close>

theorem size_class_termination:
  "(size_class sz = None \<longleftrightarrow> 2 ^ 63 < unat sz) \<and>
   (\<forall>cls. size_class sz = Some cls \<longrightarrow>
      unat cls = (LEAST c. (\<exists>k. c = 2 ^ k) \<and> 16 \<le> c \<and> unat sz \<le> c))"
proof (cases "2 ^ 63 < unat sz")
  case True
  then show ?thesis by (simp add: size_class_None)
next
  case False
  then obtain n where n: "size_class sz = Some (2 ^ n)" "4 \<le> n" "n \<le> 63" "unat sz \<le> 2 ^ n"
    "n = 4 \<or> 2 ^ (n - 1) < unat sz" using size_class_Some [of sz] by auto
  have "(LEAST c. (\<exists>k. c = 2 ^ k) \<and> 16 \<le> c \<and> unat sz \<le> c) = 2 ^ n"
  proof (rule Least_equality)
    have "(2 :: nat) ^ 4 \<le> 2 ^ n" using n(2) by (intro power_increasing) auto
    then show "(\<exists>k. (2 :: nat) ^ n = 2 ^ k) \<and> 16 \<le> (2 :: nat) ^ n \<and> unat sz \<le> 2 ^ n" using n(4) by auto
  next
    fix c :: nat
    assume c: "(\<exists>k. c = 2 ^ k) \<and> 16 \<le> c \<and> unat sz \<le> c"
    then obtain k where k: "c = 2 ^ k" by blast
    have "n \<le> k"
    proof (rule ccontr)
      assume "\<not> n \<le> k"
      then have "c \<le> 2 ^ (n - 1)" unfolding k by (intro power_increasing) auto
      moreover have "n = 4 \<Longrightarrow> (2 :: nat) ^ (n - 1) < 16" by simp
      ultimately show False using c n(5) by linarith
    qed
    then show "2 ^ n \<le> c" unfolding k by (intro power_increasing) auto
  qed
  then show ?thesis using n(1,3) False by (simp add: unat_power_two)
qed

theorem size_class_termination_witness:
  "size_class 100 = Some 128 \<and> size_class (- 1) = None"
proof -
  have "2 ^ 63 < unat (- 1 :: u64)" by (simp add: unsigned_minus_1_eq_mask mask_eq_exp_minus_1)
  then have "size_class (- 1) = None" using size_class_termination [of "- 1"] by blast
  moreover have "size_class_loop 100 16 = Some 128"
    by (simp add: size_class_loop.simps)
  ultimately show ?thesis by (simp add: size_class_def)
qed

text \<open>
  C15: The allocator implements a heap of separate buffers.  After any sequence of calls that
  returned (fewer than 2 to the power of 64 minus 1 of them): an allocation yields a new handle to a
  zeroed buffer of the requested size or reports that memory is out; a write within the bounds of a
  live handle always succeeds and changes just these bytes of that buffer, and a read returns just
  the bytes asked for; out-of-range accesses are refused; freeing drops just that handle and wipes
  its bytes.  A canary is never found corrupted.
\<close>

theorem allocator_refines_heap:
  assumes "ha_run (ha_new n seed) ops = Some a" and "length ops < 2 ^ 64 - 2"
    and "length data < 2 ^ 64" and "heap a h = Some buf"
  shows "(\<forall>r a'. ha_alloc sz a = Some (r, a') \<longrightarrow>
      (r = Err OutOfMemory \<and> heap a' = heap a) \<or>
      (\<exists>h'. r = Ok h' \<and> heap a h' = None \<and> heap a' = (heap a)(h' \<mapsto> replicate (unat sz) 0))) \<and>
    (if unat off + length data \<le> length buf
     then \<exists>a'. ha_write h off data a = Some (Ok (), a') \<and> heap a' = (heap a)(h \<mapsto> blit (unat off) data buf)
     else ha_write h off data a = Some (Err AllocOutOfBounds, a)) \<and>
    ha_read a h off len = (if unat off + unat len \<le> length buf then Ok (slice (unat off) (unat len) buf)
                           else Err AllocOutOfBounds) \<and>
    (\<exists>a' m. ha_free h a = Some (Ok (), a') \<and> heap a' = (heap a)(h := None) \<and> ha_resolve a h = Ok m \<and>
       freed_region_is_wiped a' (m_offset m) (m_size m) = Some True)"
proof (intro conjI allI impI)
  have inv: "ha_inv a" and ids: "unat (ha_next_id a) < 2 ^ 64 - 1"
    using run_new [OF assms(1)] assms(2) by auto
  show "(r = Err OutOfMemory \<and> heap a' = heap a) \<or>
      (\<exists>h'. r = Ok h' \<and> heap a h' = None \<and> heap a' = (heap a)(h' \<mapsto> replicate (unat sz) 0))"
    if "ha_alloc sz a = Some (r, a')" for r a'
    using alloc_step [OF inv ids that] by (cases r) auto
  show "if unat off + length data \<le> length buf
     then \<exists>a'. ha_write h off data a = Some (Ok (), a') \<and> heap a' = (heap a)(h \<mapsto> blit (unat off) data buf)
     else ha_write h off data a = Some (Err AllocOutOfBounds, a)"
    using write_step [OF inv assms(3), of h off] assms(4) by (auto split: if_splits)
  show "ha_read a h off len = (if unat off + unat len \<le> length buf then Ok (slice (unat off) (unat len) buf)
      else Err AllocOutOfBounds)"
  proof (rule heap_SomeE [OF inv assms(4)])
    fix m
    assume "ha_resolve a h = Ok m" "buf = slice (m_offset m) (unat (m_size m)) (ha_arena a)" "length buf = unat (m_size m)"
    then show ?thesis
      by (auto simp: ha_read_def out_of_range_iff not_less slice_def drop_take min_def add_ac)
  qed
  show "\<exists>a' m. ha_free h a = Some (Ok (), a') \<and> heap a' = (heap a)(h := None) \<and> ha_resolve a h = Ok m \<and>
       freed_region_is_wiped a' (m_offset m) (m_size m) = Some True"
    using free_step [OF inv, of h] assms(4) by auto
qed

text \<open>An arena of one band, in which the place of a size class does not depend on the digest.\<close>

definition tiny_heap :: hardened_allocator where
  "tiny_heap = the (ha_run (ha_new 64 7) [OpAlloc 5])"

lemma size_class_5: "size_class 5 = Some 16"
  by (simp add: size_class_def size_class_loop_stop)

lemma tiny_heap_run: "ha_run (ha_new 64 7) [OpAlloc 5] = Some tiny_heap"
  by (simp add: tiny_heap_def ha_alloc_def size_class_5)

lemma tiny_heap_resolve:
  "ha_resolve tiny_heap \<lparr>h_id = 1, h_generation = 0\<rparr> =
    Ok \<lparr>m_offset = 8, m_size = 5, m_generation = 0, m_live = True\<rparr>"
  by (simp add: tiny_heap_def ha_alloc_def size_class_5 base_of_def ha_new_def ha_slots_def GUARD_def Let_def
      bt_or_insert_def bt_contains_def bt_get_def ha_resolve_def ok_or_def)

theorem allocator_refines_heap_witness:
  "\<exists>a. ha_write \<lparr>h_id = 1, h_generation = 0\<rparr> 4 [9] tiny_heap = Some (Ok (), a)"
proof -
  have inv: "ha_inv tiny_heap" using run_new [OF tiny_heap_run] by simp
  obtain buf where buf: "heap tiny_heap \<lparr>h_id = 1, h_generation = 0\<rparr> = Some buf"
    by (simp add: heap_def tiny_heap_resolve)
  then have "length buf = 5" by (rule heap_SomeE [OF inv]) (simp add: tiny_heap_resolve)
  then show ?thesis
    using allocator_refines_heap [OF tiny_heap_run _ _ buf, of "[9]" 0 4 0] by auto
qed

text \<open>
  C16: Use after free is trapped for ever: once \<^verbatim>\<open>free\<close> has returned, every later read, write and
  free of this handle (and of any handle to the same allocation) is refused with
  \<^verbatim>\<open>UseAfterFree\<close>, whatever calls come in between.
\<close>

theorem use_after_free_trapped:
  assumes "ha_run (ha_new n seed) ops = Some a" and "ha_free h a = Some (Ok (), b)"
    and "ha_run b ops' = Some c" and "length ops + length ops' < 2 ^ 64 - 3" and "h_id h' = h_id h"
  shows "ha_read c h' off len = Err UseAfterFree \<and> ha_write h' off data c = Some (Err UseAfterFree, c) \<and>
    ha_free h' c = Some (Err UseAfterFree, c)"
proof -
  have inv: "ha_inv a" "unat (ha_next_id a) \<le> 1 + length ops"
    using run_new [OF assms(1)] assms(4) by auto
  have b: "ha_inv b" "ha_next_id b = ha_next_id a" "dead b h"
    using free_step [OF inv(1), of h] assms(2) by (auto simp: dead_def split: option.splits)
  have "dead c h" using run_inv [OF b(1) _ assms(3)] b inv(2) assms(4) by auto
  then have "ha_resolve c h' = Err UseAfterFree" using assms(5) by (intro dead_resolve) (simp add: dead_def)
  then show ?thesis by (simp add: ha_read_def ha_write_def ha_free_def)
qed

theorem use_after_free_trapped_witness:
  "\<exists>b. ha_free \<lparr>h_id = 1, h_generation = 0\<rparr> tiny_heap = Some (Ok (), b) \<and>
     ha_read b \<lparr>h_id = 1, h_generation = 1\<rparr> 0 1 = Err UseAfterFree"
proof -
  obtain b where b: "ha_free \<lparr>h_id = 1, h_generation = 0\<rparr> tiny_heap = Some (Ok (), b)"
    by (simp add: ha_free_def tiny_heap_resolve size_class_5)
  then show ?thesis
    using use_after_free_trapped [OF tiny_heap_run b, of "[]" b "\<lparr>h_id = 1, h_generation = 1\<rparr>" 0 1 "[]"] by auto
qed

end
