(* ===== verification/Object_Store.thy ===== *)
theory Object_Store
  imports Block_Device
begin

text \<open>
  The incremental object store, \<^verbatim>\<open>dominion-core/src/objstore.rs\<close>: an append-only log of encoded
  objects, a manifest (index, head, history) written behind it on every save, and two root
  records of which the newest valid one names the current manifest.  \<^verbatim>\<open>u64\<close> block numbers are
  64-bit words, so the sums of the source wrap.  \<^verbatim>\<open>save\<close> returns what the caller's \<^verbatim>\<open>prior\<close> is
  afterwards along with its result.  This theory holds the model and the manifest codec; the crash
  behaviour is proved in \<open>Object_Store_Safety\<close>.
\<close>

subsection \<open>State\<close>

definition ROOT_MAGIC :: bytes where "ROOT_MAGIC = ascii ''AEOBJL01''"
definition MANIFEST_MAGIC :: bytes where "MANIFEST_MAGIC = ascii ''AEMAN001''"
definition COMPACT_DEAD_BLOCKS :: u64 where "COMPACT_DEAD_BLOCKS = 2048"

definition os_blocks_for :: "nat \<Rightarrow> u64" where
  "os_blocks_for len = word_of_nat (blocks_for len)"

type_synonym os_index = "(object_id, u64 \<times> u32) btree"

record manifest =
  man_base_lba :: u64
  man_log_end :: u64
  man_index :: os_index
  man_generation :: u64

definition object_count :: "manifest \<Rightarrow> nat" where
  "object_count m = length (man_index m)"

record root_record =
  rr_generation :: u64
  rr_vfs_root :: object_id
  rr_manifest_lba :: u64
  rr_manifest_blocks :: u64
  rr_log_end :: u64

subsection \<open>Manifest codec\<close>

definition manifest_size :: "nat \<Rightarrow> nat" where
  "manifest_size n = 8 + 4 + n * (32 + 8 + 4) + 4096"

definition encode_entry :: "object_id \<times> u64 \<times> u32 \<Rightarrow> bytes" where
  "encode_entry e = (case e of (i, lba, len) \<Rightarrow> i @ to_le_u64 lba @ to_le_u32 len)"

definition encode_manifest :: "os_index \<Rightarrow> object_id list \<Rightarrow> commit list \<Rightarrow> bytes" where
  "encode_manifest index head history =
    MANIFEST_MAGIC
    @ to_le_u32 (len_u32 index) @ concat (map encode_entry index)
    @ to_le_u32 (len_u32 head) @ concat head
    @ to_le_u32 (len_u32 history) @ concat (map encode_commit history)"

definition read_entry :: "(object_id \<times> u64 \<times> u32) oparser" where
  "read_entry =
    op_bind read_hash (\<lambda>i. op_bind read_u64_le (\<lambda>lba. op_bind read_u32_le (\<lambda>len. op_return (i, lba, len))))"

definition read_commit :: "commit oparser" where
  "read_commit =
    op_bind read_hash (\<lambda>root.
    op_bind read_hash (\<lambda>parent.
    op_bind read_u32_le (\<lambda>live_len.
    op_bind (op_repeat (unat live_len) read_hash) (\<lambda>live.
    op_bind read_u32_le (\<lambda>msg_len.
    op_bind (cur_take (unat msg_len)) (\<lambda>b.
    op_bind (op_option (from_utf8 b)) (\<lambda>message.
    op_return \<lparr>com_root = root, com_parent = parent, com_live = live, com_message = message\<rparr>)))))))"

definition cur_manifest :: "(os_index \<times> object_id list \<times> commit list) oparser" where
  "cur_manifest =
    op_bind (cur_take 8) (\<lambda>m.
      if m \<noteq> MANIFEST_MAGIC then (\<lambda>_. None)
      else
        op_bind read_u32_le (\<lambda>count.
        op_bind (op_repeat (unat count) read_entry) (\<lambda>entries.
        op_bind read_u32_le (\<lambda>head_len.
        op_bind (op_repeat (unat head_len) read_hash) (\<lambda>head.
        op_bind read_u32_le (\<lambda>hist_len.
        op_bind (op_repeat (unat hist_len) read_commit) (\<lambda>history.
        op_return (foldl (\<lambda>acc (k, v). bt_insert k v acc) [] entries, head, history))))))))"

definition decode_manifest :: "bytes \<Rightarrow> (os_index \<times> object_id list \<times> commit list) option" where
  "decode_manifest bs = map_option fst (cur_manifest (cursor_new bs))"

subsection \<open>Root records\<close>

definition root_bytes :: "u64 \<Rightarrow> object_id \<Rightarrow> u64 \<Rightarrow> u64 \<Rightarrow> u64 \<Rightarrow> u64 \<Rightarrow> bytes" where
  "root_bytes gen vfs_root manifest_lba manifest_blocks log_end data_start =
    (let rec = replicate BLOCK_SIZE 0;
         rec = blit 0 ROOT_MAGIC rec;
         rec = blit 8 (to_le_u64 gen) rec;
         rec = blit 16 vfs_root rec;
         rec = blit 48 (to_le_u64 manifest_lba) rec;
         rec = blit 56 (to_le_u64 manifest_blocks) rec;
         rec = blit 64 (to_le_u64 log_end) rec;
         rec = blit 72 (to_le_u64 data_start) rec;
         h = hash_of (take 80 rec)
     in blit 80 h rec)"

text \<open>The candidate in one slot: \<open>None\<close> when the magic or the integrity hash is wrong.\<close>

definition root_candidate :: "bytes \<Rightarrow> root_record option" where
  "root_candidate rec =
    (if slice 0 8 rec \<noteq> ROOT_MAGIC then None
     else if slice 80 32 rec \<noteq> hash_of (take 80 rec) then None
     else Some \<lparr>rr_generation = of_le_bytes (slice 8 8 rec), rr_vfs_root = slice 16 32 rec,
                rr_manifest_lba = of_le_bytes (slice 48 8 rec), rr_manifest_blocks = of_le_bytes (slice 56 8 rec),
                rr_log_end = of_le_bytes (slice 64 8 rec)\<rparr>)"

definition newer_root :: "root_record option \<Rightarrow> root_record option \<Rightarrow> root_record option" where
  "newer_root best cand =
    (case cand of None \<Rightarrow> best
     | Some c \<Rightarrow> if (case best of None \<Rightarrow> True | Some b \<Rightarrow> rr_generation c > rr_generation b) then Some c else best)"

definition read_root :: "'d block_ops \<Rightarrow> u64 \<Rightarrow> ('d, block_error, root_record option) io" where
  "read_root ops base_lba =
    io_bind (bd_read_block ops (base_lba + 0) BLOCK_SIZE) (\<lambda>rec0.
    io_bind (bd_read_block ops (base_lba + 1) BLOCK_SIZE) (\<lambda>rec1.
    io_return (newer_root (newer_root None (root_candidate rec0)) (root_candidate rec1))))"

subsection \<open>Saving\<close>

definition append_block_aligned :: "bytes \<Rightarrow> bytes \<Rightarrow> bytes" where
  "append_block_aligned buf bs = buf @ bs @ replicate ((BLOCK_SIZE - length bs mod BLOCK_SIZE) mod BLOCK_SIZE) 0"

text \<open>The packing loop of \<^verbatim>\<open>write_append\<close> and \<^verbatim>\<open>write_full\<close>.\<close>

definition pack_step :: "os_index \<times> bytes \<times> u64 \<Rightarrow> object_id \<times> bytes \<Rightarrow> os_index \<times> bytes \<times> u64" where
  "pack_step st e =
    (case (st, e) of ((index, buf, lba), (i, bs)) \<Rightarrow>
      (bt_insert i (lba, len_u32 bs) index, append_block_aligned buf bs, lba + os_blocks_for (length bs)))"

definition write_manifest_and_root ::
    "'d block_ops \<Rightarrow> u64 \<Rightarrow> u64 \<Rightarrow> u64 \<Rightarrow> os_index \<Rightarrow> object_id list \<Rightarrow> commit list \<Rightarrow> object_id \<Rightarrow> u64 \<Rightarrow> u64
      \<Rightarrow> ('d, block_error, manifest) io" where
  "write_manifest_and_root ops base_lba data_start manifest_lba index head history vfs_root gen cap =
    (let man = encode_manifest index head history;
         manifest_blocks = os_blocks_for (length man);
         log_end = manifest_lba + manifest_blocks
     in if log_end > cap then io_fail BlkFull
        else
          io_bind (bd_write_blocks ops manifest_lba (append_block_aligned [] man)) (\<lambda>_.
          io_bind (bd_write_block ops (base_lba + gen mod 2)
                    (root_bytes gen vfs_root manifest_lba manifest_blocks log_end data_start)) (\<lambda>_.
          io_return \<lparr>man_base_lba = base_lba, man_log_end = log_end, man_index = index, man_generation = gen\<rparr>)))"

definition write_append ::
    "'d block_ops \<Rightarrow> u64 \<Rightarrow> manifest \<Rightarrow> (object_id \<times> bytes) list \<Rightarrow> object_id list \<Rightarrow> commit list \<Rightarrow> object_id
      \<Rightarrow> u64 \<Rightarrow> u64 \<Rightarrow> ('d, block_error, manifest) io" where
  "write_append ops base_lba prior fresh head history vfs_root gen cap =
    (case foldl pack_step (man_index prior, [], man_log_end prior) fresh of (index, buf, lba) \<Rightarrow>
      if lba > cap then io_fail BlkFull
      else
        io_bind (if buf \<noteq> [] then bd_write_blocks ops (man_log_end prior) buf else io_return ()) (\<lambda>_.
        write_manifest_and_root ops base_lba (base_lba + 2) lba index head history vfs_root gen cap))"

definition write_full ::
    "'d block_ops \<Rightarrow> u64 \<Rightarrow> (object_id \<times> bytes) list \<Rightarrow> object_id list \<Rightarrow> commit list \<Rightarrow> object_id
      \<Rightarrow> u64 \<Rightarrow> u64 \<Rightarrow> ('d, block_error, manifest) io" where
  "write_full ops base_lba all head history vfs_root gen cap =
    (let data_start = base_lba + 2 in
     case foldl pack_step ([], [], data_start) (sort_key fst all) of (index, buf, lba) \<Rightarrow>
      if lba > cap then io_fail BlkFull
      else
        io_bind (if buf \<noteq> [] then bd_write_blocks ops data_start buf else io_return ()) (\<lambda>_.
        write_manifest_and_root ops base_lba data_start lba index head history vfs_root gen cap))"

definition encode_objects :: "(object_id \<times> object) list \<Rightarrow> (object_id \<times> bytes) list" where
  "encode_objects = map (\<lambda>(i, obj). (i, object_encode obj))"

definition fresh_objects :: "manifest \<Rightarrow> object_graph \<Rightarrow> (object_id \<times> bytes) list" where
  "fresh_objects m graph =
    sort_key fst (encode_objects (filter (\<lambda>(i, _). \<not> bt_contains (man_index m) i) (og_stored_objects graph)))"

definition sum_blocks :: "nat list \<Rightarrow> u64" where
  "sum_blocks ns = sum_list (map os_blocks_for ns)"

text \<open>The choice between appending and rewriting the whole arena.\<close>

definition needs_compaction :: "manifest \<Rightarrow> object_graph \<Rightarrow> u64 \<Rightarrow> u64 \<Rightarrow> bool" where
  "needs_compaction m graph base_lba cap =
    (let fresh = fresh_objects m graph;
         new_obj_blocks = sum_blocks (map (\<lambda>(_, b). length b) fresh);
         live_blocks = sum_blocks (map (\<lambda>(_, _, len). unat len) (man_index m)) + new_obj_blocks;
         dead_blocks = saturating_sub (man_log_end m - (base_lba + 2)) live_blocks;
         est_manifest_blocks = os_blocks_for (manifest_size (length (og_stored_objects graph)));
         would_end = man_log_end m + new_obj_blocks + est_manifest_blocks
     in dead_blocks > COMPACT_DEAD_BLOCKS \<or> would_end > cap)"

definition save_manifest ::
    "'d block_ops \<Rightarrow> u64 \<Rightarrow> object_graph \<Rightarrow> object_id \<Rightarrow> manifest option \<Rightarrow> ('d, block_error, manifest) io" where
  "save_manifest ops base_lba graph vfs_root prior d =
    (let data_start = base_lba + 2;
         cap = bd_block_count ops d
     in if data_start \<ge> cap then (Err BlkFull, d)
        else
          let head = og_head graph;
              history = og_history graph;
              reuse = (case prior of Some m \<Rightarrow> if man_base_lba m = base_lba then Some m else None | None \<Rightarrow> None)
          in case reuse of
               Some m \<Rightarrow>
                 let next_gen = man_generation m + 1;
                     fresh = fresh_objects m graph
                 in if needs_compaction m graph base_lba cap
                    then write_full ops base_lba
                      (fresh @ encode_objects (filter (\<lambda>(i, _). bt_contains (man_index m) i) (og_stored_objects graph)))
                      head history vfs_root next_gen cap d
                    else write_append ops base_lba m fresh head history vfs_root next_gen cap d
             | None \<Rightarrow>
                 io_bind (read_root ops base_lba) (\<lambda>r.
                   let next_gen = (case r of Some r \<Rightarrow> rr_generation r | None \<Rightarrow> 0) + 1
                   in write_full ops base_lba (encode_objects (og_stored_objects graph)) head history vfs_root
                        next_gen cap) d)"

definition os_save ::
    "'d block_ops \<Rightarrow> u64 \<Rightarrow> object_graph \<Rightarrow> object_id \<Rightarrow> manifest option
      \<Rightarrow> 'd \<Rightarrow> ((block_error + unit) \<times> manifest option) \<times> 'd" where
  "os_save ops base_lba graph vfs_root prior d =
    (case save_manifest ops base_lba graph vfs_root prior d of
       (Inl e, d) \<Rightarrow> ((Err e, prior), d)
     | (Inr new_manifest, d) \<Rightarrow> ((Ok (), Some new_manifest), d))"

subsection \<open>Loading\<close>

text \<open>\<^verbatim>\<open>slice::get(from..to)\<close>, and \<^verbatim>\<open>checked_sub\<close> on block numbers.\<close>

definition get_range :: "bytes \<Rightarrow> u64 \<Rightarrow> u64 \<Rightarrow> bytes option" where
  "get_range xs a b = (if a \<le> b \<and> unat b \<le> length xs then Some (slice (unat a) (unat b - unat a) xs) else None)"

definition checked_sub :: "u64 \<Rightarrow> u64 \<Rightarrow> u64 option" where
  "checked_sub a b = (if b \<le> a then Some (a - b) else None)"

definition arena_slice :: "bytes \<Rightarrow> u64 \<Rightarrow> u64 \<Rightarrow> u64 \<Rightarrow> bytes option" where
  "arena_slice arena data_start lba len =
    Option.bind (checked_sub lba data_start) (\<lambda>b. let off = b * 512 in get_range arena off (off + len))"

text \<open>
  Materialising the objects: \<open>Inl\<close> is the \<^verbatim>\<open>Err(DeviceFault)\<close> of the source, \<open>Inr None\<close> its
  \<^verbatim>\<open>Ok(None)\<close> for bytes that do not decode or do not hash to their id.
\<close>

fun load_objects :: "bytes \<Rightarrow> u64 \<Rightarrow> os_index \<Rightarrow> block_error + object list option" where
  "load_objects arena data_start [] = Ok (Some [])"
| "load_objects arena data_start ((i, lba, len) # index) =
    rbind (ok_or (arena_slice arena data_start lba (ucast len)) BlkDeviceFault) (\<lambda>bs.
      case object_decode bs of
        Inl _ \<Rightarrow> Ok None
      | Inr obj \<Rightarrow>
          if object_id obj \<noteq> i then Ok None
          else rbind (load_objects arena data_start index) (\<lambda>r. Ok (map_option ((#) obj) r)))"

definition load_arena ::
    "u64 \<Rightarrow> root_record \<Rightarrow> bytes \<Rightarrow> block_error + (object_graph \<times> object_id \<times> manifest) option" where
  "load_arena base_lba root arena =
    (let data_start = base_lba + 2 in
     rbind (ok_or (checked_sub (rr_manifest_lba root) data_start) BlkDeviceFault) (\<lambda>b.
     let m_off = b * 512; m_len = rr_manifest_blocks root * 512 in
     rbind (ok_or (get_range arena m_off (m_off + m_len)) BlkDeviceFault) (\<lambda>mbytes.
     case decode_manifest mbytes of
       None \<Rightarrow> Ok None
     | Some (index, head, history) \<Rightarrow>
         rbind (load_objects arena data_start index) (\<lambda>r.
         case r of
           None \<Rightarrow> Ok None
         | Some objects \<Rightarrow>
             Ok (Some (og_restore objects head history, rr_vfs_root root,
               \<lparr>man_base_lba = base_lba, man_log_end = rr_log_end root, man_index = index,
                man_generation = rr_generation root\<rparr>))))))"

definition os_load ::
    "'d block_ops \<Rightarrow> u64 \<Rightarrow> ('d, block_error, (object_graph \<times> object_id \<times> manifest) option) io" where
  "os_load ops base_lba =
    io_bind (read_root ops base_lba) (\<lambda>r.
      case r of
        None \<Rightarrow> io_return None
      | Some root \<Rightarrow>
          let data_start = base_lba + 2;
              arena_blocks = saturating_sub (rr_log_end root) data_start;
              arena_len = unat (arena_blocks * 512)
          in io_bind (if arena_blocks > 0 then bd_read_blocks ops data_start arena_len
                      else io_return (replicate arena_len 0)) (\<lambda>arena d. (load_arena base_lba root arena, d)))"

subsection \<open>The manifest codec\<close>

definition manifest_wf :: "os_index \<Rightarrow> object_id list \<Rightarrow> commit list \<Rightarrow> bool" where
  "manifest_wf index head history \<longleftrightarrow>
    bt_wf index \<and> length index < 2 ^ 32 \<and> (\<forall>(i, _) \<in> set index. length i = 32) \<and>
    length head < 2 ^ 32 \<and> (\<forall>i \<in> set head. length i = 32) \<and>
    length history < 2 ^ 32 \<and> (\<forall>c \<in> set history. commit_wf c)"

lemma odecodes_entry: "length i = 32 \<Longrightarrow> odecodes read_entry (encode_entry (i, lba, len)) (i, lba, len)"
  unfolding read_entry_def encode_entry_def prod.case
  by (intro odecodes_bind [OF odecodes_hash] odecodes_bind [OF odecodes_u64] odecodes_map [OF odecodes_u32]) auto

lemma odecodes_hashes:
  assumes "\<forall>i \<in> set is. length i = 32" "length is < 2 ^ 32"
  shows "odecodes (op_repeat (unat (len_u32 is)) read_hash) (concat is) is"
  using odecodes_repeat [of "is" read_hash id id] assms by (simp add: odecodes_hash unat_len_u32)

lemma odecodes_commit:
  assumes "commit_wf c"
  shows "odecodes read_commit (encode_commit c) c"
proof -
  let ?msg = "com_message c"
  have wf: "length (com_root c) = 32" "length (com_parent c) = 32" "\<forall>i \<in> set (com_live c). length i = 32"
    "length (com_live c) < 2 ^ 32" "from_utf8 ?msg = Some ?msg" "length ?msg = unat (len_u32 ?msg)"
    using assms by (auto simp: commit_wf_def unat_len_u32)
  have "odecodes (op_bind (op_option (from_utf8 ?msg)) (\<lambda>message.
      op_return \<lparr>com_root = com_root c, com_parent = com_parent c, com_live = com_live c, com_message = message\<rparr>)) [] c"
    by (rule odecodes_map [OF odecodes_option [OF wf(5)]]) (cases c, simp)
  then have "odecodes (op_bind (cur_take (unat (len_u32 ?msg))) (\<lambda>b. op_bind (op_option (from_utf8 b)) (\<lambda>message.
      op_return \<lparr>com_root = com_root c, com_parent = com_parent c, com_live = com_live c, com_message = message\<rparr>)))
      (?msg @ []) c"
    using wf(6) by (intro odecodes_bind [OF odecodes_take]) simp_all
  then show ?thesis
    unfolding read_commit_def encode_commit_def using wf
    by (intro odecodes_bind [OF odecodes_hash] odecodes_bind [OF odecodes_u32] odecodes_bind [OF odecodes_hashes]) simp_all
qed

lemma odecodes_manifest:
  assumes "manifest_wf index head history"
  shows "odecodes cur_manifest (encode_manifest index head history) (index, head, history)"
proof -
  have wf: "bt_wf index" "length index < 2 ^ 32" "\<forall>i \<in> set head. length i = 32" "length head < 2 ^ 32"
    "length history < 2 ^ 32"
    using assms by (auto simp: manifest_wf_def)
  have "odecodes (op_repeat (unat (len_u32 index)) read_entry) (concat (map encode_entry index)) (map id index)"
    using assms wf(2) by (intro odecodes_repeat) (auto simp: manifest_wf_def unat_len_u32 odecodes_entry)
  then have entries: "odecodes (op_repeat (unat (len_u32 index)) read_entry) (concat (map encode_entry index)) index"
    by simp
  have "odecodes (op_repeat (unat (len_u32 history)) read_commit) (concat (map encode_commit history)) (map id history)"
    using assms wf(5) by (intro odecodes_repeat) (auto simp: manifest_wf_def unat_len_u32 odecodes_commit)
  then have commits: "odecodes (op_repeat (unat (len_u32 history)) read_commit) (concat (map encode_commit history)) history"
    by simp
  have "foldl (\<lambda>acc (k, v). bt_insert k v acc) [] index = index"
    using foldl_bt_insert_append [of "[]" index] wf(1) by simp
  then have "odecodes (op_bind (op_repeat (unat (len_u32 history)) read_commit) (\<lambda>history.
      op_return (foldl (\<lambda>acc (k, v). bt_insert k v acc) [] index, head, history)))
      (concat (map encode_commit history)) (index, head, history)"
    by (intro odecodes_map [OF commits]) simp
  then show ?thesis
    unfolding cur_manifest_def encode_manifest_def
    by (intro odecodes_bind [OF odecodes_take]; (simp add: MANIFEST_MAGIC_def)?)
      (intro odecodes_bind [OF odecodes_u32] odecodes_bind [OF entries] odecodes_bind [OF odecodes_hashes] wf(3,4))
qed

lemma decode_encode_manifest:
  "manifest_wf index head history \<Longrightarrow>
    decode_manifest (encode_manifest index head history @ rest) = Some (index, head, history)"
  using odecodesD [OF odecodes_manifest] by (simp add: decode_manifest_def)

end
