(* ===== verification/Object_Store_Safety.thy ===== *)
theory Object_Store_Safety
  imports Object_Store
begin

text \<open>
  Crash safety of the object store.  The arena below the committed log end is never written by
  an appending save, and the new root goes to the slot that does not hold the committed one, so
  a save that is cut off anywhere leaves the committed state loadable; a save that returns makes
  the new graph the committed one.  Both are proved over the device contract and used for
  \<^verbatim>\<open>RamDisk\<close> and for \<^verbatim>\<open>FaultyDevice\<close>.
\<close>

subsection \<open>Runs of writes that may stop\<close>

context atomic_device
begin

lemma write_run_atomic:
  "inv d \<Longrightarrow> unat start + k + length cs \<le> length (contents d) \<Longrightarrow> \<forall>c \<in> set cs. length c = BLOCK_SIZE \<Longrightarrow>
    \<exists>r d'. io_mapM (\<lambda>(i, chunk). bd_write_block ops (start + word_of_nat i) chunk) (enumerate k cs) d = (r, d') \<and>
      inv d' \<and> length (contents d') = length (contents d) \<and>
      (\<forall>i. i < unat start + k \<or> unat start + k + length cs \<le> i \<longrightarrow> contents d' ! i = contents d ! i) \<and>
      (isl r \<or> contents d' = blit (unat start + k) cs (contents d))"
proof (induction cs arbitrary: k d)
  case Nil
  then show ?case by (simp add: io_return_def)
next
  case (Cons c cs)
  have lba: "unat (start + word_of_nat k) = unat start + k"
    by (rule unat_lba [OF Cons.prems(1)]) (use Cons.prems in simp)
  obtain r1 d1 where d1: "bd_write_block ops (start + word_of_nat k) c d = (r1, d1)" "inv d1"
      "contents d1 = (case r1 of Inl _ \<Rightarrow> contents d | Inr _ \<Rightarrow> (contents d)[unat start + k := c])"
    using write_law [of d "start + word_of_nat k" c] Cons.prems unfolding lba by auto
  show ?case
  proof (cases r1)
    case (Inl e)
    then show ?thesis using d1 Cons.prems by (auto simp: io_bind_def)
  next
    case (Inr u)
    then have c1: "contents d1 = (contents d)[unat start + k := c]" using d1(3) by simp
    obtain r2 d2 where d2: "io_mapM (\<lambda>(i, chunk). bd_write_block ops (start + word_of_nat i) chunk)
          (enumerate (Suc k) cs) d1 = (r2, d2)" "inv d2" "length (contents d2) = length (contents d1)"
        "\<forall>i. i < unat start + Suc k \<or> unat start + Suc k + length cs \<le> i \<longrightarrow> contents d2 ! i = contents d1 ! i"
        "isl r2 \<or> contents d2 = blit (unat start + Suc k) cs (contents d1)"
      using Cons.IH [of d1 "Suc k"] d1(2) c1 Cons.prems by auto
    have run: "\<exists>r. io_mapM (\<lambda>(i, chunk). bd_write_block ops (start + word_of_nat i) chunk) (enumerate k (c # cs)) d
        = (r, d2) \<and> (isl r \<longleftrightarrow> isl r2)"
      using d1(1) d2(1) Inr by (cases r2) (auto simp: io_bind_def io_return_def)
    moreover have "contents d2 ! i = contents d ! i" if "i < unat start + k \<or> unat start + k + length (c # cs) \<le> i" for i
      using d2(4) that unfolding c1 by (cases "i = unat start + k") auto
    moreover have "contents d2 = blit (unat start + k) (c # cs) (contents d)" if "\<not> isl r2"
      using d2(5) that Cons.prems unfolding c1 by (simp add: blit_0_Cons)
    ultimately show ?thesis using d2(2,3) c1 by auto
  qed
qed

lemma write_blocks_atomic:
  assumes "inv d" "length buf = n * BLOCK_SIZE" "unat start + n \<le> length (contents d)"
  obtains r d' where "bd_write_blocks ops start buf d = (r, d')" "inv d'"
    "length (contents d') = length (contents d)"
    "\<And>i. i < unat start \<Longrightarrow> contents d' ! i = contents d ! i"
    "isl r \<or> contents d' = blit (unat start) (chunks_exact BLOCK_SIZE buf) (contents d)"
proof -
  have "length (chunks_exact BLOCK_SIZE buf) = n"
    using assms(2) by (simp add: length_chunks_exact)
  moreover have "\<forall>c \<in> set (chunks_exact BLOCK_SIZE buf). length c = BLOCK_SIZE"
    using chunks_exact_elem by blast
  ultimately obtain r d' where "io_mapM (\<lambda>(i, chunk). bd_write_block ops (start + word_of_nat i) chunk)
      (enumerate 0 (chunks_exact BLOCK_SIZE buf)) d = (r, d')" "inv d'"
      "length (contents d') = length (contents d)" "\<forall>i < unat start. contents d' ! i = contents d ! i"
      "isl r \<or> contents d' = blit (unat start) (chunks_exact BLOCK_SIZE buf) (contents d)"
    using write_run_atomic [of d start 0 "chunks_exact BLOCK_SIZE buf"] assms by auto
  then show ?thesis
    using that [of "map_sum id (\<lambda>_. ()) r" d'] assms(2)
    by (cases r) (auto simp: bd_write_blocks_def io_bind_def io_return_def)
qed

end

subsection \<open>The arena\<close>

definition arena_of :: "bytes list \<Rightarrow> nat \<Rightarrow> nat \<Rightarrow> bytes" where
  "arena_of blocks ds le = concat (slice ds (le - ds) blocks)"

lemma arena_of_cong:
  assumes "length blocks' = length blocks" and "\<And>i. ds \<le> i \<Longrightarrow> i < le \<Longrightarrow> blocks' ! i = blocks ! i"
    and "le \<le> length blocks"
  shows "arena_of blocks' ds le = arena_of blocks ds le"
proof -
  have "slice ds (le - ds) blocks' = slice ds (le - ds) blocks"
    using assms by (intro nth_equalityI) (auto simp: slice_def)
  then show ?thesis by (simp add: arena_of_def)
qed

lemma length_arena_of:
  assumes "\<forall>b \<in> set blocks. length b = BLOCK_SIZE" and "le \<le> length blocks"
  shows "length (arena_of blocks ds le) = (le - ds) * BLOCK_SIZE"
proof -
  have "\<forall>b \<in> set (slice ds (le - ds) blocks). length b = BLOCK_SIZE"
    using assms(1) by (auto simp: slice_def dest: in_set_takeD in_set_dropD)
  then have "length (concat (slice ds (le - ds) blocks)) = length (slice ds (le - ds) blocks) * BLOCK_SIZE"
    by (induction "slice ds (le - ds) blocks" arbitrary: ds le blocks) (simp_all add: length_concat sum_list_triv
        map_replicate_const [symmetric] cong: map_cong)
  then show ?thesis using assms(2) by (simp add: arena_of_def)
qed

lemma arena_of_blit:
  assumes "ds \<le> le" and "le + length cs \<le> length blocks"
  shows "arena_of (blit le cs blocks) ds (le + length cs) = arena_of blocks ds le @ concat cs"
proof -
  obtain k where "le = ds + k" using assms(1) le_Suc_ex by blast
  then have "slice ds (le + length cs - ds) (blit le cs blocks) = slice ds (le - ds) blocks @ cs"
    using assms(2) by (simp add: slice_def blit_def drop_take)
  then show ?thesis by (simp add: arena_of_def)
qed

lemma length_append_block_aligned:
  "length (append_block_aligned buf bs) = length buf + blocks_for (length bs) * BLOCK_SIZE"
proof -
  define q r where "q = length bs div 512" and "r = length bs mod 512"
  have n: "length bs = r + q * 512" "r < 512" by (simp_all add: q_def r_def)
  have "(length bs + 511) div 512 = (r + 511) div 512 + q" by (simp add: n)
  moreover have "(r + 511) div 512 = (if r = 0 then 0 else 1)" using n(2) by auto
  ultimately have "length bs + (512 - length bs mod 512) mod 512 = (length bs + 511) div 512 * 512"
    using n by simp
  then show ?thesis by (simp add: append_block_aligned_def blocks_for_def)
qed

subsection \<open>Root records\<close>

definition root_body :: "u64 \<Rightarrow> object_id \<Rightarrow> u64 \<Rightarrow> u64 \<Rightarrow> u64 \<Rightarrow> u64 \<Rightarrow> bytes" where
  "root_body gen vfs mlba mblocks le ds =
    ROOT_MAGIC @ to_le_u64 gen @ vfs @ to_le_u64 mlba @ to_le_u64 mblocks @ to_le_u64 le @ to_le_u64 ds"

lemma length_ROOT_MAGIC [simp]: "length ROOT_MAGIC = 8"
  by (simp add: ROOT_MAGIC_def)

lemma root_bytes_eq:
  assumes "length vfs = 32"
  shows "root_bytes gen vfs mlba mblocks le ds =
    root_body gen vfs mlba mblocks le ds @ hash_of (root_body gen vfs mlba mblocks le ds) @ replicate 400 0"
proof -
  let ?b = "root_body gen vfs mlba mblocks le ds"
  have z: "replicate 512 0 = replicate 8 0 @ replicate 8 0 @ replicate 32 0 @ replicate 8 0 @ replicate 8 0
      @ replicate 8 0 @ replicate 8 0 @ replicate 32 0 @ (replicate 400 0 :: bytes)"
    by (simp add: replicate_add [symmetric] flip: replicate_Suc)
  have 0: "blit 0 ROOT_MAGIC ([] @ replicate 8 0 @ X) = [] @ ROOT_MAGIC @ X" for X
    by (rule blit_append_at) simp_all
  have 1: "blit 8 (to_le_u64 gen) (ROOT_MAGIC @ replicate 8 0 @ X) = ROOT_MAGIC @ to_le_u64 gen @ X" for X
    by (rule blit_append_at) simp_all
  have 2: "blit 16 vfs ((ROOT_MAGIC @ to_le_u64 gen) @ replicate 32 0 @ X) = (ROOT_MAGIC @ to_le_u64 gen) @ vfs @ X" for X
    using assms by (intro blit_append_at) simp_all
  have 3: "blit 48 (to_le_u64 mlba) ((ROOT_MAGIC @ to_le_u64 gen @ vfs) @ replicate 8 0 @ X)
      = (ROOT_MAGIC @ to_le_u64 gen @ vfs) @ to_le_u64 mlba @ X" for X
    using assms by (intro blit_append_at) simp_all
  have 4: "blit 56 (to_le_u64 mblocks) ((ROOT_MAGIC @ to_le_u64 gen @ vfs @ to_le_u64 mlba) @ replicate 8 0 @ X)
      = (ROOT_MAGIC @ to_le_u64 gen @ vfs @ to_le_u64 mlba) @ to_le_u64 mblocks @ X" for X
    using assms by (intro blit_append_at) simp_all
  have 5: "blit 64 (to_le_u64 le) ((ROOT_MAGIC @ to_le_u64 gen @ vfs @ to_le_u64 mlba @ to_le_u64 mblocks) @ replicate 8 0 @ X)
      = (ROOT_MAGIC @ to_le_u64 gen @ vfs @ to_le_u64 mlba @ to_le_u64 mblocks) @ to_le_u64 le @ X" for X
    using assms by (intro blit_append_at) simp_all
  have 6: "blit 72 (to_le_u64 ds) ((ROOT_MAGIC @ to_le_u64 gen @ vfs @ to_le_u64 mlba @ to_le_u64 mblocks
        @ to_le_u64 le) @ replicate 8 0 @ X)
      = (ROOT_MAGIC @ to_le_u64 gen @ vfs @ to_le_u64 mlba @ to_le_u64 mblocks @ to_le_u64 le) @ to_le_u64 ds @ X" for X
    using assms by (intro blit_append_at) simp_all
  have body: "length ?b = 80" using assms by (simp add: root_body_def)
  have 7: "blit 80 h (?b @ replicate 32 0 @ X) = ?b @ h @ X" if "length h = 32" for h X
    using body that by (intro blit_append_at) simp_all
  have "blit 72 (to_le_u64 ds) (blit 64 (to_le_u64 le) (blit 56 (to_le_u64 mblocks) (blit 48 (to_le_u64 mlba)
      (blit 16 vfs (blit 8 (to_le_u64 gen) (blit 0 ROOT_MAGIC (replicate 512 0)))))))
      = ?b @ replicate 32 0 @ replicate 400 0"
    using 0 1 2 3 4 5 6 unfolding z root_body_def by (simp only: append_assoc append_Nil)
  moreover have "take 80 (?b @ X) = ?b" for X using body by simp
  ultimately show ?thesis using 7 body by (simp add: root_bytes_def Let_def)
qed

lemma length_root_bytes: "length vfs = 32 \<Longrightarrow> length (root_bytes gen vfs mlba mblocks le ds) = BLOCK_SIZE"
  by (simp add: root_bytes_eq root_body_def)

lemma root_candidate_bytes:
  assumes "length vfs = 32"
  shows "root_candidate (root_bytes gen vfs mlba mblocks le ds) =
    Some \<lparr>rr_generation = gen, rr_vfs_root = vfs, rr_manifest_lba = mlba, rr_manifest_blocks = mblocks, rr_log_end = le\<rparr>"
proof -
  let ?r = "root_bytes gen vfs mlba mblocks le ds" and ?b = "root_body gen vfs mlba mblocks le ds"
  have body: "length ?b = 80" using assms by (simp add: root_body_def)
  have "slice 0 8 ?r = ROOT_MAGIC" "slice 8 8 ?r = to_le_u64 gen" "slice 16 32 ?r = vfs"
    "slice 48 8 ?r = to_le_u64 mlba" "slice 56 8 ?r = to_le_u64 mblocks" "slice 64 8 ?r = to_le_u64 le"
    using assms by (simp_all add: root_bytes_eq root_body_def slice_def)
  moreover have "slice 80 32 ?r = hash_of ?b" "take 80 ?r = ?b"
    using assms body by (simp_all add: root_bytes_eq slice_def)
  ultimately show ?thesis by (simp add: root_candidate_def)
qed

subsection \<open>The index\<close>

text \<open>An index entry points at the bytes of an object in the arena that starts at block \<open>ds\<close>.\<close>

definition entry_ok :: "nat \<Rightarrow> bytes \<Rightarrow> u64 \<times> u32 \<Rightarrow> bytes \<Rightarrow> bool" where
  "entry_ok ds arena e bs \<longleftrightarrow>
    ds \<le> unat (fst e) \<and> unat (snd e) = length bs \<and>
    (unat (fst e) - ds) * BLOCK_SIZE + length bs \<le> length arena \<and>
    slice ((unat (fst e) - ds) * BLOCK_SIZE) (length bs) arena = bs"

definition indexed :: "nat \<Rightarrow> bytes \<Rightarrow> os_index \<Rightarrow> (object_id \<Rightarrow> bytes option) \<Rightarrow> bool" where
  "indexed ds arena index f \<longleftrightarrow> bt_wf index \<and> (\<forall>i. rel_option (entry_ok ds arena) (bt_get index i) (f i))"

lemma entry_ok_append: "entry_ok ds arena e bs \<Longrightarrow> entry_ok ds (arena @ rest) e bs"
  by (simp add: entry_ok_def slice_append_left)

lemma indexed_append: "indexed ds arena index f \<Longrightarrow> indexed ds (arena @ rest) index f"
  by (fastforce simp: indexed_def intro: option.rel_mono_strong entry_ok_append)

lemma pack_step_indexed:
  assumes "indexed ds (pre @ buf) index f" and "length (pre @ buf) = (unat lba - ds) * BLOCK_SIZE" and "ds \<le> unat lba"
    and "unat lba + blocks_for (length bs) < 2 ^ 64" and "length bs < 2 ^ 32"
    and "pack_step (index, buf, lba) (i, bs) = (index', buf', lba')"
  shows "indexed ds (pre @ buf') index' (f(i \<mapsto> bs)) \<and> length (pre @ buf') = (unat lba' - ds) * BLOCK_SIZE \<and>
    unat lba' = unat lba + blocks_for (length bs)"
proof -
  have eqs: "index' = bt_insert i (lba, len_u32 bs) index" "buf' = append_block_aligned buf bs"
    "lba' = lba + os_blocks_for (length bs)"
    using assms(6) by (simp_all add: pack_step_def)
  have lba': "unat lba' = unat lba + blocks_for (length bs)"
    using assms(4) by (simp add: eqs os_blocks_for_def unat_word_ariths unat_of_nat)
  obtain pad where pad: "pre @ buf' = (pre @ buf) @ bs @ pad" by (simp add: eqs append_block_aligned_def)
  have "entry_ok ds (pre @ buf') (lba, len_u32 bs) bs"
    unfolding pad using assms(2,3,5) by (simp add: entry_ok_def unat_len_u32 slice_append_right slice_def)
  moreover have "rel_option (entry_ok ds (pre @ buf')) (bt_get index j) (f j)" for j
    using indexed_append [OF assms(1), of "bs @ pad"] unfolding pad by (simp add: indexed_def)
  ultimately have "indexed ds (pre @ buf') index' (f(i \<mapsto> bs))"
    using assms(1) by (simp add: indexed_def eqs(1) bt_wf_insert)
  moreover have "length (pre @ buf') = (unat lba' - ds) * BLOCK_SIZE"
    using assms(2,3) unfolding lba' eqs(2) by (simp add: length_append_block_aligned algebra_simps)
  ultimately show ?thesis using lba' by simp
qed

definition put_all :: "(object_id \<Rightarrow> bytes option) \<Rightarrow> (object_id \<times> bytes) list \<Rightarrow> object_id \<Rightarrow> bytes option" where
  "put_all f items = foldl (\<lambda>f (i, bs). f(i \<mapsto> bs)) f items"

lemma put_all_lookup:
  "distinct (map fst items) \<Longrightarrow>
    put_all f items i = (case map_of items i of None \<Rightarrow> f i | Some bs \<Rightarrow> Some bs)"
proof (induction items arbitrary: f)
  case (Cons x items)
  obtain j bs where x: "x = (j, bs)" by (cases x)
  have "map_of items j = None" using Cons.prems x by (simp add: map_of_eq_None_iff)
  then show ?case using Cons by (auto simp: x put_all_def split: option.splits)
qed (simp add: put_all_def)

definition total_blocks :: "(object_id \<times> bytes) list \<Rightarrow> nat" where
  "total_blocks items = sum_list (map (\<lambda>(_, bs). blocks_for (length bs)) items)"

lemma total_blocks_simps [simp]:
  "total_blocks [] = 0" "total_blocks ((i, bs) # items) = blocks_for (length bs) + total_blocks items"
  by (simp_all add: total_blocks_def)

lemma put_all_simps: "put_all f [] = f" "put_all f ((i, bs) # items) = put_all (f(i \<mapsto> bs)) items"
  by (simp_all add: put_all_def)

lemma pack_indexed:
  assumes "indexed ds (pre @ buf) index f" and "length (pre @ buf) = (unat lba - ds) * BLOCK_SIZE" and "ds \<le> unat lba"
    and "unat lba + total_blocks items < 2 ^ 64" and "\<forall>(i, bs) \<in> set items. length bs < 2 ^ 32"
    and "foldl pack_step (index, buf, lba) items = (index', buf', lba')"
  shows "indexed ds (pre @ buf') index' (put_all f items) \<and> length (pre @ buf') = (unat lba' - ds) * BLOCK_SIZE \<and>
    unat lba' = unat lba + total_blocks items"
  using assms
proof (induction items arbitrary: index buf lba f)
  case Nil
  then show ?case by (simp add: put_all_simps)
next
  case (Cons x items)
  obtain i bs where x: "x = (i, bs)" by (cases x)
  obtain index1 buf1 lba1 where step: "pack_step (index, buf, lba) (i, bs) = (index1, buf1, lba1)"
    by (cases "pack_step (index, buf, lba) (i, bs)")
  have "indexed ds (pre @ buf1) index1 (f(i \<mapsto> bs)) \<and> length (pre @ buf1) = (unat lba1 - ds) * BLOCK_SIZE \<and>
      unat lba1 = unat lba + blocks_for (length bs)"
    using Cons.prems(4,5) by (intro pack_step_indexed [OF Cons.prems(1-3) _ _ step]) (auto simp: x)
  then have 1: "indexed ds (pre @ buf1) index1 (f(i \<mapsto> bs))"
    "length (pre @ buf1) = (unat lba1 - ds) * BLOCK_SIZE" "unat lba1 = unat lba + blocks_for (length bs)"
    by blast+
  then show ?case
    using Cons.IH [OF 1(1,2)] Cons.prems(3-6) unfolding x foldl.simps step put_all_simps by (simp del: fun_upd_apply)
qed

subsection \<open>Loading a committed state\<close>

text \<open>
  What the formats and memory can hold: strings and hashes as their Rust types guarantee, counts
  and encoded objects below 4 GiB (they are stored as \<^verbatim>\<open>u32\<close>), and a total size well below the
  64-bit address space.
\<close>

definition graph_storable :: "object_graph \<Rightarrow> bool" where
  "graph_storable g \<longleftrightarrow>
    cs_inv object_id (og_store g) \<and> length (og_store g) < 2 ^ 32 \<and>
    (\<forall>(_, obj) \<in> set (og_store g). object_wf (2 ^ 64) obj \<and> length (object_encode obj) < 2 ^ 32) \<and>
    length (og_head g) < 2 ^ 32 \<and> (\<forall>i \<in> set (og_head g). length i = 32) \<and>
    length (og_history g) < 2 ^ 32 \<and> (\<forall>c \<in> set (og_history g). commit_wf c) \<and>
    total_blocks (encode_objects (og_store g)) < 2 ^ 60 \<and>
    length (concat (map encode_commit (og_history g))) < 2 ^ 60"

definition graph_canon :: "object_graph \<Rightarrow> object_graph" where
  "graph_canon g = g\<lparr>og_store := map (\<lambda>(k, obj). (k, object_canon obj)) (og_store g)\<rparr>"

definition encs_of :: "object_graph \<Rightarrow> object_id \<Rightarrow> bytes option" where
  "encs_of g = map_of (encode_objects (og_store g))"

lemma encs_of_eq: "encs_of g i = map_option object_encode (bt_get (og_store g) i)"
  by (simp add: encs_of_def encode_objects_def bt_get_def map_of_map)

definition stale_slot :: "bytes list \<Rightarrow> u64 \<Rightarrow> u64 \<Rightarrow> bool" where
  "stale_slot blocks base gen \<longleftrightarrow>
    (\<forall>c. root_candidate (blocks ! (unat base + (1 - unat gen mod 2))) = Some c \<longrightarrow> rr_generation c < gen)"

definition os_state :: "u64 \<Rightarrow> bytes list \<Rightarrow> object_graph \<Rightarrow> object_id \<Rightarrow> manifest \<Rightarrow> bool" where
  "os_state base blocks g vfs m \<longleftrightarrow>
    man_base_lba m = base \<and> graph_storable g \<and>
    unat base + 2 \<le> unat (man_log_end m) \<and> unat (man_log_end m) \<le> length blocks \<and>
    indexed (unat base + 2) (arena_of blocks (unat base + 2) (unat (man_log_end m))) (man_index m) (encs_of g) \<and>
    stale_slot blocks base (man_generation m) \<and>
    (\<exists>mlba mblocks pad.
      root_candidate (blocks ! (unat base + unat (man_generation m) mod 2)) =
        Some \<lparr>rr_generation = man_generation m, rr_vfs_root = vfs, rr_manifest_lba = mlba,
              rr_manifest_blocks = mblocks, rr_log_end = man_log_end m\<rparr> \<and>
      unat base + 2 \<le> unat mlba \<and> unat mlba + unat mblocks = unat (man_log_end m) \<and>
      drop ((unat mlba - (unat base + 2)) * BLOCK_SIZE) (arena_of blocks (unat base + 2) (unat (man_log_end m))) =
        encode_manifest (man_index m) (og_head g) (og_history g) @ pad)"

lemma indexed_keys:
  assumes "indexed ds arena index (encs_of g)" and "graph_storable g"
  shows "map fst index = map fst (og_store g)"
proof -
  have wf: "bt_wf index" "bt_wf (og_store g)" using assms by (auto simp: indexed_def graph_storable_def cs_inv_def)
  have "bt_get index i = None \<longleftrightarrow> bt_get (og_store g) i = None" for i
    using assms(1) unfolding indexed_def encs_of_eq
    by (metis option.rel_distinct(1) option.rel_distinct(2) option.map_disc_iff not_None_eq)
  then have "fst ` set index = fst ` set (og_store g)"
    by (auto simp: bt_get_def map_of_eq_None_iff)
  then show ?thesis
    using wf unfolding bt_wf_def by (metis list.set_map sorted_distinct_set_unique strict_sorted_iff)
qed

lemma indexed_manifest_wf:
  assumes "indexed ds arena index (encs_of g)" and "graph_storable g"
  shows "manifest_wf index (og_head g) (og_history g)"
proof -
  have keys: "map fst index = map fst (og_store g)" using assms by (rule indexed_keys)
  then have "length index = length (og_store g)" by (metis length_map)
  moreover have "length i = 32" if "(i, e) \<in> set index" for i e
  proof -
    have "i \<in> fst ` set (og_store g)" using that keys by (metis fst_conv imageI list.set_map)
    then show ?thesis using assms(2) by (auto simp: graph_storable_def cs_inv_def object_id_def)
  qed
  ultimately show ?thesis using assms by (auto simp: manifest_wf_def graph_storable_def indexed_def)
qed

lemma arena_slice_entry:
  assumes "entry_ok (unat ds) arena (lba, len) bs" and "length arena < 2 ^ 63"
  shows "arena_slice arena ds lba (ucast len) = Some bs"
proof -
  have e: "unat ds \<le> unat lba" "unat len = length bs" "(unat lba - unat ds) * 512 + length bs \<le> length arena"
    "slice ((unat lba - unat ds) * 512) (length bs) arena = bs"
    using assms(1) by (simp_all add: entry_ok_def)
  have sub: "unat (lba - ds) = unat lba - unat ds" using e(1) by (simp add: unat_sub word_le_nat_alt)
  have off: "unat ((lba - ds) * 512) = (unat lba - unat ds) * 512"
    using e(3) assms(2) unfolding unat_word_ariths(2) sub by simp
  have len: "unat (ucast len :: u64) = length bs" by (simp add: e(2) [symmetric] unsigned_ucast_eq unsigned_take_bit_eq [symmetric] take_bit_word_eq_self)
  have to: "unat ((lba - ds) * 512 + ucast len) = (unat lba - unat ds) * 512 + length bs"
    using e(3) assms(2) off len by (subst unat_word_ariths) simp
  show ?thesis using e off to
    by (simp add: arena_slice_def checked_sub_def word_le_nat_alt get_range_def Let_def)
qed

lemma load_objects_ok:
  assumes "length arena < 2 ^ 63" and "\<forall>(_, obj) \<in> set store. object_wf (2 ^ 64) obj"
    and "\<forall>(i, obj) \<in> set store. i = object_id obj" and "map fst index = map fst store"
    and "\<And>i e obj. (i, e) \<in> set index \<Longrightarrow> (i, obj) \<in> set store \<Longrightarrow> entry_ok (unat ds) arena e (object_encode obj)"
  shows "load_objects arena ds index = Ok (Some (map (\<lambda>(_, obj). object_canon obj) store))"
  using assms(2-5)
proof (induction index arbitrary: store)
  case (Cons x index)
  obtain i lba len where x: "x = (i, lba, len)" by (cases x)
  obtain obj store' where st: "store = (i, obj) # store'" "map fst index = map fst store'"
    using Cons.prems(3) x by (cases store) auto
  have "arena_slice arena ds lba (ucast len) = Some (object_encode obj)"
    using Cons.prems(4) [of i "(lba, len)" obj] by (intro arena_slice_entry assms(1)) (auto simp: x st)
  moreover have "object_decode (object_encode obj) = Ok (object_canon obj)"
    using Cons.prems(1) by (intro object_decode_encode) (auto simp: st)
  moreover have "object_id (object_canon obj) = i" using Cons.prems(2) by (simp add: object_id_def st)
  moreover have "load_objects arena ds index = Ok (Some (map (\<lambda>(_, obj). object_canon obj) store'))"
    using Cons.prems(1,2) Cons.prems(4) st by (intro Cons.IH) (auto simp: x)
  ultimately show ?case by (simp add: x st)
qed simp

lemma restore_canon:
  assumes "cs_inv object_id (og_store g)"
  shows "og_restore (map (\<lambda>(_, obj). object_canon obj) (og_store g)) (og_head g) (og_history g) = graph_canon g"
proof -
  let ?m = "map (\<lambda>(k, obj). (k, object_canon obj)) (og_store g)"
  have "cs_inv object_id ?m"
    using assms by (auto simp: cs_inv_def bt_wf_def comp_def case_prod_beta object_id_def)
  then have "foldl (\<lambda>s (k, v). snd (cs_publish object_id v s)) [] ?m = ?m"
    using publish_sorted_rebuilds [of object_id "[]" ?m] by simp
  then have "foldl (\<lambda>st obj. snd (cs_publish object_id obj st)) cs_new (map (\<lambda>(_, obj). object_canon obj) (og_store g)) = ?m"
    by (simp add: cs_new_def foldl_map case_prod_beta)
  then show ?thesis by (cases g) (simp add: og_restore_def graph_canon_def)
qed

lemma unat_plus2: "unat (base :: u64) + 2 < 2 ^ 64 \<Longrightarrow> unat (base + 2) = unat base + 2"
  by (simp add: unat_word_ariths)

lemma load_arena_ok:
  assumes st: "graph_storable g" "indexed (unat base + 2) arena index (encs_of g)"
    and len: "length arena = (unat le - (unat base + 2)) * 512" "length arena < 2 ^ 63"
    and m: "unat base + 2 \<le> unat mlba" "unat mlba + unat mblocks = unat le" "unat base + 2 < 2 ^ 64"
    and man: "drop ((unat mlba - (unat base + 2)) * 512) arena = encode_manifest index (og_head g) (og_history g) @ pad"
  shows "load_arena base \<lparr>rr_generation = gen, rr_vfs_root = vfs, rr_manifest_lba = mlba,
      rr_manifest_blocks = mblocks, rr_log_end = le\<rparr> arena =
    Ok (Some (graph_canon g, vfs,
      \<lparr>man_base_lba = base, man_log_end = le, man_index = index, man_generation = gen\<rparr>))"
proof -
  have ds: "unat (base + 2) = unat base + 2" using m(3) by (rule unat_plus2)
  have sub: "unat (mlba - (base + 2)) = unat mlba - (unat base + 2)"
    using m(1) ds by (simp add: unat_sub word_le_nat_alt del: diff_diff_left)
  have blocks: "(unat mlba - (unat base + 2)) * 512 + unat mblocks * 512 = length arena"
    using m(1,2) by (simp add: len(1) add_mult_distrib [symmetric])
  have off: "unat ((mlba - (base + 2)) * 512) = (unat mlba - (unat base + 2)) * 512"
    using blocks len(2) unfolding unat_word_ariths(2) sub by simp
  have mlen: "unat (mblocks * 512) = unat mblocks * 512"
    using blocks len(2) unfolding unat_word_ariths(2) by simp
  have to: "unat ((mlba - (base + 2)) * 512 + mblocks * 512) = length arena"
    using blocks len(2) off mlen by (subst unat_word_ariths) simp
  have get: "get_range arena ((mlba - (base + 2)) * 512) ((mlba - (base + 2)) * 512 + mblocks * 512)
      = Some (encode_manifest index (og_head g) (og_history g) @ pad)"
    unfolding get_range_def word_le_nat_alt off to man [symmetric] using blocks by (simp add: slice_def)
  have chk: "checked_sub mlba (base + 2) = Some (mlba - (base + 2))"
    using m(1) ds by (simp add: checked_sub_def word_le_nat_alt)
  have cs: "cs_inv object_id (og_store g)" using st(1) by (simp add: graph_storable_def)
  have "load_objects arena (base + 2) index = Ok (Some (map (\<lambda>(_, obj). object_canon obj) (og_store g)))"
  proof (rule load_objects_ok [OF len(2)])
    show "map fst index = map fst (og_store g)" using st(2,1) by (rule indexed_keys)
    fix i e obj
    assume "(i, e) \<in> set index" "(i, obj) \<in> set (og_store g)"
    then have "bt_get index i = Some e" "bt_get (og_store g) i = Some obj"
      using st(2) cs by (simp_all add: indexed_def cs_inv_def bt_get_iff_mem)
    then show "entry_ok (unat (base + 2)) arena e (object_encode obj)"
      using st(2) unfolding indexed_def encs_of_eq ds by (metis option.map(2) option.rel_inject(2))
  qed (use st(1) in \<open>auto simp: graph_storable_def cs_inv_def\<close>)
  then show ?thesis
    using get chk restore_canon [OF cs] decode_encode_manifest [OF indexed_manifest_wf [OF st(2,1)], of pad]
    by (simp add: load_arena_def Let_def)
qed

lemma newer_root_pair:
  assumes "root_candidate (if s = 0 then r0 else r1) = Some c" and "s = 0 \<or> s = Suc 0"
    and "\<forall>c'. root_candidate (if s = 0 then r1 else r0) = Some c' \<longrightarrow> rr_generation c' < rr_generation c"
  shows "newer_root (newer_root None (root_candidate r0)) (root_candidate r1) = Some c"
  using assms by (auto simp: newer_root_def split: option.splits)

context atomic_device
begin

lemma read_root_eq:
  assumes "inv d" and "unat base + 2 \<le> length (contents d)"
  shows "\<exists>d'. read_root ops base d = (Ok (newer_root (newer_root None (root_candidate (contents d ! unat base)))
      (root_candidate (contents d ! (unat base + 1)))), d') \<and> inv d' \<and> contents d' = contents d"
proof -
  obtain d1 where d1: "bd_read_block ops base BLOCK_SIZE d = (Ok (contents d ! unat base), d1)" "inv d1"
      "contents d1 = contents d"
    using read_law [OF assms(1), of base] assms(2) by auto
  have b1: "unat (base + 1) = unat base + 1" using unat_lba [OF assms(1), of base 1] assms(2) by simp
  obtain d2 where d2: "bd_read_block ops (base + 1) BLOCK_SIZE d1 = (Ok (contents d ! (unat base + 1)), d2)"
      "inv d2" "contents d2 = contents d"
    using read_law [OF d1(2), of "base + 1"] assms(2) b1 d1(3) by auto
  show ?thesis using d1 d2 by (simp add: read_root_def io_bind_def io_return_def)
qed

lemma load_state:
  assumes "inv d" and "length (contents d) < 2 ^ 54" and "os_state base (contents d) g vfs m"
  shows "\<exists>d'. os_load ops base d = (Ok (Some (graph_canon g, vfs, m)), d') \<and> inv d' \<and> contents d' = contents d"
proof -
  let ?ds = "unat base + 2" and ?le = "unat (man_log_end m)" and ?gen = "man_generation m"
  let ?arena = "arena_of (contents d) ?ds ?le"
  obtain mlba mblocks pad where
      root: "root_candidate (contents d ! (unat base + unat ?gen mod 2)) =
        Some \<lparr>rr_generation = ?gen, rr_vfs_root = vfs, rr_manifest_lba = mlba,
              rr_manifest_blocks = mblocks, rr_log_end = man_log_end m\<rparr>"
      and m: "?ds \<le> unat mlba" "unat mlba + unat mblocks = ?le"
      and man: "drop ((unat mlba - ?ds) * BLOCK_SIZE) ?arena = encode_manifest (man_index m) (og_head g) (og_history g) @ pad"
    using assms(3) by (auto simp: os_state_def)
  have st: "graph_storable g" "indexed ?ds ?arena (man_index m) (encs_of g)" "man_base_lba m = base"
    and le: "?ds \<le> ?le" "?le \<le> length (contents d)" and stale: "stale_slot (contents d) base ?gen"
    using assms(3) by (simp_all add: os_state_def)
  have parity: "unat ?gen mod 2 = 0 \<or> unat ?gen mod 2 = Suc 0" by auto
  have "newer_root (newer_root None (root_candidate (contents d ! unat base))) (root_candidate (contents d ! (unat base + 1)))
      = Some \<lparr>rr_generation = ?gen, rr_vfs_root = vfs, rr_manifest_lba = mlba,
              rr_manifest_blocks = mblocks, rr_log_end = man_log_end m\<rparr>"
    using root stale parity by (intro newer_root_pair [of "unat ?gen mod 2"]) (auto simp: stale_slot_def)
  then obtain d1 where d1: "read_root ops base d = (Ok (Some \<lparr>rr_generation = ?gen, rr_vfs_root = vfs,
      rr_manifest_lba = mlba, rr_manifest_blocks = mblocks, rr_log_end = man_log_end m\<rparr>), d1)" "inv d1"
      "contents d1 = contents d"
    using read_root_eq [OF assms(1), of base] le by auto
  have ds: "unat (base + 2) = ?ds" using le assms(2) by (intro unat_plus2) simp
  let ?ab = "saturating_sub (man_log_end m) (base + 2)"
  have ab: "unat ?ab = ?le - ?ds" by (simp add: unat_saturating_sub ds)
  have alen: "unat (?ab * 512) = (?le - ?ds) * 512"
    unfolding unat_word_ariths(2) ab using le assms(2) by simp
  have len: "length ?arena = (?le - ?ds) * 512"
    using block_len [OF assms(1)] le(2) by (intro length_arena_of) auto
  have "\<exists>d2. (if ?ab > 0 then bd_read_blocks ops (base + 2) (unat (?ab * 512))
      else io_return (replicate (unat (?ab * 512)) 0)) d1 = (Ok ?arena, d2) \<and> inv d2 \<and> contents d2 = contents d"
  proof (cases "?le = ?ds")
    case True
    then have "?ab = 0" using ab by (simp add: unat_eq_0)
    then show ?thesis using d1 True by (simp add: io_return_def arena_of_def slice_def)
  next
    case False
    then have "?ab > 0" using ab le(1) by (simp add: word_less_nat_alt)
    then show ?thesis
      using read_blocks [OF d1(2), of "base + 2" "?le - ?ds"] le d1(3) by (simp add: alen ds arena_of_def)
  qed
  moreover have "load_arena base \<lparr>rr_generation = ?gen, rr_vfs_root = vfs, rr_manifest_lba = mlba,
      rr_manifest_blocks = mblocks, rr_log_end = man_log_end m\<rparr> ?arena = Ok (Some (graph_canon g, vfs, m))"
    using load_arena_ok [OF st(1,2) len _ m _ man] le assms(2) len st(3) by (cases m) simp
  ultimately show ?thesis
    using d1(1) by (auto simp: os_load_def io_bind_def Let_def)
qed

end

subsection \<open>Writing the manifest and the root\<close>

lemma length_encode_manifest_eq:
  assumes "indexed ds arena index (encs_of g)" and "graph_storable g"
  shows "length (encode_manifest index (og_head g) (og_history g)) =
    20 + 44 * length (og_store g) + 32 * length (og_head g) + length (concat (map encode_commit (og_history g)))"
proof -
  have wf: "manifest_wf index (og_head g) (og_history g)" using assms by (rule indexed_manifest_wf)
  have "length (concat (map encode_entry index)) = 44 * length index"
    using wf by (auto simp: manifest_wf_def encode_entry_def length_concat comp_def case_prod_beta sum_list_triv
        cong: map_cong)
  moreover have "length index = length (og_store g)" using indexed_keys [OF assms] by (metis length_map)
  moreover have "length (concat (og_head g)) = 32 * length (og_head g)"
    using wf by (simp add: manifest_wf_def length_concat sum_list_triv cong: map_cong)
  ultimately show ?thesis by (simp add: encode_manifest_def MANIFEST_MAGIC_def)
qed

lemma length_encode_manifest:
  assumes "indexed ds arena index (encs_of g)" and "graph_storable g"
  shows "length (encode_manifest index (og_head g) (og_history g)) < 2 ^ 61"
  unfolding length_encode_manifest_eq [OF assms] using assms(2) by (simp add: graph_storable_def)

lemma unat_os_blocks: "n < 2 ^ 61 \<Longrightarrow> unat (os_blocks_for n) = blocks_for n"
  using blocks_for_bounds(2) [of n] by (simp add: os_blocks_for_def unat_of_nat)

lemma unat_log_end:
  assumes "unat mlba < 2 ^ 54" and "n < 2 ^ 61"
  shows "unat (mlba + os_blocks_for n) = unat mlba + blocks_for n"
  using assms blocks_for_bounds(2) [of n] by (simp add: unat_word_ariths unat_os_blocks)

lemma root_slot:
  fixes base gen :: u64
  assumes "unat base + 2 < 2 ^ 64"
  shows "unat (base + gen mod 2) = unat base + unat gen mod 2"
proof -
  have "unat (gen mod 2) = unat gen mod 2" by (simp add: unat_mod)
  moreover have "unat gen mod 2 < 2" by simp
  ultimately show ?thesis using assms by (subst unat_word_ariths) simp
qed

text \<open>The disk after the manifest run and the root block have been written.\<close>

lemma committed_state:
  assumes g: "graph_storable g" "length vfs = 32"
    and blocks: "length blocks < 2 ^ 54" "\<forall>b \<in> set blocks. length b = BLOCK_SIZE"
    and mlba: "unat base + 2 \<le> unat mlba" "unat mlba + blocks_for (length man) \<le> length blocks"
    and idx: "indexed (unat base + 2) (arena_of blocks (unat base + 2) (unat mlba)) index (encs_of g)"
    and man: "man = encode_manifest index (og_head g) (og_history g)"
    and stale: "stale_slot blocks base gen"
    and blocks': "blocks' = (blit (unat mlba) (chunks_exact BLOCK_SIZE (append_block_aligned [] man)) blocks)
      [unat base + unat gen mod 2 :=
        root_bytes gen vfs mlba (os_blocks_for (length man)) (mlba + os_blocks_for (length man)) (base + 2)]"
  shows "os_state base blocks' g vfs
    \<lparr>man_base_lba = base, man_log_end = mlba + os_blocks_for (length man), man_index = index, man_generation = gen\<rparr>"
proof -
  let ?ds = "unat base + 2" and ?buf = "append_block_aligned [] man" and ?slot = "unat base + unat gen mod 2"
  let ?cs = "chunks_exact BLOCK_SIZE ?buf" and ?le = "unat mlba + blocks_for (length man)"
  let ?A = "arena_of blocks ?ds (unat mlba)"
  have small: "length man < 2 ^ 61" unfolding man using idx g(1) by (rule length_encode_manifest)
  have le: "unat (mlba + os_blocks_for (length man)) = ?le"
    using mlba(2) blocks(1) small by (intro unat_log_end) simp_all
  have buf: "length ?buf = blocks_for (length man) * BLOCK_SIZE" by (simp add: length_append_block_aligned)
  have cs: "length ?cs = blocks_for (length man)" "concat ?cs = ?buf"
    using buf by (simp_all add: length_chunks_exact concat_chunks_exact)
  have slot: "?slot < ?ds" by simp
  have len: "length blocks' = length blocks" using mlba(2) cs by (simp add: blocks')
  have "arena_of blocks' ?ds ?le = arena_of (blit (unat mlba) ?cs blocks) ?ds ?le"
    using slot mlba(2) cs by (intro arena_of_cong) (auto simp: blocks')
  also have "\<dots> = ?A @ ?buf" using mlba cs arena_of_blit [of ?ds "unat mlba" ?cs blocks] by simp
  finally have arena: "arena_of blocks' ?ds ?le = ?A @ ?buf" .
  have A: "length ?A = (unat mlba - ?ds) * BLOCK_SIZE" using blocks(2) mlba(2) by (intro length_arena_of) auto
  have "root_candidate (blocks' ! ?slot) = Some \<lparr>rr_generation = gen, rr_vfs_root = vfs, rr_manifest_lba = mlba,
      rr_manifest_blocks = os_blocks_for (length man), rr_log_end = mlba + os_blocks_for (length man)\<rparr>"
    using slot mlba cs by (simp add: blocks' root_candidate_bytes [OF g(2)])
  moreover have "stale_slot blocks' base gen"
  proof -
    define j where "j = unat base + (1 - unat gen mod 2)"
    have "j \<noteq> ?slot" "j < unat mlba" using mlba(1) unfolding j_def by presburger+
    then have "blocks' ! j = blocks ! j"
      using mlba(2) cs by (simp add: blocks' nth_blit)
    then show ?thesis using stale by (simp only: stale_slot_def j_def)
  qed
  moreover have "drop ((unat mlba - ?ds) * BLOCK_SIZE) (?A @ ?buf) =
      encode_manifest index (og_head g) (og_history g) @ drop (length man) ?buf"
    using A by (simp add: append_block_aligned_def man)
  ultimately show ?thesis
    using g(1) mlba(1,2) len small indexed_append [OF idx, of ?buf]
    unfolding os_state_def manifest.simps le arena
    by (intro conjI exI [of _ mlba] exI [of _ "os_blocks_for (length man)"] exI [of _ "drop (length man) ?buf"])
      (simp_all add: unat_os_blocks)
qed

context atomic_device
begin

lemma write_manifest_and_root_step:
  assumes d: "inv d" "length (contents d) < 2 ^ 54" "unat cap = length (contents d)"
    and g: "graph_storable g" "length vfs = 32"
    and mlba: "unat base + 2 \<le> unat mlba" "unat mlba \<le> length (contents d)"
    and idx: "indexed (unat base + 2) (arena_of (contents d) (unat base + 2) (unat mlba)) index (encs_of g)"
    and stale: "stale_slot (contents d) base gen"
  obtains r d' where
    "write_manifest_and_root ops base (base + 2) mlba index (og_head g) (og_history g) vfs gen cap d = (r, d')"
    "inv d'" "length (contents d') = length (contents d)"
    "case r of Inl _ \<Rightarrow> \<forall>i < unat mlba. contents d' ! i = contents d ! i
     | Inr m \<Rightarrow> os_state base (contents d') g vfs m \<and> man_generation m = gen"
proof -
  define man where "man = encode_manifest index (og_head g) (og_history g)"
  let ?buf = "append_block_aligned [] man" and ?le = "mlba + os_blocks_for (length man)"
  let ?rb = "root_bytes gen vfs mlba (os_blocks_for (length man)) ?le (base + 2)"
  have small: "length man < 2 ^ 61" unfolding man_def using idx g(1) by (rule length_encode_manifest)
  have le: "unat ?le = unat mlba + blocks_for (length man)"
    using mlba(2) d(2) small by (intro unat_log_end) simp_all
  show ?thesis
  proof (cases "?le > cap")
    case True
    then show ?thesis
      using that [of "Err BlkFull" d] d by (simp add: write_manifest_and_root_def man_def [symmetric] Let_def io_fail_def)
  next
    case False
    then have fits: "unat mlba + blocks_for (length man) \<le> length (contents d)"
      using le d(3) by (simp add: word_less_nat_alt)
    have buf: "length ?buf = blocks_for (length man) * BLOCK_SIZE" by (simp add: length_append_block_aligned)
    obtain r1 d1 where w1: "bd_write_blocks ops mlba ?buf d = (r1, d1)" "inv d1"
        "length (contents d1) = length (contents d)" "\<And>i. i < unat mlba \<Longrightarrow> contents d1 ! i = contents d ! i"
        "isl r1 \<or> contents d1 = blit (unat mlba) (chunks_exact BLOCK_SIZE ?buf) (contents d)"
      using write_blocks_atomic [OF d(1) buf fits] by metis
    have slot: "unat (base + gen mod 2) = unat base + unat gen mod 2"
      using mlba d(2) by (intro root_slot) simp
    have in_range: "unat (base + gen mod 2) < length (contents d1)" unfolding slot w1(3) using mlba by simp
    obtain r2 d2 where w2: "bd_write_block ops (base + gen mod 2) ?rb d1 = (r2, d2)" "inv d2"
        "contents d2 = (case r2 of Inl _ \<Rightarrow> contents d1 | Inr _ \<Rightarrow> (contents d1)[unat (base + gen mod 2) := ?rb])"
      using write_law [OF w1(2) in_range length_root_bytes [OF g(2)]] by metis
    show ?thesis
    proof (cases r1)
      case (Inl e)
      then show ?thesis
        using that [of "Err e" d1] False w1
        by (simp add: write_manifest_and_root_def man_def [symmetric] Let_def io_bind_def)
    next
      case (Inr u)
      then have c1: "contents d1 = blit (unat mlba) (chunks_exact BLOCK_SIZE ?buf) (contents d)" using w1(5) by simp
      show ?thesis
      proof (cases r2)
        case (Inl e)
        then show ?thesis
          using that [of "Err e" d2] False w1 w2 Inr
          by (simp add: write_manifest_and_root_def man_def [symmetric] Let_def io_bind_def)
      next
        case (Inr v)
        let ?m = "\<lparr>man_base_lba = base, man_log_end = ?le, man_index = index, man_generation = gen\<rparr>"
        have c2: "contents d2 = (blit (unat mlba) (chunks_exact BLOCK_SIZE ?buf) (contents d))
            [unat base + unat gen mod 2 := ?rb]"
          using w2(3) Inr by (simp add: slot c1)
        have "os_state base (contents d2) g vfs ?m"
          using block_len [OF d(1)]
          by (intro committed_state [OF g d(2) _ mlba(1) fits idx man_def stale c2]) auto
        moreover have "length (contents d2) = length (contents d)" using w2(3) w1(3) Inr by simp
        ultimately show ?thesis
          using that [of "Ok ?m" d2] False w1(1) w2(1,2) Inr \<open>r1 = Inr u\<close>
          by (simp add: write_manifest_and_root_def man_def [symmetric] Let_def io_bind_def io_return_def)
      qed
    qed
  qed
qed

end

subsection \<open>Saving\<close>

lemma encode_objects_keys [simp]: "map fst (encode_objects st) = map fst st"
  by (simp add: encode_objects_def comp_def case_prod_beta)

lemma store_keys: "graph_storable g \<Longrightarrow> sorted (map fst (og_store g)) \<and> distinct (map fst (og_store g))"
  by (simp add: graph_storable_def cs_inv_def bt_wf_def strict_sorted_iff)

text \<open>A packing list that is a permutation of all encoded objects.\<close>

lemma put_all_objects:
  assumes "graph_storable g" and "mset items = mset (encode_objects (og_store g))"
  shows "put_all Map.empty items = encs_of g" "total_blocks items < 2 ^ 60" "\<forall>(i, bs) \<in> set items. length bs < 2 ^ 32"
proof -
  have set: "set items = set (encode_objects (og_store g))" using assms(2) by (rule mset_eq_setD)
  have "mset (map fst items) = mset (map fst (encode_objects (og_store g)))"
    using assms(2) by (metis mset_map)
  then have dist: "distinct (map fst items)"
    using store_keys [OF assms(1)] mset_eq_imp_distinct_iff by (metis encode_objects_keys)
  then have "map_of items = encs_of g"
    using set store_keys [OF assms(1)] unfolding encs_of_def by (subst map_of_inject_set) simp_all
  then show "put_all Map.empty items = encs_of g"
    using dist by (simp add: fun_eq_iff put_all_lookup split: option.split)
  have "total_blocks items = total_blocks (encode_objects (og_store g))"
    by (simp only: total_blocks_def sum_mset_sum_list [symmetric] mset_map assms(2))
  then show "total_blocks items < 2 ^ 60" using assms(1) by (simp add: graph_storable_def)
  show "\<forall>(i, bs) \<in> set items. length bs < 2 ^ 32"
    unfolding set using assms(1) by (auto simp: encode_objects_def graph_storable_def)
qed

text \<open>The objects that are not on the disk yet.\<close>

lemma map_of_filter_key: "map_of (filter (\<lambda>(k, _). P k) xs) i = (if P i then map_of xs i else None)"
  by (induction xs) auto

lemma total_blocks_filter: "total_blocks (encode_objects (filter P st)) \<le> total_blocks (encode_objects st)"
  by (induction st) (auto simp: encode_objects_def)

lemma fresh_objects_eq:
  assumes "graph_storable g"
  shows "fresh_objects m g = encode_objects (filter (\<lambda>(i, _). \<not> bt_contains (man_index m) i) (og_store g))"
proof -
  have "sorted (map fst (filter (\<lambda>(i, _). \<not> bt_contains (man_index m) i) (og_store g)))"
    using store_keys [OF assms] by (simp add: sorted_filter)
  then show ?thesis
    unfolding fresh_objects_def og_stored_objects_def cs_iter_def by (intro sort_key_id_if_sorted) simp
qed

lemma put_all_fresh:
  assumes "graph_storable g" and "indexed ds arena (man_index m) (encs_of g0)" and "encs_of g0 \<subseteq>\<^sub>m encs_of g"
  shows "put_all (encs_of g0) (fresh_objects m g) = encs_of g" "total_blocks (fresh_objects m g) < 2 ^ 60"
    "\<forall>(i, bs) \<in> set (fresh_objects m g). length bs < 2 ^ 32"
proof
  let ?fs = "filter (\<lambda>(i, _). \<not> bt_contains (man_index m) i) (og_store g)"
  have fresh: "fresh_objects m g = encode_objects ?fs" using assms(1) by (rule fresh_objects_eq)
  have dist: "distinct (map fst (fresh_objects m g))"
    using store_keys [OF assms(1)] unfolding fresh by (simp add: distinct_map_filter)
  fix i
  have "map_of (fresh_objects m g) i = (if bt_contains (man_index m) i then None else encs_of g i)"
    unfolding fresh encs_of_def encode_objects_def by (simp add: map_of_map map_of_filter_key)
  moreover have "bt_contains (man_index m) i \<longleftrightarrow> encs_of g0 i \<noteq> None"
    using assms(2) unfolding indexed_def bt_contains_def
    by (metis not_None_eq option.rel_distinct(1) option.rel_distinct(2))
  ultimately show "put_all (encs_of g0) (fresh_objects m g) i = encs_of g i"
    using assms(3) by (auto simp: put_all_lookup [OF dist] map_le_def dom_def split: option.splits)
next
  show "total_blocks (fresh_objects m g) < 2 ^ 60"
    unfolding fresh_objects_eq [OF assms(1)] using assms(1)
    by (intro le_less_trans [OF total_blocks_filter]) (simp add: graph_storable_def)
  show "\<forall>(i, bs) \<in> set (fresh_objects m g). length bs < 2 ^ 32"
    unfolding fresh_objects_eq [OF assms(1)] using assms(1) by (auto simp: encode_objects_def graph_storable_def)
qed

context atomic_device
begin

lemma pack_and_commit_step:
  assumes d: "inv d" "length (contents d) < 2 ^ 54" "unat cap = length (contents d)"
    and g: "graph_storable g" "length vfs = 32"
    and start: "unat base + 2 \<le> unat start" "unat start \<le> length (contents d)"
    and idx0: "indexed (unat base + 2) (arena_of (contents d) (unat base + 2) (unat start)) index0 f"
    and items: "put_all f items = encs_of g" "total_blocks items < 2 ^ 60" "\<forall>(i, bs) \<in> set items. length bs < 2 ^ 32"
    and stale: "stale_slot (contents d) base gen"
    and pack: "foldl pack_step (index0, [], start) items = (index, buf, lba)"
  obtains r d' where
    "(if lba > cap then io_fail BlkFull
      else io_bind (if buf \<noteq> [] then bd_write_blocks ops start buf else io_return ()) (\<lambda>_.
        write_manifest_and_root ops base (base + 2) lba index (og_head g) (og_history g) vfs gen cap)) d = (r, d')"
    "inv d'" "length (contents d') = length (contents d)"
    "case r of Inl _ \<Rightarrow> \<forall>i < unat start. contents d' ! i = contents d ! i
     | Inr m \<Rightarrow> os_state base (contents d') g vfs m \<and> man_generation m = gen"
proof -
  let ?ds = "unat base + 2"
  let ?A = "arena_of (contents d) ?ds (unat start)"
  have A: "length ?A = (unat start - ?ds) * BLOCK_SIZE"
    using block_len [OF d(1)] start(2) by (intro length_arena_of) auto
  have p: "indexed ?ds (?A @ buf) index (encs_of g)" "length (?A @ buf) = (unat lba - ?ds) * BLOCK_SIZE"
    "unat lba = unat start + total_blocks items"
    using pack_indexed [OF _ _ start(1) _ items(3) pack, of ?A f] idx0 A items(1,2) start(2) d(2) by simp_all
  show ?thesis
  proof (cases "lba > cap")
    case True
    then show ?thesis using that [of "Err BlkFull" d] d by (simp add: io_fail_def)
  next
    case False
    then have fits: "unat start + total_blocks items \<le> length (contents d)" using p(3) d(3) by (simp add: word_less_nat_alt)
    have "length (?A @ buf) = (unat start - ?ds) * BLOCK_SIZE + total_blocks items * BLOCK_SIZE"
      unfolding p(2,3) using start(1) by (simp add: algebra_simps)
    then have buf: "length buf = total_blocks items * BLOCK_SIZE" using A by simp
    obtain r1 d1 where w1: "(if buf \<noteq> [] then bd_write_blocks ops start buf else io_return ()) d = (r1, d1)" "inv d1"
        "length (contents d1) = length (contents d)" "\<And>i. i < unat start \<Longrightarrow> contents d1 ! i = contents d ! i"
        "isl r1 \<or> contents d1 = blit (unat start) (chunks_exact BLOCK_SIZE buf) (contents d)"
    proof (cases "buf = []")
      case True
      then show ?thesis using that [of "Ok ()" d] d(1) by (simp add: io_return_def chunks_exact_short)
    next
      case False
      show ?thesis
        by (rule write_blocks_atomic [OF d(1) buf fits], rule that) (use False in simp_all)
    qed
    show ?thesis
    proof (cases r1)
      case (Inl e)
      then show ?thesis using that [of "Err e" d1] False w1 by (simp add: io_bind_def)
    next
      case (Inr u)
      let ?cs = "chunks_exact BLOCK_SIZE buf"
      have cs: "length ?cs = total_blocks items" "concat ?cs = buf"
        using buf by (simp_all add: length_chunks_exact concat_chunks_exact)
      have c1: "contents d1 = blit (unat start) ?cs (contents d)" using w1(5) Inr by simp
      have "arena_of (contents d1) ?ds (unat lba) = ?A @ buf"
        unfolding c1 p(3) using arena_of_blit [OF start(1), of ?cs] fits cs by simp
      then have idx: "indexed ?ds (arena_of (contents d1) ?ds (unat lba)) index (encs_of g)" using p(1) by simp
      have stale1: "stale_slot (contents d1) base gen"
        using stale w1(4) [of "unat base + (1 - unat gen mod 2)"] start(1) by (simp add: stale_slot_def)
      obtain r2 d2 where w2: "write_manifest_and_root ops base (base + 2) lba index (og_head g) (og_history g) vfs gen cap d1
            = (r2, d2)" "inv d2" "length (contents d2) = length (contents d1)"
          "case r2 of Inl _ \<Rightarrow> \<forall>i < unat lba. contents d2 ! i = contents d1 ! i
           | Inr m \<Rightarrow> os_state base (contents d2) g vfs m \<and> man_generation m = gen"
        using write_manifest_and_root_step [OF w1(2) _ _ g _ _ idx stale1, of cap] d w1(3) start fits p(3) by auto
      show ?thesis
        using that [of r2 d2] False w1 w2 Inr p(3) by (cases r2) (auto simp: io_bind_def)
    qed
  qed
qed

end

text \<open>A committed state depends on the blocks below its log end only.\<close>

lemma os_state_frame:
  assumes "os_state base blocks g vfs m" and "length blocks' = length blocks"
    and "\<forall>i < unat (man_log_end m). blocks' ! i = blocks ! i"
  shows "os_state base blocks' g vfs m"
proof -
  let ?le = "unat (man_log_end m)"
  have le: "unat base + 2 \<le> ?le" "?le \<le> length blocks" using assms(1) by (simp_all add: os_state_def)
  then have "arena_of blocks' (unat base + 2) ?le = arena_of blocks (unat base + 2) ?le"
    using assms(2,3) by (intro arena_of_cong) simp_all
  moreover have "blocks' ! (unat base + unat (man_generation m) mod 2) = blocks ! (unat base + unat (man_generation m) mod 2)"
    using assms(3) le by simp
  moreover have "blocks' ! (unat base + (1 - unat (man_generation m) mod 2)) =
      blocks ! (unat base + (1 - unat (man_generation m) mod 2))"
    using assms(3) le by simp
  ultimately show ?thesis
    using assms(1,2) unfolding os_state_def stale_slot_def by simp
qed

lemma stale_next:
  assumes "os_state base blocks g vfs m" and "man_generation m \<noteq> - 1"
  shows "stale_slot blocks base (man_generation m + 1)"
proof -
  let ?g = "man_generation m"
  have "unat ?g \<noteq> 2 ^ 64 - 1"
    using assms(2) by (auto simp: word_unat_eq_iff unsigned_minus_1_eq_mask mask_eq_exp_minus_1)
  moreover have "unat ?g < 2 ^ 64" using unsigned_less [of ?g] by simp
  ultimately have inc: "unat (?g + 1) = unat ?g + 1" by (simp add: unat_word_ariths)
  then have "1 - unat (?g + 1) mod 2 = unat ?g mod 2" by presburger
  moreover have "?g < ?g + 1" using inc by (simp add: word_less_nat_alt)
  ultimately show ?thesis using assms(1) by (auto simp: os_state_def stale_slot_def)
qed

context atomic_device
begin

lemma save_manifest_append:
  assumes d: "inv d" "length (contents d) < 2 ^ 54"
    and state: "os_state base (contents d) g0 vfs0 m" and gen: "man_generation m \<noteq> - 1"
    and g: "graph_storable g" "length vfs = 32" "encs_of g0 \<subseteq>\<^sub>m encs_of g"
    and append: "\<not> needs_compaction m g base (bd_block_count ops d)"
  obtains r d' where "save_manifest ops base g vfs (Some m) d = (r, d')" "inv d'"
    "length (contents d') = length (contents d)"
    "case r of Inl _ \<Rightarrow> os_state base (contents d') g0 vfs0 m
     | Inr m' \<Rightarrow> os_state base (contents d') g vfs m' \<and> man_generation m' = man_generation m + 1"
proof -
  let ?le = "man_log_end m" and ?cap = "bd_block_count ops d"
  have st: "man_base_lba m = base" "unat base + 2 \<le> unat ?le" "unat ?le \<le> length (contents d)"
    "indexed (unat base + 2) (arena_of (contents d) (unat base + 2) (unat ?le)) (man_index m) (encs_of g0)"
    using state by (simp_all add: os_state_def)
  have cap: "unat ?cap = length (contents d)" using d(1) by (rule unat_count)
  obtain index buf lba where pack: "foldl pack_step (man_index m, [], ?le) (fresh_objects m g) = (index, buf, lba)"
    by (cases "foldl pack_step (man_index m, [], ?le) (fresh_objects m g)")
  obtain r d' where w: "(if lba > ?cap then io_fail BlkFull
      else io_bind (if buf \<noteq> [] then bd_write_blocks ops ?le buf else io_return ()) (\<lambda>_.
        write_manifest_and_root ops base (base + 2) lba index (og_head g) (og_history g) vfs
          (man_generation m + 1) ?cap)) d = (r, d')"
    "inv d'" "length (contents d') = length (contents d)"
    "case r of Inl _ \<Rightarrow> \<forall>i < unat ?le. contents d' ! i = contents d ! i
     | Inr m' \<Rightarrow> os_state base (contents d') g vfs m' \<and> man_generation m' = man_generation m + 1"
    by (rule pack_and_commit_step [OF d cap g(1,2) st(2-4) put_all_fresh [OF g(1) st(4) g(3)]
        stale_next [OF state gen] pack])
  show ?thesis
  proof (cases "base + 2 \<ge> ?cap")
    case True
    then show ?thesis using that [of "Err BlkFull" d] d(1) state by (simp add: save_manifest_def Let_def)
  next
    case False
    then have "save_manifest ops base g vfs (Some m) d = (r, d')"
      using append st(1) w(1) pack by (simp add: save_manifest_def Let_def write_append_def)
    then show ?thesis
      using that [of r d'] w(2-4) os_state_frame [OF state w(3)] by (cases r) auto
  qed
qed

lemma write_full_step:
  assumes d: "inv d" "length (contents d) < 2 ^ 54" "unat cap = length (contents d)"
    and base: "unat base + 2 \<le> length (contents d)"
    and g: "graph_storable g" "length vfs = 32" and all: "mset all = mset (encode_objects (og_store g))"
    and stale: "stale_slot (contents d) base gen"
  obtains r d' where "write_full ops base all (og_head g) (og_history g) vfs gen cap d = (r, d')" "inv d'"
    "length (contents d') = length (contents d)"
    "case r of Inl _ \<Rightarrow> True | Inr m' \<Rightarrow> os_state base (contents d') g vfs m' \<and> man_generation m' = gen"
proof -
  have ds: "unat (base + 2) = unat base + 2" using base d(2) by (intro unat_plus2) simp
  obtain index buf lba where pack: "foldl pack_step ([], [], base + 2) (sort_key fst all) = (index, buf, lba)"
    by (cases "foldl pack_step ([], [], base + 2) (sort_key fst all)")
  have idx0: "indexed (unat base + 2) (arena_of (contents d) (unat base + 2) (unat (base + 2))) [] Map.empty"
    by (simp add: indexed_def)
  have items: "mset (sort_key fst all) = mset (encode_objects (og_store g))" using all by simp
  obtain r d' where "(if lba > cap then io_fail BlkFull
      else io_bind (if buf \<noteq> [] then bd_write_blocks ops (base + 2) buf else io_return ()) (\<lambda>_.
        write_manifest_and_root ops base (base + 2) lba index (og_head g) (og_history g) vfs gen cap)) d = (r, d')"
    "inv d'" "length (contents d') = length (contents d)"
    "case r of Inl _ \<Rightarrow> \<forall>i < unat (base + 2). contents d' ! i = contents d ! i
     | Inr m' \<Rightarrow> os_state base (contents d') g vfs m' \<and> man_generation m' = gen"
    using pack_and_commit_step [OF d g(1,2) _ _ idx0 put_all_objects [OF g(1) items] stale pack] base
    unfolding ds by auto
  then show ?thesis using that [of r d'] pack by (cases r) (auto simp: write_full_def Let_def)
qed

end

lemma compaction_items:
  assumes "graph_storable g"
  shows "mset (fresh_objects m g @ encode_objects (filter (\<lambda>(i, _). bt_contains (man_index m) i) (og_stored_objects g)))
    = mset (encode_objects (og_store g))"
proof -
  let ?P = "\<lambda>(i, _). bt_contains (man_index m) i"
  have "mset (filter (\<lambda>(i, _). \<not> bt_contains (man_index m) i) (og_store g)) + mset (filter ?P (og_store g))
      = mset (og_store g)"
    unfolding mset_filter by (rule union_filter_mset_complement) auto
  then show ?thesis
    unfolding fresh_objects_eq [OF assms] encode_objects_def og_stored_objects_def cs_iter_def
    by (simp only: mset_append mset_map image_mset_union [symmetric])
qed

text \<open>No root record on the disk has exhausted the generation counter.\<close>

definition roots_left :: "bytes list \<Rightarrow> u64 \<Rightarrow> bool" where
  "roots_left blocks base \<longleftrightarrow>
    (\<forall>c. root_candidate (blocks ! unat base) = Some c \<or> root_candidate (blocks ! (unat base + 1)) = Some c \<longrightarrow>
      rr_generation c \<noteq> - 1)"

definition next_gen_of :: "bytes list \<Rightarrow> u64 \<Rightarrow> u64" where
  "next_gen_of blocks base =
    (case newer_root (newer_root None (root_candidate (blocks ! unat base))) (root_candidate (blocks ! (unat base + 1)))
     of Some r \<Rightarrow> rr_generation r | None \<Rightarrow> 0) + 1"

lemma less_plus_one: "(g :: u64) \<le> h \<Longrightarrow> h \<noteq> - 1 \<Longrightarrow> g < h + 1"
proof -
  assume "g \<le> h" "h \<noteq> - 1"
  then have "unat h \<noteq> 2 ^ 64 - 1" by (auto simp: word_unat_eq_iff unsigned_minus_1_eq_mask mask_eq_exp_minus_1)
  moreover have "unat h < 2 ^ 64" using unsigned_less [of h] by simp
  ultimately have "unat (h + 1) = unat h + 1" by (simp add: unat_word_ariths)
  then show ?thesis using \<open>g \<le> h\<close> by (simp add: word_less_nat_alt word_le_nat_alt)
qed

lemma stale_fresh:
  assumes "roots_left blocks base"
  shows "stale_slot blocks base (next_gen_of blocks base)"
  unfolding stale_slot_def
proof (intro allI impI)
  fix c
  let ?r0 = "root_candidate (blocks ! unat base)" and ?r1 = "root_candidate (blocks ! (unat base + 1))"
  assume "root_candidate (blocks ! (unat base + (1 - unat (next_gen_of blocks base) mod 2))) = Some c"
  moreover have "unat (next_gen_of blocks base) mod 2 = 0 \<or> unat (next_gen_of blocks base) mod 2 = Suc 0" by auto
  ultimately have "?r0 = Some c \<or> ?r1 = Some c" by auto
  then have "\<exists>b. newer_root (newer_root None ?r0) ?r1 = Some b \<and> rr_generation c \<le> rr_generation b \<and>
      (?r0 = Some b \<or> ?r1 = Some b)"
    by (auto simp: newer_root_def split: option.splits)
  then show "rr_generation c < next_gen_of blocks base"
    using assms unfolding next_gen_of_def roots_left_def by (auto intro: less_plus_one)
qed

context atomic_device
begin

lemma save_manifest_full:
  assumes d: "inv d" "length (contents d) < 2 ^ 54" and g: "graph_storable g" "length vfs = 32"
    and "prior = None \<and> unat base + 2 \<le> length (contents d) \<and> roots_left (contents d) base \<and> gen = next_gen_of (contents d) base \<or>
      (\<exists>m g0 vfs0. prior = Some m \<and> os_state base (contents d) g0 vfs0 m \<and> man_generation m \<noteq> - 1 \<and>
        gen = man_generation m + 1 \<and> needs_compaction m g base (bd_block_count ops d))"
  obtains r d' where "save_manifest ops base g vfs prior d = (r, d')" "inv d'"
    "length (contents d') = length (contents d)"
    "case r of Inl _ \<Rightarrow> True | Inr m' \<Rightarrow> os_state base (contents d') g vfs m' \<and> man_generation m' = gen"
proof (cases "base + 2 \<ge> bd_block_count ops d")
  case True
  then show ?thesis using that [of "Err BlkFull" d] d(1) by (simp add: save_manifest_def Let_def)
next
  case False
  have stale: "stale_slot (contents d) base gen" using assms(5) stale_fresh stale_next by blast
  let ?cap = "bd_block_count ops d"
  have cap: "unat ?cap = length (contents d)" using d(1) by (rule unat_count)
  show ?thesis using assms(5)
  proof (elim disjE exE conjE)
    assume p: "prior = None" "unat base + 2 \<le> length (contents d)" "gen = next_gen_of (contents d) base"
    obtain d1 where d1: "read_root ops base d = (Ok (newer_root (newer_root None (root_candidate (contents d ! unat base)))
        (root_candidate (contents d ! (unat base + 1)))), d1)" "inv d1" "contents d1 = contents d"
      using read_root_eq [OF d(1) p(2)] by blast
    then have run: "save_manifest ops base g vfs prior d =
        write_full ops base (encode_objects (og_store g)) (og_head g) (og_history g) vfs gen ?cap d1"
      using False p(1,3)
      by (simp add: save_manifest_def Let_def io_bind_def next_gen_of_def og_stored_objects_def cs_iter_def)
    have d1': "length (contents d1) < 2 ^ 54" "unat ?cap = length (contents d1)" "unat base + 2 \<le> length (contents d1)"
      "stale_slot (contents d1) base gen"
      using d cap p(2) stale by (simp_all add: d1(3))
    show ?thesis
      by (rule write_full_step [OF d1(2) d1'(1,2,3) g refl d1'(4)], rule that) (simp_all add: run d1(3))
  next
    fix m g0 vfs0
    assume p: "prior = Some m" "os_state base (contents d) g0 vfs0 m" "gen = man_generation m + 1"
      "needs_compaction m g base (bd_block_count ops d)"
    have base: "unat base + 2 \<le> length (contents d)" "man_base_lba m = base" using p(2) by (simp_all add: os_state_def)
    obtain r d' where "write_full ops base
        (fresh_objects m g @ encode_objects (filter (\<lambda>(i, _). bt_contains (man_index m) i) (og_stored_objects g)))
        (og_head g) (og_history g) vfs gen ?cap d = (r, d')" "inv d'" "length (contents d') = length (contents d)"
        "case r of Inl _ \<Rightarrow> True | Inr m' \<Rightarrow> os_state base (contents d') g vfs m' \<and> man_generation m' = gen"
      by (rule write_full_step [OF d cap base(1) g compaction_items [OF g(1)] stale])
    then show ?thesis
      using that [of r d'] False p base(2) by (simp add: save_manifest_def Let_def)
  qed
qed

end

text \<open>What a full rewrite takes on the disk, and that it succeeds when this fits.\<close>

definition image_blocks :: "object_graph \<Rightarrow> nat" where
  "image_blocks g = total_blocks (encode_objects (og_store g)) +
    blocks_for (20 + 44 * length (og_store g) + 32 * length (og_head g) + length (concat (map encode_commit (og_history g))))"

context block_device
begin

lemma write_full_ok:
  assumes d: "inv d" "length (contents d) < 2 ^ 54" "unat cap = length (contents d)"
    and g: "graph_storable g" "length vfs = 32" and all: "mset all = mset (encode_objects (og_store g))"
    and fits: "unat base + 2 + image_blocks g \<le> length (contents d)"
  shows "\<exists>m d'. write_full ops base all (og_head g) (og_history g) vfs gen cap d = (Ok m, d')"
proof -
  have ds: "unat (base + 2) = unat base + 2" using fits d(2) by (intro unat_plus2) simp
  obtain index buf lba where pack: "foldl pack_step ([], [], base + 2) (sort_key fst all) = (index, buf, lba)"
    by (cases "foldl pack_step ([], [], base + 2) (sort_key fst all)")
  have items: "mset (sort_key fst all) = mset (encode_objects (og_store g))" using all by simp
  note pa = put_all_objects [OF g(1) items]
  have "indexed (unat base + 2) ([] @ buf) index (encs_of g) \<and> length ([] @ buf) = (unat lba - (unat base + 2)) * BLOCK_SIZE \<and>
      unat lba = unat (base + 2) + total_blocks (sort_key fst all)"
    unfolding pa(1) [symmetric] using pa(2) fits d(2) ds
    by (intro pack_indexed [OF _ _ _ _ pa(3) pack]) (simp_all add: indexed_def)
  then have p: "indexed (unat base + 2) buf index (encs_of g)" "length buf = (unat lba - (unat base + 2)) * BLOCK_SIZE"
    "unat lba = unat base + 2 + total_blocks (sort_key fst all)" by (simp_all add: ds)
  have total: "total_blocks (sort_key fst all) = total_blocks (encode_objects (og_store g))"
    by (simp only: total_blocks_def sum_mset_sum_list [symmetric] mset_map items)
  define man where "man = encode_manifest index (og_head g) (og_history g)"
  have man: "total_blocks (encode_objects (og_store g)) + blocks_for (length man) = image_blocks g"
    unfolding man_def length_encode_manifest_eq [OF p(1) g(1)] image_blocks_def by simp
  have small: "length man < 2 ^ 61" unfolding man_def using p(1) g(1) by (rule length_encode_manifest)
  have le: "unat (lba + os_blocks_for (length man)) = unat lba + blocks_for (length man)"
    using fits d(2) man total p(3) small by (intro unat_log_end) simp_all
  have "\<not> lba > cap" "\<not> lba + os_blocks_for (length man) > cap"
    using fits man total p(3) le d(3) by (simp_all add: word_less_nat_alt)
  moreover have "\<exists>d1. (if buf \<noteq> [] then bd_write_blocks ops (base + 2) buf else io_return ()) d = (Ok (), d1) \<and> inv d1 \<and>
      length (contents d1) = length (contents d)"
  proof (cases "buf = []")
    case True
    then show ?thesis using d(1) by (simp add: io_return_def)
  next
    case False
    then obtain d1 where "bd_write_blocks ops (base + 2) buf d = (Ok (), d1)" "inv d1"
        "contents d1 = blit (unat (base + 2)) (chunks_exact BLOCK_SIZE buf) (contents d)"
      using write_blocks [OF d(1) p(2), of "base + 2"] fits man total p(3) by (auto simp: ds)
    moreover have "length (chunks_exact BLOCK_SIZE buf) = unat lba - (unat base + 2)"
      using p(2) by (simp add: length_chunks_exact)
    ultimately show ?thesis using False fits man total p(3) by (simp add: ds)
  qed
  then obtain d1 where d1: "(if buf \<noteq> [] then bd_write_blocks ops (base + 2) buf else io_return ()) d = (Ok (), d1)"
    "inv d1" "length (contents d1) = length (contents d)" by blast
  moreover obtain d2 where d2: "bd_write_blocks ops lba (append_block_aligned [] man) d1 = (Ok (), d2)" "inv d2"
      "length (contents d2) = length (contents d)"
  proof -
    have "length (append_block_aligned [] man) = blocks_for (length man) * BLOCK_SIZE"
      by (simp add: length_append_block_aligned)
    moreover from this have "length (chunks_exact BLOCK_SIZE (append_block_aligned [] man)) = blocks_for (length man)"
      by (simp add: length_chunks_exact)
    ultimately show ?thesis
      using that write_blocks [OF d1(2), of "append_block_aligned [] man" "blocks_for (length man)" lba]
        fits man total p(3) d1(3) by auto
  qed
  moreover have "unat (base + gen mod 2) < length (contents d2)"
    using fits d(2) d2(3) by (subst root_slot) simp_all
  then obtain d3 where "bd_write_block ops (base + gen mod 2)
      (root_bytes gen vfs lba (os_blocks_for (length man)) (lba + os_blocks_for (length man)) (base + 2)) d2 = (Ok (), d3)"
    using write_block_ok [OF d2(2) _ length_root_bytes [OF g(2)]] by blast
  ultimately show ?thesis
    using pack by (auto simp: write_full_def write_manifest_and_root_def Let_def man_def [symmetric] io_bind_def io_return_def)
qed

end

subsection \<open>Properties\<close>

text \<open>
  The object store on \<^verbatim>\<open>RamDisk\<close>, from any earlier contents of the disk: a storable graph that
  fits is saved without error, and loading then returns the graph (in canonical form), its
  namespace root, and the same manifest that \<^verbatim>\<open>save\<close> handed to its caller.
\<close>

theorem object_store_save_load:
  assumes "rd_inv d" and "length (rd_blocks d) < 2 ^ 54" and "roots_left (rd_blocks d) base"
    and "graph_storable g" and "length vfs = 32" and "unat base + 2 + image_blocks g \<le> length (rd_blocks d)"
  shows "\<exists>m d'. os_save ram_ops base g vfs None d = ((Ok (), Some m), d') \<and> rd_inv d' \<and>
    fst (os_load ram_ops base d') = Ok (Some (graph_canon g, vfs, m))"
proof -
  let ?cap = "bd_block_count ram_ops d"
  have ds: "unat (base + 2) = unat base + 2" using assms(2,6) by (intro unat_plus2) simp
  have cap: "unat ?cap = length (rd_blocks d)" using assms(1) by (rule ram.unat_count)
  have "0 < image_blocks g" by (simp add: image_blocks_def blocks_for_def div_greater_zero_iff)
  then have room: "\<not> base + 2 \<ge> ?cap" using assms(6) cap ds by (simp add: word_le_nat_alt)
  have base: "unat base + 2 \<le> length (rd_blocks d)" using assms(6) by simp
  obtain r d' where r: "save_manifest ram_ops base g vfs None d = (r, d')" "rd_inv d'"
    "length (rd_blocks d') = length (rd_blocks d)"
    "case r of Inl _ \<Rightarrow> True | Inr m' \<Rightarrow> os_state base (rd_blocks d') g vfs m' \<and>
       man_generation m' = next_gen_of (rd_blocks d) base"
    using ram.save_manifest_full [OF assms(1,2,4,5), of None base "next_gen_of (rd_blocks d) base"] assms(3) base by auto
  obtain d1 where d1: "read_root ram_ops base d = (Ok (newer_root (newer_root None (root_candidate (rd_blocks d ! unat base)))
      (root_candidate (rd_blocks d ! (unat base + 1)))), d1)" "rd_inv d1" "rd_blocks d1 = rd_blocks d"
    using ram.read_root_eq [OF assms(1) base] by blast
  have "\<exists>m d2. write_full ram_ops base (encode_objects (og_store g)) (og_head g) (og_history g) vfs
      (next_gen_of (rd_blocks d) base) ?cap d1 = (Ok m, d2)"
    using assms(2,4,5,6) d1(2,3) cap by (intro ram.write_full_ok) simp_all
  then obtain m where "r = Ok m"
    using r(1) d1(1) room
    by (auto simp: save_manifest_def Let_def io_bind_def next_gen_of_def og_stored_objects_def cs_iter_def)
  then show ?thesis
    using r ram.load_state [of d' base g vfs m] assms(2) by (auto simp: os_save_def)
qed

lemma root_candidate_zeros: "root_candidate (replicate 512 0) = None"
proof -
  have "hd (slice 0 8 (replicate 512 0)) \<noteq> hd ROOT_MAGIC" by (simp add: ROOT_MAGIC_def slice_def ascii_def)
  then have "slice 0 8 (replicate 512 0) \<noteq> ROOT_MAGIC" by metis
  then show ?thesis by (simp add: root_candidate_def)
qed

definition store_disk :: ram_disk where
  "store_disk = rd_new 32"

lemma store_disk_wf:
  "rd_inv store_disk" "length (rd_blocks store_disk) = 32" "roots_left (rd_blocks store_disk) 0"
proof -
  show "roots_left (rd_blocks store_disk) 0"
    by (simp add: roots_left_def store_disk_def rd_new_def root_candidate_zeros)
  show "rd_inv store_disk" "length (rd_blocks store_disk) = 32"
    unfolding store_disk_def by (simp_all add: rd_inv_new) (simp add: rd_new_def)
qed

lemma demo_graph_storable: "graph_storable demo_graph" "image_blocks demo_graph = 2"
proof -
  have "object_wf (2 ^ 64) demo_object"
    by (rule object_wf_mono [OF demo_object_wf]) (rule power_increasing; simp)
  moreover have len: "length (object_encode demo_object) = 72"
    by (simp add: object_encode_def demo_object_eq field_encode_def Let_def)
  ultimately show "graph_storable demo_graph"
    using demo_graph_wf unfolding graph_storable_def graph_wf_def
    by (simp add: demo_graph_eq encode_objects_def blocks_for_def encode_commit_def)
  show "image_blocks demo_graph = 2"
    by (simp add: image_blocks_def demo_graph_eq encode_objects_def blocks_for_def encode_commit_def len object_id_def)
qed

theorem object_store_save_load_witness:
  "\<exists>m d. os_save ram_ops 0 demo_graph (replicate 32 7) None store_disk = ((Ok (), Some m), d) \<and>
    fst (os_load ram_ops 0 d) = Ok (Some (graph_canon demo_graph, replicate 32 7, m))"
  using object_store_save_load [of store_disk 0 demo_graph "replicate 32 7"] store_disk_wf demo_graph_storable
  by auto

text \<open>
  A history of saves, each through a device that loses power after the given number of block
  writes; a failed save leaves the caller's manifest as it was.  The last component records which
  graph was last saved with success.
\<close>

type_synonym save_history = "(ram_disk \<times> manifest option) \<times> object_graph \<times> object_id"

definition save_attempt :: "u64 \<Rightarrow> save_history \<Rightarrow> object_graph \<times> object_id \<times> u64 \<Rightarrow> save_history" where
  "save_attempt base = (\<lambda>((disk, prior), saved) (g, vfs, budget).
    case os_save (faulty_ops ram_ops) base g vfs prior (fd_new disk budget) of
      ((r, prior), d) \<Rightarrow> ((fd_inner d, prior), if isl r then saved else (g, vfs)))"

text \<open>Objects are never dropped from one graph to the next, and no save rewrites the arena.\<close>

fun growing :: "object_graph \<Rightarrow> (object_graph \<times> object_id \<times> u64) list \<Rightarrow> bool" where
  "growing g0 [] = True"
| "growing g0 ((g, _, _) # as) = (bt_get (og_store g0) \<subseteq>\<^sub>m bt_get (og_store g) \<and> growing g as)"

fun appends_only :: "u64 \<Rightarrow> save_history \<Rightarrow> (object_graph \<times> object_id \<times> u64) list \<Rightarrow> bool" where
  "appends_only base h [] = True"
| "appends_only base h (a # as) =
    ((case h of ((disk, prior), _) \<Rightarrow> \<not> needs_compaction (the prior) (fst a) base (word_of_nat (length (rd_blocks disk)))) \<and>
     appends_only base (save_attempt base h a) as)"

lemma growing_trans:
  "bt_get (og_store g0) \<subseteq>\<^sub>m bt_get (og_store g) \<Longrightarrow> growing g as \<Longrightarrow> growing g0 as"
  by (cases as) (auto intro: map_le_trans)

lemma encs_of_mono: "bt_get (og_store g0) \<subseteq>\<^sub>m bt_get (og_store g) \<Longrightarrow> encs_of g0 \<subseteq>\<^sub>m encs_of g"
  by (force simp: map_le_def encs_of_eq dom_def)

lemma save_attempt_step:
  assumes "rd_inv disk" "length (rd_blocks disk) < 2 ^ 54" "os_state base (rd_blocks disk) g0 vfs0 m"
    and "man_generation m \<noteq> - 1" "graph_storable g" "length vfs = 32"
    and "bt_get (og_store g0) \<subseteq>\<^sub>m bt_get (og_store g)"
    and "\<not> needs_compaction m g base (word_of_nat (length (rd_blocks disk)))"
  obtains disk' m' g1 vfs1 where
    "save_attempt base ((disk, Some m), (g0, vfs0)) (g, vfs, budget) = ((disk', Some m'), (g1, vfs1))"
    "rd_inv disk'" "length (rd_blocks disk') = length (rd_blocks disk)" "os_state base (rd_blocks disk') g1 vfs1 m'"
    "man_generation m' = man_generation m \<and> g1 = g0 \<and> vfs1 = vfs0 \<or>
     man_generation m' = man_generation m + 1 \<and> g1 = g \<and> vfs1 = vfs"
proof -
  let ?d = "fd_new disk budget"
  have d: "rd_inv (fd_inner ?d)" "length (rd_blocks (fd_inner ?d)) < 2 ^ 54" "os_state base (rd_blocks (fd_inner ?d)) g0 vfs0 m"
    using assms(1-3) by (simp_all add: fd_new_def)
  have "\<not> needs_compaction m g base (bd_block_count (faulty_ops ram_ops) ?d)"
    using assms(8) by (simp add: faulty_ops_def ram_ops_def fd_new_def)
  from faulty.save_manifest_append [OF d assms(4-6) encs_of_mono [OF assms(7)] this]
  obtain r d' where "save_manifest (faulty_ops ram_ops) base g vfs (Some m) ?d = (r, d')" "rd_inv (fd_inner d')"
    "length (rd_blocks (fd_inner d')) = length (rd_blocks disk)"
    "case r of Inl _ \<Rightarrow> os_state base (rd_blocks (fd_inner d')) g0 vfs0 m
     | Inr m' \<Rightarrow> os_state base (rd_blocks (fd_inner d')) g vfs m' \<and> man_generation m' = man_generation m + 1"
    by (auto simp: fd_new_def)
  then show ?thesis
    using that by (cases r) (auto simp: save_attempt_def os_save_def)
qed

lemma first_save:
  assumes "rd_inv d" and "length (rd_blocks d) < 2 ^ 54" and "roots_left (rd_blocks d) base"
    and "unat base + 2 \<le> length (rd_blocks d)"
    and "graph_storable g" and "length vfs = 32" and "os_save ram_ops base g vfs None d = ((Ok (), Some m), d')"
  shows "rd_inv d' \<and> length (rd_blocks d') = length (rd_blocks d) \<and> os_state base (rd_blocks d') g vfs m \<and>
    man_generation m = next_gen_of (rd_blocks d) base"
proof -
  obtain r d1 where "save_manifest ram_ops base g vfs None d = (r, d1)" "rd_inv d1"
    "length (rd_blocks d1) = length (rd_blocks d)"
    "case r of Inl _ \<Rightarrow> True | Inr m' \<Rightarrow> os_state base (rd_blocks d1) g vfs m' \<and>
       man_generation m' = next_gen_of (rd_blocks d) base"
    using ram.save_manifest_full [OF assms(1,2,5,6), of None base "next_gen_of (rd_blocks d) base"] assms(3,4) by auto
  then show ?thesis using assms(7) by (auto simp: os_save_def split: sum.splits)
qed

lemma attempts_keep_state:
  assumes "rd_inv disk" "length (rd_blocks disk) < 2 ^ 54" "os_state base (rd_blocks disk) g0 vfs0 m"
    and "\<forall>(g, vfs, budget) \<in> set attempts. graph_storable g \<and> length vfs = 32"
    and "growing g0 attempts" and "appends_only base ((disk, Some m), (g0, vfs0)) attempts"
    and "unat (man_generation m) + length attempts < 2 ^ 64 - 1"
  shows "case foldl (save_attempt base) ((disk, Some m), (g0, vfs0)) attempts of ((disk, prior), (g, vfs)) \<Rightarrow>
    \<exists>m. prior = Some m \<and> fst (os_load ram_ops base disk) = Ok (Some (graph_canon g, vfs, m))"
  using assms
proof (induction attempts arbitrary: disk m g0 vfs0)
  case Nil
  then show ?case using ram.load_state [OF Nil.prems(1-3)] by auto
next
  case (Cons a as)
  obtain g vfs budget where a: "a = (g, vfs, budget)" by (cases a)
  have gen: "man_generation m \<noteq> - 1"
    using Cons.prems(7) by (auto simp: unsigned_minus_1_eq_mask mask_eq_exp_minus_1)
  obtain disk' m' g1 vfs1 where step:
    "save_attempt base ((disk, Some m), (g0, vfs0)) (g, vfs, budget) = ((disk', Some m'), (g1, vfs1))"
    "rd_inv disk'" "length (rd_blocks disk') = length (rd_blocks disk)" "os_state base (rd_blocks disk') g1 vfs1 m'"
    "man_generation m' = man_generation m \<and> g1 = g0 \<and> vfs1 = vfs0 \<or>
     man_generation m' = man_generation m + 1 \<and> g1 = g \<and> vfs1 = vfs"
    by (rule save_attempt_step [OF Cons.prems(1-3) gen, of g vfs budget]) (use Cons.prems(4-6) in \<open>auto simp: a\<close>)
  have "unat (man_generation m + 1) \<le> unat (man_generation m) + 1"
    by (simp add: unat_word_ariths)
  then have "unat (man_generation m') + length as < 2 ^ 64 - 1" using step(5) Cons.prems(7) by auto
  moreover have "growing g1 as" using step(5) Cons.prems(5) growing_trans by (auto simp: a)
  ultimately show ?case
    using Cons.IH [OF step(2) _ step(4)] Cons.prems step(1,3) by (simp add: a)
qed

text \<open>
  C4: Crash consistency of the object store.  After a first save, attempt any number of saves of a
  growing graph that append (no compaction), each cut off after an arbitrary number of block writes.
  Then loading returns exactly the graph and namespace root of the last save that returned
  successfully, and the caller's manifest is the one on the disk.
\<close>

theorem object_store_survives_power_loss:
  assumes "rd_inv d" and "length (rd_blocks d) < 2 ^ 54" and "roots_left (rd_blocks d) base"
    and "unat base + 2 \<le> length (rd_blocks d)"
    and "graph_storable g0" and "length vfs0 = 32" and "os_save ram_ops base g0 vfs0 None d = ((Ok (), Some m), d')"
    and "\<forall>(g, vfs, budget) \<in> set attempts. graph_storable g \<and> length vfs = 32"
    and "growing g0 attempts" and "appends_only base ((d', Some m), (g0, vfs0)) attempts"
    and "unat (man_generation m) + length attempts < 2 ^ 64 - 1"
  shows "case foldl (save_attempt base) ((d', Some m), (g0, vfs0)) attempts of ((disk, prior), (g, vfs)) \<Rightarrow>
    \<exists>m. prior = Some m \<and> fst (os_load ram_ops base disk) = Ok (Some (graph_canon g, vfs, m))"
proof -
  have "rd_inv d'" "length (rd_blocks d') < 2 ^ 54" "os_state base (rd_blocks d') g0 vfs0 m"
    using first_save [OF assms(1-7)] assms(2) by simp_all
  then show ?thesis using assms(8-11) by (rule attempts_keep_state)
qed

lemma write_full_manifest:
  assumes "write_full ops base all head history vfs gen cap d = (Ok m, d')"
    and "foldl pack_step ([], [], base + 2) (sort_key fst all) = (index, buf, lba)"
  shows "man_index m = index" "man_log_end m = lba + os_blocks_for (length (encode_manifest index head history))"
    "man_generation m = gen"
  using assms by (auto simp: write_full_def write_manifest_and_root_def Let_def io_bind_def io_return_def io_fail_def
      split: if_splits prod.splits sum.splits)

lemma demo_store_manifest:
  assumes "os_save ram_ops 0 demo_graph vfs None store_disk = ((Ok (), Some m), d)"
  shows "man_index m = [(object_id demo_object, 2, 72)]" "man_log_end m = 4" "man_generation m = 1"
proof -
  let ?pack = "foldl pack_step ([], [], 0 + 2) (sort_key fst (encode_objects (og_store demo_graph)))"
  obtain d1 where d1: "read_root ram_ops 0 store_disk = (Ok (newer_root (newer_root None
      (root_candidate (rd_blocks store_disk ! unat (0 :: u64)))) (root_candidate (rd_blocks store_disk ! (unat (0 :: u64) + 1)))), d1)"
    using ram.read_root_eq [OF store_disk_wf(1), of 0] store_disk_wf(2) by auto
  have len: "length (object_encode demo_object) = 72"
    by (simp add: object_encode_def demo_object_eq field_encode_def Let_def)
  have pack: "?pack = ([(object_id demo_object, 2, 72)], append_block_aligned [] (object_encode demo_object), 3)"
    by (simp add: demo_graph_eq encode_objects_def pack_step_def len os_blocks_for_def blocks_for_def)
  have full: "write_full ram_ops 0 (encode_objects (og_store demo_graph)) (og_head demo_graph) (og_history demo_graph) vfs
      (next_gen_of (rd_blocks store_disk) 0) (bd_block_count ram_ops store_disk) d1 = (Ok m, d)"
    using assms d1 unfolding os_save_def save_manifest_def Let_def
    by (auto simp: io_bind_def next_gen_of_def og_stored_objects_def cs_iter_def split: if_splits prod.splits sum.splits)
  have "next_gen_of (rd_blocks store_disk) 0 = 1"
    by (simp add: next_gen_of_def store_disk_def rd_new_def newer_root_def root_candidate_zeros)
  then show "man_index m = [(object_id demo_object, 2, 72)]" "man_log_end m = 4" "man_generation m = 1"
    using write_full_manifest [OF full pack]
    by (simp_all add: demo_graph_eq encode_manifest_def encode_entry_def encode_commit_def MANIFEST_MAGIC_def
        object_id_def os_blocks_for_def blocks_for_def)
qed

theorem object_store_survives_power_loss_witness:
  "\<exists>m d. os_save ram_ops 0 demo_graph (replicate 32 7) None store_disk = ((Ok (), Some m), d) \<and>
    (case save_attempt 0 ((d, Some m), (demo_graph, replicate 32 7)) (demo_graph, replicate 32 8, 1) of
       ((disk, prior), (g, vfs)) \<Rightarrow>
         \<exists>m. prior = Some m \<and> fst (os_load ram_ops 0 disk) = Ok (Some (graph_canon g, vfs, m)))"
proof -
  obtain m d where md: "os_save ram_ops 0 demo_graph (replicate 32 7) None store_disk = ((Ok (), Some m), d)" "rd_inv d"
    using object_store_save_load [of store_disk 0 demo_graph "replicate 32 7"] store_disk_wf demo_graph_storable by auto
  note man = demo_store_manifest [OF md(1)]
  have "length (rd_blocks d) = 32"
    using first_save [OF store_disk_wf(1) _ store_disk_wf(3) _ demo_graph_storable(1) _ md(1)] store_disk_wf(2) by simp
  moreover have "fresh_objects m demo_graph = []"
    unfolding fresh_objects_eq [OF demo_graph_storable(1)]
    by (simp add: man demo_graph_eq encode_objects_def bt_contains_def bt_get_def)
  ultimately have "appends_only 0 ((d, Some m), (demo_graph, replicate 32 7)) [(demo_graph, replicate 32 8, 1)]"
    using man
    by (simp add: needs_compaction_def sum_blocks_def os_blocks_for_def blocks_for_def saturating_sub_def
        COMPACT_DEAD_BLOCKS_def manifest_size_def og_stored_objects_def cs_iter_def Let_def)
      (simp add: demo_graph_eq)
  then show ?thesis
    using object_store_survives_power_loss [of store_disk 0 demo_graph "replicate 32 7" m d
        "[(demo_graph, replicate 32 8, 1)]"] store_disk_wf demo_graph_storable md(1) man(3)
    by auto
qed

end
