(* ===== verification/Sandbox_VM.thy ===== *)
theory Sandbox_VM
  imports Dominion_Prelude "HOL-Library.Signed_Division"
begin

text \<open>
  The polyglot sandbox, \<^verbatim>\<open>dominion-core/src/wasm.rs\<close>: a stack machine for guest code with bounded
  memory, metered execution and an allow-list of host functions.  An \<^verbatim>\<open>i64\<close> is the 64-bit word
  with the same bits.  The operand stack is a list with its top first.  The instruction counter
  \<^verbatim>\<open>gas\<close> is a 64-bit word that wraps, so the loop of \<^verbatim>\<open>run\<close> is a partial function and \<open>None\<close> is a
  run that does not end.  Host callbacks are the functions the host supplies; the source documents
  them as pure.
\<close>

subsection \<open>State\<close>

type_synonym i64 = "64 word"

datatype wop =
    WConst i64 | WAdd | WSub | WMul | WDiv | WRem | WEq | WLt
  | WGetLocal nat | WSetLocal nat | WLoad | WStore
  | WJump nat | WJumpIfZero nat | WCall u32 nat | WReturn

datatype trap =
    StackUnderflow | StackOverflow | MemoryOutOfBounds | LocalOutOfBounds | DivideByZero
  | OutOfGas | BadJump | UngrantedHostCall | BadHostArity

definition MAX_STACK_DEPTH :: nat where "MAX_STACK_DEPTH = 4096"

record host_fn =
  hf_id :: u32
  hf_arity :: nat
  hf_func :: "i64 list \<Rightarrow> i64"

record sandbox =
  sx_code :: "wop list"
  sx_memory :: "i64 list"
  sx_locals :: "i64 list"
  sx_imports :: "host_fn list"
  sx_gas_limit :: u64

definition sx_new :: "wop list \<Rightarrow> nat \<Rightarrow> nat \<Rightarrow> u64 \<Rightarrow> sandbox" where
  "sx_new code mem_cells n_locals gas_limit =
    \<lparr>sx_code = code, sx_memory = replicate mem_cells 0, sx_locals = replicate n_locals 0, sx_imports = [],
     sx_gas_limit = gas_limit\<rparr>"

definition sx_grant :: "host_fn \<Rightarrow> sandbox \<Rightarrow> sandbox" where
  "sx_grant import s = s\<lparr>sx_imports := sx_imports s @ [import]\<rparr>"

definition sx_set_local :: "nat \<Rightarrow> i64 \<Rightarrow> sandbox \<Rightarrow> bool \<times> sandbox" where
  "sx_set_local slot v s =
    (if slot < length (sx_locals s) then (True, s\<lparr>sx_locals := (sx_locals s)[slot := v]\<rparr>) else (False, s))"

text \<open>\<^verbatim>\<open>wrapping_div\<close> and \<^verbatim>\<open>wrapping_rem\<close>: division toward zero, with \<^verbatim>\<open>MIN / -1\<close> wrapping to \<^verbatim>\<open>MIN\<close>.\<close>

definition wrapping_div :: "i64 \<Rightarrow> i64 \<Rightarrow> i64" where
  "wrapping_div a b = word_of_int (sint a sdiv sint b)"

definition wrapping_rem :: "i64 \<Rightarrow> i64 \<Rightarrow> i64" where
  "wrapping_rem a b = word_of_int (sint a smod sint b)"

definition sx_cell :: "sandbox \<Rightarrow> i64 \<Rightarrow> trap + nat" where
  "sx_cell s addr =
    (if sint addr < 0 \<or> unat addr \<ge> length (sx_memory s) then Err MemoryOutOfBounds else Ok (unat addr))"

subsection \<open>One instruction\<close>

definition wpop :: "i64 list \<Rightarrow> trap + (i64 \<times> i64 list)" where
  "wpop stack = (case stack of [] \<Rightarrow> Err StackUnderflow | v # stack \<Rightarrow> Ok (v, stack))"

definition wpush :: "i64 \<Rightarrow> i64 list \<Rightarrow> trap + i64 list" where
  "wpush v stack = (if length stack \<ge> MAX_STACK_DEPTH then Err StackOverflow else Ok (v # stack))"

text \<open>The binary operators: pop \<^verbatim>\<open>b\<close>, pop \<^verbatim>\<open>a\<close>, push the result.\<close>

definition wbin :: "(i64 \<Rightarrow> i64 \<Rightarrow> trap + i64) \<Rightarrow> i64 list \<Rightarrow> trap + i64 list" where
  "wbin f stack =
    rbind (wpop stack) (\<lambda>(b, stack). rbind (wpop stack) (\<lambda>(a, stack).
      rbind (f a b) (\<lambda>v. wpush v stack)))"

text \<open>
  What an instruction does: it ends the run, or leaves a sandbox and a stack and either falls
  through to the next instruction or jumps.
\<close>

datatype flow = Halt i64 | Fall sandbox "i64 list" | Goto nat sandbox "i64 list"

definition fall :: "sandbox \<Rightarrow> trap + i64 list \<Rightarrow> trap + flow" where
  "fall s r = rbind r (\<lambda>stack. Ok (Fall s stack))"

definition jump_to :: "sandbox \<Rightarrow> nat \<Rightarrow> i64 list \<Rightarrow> trap + flow" where
  "jump_to s target stack = (if target > length (sx_code s) then Err BadJump else Ok (Goto target s stack))"

definition top_or_zero :: "i64 list \<Rightarrow> i64" where
  "top_or_zero stack = (case stack of [] \<Rightarrow> 0 | v # _ \<Rightarrow> v)"

fun exec_op :: "sandbox \<Rightarrow> i64 list \<Rightarrow> wop \<Rightarrow> trap + flow" where
  "exec_op s st (WConst v) = fall s (wpush v st)"
| "exec_op s st WAdd = fall s (wbin (\<lambda>a b. Ok (a + b)) st)"
| "exec_op s st WSub = fall s (wbin (\<lambda>a b. Ok (a - b)) st)"
| "exec_op s st WMul = fall s (wbin (\<lambda>a b. Ok (a * b)) st)"
| "exec_op s st WDiv = fall s (wbin (\<lambda>a b. if b = 0 then Err DivideByZero else Ok (wrapping_div a b)) st)"
| "exec_op s st WRem = fall s (wbin (\<lambda>a b. if b = 0 then Err DivideByZero else Ok (wrapping_rem a b)) st)"
| "exec_op s st WEq = fall s (wbin (\<lambda>a b. Ok (if a = b then 1 else 0)) st)"
| "exec_op s st WLt = fall s (wbin (\<lambda>a b. Ok (if sint a < sint b then 1 else 0)) st)"
| "exec_op s st (WGetLocal i) =
    (if i < length (sx_locals s) then fall s (wpush (sx_locals s ! i) st) else Err LocalOutOfBounds)"
| "exec_op s st (WSetLocal i) =
    rbind (wpop st) (\<lambda>(v, st).
      if i < length (sx_locals s) then Ok (Fall (s\<lparr>sx_locals := (sx_locals s)[i := v]\<rparr>) st) else Err LocalOutOfBounds)"
| "exec_op s st WLoad =
    rbind (wpop st) (\<lambda>(addr, st). rbind (sx_cell s addr) (\<lambda>c. fall s (wpush (sx_memory s ! c) st)))"
| "exec_op s st WStore =
    rbind (wpop st) (\<lambda>(v, st). rbind (wpop st) (\<lambda>(addr, st). rbind (sx_cell s addr) (\<lambda>c.
      Ok (Fall (s\<lparr>sx_memory := (sx_memory s)[c := v]\<rparr>) st))))"
| "exec_op s st (WJump target) = jump_to s target st"
| "exec_op s st (WJumpIfZero target) =
    rbind (wpop st) (\<lambda>(c, st). if c = 0 then jump_to s target st else Ok (Fall s st))"
| "exec_op s st (WCall i argc) =
    rbind (ok_or (List.find (\<lambda>h. hf_id h = i) (sx_imports s)) UngrantedHostCall) (\<lambda>import.
      if hf_arity import \<noteq> argc \<or> length st < argc then Err BadHostArity
      else fall s (wpush (hf_func import (rev (take argc st))) (drop argc st)))"
| "exec_op s st WReturn = Ok (Halt (top_or_zero st))"

subsection \<open>The run loop\<close>

record vm =
  vm_sandbox :: sandbox
  vm_stack :: "i64 list"
  vm_pc :: nat
  vm_gas :: u64

type_synonym run_result = "(trap + i64) \<times> sandbox"

definition vm_step :: "vm \<Rightarrow> vm + run_result" where
  "vm_step c =
    (let s = vm_sandbox c in
     if vm_pc c < length (sx_code s) then
       let gas = vm_gas c + 1 in
       if gas > sx_gas_limit s then Inr (Err OutOfGas, s)
       else
         case exec_op s (vm_stack c) (sx_code s ! vm_pc c) of
           Inl t \<Rightarrow> Inr (Err t, s)
         | Inr (Halt v) \<Rightarrow> Inr (Ok v, s)
         | Inr (Fall s' st) \<Rightarrow> Inl \<lparr>vm_sandbox = s', vm_stack = st, vm_pc = vm_pc c + 1, vm_gas = gas\<rparr>
         | Inr (Goto target s' st) \<Rightarrow> Inl \<lparr>vm_sandbox = s', vm_stack = st, vm_pc = target, vm_gas = gas\<rparr>
     else Inr (Ok (top_or_zero (vm_stack c)), s))"

partial_function (option) vm_loop :: "vm \<Rightarrow> run_result option" where
  "vm_loop c = (case vm_step c of Inl c' \<Rightarrow> vm_loop c' | Inr r \<Rightarrow> Some r)"

definition vm_start :: "sandbox \<Rightarrow> vm" where
  "vm_start s = \<lparr>vm_sandbox = s, vm_stack = [], vm_pc = 0, vm_gas = 0\<rparr>"

definition sx_run :: "sandbox \<Rightarrow> run_result option" where
  "sx_run s = vm_loop (vm_start s)"

subsection \<open>Runs as sequences of steps\<close>

inductive vm_reach :: "vm \<Rightarrow> nat \<Rightarrow> vm \<Rightarrow> bool" where
  here: "vm_reach c 0 c"
| step: "vm_step c = Inl c' \<Longrightarrow> vm_reach c' n c'' \<Longrightarrow> vm_reach c (Suc n) c''"

inductive_cases vm_reach_SucE: "vm_reach c (Suc n) c''"

lemma vm_loop_next: "vm_step c = Inl c' \<Longrightarrow> vm_loop c = vm_loop c'"
  by (subst vm_loop.simps) simp

lemma vm_loop_stop: "vm_step c = Inr r \<Longrightarrow> vm_loop c = Some r"
  by (subst vm_loop.simps) simp

lemma vm_loop_reach: "vm_reach c n c' \<Longrightarrow> vm_loop c = vm_loop c'"
  by (induction rule: vm_reach.induct) (simp_all add: vm_loop_next)

lemma vm_loop_Some:
  assumes "vm_loop c = Some r"
  shows "\<exists>n c'. vm_reach c n c' \<and> vm_step c' = Inr r"
proof (rule vm_loop.raw_induct [OF _ assms])
  fix loop :: "vm \<Rightarrow> run_result option" and c r
  assume IH: "\<And>c r. loop c = Some r \<Longrightarrow> \<exists>n c'. vm_reach c n c' \<and> vm_step c' = Inr r"
    and body: "(case vm_step c of Inl c' \<Rightarrow> loop c' | Inr r \<Rightarrow> Some r) = Some r"
  show "\<exists>n c'. vm_reach c n c' \<and> vm_step c' = Inr r"
  proof (cases "vm_step c")
    case (Inl c1)
    then obtain n c' where "vm_reach c1 n c'" "vm_step c' = Inr r" using IH [of c1 r] body by auto
    then show ?thesis using Inl by (blast intro: vm_reach.step)
  next
    case (Inr r')
    then show ?thesis using body by (auto intro: vm_reach.here)
  qed
qed

lemma vm_loop_iff: "vm_loop c = Some r \<longleftrightarrow> (\<exists>n c'. vm_reach c n c' \<and> vm_step c' = Inr r)"
  using vm_loop_Some [of c r] by (auto simp: vm_loop_reach vm_loop_stop)

subsection \<open>Confinement\<close>

text \<open>What a guest can change of its sandbox: the contents of its memory and locals.\<close>

definition confined :: "sandbox \<Rightarrow> sandbox \<Rightarrow> bool" where
  "confined s s' \<longleftrightarrow> sx_code s' = sx_code s \<and> sx_imports s' = sx_imports s \<and> sx_gas_limit s' = sx_gas_limit s \<and>
    length (sx_memory s') = length (sx_memory s) \<and> length (sx_locals s') = length (sx_locals s)"

lemma confined_refl [simp]: "confined s s"
  by (simp add: confined_def)

lemma confined_trans: "confined s s' \<Longrightarrow> confined s' s'' \<Longrightarrow> confined s s''"
  by (simp add: confined_def)

lemma wpop_Ok: "wpop st = Ok (v, st') \<longleftrightarrow> st = v # st'"
  by (auto simp: wpop_def split: list.splits)

lemma wpush_Ok: "wpush v st = Ok st' \<longleftrightarrow> st' = v # st \<and> length st < MAX_STACK_DEPTH"
  by (auto simp: wpush_def)

lemma wbin_Ok:
  "wbin f st = Ok st' \<Longrightarrow> length st \<le> MAX_STACK_DEPTH \<Longrightarrow> length st' \<le> MAX_STACK_DEPTH"
  by (auto simp: wbin_def rbind_Ok_iff wpop_Ok wpush_Ok)

lemma fall_Ok: "fall s r = Ok f \<longleftrightarrow> (\<exists>st. r = Ok st \<and> f = Fall s st)"
  by (auto simp: fall_def rbind_Ok_iff)

definition flow_ok :: "sandbox \<Rightarrow> flow \<Rightarrow> bool" where
  "flow_ok s f = (case f of
     Halt _ \<Rightarrow> True
   | Fall s' st \<Rightarrow> confined s s' \<and> length st \<le> MAX_STACK_DEPTH
   | Goto t s' st \<Rightarrow> s' = s \<and> t \<le> length (sx_code s) \<and> length st \<le> MAX_STACK_DEPTH)"

lemma jump_to_Ok: "jump_to s t st = Ok f \<longleftrightarrow> t \<le> length (sx_code s) \<and> f = Goto t s st"
  by (auto simp: jump_to_def)

lemma exec_op_ok:
  assumes "exec_op s st oper = Ok f" and "length st \<le> MAX_STACK_DEPTH"
  shows "flow_ok s f"
proof (cases oper)
  case (WCall i argc)
  then show ?thesis using assms
    by (auto simp: rbind_Ok_iff fall_Ok wpush_Ok flow_ok_def ok_or_def split: option.splits if_splits)
next
  case (WJumpIfZero t)
  then show ?thesis using assms by (auto simp: rbind_Ok_iff wpop_Ok jump_to_Ok flow_ok_def split: if_splits)
next
  case WStore
  then show ?thesis using assms by (auto simp: rbind_Ok_iff wpop_Ok flow_ok_def confined_def)
next
  case WLoad
  then show ?thesis using assms by (auto simp: rbind_Ok_iff wpop_Ok fall_Ok wpush_Ok flow_ok_def)
next
  case (WSetLocal i)
  then show ?thesis using assms by (auto simp: rbind_Ok_iff wpop_Ok flow_ok_def confined_def split: if_splits)
qed (use assms in \<open>auto simp: fall_Ok wpush_Ok jump_to_Ok flow_ok_def dest: wbin_Ok split: if_splits\<close>)

definition vm_inv :: "sandbox \<Rightarrow> vm \<Rightarrow> bool" where
  "vm_inv s c \<longleftrightarrow> confined s (vm_sandbox c) \<and> length (vm_stack c) \<le> MAX_STACK_DEPTH \<and> vm_pc c \<le> length (sx_code s)"

lemma vm_inv_start: "vm_inv s (vm_start s)"
  by (simp add: vm_inv_def vm_start_def)

lemma vm_step_Inl:
  assumes "vm_step c = Inl c'"
  obtains f where "vm_pc c < length (sx_code (vm_sandbox c))" "vm_gas c' = vm_gas c + 1"
    "vm_gas c + 1 \<le> sx_gas_limit (vm_sandbox c)"
    "exec_op (vm_sandbox c) (vm_stack c) (sx_code (vm_sandbox c) ! vm_pc c) = Ok f"
    "f = Fall (vm_sandbox c') (vm_stack c') \<and> vm_pc c' = vm_pc c + 1 \<or>
     f = Goto (vm_pc c') (vm_sandbox c') (vm_stack c')"
  using assms that
  by (auto simp: vm_step_def Let_def not_less split: if_splits sum.splits flow.splits)

lemma vm_inv_step:
  assumes "vm_inv s c" and "vm_step c = Inl c'"
  shows "vm_inv s c'"
  using assms(2)
proof (rule vm_step_Inl)
  fix f
  assume f: "vm_pc c < length (sx_code (vm_sandbox c))"
    "exec_op (vm_sandbox c) (vm_stack c) (sx_code (vm_sandbox c) ! vm_pc c) = Ok f"
    "f = Fall (vm_sandbox c') (vm_stack c') \<and> vm_pc c' = vm_pc c + 1 \<or>
     f = Goto (vm_pc c') (vm_sandbox c') (vm_stack c')"
  have "flow_ok (vm_sandbox c) f" using exec_op_ok [OF f(2)] assms(1) by (simp add: vm_inv_def)
  then show ?thesis using f(1,3) assms(1) by (auto simp: vm_inv_def flow_ok_def confined_def)
qed

lemma vm_inv_reach: "vm_reach c n c' \<Longrightarrow> vm_inv s c \<Longrightarrow> vm_inv s c'"
  by (induction rule: vm_reach.induct) (auto intro: vm_inv_step)

lemma vm_step_Inr_sandbox: "vm_step c = Inr (r, s') \<Longrightarrow> s' = vm_sandbox c"
  by (auto simp: vm_step_def Let_def split: if_splits sum.splits flow.splits)

subsection \<open>Gas\<close>

lemma unat_inc:
  fixes g lim :: u64
  assumes "g \<le> lim" and "lim \<noteq> - 1"
  shows "unat (g + 1) = unat g + 1"
proof -
  have "unat lim \<noteq> 2 ^ 64 - 1"
    using assms(2) by (auto simp: word_unat_eq_iff unsigned_minus_1_eq_mask mask_eq_exp_minus_1)
  moreover have "unat lim < 2 ^ 64" using unsigned_less [of lim] by simp
  ultimately show ?thesis using assms(1) by (simp add: unat_word_ariths word_le_nat_alt)
qed

lemma gas_counts:
  assumes "vm_reach c n c'" and "vm_inv s c" and "sx_gas_limit s \<noteq> - 1" and "vm_gas c \<le> sx_gas_limit s"
  shows "unat (vm_gas c') = unat (vm_gas c) + n \<and> vm_gas c' \<le> sx_gas_limit s"
  using assms
proof (induction rule: vm_reach.induct)
  case (step c c' n c'')
  have inv: "vm_inv s c'" using step.prems(1) step.hyps(1) by (rule vm_inv_step)
  have "sx_gas_limit (vm_sandbox c) = sx_gas_limit s"
    using step.prems(1) by (simp add: vm_inv_def confined_def)
  then have gas: "vm_gas c' = vm_gas c + 1" "vm_gas c' \<le> sx_gas_limit s"
    using step.hyps(1) by (auto elim: vm_step_Inl)
  then show ?case
    using step.IH [OF inv step.prems(2)] unat_inc [OF step.prems(3,2)] by simp
qed simp

lemma vm_loop_None_reach: "vm_loop c = None \<Longrightarrow> \<exists>c'. vm_reach c n c'"
proof (induction n arbitrary: c)
  case (Suc n)
  then obtain c' where c': "vm_step c = Inl c'" by (cases "vm_step c") (auto simp: vm_loop_stop)
  then show ?case using Suc vm_loop_next by (metis vm_reach.step)
qed (auto intro: vm_reach.here)

lemma run_terminates:
  assumes "sx_gas_limit s \<noteq> - 1"
  shows "\<exists>r. sx_run s = Some r"
proof (cases "sx_run s")
  case None
  then obtain c where "vm_reach (vm_start s) (Suc (unat (sx_gas_limit s))) c"
    using vm_loop_None_reach by (auto simp: sx_run_def)
  from gas_counts [OF this vm_inv_start assms] have False
    by (auto simp: vm_start_def word_le_nat_alt)
  then show ?thesis ..
qed simp

subsection \<open>Authority\<close>

definition called_ids :: "wop list \<Rightarrow> u32 set" where
  "called_ids code = {i. \<exists>argc. WCall i argc \<in> set code}"

definition set_imports :: "host_fn list \<Rightarrow> sandbox \<Rightarrow> sandbox" where
  "set_imports imps s = s\<lparr>sx_imports := imps\<rparr>"

text \<open>Two allow-lists that give every function the code calls the same meaning.\<close>

definition same_grants :: "wop list \<Rightarrow> host_fn list \<Rightarrow> host_fn list \<Rightarrow> bool" where
  "same_grants code imps imps' \<longleftrightarrow>
    (\<forall>i \<in> called_ids code. List.find (\<lambda>h. hf_id h = i) imps = List.find (\<lambda>h. hf_id h = i) imps')"

primrec map_flow :: "(sandbox \<Rightarrow> sandbox) \<Rightarrow> flow \<Rightarrow> flow" where
  "map_flow f (Halt v) = Halt v"
| "map_flow f (Fall s st) = Fall (f s) st"
| "map_flow f (Goto t s st) = Goto t (f s) st"

lemma exec_op_imports:
  assumes "\<And>i argc. oper = WCall i argc \<Longrightarrow>
    List.find (\<lambda>h. hf_id h = i) (sx_imports s) = List.find (\<lambda>h. hf_id h = i) imps"
  shows "exec_op (set_imports imps s) st oper = map_sum id (map_flow (set_imports imps)) (exec_op s st oper)"
  using assms
  by (cases oper) (auto simp: set_imports_def fall_def rbind_def jump_to_def sx_cell_def split: sum.splits)

definition vm_with :: "host_fn list \<Rightarrow> vm \<Rightarrow> vm" where
  "vm_with imps c = c\<lparr>vm_sandbox := set_imports imps (vm_sandbox c)\<rparr>"

lemma vm_step_imports:
  assumes "same_grants (sx_code (vm_sandbox c)) (sx_imports (vm_sandbox c)) imps"
  shows "vm_step (vm_with imps c) = map_sum (vm_with imps) (map_prod id (set_imports imps)) (vm_step c)"
proof (cases "vm_pc c < length (sx_code (vm_sandbox c))")
  case True
  let ?s = "vm_sandbox c"
  have "sx_code ?s ! vm_pc c \<in> set (sx_code ?s)" using True by simp
  then have "exec_op (set_imports imps ?s) (vm_stack c) (sx_code ?s ! vm_pc c) =
      map_sum id (map_flow (set_imports imps)) (exec_op ?s (vm_stack c) (sx_code ?s ! vm_pc c))"
    using assms by (intro exec_op_imports) (auto simp: same_grants_def called_ids_def)
  then show ?thesis using True
    by (cases "exec_op ?s (vm_stack c) (sx_code ?s ! vm_pc c)")
      (auto simp: vm_step_def vm_with_def set_imports_def Let_def split: flow.splits)
next
  case False
  then show ?thesis by (simp add: vm_step_def vm_with_def set_imports_def Let_def)
qed

lemma vm_reach_imports:
  assumes "vm_reach c n c'" and "vm_inv s c" and "same_grants (sx_code s) (sx_imports s) imps"
  shows "vm_reach (vm_with imps c) n (vm_with imps c')"
  using assms
proof (induction rule: vm_reach.induct)
  case (step c c' n c'')
  have "same_grants (sx_code (vm_sandbox c)) (sx_imports (vm_sandbox c)) imps"
    using step.prems by (simp add: vm_inv_def confined_def)
  then have "vm_step (vm_with imps c) = Inl (vm_with imps c')" using step.hyps(1) vm_step_imports by simp
  then show ?case using step vm_inv_step vm_reach.step by blast
qed (rule vm_reach.here)

lemma run_imports:
  assumes "same_grants (sx_code s) (sx_imports s) imps" and "sx_run s = Some (r, s')"
  shows "sx_run (set_imports imps s) = Some (r, set_imports imps s')"
proof -
  obtain n c where c: "vm_reach (vm_start s) n c" "vm_step c = Inr (r, s')"
    using assms(2) by (auto simp: sx_run_def vm_loop_iff)
  have inv: "vm_inv s c" using c(1) vm_inv_start by (rule vm_inv_reach)
  then have "same_grants (sx_code (vm_sandbox c)) (sx_imports (vm_sandbox c)) imps"
    using assms(1) by (simp add: vm_inv_def confined_def)
  then have "vm_step (vm_with imps c) = Inr (r, set_imports imps s')" using c(2) vm_step_imports by simp
  moreover have "vm_with imps (vm_start s) = vm_start (set_imports imps s)" by (simp add: vm_with_def vm_start_def)
  ultimately show ?thesis
    using vm_reach_imports [OF c(1) vm_inv_start assms(1)] unfolding sx_run_def vm_loop_iff by metis
qed

text \<open>With the largest limit the counter never exceeds it, and an endless loop is never stopped.\<close>

lemma spin_step:
  assumes "vm_sandbox c = sx_new [WJump 0] m n (- 1)" and "vm_pc c = 0"
  shows "vm_step c = Inl (c\<lparr>vm_gas := vm_gas c + 1\<rparr>)"
  using assms by (cases c) (simp add: vm_step_def Let_def sx_new_def jump_to_def)

lemma spin_reach:
  "vm_reach c k c' \<Longrightarrow> vm_sandbox c = sx_new [WJump 0] m n (- 1) \<and> vm_pc c = 0 \<Longrightarrow>
    vm_sandbox c' = sx_new [WJump 0] m n (- 1) \<and> vm_pc c' = 0"
  by (induction rule: vm_reach.induct) (auto simp: spin_step)

lemma spin_diverges: "sx_run (sx_new [WJump 0] m n (- 1)) = None"
proof (cases "sx_run (sx_new [WJump 0] m n (- 1))")
  case (Some r)
  then obtain k c where c: "vm_reach (vm_start (sx_new [WJump 0] m n (- 1))) k c" "vm_step c = Inr r"
    by (auto simp: sx_run_def vm_loop_iff)
  then show ?thesis using spin_reach [OF c(1), of m n] spin_step [of c m n] by (simp add: vm_start_def)
qed simp

subsection \<open>Properties\<close>

text \<open>
  C19: Bounded execution.  With any gas limit below the largest 64-bit value every guest stops, after
  at most as many instructions as the limit allows; with the largest value the meter can never be
  exceeded and an endless loop runs for ever.
\<close>

theorem sandbox_terminates:
  "(sx_gas_limit s \<noteq> - 1 \<longrightarrow>
      (\<exists>r. sx_run s = Some r) \<and> (\<forall>n c. vm_reach (vm_start s) n c \<longrightarrow> n \<le> unat (sx_gas_limit s))) \<and>
   sx_run (sx_new [WJump 0] mem_cells n_locals (- 1)) = None"
proof (intro conjI impI allI)
  assume lim: "sx_gas_limit s \<noteq> - 1"
  then show "\<exists>r. sx_run s = Some r" by (rule run_terminates)
  fix n c
  assume "vm_reach (vm_start s) n c"
  from gas_counts [OF this vm_inv_start lim] show "n \<le> unat (sx_gas_limit s)"
    by (simp add: vm_start_def word_le_nat_alt)
qed (rule spin_diverges)

theorem sandbox_terminates_witness:
  "\<exists>r. sx_run (sx_new [WJump 0] 0 0 1000) = Some r"
  using sandbox_terminates [of "sx_new [WJump 0] 0 0 1000" 0 0] by (simp add: sx_new_def)

text \<open>
  C20: Bounded memory.  Whatever the guest does, its code, grants and gas limit are unchanged, its
  memory and locals keep their size, the operand stack never exceeds its ceiling and control never
  leaves the code, at every moment of the run and after it.
\<close>

theorem sandbox_confined:
  assumes "vm_reach (vm_start s) n c"
  shows "confined s (vm_sandbox c) \<and> length (vm_stack c) \<le> MAX_STACK_DEPTH \<and> vm_pc c \<le> length (sx_code s) \<and>
    (\<forall>r s'. vm_step c = Inr (r, s') \<longrightarrow> sx_run s = Some (r, s') \<and> confined s s')"
proof -
  have inv: "vm_inv s c" using assms vm_inv_start by (rule vm_inv_reach)
  have "sx_run s = vm_loop c" unfolding sx_run_def using assms by (rule vm_loop_reach)
  then show ?thesis using inv by (auto simp: vm_inv_def vm_loop_stop dest: vm_step_Inr_sandbox)
qed

theorem sandbox_confined_witness:
  "vm_step (vm_start (sx_new [WReturn] 2 1 9)) = Inr (Ok 0, sx_new [WReturn] 2 1 9) \<and>
   sx_run (sx_new [WReturn] 2 1 9) = Some (Ok 0, sx_new [WReturn] 2 1 9)"
proof -
  have "vm_step (vm_start (sx_new [WReturn] 2 1 9)) = Inr (Ok 0, sx_new [WReturn] 2 1 9)"
    by (simp add: vm_step_def vm_start_def sx_new_def Let_def top_or_zero_def)
  then show ?thesis using sandbox_confined [OF vm_reach.here] by blast
qed

text \<open>
  C21: Bounded authority.  A run depends on the grants only through the host functions its code
  names: any allow-list that agrees on these gives the same result and memory.  And a guest that
  calls a function it was not granted traps there.
\<close>

theorem sandbox_authority:
  assumes "same_grants (sx_code s) (sx_imports s) imps"
  shows "sx_run (set_imports imps s) = map_option (map_prod id (set_imports imps)) (sx_run s) \<and>
    (\<forall>n c i argc. vm_reach (vm_start s) n c \<longrightarrow> vm_pc c < length (sx_code s) \<longrightarrow> sx_code s ! vm_pc c = WCall i argc \<longrightarrow>
      vm_gas c + 1 \<le> sx_gas_limit s \<longrightarrow> (\<forall>h \<in> set (sx_imports s). hf_id h \<noteq> i) \<longrightarrow>
      sx_run s = Some (Err UngrantedHostCall, vm_sandbox c))"
proof (intro conjI allI impI)
  have restored: "set_imports (sx_imports s) (set_imports imps s) = s" by (simp add: set_imports_def)
  have sym: "same_grants (sx_code (set_imports imps s)) (sx_imports (set_imports imps s)) (sx_imports s)"
    using assms by (simp add: same_grants_def set_imports_def)
  show "sx_run (set_imports imps s) = map_option (map_prod id (set_imports imps)) (sx_run s)"
  proof (cases "sx_run s")
    case None
    then show ?thesis using run_imports [OF sym] unfolding restored by (cases "sx_run (set_imports imps s)") auto
  next
    case (Some r)
    then show ?thesis using run_imports [OF assms] by (cases r) auto
  qed
next
  fix n c i argc
  assume c: "vm_reach (vm_start s) n c" "vm_pc c < length (sx_code s)" "sx_code s ! vm_pc c = WCall i argc"
    "vm_gas c + 1 \<le> sx_gas_limit s" "\<forall>h \<in> set (sx_imports s). hf_id h \<noteq> i"
  have "vm_inv s c" using c(1) vm_inv_start by (rule vm_inv_reach)
  moreover have "List.find (\<lambda>h. hf_id h = i) (sx_imports s) = None" using c(5) by (simp add: find_None_iff)
  ultimately have "vm_step c = Inr (Err UngrantedHostCall, vm_sandbox c)"
    using c(2-4) by (simp add: vm_step_def Let_def vm_inv_def confined_def not_less)
  then show "sx_run s = Some (Err UngrantedHostCall, vm_sandbox c)"
    using vm_loop_reach [OF c(1)] by (simp add: sx_run_def vm_loop_stop)
qed

theorem sandbox_authority_witness:
  "sx_run (set_imports [] (sx_new [WConst 5] 0 0 9)) = Some (Ok 5, sx_new [WConst 5] 0 0 9)"
proof -
  let ?h = "\<lparr>hf_id = 1, hf_arity = 0, hf_func = (\<lambda>_. 7)\<rparr>" and ?s = "sx_new [WConst 5] 0 0 9"
  have "sx_run (set_imports [?h] ?s) = Some (Ok 5, set_imports [?h] ?s)"
    by (simp add: sx_run_def set_imports_def sx_new_def vm_start_def vm_loop.simps vm_step_def Let_def fall_def
        wpush_def MAX_STACK_DEPTH_def top_or_zero_def)
  then show ?thesis
    using sandbox_authority [of "set_imports [?h] ?s" "[]"]
    by (simp add: same_grants_def called_ids_def set_imports_def sx_new_def)
qed

end
