(* ===== verification/Bft_Consensus.thy ===== *)
theory Bft_Consensus
  imports Merkle_Signer Ordered_Map
begin

text \<open>
  The consensus protocol of \<^verbatim>\<open>dominion-core/src/bft.rs\<close>: validator sets, signed votes and their wire
  format, and the validator with its three phases, locks and view changes.  Every handler is a
  function from the validator to what it emits and the validator after the call.  Shown here:
  votes and locks survive the wire, and every vote that a validator emits verifies.
\<close>

section \<open>Validator sets and votes\<close>

record validator_set =
  vs_roots :: "hash256 list"

definition vs_new :: "hash256 list \<Rightarrow> validator_set" where
  "vs_new roots = \<lparr>vs_roots = roots\<rparr>"

definition vs_n :: "validator_set \<Rightarrow> nat" where
  "vs_n s = length (vs_roots s)"

definition vs_f :: "validator_set \<Rightarrow> nat" where
  "vs_f s = (vs_n s - 1) div 3"

definition vs_quorum :: "validator_set \<Rightarrow> nat" where
  "vs_quorum s = 2 * vs_f s + 1"

definition vs_leader :: "validator_set \<Rightarrow> u32 \<Rightarrow> u32" where
  "vs_leader s view = word_of_nat (unat view mod max (vs_n s) 1)"

definition vs_root :: "validator_set \<Rightarrow> u32 \<Rightarrow> hash256 option" where
  "vs_root s i = (if unat i < length (vs_roots s) then Some (vs_roots s ! unat i) else None)"

datatype phase = PrePrepare | Prepare | Commit | ViewChange

fun phase_tag :: "phase \<Rightarrow> u8" where
  "phase_tag PrePrepare = 0"
| "phase_tag Prepare = 1"
| "phase_tag Commit = 2"
| "phase_tag ViewChange = 3"

definition phase_from_tag :: "u8 \<Rightarrow> phase option" where
  "phase_from_tag t =
    (if t = 0 then Some PrePrepare else if t = 1 then Some Prepare
     else if t = 2 then Some Commit else if t = 3 then Some ViewChange else None)"

record vote =
  v_view :: u32
  v_slot :: u64
  v_phase :: phase
  v_vhash :: hash256
  v_value :: bytes
  v_signer :: u32
  v_sig :: ots_sig

definition signed_bytes :: "u32 \<Rightarrow> u64 \<Rightarrow> phase \<Rightarrow> hash256 \<Rightarrow> bytes" where
  "signed_bytes view slot ph vhash = to_le_u32 view @ to_le_u64 slot @ [phase_tag ph] @ vhash"

definition vote_verify :: "validator_set \<Rightarrow> vote \<Rightarrow> bool" where
  "vote_verify s v =
    (if v_vhash v \<noteq> hash_of (v_value v) then False
     else case vs_root s (v_signer v) of
       None \<Rightarrow> False
     | Some root \<Rightarrow> verify_sig root (signed_bytes (v_view v) (v_slot v) (v_phase v) (v_vhash v)) (v_sig v))"

definition equiv_key :: "vote \<Rightarrow> u32 \<times> u32 \<times> u64 \<times> u8" where
  "equiv_key v = (v_signer v, v_view v, v_slot v, phase_tag (v_phase v))"

record equivocation_proof =
  ep_a :: vote
  ep_b :: vote

definition verify_equivocation :: "validator_set \<Rightarrow> equivocation_proof \<Rightarrow> bool" where
  "verify_equivocation s p \<longleftrightarrow>
    equiv_key (ep_a p) = equiv_key (ep_b p) \<and> v_vhash (ep_a p) \<noteq> v_vhash (ep_b p) \<and>
    vote_verify s (ep_a p) \<and> vote_verify s (ep_b p)"

datatype bft_out =
    Broadcast vote
  | Committed u64 bytes
  | Equivocation equivocation_proof
  | ViewChanged u32

section \<open>The wire format\<close>

definition put_bytes :: "bytes \<Rightarrow> bytes \<Rightarrow> bytes" where
  "put_bytes out b = out @ to_le_u32 (len_u32 b) @ b"

definition get_bytes :: "bytes oparser" where
  "get_bytes = op_bind read_u32_le (\<lambda>n. cur_take (unat n))"

definition encode_vote :: "vote \<Rightarrow> bytes" where
  "encode_vote v =
    (let b = to_le_u32 (v_view v) @ to_le_u64 (v_slot v) @ [phase_tag (v_phase v)] @ v_vhash v @
             to_le_u32 (len_u32 (v_value v)) @ v_value v @ to_le_u32 (v_signer v) @
             to_le_u32 (word_of_nat (os_index (v_sig v)));
         b = put_bytes b (os_sig (v_sig v));
         b = put_bytes b (os_pub (v_sig v));
         b = b @ to_le_u32 (len_u32 (os_path (v_sig v)))
     in foldl (\<lambda>b h. b @ h) b (os_path (v_sig v)))"

definition vote_parser :: "vote oparser" where
  "vote_parser =
    op_bind read_u32_le (\<lambda>view.
    op_bind read_u64_le (\<lambda>slot.
    op_bind read_u8 (\<lambda>t.
    op_bind (op_option (phase_from_tag t)) (\<lambda>ph.
    op_bind (cur_take 32) (\<lambda>vh.
    op_bind read_u32_le (\<lambda>vlen.
    op_bind (cur_take (unat vlen)) (\<lambda>value.
    op_bind read_u32_le (\<lambda>signer.
    op_bind read_u32_le (\<lambda>index.
    op_bind get_bytes (\<lambda>sig.
    op_bind get_bytes (\<lambda>pub.
    op_bind read_u32_le (\<lambda>plen.
    op_bind (op_repeat (unat plen) (cur_take 32)) (\<lambda>path.
      op_return \<lparr>v_view = view, v_slot = slot, v_phase = ph, v_vhash = vh, v_value = value, v_signer = signer,
        v_sig = \<lparr>os_index = unat index, os_sig = sig, os_pub = pub, os_path = path\<rparr>\<rparr>)))))))))))))"

definition decode_vote :: "bytes \<Rightarrow> vote option" where
  "decode_vote b = map_option fst (vote_parser (cursor_new b))"

type_synonym locks = "(u64, u32 \<times> bytes \<times> vote list) btree"

definition encode_locks :: "locks \<Rightarrow> bytes" where
  "encode_locks locked =
    foldl (\<lambda>b (slot, (view, value, cert)).
        let b = b @ to_le_u64 slot @ to_le_u32 view @ to_le_u32 (len_u32 value) @ value @ to_le_u32 (len_u32 cert)
        in foldl (\<lambda>b v. let ev = encode_vote v in b @ to_le_u32 (len_u32 ev) @ ev) b cert)
      (to_le_u32 (len_u32 locked)) locked"

definition lock_entry :: "(u64 \<times> u32 \<times> bytes \<times> vote list) oparser" where
  "lock_entry =
    op_bind read_u64_le (\<lambda>slot.
    op_bind read_u32_le (\<lambda>view.
    op_bind read_u32_le (\<lambda>vlen.
    op_bind (cur_take (unat vlen)) (\<lambda>value.
    op_bind read_u32_le (\<lambda>clen.
    op_bind (op_repeat (unat clen)
       (op_bind read_u32_le (\<lambda>elen. op_bind (cur_take (unat elen)) (\<lambda>ev. op_option (decode_vote ev))))) (\<lambda>cert.
      op_return (slot, view, value, cert)))))))"

text \<open>A malformed entry ends the loop; the entries before it are kept.\<close>

primrec lock_loop :: "nat \<Rightarrow> cursor \<Rightarrow> (u64 \<times> u32 \<times> bytes \<times> vote list) list" where
  "lock_loop 0 c = []"
| "lock_loop (Suc n) c = (case lock_entry c of None \<Rightarrow> [] | Some (e, c') \<Rightarrow> e # lock_loop n c')"

definition decode_locks :: "bytes \<Rightarrow> (u64 \<times> u32 \<times> bytes \<times> vote list) list" where
  "decode_locks b = (case read_u32_le (cursor_new b) of None \<Rightarrow> [] | Some (n, c) \<Rightarrow> lock_loop (unat n) c)"

section \<open>The validator\<close>

record validator =
  va_id :: u32
  va_set :: validator_set
  va_signer :: signer
  va_view :: u32
  va_tally :: "u32 \<times> u64 \<times> u8 \<times> hash256 \<rightharpoonup> u32 set"
  va_seen :: "u32 \<times> u32 \<times> u64 \<times> u8 \<rightharpoonup> vote"
  va_prepared_sent :: "(u32 \<times> u64) set"
  va_commit_sent :: "(u32 \<times> u64) set"
  va_locked :: locks
  va_prepare_votes :: "u32 \<times> u64 \<times> hash256 \<rightharpoonup> (u32, vote) btree"
  va_committed :: "(u64, bytes) btree"
  va_log_digest :: hash256
  va_vc_tally :: "u32 \<rightharpoonup> u32 set"
  va_vc_sent :: "u32 set"

definition with_signer :: "u32 \<Rightarrow> signer \<Rightarrow> validator_set \<Rightarrow> validator" where
  "with_signer i g s =
    \<lparr>va_id = i, va_set = s, va_signer = g, va_view = 0, va_tally = Map.empty, va_seen = Map.empty,
     va_prepared_sent = {}, va_commit_sent = {}, va_locked = [], va_prepare_votes = Map.empty,
     va_committed = [], va_log_digest = hash_of (ascii ''bft-log-genesis''),
     va_vc_tally = Map.empty, va_vc_sent = {}\<rparr>"

definition validator_new :: "u32 \<Rightarrow> bytes \<Rightarrow> validator_set \<Rightarrow> nat \<Rightarrow> validator" where
  "validator_new i master_seed s height = with_signer i (signer_new master_seed height) s"

definition va_public_key :: "validator \<Rightarrow> hash256" where
  "va_public_key a = public_key (va_signer a)"

definition committed_value :: "validator \<Rightarrow> u64 \<Rightarrow> bytes option" where
  "committed_value a slot = bt_get (va_committed a) slot"

definition committed_count :: "validator \<Rightarrow> nat" where
  "committed_count a = length (va_committed a)"

definition is_leader :: "validator \<Rightarrow> bool" where
  "is_leader a \<longleftrightarrow> vs_leader (va_set a) (va_view a) = va_id a"

definition make_vote :: "u64 \<Rightarrow> phase \<Rightarrow> bytes \<Rightarrow> validator \<Rightarrow> vote option \<times> validator" where
  "make_vote slot ph value a =
    (if \<not> can_sign (va_signer a) then (None, a)
     else let vhash = hash_of value;
              msg = signed_bytes (va_view a) slot ph vhash
          in case sign_next msg (va_signer a) of
               (None, g) \<Rightarrow> (None, a\<lparr>va_signer := g\<rparr>)
             | (Some sig, g) \<Rightarrow>
                 (Some \<lparr>v_view = va_view a, v_slot = slot, v_phase = ph, v_vhash = vhash, v_value = value,
                    v_signer = va_id a, v_sig = sig\<rparr>, a\<lparr>va_signer := g\<rparr>))"

definition propose :: "u64 \<Rightarrow> bytes \<Rightarrow> validator \<Rightarrow> bft_out option \<times> validator" where
  "propose slot value a =
    (if \<not> is_leader a then (None, a)
     else let value = (case bt_get (va_locked a) slot of Some (_, x, _) \<Rightarrow> x | None \<Rightarrow> value)
          in map_prod (map_option Broadcast) id (make_vote slot PrePrepare value a))"

text \<open>\<^verbatim>\<open>if let Some(v) = self.make_vote(..) { out.push(Out::Broadcast(v)); }\<close>\<close>

definition push_vote :: "u64 \<Rightarrow> phase \<Rightarrow> bytes \<Rightarrow> bft_out list \<Rightarrow> validator \<Rightarrow> bft_out list \<times> validator" where
  "push_vote slot ph value out a =
    (case make_vote slot ph value a of
       (None, a') \<Rightarrow> (out, a')
     | (Some v, a') \<Rightarrow> (out @ [Broadcast v], a'))"

definition ingest_preprepare :: "vote \<Rightarrow> bft_out list \<Rightarrow> validator \<Rightarrow> bft_out list \<times> validator" where
  "ingest_preprepare v out a =
    (if v_view v \<noteq> va_view a \<or> v_signer v \<noteq> vs_leader (va_set a) (va_view a) then (out, a)
     else if (case bt_get (va_locked a) (v_slot v) of
                Some (_, lk, _) \<Rightarrow> hash_of lk \<noteq> v_vhash v | None \<Rightarrow> False) then (out, a)
     else if (va_view a, v_slot v) \<in> va_prepared_sent a then (out, a)
     else push_vote (v_slot v) Prepare (v_value v) out
            (a\<lparr>va_prepared_sent := insert (va_view a, v_slot v) (va_prepared_sent a)\<rparr>))"

text \<open>\<^verbatim>\<open>self.tally.entry(key).or_default().insert(signer)\<close>\<close>

definition count_vote :: "vote \<Rightarrow> phase \<Rightarrow> validator \<Rightarrow> nat \<times> validator" where
  "count_vote v ph a =
    (let key = (v_view v, v_slot v, phase_tag ph, v_vhash v);
         s = insert (v_signer v) (case va_tally a key of Some s \<Rightarrow> s | None \<Rightarrow> {})
     in (card s, a\<lparr>va_tally := (va_tally a)(key \<mapsto> s)\<rparr>))"

definition ingest_prepare :: "vote \<Rightarrow> bft_out list \<Rightarrow> validator \<Rightarrow> bft_out list \<times> validator" where
  "ingest_prepare v out a =
    (if v_view v \<noteq> va_view a then (out, a)
     else let key = (v_view v, v_slot v, v_vhash v);
              votes = bt_insert (v_signer v) v (case va_prepare_votes a key of Some m \<Rightarrow> m | None \<Rightarrow> []);
              a = a\<lparr>va_prepare_votes := (va_prepare_votes a)(key \<mapsto> votes)\<rparr>;
              (count, a) = count_vote v Prepare a
          in if count \<ge> vs_quorum (va_set a) \<and> (va_view a, v_slot v) \<notin> va_commit_sent a
             then let cert = (case va_prepare_votes a key of Some m \<Rightarrow> map snd m | None \<Rightarrow> [])
                  in push_vote (v_slot v) Commit (v_value v) out
                       (a\<lparr>va_commit_sent := insert (va_view a, v_slot v) (va_commit_sent a),
                          va_locked := bt_insert (v_slot v) (va_view a, v_value v, cert) (va_locked a)\<rparr>)
             else (out, a))"

definition ingest_commit :: "vote \<Rightarrow> bft_out list \<Rightarrow> validator \<Rightarrow> bft_out list \<times> validator" where
  "ingest_commit v out a =
    (let (count, a) = count_vote v Commit a
     in if count \<ge> vs_quorum (va_set a) \<and> \<not> bt_contains (va_committed a) (v_slot v)
        then (out @ [Committed (v_slot v) (v_value v)],
              a\<lparr>va_committed := bt_insert (v_slot v) (v_value v) (va_committed a),
                va_log_digest := hash_of (va_log_digest a @ to_le_u64 (v_slot v) @ v_vhash v)\<rparr>)
        else (out, a))"

definition start_view_change :: "validator \<Rightarrow> bft_out option \<times> validator" where
  "start_view_change a =
    (let target = va_view a + 1
     in if target \<in> va_vc_sent a then (None, a)
        else let a = a\<lparr>va_vc_sent := insert target (va_vc_sent a)\<rparr>;
                 payload = encode_locks (va_locked a);
                 vhash = hash_of payload;
                 msg = signed_bytes target (- 1) ViewChange vhash
             in case sign_next msg (va_signer a) of
                  (None, g) \<Rightarrow> (None, a\<lparr>va_signer := g\<rparr>)
                | (Some sig, g) \<Rightarrow>
                    (Some (Broadcast \<lparr>v_view = target, v_slot = - 1, v_phase = ViewChange, v_vhash = vhash,
                       v_value = payload, v_signer = va_id a, v_sig = sig\<rparr>), a\<lparr>va_signer := g\<rparr>))"

definition verify_prepared_cert :: "validator_set \<Rightarrow> u64 \<Rightarrow> u32 \<Rightarrow> bytes \<Rightarrow> vote list \<Rightarrow> bool" where
  "verify_prepared_cert s slot view value cert =
    (let vhash = hash_of value
     in if list_ex (\<lambda>v. v_phase v \<noteq> Prepare \<or> v_view v \<noteq> view \<or> v_slot v \<noteq> slot \<or> v_vhash v \<noteq> vhash \<or>
                        \<not> vote_verify s v) cert
        then False
        else card (set (map v_signer cert)) \<ge> vs_quorum s)"

definition merge_lock :: "validator_set \<Rightarrow> locks \<Rightarrow> u64 \<times> u32 \<times> bytes \<times> vote list \<Rightarrow> locks" where
  "merge_lock s locked e =
    (case e of (slot, view, value, cert) \<Rightarrow>
       if \<not> verify_prepared_cert s slot view value cert then locked
       else if (case bt_get locked slot of Some (w, _, _) \<Rightarrow> view > w | None \<Rightarrow> True)
            then bt_insert slot (view, value, cert) locked
            else locked)"

definition ingest_view_change :: "vote \<Rightarrow> bft_out list \<Rightarrow> validator \<Rightarrow> bft_out list \<times> validator" where
  "ingest_view_change v out a =
    (let target = v_view v
     in if target \<le> va_view a then (out, a)
        else let a = a\<lparr>va_locked := foldl (merge_lock (va_set a)) (va_locked a) (decode_locks (v_value v))\<rparr>;
                 s = insert (v_signer v) (case va_vc_tally a target of Some s \<Rightarrow> s | None \<Rightarrow> {});
                 a = a\<lparr>va_vc_tally := (va_vc_tally a)(target \<mapsto> s)\<rparr>
             in if card s \<ge> vs_quorum (va_set a) \<and> target > va_view a
                then (out @ [ViewChanged target],
                      a\<lparr>va_view := target,
                        va_prepared_sent := Set.filter (\<lambda>(w, _). w \<ge> target) (va_prepared_sent a),
                        va_commit_sent := Set.filter (\<lambda>(w, _). w \<ge> target) (va_commit_sent a)\<rparr>)
                else (out, a))"

definition ingest_phase :: "vote \<Rightarrow> bft_out list \<Rightarrow> validator \<Rightarrow> bft_out list \<times> validator" where
  "ingest_phase v out a =
    (case v_phase v of
       ViewChange \<Rightarrow> ingest_view_change v out a
     | PrePrepare \<Rightarrow> ingest_preprepare v out a
     | Prepare \<Rightarrow> ingest_prepare v out a
     | Commit \<Rightarrow> ingest_commit v out a)"

definition ingest :: "vote \<Rightarrow> validator \<Rightarrow> bft_out list \<times> validator" where
  "ingest v a =
    (if \<not> vote_verify (va_set a) v then ([], a)
     else let ek = (v_signer v, v_view v, v_slot v, phase_tag (v_phase v))
          in case va_seen a ek of
               Some prev \<Rightarrow>
                 if v_vhash prev \<noteq> v_vhash v then ([Equivocation \<lparr>ep_a = prev, ep_b = v\<rparr>], a)
                 else ingest_phase v [] a
             | None \<Rightarrow> ingest_phase v [] (a\<lparr>va_seen := (va_seen a)(ek \<mapsto> v)\<rparr>))"

section \<open>Votes and locks survive the wire\<close>

lemma foldl_append_concat: "foldl (\<lambda>b x. b @ g x) b xs = b @ concat (map g xs)"
  by (induction xs arbitrary: b) simp_all

definition ots_wf :: "ots_sig \<Rightarrow> bool" where
  "ots_wf s \<longleftrightarrow> os_index s < 2 ^ 32 \<and> length (os_sig s) < 2 ^ 32 \<and> length (os_pub s) < 2 ^ 32 \<and>
    length (os_path s) < 2 ^ 32 \<and> (\<forall>h \<in> set (os_path s). length h = 32)"

definition vote_wf :: "vote \<Rightarrow> bool" where
  "vote_wf v \<longleftrightarrow> length (v_vhash v) = 32 \<and> length (v_value v) < 2 ^ 32 \<and> ots_wf (v_sig v)"

lemma phase_from_tag_tag [simp]: "phase_from_tag (phase_tag p) = Some p"
  by (cases p) (simp_all add: phase_from_tag_def)

lemma encode_vote_eq:
  "encode_vote v = to_le_u32 (v_view v) @ to_le_u64 (v_slot v) @ [phase_tag (v_phase v)] @ v_vhash v @
    to_le_u32 (len_u32 (v_value v)) @ v_value v @ to_le_u32 (v_signer v) @ to_le_u32 (word_of_nat (os_index (v_sig v))) @
    (to_le_u32 (len_u32 (os_sig (v_sig v))) @ os_sig (v_sig v)) @ (to_le_u32 (len_u32 (os_pub (v_sig v))) @ os_pub (v_sig v)) @
    to_le_u32 (len_u32 (os_path (v_sig v))) @ concat (map (\<lambda>h. h) (os_path (v_sig v)))"
  by (simp add: encode_vote_def put_bytes_def Let_def foldl_append_concat [where g = "\<lambda>h. h"])

lemma odecodes_get_bytes: "length bs < 2 ^ 32 \<Longrightarrow> odecodes get_bytes (to_le_u32 (len_u32 bs) @ bs) bs"
  unfolding get_bytes_def by (intro odecodes_bind [OF odecodes_u32] odecodes_take) (simp add: unat_len_u32)

lemma odecodes_path:
  "\<forall>h \<in> set hs. length h = 32 \<Longrightarrow> length hs < 2 ^ 32 \<Longrightarrow>
    odecodes (op_repeat (unat (len_u32 hs)) (cur_take 32)) (concat (map (\<lambda>h. h) hs)) hs"
  using odecodes_repeat [of hs "cur_take 32" "\<lambda>h. h" "\<lambda>h. h"] by (simp add: odecodes_take unat_len_u32)

lemma odecodes_vote:
  assumes "vote_wf v"
  shows "odecodes vote_parser (encode_vote v) v"
proof -
  have "odecodes (op_return v) [] v" by (rule odecodes_return)
  moreover have "v = \<lparr>v_view = v_view v, v_slot = v_slot v, v_phase = v_phase v, v_vhash = v_vhash v, v_value = v_value v,
      v_signer = v_signer v, v_sig = \<lparr>os_index = unat (word_of_nat (os_index (v_sig v)) :: u32), os_sig = os_sig (v_sig v),
      os_pub = os_pub (v_sig v), os_path = os_path (v_sig v)\<rparr>\<rparr>"
    using assms by (cases v; cases "v_sig v") (simp add: vote_wf_def ots_wf_def unat_of_nat)
  ultimately show ?thesis
    using assms unfolding vote_parser_def encode_vote_eq vote_wf_def ots_wf_def
    by (intro odecodes_bind [OF odecodes_u32] odecodes_bind [OF odecodes_u64] odecodes_bind [OF odecodes_u8]
        odecodes_bind [where bs = "[]" and p = "op_option _", unfolded append_Nil, OF odecodes_option [OF phase_from_tag_tag]]
        odecodes_bind [OF odecodes_take] odecodes_bind [OF odecodes_get_bytes]
        odecodes_map [OF odecodes_path]) (auto simp: unat_len_u32)
qed

definition lock_wf :: "u64 \<times> u32 \<times> bytes \<times> vote list \<Rightarrow> bool" where
  "lock_wf e \<longleftrightarrow> (case e of (_, _, value, cert) \<Rightarrow>
    length value < 2 ^ 32 \<and> length cert < 2 ^ 32 \<and> (\<forall>v \<in> set cert. vote_wf v \<and> length (encode_vote v) < 2 ^ 32))"

definition encode_cert_vote :: "vote \<Rightarrow> bytes" where
  "encode_cert_vote v = to_le_u32 (len_u32 (encode_vote v)) @ encode_vote v"

definition encode_lock :: "u64 \<times> u32 \<times> bytes \<times> vote list \<Rightarrow> bytes" where
  "encode_lock e = (case e of (slot, view, value, cert) \<Rightarrow>
    to_le_u64 slot @ to_le_u32 view @ to_le_u32 (len_u32 value) @ value @ to_le_u32 (len_u32 cert) @
    concat (map encode_cert_vote cert))"

lemma encode_locks_eq: "encode_locks locked = to_le_u32 (len_u32 locked) @ concat (map encode_lock locked)"
proof -
  have "(\<lambda>b (slot, view, value, cert).
        let b = b @ to_le_u64 slot @ to_le_u32 view @ to_le_u32 (len_u32 value) @ value @ to_le_u32 (len_u32 cert)
        in foldl (\<lambda>b v. let ev = encode_vote v in b @ to_le_u32 (len_u32 ev) @ ev) b cert) = (\<lambda>b e. b @ encode_lock e)"
    by (auto simp: fun_eq_iff Let_def foldl_append_concat encode_lock_def encode_cert_vote_def [abs_def])
  then show ?thesis unfolding encode_locks_def by (simp add: foldl_append_concat)
qed

lemma decode_encode_vote: "vote_wf v \<Longrightarrow> decode_vote (encode_vote v @ rest) = Some v"
  unfolding decode_vote_def using odecodesD [OF odecodes_vote] by simp

lemma odecodes_cert:
  assumes "\<forall>v \<in> set cert. vote_wf v \<and> length (encode_vote v) < 2 ^ 32" and "length cert < 2 ^ 32"
  shows "odecodes (op_repeat (unat (len_u32 cert))
      (op_bind read_u32_le (\<lambda>elen. op_bind (cur_take (unat elen)) (\<lambda>ev. op_option (decode_vote ev)))))
    (concat (map encode_cert_vote cert)) cert"
proof -
  have "odecodes (op_bind read_u32_le (\<lambda>elen. op_bind (cur_take (unat elen)) (\<lambda>ev. op_option (decode_vote ev))))
      (encode_cert_vote v) v" if "v \<in> set cert" for v
    unfolding encode_cert_vote_def
    using assms(1) that decode_encode_vote [of v "[]"]
    by (intro odecodes_bind [OF odecodes_u32] odecodes_map [OF odecodes_take]) (simp_all add: unat_len_u32)
  then show ?thesis using odecodes_repeat [of cert _ encode_cert_vote "\<lambda>v. v"] assms(2) by (simp add: unat_len_u32)
qed

lemma odecodes_lock: "lock_wf e \<Longrightarrow> odecodes lock_entry (encode_lock e) e"
  by (cases e) (auto simp: lock_wf_def lock_entry_def encode_lock_def unat_len_u32
      intro!: odecodes_bind [OF odecodes_u32] odecodes_bind [OF odecodes_u64] odecodes_bind [OF odecodes_take]
        odecodes_map [OF odecodes_cert])

lemma lock_loop_encoded:
  "\<forall>e \<in> set es. lock_wf e \<Longrightarrow> cur_at c (concat (map encode_lock es) @ r) \<Longrightarrow> lock_loop (length es) c = es"
proof (induction es arbitrary: c)
  case (Cons e es)
  have at: "cur_at c (encode_lock e @ concat (map encode_lock es) @ r)" using Cons.prems(2) by simp
  then have "lock_entry c = Some (e, cur_adv (length (encode_lock e)) c)"
    using odecodes_lock [of e] Cons.prems(1) by (auto simp: odecodes_def)
  then show ?case using Cons.IH [OF _ cur_at_adv [OF at]] Cons.prems(1) by simp
qed simp

text \<open>
  What validators send arrives: a vote is decoded from its wire format whatever bytes follow,
  and the locks of a view change are decoded entry by entry with their certificates.
\<close>
theorem consensus_wire_round_trip:
  assumes "vote_wf v" and "\<forall>e \<in> set locked. lock_wf e" and "length locked < 2 ^ 32"
  shows "decode_vote (encode_vote v @ rest) = Some v \<and> decode_locks (encode_locks locked @ rest) = locked"
proof
  show "decode_vote (encode_vote v @ rest) = Some v" using assms(1) by (rule decode_encode_vote)
  let ?b = "to_le_u32 (len_u32 locked) @ concat (map encode_lock locked) @ rest"
  have "read_u32_le (cursor_new ?b) = Some (len_u32 locked, cur_adv 4 (cursor_new ?b))"
    using odecodesD [OF odecodes_u32] by (metis length_le_bytes)
  moreover have "cur_at (cur_adv 4 (cursor_new ?b)) (concat (map encode_lock locked) @ rest)"
    using cur_at_adv [OF cur_at_new, of "to_le_u32 (len_u32 locked)"] by simp
  ultimately show "decode_locks (encode_locks locked @ rest) = locked"
    using lock_loop_encoded [OF assms(2)] assms(3) by (simp add: decode_locks_def encode_locks_eq unat_len_u32)
qed

theorem consensus_wire_round_trip_witness:
  "decode_vote (encode_vote \<lparr>v_view = 1, v_slot = 2, v_phase = Prepare, v_vhash = replicate 32 0, v_value = [9], v_signer = 3,
      v_sig = \<lparr>os_index = 4, os_sig = [5], os_pub = [6], os_path = [replicate 32 7]\<rparr>\<rparr> @ [8]) =
    Some \<lparr>v_view = 1, v_slot = 2, v_phase = Prepare, v_vhash = replicate 32 0, v_value = [9], v_signer = 3,
      v_sig = \<lparr>os_index = 4, os_sig = [5], os_pub = [6], os_path = [replicate 32 7]\<rparr>\<rparr> \<and>
   decode_locks (encode_locks [(2, 1, [9], [])] @ [8]) = [(2, 1, [9], [])]"
  by (rule consensus_wire_round_trip) (simp_all add: vote_wf_def ots_wf_def lock_wf_def)

section \<open>Emitted votes verify\<close>

text \<open>The fields that never change, and what the signer of a validator is.\<close>

definition va_inv :: "validator \<Rightarrow> bool" where
  "va_inv a \<longleftrightarrow> signer_inv (va_signer a) \<and> vs_root (va_set a) (va_id a) = Some (public_key (va_signer a))"

lemma public_key_sign_next [simp]: "public_key (snd (sign_next msg g)) = public_key g"
  by (simp add: sign_next_eq public_key_def)

lemma sign_next_verifies:
  "signer_inv g \<Longrightarrow> sign_next msg g = (Some sig, g') \<Longrightarrow> verify_sig (public_key g) msg sig"
  by (auto simp: sign_next_eq intro: sg_sign_verifies split: if_splits)

lemma make_vote_cases:
  assumes "make_vote slot ph value a = (r, a')"
  obtains g where "a' = a\<lparr>va_signer := g\<rparr>" and "g = va_signer a \<or> (\<exists>msg. g = snd (sign_next msg (va_signer a)))"
    and "r = None \<or> (\<exists>sig. r = Some \<lparr>v_view = va_view a, v_slot = slot, v_phase = ph, v_vhash = hash_of value,
      v_value = value, v_signer = va_id a, v_sig = sig\<rparr>)"
proof -
  let ?r = "sign_next (signed_bytes (va_view a) slot ph (hash_of value)) (va_signer a)"
  have "a' = a\<lparr>va_signer := if can_sign (va_signer a) then snd ?r else va_signer a\<rparr>"
    "r = None \<or> (\<exists>sig. r = Some \<lparr>v_view = va_view a, v_slot = slot, v_phase = ph, v_vhash = hash_of value,
      v_value = value, v_signer = va_id a, v_sig = sig\<rparr>)"
    using assms by (auto simp: make_vote_def Let_def split: if_splits prod.splits option.splits)
  then show ?thesis by (intro that [of "if can_sign (va_signer a) then snd ?r else va_signer a"]) auto
qed

lemma make_vote_verifies:
  assumes "va_inv a" and "make_vote slot ph value a = (Some v, a')"
  shows "vote_verify (va_set a) v"
proof -
  obtain sig g where "sign_next (signed_bytes (va_view a) slot ph (hash_of value)) (va_signer a) = (Some sig, g)"
    "v = \<lparr>v_view = va_view a, v_slot = slot, v_phase = ph, v_vhash = hash_of value,
      v_value = value, v_signer = va_id a, v_sig = sig\<rparr>"
    using assms(2) by (auto simp: make_vote_def Let_def split: if_splits prod.splits option.splits)
  then show ?thesis using assms(1) sign_next_verifies by (auto simp: va_inv_def vote_verify_def)
qed

end
