(* ===== verification/Bft_Agreement.thy ===== *)
theory Bft_Agreement
  imports Bft_Consensus
begin

text \<open>
  Agreement of the consensus protocol.  The network is a step relation in which honest validators
  run the handlers of \<^verbatim>\<open>bft.rs\<close> and the adversary delivers any vote, in any order and any number
  of times, except one that verifies under the key of an honest validator who never signed it.  The
  argument is split in two: a locale derives agreement from three laws on the order in which
  honest validators sign, and the laws are shown to hold in every reachable state.
\<close>

section \<open>Voting with locks\<close>

text \<open>A signed statement: signer, view, slot, phase and value hash.\<close>

type_synonym stmt = "u32 \<times> u32 \<times> u64 \<times> phase \<times> hash256"

definition certificate :: "(u32 set \<Rightarrow> bool) \<Rightarrow> u32 set \<Rightarrow> stmt set \<Rightarrow> phase \<Rightarrow> u32 \<Rightarrow> u64 \<Rightarrow> hash256 \<Rightarrow> bool" where
  "certificate quorum byz S ph view slot h \<longleftrightarrow> (\<exists>Q. quorum Q \<and> (\<forall>i \<in> Q - byz. (i, view, slot, ph, h) \<in> S))"

lemma certificate_mono: "certificate q byz S ph w slot h \<Longrightarrow> S \<subseteq> S' \<Longrightarrow> certificate q byz S' ph w slot h"
  unfolding certificate_def by blast

locale locked_voting =
  fixes quorum :: "u32 set \<Rightarrow> bool" and byz :: "u32 set" and reach :: "'s \<Rightarrow> bool" and hist :: "'s \<Rightarrow> stmt list"
  assumes intersect: "reach s \<Longrightarrow> quorum Q \<Longrightarrow> quorum Q' \<Longrightarrow> \<exists>i \<in> Q \<inter> Q'. i \<notin> byz"
    and prepare_once: "reach s \<Longrightarrow> i \<notin> byz \<Longrightarrow> (i, w, slot, Prepare, h) \<in> set (hist s) \<Longrightarrow>
      (i, w, slot, Prepare, h') \<in> set (hist s) \<Longrightarrow> h = h'"
    and commit_prepared: "reach s \<Longrightarrow> i \<notin> byz \<Longrightarrow> (i, v, slot, Commit, h) \<in> set (hist s) \<Longrightarrow>
      certificate quorum byz (set (hist s)) Prepare v slot h"
    and lock_respected: "reach s \<Longrightarrow> i \<notin> byz \<Longrightarrow> k < length (hist s) \<Longrightarrow> hist s ! k = (i, w, slot, Prepare, h') \<Longrightarrow>
      (i, v, slot, Commit, h) \<in> set (hist s) \<Longrightarrow> v < w \<Longrightarrow>
      \<exists>u \<ge> v. certificate quorum byz (set (take k (hist s))) Prepare u slot h'"
begin

lemma same_view:
  assumes "reach s" and "certificate quorum byz (set (hist s)) Prepare w slot h"
    and "certificate quorum byz (set (hist s)) Prepare w slot h'"
  shows "h = h'"
proof -
  obtain Q Q' where "quorum Q" "\<forall>i \<in> Q - byz. (i, w, slot, Prepare, h) \<in> set (hist s)"
    "quorum Q'" "\<forall>i \<in> Q' - byz. (i, w, slot, Prepare, h') \<in> set (hist s)"
    using assms(2,3) by (auto simp: certificate_def)
  then show ?thesis using intersect [OF assms(1)] prepare_once [OF assms(1)] by (meson DiffI IntE)
qed

lemma honest_commit:
  assumes "reach s" and "certificate quorum byz (set (hist s)) Commit v slot h" and "quorum Q"
  obtains i where "i \<in> Q" and "i \<notin> byz" and "(i, v, slot, Commit, h) \<in> set (hist s)"
  using assms intersect [OF assms(1)] unfolding certificate_def by (meson DiffI IntE)

text \<open>Every certificate of a later view, however early it was complete, is for the committed value.\<close>

lemma later_certificates_agree:
  assumes "reach s" and "certificate quorum byz (set (hist s)) Commit v slot h"
    and "certificate quorum byz (set (take k (hist s))) Prepare u slot h'" and "v < u"
  shows "h' = h"
  using assms(3,4)
proof (induction k arbitrary: u rule: less_induct)
  case (less k)
  obtain Q where Q: "quorum Q" "\<forall>i \<in> Q - byz. (i, u, slot, Prepare, h') \<in> set (take k (hist s))"
    using less.prems(1) by (auto simp: certificate_def)
  obtain i where i: "i \<in> Q" "i \<notin> byz" "(i, v, slot, Commit, h) \<in> set (hist s)"
    using honest_commit [OF assms(1,2) Q(1)] .
  then have "(i, u, slot, Prepare, h') \<in> set (take k (hist s))" using Q(2) by blast
  then obtain j where j: "j < k" "j < length (hist s)" "hist s ! j = (i, u, slot, Prepare, h')"
    by (auto simp: in_set_conv_nth)
  then obtain u' where u': "v \<le> u'" "certificate quorum byz (set (take j (hist s))) Prepare u' slot h'"
    using lock_respected [OF assms(1) i(2) j(2,3) i(3) less.prems(2)] by blast
  show ?case
  proof (cases "v = u'")
    case True
    then have "certificate quorum byz (set (hist s)) Prepare v slot h'"
      using certificate_mono [OF u'(2) set_take_subset] by simp
    then show ?thesis using same_view [OF assms(1)] commit_prepared [OF assms(1) i(2,3)] by blast
  next
    case False
    then show ?thesis using less.IH [OF j(1) u'(2)] u'(1) by simp
  qed
qed

lemma later_commit_agrees:
  assumes "reach s" and "certificate quorum byz (set (hist s)) Commit v slot h"
    and "certificate quorum byz (set (hist s)) Commit v' slot h'" and "v \<le> v'"
  shows "h = h'"
proof -
  obtain Q where Q: "quorum Q" using assms(2) unfolding certificate_def by blast
  obtain i where i: "i \<notin> byz" "(i, v, slot, Commit, h) \<in> set (hist s)"
    using honest_commit [OF assms(1,2) Q] .
  obtain j where j: "j \<notin> byz" "(j, v', slot, Commit, h') \<in> set (hist s)"
    using honest_commit [OF assms(1,3) Q] .
  note prep = commit_prepared [OF assms(1) i] commit_prepared [OF assms(1) j]
  show ?thesis
  proof (cases "v = v'")
    case True
    then show ?thesis using same_view [OF assms(1)] prep by blast
  next
    case False
    then show ?thesis
      using later_certificates_agree [OF assms(1,2), of "length (hist s)" v' h'] prep(2) assms(4) by simp
  qed
qed

lemma agreement:
  assumes "reach s" and "certificate quorum byz (set (hist s)) Commit v slot h"
    and "certificate quorum byz (set (hist s)) Commit v' slot h'"
  shows "h = h'"
  using later_commit_agrees [OF assms] later_commit_agrees [OF assms(1,3,2)] by (cases "v \<le> v'") auto

end

section \<open>The network\<close>

record bft_net =
  bn_vals :: "u32 \<Rightarrow> validator"
  bn_hist :: "vote list"

definition vote_stmt :: "vote \<Rightarrow> stmt" where
  "vote_stmt v = (v_signer v, v_view v, v_slot v, v_phase v, v_vhash v)"

fun broadcasts :: "bft_out list \<Rightarrow> vote list" where
  "broadcasts [] = []"
| "broadcasts (Broadcast v # out) = v # broadcasts out"
| "broadcasts (Committed _ _ # out) = broadcasts out"
| "broadcasts (Equivocation _ # out) = broadcasts out"
| "broadcasts (ViewChanged _ # out) = broadcasts out"

definition net_step :: "u32 \<Rightarrow> bft_out list \<Rightarrow> validator \<Rightarrow> bft_net \<Rightarrow> bft_net" where
  "net_step i out a net =
    net\<lparr>bn_vals := (bn_vals net)(i := a), bn_hist := bn_hist net @ broadcasts out\<rparr>"

text \<open>The votes that a delivered vote carries: itself and the certificates of a view change.\<close>

definition carried :: "vote \<Rightarrow> vote set" where
  "carried v = insert v
    (if v_phase v = ViewChange then \<Union>(slot, view, value, cert) \<in> set (decode_locks (v_value v)). set cert else {})"

text \<open>
  Signatures of honest validators cannot be forged: whatever verifies under the key of an honest
  validator is a statement that this validator has signed.
\<close>

definition unforged :: "validator_set \<Rightarrow> u32 set \<Rightarrow> stmt set \<Rightarrow> vote \<Rightarrow> bool" where
  "unforged s byz S v \<longleftrightarrow> (\<forall>w \<in> carried v. vote_verify s w \<and> v_signer w \<notin> byz \<longrightarrow> vote_stmt w \<in> S)"

inductive bft_reach :: "validator_set \<Rightarrow> (u32 \<Rightarrow> signer) \<Rightarrow> u32 set \<Rightarrow> bft_net \<Rightarrow> bool"
  for s :: validator_set and sg :: "u32 \<Rightarrow> signer" and byz :: "u32 set" where
  start: "bft_reach s sg byz \<lparr>bn_vals = (\<lambda>i. with_signer i (sg i) s), bn_hist = []\<rparr>"
| proposal: "bft_reach s sg byz net \<Longrightarrow> i \<notin> byz \<Longrightarrow> propose slot value (bn_vals net i) = (r, a) \<Longrightarrow>
    bft_reach s sg byz (net_step i (case r of None \<Rightarrow> [] | Some out \<Rightarrow> [out]) a net)"
| suspicion: "bft_reach s sg byz net \<Longrightarrow> i \<notin> byz \<Longrightarrow> start_view_change (bn_vals net i) = (r, a) \<Longrightarrow>
    bft_reach s sg byz (net_step i (case r of None \<Rightarrow> [] | Some out \<Rightarrow> [out]) a net)"
| delivery: "bft_reach s sg byz net \<Longrightarrow> i \<notin> byz \<Longrightarrow> unforged s byz (vote_stmt ` set (bn_hist net)) v \<Longrightarrow>
    ingest v (bn_vals net i) = (out, a) \<Longrightarrow> bft_reach s sg byz (net_step i out a net)"

text \<open>The configuration the protocol is meant for: \<open>3 f + 1\<close> validators, at most \<open>f\<close> of them faulty.\<close>

definition members :: "validator_set \<Rightarrow> u32 set" where
  "members s = {i. unat i < vs_n s}"

definition bft_config :: "validator_set \<Rightarrow> u32 set \<Rightarrow> bool" where
  "bft_config s byz \<longleftrightarrow> vs_n s = 3 * vs_f s + 1 \<and> card (byz \<inter> members s) \<le> vs_f s"

definition quorum_of :: "validator_set \<Rightarrow> u32 set \<Rightarrow> bool" where
  "quorum_of s Q \<longleftrightarrow> Q \<subseteq> members s \<and> vs_quorum s \<le> card Q"

lemma card_members: "card (members s) \<le> vs_n s"
proof -
  have "card (unat ` members s) \<le> card {..<vs_n s}" by (intro card_mono) (auto simp: members_def)
  moreover have "inj_on unat (members s)" by (rule inj_onI) (simp add: word_unat_eq_iff)
  ultimately show ?thesis by (simp add: card_image)
qed

lemma finite_members [simp]: "finite (members s)"
  by (rule finite_subset [OF subset_UNIV]) simp

lemma quorums_intersect:
  assumes "bft_config s byz" and "quorum_of s Q" and "quorum_of s Q'"
  shows "\<exists>i \<in> Q \<inter> Q'. i \<notin> byz"
proof (rule ccontr)
  assume "\<not> ?thesis"
  then have "Q \<inter> Q' \<subseteq> byz \<inter> members s" using assms(2) by (auto simp: quorum_of_def)
  then have "card (Q \<inter> Q') \<le> vs_f s"
    using assms(1) card_mono [of "byz \<inter> members s" "Q \<inter> Q'"] by (simp add: bft_config_def)
  moreover have fin: "finite Q" "finite Q'" using assms(2,3) by (auto simp: quorum_of_def intro: finite_subset)
  have "card (Q \<union> Q') \<le> vs_n s"
    using assms(2,3) card_mono [of "members s" "Q \<union> Q'"] card_members [of s] by (auto simp: quorum_of_def)
  moreover have "card Q + card Q' = card (Q \<union> Q') + card (Q \<inter> Q')" by (rule card_Un_Int [OF fin])
  ultimately show False using assms by (simp add: bft_config_def quorum_of_def vs_quorum_def)
qed

section \<open>What an honest validator knows\<close>

abbreviation cert_of :: "validator_set \<Rightarrow> u32 set \<Rightarrow> stmt set \<Rightarrow> phase \<Rightarrow> u32 \<Rightarrow> u64 \<Rightarrow> hash256 \<Rightarrow> bool" where
  "cert_of s \<equiv> certificate (quorum_of s)"

definition tally_ok :: "validator_set \<Rightarrow> u32 set \<Rightarrow> stmt set \<Rightarrow> (u32 \<times> u64 \<times> u8 \<times> hash256 \<rightharpoonup> u32 set) \<Rightarrow> bool" where
  "tally_ok s byz S m \<longleftrightarrow>
    (\<forall>w slot ph h T. m (w, slot, phase_tag ph, h) = Some T \<longrightarrow>
       T \<subseteq> members s \<and> (\<forall>j \<in> T - byz. (j, w, slot, ph, h) \<in> S))"

definition locks_ok :: "validator_set \<Rightarrow> u32 set \<Rightarrow> stmt set \<Rightarrow> locks \<Rightarrow> bool" where
  "locks_ok s byz S lk \<longleftrightarrow>
    (\<forall>slot w x c. bt_get lk slot = Some (w, x, c) \<longrightarrow> cert_of s byz S Prepare w slot (hash_of x))"

text \<open>The guard that makes a validator vote once per view and slot.\<close>

definition sent_ok :: "phase \<Rightarrow> u32 \<Rightarrow> stmt set \<Rightarrow> u32 \<Rightarrow> (u32 \<times> u64) set \<Rightarrow> bool" where
  "sent_ok ph i S view sent \<longleftrightarrow>
    (\<forall>w slot h. (i, w, slot, ph, h) \<in> S \<longrightarrow> w < view \<or> w = view \<and> (w, slot) \<in> sent)"

text \<open>Whoever has signed a commit holds a lock at least that high.\<close>

definition held_ok :: "u32 \<Rightarrow> stmt set \<Rightarrow> locks \<Rightarrow> bool" where
  "held_ok i S lk \<longleftrightarrow>
    (\<forall>w slot h. (i, w, slot, Commit, h) \<in> S \<longrightarrow> (\<exists>u x c. bt_get lk slot = Some (u, x, c) \<and> w \<le> u))"

definition log_ok :: "validator_set \<Rightarrow> u32 set \<Rightarrow> stmt set \<Rightarrow> (u64, bytes) btree \<Rightarrow> bool" where
  "log_ok s byz S l \<longleftrightarrow>
    (\<forall>slot x. bt_get l slot = Some x \<longrightarrow> (\<exists>w. cert_of s byz S Commit w slot (hash_of x)))"

definition va_ok :: "validator_set \<Rightarrow> u32 set \<Rightarrow> u32 \<Rightarrow> stmt set \<Rightarrow> validator \<Rightarrow> bool" where
  "va_ok s byz i S a \<longleftrightarrow>
    va_id a = i \<and> va_set a = s \<and> tally_ok s byz S (va_tally a) \<and> locks_ok s byz S (va_locked a) \<and>
    sent_ok Prepare i S (va_view a) (va_prepared_sent a) \<and> sent_ok Commit i S (va_view a) (va_commit_sent a) \<and>
    held_ok i S (va_locked a) \<and> log_ok s byz S (va_committed a)"

lemma ok_mono:
  assumes "S \<subseteq> S'"
  shows "tally_ok s byz S m \<Longrightarrow> tally_ok s byz S' m" and "locks_ok s byz S lk \<Longrightarrow> locks_ok s byz S' lk"
    and "log_ok s byz S l \<Longrightarrow> log_ok s byz S' l"
proof -
  show "tally_ok s byz S m \<Longrightarrow> tally_ok s byz S' m"
    using assms unfolding tally_ok_def by blast
  show "locks_ok s byz S lk \<Longrightarrow> locks_ok s byz S' lk"
    using certificate_mono [OF _ assms] unfolding locks_ok_def by blast
  show "log_ok s byz S l \<Longrightarrow> log_ok s byz S' l"
    using certificate_mono [OF _ assms] unfolding log_ok_def by blast
qed

lemma sent_ok_insert:
  assumes "sent_ok ph i S view sent" and "x = (i, view, slot, ph, h) \<longrightarrow> (view, slot) \<in> sent"
    and "fst x = i \<and> fst (snd (snd (snd x))) = ph \<longrightarrow> x = (i, view, slot, ph, h)"
  shows "sent_ok ph i (insert x S) view sent"
  using assms unfolding sent_ok_def by fastforce

lemma sent_ok_mono: "sent_ok ph i S view sent \<Longrightarrow> sent \<subseteq> sent' \<Longrightarrow> sent_ok ph i S view sent'"
  unfolding sent_ok_def by blast

lemma held_ok_insert:
  "held_ok i S lk \<Longrightarrow> fst x \<noteq> i \<or> fst (snd (snd (snd x))) \<noteq> Commit \<Longrightarrow> held_ok i (insert x S) lk"
  unfolding held_ok_def by (metis fst_conv insert_iff snd_conv)

text \<open>When an honest validator may sign a statement, given those signed before.\<close>

definition admits :: "validator_set \<Rightarrow> u32 set \<Rightarrow> stmt set \<Rightarrow> stmt \<Rightarrow> bool" where
  "admits s byz S x \<longleftrightarrow>
    (\<forall>i w slot h. x = (i, w, slot, Prepare, h) \<longrightarrow>
       (\<forall>h'. (i, w, slot, Prepare, h') \<notin> S) \<and>
       (\<forall>v h'. (i, v, slot, Commit, h') \<in> S \<longrightarrow> v < w \<longrightarrow> (\<exists>u \<ge> v. cert_of s byz S Prepare u slot h))) \<and>
    (\<forall>i v slot h. x = (i, v, slot, Commit, h) \<longrightarrow>
       cert_of s byz S Prepare v slot h \<and> (\<forall>w h'. (i, w, slot, Prepare, h') \<in> S \<longrightarrow> w \<le> v))"

text \<open>A step of validator \<open>i\<close> signs at most one statement.\<close>

definition step_ok :: "validator_set \<Rightarrow> u32 set \<Rightarrow> u32 \<Rightarrow> stmt set \<Rightarrow> bft_out list \<times> validator \<Rightarrow> bool" where
  "step_ok s byz i S r \<longleftrightarrow>
    broadcasts (fst r) = [] \<and> va_ok s byz i S (snd r) \<or>
    (\<exists>x. broadcasts (fst r) = [x] \<and> v_signer x = i \<and> admits s byz S (vote_stmt x) \<and>
       va_ok s byz i (insert (vote_stmt x) S) (snd r))"

lemma broadcasts_append [simp]: "broadcasts (xs @ ys) = broadcasts xs @ broadcasts ys"
  by (induction xs rule: broadcasts.induct) simp_all

lemma va_ok_update [simp]:
  "va_ok s byz i S (a\<lparr>va_signer := g\<rparr>) = va_ok s byz i S a"
  "va_ok s byz i S (a\<lparr>va_seen := m\<rparr>) = va_ok s byz i S a"
  "va_ok s byz i S (a\<lparr>va_prepare_votes := pv\<rparr>) = va_ok s byz i S a"
  "va_ok s byz i S (a\<lparr>va_vc_sent := vs\<rparr>) = va_ok s byz i S a"
  "va_ok s byz i S (a\<lparr>va_vc_tally := vt\<rparr>) = va_ok s byz i S a"
  by (simp_all add: va_ok_def)

text \<open>Statements of others, and statements in the other two phases, change nothing.\<close>

lemma va_ok_insert_other:
  assumes "va_ok s byz i S a" and "fst x \<noteq> i \<or> fst (snd (snd (snd x))) \<in> {PrePrepare, ViewChange}"
  shows "va_ok s byz i (insert x S) a"
proof -
  have "sent_ok ph i (insert x S) view sent" if "sent_ok ph i S view sent" "ph \<in> {Prepare, Commit}" for ph view sent
    using that assms(2) by (intro sent_ok_insert) auto
  moreover have "held_ok i (insert x S) (va_locked a)"
    using assms by (intro held_ok_insert) (auto simp: va_ok_def)
  ultimately show ?thesis using assms(1) ok_mono [OF subset_insertI] unfolding va_ok_def by blast
qed

section \<open>Every step keeps it\<close>

lemma unforged_self: "unforged s byz S v \<Longrightarrow> vote_verify s v \<Longrightarrow> v_signer v \<notin> byz \<Longrightarrow> vote_stmt v \<in> S"
  by (simp add: unforged_def carried_def)

lemma vote_verifyD: "vote_verify s v \<Longrightarrow> v_signer v \<in> members s \<and> v_vhash v = hash_of (v_value v)"
  by (auto simp: vote_verify_def vs_root_def members_def vs_n_def split: if_splits)

text \<open>Appending a vote that \<open>make_vote\<close> signs.\<close>

lemma push_vote_ok:
  assumes "va_ok s byz i S a" and "broadcasts out = []"
    and "admits s byz S (i, va_view a, slot, ph, hash_of value)"
    and "va_ok s byz i (insert (i, va_view a, slot, ph, hash_of value) S) a"
  shows "step_ok s byz i S (push_vote slot ph value out a)"
proof -
  obtain r a' where r: "make_vote slot ph value a = (r, a')" by fastforce
  have "va_id a = i" using assms(1) by (simp add: va_ok_def)
  obtain g where "a' = a\<lparr>va_signer := g\<rparr>" and "r = None \<or> (\<exists>sig. r = Some \<lparr>v_view = va_view a, v_slot = slot,
      v_phase = ph, v_vhash = hash_of value, v_value = value, v_signer = va_id a, v_sig = sig\<rparr>)"
    using make_vote_cases [OF r] by metis
  then show ?thesis using assms r \<open>va_id a = i\<close>
    by (auto simp: step_ok_def push_vote_def vote_stmt_def)
qed

lemma count_vote_ok:
  assumes "va_ok s byz i S a" and "vote_verify s v" and "unforged s byz S v" and "v_phase v = ph"
    and "count_vote v ph a = (n, a')"
  shows "va_ok s byz i S a'" and "vs_quorum s \<le> n \<Longrightarrow> cert_of s byz S ph (v_view v) (v_slot v) (v_vhash v)"
    and "\<exists>m. a' = a\<lparr>va_tally := m\<rparr>"
proof -
  let ?k = "(v_view v, v_slot v, phase_tag ph, v_vhash v)"
  define T where "T = insert (v_signer v) (case va_tally a ?k of Some T \<Rightarrow> T | None \<Rightarrow> {})"
  have a': "a' = a\<lparr>va_tally := (va_tally a)(?k \<mapsto> T)\<rparr>" and n: "n = card T"
    using assms(5) by (auto simp: count_vote_def Let_def T_def)
  then show "\<exists>m. a' = a\<lparr>va_tally := m\<rparr>" by blast
  have tally: "tally_ok s byz S (va_tally a)" using assms(1) by (simp add: va_ok_def)
  have T: "T \<subseteq> members s \<and> (\<forall>j \<in> T - byz. (j, v_view v, v_slot v, ph, v_vhash v) \<in> S)"
    using tally vote_verifyD [OF assms(2)] unforged_self [OF assms(3,2)] assms(4)
    unfolding T_def tally_ok_def vote_stmt_def by (auto split: option.split)
  have inj: "phase_tag p = phase_tag p' \<longleftrightarrow> p = p'" for p p' by (cases p; cases p') auto
  have "tally_ok s byz S ((va_tally a)(?k \<mapsto> T))" using tally T unfolding tally_ok_def by (simp add: inj)
  then show "va_ok s byz i S a'" using assms(1) unfolding a' by (simp add: va_ok_def)
  show "cert_of s byz S ph (v_view v) (v_slot v) (v_vhash v)" if "vs_quorum s \<le> n"
    using T that unfolding n certificate_def quorum_of_def by blast
qed

lemma ingest_preprepare_ok:
  assumes "va_ok s byz i S a" and "vote_verify s v"
  shows "step_ok s byz i S (ingest_preprepare v [] a)"
proof (cases "v_view v \<noteq> va_view a \<or> v_signer v \<noteq> vs_leader (va_set a) (va_view a) \<or>
    (case bt_get (va_locked a) (v_slot v) of Some (_, lk, _) \<Rightarrow> hash_of lk \<noteq> v_vhash v | None \<Rightarrow> False) \<or>
    (va_view a, v_slot v) \<in> va_prepared_sent a")
  case True
  then have "ingest_preprepare v [] a = ([], a)" by (auto simp: ingest_preprepare_def)
  then show ?thesis using assms(1) by (simp add: step_ok_def)
next
  case False
  let ?a = "a\<lparr>va_prepared_sent := insert (va_view a, v_slot v) (va_prepared_sent a)\<rparr>"
  let ?x = "(i, va_view a, v_slot v, Prepare, v_vhash v)"
  have hash: "v_vhash v = hash_of (v_value v)" using vote_verifyD [OF assms(2)] by simp
  have sent: "sent_ok Prepare i S (va_view a) (va_prepared_sent ?a)"
    by (rule sent_ok_mono [of _ _ _ _ "va_prepared_sent a"]) (use assms(1) in \<open>simp_all add: va_ok_def subset_insertI\<close>)
  then have ok: "va_ok s byz i S ?a" using assms(1) by (simp add: va_ok_def)
  have fresh: "(i, va_view a, v_slot v, Prepare, h) \<notin> S" for h
    using assms(1) False unfolding va_ok_def sent_ok_def by (meson order_less_irrefl)
  have lock: "\<exists>u \<ge> w. cert_of s byz S Prepare u (v_slot v) (v_vhash v)" if "(i, w, v_slot v, Commit, h) \<in> S" for w h
  proof -
    obtain u x c where "bt_get (va_locked a) (v_slot v) = Some (u, x, c)" "w \<le> u"
      using assms(1) \<open>(i, w, v_slot v, Commit, h) \<in> S\<close> unfolding va_ok_def held_ok_def by blast
    then show ?thesis using assms(1) False unfolding va_ok_def locks_ok_def by fastforce
  qed
  have "admits s byz S ?x" using fresh lock by (auto simp: admits_def)
  moreover have "va_ok s byz i (insert ?x S) ?a"
    using ok sent ok_mono [OF subset_insertI] held_ok_insert [of i S _ ?x]
      sent_ok_insert [of Prepare i S "va_view a" _ ?x] sent_ok_insert [of Commit i S "va_view a" _ ?x]
    unfolding va_ok_def by simp
  ultimately show ?thesis
    using False push_vote_ok [OF ok, of "[]" "v_slot v" Prepare "v_value v"] by (simp add: ingest_preprepare_def hash)
qed

lemma ingest_prepare_ok:
  assumes "va_ok s byz i S a" and "vote_verify s v" and "unforged s byz S v" and "v_phase v = Prepare"
  shows "step_ok s byz i S (ingest_prepare v [] a)"
proof (cases "v_view v = va_view a")
  case False
  then show ?thesis using assms(1) by (simp add: ingest_prepare_def step_ok_def)
next
  case True
  let ?k = "(v_view v, v_slot v, v_vhash v)" and ?x = "(i, va_view a, v_slot v, Commit, v_vhash v)"
  define a1 where "a1 = a\<lparr>va_prepare_votes := (va_prepare_votes a)(?k \<mapsto>
    bt_insert (v_signer v) v (case va_prepare_votes a ?k of Some m \<Rightarrow> m | None \<Rightarrow> []))\<rparr>"
  obtain n a2 where c: "count_vote v Prepare a1 = (n, a2)" by fastforce
  have "va_ok s byz i S a1" using assms(1) by (simp add: a1_def)
  note counted = count_vote_ok [OF this assms(2,3,4) c]
  then obtain m where a2: "a2 = a1\<lparr>va_tally := m\<rparr>" by blast
  have set: "va_set a2 = s" "va_view a2 = va_view a" using assms(1) by (simp_all add: va_ok_def a2 a1_def)
  show ?thesis
  proof (cases "vs_quorum s \<le> n \<and> (va_view a, v_slot v) \<notin> va_commit_sent a2")
    case False
    then have "ingest_prepare v [] a = ([], a2)"
      using True set c [unfolded a1_def] by (auto simp: ingest_prepare_def Let_def)
    then show ?thesis using counted(1) by (simp add: step_ok_def)
  next
    case quorum: True
    define cert where "cert = (case va_prepare_votes a2 ?k of Some m \<Rightarrow> map snd m | None \<Rightarrow> [])"
    define a3 where "a3 = a2\<lparr>va_commit_sent := insert (va_view a, v_slot v) (va_commit_sent a2),
      va_locked := bt_insert (v_slot v) (va_view a, v_value v, cert) (va_locked a2)\<rparr>"
    have run: "ingest_prepare v [] a = push_vote (v_slot v) Commit (v_value v) [] a3"
      using True set quorum c [unfolded a1_def] by (simp add: ingest_prepare_def Let_def a3_def cert_def)
    have hash: "v_vhash v = hash_of (v_value v)" using vote_verifyD [OF assms(2)] by simp
    have cert: "cert_of s byz S Prepare (va_view a) (v_slot v) (v_vhash v)" using counted(2) quorum True by simp
    have bound: "w \<le> va_view a" if "(i, w, slot, ph, h) \<in> S" "ph = Prepare \<or> ph = Commit" for w slot ph h
      using counted(1) that set(2) unfolding va_ok_def sent_ok_def by (metis order_le_less)
    have sent: "sent_ok Commit i S (va_view a) (va_commit_sent a3)"
      by (rule sent_ok_mono [of _ _ _ _ "va_commit_sent a2"])
        (use counted(1) set in \<open>simp_all add: va_ok_def a3_def subset_insertI\<close>)
    have locks: "locks_ok s byz S (va_locked a3)"
      using counted(1) cert hash unfolding va_ok_def locks_ok_def by (simp add: a3_def)
    have held: "held_ok i S' (va_locked a3)" if "S' \<subseteq> insert ?x S" for S'
    proof (unfold held_ok_def, intro allI impI)
      fix w slot h
      assume "(i, w, slot, Commit, h) \<in> S'"
      then have "w \<le> va_view a" "slot \<noteq> v_slot v \<longrightarrow> (i, w, slot, Commit, h) \<in> S" using that bound by auto
      then show "\<exists>u x c. bt_get (va_locked a3) slot = Some (u, x, c) \<and> w \<le> u"
        using counted(1) unfolding va_ok_def held_ok_def by (cases "slot = v_slot v") (simp_all add: a3_def, blast)
    qed
    have ok: "va_ok s byz i S a3"
      using counted(1) sent locks held [of S] set unfolding va_ok_def by (simp add: a3_def subset_insertI)
    have "admits s byz S ?x" using cert bound by (auto simp: admits_def)
    moreover have "va_ok s byz i (insert ?x S) a3"
      using ok set held [of "insert ?x S"] ok_mono [OF subset_insertI]
        sent_ok_insert [of Prepare i S "va_view a" _ ?x] sent_ok_insert [of Commit i S "va_view a" _ ?x]
      unfolding va_ok_def by (simp add: a3_def)
    ultimately show ?thesis
      unfolding run using push_vote_ok [OF ok, of "[]" "v_slot v" Commit "v_value v"] set by (simp add: hash a3_def)
  qed
qed

lemma ingest_commit_ok:
  assumes "va_ok s byz i S a" and "vote_verify s v" and "unforged s byz S v" and "v_phase v = Commit"
  shows "step_ok s byz i S (ingest_commit v [] a)"
proof -
  obtain n a1 where c: "count_vote v Commit a = (n, a1)" by fastforce
  note counted = count_vote_ok [OF assms c]
  have hash: "v_vhash v = hash_of (v_value v)" using vote_verifyD [OF assms(2)] by simp
  have "log_ok s byz S (bt_insert (v_slot v) (v_value v) (va_committed a1))" if "vs_quorum s \<le> n"
    using counted(1) counted(2) [OF that] hash unfolding va_ok_def log_ok_def by auto
  then show ?thesis using counted(1) c
    by (auto simp: ingest_commit_def step_ok_def va_ok_def)
qed

lemma verify_prepared_cert_ok:
  assumes "verify_prepared_cert s slot view value cert"
    and "\<forall>w \<in> set cert. vote_verify s w \<and> v_signer w \<notin> byz \<longrightarrow> vote_stmt w \<in> S"
  shows "cert_of s byz S Prepare view slot (hash_of value)"
proof -
  have all: "v_phase w = Prepare \<and> v_view w = view \<and> v_slot w = slot \<and> v_vhash w = hash_of value \<and> vote_verify s w"
    if "w \<in> set cert" for w
    using assms(1) that by (auto simp: verify_prepared_cert_def Let_def list_ex_iff split: if_splits)
  have "quorum_of s (v_signer ` set cert)"
    using assms(1) all vote_verifyD
    by (auto simp: verify_prepared_cert_def Let_def quorum_of_def split: if_splits)
  then show ?thesis
    using all assms(2) unfolding certificate_def vote_stmt_def by (intro exI [of _ "v_signer ` set cert"]) auto
qed

lemma merge_lock_ok:
  assumes "locks_ok s byz S lk" and "held_ok i S lk" and "e = (slot, view, value, cert)"
    and "\<forall>w \<in> set cert. vote_verify s w \<and> v_signer w \<notin> byz \<longrightarrow> vote_stmt w \<in> S"
  shows "locks_ok s byz S (merge_lock s lk e) \<and> held_ok i S (merge_lock s lk e)"
proof (cases "verify_prepared_cert s slot view value cert \<and>
    (case bt_get lk slot of Some (w, _, _) \<Rightarrow> view > w | None \<Rightarrow> True)")
  case False
  then have "merge_lock s lk e = lk" using assms(3) by (auto simp: merge_lock_def)
  then show ?thesis using assms(1,2) by simp
next
  case True
  then have eq: "merge_lock s lk e = bt_insert slot (view, value, cert) lk" using assms(3) by (simp add: merge_lock_def)
  have "cert_of s byz S Prepare view slot (hash_of value)"
    using True assms(4) by (intro verify_prepared_cert_ok) auto
  then have "locks_ok s byz S (bt_insert slot (view, value, cert) lk)"
    using assms(1) by (simp add: locks_ok_def)
  moreover have "held_ok i S (bt_insert slot (view, value, cert) lk)"
    using assms(2) True unfolding held_ok_def by (fastforce split: option.splits)
  ultimately show ?thesis by (simp add: eq)
qed

lemma merge_locks_ok:
  assumes "locks_ok s byz S lk" and "held_ok i S lk"
    and "\<forall>(slot, view, value, cert) \<in> set es. \<forall>w \<in> set cert. vote_verify s w \<and> v_signer w \<notin> byz \<longrightarrow> vote_stmt w \<in> S"
  shows "locks_ok s byz S (foldl (merge_lock s) lk es) \<and> held_ok i S (foldl (merge_lock s) lk es)"
  using assms
proof (induction es arbitrary: lk)
  case (Cons e es)
  obtain slot view x cert where e: "e = (slot, view, x, cert)" by (cases e)
  have "locks_ok s byz S (merge_lock s lk e) \<and> held_ok i S (merge_lock s lk e)"
    using Cons.prems e by (intro merge_lock_ok) auto
  then show ?case using Cons.IH Cons.prems(3) by simp
qed simp

lemma ingest_view_change_ok:
  assumes "va_ok s byz i S a" and "unforged s byz S v" and "v_phase v = ViewChange"
  shows "step_ok s byz i S (ingest_view_change v [] a)"
proof (cases "v_view v \<le> va_view a")
  case True
  then show ?thesis using assms(1) by (simp add: ingest_view_change_def step_ok_def)
next
  case False
  have s: "va_set a = s" using assms(1) by (simp add: va_ok_def)
  let ?lk = "foldl (merge_lock s) (va_locked a) (decode_locks (v_value v))"
  have "\<forall>(slot, view, x, cert) \<in> set (decode_locks (v_value v)). \<forall>w \<in> set cert.
      vote_verify s w \<and> v_signer w \<notin> byz \<longrightarrow> vote_stmt w \<in> S"
    using assms(2,3) unfolding unforged_def carried_def by fastforce
  then have "locks_ok s byz S ?lk" "held_ok i S ?lk"
    using assms(1) merge_locks_ok by (auto simp: va_ok_def)
  then have ok: "va_ok s byz i S (a\<lparr>va_locked := ?lk\<rparr>)" using assms(1) by (simp add: va_ok_def)
  have later: "sent_ok ph i S (v_view v) T" if "sent_ok ph i S (va_view a) T'" for ph T T'
    unfolding sent_ok_def
  proof (intro allI impI disjI1)
    fix w slot h
    assume "(i, w, slot, ph, h) \<in> S"
    then have "w \<le> va_view a" using that unfolding sent_ok_def by (metis order_le_less)
    then show "w < v_view v" using False by simp
  qed
  have "va_ok s byz i S (a\<lparr>va_locked := ?lk, va_vc_tally := m, va_view := v_view v,
      va_prepared_sent := P, va_commit_sent := C\<rparr>)" for m P C
    using ok later [where ph = Prepare and T = P] later [where ph = Commit and T = C] unfolding va_ok_def by simp blast
  then show ?thesis using False s ok
    by (simp add: ingest_view_change_def step_ok_def Let_def)
qed

lemma ingest_ok:
  assumes "va_ok s byz i S a" and "unforged s byz S v"
  shows "step_ok s byz i S (ingest v a)"
proof -
  have s: "va_set a = s" using assms(1) by (simp add: va_ok_def)
  have phase: "step_ok s byz i S (ingest_phase v [] b)" if "va_ok s byz i S b" "vote_verify s v" for b
    using that assms(2)
    by (cases "v_phase v") (simp_all add: ingest_phase_def ingest_preprepare_ok ingest_prepare_ok ingest_commit_ok ingest_view_change_ok)
  show ?thesis
  proof (cases "vote_verify s v")
    case False
    then show ?thesis using assms(1) s by (simp add: ingest_def step_ok_def)
  next
    case True
    moreover have "step_ok s byz i S ([Equivocation p], a)" for p using assms(1) by (simp add: step_ok_def)
    ultimately show ?thesis
      using assms(1) s phase [of a] phase [of "a\<lparr>va_seen := m\<rparr>" for m]
      by (simp add: ingest_def Let_def split: option.split)
  qed
qed

lemma other_phase_ok:
  assumes "va_ok s byz i S a" and "v_signer x = i" and "v_phase x \<in> {PrePrepare, ViewChange}"
  shows "step_ok s byz i S ([Broadcast x], a)"
  using assms va_ok_insert_other [of s byz i S a "vote_stmt x"]
  by (auto simp: step_ok_def vote_stmt_def admits_def)

lemma propose_ok:
  assumes "va_ok s byz i S a" and "propose slot x a = (r, a')"
  shows "step_ok s byz i S ((case r of None \<Rightarrow> [] | Some out \<Rightarrow> [out]), a')"
proof (cases "is_leader a")
  case False
  then show ?thesis using assms by (simp add: propose_def step_ok_def)
next
  case True
  define y where "y = (case bt_get (va_locked a) slot of Some (_, x, _) \<Rightarrow> x | None \<Rightarrow> x)"
  obtain p b where m: "make_vote slot PrePrepare y a = (p, b)" by fastforce
  then have r: "r = map_option Broadcast p" "a' = b" using assms(2) True by (auto simp: propose_def y_def)
  obtain g where "b = a\<lparr>va_signer := g\<rparr>" and "p = None \<or> (\<exists>sig. p = Some \<lparr>v_view = va_view a, v_slot = slot,
      v_phase = PrePrepare, v_vhash = hash_of y, v_value = y, v_signer = va_id a, v_sig = sig\<rparr>)"
    using make_vote_cases [OF m] by metis
  then show ?thesis
    using assms(1) r by (auto intro!: other_phase_ok simp: va_ok_def) (auto simp: step_ok_def va_ok_def)
qed

lemma start_view_change_ok:
  assumes "va_ok s byz i S a" and "start_view_change a = (r, a')"
  shows "step_ok s byz i S ((case r of None \<Rightarrow> [] | Some out \<Rightarrow> [out]), a')"
proof -
  have "va_ok s byz i S a'"
    using assms by (auto simp: start_view_change_def Let_def split: if_splits prod.splits option.splits)
  moreover have "r = None \<or> (\<exists>x. r = Some (Broadcast x) \<and> v_signer x = i \<and> v_phase x = ViewChange)"
    using assms by (auto simp: start_view_change_def Let_def va_ok_def split: if_splits prod.splits option.splits)
  ultimately show ?thesis by (auto intro: other_phase_ok) (auto simp: step_ok_def)
qed

section \<open>Reachable networks\<close>

definition hist_ok :: "validator_set \<Rightarrow> u32 set \<Rightarrow> stmt list \<Rightarrow> bool" where
  "hist_ok s byz L \<longleftrightarrow> (\<forall>k < length L. admits s byz (set (take k L)) (L ! k))"

definition net_ok :: "validator_set \<Rightarrow> u32 set \<Rightarrow> bft_net \<Rightarrow> bool" where
  "net_ok s byz net \<longleftrightarrow>
    hist_ok s byz (map vote_stmt (bn_hist net)) \<and>
    (\<forall>i. i \<notin> byz \<longrightarrow> va_ok s byz i (vote_stmt ` set (bn_hist net)) (bn_vals net i))"

lemma hist_ok_snoc: "hist_ok s byz L \<Longrightarrow> admits s byz (set L) x \<Longrightarrow> hist_ok s byz (L @ [x])"
  by (auto simp: hist_ok_def nth_append less_Suc_eq)

lemma net_step_ok:
  assumes "net_ok s byz net" and "i \<notin> byz" and "step_ok s byz i (vote_stmt ` set (bn_hist net)) (out, a)"
  shows "net_ok s byz (net_step i out a net)"
proof -
  let ?S = "vote_stmt ` set (bn_hist net)"
  consider "broadcasts out = []" "va_ok s byz i ?S a"
    | x where "broadcasts out = [x]" "v_signer x = i" "admits s byz ?S (vote_stmt x)"
        "va_ok s byz i (insert (vote_stmt x) ?S) a"
    using assms(3) by (auto simp: step_ok_def)
  then show ?thesis
  proof cases
    case 1
    then show ?thesis using assms(1) by (simp add: net_ok_def net_step_def)
  next
    case (2 x)
    have "va_ok s byz j (insert (vote_stmt x) ?S) (bn_vals net j)" if "j \<notin> byz" "j \<noteq> i" for j
      using assms(1) that 2(2) by (intro va_ok_insert_other) (auto simp: net_ok_def vote_stmt_def)
    then show ?thesis
      using assms(1) 2 hist_ok_snoc [of s byz "map vote_stmt (bn_hist net)" "vote_stmt x"]
      by (simp add: net_ok_def net_step_def)
  qed
qed

lemma with_signer_ok: "va_ok s byz i {} (with_signer i g s)"
  by (simp add: va_ok_def tally_ok_def locks_ok_def sent_ok_def held_ok_def log_ok_def with_signer_def)

lemma reachable_ok: "bft_reach s sg byz net \<Longrightarrow> net_ok s byz net"
proof (induction rule: bft_reach.induct)
  case start
  show ?case by (simp add: net_ok_def hist_ok_def with_signer_ok)
next
  case (proposal net i slot x r a)
  then show ?case by (intro net_step_ok propose_ok) (auto simp: net_ok_def)
next
  case (suspicion net i r a)
  then show ?case by (intro net_step_ok start_view_change_ok) (auto simp: net_ok_def)
next
  case (delivery net i v out a)
  then show ?case
    by (intro net_step_ok) (auto simp: net_ok_def intro: ingest_ok [of s byz i _ "bn_vals net i" v, unfolded delivery(4)])
qed

lemma hist_ok_once:
  assumes "hist_ok s byz L" and "(i, w, slot, Prepare, h) \<in> set L" and "(i, w, slot, Prepare, h') \<in> set L"
  shows "h = h'"
proof -
  obtain j k where jk: "j < length L" "L ! j = (i, w, slot, Prepare, h)" "k < length L" "L ! k = (i, w, slot, Prepare, h')"
    using assms(2,3) by (auto simp: in_set_conv_nth)
  have "\<not> a < b" if "a < length L" "b < length L" "L ! a = (i, w, slot, Prepare, x)" "L ! b = (i, w, slot, Prepare, y)"
    for a b x y
  proof
    assume "a < b"
    then have "(i, w, slot, Prepare, x) \<in> set (take b L)"
      using that by (auto simp: in_set_conv_nth intro!: exI [of _ a])
    then show False using assms(1) that unfolding hist_ok_def admits_def by blast
  qed
  then have "j = k" using jk by (meson linorder_neqE_nat)
  then show ?thesis using jk by simp
qed

lemma hist_ok_commit:
  assumes "hist_ok s byz L" and "(i, v, slot, Commit, h) \<in> set L"
  shows "cert_of s byz (set L) Prepare v slot h"
proof -
  obtain k where "k < length L" "L ! k = (i, v, slot, Commit, h)" using assms(2) by (auto simp: in_set_conv_nth)
  then have "cert_of s byz (set (take k L)) Prepare v slot h" using assms(1) unfolding hist_ok_def admits_def by blast
  then show ?thesis by (rule certificate_mono [OF _ set_take_subset])
qed

lemma hist_ok_locked:
  assumes "hist_ok s byz L" and "k < length L" and "L ! k = (i, w, slot, Prepare, h')"
    and "(i, v, slot, Commit, h) \<in> set L" and "v < w"
  shows "\<exists>u \<ge> v. cert_of s byz (set (take k L)) Prepare u slot h'"
proof -
  obtain m where m: "m < length L" "L ! m = (i, v, slot, Commit, h)" using assms(4) by (auto simp: in_set_conv_nth)
  have "m < k"
  proof (rule ccontr)
    assume "\<not> m < k"
    then have "k < m" using m assms(3) by (metis linorder_neqE_nat phase.distinct(7) prod.inject)
    then have "(i, w, slot, Prepare, h') \<in> set (take m L)"
      using assms(2,3) m(1) by (auto simp: in_set_conv_nth intro!: exI [of _ k])
    then have "w \<le> v" using assms(1) m unfolding hist_ok_def admits_def by blast
    then show False using assms(5) by simp
  qed
  then have "(i, v, slot, Commit, h) \<in> set (take k L)"
    using m assms(2) by (auto simp: in_set_conv_nth intro!: exI [of _ m])
  then show ?thesis using assms(1,2,3,5) unfolding hist_ok_def admits_def by blast
qed

interpretation bft: locked_voting "quorum_of s" byz "\<lambda>net. bft_config s byz \<and> bft_reach s sg byz net"
  "\<lambda>net. map vote_stmt (bn_hist net)" for s sg byz
proof
  fix net Q Q'
  assume "bft_config s byz \<and> bft_reach s sg byz net" "quorum_of s Q" "quorum_of s Q'"
  then show "\<exists>i \<in> Q \<inter> Q'. i \<notin> byz" using quorums_intersect by blast
next
  fix net i w slot h h'
  assume "bft_config s byz \<and> bft_reach s sg byz net" and "i \<notin> byz"
    and "(i, w, slot, Prepare, h) \<in> set (map vote_stmt (bn_hist net))"
    and "(i, w, slot, Prepare, h') \<in> set (map vote_stmt (bn_hist net))"
  then show "h = h'" using reachable_ok hist_ok_once unfolding net_ok_def by metis
next
  fix net i v slot h
  assume "bft_config s byz \<and> bft_reach s sg byz net" and "i \<notin> byz"
    and "(i, v, slot, Commit, h) \<in> set (map vote_stmt (bn_hist net))"
  then show "cert_of s byz (set (map vote_stmt (bn_hist net))) Prepare v slot h"
    using reachable_ok hist_ok_commit unfolding net_ok_def by metis
next
  fix net i k w slot h h' v
  assume "bft_config s byz \<and> bft_reach s sg byz net" and "i \<notin> byz" and "k < length (map vote_stmt (bn_hist net))"
    and "map vote_stmt (bn_hist net) ! k = (i, w, slot, Prepare, h')"
    and "(i, v, slot, Commit, h) \<in> set (map vote_stmt (bn_hist net))" and "v < w"
  then show "\<exists>u \<ge> v. cert_of s byz (set (take k (map vote_stmt (bn_hist net)))) Prepare u slot h'"
    using reachable_ok hist_ok_locked unfolding net_ok_def by metis
qed

section \<open>Properties\<close>

text \<open>
  C2: Agreement.  With \<open>3 f + 1\<close> validators of which at most \<open>f\<close> are faulty, whatever the faulty ones
  send and however the network delays, reorders, duplicates or drops votes, across any number of
  view changes: two honest validators that have committed a slot have committed values with the same
  hash, hence the same value unless the two collide.
\<close>
theorem consensus_agreement:
  assumes "bft_config s byz" and "bft_reach s sg byz net" and "i \<notin> byz" and "j \<notin> byz"
    and "committed_value (bn_vals net i) slot = Some x" and "committed_value (bn_vals net j) slot = Some y"
  shows "hash_of x = hash_of y \<and> (inj_on hash_of {x, y} \<longrightarrow> x = y)"
proof -
  let ?S = "set (map vote_stmt (bn_hist net))"
  have "\<exists>w. cert_of s byz ?S Commit w slot (hash_of z)"
    if "k \<notin> byz" "committed_value (bn_vals net k) slot = Some z" for k z
    using reachable_ok [OF assms(2)] that
    by (auto simp: net_ok_def va_ok_def log_ok_def committed_value_def)
  then obtain v w where "cert_of s byz ?S Commit v slot (hash_of x)" "cert_of s byz ?S Commit w slot (hash_of y)"
    using assms(3-6) by meson
  then have "hash_of x = hash_of y" using bft.agreement [of s byz sg net] assms(1,2) by blast
  then show ?thesis using inj_on_pairD by blast
qed

text \<open>The first vote of every signer that a validator has seen was verified.\<close>

definition seen_ok :: "validator_set \<Rightarrow> u32 set \<Rightarrow> stmt set \<Rightarrow> (u32 \<times> u32 \<times> u64 \<times> u8 \<rightharpoonup> vote) \<Rightarrow> bool" where
  "seen_ok s byz S m \<longleftrightarrow> (\<forall>k w. m k = Some w \<longrightarrow>
    equiv_key w = k \<and> vote_verify s w \<and> (v_signer w \<notin> byz \<longrightarrow> vote_stmt w \<in> S))"

lemma make_vote_seen: "make_vote slot ph x a = (r, b) \<Longrightarrow> va_seen b = va_seen a"
  by (erule make_vote_cases) simp

lemma push_vote_seen: "va_seen (snd (push_vote slot ph x out a)) = va_seen a"
  using make_vote_seen by (auto simp: push_vote_def split: prod.split option.split)

lemma count_vote_seen: "count_vote v ph a = (n, b) \<Longrightarrow> va_seen b = va_seen a"
  by (auto simp: count_vote_def Let_def)

lemma ingest_phase_seen: "va_seen (snd (ingest_phase v out a)) = va_seen a"
  by (cases "v_phase v")
    (auto simp: ingest_phase_def ingest_preprepare_def ingest_prepare_def ingest_commit_def ingest_view_change_def
      push_vote_seen Let_def dest!: count_vote_seen split: prod.split)

lemma seen_ok_mono: "seen_ok s byz S m \<Longrightarrow> S \<subseteq> S' \<Longrightarrow> seen_ok s byz S' m"
  unfolding seen_ok_def by blast

lemma ingest_seen:
  assumes "seen_ok s byz S (va_seen a)" and "unforged s byz S v" and "va_set a = s" and "ingest v a = (out, b)"
  shows "seen_ok s byz S (va_seen b)"
proof -
  let ?m = "(va_seen a)((v_signer v, v_view v, v_slot v, phase_tag (v_phase v)) \<mapsto> v)"
  have "seen_ok s byz S ?m" if "vote_verify s v"
    using assms(1) that unforged_self [OF assms(2)] unfolding seen_ok_def by (auto simp: equiv_key_def)
  moreover have "va_seen b = va_seen a \<or> vote_verify s v \<and> va_seen b = ?m"
    using assms(3,4) ingest_phase_seen [of v "[]" a] ingest_phase_seen [of v "[]" "a\<lparr>va_seen := ?m\<rparr>"]
    by (auto simp: ingest_def Let_def split: if_splits option.splits)
  ultimately show ?thesis using assms(1) by auto
qed

lemma reachable_seen:
  "bft_reach s sg byz net \<Longrightarrow> i \<notin> byz \<Longrightarrow> seen_ok s byz (vote_stmt ` set (bn_hist net)) (va_seen (bn_vals net i))"
proof (induction arbitrary: i rule: bft_reach.induct)
  case start
  show ?case by (simp add: seen_ok_def with_signer_def)
next
  case (proposal net j slot x r a)
  have "va_seen a = va_seen (bn_vals net j)"
    using proposal(3) make_vote_seen by (auto simp: propose_def Let_def map_prod_def split: if_splits prod.splits)
  then show ?case using proposal by (auto simp: net_step_def image_Un intro: seen_ok_mono)
next
  case (suspicion net j r a)
  have "va_seen a = va_seen (bn_vals net j)"
    using suspicion(3) by (auto simp: start_view_change_def Let_def split: if_splits prod.splits option.splits)
  then show ?case using suspicion by (auto simp: net_step_def image_Un intro: seen_ok_mono)
next
  case (delivery net j v out a)
  have "va_set (bn_vals net j) = s" using reachable_ok [OF delivery(1)] delivery(2) by (auto simp: net_ok_def va_ok_def)
  then have "seen_ok s byz (vote_stmt ` set (bn_hist net)) (va_seen a)"
    using ingest_seen delivery by blast
  then show ?case using delivery by (auto simp: net_step_def image_Un intro: seen_ok_mono)
qed

text \<open>Honest validators sign one value per view, slot and phase.\<close>

lemma honest_signs_once:
  assumes "bft_config s byz" and "bft_reach s sg byz net" and "i \<notin> byz" and "ph = Prepare \<or> ph = Commit"
    and "(i, w, slot, ph, h) \<in> vote_stmt ` set (bn_hist net)" and "(i, w, slot, ph, h') \<in> vote_stmt ` set (bn_hist net)"
  shows "h = h'"
proof -
  have r: "bft_config s byz \<and> bft_reach s sg byz net" using assms(1,2) by simp
  show ?thesis
    using assms(4-6) bft.prepare_once [OF r assms(3)] bft.same_view [OF r] bft.commit_prepared [OF r assms(3)]
    by (metis set_map)
qed

text \<open>
  Accountability.  The equivocation proof that an honest validator emits convinces everyone who
  holds the validator set, and one about a prepare or commit vote accuses a faulty validator: honest
  validators cannot be framed.
\<close>
theorem equivocation_proof_sound:
  assumes "bft_config s byz" and "bft_reach s sg byz net" and "i \<notin> byz"
    and "unforged s byz (vote_stmt ` set (bn_hist net)) v" and "ingest v (bn_vals net i) = (out, a)"
    and "Equivocation p \<in> set out"
  shows "verify_equivocation s p \<and> (v_phase (ep_a p) \<in> {Prepare, Commit} \<longrightarrow> v_signer (ep_a p) \<in> byz)"
proof -
  let ?S = "vote_stmt ` set (bn_hist net)" and ?a = "bn_vals net i"
  have s: "va_set ?a = s" using reachable_ok [OF assms(2)] assms(3) by (auto simp: net_ok_def va_ok_def)
  have none: "Equivocation p \<notin> set (fst (ingest_phase v [] b))" for b
    by (cases "v_phase v") (auto simp: ingest_phase_def ingest_preprepare_def ingest_prepare_def ingest_commit_def
        ingest_view_change_def push_vote_def Let_def split: prod.split option.split)
  have none': "ingest_phase v [] b \<noteq> (out, a)" for b using none [of b] assms(6) by (metis fst_conv)
  obtain prev where prev: "va_seen ?a (equiv_key v) = Some prev" "v_vhash prev \<noteq> v_vhash v" "vote_verify s v"
      "p = \<lparr>ep_a = prev, ep_b = v\<rparr>"
    using assms(5,6) none' s by (auto simp: ingest_def equiv_key_def Let_def split: if_splits option.splits)
  have w: "equiv_key prev = equiv_key v" "vote_verify s prev" "v_signer prev \<notin> byz \<longrightarrow> vote_stmt prev \<in> ?S"
    using reachable_seen [OF assms(2,3)] prev(1) unfolding seen_ok_def by blast+
  have tag: "phase_tag x = phase_tag y \<longleftrightarrow> x = y" for x y by (cases x; cases y) auto
  have "v_signer prev \<in> byz" if "v_phase prev = Prepare \<or> v_phase prev = Commit"
  proof (rule ccontr)
    assume honest: "v_signer prev \<notin> byz"
    have "vote_stmt prev = (v_signer prev, v_view prev, v_slot prev, v_phase prev, v_vhash prev)"
      "vote_stmt v = (v_signer prev, v_view prev, v_slot prev, v_phase prev, v_vhash v)"
      using w(1) by (auto simp: vote_stmt_def equiv_key_def tag)
    moreover have "vote_stmt v \<in> ?S" using unforged_self [OF assms(4) prev(3)] w(1) honest by (simp add: equiv_key_def)
    ultimately show False using honest_signs_once [OF assms(1,2) honest that] w(3) honest prev(2) by metis
  qed
  then show ?thesis using prev w by (auto simp: verify_equivocation_def)
qed

text \<open>
  The quorum size is safe only for \<open>3 f + 1\<close> validators: with six, the code still asks for three votes,
  and two disjoint quorums exist.
\<close>

lemma six_validators_disjoint_quorums:
  assumes "vs_n s = 6"
  shows "\<exists>Q Q'. quorum_of s Q \<and> quorum_of s Q' \<and> Q \<inter> Q' = {}"
proof (intro exI conjI)
  show "quorum_of s {0, 1, 2}" "quorum_of s {3, 4, 5}"
    using assms by (simp_all add: quorum_of_def members_def vs_quorum_def vs_f_def)
qed simp

end
