(* ===== verification/Bft_Liveness.thy ===== *)
theory Bft_Liveness
  imports Bft_Agreement
begin

text \<open>
  The normal case of the consensus protocol of \<^verbatim>\<open>bft.rs\<close>: with an honest leader the honest validators
  alone drive a proposal through the three phases until each of them has committed it.  The schedule
  is built phase by phase from single deliveries.
\<close>

section \<open>The progress of one validator\<close>

text \<open>A verified vote of \<open>j\<close> for the proposal in view 0.\<close>

definition is_vote :: "validator_set \<Rightarrow> u64 \<Rightarrow> bytes \<Rightarrow> u32 \<Rightarrow> phase \<Rightarrow> vote \<Rightarrow> bool" where
  "is_vote s slot x j ph v \<longleftrightarrow> v_view v = 0 \<and> v_slot v = slot \<and> v_phase v = ph \<and> v_vhash v = hash_of x \<and>
    v_value v = x \<and> v_signer v = j \<and> vote_verify s v"

definition tallied :: "(u32 \<times> u64 \<times> u8 \<times> hash256 \<rightharpoonup> u32 set) \<Rightarrow> u64 \<Rightarrow> phase \<Rightarrow> hash256 \<Rightarrow> u32 set" where
  "tallied m slot ph h = (case m (0, slot, phase_tag ph, h) of None \<Rightarrow> {} | Some T \<Rightarrow> T)"

text \<open>
  Where a validator stands: has it sent its prepare vote (\<open>p\<close>), whose prepare votes (\<open>P\<close>) and whose
  commit votes (\<open>C\<close>) has it counted, and how many one-time keys will it still need.
\<close>

definition progress :: "validator_set \<Rightarrow> u64 \<Rightarrow> bytes \<Rightarrow> u32 \<Rightarrow> bool \<Rightarrow> u32 set \<Rightarrow> u32 set \<Rightarrow> validator \<Rightarrow> bool" where
  "progress s slot x i p P C a \<longleftrightarrow>
    va_id a = i \<and> va_set a = s \<and> va_view a = 0 \<and> va_inv a \<and>
    tallied (va_tally a) slot Prepare (hash_of x) = P \<and> tallied (va_tally a) slot Commit (hash_of x) = C \<and>
    ((0, slot) \<in> va_prepared_sent a \<longleftrightarrow> p) \<and> ((0, slot) \<in> va_commit_sent a \<longleftrightarrow> vs_quorum s \<le> card P) \<and>
    (case bt_get (va_locked a) slot of None \<Rightarrow> True | Some (_, y, _) \<Rightarrow> y = x) \<and>
    (bt_get (va_committed a) slot = (if vs_quorum s \<le> card C then Some x else None)) \<and>
    (\<forall>j ph w. va_seen a (j, 0, slot, phase_tag ph) = Some w \<longrightarrow> v_vhash w = hash_of x) \<and>
    sg_next_slot (va_signer a) + (if p then 0 else 1) + (if vs_quorum s \<le> card P then 0 else 1) \<le> sg_capacity (va_signer a)"

lemma va_inv_update [simp]:
  "va_inv (a\<lparr>va_seen := m\<rparr>) = va_inv a" "va_inv (a\<lparr>va_tally := t\<rparr>) = va_inv a"
  "va_inv (a\<lparr>va_prepared_sent := ps\<rparr>) = va_inv a" "va_inv (a\<lparr>va_commit_sent := cs\<rparr>) = va_inv a"
  "va_inv (a\<lparr>va_locked := lk\<rparr>) = va_inv a" "va_inv (a\<lparr>va_prepare_votes := pv\<rparr>) = va_inv a"
  "va_inv (a\<lparr>va_committed := c\<rparr>) = va_inv a" "va_inv (a\<lparr>va_log_digest := d\<rparr>) = va_inv a"
  by (simp_all add: va_inv_def)

lemma make_vote_Some:
  assumes "va_inv a" and "sg_next_slot (va_signer a) < sg_capacity (va_signer a)"
  obtains v g where "make_vote slot ph x a = (Some v, a\<lparr>va_signer := g\<rparr>)"
    and "va_inv (a\<lparr>va_signer := g\<rparr>)" and "sg_next_slot g = Suc (sg_next_slot (va_signer a))"
    and "sg_capacity g = sg_capacity (va_signer a)"
    and "vote_verify (va_set a) v" and "v_view v = va_view a" and "v_slot v = slot" and "v_phase v = ph"
    and "v_vhash v = hash_of x" and "v_value v = x" and "v_signer v = va_id a"
proof -
  let ?g = "va_signer a" and ?m = "signed_bytes (va_view a) slot ph (hash_of x)"
  obtain sig where sig: "sg_sign ?g ?m (sg_next_slot ?g) = Some sig" using sg_sign_Some [OF assms(2)] by blast
  let ?g' = "?g\<lparr>sg_next_slot := Suc (sg_next_slot ?g)\<rparr>"
  let ?v = "\<lparr>v_view = va_view a, v_slot = slot, v_phase = ph, v_vhash = hash_of x, v_value = x, v_signer = va_id a, v_sig = sig\<rparr>"
  have made: "make_vote slot ph x a = (Some ?v, a\<lparr>va_signer := ?g'\<rparr>)"
    using assms(2) sig by (simp add: make_vote_def can_sign_def sg_capacity_def sign_next_eq)
  show ?thesis
    by (rule that [OF made]) (use assms(1) make_vote_verifies [OF assms(1) made] in
        \<open>simp_all add: va_inv_def signer_inv_def public_key_def sg_capacity_def\<close>)
qed

lemma ingest_first:
  assumes "progress s slot x i p P C a" and "is_vote s slot x j ph v"
  shows "\<exists>m. ingest v a = ingest_phase v [] (a\<lparr>va_seen := m\<rparr>) \<and> progress s slot x i p P C (a\<lparr>va_seen := m\<rparr>)"
proof (cases "va_seen a (j, 0, slot, phase_tag ph)")
  case None
  let ?m = "(va_seen a)((j, 0, slot, phase_tag ph) \<mapsto> v)"
  have "ingest v a = ingest_phase v [] (a\<lparr>va_seen := ?m\<rparr>)"
    using assms None by (simp add: ingest_def is_vote_def progress_def)
  moreover have "progress s slot x i p P C (a\<lparr>va_seen := ?m\<rparr>)"
    using assms by (simp add: progress_def is_vote_def)
  ultimately show ?thesis by blast
next
  case (Some w)
  then have "v_vhash w = hash_of x" using assms(1) unfolding progress_def by blast
  then have "ingest v a = ingest_phase v [] (a\<lparr>va_seen := va_seen a\<rparr>)"
    using assms Some by (simp add: ingest_def is_vote_def progress_def)
  then show ?thesis using assms(1) by (intro exI [of _ "va_seen a"]) simp
qed

lemma deliver_preprepare:
  assumes "progress s slot x i False P C a" and "is_vote s slot x (vs_leader s 0) PrePrepare v"
  shows "\<exists>w b. ingest v a = ([Broadcast w], b) \<and> is_vote s slot x i Prepare w \<and> progress s slot x i True P C b"
proof -
  obtain m where m: "ingest v a = ingest_phase v [] (a\<lparr>va_seen := m\<rparr>)" "progress s slot x i False P C (a\<lparr>va_seen := m\<rparr>)"
    using ingest_first [OF assms] by blast
  let ?a = "a\<lparr>va_seen := m, va_prepared_sent := insert (0, slot) (va_prepared_sent a)\<rparr>"
  have "va_inv ?a" "sg_next_slot (va_signer ?a) < sg_capacity (va_signer ?a)"
    using m(2) by (simp_all add: progress_def)
  then obtain w g where w: "make_vote slot Prepare x ?a = (Some w, ?a\<lparr>va_signer := g\<rparr>)"
    "va_inv (?a\<lparr>va_signer := g\<rparr>)" "sg_next_slot g = Suc (sg_next_slot (va_signer ?a))" "sg_capacity g = sg_capacity (va_signer ?a)"
    "vote_verify (va_set ?a) w" "v_view w = va_view ?a" "v_slot w = slot" "v_phase w = Prepare"
    "v_vhash w = hash_of x" "v_value w = x" "v_signer w = va_id ?a"
    by (rule make_vote_Some)
  have "ingest v a = ([Broadcast w], ?a\<lparr>va_signer := g\<rparr>)"
    unfolding m(1) using assms(2) m(2) w(1)
    by (auto simp: ingest_phase_def ingest_preprepare_def push_vote_def is_vote_def progress_def split: option.splits)
  moreover have "is_vote s slot x i Prepare w" using w m(2) by (simp add: is_vote_def progress_def)
  moreover have "progress s slot x i True P C (?a\<lparr>va_signer := g\<rparr>)" using w m(2) by (simp add: progress_def)
  ultimately show ?thesis by blast
qed

lemma count_vote_progress:
  assumes "progress s slot x i p P C a" and "is_vote s slot x j ph v"
  shows "count_vote v ph a = (card (insert j (tallied (va_tally a) slot ph (hash_of x))),
    a\<lparr>va_tally := (va_tally a)((0, slot, phase_tag ph, hash_of x) \<mapsto> insert j (tallied (va_tally a) slot ph (hash_of x)))\<rparr>)"
  using assms(2) by (simp add: count_vote_def is_vote_def tallied_def Let_def)

lemma tallied_upd:
  "tallied (m((0, slot, 1, h) \<mapsto> T)) slot ph h = (if ph = Prepare then T else tallied m slot ph h)"
  "tallied (m((0, slot, 2, h) \<mapsto> T)) slot ph h = (if ph = Commit then T else tallied m slot ph h)"
  by (cases ph; auto simp: tallied_def)+

lemma deliver_prepare:
  assumes "progress s slot x i p P C a" and "is_vote s slot x j Prepare v" and "finite P"
  shows "\<exists>out b. ingest v a = (out, b) \<and> progress s slot x i p (insert j P) C b \<and>
    (vs_quorum s \<le> card (insert j P) \<longrightarrow> vs_quorum s \<le> card P \<or> (\<exists>w. out = [Broadcast w] \<and> is_vote s slot x i Commit w))"
proof -
  obtain m where m: "ingest v a = ingest_phase v [] (a\<lparr>va_seen := m\<rparr>)" "progress s slot x i p P C (a\<lparr>va_seen := m\<rparr>)"
    using ingest_first [OF assms(1,2)] by blast
  let ?k = "(0, slot, hash_of x)" and ?t = "(0, slot, phase_tag Prepare, hash_of x)"
  define a1 where "a1 = a\<lparr>va_seen := m, va_prepare_votes := (va_prepare_votes a)(?k \<mapsto>
    bt_insert j v (case va_prepare_votes a ?k of Some m \<Rightarrow> m | None \<Rightarrow> []))\<rparr>"
  have a1: "progress s slot x i p P C a1" using m(2) by (simp add: a1_def progress_def)
  define a2 where "a2 = a1\<lparr>va_tally := (va_tally a1)(?t \<mapsto> insert j P)\<rparr>"
  have P: "tallied (va_tally a1) slot Prepare (hash_of x) = P" using a1 by (simp add: progress_def)
  have c: "count_vote v Prepare a1 = (card (insert j P), a2)"
    using count_vote_progress [OF a1 assms(2)] unfolding P a2_def .
  have run: "ingest v a = (if vs_quorum s \<le> card (insert j P) \<and> (0, slot) \<notin> va_commit_sent a2
      then push_vote slot Commit x [] (a2\<lparr>va_commit_sent := insert (0, slot) (va_commit_sent a2),
        va_locked := bt_insert slot (0, x, case va_prepare_votes a2 ?k of Some m \<Rightarrow> map snd m | None \<Rightarrow> []) (va_locked a2)\<rparr>)
      else ([], a2))"
    unfolding m(1) using assms(2) a1 c
    by (simp add: ingest_phase_def ingest_prepare_def is_vote_def progress_def a1_def a2_def Let_def)
  have sent: "(0, slot) \<in> va_commit_sent a2 \<longleftrightarrow> vs_quorum s \<le> card P" using a1 by (simp add: progress_def a2_def)
  have mono: "card P \<le> card (insert j P)" using assms(3) by (simp add: card_insert_le)
  show ?thesis
  proof (cases "vs_quorum s \<le> card (insert j P) \<and> \<not> vs_quorum s \<le> card P")
    case False
    then have "ingest v a = ([], a2)" using run sent by auto
    moreover have "progress s slot x i p (insert j P) C a2"
      using a1 False mono by (auto simp: progress_def a2_def tallied_upd)
    ultimately show ?thesis using False by auto
  next
    case True
    define a3 where "a3 = a2\<lparr>va_commit_sent := insert (0, slot) (va_commit_sent a2),
      va_locked := bt_insert slot (0, x, case va_prepare_votes a2 ?k of Some m \<Rightarrow> map snd m | None \<Rightarrow> []) (va_locked a2)\<rparr>"
    have "va_inv a3" "sg_next_slot (va_signer a3) < sg_capacity (va_signer a3)"
      using a1 True by (simp_all add: progress_def a3_def a2_def)
    then obtain w g where w: "make_vote slot Commit x a3 = (Some w, a3\<lparr>va_signer := g\<rparr>)"
      "va_inv (a3\<lparr>va_signer := g\<rparr>)" "sg_next_slot g = Suc (sg_next_slot (va_signer a3))" "sg_capacity g = sg_capacity (va_signer a3)"
      "vote_verify (va_set a3) w" "v_view w = va_view a3" "v_slot w = slot" "v_phase w = Commit"
      "v_vhash w = hash_of x" "v_value w = x" "v_signer w = va_id a3"
      by (rule make_vote_Some)
    have "ingest v a = ([Broadcast w], a3\<lparr>va_signer := g\<rparr>)"
      using run sent True w(1) by (simp add: push_vote_def a3_def)
    moreover have "is_vote s slot x i Commit w" using w a1 by (simp add: is_vote_def progress_def a3_def a2_def)
    moreover have "progress s slot x i p (insert j P) C (a3\<lparr>va_signer := g\<rparr>)"
      using w a1 True by (simp add: progress_def a3_def a2_def tallied_upd)
    ultimately show ?thesis by blast
  qed
qed

lemma deliver_commit:
  assumes "progress s slot x i p P C a" and "is_vote s slot x j Commit v" and "finite C"
  shows "\<exists>out b. ingest v a = (out, b) \<and> progress s slot x i p P (insert j C) b"
proof -
  obtain m where m: "ingest v a = ingest_phase v [] (a\<lparr>va_seen := m\<rparr>)" "progress s slot x i p P C (a\<lparr>va_seen := m\<rparr>)"
    using ingest_first [OF assms(1,2)] by blast
  let ?t = "(0, slot, phase_tag Commit, hash_of x)"
  define a2 where "a2 = a\<lparr>va_seen := m, va_tally := (va_tally a)(?t \<mapsto> insert j C)\<rparr>"
  have "tallied (va_tally (a\<lparr>va_seen := m\<rparr>)) slot Commit (hash_of x) = C" using m(2) by (simp add: progress_def)
  then have c: "count_vote v Commit (a\<lparr>va_seen := m\<rparr>) = (card (insert j C), a2)"
    using count_vote_progress [OF m(2) assms(2)] by (simp add: a2_def)
  have mono: "card C \<le> card (insert j C)" using assms(3) by (simp add: card_insert_le)
  have a2: "va_set a2 = s" "bt_contains (va_committed a2) slot \<longleftrightarrow> vs_quorum s \<le> card C"
    using m(2) by (simp_all add: progress_def a2_def bt_contains_def)
  show ?thesis
  proof (cases "vs_quorum s \<le> card (insert j C) \<and> \<not> vs_quorum s \<le> card C")
    case False
    then have "ingest v a = ([], a2)"
      unfolding m(1) using assms(2) c a2 by (auto simp: ingest_phase_def ingest_commit_def is_vote_def)
    moreover have "progress s slot x i p P (insert j C) a2"
      using m(2) False mono by (auto simp: progress_def a2_def tallied_upd)
    ultimately show ?thesis by blast
  next
    case True
    let ?b = "a2\<lparr>va_committed := bt_insert slot x (va_committed a2),
      va_log_digest := hash_of (va_log_digest a2 @ to_le_u64 slot @ hash_of x)\<rparr>"
    have "ingest v a = ([Committed slot x], ?b)"
      unfolding m(1) using assms(2) c a2 True by (simp add: ingest_phase_def ingest_commit_def is_vote_def)
    moreover have "progress s slot x i p P (insert j C) ?b"
      using m(2) True by (simp add: progress_def a2_def tallied_upd)
    ultimately show ?thesis by blast
  qed
qed

section \<open>The phases on the network\<close>

text \<open>
  Every honest member \<open>i\<close> has progressed to \<open>(p i, P i, C i)\<close>, and the votes that it has sent on the way
  are in the history.
\<close>

definition staged :: "validator_set \<Rightarrow> (u32 \<Rightarrow> signer) \<Rightarrow> u32 set \<Rightarrow> u64 \<Rightarrow> bytes \<Rightarrow>
    (u32 \<Rightarrow> bool) \<Rightarrow> (u32 \<Rightarrow> u32 set) \<Rightarrow> (u32 \<Rightarrow> u32 set) \<Rightarrow> bft_net \<Rightarrow> bool" where
  "staged s sg byz slot x p P C net \<longleftrightarrow>
    bft_reach s sg byz net \<and> (\<exists>v \<in> set (bn_hist net). is_vote s slot x (vs_leader s 0) PrePrepare v) \<and>
    (\<forall>i \<in> members s - byz. finite (P i) \<and> finite (C i) \<and> progress s slot x i (p i) (P i) (C i) (bn_vals net i) \<and>
       (p i \<longrightarrow> (\<exists>v \<in> set (bn_hist net). is_vote s slot x i Prepare v)) \<and>
       (vs_quorum s \<le> card (P i) \<longrightarrow> (\<exists>v \<in> set (bn_hist net). is_vote s slot x i Commit v)))"

lemma sent_vote_unforged:
  "v \<in> set (bn_hist net) \<Longrightarrow> is_vote s slot x j ph v \<Longrightarrow> ph \<noteq> ViewChange \<Longrightarrow>
    unforged s byz (vote_stmt ` set (bn_hist net)) v"
  by (auto simp: unforged_def carried_def is_vote_def)

lemma staged_deliver:
  assumes "staged s sg byz slot x p P C net" and "i \<in> members s - byz"
    and "v \<in> set (bn_hist net)" and "is_vote s slot x j ph v" and "ph \<noteq> ViewChange" and "ingest v (bn_vals net i) = (out, b)"
    and "finite (P' i)" and "finite (C' i)" and "progress s slot x i (p' i) (P' i) (C' i) b"
    and "p' i \<Longrightarrow> p i \<or> (\<exists>w. out = [Broadcast w] \<and> is_vote s slot x i Prepare w)"
    and "vs_quorum s \<le> card (P' i) \<Longrightarrow> vs_quorum s \<le> card (P i) \<or> (\<exists>w. out = [Broadcast w] \<and> is_vote s slot x i Commit w)"
    and "\<And>k. k \<noteq> i \<Longrightarrow> p' k = p k \<and> P' k = P k \<and> C' k = C k"
  shows "staged s sg byz slot x p' P' C' (net_step i out b net)"
proof -
  have reach: "bft_reach s sg byz (net_step i out b net)"
    using assms(1-6) sent_vote_unforged by (intro bft_reach.delivery) (auto simp: staged_def)
  have hist: "set (bn_hist (net_step i out b net)) = set (bn_hist net) \<union> set (broadcasts out)"
    by (simp add: net_step_def)
  have "finite (P' k) \<and> finite (C' k) \<and> progress s slot x k (p' k) (P' k) (C' k) (bn_vals (net_step i out b net) k) \<and>
     (p' k \<longrightarrow> (\<exists>v \<in> set (bn_hist (net_step i out b net)). is_vote s slot x k Prepare v)) \<and>
     (vs_quorum s \<le> card (P' k) \<longrightarrow> (\<exists>v \<in> set (bn_hist (net_step i out b net)). is_vote s slot x k Commit v))"
    if "k \<in> members s - byz" for k
  proof (cases "k = i")
    case True
    have old: "p i \<Longrightarrow> \<exists>v \<in> set (bn_hist net). is_vote s slot x i Prepare v"
      "vs_quorum s \<le> card (P i) \<Longrightarrow> \<exists>v \<in> set (bn_hist net). is_vote s slot x i Commit v"
      using assms(1,2) by (auto simp: staged_def)
    show ?thesis using True assms(7-11) old unfolding hist by (fastforce simp: net_step_def)
  next
    case False
    then show ?thesis using assms(1,12) that unfolding hist staged_def by (fastforce simp: net_step_def)
  qed
  then show ?thesis using reach assms(1) unfolding staged_def hist by blast
qed

lemma stage_prepare:
  assumes "staged s sg byz slot x p P C net" and "i \<in> members s - byz" and "\<not> p i"
  shows "\<exists>net. staged s sg byz slot x (p(i := True)) P C net"
proof -
  obtain v where v: "v \<in> set (bn_hist net)" "is_vote s slot x (vs_leader s 0) PrePrepare v"
    using assms(1) by (auto simp: staged_def)
  have "progress s slot x i (p i) (P i) (C i) (bn_vals net i)" "finite (P i)" "finite (C i)"
    using assms(1,2) by (auto simp: staged_def)
  then have i: "progress s slot x i False (P i) (C i) (bn_vals net i)" "finite (P i)" "finite (C i)"
    using assms(3) by simp_all
  obtain w b where w: "ingest v (bn_vals net i) = ([Broadcast w], b)" "is_vote s slot x i Prepare w"
      "progress s slot x i True (P i) (C i) b"
    using deliver_preprepare [OF i(1) v(2)] by blast
  have "staged s sg byz slot x (p(i := True)) P C (net_step i [Broadcast w] b net)"
    by (rule staged_deliver [OF assms(1,2) v _ w(1)]) (use w i in auto)
  then show ?thesis by blast
qed

lemma stage_count_prepare:
  assumes "staged s sg byz slot x p P C net" and "i \<in> members s - byz" and "j \<in> members s - byz" and "p j"
  shows "\<exists>net. staged s sg byz slot x p (P(i := insert j (P i))) C net"
proof -
  obtain v where v: "v \<in> set (bn_hist net)" "is_vote s slot x j Prepare v"
    using assms(1,3,4) by (auto simp: staged_def)
  have i: "progress s slot x i (p i) (P i) (C i) (bn_vals net i)" "finite (P i)" "finite (C i)"
    using assms by (auto simp: staged_def)
  obtain out b where b: "ingest v (bn_vals net i) = (out, b)" "progress s slot x i (p i) (insert j (P i)) (C i) b"
      "vs_quorum s \<le> card (insert j (P i)) \<longrightarrow> vs_quorum s \<le> card (P i) \<or> (\<exists>w. out = [Broadcast w] \<and> is_vote s slot x i Commit w)"
    using deliver_prepare [OF i(1) v(2) i(2)] by blast
  have "staged s sg byz slot x p (P(i := insert j (P i))) C (net_step i out b net)"
    by (rule staged_deliver [OF assms(1,2) v _ b(1)]) (use b i in auto)
  then show ?thesis by blast
qed

lemma stage_count_commit:
  assumes "staged s sg byz slot x p P C net" and "i \<in> members s - byz" and "j \<in> members s - byz"
    and "vs_quorum s \<le> card (P j)"
  shows "\<exists>net. staged s sg byz slot x p P (C(i := insert j (C i))) net"
proof -
  obtain v where v: "v \<in> set (bn_hist net)" "is_vote s slot x j Commit v"
    using assms(1,3,4) by (auto simp: staged_def)
  have i: "progress s slot x i (p i) (P i) (C i) (bn_vals net i)" "finite (P i)" "finite (C i)"
    using assms by (auto simp: staged_def)
  obtain out b where b: "ingest v (bn_vals net i) = (out, b)" "progress s slot x i (p i) (P i) (insert j (C i)) b"
    using deliver_commit [OF i(1) v(2) i(3)] by blast
  have "staged s sg byz slot x p P (C(i := insert j (C i))) (net_step i out b net)"
    by (rule staged_deliver [OF assms(1,2) v _ b(1)]) (use b i in auto)
  then show ?thesis by blast
qed

text \<open>Filling one validator's tally after the other.\<close>

lemma fill_one:
  assumes "finite B" and "B \<subseteq> H" and "R (F(i := {}))"
    and step: "\<And>F j. R F \<Longrightarrow> j \<in> H \<Longrightarrow> R (F(i := insert j (F i)))"
  shows "R (F(i := B))"
  using assms(1,2)
proof (induction B rule: finite_induct)
  case empty
  show ?case by (rule assms(3))
next
  case (insert j B)
  then have "R (F(i := B))" and "j \<in> H" by blast+
  then show ?case using step [of "F(i := B)" j] by (simp only: fun_upd_upd fun_upd_same)
qed

lemma fill_all:
  fixes R :: "(u32 \<Rightarrow> u32 set) \<Rightarrow> bool"
  assumes "finite H" and "A \<subseteq> H" and "R (\<lambda>_. {})" and step: "\<And>F i j. R F \<Longrightarrow> i \<in> H \<Longrightarrow> j \<in> H \<Longrightarrow> R (F(i := insert j (F i)))"
  shows "R (\<lambda>i. if i \<in> A then H else {})"
  using finite_subset [OF assms(2,1)] assms(2)
proof (induction A rule: finite_induct)
  case empty
  show ?case using assms(3) by simp
next
  case (insert i A)
  let ?F = "\<lambda>k. if k \<in> A then H else {}"
  have "?F(i := {}) = ?F" using insert(2) by (auto simp: fun_eq_iff)
  then have "R (?F(i := {}))" using insert by simp
  then have "R (?F(i := H))" by (rule fill_one [OF assms(1) subset_refl]) (use insert(4) in \<open>blast intro: step\<close>)
  moreover have "?F(i := H) = (\<lambda>k. if k \<in> insert i A then H else {})" by (auto simp: fun_eq_iff)
  ultimately show ?case by simp
qed

lemma stage_start:
  assumes keys: "\<And>i. i \<in> members s - byz \<Longrightarrow> signer_inv (sg i) \<and> vs_root s i = Some (public_key (sg i)) \<and>
      sg_next_slot (sg i) + 3 \<le> sg_capacity (sg i)"
    and leader: "vs_leader s 0 \<in> members s - byz"
  shows "\<exists>net. staged s sg byz slot x (\<lambda>_. False) (\<lambda>_. {}) (\<lambda>_. {}) net"
proof -
  let ?l = "vs_leader s 0" and ?n0 = "\<lparr>bn_vals = (\<lambda>i. with_signer i (sg i) s), bn_hist = []\<rparr>"
  let ?a = "with_signer ?l (sg ?l) s"
  have q: "\<not> vs_quorum s \<le> 0" by (simp add: vs_quorum_def)
  have inv: "va_inv ?a" "sg_next_slot (va_signer ?a) < sg_capacity (va_signer ?a)"
    using keys [OF leader] by (simp_all add: va_inv_def with_signer_def)
  obtain v g where v: "make_vote slot PrePrepare x ?a = (Some v, ?a\<lparr>va_signer := g\<rparr>)" "va_inv (?a\<lparr>va_signer := g\<rparr>)"
      "sg_next_slot g = Suc (sg_next_slot (va_signer ?a))" "sg_capacity g = sg_capacity (va_signer ?a)"
      "vote_verify (va_set ?a) v" "v_view v = va_view ?a" "v_slot v = slot" "v_phase v = PrePrepare"
      "v_vhash v = hash_of x" "v_value v = x" "v_signer v = va_id ?a"
    using make_vote_Some [OF inv] .
  have led_by: "propose slot x (bn_vals ?n0 ?l) = (Some (Broadcast v), ?a\<lparr>va_signer := g\<rparr>)"
    using v(1) by (simp add: propose_def is_leader_def) (simp add: with_signer_def)
  have vote: "is_vote s slot x ?l PrePrepare v" using v by (simp add: is_vote_def with_signer_def)
  have fresh: "progress s slot x i False {} {} (with_signer i (sg i) s)" if "i \<in> members s - byz" for i
    using keys [OF that] q by (simp add: progress_def with_signer_def va_inv_def tallied_def)
  have led: "progress s slot x ?l False {} {} (?a\<lparr>va_signer := g\<rparr>)"
    using v(2-4) keys [OF leader] q by (simp add: progress_def with_signer_def tallied_def)
  have "bft_reach s sg byz (net_step ?l [Broadcast v] (?a\<lparr>va_signer := g\<rparr>) ?n0)"
    using bft_reach.proposal [OF bft_reach.start _ led_by] leader by simp
  then have "staged s sg byz slot x (\<lambda>_. False) (\<lambda>_. {}) (\<lambda>_. {}) (net_step ?l [Broadcast v] (?a\<lparr>va_signer := g\<rparr>) ?n0)"
    using vote fresh led q by (simp add: staged_def net_step_def)
  then show ?thesis by blast
qed

lemma stage_all_prepared:
  assumes "\<exists>net. staged s sg byz slot x (\<lambda>_. False) P C net"
  shows "\<exists>net. staged s sg byz slot x (\<lambda>i. i \<in> members s - byz) P C net"
proof -
  have "\<exists>net. staged s sg byz slot x (\<lambda>i. i \<in> A) P C net" if "A \<subseteq> members s - byz" for A
    using finite_subset [OF that finite_Diff [OF finite_members]] that
  proof (induction A rule: finite_induct)
    case empty
    show ?case using assms by simp
  next
    case (insert i A)
    then obtain net where "staged s sg byz slot x (\<lambda>i. i \<in> A) P C net" by auto
    moreover have "(\<lambda>k. k \<in> A)(i := True) = (\<lambda>k. k \<in> insert i A)" by (auto simp: fun_eq_iff)
    ultimately show ?case using stage_prepare [of s sg byz slot x "\<lambda>i. i \<in> A" P C net i] insert(2,4) by simp
  qed
  then show ?thesis by blast
qed

lemma staged_cong:
  assumes "staged s sg byz slot x p P C net" and "\<And>i. i \<in> members s - byz \<Longrightarrow> P i = P' i \<and> C i = C' i"
  shows "staged s sg byz slot x p P' C' net"
  using assms unfolding staged_def by auto

lemma honest_quorum: "bft_config s byz \<Longrightarrow> vs_n s \<le> 2 ^ 32 \<Longrightarrow> vs_quorum s \<le> card (members s - byz)"
proof -
  assume c: "bft_config s byz" and n: "vs_n s \<le> 2 ^ 32"
  have "inj_on (word_of_nat :: nat \<Rightarrow> u32) {..<vs_n s}"
    using n by (intro inj_onI) (simp add: word_unat_eq_iff unat_of_nat)
  moreover have "(word_of_nat :: nat \<Rightarrow> u32) ` {..<vs_n s} \<subseteq> members s"
    using n by (auto simp: members_def unat_of_nat)
  ultimately have "vs_n s \<le> card (members s)" using card_inj_on_le [OF _ _ finite_members] by (metis card_lessThan)
  then show ?thesis
    using c card_Diff_subset_Int [of "members s" byz] by (auto simp: bft_config_def vs_quorum_def Int_commute)
qed

lemma normal_case_commits:
  assumes "bft_config s byz" and "vs_n s \<le> 2 ^ 32" and "vs_leader s 0 \<notin> byz"
    and "\<forall>i \<in> members s - byz. signer_inv (sg i) \<and> vs_root s i = Some (public_key (sg i)) \<and>
      sg_next_slot (sg i) + 3 \<le> sg_capacity (sg i)"
  shows "\<exists>net. bft_reach s sg byz net \<and> (\<forall>i \<in> members s - byz. committed_value (bn_vals net i) slot = Some x)"
proof -
  let ?H = "members s - byz"
  have fin: "finite ?H" by simp
  have n: "0 < vs_n s" using assms(1) by (simp add: bft_config_def)
  have "unat (vs_leader s 0) = 0" by (simp add: vs_leader_def)
  then have "vs_leader s 0 \<in> ?H" using n assms(3) by (simp add: members_def)
  then have "\<exists>net. staged s sg byz slot x (\<lambda>_. False) (\<lambda>_. {}) (\<lambda>_. {}) net"
    using assms(4) by (intro stage_start) auto
  then have "\<exists>net. staged s sg byz slot x (\<lambda>i. i \<in> ?H) (\<lambda>_. {}) (\<lambda>_. {}) net" by (rule stage_all_prepared)
  then have "\<exists>net. staged s sg byz slot x (\<lambda>i. i \<in> ?H) (\<lambda>i. if i \<in> ?H then ?H else {}) (\<lambda>_. {}) net"
    by (rule fill_all [where R = "\<lambda>F. \<exists>net. staged s sg byz slot x (\<lambda>i. i \<in> ?H) F (\<lambda>_. {}) net", OF fin subset_refl])
      (use stage_count_prepare in blast)
  then have "\<exists>net. staged s sg byz slot x (\<lambda>i. i \<in> ?H) (\<lambda>_. ?H) (\<lambda>_. {}) net"
    by (elim exE) (auto intro!: exI elim!: staged_cong)
  then have "\<exists>net. staged s sg byz slot x (\<lambda>i. i \<in> ?H) (\<lambda>_. ?H) (\<lambda>i. if i \<in> ?H then ?H else {}) net"
    by (rule fill_all [where R = "\<lambda>F. \<exists>net. staged s sg byz slot x (\<lambda>i. i \<in> ?H) (\<lambda>_. ?H) F net", OF fin subset_refl])
      (use stage_count_commit honest_quorum [OF assms(1,2)] in blast)
  then obtain net where net: "staged s sg byz slot x (\<lambda>i. i \<in> ?H) (\<lambda>_. ?H) (\<lambda>i. if i \<in> ?H then ?H else {}) net" by blast
  have "committed_value (bn_vals net i) slot = Some x" if "i \<in> ?H" for i
  proof -
    have "progress s slot x i True ?H ?H (bn_vals net i)" using net that by (simp add: staged_def)
    then show ?thesis using honest_quorum [OF assms(1,2)] by (simp add: progress_def committed_value_def)
  qed
  then show ?thesis using net unfolding staged_def by blast
qed

text \<open>
  C23: Progress.  With \<open>3 f + 1\<close> validators of which at most \<open>f\<close> are faulty and an honest leader, the
  honest validators alone, with three unused one-time keys each, can commit what the leader proposes:
  there is a run after which every one of them has committed it.
\<close>
theorem honest_validators_commit:
  assumes "bft_config s byz" and "vs_n s \<le> 2 ^ 32" and "vs_leader s 0 \<notin> byz"
    and "\<forall>i \<in> members s - byz. signer_inv (sg i) \<and> vs_root s i = Some (public_key (sg i)) \<and>
      sg_next_slot (sg i) + 3 \<le> sg_capacity (sg i)"
  shows "\<exists>net. bft_reach s sg byz net \<and> (\<forall>i \<in> members s - byz. committed_value (bn_vals net i) slot = Some x)"
  using assms by (rule normal_case_commits)

section \<open>Four validators, one of them faulty\<close>

definition four_signer :: signer where
  "four_signer = signer_new [7] 2"

definition four_set :: validator_set where
  "four_set = vs_new (replicate 4 (public_key four_signer))"

lemma four_config: "bft_config four_set {3}" "vs_n four_set \<le> 2 ^ 32" "vs_leader four_set 0 \<notin> {3}"
proof -
  have n: "vs_n four_set = 4" by (simp add: four_set_def vs_new_def vs_n_def)
  have "card ({3} \<inter> members four_set) \<le> 1" using card_mono [of "{3}" "{3} \<inter> members four_set"] by simp
  then show "bft_config four_set {3}" "vs_n four_set \<le> 2 ^ 32" "vs_leader four_set 0 \<notin> {3}"
    by (simp_all add: bft_config_def n vs_f_def vs_leader_def)
qed

lemma four_keys: "signer_inv four_signer" "unat i < 4 \<Longrightarrow> vs_root four_set i = Some (public_key four_signer)"
  "sg_next_slot four_signer + 3 \<le> sg_capacity four_signer"
  by (simp_all add: four_signer_def signer_inv_new sg_capacity_def vs_root_def four_set_def vs_new_def)

lemma four_members: "i \<in> members four_set \<longleftrightarrow> unat i < 4"
  by (simp add: members_def four_set_def vs_new_def vs_n_def)

theorem honest_validators_commit_witness:
  "\<exists>net. bft_reach four_set (\<lambda>_. four_signer) {3} net \<and>
    committed_value (bn_vals net 0) 5 = Some [9] \<and> committed_value (bn_vals net 1) 5 = Some [9]"
proof -
  have "\<forall>i \<in> members four_set - {3}. signer_inv four_signer \<and> vs_root four_set i = Some (public_key four_signer) \<and>
      sg_next_slot four_signer + 3 \<le> sg_capacity four_signer"
    using four_keys by (simp add: four_members)
  from honest_validators_commit [OF four_config this] obtain net
    where "bft_reach four_set (\<lambda>_. four_signer) {3} net" "\<forall>i \<in> members four_set - {3}. committed_value (bn_vals net i) 5 = Some [9]"
    by blast
  then show ?thesis by (intro exI [of _ net]) (simp add: four_members)
qed

theorem consensus_agreement_witness:
  "\<exists>net. bft_reach four_set (\<lambda>_. four_signer) {3} net \<and> committed_value (bn_vals net 0) 5 = Some [9] \<and>
    (\<exists>y. committed_value (bn_vals net 1) 5 = Some y \<and> hash_of [9] = hash_of y)"
proof -
  have "\<forall>i \<in> members four_set - {3}. signer_inv four_signer \<and> vs_root four_set i = Some (public_key four_signer) \<and>
      sg_next_slot four_signer + 3 \<le> sg_capacity four_signer"
    using four_keys by (simp add: four_members)
  from normal_case_commits [OF four_config this] obtain net
    where net: "bft_reach four_set (\<lambda>_. four_signer) {3} net" "\<forall>i \<in> members four_set - {3}. committed_value (bn_vals net i) 5 = Some [9]"
    by blast
  then have "committed_value (bn_vals net 0) 5 = Some [9]" "committed_value (bn_vals net 1) 5 = Some [9]"
    by (simp_all add: four_members)
  then show ?thesis
    using net(1) consensus_agreement [OF four_config(1) net(1), of 0 1 5 "[9]" "[9]"] by (intro exI [of _ net]) simp
qed

lemma digest_one: "hash_of [1] =
   [0x4b, 0xf5, 0x12, 0x2f, 0x34, 0x45, 0x54, 0xc5, 0x3b, 0xde, 0x2e, 0xbb, 0x8c, 0xd2, 0xb7, 0xe3,
   0xd1, 0x60, 0x0a, 0xd6, 0x31, 0xc3, 0x85, 0xa5, 0xd7, 0xcc, 0xe2, 0x3c, 0x77, 0x85, 0x45, 0x9a]"
  by code_simp

lemma digest_two: "hash_of [2] =
   [0xdb, 0xc1, 0xb4, 0xc9, 0x00, 0xff, 0xe4, 0x8d, 0x57, 0x5b, 0x5d, 0xa5, 0xc6, 0x38, 0x04, 0x01,
   0x25, 0xf6, 0x5d, 0xb0, 0xfe, 0x3e, 0x24, 0x49, 0x4b, 0x76, 0xea, 0x98, 0x64, 0x57, 0xd9, 0x86]"
  by code_simp

text \<open>The faulty validator signs two values for one slot; the second vote is caught.\<close>

theorem equivocation_proof_sound_witness:
  "\<exists>net v out a p. bft_reach four_set (\<lambda>_. four_signer) {3} net \<and> ingest v (bn_vals net 0) = (out, a) \<and>
    Equivocation p \<in> set out \<and> verify_equivocation four_set p \<and> v_signer (ep_a p) \<in> {3}"
proof -
  let ?vote = "\<lambda>x sig. \<lparr>v_view = 0, v_slot = 5, v_phase = Prepare, v_vhash = hash_of x, v_value = x, v_signer = 3, v_sig = sig\<rparr>"
  have ok: "\<exists>sig. vote_verify four_set (?vote x sig)" for x
  proof -
    obtain sig where "sg_sign four_signer (signed_bytes 0 5 Prepare (hash_of x)) 0 = Some sig"
      using sg_sign_Some [of 0 four_signer] four_keys(3) by auto
    then show ?thesis
      using sg_sign_verifies [OF four_keys(1)] four_keys(2) [of 3] by (intro exI [of _ sig]) (simp add: vote_verify_def)
  qed
  obtain s1 s2 where v: "vote_verify four_set (?vote [1] s1)" "vote_verify four_set (?vote [2] s2)" using ok by meson
  let ?n0 = "\<lparr>bn_vals = (\<lambda>i. with_signer i four_signer four_set), bn_hist = []\<rparr>"
  obtain out1 a1 where i1: "ingest (?vote [1] s1) (bn_vals ?n0 0) = (out1, a1)" by fastforce
  have seen: "va_seen a1 (3, 0, 5, 1) = Some (?vote [1] s1)" "va_set a1 = four_set"
    using i1 v(1) by (auto simp: ingest_def with_signer_def ingest_phase_def ingest_prepare_def count_vote_def Let_def
        vs_quorum_def vs_f_def vs_n_def four_set_def vs_new_def split: if_splits)
  have unf: "unforged four_set {3} S (?vote x sig)" for S x sig by (simp add: unforged_def carried_def)
  let ?net = "net_step 0 out1 a1 ?n0" and ?p = "\<lparr>ep_a = ?vote [1] s1, ep_b = ?vote [2] s2\<rparr>"
  have reach: "bft_reach four_set (\<lambda>_. four_signer) {3} ?net"
    by (rule bft_reach.delivery [OF bft_reach.start _ unf i1]) simp
  have run: "ingest (?vote [2] s2) (bn_vals ?net 0) = ([Equivocation ?p], a1)"
    using seen v(2) by (simp add: ingest_def net_step_def digest_one digest_two)
  have "verify_equivocation four_set ?p \<and> (v_phase (ep_a ?p) \<in> {Prepare, Commit} \<longrightarrow> v_signer (ep_a ?p) \<in> {3})"
    by (rule equivocation_proof_sound [OF four_config(1) reach _ unf run]) simp_all
  then show ?thesis using reach run
    by (intro exI [of _ ?net] exI [of _ "?vote [2] s2"] exI [of _ "[Equivocation ?p]"] exI [of _ a1] exI [of _ ?p]) simp
qed

end
