(* ===== verification/Net_Stack.thy ===== *)
theory Net_Stack
  imports Ordered_Map "HOL-Library.Word"
begin

text \<open>
  The legacy network stack, \<^verbatim>\<open>dominion-core/src/net.rs\<close>: the Internet checksum, Ethernet, ARP, IPv4,
  ICMP, UDP and TCP framing, DNS over UDP, and the host interface that answers ARP and ICMP.
  Addresses are byte lists; header fields keep their width and are big-endian on the wire.
\<close>

section \<open>Addresses and the Internet checksum\<close>

type_synonym u16 = "16 word"
type_synonym mac_addr = bytes
type_synonym ipv4_addr = bytes

abbreviation be16 :: "u16 \<Rightarrow> bytes" where "be16 \<equiv> be_bytes 2"
abbreviation be32 :: "u32 \<Rightarrow> bytes" where "be32 \<equiv> be_bytes 4"

definition ETHERTYPE_IPV4 :: u16 where "ETHERTYPE_IPV4 = 0x0800"
definition ETHERTYPE_ARP :: u16 where "ETHERTYPE_ARP = 0x0806"
definition IPPROTO_ICMP :: u8 where "IPPROTO_ICMP = 1"
definition IPPROTO_UDP :: u8 where "IPPROTO_UDP = 17"
definition IPPROTO_TCP :: u8 where "IPPROTO_TCP = 6"

definition mac_BROADCAST :: mac_addr where "mac_BROADCAST = replicate 6 0xFF"
definition mac_ZERO :: mac_addr where "mac_ZERO = replicate 6 0"

definition is_broadcast :: "mac_addr \<Rightarrow> bool" where
  "is_broadcast m \<longleftrightarrow> m = replicate 6 0xFF"

definition ipv4_new :: "u8 \<Rightarrow> u8 \<Rightarrow> u8 \<Rightarrow> u8 \<Rightarrow> ipv4_addr" where
  "ipv4_new a b c d = [a, b, c, d]"

text \<open>\<^verbatim>\<open>while sum >> 16 != 0 { sum = (sum & 0xFFFF) + (sum >> 16) }\<close>: the value falls in every round.\<close>

lemma fold_step:
  fixes acc :: u32
  shows "unat ((acc AND 0xFFFF) + drop_bit 16 acc) = unat acc mod 65536 + unat acc div 65536"
proof -
  have "acc AND 0xFFFF = take_bit 16 acc" by (simp add: take_bit_eq_mask mask_eq_exp_minus_1)
  then have m: "unat (acc AND 0xFFFF) = unat acc mod 65536"
    by (simp add: take_bit_eq_mod unat_mod)
  have d: "unat (drop_bit 16 acc) = unat acc div 65536"
    by (simp add: unat_div drop_bit_eq_div)
  have "unat acc < 4294967296" using unsigned_less [of acc] by simp
  then have "unat acc div 65536 < 65536" by (simp add: div_less_iff_less_mult)
  moreover have "unat acc mod 65536 < 65536" by simp
  ultimately have "unat acc mod 65536 + unat acc div 65536 < 4294967296" by linarith
  then show ?thesis using m d by (simp add: unat_word_ariths)
qed

function fold_checksum :: "u32 \<Rightarrow> u32" where
  "fold_checksum acc = (if drop_bit 16 acc \<noteq> 0 then fold_checksum ((acc AND 0xFFFF) + drop_bit 16 acc) else acc)"
  by pat_completeness auto
termination
proof (relation "measure unat")
  fix acc :: u32
  assume "drop_bit 16 acc \<noteq> 0"
  then have "unat (drop_bit 16 acc) \<noteq> 0" by (simp add: unat_eq_0)
  then have "unat acc div 65536 \<noteq> 0" by (simp add: unat_div drop_bit_eq_div)
  then have "unat acc mod 65536 + unat acc div 65536 < unat acc"
    using mult_div_mod_eq [of 65536 "unat acc"] by linarith
  then show "((acc AND 0xFFFF) + drop_bit 16 acc, acc) \<in> measure unat" by (simp add: fold_step)
qed simp

declare fold_checksum.simps [simp del]

fun accumulate_words :: "u32 \<Rightarrow> bytes \<Rightarrow> u32" where
  "accumulate_words acc [] = acc"
| "accumulate_words acc [x] = acc + push_bit 8 (ucast x)"
| "accumulate_words acc (x # y # data) = accumulate_words (acc + ucast (of_be_bytes [x, y] :: u16)) data"

definition accumulate_checksum :: "u32 \<Rightarrow> bytes \<Rightarrow> bool \<Rightarrow> u32" where
  "accumulate_checksum acc data odd_carry =
    (if odd_carry \<and> data \<noteq> [] then accumulate_words (acc + ucast (data ! 0)) (drop 1 data)
     else accumulate_words acc data)"

definition checksum :: "bytes \<Rightarrow> u16" where
  "checksum data = NOT (ucast (fold_checksum (accumulate_checksum 0 data False)))"

section \<open>Ethernet and ARP\<close>

definition build_ethernet :: "mac_addr \<Rightarrow> mac_addr \<Rightarrow> u16 \<Rightarrow> bytes \<Rightarrow> bytes" where
  "build_ethernet dst src ethertype payload = dst @ src @ be16 ethertype @ payload"

record ethernet_frame =
  eth_dst :: mac_addr
  eth_src :: mac_addr
  eth_ethertype :: u16
  eth_payload :: bytes

definition parse_ethernet :: "bytes \<Rightarrow> ethernet_frame option" where
  "parse_ethernet frame =
    (if length frame < 14 then None
     else Some \<lparr>eth_dst = slice 0 6 frame, eth_src = slice 6 6 frame,
                eth_ethertype = of_be_bytes [frame ! 12, frame ! 13], eth_payload = drop 14 frame\<rparr>)"

definition ARP_REQUEST :: u16 where "ARP_REQUEST = 1"
definition ARP_REPLY :: u16 where "ARP_REPLY = 2"

record arp_packet =
  arp_opcode :: u16
  arp_sender_mac :: mac_addr
  arp_sender_ip :: ipv4_addr
  arp_target_mac :: mac_addr
  arp_target_ip :: ipv4_addr

definition arp_build :: "arp_packet \<Rightarrow> bytes" where
  "arp_build a = be16 1 @ be16 ETHERTYPE_IPV4 @ [6] @ [4] @ be16 (arp_opcode a) @
    arp_sender_mac a @ arp_sender_ip a @ arp_target_mac a @ arp_target_ip a"

definition arp_parse :: "bytes \<Rightarrow> arp_packet option" where
  "arp_parse p =
    (if length p < 28 then None
     else Some \<lparr>arp_opcode = of_be_bytes [p ! 6, p ! 7], arp_sender_mac = slice 8 6 p,
                arp_sender_ip = [p ! 14, p ! 15, p ! 16, p ! 17], arp_target_mac = slice 18 6 p,
                arp_target_ip = [p ! 24, p ! 25, p ! 26, p ! 27]\<rparr>)"

type_synonym arp_cache = "(ipv4_addr, mac_addr) btree"

definition arp_cache_new :: arp_cache where "arp_cache_new = []"

definition arp_insert :: "ipv4_addr \<Rightarrow> mac_addr \<Rightarrow> arp_cache \<Rightarrow> arp_cache" where
  "arp_insert ip mac c = bt_insert ip mac c"

definition arp_lookup :: "arp_cache \<Rightarrow> ipv4_addr \<Rightarrow> mac_addr option" where
  "arp_lookup c ip = bt_get c ip"

definition arp_len :: "arp_cache \<Rightarrow> nat" where
  "arp_len c = length c"

definition arp_is_empty :: "arp_cache \<Rightarrow> bool" where
  "arp_is_empty c \<longleftrightarrow> c = []"

section \<open>IPv4, ICMP and UDP\<close>

definition build_ipv4 :: "ipv4_addr \<Rightarrow> ipv4_addr \<Rightarrow> u8 \<Rightarrow> bytes \<Rightarrow> u16 \<Rightarrow> bytes" where
  "build_ipv4 src dst protocol payload ident =
    (let total_len = 20 + length payload;
         h = [0x45] @ [0] @ be16 (word_of_nat total_len) @ be16 ident @ be16 0 @ [64] @ [protocol] @ be16 0 @ src @ dst;
         csum = checksum h;
         h = blit 10 (be16 csum) h
     in h @ payload)"

record ipv4_packet =
  ip_src :: ipv4_addr
  ip_dst :: ipv4_addr
  ip_protocol :: u8
  ip_payload :: bytes

definition parse_ipv4 :: "bytes \<Rightarrow> ipv4_packet option" where
  "parse_ipv4 p =
    (if length p < 20 then None
     else let ihl = unat (p ! 0 AND 0x0F) * 4
          in if drop_bit 4 (p ! 0) \<noteq> 4 \<or> ihl < 20 \<or> length p < ihl then None
             else let total_len = unat (of_be_bytes [p ! 2, p ! 3] :: u16)
                  in if total_len < ihl \<or> total_len > length p then None
                     else Some \<lparr>ip_src = [p ! 12, p ! 13, p ! 14, p ! 15], ip_dst = [p ! 16, p ! 17, p ! 18, p ! 19],
                                ip_protocol = p ! 9, ip_payload = slice ihl (total_len - ihl) p\<rparr>)"

definition ipv4_checksum_valid :: "bytes \<Rightarrow> bool" where
  "ipv4_checksum_valid p =
    (if length p < 20 then False
     else let ihl = unat (p ! 0 AND 0x0F) * 4
          in if length p < ihl then False else checksum (take ihl p) = 0)"

definition ICMP_ECHO_REQUEST :: u8 where "ICMP_ECHO_REQUEST = 8"
definition ICMP_ECHO_REPLY :: u8 where "ICMP_ECHO_REPLY = 0"

definition build_icmp_echo :: "u8 \<Rightarrow> u16 \<Rightarrow> u16 \<Rightarrow> bytes \<Rightarrow> bytes" where
  "build_icmp_echo kind ident sq data =
    (let m = [kind] @ [0] @ be16 0 @ be16 ident @ be16 sq @ data;
         csum = checksum m
     in blit 2 (be16 csum) m)"

record icmp_echo =
  ic_kind :: u8
  ic_ident :: u16
  ic_seq :: u16
  ic_data :: bytes

definition parse_icmp_echo :: "bytes \<Rightarrow> icmp_echo option" where
  "parse_icmp_echo m =
    (if length m < 8 then None
     else Some \<lparr>ic_kind = m ! 0, ic_ident = of_be_bytes [m ! 4, m ! 5], ic_seq = of_be_bytes [m ! 6, m ! 7],
                ic_data = drop 8 m\<rparr>)"

definition build_udp :: "u16 \<Rightarrow> u16 \<Rightarrow> bytes \<Rightarrow> bytes" where
  "build_udp src_port dst_port payload =
    (let len = 8 + length payload
     in be16 src_port @ be16 dst_port @ be16 (word_of_nat len) @ be16 0 @ payload)"

record udp_datagram =
  udp_src_port :: u16
  udp_dst_port :: u16
  udp_payload :: bytes

definition parse_udp :: "bytes \<Rightarrow> udp_datagram option" where
  "parse_udp d =
    (if length d < 8 then None
     else let len = unat (of_be_bytes [d ! 4, d ! 5] :: u16)
          in if len < 8 \<or> len > length d then None
             else Some \<lparr>udp_src_port = of_be_bytes [d ! 0, d ! 1], udp_dst_port = of_be_bytes [d ! 2, d ! 3],
                        udp_payload = slice 8 (len - 8) d\<rparr>)"

section \<open>TCP\<close>

definition TCP_FIN :: u8 where "TCP_FIN = 0x01"
definition TCP_SYN :: u8 where "TCP_SYN = 0x02"
definition TCP_RST :: u8 where "TCP_RST = 0x04"
definition TCP_PSH :: u8 where "TCP_PSH = 0x08"
definition TCP_ACK :: u8 where "TCP_ACK = 0x10"

record tcp_segment =
  tcp_src_port :: u16
  tcp_dst_port :: u16
  tcp_seq :: u32
  tcp_ack :: u32
  tcp_flags :: u8
  tcp_window :: u16
  tcp_payload :: bytes

definition tcp_has :: "tcp_segment \<Rightarrow> u8 \<Rightarrow> bool" where
  "tcp_has t flag \<longleftrightarrow> tcp_flags t AND flag \<noteq> 0"

definition tcp_checksum :: "ipv4_addr \<Rightarrow> ipv4_addr \<Rightarrow> bytes \<Rightarrow> u16" where
  "tcp_checksum src dst segment =
    (let len = word_of_nat (length segment) :: u16;
         pseudo = [src ! 0, src ! 1, src ! 2, src ! 3, dst ! 0, dst ! 1, dst ! 2, dst ! 3,
                   0, IPPROTO_TCP, ucast (drop_bit 8 len), ucast (len AND 0xFF)];
         acc = accumulate_checksum 0 pseudo False;
         acc = accumulate_checksum acc segment False
     in NOT (ucast (fold_checksum acc)))"

definition build_tcp :: "ipv4_addr \<Rightarrow> ipv4_addr \<Rightarrow> u16 \<Rightarrow> u16 \<Rightarrow> u32 \<Rightarrow> u32 \<Rightarrow> u8 \<Rightarrow> u16 \<Rightarrow> bytes \<Rightarrow> bytes" where
  "build_tcp src dst src_port dst_port sq ack flags window payload =
    (let s = be16 src_port @ be16 dst_port @ be32 sq @ be32 ack @ [0x50] @ [flags] @ be16 window @
             be16 0 @ be16 0 @ payload;
         csum = tcp_checksum src dst s
     in blit 16 (be16 csum) s)"

definition parse_tcp :: "bytes \<Rightarrow> tcp_segment option" where
  "parse_tcp s =
    (if length s < 20 then None
     else let data_offset = unat (drop_bit 4 (s ! 12)) * 4
          in if data_offset < 20 \<or> length s < data_offset then None
             else Some \<lparr>tcp_src_port = of_be_bytes [s ! 0, s ! 1], tcp_dst_port = of_be_bytes [s ! 2, s ! 3],
                        tcp_seq = of_be_bytes [s ! 4, s ! 5, s ! 6, s ! 7],
                        tcp_ack = of_be_bytes [s ! 8, s ! 9, s ! 10, s ! 11],
                        tcp_flags = s ! 13, tcp_window = of_be_bytes [s ! 14, s ! 15],
                        tcp_payload = drop data_offset s\<rparr>)"

definition tcp_checksum_valid :: "ipv4_addr \<Rightarrow> ipv4_addr \<Rightarrow> bytes \<Rightarrow> bool" where
  "tcp_checksum_valid src dst segment \<longleftrightarrow> tcp_checksum src dst segment = 0"

section \<open>DNS\<close>

definition build_dns_query :: "u16 \<Rightarrow> rstring \<Rightarrow> bytes" where
  "build_dns_query i name =
    (let q = be16 i @ be16 0x0100 @ be16 1 @ be16 0 @ be16 0 @ be16 0;
         q = foldl (\<lambda>q label. q @ [word_of_nat (length label)] @ label) q (filter (\<lambda>l. l \<noteq> []) (str_split 0x2E name))
     in q @ [0] @ be16 1 @ be16 1)"

text \<open>Positions stay far below \<open>2 ^ 64\<close>, so \<^verbatim>\<open>checked_add\<close> succeeds.\<close>

function skip_name :: "bytes \<Rightarrow> nat \<Rightarrow> nat option" where
  "skip_name resp pos =
    (if pos < length resp
     then let len = resp ! pos
          in if len AND 0xC0 = 0xC0 then Some (pos + 2)
             else if len = 0 then Some (pos + 1)
             else skip_name resp (pos + (1 + unat len))
     else None)"
  by pat_completeness auto
termination
  by (relation "measure (\<lambda>(resp, pos). length resp - pos)") auto

declare skip_name.simps [simp del]

primrec skip_questions :: "bytes \<Rightarrow> nat \<Rightarrow> nat \<Rightarrow> nat option" where
  "skip_questions resp 0 pos = Some pos"
| "skip_questions resp (Suc qd) pos =
    (case skip_name resp pos of None \<Rightarrow> None | Some pos \<Rightarrow> skip_questions resp qd (pos + 4))"

primrec walk_answers :: "bytes \<Rightarrow> nat \<Rightarrow> nat \<Rightarrow> ipv4_addr option" where
  "walk_answers resp 0 pos = None"
| "walk_answers resp (Suc an) pos =
    (case skip_name resp pos of
       None \<Rightarrow> None
     | Some pos \<Rightarrow>
         if pos + 10 > length resp then None
         else let rtype = of_be_bytes [resp ! pos, resp ! (pos + 1)] :: u16;
                  rdlen = unat (of_be_bytes [resp ! (pos + 8), resp ! (pos + 9)] :: u16);
                  pos = pos + 10
              in if pos + rdlen > length resp then None
                 else if rtype = 1 \<and> rdlen = 4
                      then Some [resp ! pos, resp ! (pos + 1), resp ! (pos + 2), resp ! (pos + 3)]
                      else walk_answers resp an (pos + rdlen))"

definition parse_dns_answer :: "bytes \<Rightarrow> u16 \<Rightarrow> ipv4_addr option" where
  "parse_dns_answer resp i =
    (if length resp < 12 \<or> (of_be_bytes [resp ! 0, resp ! 1] :: u16) \<noteq> i then None
     else let qd = unat (of_be_bytes [resp ! 4, resp ! 5] :: u16);
              an = unat (of_be_bytes [resp ! 6, resp ! 7] :: u16)
          in case skip_questions resp qd 12 of None \<Rightarrow> None | Some pos \<Rightarrow> walk_answers resp an pos)"

section \<open>The host interface\<close>

record net_interface =
  if_mac :: mac_addr
  if_ip :: ipv4_addr
  if_arp :: arp_cache
  if_ident :: u16

definition interface_new :: "mac_addr \<Rightarrow> ipv4_addr \<Rightarrow> net_interface" where
  "interface_new mac ip = \<lparr>if_mac = mac, if_ip = ip, if_arp = arp_cache_new, if_ident = 1\<rparr>"

definition next_ident :: "net_interface \<Rightarrow> u16 \<times> net_interface" where
  "next_ident f = (if_ident f, f\<lparr>if_ident := if_ident f + 1\<rparr>)"

definition arp_request :: "net_interface \<Rightarrow> ipv4_addr \<Rightarrow> bytes" where
  "arp_request f target_ip =
    (let arp = \<lparr>arp_opcode = ARP_REQUEST, arp_sender_mac = if_mac f, arp_sender_ip = if_ip f,
                arp_target_mac = mac_ZERO, arp_target_ip = target_ip\<rparr>
     in build_ethernet mac_BROADCAST (if_mac f) ETHERTYPE_ARP (arp_build arp))"

definition ping :: "ipv4_addr \<Rightarrow> mac_addr \<Rightarrow> u16 \<Rightarrow> bytes \<Rightarrow> net_interface \<Rightarrow> bytes \<times> net_interface" where
  "ping dst dst_mac sq data f =
    (let icmp = build_icmp_echo ICMP_ECHO_REQUEST 0xAE01 sq data;
         (ident, f) = next_ident f;
         ip = build_ipv4 (if_ip f) dst IPPROTO_ICMP icmp ident
     in (build_ethernet dst_mac (if_mac f) ETHERTYPE_IPV4 ip, f))"

definition handle_arp :: "ethernet_frame \<Rightarrow> net_interface \<Rightarrow> bytes option \<times> net_interface" where
  "handle_arp eth f =
    (case arp_parse (eth_payload eth) of
       None \<Rightarrow> (None, f)
     | Some arp \<Rightarrow>
         let f = f\<lparr>if_arp := arp_insert (arp_sender_ip arp) (arp_sender_mac arp) (if_arp f)\<rparr>
         in if arp_opcode arp = ARP_REQUEST \<and> arp_target_ip arp = if_ip f
            then let reply = \<lparr>arp_opcode = ARP_REPLY, arp_sender_mac = if_mac f, arp_sender_ip = if_ip f,
                              arp_target_mac = arp_sender_mac arp, arp_target_ip = arp_sender_ip arp\<rparr>
                 in (Some (build_ethernet (arp_sender_mac arp) (if_mac f) ETHERTYPE_ARP (arp_build reply)), f)
            else (None, f))"

definition handle_ipv4 :: "ethernet_frame \<Rightarrow> net_interface \<Rightarrow> bytes option \<times> net_interface" where
  "handle_ipv4 eth f =
    (case parse_ipv4 (eth_payload eth) of
       None \<Rightarrow> (None, f)
     | Some ip \<Rightarrow>
         if ip_dst ip \<noteq> if_ip f \<or> ip_protocol ip \<noteq> IPPROTO_ICMP then (None, f)
         else case parse_icmp_echo (ip_payload ip) of
                None \<Rightarrow> (None, f)
              | Some echo \<Rightarrow>
                  if ic_kind echo \<noteq> ICMP_ECHO_REQUEST then (None, f)
                  else let reply_icmp = build_icmp_echo ICMP_ECHO_REPLY (ic_ident echo) (ic_seq echo) (ic_data echo);
                           (ident, f) = next_ident f;
                           reply_ip = build_ipv4 (if_ip f) (ip_src ip) IPPROTO_ICMP reply_icmp ident
                       in (Some (build_ethernet (eth_src eth) (if_mac f) ETHERTYPE_IPV4 reply_ip), f))"

definition handle_frame :: "bytes \<Rightarrow> net_interface \<Rightarrow> bytes option \<times> net_interface" where
  "handle_frame frame f =
    (case parse_ethernet frame of
       None \<Rightarrow> (None, f)
     | Some eth \<Rightarrow>
         if eth_ethertype eth = ETHERTYPE_ARP then handle_arp eth f
         else if eth_ethertype eth = ETHERTYPE_IPV4 then handle_ipv4 eth f
         else (None, f))"

section \<open>The checksum in closed form\<close>

text \<open>The sum of the big-endian 16-bit words, an odd last byte padded with zero.\<close>

fun word_sum :: "bytes \<Rightarrow> nat" where
  "word_sum [] = 0"
| "word_sum [x] = 256 * unat x"
| "word_sum (x # y # data) = 256 * unat x + unat y + word_sum data"

text \<open>RFC 1071: one's complement addition, the carry brought round after every word.\<close>

definition oc_add :: "nat \<Rightarrow> nat \<Rightarrow> nat" where
  "oc_add a b = (if a + b > 65535 then a + b - 65535 else a + b)"

fun ones_complement_sum :: "nat \<Rightarrow> bytes \<Rightarrow> nat" where
  "ones_complement_sum acc [] = acc"
| "ones_complement_sum acc [x] = oc_add acc (256 * unat x)"
| "ones_complement_sum acc (x # y # data) = ones_complement_sum (oc_add acc (256 * unat x + unat y)) data"

definition oc :: "nat \<Rightarrow> nat" where
  "oc n = (if n = 0 then 0 else (n - 1) mod 65535 + 1)"

lemma oc_bound: "oc n \<le> 65535"
proof -
  have "(n - 1) mod 65535 < 65535" by simp
  then show ?thesis unfolding oc_def by (simp only: split: if_split) linarith
qed

lemma oc_small: "n \<le> 65535 \<Longrightarrow> oc n = n"
  by (auto simp: oc_def)

lemma oc_minus: "n > 65535 \<Longrightarrow> oc (n - 65535) = oc n"
proof -
  assume n: "n > 65535"
  then have "n - 1 = (n - 65535 - 1) + 65535" by linarith
  then have "(n - 1) mod 65535 = (n - 65535 - 1) mod 65535" by (metis mod_add_self2)
  with n show ?thesis by (simp add: oc_def)
qed

lemma oc_minus_mult: "n > k * 65535 \<Longrightarrow> oc (n - k * 65535) = oc n"
proof (induction k arbitrary: n)
  case (Suc k)
  then have "k * 65535 < n - 65535" by simp
  then have "oc (n - 65535 - k * 65535) = oc (n - 65535)" by (rule Suc.IH)
  moreover have "n - 65535 - k * 65535 = n - Suc k * 65535" by (metis diff_diff_left mult_Suc)
  moreover have "oc (n - 65535) = oc n" using Suc.prems by (intro oc_minus) simp
  ultimately show ?case by metis
qed simp

lemma oc_add_eq: "a \<le> 65535 \<Longrightarrow> b \<le> 65535 \<Longrightarrow> oc_add a b = oc (a + b)"
  by (auto simp: oc_add_def oc_small oc_minus [symmetric])

lemma oc_oc_add: "oc (oc a + b) = oc (a + b)"
proof (cases "a = 0")
  case False
  let ?k = "(a - 1) div 65535"
  have "a - 1 = ?k * 65535 + (a - 1) mod 65535" by simp
  with False have a: "a = ?k * 65535 + oc a" and p: "oc a > 0" unfolding oc_def by simp_all
  then have "a + b - ?k * 65535 = oc a + b" and "?k * 65535 < a + b" by linarith+
  then show ?thesis using oc_minus_mult [of ?k "a + b"] by simp
qed (simp add: oc_def)

lemma byte_bound: "unat (x :: u8) \<le> 255"
proof -
  have "unat x < 2 ^ LENGTH(8)" by (rule unsigned_less)
  then show ?thesis by simp
qed

lemma unat_ucast_byte: "LENGTH('a) \<ge> 8 \<Longrightarrow> unat (ucast (b :: u8) :: 'a::len word) = unat b"
proof -
  assume "LENGTH('a) \<ge> 8"
  then have "(2 :: nat) ^ 8 \<le> 2 ^ LENGTH('a)" by (rule power_increasing) simp
  then have "unat b < 2 ^ LENGTH('a)" using byte_bound [of b] by simp
  then show ?thesis by (simp add: unsigned_ucast_eq take_bit_nat_eq_self)
qed

lemma ones_complement_sum_eq: "acc \<le> 65535 \<Longrightarrow> ones_complement_sum acc data = oc (acc + word_sum data)"
proof (induction acc data rule: ones_complement_sum.induct)
  case (2 acc x)
  then show ?case using byte_bound [of x] by (simp add: oc_add_eq)
next
  case (3 acc x y data)
  have w: "256 * unat x + unat y \<le> 65535" using byte_bound [of x] byte_bound [of y] by linarith
  have "oc_add acc (256 * unat x + unat y) = oc (acc + (256 * unat x + unat y))"
    using 3 w by (simp add: oc_add_eq)
  then show ?case using 3 oc_bound oc_oc_add by (simp add: add.assoc)
qed (simp add: oc_small)

lemma unat_fold_checksum: "unat (fold_checksum acc) = oc (unat acc)"
proof (induction acc rule: fold_checksum.induct)
  case (1 acc)
  have d: "unat (drop_bit 16 acc) = unat acc div 65536" by (simp add: unat_div drop_bit_eq_div)
  show ?case
  proof (cases "drop_bit 16 acc = 0")
    case True
    then have "unat acc div 65536 = 0" using d by simp
    then have "unat acc < 65536" by (simp add: div_eq_0_iff)
    with True show ?thesis by (simp add: fold_checksum.simps [of acc] oc_small)
  next
    case False
    then have nz: "unat acc div 65536 \<noteq> 0" using d by (metis unat_eq_zero)
    let ?n = "unat acc" and ?k = "unat acc div 65536"
    have "?n = 65536 * ?k + ?n mod 65536" by simp
    then have "?n mod 65536 + ?k = ?n - ?k * 65535" and "?n > ?k * 65535" using nz by linarith+
    then have "oc (?n mod 65536 + ?k) = oc ?n" using oc_minus_mult by simp
    with 1 False show ?thesis by (simp add: fold_checksum.simps [of acc] fold_step)
  qed
qed


lemma unat_of_be16: "unat (of_be_bytes [x, y] :: u16) = 256 * unat x + unat y"
proof -
  have "of_be_bytes [x, y] = (ucast y OR push_bit 8 (ucast x) :: u16)" by (simp add: of_be_bytes_def)
  also have "\<dots> = ucast y + push_bit 8 (ucast x)"
  proof (rule disjunctive_add_eq_or [symmetric], rule bit_word_eqI)
    fix n
    show "bit (ucast y AND push_bit 8 (ucast x) :: u16) n = bit (0 :: u16) n"
      by (auto simp: bit_simps dest: bit_imp_le_length)
  qed
  finally have e: "of_be_bytes [x, y] = (ucast y + push_bit 8 (ucast x) :: u16)" .
  have u: "unat (ucast b :: u16) = unat b" for b :: u8
    by (simp add: unat_ucast_byte)
  have "unat (push_bit 8 (ucast x) :: u16) = 256 * unat x"
    using byte_bound [of x] u [of x] by (simp add: push_bit_eq_mult unat_word_ariths)
  then show ?thesis using u [of y] byte_bound [of x] byte_bound [of y] by (simp add: e unat_word_ariths)
qed

lemma of_be16_be16 [simp]: "of_be_bytes (be16 w) = w"
  by (simp add: of_be_bytes_def be_bytes_def of_le_bytes_le_bytes take_bit_word_eq_self)

lemma of_be32_be32 [simp]: "of_be_bytes (be32 w) = w"
  by (simp add: of_be_bytes_def be_bytes_def of_le_bytes_le_bytes take_bit_word_eq_self)

lemma unat_accumulate_words:
  "unat acc + word_sum data < 2 ^ 32 \<Longrightarrow> unat (accumulate_words acc data) = unat acc + word_sum data"
proof (induction acc data rule: accumulate_words.induct)
  case (2 acc x)
  have "unat (push_bit 8 (ucast x) :: u32) = 256 * unat x"
    using byte_bound [of x] by (simp add: push_bit_eq_mult unat_word_ariths unat_ucast_byte)
  with 2 show ?case by (simp add: unat_word_ariths)
next
  case (3 acc x y data)
  have "unat (ucast (of_be_bytes [x, y] :: u16) :: u32) = 256 * unat x + unat y"
    using byte_bound [of x] byte_bound [of y] by (simp add: unsigned_ucast_eq take_bit_nat_eq_self unat_of_be16)
  then have "unat (acc + ucast (of_be_bytes [x, y] :: u16)) = unat acc + (256 * unat x + unat y)"
    using 3 by (simp add: unat_word_ariths)
  with 3 show ?case by (simp add: add.assoc)
qed simp

lemma word_sum_bound: "word_sum data \<le> 65535 * ((length data + 1) div 2)"
proof (induction data rule: word_sum.induct)
  case (2 x)
  then show ?case using byte_bound [of x] by simp
next
  case (3 x y data)
  then show ?case using byte_bound [of x] byte_bound [of y] by simp
qed simp

lemma word_sum_append: "even (length a) \<Longrightarrow> word_sum (a @ b) = word_sum a + word_sum b"
  by (induction a rule: word_sum.induct) auto

lemma word_sum_be16: "word_sum (be16 w) = unat w"
proof -
  have "of_be_bytes (be16 w) = w" by simp
  moreover obtain x y where "be16 w = [x, y]" by (simp add: be_bytes_def numeral_2_eq_2)
  ultimately show ?thesis using unat_of_be16 [of x y] by simp
qed

lemma unat_not16: "unat (NOT w) = 65535 - unat (w :: u16)"
proof -
  have "NOT w = - 1 - w" by (simp add: not_eq_complement)
  moreover have "unat (- 1 - w) = unat (- 1 :: u16) - unat w" by (rule unat_sub) simp
  ultimately show ?thesis by (simp add: unsigned_minus_1_eq_mask mask_eq_exp_minus_1)
qed

lemma complement_of_fold:
  assumes "unat acc = n"
  shows "unat (NOT (ucast (fold_checksum acc) :: u16)) = 65535 - oc n"
proof -
  have "unat (fold_checksum acc) < 65536" using unat_fold_checksum [of acc] oc_bound [of "unat acc"] by simp
  then have "unat (ucast (fold_checksum acc) :: u16) = unat (fold_checksum acc)"
    by (simp add: unsigned_ucast_eq take_bit_eq_mod)
  then show ?thesis using assms unat_fold_checksum by (simp add: unat_not16)
qed

lemma unat_checksum:
  assumes "length data < 2 ^ 17"
  shows "unat (checksum data) = 65535 - oc (word_sum data)"
proof -
  have "word_sum data \<le> 65535 * 65536"
    using word_sum_bound [of data] assms by (auto intro: order_trans)
  then have "unat (accumulate_words 0 data) = word_sum data"
    using unat_accumulate_words [of 0 data] by simp
  then show ?thesis using complement_of_fold by (simp add: checksum_def accumulate_checksum_def)
qed

text \<open>A complemented sum added back makes the sum vanish.\<close>

lemma oc_complement: "oc (n + (65535 - oc n)) = 65535"
proof (cases "n = 0")
  case False
  let ?k = "(n - 1) div 65535"
  have "n - 1 = ?k * 65535 + (n - 1) mod 65535" by simp
  with False have n: "n = ?k * 65535 + oc n" and p: "oc n > 0" unfolding oc_def by simp_all
  then have "n + (65535 - oc n) = ?k * 65535 + 65535" using oc_bound [of n] by linarith
  then show ?thesis using oc_minus_mult [of ?k "?k * 65535 + 65535"] by (simp add: oc_small)
qed (simp add: oc_def)


lemma checksum_of_inserted:
  assumes "even (length pre)" and "length (pre @ [0, 0] @ post) < 2 ^ 17"
  shows "checksum (pre @ be16 (checksum (pre @ [0, 0] @ post)) @ post) = 0"
proof -
  let ?c = "checksum (pre @ [0, 0] @ post)" and ?n = "word_sum pre + word_sum post"
  have "word_sum ([0, 0] @ post) = word_sum post" by simp
  then have "unat ?c = 65535 - oc ?n"
    using unat_checksum [OF assms(2)] assms(1) by (simp add: word_sum_append)
  then have s: "word_sum (pre @ be16 ?c @ post) = ?n + (65535 - oc ?n)"
    using assms(1) by (simp add: word_sum_append word_sum_be16)
  have "unat (checksum (pre @ be16 ?c @ post)) = 65535 - oc (word_sum (pre @ be16 ?c @ post))"
    using assms(2) by (intro unat_checksum) simp
  then have "unat (checksum (pre @ be16 ?c @ post)) = 0" unfolding s oc_complement by simp
  then show ?thesis by (simp add: unat_eq_zero)
qed

lemma oc_word_error:
  assumes "u < v" and "v \<le> 65535" and "oc (n + u) = oc (n + v)"
  shows "u = 0 \<and> v = 65535"
proof (cases "n + u = 0")
  case True
  then show ?thesis using assms by (simp add: oc_small oc_def)
next
  case False
  have e: "n + v - 1 = (n + u - 1) + (v - u)" using assms(1) False by linarith
  have "(n + u - 1) mod 65535 = (n + v - 1) mod 65535" using assms(1,3) False by (auto simp: oc_def split: if_splits)
  then have "65535 dvd (n + v - 1) - (n + u - 1)" by (metis mod_eq_dvd_iff_nat e le_add1)
  moreover have "(n + v - 1) - (n + u - 1) = v - u" using e by linarith
  ultimately have "65535 dvd v - u" by metis
  then have "65535 \<le> v - u" using assms(1) by (intro dvd_imp_le) simp_all
  then show ?thesis using assms(2) by linarith
qed

section \<open>Frames take their fields back\<close>

lemma be16_eq: "be16 w = [ucast (drop_bit 8 w), ucast w]"
  by (simp add: be_bytes_def numeral_2_eq_2)

lemma be32_eq: "be32 w = [ucast (drop_bit 24 w), ucast (drop_bit 16 w), ucast (drop_bit 8 w), ucast w]"
  by (simp add: be_bytes_def numeral_eq_Suc)

lemma of_be16_bytes [simp]: "of_be_bytes [ucast (drop_bit 8 w), ucast w] = (w :: u16)"
  using of_be16_be16 [of w] by (simp add: be16_eq)

lemma of_be32_bytes [simp]:
  "of_be_bytes [ucast (drop_bit 24 w), ucast (drop_bit 16 w), ucast (drop_bit 8 w), ucast w] = (w :: u32)"
  using of_be32_be32 [of w] by (simp add: be32_eq)

lemma unat_len16: "n < 65536 \<Longrightarrow> unat (word_of_nat n :: u16) = n"
  by (simp add: unsigned_of_nat take_bit_nat_eq_self)

lemma length_4E:
  assumes "length xs = 4"
  obtains a b c d where "xs = [a, b, c, d]"
  using assms by (auto simp: numeral_eq_Suc length_Suc_conv)

lemma length_6E:
  assumes "length xs = 6"
  obtains a b c d e f where "xs = [a, b, c, d, e, f]"
  using assms by (auto simp: numeral_eq_Suc length_Suc_conv)

lemma parse_build_ethernet:
  assumes "length dst = 6" and "length src = 6"
  shows "parse_ethernet (build_ethernet dst src t payload)
    = Some \<lparr>eth_dst = dst, eth_src = src, eth_ethertype = t, eth_payload = payload\<rparr>"
  using assms by (elim length_6E) (simp add: parse_ethernet_def build_ethernet_def be16_eq slice_def)

lemma parse_build_arp:
  assumes "length (arp_sender_mac a) = 6" and "length (arp_sender_ip a) = 4"
    and "length (arp_target_mac a) = 6" and "length (arp_target_ip a) = 4"
  shows "arp_parse (arp_build a) = Some a"
  using assms by (elim length_6E length_4E) (simp add: arp_parse_def arp_build_def be16_eq slice_def)

definition ipv4_prefix :: "u8 \<Rightarrow> nat \<Rightarrow> u16 \<Rightarrow> bytes" where
  "ipv4_prefix protocol n ident =
    [0x45, 0] @ be16 (word_of_nat n) @ be16 ident @ [0, 0, 64, protocol]"

lemma build_ipv4_eq:
  assumes "length src = 4" and "length dst = 4"
  shows "build_ipv4 src dst protocol payload ident =
    (ipv4_prefix protocol (20 + length payload) ident
      @ be16 (checksum (ipv4_prefix protocol (20 + length payload) ident @ [0, 0] @ src @ dst))
      @ src @ dst) @ payload"
  using assms by (elim length_4E) (simp add: build_ipv4_def ipv4_prefix_def be16_eq blit_def Let_def)

lemma parse_build_ipv4:
  assumes "length src = 4" and "length dst = 4" and "20 + length payload < 65536"
  shows "parse_ipv4 (build_ipv4 src dst protocol payload ident)
    = Some \<lparr>ip_src = src, ip_dst = dst, ip_protocol = protocol, ip_payload = payload\<rparr>"
proof -
  have "unat (word_of_nat (20 + length payload) :: u16) = 20 + length payload"
    using assms(3) by (rule unat_len16)
  then show ?thesis using assms
    by (elim length_4E) (simp add: build_ipv4_eq ipv4_prefix_def parse_ipv4_def be16_eq slice_def Let_def)
qed

lemma ipv4_checksum_build:
  assumes "length src = 4" and "length dst = 4"
  shows "ipv4_checksum_valid (build_ipv4 src dst protocol payload ident)"
proof -
  let ?pre = "ipv4_prefix protocol (20 + length payload) ident" and ?post = "src @ dst"
  have l: "length ?pre = 10" by (simp add: ipv4_prefix_def)
  have "checksum (?pre @ be16 (checksum (?pre @ [0, 0] @ ?post)) @ ?post) = 0"
    using assms by (intro checksum_of_inserted) (simp_all add: l)
  moreover have "build_ipv4 src dst protocol payload ident ! 0 = 0x45"
    using assms by (simp add: build_ipv4_eq ipv4_prefix_def)
  ultimately show ?thesis using assms by (simp add: ipv4_checksum_valid_def build_ipv4_eq l Let_def)
qed


definition tcp_pseudo :: "ipv4_addr \<Rightarrow> ipv4_addr \<Rightarrow> nat \<Rightarrow> bytes" where
  "tcp_pseudo src dst n = src @ dst @ [0, IPPROTO_TCP] @ be16 (word_of_nat n)"

lemma accumulate_twice:
  "even (length a) \<Longrightarrow> accumulate_words (accumulate_words acc a) b = accumulate_words acc (a @ b)"
  by (induction acc a rule: accumulate_words.induct) auto

lemma tcp_checksum_eq:
  assumes "length src = 4" and "length dst = 4"
  shows "tcp_checksum src dst segment = checksum (tcp_pseudo src dst (length segment) @ segment)"
proof -
  have m: "ucast (w AND 0xFF) = (ucast w :: u8)" for w :: u16
  proof -
    have "w AND 0xFF = w AND mask 8" by (simp add: mask_eq_exp_minus_1)
    then show ?thesis by (simp only:) (rule bit_word_eqI, auto simp: bit_simps)
  qed
  show ?thesis using assms
    by (elim length_4E)
      (simp add: tcp_checksum_def checksum_def accumulate_checksum_def tcp_pseudo_def accumulate_twice be16_eq m Let_def)
qed

definition tcp_prefix :: "u16 \<Rightarrow> u16 \<Rightarrow> u32 \<Rightarrow> u32 \<Rightarrow> u8 \<Rightarrow> u16 \<Rightarrow> bytes" where
  "tcp_prefix src_port dst_port sq ack flags window =
    be16 src_port @ be16 dst_port @ be32 sq @ be32 ack @ [0x50, flags] @ be16 window"

lemma length_tcp_prefix [simp]: "length (tcp_prefix sp dp sq ack flags window) = 16"
  by (simp add: tcp_prefix_def)

lemma build_tcp_eq:
  "build_tcp src dst sp dp sq ack flags window payload =
    tcp_prefix sp dp sq ack flags window
      @ be16 (tcp_checksum src dst (tcp_prefix sp dp sq ack flags window @ [0, 0] @ [0, 0] @ payload))
      @ [0, 0] @ payload"
proof -
  have z: "be16 0 = [0, 0]" by (simp add: be16_eq)
  show ?thesis
    unfolding build_tcp_def Let_def
    using blit_append_at [of "tcp_prefix sp dp sq ack flags window" 16 "[0, 0]" "be16 _" "[0, 0] @ payload"]
    by (simp add: tcp_prefix_def z)
qed

lemma parse_build_tcp:
  "parse_tcp (build_tcp src dst sp dp sq ack flags window payload)
    = Some \<lparr>tcp_src_port = sp, tcp_dst_port = dp, tcp_seq = sq, tcp_ack = ack, tcp_flags = flags,
            tcp_window = window, tcp_payload = payload\<rparr>"
  by (simp add: build_tcp_eq tcp_prefix_def parse_tcp_def be16_eq be32_eq Let_def)

lemma length_build_tcp [simp]: "length (build_tcp src dst sp dp sq ack flags window payload) = 20 + length payload"
  by (simp add: build_tcp_eq)

lemma tcp_checksum_build:
  assumes "length src = 4" and "length dst = 4" and "length payload < 2 ^ 16"
  shows "tcp_checksum_valid src dst (build_tcp src dst sp dp sq ack flags window payload)"
proof -
  let ?pre = "tcp_prefix sp dp sq ack flags window" and ?post = "[0, 0] @ payload"
  let ?ps = "tcp_pseudo src dst (20 + length payload)"
  have l: "length ?ps = 12" using assms by (simp add: tcp_pseudo_def)
  have "checksum ((?ps @ ?pre) @ be16 (checksum ((?ps @ ?pre) @ [0, 0] @ ?post)) @ ?post) = 0"
    using assms by (intro checksum_of_inserted) (simp_all add: l)
  moreover have "tcp_checksum src dst (?pre @ [0, 0] @ ?post) = checksum ((?ps @ ?pre) @ [0, 0] @ ?post)"
    using assms by (simp add: tcp_checksum_eq add.commute)
  ultimately show ?thesis using assms
    by (simp add: tcp_checksum_valid_def tcp_checksum_eq [of src dst "build_tcp _ _ _ _ _ _ _ _ _"])
      (simp add: build_tcp_eq)
qed

lemma parse_build_udp:
  assumes "8 + length payload < 65536"
  shows "parse_udp (build_udp sp dp payload)
    = Some \<lparr>udp_src_port = sp, udp_dst_port = dp, udp_payload = payload\<rparr>"
  using unat_len16 [OF assms] by (simp add: parse_udp_def build_udp_def be16_eq slice_def Let_def)

lemma build_icmp_eq:
  "build_icmp_echo kind ident sq data =
    [kind, 0] @ be16 (checksum ([kind, 0] @ [0, 0] @ be16 ident @ be16 sq @ data)) @ be16 ident @ be16 sq @ data"
  by (simp add: build_icmp_echo_def be16_eq blit_def Let_def)

lemma length_build_icmp [simp]: "length (build_icmp_echo kind ident sq data) = 8 + length data"
  by (simp add: build_icmp_eq)

lemma parse_build_icmp:
  "parse_icmp_echo (build_icmp_echo kind ident sq data)
    = Some \<lparr>ic_kind = kind, ic_ident = ident, ic_seq = sq, ic_data = data\<rparr>"
  by (simp add: build_icmp_eq parse_icmp_echo_def be16_eq)

lemma checksum_build_icmp:
  assumes "length data < 2 ^ 16"
  shows "checksum (build_icmp_echo kind ident sq data) = 0"
  unfolding build_icmp_eq by (rule checksum_of_inserted) (use assms in simp_all)

lemmas frame_simps = parse_build_ethernet parse_build_arp parse_build_ipv4 parse_build_tcp parse_build_udp
  parse_build_icmp ipv4_checksum_build tcp_checksum_build checksum_build_icmp


section \<open>Properties\<close>

text \<open>
  C25: For every input below 128 KiB (longer than any packet) the Internet checksum, computed by adding
  all words into a 32-bit accumulator and folding the carries at the end, is the complement of the one's
  complement sum of RFC 1071, which brings the carry round after every word. An odd last byte counts as
  the high byte of a word.
\<close>

theorem internet_checksum_rfc1071:
  assumes "length data < 2 ^ 17"
  shows "unat (checksum data) = 65535 - ones_complement_sum 0 data"
  using unat_checksum [OF assms] ones_complement_sum_eq [of 0 data] by simp

text \<open>
  If a message and the same message with one aligned 16-bit word changed both pass the checksum, the
  change was between \<^verbatim>\<open>0x0000\<close> and \<^verbatim>\<open>0xFFFF\<close>, the two zeros of one's complement.
\<close>

theorem single_word_corruption_detected:
  assumes "even (length pre)" and "length (pre @ be16 u @ post) < 2 ^ 17" and "u \<noteq> v"
    and "checksum (pre @ be16 u @ post) = 0" and "checksum (pre @ be16 v @ post) = 0"
  shows "{u, v} = {0, 0xFFFF}"
proof -
  let ?n = "word_sum pre + word_sum post"
  have s: "word_sum (pre @ be16 w @ post) = ?n + unat w" for w :: u16
    using assms(1) by (simp add: word_sum_append word_sum_be16)
  have c: "unat (checksum (pre @ be16 w @ post)) = 65535 - oc (?n + unat w)" for w :: u16
    using unat_checksum [of "pre @ be16 w @ post"] assms(2) by (simp add: s)
  have "oc (?n + unat w) = 65535" if "checksum (pre @ be16 w @ post) = 0" for w :: u16
    using c [of w] oc_bound [of "?n + unat w"] that by simp
  then have e: "oc (?n + unat u) = oc (?n + unat v)" using assms(4,5) by simp
  have b: "unat w \<le> 65535" for w :: u16 using unsigned_less [of w, where 'a = nat] by simp
  have eq: "w = 0xFFFF" if "unat w = 65535" for w :: u16
    using that by (simp add: word_unat_eq_iff)
  consider "unat u < unat v" | "unat v < unat u" using assms(3) by (metis linorder_cases unsigned_word_eqI)
  then show ?thesis
  proof cases
    case 1
    then show ?thesis using oc_word_error [OF 1 b e] eq [of v] by (simp add: unat_eq_zero)
  next
    case 2
    then show ?thesis using oc_word_error [OF 2 b e [symmetric]] eq [of u] by (auto simp: unat_eq_zero)
  qed
qed

text \<open>
  C24: A TCP segment wrapped in IPv4 and Ethernet is taken back field by field by the parsers, for every
  payload that fits the 16-bit length field, and both the IPv4 header checksum and the TCP checksum over
  the pseudo header validate.
\<close>

theorem tcp_frame_round_trip:
  assumes "length dst_mac = 6" and "length src_mac = 6" and "length src = 4" and "length dst = 4"
    and "40 + length payload < 65536"
  shows "let segment = build_tcp src dst src_port dst_port sq ack flags window payload;
             packet = build_ipv4 src dst IPPROTO_TCP segment ident
    in parse_ethernet (build_ethernet dst_mac src_mac ETHERTYPE_IPV4 packet)
      = Some \<lparr>eth_dst = dst_mac, eth_src = src_mac, eth_ethertype = ETHERTYPE_IPV4, eth_payload = packet\<rparr>
    \<and> ipv4_checksum_valid packet
    \<and> parse_ipv4 packet = Some \<lparr>ip_src = src, ip_dst = dst, ip_protocol = IPPROTO_TCP, ip_payload = segment\<rparr>
    \<and> tcp_checksum_valid src dst segment
    \<and> parse_tcp segment = Some \<lparr>tcp_src_port = src_port, tcp_dst_port = dst_port, tcp_seq = sq, tcp_ack = ack,
        tcp_flags = flags, tcp_window = window, tcp_payload = payload\<rparr>"
  using assms by (simp add: Let_def frame_simps)

text \<open>
  A station that receives an ARP request for its address answers it and learns the requester; the
  requester learns the binding from the answer, answers nothing, and keeps all its other bindings.
\<close>

theorem arp_resolves:
  assumes "length (if_mac a) = 6" and "length (if_ip a) = 4" and "length (if_mac b) = 6" and "length (if_ip b) = 4"
    and "bt_wf (if_arp a)" and "bt_wf (if_arp b)"
  shows "\<exists>reply b'. handle_frame (arp_request a (if_ip b)) b = (Some reply, b')
    \<and> arp_lookup (if_arp b') (if_ip a) = Some (if_mac a)
    \<and> (\<exists>a'. handle_frame reply a = (None, a') \<and> arp_lookup (if_arp a') (if_ip b) = Some (if_mac b)
         \<and> (\<forall>ip. ip \<noteq> if_ip b \<longrightarrow> arp_lookup (if_arp a') ip = arp_lookup (if_arp a) ip))"
  using assms
  by (simp add: arp_request_def handle_frame_def frame_simps mac_BROADCAST_def mac_ZERO_def handle_arp_def Let_def
      ARP_REQUEST_def ARP_REPLY_def arp_lookup_def arp_insert_def bt_get_insert)

text \<open>
  A station answers a ping for its address with an echo reply to the sender that carries the same
  identifier, sequence number and data under valid checksums, and the reply is not answered again.
\<close>

theorem ping_answered:
  assumes "length (if_mac a) = 6" and "length (if_ip a) = 4" and "length (if_mac b) = 6" and "length (if_ip b) = 4"
    and "28 + length data < 65536"
  shows "\<exists>frame a' reply b' packet icmp. ping (if_ip b) (if_mac b) sq data a = (frame, a')
    \<and> handle_frame frame b = (Some reply, b')
    \<and> parse_ethernet reply
        = Some \<lparr>eth_dst = if_mac a, eth_src = if_mac b, eth_ethertype = ETHERTYPE_IPV4, eth_payload = packet\<rparr>
    \<and> ipv4_checksum_valid packet
    \<and> parse_ipv4 packet
        = Some \<lparr>ip_src = if_ip b, ip_dst = if_ip a, ip_protocol = IPPROTO_ICMP, ip_payload = icmp\<rparr>
    \<and> checksum icmp = 0
    \<and> parse_icmp_echo icmp = Some \<lparr>ic_kind = ICMP_ECHO_REPLY, ic_ident = 0xAE01, ic_seq = sq, ic_data = data\<rparr>
    \<and> handle_frame reply a' = (None, a')"
  using assms
  by (simp add: ping_def next_ident_def handle_frame_def frame_simps handle_ipv4_def Let_def
      ETHERTYPE_IPV4_def ETHERTYPE_ARP_def ICMP_ECHO_REQUEST_def ICMP_ECHO_REPLY_def)


section \<open>DNS answers\<close>

definition dns_labels :: "rstring \<Rightarrow> bytes list" where
  "dns_labels name = filter (\<lambda>l. l \<noteq> []) (str_split 0x2E name)"

definition encode_labels :: "bytes list \<Rightarrow> bytes" where
  "encode_labels ls = concat (map (\<lambda>l. [word_of_nat (length l)] @ l) ls)"

text \<open>A resource record whose name is a pointer back to the question.\<close>

definition dns_record :: "u16 \<times> u32 \<times> bytes \<Rightarrow> bytes" where
  "dns_record r = (case r of (t, ttl, rdata) \<Rightarrow>
    [0xC0, 0x0C] @ be16 t @ be16 1 @ be32 ttl @ be16 (word_of_nat (length rdata)) @ rdata)"

definition dns_response :: "u16 \<Rightarrow> u16 \<Rightarrow> rstring \<Rightarrow> (u16 \<times> u32 \<times> bytes) list \<Rightarrow> bytes" where
  "dns_response i flags name rs =
    be16 i @ be16 flags @ be16 1 @ be16 (word_of_nat (length rs)) @ be16 0 @ be16 0
      @ drop 12 (build_dns_query i name) @ concat (map dns_record rs)"

lemma foldl_labels:
  "foldl (\<lambda>q l. q @ [word_of_nat (length l)] @ l) q ls = q @ encode_labels ls"
  by (induction ls arbitrary: q) (simp_all add: encode_labels_def)

lemma build_dns_query_eq:
  "build_dns_query i name =
    (be16 i @ be16 0x0100 @ be16 1 @ be16 0 @ be16 0 @ be16 0)
      @ encode_labels (dns_labels name) @ [0] @ be16 1 @ be16 1"
  unfolding build_dns_query_def Let_def foldl_labels dns_labels_def by simp

lemma length_byte:
  assumes "0 < n" and "n < 64"
  shows "(word_of_nat n :: u8) AND 0xC0 \<noteq> 0xC0" and "(word_of_nat n :: u8) \<noteq> 0" and "unat (word_of_nat n :: u8) = n"
proof -
  show u: "unat (word_of_nat n :: u8) = n" using assms by (simp add: unsigned_of_nat take_bit_nat_eq_self)
  show "(word_of_nat n :: u8) \<noteq> 0" using u assms by (metis unsigned_0 less_irrefl)
  show "(word_of_nat n :: u8) AND 0xC0 \<noteq> 0xC0"
  proof
    assume "(word_of_nat n :: u8) AND 0xC0 = 0xC0"
    moreover have "(word_of_nat n :: u8) AND 0xC0 \<le> word_of_nat n" by (rule word_and_le2)
    ultimately have "(0xC0 :: u8) \<le> word_of_nat n" by simp
    then have "unat (0xC0 :: u8) \<le> n" by (simp add: word_le_nat_alt u)
    then show False using assms by simp
  qed
qed

lemma skip_name_labels:
  assumes "\<forall>l\<in>set ls. l \<noteq> [] \<and> length l < 64"
  shows "skip_name (pre @ encode_labels ls @ [0] @ post) (length pre)
    = Some (length pre + length (encode_labels ls) + 1)"
  using assms
proof (induction ls arbitrary: pre)
  case Nil
  then show ?case by (simp add: encode_labels_def skip_name.simps [of _ "length pre"])
next
  case (Cons l ls)
  let ?r = "pre @ encode_labels (l # ls) @ [0] @ post" and ?pre = "pre @ [word_of_nat (length l)] @ l"
  have e: "?r = ?pre @ encode_labels ls @ [0] @ post" by (simp add: encode_labels_def)
  have b: "0 < length l" "length l < 64" using Cons.prems by auto
  have n: "?r ! length pre = word_of_nat (length l)" by (simp add: encode_labels_def nth_append)
  have "skip_name ?r (length pre) = skip_name ?r (length pre + (1 + length l))"
    using length_byte [OF b] n by (subst skip_name.simps) (simp add: Let_def)
  also have "\<dots> = skip_name (?pre @ encode_labels ls @ [0] @ post) (length ?pre)" unfolding e by simp
  also have "\<dots> = Some (length ?pre + length (encode_labels ls) + 1)"
    using Cons.prems by (intro Cons.IH) simp
  finally show ?case by (simp add: encode_labels_def)
qed

lemma slice_four:
  assumes "p + 4 \<le> length R"
  shows "[R ! p, R ! (p + 1), R ! (p + 2), R ! (p + 3)] = slice p 4 R"
proof (rule nth_equalityI)
  fix j assume "j < length [R ! p, R ! (p + 1), R ! (p + 2), R ! (p + 3)]"
  then consider "j = 0" | "j = 1" | "j = 2" | "j = 3" by force
  then show "[R ! p, R ! (p + 1), R ! (p + 2), R ! (p + 3)] ! j = slice p 4 R ! j"
    using assms by cases (simp_all add: nth_slice)
qed (use assms in simp)

lemma walk_step:
  assumes "skip_name R pos = Some p" and "p + 10 + n \<le> length R"
    and "of_be_bytes [R ! p, R ! (p + 1)] = (t :: u16)" and "unat (of_be_bytes [R ! (p + 8), R ! (p + 9)] :: u16) = n"
  shows "walk_answers R (Suc m) pos
    = (if t = 1 \<and> n = 4 then Some (slice (p + 10) n R) else walk_answers R m (p + 10 + n))"
  using assms slice_four [of "p + 10" R]
  by (auto simp only: walk_answers.simps option.case Let_def not_less split: if_split)

lemma walk_record:
  assumes "length rdata < 65536" and "pos = length pre"
  shows "walk_answers (pre @ dns_record (t, ttl, rdata) @ post) (Suc n) pos
    = (if t = 1 \<and> length rdata = 4 then Some rdata
       else walk_answers (pre @ dns_record (t, ttl, rdata) @ post) n (pos + length (dns_record (t, ttl, rdata))))"
proof -
  define w where "w = (word_of_nat (length rdata) :: u16)"
  define R where "R = pre @ dns_record (t, ttl, rdata) @ post"
  have u: "unat w = length rdata" unfolding w_def using assms(1) by (rule unat_len16)
  have d: "dns_record (t, ttl, rdata) = [0xC0, 0x0C] @ be16 t @ be16 1 @ be32 ttl @ be16 w @ rdata"
    by (simp add: dns_record_def w_def)
  have n: "R ! (pos + j) = (dns_record (t, ttl, rdata) @ post) ! j" for j
    using assms(2) by (simp add: R_def nth_append)
  have l: "length R = pos + 12 + length rdata + length post" using assms(2) by (simp add: R_def d)
  have s: "skip_name R pos = Some (pos + 2)"
    using n [of 0] l by (simp add: skip_name.simps [of R pos] d)
  have f: "of_be_bytes [R ! (pos + 2), R ! (pos + 2 + 1)] = t" "of_be_bytes [R ! (pos + 2 + 8), R ! (pos + 2 + 9)] = w"
    unfolding add.assoc n d be16_eq be32_eq by simp_all
  have p: "slice (pos + 2 + 10) (length rdata) R = rdata"
    unfolding R_def d using assms(2) by (simp add: slice_def)
  have "walk_answers R (Suc n) pos = (if t = 1 \<and> length rdata = 4 then Some (slice (pos + 2 + 10) (length rdata) R)
     else walk_answers R n (pos + 2 + 10 + length rdata))" for n
    by (rule walk_step) (use s l f u in simp_all)
  moreover have "pos + 2 + 10 + length rdata = pos + length (dns_record (t, ttl, rdata))" by (simp add: d)
  ultimately show ?thesis unfolding R_def [symmetric] p by (simp only:)
qed

lemma walk_first_address:
  assumes "\<forall>(t, ttl, rdata)\<in>set before. length rdata < 65536 \<and> \<not> (t = 1 \<and> length rdata = 4)"
    and "length ip = 4" and "n > length before"
  shows "walk_answers (pre @ concat (map dns_record before) @ dns_record (1, ttl, ip) @ post) n (length pre) = Some ip"
  using assms(1,3)
proof (induction before arbitrary: pre n)
  case Nil
  then obtain m where "n = Suc m" by (cases n) auto
  then show ?case using assms(2) by (simp add: walk_record del: walk_answers.simps(2))
next
  case (Cons r before)
  obtain t tl rdata where r: "r = (t, tl, rdata)" by (cases r)
  obtain m where n: "n = Suc m" using Cons.prems by (cases n) auto
  let ?post = "concat (map dns_record before) @ dns_record (1, ttl, ip) @ post"
  have "walk_answers (pre @ dns_record r @ ?post) (Suc m) (length pre)
      = walk_answers ((pre @ dns_record r) @ ?post) m (length (pre @ dns_record r))"
    using Cons.prems r by (subst r, subst walk_record) auto
  also have "\<dots> = Some ip" using Cons.prems n by (intro Cons.IH) auto
  finally show ?case by (simp add: n)
qed

text \<open>
  In a response to a query whose labels are below 64 bytes, with any records before it that are not
  four-byte A records, the address of the first A record is found.
\<close>

theorem dns_first_address_found:
  assumes "\<forall>l\<in>set (dns_labels name). length l < 64"
    and "\<forall>(t, ttl, rdata)\<in>set before. length rdata < 65536 \<and> \<not> (t = 1 \<and> length rdata = 4)"
    and "length ip = 4" and "length before + length after + 1 < 65536"
  shows "parse_dns_answer (dns_response i flags name (before @ (1, ttl, ip) # after)) i = Some ip"
proof -
  let ?rs = "before @ (1, ttl, ip) # after" and ?q = "encode_labels (dns_labels name)"
  define hd where "hd = be16 i @ be16 flags @ be16 1 @ be16 (word_of_nat (length ?rs)) @ be16 0 @ be16 (0 :: u16)"
  define R where "R = dns_response i flags name ?rs"
  have r: "R = hd @ ?q @ [0] @ (be16 1 @ be16 1) @ concat (map dns_record ?rs)"
    by (simp add: R_def dns_response_def build_dns_query_eq hd_def)
  have hl: "length hd = 12" by (simp add: hd_def)
  have "skip_name R 12 = Some (12 + length ?q + 1)"
    unfolding r using skip_name_labels [of "dns_labels name" hd] assms(1) hl by (simp add: dns_labels_def)
  then have k: "skip_questions R 1 12 = Some (12 + length ?q + 1 + 4)" by simp
  have w: "walk_answers R (length ?rs) (12 + length ?q + 1 + 4) = Some ip"
    unfolding r
    using walk_first_address [OF assms(2,3), of "length ?rs" "hd @ ?q @ [0] @ be16 1 @ be16 1" ttl
        "concat (map dns_record after)"] hl by simp
  have h: "R ! j = hd ! j" if "j < 12" for j using that by (simp add: r nth_append hl)
  have f: "of_be_bytes [R ! 0, R ! Suc 0] = i" "of_be_bytes [R ! 4, R ! 5] = (1 :: u16)"
    "of_be_bytes [R ! 6, R ! 7] = (word_of_nat (length ?rs) :: u16)"
    using of_be16_bytes [of 1] of_be16_bytes [of "word_of_nat (length ?rs)"]
    by (simp_all add: h) (simp_all add: hd_def be16_eq)
  have "unat (word_of_nat (length ?rs) :: u16) = length ?rs" using assms(4) by (intro unat_len16) simp
  moreover have "\<not> length R < 12" by (simp add: r hl)
  ultimately show ?thesis using k w
    by (simp add: parse_dns_answer_def f Let_def del: walk_answers.simps(2) flip: R_def)
qed


theorem internet_checksum_rfc1071_witness:
  "length [0x45, 0, 0, 0x1C, 0xFF] < (2 :: nat) ^ 17
    \<and> unat (checksum [0x45, 0, 0, 0x1C, 0xFF]) = 65535 - ones_complement_sum 0 [0x45, 0, 0, 0x1C, 0xFF]"
  using internet_checksum_rfc1071 [of "[0x45, 0, 0, 0x1C, 0xFF]"] by simp

theorem single_word_corruption_detected_witness:
  "checksum ([] @ be16 0 @ [0xFF, 0xFF]) = 0 \<and> checksum ([] @ be16 0xFFFF @ [0xFF, 0xFF]) = 0
    \<and> {0, 0xFFFF} = {0, 0xFFFF :: u16}"
proof -
  have "checksum ([] @ be16 0 @ [0xFF, 0xFF]) = 0" "checksum ([] @ be16 0xFFFF @ [0xFF, 0xFF]) = 0"
    by code_simp+
  then show ?thesis using single_word_corruption_detected [of "[]" 0 "[0xFF, 0xFF]" "0xFFFF"] by simp
qed

theorem tcp_frame_round_trip_witness:
  "let segment = build_tcp [10, 0, 0, 1] [10, 0, 0, 2] 49152 80 1 2 TCP_ACK 8192 [0x47, 0x45, 0x54];
       packet = build_ipv4 [10, 0, 0, 1] [10, 0, 0, 2] IPPROTO_TCP segment 7
   in tcp_checksum_valid [10, 0, 0, 1] [10, 0, 0, 2] segment \<and> ipv4_checksum_valid packet"
  using tcp_frame_round_trip [of "replicate 6 1" "replicate 6 2" "[10, 0, 0, 1]" "[10, 0, 0, 2]"
      "[0x47, 0x45, 0x54]" 49152 80 1 2 TCP_ACK 8192 7]
  by (simp add: Let_def)

theorem arp_resolves_witness:
  "\<exists>reply b'. handle_frame (arp_request (interface_new (replicate 6 1) [10, 0, 0, 1]) [10, 0, 0, 2])
       (interface_new (replicate 6 2) [10, 0, 0, 2]) = (Some reply, b')
     \<and> arp_lookup (if_arp b') [10, 0, 0, 1] = Some (replicate 6 1)"
  using arp_resolves [of "interface_new (replicate 6 1) [10, 0, 0, 1]" "interface_new (replicate 6 2) [10, 0, 0, 2]"]
  by (auto simp: interface_new_def arp_cache_new_def)

theorem ping_answered_witness:
  "\<exists>frame a' reply b'. ping [10, 0, 0, 2] (replicate 6 2) 3 [1, 2, 3] (interface_new (replicate 6 1) [10, 0, 0, 1]) = (frame, a')
     \<and> handle_frame frame (interface_new (replicate 6 2) [10, 0, 0, 2]) = (Some reply, b')
     \<and> handle_frame reply a' = (None, a')"
  using ping_answered [of "interface_new (replicate 6 1) [10, 0, 0, 1]" "interface_new (replicate 6 2) [10, 0, 0, 2]"
      "[1, 2, 3]" 3]
  by (auto simp: interface_new_def arp_cache_new_def)

theorem dns_first_address_found_witness:
  "parse_dns_answer (dns_response 0xABCD 0x8180 (ascii ''os.org'')
     ([(5, 60, [1, 2])] @ (1, 300, [93, 184, 216, 34]) # [])) 0xABCD = Some [93, 184, 216, 34]"
proof -
  have "\<forall>l\<in>set (dns_labels (ascii ''os.org'')). length l < 64" by code_simp
  then show ?thesis
    using dns_first_address_found [of "ascii ''os.org''" "[(5, 60, [1, 2])]" "[93, 184, 216, 34]" "[]" "0xABCD" "0x8180" 300]
    by simp
qed

end
