(* ===== verification/Galois_Byte.thy ===== *)
theory Galois_Byte
  imports Dominion_Prelude
begin

text \<open>
  The byte arithmetic of \<^verbatim>\<open>dominion-core/src/recovery.rs\<close>: the shift-and-add product modulo
  \<open>x\<^sup>8 + x\<^sup>4 + x\<^sup>3 + x + 1\<close>, powers by squaring and the inverse as a 254th power. The operations are
  shown to form a field, as an instance of the library's class, so that its algebra applies to them.
\<close>

section \<open>The operations\<close>

definition gf_round :: "u8 \<times> u8 \<times> u8 \<Rightarrow> u8 \<times> u8 \<times> u8" where
  "gf_round s = (case s of (a, b, p) \<Rightarrow>
    let p = (if b AND 1 \<noteq> 0 then p XOR a else p);
        hi = a AND 0x80;
        a = push_bit 1 a;
        a = (if hi \<noteq> 0 then a XOR 0x1b else a);
        b = drop_bit 1 b
    in (a, b, p))"

definition gf_mul :: "u8 \<Rightarrow> u8 \<Rightarrow> u8" where
  "gf_mul a b = (case (gf_round ^^ 8) (a, b, 0) of (_, _, p) \<Rightarrow> p)"

function gf_pow_loop :: "u8 \<Rightarrow> u8 \<Rightarrow> u32 \<Rightarrow> u8" where
  "gf_pow_loop acc base n =
    (if n > 0
     then let acc = (if n AND 1 = 1 then gf_mul acc base else acc);
              base = gf_mul base base
          in gf_pow_loop acc base (drop_bit 1 n)
     else acc)"
  by pat_completeness auto
termination
proof (relation "measure (\<lambda>(_, _, n). unat n)")
  fix acc base :: u8 and n :: u32 and acc' base'
  assume "0 < n"
  then have "unat n > 0" by (simp add: word_less_nat_alt)
  moreover have "unat (drop_bit 1 n) = unat n div 2" unfolding unat_drop_bit_eq by (simp add: drop_bit_eq_div)
  ultimately show "((acc', base', drop_bit 1 n), (acc, base, n)) \<in> measure (\<lambda>(_, _, n). unat n)" by simp
qed simp

declare gf_pow_loop.simps [simp del]

definition gf_pow :: "u8 \<Rightarrow> u32 \<Rightarrow> u8" where
  "gf_pow a n = gf_pow_loop 1 a n"

definition gf_inv :: "u8 \<Rightarrow> u8" where
  "gf_inv a = (if a = 0 then 0 else gf_pow a 254)"

section \<open>Bilinearity\<close>

definition xtime :: "u8 \<Rightarrow> u8" where
  "xtime a = (if a AND 0x80 \<noteq> 0 then push_bit 1 a XOR 0x1b else push_bit 1 a)"

lemma xtime_bit: "xtime a = push_bit 1 a XOR (if bit a 7 then 0x1b else 0)"
  using bit_iff_and_push_bit_not_eq_0 [of a 7] by (simp add: xtime_def)

lemma xtime_xor: "xtime (a XOR b) = xtime a XOR xtime b"
  by (simp add: xtime_bit bit_simps) (auto simp: push_bit_xor xor.assoc xor.left_commute xor.commute)

lemma gf_round_eq: "gf_round (a, b, p) = (xtime a, drop_bit 1 b, p XOR (if bit b 0 then a else 0))"
  using bit_iff_and_push_bit_not_eq_0 [of b 0] by (auto simp: gf_round_def xtime_def Let_def)

lemma foldr_xor: "foldr (\<lambda>i t. f i XOR t) is (c :: u8) = foldr (\<lambda>i t. f i XOR t) is 0 XOR c"
  by (induction "is") (simp_all add: xor.assoc)

lemma gf_rounds:
  "(gf_round ^^ n) (a, b, p) = ((xtime ^^ n) a, drop_bit n b,
    p XOR foldr (\<lambda>i t. (if bit b i then (xtime ^^ i) a else 0) XOR t) [0..<n] 0)"
proof (induction n)
  case (Suc n)
  let ?f = "\<lambda>i. if bit b i then (xtime ^^ i) a else 0"
  have "foldr (\<lambda>i t. ?f i XOR t) [0..<Suc n] 0 = foldr (\<lambda>i t. ?f i XOR t) [0..<n] (?f n)" by simp
  also have "\<dots> = foldr (\<lambda>i t. ?f i XOR t) [0..<n] 0 XOR ?f n" by (rule foldr_xor)
  finally show ?case using Suc by (simp add: gf_round_eq bit_drop_bit_eq xor.assoc)
qed simp

definition basis_sum :: "(nat \<Rightarrow> u8) \<Rightarrow> u8 \<Rightarrow> u8" where
  "basis_sum f b = foldr (\<lambda>i t. (if bit b i then f i else 0) XOR t) [0..<8] 0"

lemma gf_mul_eq: "gf_mul a b = basis_sum (\<lambda>i. (xtime ^^ i) a) b"
  by (simp add: gf_mul_def gf_rounds basis_sum_def)

lemma bit_foldr_xor:
  "bit (foldr (\<lambda>i t. (if bit b i then 2 ^ i else 0) XOR t) [0..<m] (0 :: u8)) n \<longleftrightarrow> n < m \<and> n < 8 \<and> bit b n"
proof (induction m)
  case (Suc m)
  have "foldr (\<lambda>i t. (if bit b i then 2 ^ i else 0) XOR t) [0..<Suc m] (0 :: u8)
      = foldr (\<lambda>i t. (if bit b i then 2 ^ i else 0) XOR t) [0..<m] 0 XOR (if bit b m then 2 ^ m else 0)"
    by (simp add: foldr_xor [of _ _ "if bit b m then 2 ^ m else 0"])
  then show ?case using Suc by (auto simp: bit_simps less_Suc_eq)
qed simp

lemma basis_sum_id: "basis_sum (\<lambda>i. 2 ^ i) b = b"
  unfolding basis_sum_def by (rule bit_word_eqI) (simp add: bit_foldr_xor)

definition additive :: "(u8 \<Rightarrow> u8) \<Rightarrow> bool" where
  "additive h \<longleftrightarrow> (\<forall>x y. h (x XOR y) = h x XOR h y)"

lemma additiveD: "additive h \<Longrightarrow> h (x XOR y) = h x XOR h y"
  by (simp add: additive_def)

lemma additive_0: "additive h \<Longrightarrow> h 0 = 0"
  using additiveD [of h 0 0] by simp

lemma additive_sum:
  assumes "additive h"
  shows "h (basis_sum f b) = basis_sum (\<lambda>i. h (f i)) b"
proof -
  have "h (foldr (\<lambda>i t. (if bit b i then f i else 0) XOR t) is 0)
      = foldr (\<lambda>i t. (if bit b i then h (f i) else 0) XOR t) is 0" for "is"
    by (induction "is") (auto simp: additiveD [OF assms] additive_0 [OF assms])
  then show ?thesis by (simp add: basis_sum_def)
qed

lemma basis_sum_cong: "(\<And>i. i < 8 \<Longrightarrow> f i = g i) \<Longrightarrow> basis_sum f b = basis_sum g b"
  unfolding basis_sum_def by (intro foldr_cong refl) auto

lemma additive_ext:
  assumes "additive F" and "additive G" and "\<And>i. i < 8 \<Longrightarrow> F (2 ^ i) = G (2 ^ i)"
  shows "F b = G b"
proof -
  have "basis_sum (\<lambda>i. F (2 ^ i)) b = basis_sum (\<lambda>i. G (2 ^ i)) b"
    using assms(3) by (rule basis_sum_cong)
  then have "F (basis_sum (\<lambda>i. 2 ^ i) b) = G (basis_sum (\<lambda>i. 2 ^ i) b)"
    by (simp only: additive_sum [OF assms(1)] additive_sum [OF assms(2)])
  then show ?thesis by (simp add: basis_sum_id)
qed

lemma basis_sum_xor: "basis_sum f (b XOR c) = basis_sum f b XOR basis_sum f c"
proof -
  have "foldr (\<lambda>i t. (if bit (b XOR c) i then f i else 0) XOR t) is 0
      = foldr (\<lambda>i t. (if bit b i then f i else 0) XOR t) is 0 XOR foldr (\<lambda>i t. (if bit c i then f i else 0) XOR t) is 0" for "is"
    by (induction "is") (auto simp: bit_xor_iff xor.assoc xor.left_commute xor.commute)
  then show ?thesis by (simp add: basis_sum_def)
qed

lemma basis_sum_xor_fun: "basis_sum (\<lambda>i. f i XOR g i) b = basis_sum f b XOR basis_sum g b"
proof -
  have "foldr (\<lambda>i t. (if bit b i then f i XOR g i else 0) XOR t) is 0
      = foldr (\<lambda>i t. (if bit b i then f i else 0) XOR t) is 0 XOR foldr (\<lambda>i t. (if bit b i then g i else 0) XOR t) is 0" for "is"
    by (induction "is") (auto simp: xor.assoc xor.left_commute xor.commute)
  then show ?thesis by (simp add: basis_sum_def)
qed

lemma xtime_pow_xor: "(xtime ^^ i) (a XOR b) = (xtime ^^ i) a XOR (xtime ^^ i) b"
  by (induction i) (simp_all add: xtime_xor)

lemma gf_mul_xor_right: "gf_mul a (b XOR c) = gf_mul a b XOR gf_mul a c"
  by (simp add: gf_mul_eq basis_sum_xor)

lemma gf_mul_xor_left: "gf_mul (a XOR b) c = gf_mul a c XOR gf_mul b c"
  by (simp add: gf_mul_eq xtime_pow_xor basis_sum_xor_fun)

lemma additive_mul [simp]: "additive (gf_mul a)" "additive (\<lambda>x. gf_mul x b)" "additive xtime" "additive (xtime ^^ i)"
  by (simp_all add: additive_def gf_mul_xor_left gf_mul_xor_right xtime_xor xtime_pow_xor)

lemma additive_comp [simp]: "additive f \<Longrightarrow> additive g \<Longrightarrow> additive (\<lambda>x. f (g x))"
  by (simp add: additive_def)

lemma less_8E:
  assumes "i < (8 :: nat)"
  obtains "i = 0" | "i = 1" | "i = 2" | "i = 3" | "i = 4" | "i = 5" | "i = 6" | "i = 7"
  using assms by linarith

lemma gf_mul_basis: "i < 8 \<Longrightarrow> gf_mul a (2 ^ i) = (xtime ^^ i) a"
proof -
  assume i: "i < 8"
  have "foldr (\<lambda>j t. (if bit (2 ^ i :: u8) j then f j else 0) XOR t) [0..<m] 0 = (if i < m then f i else 0)"
    for f :: "nat \<Rightarrow> u8" and m
  proof (induction m)
    case (Suc m)
    have "foldr (\<lambda>j t. (if bit (2 ^ i :: u8) j then f j else 0) XOR t) [0..<Suc m] 0
        = foldr (\<lambda>j t. (if bit (2 ^ i :: u8) j then f j else 0) XOR t) [0..<m] 0 XOR (if bit (2 ^ i :: u8) m then f m else 0)"
      by (simp add: foldr_xor [of _ _ "if bit (2 ^ i :: u8) m then f m else 0"])
    then show ?case using Suc i by (auto simp: bit_simps less_Suc_eq)
  qed simp
  then show ?thesis using i by (simp add: gf_mul_eq basis_sum_def)
qed

lemma xtime_basis: "i < 8 \<Longrightarrow> (xtime ^^ i) 1 = 2 ^ i"
  by (erule less_8E) (simp_all add: numeral_eq_Suc xtime_def)

lemma gf_mul_comm: "gf_mul a b = gf_mul b a"
proof (rule additive_ext [of "\<lambda>a. gf_mul a b" "gf_mul b"]; simp?)
  fix i :: nat assume i: "i < 8"
  show "gf_mul (2 ^ i) b = gf_mul b (2 ^ i)"
  proof (rule additive_ext [of "gf_mul (2 ^ i)" "\<lambda>b. gf_mul b (2 ^ i)"]; simp?)
    fix j :: nat assume j: "j < 8"
    have "(xtime ^^ j) ((xtime ^^ i) 1) = (xtime ^^ i) ((xtime ^^ j) 1)" by (metis add.commute comp_apply funpow_add)
    then show "gf_mul (2 ^ i) (2 ^ j) = gf_mul (2 ^ j) (2 ^ i)"
      using i j by (simp add: gf_mul_basis xtime_basis)
  qed
qed

lemma gf_mul_xtime_left: "gf_mul (xtime a) b = xtime (gf_mul a b)"
  by (simp add: gf_mul_eq additive_sum funpow_swap1)

lemma gf_mul_xtime: "gf_mul a ((xtime ^^ i) b) = (xtime ^^ i) (gf_mul a b)"
proof (induction i)
  case (Suc i)
  then show ?case using gf_mul_xtime_left [of "(xtime ^^ i) b" a] by (simp add: gf_mul_comm [of a])
qed simp

lemma gf_mul_assoc: "gf_mul (gf_mul a b) c = gf_mul a (gf_mul b c)"
  by (rule additive_ext [of "gf_mul (gf_mul a b)" "\<lambda>c. gf_mul a (gf_mul b c)"])
    (simp_all add: gf_mul_basis gf_mul_xtime)

lemma gf_mul_1: "gf_mul a 1 = a"
  using gf_mul_basis [of 0 a] by simp

lemma gf_mul_3: "gf_mul a 3 = a XOR xtime a"
  using gf_mul_xor_right [of a 1 2] gf_mul_basis [of 1 a] by (simp add: gf_mul_1)


section \<open>The field\<close>

datatype gf = GF (gf_byte: u8)

instantiation gf :: comm_ring_1
begin

definition zero_gf :: gf where "0 = GF 0"
definition one_gf :: gf where "1 = GF 1"
definition plus_gf :: "gf \<Rightarrow> gf \<Rightarrow> gf" where "a + b = GF (gf_byte a XOR gf_byte b)"
definition minus_gf :: "gf \<Rightarrow> gf \<Rightarrow> gf" where "a - b = GF (gf_byte a XOR gf_byte b)"
definition uminus_gf :: "gf \<Rightarrow> gf" where "- a = (a :: gf)"
definition times_gf :: "gf \<Rightarrow> gf \<Rightarrow> gf" where "a * b = GF (gf_mul (gf_byte a) (gf_byte b))"

instance
proof
  fix a b c :: gf
  show "a + b + c = a + (b + c)" by (simp add: plus_gf_def xor.assoc)
  show "a + b = b + a" by (simp add: plus_gf_def xor.commute)
  show "0 + a = a" by (simp add: plus_gf_def zero_gf_def)
  show "- a + a = 0" by (simp add: plus_gf_def zero_gf_def uminus_gf_def)
  show "a - b = a + - b" by (simp add: plus_gf_def minus_gf_def uminus_gf_def)
  show "a * b * c = a * (b * c)" by (simp add: times_gf_def gf_mul_assoc)
  show "a * b = b * a" by (simp add: times_gf_def gf_mul_comm)
  show "1 * a = a" by (simp add: times_gf_def one_gf_def gf_mul_comm [of 1] gf_mul_1)
  show "(a + b) * c = a * c + b * c" by (simp add: times_gf_def plus_gf_def gf_mul_xor_left)
  show "(0 :: gf) \<noteq> 1" by (simp add: zero_gf_def one_gf_def)
qed

end

lemma gf_add_self: "a + a = (0 :: gf)"
  by (simp add: plus_gf_def zero_gf_def)

lemma gf_square_add: "(a + b) ^ 2 = a ^ 2 + (b :: gf) ^ 2"
proof -
  have "(a + b) ^ 2 = a ^ 2 + b ^ 2 + (a * b + a * b)" by (simp add: power2_eq_square algebra_simps)
  then show ?thesis by (simp add: gf_add_self)
qed

lemma gf_square_pow_add: "(a + b) ^ (2 ^ k) = a ^ (2 ^ k) + (b :: gf) ^ (2 ^ k)"
proof (induction k)
  case (Suc k)
  have "(a + b) ^ (2 ^ Suc k) = ((a + b) ^ (2 ^ k)) ^ 2" by (simp add: mult.commute flip: power_mult)
  also have "\<dots> = (a ^ (2 ^ k)) ^ 2 + (b ^ (2 ^ k)) ^ 2" by (simp add: Suc gf_square_add)
  finally show ?case by (simp add: mult.commute flip: power_mult)
qed simp

lemma gf_basis_power: "i < 8 \<Longrightarrow> GF (2 ^ i) = GF 2 ^ i"
proof -
  have s: "GF 2 * GF b = GF (xtime b)" for b
    using gf_mul_basis [of 1 b] by (simp add: times_gf_def gf_mul_comm [of 2])
  have "GF 2 ^ i = GF ((xtime ^^ i) 1)" by (induction i) (simp_all add: s one_gf_def)
  then show "i < 8 \<Longrightarrow> GF (2 ^ i) = GF 2 ^ i" by (simp add: xtime_basis)
qed

lemma square_vals:
  "gf_mul 2 2 = 4" "gf_mul 4 4 = 16" "gf_mul 16 16 = 0x1b" "gf_mul 0x1b 0x1b = 0x5e" "gf_mul 0x5e 0x5e = 0xe4"
  "gf_mul 0xe4 0xe4 = 0x4d" "gf_mul 0x4d 0x4d = 0xfa" "gf_mul 0xfa 0xfa = 2"
  "gf_mul 1 1 = 1" "gf_mul 8 8 = 0x40" "gf_mul 0x20 0x20 = 0x6c" "gf_mul 0x40 0x40 = 0xab" "gf_mul 0x80 0x80 = 0x9a"
  by code_simp+

lemma gf_x_256: "GF 2 ^ 256 = GF 2"
proof -
  have s: "GF a ^ 2 = GF (gf_mul a a)" for a by (simp add: power2_eq_square times_gf_def)
  have "GF 2 ^ 256 = ((((((((GF 2 ^ 2) ^ 2) ^ 2) ^ 2) ^ 2) ^ 2) ^ 2) ^ 2)" by (simp only: power_mult [symmetric]) simp
  also have "\<dots> = GF 2" by (simp only: s square_vals)
  finally show ?thesis .
qed

lemma gf_power_256: "a ^ 256 = (a :: gf)"
proof -
  have add: "additive (\<lambda>b. gf_byte (GF b ^ 256))"
    unfolding additive_def
  proof (intro allI)
    fix x y
    have "(GF x + GF y) ^ 256 = GF x ^ 256 + GF y ^ 256" using gf_square_pow_add [of "GF x" "GF y" 8] by simp
    then show "gf_byte (GF (x XOR y) ^ 256) = gf_byte (GF x ^ 256) XOR gf_byte (GF y ^ 256)" by (simp add: plus_gf_def)
  qed
  have "gf_byte (GF b ^ 256) = b" for b
  proof (rule additive_ext [OF add, of "\<lambda>b. b"])
    show "additive (\<lambda>b. b)" by (simp add: additive_def)
    fix i :: nat assume "i < 8"
    then have "GF (2 ^ i) ^ 256 = (GF 2 ^ 256) ^ i" by (simp add: gf_basis_power power_mult [symmetric] mult.commute)
    then show "gf_byte (GF (2 ^ i) ^ 256) = 2 ^ i" using \<open>i < 8\<close> by (simp add: gf_x_256 gf_basis_power [symmetric])
  qed
  then show ?thesis by (cases a) (metis gf.collapse gf.sel)
qed

text \<open>The only idempotents are 0 and 1: squaring is linear, and its fixed points solve eight parity equations.\<close>

lemma bit_if_zero: "bit (if c then v else 0) n \<longleftrightarrow> c \<and> bit (v :: u8) n"
  by simp

lemma gf_idempotent:
  assumes "gf_mul e e = e"
  shows "e = 0 \<or> e = 1"
proof -
  have add: "additive (\<lambda>b. gf_mul b b)"
    by (simp add: additive_def gf_mul_xor_left gf_mul_xor_right gf_mul_comm xor.assoc xor.left_commute)
  have "e = basis_sum (\<lambda>i. gf_mul (2 ^ i) (2 ^ i)) e"
    using additive_sum [OF add, of "\<lambda>i. 2 ^ i" e] assms by (simp add: basis_sum_id)
  moreover have "[0..<8] = [0, 1, 2, 3, 4, 5, 6, 7 :: nat]" by code_simp
  moreover have "gf_mul (2 ^ 0) (2 ^ 0) = 1" "gf_mul (2 ^ 1) (2 ^ 1) = 4" "gf_mul (2 ^ 2) (2 ^ 2) = 16"
    "gf_mul (2 ^ 3) (2 ^ 3) = 0x40" "gf_mul (2 ^ 4) (2 ^ 4) = 0x1b" "gf_mul (2 ^ 5) (2 ^ 5) = 0x6c"
    "gf_mul (2 ^ 6) (2 ^ 6) = 0xab" "gf_mul (2 ^ 7) (2 ^ 7) = 0x9a"
    by (simp_all add: square_vals)
  ultimately have se: "e = (if bit e 0 then 1 else 0) XOR (if bit e 1 then 4 else 0) XOR (if bit e 2 then 16 else 0)
      XOR (if bit e 3 then 0x40 else 0) XOR (if bit e 4 then 0x1b else 0) XOR (if bit e 5 then 0x6c else 0)
      XOR (if bit e 6 then 0xab else 0) XOR (if bit e 7 then 0x9a else 0)"
    by (simp only: basis_sum_def foldr.simps comp_apply id_apply xor.right_neutral)
  have "bit e n \<longleftrightarrow> bit ((if bit e 0 then 1 else 0) XOR (if bit e 1 then 4 else 0) XOR (if bit e 2 then 16 else 0)
      XOR (if bit e 3 then 0x40 else 0) XOR (if bit e 4 then 0x1b else 0) XOR (if bit e 5 then 0x6c else 0)
      XOR (if bit e 6 then 0xab else 0) XOR (if bit e 7 then 0x9a else 0) :: u8) n" for n
    by (rule arg_cong [OF se, where f = "\<lambda>x. bit x n"])
  then have s: "bit e n \<longleftrightarrow> ((bit e 0 \<and> bit (1 :: u8) n) \<noteq> ((bit e 1 \<and> bit (4 :: u8) n) \<noteq> ((bit e 2 \<and> bit (16 :: u8) n)
      \<noteq> ((bit e 3 \<and> bit (0x40 :: u8) n) \<noteq> ((bit e 4 \<and> bit (0x1b :: u8) n) \<noteq> ((bit e 5 \<and> bit (0x6c :: u8) n)
      \<noteq> ((bit e 6 \<and> bit (0xab :: u8) n) \<noteq> (bit e 7 \<and> bit (0x9a :: u8) n))))))))" for n
    unfolding bit_xor_iff bit_if_zero .
  have z: "\<not> bit e 5" "\<not> bit e 7" "\<not> bit e 6" "\<not> bit e 4" "\<not> bit e 3" "\<not> bit e 2" "\<not> bit e (Suc 0)"
    using s [of 0, simplified] s [of 1, simplified] s [of 2, simplified] s [of 3, simplified] s [of 4, simplified]
      s [of 5, simplified] s [of 6, simplified] s [of 7, simplified] by argo+
  have "e = (if bit e 0 then 1 else 0)"
  proof (rule bit_word_eqI)
    fix n assume "n < LENGTH(8)"
    then have "n < 8" by simp
    then show "bit e n = bit (if bit e 0 then 1 else 0 :: u8) n"
      using z by (elim less_8E) (auto simp: bit_simps)
  qed
  then show ?thesis by (metis (full_types))
qed


lemma gf_power_255: "a \<noteq> 0 \<Longrightarrow> a ^ 255 = (1 :: gf)"
proof -
  assume a: "a \<noteq> 0"
  have s: "a ^ 256 = a * a ^ 255" by (simp flip: power_Suc)
  have "a ^ 255 * a ^ 255 = a ^ 256 * a ^ 254" by (simp flip: power_add)
  also have "\<dots> = a ^ 255" by (simp add: gf_power_256 flip: power_Suc)
  finally have "gf_byte (a ^ 255) = 0 \<or> gf_byte (a ^ 255) = 1"
    by (intro gf_idempotent) (metis gf.sel times_gf_def)
  then have "a ^ 255 = 0 \<or> a ^ 255 = 1" by (metis gf.collapse one_gf_def zero_gf_def)
  then show ?thesis using a s gf_power_256 [of a] by auto
qed

lemma gf_pow_loop_eq: "GF (gf_pow_loop acc base n) = GF acc * GF base ^ unat n"
proof (induction acc base n rule: gf_pow_loop.induct)
  case (1 acc base n)
  show ?case
  proof (cases "n > 0")
    case True
    have d: "unat (drop_bit 1 n) = unat n div 2" unfolding unat_drop_bit_eq by (simp add: drop_bit_eq_div)
    have sq: "GF (gf_mul base base) ^ (unat n div 2) = GF base ^ (2 * (unat n div 2))"
      by (simp add: times_gf_def power_mult power2_eq_square)
    have o: "n AND 1 = 1 \<longleftrightarrow> odd (unat n)"
    proof -
      have "bit (unat n) 0 \<longleftrightarrow> bit n 0" by (simp add: bit_unsigned_iff)
      then show ?thesis by (simp add: bit_0 and_one_eq odd_iff_mod_2_eq_one)
    qed
    show ?thesis
    proof (cases "odd (unat n)")
      case odd: True
      then have n: "Suc (2 * (unat n div 2)) = unat n" by simp
      have "GF (gf_pow_loop acc base n) = GF acc * GF base * GF base ^ (2 * (unat n div 2))"
        using "1.IH" [OF True refl refl] True odd o unfolding d sq
        by (simp only: gf_pow_loop.simps [of acc base n] Let_def if_True) (simp add: times_gf_def)
      also have "\<dots> = GF acc * GF base ^ Suc (2 * (unat n div 2))" by (simp only: power_Suc mult.assoc)
      finally show ?thesis unfolding n .
    next
      case even: False
      then have n: "2 * (unat n div 2) = unat n" by simp
      have "GF (gf_pow_loop acc base n) = GF acc * GF base ^ (2 * (unat n div 2))"
        using "1.IH" [OF True refl refl] True even o unfolding d sq
        by (simp only: gf_pow_loop.simps [of acc base n] Let_def if_True if_False)
      then show ?thesis unfolding n .
    qed
  next
    case False
    then have "n = 0" by (simp add: word_greater_zero_iff)
    then show ?thesis by (simp add: gf_pow_loop.simps)
  qed
qed

lemma gf_pow_eq: "GF (gf_pow a n) = GF a ^ unat n"
  by (simp add: gf_pow_def gf_pow_loop_eq flip: one_gf_def)

lemma gf_inv_eq: "a \<noteq> 0 \<Longrightarrow> GF (gf_inv a) * GF a = 1"
proof -
  assume a: "a \<noteq> 0"
  have "GF (gf_inv a) * GF a = GF a ^ 255" using a by (simp add: gf_inv_def gf_pow_eq flip: power_Suc2)
  also have "\<dots> = 1" using a by (intro gf_power_255) (simp add: zero_gf_def)
  finally show ?thesis .
qed

instantiation gf :: field
begin

definition inverse_gf :: "gf \<Rightarrow> gf" where "inverse a = GF (gf_inv (gf_byte a))"
definition divide_gf :: "gf \<Rightarrow> gf \<Rightarrow> gf" where "a div b = a * inverse (b :: gf)"

instance
proof
  fix a b :: gf
  show "a \<noteq> 0 \<Longrightarrow> inverse a * a = 1" using gf_inv_eq [of "gf_byte a"] by (cases a) (simp add: inverse_gf_def zero_gf_def)
  show "a div b = a * inverse b" by (rule divide_gf_def)
  show "inverse (0 :: gf) = 0" by (simp add: inverse_gf_def zero_gf_def gf_inv_def)
qed

end

lemma gf_byte_simps:
  "gf_byte (a + b) = gf_byte a XOR gf_byte b" "gf_byte (a * b) = gf_mul (gf_byte a) (gf_byte b)"
  "gf_byte 0 = 0" "gf_byte 1 = 1" "gf_byte (inverse a) = gf_inv (gf_byte a)"
  by (simp_all add: plus_gf_def times_gf_def zero_gf_def one_gf_def inverse_gf_def)

lemma gf_minus: "a - b = a + (b :: gf)"
  by (simp add: minus_gf_def plus_gf_def)

end
