(* ===== verification/Field_Polynomial.thy ===== *)
theory Field_Polynomial
  imports Main
begin

text \<open>
  Polynomials as coefficient lists over any field: a list of \<open>n\<close> coefficients that vanishes at \<open>n\<close>
  points is zero, so the Lagrange interpolant through given points is the only polynomial of that
  length that passes through them.
\<close>

section \<open>Polynomials over a field\<close>

primrec peval :: "'a::field list \<Rightarrow> 'a \<Rightarrow> 'a" where
  "peval [] x = 0"
| "peval (c # cs) x = c + x * peval cs x"

fun sdiv :: "'a::field \<Rightarrow> 'a list \<Rightarrow> 'a list" where
  "sdiv a [] = []"
| "sdiv a [c] = []"
| "sdiv a (c # d # cs) = peval (d # cs) a # sdiv a (d # cs)"

lemma length_sdiv [simp]: "length (sdiv a cs) = length cs - 1"
  by (induction a cs rule: sdiv.induct) simp_all

lemma ruffini_step: "c + x * (p + (x - a) * q) = (c + a * p) + (x - a) * (p + x * q)" for c x p a q :: "'a::field"
  by (simp add: algebra_simps)

lemma peval_sdiv: "peval cs x = peval cs a + (x - a) * peval (sdiv a cs) x"
proof (induction a cs rule: sdiv.induct)
  case (3 a c d cs)
  have "peval (c # d # cs) x = c + x * (peval (d # cs) a + (x - a) * peval (sdiv a (d # cs)) x)"
    by (subst peval.simps(2)) (simp only: 3)
  then show ?case by (simp only: ruffini_step peval.simps(2) sdiv.simps)
qed simp_all

lemma sdiv_zero: "\<forall>q\<in>set (sdiv a cs). q = 0 \<Longrightarrow> peval cs a = 0 \<Longrightarrow> \<forall>c\<in>set cs. c = 0"
proof (induction a cs rule: sdiv.induct)
  case (3 a c d cs)
  then have z: "peval (d # cs) a = 0" and s: "\<forall>x\<in>set (d # cs). x = 0" by auto
  have "peval (c # d # cs) a = c + a * peval (d # cs) a" by (rule peval.simps(2))
  then have "c = 0" using z "3.prems"(2) by simp
  with s show ?case by simp
qed simp_all

lemma peval_roots:
  "finite S \<Longrightarrow> length cs \<le> card S \<Longrightarrow> \<forall>x\<in>S. peval cs x = 0 \<Longrightarrow> \<forall>c\<in>set cs. c = 0"
proof (induction "length cs" arbitrary: cs S)
  case (Suc n)
  then obtain a where a: "a \<in> S" by (metis card.empty equals0I le_zero_eq nat.distinct(1))
  have "\<forall>x\<in>S - {a}. peval (sdiv a cs) x = 0"
  proof
    fix x assume x: "x \<in> S - {a}"
    then have "(x - a) * peval (sdiv a cs) x = 0" using Suc.prems(3) a peval_sdiv [of cs x a] by simp
    then show "peval (sdiv a cs) x = 0" using x by simp
  qed
  moreover have "n = length (sdiv a cs)" "length (sdiv a cs) \<le> card (S - {a})"
    using Suc.hyps(2) Suc.prems a by simp_all
  ultimately have "\<forall>q\<in>set (sdiv a cs). q = 0" using Suc.hyps(1) [of "sdiv a cs" "S - {a}"] Suc.prems(1) by simp
  then show ?case using sdiv_zero Suc.prems(3) a by blast
qed simp

definition polyfun :: "nat \<Rightarrow> ('a::field \<Rightarrow> 'a) \<Rightarrow> bool" where
  "polyfun n f \<longleftrightarrow> (\<exists>cs. length cs = n \<and> (\<forall>x. f x = peval cs x))"

lemma peval_zeros: "peval (replicate n 0) x = 0"
  by (induction n) simp_all

lemma peval_append: "peval (as @ bs) x = peval as x + x ^ length as * peval bs x"
  by (induction as) (simp_all add: algebra_simps)

lemma polyfun_peval: "length cs \<le> n \<Longrightarrow> polyfun n (peval cs)"
  unfolding polyfun_def
  by (rule exI [of _ "cs @ replicate (n - length cs) 0"]) (simp add: peval_append peval_zeros)

lemma peval_map2_add: "length as = length bs \<Longrightarrow> peval (map2 (+) as bs) x = peval as x + peval bs x"
  by (induction as bs rule: list_induct2) (simp_all add: algebra_simps)

lemma peval_map2_diff: "length as = length bs \<Longrightarrow> peval (map2 (-) as bs) x = peval as x - peval bs x"
proof (induction as bs rule: list_induct2)
  case (Cons a as b bs)
  have "(a - b) + x * (peval as x - peval bs x) = (a + x * peval as x) - (b + x * peval bs x)"
    by (simp add: algebra_simps)
  with Cons show ?case by simp
qed simp

lemma peval_scale: "peval (map ((*) a) cs) x = a * peval cs x"
  by (induction cs) (simp_all add: algebra_simps)

lemma polyfun_add: "polyfun n f \<Longrightarrow> polyfun n g \<Longrightarrow> polyfun n (\<lambda>x. f x + g x)"
  unfolding polyfun_def by (metis (no_types, lifting) length_map length_zip min.idem peval_map2_add)

lemma polyfun_scale: "polyfun n f \<Longrightarrow> polyfun n (\<lambda>x. a * f x)"
  unfolding polyfun_def by (metis length_map peval_scale)

lemma polyfun_zero: "polyfun n (\<lambda>x. 0)"
  unfolding polyfun_def by (rule exI [of _ "replicate n 0"]) (simp add: peval_zeros)

lemma polyfun_linear: "polyfun n f \<Longrightarrow> polyfun (Suc n) (\<lambda>x. (x - b) * f x)"
proof -
  assume "polyfun n f"
  then obtain cs where cs: "length cs = n" "f = peval cs" unfolding polyfun_def by auto
  have "polyfun (Suc n) (peval (0 # cs))" "polyfun (Suc n) (peval cs)" using cs by (auto intro: polyfun_peval)
  then have "polyfun (Suc n) (\<lambda>x. peval (0 # cs) x + (- b) * peval cs x)" by (intro polyfun_add polyfun_scale)
  then show ?thesis by (simp add: cs algebra_simps)
qed

lemma polyfun_prod: "finite T \<Longrightarrow> polyfun (Suc (card T)) (\<lambda>x. \<Prod>b\<in>T. x - b)"
proof (induction T rule: finite_induct)
  case empty
  have "peval [1 :: 'a] = (\<lambda>x. 1)" by (rule ext) simp
  then show ?case using polyfun_peval [of "[1 :: 'a]" 1] by simp
next
  case (insert b T)
  then show ?case using polyfun_linear [of "Suc (card T)" _ b] by simp
qed

lemma polyfun_sum: "finite A \<Longrightarrow> (\<And>a. a \<in> A \<Longrightarrow> polyfun n (f a)) \<Longrightarrow> polyfun n (\<lambda>x. \<Sum>a\<in>A. f a x)"
  by (induction A rule: finite_induct) (simp_all add: polyfun_zero polyfun_add)

definition lagrange :: "'a::field set \<Rightarrow> ('a \<Rightarrow> 'a) \<Rightarrow> 'a \<Rightarrow> 'a" where
  "lagrange X y x = (\<Sum>a\<in>X. (y a * inverse (\<Prod>b\<in>X - {a}. a - b)) * (\<Prod>b\<in>X - {a}. x - b))"

lemma polyfun_lagrange:
  assumes "finite X"
  shows "polyfun (card X) (lagrange X y)"
  unfolding lagrange_def
proof (rule polyfun_sum [OF assms])
  fix a assume "a \<in> X"
  then have "card X = Suc (card (X - {a}))" using assms by (metis card.remove)
  then show "polyfun (card X) (\<lambda>x. (y a * inverse (\<Prod>b\<in>X - {a}. a - b)) * (\<Prod>b\<in>X - {a}. x - b))"
    using polyfun_prod [of "X - {a}"] assms by (intro polyfun_scale) simp
qed

lemma lagrange_at:
  assumes "finite X" and "c \<in> X"
  shows "lagrange X y c = y c"
proof -
  have "(\<Prod>b\<in>X - {a}. c - b) = 0" if "a \<in> X - {c}" for a using assms that by (intro prod_zero) auto
  then have "lagrange X y c = (y c * inverse (\<Prod>b\<in>X - {c}. c - b)) * (\<Prod>b\<in>X - {c}. c - b)"
    unfolding lagrange_def by (subst sum.remove [OF assms]) simp
  moreover have "(\<Prod>b\<in>X - {c}. c - b) \<noteq> 0" using assms by (simp add: prod_zero_iff)
  ultimately show ?thesis by simp
qed

lemma lagrange_unique:
  assumes "finite X" and "length cs \<le> card X" and "\<And>a. a \<in> X \<Longrightarrow> peval cs a = y a"
  shows "peval cs x = lagrange X y x"
proof -
  obtain bs where bs: "length bs = card X" "\<And>x. lagrange X y x = peval bs x"
    using polyfun_lagrange [OF assms(1)] unfolding polyfun_def by auto
  obtain as where as: "length as = card X" "\<And>x. peval cs x = peval as x"
    using polyfun_peval [OF assms(2)] unfolding polyfun_def by auto
  have "\<forall>a\<in>X. peval (map2 (-) as bs) a = 0"
    using assms(3) as(1) bs(1) by (simp add: peval_map2_diff flip: as(2) bs(2)) (simp add: lagrange_at [OF assms(1)])
  then have z: "\<forall>c\<in>set (map2 (-) as bs). c = 0" using assms(1) as(1) bs(1) by (intro peval_roots [of X]) simp_all
  have "peval ds x = 0" if "\<forall>c\<in>set ds. c = 0" for ds using that by (induction ds) simp_all
  then have "peval (map2 (-) as bs) x = 0" using z by blast
  then show ?thesis using as bs by (simp add: peval_map2_diff)
qed

end
