(* ===== verification/Secret_Sharing.thy ===== *)
theory Secret_Sharing
  imports Galois_Byte Field_Polynomial Content_Hash
begin

text \<open>
  Identity recovery, \<^verbatim>\<open>dominion-core/src/recovery.rs\<close>: Shamir secret sharing over the field of bytes,
  the guardian quorum and the offline recovery code. Any threshold number of shares gives the secret
  back, one share less is consistent with every secret in exactly one way, a session is authorised only
  by enough distinct guardians of the policy, and a wrong offline code yields nothing.
\<close>

section \<open>Splitting and reconstructing\<close>

record share =
  sh_x :: u8
  sh_y :: bytes

definition eval_poly :: "bytes \<Rightarrow> u8 \<Rightarrow> u8" where
  "eval_poly coeffs x = foldl (\<lambda>acc c. gf_mul acc x XOR c) 0 (rev coeffs)"

definition split_coeffs :: "nat \<Rightarrow> nat \<Rightarrow> bytes \<Rightarrow> nat \<Rightarrow> u8 \<Rightarrow> bytes" where
  "split_coeffs k len rng_bytes byte_idx s = [s] @ map (\<lambda>j. rng_bytes ! ((j - 1) * len + byte_idx)) [1..<k]"

definition split_secret :: "bytes \<Rightarrow> nat \<Rightarrow> nat \<Rightarrow> bytes \<Rightarrow> share list option" where
  "split_secret secret k n rng_bytes =
    (if k = 0 \<or> k > n \<or> n > 255 then None
     else if length rng_bytes < (k - 1) * length secret then None
     else let shares = map (\<lambda>x. \<lparr>sh_x = word_of_nat x, sh_y = replicate (length secret) 0\<rparr>) [1..<Suc n]
          in Some (foldl (\<lambda>shares (byte_idx, s).
               let coeffs = split_coeffs k (length secret) rng_bytes byte_idx s
               in map (\<lambda>share. share\<lparr>sh_y := (sh_y share)[byte_idx := eval_poly coeffs (sh_x share)]\<rparr>) shares)
             shares (enumerate 0 secret)))"

fun valid_points :: "share list \<Rightarrow> bool" where
  "valid_points [] = True"
| "valid_points (a # rest) = (if sh_x a = 0 then False
     else if \<exists>b\<in>set rest. sh_x a = sh_x b then False else valid_points rest)"

definition lagrange_basis :: "share list \<Rightarrow> nat \<Rightarrow> share \<Rightarrow> u8" where
  "lagrange_basis shares i si =
    (let (num, den) = foldl (\<lambda>(num, den) (j, sj).
           if i \<noteq> j then (gf_mul num (sh_x sj), gf_mul den (sh_x sj XOR sh_x si)) else (num, den))
         (1, 1) (enumerate 0 shares)
     in gf_mul num (gf_inv den))"

definition reconstruct :: "share list \<Rightarrow> bytes option" where
  "reconstruct shares =
    (case shares of
       [] \<Rightarrow> None
     | first # _ \<Rightarrow>
         let len = length (sh_y first)
         in if \<exists>s\<in>set shares. length (sh_y s) \<noteq> len then None
            else if \<not> valid_points shares then None
            else Some (map (\<lambda>byte_idx.
                   foldl (\<lambda>acc (i, si). acc XOR gf_mul (sh_y si ! byte_idx) (lagrange_basis shares i si))
                     0 (enumerate 0 shares)) [0..<len]))"

section \<open>Guardians\<close>

record guardian_policy =
  gp_threshold :: nat
  gp_guardians :: "u64 list"

definition DEFAULT_RECOVERY_THRESHOLD :: nat where "DEFAULT_RECOVERY_THRESHOLD = 3"
definition DEFAULT_RECOVERY_GUARDIANS :: nat where "DEFAULT_RECOVERY_GUARDIANS = 5"
definition DEFAULT_VETO_WINDOW_US :: u64 where "DEFAULT_VETO_WINDOW_US = 72 * 60 * 60 * 1000000"

definition gp_canonical :: "u64 list \<Rightarrow> guardian_policy" where
  "gp_canonical guardians =
    (let n = min (length guardians) DEFAULT_RECOVERY_GUARDIANS;
         threshold = min DEFAULT_RECOVERY_THRESHOLD (max n 1)
     in \<lparr>gp_threshold = threshold, gp_guardians = take n guardians\<rparr>)"

record recovery_session =
  rs_policy :: guardian_policy
  rs_request :: bytes
  rs_approvals :: "u64 list"

definition rs_open :: "guardian_policy \<Rightarrow> bytes \<Rightarrow> recovery_session" where
  "rs_open policy request = \<lparr>rs_policy = policy, rs_request = request, rs_approvals = []\<rparr>"

definition rs_approve :: "u64 \<Rightarrow> bytes \<Rightarrow> recovery_session \<Rightarrow> bool \<times> recovery_session" where
  "rs_approve guardian approving s =
    (if approving \<noteq> rs_request s then (False, s)
     else if guardian \<notin> set (gp_guardians (rs_policy s)) then (False, s)
     else if guardian \<in> set (rs_approvals s) then (False, s)
     else (True, s\<lparr>rs_approvals := rs_approvals s @ [guardian]\<rparr>))"

definition rs_approval_count :: "recovery_session \<Rightarrow> nat" where
  "rs_approval_count s = length (rs_approvals s)"

definition rs_is_authorized :: "recovery_session \<Rightarrow> bool" where
  "rs_is_authorized s \<longleftrightarrow> length (rs_approvals s) \<ge> gp_threshold (rs_policy s)"

section \<open>The offline code\<close>

function keystream_loop :: "bytes \<Rightarrow> nat \<Rightarrow> u64 \<Rightarrow> bytes \<Rightarrow> bytes" where
  "keystream_loop key len counter out =
    (if length out < len
     then keystream_loop key len (counter + 1) (out @ hash_of (key @ le_bytes 8 counter))
     else out)"
  by pat_completeness auto
termination
  by (relation "measure (\<lambda>(_, len, _, out). len - length out)") (auto simp: length_hash_of)

declare keystream_loop.simps [simp del]

definition keystream :: "bytes \<Rightarrow> nat \<Rightarrow> bytes" where
  "keystream key len = take len (keystream_loop key len 0 [])"

record offline_recovery_code =
  oc_wrapped :: bytes
  oc_check :: bytes

definition oc_create :: "bytes \<Rightarrow> bytes \<Rightarrow> bytes \<times> offline_recovery_code" where
  "oc_create master_secret code_entropy =
    (let code = hash_of (ascii ''offline-code:'' @ code_entropy);
         key = hash_of (ascii ''offline-key:'' @ code);
         ks = keystream key (length master_secret);
         wrapped = map2 (XOR) master_secret ks;
         check = hash_of (ascii ''chk'' @ master_secret)
     in (code, \<lparr>oc_wrapped = wrapped, oc_check = check\<rparr>))"

definition oc_redeem :: "offline_recovery_code \<Rightarrow> bytes \<Rightarrow> bytes option" where
  "oc_redeem c code =
    (let key = hash_of (ascii ''offline-key:'' @ code);
         ks = keystream key (length (oc_wrapped c));
         master = map2 (XOR) (oc_wrapped c) ks
     in if hash_of (ascii ''chk'' @ master) = oc_check c then Some master else None)"


section \<open>Shares are points of a polynomial\<close>

lemma eval_poly_peval: "GF (eval_poly cs x) = peval (map GF cs) (GF x)"
proof -
  have "GF (foldr (\<lambda>c acc. gf_mul acc x XOR c) cs 0) = peval (map GF cs) (GF x)"
  proof (induction cs)
    case (Cons c cs)
    then show ?case by (simp add: plus_gf_def times_gf_def gf_mul_comm xor.commute) (metis gf.sel)
  qed (simp add: zero_gf_def)
  then show ?thesis by (simp add: eval_poly_def foldl_conv_foldr)
qed

lemma foldl_map_shares:
  "foldl (\<lambda>shares e. map (f e) shares) shares es = map (\<lambda>sh. foldl (\<lambda>sh e. f e sh) sh es) shares"
  by (induction es arbitrary: shares) (simp_all add: comp_def)

lemma fill_share:
  assumes "length (sh_y sh) = m + length ss"
  shows "foldl (\<lambda>sh (i, s). sh\<lparr>sh_y := (sh_y sh)[i := g i s (sh_x sh)]\<rparr>) sh (enumerate m ss)
    = sh\<lparr>sh_y := take m (sh_y sh) @ map (\<lambda>j. g (m + j) (ss ! j) (sh_x sh)) [0..<length ss]\<rparr>"
  using assms
proof (induction ss arbitrary: m sh)
  case (Cons s ss)
  let ?sh = "sh\<lparr>sh_y := (sh_y sh)[m := g m s (sh_x sh)]\<rparr>"
  have t: "take (Suc m) (sh_y ?sh) = take m (sh_y sh) @ [g m s (sh_x sh)]"
    using Cons.prems by (simp add: take_Suc_conv_app_nth)
  have u: "[0..<length (s # ss)] = 0 # map Suc [0..<length ss]" by (simp add: map_Suc_upt upt_conv_Cons del: upt_Suc)
  have "foldl (\<lambda>sh (i, s). sh\<lparr>sh_y := (sh_y sh)[i := g i s (sh_x sh)]\<rparr>) sh (enumerate m (s # ss))
      = ?sh\<lparr>sh_y := take (Suc m) (sh_y ?sh) @ map (\<lambda>j. g (Suc m + j) (ss ! j) (sh_x ?sh)) [0..<length ss]\<rparr>"
    using Cons.IH [of ?sh "Suc m"] Cons.prems by simp
  then show ?case unfolding t u by (simp add: comp_def)
qed simp

definition share_at :: "nat \<Rightarrow> bytes \<Rightarrow> bytes \<Rightarrow> nat \<Rightarrow> share" where
  "share_at k secret rng x = \<lparr>sh_x = word_of_nat x,
    sh_y = map (\<lambda>i. eval_poly (split_coeffs k (length secret) rng i (secret ! i)) (word_of_nat x)) [0..<length secret]\<rparr>"

lemma split_secret_eq:
  "split_secret secret k n rng =
    (if k = 0 \<or> k > n \<or> n > 255 \<or> length rng < (k - 1) * length secret then None
     else Some (map (share_at k secret rng) [1..<Suc n]))"
proof -
  let ?f = "\<lambda>(byte_idx, s) share. share\<lparr>sh_y := (sh_y share)[byte_idx :=
    eval_poly (split_coeffs k (length secret) rng byte_idx s) (sh_x share)]\<rparr>"
  have "foldl (\<lambda>sh e. ?f e sh) \<lparr>sh_x = word_of_nat x, sh_y = replicate (length secret) 0\<rparr> (enumerate 0 secret)
      = share_at k secret rng x" for x
    using fill_share [of "\<lparr>sh_x = word_of_nat x, sh_y = replicate (length secret) 0\<rparr>" 0 secret
        "\<lambda>i s x. eval_poly (split_coeffs k (length secret) rng i s) x"]
    by (simp add: share_at_def case_prod_unfold)
  then have "foldl (\<lambda>shares e. map (?f e) shares)
      (map (\<lambda>x. \<lparr>sh_x = word_of_nat x, sh_y = replicate (length secret) 0\<rparr>) [1..<Suc n]) (enumerate 0 secret)
      = map (share_at k secret rng) [1..<Suc n]"
    unfolding foldl_map_shares by simp
  then show ?thesis unfolding split_secret_def Let_def by (simp add: case_prod_unfold del: upt_Suc)
qed

section \<open>Interpolation\<close>

lemma valid_points_iff: "valid_points shares \<longleftrightarrow> 0 \<notin> set (map sh_x shares) \<and> distinct (map sh_x shares)"
  by (induction shares) auto

lemma basis_products:
  "foldl (\<lambda>(num, den) (j, sj). if i \<noteq> j then (gf_mul num (sh_x sj), gf_mul den (sh_x sj XOR sh_x si)) else (num, den))
      (num, den) es = (num', den') \<Longrightarrow>
    GF num' = GF num * prod_list (map (\<lambda>(j, sj). if i \<noteq> j then GF (sh_x sj) else 1) es)
    \<and> GF den' = GF den * prod_list (map (\<lambda>(j, sj). if i \<noteq> j then GF (sh_x sj) - GF (sh_x si) else 1) es)"
proof (induction es arbitrary: num den)
  case (Cons e es)
  obtain j sj where e: "e = (j, sj)" by (cases e)
  have m: "GF (gf_mul a b) = GF a * GF b" "GF (a XOR b) = GF a - GF b" for a b
    by (simp_all add: times_gf_def minus_gf_def)
  show ?case
  proof (cases "i = j")
    case True
    then show ?thesis using Cons e by simp
  next
    case False
    then show ?thesis using Cons.IH [of "gf_mul num (sh_x sj)" "gf_mul den (sh_x sj XOR sh_x si)"] Cons.prems e
      by (simp add: m mult.assoc)
  qed
qed simp

lemma prod_others:
  assumes "distinct (map sh_x shares)" and "i < length shares"
  shows "prod_list (map (\<lambda>(j, sj). if i \<noteq> j then f (GF (sh_x sj)) else 1) (enumerate 0 shares))
    = (\<Prod>b\<in>GF ` sh_x ` set shares - {GF (sh_x (shares ! i))}. f b)"
proof -
  let ?a = "GF (sh_x (shares ! i))" and ?xs = "map (\<lambda>s. GF (sh_x s)) shares"
  have d: "distinct ?xs" using assms(1) by (simp add: distinct_map inj_on_def)
  have "map (\<lambda>(j, sj). if i \<noteq> j then f (GF (sh_x sj)) else 1) (enumerate 0 shares)
      = map (\<lambda>b. if b = ?a then 1 else f b) ?xs"
  proof (rule nth_equalityI)
    fix j assume "j < length (map (\<lambda>(j, sj). if i \<noteq> j then f (GF (sh_x sj)) else 1) (enumerate 0 shares))"
    then have j: "j < length shares" by simp
    then have "?xs ! j = ?a \<longleftrightarrow> j = i" using d assms(2) by (metis (mono_tags, lifting) length_map nth_eq_iff_index_eq nth_map)
    then show "map (\<lambda>(j, sj). if i \<noteq> j then f (GF (sh_x sj)) else 1) (enumerate 0 shares) ! j
        = map (\<lambda>b. if b = ?a then 1 else f b) ?xs ! j"
      using j by (auto simp: nth_enumerate_eq)
  qed simp
  then have "prod_list (map (\<lambda>(j, sj). if i \<noteq> j then f (GF (sh_x sj)) else 1) (enumerate 0 shares))
      = prod_list (map (\<lambda>b. if b = ?a then 1 else f b) ?xs)" by (rule arg_cong)
  also have "\<dots> = (\<Prod>b\<in>set ?xs. if b = ?a then 1 else f b)" by (rule prod.distinct_set_conv_list [OF d, symmetric])
  also have "\<dots> = (\<Prod>b\<in>set ?xs - {?a}. f b)"
  proof -
    have "?a \<in> set ?xs" using assms(2) by simp
    then have "(\<Prod>b\<in>set ?xs. if b = ?a then 1 else f b) = (\<Prod>b\<in>set ?xs - {?a}. if b = ?a then 1 else f b)"
      by (subst prod.remove [of _ ?a]) simp_all
    also have "\<dots> = (\<Prod>b\<in>set ?xs - {?a}. f b)" by (rule prod.cong) auto
    finally show ?thesis .
  qed
  finally show ?thesis by (simp add: image_image)
qed

lemma lagrange_basis_eq:
  assumes "distinct (map sh_x shares)" and "i < length shares"
  defines "X \<equiv> GF ` sh_x ` set shares" defines "a \<equiv> GF (sh_x (shares ! i))"
  shows "GF (lagrange_basis shares i (shares ! i))
    = inverse (\<Prod>b\<in>X - {a}. a - b) * (\<Prod>b\<in>X - {a}. 0 - b)"
proof -
  obtain num den where nd: "foldl (\<lambda>(num, den) (j, sj).
      if i \<noteq> j then (gf_mul num (sh_x sj), gf_mul den (sh_x sj XOR sh_x (shares ! i))) else (num, den))
      (1, 1) (enumerate 0 shares) = (num, den)" by fastforce
  have "GF num = (\<Prod>b\<in>X - {a}. b)" "GF den = (\<Prod>b\<in>X - {a}. b - a)"
    using basis_products [OF nd] prod_others [OF assms(1,2), of "\<lambda>b. b"] prod_others [OF assms(1,2), of "\<lambda>b. b - a"]
    unfolding X_def a_def by (simp_all flip: one_gf_def)
  moreover have "(\<Prod>b\<in>X - {a}. b) = (\<Prod>b\<in>X - {a}. 0 - b)" "(\<Prod>b\<in>X - {a}. b - a) = (\<Prod>b\<in>X - {a}. a - b)"
    by (rule prod.cong; simp add: gf_minus uminus_gf_def add.commute)+
  moreover have "GF (lagrange_basis shares i (shares ! i)) = GF num * inverse (GF den)"
    by (simp add: lagrange_basis_def nd times_gf_def inverse_gf_def)
  ultimately show ?thesis by (simp add: mult.commute)
qed


lemma xor_sum: "GF (foldl (\<lambda>acc e. acc XOR f e) acc es) = GF acc + sum_list (map (\<lambda>e. GF (f e)) es)"
proof (induction es arbitrary: acc)
  case (Cons e es)
  have "GF (acc XOR f e) = GF acc + GF (f e)" by (simp add: plus_gf_def)
  then show ?case using Cons [of "acc XOR f e"] by (simp add: add.assoc)
qed simp

lemma interpolate_at_zero:
  assumes "distinct (map sh_x shares)" and "\<And>s. s \<in> set shares \<Longrightarrow> GF (sh_y s ! j) = y (GF (sh_x s))"
  shows "GF (foldl (\<lambda>acc (i, si). acc XOR gf_mul (sh_y si ! j) (lagrange_basis shares i si)) 0 (enumerate 0 shares))
    = lagrange (GF ` sh_x ` set shares) y 0"
proof -
  let ?xs = "map (\<lambda>s. GF (sh_x s)) shares" and ?X = "GF ` sh_x ` set shares"
  let ?g = "\<lambda>a. (y a * inverse (\<Prod>b\<in>?X - {a}. a - b)) * (\<Prod>b\<in>?X - {a}. 0 - b)"
  have d: "distinct ?xs" using assms(1) by (simp add: distinct_map inj_on_def)
  have "map (\<lambda>e. GF (case e of (i, si) \<Rightarrow> gf_mul (sh_y si ! j) (lagrange_basis shares i si))) (enumerate 0 shares) = map ?g ?xs"
  proof (rule nth_equalityI)
    fix i assume "i < length (map (\<lambda>e. GF (case e of (i, si) \<Rightarrow> gf_mul (sh_y si ! j) (lagrange_basis shares i si))) (enumerate 0 shares))"
    then have i: "i < length shares" by simp
    have "GF (gf_mul (sh_y (shares ! i) ! j) (lagrange_basis shares i (shares ! i)))
        = GF (sh_y (shares ! i) ! j) * GF (lagrange_basis shares i (shares ! i))" by (simp add: times_gf_def)
    also have "\<dots> = ?g (GF (sh_x (shares ! i)))"
      using assms(2) [of "shares ! i"] lagrange_basis_eq [OF assms(1) i] i by (simp add: mult.assoc)
    finally show "map (\<lambda>e. GF (case e of (i, si) \<Rightarrow> gf_mul (sh_y si ! j) (lagrange_basis shares i si))) (enumerate 0 shares) ! i
        = map ?g ?xs ! i"
      using i by (simp add: nth_enumerate_eq)
  qed simp
  then have "sum_list (map (\<lambda>e. GF (case e of (i, si) \<Rightarrow> gf_mul (sh_y si ! j) (lagrange_basis shares i si))) (enumerate 0 shares))
      = sum_list (map ?g ?xs)" by (rule arg_cong)
  also have "\<dots> = (\<Sum>a\<in>set ?xs. ?g a)" by (rule sum.distinct_set_conv_list [OF d, symmetric])
  also have "\<dots> = lagrange ?X y 0" by (simp add: lagrange_def image_image)
  finally show ?thesis
    using xor_sum [of "\<lambda>e. case e of (i, si) \<Rightarrow> gf_mul (sh_y si ! j) (lagrange_basis shares i si)" 0 "enumerate 0 shares"]
    by (simp add: case_prod_unfold flip: zero_gf_def)
qed

definition coeffs_at :: "nat \<Rightarrow> bytes \<Rightarrow> bytes \<Rightarrow> nat \<Rightarrow> gf list" where
  "coeffs_at k secret rng i = map GF (split_coeffs k (length secret) rng i (secret ! i))"

lemma length_coeffs_at: "0 < k \<Longrightarrow> length (coeffs_at k secret rng i) = k"
  by (simp add: coeffs_at_def split_coeffs_def)

lemma hd_coeffs_at: "peval (coeffs_at k secret rng i) 0 = GF (secret ! i)"
  by (simp add: coeffs_at_def split_coeffs_def)

lemma share_at_y: "i < length secret \<Longrightarrow> GF (sh_y (share_at k secret rng x) ! i)
    = peval (coeffs_at k secret rng i) (GF (word_of_nat x))"
  by (simp add: share_at_def eval_poly_peval coeffs_at_def)

lemma share_points: "x \<in> set [1..<Suc n] \<Longrightarrow> n \<le> 255 \<Longrightarrow> (word_of_nat x :: u8) \<noteq> 0"
  and share_points_inj: "n \<le> 255 \<Longrightarrow> inj_on (word_of_nat :: nat \<Rightarrow> u8) (set [1..<Suc n])"
proof -
  have u: "unat (word_of_nat x :: u8) = x" if "x \<le> 255" for x
    using that by (simp add: unsigned_of_nat take_bit_nat_eq_self)
  show "(word_of_nat x :: u8) \<noteq> 0" if "x \<in> set [1..<Suc n]" "n \<le> 255"
  proof
    assume "(word_of_nat x :: u8) = 0"
    then have "unat (word_of_nat x :: u8) = 0" by (simp only: unsigned_0)
    moreover have "x \<le> 255" "1 \<le> x" using that by auto
    ultimately show False using u [of x] by linarith
  qed
  show "inj_on (word_of_nat :: nat \<Rightarrow> u8) (set [1..<Suc n])" if "n \<le> 255"
  proof (rule inj_onI)
    fix x y assume "x \<in> set [1..<Suc n]" "y \<in> set [1..<Suc n]" "(word_of_nat x :: u8) = word_of_nat y"
    moreover have "x \<le> 255" "y \<le> 255" using that calculation(1,2) by auto
    ultimately show "x = y" using u [of x] u [of y] by metis
  qed
qed

text \<open>
  C28: Whatever shares are chosen from a split and in whatever order, as soon as there are at least
  threshold many distinct ones the reconstruction returns exactly the secret.
\<close>

theorem threshold_shares_reconstruct:
  assumes "split_secret secret k n rng = Some shares"
    and "set chosen \<subseteq> set shares" and "distinct chosen" and "k \<le> length chosen"
  shows "reconstruct chosen = Some secret"
proof -
  have k: "0 < k" "n \<le> 255" and sh: "shares = map (share_at k secret rng) [1..<Suc n]"
    using assms(1) by (auto simp: split_secret_eq split: if_splits)
  have mem: "\<exists>x\<in>set [1..<Suc n]. s = share_at k secret rng x" if "s \<in> set chosen" for s
    using assms(2) that unfolding sh by auto
  have xof: "sh_x (share_at k secret rng x) = word_of_nat x" for x by (simp add: share_at_def)
  have inj: "inj_on sh_x (set chosen)"
  proof (rule inj_onI)
    fix s t assume st: "s \<in> set chosen" "t \<in> set chosen" "sh_x s = sh_x t"
    obtain x y where xy: "x \<in> set [1..<Suc n]" "s = share_at k secret rng x" "y \<in> set [1..<Suc n]" "t = share_at k secret rng y"
      using mem st(1,2) by meson
    then have "(word_of_nat x :: u8) = word_of_nat y" using st(3) by (simp only: xof)
    then have "x = y" using inj_onD [OF share_points_inj [OF k(2)]] xy by blast
    then show "s = t" using xy by simp
  qed
  then have d: "distinct (map sh_x chosen)" using assms(3) by (simp add: distinct_map)
  have z: "0 \<notin> set (map sh_x chosen)" 
  proof
    assume "0 \<in> set (map sh_x chosen)"
    then obtain s where "s \<in> set chosen" "sh_x s = 0" by auto
    then show False using mem share_points [OF _ k(2)] xof by metis
  qed
  have len: "length (sh_y s) = length secret" if "s \<in> set chosen" for s using mem [OF that] by (auto simp: share_at_def)
  have c: "card (GF ` sh_x ` set chosen) = length chosen"
    using inj assms(3) by (simp add: card_image inj_on_def distinct_card)
  have "foldl (\<lambda>acc (i, si). acc XOR gf_mul (sh_y si ! j) (lagrange_basis chosen i si)) 0 (enumerate 0 chosen) = secret ! j"
    if j: "j < length secret" for j
  proof -
    let ?cs = "coeffs_at k secret rng j"
    have y: "GF (sh_y s ! j) = peval ?cs (GF (sh_x s))" if "s \<in> set chosen" for s
      using mem [OF that] share_at_y [OF j] by (auto simp: xof)
    have "lagrange (GF ` sh_x ` set chosen) (peval ?cs) 0 = peval ?cs 0"
      using length_coeffs_at [OF k(1)] assms(4) c by (intro lagrange_unique [symmetric]) simp_all
    then show ?thesis using interpolate_at_zero [OF d y] by (simp add: hd_coeffs_at)
  qed
  then have "map (\<lambda>j. foldl (\<lambda>acc (i, si). acc XOR gf_mul (sh_y si ! j) (lagrange_basis chosen i si)) 0 (enumerate 0 chosen))
      [0..<length secret] = secret" by (intro nth_equalityI) simp_all
  moreover obtain first rest where "chosen = first # rest" using assms(4) k(1) by (cases chosen) auto
  ultimately show ?thesis using d z len by (auto simp: reconstruct_def valid_points_iff Let_def)
qed


section \<open>Secrecy\<close>

lemma interpolating_list:
  assumes "finite X"
  shows "\<exists>!cs. length cs = card X \<and> (\<forall>a\<in>X. peval cs a = y a)"
proof -
  obtain cs where cs: "length cs = card X" "\<forall>x. lagrange X y x = peval cs x"
    using polyfun_lagrange [OF assms] unfolding polyfun_def by auto
  show ?thesis
  proof (rule ex1I [of _ cs])
    show "length cs = card X \<and> (\<forall>a\<in>X. peval cs a = y a)" using cs lagrange_at [OF assms] by metis
    fix ds assume ds: "length ds = card X \<and> (\<forall>a\<in>X. peval ds a = y a)"
    have "peval ds a = peval cs a" if "a \<in> X" for a using ds cs(2) lagrange_at [OF assms that] that by metis
    then have "\<forall>a\<in>X. peval (map2 (-) ds cs) a = 0" using ds cs(1) by (simp add: peval_map2_diff)
    then have "\<forall>c\<in>set (map2 (-) ds cs). c = 0" using assms ds cs(1) by (intro peval_roots [of X]) simp_all
    moreover have "map2 (-) ds cs ! i \<in> set (map2 (-) ds cs)" if "i < card X" for i
      using that ds cs(1) by (intro nth_mem) simp
    ultimately have "map2 (-) ds cs ! i = 0" if "i < card X" for i using that by blast
    then have "ds ! i - cs ! i = 0" if "i < card X" for i using that ds cs(1) by simp
    then show "ds = cs" using ds cs(1) by (intro nth_equalityI) simp_all
  qed
qed

lemma coeffs_at_Suc:
  "j < k - 1 \<Longrightarrow> coeffs_at k secret rng i ! Suc j = GF (rng ! (j * length secret + i))"
  by (simp add: coeffs_at_def split_coeffs_def)

lemma share_at_eq_iff:
  assumes "length secret' = length secret"
  shows "share_at k secret' rng' x = share_at k secret rng x \<longleftrightarrow>
    (\<forall>i<length secret. peval (coeffs_at k secret' rng' i) (GF (word_of_nat x)) = peval (coeffs_at k secret rng i) (GF (word_of_nat x)))"
proof -
  have "share_at k secret' rng' x = share_at k secret rng x \<longleftrightarrow>
      (\<forall>i<length secret. GF (sh_y (share_at k secret' rng' x) ! i) = GF (sh_y (share_at k secret rng x) ! i))"
    using assms by (auto simp: share_at_def)
  then show ?thesis using assms by (simp add: share_at_y)
qed

lemma rng_of_coeffs:
  assumes "length rng = (k - 1) * len" and "length rng' = (k - 1) * len"
    and "\<And>i j. i < len \<Longrightarrow> j < k - 1 \<Longrightarrow> rng ! (j * len + i) = rng' ! (j * len + i)"
  shows "rng = rng'"
proof (rule nth_equalityI)
  fix m assume "m < length rng"
  then have m: "m < (k - 1) * len" using assms(1) by simp
  then have "0 < len" by (cases len) auto
  then have "m mod len < len" "m div len < k - 1" using m by (simp_all add: less_mult_imp_div_less)
  then show "rng ! m = rng' ! m" using assms(3) [of "m mod len" "m div len"] by simp
qed (simp add: assms)

definition known_points :: "nat set \<Rightarrow> gf set" where
  "known_points T = insert 0 ((\<lambda>i. GF (word_of_nat (Suc i))) ` T)"

lemma known_points:
  assumes "T \<subseteq> {..<n}" and "n \<le> 255"
  shows "finite (known_points T)" and "card (known_points T) = Suc (card T)"
    and "\<And>i. i \<in> T \<Longrightarrow> GF (word_of_nat (Suc i)) \<noteq> 0"
proof -
  let ?pt = "\<lambda>i. GF (word_of_nat (Suc i))"
  have fin: "finite T" using assms(1) finite_subset by blast
  show pt0: "?pt i \<noteq> 0" if "i \<in> T" for i
  proof -
    have "Suc i \<in> set [1..<Suc n]" using assms(1) that by auto
    then have "(word_of_nat (Suc i) :: u8) \<noteq> 0" using assms(2) by (rule share_points)
    then show ?thesis unfolding zero_gf_def by simp
  qed
  have "inj_on ?pt T"
  proof (rule inj_onI)
    fix i j assume ij: "i \<in> T" "j \<in> T" "?pt i = ?pt j"
    then have "Suc i \<in> set [1..<Suc n]" "Suc j \<in> set [1..<Suc n]" using assms(1) by auto
    then have "Suc i = Suc j" using ij(3) by (intro inj_onD [OF share_points_inj [OF assms(2)]]) simp_all
    then show "i = j" by simp
  qed
  then show "finite (known_points T)" "card (known_points T) = Suc (card T)"
    using fin pt0 unfolding known_points_def by (auto simp: card_image card_insert_if)
qed

text \<open>The random bytes from the coefficient lists, and back.\<close>

definition rng_from :: "nat \<Rightarrow> nat \<Rightarrow> (nat \<Rightarrow> gf list) \<Rightarrow> bytes" where
  "rng_from k len cs = map (\<lambda>m. gf_byte (cs (m mod len) ! Suc (m div len))) [0..<(k - 1) * len]"

lemma nth_rng_from:
  assumes "i < len" and "j < k - 1"
  shows "rng_from k len cs ! (j * len + i) = gf_byte (cs i ! Suc j)"
proof -
  have "j * len + i < (j + 1) * len" using assms(1) by simp
  also have "\<dots> \<le> (k - 1) * len" using assms(2) by (intro mult_le_mono) simp_all
  finally have "j * len + i < (k - 1) * len" .
  moreover have "(j * len + i) div len = j" using assms(1) by (intro div_nat_eqI) (simp_all add: mult.commute)
  ultimately show ?thesis using assms(1) unfolding rng_from_def by simp
qed

lemma coeffs_of_rng_from:
  assumes "0 < k" and "i < length secret" and "length (cs i) = k" and "peval (cs i) 0 = GF (secret ! i)"
  shows "coeffs_at k secret (rng_from k (length secret) cs) i = cs i"
proof (rule nth_equalityI)
  fix j assume "j < length (coeffs_at k secret (rng_from k (length secret) cs) i)"
  then have j: "j < k" by (simp add: length_coeffs_at [OF assms(1)])
  show "coeffs_at k secret (rng_from k (length secret) cs) i ! j = cs i ! j"
  proof (cases j)
    case 0
    then show ?thesis using assms(1,3,4) by (cases "cs i") (auto simp: coeffs_at_def split_coeffs_def)
  next
    case (Suc m)
    then show ?thesis using coeffs_at_Suc [of m k secret] nth_rng_from [OF assms(2), of m k cs] j by simp
  qed
qed (simp add: assms length_coeffs_at)

lemma unique_rng:
  assumes "0 < k" and "\<And>i. i < length secret \<Longrightarrow> length (cs i) = k \<and> peval (cs i) 0 = GF (secret ! i)"
  shows "\<exists>!rng. length rng = (k - 1) * length secret \<and> (\<forall>i<length secret. coeffs_at k secret rng i = cs i)"
proof (rule ex1I [of _ "rng_from k (length secret) cs"])
  show "length (rng_from k (length secret) cs) = (k - 1) * length secret
      \<and> (\<forall>i<length secret. coeffs_at k secret (rng_from k (length secret) cs) i = cs i)"
    using assms coeffs_of_rng_from by (simp add: rng_from_def)
  fix r assume r: "length r = (k - 1) * length secret \<and> (\<forall>i<length secret. coeffs_at k secret r i = cs i)"
  show "r = rng_from k (length secret) cs"
  proof (rule rng_of_coeffs [of _ k "length secret"])
    fix i j assume "i < length secret" "j < k - 1"
    then show "r ! (j * length secret + i) = rng_from k (length secret) cs ! (j * length secret + i)"
      using r coeffs_at_Suc [of j k secret r i] nth_rng_from [of i "length secret" j k cs] by (metis gf.sel)
  qed (use r in \<open>simp_all add: rng_from_def\<close>)
qed

text \<open>
  C29: One share less than the threshold reveals nothing: whatever \<open>k - 1\<close> shares are known, every other
  secret of the same length is consistent with them, through exactly one choice of the random bytes. So
  with uniform random bytes the known shares are independent of the secret.
\<close>

theorem fewer_shares_reveal_nothing:
  assumes "split_secret secret k n rng = Some shares" and "length rng = (k - 1) * length secret"
    and "T \<subseteq> {..<n}" and "card T = k - 1" and "length secret' = length secret"
  shows "\<exists>!rng'. length rng' = (k - 1) * length secret \<and>
    (\<exists>shares'. split_secret secret' k n rng' = Some shares' \<and> (\<forall>i\<in>T. shares' ! i = shares ! i))"
proof -
  let ?X = "known_points T"
  have k: "0 < k" "n \<le> 255" "k \<le> n" and sh: "shares = map (share_at k secret rng) [1..<Suc n]"
    using assms(1) by (auto simp: split_secret_eq split: if_splits)
  note X = known_points [OF assms(3) k(2)]
  have cX: "card ?X = k" using X(2) assms(4) k(1) by simp
  define y where "y i a = (if a = 0 then GF (secret' ! i) else peval (coeffs_at k secret rng i) a)" for i a
  have uni: "\<exists>!cs. length cs = k \<and> (\<forall>a\<in>?X. peval cs a = y i a)" for i
    using interpolating_list [OF X(1), of "y i"] cX by simp
  then have "\<forall>i. \<exists>cs. length cs = k \<and> (\<forall>a\<in>?X. peval cs a = y i a)" by blast
  then obtain cs where cs: "\<And>i. length (cs i) = k \<and> (\<forall>a\<in>?X. peval (cs i) a = y i a)"
    using choice [of "\<lambda>i cs. length cs = k \<and> (\<forall>a\<in>?X. peval cs a = y i a)"] by blast
  have agree: "(\<exists>shares'. split_secret secret' k n rng' = Some shares' \<and> (\<forall>i\<in>T. shares' ! i = shares ! i))
      \<longleftrightarrow> (\<forall>i<length secret'. coeffs_at k secret' rng' i = cs i)" if l: "length rng' = (k - 1) * length secret'" for rng'
  proof -
    have "(\<exists>shares'. split_secret secret' k n rng' = Some shares' \<and> (\<forall>i\<in>T. shares' ! i = shares ! i))
        \<longleftrightarrow> (\<forall>t\<in>T. share_at k secret' rng' (Suc t) = share_at k secret rng (Suc t))"
      using assms(3,5) k l unfolding sh split_secret_eq by (auto simp: subset_eq nth_append simp del: upt_Suc)
    also have "\<dots> \<longleftrightarrow> (\<forall>i<length secret'. \<forall>a\<in>?X. peval (coeffs_at k secret' rng' i) a = y i a)"
      using X(3) assms(5) by (auto simp: share_at_eq_iff [OF assms(5)] known_points_def y_def hd_coeffs_at)
    also have "\<dots> \<longleftrightarrow> (\<forall>i<length secret'. coeffs_at k secret' rng' i = cs i)"
      using uni cs length_coeffs_at [OF k(1)] by (metis (no_types, lifting))
    finally show ?thesis .
  qed
  have "length (cs i) = k \<and> peval (cs i) 0 = GF (secret' ! i)" for i using cs [of i] by (simp add: known_points_def y_def)
  then have u: "\<exists>!rng'. length rng' = (k - 1) * length secret' \<and> (\<forall>i<length secret'. coeffs_at k secret' rng' i = cs i)"
    by (intro unique_rng [OF k(1)])
  have "(length r = (k - 1) * length secret \<and>
      (\<exists>shares'. split_secret secret' k n r = Some shares' \<and> (\<forall>i\<in>T. shares' ! i = shares ! i)))
    \<longleftrightarrow> (length r = (k - 1) * length secret' \<and> (\<forall>i<length secret'. coeffs_at k secret' r i = cs i))" for r
    using agree [of r] assms(5) by auto
  then show ?thesis using u by (simp only:)
qed

theorem threshold_shares_reconstruct_witness:
  "\<exists>shares. split_secret [42, 7] 2 3 [5, 9] = Some shares \<and> reconstruct [shares ! 2, shares ! 0] = Some [42, 7]"
proof -
  obtain shares where s: "split_secret [42, 7] 2 3 [5, 9] = Some shares" by (simp add: split_secret_eq)
  then have sh: "shares = map (share_at 2 [42, 7] [5, 9]) [1, 2, 3]" by (auto simp: split_secret_eq upt_rec numeral_2_eq_2 numeral_3_eq_3)
  have "reconstruct [shares ! 2, shares ! 0] = Some [42, 7]"
    by (rule threshold_shares_reconstruct [OF s]) (simp_all add: sh share_at_def)
  with s show ?thesis by blast
qed

theorem fewer_shares_reveal_nothing_witness:
  "\<exists>shares. split_secret [42, 7] 2 3 [5, 9] = Some shares \<and>
    (\<exists>!rng'. length rng' = 2 \<and>
      (\<exists>shares'. split_secret [0, 1] 2 3 rng' = Some shares' \<and> shares' ! 1 = shares ! 1))"
proof -
  obtain shares where s: "split_secret [42, 7] 2 3 [5, 9] = Some shares" by (simp add: split_secret_eq)
  show ?thesis using fewer_shares_reveal_nothing [OF s, of "{1}" "[0, 1]"] s by (simp add: numeral_2_eq_2)
qed


section \<open>Quorum and offline recovery\<close>

definition rs_run :: "recovery_session \<Rightarrow> (u64 \<times> bytes) list \<Rightarrow> recovery_session" where
  "rs_run s calls = foldl (\<lambda>s (g, approving). snd (rs_approve g approving s)) s calls"

lemma rs_run_approvals:
  assumes "distinct (rs_approvals s)"
  shows "distinct (rs_approvals (rs_run s calls))
    \<and> set (rs_approvals (rs_run s calls))
        = set (rs_approvals s) \<union> {g \<in> set (gp_guardians (rs_policy s)). (g, rs_request s) \<in> set calls}
    \<and> rs_policy (rs_run s calls) = rs_policy s"
  using assms
proof (induction calls arbitrary: s)
  case (Cons c calls)
  obtain g a where c: "c = (g, a)" by (cases c)
  let ?s = "snd (rs_approve g a s)"
  have "distinct (rs_approvals ?s)" "rs_policy ?s = rs_policy s" "rs_request ?s = rs_request s"
    "set (rs_approvals ?s) = set (rs_approvals s) \<union> {h \<in> set (gp_guardians (rs_policy s)). (h, rs_request s) = c}"
    using Cons.prems by (auto simp: rs_approve_def c)
  then show ?case using Cons.IH [of ?s] by (auto simp: rs_run_def c)
qed (simp add: rs_run_def)

text \<open>
  After any sequence of approval calls a recovery session is authorised exactly if the number of
  distinct guardians of the policy that approved exactly this request reaches the threshold: repeated
  approvals, strangers and approvals of other requests never count.
\<close>

theorem recovery_needs_quorum:
  "rs_is_authorized (rs_run (rs_open policy request) calls) \<longleftrightarrow>
    gp_threshold policy \<le> card {g \<in> set (gp_guardians policy). (g, request) \<in> set calls}"
proof -
  let ?s = "rs_run (rs_open policy request) calls"
  have "distinct (rs_approvals ?s)" "rs_policy ?s = policy"
    "set (rs_approvals ?s) = {g \<in> set (gp_guardians policy). (g, request) \<in> set calls}"
    using rs_run_approvals [of "rs_open policy request" calls] by (simp_all add: rs_open_def)
  then show ?thesis by (metis distinct_card rs_is_authorized_def)
qed

lemma length_keystream_loop: "length out \<le> len + 31 \<Longrightarrow> len \<le> length (keystream_loop key len counter out)"
  by (induction key len counter out rule: keystream_loop.induct) (subst keystream_loop.simps, auto simp: length_hash_of)

lemma length_keystream [simp]: "length (keystream key len) = len"
  using length_keystream_loop [of "[]" len key 0] by (simp add: keystream_def)

lemma xor_twice: "length ks = length m \<Longrightarrow> map2 (XOR) (map2 (XOR) m ks) ks = (m :: bytes)"
  by (induction m ks rule: list_induct2') (simp_all add: xor.assoc)

text \<open>
  The offline code recovers exactly the master secret, and a code that recovers anything else would
  exhibit a collision of the hash.
\<close>

theorem offline_code_recovers:
  "case oc_create master entropy of (code, c) \<Rightarrow>
    oc_redeem c code = Some master \<and>
    (\<forall>code' m. oc_redeem c code' = Some m \<longrightarrow> m = master \<or> hash_of (ascii ''chk'' @ m) = hash_of (ascii ''chk'' @ master))"
  by (simp add: oc_create_def oc_redeem_def Let_def xor_twice)

end
