(* ===== verification/Aes_Gcm.thy ===== *)
theory Aes_Gcm
  imports Chacha_Poly
begin

text \<open>
  Authenticated encryption with AES and memory kept encrypted at rest,
  \<^verbatim>\<open>dominion-core/src/memcrypt.rs\<close>: the AES key schedule and the table-driven block encryption, GHASH
  with four-bit tables, fused AES-GCM and the sealed region. Blocks and keys are byte lists, columns are
  32-bit words and GHASH works on 64-bit halves of a 128-bit word, as in the code.
\<close>

section \<open>AES\<close>

type_synonym u128 = "128 word"

definition SBOX :: bytes where
  "SBOX = [
    0x63, 0x7c, 0x77, 0x7b, 0xf2, 0x6b, 0x6f, 0xc5, 0x30, 0x01, 0x67, 0x2b, 0xfe, 0xd7, 0xab, 0x76,
    0xca, 0x82, 0xc9, 0x7d, 0xfa, 0x59, 0x47, 0xf0, 0xad, 0xd4, 0xa2, 0xaf, 0x9c, 0xa4, 0x72, 0xc0,
    0xb7, 0xfd, 0x93, 0x26, 0x36, 0x3f, 0xf7, 0xcc, 0x34, 0xa5, 0xe5, 0xf1, 0x71, 0xd8, 0x31, 0x15,
    0x04, 0xc7, 0x23, 0xc3, 0x18, 0x96, 0x05, 0x9a, 0x07, 0x12, 0x80, 0xe2, 0xeb, 0x27, 0xb2, 0x75,
    0x09, 0x83, 0x2c, 0x1a, 0x1b, 0x6e, 0x5a, 0xa0, 0x52, 0x3b, 0xd6, 0xb3, 0x29, 0xe3, 0x2f, 0x84,
    0x53, 0xd1, 0x00, 0xed, 0x20, 0xfc, 0xb1, 0x5b, 0x6a, 0xcb, 0xbe, 0x39, 0x4a, 0x4c, 0x58, 0xcf,
    0xd0, 0xef, 0xaa, 0xfb, 0x43, 0x4d, 0x33, 0x85, 0x45, 0xf9, 0x02, 0x7f, 0x50, 0x3c, 0x9f, 0xa8,
    0x51, 0xa3, 0x40, 0x8f, 0x92, 0x9d, 0x38, 0xf5, 0xbc, 0xb6, 0xda, 0x21, 0x10, 0xff, 0xf3, 0xd2,
    0xcd, 0x0c, 0x13, 0xec, 0x5f, 0x97, 0x44, 0x17, 0xc4, 0xa7, 0x7e, 0x3d, 0x64, 0x5d, 0x19, 0x73,
    0x60, 0x81, 0x4f, 0xdc, 0x22, 0x2a, 0x90, 0x88, 0x46, 0xee, 0xb8, 0x14, 0xde, 0x5e, 0x0b, 0xdb,
    0xe0, 0x32, 0x3a, 0x0a, 0x49, 0x06, 0x24, 0x5c, 0xc2, 0xd3, 0xac, 0x62, 0x91, 0x95, 0xe4, 0x79,
    0xe7, 0xc8, 0x37, 0x6d, 0x8d, 0xd5, 0x4e, 0xa9, 0x6c, 0x56, 0xf4, 0xea, 0x65, 0x7a, 0xae, 0x08,
    0xba, 0x78, 0x25, 0x2e, 0x1c, 0xa6, 0xb4, 0xc6, 0xe8, 0xdd, 0x74, 0x1f, 0x4b, 0xbd, 0x8b, 0x8a,
    0x70, 0x3e, 0xb5, 0x66, 0x48, 0x03, 0xf6, 0x0e, 0x61, 0x35, 0x57, 0xb9, 0x86, 0xc1, 0x1d, 0x9e,
    0xe1, 0xf8, 0x98, 0x11, 0x69, 0xd9, 0x8e, 0x94, 0x9b, 0x1e, 0x87, 0xe9, 0xce, 0x55, 0x28, 0xdf,
    0x8c, 0xa1, 0x89, 0x0d, 0xbf, 0xe6, 0x42, 0x68, 0x41, 0x99, 0x2d, 0x0f, 0xb0, 0x54, 0xbb, 0x16]"

definition RCON :: bytes where
  "RCON = [0x00, 0x01, 0x02, 0x04, 0x08, 0x10, 0x20, 0x40, 0x80, 0x1b, 0x36]"

record aes =
  ae_round_keys :: "u32 list list"
  ae_rounds :: nat

definition aes_xtime :: "u8 \<Rightarrow> u8" where
  "aes_xtime x = (let h = drop_bit 7 x in push_bit 1 x XOR (h * 0x1b))"

definition te_entry :: "u8 \<Rightarrow> u32" where
  "te_entry sb =
    (let s = ucast sb :: u32;
         s2 = ucast (aes_xtime sb) :: u32;
         s3 = s2 XOR s
     in s2 OR push_bit 8 s OR push_bit 16 s OR push_bit 24 s3)"

definition build_te0 :: "u32 list" where
  "build_te0 = map (\<lambda>i. te_entry (SBOX ! i)) [0..<256]"

definition rotl_table :: "u32 list \<Rightarrow> nat \<Rightarrow> u32 list" where
  "rotl_table src n = map (\<lambda>i. word_rotl n (src ! i)) [0..<256]"

definition TE0 :: "u32 list" where "TE0 = build_te0"
definition TE1 :: "u32 list" where "TE1 = rotl_table TE0 8"
definition TE2 :: "u32 list" where "TE2 = rotl_table TE0 16"
definition TE3 :: "u32 list" where "TE3 = rotl_table TE0 24"

definition sub_word :: "bytes \<Rightarrow> bytes" where
  "sub_word t = map (\<lambda>b. SBOX ! unat b) t"

definition schedule_word :: "nat \<Rightarrow> bytes list \<Rightarrow> nat \<Rightarrow> bytes list" where
  "schedule_word nk w i =
    (let temp = w ! (i - 1);
         temp = (if i mod nk = 0
                 then let temp = [temp ! 1, temp ! 2, temp ! 3, temp ! 0];
                          temp = sub_word temp
                      in temp[0 := temp ! 0 XOR RCON ! (i div nk)]
                 else if nk > 6 \<and> i mod nk = 4 then sub_word temp
                 else temp)
     in w[i := map (\<lambda>j. w ! (i - nk) ! j XOR temp ! j) [0..<4]])"

definition aes_expand :: "bytes \<Rightarrow> nat \<Rightarrow> nat \<Rightarrow> aes" where
  "aes_expand key nk rounds =
    (let total_words = 4 * (rounds + 1);
         w = replicate total_words (replicate 4 0);
         w = foldl (\<lambda>w i. w[i := [key ! (4 * i), key ! (4 * i + 1), key ! (4 * i + 2), key ! (4 * i + 3)]]) w [0..<nk];
         w = foldl (schedule_word nk) w [nk..<total_words];
         round_keys = map (\<lambda>r. map (\<lambda>c. of_le_bytes (w ! (4 * r + c))) [0..<4]) [0..<Suc rounds]
     in \<lparr>ae_round_keys = round_keys, ae_rounds = rounds\<rparr>)"

definition aes_new_128 :: "bytes \<Rightarrow> aes" where
  "aes_new_128 key = aes_expand key 4 10"

definition aes_new_256 :: "bytes \<Rightarrow> aes" where
  "aes_new_256 key = aes_expand key 8 14"

definition byte_of :: "u32 \<Rightarrow> nat \<Rightarrow> nat" where
  "byte_of w n = unat (drop_bit (8 * n) w AND 0xff)"

definition table_column :: "u32 list \<Rightarrow> u32 list \<Rightarrow> nat \<Rightarrow> u32" where
  "table_column rkr s c =
    (let b0 = byte_of (s ! c) 0;
         b1 = byte_of (s ! ((c + 1) mod 4)) 1;
         b2 = byte_of (s ! ((c + 2) mod 4)) 2;
         b3 = byte_of (s ! ((c + 3) mod 4)) 3
     in TE0 ! b0 XOR TE1 ! b1 XOR TE2 ! b2 XOR TE3 ! b3 XOR rkr ! c)"

definition final_column :: "u32 list \<Rightarrow> u32 list \<Rightarrow> nat \<Rightarrow> u32" where
  "final_column rkr s c =
    (let b0 = byte_of (s ! c) 0;
         b1 = byte_of (s ! ((c + 1) mod 4)) 1;
         b2 = byte_of (s ! ((c + 2) mod 4)) 2;
         b3 = byte_of (s ! ((c + 3) mod 4)) 3
     in (ucast (SBOX ! b0) OR push_bit 8 (ucast (SBOX ! b1)) OR push_bit 16 (ucast (SBOX ! b2))
         OR push_bit 24 (ucast (SBOX ! b3))) XOR rkr ! c)"

definition encrypt_block :: "aes \<Rightarrow> bytes \<Rightarrow> bytes" where
  "encrypt_block a block =
    (let rk = ae_round_keys a;
         s = map (\<lambda>c. le32_at block (4 * c) XOR rk ! 0 ! c) [0..<4];
         s = foldl (\<lambda>s rkr. map (table_column rkr s) [0..<4]) s (slice 1 (ae_rounds a - 1) rk);
         t = map (final_column (rk ! ae_rounds a) s) [0..<4]
     in le_bytes 4 (t ! 0) @ le_bytes 4 (t ! 1) @ le_bytes 4 (t ! 2) @ le_bytes 4 (t ! 3))"

section \<open>GHASH\<close>

definition LAST4 :: "u64 list" where
  "LAST4 = [0x0000, 0x1c20, 0x3840, 0x2460, 0x7080, 0x6ca0, 0x48c0, 0x54e0, 0xe100, 0xfd20, 0xd940, 0xc560,
    0x9180, 0x8da0, 0xa9c0, 0xb5e0]"

record ghash_table =
  gt_hh :: "u64 list"
  gt_hl :: "u64 list"

function halve_loop :: "nat \<Rightarrow> u64 \<Rightarrow> u64 \<Rightarrow> ghash_table \<Rightarrow> ghash_table" where
  "halve_loop i hi lo t =
    (if i > 0
     then let tt = (ucast (lo AND 1) :: u32) * 0xe1000000;
              vl = push_bit 63 hi OR drop_bit 1 lo;
              vh = drop_bit 1 hi XOR push_bit 32 (ucast tt)
          in halve_loop (i div 2) vh vl (t\<lparr>gt_hl := (gt_hl t)[i := vl], gt_hh := (gt_hh t)[i := vh]\<rparr>)
     else t)"
  by pat_completeness auto
termination by (relation "measure (\<lambda>(i, _). i)") auto

function compose_loop :: "nat \<Rightarrow> ghash_table \<Rightarrow> ghash_table" where
  "compose_loop i t =
    (if 0 < i \<and> i \<le> 8
     then let base_l = gt_hl t ! i; base_h = gt_hh t ! i
          in compose_loop (i * 2)
               (foldl (\<lambda>t j. t\<lparr>gt_hh := (gt_hh t)[i + j := base_h XOR gt_hh t ! j],
                              gt_hl := (gt_hl t)[i + j := base_l XOR gt_hl t ! j]\<rparr>) t [1..<i])
     else t)"
  by pat_completeness auto
termination by (relation "measure (\<lambda>(i, _). 16 - i)") auto

declare halve_loop.simps [simp del] compose_loop.simps [simp del]

definition ghash_table_new :: "u128 \<Rightarrow> ghash_table" where
  "ghash_table_new h =
    (let hb = be_bytes 16 h;
         hi = of_be_bytes (take 8 hb);
         lo = of_be_bytes (drop 8 hb);
         t = \<lparr>gt_hh = (replicate 16 0)[8 := hi], gt_hl = (replicate 16 0)[8 := lo]\<rparr>
     in compose_loop 2 (halve_loop 4 hi lo t))"

definition shift_add :: "ghash_table \<Rightarrow> nat \<Rightarrow> u64 \<times> u64 \<Rightarrow> u64 \<times> u64" where
  "shift_add t nib z =
    (let (zh, zl) = z;
         rem = unat (zl AND 0xf);
         zl = push_bit 60 zh OR drop_bit 4 zl;
         zh = drop_bit 4 zh;
         zh = zh XOR push_bit 48 (LAST4 ! rem);
         zh = zh XOR gt_hh t ! nib;
         zl = zl XOR gt_hl t ! nib
     in (zh, zl))"

definition ghash_mul :: "ghash_table \<Rightarrow> u128 \<Rightarrow> u128" where
  "ghash_mul t x =
    (let xb = be_bytes 16 x;
         lo0 = unat (xb ! 15 AND 0xf);
         (zh, zl) = foldl (\<lambda>z i.
             let lo = unat (xb ! i AND 0xf);
                 hi = unat (drop_bit 4 (xb ! i) AND 0xf);
                 z = (if i \<noteq> 15 then shift_add t lo z else z)
             in shift_add t hi z) (gt_hh t ! lo0, gt_hl t ! lo0) (rev [0..<16])
     in push_bit 64 (ucast zh) OR ucast zl)"

definition pad_block :: "bytes \<Rightarrow> bytes" where
  "pad_block chunk = blit 0 chunk (replicate 16 0)"

definition ghash_feed :: "ghash_table \<Rightarrow> u128 \<Rightarrow> bytes \<Rightarrow> u128" where
  "ghash_feed t y data =
    foldl (\<lambda>y chunk. ghash_mul t (y XOR of_be_bytes (pad_block chunk))) y (byte_chunks 16 data)"

definition len_block :: "nat \<Rightarrow> nat \<Rightarrow> u128" where
  "len_block aad_len ct_len = push_bit 64 (word_of_nat aad_len * 8) OR (word_of_nat ct_len * 8)"

definition ghash :: "u128 \<Rightarrow> bytes \<Rightarrow> bytes \<Rightarrow> u128" where
  "ghash h aad ct =
    (let t = ghash_table_new h;
         y = 0;
         y = ghash_feed t y aad;
         y = ghash_feed t y ct
     in ghash_mul t (y XOR len_block (length aad) (length ct)))"

section \<open>AES-GCM\<close>

definition inc32 :: "bytes \<Rightarrow> bytes" where
  "inc32 block =
    (let ctr = of_be_bytes [block ! 12, block ! 13, block ! 14, block ! 15] :: u32;
         ctr = ctr + 1
     in blit 12 (be_bytes 4 ctr) block)"

definition gctr :: "aes \<Rightarrow> bytes \<Rightarrow> bytes \<Rightarrow> bytes" where
  "gctr a icb data =
    fst (foldl (\<lambda>(out, cb) chunk. (out @ xor_chunk chunk (encrypt_block a cb), inc32 cb)) ([], icb) (byte_chunks 16 data))"

definition gcm_j0 :: "bytes \<Rightarrow> bytes" where
  "gcm_j0 iv = (blit 0 iv (replicate 16 0))[15 := 1]"

definition gcm_encrypt :: "aes \<Rightarrow> bytes \<Rightarrow> bytes \<Rightarrow> bytes \<Rightarrow> bytes \<times> bytes" where
  "gcm_encrypt a iv aad plaintext =
    (let h = of_be_bytes (encrypt_block a (replicate 16 0));
         table = ghash_table_new h;
         j0 = gcm_j0 iv;
         y = ghash_feed table 0 aad;
         (out, cb, y) = foldl (\<lambda>(out, cb, y) chunk.
             let chunk = xor_chunk chunk (encrypt_block a cb)
             in (out @ chunk, inc32 cb, ghash_mul table (y XOR of_be_bytes (pad_block chunk))))
           ([], inc32 j0, y) (byte_chunks 16 plaintext);
         y = ghash_mul table (y XOR len_block (length aad) (length out));
         ej0 = of_be_bytes (encrypt_block a j0);
         tag = be_bytes 16 (y XOR ej0)
     in (out, tag))"

definition gcm_decrypt :: "aes \<Rightarrow> bytes \<Rightarrow> bytes \<Rightarrow> bytes \<Rightarrow> bytes \<Rightarrow> bytes option" where
  "gcm_decrypt a iv aad ciphertext tag =
    (let h = of_be_bytes (encrypt_block a (replicate 16 0));
         j0 = gcm_j0 iv;
         s = ghash h aad ciphertext;
         ej0 = of_be_bytes (encrypt_block a j0);
         expected = be_bytes 16 (s XOR ej0)
     in if \<not> ct_eq16 expected tag then None
        else Some (gctr a (inc32 j0) ciphertext))"

section \<open>Memory at rest\<close>

definition salt_from_label :: "bytes \<Rightarrow> u64" where
  "salt_from_label label = foldl (\<lambda>h b. (h XOR ucast b) * 0x00000100000001b3) 0xcbf29ce484222325 label"

record sealed_region =
  sr_key :: bytes
  sr_nonce_ctr :: u64
  sr_region_salt :: u64
  sr_iv :: bytes
  sr_ciphertext :: bytes
  sr_tag :: bytes
  sr_aad :: bytes

definition sr_next_iv :: "sealed_region \<Rightarrow> bytes \<times> sealed_region" where
  "sr_next_iv r =
    (let r = r\<lparr>sr_nonce_ctr := sr_nonce_ctr r + 1\<rparr>
     in (be_bytes 4 (ucast (sr_nonce_ctr r) :: u32) @ be_bytes 8 (sr_region_salt r), r))"

definition sr_reseal :: "bytes \<Rightarrow> sealed_region \<Rightarrow> sealed_region" where
  "sr_reseal plaintext r =
    (let a = aes_new_256 (sr_key r);
         (iv, r) = sr_next_iv r;
         r = r\<lparr>sr_iv := iv\<rparr>;
         (ct, tag) = gcm_encrypt a (sr_iv r) (sr_aad r) plaintext
     in r\<lparr>sr_ciphertext := ct, sr_tag := tag\<rparr>)"

definition sr_seal :: "bytes \<Rightarrow> bytes \<Rightarrow> u64 \<Rightarrow> bytes \<Rightarrow> sealed_region" where
  "sr_seal key label region_salt plaintext =
    sr_reseal plaintext \<lparr>sr_key = key, sr_nonce_ctr = 0, sr_region_salt = region_salt, sr_iv = replicate 12 0,
      sr_ciphertext = [], sr_tag = replicate 16 0, sr_aad = label\<rparr>"

definition sr_open :: "sealed_region \<Rightarrow> bytes option" where
  "sr_open r = gcm_decrypt (aes_new_256 (sr_key r)) (sr_iv r) (sr_aad r) (sr_ciphertext r) (sr_tag r)"

definition sr_at_rest :: "sealed_region \<Rightarrow> bytes" where
  "sr_at_rest r = sr_ciphertext r"

end
