(* ===== verification/Ghash_Field.thy ===== *)
theory Ghash_Field
  imports Aes_Gcm
begin

text \<open>
  The table-driven GHASH multiplication of \<^verbatim>\<open>memcrypt.rs\<close> is the product of NIST SP 800-38D: the
  sixteen-entry table holds the multiples of the subkey, one step multiplies by the fourth power of the
  indeterminate, and thirty-two steps compute what the 128 bit-serial steps of the standard compute.
\<close>

unbundle bit_operations_syntax

section \<open>The product of SP 800-38D\<close>

definition gcm_R :: u128 where "gcm_R = push_bit 120 0xe1"

definition times_x :: "u128 \<Rightarrow> u128" where
  "times_x v = (if bit v 0 then drop_bit 1 v XOR gcm_R else drop_bit 1 v)"

fun sp800_loop :: "bool list \<Rightarrow> u128 \<Rightarrow> u128 \<Rightarrow> u128" where
  "sp800_loop [] z v = z"
| "sp800_loop (b # bs) z v = sp800_loop bs (if b then z XOR v else z) (times_x v)"

definition sp800_mul :: "u128 \<Rightarrow> u128 \<Rightarrow> u128" where
  "sp800_mul x y = sp800_loop (map (\<lambda>i. bit x (127 - i)) [0..<128]) 0 y"

section \<open>Linearity\<close>

fun lin_comb :: "u128 \<Rightarrow> bool list \<Rightarrow> u128" where
  "lin_comb h [] = 0"
| "lin_comb h (b # bs) = (if b then h else 0) XOR times_x (lin_comb h bs)"

lemma times_x_0 [simp]: "times_x 0 = 0"
  by (simp add: times_x_def)

lemma bit_times_x: "bit (times_x v) n \<longleftrightarrow> bit v (Suc n) \<noteq> (bit v 0 \<and> bit gcm_R n)"
  by (auto simp: times_x_def bit_simps)

lemma times_x_xor: "times_x (a XOR b) = times_x a XOR times_x b"
  by (rule bit_word_eqI) (auto simp: bit_times_x bit_xor_iff)

lemma lin_comb_times_x: "lin_comb (times_x v) bs = times_x (lin_comb v bs)"
  by (induction bs) (simp_all add: times_x_xor)

lemma sp800_loop_eq: "sp800_loop bs z v = z XOR lin_comb v bs"
  by (induction bs arbitrary: z v) (simp_all add: lin_comb_times_x ac_simps)

section \<open>Halves\<close>

definition join64 :: "u64 \<Rightarrow> u64 \<Rightarrow> u128" where
  "join64 hi lo = push_bit 64 (ucast hi) OR ucast lo"

lemma bit_join64: "bit (join64 hi lo) n \<longleftrightarrow> (if n < 64 then bit lo n else n < 128 \<and> bit hi (n - 64))"
  by (auto simp: join64_def bit_simps dest: bit_imp_le_length)

lemma join64_xor: "join64 a b XOR join64 c d = join64 (a XOR c) (b XOR d)"
  by (rule bit_word_eqI) (simp add: bit_join64 bit_xor_iff)

lemma join64_0 [simp]: "join64 0 0 = 0"
  by (simp add: join64_def)

definition halve :: "u64 \<Rightarrow> u64 \<Rightarrow> u64 \<times> u64" where
  "halve hi lo = (drop_bit 1 hi XOR push_bit 32 (ucast ((ucast (lo AND 1) :: u32) * 0xe1000000)), push_bit 63 hi OR drop_bit 1 lo)"

lemma halve_step:
  "join64 (drop_bit 1 hi XOR push_bit 32 (ucast ((ucast (lo AND 1) :: u32) * 0xe1000000)))
     (push_bit 63 hi OR drop_bit 1 lo) = times_x (join64 hi lo)" (is "?l = ?r")
proof -
  have t: "push_bit 32 (ucast ((ucast (lo AND 1) :: u32) * 0xe1000000)) = (if bit lo 0 then 0xe100000000000000 else (0 :: u64))"
  proof (cases "bit lo 0")
    case True
    then have "lo AND 1 = 1" by (simp add: and_one_eq bit_0 odd_iff_mod_2_eq_one)
    then show ?thesis using True by simp
  next
    case False
    then have "lo AND 1 = 0" by (simp add: and_one_eq bit_0 even_iff_mod_2_eq_zero)
    then show ?thesis using False by simp
  qed
  have r: "join64 0xe100000000000000 0 = gcm_R" by (simp add: join64_def gcm_R_def)
  have z: "Suc (n - 64) = n - 63" if "\<not> n < 64" for n using that by simp
  have "join64 (drop_bit 1 hi) (push_bit 63 hi OR drop_bit 1 lo) = drop_bit 1 (join64 hi lo)"
    by (rule bit_word_eqI) (auto simp: bit_join64 bit_simps less_Suc_eq z dest: bit_imp_le_length)
  moreover have "drop_bit 1 hi XOR 0xe100000000000000 = drop_bit 1 hi XOR 0xe100000000000000 \<and>
    join64 (a XOR 0xe100000000000000) b = join64 a b XOR gcm_R" for a b
    unfolding r [symmetric] join64_xor by simp
  moreover have "bit (join64 hi lo) 0 = bit lo 0" by (simp add: bit_join64)
  ultimately show ?thesis unfolding t times_x_def by simp
qed

lemma bit_nth_le_bytes: "i < n \<Longrightarrow> bit (le_bytes n w ! i) j \<longleftrightarrow> j < 8 \<and> bit w (8 * i + j)"
proof (induction n arbitrary: i w)
  case (Suc n)
  then show ?case by (cases i) (auto simp: bit_simps ac_simps)
qed simp

lemma bit_of_le_bytes:
  "bit (of_le_bytes bs :: 'a::len word) k \<longleftrightarrow> k < LENGTH('a) \<and> k < 8 * length bs \<and> bit (bs ! (k div 8)) (k mod 8)"
proof (induction bs arbitrary: k)
  case (Cons b bs)
  show ?case
  proof (cases "k < 8")
    case True
    then show ?thesis by (auto simp: bit_simps)
  next
    case False
    then obtain m where k: "k = m + 8" by (metis add.commute le_add_diff_inverse not_less)
    then show ?thesis by (auto simp: bit_simps Cons div_add_self2 dest: bit_imp_le_length)
  qed
qed simp

section \<open>The table\<close>

definition table_ok :: "u128 \<Rightarrow> ghash_table \<Rightarrow> bool" where
  "table_ok h t \<longleftrightarrow> (\<forall>n < 16. join64 (gt_hh t ! n) (gt_hl t ! n) = lin_comb h (map (bit n) [3, 2, 1, 0]))"

lemma of_be_halves:
  "join64 (of_be_bytes (take 8 (be_bytes 16 h))) (of_be_bytes (drop 8 (be_bytes 16 h))) = h"
proof -
  have "rev (take 8 (rev xs)) = drop 8 xs" "rev (drop 8 (rev xs)) = take 8 xs" if "length xs = 16" for xs :: bytes
    using that by (simp_all add: rev_take rev_drop)
  then show ?thesis
    by (intro bit_word_eqI) (auto simp: bit_join64 be_bytes_def of_be_bytes_def bit_of_le_bytes bit_nth_le_bytes)
qed


lemma halve_loop_0: "halve_loop 0 hi lo t = t"
  by (simp add: halve_loop.simps)

lemma halve_join: "halve hi lo = (h1, l1) \<Longrightarrow> join64 h1 l1 = times_x (join64 hi lo)"
  using halve_step [of hi lo] unfolding halve_def by (metis prod.inject)

lemma halve_loop_step:
  "0 < i \<Longrightarrow> halve a b = (c, d) \<Longrightarrow>
   halve_loop i a b t = halve_loop (i div 2) c d (t\<lparr>gt_hl := (gt_hl t)[i := d], gt_hh := (gt_hh t)[i := c]\<rparr>)"
  unfolding halve_def by (subst halve_loop.simps) (simp only: Let_def prod.inject if_True)

lemma compose_loop_done: "compose_loop 16 t = t"
  by (simp add: compose_loop.simps)

lemma less_16_cases:
  fixes n :: nat
  assumes "n < 16"
  obtains "n = 0" | "n = 1" | "n = 2" | "n = 3" | "n = 4" | "n = 5" | "n = 6" | "n = 7" | "n = 8" | "n = 9" | "n = 10"
    | "n = 11" | "n = 12" | "n = 13" | "n = 14" | "n = 15"
  using assms by (auto simp add: numeral_eq_Suc less_Suc_eq)

lemma bit_Suc_0_0: "bit (Suc 0) 0"
  by (simp add: bit_0)

lemma ghash_table_new_ok: "table_ok h (ghash_table_new h)"
proof -
  obtain hi lo :: u64 where hl: "of_be_bytes (take 8 (be_bytes 16 h)) = hi" "of_be_bytes (drop 8 (be_bytes 16 h)) = lo" by blast
  then have h: "h = join64 hi lo" using of_be_halves [of h] by simp
  obtain h1 l1 where 1: "halve hi lo = (h1, l1)" by (cases "halve hi lo")
  obtain h2 l2 where 2: "halve h1 l1 = (h2, l2)" by (cases "halve h1 l1")
  obtain h3 l3 where 3: "halve h2 l2 = (h3, l3)" by (cases "halve h2 l2")
  note j = halve_join [OF 1] halve_join [OF 2] halve_join [OF 3]
  let ?t = "\<lparr>gt_hh = (replicate 16 0)[8 := hi], gt_hl = (replicate 16 0)[8 := lo]\<rparr>"
  have "ghash_table_new h = compose_loop 2 (halve_loop 4 hi lo ?t)"
    unfolding ghash_table_new_def Let_def hl by (rule refl)
  also have "halve_loop 4 hi lo ?t = \<lparr>gt_hh = [0, h3, h2, 0, h1, 0, 0, 0, hi, 0, 0, 0, 0, 0, 0, 0],
      gt_hl = [0, l3, l2, 0, l1, 0, 0, 0, lo, 0, 0, 0, 0, 0, 0, 0]\<rparr>"
    by (simp add: halve_loop_step [OF _ 1, of 4] halve_loop_step [OF _ 2, of 2] halve_loop_step [OF _ 3, of "Suc 0"] halve_loop_0)
      (simp add: numeral_eq_Suc)
  finally have "ghash_table_new h = compose_loop 2 \<dots>" .
  then have t: "ghash_table_new h =
      \<lparr>gt_hh = [0, h3, h2, h2 XOR h3, h1, h1 XOR h3, h1 XOR h2, h1 XOR (h2 XOR h3), hi, hi XOR h3, hi XOR h2, hi XOR (h2 XOR h3),
               hi XOR h1, hi XOR (h1 XOR h3), hi XOR (h1 XOR h2), hi XOR (h1 XOR (h2 XOR h3))],
       gt_hl = [0, l3, l2, l2 XOR l3, l1, l1 XOR l3, l1 XOR l2, l1 XOR (l2 XOR l3), lo, lo XOR l3, lo XOR l2, lo XOR (l2 XOR l3),
               lo XOR l1, lo XOR (l1 XOR l3), lo XOR (l1 XOR l2), lo XOR (l1 XOR (l2 XOR l3))]\<rparr>"
    by (simp add: compose_loop.simps [of 2] compose_loop.simps [of 4] compose_loop.simps [of 8] compose_loop_done Let_def
        upt_rec [of _ 2] upt_rec [of _ 4] upt_rec [of _ 8])
  show ?thesis
    unfolding table_ok_def
  proof (intro allI impI)
    fix n :: nat
    assume "n < 16"
    then show "join64 (gt_hh (ghash_table_new h) ! n) (gt_hl (ghash_table_new h) ! n) = lin_comb h (map (bit n) [3, 2, 1, 0])"
      unfolding t unfolding h by (cases n rule: less_16_cases) (simp_all add: j times_x_xor bit_Suc_0_0 join64_xor [symmetric])
  qed
qed

section \<open>Multiplication\<close>

lemma times_x_drop_bit: "times_x (drop_bit k v) = drop_bit (Suc k) v XOR (if bit v k then gcm_R else 0)"
  by (rule bit_word_eqI) (auto simp: bit_times_x bit_simps)

lemma LAST4_spec:
  "n < 16 \<Longrightarrow> join64 (push_bit 48 (LAST4 ! n)) 0 =
   (if bit n 0 then drop_bit 3 gcm_R else 0) XOR (if bit n 1 then drop_bit 2 gcm_R else 0)
   XOR (if bit n 2 then drop_bit 1 gcm_R else 0) XOR (if bit n 3 then gcm_R else 0)"
  by (cases n rule: less_16_cases) (simp_all add: bit_Suc_0_0 LAST4_def join64_def gcm_R_def)

lemma gcm_R_low: "n < 120 \<Longrightarrow> \<not> bit gcm_R n"
  unfolding gcm_R_def bit_push_bit_iff by simp

lemma mask4: "0xf = (mask 4 :: 'a::len word)"
  by (simp add: mask_eq_exp_minus_1)

lemma times_x4:
  "times_x (times_x (times_x (times_x v))) = drop_bit 4 v XOR join64 (push_bit 48 (LAST4 ! unat (v AND 0xf))) 0"
proof -
  have "unat (v AND 0xf) < 16"
    unfolding mask4 take_bit_eq_mask [symmetric] by (simp add: unsigned_take_bit_eq take_bit_nat_less_exp [of 4, simplified])
  moreover have "bit (unat (v AND 0xf)) k = bit v k" if "k < 4" for k
    using that unfolding mask4 by (simp add: bit_unsigned_iff bit_simps)
  ultimately have r: "join64 (push_bit 48 (LAST4 ! unat (v AND 0xf))) 0 =
     (if bit v 0 then drop_bit 3 gcm_R else 0) XOR (if bit v 1 then drop_bit 2 gcm_R else 0)
     XOR (if bit v 2 then drop_bit 1 gcm_R else 0) XOR (if bit v 3 then drop_bit 0 gcm_R else 0)"
    using LAST4_spec by simp
  have i: "times_x (if b then drop_bit k gcm_R else 0) = (if b then drop_bit (Suc k) gcm_R else 0)" if "k < 120" for b k
    using that by (simp add: times_x_drop_bit gcm_R_low)
  have "times_x v = drop_bit 1 v XOR (if bit v 0 then drop_bit 0 gcm_R else 0)"
    using times_x_drop_bit [of 0 v] by simp
  also have "times_x \<dots> = drop_bit 2 v XOR (if bit v 1 then drop_bit 0 gcm_R else 0) XOR (if bit v 0 then drop_bit 1 gcm_R else 0)"
    by (simp only: times_x_xor i times_x_drop_bit xor.assoc) (simp add: numeral_eq_Suc)
  also have "times_x \<dots> = drop_bit 3 v XOR (if bit v 2 then drop_bit 0 gcm_R else 0) XOR (if bit v 1 then drop_bit 1 gcm_R else 0)
      XOR (if bit v 0 then drop_bit 2 gcm_R else 0)"
    by (simp only: times_x_xor i times_x_drop_bit xor.assoc) (simp add: numeral_eq_Suc)
  also have "times_x \<dots> = drop_bit 4 v XOR (if bit v 3 then drop_bit 0 gcm_R else 0) XOR (if bit v 2 then drop_bit 1 gcm_R else 0)
      XOR (if bit v 1 then drop_bit 2 gcm_R else 0) XOR (if bit v 0 then drop_bit 3 gcm_R else 0)"
    by (simp only: times_x_xor i times_x_drop_bit xor.assoc) (simp add: numeral_eq_Suc)
  finally show ?thesis unfolding r by (simp only: ac_simps)
qed

definition pair64 :: "u64 \<times> u64 \<Rightarrow> u128" where
  "pair64 z = join64 (fst z) (snd z)"

lemma pair64_shift_add:
  assumes "table_ok h t" and "nib < 16" and "pair64 z = lin_comb h bs"
  shows "pair64 (shift_add t nib z) = lin_comb h (map (bit nib) [3, 2, 1, 0] @ bs)"
proof -
  obtain zh zl where z: "z = (zh, zl)" by (cases z)
  have s: "n + 4 - 64 = n - 60" "n - 64 + 4 = n - 60" if "\<not> n < 64" for n :: nat using that by auto
  have d: "join64 (drop_bit 4 zh) (push_bit 60 zh OR drop_bit 4 zl) = drop_bit 4 (join64 zh zl)"
    by (rule bit_word_eqI) (auto simp: bit_join64 bit_simps s ac_simps dest: bit_imp_le_length)
  have "join64 zh zl AND 0xf = ucast (zl AND 0xf)"
    unfolding mask4 by (rule bit_word_eqI) (auto simp: bit_join64 bit_simps)
  then have r: "unat (zl AND 0xf) = unat (join64 zh zl AND 0xf)"
    by (simp add: unsigned_ucast_eq take_bit_nat_eq_self unsigned_less [of "zl AND 0xf", THEN order_less_trans, simplified])
  have "pair64 (shift_add t nib z) =
      join64 (drop_bit 4 zh) (push_bit 60 zh OR drop_bit 4 zl) XOR join64 (push_bit 48 (LAST4 ! unat (zl AND 0xf))) 0
      XOR join64 (gt_hh t ! nib) (gt_hl t ! nib)"
    by (simp add: pair64_def shift_add_def z Let_def join64_xor xor.assoc)
  also have "\<dots> = times_x (times_x (times_x (times_x (lin_comb h bs)))) XOR lin_comb h (map (bit nib) [3, 2, 1, 0])"
    using assms unfolding d r times_x4 by (simp add: pair64_def z table_ok_def xor.assoc)
  finally show ?thesis by (simp add: times_x_xor ac_simps)
qed

definition byte_step :: "ghash_table \<Rightarrow> u8 \<Rightarrow> u64 \<times> u64 \<Rightarrow> u64 \<times> u64" where
  "byte_step t b z = shift_add t (unat (drop_bit 4 b AND 0xf)) (shift_add t (unat (b AND 0xf)) z)"

definition byte_bits :: "u8 \<Rightarrow> bool list" where
  "byte_bits b = map (bit b) [7, 6, 5, 4, 3, 2, 1, 0]"

lemma pair64_byte_step:
  assumes "table_ok h t" and "pair64 z = lin_comb h bs"
  shows "pair64 (byte_step t b z) = lin_comb h (byte_bits b @ bs)"
proof -
  have n: "unat (c AND 0xf) < 16" "k < 4 \<Longrightarrow> bit (unat (c AND 0xf)) k = bit c k" for c :: u8 and k
    unfolding mask4 take_bit_eq_mask [symmetric]
    by (simp_all add: unsigned_take_bit_eq take_bit_nat_less_exp [of 4, simplified] bit_unsigned_iff bit_simps)
  have "pair64 (shift_add t (unat (b AND 0xf)) z) = lin_comb h (map (bit b) [3, 2, 1, 0] @ bs)"
    using pair64_shift_add [OF assms(1) n(1) assms(2)] n(2) by simp
  from pair64_shift_add [OF assms(1) n(1) this] show ?thesis
    by (simp add: byte_step_def byte_bits_def n(2) bit_drop_bit_eq)
qed

lemma pair64_bytes:
  "table_ok h t \<Longrightarrow> pair64 (foldr (byte_step t) bs (0, 0)) = lin_comb h (concat (map byte_bits bs))"
proof (induction bs)
  case (Cons b bs)
  then show ?case using pair64_byte_step by simp
qed (simp add: pair64_def)

lemma bits_be_bytes: "concat (map byte_bits (be_bytes n w)) = map (bit w) (rev [0..<8 * n])"
proof (induction n arbitrary: w)
  case (Suc n)
  have "[0..<8 * Suc n] = [0..<8] @ map (\<lambda>i. i + 8) [0..<8 * n]"
    by (simp only: map_add_upt) (simp add: upt_add_eq_append [of 0 8, simplified] add.commute)
  moreover have "map (bit w) (rev [0..<8]) = byte_bits (ucast w)"
    by (simp add: byte_bits_def upt_rec bit_simps numeral_eq_Suc)
  moreover have "be_bytes (Suc n) w = be_bytes n (drop_bit 8 w) @ [ucast w]" by (simp add: be_bytes_def)
  ultimately show ?case using Suc [of "drop_bit 8 w"] by (simp add: rev_map bit_simps comp_def ac_simps)
qed (simp add: be_bytes_def)

lemma ghash_mul_bytes: "ghash_mul t x = pair64 (foldr (byte_step t) (be_bytes 16 x) (0, 0))"
proof -
  let ?xb = "be_bytes 16 x"
  let ?f = "\<lambda>i z. shift_add t (unat (drop_bit 4 (?xb ! i) AND 0xf)) (if i \<noteq> 15 then shift_add t (unat (?xb ! i AND 0xf)) z else z)"
  let ?z = "(gt_hh t ! unat (?xb ! 15 AND 0xf), gt_hl t ! unat (?xb ! 15 AND 0xf))"
  have z: "shift_add t n (0, 0) = (gt_hh t ! n, gt_hl t ! n)" for n
    by (simp add: shift_add_def LAST4_def)
  have "foldr ?f [0..<16] ?z = foldr ?f [0..<15] (byte_step t (?xb ! 15) (0, 0))"
    using upt_Suc_append [of 0 15] by (simp add: z byte_step_def)
  also have "\<dots> = foldr (\<lambda>i. byte_step t (?xb ! i)) [0..<15] (byte_step t (?xb ! 15) (0, 0))"
    by (rule foldr_cong) (simp_all add: byte_step_def)
  also have "\<dots> = foldr (\<lambda>i. byte_step t (?xb ! i)) [0..<16] (0, 0)"
    using upt_Suc_append [of 0 15] by simp
  also have "\<dots> = foldr (byte_step t) (map ((!) ?xb) [0..<16]) (0, 0)" by (simp add: foldr_map comp_def)
  also have "map ((!) ?xb) [0..<16] = ?xb" using map_nth [of ?xb] by simp
  finally show ?thesis
    by (simp add: ghash_mul_def Let_def foldl_conv_foldr pair64_def join64_def case_prod_beta)
qed

theorem ghash_mul_eq_sp800: "ghash_mul (ghash_table_new h) x = sp800_mul x h"
proof -
  have "map (\<lambda>i. bit x (127 - i)) [0..<128] = map (bit x) (rev [0..<128])"
    by (rule nth_equalityI) (simp_all add: rev_nth)
  then show ?thesis
    using pair64_bytes [OF ghash_table_new_ok, of h "be_bytes 16 x"]
    by (simp add: ghash_mul_bytes sp800_mul_def sp800_loop_eq bits_be_bytes)
qed

end
