(* ===== verification/Aes_Reference.thy ===== *)
theory Aes_Reference
  imports Aes_Gcm Galois_Byte
begin

text \<open>
  The table-driven AES of \<^verbatim>\<open>memcrypt.rs\<close> against the cipher of FIPS 197: the byte matrix with
  SubBytes, ShiftRows, MixColumns and AddRoundKey, over the field of \<^verbatim>\<open>recovery.rs\<close>, which is the
  same field of 256 elements.
\<close>

unbundle bit_operations_syntax

section \<open>FIPS 197\<close>

definition fips_affine :: "u8 \<Rightarrow> u8" where
  "fips_affine b = b XOR word_rotl 1 b XOR word_rotl 2 b XOR word_rotl 3 b XOR word_rotl 4 b XOR 0x63"

definition fips_sbox :: "u8 \<Rightarrow> u8" where
  "fips_sbox b = fips_affine (gf_inv b)"

definition fips_sub_bytes :: "bytes \<Rightarrow> bytes" where
  "fips_sub_bytes s = map fips_sbox s"

definition fips_shift_rows :: "bytes \<Rightarrow> bytes" where
  "fips_shift_rows s = map (\<lambda>i. s ! (4 * ((i div 4 + i mod 4) mod 4) + i mod 4)) [0..<16]"

fun fips_mix_column :: "bytes \<Rightarrow> bytes" where
  "fips_mix_column [a, b, c, d] =
    [gf_mul a 2 XOR gf_mul b 3 XOR c XOR d, a XOR gf_mul b 2 XOR gf_mul c 3 XOR d,
     a XOR b XOR gf_mul c 2 XOR gf_mul d 3, gf_mul a 3 XOR b XOR c XOR gf_mul d 2]"
| "fips_mix_column _ = []"

definition fips_mix_columns :: "bytes \<Rightarrow> bytes" where
  "fips_mix_columns s = concat (map fips_mix_column (chunks_exact 4 s))"

definition fips_add_round_key :: "bytes \<Rightarrow> bytes \<Rightarrow> bytes" where
  "fips_add_round_key s k = map2 (XOR) s k"

definition fips_round :: "bytes \<Rightarrow> bytes \<Rightarrow> bytes" where
  "fips_round s k = fips_add_round_key (fips_mix_columns (fips_shift_rows (fips_sub_bytes s))) k"

fun fips_rounds :: "bytes \<Rightarrow> bytes list \<Rightarrow> bytes" where
  "fips_rounds s [] = s"
| "fips_rounds s [k] = fips_add_round_key (fips_shift_rows (fips_sub_bytes s)) k"
| "fips_rounds s (k # k' # ks) = fips_rounds (fips_round s k) (k' # ks)"

definition fips_cipher :: "bytes list \<Rightarrow> bytes \<Rightarrow> bytes" where
  "fips_cipher w block = fips_rounds (fips_add_round_key block (hd w)) (tl w)"

section \<open>Tables\<close>

lemma gf_mul_by_2: "gf_mul a 2 = aes_xtime a"
proof -
  have "drop_bit 7 a = (if bit a 7 then 1 else 0)"
  proof (rule bit_word_eqI)
    fix n
    show "bit (drop_bit 7 a) n = bit (if bit a 7 then 1 else 0 :: u8) n"
      by (cases n) (auto simp: bit_simps bit_1_iff dest: bit_imp_le_length)
  qed
  then show ?thesis
    by (simp add: gf_mul_eq basis_sum_def upt_rec xtime_bit aes_xtime_def)
qed

lemma gf_mul_by_3: "gf_mul a 3 = aes_xtime a XOR a"
  unfolding gf_mul_by_2 [symmetric] by (simp add: gf_mul_eq basis_sum_def upt_rec xor.commute)

lemma le_bytes_xor: "le_bytes n (v XOR w) = map2 (XOR) (le_bytes n v) (le_bytes n w)"
proof (induction n arbitrary: v w)
  case (Suc n)
  have "ucast (v XOR w) = ucast v XOR (ucast w :: u8)" by (rule bit_word_eqI) (auto simp: bit_simps)
  then show ?case by (simp add: Suc drop_bit_xor)
qed simp

lemma le_bytes_4: "le_bytes 4 w = [ucast w, ucast (drop_bit 8 w), ucast (drop_bit 16 w), ucast (drop_bit 24 w)]"
  by (simp add: numeral_eq_Suc)

lemma le_bytes_pack:
  "le_bytes 4 (ucast a OR push_bit 8 (ucast b) OR push_bit 16 (ucast c) OR push_bit 24 (ucast d) :: u32) = [a, b, c, d]"
  unfolding le_bytes_4 by (simp, intro conjI; rule bit_word_eqI; auto simp: bit_simps dest: bit_imp_le_length)

lemma le_bytes_te_entry: "le_bytes 4 (te_entry x) = [gf_mul x 2, x, x, gf_mul x 3]"
proof -
  have "ucast (aes_xtime x) XOR ucast x = (ucast (gf_mul x 3) :: u32)"
    unfolding gf_mul_by_3 by (rule bit_word_eqI) (auto simp: bit_simps)
  then show ?thesis unfolding te_entry_def Let_def by (simp only: le_bytes_pack gf_mul_by_2)
qed

lemma rotl_bytes:
  assumes "le_bytes 4 w = [a, b, c, d]"
  shows "le_bytes 4 (word_rotl 8 w :: u32) = [d, a, b, c]"
    and "le_bytes 4 (word_rotl 16 w :: u32) = [c, d, a, b]"
    and "le_bytes 4 (word_rotl 24 w :: u32) = [b, c, d, a]"
proof -
  have w: "a = ucast w" "b = ucast (drop_bit 8 w)" "c = ucast (drop_bit 16 w)" "d = ucast (drop_bit 24 w)"
    using assms by (simp_all add: le_bytes_4)
  have m: "(32 + n) mod 32 = n" "(40 + n) mod 32 = 8 + n" "(48 + n) mod 32 = 16 + n" "n + 24 = 24 + n" "n + 16 = 16 + n" "n + 8 = 8 + n"
    if "n < 8" for n :: nat using that by (simp_all add: mod_if)
  show "le_bytes 4 (word_rotl 8 w) = [d, a, b, c]" "le_bytes 4 (word_rotl 16 w) = [c, d, a, b]"
      "le_bytes 4 (word_rotl 24 w) = [b, c, d, a]"
    unfolding le_bytes_4 w
    by (simp, intro conjI; rule bit_word_eqI; simp add: bit_simps word_rotl_eq_word_rotr bit_word_rotr_iff m)+
qed

lemma TE_bytes:
  assumes "i < 256"
  shows "le_bytes 4 (TE0 ! i) = [gf_mul (SBOX ! i) 2, SBOX ! i, SBOX ! i, gf_mul (SBOX ! i) 3]"
    and "le_bytes 4 (TE1 ! i) = [gf_mul (SBOX ! i) 3, gf_mul (SBOX ! i) 2, SBOX ! i, SBOX ! i]"
    and "le_bytes 4 (TE2 ! i) = [SBOX ! i, gf_mul (SBOX ! i) 3, gf_mul (SBOX ! i) 2, SBOX ! i]"
    and "le_bytes 4 (TE3 ! i) = [SBOX ! i, SBOX ! i, gf_mul (SBOX ! i) 3, gf_mul (SBOX ! i) 2]"
proof -
  have t0: "TE0 ! i = te_entry (SBOX ! i)" using assms by (simp add: TE0_def build_te0_def)
  show b0: "le_bytes 4 (TE0 ! i) = [gf_mul (SBOX ! i) 2, SBOX ! i, SBOX ! i, gf_mul (SBOX ! i) 3]"
    unfolding t0 by (rule le_bytes_te_entry)
  show "le_bytes 4 (TE1 ! i) = [gf_mul (SBOX ! i) 3, gf_mul (SBOX ! i) 2, SBOX ! i, SBOX ! i]"
      "le_bytes 4 (TE2 ! i) = [SBOX ! i, gf_mul (SBOX ! i) 3, gf_mul (SBOX ! i) 2, SBOX ! i]"
      "le_bytes 4 (TE3 ! i) = [SBOX ! i, SBOX ! i, gf_mul (SBOX ! i) 3, gf_mul (SBOX ! i) 2]"
    using assms by (simp_all add: TE1_def TE2_def TE3_def rotl_table_def rotl_bytes [OF b0])
qed

section \<open>The S-box\<close>

definition affine_inverse :: "u8 \<Rightarrow> u8" where
  "affine_inverse b = word_rotl 1 b XOR word_rotl 3 b XOR word_rotl 6 b XOR 0x05"

definition sbox_entry_ok :: "nat \<Rightarrow> bool" where
  "sbox_entry_ok i \<longleftrightarrow>
    (let v = affine_inverse (SBOX ! i) in fips_affine v = SBOX ! i \<and> gf_mul (word_of_nat i) v = (if i = 0 then 0 else 1) \<and> (i = 0 \<longrightarrow> v = 0))"


lemma sbox_entries_0: "\<forall>i \<in> set [0..<64]. sbox_entry_ok i"
  by code_simp

lemma sbox_entries_1: "\<forall>i \<in> set [64..<128]. sbox_entry_ok i"
  by code_simp

lemma sbox_entries_2: "\<forall>i \<in> set [128..<192]. sbox_entry_ok i"
  by code_simp

lemma sbox_entries_3: "\<forall>i \<in> set [192..<256]. sbox_entry_ok i"
  by code_simp

lemma unat_u8_less: "unat (b :: u8) < 256"
  using unsigned_less [of b] by simp

lemma gf_inv_unique:
  assumes "gf_mul b v = 1"
  shows "v = gf_inv b"
proof -
  have "GF b * GF v = 1" using assms by (simp add: times_gf_def one_gf_def)
  then have "GF v = inverse (GF b)" by (metis inverse_unique)
  then show ?thesis by (simp add: inverse_gf_def)
qed

lemma SBOX_affine_inverse: "SBOX ! unat b = fips_sbox b"
proof -
  have "unat b < 256" by (rule unat_u8_less)
  then have "unat b \<in> set [0..<64] \<union> set [64..<128] \<union> set [128..<192] \<union> set [192..<256]"
    unfolding set_upt atLeastLessThan_iff Un_iff by linarith
  then have "sbox_entry_ok (unat b)"
    using sbox_entries_0 sbox_entries_1 sbox_entries_2 sbox_entries_3 by blast
  then have e: "fips_affine (affine_inverse (SBOX ! unat b)) = SBOX ! unat b"
    "b \<noteq> 0 \<Longrightarrow> gf_mul b (affine_inverse (SBOX ! unat b)) = 1" "b = 0 \<Longrightarrow> affine_inverse (SBOX ! unat b) = 0"
    by (simp_all add: sbox_entry_ok_def Let_def unat_eq_zero)
  have "affine_inverse (SBOX ! unat b) = gf_inv b"
  proof (cases "b = 0")
    case True
    then show ?thesis using e(3) by (simp add: gf_inv_def)
  next
    case False
    then show ?thesis using e(2) by (intro gf_inv_unique)
  qed
  then show ?thesis using e(1) by (simp add: fips_sbox_def)
qed

lemma fips_sub_bytes_eq: "fips_sub_bytes s = map (\<lambda>b. SBOX ! unat b) s"
  by (simp add: fips_sub_bytes_def SBOX_affine_inverse)

section \<open>Rounds\<close>

definition column_bytes :: "u32 list \<Rightarrow> bytes" where
  "column_bytes s = concat (map (le_bytes 4) s)"

lemma byte_of_nth: "n < 4 \<Longrightarrow> byte_of w n = unat (le_bytes 4 w ! n)"
proof -
  assume n: "n < 4"
  have m: "(0xff :: u32) = mask 8" by (simp add: mask_eq_exp_minus_1)
  have "unat (drop_bit k w AND 0xff) = unat (ucast (drop_bit k w) :: u8)" for k
    unfolding m take_bit_eq_mask [symmetric] by (simp add: unsigned_take_bit_eq unsigned_ucast_eq)
  moreover have "n = 0 \<or> n = 1 \<or> n = 2 \<or> n = 3" using n by auto
  ultimately show ?thesis by (auto simp: byte_of_def le_bytes_4)
qed

lemma list4: "length xs = 4 \<Longrightarrow> \<exists>a b c d. xs = [a, b, c, d]"
  by (auto simp: numeral_eq_Suc length_Suc_conv)

lemma upt_4: "[0..<4] = [0, 1, 2, 3 :: nat]"
  by (simp add: upt_rec)

lemma upt_16: "[0..<16] = [0, 1, 2, 3, 4, 5, 6, 7, 8, 9, 10, 11, 12, 13, 14, 15 :: nat]"
  by (simp add: upt_rec)

lemma column_bytes_4: "column_bytes [a, b, c, d] = le_bytes 4 a @ le_bytes 4 b @ le_bytes 4 c @ le_bytes 4 d"
  by (simp add: column_bytes_def)

lemma le_bytes_table_column:
  assumes "length s = 4" and "length k = 4" and "c < 4"
  shows "le_bytes 4 (table_column k s c) = map2 (XOR)
     (fips_mix_column (map (\<lambda>r. SBOX ! unat (le_bytes 4 (s ! ((c + r) mod 4)) ! r)) [0..<4])) (le_bytes 4 (k ! c))"
proof -
  have c: "c mod 4 = c" using assms(3) by simp
  show ?thesis
    unfolding table_column_def Let_def
    by (simp add: byte_of_nth le_bytes_xor TE_bytes unat_u8_less upt_4 c)
      (simp add: le_bytes_4 xor.assoc xor.left_commute xor.commute)
qed

lemma table_round:
  assumes "length s = 4" and "length k = 4"
  shows "column_bytes (map (table_column k s) [0..<4]) = fips_round (column_bytes s) (column_bytes k)"
proof -
  obtain s0 s1 s2 s3 where s: "s = [s0, s1, s2, s3]" using list4 [OF assms(1)] by blast
  obtain k0 k1 k2 k3 where k: "k = [k0, k1, k2, k3]" using list4 [OF assms(2)] by blast
  show ?thesis
    unfolding upt_4 by (simp add: column_bytes_4 le_bytes_table_column assms)
      (simp add: s k column_bytes_4 le_bytes_4 upt_4 upt_16 fips_round_def fips_add_round_key_def fips_mix_columns_def
        fips_shift_rows_def fips_sub_bytes_eq chunks_exact.simps)
qed

lemma le_bytes_final_column:
  assumes "c < 4"
  shows "le_bytes 4 (final_column k s c) = map2 (XOR)
     (map (\<lambda>r. SBOX ! unat (le_bytes 4 (s ! ((c + r) mod 4)) ! r)) [0..<4]) (le_bytes 4 (k ! c))"
proof -
  have c: "c mod 4 = c" using assms by simp
  show ?thesis
    unfolding final_column_def Let_def le_bytes_xor le_bytes_pack by (simp add: byte_of_nth upt_4 c)
qed

lemma final_round:
  assumes "length s = 4" and "length k = 4"
  shows "column_bytes (map (final_column k s) [0..<4]) =
    fips_add_round_key (fips_shift_rows (fips_sub_bytes (column_bytes s))) (column_bytes k)"
proof -
  obtain s0 s1 s2 s3 where s: "s = [s0, s1, s2, s3]" using list4 [OF assms(1)] by blast
  obtain k0 k1 k2 k3 where k: "k = [k0, k1, k2, k3]" using list4 [OF assms(2)] by blast
  show ?thesis
    unfolding upt_4 by (simp add: column_bytes_4 le_bytes_final_column)
      (simp add: s k column_bytes_4 le_bytes_4 upt_4 upt_16 fips_add_round_key_def fips_shift_rows_def fips_sub_bytes_eq)
qed

section \<open>The cipher\<close>

definition schedule_ok :: "aes \<Rightarrow> bool" where
  "schedule_ok a \<longleftrightarrow>
    0 < ae_rounds a \<and> length (ae_round_keys a) = Suc (ae_rounds a) \<and> (\<forall>k \<in> set (ae_round_keys a). length k = 4)"

lemma fips_rounds_snoc:
  "fips_rounds s (ks @ [k]) = fips_add_round_key (fips_shift_rows (fips_sub_bytes (foldl fips_round s ks))) k"
proof (induction ks arbitrary: s)
  case (Cons x ks)
  then show ?case by (cases ks) auto
qed simp

lemma table_rounds:
  assumes "length s = 4" and "\<forall>k \<in> set ks. length k = 4"
  shows "length (foldl (\<lambda>s k. map (table_column k s) [0..<4]) s ks) = 4 \<and>
    column_bytes (foldl (\<lambda>s k. map (table_column k s) [0..<4]) s ks) = foldl fips_round (column_bytes s) (map column_bytes ks)"
  using assms
proof (induction ks arbitrary: s)
  case (Cons k ks)
  then show ?case using Cons.IH [of "map (table_column k s) [0..<4]"] by (simp add: table_round)
qed simp

lemma block_columns:
  assumes "length block = 16"
  shows "block = concat (map (\<lambda>c. le_bytes 4 (le32_at block (4 * c))) [0..<4])"
proof -
  have "le_bytes 4 (le32_at block i) = [block ! i, block ! (i + 1), block ! (i + 2), block ! (i + 3)]" for i
    unfolding le32_at_def by (rule le_bytes_of_le_bytes) simp_all
  moreover have "block = map ((!) block) [0..<16]" using assms map_nth [of block] by simp
  ultimately show ?thesis unfolding upt_16 upt_4 by (simp add: numeral_2_eq_2)
qed

lemma map2_append_same:
  "length xs = length us \<Longrightarrow> map2 f (xs @ ys) (us @ vs) = map2 f xs us @ map2 f ys vs"
  by simp

lemma encrypt_block_eq:
  assumes "schedule_ok a" and "length block = 16"
  shows "encrypt_block a block = fips_cipher (map column_bytes (ae_round_keys a)) block"
proof -
  obtain k0 ks where k0: "ae_round_keys a = k0 # ks" "length ks = ae_rounds a"
    using assms(1) by (auto simp: schedule_ok_def length_Suc_conv)
  then obtain mid kl where ks: "ks = mid @ [kl]"
    using assms(1) by (metis schedule_ok_def length_greater_0_conv append_butlast_last_id)
  have len: "length k0 = 4" "length kl = 4" "\<forall>k \<in> set mid. length k = 4" "length mid = ae_rounds a - 1"
    using assms(1) k0 ks by (auto simp: schedule_ok_def)
  let ?s = "map (\<lambda>c. le32_at block (4 * c) XOR k0 ! c) [0..<4]"
  let ?m = "foldl (\<lambda>s k. map (table_column k s) [0..<4]) ?s mid"
  have s: "column_bytes ?s = fips_add_round_key block (column_bytes k0)"
  proof -
    obtain a0 a1 a2 a3 where "k0 = [a0, a1, a2, a3]" using list4 [OF len(1)] by blast
    then show ?thesis
      by (subst (2) block_columns [OF assms(2)])
        (simp add: upt_4 column_bytes_4 le_bytes_xor fips_add_round_key_def)
  qed
  have m: "length ?m = 4" "column_bytes ?m = foldl fips_round (column_bytes ?s) (map column_bytes mid)"
    using table_rounds [of ?s mid] len(3) by simp_all
  have sl: "slice 1 (ae_rounds a - 1) (ae_round_keys a) = mid" "ae_round_keys a ! ae_rounds a = kl"
    using k0 ks len(4) by (auto simp: slice_def nth_append)
  have "encrypt_block a block = column_bytes (map (final_column kl ?m) [0..<4])"
    unfolding encrypt_block_def Let_def sl upt_4 by (simp add: column_bytes_4 k0(1))
  also have "\<dots> = fips_cipher (map column_bytes (ae_round_keys a)) block"
    unfolding final_round [OF m(1) len(2)] m(2) s by (simp add: fips_cipher_def k0(1) ks fips_rounds_snoc)
  finally show ?thesis .
qed

section \<open>The key schedule\<close>

text \<open>The round constants are the powers of \<open>x\<close>, the element 2 of the field, from the zeroth on.\<close>

definition fips_rcon :: "nat \<Rightarrow> u8" where
  "fips_rcon i = ((\<lambda>a. gf_mul a 2) ^^ (i - 1)) 1"

lemma RCON_powers: "1 \<le> i \<Longrightarrow> i < 11 \<Longrightarrow> RCON ! i = fips_rcon i"
proof -
  assume "1 \<le> i" "i < 11"
  then have "i \<in> set [1..<11]" by simp
  moreover have "list_all (\<lambda>i. RCON ! i = (aes_xtime ^^ (i - 1)) 1) [1..<11]" by code_simp
  ultimately have "RCON ! i = (aes_xtime ^^ (i - 1)) 1" unfolding list_all_iff by blast
  moreover have "(\<lambda>a. gf_mul a 2) = aes_xtime" by (rule ext) (rule gf_mul_by_2)
  ultimately show ?thesis by (simp add: fips_rcon_def)
qed

function key_word :: "bytes \<Rightarrow> nat \<Rightarrow> nat \<Rightarrow> bytes" where
  "key_word key nk i =
    (if nk = 0 \<or> i < nk then slice (4 * i) 4 key
     else let temp = key_word key nk (i - 1);
              temp = (if i mod nk = 0 then map2 (XOR) (map fips_sbox (rotate1 temp)) [fips_rcon (i div nk), 0, 0, 0]
                      else if nk > 6 \<and> i mod nk = 4 then map fips_sbox temp
                      else temp)
          in map2 (XOR) (key_word key nk (i - nk)) temp)"
  by pat_completeness auto
termination by (relation "measure (\<lambda>(_, _, i). i)") auto

declare key_word.simps [simp del]

lemma length_key_word: "0 < nk \<Longrightarrow> 4 * nk \<le> length key \<Longrightarrow> length (key_word key nk i) = 4"
proof (induction key nk i rule: key_word.induct)
  case (1 key nk i)
  show ?case
  proof (cases "i < nk")
    case True
    then show ?thesis using 1(4) by (simp add: key_word.simps [of key nk i])
  next
    case False
    then show ?thesis using 1 by (subst key_word.simps) (simp add: Let_def)
  qed
qed

lemma schedule_word_step:
  assumes "0 < nk" and "4 * nk \<le> length key" and "nk \<le> i" and "i < length w" and "\<forall>j < i. w ! j = key_word key nk j"
    and "i < 11 * nk"
  shows "schedule_word nk w i = w[i := key_word key nk i]"
proof -
  have w: "w ! (i - 1) = key_word key nk (i - 1)" "w ! (i - nk) = key_word key nk (i - nk)"
    using assms by auto
  obtain a b c d where t: "key_word key nk (i - 1) = [a, b, c, d]"
    using list4 [OF length_key_word [OF assms(1,2)]] by blast
  obtain p q r s where u: "key_word key nk (i - nk) = [p, q, r, s]"
    using list4 [OF length_key_word [OF assms(1,2)]] by blast
  have "1 \<le> i div nk" "i div nk < 11"
    using assms(1,3,6) by (simp_all add: div_less_iff_less_mult Suc_le_eq div_greater_zero_iff)
  note rcon = RCON_powers [OF this]
  show ?thesis
    unfolding schedule_word_def Let_def w key_word.simps [of key nk i] t u rcon using assms(1,3)
    by (simp add: sub_word_def upt_4 SBOX_affine_inverse)
qed

lemma schedule_loop:
  assumes "0 < nk" and "4 * nk \<le> length key" and "nk \<le> m" and "m \<le> length w" and "\<forall>j < nk. w ! j = key_word key nk j"
    and "m \<le> 11 * nk"
  shows "length (foldl (schedule_word nk) w [nk..<m]) = length w \<and>
    (\<forall>j < m. foldl (schedule_word nk) w [nk..<m] ! j = key_word key nk j)"
  using assms(3,4,6)
proof (induction m rule: nat_induct_at_least)
  case base
  then show ?case using assms(5) by simp
next
  case (Suc m)
  then show ?case
    using schedule_word_step [OF assms(1,2), of m "foldl (schedule_word nk) w [nk..<m]"]
    by (auto simp: nth_list_update less_Suc_eq)
qed

lemma key_load:
  assumes "4 * nk \<le> length key" and "nk \<le> length w"
  shows "length (foldl (\<lambda>w i. w[i := [key ! (4 * i), key ! (4 * i + 1), key ! (4 * i + 2), key ! (4 * i + 3)]]) w [0..<nk]) = length w \<and>
    (\<forall>j < nk. foldl (\<lambda>w i. w[i := [key ! (4 * i), key ! (4 * i + 1), key ! (4 * i + 2), key ! (4 * i + 3)]]) w [0..<nk] ! j
      = slice (4 * j) 4 key)"
  using assms
proof (induction nk)
  case (Suc nk)
  have "slice (4 * nk) 4 key = [key ! (4 * nk), key ! (4 * nk + 1), key ! (4 * nk + 2), key ! (4 * nk + 3)]"
    using Suc.prems by (intro nth_equalityI) (auto simp: slice_def numeral_eq_Suc less_Suc_eq)
  then show ?case using Suc by (auto simp: less_Suc_eq)
qed simp

lemma aes_expand_words:
  assumes "0 < nk" and "length key = 4 * nk" and "nk \<le> 4 * (rounds + 1)" and "4 * (rounds + 1) \<le> 11 * nk"
    and "r \<le> rounds" and "c < 4"
  shows "ae_round_keys (aes_expand key nk rounds) ! r ! c = of_le_bytes (key_word key nk (4 * r + c))"
proof -
  let ?t = "4 * (rounds + 1)"
  let ?w = "foldl (\<lambda>w i. w[i := [key ! (4 * i), key ! (4 * i + 1), key ! (4 * i + 2), key ! (4 * i + 3)]])
      (replicate ?t (replicate 4 0)) [0..<nk]"
  have "\<forall>j < nk. ?w ! j = key_word key nk j" "length ?w = ?t"
    using key_load [of nk key "replicate ?t (replicate 4 0)"] assms by (simp_all add: key_word.simps)
  then have "\<forall>j < ?t. foldl (schedule_word nk) ?w [nk..<?t] ! j = key_word key nk j"
    using schedule_loop [of nk key ?t ?w] assms by simp
  moreover have "4 * r + c < ?t" using assms by simp
  ultimately have "foldl (schedule_word nk) ?w [nk..<?t] ! (4 * r + c) = key_word key nk (4 * r + c)" by blast
  then show ?thesis
    unfolding aes_expand_def Let_def using assms(5,6) by (simp del: upt_Suc replicate.simps add: less_Suc_eq_le)
qed

lemma length_round_keys: "length (ae_round_keys (aes_expand key nk rounds)) = Suc rounds"
  by (simp add: aes_expand_def Let_def)

lemma aes_expand_ok: "0 < rounds \<Longrightarrow> schedule_ok (aes_expand key nk rounds)"
  by (auto simp: schedule_ok_def aes_expand_def Let_def)

lemma aes_expand_round_keys:
  assumes "0 < nk" and "length key = 4 * nk" and "nk \<le> 4 * (rounds + 1)" and "4 * (rounds + 1) \<le> 11 * nk"
  shows "map column_bytes (ae_round_keys (aes_expand key nk rounds)) =
    map (\<lambda>r. concat (map (key_word key nk) [4 * r..<4 * r + 4])) [0..<Suc rounds]"
proof (rule nth_equalityI)
  fix r
  let ?a = "aes_expand key nk rounds"
  assume "r < length (map column_bytes (ae_round_keys ?a))"
  then have r: "r \<le> rounds" by (simp add: length_round_keys)
  have "length (ae_round_keys ?a ! r) = 4" using r by (simp add: aes_expand_def Let_def del: upt_Suc)
  then have "ae_round_keys ?a ! r = map (\<lambda>c. of_le_bytes (key_word key nk (4 * r + c))) [0..<4]"
    using aes_expand_words [OF assms r] by (intro nth_equalityI) simp_all
  moreover have "le_bytes 4 (of_le_bytes (key_word key nk j) :: u32) = key_word key nk j" for j
    by (rule le_bytes_of_le_bytes) (use assms in \<open>simp_all add: length_key_word\<close>)
  moreover have "[4 * r..<4 * r + 4] = map ((+) (4 * r)) [0..<4]" by (simp add: upt_rec numeral_eq_Suc)
  ultimately show "map column_bytes (ae_round_keys ?a) ! r =
      map (\<lambda>r. concat (map (key_word key nk) [4 * r..<4 * r + 4])) [0..<Suc rounds] ! r"
    using r by (simp add: column_bytes_def comp_def length_round_keys del: upt_Suc)
qed (simp add: length_round_keys)

definition fips197 :: "nat \<Rightarrow> nat \<Rightarrow> bytes \<Rightarrow> bytes \<Rightarrow> bytes" where
  "fips197 nk rounds key block =
    fips_cipher (map (\<lambda>r. concat (map (key_word key nk) [4 * r..<4 * r + 4])) [0..<Suc rounds]) block"

lemma encrypt_block_expand:
  assumes "length block = 16" and "0 < nk" and "length key = 4 * nk" and "nk \<le> 4 * (rounds + 1)"
    and "4 * (rounds + 1) \<le> 11 * nk" and "0 < rounds"
  shows "encrypt_block (aes_expand key nk rounds) block = fips197 nk rounds key block"
  using assms by (simp add: encrypt_block_eq aes_expand_ok aes_expand_round_keys fips197_def del: upt_Suc)

text \<open>
  C33: The table-driven block encryption is AES as FIPS 197 defines it, for both key sizes: the bytes the
  lookups, rotations and packed round keys produce are those of SubBytes (inverse in the field of 256 elements
  and affine map), ShiftRows, MixColumns and AddRoundKey over the standard's key schedule, with the powers of \<open>x\<close> as
  round constants.
\<close>

theorem aes_is_fips197:
  assumes "length block = 16" and "length key128 = 16" and "length key256 = 32"
  shows "encrypt_block (aes_new_128 key128) block = fips197 4 10 key128 block \<and>
    encrypt_block (aes_new_256 key256) block = fips197 8 14 key256 block"
  using assms by (simp add: aes_new_128_def aes_new_256_def encrypt_block_expand)

theorem aes_is_fips197_witness:
  "encrypt_block (aes_new_128 (replicate 16 7)) (replicate 16 3) = fips197 4 10 (replicate 16 7) (replicate 16 3) \<and>
   encrypt_block (aes_new_256 (replicate 32 9)) (replicate 16 3) = fips197 8 14 (replicate 32 9) (replicate 16 3)"
  by (rule aes_is_fips197) simp_all

end
