(* ===== verification/Poly1305_Field.thy ===== *)
theory Poly1305_Field
  imports Chacha_Poly
begin

text \<open>
  The limb arithmetic of Poly1305 computes in the field of \<open>2 ^ 130 - 5\<close> elements: what five 26-bit
  limbs stand for, the bounds that keep every word operation of the code exact, and the values of the
  product, of the final reduction and of the tag.
\<close>

section \<open>Words as numbers\<close>

abbreviation M26 :: nat where "M26 \<equiv> 67108864"

definition P1305 :: nat where "P1305 = 2 ^ 130 - 5"

fun limb_val :: "limbs \<Rightarrow> nat" where
  "limb_val (h0, h1, h2, h3, h4) =
    unat h0 + M26 * (unat h1 + M26 * (unat h2 + M26 * (unat h3 + M26 * unat h4)))"

named_theorems word_val

lemma unat_mask26 [word_val]: "unat (x AND 0x3ffffff :: u32) = unat x mod M26"
proof -
  have "x AND 0x3ffffff = take_bit 26 x" by (simp add: take_bit_eq_mask mask_eq_exp_minus_1)
  then show ?thesis by (simp add: take_bit_eq_mod unat_mod)
qed

lemma unat_shift26 [word_val]: "unat (drop_bit 26 x) = unat x div M26"
  unfolding unat_drop_bit_eq by (simp add: drop_bit_eq_div)

lemma unat_ucast64 [word_val]: "unat (ucast (x :: u32) :: u64) = unat x"
proof -
  have "unat x < 2 ^ LENGTH(32)" by (rule unsigned_less)
  then show ?thesis by (simp add: unsigned_ucast_eq take_bit_nat_eq_self)
qed

lemma unat_ucast32: "unat (x :: u64) < 2 ^ 32 \<Longrightarrow> unat (ucast x :: u32) = unat x"
  by (simp add: unsigned_ucast_eq take_bit_nat_eq_self)

lemma unat_ucast32_mod: "unat (ucast x :: u32) = unat (x :: u64) mod 2 ^ 32"
  by (simp add: unsigned_ucast_eq take_bit_eq_mod)

lemma unat_ucast_mod26 [word_val]: "unat (ucast (d :: u64) :: u32) mod M26 = unat d mod M26"
  by (simp add: unat_ucast32_mod mod_mod_cancel)

lemma unat_low26: "unat (ucast (d :: u64) AND 0x3ffffff :: u32) = unat d mod M26"
  by (simp add: word_val)

lemma unat_add_exact: "unat x + unat y < 2 ^ LENGTH('a) \<Longrightarrow> unat (x + y) = unat x + unat y" for x y :: "'a::len word"
  by (simp add: unat_word_ariths)

lemma unat_m64 [word_val]: "unat (m64 a b) = unat a * unat b"
proof -
  have "unat a < 2 ^ LENGTH(32)" "unat b < 2 ^ LENGTH(32)" by (rule unsigned_less)+
  then have "unat a * unat b < 2 ^ 32 * 2 ^ 32" by (intro mult_strict_mono) simp_all
  then show ?thesis by (simp add: m64_def unat_word_ariths unat_ucast64)
qed

section \<open>The product\<close>

text \<open>
  With \<open>s\<^sub>i = 5 r\<^sub>i\<close> the five column sums are the product of the two numbers with what lies above
  \<open>2 ^ 130\<close> folded back five-fold.
\<close>

lemma limb_product:
  fixes B :: nat
  assumes "k = h1 * r4 + h2 * r3 + h3 * r2 + h4 * r1 + B * (h2 * r4 + h3 * r3 + h4 * r2
      + B * (h3 * r4 + h4 * r3 + B * (h4 * r4)))"
  shows "(h0 + B * (h1 + B * (h2 + B * (h3 + B * h4)))) * (r0 + B * (r1 + B * (r2 + B * (r3 + B * r4)))) + 5 * k
    = (h0 * r0 + h1 * (5 * r4) + h2 * (5 * r3) + h3 * (5 * r2) + h4 * (5 * r1))
    + B * ((h0 * r1 + h1 * r0 + h2 * (5 * r4) + h3 * (5 * r3) + h4 * (5 * r2))
    + B * ((h0 * r2 + h1 * r1 + h2 * r0 + h3 * (5 * r4) + h4 * (5 * r3))
    + B * ((h0 * r3 + h1 * r2 + h2 * r1 + h3 * r0 + h4 * (5 * r4))
    + B * (h0 * r4 + h1 * r3 + h2 * r2 + h3 * r1 + h4 * r0))))
    + B * (B * (B * (B * (B * k))))"
  unfolding assms by (simp add: algebra_simps)

lemma carry_chain:
  fixes d0 d1 d2 d3 d4 :: nat
  assumes "d0 = M26 * q0 + l0" and "d1 + q0 = M26 * q1 + l1" and "d2 + q1 = M26 * q2 + l2"
    and "d3 + q2 = M26 * q3 + l3" and "d4 + q3 = M26 * q4 + l4" and "l0 + 5 * q4 = M26 * q5 + l5"
  shows "l5 + M26 * ((l1 + q5) + M26 * (l2 + M26 * (l3 + M26 * l4))) + P1305 * q4
    = d0 + M26 * (d1 + M26 * (d2 + M26 * (d3 + M26 * d4)))"
  using assms unfolding P1305_def by simp

lemma mult_bound: "a \<le> x \<Longrightarrow> b \<le> y \<Longrightarrow> a * b \<le> x * (y :: nat)"
  by (rule mult_le_mono)


lemma unat_add5:
  fixes a b c d e :: u64
  assumes "unat a + unat b + unat c + unat d + unat e < 2 ^ 64"
  shows "unat (a + b + c + d + e) = unat a + unat b + unat c + unat d + unat e"
  using assms by (simp add: unat_add_exact)

abbreviation HB :: nat where "HB \<equiv> 134217791"

fun limbs_ok :: "limbs \<Rightarrow> bool" where
  "limbs_ok (h0, h1, h2, h3, h4) \<longleftrightarrow>
    unat h0 < M26 \<and> unat h1 < M26 + 64 \<and> unat h2 < M26 \<and> unat h3 < M26 \<and> unat h4 < M26"

fun key_ok :: "limbs \<Rightarrow> u32 \<times> u32 \<times> u32 \<times> u32 \<Rightarrow> bool" where
  "key_ok (r0, r1, r2, r3, r4) (s1, s2, s3, s4) \<longleftrightarrow>
    unat r0 < M26 \<and> unat r1 < M26 \<and> unat r2 < M26 \<and> unat r3 < M26 \<and> unat r4 < M26 \<and>
    unat s1 = 5 * unat r1 \<and> unat s2 = 5 * unat r2 \<and> unat s3 = 5 * unat r3 \<and> unat s4 = 5 * unat r4"

text \<open>One carry of the chain: the column and the carry fit in 64 bits, the new carry in 32.\<close>

lemma carry_step:
  fixes d :: u64 and c :: u32
  assumes "unat d \<le> 21 * HB * M26"
  shows "unat (d + ucast c) = unat d + unat c"
    and "unat (ucast (drop_bit 26 (d + ucast c)) :: u32) = (unat d + unat c) div M26"
proof -
  have c: "unat c < 2 ^ LENGTH(32)" by (rule unsigned_less)
  show s: "unat (d + ucast c) = unat d + unat c"
    using assms c by (simp add: unat_add_exact unat_ucast64)
  have "(unat d + unat c) div M26 \<le> (21 * HB * M26 + 2 ^ 32) div M26"
    using assms c by (intro div_le_mono) simp
  then have "(unat d + unat c) div M26 < 2 ^ 32" by simp
  then show "unat (ucast (drop_bit 26 (d + ucast c)) :: u32) = (unat d + unat c) div M26"
    using s by (simp add: unat_ucast32 unat_shift26)
qed

lemma carry_first:
  fixes d :: u64
  assumes "unat d \<le> 21 * HB * M26"
  shows "unat (ucast (drop_bit 26 d) :: u32) = unat d div M26"
proof -
  have "unat d div M26 \<le> (21 * HB * M26) div M26" using assms by (rule div_le_mono)
  then have "unat d div M26 < 2 ^ 32" by simp
  then show "unat (ucast (drop_bit 26 d) :: u32) = unat d div M26"
    by (simp add: unat_ucast32 unat_shift26)
qed

lemma last_carry:
  fixes h :: u32 and c :: u32
  assumes "unat h < M26" and "unat c \<le> 5 * HB + 64"
  shows "unat (h + c * 5) = unat h + 5 * unat c" and "(unat h + 5 * unat c) div M26 < 64"
proof -
  have "unat (c * 5) = 5 * unat c" using assms(2) by (simp add: unat_word_ariths)
  then show "unat (h + c * 5) = unat h + 5 * unat c" using assms by (simp add: unat_add_exact)
  show "(unat h + 5 * unat c) div M26 < 64" using assms by (simp add: div_less_iff_less_mult)
qed

lemma carry_all:
  fixes d0 d1 d2 d3 d4 :: u64
  assumes "unat d0 \<le> 21 * HB * M26" and "unat d1 \<le> 21 * HB * M26" and "unat d2 \<le> 21 * HB * M26"
    and "unat d3 \<le> 21 * HB * M26" and "unat d4 \<le> 5 * HB * M26"
  defines "c0 \<equiv> ucast (drop_bit 26 d0) :: u32"
  defines "c1 \<equiv> ucast (drop_bit 26 (d1 + ucast c0)) :: u32"
  defines "c2 \<equiv> ucast (drop_bit 26 (d2 + ucast c1)) :: u32"
  defines "c3 \<equiv> ucast (drop_bit 26 (d3 + ucast c2)) :: u32"
  defines "c4 \<equiv> ucast (drop_bit 26 (d4 + ucast c3)) :: u32"
  defines "x \<equiv> (ucast d0 AND 0x3ffffff) + c4 * 5"
  defines "h \<equiv> (x AND 0x3ffffff, (ucast (d1 + ucast c0) AND 0x3ffffff) + drop_bit 26 x,
      ucast (d2 + ucast c1) AND 0x3ffffff, ucast (d3 + ucast c2) AND 0x3ffffff,
      ucast (d4 + ucast c3) AND 0x3ffffff)"
  shows "limbs_ok h"
    and "limb_val h + P1305 * unat c4 = unat d0 + M26 * (unat d1 + M26 * (unat d2 + M26 * (unat d3 + M26 * unat d4)))"
proof -
  have b4: "unat d4 \<le> 21 * HB * M26" using assms(5) by simp
  note s0 = carry_first [OF assms(1)] and s1 = carry_step [OF assms(2), of c0] and s2 = carry_step [OF assms(3), of c1]
    and s3 = carry_step [OF assms(4), of c2] and s4 = carry_step [OF b4, of c3]
  have q: "unat c0 = unat d0 div M26" "unat c1 = (unat d1 + unat c0) div M26" "unat c2 = (unat d2 + unat c1) div M26"
    "unat c3 = (unat d3 + unat c2) div M26" "unat c4 = (unat d4 + unat c3) div M26"
    using s0 s1(2) s2(2) s3(2) s4(2) by (simp_all only: c0_def [symmetric] c1_def [symmetric] c2_def [symmetric]
      c3_def [symmetric] c4_def [symmetric])
  have "unat c3 < 2 ^ LENGTH(32)" by (rule unsigned_less)
  then have "(unat d4 + unat c3) div M26 \<le> (5 * HB * M26 + 2 ^ 32) div M26"
    using assms(5) by (intro div_le_mono) simp
  then have "unat c4 \<le> 5 * HB + 64" using q(5) by simp
  then have x: "unat x = unat d0 mod M26 + 5 * unat c4" "unat x div M26 < 64"
    using last_carry [of "ucast d0 AND 0x3ffffff" c4] by (simp_all add: x_def unat_low26)
  have l1: "unat ((ucast (d1 + ucast c0) AND 0x3ffffff) + drop_bit 26 x) = (unat d1 + unat c0) mod M26 + unat x div M26"
    using x(2) mod_less_divisor [of M26 "unat d1 + unat c0"] s1(1)
    by (subst unat_add_exact) (simp_all add: unat_low26 unat_shift26)
  show "limbs_ok h"
    using x(2) mod_less_divisor [of M26 "unat d1 + unat c0"] l1 unfolding h_def by (simp add: word_val)
  have v: "limb_val h = unat x mod M26 + M26 * ((unat d1 + unat c0) mod M26 + unat x div M26
      + M26 * ((unat d2 + unat c1) mod M26 + M26 * ((unat d3 + unat c2) mod M26 + M26 * ((unat d4 + unat c3) mod M26))))"
    using l1 s2(1) s3(1) s4(1) unfolding h_def by (simp add: word_val)
  show "limb_val h + P1305 * unat c4 = unat d0 + M26 * (unat d1 + M26 * (unat d2 + M26 * (unat d3 + M26 * unat d4)))"
    unfolding v
    by (rule carry_chain [of "unat d0" "unat c0" "unat d0 mod M26" "unat d1" "unat c1" _ "unat d2" "unat c2" _
          "unat d3" "unat c3" _ "unat d4" "unat c4" _ "unat x div M26" "unat x mod M26"])
      (simp only: q(1) mult_div_mod_eq, simp only: q(2) mult_div_mod_eq, simp only: q(3) mult_div_mod_eq,
        simp only: q(4) mult_div_mod_eq, simp only: q(5) mult_div_mod_eq, simp only: x(1) [symmetric] mult_div_mod_eq)
qed


lemma column_bound:
  assumes "a \<le> HB" "b \<le> HB" "c \<le> HB" "d \<le> HB" "e \<le> HB"
    and "x \<le> M26" "y \<le> 5 * M26" "z \<le> 5 * M26" "u \<le> 5 * M26" "v \<le> 5 * M26"
  shows "a * x + b * y + c * z + d * u + e * v \<le> 21 * HB * M26"
proof -
  have "a * x \<le> HB * M26" using assms by (intro mult_le_mono)
  moreover have "b * y \<le> HB * (5 * M26)" "c * z \<le> HB * (5 * M26)" "d * u \<le> HB * (5 * M26)" "e * v \<le> HB * (5 * M26)"
    by (rule mult_le_mono; fact assms)+
  ultimately show ?thesis by simp
qed

lemma top_column_bound:
  assumes "a \<le> HB" "b \<le> HB" "c \<le> HB" "d \<le> HB" "e \<le> HB"
    and "x \<le> M26" "y \<le> M26" "z \<le> M26" "u \<le> M26" "v \<le> M26"
  shows "a * x + b * y + c * z + d * u + e * v \<le> 5 * HB * M26"
proof -
  have "a * x \<le> HB * M26" "b * y \<le> HB * M26" "c * z \<le> HB * M26" "d * u \<le> HB * M26" "e * v \<le> HB * M26"
    by (rule mult_le_mono; fact assms)+
  then show ?thesis by simp
qed

lemma unat_column:
  assumes "unat a * unat x + unat b * unat y + unat c * unat z + unat d * unat u + unat e * unat v \<le> 21 * HB * M26"
  shows "unat (m64 a x + m64 b y + m64 c z + m64 d u + m64 e v)
    = unat a * unat x + unat b * unat y + unat c * unat z + unat d * unat u + unat e * unat v"
  using assms by (subst unat_add5) (simp_all add: unat_m64)

fun limbs_small :: "limbs \<Rightarrow> bool" where
  "limbs_small (h0, h1, h2, h3, h4) \<longleftrightarrow>
    unat h0 \<le> HB \<and> unat h1 \<le> HB \<and> unat h2 \<le> HB \<and> unat h3 \<le> HB \<and> unat h4 \<le> HB"

lemma P1305_fold: "P1305 * k + 5 * k = M26 * (M26 * (M26 * (M26 * (M26 * k))))"
  unfolding P1305_def by simp

lemma mul_reduce_val:
  assumes "limbs_small h" and "key_ok r rs"
  shows "limbs_ok (mul_reduce h r rs)" and "limb_val (mul_reduce h r rs) mod P1305 = limb_val h * limb_val r mod P1305"
proof -
  obtain h0 h1 h2 h3 h4 where h: "h = (h0, h1, h2, h3, h4)" by (cases h)
  obtain r0 r1 r2 r3 r4 where r: "r = (r0, r1, r2, r3, r4)" by (cases r)
  obtain s1 s2 s3 s4 where rs: "rs = (s1, s2, s3, s4)" by (cases rs)
  have s: "unat s1 = 5 * unat r1" "unat s2 = 5 * unat r2" "unat s3 = 5 * unat r3" "unat s4 = 5 * unat r4"
    and rb: "unat r0 \<le> M26" "unat r1 \<le> M26" "unat r2 \<le> M26" "unat r3 \<le> M26" "unat r4 \<le> M26"
    using assms(2) unfolding r rs by simp_all
  have sb: "unat s1 \<le> 5 * M26" "unat s2 \<le> 5 * M26" "unat s3 \<le> 5 * M26" "unat s4 \<le> 5 * M26"
    "unat r0 \<le> 5 * M26" "unat r1 \<le> 5 * M26" "unat r2 \<le> 5 * M26" "unat r3 \<le> 5 * M26" "unat r4 \<le> 5 * M26"
    using s rb by simp_all
  have hb: "unat h0 \<le> HB" "unat h1 \<le> HB" "unat h2 \<le> HB" "unat h3 \<le> HB" "unat h4 \<le> HB"
    using assms(1) unfolding h by simp_all
  define d0 where "d0 = m64 h0 r0 + m64 h1 s4 + m64 h2 s3 + m64 h3 s2 + m64 h4 s1"
  define d1 where "d1 = m64 h0 r1 + m64 h1 r0 + m64 h2 s4 + m64 h3 s3 + m64 h4 s2"
  define d2 where "d2 = m64 h0 r2 + m64 h1 r1 + m64 h2 r0 + m64 h3 s4 + m64 h4 s3"
  define d3 where "d3 = m64 h0 r3 + m64 h1 r2 + m64 h2 r1 + m64 h3 r0 + m64 h4 s4"
  define d4 where "d4 = m64 h0 r4 + m64 h1 r3 + m64 h2 r2 + m64 h3 r1 + m64 h4 r0"
  note col = column_bound [OF hb]
  have b: "unat d0 \<le> 21 * HB * M26" "unat d1 \<le> 21 * HB * M26" "unat d2 \<le> 21 * HB * M26" "unat d3 \<le> 21 * HB * M26"
    unfolding d0_def d1_def d2_def d3_def by (subst unat_column; (rule col; fact rb sb))+
  have t: "unat d4 \<le> 5 * HB * M26"
    unfolding d4_def using top_column_bound [OF hb rb(5,4,3,2,1)] by (subst unat_column) simp_all
  have e: "unat d0 = unat h0 * unat r0 + unat h1 * unat s4 + unat h2 * unat s3 + unat h3 * unat s2 + unat h4 * unat s1"
    "unat d1 = unat h0 * unat r1 + unat h1 * unat r0 + unat h2 * unat s4 + unat h3 * unat s3 + unat h4 * unat s2"
    "unat d2 = unat h0 * unat r2 + unat h1 * unat r1 + unat h2 * unat r0 + unat h3 * unat s4 + unat h4 * unat s3"
    "unat d3 = unat h0 * unat r3 + unat h1 * unat r2 + unat h2 * unat r1 + unat h3 * unat r0 + unat h4 * unat s4"
    "unat d4 = unat h0 * unat r4 + unat h1 * unat r3 + unat h2 * unat r2 + unat h3 * unat r1 + unat h4 * unat r0"
    unfolding d0_def d1_def d2_def d3_def d4_def by (subst unat_column; (rule refl | (rule col; fact rb sb)))+
  note m = carry_all [OF b t]
  have eq: "mul_reduce h r rs = (let c0 = ucast (drop_bit 26 d0) :: u32;
      c1 = ucast (drop_bit 26 (d1 + ucast c0)) :: u32; c2 = ucast (drop_bit 26 (d2 + ucast c1)) :: u32;
      c3 = ucast (drop_bit 26 (d3 + ucast c2)) :: u32; c4 = ucast (drop_bit 26 (d4 + ucast c3)) :: u32;
      x = (ucast d0 AND 0x3ffffff) + c4 * 5
    in (x AND 0x3ffffff, (ucast (d1 + ucast c0) AND 0x3ffffff) + drop_bit 26 x,
      ucast (d2 + ucast c1) AND 0x3ffffff, ucast (d3 + ucast c2) AND 0x3ffffff, ucast (d4 + ucast c3) AND 0x3ffffff))"
    unfolding mul_reduce_def h r rs d0_def d1_def d2_def d3_def d4_def Let_def prod.case ..
  show "limbs_ok (mul_reduce h r rs)" unfolding eq Let_def by (rule m(1))
  obtain c where c: "limb_val (mul_reduce h r rs) + P1305 * c
      = unat d0 + M26 * (unat d1 + M26 * (unat d2 + M26 * (unat d3 + M26 * unat d4)))"
    using m(2) unfolding eq Let_def by metis
  define k where "k = unat h1 * unat r4 + unat h2 * unat r3 + unat h3 * unat r2 + unat h4 * unat r1
      + M26 * (unat h2 * unat r4 + unat h3 * unat r3 + unat h4 * unat r2
      + M26 * (unat h3 * unat r4 + unat h4 * unat r3 + M26 * (unat h4 * unat r4)))"
  have "limb_val h * limb_val r + 5 * k
      = unat d0 + M26 * (unat d1 + M26 * (unat d2 + M26 * (unat d3 + M26 * unat d4)))
        + M26 * (M26 * (M26 * (M26 * (M26 * k))))"
    unfolding e s h r limb_val.simps by (rule limb_product [OF k_def])
  then have "limb_val h * limb_val r = limb_val (mul_reduce h r rs) + P1305 * (c + k)"
    using c P1305_fold [of k] unfolding distrib_left by linarith
  then show "limb_val (mul_reduce h r rs) mod P1305 = limb_val h * limb_val r mod P1305" by simp
qed


section \<open>Reading and packing words\<close>

primrec le_num :: "bytes \<Rightarrow> nat" where
  "le_num [] = 0"
| "le_num (b # bs) = unat b + 256 * le_num bs"

lemma le_num_append: "le_num (a @ b) = le_num a + 256 ^ length a * le_num b"
  by (induction a) (simp_all add: algebra_simps)

lemma le_num_zeros [simp]: "le_num (replicate n 0) = 0"
  by (induction n) simp_all

lemma le_num_less: "le_num bs < 256 ^ length bs"
proof (induction bs)
  case (Cons b bs)
  have "unat b < 2 ^ LENGTH(8)" by (rule unsigned_less)
  then show ?case using Cons by simp
qed simp

lemma unat_or_shift:
  fixes a b :: u32
  assumes "unat a < 2 ^ k" and "unat b < 2 ^ j" and "k + j \<le> 32"
  shows "unat (a OR push_bit k b) = unat a + 2 ^ k * unat b"
proof -
  have ta: "take_bit k a = a"
    using assms(1) by (simp add: word_unat_eq_iff unsigned_take_bit_eq take_bit_nat_eq_self)
  have "a AND push_bit k b = 0"
  proof (rule bit_word_eqI)
    fix n
    have "bit a n \<Longrightarrow> n < k" using ta by (metis bit_take_bit_iff)
    then show "bit (a AND push_bit k b) n = bit (0 :: u32) n" by (auto simp: bit_simps)
  qed
  then have e: "a OR push_bit k b = a + push_bit k b" by (rule disjunctive_add_eq_or [symmetric])
  have p: "2 ^ k * unat b + 2 ^ k \<le> 2 ^ 32"
  proof -
    have "2 ^ k * unat b + 2 ^ k = 2 ^ k * (unat b + 1)" by simp
    also have "\<dots> \<le> 2 ^ k * 2 ^ j" using assms(2) by (intro mult_le_mono) simp_all
    also have "\<dots> = (2 :: nat) ^ (k + j)" by (simp add: power_add)
    also have "\<dots> \<le> 2 ^ 32" using assms(3) by (intro power_increasing) simp_all
    finally show ?thesis .
  qed
  have "(2 :: nat) ^ k > 0" by simp
  then have "2 ^ k * unat b < 2 ^ 32" using p by linarith
  then have "unat (push_bit k b) = 2 ^ k * unat b"
    unfolding unsigned_push_bit_eq by (simp add: push_bit_eq_mult take_bit_nat_eq_self mult.commute)
  then show ?thesis using e p assms(1) by (simp add: unat_add_exact)
qed

lemma shift_take32: "push_bit k b = push_bit k (take_bit (32 - k) b)" for b :: u32
  by (rule bit_word_eqI) (auto simp: bit_simps)

lemma unat_take32: "unat (take_bit n (b :: u32)) = unat b mod 2 ^ n"
  unfolding unsigned_take_bit_eq by (rule take_bit_eq_mod)

lemma unat_or_shift_mod:
  fixes a b :: u32
  assumes "unat a < 2 ^ k" and "k \<le> 32"
  shows "unat (a OR push_bit k b) = unat a + 2 ^ k * (unat b mod 2 ^ (32 - k))"
proof -
  have "unat (a OR push_bit k (take_bit (32 - k) b)) = unat a + 2 ^ k * unat (take_bit (32 - k) b)"
    using assms by (intro unat_or_shift [where j = "32 - k"]) (simp_all add: unat_take32)
  then show ?thesis by (simp add: unat_take32 flip: shift_take32)
qed

lemma unat_or_shift_mask:
  fixes a b :: u32
  assumes "unat a < 2 ^ k" and "k \<le> 26"
  shows "unat ((a OR push_bit k b) AND 0x3ffffff) = unat a + 2 ^ k * (unat b mod 2 ^ (26 - k))"
proof -
  have "unat ((a OR push_bit k b) AND 0x3ffffff) = (unat a + 2 ^ k * (unat b mod 2 ^ (32 - k))) mod 2 ^ 26"
    using assms by (simp add: unat_mask26 unat_or_shift_mod)
  also have "\<dots> = unat a + 2 ^ k * (unat b mod 2 ^ (26 - k))"
  proof -
    have s: "(2 :: nat) ^ 26 = 2 ^ k * 2 ^ (26 - k)" using assms(2) by (simp flip: power_add)
    have "unat b mod 2 ^ (32 - k) mod 2 ^ (26 - k) = unat b mod 2 ^ (26 - k)"
      by (intro mod_mod_cancel le_imp_power_dvd) simp
    then have "(2 ^ k * (unat b mod 2 ^ (32 - k))) mod 2 ^ 26 = 2 ^ k * (unat b mod 2 ^ (26 - k))"
      unfolding s by (simp add: mod_mult_mult1)
    moreover have "unat a + 2 ^ k * (unat b mod 2 ^ (26 - k)) < 2 ^ 26"
    proof -
      have "unat b mod 2 ^ (26 - k) + 1 \<le> 2 ^ (26 - k)" by (simp add: Suc_leI)
      then have "2 ^ k * (unat b mod 2 ^ (26 - k) + 1) \<le> 2 ^ 26" unfolding s by (rule mult_le_mono2)
      then show ?thesis using assms(1) by simp
    qed
    ultimately show ?thesis by (metis mod_add_right_eq mod_less)
  qed
  finally show ?thesis .
qed

lemma unat_le32_at:
  "unat (le32_at b i) = unat (b ! i) + 2 ^ 8 * unat (b ! (i + 1)) + 2 ^ 16 * unat (b ! (i + 2)) + 2 ^ 24 * unat (b ! (i + 3))"
proof -
  have u: "unat (ucast x :: u32) = unat x" and l: "unat x < 2 ^ 8" for x :: u8
  proof -
    have "unat x < 2 ^ LENGTH(8)" by (rule unsigned_less)
    then show "unat x < 2 ^ 8" "unat (ucast x :: u32) = unat x" by (simp_all add: unsigned_ucast_eq take_bit_nat_eq_self)
  qed
  have step: "unat (ucast x OR push_bit 8 w :: u32) = unat x + 2 ^ 8 * unat w" if "unat w < 2 ^ 24" for x :: u8 and w
    using unat_or_shift [of "ucast x" 8 w 24] that l [of x] by (simp add: u)
  note bounds = l [of "b ! i"] l [of "b ! (i + 1)"] l [of "b ! (i + 2)"] l [of "b ! (i + 3)"]
  define w2 w1 :: u32 where "w2 = ucast (b ! (i + 2)) OR push_bit 8 (ucast (b ! (i + 3)))"
    and "w1 = ucast (b ! (i + 1)) OR push_bit 8 w2"
  have w2: "unat w2 = unat (b ! (i + 2)) + 2 ^ 8 * unat (b ! (i + 3))"
    using bounds unfolding w2_def by (subst step) (simp_all add: u)
  have w1: "unat w1 = unat (b ! (i + 1)) + 2 ^ 8 * unat w2"
    using bounds unfolding w1_def by (subst step) (simp_all add: w2)
  have "le32_at b i = ucast (b ! i) OR push_bit 8 w1"
    unfolding le32_at_def w1_def w2_def of_le_bytes.simps by simp
  then show ?thesis using bounds by (simp add: step w1 w2)
qed

lemma le_num_16:
  assumes "length b = 16"
  shows "le_num b = unat (le32_at b 0) + 2 ^ 32 * unat (le32_at b 4) + 2 ^ 64 * unat (le32_at b 8) + 2 ^ 96 * unat (le32_at b 12)"
proof -
  obtain a0 a1 a2 a3 a4 a5 a6 a7 a8 a9 a10 a11 a12 a13 a14 a15
    where "b = [a0, a1, a2, a3, a4, a5, a6, a7, a8, a9, a10, a11, a12, a13, a14, a15]"
    using assms by (auto simp: numeral_eq_Suc length_Suc_conv)
  then show ?thesis by (simp add: unat_le32_at)
qed


lemma unat_shr [word_val]: "unat (drop_bit k w) = unat w div 2 ^ k"
  unfolding unat_drop_bit_eq by (rule drop_bit_eq_div)

lemma shr_bound: "unat (drop_bit k (w :: u32)) < 2 ^ (32 - k)" if "k \<le> 32"
proof -
  have "unat w < 2 ^ LENGTH(32)" by (rule unsigned_less)
  then have "unat w < 2 ^ (32 - k) * 2 ^ k" using that by (simp flip: power_add)
  then show ?thesis by (simp add: unat_shr div_less_iff_less_mult)
qed

lemma regroup_words:
  fixes b :: nat
  assumes "t0 = 2 ^ 26 * x0 + y0" and "t1 = 2 ^ 20 * x1 + y1" and "t2 = 2 ^ 14 * x2 + y2" and "t3 = 2 ^ 8 * x3 + y3"
  shows "y0 + M26 * ((x0 + 2 ^ 6 * y1) + M26 * ((x1 + 2 ^ 12 * y2) + M26 * ((x2 + 2 ^ 18 * y3) + M26 * (x3 + 2 ^ 24 * b))))
    = t0 + 2 ^ 32 * t1 + 2 ^ 64 * t2 + 2 ^ 96 * t3 + 2 ^ 128 * b"
  unfolding assms by simp

lemma add_block_val:
  assumes "limbs_ok h" and "length block = 16" and "unat b \<le> 1"
  shows "limbs_small (add_block h block (push_bit 24 b))"
    and "limb_val (add_block h block (push_bit 24 b)) = limb_val h + (le_num block + 2 ^ 128 * unat b)"
proof -
  obtain h0 h1 h2 h3 h4 where h: "h = (h0, h1, h2, h3, h4)" by (cases h)
  define t0 t1 t2 t3 where t: "t0 = le32_at block 0" "t1 = le32_at block 4" "t2 = le32_at block 8" "t3 = le32_at block 12"
  have n: "le_num block = unat t0 + 2 ^ 32 * unat t1 + 2 ^ 64 * unat t2 + 2 ^ 96 * unat t3"
    unfolding t using assms(2) by (rule le_num_16)
  have l0: "unat (t0 AND 0x3ffffff) = unat t0 mod 2 ^ 26" by (simp add: unat_mask26)
  have l1: "unat ((drop_bit 26 t0 OR push_bit 6 t1) AND 0x3ffffff) = unat t0 div 2 ^ 26 + 2 ^ 6 * (unat t1 mod 2 ^ 20)"
    using unat_or_shift_mask [of "drop_bit 26 t0" 6 t1] shr_bound [of 26 t0] by (simp add: unat_shr)
  have l2: "unat ((drop_bit 20 t1 OR push_bit 12 t2) AND 0x3ffffff) = unat t1 div 2 ^ 20 + 2 ^ 12 * (unat t2 mod 2 ^ 14)"
    using unat_or_shift_mask [of "drop_bit 20 t1" 12 t2] shr_bound [of 20 t1] by (simp add: unat_shr)
  have l3: "unat ((drop_bit 14 t2 OR push_bit 18 t3) AND 0x3ffffff) = unat t2 div 2 ^ 14 + 2 ^ 18 * (unat t3 mod 2 ^ 8)"
    using unat_or_shift_mask [of "drop_bit 14 t2" 18 t3] shr_bound [of 14 t2] by (simp add: unat_shr)
  have l4: "unat (drop_bit 8 t3 OR push_bit 24 b) = unat t3 div 2 ^ 8 + 2 ^ 24 * unat b"
    using unat_or_shift [of "drop_bit 8 t3" 24 b 8] shr_bound [of 8 t3] assms(3) by (simp add: unat_shr)
  have m: "unat (x AND 0x3ffffff :: u32) < M26" for x by (simp add: unat_mask26)
  have l4b: "unat (drop_bit 8 t3 OR push_bit 24 b) < M26" using l4 shr_bound [of 8 t3] assms(3) by (simp add: unat_shr)
  have hb: "unat h0 < M26" "unat h1 < M26 + 64" "unat h2 < M26" "unat h3 < M26" "unat h4 < M26"
    using assms(1) unfolding h by simp_all
  have a: "unat (x + y) = unat x + unat y \<and> unat (x + y) \<le> HB" if "unat x < M26 + 64" "unat y < M26" for x y :: u32
    using that by (simp add: unat_add_exact)
  have eq: "add_block h block (push_bit 24 b) = (h0 + (t0 AND 0x3ffffff),
      h1 + ((drop_bit 26 t0 OR push_bit 6 t1) AND 0x3ffffff), h2 + ((drop_bit 20 t1 OR push_bit 12 t2) AND 0x3ffffff),
      h3 + ((drop_bit 14 t2 OR push_bit 18 t3) AND 0x3ffffff), h4 + (drop_bit 8 t3 OR push_bit 24 b))"
    unfolding add_block_def h t Let_def prod.case ..
  note s = a [of h0, OF _ m] a [of h1, OF _ m] a [of h2, OF _ m] a [of h3, OF _ m] a [of h4, OF _ l4b]
  show "limbs_small (add_block h block (push_bit 24 b))"
    unfolding eq limbs_small.simps using s hb by (meson less_trans add_strict_increasing2 trans_less_add1)
  have d: "unat t0 = 2 ^ 26 * (unat t0 div 2 ^ 26) + unat t0 mod 2 ^ 26" "unat t1 = 2 ^ 20 * (unat t1 div 2 ^ 20) + unat t1 mod 2 ^ 20"
    "unat t2 = 2 ^ 14 * (unat t2 div 2 ^ 14) + unat t2 mod 2 ^ 14" "unat t3 = 2 ^ 8 * (unat t3 div 2 ^ 8) + unat t3 mod 2 ^ 8"
    by simp_all
  have v: "limb_val (add_block h block (push_bit 24 b)) = limb_val h + (unat t0 mod 2 ^ 26
      + M26 * ((unat t0 div 2 ^ 26 + 2 ^ 6 * (unat t1 mod 2 ^ 20))
      + M26 * ((unat t1 div 2 ^ 20 + 2 ^ 12 * (unat t2 mod 2 ^ 14))
      + M26 * ((unat t2 div 2 ^ 14 + 2 ^ 18 * (unat t3 mod 2 ^ 8)) + M26 * (unat t3 div 2 ^ 8 + 2 ^ 24 * unat b)))))"
    using s hb unfolding eq unfolding h limb_val.simps l0 [symmetric] l1 [symmetric] l2 [symmetric] l3 [symmetric] l4 [symmetric]
    by (simp add: trans_less_add1)
  show "limb_val (add_block h block (push_bit 24 b)) = limb_val h + (le_num block + 2 ^ 128 * unat b)"
    unfolding v n by (rule arg_cong [OF regroup_words [OF d]])
qed


section \<open>The clamped key\<close>

definition CLAMP :: nat where "CLAMP = 0x0ffffffc0ffffffc0ffffffc0fffffff"

lemma and_split:
  fixes a b c d :: nat
  assumes "a < 2 ^ k" and "c < 2 ^ k"
  shows "(a + 2 ^ k * b) AND (c + 2 ^ k * d) = (a AND c) + 2 ^ k * (b AND d)"
proof -
  let ?x = "(a + 2 ^ k * b) AND (c + 2 ^ k * d)"
  have "?x = push_bit k (drop_bit k ?x) + take_bit k ?x" by (simp only: bits_ident)
  also have "take_bit k ?x = a AND c" using assms by (simp only: take_bit_and) (simp add: take_bit_eq_mod)
  also have "drop_bit k ?x = b AND d" using assms by (simp only: drop_bit_and) (simp add: drop_bit_eq_div)
  finally show ?thesis by (simp add: push_bit_eq_mult mult.commute)
qed

lemma and_clamp:
  assumes "k0 < M26" and "k1 < M26" and "k2 < M26" and "k3 < M26"
  shows "(k0 + M26 * (k1 + M26 * (k2 + M26 * (k3 + M26 * k4)))) AND CLAMP
    = (k0 AND 0x3ffffff) + M26 * ((k1 AND 0x3ffff03) + M26 * ((k2 AND 0x3ffc0ff) + M26 * ((k3 AND 0x3f03fff)
      + M26 * (k4 AND 0x00fffff))))"
proof -
  have sp: "(a + M26 * b) AND (c + M26 * d) = (a AND c) + M26 * (b AND d)" if "a < M26" "c < M26" for a b c d :: nat
    using and_split [of a 26 c b d] that by simp
  have i3: "(k3 + M26 * k4) AND (0x3f03fff + M26 * 0x00fffff) = (k3 AND 0x3f03fff) + M26 * (k4 AND 0x00fffff)"
    using assms(4) by (rule sp) simp
  have i2: "(k2 + M26 * (k3 + M26 * k4)) AND (0x3ffc0ff + M26 * (0x3f03fff + M26 * 0x00fffff))
      = (k2 AND 0x3ffc0ff) + M26 * ((k3 AND 0x3f03fff) + M26 * (k4 AND 0x00fffff))"
    unfolding i3 [symmetric] using assms(3) by (rule sp) simp
  have i1: "(k1 + M26 * (k2 + M26 * (k3 + M26 * k4))) AND (0x3ffff03 + M26 * (0x3ffc0ff + M26 * (0x3f03fff + M26 * 0x00fffff)))
      = (k1 AND 0x3ffff03) + M26 * ((k2 AND 0x3ffc0ff) + M26 * ((k3 AND 0x3f03fff) + M26 * (k4 AND 0x00fffff)))"
    unfolding i2 [symmetric] using assms(2) by (rule sp) simp
  have c: "CLAMP = 0x3ffffff + M26 * (0x3ffff03 + M26 * (0x3ffc0ff + M26 * (0x3f03fff + M26 * 0x00fffff)))"
    by (simp add: CLAMP_def)
  show ?thesis unfolding c i1 [symmetric] using assms(1) by (rule sp) simp
qed

lemma regroup_bytes:
  assumes "a3 = 4 * x3 + y3" and "a6 = 16 * x6 + y6" and "a9 = 64 * x9 + (y9 :: nat)"
  shows "a0 + 256 * (a1 + 256 * (a2 + 256 * (a3 + 256 * (a4 + 256 * (a5 + 256 * (a6 + 256 * (a7 + 256 * (a8
      + 256 * (a9 + 256 * (a10 + 256 * (a11 + 256 * (a12 + 256 * (a13 + 256 * (a14 + 256 * a15))))))))))))))
    = (a0 + 2 ^ 8 * a1 + 2 ^ 16 * a2 + 2 ^ 24 * y3) + M26 * ((x3 + 2 ^ 6 * a4 + 2 ^ 14 * a5 + 2 ^ 22 * y6)
      + M26 * ((x6 + 2 ^ 4 * a7 + 2 ^ 12 * a8 + 2 ^ 20 * y9) + M26 * ((x9 + 2 ^ 2 * a10 + 2 ^ 10 * a11 + 2 ^ 18 * a12)
      + M26 * (a13 + 2 ^ 8 * a14 + 2 ^ 16 * a15))))"
  unfolding assms by simp

lemma mult_split_mod: "c * x = c * (x mod m) + c * m * (x div m)" for c x m :: nat
  by (metis add.commute distrib_left mult.assoc mult_div_mod_eq)

lemma and_low26: "y < M26 \<Longrightarrow> m < M26 \<Longrightarrow> (y + M26 * z) AND m = y AND m" for m y z :: nat
  using and_split [of y 26 m z 0] by simp

lemma unat_and: "unat (a AND b) = unat a AND unat b" for a b :: u32
  by (rule unsigned_and_eq)

lemma poly_new_key:
  assumes "length key = 32"
  shows "key_ok (po_r (poly_new key)) (po_rs (poly_new key))"
    and "limb_val (po_r (poly_new key)) = le_num (take 16 key) AND CLAMP"
proof -
  define r0 r1 r2 r3 r4 where r: "r0 = le32_at key 0 AND 0x3ffffff" "r1 = drop_bit 2 (le32_at key 3) AND 0x3ffff03"
    "r2 = drop_bit 4 (le32_at key 6) AND 0x3ffc0ff" "r3 = drop_bit 6 (le32_at key 9) AND 0x3f03fff"
    "r4 = drop_bit 8 (le32_at key 12) AND 0x00fffff"
  have eq: "po_r (poly_new key) = (r0, r1, r2, r3, r4)" "po_rs (poly_new key) = (r1 * 5, r2 * 5, r3 * 5, r4 * 5)"
    by (simp_all add: poly_new_def r Let_def)
  have le: "unat (x AND m) < M26" if "unat m < M26" for x m :: u32
  proof -
    have "x AND m \<le> m" by (rule word_and_le1)
    then show ?thesis using that by (simp add: word_le_nat_alt)
  qed
  have b: "unat r0 < M26" "unat r1 < M26" "unat r2 < M26" "unat r3 < M26" "unat r4 < M26"
    unfolding r by (rule le; simp)+
  have m: "unat (x * 5) = 5 * unat x" if "unat x < M26" for x :: u32 using that by (simp add: unat_word_ariths)
  show "key_ok (po_r (poly_new key)) (po_rs (poly_new key))" unfolding eq using b by (simp add: m)
  define n where "n i = unat (key ! i)" for i
  have nb: "n i < 256" for i
  proof -
    have "unat (key ! i) < 2 ^ LENGTH(8)" by (rule unsigned_less)
    then show ?thesis by (simp add: n_def)
  qed
  note nbs = nb [of 0] nb [of 1] nb [of 2] nb [of 4] nb [of 5] nb [of 7] nb [of 8] nb [of 10] nb [of 11] nb [of 12]
  let ?k0 = "n 0 + 2 ^ 8 * n 1 + 2 ^ 16 * n 2 + 2 ^ 24 * (n 3 mod 4)"
  let ?k1 = "n 3 div 4 + 2 ^ 6 * n 4 + 2 ^ 14 * n 5 + 2 ^ 22 * (n 6 mod 16)"
  let ?k2 = "n 6 div 16 + 2 ^ 4 * n 7 + 2 ^ 12 * n 8 + 2 ^ 20 * (n 9 mod 64)"
  let ?k3 = "n 9 div 64 + 2 ^ 2 * n 10 + 2 ^ 10 * n 11 + 2 ^ 18 * n 12"
  let ?k4 = "n 13 + 2 ^ 8 * n 14 + 2 ^ 16 * n 15"
  have sm: "n 3 mod 4 < 4" "n 6 mod 16 < 16" "n 9 mod 64 < 64" "n 3 div 4 < 64" "n 6 div 16 < 16" "n 9 div 64 < 4"
    using nb [of 3] nb [of 6] nb [of 9] by (simp_all add: div_less_iff_less_mult)
  have kb: "?k0 < M26" "?k1 < M26" "?k2 < M26" "?k3 < M26" using nbs sm by simp_all
  have w: "unat (le32_at key 0) = n 0 + 2 ^ 8 * n 1 + 2 ^ 16 * n 2 + 2 ^ 24 * n 3"
    "unat (le32_at key 3) = n 3 + 2 ^ 2 * (2 ^ 6 * n 4 + 2 ^ 14 * n 5 + 2 ^ 22 * n 6)"
    "unat (le32_at key 6) = n 6 + 2 ^ 4 * (2 ^ 4 * n 7 + 2 ^ 12 * n 8 + 2 ^ 20 * n 9)"
    "unat (le32_at key 9) = n 9 + 2 ^ 6 * (2 ^ 2 * n 10 + 2 ^ 10 * n 11 + 2 ^ 18 * n 12)"
    "unat (le32_at key 12) = n 12 + 2 ^ 8 * (n 13 + 2 ^ 8 * n 14 + 2 ^ 16 * n 15)"
    by (simp_all add: unat_le32_at n_def flip: numeral_2_eq_2)
  have two_pow: "(2 :: nat) ^ j \<noteq> 0" for j by simp
  have d: "n 3 = 4 * (n 3 div 4) + n 3 mod 4" "n 6 = 16 * (n 6 div 16) + n 6 mod 16" "n 9 = 64 * (n 9 div 64) + n 9 mod 64"
    by simp_all
  have q: "unat (le32_at key 0) = ?k0 + 2 ^ 26 * (n 3 div 4)"
    "unat (le32_at key 3) div 2 ^ 2 = ?k1 + 2 ^ 26 * (n 6 div 16)"
    "unat (le32_at key 6) div 2 ^ 4 = ?k2 + 2 ^ 26 * (n 9 div 64)"
    "unat (le32_at key 9) div 2 ^ 6 = ?k3" "unat (le32_at key 12) div 2 ^ 8 = ?k4"
    unfolding w div_mult_self2 [OF two_pow] using nb [of 12] mult_split_mod [of "2 ^ 24" "n 3" 4]
    mult_split_mod [of "2 ^ 22" "n 6" 16] mult_split_mod [of "2 ^ 20" "n 9" 64] by simp_all
  have v: "unat r0 = ?k0 AND 0x3ffffff" "unat r1 = ?k1 AND 0x3ffff03" "unat r2 = ?k2 AND 0x3ffc0ff"
    "unat r3 = ?k3 AND 0x3f03fff" "unat r4 = ?k4 AND 0x00fffff"
    unfolding r unat_and unat_shr q using kb by (simp_all add: and_low26)
  have "take 16 key = map ((!) key) [0..<16]" using assms by (intro nth_equalityI) simp_all
  then have "le_num (take 16 key) = n 0 + 256 * (n 1 + 256 * (n 2 + 256 * (n 3 + 256 * (n 4 + 256 * (n 5
      + 256 * (n 6 + 256 * (n 7 + 256 * (n 8 + 256 * (n 9 + 256 * (n 10 + 256 * (n 11 + 256 * (n 12
      + 256 * (n 13 + 256 * (n 14 + 256 * n 15))))))))))))))"
    by (simp add: upt_rec n_def flip: numeral_2_eq_2)
  also have "\<dots> = ?k0 + M26 * (?k1 + M26 * (?k2 + M26 * (?k3 + M26 * ?k4)))" by (rule regroup_bytes [OF d])
  finally show "limb_val (po_r (poly_new key)) = le_num (take 16 key) AND CLAMP"
    unfolding eq limb_val.simps v by (simp only: and_clamp [OF kb])
qed


section \<open>The final reduction\<close>

fun limbs_canonical :: "limbs \<Rightarrow> bool" where
  "limbs_canonical (h0, h1, h2, h3, h4) \<longleftrightarrow>
    unat h0 < M26 \<and> unat h1 < M26 \<and> unat h2 < M26 \<and> unat h3 < M26 \<and> unat h4 < M26"

lemma ripple_chain:
  fixes h0 h1 h2 h3 h4 :: nat
  assumes "h1 = M26 * c1 + l1" and "h2 + c1 = M26 * c2 + l2" and "h3 + c2 = M26 * c3 + l3" and "h4 + c3 = M26 * c4 + l4"
    and "h0 + 5 * c4 = M26 * c5 + l0"
  shows "l0 + M26 * ((l1 + c5) + M26 * (l2 + M26 * (l3 + M26 * l4))) + P1305 * c4
    = h0 + M26 * (h1 + M26 * (h2 + M26 * (h3 + M26 * h4)))"
  using assms unfolding P1305_def by simp

lemma ripple_carries:
  fixes h0 h1 h2 h3 h4 :: nat
  assumes "h0 < M26" and "h1 < M26 + 64" and "h2 < M26" and "h3 < M26" and "h4 < M26"
    and "h1 = M26 * c1 + l1" and "h2 + c1 = M26 * c2 + l2" and "h3 + c2 = M26 * c3 + l3" and "h4 + c3 = M26 * c4 + l4"
    and "h0 + 5 * c4 = M26 * c5 + l0" and "l1 < M26"
  shows "c1 \<le> 1" and "c2 \<le> c1" and "c3 \<le> c2" and "c4 \<le> c3" and "c5 \<le> c4" and "l1 + c5 < M26"
proof -
  show c1: "c1 \<le> 1" and c2: "c2 \<le> c1" using assms by linarith+
  show c3: "c3 \<le> c2" using assms c1 c2 by linarith
  show c4: "c4 \<le> c3" using assms c1 c2 c3 by linarith
  show c5: "c5 \<le> c4" using assms c1 c2 c3 c4 by linarith
  show "l1 + c5 < M26"
  proof (cases "c1 = 0")
    case True
    then show ?thesis using assms(11) c2 c3 c4 c5 by simp
  next
    case False
    then have "l1 < 64" using assms(2,6) c1 by linarith
    then show ?thesis using c1 c2 c3 c4 c5 by linarith
  qed
qed

lemma div_mod26: "n = M26 * (n div M26) + n mod M26"
  by simp

lemma carry_limbs_val:
  assumes "limbs_ok h"
  shows "limbs_canonical (carry_limbs h)" and "limb_val (carry_limbs h) mod P1305 = limb_val h mod P1305"
proof -
  obtain h0 h1 h2 h3 h4 where h: "h = (h0, h1, h2, h3, h4)" by (cases h)
  define c1 c2 c3 c4 x where c: "c1 = drop_bit 26 h1" "c2 = drop_bit 26 (h2 + c1)" "c3 = drop_bit 26 (h3 + c2)"
    "c4 = drop_bit 26 (h4 + c3)" "x = h0 + c4 * 5"
  have eq: "carry_limbs h = (x AND 0x3ffffff, (h1 AND 0x3ffffff) + drop_bit 26 x, (h2 + c1) AND 0x3ffffff,
      (h3 + c2) AND 0x3ffffff, (h4 + c3) AND 0x3ffffff)"
    unfolding carry_limbs_def h c Let_def prod.case ..
  have b: "unat h0 < M26" "unat h1 < M26 + 64" "unat h2 < M26" "unat h3 < M26" "unat h4 < M26"
    using assms unfolding h by simp_all
  have cb: "unat (drop_bit 26 y) < 64" for y :: u32 using shr_bound [of 26 y] by simp
  have a: "unat (y + z) = unat y + unat z" if "unat y < M26" "unat z < 64" for y z :: u32
    using that by (simp add: unat_add_exact)
  have a2: "unat (h2 + c1) = unat h2 + unat c1" and a3: "unat (h3 + c2) = unat h3 + unat c2"
    and a4: "unat (h4 + c3) = unat h4 + unat c3" using a b cb c by simp_all
  have "unat (c4 * 5) = 5 * unat c4" using cb [of "h4 + c3"] c by (simp add: unat_word_ariths)
  then have x: "unat x = unat h0 + 5 * unat c4" using b cb [of "h4 + c3"] c by (simp add: unat_add_exact)
  have l1: "unat ((h1 AND 0x3ffffff) + drop_bit 26 x) = unat h1 mod M26 + unat x div M26"
    using a [of "h1 AND 0x3ffffff" "drop_bit 26 x"] cb by (simp add: word_val)
  have q: "unat c1 = unat h1 div M26" "unat c2 = (unat h2 + unat c1) div M26" "unat c3 = (unat h3 + unat c2) div M26"
    "unat c4 = (unat h4 + unat c3) div M26"
    using a2 a3 a4 unfolding c by (simp_all add: unat_shift26)
  have d: "unat h1 = M26 * unat c1 + unat h1 mod M26"
    "unat h2 + unat c1 = M26 * unat c2 + (unat h2 + unat c1) mod M26"
    "unat h3 + unat c2 = M26 * unat c3 + (unat h3 + unat c2) mod M26"
    "unat h4 + unat c3 = M26 * unat c4 + (unat h4 + unat c3) mod M26"
    "unat h0 + 5 * unat c4 = M26 * (unat x div M26) + unat x mod M26"
    unfolding x [symmetric] using q by (simp_all only: mult_div_mod_eq)
  show "limbs_canonical (carry_limbs h)"
    using ripple_carries(6) [OF b d mod_less_divisor] l1 unfolding eq by (simp add: word_val)
  have v: "limb_val (carry_limbs h) = unat x mod M26 + M26 * ((unat h1 mod M26 + unat x div M26)
      + M26 * ((unat h2 + unat c1) mod M26 + M26 * ((unat h3 + unat c2) mod M26 + M26 * ((unat h4 + unat c3) mod M26))))"
    unfolding eq limb_val.simps l1 unat_mask26 a2 a3 a4 ..
  have "limb_val (carry_limbs h) + P1305 * unat c4 = limb_val h"
    unfolding v unfolding h limb_val.simps by (rule ripple_chain [OF d])
  then show "limb_val (carry_limbs h) mod P1305 = limb_val h mod P1305" by (metis mod_mult_self2)
qed

lemma borrow_chain:
  fixes h0 h1 h2 h3 h4 :: nat
  assumes "h0 + 5 = M26 * c0 + g0" and "h1 + c0 = M26 * c1 + g1" and "h2 + c1 = M26 * c2 + g2" and "h3 + c2 = M26 * c3 + g3"
  shows "h0 + M26 * (h1 + M26 * (h2 + M26 * (h3 + M26 * h4))) + 5
    = g0 + M26 * (g1 + M26 * (g2 + M26 * (g3 + M26 * (h4 + c3))))"
  using assms by simp

lemma select_mask:
  "(h AND NOT 0) OR (g AND 0) = (h :: u32)" "(h AND NOT (- 1)) OR (g AND (- 1)) = (g :: u32)"
  by simp_all

lemma limbs_bound: "limbs_canonical h \<Longrightarrow> limb_val h < 2 ^ 130"
  by (cases h) simp

lemma reduce_once_val:
  assumes "limbs_canonical h"
  shows "limbs_canonical (reduce_once h)" and "limb_val (reduce_once h) = limb_val h mod P1305"
proof -
  obtain h0 h1 h2 h3 h4 where h: "h = (h0, h1, h2, h3, h4)" by (cases h)
  define c0 c1 c2 c3 where c: "c0 = drop_bit 26 (h0 + 5)" "c1 = drop_bit 26 (h1 + c0)" "c2 = drop_bit 26 (h2 + c1)"
    "c3 = drop_bit 26 (h3 + c2)"
  define g where "g = h4 + c3 - push_bit 26 1"
  define mk where "mk = drop_bit 31 g - 1"
  define sel where "sel a b = (a AND NOT mk) OR (b AND mk)" for a b
  have eq: "reduce_once h = (sel h0 ((h0 + 5) AND 0x3ffffff), sel h1 ((h1 + c0) AND 0x3ffffff),
      sel h2 ((h2 + c1) AND 0x3ffffff), sel h3 ((h3 + c2) AND 0x3ffffff), sel h4 g)"
    unfolding reduce_once_def h c g_def mk_def sel_def Let_def prod.case ..
  have b: "unat h0 < M26" "unat h1 < M26" "unat h2 < M26" "unat h3 < M26" "unat h4 < M26"
    using assms unfolding h by simp_all
  have cb: "unat (drop_bit 26 y) < 64" for y :: u32 using shr_bound [of 26 y] by simp
  have a: "unat (y + z) = unat y + unat z" if "unat y < M26" "unat z < 64" for y z :: u32
    using that by (simp add: unat_add_exact)
  have s: "unat (h0 + 5) = unat h0 + 5" "unat (h1 + c0) = unat h1 + unat c0" "unat (h2 + c1) = unat h2 + unat c1"
    "unat (h3 + c2) = unat h3 + unat c2" "unat (h4 + c3) = unat h4 + unat c3"
    using a b cb c by simp_all
  have q: "unat c0 = (unat h0 + 5) div M26" "unat c1 = (unat h1 + unat c0) div M26" "unat c2 = (unat h2 + unat c1) div M26"
    "unat c3 = (unat h3 + unat c2) div M26"
    using s unfolding c by (simp_all add: unat_shift26)
  have d: "unat h0 + 5 = M26 * unat c0 + (unat h0 + 5) mod M26" "unat h1 + unat c0 = M26 * unat c1 + (unat h1 + unat c0) mod M26"
    "unat h2 + unat c1 = M26 * unat c2 + (unat h2 + unat c1) mod M26"
    "unat h3 + unat c2 = M26 * unat c3 + (unat h3 + unat c2) mod M26"
    using q by (simp_all only: mult_div_mod_eq)
  have ch: "limb_val h + 5 = (unat h0 + 5) mod M26 + M26 * ((unat h1 + unat c0) mod M26 + M26 * ((unat h2 + unat c1) mod M26
      + M26 * ((unat h3 + unat c2) mod M26 + M26 * (unat h4 + unat c3))))"
    unfolding h limb_val.simps by (rule borrow_chain [OF d])
  have r: "n mod M26 \<le> M26 - 1" for n :: nat using mod_less_divisor [of M26 n] by linarith
  note rs = r [of "unat h0 + 5"] r [of "unat h1 + unat c0"] r [of "unat h2 + unat c1"] r [of "unat h3 + unat c2"]
  have c3: "unat c3 \<le> 1"
  proof -
    have "unat c0 \<le> 1" using d(1) b(1) by linarith
    then have "unat c1 \<le> 1" using d(2) b(2) by linarith
    then have "unat c2 \<le> 1" using d(3) b(3) by linarith
    then show ?thesis using d(4) b(4) by linarith
  qed
  have n: "unat (push_bit 26 1 :: u32) = M26" by simp
  consider (keep) "unat h4 + unat c3 < M26" | (sub) "unat h4 + unat c3 = M26" using c3 b(5) by linarith
  then have "limbs_canonical (reduce_once h) \<and> limb_val (reduce_once h) = limb_val h mod P1305"
  proof cases
    case keep
    have "unat g = 2 ^ 32 + (unat h4 + unat c3) - M26"
      using keep s(5) unfolding g_def by (simp add: unat_sub_if' n word_le_nat_alt)
    then have "unat (drop_bit 31 g) = 1" using keep by (simp add: unat_shr)
    then have "drop_bit 31 g = 1" by (simp add: word_unat_eq_iff)
    then have "mk = 0" by (simp add: mk_def)
    then have e: "reduce_once h = h" unfolding eq sel_def unfolding h by simp
    have "limb_val h < P1305" using ch rs keep unfolding P1305_def by simp
    then show ?thesis using assms e by simp
  next
    case sub
    have "h4 + c3 = push_bit 26 1" using sub s(5) by (simp add: word_unat_eq_iff)
    then have g: "g = 0" by (simp add: g_def)
    then have "mk = - 1" by (simp add: mk_def)
    then have e: "reduce_once h = ((h0 + 5) AND 0x3ffffff, (h1 + c0) AND 0x3ffffff, (h2 + c1) AND 0x3ffffff,
        (h3 + c2) AND 0x3ffffff, 0)" unfolding eq sel_def g by simp
    have v: "limb_val (reduce_once h) + P1305 = limb_val h"
      using ch unfolding e limb_val.simps unat_mask26 s sub P1305_def by simp
    moreover have "limb_val h < 2 ^ 130" using assms by (rule limbs_bound)
    ultimately have "limb_val (reduce_once h) < P1305" unfolding P1305_def by simp
    then have "limb_val h mod P1305 = limb_val (reduce_once h)" unfolding v [symmetric] by simp
    then show ?thesis unfolding e by (simp add: word_val)
  qed
  then show "limbs_canonical (reduce_once h)" and "limb_val (reduce_once h) = limb_val h mod P1305" by simp_all
qed


section \<open>The tag\<close>

fun words_val :: "u32 \<times> u32 \<times> u32 \<times> u32 \<Rightarrow> nat" where
  "words_val (w0, w1, w2, w3) = unat w0 + 2 ^ 32 * (unat w1 + 2 ^ 32 * (unat w2 + 2 ^ 32 * unat w3))"

lemma u32_bound: "unat (w :: u32) < 2 ^ 32"
proof -
  have "unat w < 2 ^ LENGTH(32)" by (rule unsigned_less)
  then show ?thesis by simp
qed

lemma words_val_less: "words_val w < 2 ^ 128"
proof -
  obtain w0 w1 w2 w3 where w: "w = (w0, w1, w2, w3)" by (cases w)
  show ?thesis
    using u32_bound [of w0] u32_bound [of w1] u32_bound [of w2] u32_bound [of w3] unfolding w by simp
qed

lemma regroup_limbs:
  assumes "h1 = 2 ^ 6 * x1 + y1" and "h2 = 2 ^ 12 * x2 + y2" and "h3 = 2 ^ 18 * x3 + y3" and "h4 = 2 ^ 24 * x4 + (y4 :: nat)"
  shows "(h0 + 2 ^ 26 * y1) + 2 ^ 32 * ((x1 + 2 ^ 20 * y2) + 2 ^ 32 * ((x2 + 2 ^ 14 * y3) + 2 ^ 32 * (x3 + 2 ^ 8 * y4)))
      + 2 ^ 128 * x4
    = h0 + M26 * (h1 + M26 * (h2 + M26 * (h3 + M26 * h4)))"
  unfolding assms by simp

lemma repack_limbs_val:
  assumes "limbs_canonical h"
  shows "words_val (repack_limbs h) = limb_val h mod 2 ^ 128"
proof -
  obtain h0 h1 h2 h3 h4 where h: "h = (h0, h1, h2, h3, h4)" by (cases h)
  have b: "unat h0 < 2 ^ 26" "unat h1 < 2 ^ 26" "unat h2 < 2 ^ 26" "unat h3 < 2 ^ 26" using assms unfolding h by simp_all
  have sb: "unat (drop_bit k x) < 2 ^ (26 - k)" if "unat x < 2 ^ 26" "k \<le> 26" for k and x :: u32
    using that by (simp add: unat_shr div_less_iff_less_mult flip: power_add)
  have w: "unat (h0 OR push_bit 26 h1) = unat h0 + 2 ^ 26 * (unat h1 mod 2 ^ 6)"
    "unat (drop_bit 6 h1 OR push_bit 20 h2) = unat h1 div 2 ^ 6 + 2 ^ 20 * (unat h2 mod 2 ^ 12)"
    "unat (drop_bit 12 h2 OR push_bit 14 h3) = unat h2 div 2 ^ 12 + 2 ^ 14 * (unat h3 mod 2 ^ 18)"
    "unat (drop_bit 18 h3 OR push_bit 8 h4) = unat h3 div 2 ^ 18 + 2 ^ 8 * (unat h4 mod 2 ^ 24)"
    using unat_or_shift_mod [of h0 26 h1] unat_or_shift_mod [of "drop_bit 6 h1" 20 h2]
      unat_or_shift_mod [of "drop_bit 12 h2" 14 h3] unat_or_shift_mod [of "drop_bit 18 h3" 8 h4]
      b sb [of h1 6] sb [of h2 12] sb [of h3 18] by (simp_all add: unat_shr)
  have d: "n = 2 ^ k * (n div 2 ^ k) + n mod 2 ^ k" for n k :: nat by simp
  have "words_val (repack_limbs h) + 2 ^ 128 * (unat h4 div 2 ^ 24) = limb_val h"
    unfolding h repack_limbs_def Let_def prod.case words_val.simps limb_val.simps w
    by (rule regroup_limbs [OF d d d d])
  then show ?thesis using words_val_less [of "repack_limbs h"] by (metis mod_less mod_mult_self2)
qed

lemma le_num_le_bytes: "le_num (le_bytes n w) = unat w mod 256 ^ n"
proof (induction n arbitrary: w)
  case (Suc n)
  have u: "unat (ucast w :: u8) = unat w mod 256" by (simp add: unsigned_ucast_eq take_bit_eq_mod)
  have s: "unat (drop_bit 8 w) = unat w div 256" by (simp add: unat_shr)
  have "unat w mod (256 * 256 ^ n) = 256 * (unat w div 256 mod 256 ^ n) + unat w mod 256" by (rule mod_mult2_eq)
  then show ?case by (simp add: Suc u s)
qed simp

lemma le_num_inject: "length a = length b \<Longrightarrow> le_num a = le_num b \<Longrightarrow> a = b"
proof (induction a b rule: list_induct2)
  case (Cons x xs y ys)
  have b: "unat (z :: u8) < 256" for z
  proof -
    have "unat z < 2 ^ LENGTH(8)" by (rule unsigned_less)
    then show ?thesis by simp
  qed
  have e: "unat x + 256 * le_num xs = unat y + 256 * le_num ys" using Cons.prems by simp
  then have "(unat x + 256 * le_num xs) mod 256 = (unat y + 256 * le_num ys) mod 256" by (rule arg_cong)
  then have x: "unat x = unat y" using b [of x] b [of y] by simp
  with e have "le_num xs = le_num ys" by simp
  with x show ?case using Cons.IH by (simp add: word_unat_eq_iff)
qed simp

lemma pad_chain:
  fixes w0 w1 w2 w3 :: nat
  assumes "w0 + p0 = 2 ^ 32 * q0 + l0" and "w1 + p1 + q0 = 2 ^ 32 * q1 + l1" and "w2 + p2 + q1 = 2 ^ 32 * q2 + l2"
    and "w3 + p3 + q2 = 2 ^ 32 * q3 + l3"
  shows "l0 + 2 ^ 32 * (l1 + 2 ^ 32 * (l2 + 2 ^ 32 * l3)) + 2 ^ 128 * q3
    = (w0 + 2 ^ 32 * (w1 + 2 ^ 32 * (w2 + 2 ^ 32 * w3))) + (p0 + 2 ^ 32 * (p1 + 2 ^ 32 * (p2 + 2 ^ 32 * p3)))"
  using assms by simp

lemma add_pad_val: "le_num (add_pad w pad) = (words_val w + words_val pad) mod 2 ^ 128"
proof -
  obtain w0 w1 w2 w3 where w: "w = (w0, w1, w2, w3)" by (cases w)
  obtain p0 p1 p2 p3 where p: "pad = (p0, p1, p2, p3)" by (cases pad)
  define f0 f1 f2 f3 :: u64 where f: "f0 = ucast w0 + ucast p0" "f1 = ucast w1 + ucast p1 + drop_bit 32 f0"
    "f2 = ucast w2 + ucast p2 + drop_bit 32 f1" "f3 = ucast w3 + ucast p3 + drop_bit 32 f2"
  have s: "unat (ucast a + ucast b :: u64) = unat a + unat b" for a b :: u32
    using u32_bound [of a] u32_bound [of b] by (simp add: unat_add_exact unat_ucast64)
  have q: "unat (drop_bit 32 (x :: u64)) = unat x div 2 ^ 32" "unat (drop_bit 32 (x :: u64)) < 2 ^ 32" for x
  proof -
    show "unat (drop_bit 32 x) = unat x div 2 ^ 32" by (rule unat_shr)
    have "unat x < 2 ^ LENGTH(64)" by (rule unsigned_less)
    then show "unat (drop_bit 32 x) < 2 ^ 32" by (simp add: unat_shr div_less_iff_less_mult)
  qed
  have t: "unat (ucast a + ucast b + drop_bit 32 x :: u64) = unat a + unat b + unat x div 2 ^ 32" for a b :: u32 and x
    using u32_bound [of a] u32_bound [of b] q [of x] s [of a b] by (subst unat_add_exact) simp_all
  have u: "unat f0 = unat w0 + unat p0" "unat f1 = unat w1 + unat p1 + unat f0 div 2 ^ 32"
    "unat f2 = unat w2 + unat p2 + unat f1 div 2 ^ 32" "unat f3 = unat w3 + unat p3 + unat f2 div 2 ^ 32"
    unfolding f by (rule s t)+
  have "le_num (add_pad w pad) = unat f0 mod 2 ^ 32 + 2 ^ 32 * (unat f1 mod 2 ^ 32
      + 2 ^ 32 * (unat f2 mod 2 ^ 32 + 2 ^ 32 * (unat f3 mod 2 ^ 32)))"
    unfolding add_pad_def w p Let_def prod.case f [symmetric]
    by (simp add: le_num_append le_num_le_bytes unat_ucast32_mod)
  moreover have "unat f0 mod 2 ^ 32 + 2 ^ 32 * (unat f1 mod 2 ^ 32
      + 2 ^ 32 * (unat f2 mod 2 ^ 32 + 2 ^ 32 * (unat f3 mod 2 ^ 32))) + 2 ^ 128 * (unat f3 div 2 ^ 32)
    = words_val w + words_val pad"
    unfolding w p words_val.simps
    by (rule pad_chain [of _ _ "unat f0 div 2 ^ 32" _ _ _ "unat f1 div 2 ^ 32" _ _ _ "unat f2 div 2 ^ 32"])
      (simp_all only: u [symmetric] mult_div_mod_eq)
  ultimately have "le_num (add_pad w pad) + 2 ^ 128 * (unat f3 div 2 ^ 32) = words_val w + words_val pad" by simp
  moreover have "le_num (add_pad w pad) < 2 ^ 128"
    using le_num_less [of "add_pad w pad"] by (simp add: add_pad_def w p Let_def)
  ultimately show ?thesis by (metis mod_less mod_mult_self2)
qed

end
