(* ===== verification/Aead.thy ===== *)
theory Aead
  imports Poly1305_Field
begin

text \<open>
  ChaCha20-Poly1305 as a whole: the streaming authenticator gives the RFC 8439 tag of everything fed to
  it however it is cut, fused encryption is the RFC construction, and decryption accepts exactly the
  tag of that construction and inverts encryption.
\<close>

section \<open>Streaming\<close>

locale absorbing =
  fixes init :: 's and feed :: "bytes \<Rightarrow> 's \<Rightarrow> 's" and holds :: "bytes \<Rightarrow> 's \<Rightarrow> bool"
  assumes holds_init: "holds [] init"
    and holds_feed: "holds d s \<Longrightarrow> holds (d @ e) (feed e s)"
begin

lemma holds_feeds: "holds d s \<Longrightarrow> holds (d @ concat es) (foldl (\<lambda>s e. feed e s) s es)"
proof (induction es arbitrary: d s)
  case (Cons e es)
  then show ?case using Cons.IH [OF holds_feed [OF Cons.prems]] by simp
qed simp

end

definition limb_step :: "bytes \<Rightarrow> limbs \<Rightarrow> bytes \<Rightarrow> limbs" where
  "limb_step key h chunk = mul_reduce (add_block h chunk FULL_BLOCK) (po_r (poly_new key)) (po_rs (poly_new key))"

definition poly_holds :: "bytes \<Rightarrow> bytes \<Rightarrow> poly1305 \<Rightarrow> bool" where
  "poly_holds key d p \<longleftrightarrow>
    po_r p = po_r (poly_new key) \<and> po_rs p = po_rs (poly_new key) \<and> po_pad p = po_pad (poly_new key) \<and>
    po_h p = foldl (limb_step key) (0, 0, 0, 0, 0) (chunks_exact 16 d) \<and>
    length (po_buffer p) = 16 \<and> po_leftover p = length d mod 16 \<and>
    take (po_leftover p) (po_buffer p) = chunks_remainder 16 d"

lemma chunks_remainder_append:
  assumes "0 < n"
  shows "chunks_remainder n (xs @ ys) = chunks_remainder n (chunks_remainder n xs @ ys)"
proof -
  let ?k = "length xs - length xs mod n"
  have k: "?k = n * (length xs div n)" by (metis minus_mod_eq_mult_div)
  have "xs = take ?k xs @ chunks_remainder n xs" by (simp add: chunks_remainder_def)
  then have "xs @ ys = take ?k xs @ (chunks_remainder n xs @ ys)" by (metis append.assoc)
  moreover have "length (take ?k xs) = n * (length xs div n)" by (simp add: k [symmetric])
  moreover have "chunks_remainder n (a @ b) = chunks_remainder n b" if "length a = n * j" for a b :: "'a list" and j
  proof -
    have "(length a + length b) mod n = length b mod n" using that by simp
    moreover have "length b mod n \<le> length b" by (rule mod_less_eq_dividend)
    ultimately have e: "length (a @ b) - length (a @ b) mod n = length a + (length b - length b mod n)" by simp
    have "drop (length a + k) (a @ b) = drop k b" for k by simp
    then show ?thesis unfolding chunks_remainder_def e .
  qed
  ultimately show ?thesis by metis
qed

lemma po_h_blocks:
  "po_r p = po_r (poly_new key) \<Longrightarrow> po_rs p = po_rs (poly_new key) \<Longrightarrow>
   foldl (\<lambda>p chunk. poly_block chunk FULL_BLOCK p) p cs = p\<lparr>po_h := foldl (limb_step key) (po_h p) cs\<rparr>"
proof (induction cs arbitrary: p)
  case (Cons c cs)
  then show ?case using Cons.IH [of "poly_block c FULL_BLOCK p"] by (simp add: poly_block_def limb_step_def)
qed simp

lemma poly_absorb_holds:
  assumes "poly_holds key d p" and "length d mod 16 = 0"
  shows "poly_holds key (d @ e) (poly_absorb e p)"
proof -
  have r: "chunks_remainder 16 d = []" using assms(2) by (simp add: chunks_remainder_def)
  have c: "chunks_exact 16 (d @ e) = chunks_exact 16 d @ chunks_exact 16 e"
    "chunks_remainder 16 (d @ e) = chunks_remainder 16 e"
    using chunks_exact_remainder_append [of 16 d e] chunks_remainder_append [of 16 d e] r by simp_all
  have l: "length (d @ e) mod 16 = length e mod 16" using assms(2) by (simp add: mod_add_left_eq [symmetric])
  have b: "length (chunks_remainder 16 e) < 16" by (rule length_chunks_remainder_less) simp
  have keep: "po_r p = po_r (poly_new key)" "po_rs p = po_rs (poly_new key)" "po_pad p = po_pad (poly_new key)"
    "po_h p = foldl (limb_step key) (0, 0, 0, 0, 0) (chunks_exact 16 d)" "length (po_buffer p) = 16" "po_leftover p = 0"
    using assms by (simp_all add: poly_holds_def)
  have z: "chunks_remainder 16 e = [] \<longleftrightarrow> length e mod 16 = 0"
    using length_chunks_remainder [of 16 e] by (metis length_0_conv)
  show ?thesis
  proof (cases "chunks_remainder 16 e = []")
    case True
    then show ?thesis using keep c l z unfolding poly_holds_def poly_absorb_def Let_def
      by (simp add: po_h_blocks [of p key])
  next
    case False
    then show ?thesis using keep c l b unfolding poly_holds_def poly_absorb_def Let_def
      by (simp add: po_h_blocks [of p key] length_chunks_remainder blit_def)
  qed
qed

lemma poly_update_holds:
  assumes "poly_holds key d p"
  shows "poly_holds key (d @ e) (poly_update e p)"
proof (cases "po_leftover p = 0")
  case True
  then have "length d mod 16 = 0" using assms by (simp add: poly_holds_def)
  then show ?thesis using poly_absorb_holds [OF assms] True by (simp add: poly_update_def)
next
  case False
  let ?lo = "po_leftover p" and ?rem = "chunks_remainder 16 d"
  let ?tk = "min (16 - ?lo) (length e)"
  have lo: "?lo = length d mod 16" "?lo < 16" "length ?rem = ?lo" "take ?lo (po_buffer p) = ?rem" "length (po_buffer p) = 16"
    using assms unfolding poly_holds_def length_chunks_remainder by (elim conjE; simp)+
  have keep: "po_r p = po_r (poly_new key)" "po_rs p = po_rs (poly_new key)" "po_pad p = po_pad (poly_new key)"
      "po_h p = foldl (limb_step key) (0, 0, 0, 0, 0) (chunks_exact 16 d)"
    using assms by (simp_all add: poly_holds_def)
  show ?thesis
  proof (cases "?lo + ?tk < 16")
    case True
    then have tk: "?tk = length e" "?lo + length e < 16" by auto
    have "chunks_exact 16 (d @ e) = chunks_exact 16 d" "chunks_remainder 16 (d @ e) = ?rem @ e"
      using chunks_exact_remainder_append [of 16 d e] chunks_remainder_append [of 16 d e] lo(3) tk(2)
      by (simp_all add: chunks_exact_short) (simp add: chunks_remainder_def)
    moreover have "length (d @ e) mod 16 = ?lo + length e"
      using lo(1) tk(2) by (metis length_append mod_add_left_eq mod_less)
    ultimately show ?thesis
      using False tk lo keep by (simp add: poly_update_def poly_holds_def Let_def blit_def)
  next
    case False2: False
    then have tk: "?tk = 16 - ?lo" "16 - ?lo \<le> length e" using lo(2) by auto
    let ?e = "take (16 - ?lo) e" and ?B = "?rem @ take (16 - ?lo) e"
    have B: "length ?B = 16" "blit ?lo ?e (po_buffer p) = ?B" using lo tk by (simp_all add: blit_def)
    have "chunks_exact 16 (d @ ?e) = chunks_exact 16 d @ [?B]" "chunks_remainder 16 (d @ ?e) = []"
      using chunks_exact_remainder_append [of 16 d ?e] chunks_remainder_append [of 16 d ?e] B(1)
      by (simp_all add: chunks_exact_one) (simp add: chunks_remainder_def)
    moreover have m: "length (d @ ?e) mod 16 = 0"
    proof -
      have "length (d @ ?e) mod 16 = (length d mod 16 + (16 - ?lo)) mod 16"
        using tk(2) by (simp add: mod_add_left_eq)
      also have "length d mod 16 + (16 - ?lo) = 16" using lo(1,2) by linarith
      finally show ?thesis by simp
    qed
    ultimately have "poly_holds key (d @ ?e)
        ((poly_block ?B FULL_BLOCK (p\<lparr>po_buffer := ?B, po_leftover := 16\<rparr>))\<lparr>po_leftover := 0\<rparr>)"
      using B keep by (simp add: poly_holds_def poly_block_def limb_step_def)
    then have "poly_holds key ((d @ ?e) @ drop (16 - ?lo) e)
        (poly_absorb (drop (16 - ?lo) e) ((poly_block ?B FULL_BLOCK (p\<lparr>po_buffer := ?B, po_leftover := 16\<rparr>))\<lparr>po_leftover := 0\<rparr>))"
      using m by (rule poly_absorb_holds)
    then show ?thesis using False tk B lo(2) by (simp add: poly_update_def Let_def)
  qed
qed

interpretation poly: absorbing "poly_new key" poly_update "poly_holds key" for key
proof
  show "poly_holds key [] (poly_new key)"
    by (simp add: poly_holds_def poly_new_def chunks_exact_short chunks_remainder_def Let_def)
qed (rule poly_update_holds)


section \<open>The authenticator of RFC 8439\<close>

definition rfc8439_poly :: "nat \<Rightarrow> bytes list \<Rightarrow> nat" where
  "rfc8439_poly r blocks = foldl (\<lambda>a blk. (a + le_num (blk @ [1])) * r mod P1305) 0 blocks"

definition rfc8439_mac :: "bytes \<Rightarrow> bytes \<Rightarrow> bytes" where
  "rfc8439_mac msg key =
    le_bytes 16 (word_of_nat (rfc8439_poly (le_num (take 16 key) AND CLAMP) (byte_chunks 16 msg)
      + le_num (drop 16 key)) :: 128 word)"

lemma byte_chunks_eq:
  assumes "0 < n"
  shows "byte_chunks n d = chunks_exact n d @ (if chunks_remainder n d = [] then [] else [chunks_remainder n d])"
  using assms
proof (induction n d rule: byte_chunks.induct)
  case (1 n d)
  consider "d = []" | "d \<noteq> []" "length d < n" | "d \<noteq> []" "n \<le> length d" by linarith
  then show ?case
  proof cases
    case 1
    then show ?thesis using "1.prems" by (simp add: byte_chunks.simps chunks_exact.simps chunks_remainder_def)
  next
    case 2
    then have "byte_chunks n d = [d]" using "1.prems" by (simp add: byte_chunks.simps)
    with 2 show ?thesis by (simp add: chunks_exact_short chunks_remainder_def)
  next
    case 3
    then have "byte_chunks n d = take n d # byte_chunks n (drop n d)" "chunks_exact n d = take n d # chunks_exact n (drop n d)"
      using "1.prems" by (simp_all add: byte_chunks.simps [of n d] chunks_exact.simps [of n d])
    with 3 "1.IH" "1.prems" show ?thesis by (simp add: chunks_remainder_drop)
  qed
qed

lemma full_block: "FULL_BLOCK = push_bit 24 1" "(0 :: u32) = push_bit 24 0"
  by (simp_all add: FULL_BLOCK_def)

lemma block_step:
  assumes "length key = 32" and "limbs_ok h" and "length block = 16" and "unat b \<le> 1"
    and "n = le_num block + 2 ^ 128 * unat b" and "r = le_num (take 16 key) AND CLAMP"
  defines "h' \<equiv> mul_reduce (add_block h block (push_bit 24 b)) (po_r (poly_new key)) (po_rs (poly_new key))"
  shows "limbs_ok h'" and "limb_val h' mod P1305 = (limb_val h mod P1305 + n) * r mod P1305"
proof -
  note a = add_block_val [OF assms(2-4)] and k = poly_new_key [OF assms(1)]
  show "limbs_ok h'" unfolding h'_def by (rule mul_reduce_val(1) [OF a(1) k(1)])
  have "limb_val h' mod P1305 = (limb_val h + n) * r mod P1305"
    unfolding h'_def mul_reduce_val(2) [OF a(1) k(1)] a(2) k(2) assms(5,6) ..
  then show "limb_val h' mod P1305 = (limb_val h mod P1305 + n) * r mod P1305"
    by (metis mod_add_left_eq mod_mult_left_eq)
qed

lemma limbs_of_blocks:
  assumes "length key = 32" and "\<forall>c\<in>set cs. length c = 16" and "limbs_ok h" and "limb_val h mod P1305 = a"
  shows "limbs_ok (foldl (limb_step key) h cs)"
    and "limb_val (foldl (limb_step key) h cs) mod P1305
      = foldl (\<lambda>a blk. (a + le_num (blk @ [1])) * (le_num (take 16 key) AND CLAMP) mod P1305) a cs"
  using assms(2-4)
proof (induction cs arbitrary: h a)
  case Nil
  { case 1 then show ?case by simp }
  { case 2 then show ?case by simp }
next
  case (Cons c cs)
  have n: "le_num (c @ [1]) = le_num c + 2 ^ 128 * unat (1 :: u32)" if "length c = 16"
    using that by (simp add: le_num_append)
  have s: "limbs_ok (limb_step key h c)"
    "limb_val (limb_step key h c) mod P1305
      = (limb_val h mod P1305 + le_num (c @ [1])) * (le_num (take 16 key) AND CLAMP) mod P1305"
    if "length c = 16" "limbs_ok h" for h
    unfolding limb_step_def full_block(1) using block_step [OF assms(1) that(2,1) _ n [OF that(1)] refl] by simp_all
  { case 1 then show ?case using Cons.IH(1) [OF _ s(1) refl] by simp }
  { case 2 then show ?case using Cons.IH(2) [of "limb_step key h c"] s by simp }
qed

lemma poly_pad_val:
  assumes "length key = 32"
  shows "words_val (po_pad (poly_new key)) = le_num (drop 16 key)"
proof -
  have l: "le32_at key (16 + i) = le32_at (drop 16 key) i" if "i + 4 \<le> 16" for i
    using assms that by (simp add: le32_at_def add.assoc)
  have "le_num (drop 16 key) = unat (le32_at (drop 16 key) 0) + 2 ^ 32 * unat (le32_at (drop 16 key) 4)
      + 2 ^ 64 * unat (le32_at (drop 16 key) 8) + 2 ^ 96 * unat (le32_at (drop 16 key) 12)"
    using assms by (intro le_num_16) simp
  then show ?thesis using l [of 0] l [of 4] l [of 8] l [of 12] by (simp add: poly_new_def Let_def)
qed

lemma tag_of_limbs:
  assumes "length key = 32" and "limbs_ok h" and "limb_val h mod P1305 = a"
  shows "add_pad (repack_limbs (reduce_once (carry_limbs h))) (po_pad (poly_new key))
    = le_bytes 16 (word_of_nat (a + le_num (drop 16 key)) :: 128 word)"
proof (rule le_num_inject)
  note c = carry_limbs_val [OF assms(2)]
  note r = reduce_once_val [OF c(1)]
  have "words_val (repack_limbs (reduce_once (carry_limbs h))) = a mod 2 ^ 128"
    using repack_limbs_val [OF r(1)] r(2) c(2) assms(3) by simp
  then have "le_num (add_pad (repack_limbs (reduce_once (carry_limbs h))) (po_pad (poly_new key)))
      = (a + le_num (drop 16 key)) mod 2 ^ 128"
    unfolding add_pad_val poly_pad_val [OF assms(1)] by (simp add: mod_add_left_eq)
  moreover have "le_num (le_bytes 16 (word_of_nat (a + le_num (drop 16 key)) :: 128 word))
      = (a + le_num (drop 16 key)) mod 2 ^ 128"
    unfolding le_num_le_bytes by (simp only: unsigned_of_nat take_bit_eq_mod) simp
  ultimately show "le_num (add_pad (repack_limbs (reduce_once (carry_limbs h))) (po_pad (poly_new key)))
      = le_num (le_bytes 16 (word_of_nat (a + le_num (drop 16 key)) :: 128 word))" by simp
qed (simp add: add_pad_def Let_def split: prod.split)

lemma last_block:
  assumes "length (rem :: bytes) < 16"
  shows "length ((blit 0 rem (replicate 16 0))[length rem := 1]) = 16"
    and "le_num ((blit 0 rem (replicate 16 0))[length rem := 1]) = le_num (rem @ [1])"
proof -
  have "replicate (16 - length rem) (0 :: u8) = 0 # replicate (15 - length rem) 0"
    using assms by (simp flip: replicate_Suc add: Suc_diff_Suc)
  then have "(blit 0 rem (replicate 16 0))[length rem := 1] = rem @ 1 # replicate (15 - length rem) 0"
    using assms by (simp add: blit_def list_update_append)
  then show "length ((blit 0 rem (replicate 16 0))[length rem := 1]) = 16"
    "le_num ((blit 0 rem (replicate 16 0))[length rem := 1]) = le_num (rem @ [1])"
    using assms by (simp_all add: le_num_append)
qed

lemma poly_finalize_holds:
  assumes "length key = 32" and "poly_holds key d p"
  shows "poly_finalize p = rfc8439_mac d key"
proof -
  let ?cs = "chunks_exact 16 d" and ?rem = "chunks_remainder 16 d" and ?r = "le_num (take 16 key) AND CLAMP"
  have h: "po_h p = foldl (limb_step key) (0, 0, 0, 0, 0) ?cs" "po_pad p = po_pad (poly_new key)"
    "po_r p = po_r (poly_new key)" "po_rs p = po_rs (poly_new key)" "take (po_leftover p) (po_buffer p) = ?rem"
    "po_leftover p = length ?rem"
    using assms(2) unfolding poly_holds_def length_chunks_remainder by (elim conjE; simp)+
  have b: "limbs_ok (po_h p)" "limb_val (po_h p) mod P1305 = rfc8439_poly ?r ?cs"
    unfolding h(1) rfc8439_poly_def
    using limbs_of_blocks [OF assms(1), of ?cs "(0, 0, 0, 0, 0)" 0] chunks_exact_elem [of _ 16 d] by simp_all
  show ?thesis
  proof (cases "?rem = []")
    case True
    then show ?thesis using tag_of_limbs [OF assms(1) b] h
      by (simp add: poly_finalize_def rfc8439_mac_def byte_chunks_eq)
  next
    case False
    let ?b = "(blit 0 ?rem (replicate 16 0))[length ?rem := 1]"
    let ?h = "mul_reduce (add_block (po_h p) ?b (push_bit 24 0)) (po_r (poly_new key)) (po_rs (poly_new key))"
    have "length ?rem < 16" by (rule length_chunks_remainder_less) simp
    note l = last_block [OF this]
    have "limbs_ok ?h" "limb_val ?h mod P1305 = (limb_val (po_h p) mod P1305 + le_num (?rem @ [1])) * ?r mod P1305"
      by (rule block_step [OF assms(1) b(1) l(1)]; simp add: l)+
    then have "add_pad (repack_limbs (reduce_once (carry_limbs ?h))) (po_pad (poly_new key))
        = le_bytes 16 (word_of_nat (rfc8439_poly ?r (?cs @ [?rem]) + le_num (drop 16 key)) :: 128 word)"
      by (intro tag_of_limbs [OF assms(1)]) (simp_all add: b(2) rfc8439_poly_def)
    then show ?thesis using False h full_block(2)
      by (simp add: poly_finalize_def rfc8439_mac_def byte_chunks_eq poly_block_def Let_def)
  qed
qed


section \<open>The authenticated cipher of RFC 8439\<close>

definition rfc8439_keystream :: "bytes \<Rightarrow> bytes \<Rightarrow> nat \<Rightarrow> u8" where
  "rfc8439_keystream key nonce j = chacha20_block key (1 + word_of_nat (j div 64)) nonce ! (j mod 64)"

definition rfc8439_crypt :: "bytes \<Rightarrow> bytes \<Rightarrow> bytes \<Rightarrow> bytes" where
  "rfc8439_crypt key nonce data = map (\<lambda>j. data ! j XOR rfc8439_keystream key nonce j) [0..<length data]"

definition rfc8439_mac_data :: "bytes \<Rightarrow> bytes \<Rightarrow> bytes" where
  "rfc8439_mac_data aad ct =
    aad @ replicate (pad16 (length aad)) 0 @ ct @ replicate (pad16 (length ct)) 0
      @ le_bytes 8 (word_of_nat (length aad) :: u64) @ le_bytes 8 (word_of_nat (length ct) :: u64)"

definition rfc8439_tag :: "bytes \<Rightarrow> bytes \<Rightarrow> bytes \<Rightarrow> bytes \<Rightarrow> bytes" where
  "rfc8439_tag key nonce aad ct = rfc8439_mac (rfc8439_mac_data aad ct) (take 32 (chacha20_block key 0 nonce))"

lemma length_chacha20_block [simp]: "length (chacha20_block key counter nonce) = 64"
  by (simp add: chacha20_block_def Let_def length_concat comp_def sum_list_triv)

definition crypt_chunks :: "bytes \<Rightarrow> bytes \<Rightarrow> (nat \<times> bytes) list \<Rightarrow> bytes list" where
  "crypt_chunks key nonce = map (\<lambda>(i, chunk). xor_chunk chunk (chacha20_block key (1 + word_of_nat i) nonce))"

lemma length_xor_chunk: "length c \<le> 64 \<Longrightarrow> length (xor_chunk c (chacha20_block key counter nonce)) = length c"
  by (simp add: xor_chunk_def)

lemma keystream_chunk:
  assumes "c \<noteq> []" and "length c \<le> 64"
  shows "xor_chunk c (chacha20_block key (1 + word_of_nat i) nonce)
    = map (\<lambda>j. c ! (j - 64 * i) XOR rfc8439_keystream key nonce j) [64 * i..<64 * i + length c]"
proof (rule nth_equalityI)
  fix j assume "j < length (xor_chunk c (chacha20_block key (1 + word_of_nat i) nonce))"
  then have j: "j < length c" using assms(2) by (simp add: length_xor_chunk)
  then have "(64 * i + j) div 64 = i" "(64 * i + j) mod 64 = j" using assms(2) by simp_all
  then show "xor_chunk c (chacha20_block key (1 + word_of_nat i) nonce) ! j
      = map (\<lambda>j. c ! (j - 64 * i) XOR rfc8439_keystream key nonce j) [64 * i..<64 * i + length c] ! j"
    using j assms(2) by (simp add: xor_chunk_def rfc8439_keystream_def)
qed (use assms in \<open>simp add: length_xor_chunk\<close>)

lemma crypt_chunks_eq:
  "concat (crypt_chunks key nonce (enumerate i (byte_chunks 64 data)))
    = map (\<lambda>j. data ! (j - 64 * i) XOR rfc8439_keystream key nonce j) [64 * i..<64 * i + length data]"
proof (induction "64 :: nat" data arbitrary: i rule: byte_chunks.induct)
  case (1 data)
  show ?case
  proof (cases "data = []")
    case True
    then show ?thesis by (simp add: byte_chunks.simps crypt_chunks_def)
  next
    case False
    let ?c = "take 64 data" and ?d = "drop 64 data"
    have s: "byte_chunks 64 data = ?c # byte_chunks 64 ?d" using False by (simp add: byte_chunks.simps [of 64 data])
    have "concat (crypt_chunks key nonce (enumerate (Suc i) (byte_chunks 64 ?d)))
        = map (\<lambda>j. ?d ! (j - 64 * Suc i) XOR rfc8439_keystream key nonce j) [64 * Suc i..<64 * Suc i + length ?d]"
      using "1.hyps" False by simp
    also have "\<dots> = map (\<lambda>j. data ! (j - 64 * i) XOR rfc8439_keystream key nonce j) [64 * i + 64..<64 * i + 64 + length ?d]"
      by (intro map_cong) (auto simp: nth_drop add.commute intro!: arg_cong2 [where f = "(XOR)"] arg_cong [where f = "(!) data"])
    finally have t: "concat (crypt_chunks key nonce (enumerate (Suc i) (byte_chunks 64 ?d)))
        = map (\<lambda>j. data ! (j - 64 * i) XOR rfc8439_keystream key nonce j) [64 * i + 64..<64 * i + 64 + length ?d]" .
    have c: "xor_chunk ?c (chacha20_block key (1 + word_of_nat i) nonce)
        = map (\<lambda>j. data ! (j - 64 * i) XOR rfc8439_keystream key nonce j) [64 * i..<64 * i + length ?c]"
      using False by (subst keystream_chunk) auto
    have r: "[64 * i..<64 * i + length data] = [64 * i..<64 * i + length ?c] @ [64 * i + 64..<64 * i + 64 + length ?d]"
    proof (cases "length data \<le> 64")
      case False
      then have "[64 * i..<(64 * i + 64) + length ?d] = [64 * i..<64 * i + 64] @ [64 * i + 64..<64 * i + 64 + length ?d]"
        by (intro upt_add_eq_append) simp
      then show ?thesis using False by simp
    qed simp
    show ?thesis using t c unfolding s r by (simp add: crypt_chunks_def)
  qed
qed

lemma chacha20_xor_eq: "chacha20_xor key 1 nonce data = rfc8439_crypt key nonce data"
  using crypt_chunks_eq [of key nonce 0 data] by (simp add: chacha20_xor_def rfc8439_crypt_def crypt_chunks_def)

lemma fused_loop:
  "foldl (\<lambda>(out, poly) (i, chunk).
      let ks = chacha20_block key (1 + word_of_nat i) nonce; chunk = xor_chunk chunk ks
      in (out @ chunk, poly_update chunk poly)) (out, p) cs
    = (out @ concat (crypt_chunks key nonce cs), foldl (\<lambda>p e. poly_update e p) p (crypt_chunks key nonce cs))"
  by (induction cs arbitrary: out p) (auto simp: crypt_chunks_def Let_def)

lemma take_ZERO_PAD: "take (pad16 n) ZERO_PAD = replicate (pad16 n) 0"
proof -
  have "pad16 n \<le> 16" by (simp add: pad16_def order_less_imp_le)
  then show ?thesis by (simp add: ZERO_PAD_def min_absorb1)
qed

lemma finish_mac_holds:
  assumes "length key = 32" and "poly_holds key (aad @ replicate (pad16 (length aad)) 0 @ ct) p"
  shows "finish_mac p (length aad) (length ct) = rfc8439_mac (rfc8439_mac_data aad ct) key"
proof -
  let ?lens = "le_bytes 8 (word_of_nat (length aad) :: u64) @ le_bytes 8 (word_of_nat (length ct) :: u64)"
  have "poly_holds key (((aad @ replicate (pad16 (length aad)) 0 @ ct) @ replicate (pad16 (length ct)) 0) @ ?lens)
      (poly_update ?lens (poly_update (replicate (pad16 (length ct)) 0) p))"
    by (intro poly.holds_feed assms(2))
  from poly_finalize_holds [OF assms(1) this] show ?thesis
    by (simp add: finish_mac_def Let_def take_ZERO_PAD rfc8439_mac_data_def)
qed

lemma aead_start:
  "poly_holds key (aad @ replicate (pad16 (length aad)) 0)
    (poly_update (take (pad16 (length aad)) ZERO_PAD) (poly_update aad (poly_new key)))"
proof -
  have "poly_holds key ([] @ aad) (poly_update aad (poly_new key))" by (rule poly.holds_feed [OF poly.holds_init])
  from poly.holds_feed [OF this, of "replicate (pad16 (length aad)) 0"] show ?thesis by (simp add: take_ZERO_PAD)
qed

lemma ct_eq16_iff:
  assumes "length a = 16" and "length b = 16"
  shows "ct_eq16 a b \<longleftrightarrow> a = b"
proof -
  have x: "x XOR y = 0 \<longleftrightarrow> x = y" for x y :: u8
    by (metis xor.assoc xor.left_neutral xor.right_neutral xor_self_eq)
  have z: "foldl (\<lambda>diff i. diff OR (a ! i XOR b ! i)) d is = 0 \<longleftrightarrow> d = 0 \<and> (\<forall>i\<in>set is. a ! i = b ! i)" for d "is"
    by (induction "is" arbitrary: d) (auto simp: or_eq_0_iff x)
  show ?thesis using assms unfolding ct_eq16_def z by (auto intro: nth_equalityI)
qed

lemma aead_encrypt_eq:
  "aead_encrypt key nonce aad plaintext
    = (rfc8439_crypt key nonce plaintext, rfc8439_tag key nonce aad (rfc8439_crypt key nonce plaintext))"
proof -
  let ?otk = "take 32 (chacha20_block key 0 nonce)" and ?cs = "crypt_chunks key nonce (enumerate 0 (byte_chunks 64 plaintext))"
  have c: "concat ?cs = rfc8439_crypt key nonce plaintext"
    using crypt_chunks_eq [of key nonce 0 plaintext] by (simp add: rfc8439_crypt_def)
  have "poly_holds ?otk ((aad @ replicate (pad16 (length aad)) 0) @ concat ?cs)
      (foldl (\<lambda>p e. poly_update e p) (poly_update (take (pad16 (length aad)) ZERO_PAD) (poly_update aad (poly_new ?otk))) ?cs)"
    by (rule poly.holds_feeds [OF aead_start])
  then show ?thesis unfolding aead_encrypt_def Let_def [of "chacha20_block key 0 nonce"] c
    using finish_mac_holds [of ?otk aad "rfc8439_crypt key nonce plaintext"]
    by (simp add: Let_def fused_loop [unfolded Let_def] c rfc8439_tag_def)
qed

lemma length_rfc8439_tag [simp]: "length (rfc8439_tag key nonce aad ct) = 16"
  by (simp add: rfc8439_tag_def rfc8439_mac_def)

lemma aead_decrypt_eq:
  assumes "length tag = 16"
  shows "aead_decrypt key nonce aad ct tag
    = (if tag = rfc8439_tag key nonce aad ct then Some (rfc8439_crypt key nonce ct) else None)"
proof -
  let ?otk = "take 32 (chacha20_block key 0 nonce)"
  have "poly_holds ?otk ((aad @ replicate (pad16 (length aad)) 0) @ ct)
      (poly_update ct (poly_update (take (pad16 (length aad)) ZERO_PAD) (poly_update aad (poly_new ?otk))))"
    by (rule poly.holds_feed [OF aead_start])
  then have "finish_mac (poly_update ct (poly_update (take (pad16 (length aad)) ZERO_PAD) (poly_update aad (poly_new ?otk))))
      (length aad) (length ct) = rfc8439_tag key nonce aad ct"
    unfolding rfc8439_tag_def by (intro finish_mac_holds) simp_all
  then show ?thesis using assms by (auto simp: aead_decrypt_def Let_def ct_eq16_iff chacha20_xor_eq)
qed

lemma crypt_crypt: "rfc8439_crypt key nonce (rfc8439_crypt key nonce data) = data"
  by (rule nth_equalityI) (simp_all add: rfc8439_crypt_def xor.assoc)


section \<open>Properties\<close>

lemma word128_add_cancel:
  "le_bytes 16 (word_of_nat (x + s) :: 128 word) = le_bytes 16 (word_of_nat (y + s) :: 128 word)
    \<longleftrightarrow> x mod 2 ^ 128 = y mod 2 ^ 128"
proof -
  have n: "le_num (le_bytes 16 (word_of_nat n :: 128 word)) = n mod 2 ^ 128" for n
    unfolding le_num_le_bytes by (simp only: unsigned_of_nat take_bit_eq_mod) simp
  have "le_bytes 16 (word_of_nat (x + s) :: 128 word) = le_bytes 16 (word_of_nat (y + s) :: 128 word)
      \<longleftrightarrow> (x + s) mod 2 ^ 128 = (y + s) mod 2 ^ 128"
    using n le_num_inject [of "le_bytes 16 (word_of_nat (x + s) :: 128 word)" "le_bytes 16 (word_of_nat (y + s) :: 128 word)"]
    by (metis length_le_bytes)
  also have "\<dots> \<longleftrightarrow> x mod 2 ^ 128 = y mod 2 ^ 128"
  proof
    assume "(x + s) mod 2 ^ 128 = (y + s) mod 2 ^ 128"
    then have "int ((x + s) mod 2 ^ 128) = int ((y + s) mod 2 ^ 128)" by simp
    then have "(int x + int s) mod 2 ^ 128 = (int y + int s) mod 2 ^ 128" by (simp add: zmod_int)
    then have "(int x + int s - int s) mod 2 ^ 128 = (int y + int s - int s) mod 2 ^ 128" by (rule mod_diff_cong) simp
    then have "int (x mod 2 ^ 128) = int (y mod 2 ^ 128)" by (simp add: zmod_int)
    then show "x mod 2 ^ 128 = y mod 2 ^ 128" by simp
  qed (metis mod_add_left_eq)
  finally show ?thesis .
qed

lemma mac_data_inject:
  assumes "length aad < 2 ^ 64" and "length ct < 2 ^ 64" and "length aad' < 2 ^ 64" and "length ct' < 2 ^ 64"
    and "rfc8439_mac_data aad ct = rfc8439_mac_data aad' ct'"
  shows "aad = aad' \<and> ct = ct'"
proof -
  let ?l = "\<lambda>n. le_bytes 8 (word_of_nat n :: u64)"
  have e: "(aad @ replicate (pad16 (length aad)) 0 @ ct @ replicate (pad16 (length ct)) 0) @ (?l (length aad) @ ?l (length ct))
    = (aad' @ replicate (pad16 (length aad')) 0 @ ct' @ replicate (pad16 (length ct')) 0) @ (?l (length aad') @ ?l (length ct'))"
    using assms(5) by (simp add: rfc8439_mac_data_def)
  then have "?l (length aad) @ ?l (length ct) = ?l (length aad') @ ?l (length ct')"
    by (subst (asm) append_eq_append_conv) simp_all
  then have l: "?l (length aad) = ?l (length aad')" "?l (length ct) = ?l (length ct')"
    by (simp_all add: append_eq_append_conv)
  have d: "aad @ replicate (pad16 (length aad)) 0 @ ct @ replicate (pad16 (length ct)) 0
      = aad' @ replicate (pad16 (length aad')) 0 @ ct' @ replicate (pad16 (length ct')) 0"
    using e by (subst (asm) append_eq_append_conv) simp_all
  have n: "unat (word_of_nat k :: u64) = k" if "k < 2 ^ 64" for k :: nat
    using that by (simp add: unsigned_of_nat take_bit_nat_eq_self)
  have "length aad = length aad'" "length ct = length ct'"
    using l assms(1-4) n le_bytes_u64_inject by (metis, metis)
  then show ?thesis using d by (simp add: append_eq_append_conv)
qed

text \<open>
  C26: However a message is cut into pieces, feeding the pieces to the streaming authenticator and
  finalising it gives the Poly1305 tag of RFC 8439: the polynomial of the 16-byte blocks, each with its
  marker byte, evaluated at the clamped key modulo \<open>2 ^ 130 - 5\<close>, plus the second key half modulo
  \<open>2 ^ 128\<close>. The five 26-bit limbs and the delayed carries never lose a bit.
\<close>

theorem poly1305_follows_rfc8439:
  assumes "length key = 32"
  shows "poly_finalize (foldl (\<lambda>p e. poly_update e p) (poly_new key) pieces) = rfc8439_mac (concat pieces) key"
  using poly.holds_feeds [OF poly.holds_init, of key pieces] by (intro poly_finalize_holds [OF assms]) simp

theorem poly1305_follows_rfc8439_witness:
  "poly1305_mac [1, 2, 3] (replicate 32 7) = rfc8439_mac [1, 2, 3] (replicate 32 7)"
  using poly1305_follows_rfc8439 [of "replicate 32 7" "[[1, 2, 3]]"] by (simp add: poly1305_mac_def)

text \<open>
  One-pass encryption is the construction of RFC 8439: every byte is combined with its byte of the
  key stream from block 1 on, and the tag is the Poly1305 tag, under the key from block 0, of the padded
  associated data, the padded ciphertext and their lengths. Decryption of what encryption produced
  returns the plaintext.
\<close>

theorem aead_seal_open:
  "aead_encrypt key nonce aad plaintext
      = (rfc8439_crypt key nonce plaintext, rfc8439_tag key nonce aad (rfc8439_crypt key nonce plaintext))
    \<and> (case aead_encrypt key nonce aad plaintext of (ct, tag) \<Rightarrow>
        length ct = length plaintext \<and> aead_decrypt key nonce aad ct tag = Some plaintext)"
  by (simp add: aead_encrypt_eq aead_decrypt_eq crypt_crypt) (simp add: rfc8439_crypt_def)

text \<open>
  C27: Another ciphertext or other associated data is accepted under the tag of an encryption exactly if
  the two authenticated messages have the same value modulo \<open>2 ^ 128\<close> under the polynomial of the secret
  one-time key; these messages are equal only if both the ciphertexts and the associated data are. What
  is refused yields no plaintext at all.
\<close>

theorem aead_tamper_exact:
  assumes "aead_encrypt key nonce aad plaintext = (ct, tag)"
    and "length aad < 2 ^ 64" and "length ct < 2 ^ 64" and "length aad' < 2 ^ 64" and "length ct' < 2 ^ 64"
  shows "(aead_decrypt key nonce aad' ct' tag \<noteq> None \<longleftrightarrow>
      (let r = le_num (take 16 (chacha20_block key 0 nonce)) AND CLAMP
       in rfc8439_poly r (byte_chunks 16 (rfc8439_mac_data aad' ct')) mod 2 ^ 128
          = rfc8439_poly r (byte_chunks 16 (rfc8439_mac_data aad ct)) mod 2 ^ 128))
    \<and> (rfc8439_mac_data aad' ct' = rfc8439_mac_data aad ct \<longleftrightarrow> aad' = aad \<and> ct' = ct)"
proof -
  have t: "tag = rfc8439_tag key nonce aad ct" "length tag = 16" using assms(1) by (auto simp: aead_encrypt_eq)
  then have "aead_decrypt key nonce aad' ct' tag \<noteq> None \<longleftrightarrow> rfc8439_tag key nonce aad' ct' = rfc8439_tag key nonce aad ct"
    by (auto simp: aead_decrypt_eq)
  then have "aead_decrypt key nonce aad' ct' tag \<noteq> None \<longleftrightarrow>
      (let r = le_num (take 16 (chacha20_block key 0 nonce)) AND CLAMP
       in rfc8439_poly r (byte_chunks 16 (rfc8439_mac_data aad' ct')) mod 2 ^ 128
          = rfc8439_poly r (byte_chunks 16 (rfc8439_mac_data aad ct)) mod 2 ^ 128)"
    unfolding rfc8439_tag_def rfc8439_mac_def word128_add_cancel by (simp add: Let_def)
  moreover have "rfc8439_mac_data aad' ct' = rfc8439_mac_data aad ct \<longleftrightarrow> aad' = aad \<and> ct' = ct"
    using mac_data_inject [OF assms(4,5,2,3)] by auto
  ultimately show ?thesis by blast
qed

theorem aead_tamper_exact_witness:
  "\<exists>ct tag. aead_encrypt (replicate 32 1) (replicate 12 2) [3] [4, 5] = (ct, tag)
    \<and> aead_decrypt (replicate 32 1) (replicate 12 2) [3] ct tag \<noteq> None"
proof -
  obtain ct tag where e: "aead_encrypt (replicate 32 1) (replicate 12 2) [3] [4, 5] = (ct, tag)" by fastforce
  then have "length ct = 2" by (auto simp: aead_encrypt_eq rfc8439_crypt_def)
  with e show ?thesis using aead_tamper_exact [OF e, of "[3]" ct] by (auto simp: Let_def)
qed

end
