(* ===== verification/Big_Endian.thy ===== *)
theory Big_Endian
  imports Dominion_Prelude
begin

text \<open>
  Byte strings as numbers, most significant byte first, as the standards read and write them.  The conversions
  of the code, which shift and mask machine words, are shown to be these.
\<close>

unbundle bit_operations_syntax

definition be_value :: "bytes \<Rightarrow> nat" where
  "be_value bs = foldl (\<lambda>n b. 256 * n + unat b) 0 bs"

definition be_digits :: "nat \<Rightarrow> nat \<Rightarrow> bytes" where
  "be_digits n v = map (\<lambda>i. word_of_nat (v div 256 ^ (n - Suc i))) [0..<n]"

lemma length_be_digits [simp]: "length (be_digits n v) = n"
  by (simp add: be_digits_def)

lemma be_value_snoc: "be_value (bs @ [b]) = 256 * be_value bs + unat b"
  by (simp add: be_value_def)

lemma byte_or_shift: "ucast (b :: u8) OR push_bit 8 w = word_of_nat (unat b) + 256 * (w :: 'a::len word)"
proof -
  have "(ucast b :: 'a word) AND push_bit 8 w = 0"
    by (rule bit_word_eqI) (auto simp: bit_simps dest: bit_imp_le_length)
  then have "ucast b OR push_bit 8 w = ucast b + push_bit 8 w" by (rule disjunctive_add_eq_or [symmetric])
  then show ?thesis by (simp add: push_bit_eq_mult mult.commute)
qed

lemma of_be_bytes_value: "of_be_bytes bs = word_of_nat (be_value bs)"
proof (induction bs rule: rev_induct)
  case Nil
  then show ?case by (simp add: of_be_bytes_def be_value_def)
next
  case (snoc b bs)
  then show ?case by (simp add: of_be_bytes_def byte_or_shift be_value_snoc)
qed

lemma le_bytes_nth: "i < n \<Longrightarrow> le_bytes n w ! i = ucast (drop_bit (8 * i) w)"
proof (induction n arbitrary: w i)
  case (Suc n)
  then show ?case by (cases i) (simp_all add: drop_bit_drop_bit add.commute)
qed simp

lemma power_256: "256 ^ k = (2 :: nat) ^ (8 * k)"
  by (simp add: power_mult)

lemma be_bytes_digits: "be_bytes n w = be_digits n (unat w)"
proof (rule nth_equalityI)
  fix i assume "i < length (be_bytes n w)"
  then have i: "i < n" by simp
  then have "be_bytes n w ! i = ucast (drop_bit (8 * (n - Suc i)) w)"
    by (simp add: be_bytes_def rev_nth le_bytes_nth)
  also have "\<dots> = word_of_nat (unat (drop_bit (8 * (n - Suc i)) w))" by simp
  also have "unat (drop_bit (8 * (n - Suc i)) w) = unat w div 256 ^ (n - Suc i)"
    unfolding unat_drop_bit_eq by (simp add: drop_bit_eq_div power_256)
  finally show "be_bytes n w ! i = be_digits n (unat w) ! i" using i by (simp add: be_digits_def)
qed simp

lemma be_digits_mod:
  assumes "8 * n \<le> m"
  shows "be_digits n (v mod 2 ^ m) = be_digits n v"
proof (rule nth_equalityI)
  fix i assume "i < length (be_digits n (v mod 2 ^ m))"
  then have i: "i < n" by simp
  define k where "k = 8 * (n - Suc i)"
  have k: "k + 8 \<le> m" using i assms by (simp add: k_def)
  have "(v mod 2 ^ m) div 2 ^ k = (v div 2 ^ k) mod 2 ^ (m - k)"
    using k by (simp add: take_bit_eq_mod [symmetric] drop_bit_eq_div [symmetric] drop_bit_take_bit)
  then have "(v mod 2 ^ m) div 2 ^ k mod 2 ^ 8 = v div 2 ^ k mod 2 ^ 8"
    using k mod_mod_cancel [OF le_imp_power_dvd, of 8 "m - k" "v div 2 ^ k" 2] by simp
  then have "(word_of_nat ((v mod 2 ^ m) div 2 ^ k) :: u8) = word_of_nat (v div 2 ^ k)"
    by (simp add: word_of_nat_eq_iff take_bit_eq_mod)
  then show "be_digits n (v mod 2 ^ m) ! i = be_digits n v ! i"
    using i by (simp add: be_digits_def power_256 k_def)
qed simp

lemma be_bytes_of_nat: "8 * n \<le> LENGTH('a) \<Longrightarrow> be_bytes n (word_of_nat v :: 'a::len word) = be_digits n v"
  by (simp add: be_bytes_digits unat_of_nat be_digits_mod)

lemma be_value_less: "be_value bs < 256 ^ length bs"
proof (induction bs rule: rev_induct)
  case (snoc b bs)
  have "unat b < 256" using unsigned_less [of b, where ?'a = nat] by simp
  then have "256 * be_value bs + unat b < 256 * Suc (be_value bs)" by simp
  also have "\<dots> \<le> 256 * 256 ^ length bs" using snoc by (intro mult_le_mono) simp_all
  finally show ?case by (simp add: be_value_snoc)
qed (simp add: be_value_def)

lemma be_value_append: "be_value (xs @ ys) = be_value xs * 256 ^ length ys + be_value ys"
proof (induction ys rule: rev_induct)
  case (snoc y ys)
  then show ?case unfolding append_assoc [symmetric] be_value_snoc by (simp add: algebra_simps)
qed (simp add: be_value_def)

lemma be_digits_Suc: "be_digits (Suc n) v = be_digits n (v div 256) @ [word_of_nat v]"
  by (auto simp: be_digits_def div_mult2_eq [symmetric] Suc_diff_Suc power_Suc [symmetric] simp del: power_Suc)

lemma be_value_digits: "be_value (be_digits n v) = v mod 256 ^ n"
proof (induction n arbitrary: v)
  case (Suc n)
  have "unat (word_of_nat v :: u8) = v mod 256" by (simp add: unat_of_nat)
  then show ?case unfolding be_digits_Suc be_value_snoc Suc power_Suc mod_mult2_eq by simp
qed (simp add: be_digits_def be_value_def)


end
