(* ===== verification/Sealed_Memory.thy ===== *)
theory Sealed_Memory
  imports Ghash_Field Aes_Reference Aead Big_Endian
begin

text \<open>
  AES-GCM of \<^verbatim>\<open>memcrypt.rs\<close> as NIST SP 800-38D states it, and the sealed region built on it: the fused
  single pass gives the standard's ciphertext and tag, decryption accepts exactly the standard's tag, a region
  opens to what was last sealed, and no initialisation vector is used twice.
\<close>

unbundle bit_operations_syntax

section \<open>The standard\<close>

text \<open>
  SP 800-38D over a block cipher \<open>E\<close>, with its own counter increment (the last 32 bits as a number, plus one, modulo
  \<open>2\<^sup>3\<^sup>2\<close>), its own padding and its own length block (the lengths in bits as two 64-bit numbers), over bytes and
  natural numbers.
\<close>

definition sp800_inc32 :: "bytes \<Rightarrow> bytes" where
  "sp800_inc32 x = take 12 x @ be_digits 4 ((be_value (drop 12 x) + 1) mod 2 ^ 32)"

definition sp800_gctr :: "(bytes \<Rightarrow> bytes) \<Rightarrow> bytes \<Rightarrow> bytes \<Rightarrow> bytes" where
  "sp800_gctr E icb data = map (\<lambda>i. data ! i XOR E ((sp800_inc32 ^^ (i div 16)) icb) ! (i mod 16)) [0..<length data]"

definition sp800_pad :: "bytes \<Rightarrow> bytes" where
  "sp800_pad x = x @ replicate (nat (- int (length x) mod 16)) 0"

definition sp800_blocks :: "bytes \<Rightarrow> u128 list" where
  "sp800_blocks x = map (\<lambda>i. word_of_nat (be_value (slice (16 * i) 16 x))) [0..<length x div 16]"

definition sp800_ghash :: "u128 \<Rightarrow> bytes \<Rightarrow> u128" where
  "sp800_ghash h x = foldl (\<lambda>y b. sp800_mul (y XOR b) h) 0 (sp800_blocks x)"

definition sp800_tag :: "(bytes \<Rightarrow> bytes) \<Rightarrow> bytes \<Rightarrow> bytes \<Rightarrow> bytes \<Rightarrow> bytes" where
  "sp800_tag E iv aad ct =
    (let h = word_of_nat (be_value (E (replicate 16 0)));
         j0 = iv @ [0, 0, 0, 1];
         s = sp800_ghash h (sp800_pad aad @ sp800_pad ct @ be_digits 8 (8 * length aad) @ be_digits 8 (8 * length ct))
     in sp800_gctr E j0 (be_digits 16 (unat s)))"

definition sp800_encrypt :: "(bytes \<Rightarrow> bytes) \<Rightarrow> bytes \<Rightarrow> bytes \<Rightarrow> bytes \<Rightarrow> bytes \<times> bytes" where
  "sp800_encrypt E iv aad pt =
    (let ct = sp800_gctr E (sp800_inc32 (iv @ [0, 0, 0, 1])) pt in (ct, sp800_tag E iv aad ct))"

definition sp800_decrypt :: "(bytes \<Rightarrow> bytes) \<Rightarrow> bytes \<Rightarrow> bytes \<Rightarrow> bytes \<Rightarrow> bytes \<Rightarrow> bytes option" where
  "sp800_decrypt E iv aad ct tag =
    (if tag = sp800_tag E iv aad ct then Some (sp800_gctr E (sp800_inc32 (iv @ [0, 0, 0, 1])) ct) else None)"

section \<open>The code in closed form\<close>

text \<open>What the code computes, still with its own counter and length block.\<close>

definition padded_blocks :: "bytes \<Rightarrow> u128 list" where
  "padded_blocks data = map (\<lambda>c. of_be_bytes (c @ replicate (16 - length c) 0)) (byte_chunks 16 data)"

definition block_ghash :: "u128 \<Rightarrow> u128 list \<Rightarrow> u128" where
  "block_ghash h xs = foldl (\<lambda>y x. sp800_mul (y XOR x) h) 0 xs"

definition stream_gctr :: "(bytes \<Rightarrow> bytes) \<Rightarrow> bytes \<Rightarrow> bytes \<Rightarrow> bytes" where
  "stream_gctr E icb data = map (\<lambda>i. data ! i XOR E ((inc32 ^^ (i div 16)) icb) ! (i mod 16)) [0..<length data]"

definition fused_tag :: "(bytes \<Rightarrow> bytes) \<Rightarrow> bytes \<Rightarrow> bytes \<Rightarrow> bytes \<Rightarrow> bytes" where
  "fused_tag E iv aad ct =
    (let h = of_be_bytes (E (replicate 16 0));
         s = block_ghash h (padded_blocks aad @ padded_blocks ct @ [len_block (length aad) (length ct)])
     in be_bytes 16 (s XOR of_be_bytes (E (iv @ [0, 0, 0, 1]))))"

definition stream_crypt :: "(bytes \<Rightarrow> bytes) \<Rightarrow> bytes \<Rightarrow> bytes \<Rightarrow> bytes" where
  "stream_crypt E iv data = stream_gctr E (iv @ [0, 0, 0, 2]) data"

section \<open>Counter mode\<close>

lemma byte_chunks_Cons: "data \<noteq> [] \<Longrightarrow> byte_chunks 16 data = take 16 data # byte_chunks 16 (drop 16 data)"
  by (subst byte_chunks.simps) simp

lemma byte_chunks_Nil [simp]: "byte_chunks 16 [] = []"
  by (simp add: byte_chunks.simps)

lemma length_encrypt_block [simp]: "length (encrypt_block a b) = 16"
  by (simp add: encrypt_block_def Let_def)

fun crypt_blocks :: "aes \<Rightarrow> bytes \<Rightarrow> bytes list \<Rightarrow> bytes list" where
  "crypt_blocks a cb [] = []"
| "crypt_blocks a cb (c # cs) = xor_chunk c (encrypt_block a cb) # crypt_blocks a (inc32 cb) cs"

lemma gctr_blocks: "gctr a icb data = concat (crypt_blocks a icb (byte_chunks 16 data))"
proof -
  have "fst (foldl (\<lambda>(out, cb) chunk. (out @ xor_chunk chunk (encrypt_block a cb), inc32 cb)) (out, cb) cs)
      = out @ concat (crypt_blocks a cb cs)" for out cb cs
    by (induction cs arbitrary: out cb) simp_all
  then show ?thesis by (simp add: gctr_def)
qed

lemma crypt_blocks_index:
  "concat (crypt_blocks a icb (byte_chunks 16 data)) = stream_gctr (encrypt_block a) icb data"
proof (induction "16 :: nat" data arbitrary: icb rule: byte_chunks.induct)
  case (1 data)
  show ?case
  proof (cases "data = []")
    case True
    then show ?thesis by (simp add: stream_gctr_def)
  next
    case False
    let ?c = "take 16 data" and ?d = "drop 16 data"
    have "concat (crypt_blocks a icb (byte_chunks 16 data)) =
        xor_chunk ?c (encrypt_block a icb) @ stream_gctr (encrypt_block a) (inc32 icb) ?d"
      using 1 False by (simp add: byte_chunks_Cons)
    also have "\<dots> = stream_gctr (encrypt_block a) icb data"
    proof (rule nth_equalityI)
      show "length (xor_chunk ?c (encrypt_block a icb) @ stream_gctr (encrypt_block a) (inc32 icb) ?d)
          = length (stream_gctr (encrypt_block a) icb data)"
        by (simp add: xor_chunk_def stream_gctr_def)
      fix i
      assume "i < length (xor_chunk ?c (encrypt_block a icb) @ stream_gctr (encrypt_block a) (inc32 icb) ?d)"
      then have i: "i < length data" by (simp add: xor_chunk_def stream_gctr_def)
      show "(xor_chunk ?c (encrypt_block a icb) @ stream_gctr (encrypt_block a) (inc32 icb) ?d) ! i
          = stream_gctr (encrypt_block a) icb data ! i"
      proof (cases "i < 16")
        case True
        then show ?thesis using i by (simp add: xor_chunk_def stream_gctr_def nth_append)
      next
        case False
        then obtain j where j: "i = j + 16" by (metis add.commute le_add_diff_inverse not_less)
        then have "(j + 16) div 16 = Suc (j div 16)" "j < length data - 16" using i by simp_all
        then show ?thesis
          using i j by (simp add: xor_chunk_def stream_gctr_def nth_append funpow_swap1 add.commute)
      qed
    qed
    finally show ?thesis .
  qed
qed

lemma gctr_eq: "gctr a icb data = stream_gctr (encrypt_block a) icb data"
  by (simp add: gctr_blocks crypt_blocks_index)

lemma length_gctr [simp]: "length (stream_gctr E icb data) = length data"
  by (simp add: stream_gctr_def)

lemma gctr_involution: "stream_gctr E icb (stream_gctr E icb data) = data"
  by (rule nth_equalityI) (simp_all add: stream_gctr_def xor.assoc)

section \<open>The tag\<close>

lemma pad_block_eq: "length c \<le> 16 \<Longrightarrow> pad_block c = c @ replicate (16 - length c) 0"
  by (simp add: pad_block_def blit_def)

lemma byte_chunks_length: "c \<in> set (byte_chunks 16 data) \<Longrightarrow> length c \<le> 16 \<and> c \<noteq> []"
proof (induction "16 :: nat" data rule: byte_chunks.induct)
  case (1 data)
  then show ?case by (cases "data = []") (auto simp: byte_chunks_Cons)
qed

lemma ghash_feed_eq:
  "ghash_feed (ghash_table_new h) y data = foldl (\<lambda>y x. sp800_mul (y XOR x) h) y (padded_blocks data)"
proof -
  have "foldl (\<lambda>y c. ghash_mul (ghash_table_new h) (y XOR of_be_bytes (pad_block c))) y cs
      = foldl (\<lambda>y x. sp800_mul (y XOR x) h) y (map (\<lambda>c. of_be_bytes (c @ replicate (16 - length c) 0)) cs)"
    if "\<forall>c \<in> set cs. length c \<le> 16" for cs y
    using that by (induction cs arbitrary: y) (simp_all add: ghash_mul_eq_sp800 pad_block_eq)
  then show ?thesis unfolding ghash_feed_def padded_blocks_def using byte_chunks_length by blast
qed

lemma ghash_eq:
  "ghash h aad ct = block_ghash h (padded_blocks aad @ padded_blocks ct @ [len_block (length aad) (length ct)])"
  by (simp add: ghash_def Let_def ghash_feed_eq ghash_mul_eq_sp800 block_ghash_def)

lemma gcm_j0_eq: "length iv = 12 \<Longrightarrow> gcm_j0 iv = iv @ [0, 0, 0, 1]"
  by (simp add: gcm_j0_def blit_def list_update_append numeral_eq_Suc)

lemma inc32_j0: "length iv = 12 \<Longrightarrow> inc32 (iv @ [0, 0, 0, 1]) = iv @ [0, 0, 0, 2]"
proof -
  assume "length iv = 12"
  moreover have "of_be_bytes [0, 0, 0, 1] = (1 :: u32)" by (simp add: of_be_bytes_def)
  moreover have "be_bytes 4 (2 :: u32) = [0, 0, 0, 2]" by code_simp
  ultimately show ?thesis by (simp add: inc32_def nth_append blit_def Let_def)
qed

lemma crypt_blocks_chunks: "crypt_blocks a cb (byte_chunks 16 data) = byte_chunks 16 (concat (crypt_blocks a cb (byte_chunks 16 data)))"
proof (induction "16 :: nat" data arbitrary: cb rule: byte_chunks.induct)
  case (1 data)
  show ?case
  proof (cases "data = []")
    case False
    let ?x = "xor_chunk (take 16 data) (encrypt_block a cb)"
    let ?r = "crypt_blocks a (inc32 cb) (byte_chunks 16 (drop 16 data))"
    have x: "length ?x = min (length data) 16" by (simp add: xor_chunk_def)
    then have "length ?x \<noteq> 0" using False by simp
    then have ne: "?x \<noteq> []" by auto
    have "length data \<le> 16 \<Longrightarrow> ?r = []" by simp
    then have "take 16 (?x @ concat ?r) = ?x" "drop 16 (?x @ concat ?r) = concat ?r"
      using x by (cases "length data \<le> 16"; simp)+
    then have "byte_chunks 16 (?x @ concat ?r) = ?x # byte_chunks 16 (concat ?r)"
      using ne by (simp add: byte_chunks_Cons)
    then show ?thesis using 1 False by (simp add: byte_chunks_Cons)
  qed simp
qed

lemma fused_gcm_loop:
  "foldl (\<lambda>(out, cb, y) chunk.
      let chunk = xor_chunk chunk (encrypt_block a cb)
      in (out @ chunk, inc32 cb, ghash_mul t (y XOR of_be_bytes (pad_block chunk)))) (out, cb, y) cs
   = (out @ concat (crypt_blocks a cb cs), (inc32 ^^ length cs) cb,
      foldl (\<lambda>y chunk. ghash_mul t (y XOR of_be_bytes (pad_block chunk))) y (crypt_blocks a cb cs))"
  by (induction cs arbitrary: out cb y) (simp_all add: Let_def funpow_swap1)

lemma gcm_encrypt_eq:
  assumes "length iv = 12"
  shows "gcm_encrypt a iv aad pt =
    (stream_crypt (encrypt_block a) iv pt, fused_tag (encrypt_block a) iv aad (stream_crypt (encrypt_block a) iv pt))"
proof -
  let ?t = "ghash_table_new (of_be_bytes (encrypt_block a (replicate 16 0)))"
  let ?bs = "crypt_blocks a (iv @ [0, 0, 0, 2]) (byte_chunks 16 pt)"
  have c: "concat ?bs = stream_crypt (encrypt_block a) iv pt"
    by (simp add: crypt_blocks_index stream_crypt_def)
  have "foldl (\<lambda>y chunk. ghash_mul ?t (y XOR of_be_bytes (pad_block chunk))) y ?bs = ghash_feed ?t y (concat ?bs)" for y
    unfolding ghash_feed_def by (subst crypt_blocks_chunks) (rule refl)
  then show ?thesis
    unfolding gcm_encrypt_def Let_def gcm_j0_eq [OF assms] inc32_j0 [OF assms] fused_gcm_loop [unfolded Let_def]
    by (simp add: c ghash_feed_eq ghash_mul_eq_sp800 fused_tag_def block_ghash_def Let_def)
qed

lemma length_be16 [simp]: "length (fused_tag E iv aad ct) = 16"
  by (simp add: fused_tag_def Let_def)

lemma gcm_decrypt_eq:
  assumes "length iv = 12" and "length tag = 16"
  shows "gcm_decrypt a iv aad ct tag =
    (if tag = fused_tag (encrypt_block a) iv aad ct then Some (stream_crypt (encrypt_block a) iv ct) else None)"
  using assms
  by (auto simp: gcm_decrypt_def Let_def ct_eq16_iff ghash_eq gctr_eq gcm_j0_eq inc32_j0 fused_tag_def stream_crypt_def)

section \<open>The closed form is the standard\<close>

lemma list16_tail: "length b = 16 \<Longrightarrow> drop 12 b = [b ! 12, b ! 13, b ! 14, b ! 15]"
  by (rule nth_equalityI) (auto simp: less_Suc_eq numeral_eq_Suc)

lemma inc32_eq: "length b = 16 \<Longrightarrow> inc32 b = sp800_inc32 b"
proof -
  assume b: "length b = 16"
  let ?v = "be_value (drop 12 b)"
  have "of_be_bytes [b ! 12, b ! 13, b ! 14, b ! 15] + 1 = (word_of_nat (?v + 1) :: u32)"
    by (simp add: list16_tail [OF b] of_be_bytes_value)
  moreover have "be_bytes 4 (word_of_nat (?v + 1) :: u32) = be_digits 4 ((?v + 1) mod 2 ^ 32)"
    using be_bytes_of_nat [where ?'a = 32, of 4 "?v + 1"] be_digits_mod [of 4 32 "?v + 1"] by simp
  ultimately show ?thesis using b by (simp add: inc32_def sp800_inc32_def blit_def Let_def del: of_nat_Suc of_nat_add)
qed

lemma length_inc32 [simp]: "length b = 16 \<Longrightarrow> length (sp800_inc32 b) = 16"
  by (simp add: sp800_inc32_def)

lemma counter_eq: "length b = 16 \<Longrightarrow> (inc32 ^^ n) b = (sp800_inc32 ^^ n) b \<and> length ((sp800_inc32 ^^ n) b) = 16"
  by (induction n) (simp_all add: inc32_eq)

text \<open>Only blocks of 16 bytes are ever enciphered.\<close>

lemma stream_gctr_eq:
  assumes "length icb = 16" and "\<And>b. length b = 16 \<Longrightarrow> E b = F b"
  shows "stream_gctr E icb data = sp800_gctr F icb data"
  using counter_eq [OF assms(1)] by (auto simp: stream_gctr_def sp800_gctr_def assms(2))

lemma sp800_blocks_append:
  assumes "length x mod 16 = 0"
  shows "sp800_blocks (x @ y) = sp800_blocks x @ sp800_blocks y"
proof -
  obtain n where n: "length x = 16 * n" using assms by (auto elim: dvdE simp: dvd_eq_mod_eq_0 [symmetric])
  have 1: "slice (16 * i) 16 (x @ y) = slice (16 * i) 16 x" if "i < n" for i using that n by (simp add: slice_def)
  have 2: "slice (16 * i + 16 * n) 16 (x @ y) = slice (16 * i) 16 y" for i using n by (simp add: slice_def)
  have 3: "length (x @ y) div 16 = n + length y div 16" "length x div 16 = n" using n by simp_all
  show ?thesis
    unfolding sp800_blocks_def 3 upt_add_eq_append [OF le0] map_append
    using map_add_upt [of n "length y div 16"] by (auto simp: 1 2 add.commute [of n] map_add_upt [symmetric] simp del: map_add_upt)
qed

lemma sp800_blocks_one: "length x = 16 \<Longrightarrow> sp800_blocks x = [of_be_bytes x]"
  by (simp add: sp800_blocks_def slice_def of_be_bytes_value)

lemma sp800_pad_length [simp]: "length (sp800_pad x) mod 16 = 0"
proof -
  have "int (length (sp800_pad x)) mod 16 = (int (length x) + (- int (length x)) mod 16) mod 16" by (simp add: sp800_pad_def)
  also have "\<dots> = 0" by (simp add: mod_add_right_eq)
  finally show ?thesis by presburger
qed

lemma padded_blocks_eq: "padded_blocks x = sp800_blocks (sp800_pad x)"
proof (induction "16 :: nat" x rule: byte_chunks.induct)
  case (1 x)
  consider "x = []" | (short) "x \<noteq> []" "length x \<le> 16" | (long) "16 < length x" by fastforce
  then show ?case
  proof cases
    case short
    then have l: "nat (- int (length x) mod 16) = 16 - length x"
      by (cases "length x = 16") (simp_all add: zmod_zminus1_eq_if nat_diff_distrib)
    then show ?thesis using short
      by (simp add: padded_blocks_def byte_chunks_Cons sp800_pad_def sp800_blocks_one)
  next
    case long
    have "- int (length (drop 16 x)) = - int (length x) + 16" using long by simp
    then have "(- int (length (drop 16 x))) mod 16 = (- int (length x)) mod 16" by (simp only: mod_add_self2)
    then have p: "sp800_pad x = take 16 x @ sp800_pad (drop 16 x)" by (simp add: sp800_pad_def)
    have "padded_blocks x = of_be_bytes (take 16 x) # padded_blocks (drop 16 x)"
      using long unfolding padded_blocks_def by (subst byte_chunks_Cons) auto
    also have "padded_blocks (drop 16 x) = sp800_blocks (sp800_pad (drop 16 x))" using 1 long by (metis list.size(3) not_less_zero zero_neq_numeral)
    finally show ?thesis using long by (simp add: p sp800_blocks_append sp800_blocks_one)
  qed (simp add: padded_blocks_def sp800_pad_def sp800_blocks_def)
qed

lemma len_block_eq:
  assumes "8 * a < 2 ^ 64" and "8 * c < 2 ^ 64"
  shows "sp800_blocks (be_digits 8 (8 * a) @ be_digits 8 (8 * c)) = [len_block a c]"
proof -
  have "be_value (be_digits 8 (8 * a) @ be_digits 8 (8 * c)) = 8 * a * 2 ^ 64 + 8 * c"
    using assms by (simp add: be_value_append be_value_digits)
  then have v: "of_be_bytes (be_digits 8 (8 * a) @ be_digits 8 (8 * c)) = (push_bit 64 (word_of_nat a * 8) + word_of_nat c * 8 :: u128)"
    by (simp add: of_be_bytes_value push_bit_eq_mult mult.commute mult.left_commute)
  have "take_bit 64 (word_of_nat c * 8 :: u128) = word_of_nat c * 8"
  proof -
    have "8 * c < 2 ^ LENGTH(128)" using assms(2) by simp
    then have u: "unat (word_of_nat (8 * c) :: u128) = 8 * c" by (simp only: unat_of_nat mod_less)
    have "unat (take_bit 64 (word_of_nat (8 * c) :: u128)) = unat (word_of_nat (8 * c) :: u128)"
      unfolding unsigned_take_bit_eq u by (rule take_bit_nat_eq_self [OF assms(2)])
    then have "take_bit 64 (word_of_nat (8 * c) :: u128) = word_of_nat (8 * c)" by (rule unsigned_word_eqI)
    then show ?thesis by (simp add: mult.commute)
  qed
  then have "push_bit 64 (word_of_nat a * 8) AND (word_of_nat c * 8 :: u128) = 0"
    by (intro bit_word_eqI) (metis bit_and_iff bit_push_bit_iff bit_take_bit_iff bit_0_eq bot_apply bot_bool_def linorder_not_le)
  then show ?thesis
    by (simp add: sp800_blocks_one v len_block_def disjunctive_add_eq_or)
qed

lemma be_bytes_xor: "be_bytes n (v XOR w) = map2 (XOR) (be_bytes n v) (be_bytes n w)"
  by (simp add: be_bytes_def le_bytes_xor zip_rev rev_map [symmetric])

lemma fused_tag_eq:
  assumes E: "\<And>b. length b = 16 \<Longrightarrow> E b = F b \<and> length (E b) = 16"
    and "length iv = 12" and "8 * length aad < 2 ^ 64" and "8 * length ct < 2 ^ 64"
  shows "fused_tag E iv aad ct = sp800_tag F iv aad ct"
proof -
  let ?j = "iv @ [0, 0, 0, 1]"
  let ?x = "sp800_pad aad @ sp800_pad ct @ be_digits 8 (8 * length aad) @ be_digits 8 (8 * length ct)"
  have blocks: "padded_blocks aad @ padded_blocks ct @ [len_block (length aad) (length ct)] = sp800_blocks ?x"
    using assms(3,4) by (simp add: sp800_blocks_append padded_blocks_eq len_block_eq)
  let ?s = "sp800_ghash (of_be_bytes (E (replicate 16 0))) ?x"
  have "be_bytes 16 (of_be_bytes (E ?j) :: u128) = E ?j"
    using conjunct2 [OF E [of ?j]] assms(2) unfolding be_bytes_def of_be_bytes_def by (subst le_bytes_of_le_bytes) simp_all
  then have "fused_tag E iv aad ct = map2 (XOR) (be_bytes 16 ?s) (E ?j)"
    by (simp add: fused_tag_def block_ghash_def sp800_ghash_def blocks be_bytes_xor Let_def)
  also have "\<dots> = sp800_gctr E ?j (be_bytes 16 ?s)"
    using conjunct2 [OF E [of ?j]] assms(2) by (intro nth_equalityI) (simp_all add: sp800_gctr_def)
  also have "\<dots> = sp800_tag F iv aad ct"
    using E [of ?j] E [of "replicate 16 0"] assms(2)
    by (auto simp: sp800_tag_def sp800_gctr_def be_bytes_digits of_be_bytes_value Let_def)
  finally show ?thesis .
qed

section \<open>Regions\<close>

lemma reseal_open: "sr_open (sr_reseal pt r) = Some pt"
  by (simp add: sr_open_def sr_reseal_def sr_next_iv_def Let_def gcm_encrypt_eq gcm_decrypt_eq stream_crypt_def gctr_involution)

lemma length_tag: "length (sr_tag (sr_reseal pt r)) = 16"
  by (simp add: sr_reseal_def sr_next_iv_def Let_def gcm_encrypt_eq)

lemma reseal_iv:
  "sr_iv (sr_reseal pt r) = be_bytes 4 (ucast (sr_nonce_ctr r + 1) :: u32) @ be_bytes 8 (sr_region_salt r)"
  "sr_nonce_ctr (sr_reseal pt r) = sr_nonce_ctr r + 1" "sr_region_salt (sr_reseal pt r) = sr_region_salt r"
  "sr_key (sr_reseal pt r) = sr_key r" "sr_aad (sr_reseal pt r) = sr_aad r"
  by (simp_all add: sr_reseal_def sr_next_iv_def Let_def split: prod.splits)

definition region_after :: "bytes \<Rightarrow> bytes \<Rightarrow> u64 \<Rightarrow> bytes \<Rightarrow> bytes list \<Rightarrow> sealed_region" where
  "region_after key label salt pt pts = foldl (\<lambda>r p. sr_reseal p r) (sr_seal key label salt pt) pts"

lemma region_after_snoc: "region_after key label salt pt (pts @ [p]) = sr_reseal p (region_after key label salt pt pts)"
  by (simp add: region_after_def)

lemma ucast_word_of_nat: "ucast (word_of_nat n :: u64) = (word_of_nat n :: u32)"
  by (rule bit_word_eqI) (simp add: bit_simps)

lemma region_after_fields:
  "sr_nonce_ctr (region_after key label salt pt pts) = word_of_nat (Suc (length pts)) \<and>
   sr_region_salt (region_after key label salt pt pts) = salt \<and>
   sr_iv (region_after key label salt pt pts) = be_bytes 4 (word_of_nat (Suc (length pts)) :: u32) @ be_bytes 8 salt"
proof (induction pts rule: rev_induct)
  case Nil
  then show ?case by (simp add: region_after_def sr_seal_def reseal_iv)
next
  case (snoc p pts)
  then have "sr_nonce_ctr (region_after key label salt pt pts) + 1 = word_of_nat (Suc (length (pts @ [p])))" by simp
  then show ?case using snoc unfolding region_after_snoc reseal_iv by (simp add: ucast_word_of_nat del: of_nat_Suc)
qed

lemma be_bytes_inject: "be_bytes 4 (a :: u32) = be_bytes 4 b \<longleftrightarrow> a = b" "be_bytes 8 (c :: u64) = be_bytes 8 d \<longleftrightarrow> c = d"
  by (simp_all add: be_bytes_def)

lemma of_nat_u32_inject:
  assumes "i < 2 ^ 32" and "j < 2 ^ 32"
  shows "(word_of_nat (Suc i) :: u32) = word_of_nat (Suc j) \<longleftrightarrow> i = j"
  using assms by (simp add: word_of_nat_eq_iff take_bit_eq_mod) 

section \<open>Properties\<close>

text \<open>
  C34: AES-GCM is the authenticated encryption and decryption of NIST SP 800-38D over the cipher of FIPS 197, for messages within the
  standard's limits (associated data and text shorter than \<open>2\<^sup>6\<^sup>4\<close> bits).  In the standard the ciphertext is counter
  mode from the increment of the first counter block, the counter being the last 32 bits as a number modulo \<open>2\<^sup>3\<^sup>2\<close>; the tag
  is the bit-serial GHASH of the padded associated data, the padded ciphertext and their lengths in bits as two
  64-bit numbers, masked with the first counter block; decryption answers only if the tag is this one.  The code encrypts and hashes in one fused pass, block
  by block, and multiplies with four-bit tables.
\<close>

theorem gcm_follows_sp800:
  assumes "length key = 32" and "length iv = 12" and "8 * length aad < 2 ^ 64" and "8 * length input < 2 ^ 64"
  shows "gcm_encrypt (aes_new_256 key) iv aad input = sp800_encrypt (fips197 8 14 key) iv aad input \<and>
    (\<forall>tag. length tag = 16 \<longrightarrow>
      gcm_decrypt (aes_new_256 key) iv aad input tag = sp800_decrypt (fips197 8 14 key) iv aad input tag)"
proof -
  let ?E = "encrypt_block (aes_new_256 key)" and ?F = "fips197 8 14 key"
  have E: "?E b = ?F b \<and> length (?E b) = 16" if "length b = 16" for b
  proof
    show "?E b = ?F b" using assms(1) that by (simp add: aes_new_256_def encrypt_block_expand)
  qed (rule length_encrypt_block)
  have j: "iv @ [0, 0, 0, 2] = sp800_inc32 (iv @ [0, 0, 0, 1])"
    using inc32_eq [of "iv @ [0, 0, 0, 1]"] inc32_j0 [OF assms(2)] assms(2) by simp
  have crypt: "stream_crypt ?E iv d = sp800_gctr ?F (sp800_inc32 (iv @ [0, 0, 0, 1])) d" for d
    unfolding stream_crypt_def j using E assms(2) by (intro stream_gctr_eq) (simp_all add: sp800_inc32_def)
  have tag: "fused_tag ?E iv aad ct = sp800_tag ?F iv aad ct" if "length ct = length input" for ct
    using assms that by (intro fused_tag_eq E) simp_all
  have len: "length (sp800_gctr ?F icb input) = length input" for icb by (simp add: sp800_gctr_def)
  show ?thesis
    using assms(2) tag [OF len] tag [OF refl]
    by (simp add: gcm_encrypt_eq gcm_decrypt_eq sp800_encrypt_def sp800_decrypt_def crypt Let_def)
qed

theorem gcm_follows_sp800_witness:
  "gcm_encrypt (aes_new_256 (replicate 32 5)) (replicate 12 1) [2] [3, 4] =
    sp800_encrypt (fips197 8 14 (replicate 32 5)) (replicate 12 1) [2] [3, 4] \<and>
   gcm_decrypt (aes_new_256 (replicate 32 5)) (replicate 12 1) [2] [3, 4] (replicate 16 0) =
    sp800_decrypt (fips197 8 14 (replicate 32 5)) (replicate 12 1) [2] [3, 4] (replicate 16 0)"
  using gcm_follows_sp800 [of "replicate 32 5" "replicate 12 1" "[2]" "[3, 4]"] by simp

text \<open>
  A sealed region always opens to the contents last sealed into it, through any number of reseals, and a
  reader of a region whose ciphertext, tag or label has been changed gets nothing unless the tag is the one of
  exactly that label and ciphertext.
\<close>

theorem region_opens_to_last_write:
  "sr_open (region_after key label salt pt pts) = Some (last (pt # pts)) \<and>
   (length (sr_iv r) = 12 \<longrightarrow> length (sr_tag r) = 16 \<longrightarrow>
     (sr_open r \<noteq> None \<longleftrightarrow>
      sr_tag r = fused_tag (encrypt_block (aes_new_256 (sr_key r))) (sr_iv r) (sr_aad r) (sr_ciphertext r)))"
proof -
  have "sr_open (region_after key label salt pt pts) = Some (last (pt # pts))"
  proof (cases pts rule: rev_cases)
    case Nil
    then show ?thesis by (simp add: region_after_def sr_seal_def reseal_open)
  next
    case (snoc ps p)
    then show ?thesis by (simp add: region_after_snoc reseal_open)
  qed
  moreover have "length (sr_iv r) = 12 \<Longrightarrow> length (sr_tag r) = 16 \<Longrightarrow>
      sr_open r \<noteq> None \<longleftrightarrow>
      sr_tag r = fused_tag (encrypt_block (aes_new_256 (sr_key r))) (sr_iv r) (sr_aad r) (sr_ciphertext r)"
    by (simp add: sr_open_def gcm_decrypt_eq)
  ultimately show ?thesis by blast
qed

theorem region_opens_to_last_write_witness:
  "let r = region_after (replicate 32 1) [7] 9 [2] [[3], [4, 5]] in
    sr_open r = Some [4, 5] \<and> length (sr_iv r) = 12 \<and> length (sr_tag r) = 16 \<and>
    sr_tag r = fused_tag (encrypt_block (aes_new_256 (sr_key r))) (sr_iv r) (sr_aad r) (sr_ciphertext r)"
proof -
  let ?r = "region_after (replicate 32 1) [7] 9 [2] [[3], [4, 5]]"
  have o: "sr_open ?r = Some [4, 5]"
    using region_opens_to_last_write [of "replicate 32 1" "[7]" 9 "[2]" "[[3], [4, 5]]" ?r] by simp
  moreover have l: "length (sr_iv ?r) = 12" "length (sr_tag ?r) = 16"
    by (simp_all add: region_after_def reseal_iv length_tag)
  ultimately show ?thesis
    using region_opens_to_last_write [of "replicate 32 1" "[7]" 9 "[2]" "[[3], [4, 5]]" ?r] unfolding Let_def by blast
qed

text \<open>
  C35: Initialisation vectors are never reused: among the first \<open>2\<^sup>3\<^sup>2\<close> seals of regions, two use the same vector
  only if the regions have the same salt and the seals have the same position in their regions' histories.
\<close>

theorem region_ivs_distinct:
  assumes "length pts < 2 ^ 32" and "length pts' < 2 ^ 32"
  shows "sr_iv (region_after key label salt pt pts) = sr_iv (region_after key' label' salt' pt' pts') \<longleftrightarrow>
    salt = salt' \<and> length pts = length pts'"
  using assms by (auto simp: region_after_fields be_bytes_inject of_nat_u32_inject simp del: of_nat_Suc)

theorem region_ivs_distinct_witness:
  "length [[1 :: u8]] < 2 ^ 32 \<and>
   sr_iv (region_after (replicate 32 1) [7] 9 [2] [[1]]) \<noteq> sr_iv (region_after (replicate 32 1) [7] 9 [2] []) \<and>
   sr_iv (region_after (replicate 32 1) [7] 9 [2] []) \<noteq> sr_iv (region_after (replicate 32 1) [7] 8 [2] [])"
  using region_ivs_distinct [of "[[1]]" "[]"] region_ivs_distinct [of "[]" "[]"] by simp

end
