(* ===== verification/Vault_Refinement.thy ===== *)
theory Vault_Refinement
  imports Vault Sealed_Memory "HOL-Library.Sublist"
begin

text \<open>
  What the vault promises: whatever calls are made, it answers as a map from identities to a key and a
  plaintext would; its provenance ledger only grows and its last entry describes the current encryption; and a
  signature it stores verifies over the ciphertext it stores.
\<close>

unbundle bit_operations_syntax

section \<open>Authenticated encryption\<close>

locale aead_suite =
  fixes seal :: "vkey \<Rightarrow> bytes \<Rightarrow> bytes \<Rightarrow> bytes \<Rightarrow> bytes \<times> bytes"
    and unseal :: "vkey \<Rightarrow> bytes \<Rightarrow> bytes \<Rightarrow> bytes \<Rightarrow> bytes \<Rightarrow> bytes option"
  assumes unseal_seal: "length iv = 12 \<Longrightarrow> seal k iv aad pt = (ct, tag) \<Longrightarrow> unseal k iv aad ct tag = Some pt"
    and tag_length: "length iv = 12 \<Longrightarrow> length (snd (seal k iv aad pt)) = 16"
    and ciphertext_length: "length iv = 12 \<Longrightarrow> length (fst (seal k iv aad pt)) = length pt"
begin

lemma sealed_under_nonce:
  assumes "seal k (nonce96 n) n pt = (ct, tag)"
  shows "unseal k (nonce96 n) n ct tag = Some pt \<and> length tag = 16 \<and> length ct = length pt"
proof -
  have "length (nonce96 n) = 12" by (simp add: nonce96_def)
  then show ?thesis
    using unseal_seal [OF _ assms] tag_length [of "nonce96 n" k n pt] ciphertext_length [of "nonce96 n" k n pt] assms by simp
qed

end

lemma length_rfc8439_crypt: "length (rfc8439_crypt key nonce data) = length data"
  by (simp add: rfc8439_crypt_def)

interpretation chacha: aead_suite aead_encrypt aead_decrypt
  by unfold_locales (auto simp: aead_encrypt_eq aead_decrypt_eq crypt_crypt length_rfc8439_crypt)

interpretation gcm: aead_suite "\<lambda>k. gcm_encrypt (aes_new_256 k)" "\<lambda>k. gcm_decrypt (aes_new_256 k)"
  by unfold_locales (auto simp: gcm_encrypt_eq gcm_decrypt_eq stream_crypt_def gctr_involution)

lemma decrypt_encrypt:
  assumes "vt_encrypt suite key nonce pt = (ct, tag)"
  shows "vt_decrypt suite key nonce ct tag = Some pt" and "length ct = length pt"
  using assms chacha.sealed_under_nonce [of key nonce pt ct tag] gcm.sealed_under_nonce [of key nonce pt ct tag]
  by (cases suite; simp add: vt_decrypt_def)+

lemma vault_ct_eq_iff [simp]: "vault_ct_eq a b \<longleftrightarrow> a = b"
proof -
  have x: "x XOR y = 0 \<longleftrightarrow> x = y" for x y :: u8
    by (metis xor.assoc xor.left_neutral xor.right_neutral xor_self_eq)
  have "foldl (\<lambda>diff (x, y). diff OR (x XOR y)) d ps = 0 \<longleftrightarrow> d = 0 \<and> (\<forall>(x, y) \<in> set ps. x = y)" for d and ps :: "(u8 \<times> u8) list"
    by (induction ps arbitrary: d) (auto simp: or_eq_0_iff x)
  moreover have "length a = length b \<Longrightarrow> (\<forall>(x, y) \<in> set (zip a b). x = y) \<longleftrightarrow> a = b"
    by (induction a b rule: list_induct2) auto
  ultimately show ?thesis unfolding vault_ct_eq_def by auto
qed

section \<open>The specification\<close>

type_synonym key_store = "hash256 \<rightharpoonup> vkey \<times> bytes"

datatype vault_call =
  CSeal cipher_suite bytes vkey bytes vkey "rstring list"
  | CSealSigned signed_seal
  | COpen hash256 vkey
  | CMigrate hash256 vkey cipher_suite bytes
  | CRotate hash256 vkey vkey bytes
  | CDestroy hash256

datatype vault_result = RId "hash256 option" | RBytes "bytes option" | RBool bool

fun vault_step :: "vault_call \<Rightarrow> vault \<Rightarrow> vault_result \<times> vault" where
  "vault_step (CSeal suite pt key nonce ik kws) v = apfst (\<lambda>i. RId (Some i)) (vt_seal_with suite pt key nonce ik kws v)"
| "vault_step (CSealSigned req) v = apfst RId (vt_seal_signed req v)"
| "vault_step (COpen i key) v = (RBytes (vt_open i key v), v)"
| "vault_step (CMigrate i key suite nonce) v = apfst RBool (vt_migrate i key suite nonce v)"
| "vault_step (CRotate i old_key new_key nonce) v = apfst RBool (vt_rotate_key i old_key new_key nonce v)"
| "vault_step (CDestroy i) v = apfst RBool (vt_destroy_key i v)"

fun vault_run :: "vault_call list \<Rightarrow> vault \<Rightarrow> vault_result list \<times> vault" where
  "vault_run [] v = ([], v)"
| "vault_run (c # cs) v = (let (r, v) = vault_step c v; (rs, v) = vault_run cs v in (r # rs, v))"

definition ks_open :: "hash256 \<Rightarrow> vkey \<Rightarrow> key_store \<Rightarrow> bytes option" where
  "ks_open i key m = (case m i of Some (k, pt) \<Rightarrow> if k = key then Some pt else None | None \<Rightarrow> None)"

definition seal_id :: "cipher_suite \<Rightarrow> vkey \<Rightarrow> bytes \<Rightarrow> bytes \<Rightarrow> hash256" where
  "seal_id suite key nonce pt = hash_of (fst (vt_encrypt suite key nonce pt))"

fun ks_step :: "vault_call \<Rightarrow> key_store \<Rightarrow> vault_result \<times> key_store" where
  "ks_step (CSeal suite pt key nonce ik kws) m =
    (let i = seal_id suite key nonce pt in (RId (Some i), m(i \<mapsto> (key, pt))))"
| "ks_step (CSealSigned req) m =
    (if sq_algo_id req \<in> set (cl_algorithms (sq_cal req))
     then let i = seal_id (sq_suite req) (sq_key req) (sq_nonce req) (sq_plaintext req)
          in (RId (Some i), m(i \<mapsto> (sq_key req, sq_plaintext req)))
     else (RId None, m))"
| "ks_step (COpen i key) m = (RBytes (ks_open i key m), m)"
| "ks_step (CMigrate i key suite nonce) m = (RBool (ks_open i key m \<noteq> None), m)"
| "ks_step (CRotate i old_key new_key nonce) m =
    (case ks_open i old_key m of
       Some pt \<Rightarrow> (RBool True, m(i \<mapsto> (new_key, pt)))
     | None \<Rightarrow> (RBool False, m))"
| "ks_step (CDestroy i) m = (RBool (m i \<noteq> None), m(i := None))"

fun ks_run :: "vault_call list \<Rightarrow> key_store \<Rightarrow> vault_result list \<times> key_store" where
  "ks_run [] m = ([], m)"
| "ks_run (c # cs) m = (let (r, m) = ks_step c m; (rs, m) = ks_run cs m in (r # rs, m))"

section \<open>Refinement\<close>

definition object_content :: "vault \<Rightarrow> hash256 \<Rightarrow> vkey \<Rightarrow> bytes option" where
  "object_content v i key =
    (case bt_get (vt_objects v) i of
       Some s \<Rightarrow> vt_decrypt (se_suite s) key (se_nonce s) (se_ciphertext s) (se_tag s) | None \<Rightarrow> None)"

definition vault_abs :: "vault \<Rightarrow> key_store" where
  "vault_abs v i = (case bt_get (vt_keys v) i of Some k \<Rightarrow> map_option (Pair k) (object_content v i k) | None \<Rightarrow> None)"

definition vault_inv :: "vault \<Rightarrow> bool" where
  "vault_inv v \<longleftrightarrow> (\<forall>i k. bt_get (vt_keys v) i = Some k \<longrightarrow> object_content v i k \<noteq> None)"

lemma open_abs: "vault_inv v \<Longrightarrow> vt_open i key v = ks_open i key (vault_abs v)"
  by (auto simp: vt_open_def ks_open_def vault_abs_def object_content_def vault_inv_def split: option.splits)

lemma abs_cong:
  assumes "vt_objects v' = vt_objects v" and "vt_keys v' = vt_keys v"
  shows "vault_abs v' = vault_abs v" and "vault_inv v' = vault_inv v"
  using assms by (auto simp: vault_abs_def vault_inv_def object_content_def fun_eq_iff split: option.splits)

lemma provenance_frame [simp]:
  "vault_abs (record_provenance i s k v) = vault_abs v" "vault_inv (record_provenance i s k v) = vault_inv v"
  "vt_objects (record_provenance i s k v) = vt_objects v" "vt_keys (record_provenance i s k v) = vt_keys v"
  by (rule abs_cong | simp add: record_provenance_def Let_def)+

lemma index_frame [simp]:
  "vault_abs (index_keywords i ik kws v) = vault_abs v" "vault_inv (index_keywords i ik kws v) = vault_inv v"
  "vt_objects (index_keywords i ik kws v) = vt_objects v" "vt_keys (index_keywords i ik kws v) = vt_keys v"
  "vt_provenance (index_keywords i ik kws v) = vt_provenance v"
  by (rule abs_cong | simp add: index_keywords_def)+

text \<open>Sealing, migrating and rotating all store an unsigned object that its key opens, and record it.\<close>

definition stores :: "vault \<Rightarrow> hash256 \<Rightarrow> vkey \<Rightarrow> bytes \<Rightarrow> vault \<Rightarrow> bool" where
  "stores v i key pt v' \<longleftrightarrow> (\<exists>s w.
    v' = record_provenance i (se_suite s) key w \<and> bt_get (vt_objects w) = (bt_get (vt_objects v))(i \<mapsto> s) \<and>
    bt_get (vt_keys w) = (bt_get (vt_keys v))(i \<mapsto> key) \<and> vt_provenance w = vt_provenance v \<and>
    se_signature s = None \<and> vt_decrypt (se_suite s) key (se_nonce s) (se_ciphertext s) (se_tag s) = Some pt)"

lemma stores_abs:
  assumes "vault_inv v" and "stores v i key pt v'"
  shows "vault_abs v' = (vault_abs v)(i \<mapsto> (key, pt)) \<and> vault_inv v'"
proof -
  obtain s w where w: "v' = record_provenance i (se_suite s) key w" "bt_get (vt_objects w) = (bt_get (vt_objects v))(i \<mapsto> s)"
    "bt_get (vt_keys w) = (bt_get (vt_keys v))(i \<mapsto> key)"
    "vt_decrypt (se_suite s) key (se_nonce s) (se_ciphertext s) (se_tag s) = Some pt"
    using assms(2) unfolding stores_def by blast
  have "object_content w j k = (if j = i then vt_decrypt (se_suite s) k (se_nonce s) (se_ciphertext s) (se_tag s)
      else object_content v j k)" for j k
    using w(2) by (simp add: object_content_def)
  then have "vault_abs w = (vault_abs v)(i \<mapsto> (key, pt)) \<and> vault_inv w"
    using assms(1) w(3,4) by (auto simp: vault_abs_def vault_inv_def fun_eq_iff split: option.splits)
  then show ?thesis using w(1) by simp
qed

lemma seal_with_stores:
  assumes "vt_seal_with suite pt key nonce ik kws v = (i, v')"
  shows "stores v i key pt v'" and "i = seal_id suite key nonce pt"
proof -
  obtain ct tag where e: "vt_encrypt suite key nonce pt = (ct, tag)" by fastforce
  let ?s = "\<lparr>se_id = i, se_suite = suite, se_nonce = nonce, se_ciphertext = ct, se_tag = tag, se_signature = None\<rparr>"
  let ?w = "index_keywords i ik kws (v\<lparr>vt_objects := bt_insert i ?s (vt_objects v), vt_keys := bt_insert i key (vt_keys v)\<rparr>)"
  have "v' = record_provenance i (se_suite ?s) key ?w" using assms e by (auto simp: vt_seal_with_def Let_def)
  moreover have "vt_decrypt suite key nonce ct tag = Some pt" by (rule decrypt_encrypt(1) [OF e])
  ultimately show "stores v i key pt v'" unfolding stores_def by (intro exI [of _ ?s] exI [of _ ?w]) simp
  show "i = seal_id suite key nonce pt" using assms e by (auto simp: vt_seal_with_def Let_def seal_id_def)
qed

lemma migrate_stores:
  assumes "vt_open i key v = Some pt" and "vt_migrate i key suite nonce v = (r, v')"
  shows "stores v i key pt v'" and "r"
proof -
  obtain s where s: "bt_get (vt_objects v) i = Some s" "bt_get (vt_keys v) i = Some key"
    using assms(1) by (auto simp: vt_open_def split: option.splits if_splits)
  obtain ct tag where e: "vt_encrypt suite key nonce pt = (ct, tag)" by fastforce
  let ?s = "s\<lparr>se_suite := suite, se_nonce := nonce, se_ciphertext := ct, se_tag := tag, se_signature := None\<rparr>"
  let ?w = "v\<lparr>vt_objects := bt_insert i ?s (vt_objects v)\<rparr>"
  have v': "v' = record_provenance i (se_suite ?s) key ?w" "r" using assms s e by (auto simp: vt_migrate_def)
  moreover have "bt_get (vt_keys v) = (bt_get (vt_keys v))(i \<mapsto> key)" using s(2) by (simp add: fun_upd_idem)
  ultimately show "stores v i key pt v'" unfolding stores_def
    using decrypt_encrypt(1) [OF e] by (intro exI [of _ ?s] exI [of _ ?w]) simp
  show "r" by (rule v'(2))
qed

lemma rotate_stores:
  assumes "vt_open i old_key v = Some pt" and "vt_rotate_key i old_key new_key nonce v = (r, v')"
  shows "stores v i new_key pt v'" and "r"
proof -
  obtain s where s: "bt_get (vt_objects v) i = Some s" using assms(1) by (auto simp: vt_open_def split: option.splits)
  obtain ct tag where e: "vt_encrypt (se_suite s) new_key nonce pt = (ct, tag)" by fastforce
  let ?s = "s\<lparr>se_nonce := nonce, se_ciphertext := ct, se_tag := tag, se_signature := None\<rparr>"
  let ?w = "v\<lparr>vt_objects := bt_insert i ?s (vt_objects v), vt_keys := bt_insert i new_key (vt_keys v)\<rparr>"
  have v': "v' = record_provenance i (se_suite ?s) new_key ?w" "r" using assms s e by (auto simp: vt_rotate_key_def Let_def)
  then show "stores v i new_key pt v'" unfolding stores_def
    using decrypt_encrypt(1) [OF e] by (intro exI [of _ ?s] exI [of _ ?w]) simp
  show "r" by (rule v'(2))
qed

lemma migrate_refused: "vt_open i key v = None \<Longrightarrow> vt_migrate i key suite nonce v = (False, v)"
  by (simp add: vt_migrate_def)

lemma rotate_refused: "vt_open i old_key v = None \<Longrightarrow> vt_rotate_key i old_key new_key nonce v = (False, v)"
  by (simp add: vt_rotate_key_def)

lemma cl_by_id_None_iff: "cl_by_id i c = None \<longleftrightarrow> i \<notin> set (cl_algorithms c)"
  by (auto simp: cl_by_id_def cl_algorithms_def find_None_iff)

lemma seal_signed_eq:
  assumes "cl_by_id (sq_algo_id req) (sq_cal req) = Some S" and "ss_keygen S (sq_signing_seed req) = (sk, pk)"
    and "vt_seal_with (sq_suite req) (sq_plaintext req) (sq_key req) (sq_nonce req) (sq_index_key req) (sq_keywords req) v = (i, v')"
    and "bt_get (vt_objects v') i = Some s"
  shows "vt_seal_signed req v = (Some i, v'\<lparr>vt_objects := bt_insert i
      (s\<lparr>se_signature := Some (sq_algo_id req, pk, ss_sign S sk (se_ciphertext s))\<rparr>) (vt_objects v')\<rparr>)"
  using assms by (simp add: vt_seal_signed_def cl_keygen_def cl_sign_def)

lemma signature_abs:
  assumes "vault_inv v" and "bt_get (vt_objects v) i = Some s"
  shows "vault_abs (v\<lparr>vt_objects := bt_insert i (s\<lparr>se_signature := g\<rparr>) (vt_objects v)\<rparr>) = vault_abs v \<and>
    vault_inv (v\<lparr>vt_objects := bt_insert i (s\<lparr>se_signature := g\<rparr>) (vt_objects v)\<rparr>)"
proof -
  have "object_content (v\<lparr>vt_objects := bt_insert i (s\<lparr>se_signature := g\<rparr>) (vt_objects v)\<rparr>) = object_content v"
    using assms(2) by (auto simp: object_content_def fun_eq_iff)
  then show ?thesis
    using assms(1) by (auto simp: vault_abs_def vault_inv_def fun_eq_iff split: option.splits)
qed

lemma seal_signed_refines:
  assumes "vault_inv v" and "vault_step (CSealSigned req) v = (r, v')"
  shows "ks_step (CSealSigned req) (vault_abs v) = (r, vault_abs v') \<and> vault_inv v'"
proof (cases "cl_by_id (sq_algo_id req) (sq_cal req)")
  case None
  then have "vt_seal_signed req v = (None, v)" by (simp add: vt_seal_signed_def cl_keygen_def)
  then show ?thesis using None assms by (auto simp: cl_by_id_None_iff)
next
  case (Some S)
  then have algo: "sq_algo_id req \<in> set (cl_algorithms (sq_cal req))" using cl_by_id_None_iff by (metis option.distinct(1))
  obtain i w where w: "vt_seal_with (sq_suite req) (sq_plaintext req) (sq_key req) (sq_nonce req) (sq_index_key req)
      (sq_keywords req) v = (i, w)" by fastforce
  obtain sk pk where kg: "ss_keygen S (sq_signing_seed req) = (sk, pk)" by fastforce
  obtain s where s: "bt_get (vt_objects w) i = Some s" "i = seal_id (sq_suite req) (sq_key req) (sq_nonce req) (sq_plaintext req)"
      "vault_inv w" "vault_abs w = (vault_abs v)(i \<mapsto> (sq_key req, sq_plaintext req))"
    using seal_with_stores [OF w] stores_abs [OF assms(1)] by (auto simp: stores_def)
  show ?thesis
    using assms(2) seal_signed_eq [OF Some kg w s(1)] signature_abs [OF s(3,1)] s(2,4) algo by (auto simp: Let_def)
qed

lemma migrate_refines:
  assumes "vault_inv v" and "vault_step (CMigrate i key suite nonce) v = (r, v')"
  shows "ks_step (CMigrate i key suite nonce) (vault_abs v) = (r, vault_abs v') \<and> vault_inv v'"
proof (cases "vt_open i key v")
  case None
  then show ?thesis using assms open_abs [OF assms(1), of i key] by (auto simp: migrate_refused)
next
  case (Some pt)
  obtain b where m: "vt_migrate i key suite nonce v = (b, v')" "r = RBool b"
    using assms(2) by (cases "vt_migrate i key suite nonce v") auto
  have "(vault_abs v)(i \<mapsto> (key, pt)) = vault_abs v" "ks_open i key (vault_abs v) = Some pt"
    using Some open_abs [OF assms(1), of i key]
    by (auto simp: ks_open_def fun_upd_idem split: option.splits if_splits)
  then show ?thesis using stores_abs [OF assms(1) migrate_stores(1) [OF Some m(1)]] migrate_stores(2) [OF Some m(1)] m(2) by simp
qed

lemma rotate_refines:
  assumes "vault_inv v" and "vault_step (CRotate i old_key new_key nonce) v = (r, v')"
  shows "ks_step (CRotate i old_key new_key nonce) (vault_abs v) = (r, vault_abs v') \<and> vault_inv v'"
proof (cases "vt_open i old_key v")
  case None
  then show ?thesis using assms open_abs [OF assms(1), of i old_key] by (auto simp: rotate_refused)
next
  case (Some pt)
  obtain b where m: "vt_rotate_key i old_key new_key nonce v = (b, v')" "r = RBool b"
    using assms(2) by (cases "vt_rotate_key i old_key new_key nonce v") auto
  have "ks_open i old_key (vault_abs v) = Some pt" using Some open_abs [OF assms(1)] by simp
  then show ?thesis using stores_abs [OF assms(1) rotate_stores(1) [OF Some m(1)]] rotate_stores(2) [OF Some m(1)] m(2) by simp
qed

lemma destroy_refines:
  assumes "vault_inv v" and "vault_step (CDestroy i) v = (r, v')"
  shows "ks_step (CDestroy i) (vault_abs v) = (r, vault_abs v') \<and> vault_inv v'"
proof -
  have v': "v' = v\<lparr>vt_keys := bt_remove i (vt_keys v)\<rparr>" "r = RBool (bt_get (vt_keys v) i \<noteq> None)"
    using assms(2) by (auto simp: vt_destroy_key_def)
  have "object_content v' = object_content v" unfolding v' by (simp add: object_content_def fun_eq_iff)
  then show ?thesis using assms(1) v' by (auto simp: vault_abs_def vault_inv_def fun_eq_iff split: option.splits)
qed

lemma vault_step_refines:
  assumes "vault_inv v" and "vault_step c v = (r, v')"
  shows "ks_step c (vault_abs v) = (r, vault_abs v') \<and> vault_inv v'"
proof (cases c)
  case (CSeal suite pt key nonce ik kws)
  then obtain i where i: "vt_seal_with suite pt key nonce ik kws v = (i, v')" "r = RId (Some i)"
    using assms(2) by (cases "vt_seal_with suite pt key nonce ik kws v") auto
  then show ?thesis
    using CSeal stores_abs [OF assms(1) seal_with_stores(1) [OF i(1)]] seal_with_stores(2) [OF i(1)] by (simp add: Let_def)
next
  case (COpen i key)
  then show ?thesis using assms open_abs by auto
next
  case (CSealSigned req)
  show ?thesis unfolding CSealSigned by (rule seal_signed_refines [OF assms(1) assms(2) [unfolded CSealSigned]])
next
  case (CMigrate i key suite nonce)
  show ?thesis unfolding CMigrate by (rule migrate_refines [OF assms(1) assms(2) [unfolded CMigrate]])
next
  case (CRotate i old_key new_key nonce)
  show ?thesis unfolding CRotate by (rule rotate_refines [OF assms(1) assms(2) [unfolded CRotate]])
next
  case (CDestroy i)
  show ?thesis unfolding CDestroy by (rule destroy_refines [OF assms(1) assms(2) [unfolded CDestroy]])
qed

lemma vault_run_refines:
  assumes "vault_inv v" and "vault_run cs v = (rs, v')"
  shows "ks_run cs (vault_abs v) = (rs, vault_abs v') \<and> vault_inv v'"
  using assms
proof (induction cs arbitrary: v rs)
  case (Cons c cs)
  obtain r w where w: "vault_step c v = (r, w)" by fastforce
  obtain rs' where "vault_run cs w = (rs', v')" "rs = r # rs'" using Cons.prems(2) w by (auto simp: Let_def split: prod.splits)
  then show ?case using Cons.IH vault_step_refines [OF Cons.prems(1) w] by (auto simp: Let_def)
qed simp

lemma vault_new_abs: "vault_abs vault_new = Map.empty" "vault_inv vault_new"
  by (auto simp: vault_abs_def vault_inv_def vault_new_def)

section \<open>Provenance and signatures\<close>

definition ledger_ok :: "vault \<Rightarrow> hash256 \<Rightarrow> bool" where
  "ledger_ok v i \<longleftrightarrow>
    map pv_generation (vt_provenance_of i v) = map word_of_nat [0..<length (vt_provenance_of i v)] \<and>
    (\<forall>k. bt_get (vt_keys v) i = Some k \<longrightarrow>
      (\<exists>s. bt_get (vt_objects v) i = Some s \<and> vt_provenance_of i v \<noteq> [] \<and>
        pv_suite (last (vt_provenance_of i v)) = suite_id (se_suite s) \<and>
        pv_key_fingerprint (last (vt_provenance_of i v)) = key_fingerprint k))"

definition signatures_ok :: "crypto_layer \<Rightarrow> vault \<Rightarrow> bool" where
  "signatures_ok cal v \<longleftrightarrow> (\<forall>i s algo pk sig.
    bt_get (vt_objects v) i = Some s \<and> se_signature s = Some (algo, pk, sig) \<longrightarrow> cl_verify algo pk (se_ciphertext s) sig cal)"

definition ledger_grows :: "vault \<Rightarrow> vault \<Rightarrow> bool" where
  "ledger_grows v v' \<longleftrightarrow> (\<forall>i. prefix (vt_provenance_of i v) (vt_provenance_of i v'))"

definition call_uses :: "crypto_layer \<Rightarrow> vault_call \<Rightarrow> bool" where
  "call_uses cal c \<longleftrightarrow> (case c of CSealSigned req \<Rightarrow> sq_cal req = cal | _ \<Rightarrow> True)"

lemma provenance_of_record:
  "vt_provenance_of j (record_provenance i suite k v) = vt_provenance_of j v @
    (if j = i then [\<lparr>pv_generation = word_of_nat (length (vt_provenance_of i v)), pv_suite = suite_id suite,
       pv_key_fingerprint = key_fingerprint k\<rparr>] else [])"
  by (simp add: vt_provenance_of_def record_provenance_def Let_def entry_or_default_def)

lemma stores_ledger:
  assumes "\<forall>j. ledger_ok v j" and "signatures_ok cal v" and "stores v i key pt v'"
  shows "(\<forall>j. ledger_ok v' j) \<and> signatures_ok cal v' \<and> ledger_grows v v'"
proof -
  obtain s w where w: "v' = record_provenance i (se_suite s) key w" "bt_get (vt_objects w) = (bt_get (vt_objects v))(i \<mapsto> s)"
    "bt_get (vt_keys w) = (bt_get (vt_keys v))(i \<mapsto> key)" "vt_provenance w = vt_provenance v" "se_signature s = None"
    using assms(3) unfolding stores_def by blast
  have p: "vt_provenance_of j w = vt_provenance_of j v" for j using w(4) by (simp add: vt_provenance_of_def)
  have "ledger_ok v' j" for j
  proof (cases "j = i")
    case True
    then show ?thesis using assms(1) w(2,3) unfolding w(1) ledger_ok_def by (simp add: provenance_of_record p)
  next
    case False
    then show ?thesis using assms(1) w(2,3) unfolding w(1) ledger_ok_def by (simp add: provenance_of_record p)
  qed
  moreover have "signatures_ok cal v'" using assms(2) w(2,5) unfolding signatures_ok_def w(1) by simp metis
  moreover have "ledger_grows v v'" unfolding ledger_grows_def w(1) by (simp add: provenance_of_record p)
  ultimately show ?thesis by blast
qed

lemma sign_ledger:
  assumes "\<forall>j. ledger_ok v j" and "signatures_ok cal v" and "bt_get (vt_objects v) i = Some s"
    and "cl_verify algo pk (se_ciphertext s) sig cal"
  shows "(\<forall>j. ledger_ok (v\<lparr>vt_objects := bt_insert i (s\<lparr>se_signature := Some (algo, pk, sig)\<rparr>) (vt_objects v)\<rparr>) j) \<and>
    signatures_ok cal (v\<lparr>vt_objects := bt_insert i (s\<lparr>se_signature := Some (algo, pk, sig)\<rparr>) (vt_objects v)\<rparr>)"
  (is "(\<forall>j. ledger_ok ?v j) \<and> _")
proof -
  have "ledger_ok ?v j" for j
    using assms(1) [THEN spec, of j] assms(3) by (cases "j = i") (auto simp: ledger_ok_def vt_provenance_of_def)
  moreover have "signatures_ok cal ?v" using assms(2-4) by (auto simp: signatures_ok_def)
  ultimately show ?thesis by blast
qed

lemma seal_signed_ledger:
  assumes "\<forall>j. ledger_ok v j" and "signatures_ok cal v" and "vt_seal_signed req v = (r, v')" and "sq_cal req = cal"
    and "\<forall>S \<in> set cal. correct_scheme S"
  shows "(\<forall>j. ledger_ok v' j) \<and> signatures_ok cal v' \<and> ledger_grows v v' \<and>
    (\<forall>i. r = Some i \<longrightarrow> vt_verify_signature i cal v' = Some True)"
proof (cases "cl_by_id (sq_algo_id req) cal")
  case None
  then have "vt_seal_signed req v = (None, v)" using assms(4) by (simp add: vt_seal_signed_def cl_keygen_def)
  then show ?thesis using assms by (simp add: ledger_grows_def)
next
  case (Some S)
  then have S: "cl_by_id (sq_algo_id req) (sq_cal req) = Some S" "S \<in> set cal"
    using assms(4) by (auto simp: cl_by_id_def find_Some_iff)
  obtain i w where w: "vt_seal_with (sq_suite req) (sq_plaintext req) (sq_key req) (sq_nonce req) (sq_index_key req)
      (sq_keywords req) v = (i, w)" by fastforce
  obtain sk pk where kg: "ss_keygen S (sq_signing_seed req) = (sk, pk)" by fastforce
  note st = seal_with_stores(1) [OF w]
  obtain s where s: "bt_get (vt_objects w) i = Some s" using st by (auto simp: stores_def)
  have "cl_verify (sq_algo_id req) pk (se_ciphertext s) (ss_sign S sk (se_ciphertext s)) cal"
    using correct_scheme.sign_verify [of S, OF _ kg] assms(5) S(2) Some by (simp add: cl_verify_def)
  moreover have "ledger_grows v w" "\<forall>j. ledger_ok w j" "signatures_ok cal w" using stores_ledger [OF assms(1,2) st] by simp_all
  ultimately show ?thesis
    using sign_ledger [of w cal i s "sq_algo_id req" pk "ss_sign S sk (se_ciphertext s)"] s
      seal_signed_eq [OF S(1) kg w s] assms(3)
    by (auto simp: vt_verify_signature_def ledger_grows_def vt_provenance_of_def)
qed

lemma vault_step_ledger:
  assumes "\<forall>j. ledger_ok v j" and "signatures_ok cal v" and "vault_step c v = (r, v')" and "call_uses cal c"
    and "\<forall>S \<in> set cal. correct_scheme S"
  shows "(\<forall>j. ledger_ok v' j) \<and> signatures_ok cal v' \<and> ledger_grows v v'"
proof -
  have same: ?thesis if "v' = v" using that assms by (simp add: ledger_grows_def)
  show ?thesis
  proof (cases c)
    case (CSeal suite pt key nonce ik kws)
    then show ?thesis using assms(3) stores_ledger [OF assms(1,2) seal_with_stores(1)]
      by (cases "vt_seal_with suite pt key nonce ik kws v") auto
  next
    case (CSealSigned req)
    then show ?thesis using assms(3,4) seal_signed_ledger [OF assms(1,2) _ _ assms(5)]
      by (cases "vt_seal_signed req v") (auto simp: call_uses_def)
  next
    case (COpen i key)
    then show ?thesis using assms(3) same by simp
  next
    case (CMigrate i key suite nonce)
    then obtain b where m: "vt_migrate i key suite nonce v = (b, v')" using assms(3) by (cases "vt_migrate i key suite nonce v") auto
    then show ?thesis
      using same stores_ledger [OF assms(1,2) migrate_stores(1) [OF _ m]] by (cases "vt_open i key v") (auto simp: migrate_refused)
  next
    case (CRotate i old_key new_key nonce)
    then obtain b where m: "vt_rotate_key i old_key new_key nonce v = (b, v')"
      using assms(3) by (cases "vt_rotate_key i old_key new_key nonce v") auto
    then show ?thesis
      using same stores_ledger [OF assms(1,2) rotate_stores(1) [OF _ m]] by (cases "vt_open i old_key v") (auto simp: rotate_refused)
  next
    case (CDestroy i)
    then have v': "v' = v\<lparr>vt_keys := bt_remove i (vt_keys v)\<rparr>" using assms(3) by (simp add: vt_destroy_key_def)
    show ?thesis using assms(1,2) unfolding v'
      by (auto simp: ledger_ok_def signatures_ok_def ledger_grows_def vt_provenance_of_def)
  qed
qed

lemma vault_run_ledger:
  assumes "\<forall>j. ledger_ok v j" and "signatures_ok cal v" and "vault_run cs v = (rs, v')" and "\<forall>c \<in> set cs. call_uses cal c"
    and "\<forall>S \<in> set cal. correct_scheme S"
  shows "(\<forall>j. ledger_ok v' j) \<and> signatures_ok cal v' \<and> ledger_grows v v'"
  using assms
proof (induction cs arbitrary: v rs)
  case Nil
  then show ?case by (simp add: ledger_grows_def)
next
  case (Cons c cs)
  obtain r w where w: "vault_step c v = (r, w)" by fastforce
  obtain rs' where rs': "vault_run cs w = (rs', v')" using Cons.prems(3) w by (auto simp: Let_def split: prod.splits)
  have w': "(\<forall>j. ledger_ok w j) \<and> signatures_ok cal w \<and> ledger_grows v w"
    using vault_step_ledger [OF Cons.prems(1,2) w] Cons.prems(4,5) by simp
  then have "(\<forall>j. ledger_ok v' j) \<and> signatures_ok cal v' \<and> ledger_grows w v'" using Cons.IH [of w rs'] rs' Cons.prems(4,5) by simp
  then show ?case using w' unfolding ledger_grows_def by (meson prefix_order.trans)
qed

lemma default_schemes_correct: "\<forall>S \<in> set cl_with_defaults. correct_scheme S"
  using lamport.correct_scheme_axioms by (simp add: cl_with_defaults_def cl_register_def cl_new_def)

lemma vault_new_ok: "ledger_ok vault_new j" "signatures_ok cal vault_new"
  by (simp_all add: ledger_ok_def signatures_ok_def vault_new_def vt_provenance_of_def entry_or_default_def)

lemma stores_open: "stores v i key pt v' \<Longrightarrow> vt_open i k v' = (if k = key then Some pt else None)"
  by (auto simp: stores_def vt_open_def)

lemma encrypt_empty: "vt_encrypt suite key nonce [] = (ct, tag) \<Longrightarrow> ct = []"
  using decrypt_encrypt(2) by fastforce

section \<open>Properties\<close>

text \<open>
  C30: The vault is a map from identities to a key and a plaintext. Whatever sequence of seals, signed seals,
  opens, migrations, key rotations and key destructions is made on an empty vault, every call answers as that map
  would: opening succeeds exactly with the current key and returns the sealed bytes, migration changes nothing that
  can be read, rotation hands the object to the new key and shuts out the old one, and destroying the key shuts
  out everyone until the identity is sealed again.
\<close>

theorem vault_refines_key_store:
  "let (results, v) = vault_run calls vault_new; (results', m) = ks_run calls Map.empty
   in results = results' \<and> (\<forall>i key. vt_open i key v = ks_open i key m)"
proof -
  obtain rs v where r: "vault_run calls vault_new = (rs, v)" by fastforce
  then show ?thesis
    using vault_run_refines [OF vault_new_abs(2) r] open_abs by (simp add: vault_new_abs)
qed

text \<open>
  C31: The provenance ledger of an object only grows, generations are numbered from zero, and whoever can open the
  object holds the key whose fingerprint the last entry records; and a signature the
  vault still carries always verifies, because re-encryption drops signatures over ciphertext that is gone.
\<close>

theorem vault_ledger_truthful:
  assumes "\<forall>c \<in> set (calls @ calls'). call_uses cl_with_defaults c"
    and "vault_run calls vault_new = (rs, v)" and "vault_run calls' v = (rs', v')"
  shows "prefix (vt_provenance_of i v) (vt_provenance_of i v') \<and>
    map pv_generation (vt_provenance_of i v') = map word_of_nat [0..<length (vt_provenance_of i v')] \<and>
    vt_verify_signature i cl_with_defaults v' \<noteq> Some False \<and>
    (\<forall>key pt. vt_open i key v' = Some pt \<longrightarrow>
      vt_provenance_of i v' \<noteq> [] \<and> pv_key_fingerprint (last (vt_provenance_of i v')) = key_fingerprint key)"
proof -
  have 1: "(\<forall>j. ledger_ok v j) \<and> signatures_ok cl_with_defaults v"
    using vault_run_ledger [OF _ vault_new_ok(2) assms(2) _ default_schemes_correct] assms(1) vault_new_ok(1) by simp
  then have 2: "(\<forall>j. ledger_ok v' j) \<and> signatures_ok cl_with_defaults v' \<and> ledger_grows v v'"
    using vault_run_ledger [OF _ _ assms(3) _ default_schemes_correct] assms(1) by simp
  then have "vt_verify_signature i cl_with_defaults v' \<noteq> Some False"
    by (auto simp: vt_verify_signature_def signatures_ok_def split: option.splits)
  moreover have "\<forall>key pt. vt_open i key v' = Some pt \<longrightarrow>
      vt_provenance_of i v' \<noteq> [] \<and> pv_key_fingerprint (last (vt_provenance_of i v')) = key_fingerprint key"
    using 2 [THEN conjunct1, THEN spec, of i] by (auto simp: ledger_ok_def vt_open_def split: option.splits if_splits)
  ultimately show ?thesis using 2 by (auto simp: ledger_grows_def ledger_ok_def)
qed

theorem vault_ledger_truthful_witness:
  "let v = snd (vault_run [CSeal Aes256Gcm [1, 2] (replicate 32 3) [4] (replicate 32 5) []] vault_new);
       i = seal_id Aes256Gcm (replicate 32 3) [4] [1, 2];
       v' = snd (vault_run [CRotate i (replicate 32 3) (replicate 32 6) [7]] v)
   in vt_open i (replicate 32 6) v' = Some [1, 2] \<and> vt_provenance_of i v' \<noteq> [] \<and>
      pv_key_fingerprint (last (vt_provenance_of i v')) = key_fingerprint (replicate 32 6)"
proof -
  let ?k = "replicate 32 3 :: bytes" and ?n = "replicate 32 6 :: bytes"
  let ?i = "seal_id Aes256Gcm ?k [4] [1, 2]"
  let ?cs = "[CSeal Aes256Gcm [1, 2] ?k [4] (replicate 32 5) []]" and ?ds = "[CRotate ?i ?k ?n [7]]"
  obtain rs v where v: "vault_run ?cs vault_new = (rs, v)" by fastforce
  obtain rs' v' where v': "vault_run ?ds v = (rs', v')" by fastforce
  have u: "\<forall>c \<in> set (?cs @ ?ds). call_uses cl_with_defaults c" by (simp add: call_uses_def)
  have run: "vault_run (?cs @ ?ds) vault_new = (rs @ rs', v')" using v v' by (auto simp: Let_def split: prod.splits)
  have "vault_abs v' = [?i \<mapsto> (?n, [1, 2])]" "vault_inv v'"
    using vault_run_refines [OF vault_new_abs(2) run] by (auto simp: vault_new_abs Let_def ks_open_def)
  then have "vt_open ?i ?n v' = Some [1, 2]" using open_abs [of v' ?i ?n] by (simp add: ks_open_def)
  moreover have "vt_provenance_of ?i v' \<noteq> [] \<and> pv_key_fingerprint (last (vt_provenance_of ?i v')) = key_fingerprint ?n"
    using vault_ledger_truthful [OF u v v', of ?i] calculation by blast
  ultimately show ?thesis unfolding Let_def v v' snd_conv by blast
qed

text \<open>
  C32: The identity of an object is the hash of its ciphertext alone, and the ciphertext of an empty object is empty
  under every key. Sealing a second empty object therefore takes over the first one's identity: its owner's
  key no longer opens it.
\<close>

theorem empty_objects_share_identity:
  assumes "k1 \<noteq> k2" and "vt_seal [] k1 n1 ik1 kws1 v = (i, v1)" and "vt_seal [] k2 n2 ik2 kws2 v1 = (j, v2)"
  shows "i = j \<and> vt_open i k1 v1 = Some [] \<and> vt_open i k1 v2 = None"
proof -
  note s = seal_with_stores [OF assms(2) [unfolded vt_seal_def]] seal_with_stores [OF assms(3) [unfolded vt_seal_def]]
  have "i = j" using s(2,4) encrypt_empty by (metis seal_id_def prod.collapse)
  then show ?thesis using stores_open [OF s(1)] stores_open [OF s(3)] assms(1) by simp
qed

theorem empty_objects_share_identity_witness:
  "let (i, v1) = vt_seal [] (replicate 32 1) [1] (replicate 32 9) [] vault_new;
       (j, v2) = vt_seal [] (replicate 32 2) [2] (replicate 32 9) [] v1
   in i = j \<and> vt_open i (replicate 32 1) v1 = Some [] \<and> vt_open i (replicate 32 1) v2 = None"
proof -
  obtain i v1 where 1: "vt_seal [] (replicate 32 1) [1] (replicate 32 9) [] vault_new = (i, v1)" by fastforce
  obtain j v2 where 2: "vt_seal [] (replicate 32 2) [2] (replicate 32 9) [] v1 = (j, v2)" by fastforce
  have "replicate 32 (1 :: u8) \<noteq> replicate 32 2" by simp
  from empty_objects_share_identity [OF this 1 2] show ?thesis unfolding 1 by (auto simp: 2)
qed

end
