(* ===== verification/Text_Buffer.thy ===== *)
theory Text_Buffer
  imports Dominion_Prelude "HOL-Library.Signed_Division"
begin

text \<open>
  The text engine, \<^verbatim>\<open>dominion-core/src/text.rs\<close>: lines, caret, selection, clipboard, search and
  several carets. A string is the list of its characters; the byte offsets that \<^verbatim>\<open>byte_at\<close> computes are used by
  the code only as character boundaries, so they are the column cut off at the end of the line. Indexing the
  line of the caret is in range by the invariant below; where a stale selection can index a missing line the
  operation returns \<open>None\<close>, which stands for the panic.
\<close>

section \<open>Lines\<close>

type_synonym uchar = u32
type_synonym ustring = "uchar list"
type_synonym pos = "nat \<times> nat"

abbreviation NL :: uchar where "NL \<equiv> 10"

fun split_lines :: "ustring \<Rightarrow> ustring list" where
  "split_lines [] = [[]]"
| "split_lines (c # cs) =
    (if c = NL then [] # split_lines cs
     else case split_lines cs of [] \<Rightarrow> [[c]] | l # ls \<Rightarrow> (c # l) # ls)"

fun join_lines :: "ustring list \<Rightarrow> ustring" where
  "join_lines [] = []"
| "join_lines [l] = l"
| "join_lines (l # l' # ls) = l @ NL # join_lines (l' # ls)"

text \<open>\<^verbatim>\<open>char::is_whitespace\<close>: the characters with the Unicode property White\_Space.\<close>

definition is_whitespace :: "uchar \<Rightarrow> bool" where
  "is_whitespace c \<longleftrightarrow> 0x9 \<le> c \<and> c \<le> 0xd \<or> c = 0x20 \<or> c = 0x85 \<or> c = 0xa0 \<or> c = 0x1680 \<or> 0x2000 \<le> c \<and> c \<le> 0x200a \<or>
    c = 0x2028 \<or> c = 0x2029 \<or> c = 0x202f \<or> c = 0x205f \<or> c = 0x3000"

definition list_insert :: "nat \<Rightarrow> 'a \<Rightarrow> 'a list \<Rightarrow> 'a list" where
  "list_insert i x xs = take i xs @ x # drop i xs"

definition list_remove :: "nat \<Rightarrow> 'a list \<Rightarrow> 'a list" where
  "list_remove i xs = take i xs @ drop (Suc i) xs"

section \<open>The buffer\<close>

definition BLINK_MS :: u64 where "BLINK_MS = 500"

record text_buffer =
  tb_lines :: "ustring list"
  tb_cx :: nat
  tb_cy :: nat
  tb_anchor :: "pos option"
  tb_solid_until_ms :: u64
  tb_extra :: "pos list"

definition tb_new :: "ustring \<Rightarrow> text_buffer" where
  "tb_new text =
    (let lines = split_lines text;
         lines = (if lines = [] then [[]] else lines)
     in \<lparr>tb_lines = lines, tb_cx = 0, tb_cy = 0, tb_anchor = None, tb_solid_until_ms = 0, tb_extra = []\<rparr>)"

definition tb_empty :: text_buffer where
  "tb_empty = tb_new []"

definition tb_line_count :: "text_buffer \<Rightarrow> nat" where
  "tb_line_count b = length (tb_lines b)"

definition tb_caret :: "text_buffer \<Rightarrow> pos" where
  "tb_caret b = (tb_cy b, tb_cx b)"

definition tb_text :: "text_buffer \<Rightarrow> ustring" where
  "tb_text b = join_lines (tb_lines b)"

definition tb_cur_line :: "text_buffer \<Rightarrow> ustring" where
  "tb_cur_line b = tb_lines b ! tb_cy b"

definition tb_cur_len :: "text_buffer \<Rightarrow> nat" where
  "tb_cur_len b = length (tb_lines b ! tb_cy b)"

definition tb_line_len :: "nat \<Rightarrow> text_buffer \<Rightarrow> nat" where
  "tb_line_len row b = length (tb_lines b ! row)"

definition char_at :: "nat \<Rightarrow> nat \<Rightarrow> text_buffer \<Rightarrow> nat" where
  "char_at row col b = min col (length (tb_lines b ! row))"

definition tb_touch :: "u64 \<Rightarrow> text_buffer \<Rightarrow> text_buffer" where
  "tb_touch now_ms b = (if now_ms > 0 then b\<lparr>tb_solid_until_ms := now_ms + BLINK_MS\<rparr> else b)"

definition tb_caret_visible :: "u64 \<Rightarrow> text_buffer \<Rightarrow> bool" where
  "tb_caret_visible now_ms b \<longleftrightarrow> (if now_ms < tb_solid_until_ms b then True else (now_ms div BLINK_MS) mod 2 = 0)"

definition tb_clamp :: "text_buffer \<Rightarrow> text_buffer" where
  "tb_clamp b =
    (let b = (if tb_cy b \<ge> length (tb_lines b) then b\<lparr>tb_cy := length (tb_lines b) - 1\<rparr> else b);
         m = tb_cur_len b
     in if tb_cx b > m then b\<lparr>tb_cx := m\<rparr> else b)"

definition tb_set_text :: "ustring \<Rightarrow> text_buffer \<Rightarrow> text_buffer" where
  "tb_set_text text b =
    (let lines = split_lines text;
         lines = (if lines = [] then [[]] else lines)
     in tb_clamp (b\<lparr>tb_lines := lines, tb_anchor := None\<rparr>))"

definition tb_set_caret :: "nat \<Rightarrow> nat \<Rightarrow> text_buffer \<Rightarrow> text_buffer" where
  "tb_set_caret row col b =
    (let b = b\<lparr>tb_cy := min row (length (tb_lines b) - 1)\<rparr>;
         b = b\<lparr>tb_cx := min col (tb_cur_len b)\<rparr>
     in tb_touch 0 b)"

section \<open>Selection\<close>

definition tb_has_selection :: "text_buffer \<Rightarrow> bool" where
  "tb_has_selection b \<longleftrightarrow> (case tb_anchor b of Some a \<Rightarrow> a \<noteq> (tb_cy b, tb_cx b) | None \<Rightarrow> False)"

definition tb_begin_selection :: "text_buffer \<Rightarrow> text_buffer" where
  "tb_begin_selection b = (if tb_anchor b = None then b\<lparr>tb_anchor := Some (tb_cy b, tb_cx b)\<rparr> else b)"

definition tb_clear_selection :: "text_buffer \<Rightarrow> text_buffer" where
  "tb_clear_selection b = b\<lparr>tb_anchor := None\<rparr>"

definition tb_selection :: "text_buffer \<Rightarrow> (pos \<times> pos) option" where
  "tb_selection b =
    (case tb_anchor b of
       None \<Rightarrow> None
     | Some a \<Rightarrow>
         let c = (tb_cy b, tb_cx b)
         in if a = c then None else Some (if a \<le> c then (a, c) else (c, a)))"

definition selected_row :: "text_buffer \<Rightarrow> pos \<Rightarrow> pos \<Rightarrow> nat \<Rightarrow> ustring option" where
  "selected_row b s e row =
    (if row \<ge> length (tb_lines b) then None
     else let (fr, to) = (if row = fst s then (snd s, tb_line_len row b)
                          else if row = fst e then (0, snd e)
                          else (0, tb_line_len row b))
          in if to < fr then None
             else Some (take (to - fr) (drop fr (tb_lines b ! row)) @ (if row \<noteq> fst e then [NL] else [])))"

definition tb_selected_text :: "text_buffer \<Rightarrow> ustring option" where
  "tb_selected_text b =
    (case tb_selection b of
       None \<Rightarrow> Some []
     | Some (s, e) \<Rightarrow>
         if fst s = fst e
         then if fst s \<ge> length (tb_lines b) then None
              else Some (take (snd e - snd s) (drop (snd s) (tb_lines b ! fst s)))
         else foldl (\<lambda>out row. Option.bind out (\<lambda>out. map_option (\<lambda>frag. out @ frag) (selected_row b s e row)))
                (Some []) [fst s..<Suc (fst e)])"

definition tb_delete_selection :: "text_buffer \<Rightarrow> (bool \<times> text_buffer) option" where
  "tb_delete_selection b =
    (case tb_selection b of
       None \<Rightarrow> Some (False, b\<lparr>tb_anchor := None\<rparr>)
     | Some (s, e) \<Rightarrow>
         if fst e \<ge> length (tb_lines b) then None
         else let lines = (if fst s = fst e
                           then let b0 = char_at (fst s) (snd s) b; b1 = char_at (fst s) (snd e) b; l = tb_lines b ! fst s
                                in (tb_lines b)[fst s := take b0 l @ drop b1 l]
                           else let hd' = take (snd s) (tb_lines b ! fst s);
                                    tl' = drop (snd e) (tb_lines b ! fst e);
                                    merged = hd' @ tl';
                                    drained = take (fst s) (tb_lines b) @ drop (Suc (fst e)) (tb_lines b)
                                in list_insert (fst s) merged drained)
              in Some (True, tb_touch 0 (b\<lparr>tb_lines := lines, tb_cy := fst s, tb_cx := snd s, tb_anchor := None\<rparr>)))"

section \<open>Editing\<close>

definition tb_insert :: "uchar \<Rightarrow> text_buffer \<Rightarrow> text_buffer option" where
  "tb_insert ch b =
    map_option (\<lambda>(_, b).
      let byte = char_at (tb_cy b) (tb_cx b) b;
          b = b\<lparr>tb_lines := (tb_lines b)[tb_cy b := list_insert byte ch (tb_lines b ! tb_cy b)]\<rparr>
      in tb_touch 0 (b\<lparr>tb_cx := tb_cx b + 1\<rparr>)) (tb_delete_selection b)"

definition tb_newline :: "text_buffer \<Rightarrow> text_buffer option" where
  "tb_newline b =
    map_option (\<lambda>(_, b).
      let byte = char_at (tb_cy b) (tb_cx b) b;
          line = tb_lines b ! tb_cy b;
          tail = drop byte line;
          b = b\<lparr>tb_lines := list_insert (tb_cy b + 1) tail ((tb_lines b)[tb_cy b := take byte line])\<rparr>
      in tb_touch 0 (b\<lparr>tb_cy := tb_cy b + 1, tb_cx := 0\<rparr>)) (tb_delete_selection b)"

definition tb_insert_str :: "ustring \<Rightarrow> text_buffer \<Rightarrow> text_buffer option" where
  "tb_insert_str s b =
    foldl (\<lambda>r ch. Option.bind r (\<lambda>b. if ch = NL then tb_newline b else tb_insert ch b)) (Some b) s"

definition tb_backspace :: "text_buffer \<Rightarrow> text_buffer option" where
  "tb_backspace b =
    (if tb_has_selection b then map_option snd (tb_delete_selection b)
     else if tb_cx b > 0
     then let byte = char_at (tb_cy b) (tb_cx b - 1) b
          in Some (tb_touch 0 (b\<lparr>tb_lines := (tb_lines b)[tb_cy b := list_remove byte (tb_lines b ! tb_cy b)], tb_cx := tb_cx b - 1\<rparr>))
     else if tb_cy b > 0
     then let cur = tb_lines b ! tb_cy b;
              b = b\<lparr>tb_lines := list_remove (tb_cy b) (tb_lines b), tb_cy := tb_cy b - 1\<rparr>;
              b = b\<lparr>tb_cx := tb_cur_len b\<rparr>
          in Some (tb_touch 0 (b\<lparr>tb_lines := (tb_lines b)[tb_cy b := tb_lines b ! tb_cy b @ cur]\<rparr>))
     else Some (tb_touch 0 b))"

definition tb_delete :: "text_buffer \<Rightarrow> text_buffer option" where
  "tb_delete b =
    (if tb_has_selection b then map_option snd (tb_delete_selection b)
     else if tb_cx b < tb_cur_len b
     then let byte = char_at (tb_cy b) (tb_cx b) b
          in Some (tb_touch 0 (b\<lparr>tb_lines := (tb_lines b)[tb_cy b := list_remove byte (tb_lines b ! tb_cy b)]\<rparr>))
     else if tb_cy b + 1 < length (tb_lines b)
     then let nxt = tb_lines b ! (tb_cy b + 1);
              b = b\<lparr>tb_lines := list_remove (tb_cy b + 1) (tb_lines b)\<rparr>
          in Some (tb_touch 0 (b\<lparr>tb_lines := (tb_lines b)[tb_cy b := tb_lines b ! tb_cy b @ nxt]\<rparr>))
     else Some (tb_touch 0 b))"

definition tb_delete_line :: "text_buffer \<Rightarrow> text_buffer" where
  "tb_delete_line b =
    (let b = (if length (tb_lines b) > 1
              then let b = b\<lparr>tb_lines := list_remove (tb_cy b) (tb_lines b)\<rparr>
                   in if tb_cy b \<ge> length (tb_lines b) then b\<lparr>tb_cy := length (tb_lines b) - 1\<rparr> else b
              else b\<lparr>tb_lines := (tb_lines b)[0 := []]\<rparr>);
         b = b\<lparr>tb_cx := min (tb_cx b) (tb_cur_len b)\<rparr>
     in tb_touch 0 b)"

section \<open>Motion\<close>

definition tb_left :: "text_buffer \<Rightarrow> text_buffer" where
  "tb_left b =
    (let b = tb_clear_selection b;
         b = (if tb_cx b > 0 then b\<lparr>tb_cx := tb_cx b - 1\<rparr>
              else if tb_cy b > 0 then let b = b\<lparr>tb_cy := tb_cy b - 1\<rparr> in b\<lparr>tb_cx := tb_cur_len b\<rparr>
              else b)
     in tb_touch 0 b)"

definition tb_right :: "text_buffer \<Rightarrow> text_buffer" where
  "tb_right b =
    (let b = tb_clear_selection b;
         b = (if tb_cx b < tb_cur_len b then b\<lparr>tb_cx := tb_cx b + 1\<rparr>
              else if tb_cy b + 1 < length (tb_lines b) then b\<lparr>tb_cy := tb_cy b + 1, tb_cx := 0\<rparr>
              else b)
     in tb_touch 0 b)"

definition tb_up :: "text_buffer \<Rightarrow> text_buffer" where
  "tb_up b =
    (let b = tb_clear_selection b;
         b = (if tb_cy b > 0 then let b = b\<lparr>tb_cy := tb_cy b - 1\<rparr> in b\<lparr>tb_cx := min (tb_cx b) (tb_cur_len b)\<rparr>
              else b\<lparr>tb_cx := 0\<rparr>)
     in tb_touch 0 b)"

definition tb_down :: "text_buffer \<Rightarrow> text_buffer" where
  "tb_down b =
    (let b = tb_clear_selection b;
         b = (if tb_cy b + 1 < length (tb_lines b)
              then let b = b\<lparr>tb_cy := tb_cy b + 1\<rparr> in b\<lparr>tb_cx := min (tb_cx b) (tb_cur_len b)\<rparr>
              else b\<lparr>tb_cx := tb_cur_len b\<rparr>)
     in tb_touch 0 b)"

definition tb_home :: "text_buffer \<Rightarrow> text_buffer" where
  "tb_home b = tb_touch 0 ((tb_clear_selection b)\<lparr>tb_cx := 0\<rparr>)"

definition tb_end :: "text_buffer \<Rightarrow> text_buffer" where
  "tb_end b = tb_touch 0 ((tb_clear_selection b)\<lparr>tb_cx := tb_cur_len b\<rparr>)"

definition tb_doc_start :: "text_buffer \<Rightarrow> text_buffer" where
  "tb_doc_start b = tb_touch 0 ((tb_clear_selection b)\<lparr>tb_cy := 0, tb_cx := 0\<rparr>)"

definition tb_doc_end :: "text_buffer \<Rightarrow> text_buffer" where
  "tb_doc_end b =
    (let b = (tb_clear_selection b)\<lparr>tb_cy := length (tb_lines b) - 1\<rparr>
     in tb_touch 0 (b\<lparr>tb_cx := tb_cur_len b\<rparr>))"

fun skip_while :: "(uchar \<Rightarrow> bool) \<Rightarrow> ustring \<Rightarrow> nat \<Rightarrow> nat" where
  "skip_while p cs i = i + length (takeWhile p (drop i cs))"

fun skip_back_while :: "(uchar \<Rightarrow> bool) \<Rightarrow> ustring \<Rightarrow> nat \<Rightarrow> nat" where
  "skip_back_while p cs 0 = 0"
| "skip_back_while p cs (Suc i) = (if p (cs ! i) then skip_back_while p cs i else Suc i)"

definition tb_next_word :: "text_buffer \<Rightarrow> text_buffer" where
  "tb_next_word b =
    (let b = tb_clear_selection b;
         chars = tb_lines b ! tb_cy b;
         i = skip_while (\<lambda>c. \<not> is_whitespace c) chars (tb_cx b);
         i = skip_while is_whitespace chars i;
         b = (if i \<ge> length chars \<and> tb_cy b + 1 < length (tb_lines b)
              then let b = b\<lparr>tb_cy := tb_cy b + 1, tb_cx := 0\<rparr>;
                       nxt = tb_lines b ! tb_cy b;
                       j = skip_while is_whitespace nxt 0
                   in b\<lparr>tb_cx := j\<rparr>
              else b\<lparr>tb_cx := min i (length chars)\<rparr>)
     in tb_touch 0 b)"

definition tb_prev_word :: "text_buffer \<Rightarrow> text_buffer" where
  "tb_prev_word b =
    (let b = tb_clear_selection b
     in if tb_cx b = 0
        then tb_touch 0 (if tb_cy b > 0 then let b = b\<lparr>tb_cy := tb_cy b - 1\<rparr> in b\<lparr>tb_cx := tb_cur_len b\<rparr> else b)
        else let chars = tb_lines b ! tb_cy b;
                 i = skip_back_while is_whitespace chars (tb_cx b);
                 i = skip_back_while (\<lambda>c. \<not> is_whitespace c) chars i
             in tb_touch 0 (b\<lparr>tb_cx := i\<rparr>))"

text \<open>Screen coordinates are \<^verbatim>\<open>i32\<close>: sums wrap and division truncates.\<close>

definition i32_wrap :: "int \<Rightarrow> int" where
  "i32_wrap x = signed_take_bit 31 x"

definition tb_place_at_pixel :: "int \<Rightarrow> int \<Rightarrow> int \<times> int \<Rightarrow> int \<Rightarrow> int \<Rightarrow> text_buffer \<Rightarrow> text_buffer" where
  "tb_place_at_pixel px py origin char_w line_h b =
    (let b = tb_clear_selection b;
         line_h = max line_h 1;
         char_w = max char_w 1;
         row = nat (max (i32_wrap (py - snd origin) sdiv line_h) 0);
         b = b\<lparr>tb_cy := min row (length (tb_lines b) - 1)\<rparr>;
         col = i32_wrap (i32_wrap (px - fst origin) + char_w sdiv 2) sdiv char_w;
         b = b\<lparr>tb_cx := min (nat (max col 0)) (tb_cur_len b)\<rparr>
     in tb_touch 0 b)"

definition tb_shift_move :: "(text_buffer \<Rightarrow> text_buffer) \<Rightarrow> text_buffer \<Rightarrow> text_buffer" where
  "tb_shift_move motion b =
    (let b = tb_begin_selection b; a = tb_anchor b
     in (motion b)\<lparr>tb_anchor := a\<rparr>)"

definition tb_select_left :: "text_buffer \<Rightarrow> text_buffer" where "tb_select_left = tb_shift_move tb_left"
definition tb_select_right :: "text_buffer \<Rightarrow> text_buffer" where "tb_select_right = tb_shift_move tb_right"
definition tb_select_up :: "text_buffer \<Rightarrow> text_buffer" where "tb_select_up = tb_shift_move tb_up"
definition tb_select_down :: "text_buffer \<Rightarrow> text_buffer" where "tb_select_down = tb_shift_move tb_down"
definition tb_select_home :: "text_buffer \<Rightarrow> text_buffer" where "tb_select_home = tb_shift_move tb_home"
definition tb_select_end :: "text_buffer \<Rightarrow> text_buffer" where "tb_select_end = tb_shift_move tb_end"

definition tb_select_all :: "text_buffer \<Rightarrow> text_buffer" where
  "tb_select_all b =
    (let b = b\<lparr>tb_anchor := Some (0, 0), tb_cy := length (tb_lines b) - 1\<rparr>
     in tb_touch 0 (b\<lparr>tb_cx := tb_cur_len b\<rparr>))"

definition tb_begin_select_at_pixel :: "int \<Rightarrow> int \<Rightarrow> int \<times> int \<Rightarrow> int \<Rightarrow> int \<Rightarrow> text_buffer \<Rightarrow> text_buffer" where
  "tb_begin_select_at_pixel px py origin char_w line_h b =
    (let b = tb_place_at_pixel px py origin char_w line_h b
     in b\<lparr>tb_anchor := Some (tb_cy b, tb_cx b)\<rparr>)"

definition tb_select_to_pixel :: "int \<Rightarrow> int \<Rightarrow> int \<times> int \<Rightarrow> int \<Rightarrow> int \<Rightarrow> text_buffer \<Rightarrow> text_buffer" where
  "tb_select_to_pixel px py origin char_w line_h b =
    (let a = (case tb_anchor b of Some a \<Rightarrow> a | None \<Rightarrow> (tb_cy b, tb_cx b))
     in (tb_place_at_pixel px py origin char_w line_h b)\<lparr>tb_anchor := Some a\<rparr>)"

section \<open>Clipboard\<close>

definition tb_copy :: "text_buffer \<Rightarrow> ustring option option" where
  "tb_copy b = (case tb_selection b of None \<Rightarrow> Some None | Some _ \<Rightarrow> map_option Some (tb_selected_text b))"

definition tb_cut :: "text_buffer \<Rightarrow> (ustring option \<times> text_buffer) option" where
  "tb_cut b = Option.bind (tb_copy b) (\<lambda>text.
     case text of None \<Rightarrow> Some (None, b) | Some t \<Rightarrow> map_option (\<lambda>(_, b). (Some t, b)) (tb_delete_selection b))"

definition tb_paste :: "ustring \<Rightarrow> text_buffer \<Rightarrow> text_buffer option" where
  "tb_paste s b =
    (if tb_selection b \<noteq> None then Option.bind (tb_delete_selection b) (\<lambda>(_, b). tb_insert_str s b)
     else tb_insert_str s b)"

section \<open>Search\<close>

definition find_in_line :: "ustring \<Rightarrow> ustring \<Rightarrow> nat \<Rightarrow> nat option" where
  "find_in_line needle line from_col =
    (if length line \<ge> length needle
     then List.find (\<lambda>col. slice col (length needle) line = needle) [from_col..<Suc (length line - length needle)]
     else None)"

fun find_rows :: "ustring \<Rightarrow> ustring list \<Rightarrow> pos \<Rightarrow> nat list \<Rightarrow> pos option" where
  "find_rows needle lines start [] = None"
| "find_rows needle lines start (row # rows) =
    (case find_in_line needle (lines ! row) (if row = fst start then snd start else 0) of
       Some col \<Rightarrow> Some (row, col)
     | None \<Rightarrow> find_rows needle lines start rows)"

definition tb_find_from :: "ustring \<Rightarrow> pos \<Rightarrow> text_buffer \<Rightarrow> pos option" where
  "tb_find_from needle start b =
    (if needle = [] then None else find_rows needle (tb_lines b) start [fst start..<length (tb_lines b)])"

lemma find_rows_bounds:
  "find_rows needle lines start rows = Some (r, c) \<Longrightarrow>
   r \<in> set rows \<and> c + length needle \<le> length (lines ! r) \<and> (r = fst start \<longrightarrow> snd start \<le> c) \<and> slice c (length needle) (lines ! r) = needle"
  by (induction rows) (auto simp: find_in_line_def find_Some_iff nth_append split: option.splits if_splits)

function find_all_loop :: "ustring \<Rightarrow> text_buffer \<Rightarrow> pos \<Rightarrow> pos list" where
  "find_all_loop needle b p =
    (case tb_find_from needle p b of
       None \<Rightarrow> []
     | Some (r, c) \<Rightarrow> (r, c) # find_all_loop needle b (r, c + max (length needle) 1))"
  by pat_completeness auto
termination
proof (relation "measures [\<lambda>(_, b, p). length (tb_lines b) - fst p, \<lambda>(_, b, p). Suc (length (tb_lines b ! fst p)) - snd p]")
  fix needle b p q r c
  assume "tb_find_from needle p b = Some q" and "(r, c) = q"
  then have "find_rows needle (tb_lines b) p [fst p..<length (tb_lines b)] = Some (r, c)"
    by (auto simp: tb_find_from_def split: if_splits)
  from find_rows_bounds [OF this]
  show "((needle, b, r, c + max (length needle) 1), (needle, b, p)) \<in>
      measures [\<lambda>(_, b, p). length (tb_lines b) - fst p, \<lambda>(_, b, p). Suc (length (tb_lines b ! fst p)) - snd p]"
    by (cases "r = fst p") auto
qed simp

declare find_all_loop.simps [simp del]

definition tb_find_all :: "ustring \<Rightarrow> text_buffer \<Rightarrow> pos list" where
  "tb_find_all needle b = find_all_loop needle b (0, 0)"

definition tb_replace_next :: "ustring \<Rightarrow> ustring \<Rightarrow> text_buffer \<Rightarrow> bool \<times> text_buffer" where
  "tb_replace_next needle replacement b =
    (case tb_find_from needle (tb_cy b, tb_cx b) b of
       None \<Rightarrow> (False, b)
     | Some (row, col) \<Rightarrow>
         let chars = tb_lines b ! row;
             chars = take col chars @ replacement @ drop (col + length needle) chars;
             b = b\<lparr>tb_lines := (tb_lines b)[row := chars]\<rparr>
         in (True, tb_set_caret row (col + length replacement) b))"

function replace_loop :: "ustring \<Rightarrow> ustring \<Rightarrow> ustring \<Rightarrow> nat \<Rightarrow> nat \<Rightarrow> ustring \<times> nat" where
  "replace_loop needle rep chars col count =
    (if needle \<noteq> [] \<and> col + length needle \<le> length chars
     then if slice col (length needle) chars = needle
          then replace_loop needle rep (take col chars @ rep @ drop (col + length needle) chars) (col + length rep) (count + 1)
          else replace_loop needle rep chars (col + 1) count
     else (chars, count))"
  by pat_completeness auto
termination
  by (relation "measure (\<lambda>(needle, rep, chars, col, count). length chars - col)") (auto simp: neq_Nil_conv)

declare replace_loop.simps [simp del]

definition tb_replace_all :: "ustring \<Rightarrow> ustring \<Rightarrow> text_buffer \<Rightarrow> nat \<times> text_buffer" where
  "tb_replace_all needle replacement b =
    (if needle = [] then (0, b)
     else let (lines, count) = foldl (\<lambda>(lines, count) row.
                let (chars, count) = replace_loop needle replacement (lines ! row) 0 count
                in (lines[row := chars], count)) (tb_lines b, 0) [0..<length (tb_lines b)]
          in (count, tb_clamp (b\<lparr>tb_lines := lines\<rparr>)))"

section \<open>Several carets\<close>

definition tb_add_cursor :: "nat \<Rightarrow> nat \<Rightarrow> text_buffer \<Rightarrow> text_buffer" where
  "tb_add_cursor row col b =
    (if (row, col) \<noteq> (tb_cy b, tb_cx b) \<and> (row, col) \<notin> set (tb_extra b) then b\<lparr>tb_extra := tb_extra b @ [(row, col)]\<rparr> else b)"

definition tb_cursors :: "text_buffer \<Rightarrow> pos list" where
  "tb_cursors b = remdups_adj (sort (tb_extra b @ [(tb_cy b, tb_cx b)]))"

definition tb_clear_extra_cursors :: "text_buffer \<Rightarrow> text_buffer" where
  "tb_clear_extra_cursors b = b\<lparr>tb_extra := []\<rparr>"

definition insert_at_caret :: "ustring \<Rightarrow> pos \<Rightarrow> text_buffer \<times> nat option \<times> nat \<times> pos list \<Rightarrow>
    (text_buffer \<times> nat option \<times> nat \<times> pos list) option" where
  "insert_at_caret s p st =
    (let (b, cur_row, shift, updated) = st;
         (row, col) = p;
         (cur_row, shift) = (if Some row \<noteq> cur_row then (Some row, 0) else (cur_row, shift));
         actual = col + shift;
         b = tb_set_caret row actual b
     in map_option (\<lambda>b. (b, cur_row, shift + length s, updated @ [(row, actual + length s)])) (tb_insert_str s b))"

definition tb_insert_str_all :: "ustring \<Rightarrow> text_buffer \<Rightarrow> text_buffer option" where
  "tb_insert_str_all s b =
    (if NL \<in> set s then Some b
     else map_option (\<lambda>(b, cur_row, shift, updated).
            let b = (case updated of [] \<Rightarrow> b | (r, c) # _ \<Rightarrow> b\<lparr>tb_cy := r, tb_cx := c\<rparr>);
                b = b\<lparr>tb_extra := drop 1 updated\<rparr>
            in tb_clamp b)
          (foldl (\<lambda>st p. Option.bind st (insert_at_caret s p)) (Some (b, None, 0, [])) (tb_cursors b)))"

end
