(* ===== verification/Text_Editing.thy ===== *)
theory Text_Editing
  imports Text_Buffer
begin

text \<open>
  What the text engine promises: the caret never leaves the text, editing through lines is editing of one flat
  string at an offset, a selection is exactly the range between anchor and caret, and search finds the first
  occurrence. The theory also shows where a selection can outlive the text it was made in.
\<close>

section \<open>Lines and flat text\<close>

definition before :: "nat \<Rightarrow> ustring list \<Rightarrow> ustring" where
  "before r ls = concat (map (\<lambda>l. l @ [NL]) (take r ls))"

definition after :: "nat \<Rightarrow> ustring list \<Rightarrow> ustring" where
  "after r ls = concat (map ((#) NL) (drop r ls))"

lemma join_lines_Cons: "join_lines (l # ls) = l @ after 0 ls"
  by (induction ls arbitrary: l) (simp_all add: after_def)

lemma join_at:
  assumes "r < length ls"
  shows "join_lines ls = before r ls @ ls ! r @ after (Suc r) ls"
  using assms
proof (induction ls arbitrary: r)
  case (Cons l ls)
  show ?case
  proof (cases r)
    case 0
    then show ?thesis by (simp add: join_lines_Cons before_def after_def)
  next
    case (Suc k)
    then have "join_lines ls = before k ls @ ls ! k @ after (Suc k) ls" using Cons by simp
    moreover have "ls \<noteq> []" using Suc Cons.prems by auto
    ultimately show ?thesis using Suc by (cases ls) (simp_all add: before_def after_def)
  qed
qed simp

lemma split_lines_not_Nil [simp]: "split_lines cs \<noteq> []"
  by (induction cs) (auto split: list.split)

lemma join_split [simp]: "join_lines (split_lines cs) = cs"
proof (induction cs)
  case (Cons c cs)
  then show ?case by (cases "split_lines cs") (auto simp: join_lines_Cons after_def)
qed simp

lemma before_Suc: "r < length ls \<Longrightarrow> before (Suc r) ls = before r ls @ ls ! r @ [NL]"
  by (simp add: before_def take_Suc_conv_app_nth)

lemma after_nth: "r < length ls \<Longrightarrow> after r ls = NL # ls ! r @ after (Suc r) ls"
  by (simp add: after_def Cons_nth_drop_Suc [symmetric])

lemma before_0 [simp]: "before 0 ls = []"
  by (simp add: before_def)

lemma after_end [simp]: "after (length ls) ls = []"
  by (simp add: after_def)

lemma before_update [simp]: "before r (ls[r := l]) = before r ls" "after (Suc r) (ls[r := l]) = after (Suc r) ls"
  by (simp_all add: before_def after_def)

lemma before_cong: "take r ls = take r ls' \<Longrightarrow> before r ls = before r ls'"
  by (simp add: before_def)

lemma after_cong: "drop r ls = drop r' ls' \<Longrightarrow> after r ls = after r' ls'"
  by (simp add: after_def)

section \<open>The caret\<close>

definition caret_ok :: "text_buffer \<Rightarrow> bool" where
  "caret_ok b \<longleftrightarrow> tb_cy b < length (tb_lines b) \<and> tb_cx b \<le> length (tb_lines b ! tb_cy b)"

definition offset_of :: "ustring list \<Rightarrow> pos \<Rightarrow> nat" where
  "offset_of ls p = length (before (fst p) ls) + snd p"

definition tb_offset :: "text_buffer \<Rightarrow> nat" where
  "tb_offset b = offset_of (tb_lines b) (tb_cy b, tb_cx b)"

lemma tb_touch_0 [simp]: "tb_touch 0 b = b"
  by (simp add: tb_touch_def)

lemma text_at_caret:
  assumes "caret_ok b"
  shows "tb_text b = (before (tb_cy b) (tb_lines b) @ take (tb_cx b) (tb_lines b ! tb_cy b)) @
      drop (tb_cx b) (tb_lines b ! tb_cy b) @ after (Suc (tb_cy b)) (tb_lines b)"
    and "tb_offset b = length (before (tb_cy b) (tb_lines b) @ take (tb_cx b) (tb_lines b ! tb_cy b))"
  using assms join_at [of "tb_cy b" "tb_lines b"] by (simp_all add: caret_ok_def tb_text_def tb_offset_def offset_of_def)

section \<open>The flat editor\<close>

type_synonym flat = "ustring \<times> nat"

datatype edit = EInsert uchar | ENewline | EBackspace | EDelete | ELeft | ERight | EDocStart | EDocEnd

fun flat_edit :: "edit \<Rightarrow> flat \<Rightarrow> flat" where
  "flat_edit (EInsert c) (t, i) = (list_insert i c t, Suc i)"
| "flat_edit ENewline (t, i) = (list_insert i NL t, Suc i)"
| "flat_edit EBackspace (t, i) = (if i = 0 then (t, i) else (list_remove (i - 1) t, i - 1))"
| "flat_edit EDelete (t, i) = (if i < length t then list_remove i t else t, i)"
| "flat_edit ELeft (t, i) = (t, i - 1)"
| "flat_edit ERight (t, i) = (t, min (Suc i) (length t))"
| "flat_edit EDocStart (t, i) = (t, 0)"
| "flat_edit EDocEnd (t, i) = (t, length t)"

fun tb_edit :: "edit \<Rightarrow> text_buffer \<Rightarrow> text_buffer option" where
  "tb_edit (EInsert c) b = tb_insert c b"
| "tb_edit ENewline b = tb_newline b"
| "tb_edit EBackspace b = tb_backspace b"
| "tb_edit EDelete b = tb_delete b"
| "tb_edit ELeft b = Some (tb_left b)"
| "tb_edit ERight b = Some (tb_right b)"
| "tb_edit EDocStart b = Some (tb_doc_start b)"
| "tb_edit EDocEnd b = Some (tb_doc_end b)"

definition flat_of :: "text_buffer \<Rightarrow> flat" where
  "flat_of b = (tb_text b, tb_offset b)"

text \<open>A buffer stands for a flat text cut at the caret.\<close>

definition shown :: "text_buffer \<Rightarrow> ustring \<Rightarrow> ustring \<Rightarrow> bool" where
  "shown b u v \<longleftrightarrow> caret_ok b \<and> tb_anchor b = None \<and> tb_text b = u @ v \<and> tb_offset b = length u"

lemma shownI:
  assumes "caret_ok b" and "tb_anchor b = None"
    and "u = before (tb_cy b) (tb_lines b) @ take (tb_cx b) (tb_lines b ! tb_cy b)"
    and "v = drop (tb_cx b) (tb_lines b ! tb_cy b) @ after (Suc (tb_cy b)) (tb_lines b)"
  shows "shown b u v"
  using assms text_at_caret [OF assms(1)] by (simp add: shown_def)

lemma shownE:
  assumes "shown b u v"
  shows "caret_ok b" "tb_anchor b = None" "u = before (tb_cy b) (tb_lines b) @ take (tb_cx b) (tb_lines b ! tb_cy b)"
    and "v = drop (tb_cx b) (tb_lines b ! tb_cy b) @ after (Suc (tb_cy b)) (tb_lines b)"
proof -
  show c: "caret_ok b" "tb_anchor b = None" using assms by (simp_all add: shown_def)
  from text_at_caret [OF c(1)] assms
  show "u = before (tb_cy b) (tb_lines b) @ take (tb_cx b) (tb_lines b ! tb_cy b)"
    and "v = drop (tb_cx b) (tb_lines b ! tb_cy b) @ after (Suc (tb_cy b)) (tb_lines b)"
    unfolding shown_def by (metis append_eq_append_conv)+
qed

lemma delete_selection_none: "tb_anchor b = None \<Longrightarrow> tb_delete_selection b = Some (False, b)"
  by (cases b) (simp add: tb_delete_selection_def tb_selection_def)

lemma insert_shown:
  assumes "shown b u v"
  shows "\<exists>b'. tb_insert c b = Some b' \<and> shown b' (u @ [c]) v"
proof -
  note s = shownE [OF assms]
  let ?l = "tb_lines b ! tb_cy b"
  have c: "tb_cy b < length (tb_lines b)" "tb_cx b \<le> length ?l" using s(1) by (simp_all add: caret_ok_def)
  let ?b = "b\<lparr>tb_lines := (tb_lines b)[tb_cy b := take (tb_cx b) ?l @ c # drop (tb_cx b) ?l], tb_cx := tb_cx b + 1\<rparr>"
  have "tb_insert c b = Some ?b"
    using c by (simp add: tb_insert_def delete_selection_none [OF s(2)] char_at_def list_insert_def min_absorb1 Let_def)
  moreover have "shown ?b (u @ [c]) v"
    by (rule shownI) (use c s in \<open>simp_all add: caret_ok_def\<close>)
  ultimately show ?thesis by blast
qed

lemma newline_shown:
  assumes "shown b u v"
  shows "\<exists>b'. tb_newline b = Some b' \<and> shown b' (u @ [NL]) v"
proof -
  note s = shownE [OF assms]
  let ?l = "tb_lines b ! tb_cy b"
  have c: "tb_cy b < length (tb_lines b)" "tb_cx b \<le> length ?l" using s(1) by (simp_all add: caret_ok_def)
  let ?ls = "list_insert (Suc (tb_cy b)) (drop (tb_cx b) ?l) ((tb_lines b)[tb_cy b := take (tb_cx b) ?l])"
  let ?b = "b\<lparr>tb_lines := ?ls, tb_cy := Suc (tb_cy b), tb_cx := 0\<rparr>"
  have "tb_newline b = Some ?b"
    using c by (simp add: tb_newline_def delete_selection_none [OF s(2)] char_at_def min_absorb1 Let_def)
  moreover have "shown ?b (u @ [NL]) v"
  proof (rule shownI)
    have n: "?ls ! Suc (tb_cy b) = drop (tb_cx b) ?l" "length ?ls = Suc (length (tb_lines b))"
      using c by (simp_all add: list_insert_def nth_append)
    have t: "take (Suc (tb_cy b)) ?ls = take (tb_cy b) (tb_lines b) @ [take (tb_cx b) ?l]"
      using c by (simp add: list_insert_def take_Suc_conv_app_nth)
    have d: "drop (Suc (Suc (tb_cy b))) ?ls = drop (Suc (tb_cy b)) (tb_lines b)"
      using c by (simp add: list_insert_def)
    show "caret_ok ?b" "tb_anchor ?b = None" using c n s(2) by (simp_all add: caret_ok_def)
    show "u @ [NL] = before (tb_cy ?b) (tb_lines ?b) @ take (tb_cx ?b) (tb_lines ?b ! tb_cy ?b)"
      using t s(3) by (simp add: before_def)
    show "v = drop (tb_cx ?b) (tb_lines ?b ! tb_cy ?b) @ after (Suc (tb_cy ?b)) (tb_lines ?b)"
      using d n(1) s(4) by (simp add: after_def)
  qed
  ultimately show ?thesis by blast
qed

lemma no_selection: "tb_anchor b = None \<Longrightarrow> \<not> tb_has_selection b"
  by (simp add: tb_has_selection_def)

lemma backspace_shown:
  assumes "shown b u v"
  shows "\<exists>b'. tb_backspace b = Some b' \<and> shown b' (butlast u) v"
proof -
  note s = shownE [OF assms]
  let ?l = "tb_lines b ! tb_cy b"
  have c: "tb_cy b < length (tb_lines b)" "tb_cx b \<le> length ?l" using s(1) by (simp_all add: caret_ok_def)
  consider (inside) "tb_cx b > 0" | (join) "tb_cx b = 0" "tb_cy b > 0" | (start) "tb_cx b = 0" "tb_cy b = 0" by auto
  then show ?thesis
  proof cases
    case inside
    let ?b = "b\<lparr>tb_lines := (tb_lines b)[tb_cy b := list_remove (tb_cx b - 1) ?l], tb_cx := tb_cx b - 1\<rparr>"
    have m: "char_at (tb_cy b) (tb_cx b - 1) b = tb_cx b - 1" using c by (simp add: char_at_def)
    have "tb_backspace b = Some ?b"
      using inside by (simp add: tb_backspace_def no_selection [OF s(2)] m [simplified])
    moreover have "butlast u = before (tb_cy b) (tb_lines b) @ take (tb_cx b - 1) ?l"
      using inside c s(3) by (auto simp: butlast_append butlast_take)
    then have "shown ?b (butlast u) v"
      by (intro shownI) (use inside c s in \<open>auto simp: caret_ok_def list_remove_def\<close>)
    ultimately show ?thesis by blast
  next
    case join
    then obtain k where k: "tb_cy b = Suc k" by (cases "tb_cy b") auto
    let ?ls = "(list_remove (tb_cy b) (tb_lines b))[k := tb_lines b ! k @ ?l]"
    let ?b = "b\<lparr>tb_lines := ?ls, tb_cy := k, tb_cx := length (tb_lines b ! k)\<rparr>"
    have n: "list_remove (tb_cy b) (tb_lines b) ! k = tb_lines b ! k" "k < length (list_remove (tb_cy b) (tb_lines b))"
      using k c by (simp_all add: list_remove_def nth_append)
    have "tb_backspace b = Some ?b"
      using join k n by (simp add: tb_backspace_def no_selection [OF s(2)] Let_def tb_cur_len_def)
    moreover have "shown ?b (butlast u) v"
    proof (rule shownI)
      show "caret_ok ?b" "tb_anchor ?b = None" using n s(2) by (simp_all add: caret_ok_def)
      have "before k ?ls = before k (tb_lines b)"
        using k c by (intro before_cong) (simp add: list_remove_def)
      then show "butlast u = before (tb_cy ?b) (tb_lines ?b) @ take (tb_cx ?b) (tb_lines ?b ! tb_cy ?b)"
        using s(3) k n c join by (simp add: before_Suc butlast_append)
      have "after (Suc k) ?ls = after (Suc (tb_cy b)) (tb_lines b)"
        using k c by (intro after_cong) (simp add: list_remove_def)
      then show "v = drop (tb_cx ?b) (tb_lines ?b ! tb_cy ?b) @ after (Suc (tb_cy ?b)) (tb_lines ?b)"
        using s(4) join n by simp
    qed
    ultimately show ?thesis by blast
  next
    case start
    then show ?thesis using s(3) assms by (simp add: tb_backspace_def no_selection [OF s(2)])
  qed
qed

lemma delete_shown:
  assumes "shown b u v"
  shows "\<exists>b'. tb_delete b = Some b' \<and> shown b' u (tl v)"
proof -
  note s = shownE [OF assms]
  let ?l = "tb_lines b ! tb_cy b"
  have c: "tb_cy b < length (tb_lines b)" "tb_cx b \<le> length ?l" using s(1) by (simp_all add: caret_ok_def)
  consider (inside) "tb_cx b < length ?l" | (join) "tb_cx b = length ?l" "Suc (tb_cy b) < length (tb_lines b)"
    | (stop) "tb_cx b = length ?l" "Suc (tb_cy b) = length (tb_lines b)" using c by linarith
  then show ?thesis
  proof cases
    case inside
    let ?b = "b\<lparr>tb_lines := (tb_lines b)[tb_cy b := list_remove (tb_cx b) ?l]\<rparr>"
    have "tb_delete b = Some ?b"
      using inside by (simp add: tb_delete_def no_selection [OF s(2)] char_at_def tb_cur_len_def min_absorb1)
    moreover have "tl v = drop (Suc (tb_cx b)) ?l @ after (Suc (tb_cy b)) (tb_lines b)"
      using inside s(4) by (simp add: Cons_nth_drop_Suc [symmetric])
    then have "shown ?b u (tl v)"
      by (intro shownI) (use inside c s in \<open>auto simp: caret_ok_def list_remove_def\<close>)
    ultimately show ?thesis by blast
  next
    case join
    let ?n = "tb_lines b ! Suc (tb_cy b)"
    let ?ls = "(list_remove (Suc (tb_cy b)) (tb_lines b))[tb_cy b := ?l @ ?n]"
    let ?b = "b\<lparr>tb_lines := ?ls\<rparr>"
    have n: "list_remove (Suc (tb_cy b)) (tb_lines b) ! tb_cy b = ?l" "tb_cy b < length (list_remove (Suc (tb_cy b)) (tb_lines b))"
      using join by (simp_all add: list_remove_def nth_append)
    have "tb_delete b = Some ?b"
      using join n by (simp add: tb_delete_def no_selection [OF s(2)] tb_cur_len_def Let_def)
    moreover have "shown ?b u (tl v)"
    proof (rule shownI)
      show "caret_ok ?b" "tb_anchor ?b = None" using n c s(2) by (simp_all add: caret_ok_def)
      have "before (tb_cy b) ?ls = before (tb_cy b) (tb_lines b)"
        using join by (intro before_cong) (simp add: list_remove_def)
      then show "u = before (tb_cy ?b) (tb_lines ?b) @ take (tb_cx ?b) (tb_lines ?b ! tb_cy ?b)"
        using s(3) n join by simp
      have "after (Suc (tb_cy b)) ?ls = after (Suc (Suc (tb_cy b))) (tb_lines b)"
        using join by (intro after_cong) (simp add: list_remove_def)
      then show "tl v = drop (tb_cx ?b) (tb_lines ?b ! tb_cy ?b) @ after (Suc (tb_cy ?b)) (tb_lines ?b)"
        using s(4) join n by (simp add: after_nth)
    qed
    ultimately show ?thesis by blast
  next
    case stop
    then have "v = []" using s(4) by simp
    then show ?thesis using stop assms by (simp add: tb_delete_def no_selection [OF s(2)] tb_cur_len_def)
  qed
qed

lemma left_shown:
  assumes "shown b u v"
  shows "shown (tb_left b) (butlast u) (drop (length u - 1) u @ v)"
proof -
  note s = shownE [OF assms]
  let ?l = "tb_lines b ! tb_cy b"
  have c: "tb_cy b < length (tb_lines b)" "tb_cx b \<le> length ?l" using s(1) by (simp_all add: caret_ok_def)
  consider (inside) k where "tb_cx b = Suc k" | (join) k where "tb_cx b = 0" "tb_cy b = Suc k" | (start) "tb_cx b = 0" "tb_cy b = 0"
    by (meson not0_implies_Suc)
  then show ?thesis
  proof cases
    case (inside k)
    have e: "tb_left b = b\<lparr>tb_cx := k\<rparr>"
      using inside s(2) by (cases b) (simp add: tb_left_def tb_clear_selection_def Let_def)
    have u: "u = (before (tb_cy b) (tb_lines b) @ take k ?l) @ [?l ! k]"
      using inside c s(3) by (simp add: take_Suc_conv_app_nth)
    show ?thesis unfolding e
      by (rule shownI) (use inside c s(2,4) in \<open>simp_all add: caret_ok_def u butlast_append Cons_nth_drop_Suc [symmetric]\<close>)
  next
    case (join k)
    have e: "tb_left b = b\<lparr>tb_cy := k, tb_cx := length (tb_lines b ! k)\<rparr>"
      using join s(2) by (cases b) (simp add: tb_left_def tb_clear_selection_def Let_def tb_cur_len_def)
    have u: "u = (before k (tb_lines b) @ tb_lines b ! k) @ [NL]" using join c s(3) by (simp add: before_Suc)
    show ?thesis unfolding e
      by (rule shownI) (use join c s(2,4) in \<open>simp_all add: caret_ok_def u after_nth butlast_append\<close>)
  next
    case start
    have "tb_left b = b" using start s(2) by (cases b) (simp add: tb_left_def tb_clear_selection_def Let_def)
    then show ?thesis using assms start s(3) by simp
  qed
qed

lemma right_shown:
  assumes "shown b u v"
  shows "shown (tb_right b) (u @ take 1 v) (tl v)"
proof -
  note s = shownE [OF assms]
  let ?l = "tb_lines b ! tb_cy b"
  have c: "tb_cy b < length (tb_lines b)" "tb_cx b \<le> length ?l" using s(1) by (simp_all add: caret_ok_def)
  consider (inside) "tb_cx b < length ?l" | (join) "tb_cx b = length ?l" "Suc (tb_cy b) < length (tb_lines b)"
    | (stop) "tb_cx b = length ?l" "Suc (tb_cy b) = length (tb_lines b)" using c by linarith
  then show ?thesis
  proof cases
    case inside
    have e: "tb_right b = b\<lparr>tb_cx := Suc (tb_cx b)\<rparr>"
      using inside s(2) by (cases b) (simp add: tb_right_def tb_clear_selection_def Let_def tb_cur_len_def)
    have v: "v = ?l ! tb_cx b # drop (Suc (tb_cx b)) ?l @ after (Suc (tb_cy b)) (tb_lines b)"
      using inside s(4) by (simp add: Cons_nth_drop_Suc [symmetric])
    show ?thesis unfolding e
      by (rule shownI) (use inside c s(2,3) in \<open>simp_all add: caret_ok_def v take_Suc_conv_app_nth\<close>)
  next
    case join
    have e: "tb_right b = b\<lparr>tb_cy := Suc (tb_cy b), tb_cx := 0\<rparr>"
      using join s(2) by (cases b) (simp add: tb_right_def tb_clear_selection_def Let_def tb_cur_len_def)
    show ?thesis unfolding e
      by (rule shownI) (use join c s in \<open>simp_all add: caret_ok_def before_Suc after_nth\<close>)
  next
    case stop
    have "tb_right b = b" using stop s(2) by (cases b) (simp add: tb_right_def tb_clear_selection_def Let_def tb_cur_len_def)
    moreover have "v = []" using stop s(4) by simp
    ultimately show ?thesis using assms by simp
  qed
qed

lemma doc_ends_shown:
  assumes "shown b u v"
  shows "shown (tb_doc_start b) [] (u @ v)" and "shown (tb_doc_end b) (u @ v) []"
proof -
  note s = shownE [OF assms]
  have c: "tb_lines b \<noteq> []" "tb_text b = u @ v" using assms by (auto simp: shown_def caret_ok_def)
  have j: "join_lines (tb_lines b) = u @ v" using c(2) by (simp add: tb_text_def)
  show "shown (tb_doc_start b) [] (u @ v)"
    by (rule shownI)
      (use c(1) s(2) join_at [of 0 "tb_lines b"] in \<open>simp_all add: tb_doc_start_def tb_clear_selection_def caret_ok_def j\<close>)
  show "shown (tb_doc_end b) (u @ v) []"
    by (rule shownI)
      (use c(1) s(2) join_at [of "length (tb_lines b) - 1" "tb_lines b"] in
        \<open>simp_all add: tb_doc_end_def tb_clear_selection_def caret_ok_def j Let_def tb_cur_len_def\<close>)
qed

lemma edit_refines:
  assumes "shown b u v"
  shows "\<exists>b' u' v'. tb_edit e b = Some b' \<and> shown b' u' v' \<and> flat_edit e (u @ v, length u) = (u' @ v', length u')"
proof (cases e)
  case (EInsert c)
  moreover have "flat_edit (EInsert c) (u @ v, length u) = ((u @ [c]) @ v, length (u @ [c]))" by (simp add: list_insert_def)
  ultimately show ?thesis using insert_shown [OF assms, of c] by (metis tb_edit.simps(1))
next
  case ENewline
  moreover have "flat_edit ENewline (u @ v, length u) = ((u @ [NL]) @ v, length (u @ [NL]))" by (simp add: list_insert_def)
  ultimately show ?thesis using newline_shown [OF assms] by (metis tb_edit.simps(2))
next
  case EBackspace
  moreover have "flat_edit EBackspace (u @ v, length u) = (butlast u @ v, length (butlast u))"
    by (auto simp: list_remove_def butlast_conv_take)
  ultimately show ?thesis using backspace_shown [OF assms] by (metis tb_edit.simps(3))
next
  case EDelete
  moreover have "flat_edit EDelete (u @ v, length u) = (u @ tl v, length u)"
    by (cases v) (simp_all add: list_remove_def)
  ultimately show ?thesis using delete_shown [OF assms] by (metis tb_edit.simps(4))
next
  case ELeft
  have "butlast u @ drop (length u - 1) u @ v = u @ v" by (simp add: butlast_conv_take flip: append_assoc)
  then show ?thesis using ELeft left_shown [OF assms] by fastforce
next
  case ERight
  have "(u @ take 1 v) @ tl v = u @ v" by (cases v) simp_all
  moreover have "length (u @ take 1 v) = min (Suc (length u)) (length (u @ v))" by (cases v) simp_all
  ultimately show ?thesis using ERight right_shown [OF assms] by fastforce
next
  case EDocStart
  then show ?thesis using doc_ends_shown(1) [OF assms] by fastforce
next
  case EDocEnd
  then show ?thesis using doc_ends_shown(2) [OF assms] by fastforce
qed

fun tb_edits :: "edit list \<Rightarrow> text_buffer \<Rightarrow> text_buffer option" where
  "tb_edits [] b = Some b"
| "tb_edits (e # es) b = Option.bind (tb_edit e b) (tb_edits es)"

lemma edits_refine:
  assumes "shown b u v"
  shows "\<exists>b' u' v'. tb_edits es b = Some b' \<and> shown b' u' v' \<and> fold flat_edit es (u @ v, length u) = (u' @ v', length u')"
  using assms
proof (induction es arbitrary: b u v)
  case (Cons e es)
  obtain b' u' v' where "tb_edit e b = Some b'" "shown b' u' v'" "flat_edit e (u @ v, length u) = (u' @ v', length u')"
    using edit_refines [OF Cons.prems] by blast
  with Cons.IH show ?case by fastforce
qed auto

lemma new_shown: "shown (tb_new text) [] text"
  by (rule shownI) (use join_at [of 0 "split_lines text"] in \<open>simp_all add: tb_new_def caret_ok_def Let_def\<close>)

section \<open>Selections\<close>

definition pos_ok :: "ustring list \<Rightarrow> pos \<Rightarrow> bool" where
  "pos_ok ls p \<longleftrightarrow> fst p < length ls \<and> snd p \<le> length (ls ! fst p)"

definition buffer_ok :: "text_buffer \<Rightarrow> bool" where
  "buffer_ok b \<longleftrightarrow> pos_ok (tb_lines b) (tb_caret b) \<and> (\<forall>a. tb_anchor b = Some a \<longrightarrow> pos_ok (tb_lines b) a)"

definition text_before :: "ustring list \<Rightarrow> pos \<Rightarrow> ustring" where
  "text_before ls p = before (fst p) ls @ take (snd p) (ls ! fst p)"

definition text_after :: "ustring list \<Rightarrow> pos \<Rightarrow> ustring" where
  "text_after ls p = drop (snd p) (ls ! fst p) @ after (Suc (fst p)) ls"

lemma text_at_pos:
  assumes "pos_ok ls p"
  shows "join_lines ls = text_before ls p @ text_after ls p" and "offset_of ls p = length (text_before ls p)"
  using assms join_at [of "fst p" ls] by (simp_all add: pos_ok_def text_before_def text_after_def offset_of_def)

lemma caret_ok_pos: "caret_ok b \<longleftrightarrow> pos_ok (tb_lines b) (tb_caret b)"
  by (simp add: caret_ok_def pos_ok_def tb_caret_def)

definition sel_start :: "text_buffer \<Rightarrow> pos" where
  "sel_start b = (case tb_selection b of Some (s, e) \<Rightarrow> s | None \<Rightarrow> tb_caret b)"

definition sel_end :: "text_buffer \<Rightarrow> pos" where
  "sel_end b = (case tb_selection b of Some (s, e) \<Rightarrow> e | None \<Rightarrow> tb_caret b)"

lemma sel_ok:
  assumes "buffer_ok b"
  shows "pos_ok (tb_lines b) (sel_start b)" and "pos_ok (tb_lines b) (sel_end b)" and "sel_start b \<le> sel_end b"
  using assms by (auto simp: buffer_ok_def sel_start_def sel_end_def tb_selection_def tb_caret_def Let_def split: option.splits if_splits)

lemma delete_selection_shown:
  assumes "buffer_ok b"
  shows "\<exists>b'. tb_delete_selection b = Some (tb_selection b \<noteq> None, b') \<and>
    shown b' (text_before (tb_lines b) (sel_start b)) (text_after (tb_lines b) (sel_end b))"
proof (cases "tb_selection b")
  case None
  then have "sel_start b = tb_caret b" "sel_end b = tb_caret b" by (simp_all add: sel_start_def sel_end_def)
  moreover have "caret_ok b" using assms by (simp add: buffer_ok_def caret_ok_pos)
  ultimately have "shown (b\<lparr>tb_anchor := None\<rparr>) (text_before (tb_lines b) (sel_start b)) (text_after (tb_lines b) (sel_end b))"
    by (intro shownI) (simp_all add: caret_ok_def text_before_def text_after_def tb_caret_def)
  then show ?thesis using None by (simp add: tb_delete_selection_def)
next
  case (Some se)
  obtain sr sc er ec where se: "se = ((sr, sc), (er, ec))" by (cases se) auto
  have s: "sel_start b = (sr, sc)" "sel_end b = (er, ec)" using Some se by (simp_all add: sel_start_def sel_end_def)
  have ok: "sr < length (tb_lines b)" "sc \<le> length (tb_lines b ! sr)" "er < length (tb_lines b)" "ec \<le> length (tb_lines b ! er)"
      "(sr, sc) \<le> (er, ec)"
    using sel_ok [OF assms] s by (simp_all add: pos_ok_def)
  show ?thesis
  proof (cases "sr = er")
    case True
    let ?ls = "(tb_lines b)[sr := take sc (tb_lines b ! sr) @ drop ec (tb_lines b ! sr)]"
    have "tb_delete_selection b = Some (True, b\<lparr>tb_lines := ?ls, tb_cy := sr, tb_cx := sc, tb_anchor := None\<rparr>)"
      using True ok by (simp add: tb_delete_selection_def Some se char_at_def min_absorb1 Let_def)
    moreover have "shown (b\<lparr>tb_lines := ?ls, tb_cy := sr, tb_cx := sc, tb_anchor := None\<rparr>)
        (text_before (tb_lines b) (sr, sc)) (text_after (tb_lines b) (er, ec))"
      using ok True by (intro shownI) (simp_all add: caret_ok_def text_before_def text_after_def)
    ultimately show ?thesis using Some s by simp
  next
    case False
    then have lt: "sr < er" using ok(5) by (auto simp: less_eq_prod_def)
    let ?ls = "list_insert sr (take sc (tb_lines b ! sr) @ drop ec (tb_lines b ! er)) (take sr (tb_lines b) @ drop (Suc er) (tb_lines b))"
    have n: "?ls ! sr = take sc (tb_lines b ! sr) @ drop ec (tb_lines b ! er)" "sr < length ?ls"
      "take sr ?ls = take sr (tb_lines b)" "drop (Suc sr) ?ls = drop (Suc er) (tb_lines b)"
      using ok lt by (simp_all add: list_insert_def nth_append)
    have "tb_delete_selection b = Some (True, b\<lparr>tb_lines := ?ls, tb_cy := sr, tb_cx := sc, tb_anchor := None\<rparr>)"
      using False ok by (simp add: tb_delete_selection_def Some se Let_def)
    moreover have "shown (b\<lparr>tb_lines := ?ls, tb_cy := sr, tb_cx := sc, tb_anchor := None\<rparr>)
        (text_before (tb_lines b) (sr, sc)) (text_after (tb_lines b) (er, ec))"
      using ok n by (intro shownI)
        (simp_all add: caret_ok_def text_before_def text_after_def before_cong [OF n(3)] after_cong [OF n(4)])
    ultimately show ?thesis using Some s by simp
  qed
qed

lemma before_split: "i \<le> j \<Longrightarrow> before j ls = before i ls @ concat (map (\<lambda>l. l @ [NL]) (drop i (take j ls)))"
proof -
  assume "i \<le> j"
  then have "take j ls = take i ls @ drop i (take j ls)" by (metis append_take_drop_id min_absorb1 take_take)
  then show ?thesis unfolding before_def by (metis concat_append map_append)
qed

lemma selected_rows:
  assumes "sr < er" and "er < length (tb_lines b)" and "sc \<le> length (tb_lines b ! sr)" and "Suc sr \<le> k" and "k \<le> er"
  shows "foldl (\<lambda>out row. Option.bind out (\<lambda>out. map_option (\<lambda>frag. out @ frag) (selected_row b (sr, sc) (er, ec) row)))
      (Some []) [sr..<k] = Some (drop (length (before sr (tb_lines b)) + sc) (before k (tb_lines b)))"
  using assms(4,5)
proof (induction k rule: nat_induct_at_least)
  case base
  then show ?case using assms(1-3) by (simp add: selected_row_def tb_line_len_def before_Suc)
next
  case (Suc k)
  then have k: "sr < k" "k < er" "k < length (tb_lines b)" using assms by auto
  have "selected_row b (sr, sc) (er, ec) k = Some (tb_lines b ! k @ [NL])"
    using k by (simp add: selected_row_def tb_line_len_def)
  moreover have "length (before sr (tb_lines b)) + sc \<le> length (before k (tb_lines b))"
  proof -
    have "before k (tb_lines b) = before (Suc sr) (tb_lines b) @ concat (map (\<lambda>l. l @ [NL]) (drop (Suc sr) (take k (tb_lines b))))"
      using k by (intro before_split) simp
    then show ?thesis using before_Suc [of sr "tb_lines b"] k assms(3) by simp
  qed
  ultimately show ?case using Suc k by (simp add: before_Suc)
qed

lemma selected_text_eq:
  assumes "buffer_ok b"
  shows "\<exists>t. tb_selected_text b = Some t \<and>
    text_before (tb_lines b) (sel_end b) = text_before (tb_lines b) (sel_start b) @ t"
proof (cases "tb_selection b")
  case None
  then show ?thesis by (simp add: tb_selected_text_def sel_start_def sel_end_def)
next
  case (Some se)
  obtain sr sc er ec where se: "se = ((sr, sc), (er, ec))" by (cases se) auto
  have s: "sel_start b = (sr, sc)" "sel_end b = (er, ec)" using Some se by (simp_all add: sel_start_def sel_end_def)
  have ok: "sr < length (tb_lines b)" "sc \<le> length (tb_lines b ! sr)" "er < length (tb_lines b)" "ec \<le> length (tb_lines b ! er)"
      "(sr, sc) \<le> (er, ec)"
    using sel_ok [OF assms] s by (simp_all add: pos_ok_def)
  show ?thesis
  proof (cases "sr = er")
    case True
    then have "take ec (tb_lines b ! sr) = take sc (tb_lines b ! sr) @ take (ec - sc) (drop sc (tb_lines b ! sr))"
      using ok by (metis le_add_diff_inverse less_eq_prod_def linorder_not_less order_less_imp_le prod.sel take_add)
    then show ?thesis using True ok s by (simp add: tb_selected_text_def Some se text_before_def)
  next
    case False
    then have lt: "sr < er" using ok(5) by (auto simp: less_eq_prod_def)
    have r: "selected_row b (sr, sc) (er, ec) er = Some (take ec (tb_lines b ! er))"
      using lt ok by (simp add: selected_row_def)
    have "tb_selected_text b = Some (drop (length (before sr (tb_lines b)) + sc) (before er (tb_lines b)) @ take ec (tb_lines b ! er))"
      using lt selected_rows [OF lt ok(3,2), of er ec] r by (simp add: tb_selected_text_def Some se)
    moreover have "before er (tb_lines b) = (before sr (tb_lines b) @ take sc (tb_lines b ! sr)) @
        drop (length (before sr (tb_lines b)) + sc) (before er (tb_lines b))"
    proof -
      have "before er (tb_lines b) = before (Suc sr) (tb_lines b) @ concat (map (\<lambda>l. l @ [NL]) (drop (Suc sr) (take er (tb_lines b))))"
        using lt by (intro before_split) simp
      then have "take (length (before sr (tb_lines b)) + sc) (before er (tb_lines b)) = before sr (tb_lines b) @ take sc (tb_lines b ! sr)"
        using before_Suc [OF ok(1)] ok(2) by simp
      then show ?thesis by (metis append_take_drop_id)
    qed
    ultimately show ?thesis using s by (simp add: text_before_def)
  qed
qed

section \<open>Editing with a selection\<close>

lemma insert_after_delete:
  assumes "tb_delete_selection b = Some (r, b')" and "tb_anchor b' = None"
  shows "tb_insert c b = tb_insert c b'" and "tb_newline b = tb_newline b'"
  using assms by (simp_all add: tb_insert_def tb_newline_def delete_selection_none)

lemma insert_str_shown: "shown b u v \<Longrightarrow> \<exists>b'. tb_insert_str s b = Some b' \<and> shown b' (u @ s) v"
proof (induction s rule: rev_induct)
  case Nil
  then show ?case by (simp add: tb_insert_str_def)
next
  case (snoc c s)
  then obtain b' where b': "tb_insert_str s b = Some b'" "shown b' (u @ s) v" by blast
  have "tb_insert_str (s @ [c]) b = (if c = NL then tb_newline b' else tb_insert c b')"
    using b'(1) by (simp add: tb_insert_str_def)
  then show ?case using insert_shown [OF b'(2), of c] newline_shown [OF b'(2)] by (cases "c = NL") auto
qed

lemma insert_replaces:
  assumes "buffer_ok b"
  shows "\<exists>b'. tb_insert c b = Some b' \<and>
      shown b' (text_before (tb_lines b) (sel_start b) @ [c]) (text_after (tb_lines b) (sel_end b))"
    and "\<exists>b'. tb_newline b = Some b' \<and>
      shown b' (text_before (tb_lines b) (sel_start b) @ [NL]) (text_after (tb_lines b) (sel_end b))"
proof -
  obtain b1 where b1: "tb_delete_selection b = Some (tb_selection b \<noteq> None, b1)"
      "shown b1 (text_before (tb_lines b) (sel_start b)) (text_after (tb_lines b) (sel_end b))"
    using delete_selection_shown [OF assms(1)] by blast
  have e: "tb_insert c b = tb_insert c b1" "tb_newline b = tb_newline b1"
    using insert_after_delete [OF b1(1)] b1(2) by (simp_all add: shown_def)
  show "\<exists>b'. tb_insert c b = Some b' \<and>
      shown b' (text_before (tb_lines b) (sel_start b) @ [c]) (text_after (tb_lines b) (sel_end b))"
    unfolding e by (rule insert_shown [OF b1(2)])
  show "\<exists>b'. tb_newline b = Some b' \<and>
      shown b' (text_before (tb_lines b) (sel_start b) @ [NL]) (text_after (tb_lines b) (sel_end b))"
    unfolding e by (rule newline_shown [OF b1(2)])
qed

lemma insert_str_replaces:
  assumes "buffer_ok b" and "s \<noteq> []"
  shows "\<exists>b'. tb_insert_str s b = Some b' \<and>
    shown b' (text_before (tb_lines b) (sel_start b) @ s) (text_after (tb_lines b) (sel_end b))"
proof -
  obtain b1 where b1: "tb_delete_selection b = Some (tb_selection b \<noteq> None, b1)"
      "shown b1 (text_before (tb_lines b) (sel_start b)) (text_after (tb_lines b) (sel_end b))"
    using delete_selection_shown [OF assms(1)] by blast
  have e: "tb_insert c b = tb_insert c b1" "tb_newline b = tb_newline b1" for c
    using insert_after_delete [OF b1(1)] b1(2) by (simp_all add: shown_def)
  obtain c cs where "s = c # cs" using assms(2) by (cases s) auto
  then have "tb_insert_str s b = tb_insert_str s b1" by (simp add: tb_insert_str_def e)
  then show ?thesis using insert_str_shown [OF b1(2)] by simp
qed

lemma paste_shown:
  assumes "buffer_ok b"
  shows "\<exists>b'. tb_paste s b = Some b' \<and> (tb_selection b \<noteq> None \<or> s \<noteq> [] \<longrightarrow>
    shown b' (text_before (tb_lines b) (sel_start b) @ s) (text_after (tb_lines b) (sel_end b))) \<and>
    (tb_selection b = None \<and> s = [] \<longrightarrow> b' = b)"
proof -
  obtain b1 where b1: "tb_delete_selection b = Some (tb_selection b \<noteq> None, b1)"
      "shown b1 (text_before (tb_lines b) (sel_start b)) (text_after (tb_lines b) (sel_end b))"
    using delete_selection_shown [OF assms] by blast
  show ?thesis
  proof (cases "tb_selection b \<noteq> None")
    case True
    then show ?thesis using b1(1) insert_str_shown [OF b1(2), of s] by (auto simp: tb_paste_def)
  next
    case False
    then show ?thesis using insert_str_replaces [OF assms] by (cases "s = []") (auto simp: tb_paste_def tb_insert_str_def)
  qed
qed

lemma cut_shown:
  assumes "buffer_ok b"
  shows "if tb_selection b = None then tb_cut b = Some (None, b)
    else \<exists>t b'. tb_cut b = Some (Some t, b') \<and>
      text_before (tb_lines b) (sel_end b) = text_before (tb_lines b) (sel_start b) @ t \<and>
      shown b' (text_before (tb_lines b) (sel_start b)) (text_after (tb_lines b) (sel_end b))"
  using selected_text_eq [OF assms] delete_selection_shown [OF assms] by (auto simp: tb_cut_def tb_copy_def)

lemma shown_ok: "shown b u v \<Longrightarrow> buffer_ok b"
  by (simp add: shown_def buffer_ok_def caret_ok_pos)

section \<open>Events\<close>

datatype ui_event =
  UInsert uchar | UType ustring | UNewline | UBackspace | UDelete | ULeft | URight | UUp | UDown | UHome | UEnd
  | UDocStart | UDocEnd | UNextWord | UPrevWord | USelLeft | USelRight | USelUp | USelDown | USelHome | USelEnd | USelAll
  | UClick int int "int \<times> int" int int | UPress int int "int \<times> int" int int | UDrag int int "int \<times> int" int int
  | UCut | UPaste ustring | USetText ustring | USetCaret nat nat | UBeginSel | UClearSel
  | UDeleteLine | UReplaceNext ustring ustring | UReplaceAll ustring ustring
  | UAddCursor nat nat | UClearCursors | UTypeAll ustring | UClamp | UDeleteSel | UTouch "64 word"

fun ui_step :: "ui_event \<Rightarrow> text_buffer \<Rightarrow> text_buffer option" where
  "ui_step (UInsert c) b = tb_insert c b"
| "ui_step (UType s) b = tb_insert_str s b"
| "ui_step UNewline b = tb_newline b"
| "ui_step UBackspace b = tb_backspace b"
| "ui_step UDelete b = tb_delete b"
| "ui_step ULeft b = Some (tb_left b)"
| "ui_step URight b = Some (tb_right b)"
| "ui_step UUp b = Some (tb_up b)"
| "ui_step UDown b = Some (tb_down b)"
| "ui_step UHome b = Some (tb_home b)"
| "ui_step UEnd b = Some (tb_end b)"
| "ui_step UDocStart b = Some (tb_doc_start b)"
| "ui_step UDocEnd b = Some (tb_doc_end b)"
| "ui_step UNextWord b = Some (tb_next_word b)"
| "ui_step UPrevWord b = Some (tb_prev_word b)"
| "ui_step USelLeft b = Some (tb_select_left b)"
| "ui_step USelRight b = Some (tb_select_right b)"
| "ui_step USelUp b = Some (tb_select_up b)"
| "ui_step USelDown b = Some (tb_select_down b)"
| "ui_step USelHome b = Some (tb_select_home b)"
| "ui_step USelEnd b = Some (tb_select_end b)"
| "ui_step USelAll b = Some (tb_select_all b)"
| "ui_step (UClick x y p w h) b = Some (tb_place_at_pixel x y p w h b)"
| "ui_step (UPress x y p w h) b = Some (tb_begin_select_at_pixel x y p w h b)"
| "ui_step (UDrag x y p w h) b = Some (tb_select_to_pixel x y p w h b)"
| "ui_step UCut b = map_option snd (tb_cut b)"
| "ui_step (UPaste s) b = tb_paste s b"
| "ui_step (USetText s) b = Some (tb_set_text s b)"
| "ui_step (USetCaret r c) b = Some (tb_set_caret r c b)"
| "ui_step UBeginSel b = Some (tb_begin_selection b)"
| "ui_step UClearSel b = Some (tb_clear_selection b)"
| "ui_step UDeleteLine b = Some (tb_delete_line b)"
| "ui_step (UReplaceNext n r) b = Some (snd (tb_replace_next n r b))"
| "ui_step (UReplaceAll n r) b = Some (snd (tb_replace_all n r b))"
| "ui_step (UAddCursor r c) b = Some (tb_add_cursor r c b)"
| "ui_step UClearCursors b = Some (tb_clear_extra_cursors b)"
| "ui_step (UTypeAll s) b = tb_insert_str_all s b"
| "ui_step UClamp b = Some (tb_clamp b)"
| "ui_step UDeleteSel b = map_option snd (tb_delete_selection b)"
| "ui_step (UTouch now) b = Some (tb_touch now b)"

definition moves :: "text_buffer \<Rightarrow> text_buffer \<Rightarrow> bool" where
  "moves b b' \<longleftrightarrow> tb_lines b' = tb_lines b \<and> pos_ok (tb_lines b') (tb_caret b')"

lemmas caret_defs = moves_def pos_ok_def tb_caret_def tb_clear_selection_def tb_cur_len_def Let_def

lemma skip_while_le: "i \<le> length cs \<Longrightarrow> skip_while p cs i \<le> length cs"
  using length_takeWhile_le [of p "drop i cs"] by simp

lemma skip_back_le: "skip_back_while p cs i \<le> i"
  by (induction i) (auto simp: le_Suc_eq)

lemma motions_move:
  assumes "pos_ok (tb_lines b) (tb_caret b)"
  shows "moves b (tb_left b)" "moves b (tb_right b)" "moves b (tb_up b)" "moves b (tb_down b)" "moves b (tb_home b)"
    "moves b (tb_end b)" "moves b (tb_doc_start b)" "moves b (tb_doc_end b)"
    "moves b (tb_place_at_pixel x y p w h b)" "moves b (tb_set_caret r c b)"
  using assms
  by (auto simp: tb_left_def tb_right_def tb_up_def tb_down_def tb_home_def tb_end_def tb_doc_start_def tb_doc_end_def
      tb_place_at_pixel_def tb_set_caret_def caret_defs)

lemma prev_word_moves:
  assumes "pos_ok (tb_lines b) (tb_caret b)"
  shows "moves b (tb_prev_word b)"
proof -
  have "i \<le> n \<Longrightarrow> skip_back_while p cs (skip_back_while q cs i) \<le> n" for p q cs i n
    using skip_back_le [of p cs "skip_back_while q cs i"] skip_back_le [of q cs i] by linarith
  then show ?thesis using assms by (auto simp: tb_prev_word_def caret_defs)
qed

lemma next_word_moves:
  assumes "pos_ok (tb_lines b) (tb_caret b)"
  shows "moves b (tb_next_word b)"
  using assms skip_while_le [of 0] by (auto simp: tb_next_word_def caret_defs simp del: skip_while.simps)

lemma motions_clear:
  "tb_anchor (tb_left b) = None" "tb_anchor (tb_right b) = None" "tb_anchor (tb_up b) = None" "tb_anchor (tb_down b) = None"
  "tb_anchor (tb_home b) = None" "tb_anchor (tb_end b) = None" "tb_anchor (tb_doc_start b) = None" "tb_anchor (tb_doc_end b) = None"
  "tb_anchor (tb_prev_word b) = None" "tb_anchor (tb_next_word b) = None" "tb_anchor (tb_place_at_pixel x y p w h b) = None"
  by (simp_all add: tb_left_def tb_right_def tb_up_def tb_down_def tb_home_def tb_end_def tb_doc_start_def tb_doc_end_def
      tb_prev_word_def tb_next_word_def tb_place_at_pixel_def tb_clear_selection_def Let_def)

lemma moves_ok: "moves b b' \<Longrightarrow> (\<And>a. tb_anchor b' = Some a \<Longrightarrow> pos_ok (tb_lines b) a) \<Longrightarrow> buffer_ok b'"
  by (auto simp: moves_def buffer_ok_def)

lemma begin_selection_ok:
  assumes "buffer_ok b"
  shows "buffer_ok (tb_begin_selection b)" and "tb_lines (tb_begin_selection b) = tb_lines b"
    and "\<exists>a. tb_anchor (tb_begin_selection b) = Some a \<and> pos_ok (tb_lines b) a"
  using assms by (cases "tb_anchor b"; auto simp: tb_begin_selection_def buffer_ok_def tb_caret_def)+

lemma shift_move_ok:
  assumes "buffer_ok b" and "\<And>c. pos_ok (tb_lines c) (tb_caret c) \<Longrightarrow> moves c (motion c)"
  shows "buffer_ok (tb_shift_move motion b)"
proof -
  let ?c = "tb_begin_selection b"
  have "moves ?c (motion ?c)" using assms(2) begin_selection_ok(1) [OF assms(1)] by (simp add: buffer_ok_def)
  then show ?thesis
    using begin_selection_ok [OF assms(1)] by (auto simp: tb_shift_move_def Let_def moves_def buffer_ok_def tb_caret_def)
qed

lemma set_text_ok: "buffer_ok (tb_set_text s b)"
  by (auto simp: tb_set_text_def tb_clamp_def buffer_ok_def pos_ok_def tb_caret_def tb_cur_len_def Let_def)

lemma anchor_at_caret: "\<not> tb_has_selection b \<Longrightarrow> tb_anchor b = Some a \<Longrightarrow> a = tb_caret b"
  by (simp add: tb_has_selection_def tb_caret_def)

lemma has_selection_iff: "tb_has_selection b \<longleftrightarrow> tb_selection b \<noteq> None"
  by (auto simp: tb_has_selection_def tb_selection_def Let_def split: option.splits)

lemma delete_selection_ok:
  assumes "buffer_ok b"
  shows "\<exists>b'. map_option snd (tb_delete_selection b) = Some b' \<and> buffer_ok b'"
proof (cases "tb_has_selection b")
  case True
  then show ?thesis using delete_selection_shown [OF assms] shown_ok by auto
next
  case False
  then have "tb_selection b = None" using has_selection_iff by blast
  then have "tb_delete_selection b = Some (False, b\<lparr>tb_anchor := None\<rparr>)" by (simp add: tb_delete_selection_def)
  then show ?thesis using assms by (auto simp: buffer_ok_def tb_caret_def)
qed

lemma copy_ok: "buffer_ok b \<Longrightarrow> tb_copy b \<noteq> None"
  using cut_shown [of b] by (cases "tb_copy b"; cases "tb_selection b") (auto simp: tb_cut_def tb_copy_def)

lemma delete_ok:
  assumes "buffer_ok b"
  shows "\<exists>b'. tb_delete b = Some b' \<and> buffer_ok b'"
proof (cases "tb_has_selection b")
  case True
  then show ?thesis using delete_selection_shown [OF assms] shown_ok by (auto simp: tb_delete_def)
next
  case False
  let ?c = "b\<lparr>tb_anchor := None\<rparr>"
  have "shown ?c (text_before (tb_lines b) (tb_caret b)) (text_after (tb_lines b) (tb_caret b))"
    using assms by (intro shownI) (simp_all add: buffer_ok_def caret_ok_def pos_ok_def text_before_def text_after_def tb_caret_def)
  from delete_shown [OF this] obtain c' where c': "tb_delete ?c = Some c'" "buffer_ok c'" using shown_ok by blast
  have f: "\<not> tb_has_selection ?c" by (simp add: tb_has_selection_def)
  have "tb_delete b = Some (c'\<lparr>tb_anchor := tb_anchor b\<rparr>) \<and> tb_caret c' = tb_caret b"
    using c'(1) False f by (cases b) (auto simp: tb_delete_def char_at_def tb_cur_len_def tb_caret_def Let_def split: if_splits)
  then show ?thesis using c'(2) anchor_at_caret [OF False] by (auto simp: buffer_ok_def tb_caret_def)
qed

lemma backspace_ok:
  assumes "buffer_ok b" and "tb_anchor b \<noteq> Some (tb_caret b)"
  shows "\<exists>b'. tb_backspace b = Some b' \<and> buffer_ok b'"
proof (cases "tb_anchor b")
  case None
  then have "shown b (text_before (tb_lines b) (tb_caret b)) (text_after (tb_lines b) (tb_caret b))"
    using assms by (intro shownI) (simp_all add: buffer_ok_def caret_ok_def pos_ok_def text_before_def text_after_def tb_caret_def)
  from backspace_shown [OF this] show ?thesis using shown_ok by blast
next
  case (Some a)
  then have "tb_has_selection b" using assms(2) by (simp add: tb_has_selection_def tb_caret_def)
  then show ?thesis using delete_selection_shown [OF assms(1)] shown_ok by (auto simp: tb_backspace_def)
qed

text \<open>Operations that change lines and leave the anchor alone.\<close>

lemma unanchored_ok: "tb_anchor b = None \<Longrightarrow> pos_ok (tb_lines b) (tb_caret b) \<Longrightarrow> buffer_ok b"
  by (simp add: buffer_ok_def)

lemma lines_nonempty: "buffer_ok b \<Longrightarrow> tb_lines b \<noteq> []"
  by (auto simp: buffer_ok_def pos_ok_def)

lemma clamp_ok: "tb_lines b \<noteq> [] \<Longrightarrow> pos_ok (tb_lines (tb_clamp b)) (tb_caret (tb_clamp b)) \<and>
    tb_lines (tb_clamp b) = tb_lines b \<and> tb_anchor (tb_clamp b) = tb_anchor b"
  by (auto simp: tb_clamp_def pos_ok_def tb_caret_def tb_cur_len_def Let_def)

lemma set_caret_ok: "tb_lines b \<noteq> [] \<Longrightarrow> pos_ok (tb_lines (tb_set_caret r c b)) (tb_caret (tb_set_caret r c b)) \<and>
    tb_lines (tb_set_caret r c b) = tb_lines b \<and> tb_anchor (tb_set_caret r c b) = tb_anchor b"
  by (cases "tb_lines b") (auto simp: tb_set_caret_def pos_ok_def tb_caret_def tb_cur_len_def Let_def min_less_iff_disj)

lemma set_caret_buffer_ok: "buffer_ok b \<Longrightarrow> buffer_ok (tb_set_caret r c b)"
  using set_caret_ok [OF lines_nonempty, of b r c] unfolding buffer_ok_def by metis

lemma delete_line_ok: "buffer_ok b \<Longrightarrow> tb_anchor b = None \<Longrightarrow> buffer_ok (tb_delete_line b)"
  by (intro unanchored_ok)
    (auto simp: tb_delete_line_def list_remove_def buffer_ok_def pos_ok_def tb_caret_def tb_cur_len_def Let_def)

lemma replace_next_ok:
  assumes "buffer_ok b" and "tb_anchor b = None"
  shows "buffer_ok (snd (tb_replace_next needle rep b))"
proof (cases "tb_find_from needle (tb_cy b, tb_cx b) b")
  case (Some p)
  define c where "c = b\<lparr>tb_lines := (tb_lines b)[fst p := take (snd p) (tb_lines b ! fst p) @ rep @
    drop (snd p + length needle) (tb_lines b ! fst p)]\<rparr>"
  have "tb_lines c \<noteq> []" "tb_anchor c = None" using lines_nonempty [OF assms(1)] assms(2) by (simp_all add: c_def)
  moreover have "snd (tb_replace_next needle rep b) = tb_set_caret (fst p) (snd p + length rep) c"
    using Some by (cases p) (simp add: tb_replace_next_def c_def Let_def)
  ultimately show ?thesis using set_caret_ok [of c "fst p" "snd p + length rep"] by (auto intro!: unanchored_ok)
qed (use assms in \<open>simp add: tb_replace_next_def\<close>)

lemma replace_rows_length:
  "length (fst (foldl (\<lambda>(lines, count) row.
      let (chars, count) = replace_loop needle rep (lines ! row) 0 count in (lines[row := chars], count)) st rows)) = length (fst st)"
  by (induction rows arbitrary: st) (auto simp: Let_def split: prod.splits)

lemma replace_all_ok:
  assumes "buffer_ok b" and "tb_anchor b = None"
  shows "buffer_ok (snd (tb_replace_all needle rep b))"
proof (cases "needle = []")
  case False
  define st where "st = foldl (\<lambda>(lines, count) row.
      let (chars, count) = replace_loop needle rep (lines ! row) 0 count in (lines[row := chars], count)) (tb_lines b, 0) [0..<length (tb_lines b)]"
  have "length (fst st) = length (tb_lines b)" unfolding st_def by (subst replace_rows_length) simp
  then have "fst st \<noteq> []" using lines_nonempty [OF assms(1)] by auto
  moreover have "snd (tb_replace_all needle rep b) = tb_clamp (b\<lparr>tb_lines := fst st\<rparr>)"
    unfolding tb_replace_all_def if_not_P [OF False] st_def [symmetric] by (cases st) simp
  ultimately show ?thesis using clamp_ok [of "b\<lparr>tb_lines := fst st\<rparr>"] assms(2) by (auto intro!: unanchored_ok)
qed (use assms in \<open>simp add: tb_replace_all_def\<close>)

lemma insert_str_ok:
  assumes "buffer_ok b"
  shows "\<exists>b'. tb_insert_str s b = Some b' \<and> buffer_ok b'"
  using insert_str_replaces [OF assms, of s] shown_ok assms by (cases "s = []") (auto simp: tb_insert_str_def)

lemma insert_carets_ok:
  assumes "buffer_ok b"
  shows "\<exists>b' x. foldl (\<lambda>st p. Option.bind st (insert_at_caret s p)) (Some (b, y)) ps = Some (b', x) \<and> buffer_ok b'"
  using assms
proof (induction ps arbitrary: b y)
  case (Cons p ps)
  obtain row col cur shift upd where p: "p = (row, col)" "y = (cur, shift, upd)" by (cases p; cases y) auto
  let ?shift = "if Some row \<noteq> cur then 0 else shift"
  have "buffer_ok (tb_set_caret row (col + ?shift) b)"
    by (rule set_caret_buffer_ok [OF Cons.prems])
  from insert_str_ok [OF this, of s]
  obtain b' where b': "tb_insert_str s (tb_set_caret row (col + ?shift) b) = Some b'" "buffer_ok b'" by blast
  then have "\<exists>z. insert_at_caret s p (b, y) = Some (b', z)"
    by (cases "Some row = cur") (auto simp: insert_at_caret_def p Let_def)
  then show ?case using Cons.IH [OF b'(2)] by auto
qed auto

lemma insert_str_all_ok:
  assumes "buffer_ok b"
  shows "\<exists>b'. tb_insert_str_all s b = Some b' \<and> buffer_ok b'"
proof (cases "NL \<in> set s")
  case False
  obtain b1 cur shift upd where b1: "foldl (\<lambda>st p. Option.bind st (insert_at_caret s p)) (Some (b, None, 0, [])) (tb_cursors b)
      = Some (b1, cur, shift, upd)" "buffer_ok b1"
    using insert_carets_ok [OF assms, of s "(None, 0, [])" "tb_cursors b"] by auto
  let ?b2 = "(case upd of [] \<Rightarrow> b1 | (r, c) # _ \<Rightarrow> b1\<lparr>tb_cy := r, tb_cx := c\<rparr>)\<lparr>tb_extra := drop 1 upd\<rparr>"
  have same: "tb_lines ?b2 = tb_lines b1" "tb_anchor ?b2 = tb_anchor b1" by (auto split: list.splits)
  have "tb_insert_str_all s b = Some (tb_clamp ?b2)" using False b1(1) by (simp add: tb_insert_str_all_def Let_def)
  moreover have "buffer_ok (tb_clamp ?b2)"
    using clamp_ok [of ?b2] b1(2) lines_nonempty [OF b1(2)] unfolding buffer_ok_def same by auto
  ultimately show ?thesis by blast
qed (use assms in \<open>simp add: tb_insert_str_all_def\<close>)

text \<open>
  Where the code relies on the caller: backspace with the anchor of an empty selection at the caret, and the three
  operations that rewrite lines without looking at the anchor.
\<close>

definition safe_event :: "ui_event \<Rightarrow> text_buffer \<Rightarrow> bool" where
  "safe_event e b \<longleftrightarrow>
    (case e of
       UBackspace \<Rightarrow> tb_anchor b \<noteq> Some (tb_caret b)
     | UDeleteLine \<Rightarrow> tb_anchor b = None
     | UReplaceNext _ _ \<Rightarrow> tb_anchor b = None
     | UReplaceAll _ _ \<Rightarrow> tb_anchor b = None
     | _ \<Rightarrow> True)"

lemma ui_step_ok:
  assumes "buffer_ok b" and "safe_event e b"
  shows "\<exists>b'. ui_step e b = Some b' \<and> buffer_ok b'"
proof -
  have c: "pos_ok (tb_lines b) (tb_caret b)" using assms(1) by (simp add: buffer_ok_def)
  note mv = motions_move [OF c] prev_word_moves [OF c] next_word_moves [OF c]
  note go = mv [THEN moves_ok]
  note sh = shift_move_ok [OF assms(1) motions_move(1)] shift_move_ok [OF assms(1) motions_move(2)] shift_move_ok [OF assms(1) motions_move(3)]
    shift_move_ok [OF assms(1) motions_move(4)] shift_move_ok [OF assms(1) motions_move(5)] shift_move_ok [OF assms(1) motions_move(6)]
  show ?thesis
  proof (cases e)
    case (UInsert ch)
    then show ?thesis using insert_replaces(1) [OF assms(1)] shown_ok by fastforce
  next
    case (UType s)
    then show ?thesis using insert_str_ok [OF assms(1), of s] by simp
  next
    case UBeginSel
    then show ?thesis using begin_selection_ok(1) [OF assms(1)] by simp
  next
    case (UAddCursor r k)
    then show ?thesis using assms(1) by (auto simp: tb_add_cursor_def buffer_ok_def tb_caret_def)
  next
    case (UTypeAll s)
    then show ?thesis using insert_str_all_ok [OF assms(1), of s] by simp
  next
    case UClamp
    then show ?thesis using clamp_ok [OF lines_nonempty [OF assms(1)]] assms(1) by (auto simp: buffer_ok_def)
  next
    case UDeleteSel
    then show ?thesis using delete_selection_ok [OF assms(1)] by simp
  next
    case (UTouch now)
    then show ?thesis using assms(1) by (simp add: tb_touch_def buffer_ok_def tb_caret_def)
  next
    case UNewline
    then show ?thesis using insert_replaces(2) [OF assms(1)] shown_ok by fastforce
  next
    case USelAll
    then show ?thesis using c by (auto simp: tb_select_all_def buffer_ok_def pos_ok_def tb_caret_def tb_cur_len_def Let_def)
  next
    case (UPress x y p w h)
    then show ?thesis using mv(9) [of x y p w h]
      by (auto simp: tb_begin_select_at_pixel_def Let_def moves_def buffer_ok_def tb_caret_def)
  next
    case (UDrag x y p w h)
    then show ?thesis using mv(9) [of x y p w h] assms(1)
      by (cases "tb_anchor b") (auto simp: tb_select_to_pixel_def Let_def moves_def buffer_ok_def tb_caret_def)
  next
    case UCut
    then show ?thesis using cut_shown [OF assms(1)] shown_ok assms(1) by (cases "tb_selection b = None") auto
  next
    case (UPaste s)
    then show ?thesis using paste_shown [OF assms(1), of s] shown_ok assms(1) by auto
  next
    case (USetCaret r k)
    then show ?thesis using mv(10) [of r k] assms(1) by (auto simp: tb_set_caret_def Let_def moves_def buffer_ok_def tb_caret_def)
  qed (use go sh motions_clear delete_ok [OF assms(1)] backspace_ok [OF assms(1)] assms set_text_ok
      delete_line_ok replace_next_ok replace_all_ok in
      \<open>simp_all add: safe_event_def tb_clear_selection_def tb_clear_extra_cursors_def buffer_ok_def tb_caret_def tb_select_left_def tb_select_right_def tb_select_up_def tb_select_down_def tb_select_home_def tb_select_end_def\<close>)
qed

inductive edited :: "text_buffer \<Rightarrow> bool" where
  opened: "edited (tb_new t)"
| event: "edited b \<Longrightarrow> safe_event e b \<Longrightarrow> ui_step e b = Some b' \<Longrightarrow> edited b'"

lemma edited_ok: "edited b \<Longrightarrow> buffer_ok b"
proof (induction rule: edited.induct)
  case (opened t)
  show ?case by (rule shown_ok [OF new_shown])
next
  case (event b e b')
  then show ?case using ui_step_ok by fastforce
qed

section \<open>Search\<close>

definition occurs :: "ustring \<Rightarrow> ustring list \<Rightarrow> pos \<Rightarrow> bool" where
  "occurs needle ls p \<longleftrightarrow> fst p < length ls \<and> snd p + length needle \<le> length (ls ! fst p) \<and>
    slice (snd p) (length needle) (ls ! fst p) = needle"

lemma find_upt_Some: "List.find P [i..<j] = Some k \<longleftrightarrow> i \<le> k \<and> k < j \<and> P k \<and> (\<forall>m. i \<le> m \<and> m < k \<longrightarrow> \<not> P m)"
proof -
  have "List.find P [i..<j] = Some k \<longleftrightarrow> (\<exists>n. n < j - i \<and> P (i + n) \<and> k = i + n \<and> (\<forall>m < n. \<not> P (i + m)))"
    by (auto simp: find_Some_iff)
  also have "\<dots> \<longleftrightarrow> i \<le> k \<and> k < j \<and> P k \<and> (\<forall>m. i \<le> m \<and> m < k \<longrightarrow> \<not> P m)" (is "?l \<longleftrightarrow> ?r")
  proof
    assume ?r
    then show ?l by (intro exI [of _ "k - i"]) auto
  next
    assume ?l
    then obtain n where n: "n < j - i" "P (i + n)" "k = i + n" "\<forall>m < n. \<not> P (i + m)" by blast
    have "\<not> P m" if "i \<le> m" "m < k" for m
    proof -
      have "m - i < n" "i + (m - i) = m" using that n(3) by auto
      then show ?thesis using n(4) by metis
    qed
    then show ?r using n(1-3) by auto
  qed
  finally show ?thesis .
qed

lemma find_in_line_Some:
  "find_in_line needle line k = Some c \<longleftrightarrow>
   k \<le> c \<and> c + length needle \<le> length line \<and> slice c (length needle) line = needle \<and>
   (\<forall>m. k \<le> m \<and> m < c \<longrightarrow> slice m (length needle) line \<noteq> needle)"
  by (auto simp: find_in_line_def find_upt_Some less_Suc_eq_le le_diff_conv2 simp del: upt_Suc)

lemma find_in_line_None:
  "find_in_line needle line k = None \<longleftrightarrow>
   (\<forall>c. k \<le> c \<and> c + length needle \<le> length line \<longrightarrow> slice c (length needle) line \<noteq> needle)"
  by (auto simp: find_in_line_def find_None_iff less_Suc_eq_le le_diff_conv2 simp del: upt_Suc)

lemma find_rows_first:
  assumes "fst start \<le> k"
  shows "(case find_rows needle ls start [k..<length ls] of
      Some p \<Rightarrow> occurs needle ls p \<and> (k, if k = fst start then snd start else 0) \<le> p \<and>
        (\<forall>q. occurs needle ls q \<and> (k, if k = fst start then snd start else 0) \<le> q \<longrightarrow> p \<le> q)
    | None \<Rightarrow> \<forall>q. \<not> (occurs needle ls q \<and> (k, if k = fst start then snd start else 0) \<le> q))"
  using assms
proof (induction "length ls - k" arbitrary: k)
  case 0
  then show ?case by (auto simp: occurs_def less_eq_prod_def)
next
  case (Suc n)
  then have k: "k < length ls" by simp
  let ?from = "\<lambda>k. (k, if k = fst start then snd start else 0)"
  have IH: "case find_rows needle ls start [Suc k..<length ls] of
      Some p \<Rightarrow> occurs needle ls p \<and> ?from (Suc k) \<le> p \<and> (\<forall>q. occurs needle ls q \<and> ?from (Suc k) \<le> q \<longrightarrow> p \<le> q)
    | None \<Rightarrow> \<forall>q. \<not> (occurs needle ls q \<and> ?from (Suc k) \<le> q)"
    using Suc by auto
  have row: "find_rows needle ls start [k..<length ls] =
      (case find_in_line needle (ls ! k) (snd (?from k)) of Some col \<Rightarrow> Some (k, col) | None \<Rightarrow> find_rows needle ls start [Suc k..<length ls])"
    using k by (simp add: upt_conv_Cons)
  show ?case
  proof (cases "find_in_line needle (ls ! k) (snd (?from k))")
    case (Some c)
    then have "occurs needle ls (k, c)" "?from k \<le> (k, c)"
      using k by (auto simp: find_in_line_Some occurs_def less_eq_prod_def)
    moreover have "(k, c) \<le> q" if "occurs needle ls q" "?from k \<le> q" for q
      using that Some by (cases q) (force simp: find_in_line_Some occurs_def less_eq_prod_def not_less)
    ultimately show ?thesis unfolding row using Some by simp
  next
    case None
    have skip: "?from (Suc k) \<le> q" if "occurs needle ls q" "?from k \<le> q" for q
    proof -
      have "fst q \<noteq> k" using that None by (cases q) (auto simp: find_in_line_None occurs_def less_eq_prod_def)
      then show ?thesis using that(2) Suc.prems by (cases q) (auto simp: less_eq_prod_def)
    qed
    have weaken: "?from k \<le> q" if "?from (Suc k) \<le> q" for q
      using that by (cases q) (auto simp: less_eq_prod_def)
    have both: "occurs needle ls q \<and> ?from (Suc k) \<le> q \<longleftrightarrow> occurs needle ls q \<and> ?from k \<le> q" for q
      using skip weaken by blast
    show ?thesis unfolding row None
      using IH both by (cases "find_rows needle ls start [Suc k..<length ls]") (simp_all only: option.case, blast+)
  qed
qed

lemma find_from_first:
  "needle \<noteq> [] \<Longrightarrow>
   (case tb_find_from needle start b of
      Some p \<Rightarrow> occurs needle (tb_lines b) p \<and> start \<le> p \<and> (\<forall>q. occurs needle (tb_lines b) q \<and> start \<le> q \<longrightarrow> p \<le> q)
    | None \<Rightarrow> \<forall>q. \<not> (occurs needle (tb_lines b) q \<and> start \<le> q))"
  using find_rows_first [of start "fst start" needle "tb_lines b"] by (simp add: tb_find_from_def cong: option.case_cong)

fun replaced :: "ustring \<Rightarrow> ustring \<Rightarrow> ustring \<Rightarrow> ustring" where
  "replaced needle rep [] = []"
| "replaced needle rep (c # cs) =
    (if needle \<noteq> [] \<and> take (length needle) (c # cs) = needle
     then rep @ replaced needle rep (drop (length needle - 1) cs)
     else c # replaced needle rep cs)"

lemma replace_loop_eq:
  assumes "needle \<noteq> []" and "col \<le> length chars"
  shows "fst (replace_loop needle rep chars col count) = take col chars @ replaced needle rep (drop col chars)"
  using assms
proof (induction needle rep chars col count rule: replace_loop.induct)
  case (1 needle rep chars col count)
  have short: "replaced needle rep xs = xs" if "length xs < length needle" for xs
    using that by (induction xs) (auto dest: arg_cong [of _ _ length])
  show ?case
  proof (cases "col + length needle \<le> length chars")
    case False
    then have "length (drop col chars) < length needle" using 1(4) by simp
    then show ?thesis using short [of "drop col chars"] False by (simp add: replace_loop.simps)
  next
    case True
    then have ne: "drop col chars \<noteq> []" using 1(3) by (cases needle) auto
    then obtain c cs where cs: "drop col chars = c # cs" by (cases "drop col chars") auto
    show ?thesis
    proof (cases "slice col (length needle) chars = needle")
      case match: True
      have "drop (length needle - 1) cs = drop (col + length needle) chars"
        using cs 1(3) by (metis One_nat_def add.commute drop_Suc_Cons drop_drop length_greater_0_conv Suc_pred)
      then show ?thesis using True match 1 cs by (simp add: replace_loop.simps [of needle rep chars col count] slice_def)
    next
      case nomatch: False
      have lt: "col < length chars" using ne by simp
      then have "take (Suc col) chars = take col chars @ [c]" by (simp add: take_Suc_conv_app_nth nth_via_drop [OF cs])
      moreover have "drop (Suc col) chars = cs" using cs by (metis list.sel(3) tl_drop drop_Suc)
      ultimately show ?thesis using True nomatch 1 cs lt by (simp add: replace_loop.simps [of needle rep chars col count] slice_def)
    qed
  qed
qed

lemma replace_rows:
  assumes "needle \<noteq> []" and "k \<le> length ls"
  shows "fst (foldl (\<lambda>(ls, count) row. let (chars, count) = replace_loop needle rep (ls ! row) 0 count in (ls[row := chars], count))
      (ls, n) [0..<k]) = map (replaced needle rep) (take k ls) @ drop k ls"
  using assms(2)
proof (induction k)
  case (Suc k)
  let ?f = "\<lambda>(ls, count) row. let (chars, count) = replace_loop needle rep (ls ! row) 0 count in (ls[row := chars], count)"
  obtain ls' m where e: "foldl ?f (ls, n) [0..<k] = (ls', m)" by fastforce
  then have ls': "ls' = map (replaced needle rep) (take k ls) @ drop k ls" using Suc by simp
  then have "ls' ! k = ls ! k" using Suc.prems by (simp add: nth_append)
  then have "fst (replace_loop needle rep (ls' ! k) 0 m) = replaced needle rep (ls ! k)"
    using replace_loop_eq [OF assms(1), of 0] by simp
  then have "fst (foldl ?f (ls, n) [0..<Suc k]) = ls'[k := replaced needle rep (ls ! k)]"
    using e by (simp add: Let_def split: prod.splits) (metis fst_conv)
  also have "\<dots> = map (replaced needle rep) (take (Suc k) ls) @ drop (Suc k) ls"
    using Suc.prems ls' by (simp add: list_update_append take_Suc_conv_app_nth Cons_nth_drop_Suc [symmetric])
  finally show ?case .
qed simp

section \<open>Properties\<close>

text \<open>
  C36: Editing in lines is editing of one flat text at an offset: typing, line breaks, backspace and delete with
  their joining of lines, and moving left, right and to the ends of the document, in any order from a freshly opened
  text, never fail and leave exactly the text and caret offset that the same edits leave on the flat string.
\<close>

theorem text_edits_refine_flat:
  "\<exists>b. tb_edits es (tb_new text) = Some b \<and> (tb_text b, tb_offset b) = fold flat_edit es (text, 0)"
proof -
  have "\<exists>b u v. tb_edits es (tb_new text) = Some b \<and> shown b u v \<and> fold flat_edit es (text, 0) = (u @ v, length u)"
    using edits_refine [OF new_shown] by fastforce
  then show ?thesis by (fastforce simp: shown_def)
qed

text \<open>
  C39: A selection is the range of text between anchor and caret: cutting returns exactly that range, leaves exactly
  the text around it with the caret at the seam, and pasting what was cut restores the text.
\<close>

theorem cut_paste_restores:
  assumes "buffer_ok b" and "tb_selection b = Some (s, e)"
  shows "\<exists>t b' b''. tb_cut b = Some (Some t, b') \<and>
    tb_text b = take (offset_of (tb_lines b) s) (tb_text b) @ t @ drop (offset_of (tb_lines b) e) (tb_text b) \<and>
    tb_text b' = take (offset_of (tb_lines b) s) (tb_text b) @ drop (offset_of (tb_lines b) e) (tb_text b) \<and>
    tb_offset b' = offset_of (tb_lines b) s \<and> tb_paste t b' = Some b'' \<and> tb_text b'' = tb_text b"
proof -
  let ?u = "text_before (tb_lines b) s" and ?v = "text_after (tb_lines b) e"
  have se: "sel_start b = s" "sel_end b = e" using assms(2) by (simp_all add: sel_start_def sel_end_def)
  note ok = sel_ok [OF assms(1), unfolded se]
  obtain t b' where c: "tb_cut b = Some (Some t, b')" "text_before (tb_lines b) e = ?u @ t" "shown b' ?u ?v"
    using cut_shown [OF assms(1)] assms(2) unfolding se by auto
  have t: "tb_text b = ?u @ t @ ?v" using text_at_pos(1) [OF ok(2)] c(2) by (simp add: tb_text_def)
  have "take (offset_of (tb_lines b) s) (tb_text b) = ?u" using text_at_pos [OF ok(1)] by (simp add: tb_text_def)
  moreover have "drop (offset_of (tb_lines b) e) (tb_text b) = ?v" using text_at_pos [OF ok(2)] by (simp add: tb_text_def)
  moreover obtain b'' where "tb_paste t b' = Some b''" "shown b'' (?u @ t) ?v"
  proof -
    have "tb_selection b' = None" using c(3) by (simp add: shown_def tb_selection_def)
    then show ?thesis using that insert_str_shown [OF c(3), of t] by (auto simp: tb_paste_def)
  qed
  moreover have "tb_offset b' = offset_of (tb_lines b) s" using c(3) text_at_pos(2) [OF ok(1)] by (simp add: shown_def)
  ultimately show ?thesis using c(1,3) t by (auto simp: shown_def)
qed

theorem cut_paste_restores_witness:
  "let b = (tb_new [97, 98, 10, 99])\<lparr>tb_cy := 1, tb_cx := 0, tb_anchor := Some (0, 1)\<rparr> in
    tb_selection b = Some ((0, 1), (1, 0)) \<and>
    (\<exists>t b' b''. tb_cut b = Some (Some t, b') \<and> tb_text b' = [97, 99] \<and> tb_paste t b' = Some b'' \<and> tb_text b'' = [97, 98, 10, 99])"
proof -
  let ?b = "(tb_new [97, 98, 10, 99])\<lparr>tb_cy := 1, tb_cx := 0, tb_anchor := Some (0, 1)\<rparr>"
  have b: "buffer_ok ?b" "tb_selection ?b = Some ((0, 1), (1, 0))" "tb_text ?b = [97, 98, 10, 99]"
      "offset_of (tb_lines ?b) (0, 1) = 1" "offset_of (tb_lines ?b) (1, 0) = 3"
    by (simp_all add: buffer_ok_def pos_ok_def tb_new_def tb_caret_def tb_selection_def Let_def less_eq_prod_def tb_text_def
        offset_of_def before_def)
  from cut_paste_restores [OF b(1,2)] show ?thesis unfolding b(3-5) Let_def using b(2) by (simp add: numeral_eq_Suc) metis
qed

text \<open>
  C37: From a freshly opened text, take any sequence of calls of the buffer's mutating operations: typing at one or at every
  caret, line breaks, deletion, word and line motion, selection by keyboard or mouse, cut, paste, line deletion, search and
  replace, setting the text, the caret or further carets. Two conditions on the calls: backspace is not
  called while the anchor sits exactly at the caret (an empty selection), and delete_line, replace_next and
  replace_all are called only while no anchor is set. Then no call panics, copying never panics, and the caret and the
  anchor are always positions of the text.
\<close>

theorem editor_stays_in_text:
  assumes "edited b"
  shows "tb_cy b < length (tb_lines b) \<and> tb_cx b \<le> length (tb_lines b ! tb_cy b) \<and>
    (\<forall>r c. tb_anchor b = Some (r, c) \<longrightarrow> r < length (tb_lines b) \<and> c \<le> length (tb_lines b ! r)) \<and>
    tb_copy b \<noteq> None \<and> (\<forall>e. safe_event e b \<longrightarrow> ui_step e b \<noteq> None)"
  using edited_ok [OF assms] ui_step_ok [of b] copy_ok [of b] by (fastforce simp: buffer_ok_def pos_ok_def tb_caret_def)

theorem editor_stays_in_text_witness:
  "edited (tb_select_all (tb_new [97, 10])) \<and> ui_step UBackspace (tb_select_all (tb_new [97, 10])) \<noteq> None"
proof -
  have "safe_event USelAll (tb_new [97, 10])" by (simp add: safe_event_def)
  then have e: "edited (tb_select_all (tb_new [97, 10]))" by (rule edited.event [OF edited.opened]) simp
  moreover have "safe_event UBackspace (tb_select_all (tb_new [97, 10]))"
    by (simp add: safe_event_def tb_select_all_def tb_new_def tb_caret_def Let_def)
  ultimately show ?thesis using editor_stays_in_text [OF e] by blast
qed

text \<open>
  The condition on delete_line is needed: a selection reaching into the last line, whose deletion leaves the anchor in
  the missing line, makes copying panic.
\<close>

theorem delete_line_keeps_stale_anchor:
  "let b = tb_delete_line (tb_select_left (tb_set_caret 1 0 (tb_new [97, 10, 98]))) in
    length (tb_lines b) = 1 \<and> tb_anchor b = Some (1, 0) \<and> tb_copy b = None"
  by (code_simp)

text \<open>
  C38: A mouse press leaves the anchor of an empty selection at the caret, and backspace does not clear it. Pressing
  the mouse at the start of the last line and then backspace joins the line to the one before; copying or
  pressing backspace once more then indexes the line that is gone, and panics.
\<close>

theorem press_then_backspace_panics:
  assumes "tb_begin_select_at_pixel x y origin w h b0 = b" and "buffer_ok b0"
    and "Suc (tb_cy b) = length (tb_lines b)" and "0 < tb_cy b" and "tb_cx b = 0"
  shows "\<exists>b'. tb_backspace b = Some b' \<and> tb_text b' = list_remove (tb_offset b - 1) (tb_text b) \<and>
    tb_copy b' = None \<and> tb_backspace b' = None"
proof -
  have a: "tb_anchor b = Some (tb_cy b, 0)" using assms(1,5) by (auto simp: tb_begin_select_at_pixel_def Let_def)
  obtain k where k: "tb_cy b = Suc k" using assms(4) by (cases "tb_cy b") auto
  let ?ls = "tb_lines b"
  let ?b = "b\<lparr>tb_lines := (list_remove (Suc k) ?ls)[k := ?ls ! k @ ?ls ! Suc k], tb_cy := k, tb_cx := length (?ls ! k)\<rparr>"
  have n: "list_remove (Suc k) ?ls ! k = ?ls ! k" using assms(3) k by (simp add: list_remove_def nth_append)
  have r: "tb_backspace b = Some ?b"
    using a k assms(5) n by (simp add: tb_backspace_def tb_has_selection_def tb_cur_len_def Let_def)
  have sel: "tb_selection ?b = Some ((k, length (?ls ! k)), (Suc k, 0))" using a k by (simp add: tb_selection_def less_eq_prod_def)
  have len: "length (tb_lines ?b) = Suc k" using assms(3) k by (simp add: list_remove_def)
  have "tb_backspace ?b = None"
    using sel len a k by (simp add: tb_backspace_def tb_has_selection_def tb_delete_selection_def)
  moreover have "tb_copy ?b = None"
    using sel len by (simp add: tb_copy_def tb_selected_text_def selected_row_def tb_line_len_def)
  moreover have "tb_text ?b = list_remove (tb_offset b - 1) (tb_text b)"
  proof -
    have "shown (b\<lparr>tb_anchor := None\<rparr>) (before (Suc k) ?ls) (?ls ! Suc k)"
      using assms(3,5) k by (intro shownI) (auto simp: caret_ok_def)
    from backspace_shown [OF this] obtain c
      where c: "tb_backspace (b\<lparr>tb_anchor := None\<rparr>) = Some c" "tb_text c = butlast (before (Suc k) ?ls) @ ?ls ! Suc k"
      unfolding shown_def by blast
    have "tb_backspace (b\<lparr>tb_anchor := None\<rparr>) = Some (?b\<lparr>tb_anchor := None\<rparr>)"
      using k assms(5) n by (simp add: tb_backspace_def tb_has_selection_def tb_cur_len_def Let_def)
    then have "c = ?b\<lparr>tb_anchor := None\<rparr>" using c(1) by (metis option.inject)
    then have "tb_text ?b = tb_text c" by (simp add: tb_text_def)
    moreover have "tb_text b = before (Suc k) ?ls @ ?ls ! Suc k" "tb_offset b = length (before (Suc k) ?ls)"
      using join_at [of "Suc k" ?ls] assms(3,5) k by (simp_all add: tb_text_def tb_offset_def offset_of_def)
    moreover have "before (Suc k) ?ls \<noteq> []" using assms(3) k by (simp add: before_Suc)
    ultimately show ?thesis using c(2) by (simp add: list_remove_def butlast_conv_take)
  qed
  ultimately show ?thesis using r by blast
qed

lemma press_example:
  "tb_begin_select_at_pixel 0 20 (0, 0) 8 16 (tb_new [97, 10, 98])
   = (tb_new [97, 10, 98])\<lparr>tb_cy := 1, tb_cx := 0, tb_anchor := Some (1, 0)\<rparr>"
proof -
  have w: "i32_wrap 20 = 20" "i32_wrap 0 = 0" "i32_wrap 4 = 4" by (simp_all add: i32_wrap_def)
  have d: "(20 :: int) sdiv 16 = 1" "(8 :: int) sdiv 2 = 4" "(4 :: int) sdiv 8 = 0" by (simp_all add: signed_divide_int_def)
  show ?thesis
    by (simp add: tb_begin_select_at_pixel_def tb_place_at_pixel_def tb_clear_selection_def tb_cur_len_def Let_def tb_new_def w d)
qed

theorem press_then_backspace_panics_witness:
  "let b = (tb_new [97, 10, 98])\<lparr>tb_cy := 1, tb_cx := 0, tb_anchor := Some (1, 0)\<rparr> in
    tb_begin_select_at_pixel 0 20 (0, 0) 8 16 (tb_new [97, 10, 98]) = b \<and>
    (\<exists>b'. tb_backspace b = Some b' \<and> tb_text b' = [97, 98] \<and> tb_copy b' = None \<and> tb_backspace b' = None)"
proof -
  let ?b = "(tb_new [97, 10, 98])\<lparr>tb_cy := 1, tb_cx := 0, tb_anchor := Some (1, 0)\<rparr>"
  have ok: "buffer_ok (tb_new [97, 10, 98])" by (simp add: buffer_ok_def pos_ok_def tb_new_def tb_caret_def)
  have f: "Suc (tb_cy ?b) = length (tb_lines ?b)" "0 < tb_cy ?b" "tb_cx ?b = 0" by (simp_all add: tb_new_def)
  have o: "tb_offset ?b = 2" "tb_text ?b = [97, 10, 98]"
    by (simp_all add: tb_offset_def offset_of_def before_def tb_text_def tb_new_def)
  obtain b' where b': "tb_backspace ?b = Some b'" "tb_text b' = list_remove (tb_offset ?b - 1) (tb_text ?b)"
      "tb_copy b' = None" "tb_backspace b' = None"
    using press_then_backspace_panics [OF press_example ok f] by blast
  have "tb_text b' = [97, 98]" unfolding b'(2) o by (simp add: list_remove_def)
  then show ?thesis unfolding Let_def using b'(1,3,4) press_example by blast
qed

text \<open>
  C40: Searching from a position returns the first occurrence at or after it in document order, and nothing only when
  there is none; replacing all rewrites every line by the leftmost non-overlapping occurrences, scanning on after the
  inserted text.
\<close>

theorem search_and_replace_exact:
  assumes "needle \<noteq> []"
  shows "(case tb_find_from needle start b of
      Some p \<Rightarrow> occurs needle (tb_lines b) p \<and> start \<le> p \<and> (\<forall>q. occurs needle (tb_lines b) q \<and> start \<le> q \<longrightarrow> p \<le> q)
    | None \<Rightarrow> \<forall>q. \<not> (occurs needle (tb_lines b) q \<and> start \<le> q)) \<and>
    tb_lines (snd (tb_replace_all needle rep b)) = map (replaced needle rep) (tb_lines b)"
proof -
  have "tb_lines (snd (tb_replace_all needle rep b)) = map (replaced needle rep) (tb_lines b)"
    using replace_rows [OF assms, of "length (tb_lines b)" "tb_lines b" rep 0] assms
    by (auto simp: tb_replace_all_def tb_clamp_def Let_def split: prod.splits)
  then show ?thesis using find_from_first [OF assms] by blast
qed

theorem search_and_replace_exact_witness:
  "tb_lines (snd (tb_replace_all [97, 97] [98] (tb_new [97, 97, 97, 10, 97, 97]))) = [[98, 97], [98]] \<and>
   tb_find_from [97, 97] (0, 2) (tb_new [97, 97, 97, 10, 97, 97]) = Some (1, 0)"
proof -
  have "tb_lines (snd (tb_replace_all [97, 97] [98] (tb_new [97, 97, 97, 10, 97, 97]))) =
      map (replaced [97, 97] [98]) (tb_lines (tb_new [97, 97, 97, 10, 97, 97]))"
    using search_and_replace_exact [of "[97, 97]"] by blast
  moreover have "tb_find_from [97, 97] (0, 2) (tb_new [97, 97, 97, 10, 97, 97]) = Some (1, 0)" by code_simp
  ultimately show ?thesis by (simp add: tb_new_def)
qed

end
