(* ===== verification/Sha_Reference.thy ===== *)
theory Sha_Reference
  imports Content_Hash Big_Endian Complex_Main
begin

text \<open>
  The secure hash standard FIPS 180-4, written from the standard: the constants as the fractional parts of roots of
  the first primes, the logical functions with their own rotations, the message schedule as a recursion, padding and
  parsing over numbers.  The digests of \<^verbatim>\<open>hash.rs\<close> are shown to be these.
\<close>

unbundle bit_operations_syntax

section \<open>The standard\<close>

subsection \<open>Operations and functions (sections 2.2.2 and 4.1)\<close>

definition fips_ROTR :: "nat \<Rightarrow> 'a::len word \<Rightarrow> 'a word" where
  "fips_ROTR n x = drop_bit n x OR push_bit (LENGTH('a) - n) x"

definition fips_Ch :: "'a::len word \<Rightarrow> 'a word \<Rightarrow> 'a word \<Rightarrow> 'a word" where
  "fips_Ch x y z = (x AND y) XOR (NOT x AND z)"

definition fips_Maj :: "'a::len word \<Rightarrow> 'a word \<Rightarrow> 'a word \<Rightarrow> 'a word" where
  "fips_Maj x y z = (x AND y) XOR (x AND z) XOR (y AND z)"

text \<open>The big functions rotate three times; the small ones rotate twice and shift.\<close>

definition fips_big :: "nat \<Rightarrow> nat \<Rightarrow> nat \<Rightarrow> 'a::len word \<Rightarrow> 'a word" where
  "fips_big i j k x = fips_ROTR i x XOR fips_ROTR j x XOR fips_ROTR k x"

definition fips_small :: "nat \<Rightarrow> nat \<Rightarrow> nat \<Rightarrow> 'a::len word \<Rightarrow> 'a word" where
  "fips_small i j k x = fips_ROTR i x XOR fips_ROTR j x XOR drop_bit k x"

subsection \<open>Constants (sections 4.2 and 5.3)\<close>

definition is_prime :: "nat \<Rightarrow> bool" where
  "is_prime n \<longleftrightarrow> 1 < n \<and> (\<forall>d. d dvd n \<longrightarrow> d = 1 \<or> d = n)"

definition fips_primes :: "nat list" where
  "fips_primes = filter is_prime [0..<410]"

text \<open>The first \<open>w\<close> bits of the fractional part of the \<open>k\<close>-th root of \<open>p\<close>.\<close>

definition root_bits :: "nat \<Rightarrow> nat \<Rightarrow> nat \<Rightarrow> nat" where
  "root_bits w k p = nat \<lfloor>frac (root k (real p)) * 2 ^ w\<rfloor>"

definition fips_K :: "nat \<Rightarrow> 'a::len word" where
  "fips_K t = word_of_nat (root_bits LENGTH('a) 3 (fips_primes ! t))"

definition fips_H256 :: "u32 list" where
  "fips_H256 = map (\<lambda>p. word_of_nat (root_bits 32 2 p)) (take 8 fips_primes)"

definition fips_H512 :: "u64 list" where
  "fips_H512 = map (\<lambda>p. word_of_nat (root_bits 64 2 p)) (take 8 fips_primes)"

definition fips_H384 :: "u64 list" where
  "fips_H384 = map (\<lambda>p. word_of_nat (root_bits 64 2 p)) (take 8 (drop 8 fips_primes))"

subsection \<open>Padding and parsing (sections 5.1 and 5.2)\<close>

text \<open>
  A one bit, as few zero bits as bring the length to \<open>blk - lf\<close> bytes modulo \<open>blk\<close>, and the length in bits
  in \<open>lf\<close> bytes.
\<close>

definition fips_padding :: "nat \<Rightarrow> nat \<Rightarrow> bytes \<Rightarrow> bytes" where
  "fips_padding blk lf msg =
    msg @ [0x80] @ replicate (nat ((int blk - int lf - 1 - int (length msg)) mod int blk)) 0 @ be_digits lf (8 * length msg)"

definition fips_parse :: "nat \<Rightarrow> bytes \<Rightarrow> bytes list" where
  "fips_parse blk padded = map (\<lambda>i. slice (blk * i) blk padded) [0..<length padded div blk]"

definition fips_word :: "bytes \<Rightarrow> nat \<Rightarrow> 'a::len word" where
  "fips_word block t = word_of_nat (be_value (slice (LENGTH('a) div 8 * t) (LENGTH('a) div 8) block))"

subsection \<open>Hash computation (sections 6.2 and 6.4)\<close>

function fips_W :: "('a::len word \<Rightarrow> 'a word) \<Rightarrow> ('a word \<Rightarrow> 'a word) \<Rightarrow> bytes \<Rightarrow> nat \<Rightarrow> 'a word" where
  "fips_W s0 s1 block t =
    (if t < 16 then fips_word block t
     else s1 (fips_W s0 s1 block (t - 2)) + fips_W s0 s1 block (t - 7) + s0 (fips_W s0 s1 block (t - 15))
       + fips_W s0 s1 block (t - 16))"
  by pat_completeness auto
termination by (relation "measure (\<lambda>(_, _, _, t). t)") auto

declare fips_W.simps [simp del]

fun fips_step :: "('a::len word \<Rightarrow> 'a word) \<Rightarrow> ('a word \<Rightarrow> 'a word) \<Rightarrow> (nat \<Rightarrow> 'a word) \<Rightarrow> 'a word list \<Rightarrow> nat \<Rightarrow> 'a word list" where
  "fips_step S0 S1 W [a, b, c, d, e, f, g, h] t =
    (let T1 = h + S1 e + fips_Ch e f g + fips_K t + W t;
         T2 = S0 a + fips_Maj a b c
     in [T1 + T2, a, b, c, d + T1, e, f, g])"
| "fips_step S0 S1 W _ t = []"

definition fips_hash256 :: "u32 list \<Rightarrow> bytes \<Rightarrow> u32 list" where
  "fips_hash256 H block =
    (let W = fips_W (fips_small 7 18 3) (fips_small 17 19 10) block
     in map2 (+) (foldl (fips_step (fips_big 2 13 22) (fips_big 6 11 25) W) H [0..<64]) H)"

definition fips_hash512 :: "u64 list \<Rightarrow> bytes \<Rightarrow> u64 list" where
  "fips_hash512 H block =
    (let W = fips_W (fips_small 1 8 7) (fips_small 19 61 6) block
     in map2 (+) (foldl (fips_step (fips_big 28 34 39) (fips_big 14 18 41) W) H [0..<80]) H)"

definition fips_digest :: "'a::len word list \<Rightarrow> bytes" where
  "fips_digest H = concat (map (\<lambda>h. be_digits (LENGTH('a) div 8) (unat h)) H)"

definition fips180_sha256 :: "bytes \<Rightarrow> bytes" where
  "fips180_sha256 msg = fips_digest (foldl fips_hash256 fips_H256 (fips_parse 64 (fips_padding 64 8 msg)))"

definition fips180_sha512 :: "bytes \<Rightarrow> bytes" where
  "fips180_sha512 msg = fips_digest (foldl fips_hash512 fips_H512 (fips_parse 128 (fips_padding 128 16 msg)))"

definition fips180_sha384 :: "bytes \<Rightarrow> bytes" where
  "fips180_sha384 msg = fips_digest (take 6 (foldl fips_hash512 fips_H384 (fips_parse 128 (fips_padding 128 16 msg))))"

section \<open>The constants of the code\<close>

lemma floor_frac_scaled:
  fixes x :: real
  assumes "real_of_int (i * 2 ^ w + c) \<le> x * 2 ^ w" and "x * 2 ^ w < real_of_int (i * 2 ^ w + c + 1)"
    and "0 \<le> c" and "c < 2 ^ w"
  shows "nat \<lfloor>frac x * 2 ^ w\<rfloor> = nat c"
proof -
  have "real_of_int i * 2 ^ w \<le> x * 2 ^ w" using assms(1,3) of_int_0_le_iff [of c] by (simp add: order_trans [rotated])
  then have lo: "real_of_int i \<le> x" by simp
  have "i * 2 ^ w + c + 1 \<le> (i + 1) * 2 ^ w" using assms(4) by (simp add: algebra_simps)
  then have "real_of_int (i * 2 ^ w + c + 1) \<le> real_of_int ((i + 1) * 2 ^ w)" by (simp only: of_int_le_iff)
  then have "x * 2 ^ w < real_of_int ((i + 1) * 2 ^ w)" by (rule less_le_trans [OF assms(2)])
  then have "x * 2 ^ w < (real_of_int i + 1) * 2 ^ w" by simp
  then have hi: "x < real_of_int i + 1" by (rule mult_right_less_imp_less) simp
  have "\<lfloor>x\<rfloor> = i" using lo hi by (simp add: floor_unique)
  then have "frac x * 2 ^ w = x * 2 ^ w - real_of_int (i * 2 ^ w)" by (simp add: frac_def algebra_simps)
  then have "\<lfloor>frac x * 2 ^ w\<rfloor> = c" using assms(1,2) by (intro floor_unique) simp_all
  then show ?thesis by simp
qed

text \<open>A candidate for the first bits of a root, checked with integers only.\<close>

definition root_check :: "nat \<Rightarrow> nat \<Rightarrow> int \<Rightarrow> int \<Rightarrow> bool" where
  "root_check w k p c \<longleftrightarrow> 0 \<le> c \<and> c < 2 ^ w \<and>
    list_ex (\<lambda>i. if p < (i + 1) ^ k then (i * 2 ^ w + c) ^ k \<le> p * 2 ^ (k * w) \<and> p * 2 ^ (k * w) < (i * 2 ^ w + c + 1) ^ k
      else False) [0..22]"

lemma root_check_bits:
  assumes "root_check w k (int p) c" and "0 < k"
  shows "root_bits w k p = nat c"
proof -
  obtain i where i: "0 \<le> i" "(i * 2 ^ w + c) ^ k \<le> int p * 2 ^ (k * w)" "int p * 2 ^ (k * w) < (i * 2 ^ w + c + 1) ^ k"
    and c: "0 \<le> c" "c < 2 ^ w"
    using assms(1) by (auto simp: root_check_def list_ex_iff split: if_splits)
  let ?x = "root k (real p)"
  have x: "(?x * 2 ^ w) ^ k = real_of_int (int p * 2 ^ (k * w))"
    using assms(2) by (simp add: power_mult_distrib power_mult [symmetric] mult.commute)
  have "real_of_int (i * 2 ^ w + c) ^ k \<le> (?x * 2 ^ w) ^ k"
    using i(2) unfolding x by (simp only: of_int_power [symmetric] of_int_le_iff)
  then have lo: "real_of_int (i * 2 ^ w + c) \<le> ?x * 2 ^ w" using power_mono_iff [of "real_of_int (i * 2 ^ w + c)" "?x * 2 ^ w" k] i(1) c(1) assms(2) by simp
  have "(?x * 2 ^ w) ^ k < real_of_int (i * 2 ^ w + c + 1) ^ k"
    using i(3) unfolding x by (simp only: of_int_power [symmetric] of_int_less_iff)
  then have hi: "?x * 2 ^ w < real_of_int (i * 2 ^ w + c + 1)" by (rule power_less_imp_less_base) (use i c in simp)
  show ?thesis unfolding root_bits_def by (rule floor_frac_scaled [OF lo hi c])
qed

text \<open>The primes.\<close>

lemma is_prime_check:
  assumes "n < 441"
  shows "is_prime n \<longleftrightarrow> 1 < int n \<and> list_all (\<lambda>d. int n = d \<or> int n mod d \<noteq> 0) [2..20]"
proof (cases "1 < n")
  case n: True
  have "(\<exists>d. d dvd n \<and> d \<noteq> 1 \<and> d \<noteq> n) \<longleftrightarrow> (\<exists>d \<in> {2..20}. n \<noteq> d \<and> d dvd n)"
  proof
    assume "\<exists>d. d dvd n \<and> d \<noteq> 1 \<and> d \<noteq> n"
    then obtain d e where d: "n = d * e" "d \<noteq> 1" "d \<noteq> n" by (auto elim: dvdE)
    then have e: "e \<noteq> 1" "e \<noteq> n" "d \<noteq> 0" "e \<noteq> 0" using n by (auto intro: gr0I)
    have "d \<le> 20 \<or> e \<le> 20"
    proof (rule ccontr)
      assume "\<not> (d \<le> 20 \<or> e \<le> 20)"
      then have "21 * 21 \<le> d * e" by (intro mult_le_mono) auto
      then show False using assms d(1) by simp
    qed
    then show "\<exists>d \<in> {2..20}. n \<noteq> d \<and> d dvd n"
    proof
      assume "d \<le> 20"
      then show ?thesis using d e by (intro bexI [of _ d]) auto
    next
      assume "e \<le> 20"
      then show ?thesis using d e by (intro bexI [of _ e]) auto
    qed
  qed fastforce
  moreover have "(\<exists>d \<in> {2..20}. n \<noteq> d \<and> d dvd n) \<longleftrightarrow> (\<exists>d \<in> {2..20}. int n \<noteq> d \<and> int n mod d = 0)"
  proof
    assume "\<exists>d \<in> {2..20}. n \<noteq> d \<and> d dvd n"
    then obtain d where "2 \<le> d" "d \<le> 20" "n \<noteq> d" "d dvd n" by auto
    then show "\<exists>d \<in> {2..20}. int n \<noteq> d \<and> int n mod d = 0" by (intro bexI [of _ "int d"]) (auto simp: of_nat_mod [symmetric])
  next
    assume "\<exists>d \<in> {2..20}. int n \<noteq> d \<and> int n mod d = 0"
    then obtain d where d: "2 \<le> d" "d \<le> 20" "int n \<noteq> d" "int n mod d = 0" by auto
    then have "int (nat d) dvd int n" by auto
    then have "nat d dvd n" by (simp only: int_dvd_int_iff)
    then show "\<exists>d \<in> {2..20}. n \<noteq> d \<and> d dvd n" using d by (intro bexI [of _ "nat d"]) auto
  qed
  moreover have "is_prime n \<longleftrightarrow> \<not> (\<exists>d. d dvd n \<and> d \<noteq> 1 \<and> d \<noteq> n)" using n unfolding is_prime_def by blast
  ultimately have eq: "is_prime n \<longleftrightarrow> \<not> (\<exists>d \<in> {2..20}. int n \<noteq> d \<and> int n mod d = 0)" by (simp only:)
  have "1 < int n" using n by simp
  moreover have "\<not> (\<exists>d \<in> A. \<not> P d \<and> Q d) \<longleftrightarrow> (\<forall>d \<in> A. P d \<or> \<not> Q d)" for A :: "int set" and P Q by blast
  ultimately show ?thesis unfolding eq list_all_iff set_upto by (simp only: simp_thms)
qed (simp add: is_prime_def)

lemma map_int_upt: "map int [i..<j] = [int i..int j - 1]"
proof (induction "j - i" arbitrary: i)
  case (Suc n)
  then have "i < j" "n = j - Suc i" by auto
  then show ?case using Suc.hyps(1) [of "Suc i"] by (simp add: upt_conv_Cons upto_rec1 add.commute)
qed simp

lemma primes_check: "filter (\<lambda>n. 1 < n \<and> list_all (\<lambda>d. n = d \<or> n mod d \<noteq> 0) [2..20]) [0..409] =
  [2, 3, 5, 7, 11, 13, 17, 19, 23, 29, 31, 37, 41, 43, 47, 53, 59, 61, 67, 71, 73, 79, 83, 89, 97, 101, 103, 107, 109, 113,
   127, 131, 137, 139, 149, 151, 157, 163, 167, 173, 179, 181, 191, 193, 197, 199, 211, 223, 227, 229, 233, 239, 241, 251,
   257, 263, 269, 271, 277, 281, 283, 293, 307, 311, 313, 317, 331, 337, 347, 349, 353, 359, 367, 373, 379, 383, 389, 397,
   401, 409 :: int]"
  by code_simp

lemma fips_primes_eq: "map int fips_primes =
  [2, 3, 5, 7, 11, 13, 17, 19, 23, 29, 31, 37, 41, 43, 47, 53, 59, 61, 67, 71, 73, 79, 83, 89, 97, 101, 103, 107, 109, 113,
   127, 131, 137, 139, 149, 151, 157, 163, 167, 173, 179, 181, 191, 193, 197, 199, 211, 223, 227, 229, 233, 239, 241, 251,
   257, 263, 269, 271, 277, 281, 283, 293, 307, 311, 313, 317, 331, 337, 347, 349, 353, 359, 367, 373, 379, 383, 389, 397,
   401, 409]"
proof -
  have "map int [0..<410] = [0..409]" using map_int_upt [of 0 410] by simp
  moreover have "map int fips_primes =
      filter (\<lambda>n. 1 < n \<and> list_all (\<lambda>d. n = d \<or> n mod d \<noteq> 0) [2..20]) (map int [0..<410])"
    unfolding fips_primes_def filter_map by (intro arg_cong [of _ _ "map int"] filter_cong) (auto simp: is_prime_check)
  ultimately show ?thesis using primes_check by simp
qed

text \<open>The tables, each entry against its prime.\<close>

lemma constants_check:
  assumes "list_all2 (root_check w k) (map int ps) (map uint (cs :: 'a::len word list))" and "0 < k"
  shows "map (\<lambda>p. word_of_nat (root_bits w k p)) ps = cs"
  using assms(1)
proof (induction ps arbitrary: cs)
  case (Cons p ps)
  then obtain c cs' where cs: "cs = c # cs'" "root_check w k (int p) (uint c)"
      "list_all2 (root_check w k) (map int ps) (map uint cs')" by (cases cs) auto
  have "word_of_nat (root_bits w k p) = c" using root_check_bits [OF cs(2) assms(2)] by simp
  then show ?case using cs(1) Cons.IH [OF cs(3)] by simp
qed simp

lemma K_check: "list_all2 (root_check 32 3)
  [2, 3, 5, 7, 11, 13, 17, 19, 23, 29, 31, 37, 41, 43, 47, 53, 59, 61, 67, 71, 73, 79, 83, 89, 97, 101, 103, 107, 109, 113,
   127, 131, 137, 139, 149, 151, 157, 163, 167, 173, 179, 181, 191, 193, 197, 199, 211, 223, 227, 229, 233, 239, 241, 251,
   257, 263, 269, 271, 277, 281, 283, 293, 307, 311] (map uint K)"
  by code_simp

lemma K512_check: "list_all2 (root_check 64 3)
  [2, 3, 5, 7, 11, 13, 17, 19, 23, 29, 31, 37, 41, 43, 47, 53, 59, 61, 67, 71, 73, 79, 83, 89, 97, 101, 103, 107, 109, 113,
   127, 131, 137, 139, 149, 151, 157, 163, 167, 173, 179, 181, 191, 193, 197, 199, 211, 223, 227, 229, 233, 239, 241, 251,
   257, 263, 269, 271, 277, 281, 283, 293, 307, 311, 313, 317, 331, 337, 347, 349, 353, 359, 367, 373, 379, 383, 389, 397,
   401, 409] (map uint K512)"
  by code_simp

lemma H_check:
  "list_all2 (root_check 32 2) [2, 3, 5, 7, 11, 13, 17, 19] (map uint H_INIT)"
  "list_all2 (root_check 64 2) [2, 3, 5, 7, 11, 13, 17, 19] (map uint INIT512)"
  "list_all2 (root_check 64 2) [23, 29, 31, 37, 41, 43, 47, 53] (map uint INIT384)"
  by code_simp+

lemma fips_K_eq:
  "t < 64 \<Longrightarrow> fips_K t = K ! t" "t < 80 \<Longrightarrow> fips_K t = K512 ! t"
proof -
  have 1: "map (\<lambda>p. word_of_nat (root_bits 32 3 p)) (take 64 fips_primes) = K"
    by (rule constants_check) (use K_check in \<open>simp_all add: take_map [symmetric] fips_primes_eq\<close>)
  have 2: "map (\<lambda>p. word_of_nat (root_bits 64 3 p)) fips_primes = K512"
    by (rule constants_check) (use K512_check in \<open>simp_all add: fips_primes_eq\<close>)
  have len: "length fips_primes = 80" using arg_cong [OF fips_primes_eq, of length] by simp
  show "t < 64 \<Longrightarrow> fips_K t = K ! t"
    unfolding 1 [symmetric] using len by (simp add: fips_K_def)
  show "t < 80 \<Longrightarrow> fips_K t = K512 ! t"
    unfolding 2 [symmetric] using len by (simp add: fips_K_def)
qed

lemma fips_H_eq: "fips_H256 = H_INIT" "fips_H512 = INIT512" "fips_H384 = INIT384"
  unfolding fips_H256_def fips_H512_def fips_H384_def
  by (rule constants_check; use H_check in \<open>simp add: take_map [symmetric] drop_map [symmetric] fips_primes_eq\<close>)+

section \<open>Compression\<close>

lemma fips_ROTR_eq: "n < LENGTH('a) \<Longrightarrow> fips_ROTR n x = word_rotr n (x :: 'a::len word)"
proof (rule bit_word_eqI)
  fix m assume m: "m < LENGTH('a)" and n: "n < LENGTH('a)"
  then have "(m + n) mod LENGTH('a) = (if m + n < LENGTH('a) then m + n else m + n - LENGTH('a))" by (simp add: mod_if)
  then show "bit (fips_ROTR n x) m = bit (word_rotr n x) m"
    using m n by (auto simp: fips_ROTR_def bit_simps bit_word_rotr_iff add.commute dest: bit_imp_le_length)
qed

lemmas fips_functions = fips_big_def fips_small_def fips_ROTR_eq fips_Ch_def fips_Maj_def

text \<open>The schedule is filled in place from the left.\<close>

lemma schedule_fill:
  assumes "\<And>w t. step w t = w[t := w ! (t - 16) + s0 (w ! (t - 15)) + w ! (t - 7) + s1 (w ! (t - 2))]"
    and "\<forall>t < 16. w ! t = fips_word block t" and "16 \<le> m" and "m \<le> length w"
  shows "length (foldl step w [16..<m]) = length w \<and> (\<forall>t < m. foldl step w [16..<m] ! t = fips_W s0 s1 block t)"
  using assms(3,4)
proof (induction m rule: dec_induct)
  case base
  then show ?case using assms(2) by (simp add: fips_W.simps)
next
  case (step m)
  let ?w = "foldl step w [16..<m]"
  have w: "length ?w = length w" "\<And>t. t < m \<Longrightarrow> ?w ! t = fips_W s0 s1 block t" using step by simp_all
  have "fips_W s0 s1 block m = ?w ! (m - 16) + s0 (?w ! (m - 15)) + ?w ! (m - 7) + s1 (?w ! (m - 2))"
    using step.hyps w(2) by (subst fips_W.simps) (simp add: add.assoc add.commute add.left_commute)
  then have "foldl step w [16..<Suc m] = ?w[m := fips_W s0 s1 block m]" using step.hyps by (simp add: assms(1))
  then show ?case using w step.prems by (auto simp: less_Suc_eq)
qed

lemma schedule_eq: "t < 64 \<Longrightarrow> schedule block ! t = fips_W (fips_small 7 18 3) (fips_small 17 19 10) block t"
  unfolding schedule_def
  by (rule schedule_fill [THEN conjunct2, rule_format])
    (auto simp: schedule_step_def Let_def fips_functions fips_word_def of_be_bytes_value nth_append mult.commute)

lemma shift_in_bytes: "foldl (\<lambda>word b. push_bit 8 word OR ucast (b :: u8)) 0 bs = of_be_bytes bs"
  by (induction bs rule: rev_induct) (simp_all add: of_be_bytes_def or.commute)

lemma schedule512_eq: "t < 80 \<Longrightarrow> schedule512 block ! t = fips_W (fips_small 1 8 7) (fips_small 19 61 6) block t"
  unfolding schedule512_def shift_in_bytes
  by (rule schedule_fill [THEN conjunct2, rule_format])
    (auto simp: schedule512_step_def Let_def fips_functions fips_word_def of_be_bytes_value nth_append mult.commute)

fun reg_list :: "'w regs \<Rightarrow> 'w list" where
  "reg_list (a, b, c, d, e, f, g, h) = [a, b, c, d, e, f, g, h]"

lemma rounds_eq:
  assumes "\<And>r t. t < n \<Longrightarrow> reg_list (step r t) = fips_step S0 S1 W (reg_list r) t"
  shows "reg_list (foldl step r [0..<n]) = foldl (fips_step S0 S1 W) (reg_list r) [0..<n]"
proof -
  have "reg_list (foldl step r [0..<m]) = foldl (fips_step S0 S1 W) (reg_list r) [0..<m]" if "m \<le> n" for m
    using that by (induction m) (simp_all add: assms)
  then show ?thesis by simp
qed

lemma list8: "length h = 8 \<Longrightarrow> h = [h ! 0, h ! 1, h ! 2, h ! 3, h ! 4, h ! 5, h ! 6, h ! 7]"
  by (rule nth_equalityI) (auto simp: less_Suc_eq numeral_eq_Suc)

lemma map2_list8:
  "length h = 8 \<Longrightarrow> map2 (+) [a, b, c, d, e, f, g, k] h =
    [h ! 0 + a, h ! 1 + b, h ! 2 + c, h ! 3 + d, h ! 4 + e, h ! 5 + f, h ! 6 + g, h ! 7 + k :: 'a::len word]"
  by (subst list8) (simp_all add: add.commute)

lemma compress_eq:
  assumes "length h = 8"
  shows "compress h block = fips_hash256 h block"
proof -
  let ?W = "fips_W (fips_small 7 18 3) (fips_small 17 19 10) block"
  let ?r = "(h ! 0, h ! 1, h ! 2, h ! 3, h ! 4, h ! 5, h ! 6, h ! 7)"
  have "reg_list (round_step (schedule block) r t) = fips_step (fips_big 2 13 22) (fips_big 6 11 25) ?W (reg_list r) t"
    if "t < 64" for r t
    using that by (cases r rule: reg_list.cases) (simp add: round_step_def Let_def fips_functions fips_K_eq schedule_eq)
  from rounds_eq [OF this]
  have "reg_list (foldl (round_step (schedule block)) ?r [0..<64]) =
      foldl (fips_step (fips_big 2 13 22) (fips_big 6 11 25) ?W) h [0..<64]"
    using list8 [OF assms] by simp
  moreover obtain a b c d e f g k where "foldl (round_step (schedule block)) ?r [0..<64] = (a, b, c, d, e, f, g, k)"
    by (cases "foldl (round_step (schedule block)) ?r [0..<64]" rule: reg_list.cases)
  ultimately show ?thesis
    unfolding compress_def fips_hash256_def Let_def using map2_list8 [OF assms, of a b c d e f g k] by simp
qed

lemma compress512_eq:
  assumes "length h = 8"
  shows "compress512 h block = fips_hash512 h block"
proof -
  let ?W = "fips_W (fips_small 1 8 7) (fips_small 19 61 6) block"
  let ?r = "(h ! 0, h ! 1, h ! 2, h ! 3, h ! 4, h ! 5, h ! 6, h ! 7)"
  have "reg_list (round512_step (schedule512 block) r t) = fips_step (fips_big 28 34 39) (fips_big 14 18 41) ?W (reg_list r) t"
    if "t < 80" for r t
    using that by (cases r rule: reg_list.cases) (simp add: round512_step_def Let_def fips_functions fips_K_eq schedule512_eq)
  from rounds_eq [OF this]
  have "reg_list (foldl (round512_step (schedule512 block)) ?r [0..<80]) =
      foldl (fips_step (fips_big 28 34 39) (fips_big 14 18 41) ?W) h [0..<80]"
    using list8 [OF assms] by simp
  moreover obtain a b c d e f g k where "foldl (round512_step (schedule512 block)) ?r [0..<80] = (a, b, c, d, e, f, g, k)"
    by (cases "foldl (round512_step (schedule512 block)) ?r [0..<80]" rule: reg_list.cases)
  ultimately show ?thesis
    unfolding compress512_def fips_hash512_def Let_def using map2_list8 [OF assms, of a b c d e f g k] by simp
qed


section \<open>Padding and blocks\<close>

lemma chunks_exact_parse: "0 < n \<Longrightarrow> chunks_exact n xs = fips_parse n xs"
proof (induction n xs rule: chunks_exact.induct)
  case (1 n xs)
  show ?case
  proof (cases "length xs < n")
    case True
    then show ?thesis by (simp add: chunks_exact_short fips_parse_def)
  next
    case False
    have d: "length xs div n = Suc (length (drop n xs) div n)" using False "1.prems" by (simp add: le_div_geq)
    have "map (\<lambda>i. slice (n * i) n xs) [0..<length xs div n] =
        slice 0 n xs # map (\<lambda>i. slice (n * i) n (drop n xs)) [0..<length (drop n xs) div n]"
      unfolding d upt_conv_Cons [OF zero_less_Suc] map_Suc_upt [symmetric]
      by (simp add: slice_def add.commute)
    then show ?thesis
      using 1 False by (subst chunks_exact.simps) (simp add: fips_parse_def slice_def)
  qed
qed

lemma pad_zeros:
  assumes "lf < blk"
  shows "(2 * blk - 1 - lf - len mod blk) mod blk = nat ((int blk - int lf - 1 - int len) mod int blk)"
proof -
  have m: "len mod blk < blk" using assms by simp
  have "int ((2 * blk - 1 - lf - len mod blk) mod blk) = (int (2 * blk - 1 - lf - len mod blk)) mod int blk"
    by (rule of_nat_mod)
  also have "int (2 * blk - 1 - lf - len mod blk) = int blk + (int blk - int lf - 1) - int len mod int blk"
    unfolding zmod_int [symmetric] using assms m by linarith
  also have "\<dots> mod int blk = (int blk - int lf - 1 - int len) mod int blk"
    using mod_add_self1 [of "int blk" "int blk - int lf - 1 - int len"] by (simp add: mod_diff_right_eq add_diff_eq)
  finally show ?thesis by simp
qed

lemma padding_eq:
  "padded_message 64 (be_bytes 8 (len_u64 msg * 8)) msg = fips_padding 64 8 msg"
  "padded_message 128 (be_bytes 16 ((word_of_nat (length msg) :: 128 word) * 8)) msg = fips_padding 128 16 msg"
proof -
  have len64: "8 * 8 \<le> LENGTH(64)" and len128: "8 * 16 \<le> LENGTH(128)" by simp_all
  have "len_u64 msg * 8 = word_of_nat (8 * length msg)" "(word_of_nat (length msg) :: 128 word) * 8 = word_of_nat (8 * length msg)"
    by (simp_all add: mult.commute)
  then have "be_bytes 8 (len_u64 msg * 8) = be_digits 8 (8 * length msg)"
      "be_bytes 16 ((word_of_nat (length msg) :: 128 word) * 8) = be_digits 16 (8 * length msg)"
    by (simp_all only: be_bytes_of_nat len64 len128)
  then show "padded_message 64 (be_bytes 8 (len_u64 msg * 8)) msg = fips_padding 64 8 msg"
      "padded_message 128 (be_bytes 16 ((word_of_nat (length msg) :: 128 word) * 8)) msg = fips_padding 128 16 msg"
    using pad_zeros [of 8 64 "length msg"] pad_zeros [of 16 128 "length msg"]
    by (simp_all add: padded_message_def fips_padding_def)
qed

lemma absorb_eq:
  assumes "\<And>h b. length h = 8 \<Longrightarrow> f h b = g h b" and "\<And>h b. length (f h b) = 8" and "length h = 8"
  shows "foldl f h bs = foldl g h bs"
  using assms(3)
proof (induction bs arbitrary: h)
  case (Cons b bs)
  then show ?case using Cons.IH [OF assms(2), of h b] assms(1) [of h b] by simp
qed simp

lemma digest_eq:
  "concat (map (be_bytes 4) hs) = fips_digest (hs :: u32 list)" "concat (map (be_bytes 8) hs') = fips_digest (hs' :: u64 list)"
  by (simp_all add: fips_digest_def be_bytes_digits [abs_def])

section \<open>Property\<close>

text \<open>
  C7: The digests of \<^verbatim>\<open>hash.rs\<close> are those of FIPS 180-4.  The code takes whole blocks first, then a stack buffer of
  one or two blocks with the terminator and the bit length, keeps the schedule in one array, and has its
  constants as tables.  The standard, here written independently of the code, takes the fractional parts of the cube and square
  roots of the first primes as constants, defines rotations by shifts and the message schedule by recursion, pads the
  whole message first and absorbs its blocks in order.  SHA-256, SHA-512 and SHA-384 are equal to
  these on every message (the bit length is written modulo \<open>2\<^sup>6\<^sup>4\<close> and \<open>2\<^sup>1\<^sup>2\<^sup>8\<close>, which is the identity on the messages
  the standard admits), and have 32, 64 and 48 bytes.
\<close>

theorem digests_follow_fips:
  "sha256 msg = fips180_sha256 msg \<and> sha512 msg = fips180_sha512 msg \<and> sha384 msg = fips180_sha384 msg \<and>
   length (sha256 msg) = 32 \<and> length (sha512 msg) = 64 \<and> length (sha384 msg) = 48"
proof -
  have h: "length fips_H256 = 8" "length fips_H512 = 8" "length fips_H384 = 8"
    by (simp_all add: fips_H_eq H_INIT_def INIT512_def INIT384_def)
  have 1: "foldl compress h bs = foldl fips_hash256 h bs" if "length h = 8" for h bs
    by (rule absorb_eq [OF compress_eq length_compress that])
  have 2: "foldl compress512 h bs = foldl fips_hash512 h bs" if "length h = 8" for h bs
    by (rule absorb_eq [OF compress512_eq length_compress512 that])
  have "sha256 msg = fips180_sha256 msg \<and> sha512 msg = fips180_sha512 msg \<and> sha384 msg = fips180_sha384 msg"
    unfolding sha256_eq_padded padded_sha256_def sha512_def sha384_def sha512_core_eq_padded padded_sha512_core_def padding_eq
      fips180_sha256_def fips180_sha512_def fips180_sha384_def digest_eq fips_H_eq [symmetric] 1 [OF h(1)] 2 [OF h(2)] 2 [OF h(3)]
    by (simp add: chunks_exact_parse)
  then show ?thesis using length_sha256 [of msg] length_sha512 [of msg] length_sha384 [of msg] by simp
qed

text \<open>The published digest of the three bytes of \<open>abc\<close>.\<close>

theorem digests_follow_fips_witness:
  "fips180_sha256 (ascii ''abc'') =
    [0xba, 0x78, 0x16, 0xbf, 0x8f, 0x01, 0xcf, 0xea, 0x41, 0x41, 0x40, 0xde, 0x5d, 0xae, 0x22, 0x23,
     0xb0, 0x03, 0x61, 0xa3, 0x96, 0x17, 0x7a, 0x9c, 0xb4, 0x10, 0xff, 0x61, 0xf2, 0x00, 0x15, 0xad]"
proof -
  have "sha256 (ascii ''abc'') =
    [0xba, 0x78, 0x16, 0xbf, 0x8f, 0x01, 0xcf, 0xea, 0x41, 0x41, 0x40, 0xde, 0x5d, 0xae, 0x22, 0x23,
     0xb0, 0x03, 0x61, 0xa3, 0x96, 0x17, 0x7a, 0x9c, 0xb4, 0x10, 0xff, 0x61, 0xf2, 0x00, 0x15, 0xad]"
    by code_simp
  then show ?thesis by (simp only: digests_follow_fips [THEN conjunct1])
qed

end
