(* ===== verification/Spec2Isabelle.thy ===== *)
theory Spec2Isabelle
  imports Hash_Witnesses Graph_Persistence Machine_State Domain_Scheduler Fenced_Replica Airlock
    Recovery_Supervisor Hardened_Allocator Object_Store_Safety
    Sandbox_VM Path_Namespace Bft_Liveness Net_Stack Secret_Sharing Vault_Refinement Text_Editing
    Sha_Reference
begin

text \<open>
  Verification of the DominionOS core, the crate \<^verbatim>\<open>src/dominion-core\<close>.

  \<^bold>\<open>The program.\<close>  DominionOS is an object-capability operating system.  Its core is a
  \<^verbatim>\<open>no_std\<close> library of pure data structures and policies that the kernel drives.  The parts that
  carry its guarantees are layered as follows.

  \<^item> Content addressing: a hash names every byte string; objects are stored under the hash of a
    canonical encoding, the graph of them is versioned by Merkle roots.
  \<^item> Authority: every access is made through a capability (tag, extent, rights), which can only be
    narrowed; the firewall records who delegated to whom inside a domain, the airlock sanitises
    what crosses between domains.
  \<^item> Durability: block devices carry images, a two-slot journal of signed roots, and an
    incremental object store; each survives a cut-off write.
  \<^item> Execution: a cooperative scheduler of isolated domains, a gas-metered sandbox for guest code,
    a hardened allocator, a deterministic machine that can be replayed.
  \<^item> Distribution and recovery: hybrid logical clocks order events, replicas merge gossip under
    rollback fences, a supervisor bounds restarts.
  \<^item> The path namespace projects the object graph as directories and files; the text editor's
    document model works on what is read from it.
  \<^item> Cryptography: hash-based signatures over one-time keys, the AEAD ciphers ChaCha20-Poly1305 and
    AES-256-GCM, secret sharing for recovery, memory sealing, and the vault that ties them to
    objects.
  \<^item> Agreement: validators of a Byzantine fault-tolerant protocol exchange signed votes; the legacy
    network stack carries the frames.

  \<^bold>\<open>How Rust is read.\<close>  Unsigned and signed integers are words of their width (\<^verbatim>\<open>u8\<close> to \<^verbatim>\<open>u64\<close>,
  \<^verbatim>\<open>usize\<close> as 64 bits); plain arithmetic that the source leaves unchecked wraps, \<^verbatim>\<open>checked_\<close>,
  \<^verbatim>\<open>saturating_\<close> and \<^verbatim>\<open>wrapping_\<close> operations are the definitions of \<^verbatim>\<open>Dominion_Prelude\<close>.  Byte
  buffers are lists of bytes, a \<^verbatim>\<open>String\<close> is its UTF-8 bytes.  \<^verbatim>\<open>Result\<close> is a sum with \<open>Err\<close> on the
  left, \<^verbatim>\<open>Option\<close> is \<open>option\<close>, \<^verbatim>\<open>?\<close> is a bind.  Structures are records, enumerations datatypes,
  \<^verbatim>\<open>&mut self\<close> methods return the updated record.  \<^verbatim>\<open>BTreeMap\<close> is a strictly sorted association list
  (\<^verbatim>\<open>Ordered_Map\<close>), so iteration order and encodings are those of the code.  Loops are recursive
  functions with a termination proof, or option-valued partial functions where the loop can
  run forever.

  \<^bold>\<open>Theories, sources and what is shown.\<close>

  \<^item> \<^verbatim>\<open>Dominion_Prelude\<close>: result combinators, word arithmetic with overflow, little- and big-endian
    integers, slices, UTF-8 validity, and the collections of rewrite rules the components share.
    \<^verbatim>\<open>Ordered_Map\<close>: the map, its contract as the locale \<open>ordered_map\<close>, interpreted on it.
    \<^verbatim>\<open>Big_Endian\<close>: byte strings as numbers, for the standards the code is compared with.
  \<^item> \<^verbatim>\<open>Content_Hash\<close> (\<^verbatim>\<open>hash.rs\<close>): the streaming SHA-256, SHA-384 and SHA-512 absorb the message padded
    as a whole; lengths; hex.  \<^verbatim>\<open>Sha_Reference\<close> is FIPS 180-4 written without the code's definitions (constants
    from the roots of primes, own rotations, schedule by recursion, padding and parsing over numbers), and the
    digests are shown equal to it.  \<^verbatim>\<open>Hash_Witnesses\<close> evaluates
    the hash inside the kernel, against the published vector, and holds the instances of theorems
    that assume two given inputs not to collide.
  \<^item> \<^verbatim>\<open>Capability\<close> (\<^verbatim>\<open>capability.rs\<close>): check, derive, restrict, tamper; exact outcome of every branch;
    \<open>obtains_cap\<close> is the step relation of what a holder can make, and it never amplifies.
    \<^verbatim>\<open>Cheri_Tags\<close> (\<^verbatim>\<open>cheri.rs\<close>): the trait as the locale \<open>capability_tags\<close>, interpreted on the
    software and the hardware backend; derivation chains are confined, forged tags are refused.
  \<^item> \<^verbatim>\<open>Byte_Cursor\<close> (\<^verbatim>\<open>bytes.rs\<close>): readers and writers, and the parser combinators of the codecs.
    \<^verbatim>\<open>Content_Store\<close> (\<^verbatim>\<open>content_store.rs\<close>): the locale \<open>content_store\<close> and its interpretation for
    any content id.
  \<^item> \<^verbatim>\<open>Object_Graph\<close>, \<^verbatim>\<open>Object_Codec\<close>, \<^verbatim>\<open>Graph_Versioning\<close> (\<^verbatim>\<open>object.rs\<close>): objects, encodings and the
    image format with their round trips; identity by content; the invariant of the graph under
    any script of puts, commits and rollbacks; rollback restores; the Merkle root binds the live set.
  \<^item> \<^verbatim>\<open>Block_Persist\<close>, \<^verbatim>\<open>Block_Device\<close> (\<^verbatim>\<open>persist.rs\<close>, \<^verbatim>\<open>props.rs\<close>): the \<^verbatim>\<open>BlockDevice\<close> trait as a record of
    operations; its contract as the locales \<open>atomic_device\<close> (a write of one block happens or not)
    and \<open>block_device\<close> (it also succeeds in range), interpreted on \<^verbatim>\<open>RamDisk\<close> and on
    \<^verbatim>\<open>FaultyDevice\<close>.  \<^verbatim>\<open>Graph_Persistence\<close> composes the image format with it.
  \<^item> \<^verbatim>\<open>Root_Journal\<close> (\<^verbatim>\<open>journal.rs\<close>): format, commit, load, for any device with the contract; any
    sequence of cut-off commits leaves the last root whose pointer flip happened.
  \<^item> \<^verbatim>\<open>Object_Store\<close>, \<^verbatim>\<open>Object_Store_Safety\<close> (\<^verbatim>\<open>objstore.rs\<close>): manifest and root codecs, packing, append and
    full saves; save then load; appending saves cut off anywhere leave the last committed graph.
  \<^item> \<^verbatim>\<open>Hash_Chain\<close>: the locale \<open>hash_ledger\<close> of hash-chained logs, interpreted for the firewall's
    provenance ledger and the airlock's transfer ledger.  \<^verbatim>\<open>Capability_Firewall\<close> (\<^verbatim>\<open>firewall.rs\<close>):
    the breadth-first searches end and compute the closure; segmentation; what a revocation removes,
    exactly, and that it is permanent.  \<^verbatim>\<open>Airlock\<close> (\<^verbatim>\<open>airlock.rs\<close>): sanitised crossings, containment, tamper evidence.
  \<^item> \<^verbatim>\<open>Machine_State\<close> (\<^verbatim>\<open>state.rs\<close>): replay, rewind and resume, state hash.
    \<^verbatim>\<open>Hybrid_Clock\<close> (\<^verbatim>\<open>hlc.rs\<close>): happens-before implies smaller timestamps.
    \<^verbatim>\<open>Domain_Scheduler\<close> (\<^verbatim>\<open>sched.rs\<close>): finality, fairness, first-in first-out messages, isolation.
  \<^item> \<^verbatim>\<open>Fenced_Replica\<close> (\<^verbatim>\<open>consistency.rs\<close>): merging as the join of the locale \<open>gossip_join\<close>, hence
    convergence, for pinned keys at equal fences too; a rolled-back write never returns unless a counter wraps.
    \<^verbatim>\<open>Recovery_Supervisor\<close> (\<^verbatim>\<open>supervisor.rs\<close>): restarts per window are bounded, per component and
    globally; quarantine lasts until a success.
  \<^item> \<^verbatim>\<open>Hardened_Allocator\<close> (\<^verbatim>\<open>hardalloc.rs\<close>): the byte arena refines a heap of separate buffers; canaries;
    use after free is trapped; the size-class loop ends exactly up to \<open>2 ^ 63\<close>.
  \<^item> \<^verbatim>\<open>Sandbox_VM\<close> (\<^verbatim>\<open>wasm.rs\<close>): every guest with a finite gas limit stops; memory, stack and control stay
    in bounds; host functions are reached only through grants.
  \<^item> \<^verbatim>\<open>Path_Namespace\<close> (\<^verbatim>\<open>vfs.rs\<close> and the blobs of \<^verbatim>\<open>codec.rs\<close>): the tree of directories refines a map from
    paths to entries, errors and capability checks included; a snapshot restores the namespace.
  \<^item> \<^verbatim>\<open>Lamport_Signature\<close>, \<^verbatim>\<open>Merkle_Signer\<close> (\<^verbatim>\<open>crypto.rs\<close>, \<^verbatim>\<open>tokensig.rs\<close> and the signer of \<^verbatim>\<open>bft.rs\<close>):
    one-time and many-time signatures over the hash, and tokens signed with them.  The locale
    \<open>correct_scheme\<close> says that what is signed verifies, \<open>scheme_pair\<close> composes two of them; both are
    interpreted on the model's schemes.
  \<^item> \<^verbatim>\<open>Bft_Consensus\<close>, \<^verbatim>\<open>Bft_Agreement\<close>, \<^verbatim>\<open>Bft_Liveness\<close> (\<^verbatim>\<open>bft.rs\<close>): the replica's whole message handler, the
    network of replicas as a step relation in which the adversary sends anything except a fresh vote
    under an honest replica's key, agreement by the locale \<open>locked_voting\<close> interpreted on reachable
    networks of \<open>3 f + 1\<close> replicas, and progress of a round whose messages are delivered.
  \<^item> \<^verbatim>\<open>Net_Stack\<close> (\<^verbatim>\<open>net.rs\<close>): Ethernet, ARP, IPv4, ICMP and UDP frames, checksums, and the
    capability-guarded port.
  \<^item> \<^verbatim>\<open>Chacha_Poly\<close>, \<^verbatim>\<open>Poly1305_Field\<close>, \<^verbatim>\<open>Aead\<close> (\<^verbatim>\<open>chacha.rs\<close>): the five-limb authenticator equals evaluation
    modulo \<open>2 ^ 130 - 5\<close>; incremental absorption is the locale \<open>absorbing\<close>; seal then open.
  \<^item> \<^verbatim>\<open>Galois_Byte\<close>, \<^verbatim>\<open>Field_Polynomial\<close>, \<^verbatim>\<open>Secret_Sharing\<close> (\<^verbatim>\<open>recovery.rs\<close>): arithmetic in the field of 256
    elements, interpolation over it, and both halves of Shamir's scheme: enough shares
    reconstruct, fewer say nothing.
  \<^item> \<^verbatim>\<open>Aes_Gcm\<close>, \<^verbatim>\<open>Ghash_Field\<close>, \<^verbatim>\<open>Aes_Reference\<close>, \<^verbatim>\<open>Sealed_Memory\<close> (\<^verbatim>\<open>memcrypt.rs\<close>): the table-driven cipher equals
    FIPS 197 written over the field, the table-driven hash equals multiplication in the field of
    \<open>2 ^ 128\<close> elements, the mode equals SP 800-38D with counter, padding and length block of its own, and the pages of a sealed region never reuse an
    initialisation vector before the counter wraps.
  \<^item> \<^verbatim>\<open>Vault\<close>, \<^verbatim>\<open>Vault_Refinement\<close> (\<^verbatim>\<open>vault.rs\<close>): the vault refines a store of plain objects under the
    contract \<open>aead_suite\<close>, interpreted on both ciphers; its audit ledger tells what happened.
  \<^item> \<^verbatim>\<open>Text_Buffer\<close>, \<^verbatim>\<open>Text_Editing\<close> (\<^verbatim>\<open>text.rs\<close>): the line buffer refines a flat character sequence with a
    cursor offset; a line is a character list, as the code indexes lines by character; a panic of
    the code is \<open>None\<close>; under the conditions on the anchor that the code leaves to its callers, no sequence of
    calls panics.

  Theorems that carry a claim number are the summit of a component; the same theories keep further
  theorems of equal standing without one.

  \<^bold>\<open>Hypotheses and bounds.\<close>  A theorem that needs the hash to be injective assumes it on the finite
  set of inputs that the statement names, never globally, and has an evaluated instance.
  Round trips bound the lengths by what the format stores (\<open>2 ^ 32\<close> in images and manifests,
  \<open>2 ^ 64\<close> in memory); disks have fewer than \<open>2 ^ 54\<close> blocks, so byte offsets do not overflow.
  \<open>load_node\<close> recurses over references in the graph and takes a fuel argument; the height of
  the materialised tree is enough, and the snapshot theorem states the result for every larger fuel.
  The allocator's size-class loop and the sandbox's run loop are partial functions; their
  termination is a theorem each, with the inputs on which they do not end.

  \<^bold>\<open>Not modelled.\<close>  Floating-point code (machine learning, rendering, statistics) needs IEEE
  arithmetic; kernel drivers and boot code mean what the hardware does; user interface, browser and
  shell are glue and presentation.  Formatting (\<^verbatim>\<open>Debug\<close>, \<^verbatim>\<open>Display\<close>), tests and randomised simulations
  are left out of the modelled files.  Panics of indexing and allocation failure are not
  represented where the code's own guards exclude them.

  \<^bold>\<open>Plan.\<close>  What would follow: the bytecode machine of the language, the zero-copy buffer pool, and the
  executable-format parser.
\<close>

end
